(* ===== verification/Prelude.thy ===== *)
theory Prelude
  imports Main "HOL-Library.Word"
begin

text \<open>
  Shared vocabulary of the development: the machine types, the result type of fallible
  Rust code (a panic and an error return are both values), the slice operations the code
  uses everywhere (\<open>chunks\<close>), and the generic lemmas on them.

  Arithmetic. Where overflow or bit patterns matter (the Feistel masks, SHA-256, bytes),
  integers are words of their width. Sizes and positions (\<open>usize\<close>, \<open>u64\<close> byte
  counts) are \<open>nat\<close>; a subtraction that can underflow is written as a panic.
\<close>

unbundle bit_operations_syntax

type_synonym u8 = "8 word"
type_synonym u32 = "32 word"
type_synonym u64 = "64 word"
type_synonym u128 = "128 word"

named_theorems model_defs \<open>unfolding equations of small model definitions\<close>

subsection \<open>Results\<close>

text \<open>A panic of the program, or an \<open>Err\<close> it returns, each with its message.\<close>

datatype err = Panic string | Fail string

type_synonym 'a res = "err + 'a"

text \<open>The \<open>?\<close> operator: the first error is the result.\<close>

fun bindR :: "'a res \<Rightarrow> ('a \<Rightarrow> 'b res) \<Rightarrow> 'b res" where
  "bindR (Inl e) f = Inl e"
| "bindR (Inr x) f = f x"

text \<open>\<open>ensure!(c, msg)\<close> followed by the rest of the function.\<close>

definition ensure :: "bool \<Rightarrow> string \<Rightarrow> 'a res \<Rightarrow> 'a res" where
  "ensure c msg r = (if c then r else Inl (Fail msg))"

definition is_ok :: "'a res \<Rightarrow> bool" where
  "is_ok r = (case r of Inl _ \<Rightarrow> False | Inr _ \<Rightarrow> True)"

lemma ensure_simps [simp]:
  "ensure True m r = r"
  "ensure False m r = Inl (Fail m)"
  by (simp_all add: ensure_def)

lemma bindR_eq_Inr: "bindR r f = Inr y \<longleftrightarrow> (\<exists>x. r = Inr x \<and> f x = Inr y)"
  by (cases r) auto

lemma ensure_eq_Inr: "ensure c m r = Inr y \<longleftrightarrow> c \<and> r = Inr y"
  by (simp add: ensure_def)

lemma is_ok_simps [simp]: "is_ok (Inr x)" "\<not> is_ok (Inl e)"
  by (simp_all add: is_ok_def)

lemma is_ok_iff: "is_ok r \<longleftrightarrow> (\<exists>x. r = Inr x)"
  by (cases r) auto

text \<open>\<open>iter.map(f).collect::<Result<Vec<_>>>()\<close>: in order, stopping at the first error.\<close>

fun collectR :: "('a \<Rightarrow> 'b res) \<Rightarrow> 'a list \<Rightarrow> 'b list res" where
  "collectR f [] = Inr []"
| "collectR f (x # xs) = bindR (f x) (\<lambda>y. bindR (collectR f xs) (\<lambda>ys. Inr (y # ys)))"

lemma collectR_Inr_iff:
  "collectR f xs = Inr ys \<longleftrightarrow> list_all2 (\<lambda>x y. f x = Inr y) xs ys"
  by (induction xs arbitrary: ys) (auto simp: bindR_eq_Inr list_all2_Cons1)

lemma collectR_length: "collectR f xs = Inr ys \<Longrightarrow> length ys = length xs"
  by (auto simp: collectR_Inr_iff dest: list_all2_lengthD)

lemma collectR_nth:
  "collectR f xs = Inr ys \<Longrightarrow> i < length xs \<Longrightarrow> f (xs ! i) = Inr (ys ! i)"
  by (auto simp: collectR_Inr_iff dest: list_all2_nthD)

lemma collectR_all_ok:
  "(\<And>x. x \<in> set xs \<Longrightarrow> f x = Inr (g x)) \<Longrightarrow> collectR f xs = Inr (map g xs)"
  by (induction xs) auto

lemma collectR_Inr [simp]: "collectR (\<lambda>x. Inr (g x)) xs = Inr (map g xs)"
  by (induction xs) auto

lemma collectR_cong: "(\<And>x. x \<in> set xs \<Longrightarrow> f x = g x) \<Longrightarrow> collectR f xs = collectR g xs"
  by (induction xs) auto

lemma collectR_map: "collectR f (map g xs) = collectR (f \<circ> g) xs"
  by (induction xs) auto

lemma collectR_append: "collectR f (xs @ ys) = bindR (collectR f xs) (\<lambda>us. bindR (collectR f ys) (\<lambda>vs. Inr (us @ vs)))"
proof (induction xs)
  case (Cons x xs)
  then show ?case by (cases "f x"; cases "collectR f xs"; cases "collectR f ys") auto
next
  case Nil
  show ?case by (cases "collectR f ys") auto
qed

lemma enumerate_map_upt: "enumerate 0 (map f [0..<n]) = map (\<lambda>i. (i, f i)) [0..<n]"
  by (rule nth_equalityI) (simp_all add: nth_enumerate_eq)

lemma collectR_enumerate:
  assumes "\<And>i. i < length xs \<Longrightarrow> \<exists>y. f (i, xs ! i) = Inr y \<and> Q i y"
  obtains ys where "collectR f (enumerate 0 xs) = Inr ys" "length ys = length xs" "\<And>i. i < length xs \<Longrightarrow> Q i (ys ! i)"
proof -
  obtain g where g: "\<And>i. i < length xs \<Longrightarrow> f (i, xs ! i) = Inr (g i) \<and> Q i (g i)" using assms by metis
  have "enumerate 0 xs = map (\<lambda>i. (i, xs ! i)) [0..<length xs]"
    using enumerate_map_upt [of "(!) xs" "length xs"] by (simp add: map_nth)
  then have "collectR f (enumerate 0 xs) = Inr (map g [0..<length xs])"
    using g by (simp add: collectR_map) (intro collectR_all_ok, simp)
  then show thesis by (rule that) (simp_all add: g)
qed

text \<open>Sequencing of computations that may not return (\<open>None\<close>) or fail.\<close>

definition bindO :: "'a res option \<Rightarrow> ('a \<Rightarrow> 'b res option) \<Rightarrow> 'b res option" where
  "bindO r f = (case r of None \<Rightarrow> None | Some (Inl e) \<Rightarrow> Some (Inl e) | Some (Inr x) \<Rightarrow> f x)"

lemma bindO_simps [simp]:
  "bindO None f = None" "bindO (Some (Inl e)) f = Some (Inl e)" "bindO (Some (Inr x)) f = f x"
  by (simp_all add: bindO_def)

text \<open>\<open>result.expect(msg)\<close>: an error is a panic.\<close>

definition expectR :: "string \<Rightarrow> 'a res \<Rightarrow> 'a res" where
  "expectR msg r = (case r of Inl _ \<Rightarrow> Inl (Panic msg) | Inr x \<Rightarrow> Inr x)"

lemma expectR_Inr [simp]: "expectR msg (Inr x) = Inr x"
  by (simp add: expectR_def)

subsection \<open>Words\<close>

lemma unat_2p: "n < LENGTH('a) \<Longrightarrow> unat (2 ^ n :: 'a::len word) = 2 ^ n"
proof -
  assume "n < LENGTH('a)"
  then have "(2::nat) ^ n < 2 ^ LENGTH('a)" by (intro power_strict_increasing) auto
  moreover have "(2 ^ n :: 'a word) = of_nat (2 ^ n)" by simp
  ultimately show ?thesis by (simp only: unat_of_nat mod_less)
qed

lemma word_2p_le: "m \<le> n \<Longrightarrow> n < LENGTH('a) \<Longrightarrow> (2 ^ m :: 'a::len word) \<le> 2 ^ n"
  by (simp add: word_le_nat_alt unat_2p power_increasing)

subsection \<open>Slices\<close>

definition slice_from :: "'a list \<Rightarrow> nat \<Rightarrow> 'a list res" where
  "slice_from xs n = (if n \<le> length xs then Inr (drop n xs) else Inl (Panic ''slice index out of range''))"

definition slice_to :: "'a list \<Rightarrow> nat \<Rightarrow> 'a list res" where
  "slice_to xs n = (if n \<le> length xs then Inr (take n xs) else Inl (Panic ''slice index out of range''))"

text \<open>\<open>slice[i]\<close>, \<open>slice[i..j]\<close>.\<close>

definition at_index :: "'a list \<Rightarrow> nat \<Rightarrow> 'a res" where
  "at_index xs i = (if i < length xs then Inr (xs ! i) else Inl (Panic ''index out of bounds''))"

definition slice :: "'a list \<Rightarrow> nat \<Rightarrow> nat \<Rightarrow> 'a list res" where
  "slice xs i j =
     (if i \<le> j \<and> j \<le> length xs then Inr (take (j - i) (drop i xs))
      else Inl (Panic ''slice index out of range''))"

text \<open>\<open>a - b\<close> on \<open>usize\<close> where it can underflow.\<close>

definition usub :: "nat \<Rightarrow> nat \<Rightarrow> nat res" where
  "usub a b = (if b \<le> a then Inr (a - b) else Inl (Panic ''attempt to subtract with overflow''))"

text \<open>\<open>a + b\<close> and \<open>a * b\<close> on 64 bits where they can overflow.\<close>

definition uadd :: "nat \<Rightarrow> nat \<Rightarrow> nat res" where
  "uadd a b = (if a + b < 2 ^ 64 then Inr (a + b) else Inl (Panic ''attempt to add with overflow''))"

definition umul :: "nat \<Rightarrow> nat \<Rightarrow> nat res" where
  "umul a b = (if a * b < 2 ^ 64 then Inr (a * b) else Inl (Panic ''attempt to multiply with overflow''))"

lemma at_index_Inr [simp]: "i < length xs \<Longrightarrow> at_index xs i = Inr (xs ! i)"
  by (simp add: at_index_def)

lemma slice_Inr [simp]: "i \<le> j \<Longrightarrow> j \<le> length xs \<Longrightarrow> slice xs i j = Inr (take (j - i) (drop i xs))"
  by (simp add: slice_def)

lemma usub_Inr [simp]: "b \<le> a \<Longrightarrow> usub a b = Inr (a - b)"
  by (simp add: usub_def)

lemma uadd_Inr: "a + b < 2 ^ 64 \<Longrightarrow> uadd a b = Inr (a + b)"
  by (simp add: uadd_def)

lemma umul_Inr: "a * b < 2 ^ 64 \<Longrightarrow> umul a b = Inr (a * b)"
  by (simp add: umul_def)

text \<open>\<open>slice.chunks(n)\<close>: pieces of \<open>n\<close> elements, the last one possibly shorter.\<close>

function chunks :: "nat \<Rightarrow> 'a list \<Rightarrow> 'a list list" where
  "chunks n xs = (if n = 0 \<or> xs = [] then [] else take n xs # chunks n (drop n xs))"
  by pat_completeness auto
termination by (relation "measure (\<lambda>(n, xs). length xs)") auto

declare chunks.simps [simp del]

lemma chunks_Nil [simp]: "chunks n [] = []"
  by (simp add: chunks.simps)

lemma chunks_step: "0 < n \<Longrightarrow> xs \<noteq> [] \<Longrightarrow> chunks n xs = take n xs # chunks n (drop n xs)"
  by (simp add: chunks.simps)

lemma chunks_append: "0 < n \<Longrightarrow> length xs = n \<Longrightarrow> chunks n (xs @ ys) = xs # chunks n ys"
  by (subst chunks_step) auto

lemma concat_chunks: "0 < n \<Longrightarrow> concat (chunks n xs) = xs"
  by (induction n xs rule: chunks.induct) (metis append_take_drop_id chunks.simps concat.simps not_gr0)

lemma chunks_concat:
  "0 < n \<Longrightarrow> (\<And>x. x \<in> set xss \<Longrightarrow> length x = n) \<Longrightarrow> chunks n (concat xss) = xss"
  by (induction xss) (auto simp: chunks_append)

lemma chunks_take_drop: "0 < n \<Longrightarrow> j < length (chunks n xs) \<Longrightarrow> j * n < length xs \<and> chunks n xs ! j = take n (drop (j * n) xs)"
proof (induction j arbitrary: xs)
  case 0
  then show ?case by (cases "xs = []") (simp_all add: chunks_step)
next
  case (Suc j)
  have "xs \<noteq> []" using Suc.prems by auto
  then have e: "chunks n xs = take n xs # chunks n (drop n xs)" using Suc.prems(1) by (simp add: chunks_step)
  then have "j * n < length xs - n" "chunks n (drop n xs) ! j = take n (drop (j * n + n) xs)"
    using Suc.IH [of "drop n xs"] Suc.prems by simp_all
  then show ?case by (simp add: e add.commute less_diff_conv)
qed

lemma chunks_reach: "0 < n \<Longrightarrow> i < length xs \<Longrightarrow> i div n < length (chunks n xs)"
proof (induction n xs arbitrary: i rule: chunks.induct)
  case (1 n xs)
  then have x: "xs \<noteq> []" by auto
  show ?case
  proof (cases "i < n")
    case False
    then have "(i - n) div n < length (chunks n (drop n xs))" using 1 x by auto
    then show ?thesis using False 1(2) x by (simp add: chunks_step le_div_geq)
  qed (use x 1(2) in \<open>simp add: chunks_step\<close>)
qed

lemma map_zip_chunks:
  "length xs = length ys \<Longrightarrow> map (\<lambda>(a, b). zip a b) (zip (chunks n xs) (chunks n ys)) = chunks n (zip xs ys)"
proof (induction n xs arbitrary: ys rule: chunks.induct)
  case (1 n xs)
  show ?case
  proof (cases "n = 0 \<or> xs = []")
    case False
    then have "ys \<noteq> []" "zip xs ys \<noteq> []" using 1(2) by auto
    then show ?thesis using False 1 by (simp add: chunks_step take_zip drop_zip)
  qed (use 1(2) in \<open>auto simp: chunks.simps\<close>)
qed

subsection \<open>Bytes, bits and words\<close>

text \<open>
  Bit \<open>i\<close> of a byte string, least significant bit of each byte first (the order of
  \<open>BitVec<LittleEndian, u8>\<close>); \<open>False\<close> beyond the end.
\<close>

definition nbit :: "u8 list \<Rightarrow> nat \<Rightarrow> bool" where
  "nbit bs i = (i < 8 * length bs \<and> bit (bs ! (i div 8)) (i mod 8))"

lemma nbit_Nil [simp]: "\<not> nbit [] i"
  by (simp add: nbit_def)

lemma nbit_beyond: "8 * length bs \<le> i \<Longrightarrow> \<not> nbit bs i"
  by (simp add: nbit_def)

lemma bytes_eqI:
  assumes "length xs = length ys" and "\<And>i. i < 8 * length xs \<Longrightarrow> nbit xs i = nbit ys i"
  shows "xs = ys"
proof (rule nth_equalityI [OF assms(1)], rule bit_word_eqI)
  fix i n assume "i < length xs" "n < LENGTH(8)"
  then show "bit (xs ! i) n = bit (ys ! i) n"
    using assms(2) [of "8 * i + n"] assms(1) by (simp add: nbit_def)
qed

lemma nbit_append:
  "nbit (xs @ ys) i = (if i < 8 * length xs then nbit xs i else nbit ys (i - 8 * length xs))"
proof (cases "i < 8 * length xs")
  case True
  then have "i div 8 < length xs" by linarith
  with True show ?thesis by (simp add: nbit_def nth_append)
next
  case False
  then obtain j where j: "i = 8 * length xs + j" by (metis le_Suc_ex not_less)
  have "i div 8 = length xs + j div 8" "i mod 8 = j mod 8" by (simp_all add: j)
  then show ?thesis by (simp add: nbit_def j nth_append)
qed

lemma nbit_take: "nbit (take n xs) i = (i < 8 * n \<and> nbit xs i)"
proof -
  have "i div 8 < n" if "i < 8 * n" using that by linarith
  then show ?thesis by (auto simp: nbit_def)
qed

lemma nbit_drop: "nbit (drop n xs) i = nbit xs (8 * n + i)"
proof (cases "n \<le> length xs")
  case True
  then show ?thesis by (auto simp: nbit_def add.commute)
qed (auto simp: nbit_def)

lemma nbit_replicate_0 [simp]: "\<not> nbit (replicate n 0) i"
  by (auto simp: nbit_def less_mult_imp_div_less mult.commute)

text \<open>\<open>from_le_bytes\<close>, \<open>to_le_bytes\<close> and the big-endian pair, at any width.\<close>

fun word_of_le :: "u8 list \<Rightarrow> 'a::len word" where
  "word_of_le [] = 0"
| "word_of_le (b # bs) = ucast b OR push_bit 8 (word_of_le bs)"

definition le_of_word :: "nat \<Rightarrow> 'a::len word \<Rightarrow> u8 list" where
  "le_of_word n w = map (\<lambda>i. ucast (drop_bit (8 * i) w)) [0..<n]"

definition word_of_be :: "u8 list \<Rightarrow> 'a::len word" where
  "word_of_be bs = word_of_le (rev bs)"

definition be_of_word :: "nat \<Rightarrow> 'a::len word \<Rightarrow> u8 list" where
  "be_of_word n w = rev (le_of_word n w)"

lemma length_le_of_word [simp]: "length (le_of_word n w) = n"
  by (simp add: le_of_word_def)

lemma length_be_of_word [simp]: "length (be_of_word n w) = n"
  by (simp add: be_of_word_def)

lemma nbit_Cons: "nbit (b # bs) i = (if i < 8 then bit b i else nbit bs (i - 8))"
  using nbit_append [of "[b]" bs i] by (auto simp: nbit_def)

lemma bit_word_of_le: "bit (word_of_le bs :: 'a::len word) i \<longleftrightarrow> i < LENGTH('a) \<and> nbit bs i"
proof (induction bs arbitrary: i)
  case Nil
  then show ?case by (simp add: nbit_def)
next
  case (Cons b bs)
  have "bit b i \<Longrightarrow> i < 8" using bit_imp_le_length [of b i] by simp
  then show ?case using Cons.IH [of "i - 8"] by (auto simp: bit_simps nbit_Cons)
qed

lemma nbit_le_of_word: "nbit (le_of_word n w) i \<longleftrightarrow> i < 8 * n \<and> bit w i"
proof -
  have "i div 8 < n" if "i < 8 * n" using that by linarith
  then show ?thesis by (auto simp: nbit_def le_of_word_def bit_simps)
qed

lemma word_of_le_of_word: "LENGTH('a) \<le> 8 * n \<Longrightarrow> word_of_le (le_of_word n (w :: 'a::len word)) = w"
  by (rule bit_word_eqI) (simp add: bit_word_of_le nbit_le_of_word)

lemma le_of_word_of_le:
  "8 * length bs \<le> LENGTH('a) \<Longrightarrow> le_of_word (length bs) (word_of_le bs :: 'a::len word) = bs"
  by (rule bytes_eqI) (auto simp: nbit_le_of_word bit_word_of_le)

lemma word_of_be_of_word: "LENGTH('a) \<le> 8 * n \<Longrightarrow> word_of_be (be_of_word n (w :: 'a::len word)) = w"
  by (simp add: word_of_be_def be_of_word_def word_of_le_of_word)

lemma be_of_word_of_be:
  "8 * length bs \<le> LENGTH('a) \<Longrightarrow> be_of_word (length bs) (word_of_be bs :: 'a::len word) = bs"
  using le_of_word_of_le [of "rev bs", where 'a = 'a] by (simp add: word_of_be_def be_of_word_def)

text \<open>A byte string given bit by bit.\<close>

definition byte_of :: "(nat \<Rightarrow> bool) \<Rightarrow> u8" where
  "byte_of f = horner_sum of_bool 2 (map f [0..<8])"

definition bytes_of :: "nat \<Rightarrow> (nat \<Rightarrow> bool) \<Rightarrow> u8 list" where
  "bytes_of n f = map (\<lambda>j. byte_of (\<lambda>k. f (8 * j + k))) [0..<n]"

lemma bit_byte_of: "bit (byte_of f) k \<longleftrightarrow> k < 8 \<and> f k"
  by (simp add: byte_of_def bit_horner_sum_bit_word_iff del: upt_rec_numeral) (auto)

lemma length_bytes_of [simp]: "length (bytes_of n f) = n"
  by (simp add: bytes_of_def)

lemma nbit_bytes_of: "nbit (bytes_of n f) i \<longleftrightarrow> i < 8 * n \<and> f i"
proof -
  have "i div 8 < n" if "i < 8 * n" using that by linarith
  then show ?thesis by (auto simp: nbit_def bytes_of_def bit_byte_of)
qed

lemma bytes_of_append: "bytes_of (m + n) f = bytes_of m f @ bytes_of n (\<lambda>i. f (8 * m + i))"
  by (rule bytes_eqI) (auto simp: nbit_bytes_of nbit_append)

lemma bytes_of_eqI:
  "length bs = n \<Longrightarrow> (\<And>i. i < 8 * n \<Longrightarrow> nbit bs i \<longleftrightarrow> f i) \<Longrightarrow> bs = bytes_of n f"
  by (rule bytes_eqI) (auto simp: nbit_bytes_of)

end
