(* ===== verification/Feistel.thy ===== *)
theory Feistel
  imports Prelude
begin

text \<open>
  The Feistel permutation of \<open>storage-proofs-core/src/crypto/feistel.rs\<close>: the masks
  (\<open>precompute\<close>), three rounds (\<open>encode\<close>, \<open>decode\<close>), and the cycle walking that
  turns a permutation of \<open>[0, 4^k)\<close> into one of \<open>[0, num_elements)\<close> (\<open>permute\<close>,
  \<open>invert_permute\<close>). The hash \<open>blake2b\<close> of the round function is a parameter: a
  function from bytes to bytes. All arithmetic is on \<open>u64\<close> words. The loops that may run
  forever return \<open>None\<close> when they do.
\<close>

section \<open>The code\<close>

definition FEISTEL_ROUNDS :: nat where
  "FEISTEL_ROUNDS = 3"

type_synonym feistel_precomputed = "u64 \<times> u64 \<times> u64"

partial_function (option) precompute_loop :: "u64 \<Rightarrow> u64 \<Rightarrow> u64 \<Rightarrow> u64 option" where
  "precompute_loop num_elements next_pow4 log4 =
     (if next_pow4 < num_elements
      then precompute_loop num_elements (next_pow4 * 4) (log4 + 1)
      else Some log4)"

definition precompute_masks :: "u64 \<Rightarrow> feistel_precomputed" where
  "precompute_masks log4 =
     (let left_mask = push_bit (unat log4) (push_bit (unat log4) 1 - 1);
          right_mask = push_bit (unat log4) 1 - 1;
          half_bits = log4
      in (left_mask, right_mask, half_bits))"

definition precompute :: "u64 \<Rightarrow> feistel_precomputed option" where
  "precompute num_elements =
     map_option precompute_masks (precompute_loop num_elements 4 1)"

definition common_setup :: "u64 \<Rightarrow> feistel_precomputed \<Rightarrow> u64 \<times> u64 \<times> u64 \<times> u64" where
  "common_setup index precomputed =
     (let (left_mask, right_mask, half_bits) = precomputed;
          left = drop_bit (unat half_bits) (index AND left_mask);
          right = index AND right_mask
      in (left, right, right_mask, half_bits))"

definition HALF_FEISTEL_BYTES :: nat where
  "HALF_FEISTEL_BYTES = 8"

definition FEISTEL_BYTES :: nat where
  "FEISTEL_BYTES = 2 * HALF_FEISTEL_BYTES"

definition feistel :: "(u8 list \<Rightarrow> u8 list) \<Rightarrow> u64 \<Rightarrow> u64 \<Rightarrow> u64 \<Rightarrow> u64" where
  "feistel blake2b right key right_mask =
     (let r =
        (if FEISTEL_BYTES \<le> 8 then
           (let data = map (\<lambda>s. ucast (drop_bit s right) :: u8) [24, 16, 8, 0]
                     @ map (\<lambda>s. ucast (drop_bit s key) :: u8) [24, 16, 8, 0];
                hash = blake2b data
            in push_bit 24 (ucast (hash ! 0)) OR push_bit 16 (ucast (hash ! 1))
               OR push_bit 8 (ucast (hash ! 2)) OR ucast (hash ! 3))
         else
           (let data = map (\<lambda>s. ucast (drop_bit s right) :: u8) [56, 48, 40, 32, 24, 16, 8, 0]
                     @ map (\<lambda>s. ucast (drop_bit s key) :: u8) [56, 48, 40, 32, 24, 16, 8, 0];
                hash = blake2b data
            in push_bit 56 (ucast (hash ! 0)) OR push_bit 48 (ucast (hash ! 1))
               OR push_bit 40 (ucast (hash ! 2)) OR push_bit 32 (ucast (hash ! 3))
               OR push_bit 24 (ucast (hash ! 4)) OR push_bit 16 (ucast (hash ! 5))
               OR push_bit 8 (ucast (hash ! 6)) OR ucast (hash ! 7)))
      in r AND right_mask)"

fun encode_rounds :: "(u8 list \<Rightarrow> u8 list) \<Rightarrow> u64 \<Rightarrow> u64 list \<Rightarrow> u64 \<times> u64 \<Rightarrow> u64 \<times> u64" where
  "encode_rounds blake2b right_mask [] (left, right) = (left, right)"
| "encode_rounds blake2b right_mask (key # keys) (left, right) =
     encode_rounds blake2b right_mask keys (right, left XOR feistel blake2b right key right_mask)"

definition feistel_encode :: "(u8 list \<Rightarrow> u8 list) \<Rightarrow> u64 \<Rightarrow> u64 list \<Rightarrow> feistel_precomputed \<Rightarrow> u64" where
  "feistel_encode blake2b index keys precomputed =
     (let (left0, right0, right_mask, half_bits) = common_setup index precomputed;
          (left, right) = encode_rounds blake2b right_mask (take FEISTEL_ROUNDS keys) (left0, right0)
      in push_bit (unat half_bits) left OR right)"

fun decode_rounds :: "(u8 list \<Rightarrow> u8 list) \<Rightarrow> u64 \<Rightarrow> u64 list \<Rightarrow> u64 \<times> u64 \<Rightarrow> u64 \<times> u64" where
  "decode_rounds blake2b right_mask [] (left, right) = (left, right)"
| "decode_rounds blake2b right_mask (key # keys) (left, right) =
     decode_rounds blake2b right_mask keys (right XOR feistel blake2b left key right_mask, left)"

text \<open>\<open>keys[i]\<close> panics when the slice has fewer than three keys.\<close>

definition feistel_decode ::
  "(u8 list \<Rightarrow> u8 list) \<Rightarrow> u64 \<Rightarrow> u64 list \<Rightarrow> feistel_precomputed \<Rightarrow> u64 res" where
  "feistel_decode blake2b index keys precomputed =
     (if length keys < FEISTEL_ROUNDS then Inl (Panic ''index out of bounds'')
      else
        let (left0, right0, right_mask, half_bits) = common_setup index precomputed;
            (left, right) =
              decode_rounds blake2b right_mask (map (\<lambda>i. keys ! i) (rev [0..<FEISTEL_ROUNDS])) (left0, right0)
        in Inr (push_bit (unat half_bits) left OR right))"

partial_function (option) permute_loop :: "(u64 \<Rightarrow> u64) \<Rightarrow> u64 \<Rightarrow> u64 \<Rightarrow> u64 option" where
  "permute_loop step num_elements u =
     (if num_elements \<le> u then permute_loop step num_elements (step u) else Some u)"

definition permute ::
  "(u8 list \<Rightarrow> u8 list) \<Rightarrow> u64 \<Rightarrow> u64 \<Rightarrow> u64 list \<Rightarrow> feistel_precomputed \<Rightarrow> u64 option" where
  "permute blake2b num_elements index keys precomputed =
     permute_loop (\<lambda>u. feistel_encode blake2b u keys precomputed) num_elements
       (feistel_encode blake2b index keys precomputed)"

partial_function (option) invert_loop :: "(u64 \<Rightarrow> u64 res) \<Rightarrow> u64 \<Rightarrow> u64 res \<Rightarrow> u64 res option" where
  "invert_loop step num_elements r =
     (case r of
        Inl e \<Rightarrow> Some (Inl e)
      | Inr u \<Rightarrow> if num_elements \<le> u then invert_loop step num_elements (step u) else Some (Inr u))"

definition invert_permute ::
  "(u8 list \<Rightarrow> u8 list) \<Rightarrow> u64 \<Rightarrow> u64 \<Rightarrow> u64 list \<Rightarrow> feistel_precomputed \<Rightarrow> u64 res option" where
  "invert_permute blake2b num_elements index keys precomputed =
     invert_loop (\<lambda>u. feistel_decode blake2b u keys precomputed) num_elements
       (feistel_decode blake2b index keys precomputed)"

section \<open>Cycle walking\<close>

text \<open>
  What the walk needs of the step: \<open>f\<close> and \<open>g\<close> are mutually inverse permutations of
  a set \<open>D\<close> of words that contains every word below the bound. The locale proves
  that the walk from a point below the bound returns a point below the bound, and that
  walking back with \<open>g\<close> returns the start.
\<close>

lemma permute_loop_funpow:
  "(f ^^ m) u < n \<Longrightarrow> (\<And>i. i < m \<Longrightarrow> n \<le> (f ^^ i) u) \<Longrightarrow>
   permute_loop f n u = Some ((f ^^ m) u)"
proof (induction m arbitrary: u)
  case 0
  then show ?case by (subst permute_loop.simps) (auto simp: not_le)
next
  case (Suc m)
  have "n \<le> u" using Suc.prems(2)[of 0] by simp
  moreover have "permute_loop f n (f u) = Some ((f ^^ m) (f u))"
  proof (rule Suc.IH)
    show "(f ^^ m) (f u) < n" using Suc.prems(1) by (simp add: funpow_swap1)
    show "n \<le> (f ^^ i) (f u)" if "i < m" for i
      using Suc.prems(2)[of "Suc i"] that by (simp add: funpow_swap1)
  qed
  ultimately show ?case by (subst permute_loop.simps) (simp add: funpow_swap1)
qed

lemma permute_loop_below: "permute_loop f n u = Some y \<Longrightarrow> y < n"
  by (erule permute_loop.raw_induct [where P = "\<lambda>step n u y. y < n", rotated])
     (auto split: if_splits simp: not_le)

lemma invert_loop_eq:
  "permute_loop g n u = Some y \<Longrightarrow> invert_loop (\<lambda>u. Inr (g u)) n (Inr u) = Some (Inr y)"
proof (erule permute_loop.raw_induct
    [where P = "\<lambda>g n u y. invert_loop (\<lambda>u. Inr (g u)) n (Inr u) = Some (Inr y)", rotated])
  fix w :: "(u64 \<Rightarrow> u64) \<Rightarrow> u64 \<Rightarrow> u64 \<Rightarrow> u64 option" and step n u y
  assume "\<And>s n u y. w s n u = Some y \<Longrightarrow> invert_loop (\<lambda>u. Inr (s u)) n (Inr u) = Some (Inr y)"
    and "(if n \<le> u then w step n (step u) else Some u) = Some y"
  then show "invert_loop (\<lambda>u. Inr (step u)) n (Inr u) = Some (Inr y)"
    by (subst invert_loop.simps) (auto split: if_splits)
qed

locale cycle_walk =
  fixes f g :: "u64 \<Rightarrow> u64" and D :: "u64 set"
  assumes f_in: "x \<in> D \<Longrightarrow> f x \<in> D"
    and g_in: "x \<in> D \<Longrightarrow> g x \<in> D"
    and gf: "x \<in> D \<Longrightarrow> g (f x) = x"
    and fg: "x \<in> D \<Longrightarrow> f (g x) = x"
begin

lemma funpow_in: "x \<in> D \<Longrightarrow> (f ^^ k) x \<in> D"
  by (induction k) (auto intro: f_in)

lemma funpow_back: "x \<in> D \<Longrightarrow> i \<le> k \<Longrightarrow> (g ^^ i) ((f ^^ k) x) = (f ^^ (k - i)) x"
proof (induction i arbitrary: k)
  case (Suc i)
  then obtain k' where k: "k = Suc k'" by (cases k) auto
  have "(g ^^ Suc i) ((f ^^ Suc k') x) = (g ^^ i) (g (f ((f ^^ k') x)))"
    by (simp add: funpow_swap1)
  also have "\<dots> = (g ^^ i) ((f ^^ k') x)" by (simp add: gf funpow_in Suc.prems)
  also have "\<dots> = (f ^^ (k' - i)) x" using Suc.prems by (intro Suc.IH) (auto simp: k)
  finally show ?case by (simp add: k)
qed simp

lemma orbit_returns:
  assumes "x \<in> D"
  shows "\<exists>k>0. (f ^^ k) x = x"
proof -
  have "\<not> inj (\<lambda>k. (f ^^ k) x)"
    using finite_imageD [of "\<lambda>k. (f ^^ k) x" UNIV] by (auto simp: inj_def infinite_UNIV_nat)
  then obtain i j where "(f ^^ i) x = (f ^^ j) x" and "i < j"
    unfolding inj_def by (metis linorder_neqE_nat)
  then have "(f ^^ 0) x = (f ^^ (j - i)) x"
    using funpow_back [OF assms, of i i] funpow_back [OF assms, of i j] by simp
  then show ?thesis using \<open>i < j\<close> by (intro exI [of _ "j - i"]) auto
qed

lemma walk_round_trip:
  assumes "x \<in> D" and "x < n"
  shows "\<exists>y. permute_loop f n (f x) = Some y \<and> y < n \<and> y \<in> D \<and> permute_loop g n (g y) = Some x"
proof -
  obtain k where "k > 0" "(f ^^ k) x = x" using orbit_returns [OF assms(1)] by blast
  then have ex: "\<exists>j. 0 < j \<and> (f ^^ j) x < n" using assms(2) by auto
  define j where "j = (LEAST j. 0 < j \<and> (f ^^ j) x < n)"
  from LeastI_ex [OF ex] have j: "0 < j" "(f ^^ j) x < n" by (auto simp: j_def)
  have least: "n \<le> (f ^^ i) x" if "0 < i" "i < j" for i
    using not_less_Least [of i "\<lambda>j. 0 < j \<and> (f ^^ j) x < n"] that by (auto simp: j_def not_less)
  obtain m where m: "j = Suc m" using j(1) by (cases j) auto
  let ?y = "(f ^^ j) x"
  have "permute_loop f n (f x) = Some ((f ^^ m) (f x))"
  proof (rule permute_loop_funpow)
    show "(f ^^ m) (f x) < n" using j(2) by (simp add: m funpow_swap1)
    show "n \<le> (f ^^ i) (f x)" if "i < m" for i
      using least [of "Suc i"] that by (simp add: m funpow_swap1)
  qed
  moreover have "permute_loop g n (g ?y) = Some ((g ^^ m) (g ?y))"
  proof (rule permute_loop_funpow)
    have "(g ^^ m) (g ?y) = (g ^^ j) ?y" by (simp add: m funpow_swap1)
    then show "(g ^^ m) (g ?y) < n" using funpow_back [OF assms(1), of j j] assms(2) by simp
    fix i assume "i < m"
    have "(g ^^ i) (g ?y) = (g ^^ Suc i) ?y" by (simp add: funpow_swap1)
    also have "\<dots> = (f ^^ (j - Suc i)) x" using \<open>i < m\<close> by (intro funpow_back assms) (simp add: m)
    finally show "n \<le> (g ^^ i) (g ?y)" using least [of "j - Suc i"] \<open>i < m\<close> by (simp add: m)
  qed
  moreover have "(g ^^ m) (g ?y) = x"
    using funpow_back [OF assms(1), of j j] by (simp add: m funpow_swap1)
  ultimately show ?thesis
    using j(2) funpow_in [OF assms(1), of j] by (simp add: m funpow_swap1)
qed

end


section \<open>The rounds are a permutation of the masked words\<close>

definition feistel_domain :: "nat \<Rightarrow> u64 set" where
  "feistel_domain h = {u. u AND mask (2 * h) = u}"

lemma right_mask_eq: "2 ^ h - 1 = (mask h :: u64)"
  by (simp add: mask_eq_exp_minus_1)

definition masked :: "u64 \<Rightarrow> u64 \<times> u64 \<Rightarrow> bool" where
  "masked m p = (fst p AND m = fst p \<and> snd p AND m = snd p)"

lemma feistel_masked [simp]: "feistel blake2b r k m AND m = feistel blake2b r k m"
  by (simp add: feistel_def Let_def and.assoc)

lemma masked_xor: "a AND m = a \<Longrightarrow> b AND m = b \<Longrightarrow> (a XOR b) AND m = a XOR (b::u64)"
  by (simp add: bit.conj_xor_distrib2)

lemma encode_rounds_masked: "masked m p \<Longrightarrow> masked m (encode_rounds blake2b m ks p)"
  by (induction blake2b m ks p rule: encode_rounds.induct) (auto simp: masked_def masked_xor)

lemma decode_rounds_masked: "masked m p \<Longrightarrow> masked m (decode_rounds blake2b m ks p)"
  by (induction blake2b m ks p rule: decode_rounds.induct) (auto simp: masked_def masked_xor)

lemma encode_rounds_append:
  "encode_rounds blake2b m (ks @ ks') p = encode_rounds blake2b m ks' (encode_rounds blake2b m ks p)"
  by (induction blake2b m ks p rule: encode_rounds.induct) auto

lemma decode_rounds_append:
  "decode_rounds blake2b m (ks @ ks') p = decode_rounds blake2b m ks' (decode_rounds blake2b m ks p)"
  by (induction blake2b m ks p rule: decode_rounds.induct) auto

text \<open>Decoding undoes the rounds in reverse order, and the other way round.\<close>

lemma decode_encode_rounds: "decode_rounds blake2b m (rev ks) (encode_rounds blake2b m ks p) = p"
  by (induction blake2b m ks p rule: encode_rounds.induct)
     (auto simp: decode_rounds_append xor.assoc)

lemma encode_decode_rounds: "encode_rounds blake2b m (rev ks) (decode_rounds blake2b m ks p) = p"
  by (induction blake2b m ks p rule: decode_rounds.induct)
     (auto simp: encode_rounds_append xor.assoc)

definition split_word :: "nat \<Rightarrow> u64 \<Rightarrow> u64 \<times> u64" where
  "split_word h u = (drop_bit h (u AND push_bit h (mask h)), u AND mask h)"

definition join_word :: "nat \<Rightarrow> u64 \<times> u64 \<Rightarrow> u64" where
  "join_word h p = push_bit h (fst p) OR snd p"

lemma split_masked: "masked (mask h) (split_word h u)"
  by (auto simp: masked_def split_word_def and.assoc intro!: bit_word_eqI)
     (auto simp: bit_simps)

lemma join_in_domain: "masked (mask h) p \<Longrightarrow> join_word h p \<in> feistel_domain h"
proof -
  assume "masked (mask h) p"
  then have *: "bit (fst p) n \<Longrightarrow> n < h" "bit (snd p) n \<Longrightarrow> n < h" for n
    by (metis bit_and_iff bit_mask_iff masked_def)+
  show ?thesis
    by (auto simp: feistel_domain_def join_word_def bit_simps intro!: bit_word_eqI dest!: *)
qed

lemma join_split: "u \<in> feistel_domain h \<Longrightarrow> join_word h (split_word h u) = u"
proof -
  assume "u \<in> feistel_domain h"
  then have *: "bit u n \<Longrightarrow> n < 2 * h" for n
    by (metis (mono_tags, lifting) bit_and_iff bit_mask_iff feistel_domain_def mem_Collect_eq)
  show ?thesis
    by (auto simp: join_word_def split_word_def bit_simps intro!: bit_word_eqI) (frule *, simp)+
qed

lemma split_join:
  assumes "masked (mask h) p" and "h \<le> 32"
  shows "split_word h (join_word h p) = p"
proof -
  obtain a b where p: "p = (a, b)" by (cases p)
  from assms(1) have a: "bit a n \<Longrightarrow> n < h" and b: "bit b n \<Longrightarrow> n < h" for n
    by (metis bit_and_iff bit_mask_iff masked_def p fst_conv, metis bit_and_iff bit_mask_iff masked_def p snd_conv)
  have "drop_bit h (join_word h p AND push_bit h (mask h)) = a"
    using assms(2) by (auto simp: join_word_def p bit_simps intro!: bit_word_eqI dest: b) (frule a, simp)+
  moreover have "join_word h p AND mask h = b"
    by (auto simp: join_word_def p bit_simps intro!: bit_word_eqI dest: b)
  ultimately show ?thesis by (simp add: split_word_def p)
qed

text \<open>The code's masks for a given half width, and encode/decode through the split view.\<close>

lemma common_setup_masks:
  "common_setup u (precompute_masks hw) =
     (fst (split_word (unat hw) u), snd (split_word (unat hw) u), mask (unat hw), hw)"
  by (simp add: common_setup_def precompute_masks_def split_word_def Let_def right_mask_eq)

lemma feistel_encode_eq:
  "feistel_encode blake2b u ks (precompute_masks hw) =
     join_word (unat hw) (encode_rounds blake2b (mask (unat hw)) (take 3 ks) (split_word (unat hw) u))"
  by (simp add: feistel_encode_def common_setup_masks join_word_def FEISTEL_ROUNDS_def split_beta)

lemma decode_keys:
  "3 \<le> length ks \<Longrightarrow> map (\<lambda>i. ks ! i) (rev [0..<FEISTEL_ROUNDS]) = rev (take 3 ks)"
proof -
  assume "3 \<le> length ks"
  then have "map (\<lambda>i. ks ! i) [0..<3] = take 3 ks" by (intro nth_equalityI) auto
  then show ?thesis by (simp only: FEISTEL_ROUNDS_def rev_map [symmetric])
qed

definition feistel_decode_pure ::
  "(u8 list \<Rightarrow> u8 list) \<Rightarrow> u64 \<Rightarrow> u64 list \<Rightarrow> nat \<Rightarrow> u64" where
  "feistel_decode_pure blake2b u ks h =
     join_word h (decode_rounds blake2b (mask h) (rev (take 3 ks)) (split_word h u))"

lemma feistel_decode_eq:
  "3 \<le> length ks \<Longrightarrow>
   feistel_decode blake2b u ks (precompute_masks hw) = Inr (feistel_decode_pure blake2b u ks (unat hw))"
  by (simp add: feistel_decode_def common_setup_masks join_word_def feistel_decode_pure_def
      decode_keys split_beta) (simp add: FEISTEL_ROUNDS_def)

lemma cycle_walk_rounds:
  "h \<le> 32 \<Longrightarrow> cycle_walk
     (\<lambda>u. join_word h (encode_rounds blake2b (mask h) ks (split_word h u)))
     (\<lambda>u. join_word h (decode_rounds blake2b (mask h) (rev ks) (split_word h u)))
     (feistel_domain h)"
proof
  assume h: "h \<le> 32"
  fix x :: u64
  show "join_word h (encode_rounds blake2b (mask h) ks (split_word h x)) \<in> feistel_domain h"
    and "join_word h (decode_rounds blake2b (mask h) (rev ks) (split_word h x)) \<in> feistel_domain h"
    by (intro join_in_domain encode_rounds_masked decode_rounds_masked split_masked)+
  assume x: "x \<in> feistel_domain h"
  show "join_word h (decode_rounds blake2b (mask h) (rev ks)
      (split_word h (join_word h (encode_rounds blake2b (mask h) ks (split_word h x))))) = x"
    by (simp add: split_join encode_rounds_masked split_masked h decode_encode_rounds join_split x)
  show "join_word h (encode_rounds blake2b (mask h) ks
      (split_word h (join_word h (decode_rounds blake2b (mask h) (rev ks) (split_word h x))))) = x"
    using encode_decode_rounds [of blake2b "mask h" "rev ks"]
    by (simp add: split_join decode_rounds_masked split_masked h join_split x)
qed

text \<open>
  The interpretation on the code's \<open>encode\<close> and \<open>decode\<close>: for every hash, every four
  keys (the array a \<open>StackedGraph\<close> holds) and every half width that \<open>precompute\<close> can
  return (at most 31).
\<close>

interpretation fw: cycle_walk
  "\<lambda>u. feistel_encode blake2b u [k0, k1, k2, k3] (precompute_masks (of_nat (min h 32)))"
  "\<lambda>u. feistel_decode_pure blake2b u [k0, k1, k2, k3] (min h 32)"
  "feistel_domain (min h 32)"
proof -
  have "unat (of_nat (min h 32) :: u64) = min h 32"
    by (simp add: unat_of_nat min_def)
  then show "cycle_walk (\<lambda>u. feistel_encode blake2b u [k0, k1, k2, k3] (precompute_masks (of_nat (min h 32))))
      (\<lambda>u. feistel_decode_pure blake2b u [k0, k1, k2, k3] (min h 32)) (feistel_domain (min h 32))"
    using cycle_walk_rounds [of "min h 32" blake2b "take 3 [k0, k1, k2, k3]"]
    by (simp add: feistel_encode_eq feistel_decode_pure_def)
qed

section \<open>\<open>precompute\<close>\<close>

lemma precompute_loop_Some:
  "num \<le> 2 ^ 62 \<Longrightarrow> 0 < h \<Longrightarrow> h \<le> 31 \<Longrightarrow>
   \<exists>k. h \<le> k \<and> k \<le> 31 \<and> precompute_loop num (2 ^ (2 * h)) (of_nat h) = Some (of_nat k) \<and> num \<le> 2 ^ (2 * k)"
proof (induction "31 - h" arbitrary: h)
  case 0
  then have "h = 31" by simp
  with 0 show ?case
    by (intro exI [of _ 31]) (subst precompute_loop.simps, auto simp: not_less)
next
  case (Suc d)
  show ?case
  proof (cases "2 ^ (2 * h) < num")
    case True
    have "31 - Suc h = d" using Suc.hyps(2) by simp
    moreover have "Suc h \<le> 31" using Suc.hyps(2) by simp
    ultimately obtain k where k: "Suc h \<le> k" "k \<le> 31" "num \<le> 2 ^ (2 * k)"
      "precompute_loop num (2 ^ (2 * Suc h)) (of_nat (Suc h)) = Some (of_nat k)"
      using Suc.hyps(1) [of "Suc h"] Suc.prems(1) by blast
    from k(4) have "precompute_loop num (2 ^ (2 * h) * 4) (of_nat h + 1) = Some (of_nat k)"
      by (simp add: ac_simps)
    with True k show ?thesis
      by (intro exI [of _ k]) (subst precompute_loop.simps, simp)
  next
    case False
    then show ?thesis using Suc.prems
      by (intro exI [of _ h]) (subst precompute_loop.simps, auto simp: not_less)
  qed
qed

lemma precompute_masks_of:
  assumes "num \<le> 2 ^ 62"
  obtains h where "0 < h" "h \<le> 31" "precompute num = Some (precompute_masks (of_nat h))"
    "num \<le> 2 ^ (2 * h)"
proof -
  obtain k where "1 \<le> k" "k \<le> 31" "precompute_loop num 4 1 = Some (of_nat k)" "num \<le> 2 ^ (2 * k)"
    using precompute_loop_Some [OF assms, of 1] by auto
  then show thesis by (intro that [of k]) (auto simp: precompute_def)
qed

text \<open>Above \<open>2^62\<close> the multiplication wraps to 0 and the loop never ends.\<close>

lemma precompute_loop_wraps:
  assumes "precompute_loop num next log4 = Some y" and "2 ^ 62 < num" and "next = 2 ^ (2 * k)"
  shows False
proof -
  have "2 ^ 62 < num \<longrightarrow> (\<forall>k. next = 2 ^ (2 * k) \<longrightarrow> False)"
  proof (rule precompute_loop.raw_induct [where P = "\<lambda>num next l y.
      2 ^ 62 < num \<longrightarrow> (\<forall>k. next = 2 ^ (2 * k) \<longrightarrow> False)", OF _ assms(1)], intro impI allI)
    fix w :: "u64 \<Rightarrow> u64 \<Rightarrow> u64 \<Rightarrow> u64 option" and num "next" l y k
    assume IH: "\<And>num next l y. w num next l = Some y \<Longrightarrow>
        2 ^ 62 < num \<longrightarrow> (\<forall>k. next = 2 ^ (2 * k) \<longrightarrow> False)"
      and eq: "(if next < num then w num (next * 4) (l + 1) else Some l) = Some y"
      and num: "2 ^ 62 < num" and k: "next = 2 ^ (2 * k)"
    have "(2 ^ (2 * k) :: u64) \<le> 2 ^ 62"
    proof (cases "k \<le> 31")
      case True
      then show ?thesis by (intro word_2p_le) auto
    next
      case False
      then have "LENGTH(64) \<le> 2 * k" by simp
      then have "(2 ^ (2 * k) :: u64) = 0" by (simp only: exp_eq_zero_iff)
      then show ?thesis by (simp only: word_zero_le)
    qed
    with num k have "next < num" by simp
    moreover have "next * 4 = 2 ^ (2 * Suc k)" using k by simp
    moreover from eq \<open>next < num\<close> have "w num (next * 4) (l + 1) = Some y" by simp
    ultimately show False using IH num by blast
  qed
  then show False using assms(2,3) by blast
qed

section \<open>Properties\<close>

lemma take3: "3 \<le> length ks \<Longrightarrow> take 3 ks = take 3 [ks ! 0, ks ! 1, ks ! 2, k3]"
  by (rule nth_equalityI) (auto simp: less_Suc_eq numeral_3_eq_3 numeral_2_eq_2)

lemma encode_take3:
  "3 \<le> length ks \<Longrightarrow> feistel_encode blake2b u ks pre = feistel_encode blake2b u [ks ! 0, ks ! 1, ks ! 2, k3] pre"
  by (simp only: feistel_encode_def FEISTEL_ROUNDS_def take3 [of ks k3])

lemma decode_pure_take3:
  "3 \<le> length ks \<Longrightarrow>
   feistel_decode_pure blake2b u ks h = feistel_decode_pure blake2b u [ks ! 0, ks ! 1, ks ! 2, k3] h"
  by (simp only: feistel_decode_pure_def take3 [of ks k3])

lemma below_in_domain: "u < num \<Longrightarrow> num \<le> 2 ^ (2 * h) \<Longrightarrow> 2 * h < 64 \<Longrightarrow> u \<in> feistel_domain h"
proof -
  assume "u < num" "num \<le> 2 ^ (2 * h)" "2 * h < 64"
  then have "unat u < 2 ^ (2 * h)" by (simp add: word_less_nat_alt word_le_nat_alt unat_2p)
  then have "take_bit (2 * h) u = u"
    by (intro word_unat_eq_iff [THEN iffD2]) (simp add: unsigned_take_bit_eq take_bit_nat_eq_self)
  then show ?thesis by (simp add: feistel_domain_def take_bit_eq_mask)
qed

lemma feistel_cases:
  assumes "num \<le> 2 ^ 62" and "3 \<le> length ks"
  obtains h pre where "precompute num = Some pre" "h \<le> 31" "num \<le> 2 ^ (2 * h)"
    "\<And>n u. feistel_decode blake2b u ks pre = Inr (feistel_decode_pure blake2b u ks h)"
    "cycle_walk (\<lambda>u. feistel_encode blake2b u ks pre) (\<lambda>u. feistel_decode_pure blake2b u ks h) (feistel_domain h)"
proof -
  obtain h where h: "h \<le> 31" "precompute num = Some (precompute_masks (of_nat h))" "num \<le> 2 ^ (2 * h)"
    using precompute_masks_of [OF assms(1)] by blast
  have u: "unat (of_nat h :: u64) = h" using h(1) by (simp add: unat_of_nat)
  have "min h 32 = h" using h(1) by simp
  then have "cycle_walk (\<lambda>u. feistel_encode blake2b u ks (precompute_masks (of_nat h)))
      (\<lambda>u. feistel_decode_pure blake2b u ks h) (feistel_domain h)"
    using fw.cycle_walk_axioms [of blake2b "ks ! 0" "ks ! 1" "ks ! 2" undefined h]
    by (simp add: encode_take3 [OF assms(2), of blake2b _ _ undefined]
        decode_pure_take3 [OF assms(2), of blake2b _ _ undefined])
  with h u show thesis
    by (intro that [of "precompute_masks (of_nat h)" h]) (auto simp: feistel_decode_eq assms(2))
qed

lemma permute_round_trip:
  assumes "num \<le> 2 ^ 62" and "index < num" and "3 \<le> length keys"
  shows "\<exists>pre y. precompute num = Some pre \<and>
    permute blake2b num index keys pre = Some y \<and> y < num \<and>
    invert_permute blake2b num y keys pre = Some (Inr index)"
proof -
  obtain h pre where h: "precompute num = Some pre" "h \<le> 31" "num \<le> 2 ^ (2 * h)"
    and dec: "\<And>u. feistel_decode blake2b u keys pre = Inr (feistel_decode_pure blake2b u keys h)"
    and cw: "cycle_walk (\<lambda>u. feistel_encode blake2b u keys pre)
      (\<lambda>u. feistel_decode_pure blake2b u keys h) (feistel_domain h)"
    using feistel_cases [OF assms(1,3)] by metis
  have "index \<in> feistel_domain h" using assms(2) h by (intro below_in_domain) auto
  from cycle_walk.walk_round_trip [OF cw this assms(2)] obtain y where
    "permute_loop (\<lambda>u. feistel_encode blake2b u keys pre) num (feistel_encode blake2b index keys pre) = Some y"
    "y < num"
    "permute_loop (\<lambda>u. feistel_decode_pure blake2b u keys h) num (feistel_decode_pure blake2b y keys h) = Some index"
    by blast
  then show ?thesis
    by (intro exI [of _ pre] exI [of _ y])
       (simp add: permute_def invert_permute_def dec h(1) invert_loop_eq)
qed

lemma permute_in_range:
  assumes "num \<le> 2 ^ 62" and "3 \<le> length keys" and "precompute num = Some pre" and "i < num"
  obtains y where "permute blake2b num i keys pre = Some y" "y < num"
    "invert_permute blake2b num y keys pre = Some (Inr i)"
  using permute_round_trip [OF assms(1,4,2), of blake2b] assms(3) by auto

lemma permute_bij_betw:
  assumes "num \<le> 2 ^ 62" and "3 \<le> length keys" and "precompute num = Some pre"
  shows "bij_betw (\<lambda>i. the (permute blake2b num i keys pre)) {..<num} {..<num}"
proof -
  let ?p = "\<lambda>i. the (permute blake2b num i keys pre)"
  have p: "?p i < num \<and> invert_permute blake2b num (?p i) keys pre = Some (Inr i)" if "i < num" for i
    using permute_in_range [OF assms that, of blake2b] by (metis option.sel)
  have "inj_on ?p {..<num}" by (rule inj_onI) (metis lessThan_iff option.inject p sum.inject(2))
  moreover have "?p ` {..<num} \<subseteq> {..<num}" using p by auto
  ultimately show ?thesis by (simp add: bij_betw_def endo_inj_surj)
qed

text \<open>
  C27. For every hash function, at least three keys and at most \<open>2^62\<close> elements, the masks
  exist, the cycle-walking loop of \<open>permute\<close> ends from every index in range and lands in
  range, and \<open>invert_permute\<close> ends there too and returns the index it came from.
\<close>

theorem permute_invert_permute:
  assumes "num \<le> 2 ^ 62" and "index < num" and "3 \<le> length keys"
  shows "\<exists>pre y. precompute num = Some pre \<and>
    permute blake2b num index keys pre = Some y \<and> y < num \<and>
    invert_permute blake2b num y keys pre = Some (Inr index)"
  using assms by (rule permute_round_trip)

theorem permute_invert_permute_witness:
  "\<exists>pre y. precompute 5 = Some pre \<and> permute (\<lambda>_. replicate 64 7) 5 3 [1, 2, 3, 4] pre = Some y
     \<and> y < 5 \<and> invert_permute (\<lambda>_. replicate 64 7) 5 y [1, 2, 3, 4] pre = Some (Inr 3)"
  by (rule permute_invert_permute) simp_all

text \<open>
  \<open>permute\<close> is a permutation of \<open>[0, num_elements)\<close>: every index is hit exactly once.
\<close>

theorem permute_bij:
  assumes "num \<le> 2 ^ 62" and "3 \<le> length keys" and "precompute num = Some pre"
  shows "bij_betw (\<lambda>i. the (permute blake2b num i keys pre)) {..<num} {..<num}"
  using assms by (rule permute_bij_betw)

theorem permute_bij_witness:
  "bij_betw (\<lambda>i. the (permute (\<lambda>_. replicate 64 7) 6 i [1, 2, 3, 4]
     (precompute_masks 2))) {..<6} {..<6}"
proof (rule permute_bij)
  have "precompute_loop 6 4 1 = Some 2"
    by (subst precompute_loop.simps, simp, subst precompute_loop.simps, simp)
  then show "precompute 6 = Some (precompute_masks 2)" by (simp add: precompute_def)
qed simp_all

text \<open>
  C34. \<open>precompute\<close> ends exactly for the element counts up to \<open>2^62\<close>: above it, the \<open>u64\<close>
  product wraps to 0 before it reaches the count, and the loop runs forever.
\<close>

theorem precompute_ends_iff: "(\<exists>pre. precompute num = Some pre) \<longleftrightarrow> num \<le> 2 ^ 62"
proof
  assume "\<exists>pre. precompute num = Some pre"
  then obtain k where "precompute_loop num 4 1 = Some k" by (auto simp: precompute_def)
  then show "num \<le> 2 ^ 62"
    using precompute_loop_wraps [of num 4 1 k 1] by (metis mult.right_neutral not_le power2_eq_square numeral_times_numeral semiring_norm(13) semiring_norm(11))
next
  assume "num \<le> 2 ^ 62"
  then show "\<exists>pre. precompute num = Some pre" by (rule precompute_masks_of) blast
qed

end
