(* ===== verification/Fr32_Padding.thy ===== *)
theory Fr32_Padding
  imports Prelude
begin

text \<open>
  Unpadding of \<open>fr32/src/padding.rs\<close>: the padding map, positions with bit precision, the
  bit extraction on byte slices and the loop of \<open>write_unpadded_aux\<close>. Sizes are \<open>nat\<close>;
  a subtraction of the code that would underflow is a panic (the behaviour of a build with
  overflow checks). The target of the writer is a parameter: a state and a
  \<open>write_all\<close> on it.
\<close>

section \<open>The code\<close>

record padding_map =
  data_bits :: nat
  element_bits :: nat

definition FR32_PADDING_MAP :: padding_map where
  "FR32_PADDING_MAP = \<lparr>data_bits = 254, element_bits = 256\<rparr>"

record bit_byte =
  bb_bytes :: nat
  bb_bits :: nat

definition from_bits :: "nat \<Rightarrow> bit_byte" where
  "from_bits bits = \<lparr>bb_bytes = bits div 8, bb_bits = bits mod 8\<rparr>"

definition total_bits :: "bit_byte \<Rightarrow> nat" where
  "total_bits b = bb_bytes b * 8 + bb_bits b"

definition bytes_needed :: "bit_byte \<Rightarrow> nat" where
  "bytes_needed b = bb_bytes b + (if bb_bits b = 0 then 0 else 1)"

definition pad_bits :: "padding_map \<Rightarrow> nat" where
  "pad_bits m = element_bits m - data_bits m"

definition div_rem :: "nat \<Rightarrow> nat \<Rightarrow> nat \<times> nat" where
  "div_rem a b = (a div b, a mod b)"

definition transform_bit_offset :: "padding_map \<Rightarrow> nat \<Rightarrow> bool \<Rightarrow> nat" where
  "transform_bit_offset m pos padding =
     (let (from_size, to_size) =
            (if padding then (data_bits m, element_bits m) else (element_bits m, data_bits m));
          (full_elements, incomplete_data) = div_rem pos from_size
      in full_elements * to_size + incomplete_data)"

text \<open>
  \<open>n as f64\<close>: rounding to 53 significant bits, ties to even. The value is an integer, and
  dividing it by 8 is exact, so \<open>ceil\<close> and \<open>floor\<close> of the quotient are integer
  divisions.
\<close>

function f64_scale :: "nat \<Rightarrow> nat" where
  "f64_scale n = (if n < 2 ^ 53 then 0 else Suc (f64_scale (n div 2)))"
  by pat_completeness auto
termination by (relation "measure id") auto

declare f64_scale.simps [simp del]

definition f64_of_nat :: "nat \<Rightarrow> nat" where
  "f64_of_nat n =
     (let u = 2 ^ f64_scale n; q = n div u; r = n mod u
      in (if 2 * r < u \<or> 2 * r = u \<and> even q then q else q + 1) * u)"

definition transform_byte_offset :: "padding_map \<Rightarrow> nat \<Rightarrow> bool \<Rightarrow> nat" where
  "transform_byte_offset m pos padding =
     (let transformed_bit_pos = transform_bit_offset m (pos * 8) padding;
          f = f64_of_nat transformed_bit_pos
      in if padding then (f + 7) div 8 else f div 8)"

definition to_unpadded_bytes :: "nat \<Rightarrow> nat" where
  "to_unpadded_bytes padded_bytes = transform_byte_offset FR32_PADDING_MAP padded_bytes False"

definition to_padded_bytes :: "nat \<Rightarrow> nat" where
  "to_padded_bytes unpadded_bytes = transform_byte_offset FR32_PADDING_MAP unpadded_bytes True"

definition next_boundary :: "padding_map \<Rightarrow> bit_byte \<Rightarrow> (nat \<times> nat) res" where
  "next_boundary m position =
     (let position_bits = total_bits position;
          (_, bits_after_last_boundary) = div_rem position_bits (element_bits m)
      in bindR (usub (data_bits m) bits_after_last_boundary) (\<lambda>remaining_data_unit_bits.
         let next_element_position_bits = position_bits + remaining_data_unit_bits + pad_bits m
         in Inr (next_element_position_bits div 8, remaining_data_unit_bits)))"

subsection \<open>Bit extraction\<close>

text \<open>\<open>output[i] |= v\<close>.\<close>

definition or_at :: "nat \<Rightarrow> u8 \<Rightarrow> u8 list \<Rightarrow> u8 list" where
  "or_at i v xs = xs[i := xs ! i OR v]"

definition shift_bits :: "u8 list \<Rightarrow> nat \<Rightarrow> bool \<Rightarrow> u8 list" where
  "shift_bits input amount is_left =
     (let output = input @ (if is_left then [0] else []);
          shifted = map (\<lambda>b. if is_left then push_bit amount b else drop_bit amount b)
                      (take (length input) output) @ drop (length input) output
      in if is_left
         then fold (\<lambda>i out. or_at (i + 1) (drop_bit (8 - amount) (input ! i)) out)
                [0..<length input] shifted
         else fold (\<lambda>i out. or_at (i - 1) (push_bit (8 - amount) (input ! i)) out)
                [1..<length input] shifted)"

definition clear_left_bits :: "u8 \<Rightarrow> nat \<Rightarrow> u8" where
  "clear_left_bits byte offset = byte AND (push_bit offset 1 - 1)"

definition clear_right_bits :: "u8 \<Rightarrow> nat \<Rightarrow> u8" where
  "clear_right_bits byte offset = byte AND NOT (push_bit offset 1 - 1)"

definition extract_bits_and_shift :: "u8 list \<Rightarrow> nat \<Rightarrow> nat \<Rightarrow> nat \<Rightarrow> u8 list res" where
  "extract_bits_and_shift input0 pos num_bits new_offset =
     (if length input0 * 8 < pos + num_bits \<or> 7 < new_offset then Inl (Panic ''assertion failed'')
      else let (skip_bytes, extraction_offset) = div_rem pos 8 in
      bindR (slice_from input0 skip_bytes) (\<lambda>input1.
      bindR (slice_to input1 (bytes_needed (from_bits (extraction_offset + num_bits)))) (\<lambda>input.
      let output0 =
            (if new_offset < extraction_offset then shift_bits input (extraction_offset - new_offset) False
             else if extraction_offset < new_offset then shift_bits input (new_offset - extraction_offset) True
             else input);
          output1 =
            (if bytes_needed (from_bits (new_offset + num_bits)) < length output0
             then butlast output0 else output0)
      in bindR
           (if new_offset \<noteq> 0
            then (case output1 of
                    [] \<Rightarrow> Inl (Panic ''output is empty'')
                  | b # bs \<Rightarrow> Inr (clear_right_bits b new_offset # bs))
            else Inr output1) (\<lambda>output2.
         let end_offset = (new_offset + num_bits) mod 8
         in if end_offset \<noteq> 0
            then (case output2 of
                    [] \<Rightarrow> Inl (Panic ''output is empty'')
                  | _ # _ \<Rightarrow> Inr (butlast output2 @ [clear_left_bits (last output2) end_offset]))
            else Inr output2))))"

subsection \<open>The unpadding loop\<close>

partial_function (option) unpad_loop ::
  "padding_map \<Rightarrow> u8 list \<Rightarrow> nat \<Rightarrow> bit_byte \<Rightarrow> nat \<Rightarrow> nat \<Rightarrow> u8 list \<Rightarrow> u8 list res option" where
  "unpad_loop m source max_write_size_bits read_pos written_bits write_bit_offset raw_data =
     (if bb_bytes read_pos < length source \<and> written_bits < max_write_size_bits then
        (case next_boundary m read_pos of
           Inl e \<Rightarrow> Some (Inl e)
         | Inr (next_element_position, bits0) \<Rightarrow>
        (case usub (length source * 8) (total_bits read_pos) of
           Inl e \<Rightarrow> Some (Inl e)
         | Inr available \<Rightarrow>
             let bits_to_extract = min (min bits0 available) (max_write_size_bits - written_bits)
             in case extract_bits_and_shift source (total_bits read_pos) bits_to_extract write_bit_offset of
                  Inl e \<Rightarrow> Some (Inl e)
                | Inr recovered \<Rightarrow>
                    (case (if write_bit_offset \<noteq> 0 then
                             (if raw_data = [] then Inl (Panic ''raw_data is empty'')
                              else if recovered = [] then Inl (Panic ''recovered is empty'')
                              else Inr (butlast raw_data @ [last raw_data OR hd recovered] @ tl recovered))
                           else Inr (raw_data @ recovered)) of
                       Inl e \<Rightarrow> Some (Inl e)
                     | Inr raw_data' \<Rightarrow>
                         unpad_loop m source max_write_size_bits
                           \<lparr>bb_bytes = next_element_position, bb_bits = 0\<rparr>
                           (written_bits + bits_to_extract)
                           ((written_bits + bits_to_extract) mod 8) raw_data')))
      else Some (Inr raw_data))"

text \<open>
  What a subtraction of \<open>usize\<close> (64 bits) does below 0 depends on the build: it panics with overflow checks and
  debug assertions, as in tests, and wraps without them, as in a release build. The two
  functions take the build as an argument, because they subtract before they compare.
\<close>

datatype build = With_Checks | Release

definition usub_in :: "build \<Rightarrow> nat \<Rightarrow> nat \<Rightarrow> nat res" where
  "usub_in b x y = (case b of With_Checks \<Rightarrow> usub x y | Release \<Rightarrow> Inr (if y \<le> x then x - y else x + 2 ^ 64 - y))"

definition debug_assert_in :: "build \<Rightarrow> bool \<Rightarrow> 'a res \<Rightarrow> 'a res" where
  "debug_assert_in b P r = (if b = With_Checks \<and> \<not> P then Inl (Panic ''assertion failed'') else r)"

definition write_unpadded_aux ::
  "build \<Rightarrow> ('w \<Rightarrow> u8 list \<Rightarrow> 'w res) \<Rightarrow> padding_map \<Rightarrow> u8 list \<Rightarrow> 'w \<Rightarrow> nat \<Rightarrow> nat \<Rightarrow> ('w \<times> nat) res option" where
  "write_unpadded_aux b write_all m source target write_pos max_write_size =
     (let read_pos = from_bits (transform_bit_offset m (write_pos * 8) True);
          max_write_size_bits = max_write_size * 8
      in case usub_in b (length source * 8) (total_bits read_pos) of
           Inl e \<Rightarrow> Some (Inl e)
         | Inr available \<Rightarrow>
             let raw_data_size = min (bytes_needed (from_bits (transform_bit_offset m available False))) max_write_size
             in map_option (\<lambda>r. bindR r (\<lambda>raw_data.
                  debug_assert_in b (length raw_data \<le> raw_data_size \<and> raw_data_size - length raw_data \<le> 1)
                    (bindR (write_all target raw_data) (\<lambda>target'. Inr (target', length raw_data)))))
                (unpad_loop m source max_write_size_bits read_pos 0 0 []))"

fun unpad_chunks ::
  "build \<Rightarrow> ('w \<Rightarrow> u8 list \<Rightarrow> 'w res) \<Rightarrow> u8 list \<Rightarrow> u8 list list \<Rightarrow> 'w \<Rightarrow> nat \<Rightarrow> nat \<Rightarrow> nat \<Rightarrow> ('w \<times> nat) res option" where
  "unpad_chunks b write_all source [] target offset len written = Some (Inr (target, written))"
| "unpad_chunks b write_all source (chunk # cs) target offset len written =
     (let write_len = min len (length chunk)
      in case write_unpadded_aux b write_all FR32_PADDING_MAP source target offset write_len of
           None \<Rightarrow> None
         | Some (Inl e) \<Rightarrow> Some (Inl e)
         | Some (Inr (target', n)) \<Rightarrow>
             unpad_chunks b write_all source cs target' (offset + write_len) (len - write_len) (written + n))"

definition write_unpadded ::
  "build \<Rightarrow> ('w \<Rightarrow> u8 list \<Rightarrow> 'w res) \<Rightarrow> u8 list \<Rightarrow> 'w \<Rightarrow> nat \<Rightarrow> nat \<Rightarrow> ('w \<times> nat) res option" where
  "write_unpadded b write_all source target offset len =
     (let read_pos = from_bits (transform_bit_offset FR32_PADDING_MAP (offset * 8) True)
      in case usub_in b (length source * 8) (total_bits read_pos) of
           Inl e \<Rightarrow> Some (Inl e)
         | Inr available \<Rightarrow>
             let raw_data_size = bytes_needed (from_bits (transform_bit_offset FR32_PADDING_MAP available False))
             in if raw_data_size < len
                then Some (Inl (Fail ''requested extraction of more raw data bytes than the source holds''))
                else let n = 1000; chunk_size = 128 * n
                     in unpad_chunks b write_all source (chunks chunk_size source) target offset len 0)"

text \<open>\<open>Vec<u8>\<close> as the target: \<open>write_all\<close> appends and never fails.\<close>

definition vec_write_all :: "u8 list \<Rightarrow> u8 list \<Rightarrow> u8 list res" where
  "vec_write_all w bs = Inr (w @ bs)"

section \<open>Shifts and extraction, bit by bit\<close>

lemma length_or_at [simp]: "length (or_at i v xs) = length xs"
  by (simp add: or_at_def)

lemma fold_or_at_length [simp]: "length (fold (\<lambda>i out. or_at (g i) (v i) out) is xs) = length xs"
  by (induction "is" arbitrary: xs) auto

text \<open>Both passes of \<open>shift_bits\<close>, as one formula per byte.\<close>

lemma nth_or_at: "i < length xs \<Longrightarrow> or_at i v xs ! j = (if j = i then xs ! j OR v else xs ! j)"
  by (auto simp: or_at_def)

lemma fold_or_up:
  "n < length xs \<Longrightarrow>
   fold (\<lambda>i. or_at (Suc i) (v i)) [0..<n] xs ! j =
     (if 0 < j \<and> j \<le> n then xs ! j OR v (j - 1) else xs ! j)"
proof (induction n)
  case (Suc n)
  then have len: "Suc n < length (fold (\<lambda>i. or_at (Suc i) (v i)) [0..<n] xs)" by simp
  show ?case using Suc by (auto simp: nth_or_at [OF len])
qed auto

lemma fold_or_down:
  "n \<le> length xs \<Longrightarrow>
   fold (\<lambda>i. or_at (i - Suc 0) (v i)) [Suc 0..<n] xs ! j =
     (if Suc j < n then xs ! j OR v (Suc j) else xs ! j)"
proof (induction n arbitrary: j)
  case (Suc n)
  then have IH: "fold (\<lambda>i. or_at (i - Suc 0) (v i)) [Suc 0..<n] xs ! j =
      (if Suc j < n then xs ! j OR v (Suc j) else xs ! j)" for j by simp
  show ?case
  proof (cases "n = 0")
    case False
    then have "n - Suc 0 < length (fold (\<lambda>i. or_at (i - Suc 0) (v i)) [Suc 0..<n] xs)"
      using Suc.prems by simp
    then show ?thesis using False by (auto simp: nth_or_at IH)
  qed simp
qed auto

lemma shift_left_nth:
  "xs \<noteq> [] \<Longrightarrow> j \<le> length xs \<Longrightarrow> shift_bits xs a True ! j =
     (if j < length xs then push_bit a (xs ! j) else 0) OR
     (if 0 < j then drop_bit (8 - a) (xs ! (j - 1)) else 0)"
  by (simp add: shift_bits_def Let_def nth_append fold_or_up)

lemma shift_right_nth:
  "j < length xs \<Longrightarrow> shift_bits xs a False ! j =
     drop_bit a (xs ! j) OR (if j + 1 < length xs then push_bit (8 - a) (xs ! (j + 1)) else 0)"
  by (simp add: shift_bits_def Let_def fold_or_down)

lemma length_shift_bits [simp]:
  "length (shift_bits xs a True) = length xs + 1"
  "length (shift_bits xs a False) = length xs"
  by (simp_all add: shift_bits_def Let_def)

lemma nbit_byte: "k < 8 \<Longrightarrow> nbit xs (8 * j + k) \<longleftrightarrow> j < length xs \<and> bit (xs ! j) k"
  by (auto simp: nbit_def)

lemma bit_byte_lt: "bit (b :: u8) k \<Longrightarrow> k < 8"
  using bit_imp_le_length [of b k] by simp

lemma div_mod_8E: obtains j k where "i = 8 * j + k" "k < (8::nat)"
  using that [of "i div 8" "i mod 8"] by simp

lemma nbit_shift_left:
  assumes "1 \<le> a" "a \<le> 7" "xs \<noteq> []"
  shows "nbit (shift_bits xs a True) i \<longleftrightarrow> a \<le> i \<and> nbit xs (i - a)"
proof -
  obtain j k where i: "i = 8 * j + k" "k < 8" by (rule div_mod_8E)
  have n: "nbit (shift_bits xs a True) i \<longleftrightarrow> j \<le> length xs \<and> bit (shift_bits xs a True ! j) k"
    unfolding i(1) nbit_byte [OF i(2)] by auto
  consider "length xs < j" | "j \<le> length xs" "a \<le> k" | "j \<le> length xs" "k < a" "0 < j" | "k < a" "j = 0"
    by linarith
  then show ?thesis
  proof cases
    case 1
    then show ?thesis using i assms by (auto simp: nbit_def)
  next
    case 2
    have r: "nbit xs (8 * j + (k - a)) \<longleftrightarrow> j < length xs \<and> bit (xs ! j) (k - a)"
      using i by (intro nbit_byte) simp
    have "i - a = 8 * j + (k - a)" "a \<le> i" using i 2 by simp_all
    then show ?thesis unfolding n using 2 assms i(2) r
      by (auto simp: shift_left_nth bit_simps dest: bit_byte_lt)
  next
    case 3
    then obtain j' where j: "j = Suc j'" by (cases j) auto
    have r: "nbit xs (8 * j' + (8 - a + k)) \<longleftrightarrow> j' < length xs \<and> bit (xs ! j') (8 - a + k)"
      using 3 assms by (intro nbit_byte) simp
    have "i - a = 8 * j' + (8 - a + k)" "a \<le> i" using i 3 j assms by simp_all
    then show ?thesis unfolding n using 3 assms i(2) r
      by (auto simp: shift_left_nth bit_simps j)
  next
    case 4
    then show ?thesis unfolding n using i assms by (auto simp: shift_left_nth bit_simps)
  qed
qed

lemma nbit_shift_right:
  assumes "1 \<le> a" "a \<le> 7"
  shows "nbit (shift_bits xs a False) i \<longleftrightarrow> nbit xs (i + a)"
proof -
  obtain j k where i: "i = 8 * j + k" "k < 8" by (rule div_mod_8E)
  have n: "nbit (shift_bits xs a False) i \<longleftrightarrow> j < length xs \<and> bit (shift_bits xs a False ! j) k"
    unfolding i(1) nbit_byte [OF i(2)] by auto
  consider "length xs \<le> j" | "j < length xs" "k + a < 8" | "j < length xs" "8 \<le> k + a" by linarith
  then show ?thesis
  proof cases
    case 1
    then show ?thesis using i by (auto simp: nbit_def)
  next
    case 2
    have r: "nbit xs (8 * j + (a + k)) \<longleftrightarrow> j < length xs \<and> bit (xs ! j) (a + k)"
      using 2 by (intro nbit_byte) simp
    have e: "i + a = 8 * j + (a + k)" using i by simp
    show ?thesis unfolding n e r using 2 assms by (auto simp: shift_right_nth bit_simps)
  next
    case 3
    have r: "nbit xs (8 * Suc j + (k + a - 8)) \<longleftrightarrow> Suc j < length xs \<and> bit (xs ! Suc j) (k + a - 8)"
      using i assms by (intro nbit_byte) simp
    have e: "i + a = 8 * Suc j + (k + a - 8)" using i 3 by simp
    have "\<not> bit (xs ! j) (a + k)" using 3 by (auto dest: bit_byte_lt)
    moreover have "k - (8 - a) = k + a - 8" using assms 3 by simp
    ultimately show ?thesis unfolding n e r using 3 assms i(2) by (auto simp: shift_right_nth bit_simps)
  qed
qed

abbreviation ceil8 :: "nat \<Rightarrow> nat" where
  "ceil8 n \<equiv> bytes_needed (from_bits n)"

lemma ceil8_eq: "ceil8 n = (n + 7) div 8"
  by (auto simp: bytes_needed_def from_bits_def) presburger+

lemma ceil8_mod:
  "n mod 8 \<noteq> 0 \<Longrightarrow> 8 * (ceil8 n - 1) + n mod 8 = n"
  "n mod 8 = 0 \<Longrightarrow> 8 * ceil8 n = n"
  using mult_div_mod_eq [of 8 n] by (simp_all add: bytes_needed_def from_bits_def)

lemma bit_clear_left: "bit (clear_left_bits b o') k \<longleftrightarrow> bit b k \<and> k < o'"
  by (auto simp: clear_left_bits_def bit_simps push_bit_of_1 simp flip: mask_eq_exp_minus_1
      dest: bit_byte_lt)

lemma bit_clear_right: "bit (clear_right_bits b o') k \<longleftrightarrow> bit b k \<and> o' \<le> k"
  by (auto simp: clear_right_bits_def bit_simps push_bit_of_1 simp flip: mask_eq_exp_minus_1
      dest: bit_byte_lt)

lemma nbit_clear_first:
  "o' < 8 \<Longrightarrow> nbit (clear_right_bits b o' # bs) i \<longleftrightarrow> nbit (b # bs) i \<and> o' \<le> i"
  by (auto simp: nbit_Cons bit_clear_right)

lemma nbit_clear_last:
  assumes "xs \<noteq> []"
  shows "nbit (butlast xs @ [clear_left_bits (last xs) o']) i \<longleftrightarrow>
    nbit xs i \<and> (i < 8 * (length xs - 1) \<or> i - 8 * (length xs - 1) < o')"
proof -
  obtain ys y where "xs = ys @ [y]" using assms by (metis rev_exhaust)
  then show ?thesis by (auto simp: nbit_append nbit_Cons bit_clear_left)
qed

text \<open>
  The extraction: the bits \<open>[pos, pos + num)\<close> of the input, moved to \<open>new_offset\<close>, all
  other bits of the output zero, in exactly as many bytes as that takes.
\<close>

lemma shifted_window:
  assumes "e < 8" "new \<le> 7" "xs \<noteq> []"
  defines "out \<equiv> if new < e then shift_bits xs (e - new) False
                  else if e < new then shift_bits xs (new - e) True else xs"
  shows "nbit out i \<longleftrightarrow> new \<le> i + e \<and> nbit xs (i + e - new)"
    and "length out = (if e < new then length xs + 1 else length xs)"
proof -
  consider "new < e" | "e < new" | "e = new" by linarith
  then show "nbit out i \<longleftrightarrow> new \<le> i + e \<and> nbit xs (i + e - new)"
  proof cases
    case 1
    then show ?thesis using assms by (simp add: out_def nbit_shift_right)
  next
    case 2
    then show ?thesis using assms by (auto simp: out_def nbit_shift_left)
  qed (simp add: out_def)
qed (simp add: out_def)

lemma nbit_butlast_if:
  assumes "l \<le> length xs" "length xs \<le> l + 1"
  shows "nbit (if l < length xs then butlast xs else xs) i \<longleftrightarrow> i < 8 * l \<and> nbit xs i"
    and "length (if l < length xs then butlast xs else xs) = l"
  using assms by (auto simp: butlast_conv_take nbit_take) (auto simp: nbit_def)

lemma extract_bits_correct:
  assumes "pos + num \<le> 8 * length input" and "new \<le> 7" and "0 < num"
  shows "\<exists>out. extract_bits_and_shift input pos num new = Inr out \<and> length out = ceil8 (new + num) \<and>
    (\<forall>i. nbit out i \<longleftrightarrow> new \<le> i \<and> i < new + num \<and> nbit input (pos + i - new))"
proof -
  define e where "e = pos mod 8"
  define B where "B = ceil8 (e + num)"
  define L where "L = ceil8 (new + num)"
  define xs where "xs = take B (drop (pos div 8) input)"
  have e: "e < 8" "pos = 8 * (pos div 8) + e" by (simp_all add: e_def)
  have le: "pos div 8 \<le> length input" "B \<le> length input - pos div 8"
    using assms(1) e by (auto simp: B_def ceil8_eq)
  have lxs: "length xs = B" "xs \<noteq> []" using le assms(3) by (auto simp: xs_def B_def ceil8_eq)
  have nxs: "nbit xs i \<longleftrightarrow> i < 8 * B \<and> nbit input (8 * (pos div 8) + i)" for i
    by (simp add: xs_def nbit_take nbit_drop)
  define o0 where "o0 = (if new < e then shift_bits xs (e - new) False
                  else if e < new then shift_bits xs (new - e) True else xs)"
  note w = shifted_window [OF e(1) assms(2) lxs(2), folded o0_def]
  have L: "L \<le> length o0" "length o0 \<le> L + 1" "0 < L"
    using w(2) lxs(1) e(1) assms(2,3) by (auto simp: L_def B_def ceil8_eq split: if_splits)
  define o1 where "o1 = (if L < length o0 then butlast o0 else o0)"
  note v = nbit_butlast_if [OF L(1,2), folded o1_def]
  obtain b bs where o1: "o1 = b # bs" using v(2) L(3) by (cases o1) auto
  define o2 where "o2 = (if new \<noteq> 0 then clear_right_bits b new # bs else o1)"
  have n2: "nbit o2 i \<longleftrightarrow> nbit o1 i \<and> new \<le> i" for i
    using assms(2) by (auto simp: o2_def o1 nbit_clear_first)
  have l2: "length o2 = L" "o2 \<noteq> []" using v(2) o1 by (auto simp: o2_def)
  define f where "f = (new + num) mod 8"
  define o3 where "o3 = (if f \<noteq> 0 then butlast o2 @ [clear_left_bits (last o2) f] else o2)"
  have l3: "length o3 = L" using l2 by (cases o2 rule: rev_cases) (auto simp: o3_def)
  have pos: "f \<noteq> 0 \<Longrightarrow> 8 * (L - 1) + f = new + num" "f = 0 \<Longrightarrow> 8 * L = new + num"
    unfolding f_def L_def by (rule ceil8_mod, assumption)+
  have n3: "nbit o3 i \<longleftrightarrow> nbit o2 i \<and> i < new + num" for i
  proof (cases "f = 0")
    case True
    then show ?thesis using pos l2 by (auto simp: o3_def nbit_def)
  next
    case False
    then show ?thesis using pos(1) l2 by (auto simp: o3_def nbit_clear_last)
  qed
  have "nbit o3 i \<longleftrightarrow> new \<le> i \<and> i < new + num \<and> nbit input (pos + i - new)" for i
  proof -
    have "8 * (pos div 8) + (i + e - new) = pos + i - new" if "new \<le> i" using e(2) that by linarith
    moreover have "i + e - new < 8 * B" "i < 8 * L" if "new \<le> i" "i < new + num"
      using that by (auto simp: B_def L_def ceil8_eq)
    ultimately show ?thesis by (auto simp: n3 n2 v(1) w(1) nxs)
  qed
  moreover have "extract_bits_and_shift input pos num new = Inr o3"
  proof -
    have 1: "slice_from input (pos div 8) = Inr (drop (pos div 8) input)"
      using le by (simp add: slice_from_def)
    have 2: "slice_to (drop (pos div 8) input) B = Inr xs"
      using le by (simp add: slice_to_def xs_def)
    obtain c cs where o2: "o2 = c # cs" using l2 by (cases o2) auto
    have 3: "(if new \<noteq> 0 then (case o1 of [] \<Rightarrow> Inl (Panic ''output is empty'')
        | b # bs \<Rightarrow> Inr (clear_right_bits b new # bs)) else Inr o1) = Inr o2"
      by (simp add: o2_def o1)
    have 0: "(length input * 8 < pos + num \<or> 7 < new) = False" using assms(1,2) by (simp add: mult.commute)
    show ?thesis
      unfolding extract_bits_and_shift_def 0 if_False Let_def div_rem_def prod.case e_def [symmetric]
        B_def [symmetric] L_def [symmetric] 1 2 bindR.simps o0_def [symmetric] o1_def [symmetric] 3
        f_def [symmetric]
      by (simp add: o3_def o2)
  qed
  ultimately show ?thesis using l3 L_def by blast
qed

section \<open>Offsets\<close>

text \<open>\<open>pbit n\<close>: the place of raw data bit \<open>n\<close> in the padded stream.\<close>

definition pbit :: "nat \<Rightarrow> nat" where
  "pbit n = 256 * (n div 254) + n mod 254"

lemma transform_padding: "transform_bit_offset FR32_PADDING_MAP n True = pbit n"
  by (simp add: transform_bit_offset_def FR32_PADDING_MAP_def div_rem_def pbit_def)

lemma transform_unpadding:
  "transform_bit_offset FR32_PADDING_MAP n False = 254 * (n div 256) + n mod 256"
  by (simp add: transform_bit_offset_def FR32_PADDING_MAP_def div_rem_def)

lemma pbit_eq: "pbit n = n + 2 * (n div 254)"
  by (simp add: pbit_def)

lemma pbit_strict_mono: "m < n \<Longrightarrow> pbit m < pbit n"
  using div_le_mono [of m n 254] by (simp add: pbit_eq)

lemma pbit_mono: "m \<le> n \<Longrightarrow> pbit m \<le> pbit n"
  using pbit_strict_mono [of m n] by (cases "m = n") auto

lemma pbit_mod: "pbit n mod 256 = n mod 254"
  using mod_less_divisor [of 254 n] by (simp add: pbit_def)

lemma pbit_div: "pbit n div 256 = n div 254"
  using mod_less_divisor [of 254 n] by (simp add: pbit_def)

lemma div_modE:
  assumes "0 < (d::nat)"
  obtains q r where "n = d * q + r" "r < d" "n div d = q" "n mod d = r"
  using that [of "n div d" "n mod d"] assms by simp

lemma pbit_within:
  "k < 254 - n mod 254 \<Longrightarrow> pbit (n + k) = pbit n + k"
  "pbit (n + (254 - n mod 254)) = 256 * (n div 254 + 1)"
proof -
  obtain q r where n: "n = 254 * q + r" "r < 254" "n div 254 = q" "n mod 254 = r"
    by (rule div_modE [of 254 n]) auto
  show "pbit (n + k) = pbit n + k" if "k < 254 - n mod 254"
  proof -
    have "(n + k) div 254 = (254 * q + (r + k)) div 254" using n(1) by (simp only: add.assoc)
    also have "\<dots> = q" using that n by simp
    finally show ?thesis using n(3) by (simp add: pbit_eq)
  qed
  have "n + (254 - r) = 254 * (q + 1)" using n(1,2) by simp
  then show "pbit (n + (254 - n mod 254)) = 256 * (n div 254 + 1)"
    unfolding n(3,4) by (simp add: pbit_def)
qed

lemma pbit_diff: "c + 2 * (c div 254) \<le> pbit (a + c) - pbit a"
proof -
  have "a div 254 + c div 254 \<le> (a + c) div 254"
    using div_add1_eq [of a c 254] by linarith
  then show ?thesis by (simp add: pbit_eq)
qed

text \<open>The size check of \<open>write_unpadded\<close> never rejects data that is there.\<close>

lemma unpadded_estimate:
  assumes "pbit c \<le> x"
  shows "c \<le> transform_bit_offset FR32_PADDING_MAP x False"
proof -
  obtain q r where c: "c = 254 * q + r" "r < 254" "c div 254 = q" "c mod 254 = r"
    by (rule div_modE [of 254 c]) auto
  obtain q' r' where x: "x = 256 * q' + r'" "r' < 256" "x div 256 = q'" "x mod 256 = r'"
    by (rule div_modE [of 256 x]) auto
  have "256 * q + r \<le> 256 * q' + r'" using assms by (simp add: pbit_def c(3,4) x(1) [symmetric])
  then have "254 * q + r \<le> 254 * q' + r'" using c(2) x(2) by (cases "q = q'") auto
  then show ?thesis by (simp only: transform_unpadding x(3,4) c(1))
qed

section \<open>The loop\<close>

definition holds_prefix :: "u8 list \<Rightarrow> nat \<Rightarrow> nat \<Rightarrow> u8 list \<Rightarrow> bool" where
  "holds_prefix source w n raw \<longleftrightarrow>
     length raw = ceil8 n \<and> (\<forall>i. nbit raw i \<longleftrightarrow> i < n \<and> nbit source (pbit (w + i)))"

text \<open>Appending the recovered bits: the join of a partial byte, or a plain append.\<close>

lemma nbit_join:
  "nbit (as @ (a OR c) # cs) i \<longleftrightarrow>
     nbit (as @ [a]) i \<or> 8 * length as \<le> i \<and> nbit (c # cs) (i - 8 * length as)"
proof -
  consider "i < 8 * length as" | "8 * length as \<le> i" "i - 8 * length as < 8"
    | "8 * length as \<le> i" "8 \<le> i - 8 * length as" by linarith
  then show ?thesis by cases (simp_all add: nbit_append nbit_Cons bit_or_iff)
qed

lemma join_recovered:
  assumes "holds_prefix source w n raw" and "b \<le> 254 - (w + n) mod 254" and "0 < b"
    and "length rec = ceil8 (n mod 8 + b)"
    and "\<And>i. nbit rec i \<longleftrightarrow> n mod 8 \<le> i \<and> i < n mod 8 + b \<and> nbit source (pbit (w + n) + i - n mod 8)"
  shows "\<exists>raw'. (if n mod 8 \<noteq> 0 then
             (if raw = [] then Inl (Panic ''raw_data is empty'')
              else if rec = [] then Inl (Panic ''recovered is empty'')
              else Inr (butlast raw @ [last raw OR hd rec] @ tl rec))
           else Inr (raw @ rec)) = Inr raw' \<and> holds_prefix source w (n + b) raw'"
proof -
  have raw: "length raw = ceil8 n" "\<And>i. nbit raw i \<longleftrightarrow> i < n \<and> nbit source (pbit (w + i))"
    using assms(1) by (auto simp: holds_prefix_def)
  have new: "pbit (w + n) + (i - n) = pbit (w + i)" if "n \<le> i" "i < n + b" for i
    using pbit_within(1) [of "i - n" "w + n"] that assms(2) by (simp add: add.assoc)
  show ?thesis
  proof (cases "n mod 8 = 0")
    case True
    have 8: "8 * ceil8 n = n" by (rule ceil8_mod) (fact True)
    have "nbit (raw @ rec) i \<longleftrightarrow> i < n + b \<and> nbit source (pbit (w + i))" for i
      using new [of i] by (auto simp: nbit_append raw assms(5) True 8)
    moreover have "length (raw @ rec) = ceil8 (n + b)"
      using 8 by (simp add: raw assms(4) True ceil8_eq)
    ultimately show ?thesis by (simp add: True holds_prefix_def)
  next
    case False
    have 8: "8 * (ceil8 n - 1) + n mod 8 = n" by (rule ceil8_mod) (fact False)
    have pos: "0 < ceil8 n" "0 < ceil8 (n mod 8 + b)" using False assms(3) by (auto simp: ceil8_eq)
    obtain as a where r1: "raw = as @ [a]" using raw(1) pos(1) by (cases raw rule: rev_cases) auto
    obtain c cs where r2: "rec = c # cs" using assms(4) pos(2) by (cases rec) auto
    have las: "8 * length as = n - n mod 8" using raw(1) 8 by (simp add: r1)
    let ?raw' = "as @ (a OR c) # cs"
    have "nbit ?raw' i \<longleftrightarrow> nbit raw i \<or> 8 * length as \<le> i \<and> nbit rec (i - 8 * length as)" for i
      unfolding r1 r2 by (rule nbit_join)
    moreover have n: "n = 8 * length as + n mod 8" using las 8 by simp
    have "nbit rec (i - 8 * length as) \<longleftrightarrow> n \<le> i \<and> i < n + b \<and> nbit source (pbit (w + i))"
      if "8 * length as \<le> i" for i
    proof -
      have "n mod 8 \<le> i - 8 * length as \<longleftrightarrow> n \<le> i" "i - 8 * length as < n mod 8 + b \<longleftrightarrow> i < n + b"
        using n that by linarith+
      moreover have "pbit (w + n) + (i - 8 * length as) - n mod 8 = pbit (w + n) + (i - n)" if "n \<le> i"
        using n that by linarith
      ultimately show ?thesis using new [of i] by (auto simp: assms(5))
    qed
    ultimately have "nbit ?raw' i \<longleftrightarrow> i < n + b \<and> nbit source (pbit (w + i))" for i
      using n by (cases "8 * length as \<le> i") (auto simp: raw)
    moreover have "length ?raw' = ceil8 (n + b)"
    proof -
      have "n + b + 7 = 8 * length as + (n mod 8 + b + 7)" using las 8 by simp
      also have "\<dots> div 8 = length as + (n mod 8 + b + 7) div 8" by (rule div_mult_self4) simp
      finally show ?thesis using assms(4) by (simp add: r2 ceil8_eq)
    qed
    ultimately show ?thesis by (simp add: False holds_prefix_def r1 r2)
  qed
qed

lemma next_boundary_pbit:
  assumes "total_bits p = pbit n"
  shows "next_boundary FR32_PADDING_MAP p = Inr (32 * (n div 254 + 1), 254 - n mod 254)"
proof -
  have m: "n mod 254 \<le> 254" using mod_less_divisor [of 254 n] by simp
  have "pbit n + (254 - n mod 254) + 2 = 256 * (n div 254 + 1)"
    using m by (simp add: pbit_def)
  then have "(pbit n + (254 - n mod 254) + 2) div 8 = 32 * (n div 254 + 1)" by simp
  then show ?thesis using m
    by (simp add: next_boundary_def div_rem_def assms FR32_PADDING_MAP_def pad_bits_def pbit_mod)
qed

lemma pbit_room:
  assumes "pbit (a + k) \<le> x"
  shows "min (min (254 - a mod 254) (x - pbit a)) k = min (254 - a mod 254) k"
proof (cases "k < 254 - a mod 254")
  case True
  then show ?thesis using assms pbit_within(1) [of k a] by simp
next
  case False
  have "a mod 254 < 254" by simp
  then have "pbit (a + (253 - a mod 254)) = pbit a + (253 - a mod 254)"
    by (intro pbit_within(1)) linarith
  moreover have "pbit (a + (253 - a mod 254)) < pbit (a + k)"
    using False \<open>a mod 254 < 254\<close> by (intro pbit_strict_mono) linarith
  ultimately have "254 - a mod 254 \<le> x - pbit a" using assms by linarith
  then show ?thesis by simp
qed

lemma unpad_loop_correct:
  assumes "pbit (w + M) \<le> 8 * length S" and "holds_prefix S w n raw" and "n \<le> M"
    and "n < M \<Longrightarrow> total_bits p = pbit (w + n)"
  shows "\<exists>raw'. unpad_loop FR32_PADDING_MAP S M p n (n mod 8) raw = Some (Inr raw') \<and>
    holds_prefix S w M raw'"
  using assms(2-)
proof (induction "M - n" arbitrary: n raw p rule: less_induct)
  case less
  show ?case
  proof (cases "n < M")
    case False
    then show ?thesis using less.prems by (subst unpad_loop.simps) simp
  next
    case True
    define b where "b = min (254 - (w + n) mod 254) (M - n)"
    have p: "total_bits p = pbit (w + n)" using True less.prems by blast
    have m: "(w + n) mod 254 < 254" by simp
    have b: "0 < b" "b \<le> 254 - (w + n) mod 254" "b \<le> M - n" using m True by (auto simp: b_def)
    have lt: "pbit (w + n) < 8 * length S"
      using pbit_strict_mono [of "w + n" "w + M"] True assms(1) by linarith
    then have "bb_bytes p < length S" using p by (simp add: total_bits_def)
    moreover have nb: "next_boundary FR32_PADDING_MAP p =
        Inr (32 * ((w + n) div 254 + 1), 254 - (w + n) mod 254)"
      by (rule next_boundary_pbit [OF p])
    moreover have av: "usub (length S * 8) (total_bits p) = Inr (8 * length S - pbit (w + n))"
      using lt p by (simp add: mult.commute)
    moreover have bb: "min (min (254 - (w + n) mod 254) (8 * length S - pbit (w + n))) (M - n) = b"
      unfolding b_def using True assms(1) by (intro pbit_room) simp
    have fits: "pbit (w + n) + b \<le> 8 * length S"
    proof -
      have "b \<le> 8 * length S - pbit (w + n)" using bb by linarith
      then show ?thesis using lt by linarith
    qed
    have "n mod 8 \<le> 7" using mod_less_divisor [of 8 n] by linarith
    with fits obtain rec where rec: "extract_bits_and_shift S (total_bits p) b (n mod 8) = Inr rec"
      "length rec = ceil8 (n mod 8 + b)"
      "\<And>i. nbit rec i \<longleftrightarrow> n mod 8 \<le> i \<and> i < n mod 8 + b \<and> nbit S (pbit (w + n) + i - n mod 8)"
      using extract_bits_correct [of "pbit (w + n)" b S "n mod 8"] b(1) by (auto simp: p)
    obtain raw' where raw': "(if n mod 8 \<noteq> 0 then
             (if raw = [] then Inl (Panic ''raw_data is empty'')
              else if rec = [] then Inl (Panic ''recovered is empty'')
              else Inr (butlast raw @ [last raw OR hd rec] @ tl rec))
           else Inr (raw @ rec)) = Inr raw'" "holds_prefix S w (n + b) raw'"
      using join_recovered [OF less.prems(1) b(2,1) rec(2,3)] by blast
    have tb: "n + b < M \<Longrightarrow>
      total_bits \<lparr>bb_bytes = 32 * ((w + n) div 254 + 1), bb_bits = 0\<rparr> = pbit (w + (n + b))"
      using pbit_within(2) [of "w + n"] by (simp add: b_def total_bits_def min_def add.assoc split: if_splits)
    have *: "\<exists>raw2. unpad_loop FR32_PADDING_MAP S M \<lparr>bb_bytes = 32 * ((w + n) div 254 + 1), bb_bits = 0\<rparr>
        (n + b) ((n + b) mod 8) raw' = Some (Inr raw2) \<and> holds_prefix S w M raw2"
      using b True by (intro less.hyps raw' tb) auto
    have "unpad_loop FR32_PADDING_MAP S M p n (n mod 8) raw = 
      unpad_loop FR32_PADDING_MAP S M \<lparr>bb_bytes = 32 * ((w + n) div 254 + 1), bb_bits = 0\<rparr>
        (n + b) ((n + b) mod 8) raw'"
      by (subst unpad_loop.simps)
        (simp only: \<open>bb_bytes p < length S\<close> True simp_thms if_True nb sum.case prod.case av bb Let_def rec(1) raw'(1))
    then show ?thesis using * by simp
  qed
qed

text \<open>The raw bytes at \<open>[offset, offset + len)\<close> of a padded source.\<close>

lemma holds_prefix_Nil: "holds_prefix S w 0 []"
  by (simp add: holds_prefix_def ceil8_eq)

lemma total_bits_from_bits [simp]: "total_bits (from_bits n) = n"
  by (simp add: total_bits_def from_bits_def)

definition unpad_spec :: "u8 list \<Rightarrow> nat \<Rightarrow> nat \<Rightarrow> u8 list" where
  "unpad_spec source offset len = bytes_of len (\<lambda>i. nbit source (pbit (8 * offset + i)))"

lemma usub_in_ok: "y \<le> x \<Longrightarrow> usub_in b x y = Inr (x - y)"
  by (cases b) (simp_all add: usub_in_def)

lemma size_estimate:
  assumes "pbit (8 * (off + len)) \<le> 8 * length S"
  shows "len \<le> ceil8 (transform_bit_offset FR32_PADDING_MAP (8 * length S - pbit (8 * off)) False)"
proof -
  have "pbit (8 * len) \<le> 8 * length S - pbit (8 * off)"
    using assms pbit_diff [of "8 * len" "8 * off"] by (simp add: pbit_eq algebra_simps)
  then have "8 * len \<le> transform_bit_offset FR32_PADDING_MAP (8 * length S - pbit (8 * off)) False" by (rule unpadded_estimate)
  then show ?thesis by (simp add: ceil8_eq)
qed

lemma write_unpadded_aux_vec:
  assumes "pbit (8 * (off + len)) \<le> 8 * length S"
  shows "write_unpadded_aux b vec_write_all FR32_PADDING_MAP S t off len =
    Some (Inr (t @ unpad_spec S off len, len))"
proof -
  have le: "pbit (8 * off) \<le> 8 * length S" using pbit_mono [of "8 * off" "8 * (off + len)"] assms by simp
  obtain raw where raw: "unpad_loop FR32_PADDING_MAP S (8 * len) (from_bits (pbit (8 * off))) 0 (0 mod 8) [] = Some (Inr raw)"
    "holds_prefix S (8 * off) (8 * len) raw"
    using unpad_loop_correct [of "8 * off" "8 * len" S 0 "[]" "from_bits (pbit (8 * off))"] assms
    by (auto simp: holds_prefix_Nil algebra_simps)
  have "raw = unpad_spec S off len"
    unfolding unpad_spec_def using raw(2) by (intro bytes_of_eqI) (auto simp: holds_prefix_def ceil8_eq)
  moreover have "length (unpad_spec S off len) = len" by (simp add: unpad_spec_def)
  moreover have "len \<le> ceil8 (transform_bit_offset FR32_PADDING_MAP (8 * length S - pbit (8 * off)) False)" by (rule size_estimate [OF assms])
  ultimately show ?thesis using raw(1) le
    by (simp add: write_unpadded_aux_def Let_def transform_padding mult.commute vec_write_all_def usub_in_ok debug_assert_in_def)
qed

lemma unpad_spec_append: "unpad_spec S off (a + b) = unpad_spec S off a @ unpad_spec S (off + a) b"
  by (simp add: unpad_spec_def bytes_of_append algebra_simps)

lemma unpad_chunks_vec:
  assumes "pbit (8 * (off + len)) \<le> 8 * length S" and "len \<le> length (concat cs)"
  shows "unpad_chunks b vec_write_all S cs t off len written =
    Some (Inr (t @ unpad_spec S off len, written + len))"
  using assms
proof (induction cs arbitrary: t off len written)
  case Nil
  then show ?case by (simp add: unpad_spec_def bytes_of_def)
next
  case (Cons c cs)
  have 1: "pbit (8 * (off + min len (length c))) \<le> 8 * length S"
    using Cons.prems(1) pbit_mono [of "8 * (off + min len (length c))" "8 * (off + len)"] by simp
  have 2: "pbit (8 * ((off + min len (length c)) + (len - min len (length c)))) \<le> 8 * length S"
    "len - min len (length c) \<le> length (concat cs)"
    using Cons.prems by (simp_all add: add.assoc)
  note IH = Cons.IH [OF 2]
  show ?case
    using unpad_spec_append [of S off "min len (length c)" "len - min len (length c)"]
    by (simp add: Let_def write_unpadded_aux_vec [OF 1] IH)
qed

lemma write_unpadded_vec:
  assumes "pbit (8 * (off + len)) \<le> 8 * length S"
  shows "write_unpadded b vec_write_all S t off len = Some (Inr (t @ unpad_spec S off len, len))"
proof -
  have le: "pbit (8 * off) \<le> 8 * length S" using pbit_mono [of "8 * off" "8 * (off + len)"] assms by simp
  moreover have "len \<le> length S" using assms by (simp add: pbit_eq)
  ultimately show ?thesis using unpad_chunks_vec [OF assms, of "chunks 128000 S" b t 0] size_estimate [OF assms]
    by (simp add: write_unpadded_def Let_def transform_padding concat_chunks mult.commute usub_in_ok)
qed




lemma f64_exact: "n < 2 ^ 53 \<Longrightarrow> f64_of_nat n = n"
  by (simp add: f64_of_nat_def f64_scale.simps)

lemma to_padded_eq:
  assumes "n \<le> 2 ^ 49"
  shows "to_padded_bytes n = (pbit (8 * n) + 7) div 8"
proof -
  have "pbit (8 * n) < 2 ^ 53" using assms by (simp add: pbit_eq)
  then show ?thesis
    by (simp add: to_padded_bytes_def transform_byte_offset_def transform_padding f64_exact mult.commute)
qed

lemma to_unpadded_eq:
  assumes "n \<le> 2 ^ 49"
  shows "to_unpadded_bytes n = (254 * (8 * n div 256) + 8 * n mod 256) div 8"
proof -
  have "254 * (8 * n div 256) + 8 * n mod 256 \<le> 8 * n"
    using mult_div_mod_eq [of 256 "8 * n"] by linarith
  then have "254 * (8 * n div 256) + 8 * n mod 256 < 2 ^ 53" using assms by simp
  then show ?thesis
    by (simp add: to_unpadded_bytes_def transform_byte_offset_def transform_unpadding f64_exact mult.commute)
qed

lemma to_unpadded_to_padded:
  assumes "n \<le> 2 ^ 48"
  shows "to_unpadded_bytes (to_padded_bytes n) = n"
proof -
  obtain q r where n: "8 * n = 254 * q + r" "r < 254" "8 * n div 254 = q" "8 * n mod 254 = r"
    by (rule div_modE [of 254 "8 * n"]) auto
  define P where "P = (pbit (8 * n) + 7) div 8"
  have "P = 32 * q + (r + 7) div 8" by (simp add: P_def pbit_def n(3,4))
  then have P8: "8 * P = 256 * q + 8 * ((r + 7) div 8)" by simp
  have "(r + 7) div 8 < 33" using n(2) by (intro less_mult_imp_div_less) simp
  then have r8: "8 * ((r + 7) div 8) < 256 \<or> 8 * ((r + 7) div 8) = 256" by linarith
  have rb: "r \<le> 8 * ((r + 7) div 8)" "8 * ((r + 7) div 8) < r + 8" by linarith+
  have "(254 * (8 * P div 256) + 8 * P mod 256) div 8 = n"
  proof (cases "8 * ((r + 7) div 8) < 256")
    case True
    then have "8 * P div 256 = q" "8 * P mod 256 = 8 * ((r + 7) div 8)" unfolding P8 by simp_all
    then show ?thesis using n(1) rb by linarith
  next
    case False
    then have "8 * P = 256 * (q + 1)" using r8 unfolding P8 by simp
    then have "8 * P div 256 = q + 1" "8 * P mod 256 = 0" by simp_all
    then show ?thesis using n(1,2) rb False by linarith
  qed
  moreover have "P \<le> 2 ^ 49" using assms by (simp add: P_def pbit_eq)
  ultimately show ?thesis using to_unpadded_eq [of P] to_padded_eq [of n] assms by (simp add: P_def)
qed

section \<open>Properties\<close>

text \<open>
  C21. Unpadding is exact: when the padded source holds the bytes \<open>[offset, offset + len)\<close>
  of the raw data, \<open>write_unpadded\<close> terminates, appends exactly those bytes (bit \<open>i\<close> of
  the raw data is padded bit \<open>256 * (i div 254) + i mod 254\<close>) and returns \<open>len\<close>, whatever
  the chunking of the work, in every build.
\<close>
theorem write_unpadded_correct:
  assumes "pbit (8 * (offset + len)) \<le> 8 * length source"
  shows "write_unpadded b vec_write_all source target offset len =
    Some (Inr (target @ unpad_spec source offset len, len))"
  using assms by (rule write_unpadded_vec)

theorem write_unpadded_correct_witness:
  "write_unpadded Release vec_write_all (replicate 64 255) [7] 30 3 =
     Some (Inr ([7] @ unpad_spec (replicate 64 255) 30 3, 3))"
  by (rule write_unpadded_correct) (simp add: pbit_def)



text \<open>
  The size conversions round trip for every size up to \<open>2^48\<close> bytes, although both
  go through \<open>f64\<close>.
\<close>
theorem to_padded_to_unpadded:
  "n \<le> 2 ^ 48 \<Longrightarrow> to_unpadded_bytes (to_padded_bytes n) = n"
  by (rule to_unpadded_to_padded)

theorem to_padded_to_unpadded_witness:
  "to_unpadded_bytes (to_padded_bytes 34359738368) = 34359738368"
  by (rule to_padded_to_unpadded) simp

end
