(* ===== verification/Fr32_Reader.thy ===== *)
theory Fr32_Reader
  imports Fr32_Padding
begin

text \<open>
  \<open>fr32/src/reader.rs\<close>: the reader that pads a byte source to \<open>Fr32\<close> on the fly, with
  its block buffer. The source is any \<open>io::Read\<close>: a state and a read operation on it,
  whose contract is the locale \<open>byte_source\<close>; the model instantiates it with the source of
  zeros of \<open>filecoin-proofs/src/pieces.rs\<close> and with a byte slice. The cast of a byte
  buffer to \<open>u128\<close> words is the one of a little-endian machine.
\<close>

section \<open>The code\<close>

datatype io_err = Interrupted | Io_error string | Io_panic string

text \<open>\<open>Read::read(&mut self, buf)\<close>: the new state, the new contents of \<open>buf\<close>, the result.\<close>

type_synonym 's read_op = "'s \<Rightarrow> u8 list \<Rightarrow> 's \<times> u8 list \<times> (io_err + nat)"

definition NUM_FRS_PER_BLOCK :: nat where "NUM_FRS_PER_BLOCK = 4"
definition IN_BITS_FR :: nat where "IN_BITS_FR = 254"
definition OUT_BITS_FR :: nat where "OUT_BITS_FR = 256"
definition NUM_BYTES_IN_BLOCK :: nat where "NUM_BYTES_IN_BLOCK = NUM_FRS_PER_BLOCK * IN_BITS_FR div 8"
definition NUM_BYTES_OUT_BLOCK :: nat where "NUM_BYTES_OUT_BLOCK = NUM_FRS_PER_BLOCK * OUT_BITS_FR div 8"
definition NUM_U128S_PER_BLOCK :: nat where "NUM_U128S_PER_BLOCK = NUM_BYTES_OUT_BLOCK div 16"

definition MASK_SKIP_HIGH_2 :: u128 where
  "MASK_SKIP_HIGH_2 = 0x3fffffffffffffffffffffffffffffff"

record 's fr32_reader =
  rd_source :: 's
  in_buffer :: "u8 list"
  out_buffer :: "u128 list"
  out_offset :: nat
  available_frs :: nat
  rd_done :: bool

definition fr32_reader_new :: "'s \<Rightarrow> 's fr32_reader" where
  "fr32_reader_new source = \<lparr>rd_source = source, in_buffer = replicate (NUM_BYTES_IN_BLOCK + 1) 0,
     out_buffer = replicate NUM_U128S_PER_BLOCK 0, out_offset = 0, available_frs = 0, rd_done = False\<rparr>"

definition process_fr :: "u128 \<Rightarrow> u128 \<Rightarrow> u128 \<Rightarrow> nat \<Rightarrow> u128 list" where
  "process_fr in0 in1 in2 bit_offset =
     [drop_bit (128 - bit_offset) in0 OR push_bit bit_offset in1,
      (drop_bit (128 - bit_offset) in1 OR push_bit bit_offset in2) AND MASK_SKIP_HIGH_2]"

definition process_block :: "'s fr32_reader \<Rightarrow> 's fr32_reader" where
  "process_block r =
     (let inb = \<lambda>i. word_of_le (take 16 (drop (16 * i) (in_buffer r)))
      in r\<lparr>out_buffer := [inb 0, inb 1 AND MASK_SKIP_HIGH_2]
             @ process_fr (inb 1) (inb 2) (inb 3) 2
             @ process_fr (inb 3) (inb 4) (inb 5) 4
             @ process_fr (inb 5) (inb 6) (inb 7) 6,
           out_offset := 0\<rparr>)"

text \<open>
  The loop of \<open>fill_in_buffer\<close>: \<open>filled\<close> is the part of the buffer before \<open>buf\<close>. The result
  is the source, the whole buffer, and the number of bytes read or the error.
\<close>

partial_function (option) fill_loop ::
  "'s read_op \<Rightarrow> 's \<Rightarrow> u8 list \<Rightarrow> u8 list \<Rightarrow> ('s \<times> u8 list \<times> (io_err + nat)) option" where
  "fill_loop rd s filled buf =
     (if buf = [] then Some (s, filled, Inr (length filled))
      else case rd s buf of (s', buf', r) \<Rightarrow>
        (case r of
           Inr n \<Rightarrow>
             if n = 0 then Some (s', filled @ buf', Inr (length filled))
             else if length buf' < n
             then Some (s', filled @ buf', Inl (Io_panic ''slice index out of range''))
             else fill_loop rd s' (filled @ take n buf') (drop n buf')
         | Inl e \<Rightarrow>
             if e = Interrupted then fill_loop rd s' filled buf'
             else Some (s', filled @ buf', Inl e)))"

definition fill_in_buffer ::
  "'s read_op \<Rightarrow> 's fr32_reader \<Rightarrow> ('s fr32_reader \<times> (io_err + nat)) option" where
  "fill_in_buffer rd r =
     map_option (\<lambda>(s, buf, res).
        let tail = drop NUM_BYTES_IN_BLOCK (in_buffer r) in
        case res of
          Inl e \<Rightarrow> (r\<lparr>rd_source := s, in_buffer := buf @ tail\<rparr>, Inl e)
        | Inr bytes_read \<Rightarrow>
            (r\<lparr>rd_source := s,
               in_buffer := take bytes_read buf @ replicate (NUM_BYTES_IN_BLOCK - bytes_read) 0 @ tail\<rparr>,
             Inr bytes_read))
       (fill_loop rd (rd_source r) [] (take NUM_BYTES_IN_BLOCK (in_buffer r)))"

definition div_ceil :: "nat \<Rightarrow> nat \<Rightarrow> nat" where
  "div_ceil x y = 1 + (x - 1) div y"

definition as_byte_slice :: "u128 list \<Rightarrow> u8 list" where
  "as_byte_slice ws = concat (map (le_of_word 16) ws)"

text \<open>The second half of the loop body: copy what is available and requested.\<close>

definition copy_out :: "'s fr32_reader \<Rightarrow> u8 list \<Rightarrow> nat \<Rightarrow> ('s fr32_reader \<times> u8 list \<times> nat) res" where
  "copy_out r target bytes_read =
     (let available_bytes = available_frs r * (OUT_BITS_FR div 8);
          target_end = min (bytes_read + available_bytes) (length target);
          len = target_end - bytes_read;
          out_start = out_offset r
      in bindR (slice (as_byte_slice (out_buffer r)) out_start (out_start + len)) (\<lambda>bs.
         bindR (usub (available_frs r) (div_ceil (len * 8) OUT_BITS_FR)) (\<lambda>av.
         Inr (r\<lparr>out_offset := out_start + len, available_frs := av\<rparr>,
              take bytes_read target @ bs @ drop target_end target,
              bytes_read + len))))"

partial_function (option) read_loop ::
  "'s read_op \<Rightarrow> 's fr32_reader \<Rightarrow> u8 list \<Rightarrow> nat \<Rightarrow>
   ('s fr32_reader \<times> u8 list \<times> (io_err + nat)) option" where
  "read_loop rd r target bytes_read =
     (if length target \<le> bytes_read then Some (r, target, Inr bytes_read)
      else Option.bind
        (if available_frs r = 0 then
           map_option (\<lambda>(r', res). (case res of
               Inl e \<Rightarrow> (r', Inl e)
             | Inr n \<Rightarrow>
                 if n = 0 then (r'\<lparr>rd_done := True\<rparr>, Inr False)
                 else ((process_block r')\<lparr>available_frs := div_ceil (n * 8) IN_BITS_FR\<rparr>, Inr True)))
             (fill_in_buffer rd r)
         else Some (r, Inr True))
        (\<lambda>(r', res). (case res of
           Inl e \<Rightarrow> Some (r', target, Inl e)
         | Inr go \<Rightarrow>
             if \<not> go then Some (r', target, Inr bytes_read)
             else (case copy_out r' target bytes_read of
                 Inl e \<Rightarrow> Some (r', target, Inl (Io_panic ''read''))
               | Inr (r'', target', bytes_read') \<Rightarrow> read_loop rd r'' target' bytes_read'))))"

definition fr32_read ::
  "'s read_op \<Rightarrow> 's fr32_reader \<Rightarrow> u8 list \<Rightarrow> ('s fr32_reader \<times> u8 list \<times> (io_err + nat)) option" where
  "fr32_read rd r target =
     (if rd_done r \<or> target = [] then Some (r, target, Inr 0) else read_loop rd r target 0)"

text \<open>\<open>EmptySource::read\<close>: zeros, the whole target is overwritten.\<close>

definition empty_source_read :: "nat read_op" where
  "empty_source_read sz target =
     (let to_read = min sz (length target)
      in (sz - to_read, replicate (length target) 0, Inr to_read))"

text \<open>\<open>impl Read for &[u8]\<close> of the standard library.\<close>

definition slice_read :: "u8 list read_op" where
  "slice_read s target =
     (let n = min (length s) (length target)
      in (drop n s, take n s @ drop n target, Inr n))"

section \<open>A block\<close>

text \<open>The padded form of a block of raw data and of a whole byte string.\<close>

definition pad_nbit :: "u8 list \<Rightarrow> nat \<Rightarrow> bool" where
  "pad_nbit xs i \<longleftrightarrow> i mod 256 < 254 \<and> nbit xs (254 * (i div 256) + i mod 256)"

definition pad_spec :: "u8 list \<Rightarrow> u8 list" where
  "pad_spec xs = bytes_of (32 * ((8 * length xs + 253) div 254)) (pad_nbit xs)"

lemma length_as_byte_slice [simp]: "length (as_byte_slice ws) = 16 * length ws"
  by (induction ws) (auto simp: as_byte_slice_def)

lemma nbit_as_byte_slice:
  "nbit (as_byte_slice ws) i \<longleftrightarrow> i < 128 * length ws \<and> bit (ws ! (i div 128)) (i mod 128)"
proof (induction ws arbitrary: i)
  case (Cons w ws)
  have step: "as_byte_slice (w # ws) = le_of_word 16 w @ as_byte_slice ws"
    by (simp add: as_byte_slice_def)
  show ?case
  proof (cases "i < 128")
    case True
    then show ?thesis by (simp add: step nbit_append nbit_le_of_word)
  next
    case False
    then obtain j where "i = 128 + j" using le_Suc_ex not_less by metis
    have "(128 + j) div 128 = Suc (j div 128)" by simp
    then show ?thesis using \<open>i = 128 + j\<close> by (simp add: step nbit_append Cons.IH)
  qed
qed (simp add: as_byte_slice_def)

lemma bit_mask_high [simp]: "bit MASK_SKIP_HIGH_2 k \<longleftrightarrow> k < 126"
proof -
  have *: "MASK_SKIP_HIGH_2 = mask 126" by (simp add: MASK_SKIP_HIGH_2_def mask_eq_exp_minus_1)
  show ?thesis unfolding * by (auto simp: bit_mask_iff)
qed

lemma bit_in_word:
  assumes "length buf = 128" "j < 8"
  shows "bit (word_of_le (take 16 (drop (16 * j) buf)) :: u128) k \<longleftrightarrow> k < 128 \<and> nbit buf (128 * j + k)"
  by (auto simp: bit_word_of_le nbit_take nbit_drop)

lemma bit_process_fr:
  assumes w: "\<And>k. bit w0 k \<longleftrightarrow> k < 128 \<and> P k" "\<And>k. bit w1 k \<longleftrightarrow> k < 128 \<and> P (128 + k)"
      "\<And>k. bit w2 k \<longleftrightarrow> k < 128 \<and> P (256 + k)"
    and b: "0 < b" "b \<le> 6" and i: "i < 256"
  shows "bit (process_fr w0 w1 w2 b ! (i div 128)) (i mod 128) \<longleftrightarrow> i < 254 \<and> P (128 - b + i)"
proof -
  consider "i < b" | "b \<le> i" "i < 128" | "128 \<le> i" "i < 128 + b" | "128 + b \<le> i" by linarith
  then show ?thesis
  proof cases
    case 1
    then have "i div 128 = 0" "i mod 128 = i" "i < 128" "i < 254" "i + 128 - b < 128" using b by simp_all
    then show ?thesis using 1 b by (auto simp: process_fr_def bit_simps w add.commute)
  next
    case 2
    then have "i div 128 = 0" "i mod 128 = i" "128 + (i - b) = 128 - b + i" "i - b < 128" "i < 254"
      "\<not> i + (128 - b) < 128" using b by simp_all
    then show ?thesis using 2 b by (auto simp: process_fr_def bit_simps w add.commute)
  next
    case 3
    then obtain k where k: "i = 128 + k" "k < b" using le_Suc_ex [of 128 i] by auto
    then have "i div 128 = 1" "i mod 128 = k" "128 + (128 - b + k) = 128 - b + i" "k < 128" "i < 254"
      "128 - b + k < 128" using b by simp_all
    then show ?thesis using k b by (auto simp: process_fr_def bit_simps w add.commute)
  next
    case 4
    then obtain k where k: "i = 128 + k" "b \<le> k" "k < 128" using le_Suc_ex [of 128 i] i by auto
    then have "i div 128 = 1" "i mod 128 = k" "256 + (k - b) = 128 - b + i" "k - b < 128"
      "\<not> 128 - b + k < 128" "i < 254 \<longleftrightarrow> k < 126" using b by simp_all
    then show ?thesis using k b by (auto simp: process_fr_def bit_simps w add.commute)
  qed
qed

lemma process_block_bits:
  assumes len: "length (in_buffer r) = 128" and i: "i < 1024"
  shows "nbit (as_byte_slice (out_buffer (process_block r))) i \<longleftrightarrow> pad_nbit (in_buffer r) i"
proof -
  define q where "q = i div 256"
  define k where "k = i mod 256"
  have ik: "i = 256 * q + k" "k < 256" "q < 4" using i by (auto simp: q_def k_def)
  let ?w = "\<lambda>j. word_of_le (take 16 (drop (16 * j) (in_buffer r))) :: u128"
  define p where "p = (\<lambda>q::nat. if q = 0 then [?w 0, ?w 1 AND MASK_SKIP_HIGH_2]
    else if q = 1 then process_fr (?w 1) (?w 2) (?w 3) 2
    else if q = 2 then process_fr (?w 3) (?w 4) (?w 5) 4 else process_fr (?w 5) (?w 6) (?w 7) (6::nat))"
  have ob: "out_buffer (process_block r) = p 0 @ p 1 @ p (2::nat) @ p 3"
    by (simp add: process_block_def p_def Let_def)
  have lp: "length (p n) = 2" for n by (simp add: p_def process_fr_def)
  have "out_buffer (process_block r) ! (i div 128) = p q ! (k div 128)"
  proof -
    have "i div 128 = 2 * q + k div 128" using ik by simp
    moreover have "k div 128 < 2" using ik by simp
    moreover have "q = 0 \<or> q = 1 \<or> q = 2 \<or> q = 3" using ik by linarith
    ultimately show ?thesis unfolding ob by (auto simp: nth_append lp)
  qed
  moreover have "i mod 128 = k mod 128" by (simp add: k_def mod_mod_cancel)
  moreover have "length (out_buffer (process_block r)) = 8" by (simp add: ob lp)
  ultimately have 1: "nbit (as_byte_slice (out_buffer (process_block r))) i \<longleftrightarrow>
      bit (p q ! (k div 128)) (k mod 128)"
    using i by (simp add: nbit_as_byte_slice)
  have bits: "bit (?w j) n \<longleftrightarrow> n < 128 \<and> nbit (in_buffer r) (128 * j + n)"
    "bit (?w (j + 1)) n \<longleftrightarrow> n < 128 \<and> nbit (in_buffer r) (128 * j + (128 + n))"
    "bit (?w (j + 2)) n \<longleftrightarrow> n < 128 \<and> nbit (in_buffer r) (128 * j + (256 + n))" if "j + 2 < 8" for j n
    using bit_in_word [OF len, of j n] bit_in_word [OF len, of "j + 1" n]
      bit_in_word [OF len, of "j + 2" n] that by (simp_all add: algebra_simps)
  consider "q = 0" | "q = 1" | "q = 2" | "q = 3" using ik by linarith
  then have "bit (p q ! (k div 128)) (k mod 128) \<longleftrightarrow> k < 254 \<and> nbit (in_buffer r) (254 * q + k)"
  proof cases
    case 1
    have w: "bit (?w 0) n \<longleftrightarrow> n < 128 \<and> nbit (in_buffer r) n" 
      "bit (?w (Suc 0)) n \<longleftrightarrow> n < 128 \<and> nbit (in_buffer r) (128 + n)" for n
      using bit_in_word [OF len, of 0 n] bit_in_word [OF len, of 1 n] by auto
    show ?thesis
    proof (cases "k < 128")
      case True
      then show ?thesis using 1 by (simp add: p_def w [simplified])
    next
      case False
      then obtain n where "k = 128 + n" using le_Suc_ex not_less by metis
      then show ?thesis using 1 ik by (auto simp: p_def w [simplified] bit_and_iff)
    qed
  next
    case 2
    then show ?thesis using bit_process_fr [OF bits [of 1] _ _ ik(2), of 2] by (simp add: p_def)
  next
    case 3
    then show ?thesis using bit_process_fr [OF bits [of 3] _ _ ik(2), of 4] by (simp add: p_def)
  next
    case 4
    then show ?thesis using bit_process_fr [OF bits [of 5] _ _ ik(2), of 6] by (simp add: p_def)
  qed
  then show ?thesis unfolding 1 pad_nbit_def q_def k_def by (simp add: conj_commute)
qed

lemma pad_nbit_128: "pad_nbit xs (1024 + i) \<longleftrightarrow> pad_nbit (drop 127 xs) i"
proof -
  have "(1024 + i) mod 256 = i mod 256" "(1024 + i) div 256 = 4 + i div 256"
    by (simp_all add: mod_add_eq [of 1024, symmetric])
  then show ?thesis by (simp add: pad_nbit_def nbit_drop add.assoc)
qed

lemma block_index:
  assumes "(i::nat) < 1024" "i mod 256 < 254"
  shows "254 * (i div 256) + i mod 256 < 1016"
proof -
  have "i div 256 < 4" using assms(1) by (intro less_mult_imp_div_less) simp
  then show ?thesis using assms(2) by linarith
qed

lemma length_pad_spec: "length (pad_spec xs) = 32 * ((8 * length xs + 253) div 254)"
  by (simp add: pad_spec_def)

lemma pad_spec_Nil [simp]: "pad_spec [] = []"
  by (simp add: pad_spec_def bytes_of_def)

lemma pad_spec_step: "pad_spec xs = pad_spec (take 127 xs) @ pad_spec (drop 127 xs)"
proof (cases "length xs \<le> 127")
  case False
  then obtain m where m: "length xs = 127 + m" using le_Suc_ex by (metis nat_le_linear)
  have "(8 * (127 + m) + 253) div 254 = 4 + (8 * m + 253) div 254" by simp
  then have "pad_spec xs = bytes_of (128 + 32 * ((8 * m + 253) div 254)) (pad_nbit xs)"
    unfolding pad_spec_def m by simp
  also have "\<dots> = bytes_of 128 (pad_nbit xs) @ pad_spec (drop 127 xs)"
    by (simp add: bytes_of_append pad_nbit_128 pad_spec_def m)
  also have "bytes_of 128 (pad_nbit xs) = bytes_of 128 (pad_nbit (take 127 xs))"
  proof (rule bytes_eqI)
    fix i assume i: "i < 8 * length (bytes_of 128 (pad_nbit xs))"
    have "i mod 256 < 254 \<Longrightarrow> 254 * (i div 256) + i mod 256 < 1016" using i by (intro block_index) simp_all
    then show "nbit (bytes_of 128 (pad_nbit xs)) i = nbit (bytes_of 128 (pad_nbit (take 127 xs))) i"
      by (auto simp: nbit_bytes_of pad_nbit_def nbit_take)
  qed simp
  also have "bytes_of 128 (pad_nbit (take 127 xs)) = pad_spec (take 127 xs)"
    using m by (simp add: pad_spec_def)
  finally show ?thesis .
qed simp

section \<open>The source, and the reader on it\<close>

text \<open>
  The contract of \<open>Read\<close> the reader relies on: \<open>rest s\<close> is what the source has still to
  give, \<open>pending s\<close> bounds the interruptions to come; a read gives a non-empty prefix
  unless the buffer or the source is empty.
\<close>

locale byte_source =
  fixes rd :: "'s read_op" and rest :: "'s \<Rightarrow> u8 list" and pending :: "'s \<Rightarrow> nat"
  assumes read_ok: "rd s buf = (s', buf', Inr n) \<Longrightarrow>
      n \<le> length (rest s) \<and> n \<le> length buf \<and> length buf' = length buf \<and>
      take n buf' = take n (rest s) \<and> rest s' = drop n (rest s) \<and> pending s' \<le> pending s"
    and read_eof: "rd s buf = (s', buf', Inr 0) \<Longrightarrow> buf = [] \<or> rest s = []"
    and read_err: "rd s buf = (s', buf', Inl e) \<Longrightarrow>
      e = Interrupted \<and> length buf' = length buf \<and> rest s' = rest s \<and> pending s' < pending s"
begin

lemma fill_loop_fills:
  "\<exists>s' buf'. fill_loop rd s filled buf = Some (s', buf', Inr (length filled + min (length buf) (length (rest s)))) \<and>
     length buf' = length filled + length buf \<and>
     take (length filled + min (length buf) (length (rest s))) buf' =
       filled @ take (min (length buf) (length (rest s))) (rest s) \<and>
     rest s' = drop (min (length buf) (length (rest s))) (rest s)"
proof (induction "length buf + pending s" arbitrary: s filled buf rule: less_induct)
  case less
  show ?case
  proof (cases "buf = []")
    case True
    then show ?thesis by (subst fill_loop.simps) simp
  next
    case False
    obtain s' buf' r where rd: "rd s buf = (s', buf', r)" by (cases "rd s buf")
    show ?thesis
    proof (cases r)
      case (Inl e)
      note e = read_err [OF rd [unfolded Inl]]
      have "fill_loop rd s filled buf = fill_loop rd s' filled buf'"
        using False e by (subst fill_loop.simps) (simp add: rd Inl)
      then show ?thesis using less [of buf' s' filled] e by simp
    next
      case (Inr n)
      note n = read_ok [OF rd [unfolded Inr]]
      show ?thesis
      proof (cases "n = 0")
        case True
        then have "rest s = []" using read_eof [of s buf s' buf'] rd Inr False by simp
        then show ?thesis using False True n by (subst fill_loop.simps) (simp add: rd Inr)
      next
        case pos: False
        have "fill_loop rd s filled buf = fill_loop rd s' (filled @ take n buf') (drop n buf')"
          using False pos n by (subst fill_loop.simps) (simp add: rd Inr)
        moreover define k where "k = min (length buf) (length (rest s))"
        moreover have k: "min (length (drop n buf')) (length (rest s')) = k - n" "n \<le> k"
          using n by (auto simp: k_def)
        moreover have l: "length (filled @ take n buf') = length filled + n" using n by simp
        moreover have "take k (rest s) = take n buf' @ take (k - n) (rest s')"
          using n k(2) by (metis le_add_diff_inverse take_add)
        moreover have "drop (k - n) (rest s') = drop k (rest s)" using n k(2) by simp
        moreover have "length (drop n buf') + pending s' < length buf + pending s"
          using n pos by auto
        note IH = less [OF this, of "filled @ take n buf'", unfolded k l]
        ultimately show ?thesis using IH n by (auto simp: add.assoc)
      qed
    qed
  qed
qed

lemma fill_in_buffer_fills:
  assumes "length (in_buffer r) = 128"
  shows "\<exists>s' n. n = min 127 (length (rest (rd_source r))) \<and> rest s' = drop 127 (rest (rd_source r)) \<and>
    fill_in_buffer rd r = Some (r\<lparr>rd_source := s', in_buffer := take 127 (rest (rd_source r)) @
      replicate (127 - n) 0 @ drop 127 (in_buffer r)\<rparr>, Inr n)"
proof -
  define n where "n = min 127 (length (rest (rd_source r)))"
  have lb: "length (take 127 (in_buffer r)) = 127" using assms by simp
  obtain s' buf' where f: "fill_loop rd (rd_source r) [] (take 127 (in_buffer r)) = Some (s', buf', Inr n)"
      "take n buf' = take n (rest (rd_source r))" "rest s' = drop n (rest (rd_source r))"
    using fill_loop_fills [of "rd_source r" "[]" "take 127 (in_buffer r)"] lb by (auto simp: n_def)
  have "take n (rest (rd_source r)) = take 127 (rest (rd_source r))"
    "drop n (rest (rd_source r)) = drop 127 (rest (rd_source r))" by (auto simp: n_def min_def)
  then show ?thesis using f
    by (auto simp: fill_in_buffer_def NUM_BYTES_IN_BLOCK_def NUM_FRS_PER_BLOCK_def IN_BITS_FR_def n_def)
qed

end

text \<open>The bytes that are padded and not read yet, and the well-formed states.\<close>

definition buffered :: "'s fr32_reader \<Rightarrow> u8 list" where
  "buffered r = take (32 * available_frs r) (drop (out_offset r) (as_byte_slice (out_buffer r)))"

definition reader_wf :: "'s fr32_reader \<Rightarrow> bool" where
  "reader_wf r \<longleftrightarrow> length (in_buffer r) = 128 \<and> length (out_buffer r) = 8 \<and>
     out_offset r + 32 * available_frs r \<le> 128"

lemma length_buffered: "reader_wf r \<Longrightarrow> length (buffered r) = 32 * available_frs r"
  by (auto simp: buffered_def reader_wf_def)

lemma process_block_fields [simp]:
  "length (out_buffer (process_block r)) = 8" "out_offset (process_block r) = 0"
  "rd_source (process_block r) = rd_source r" "in_buffer (process_block r) = in_buffer r"
  "rd_done (process_block r) = rd_done r"
  by (simp_all add: process_block_def process_fr_def Let_def)

lemma div_ceil_eq: "0 < x \<Longrightarrow> 0 < y \<Longrightarrow> div_ceil x y = (x + y - 1) div y"
  using div_add_self2 [of y "x - 1"] by (simp add: div_ceil_def)

lemma block_pads:
  assumes len: "length (in_buffer r) = 128" and xs: "length xs \<le> 127" "xs \<noteq> []"
    and inb: "in_buffer r = xs @ replicate (127 - length xs) 0 @ t"
  defines "r' \<equiv> (process_block r)\<lparr>available_frs := div_ceil (length xs * 8) IN_BITS_FR\<rparr>"
  shows "buffered r' = pad_spec xs" and "reader_wf r'" and "0 < available_frs r'"
proof -
  have av: "available_frs r' = (8 * length xs + 253) div 254"
    using xs by (simp add: r'_def div_ceil_eq IN_BITS_FR_def mult.commute)
  have le: "available_frs r' \<le> 4"
  proof -
    have "8 * length xs + 253 < 5 * 254" using xs by simp
    then have "(8 * length xs + 253) div 254 < 5" by (rule less_mult_imp_div_less)
    then show ?thesis using av by simp
  qed
  show wf: "reader_wf r'" using le len by (simp add: reader_wf_def r'_def)
  show "0 < available_frs r'" using xs by (cases xs) (simp_all add: av)
  show "buffered r' = pad_spec xs"
    unfolding pad_spec_def
  proof (rule bytes_of_eqI)
    show "length (buffered r') = 32 * ((8 * length xs + 253) div 254)"
      using length_buffered [OF wf] av by simp
    fix i assume i: "i < 8 * (32 * ((8 * length xs + 253) div 254))"
    then have i': "i < 8 * (32 * available_frs r')" "i < 1024" using le av by simp_all
    have "i mod 256 < 254 \<Longrightarrow> 254 * (i div 256) + i mod 256 < 1016" using i'(2) by (rule block_index)
    then have "pad_nbit (in_buffer r) i \<longleftrightarrow> pad_nbit xs i"
      using xs by (auto simp: pad_nbit_def inb nbit_append nbit_beyond)
    moreover have "nbit (buffered r') i \<longleftrightarrow> nbit (as_byte_slice (out_buffer (process_block r))) i"
      using i' by (simp add: buffered_def nbit_take r'_def)
    ultimately show "nbit (buffered r') i = pad_nbit xs i"
      using process_block_bits [OF len i'(2)] by simp
  qed
qed

lemma copy_out_copies:
  assumes wf: "reader_wf r" and av: "0 < available_frs r" and br: "br < length target"
  defines "len \<equiv> min (32 * available_frs r) (length target - br)"
  shows "\<exists>r'. copy_out r target br =
      Inr (r', take br target @ take len (buffered r) @ drop (br + len) target, br + len) \<and>
    reader_wf r' \<and> rd_source r' = rd_source r \<and> rd_done r' = rd_done r \<and>
    available_frs r' = available_frs r - (len + 31) div 32 \<and>
    (32 dvd len \<longrightarrow> buffered r' = drop len (buffered r))"
proof -
  have len: "0 < len" "len \<le> 32 * available_frs r" "len \<le> length target - br"
    using av br by (auto simp: len_def)
  have end': "min (br + available_frs r * 32) (length target) = br + len"
    using br by (auto simp: len_def min_def)
  have wf': "length (as_byte_slice (out_buffer r)) = 128" "out_offset r + 32 * available_frs r \<le> 128"
    using wf by (simp_all add: reader_wf_def)
  have dc: "div_ceil (len * 8) OUT_BITS_FR = (len + 31) div 32"
  proof -
    have "(8 * len + 255) div 256 = (len + 31) div 32"
      using div_mult2_eq [of "8 * len + 255" 8 32] by simp
    then show ?thesis using len(1) by (simp add: div_ceil_eq OUT_BITS_FR_def mult.commute)
  qed
  have "(len + 31) div 32 < available_frs r + 1" using len(2) by (intro less_mult_imp_div_less) simp
  then have le: "(len + 31) div 32 \<le> available_frs r" by simp
  define r' where "r' = r\<lparr>out_offset := out_offset r + len, available_frs := available_frs r - (len + 31) div 32\<rparr>"
  have "len \<le> 32 * ((len + 31) div 32)" by linarith
  then have wf2: "reader_wf r'" using wf le by (simp add: reader_wf_def r'_def) linarith
  have "take len (drop (out_offset r) (as_byte_slice (out_buffer r))) = take len (buffered r)"
    using len by (simp add: buffered_def min_def)
  then have "copy_out r target br =
      Inr (r', take br target @ take len (buffered r) @ drop (br + len) target, br + len)"
    using len wf' le dc end'
    by (simp add: copy_out_def Let_def OUT_BITS_FR_def [THEN arg_cong [where f = "\<lambda>x. x div 8"]] r'_def)
  moreover have "buffered r' = drop len (buffered r)" if d: "32 dvd len"
  proof -
    obtain k where k: "len = 32 * k" using d by (elim dvdE)
    then have "(len + 31) div 32 = k" by simp
    then show ?thesis by (simp add: buffered_def r'_def drop_take k right_diff_distrib' add.commute)
  qed
  ultimately show ?thesis using wf2 by (auto simp: r'_def)
qed

definition padded_stream :: "('s \<Rightarrow> u8 list) \<Rightarrow> 's fr32_reader \<Rightarrow> u8 list" where
  "padded_stream rest r = buffered r @ pad_spec (rest (rd_source r))"

context byte_source
begin

abbreviation stream :: "'s fr32_reader \<Rightarrow> u8 list" where
  "stream \<equiv> padded_stream rest"

lemmas stream_def = padded_stream_def

lemma refill:
  assumes wf: "reader_wf r" and av: "available_frs r = 0"
  shows "\<exists>r' n. fill_in_buffer rd r = Some (r', Inr n) \<and>
    (if n = 0 then reader_wf r' \<and> stream r = [] \<and> stream (r'\<lparr>rd_done := True\<rparr>) = [] \<and> reader_wf (r'\<lparr>rd_done := True\<rparr>)
     else let r2 = (process_block r')\<lparr>available_frs := div_ceil (n * 8) IN_BITS_FR\<rparr> in
       reader_wf r2 \<and> stream r2 = stream r \<and> 0 < available_frs r2 \<and> rd_done r2 = rd_done r)"
proof -
  define xs where "xs = rest (rd_source r)"
  have lb: "length (in_buffer r) = 128" using wf by (simp add: reader_wf_def)
  have st: "stream r = pad_spec xs" by (simp add: stream_def buffered_def av xs_def)
  obtain s' where s': "rest s' = drop 127 xs" and f: "fill_in_buffer rd r = Some (r\<lparr>rd_source := s', in_buffer := take 127 xs @
      replicate (127 - min 127 (length xs)) 0 @ drop 127 (in_buffer r)\<rparr>, Inr (min 127 (length xs)))"
    using fill_in_buffer_fills [OF lb] unfolding xs_def by blast
  define r' where "r' = r\<lparr>rd_source := s', in_buffer := take 127 xs @
      replicate (127 - min 127 (length xs)) 0 @ drop 127 (in_buffer r)\<rparr>"
  show ?thesis
  proof (cases "xs = []")
    case True
    then show ?thesis using f s' st lb wf av
      by (auto simp: stream_def buffered_def reader_wf_def)
  next
    case False
    have lb': "length (in_buffer r') = 128" using lb by (simp add: r'_def)
    have inb: "in_buffer r' = take 127 xs @ replicate (127 - length (take 127 xs)) 0 @ drop 127 (in_buffer r)"
      by (simp add: r'_def min.commute)
    have l127: "length (take 127 xs) \<le> 127" "take 127 xs \<noteq> []" using False by auto
    note b = block_pads [OF lb' l127 inb]
    have "stream ((process_block r')\<lparr>available_frs := div_ceil (length (take 127 xs) * 8) IN_BITS_FR\<rparr>) = stream r"
      unfolding st using pad_spec_step [of xs] b(1) by (simp add: stream_def r'_def s')
    moreover obtain m where m: "m = length (take 127 xs)" by simp
    have "m \<noteq> 0" using False by (simp add: m)
    moreover have "fill_in_buffer rd r = Some (r', Inr m)"
      using f by (simp add: r'_def m min.commute)
    moreover have "rd_done r' = rd_done r" by (simp add: r'_def)
    moreover note b(2,3) [folded m]
    ultimately show ?thesis
      unfolding m [symmetric] by (intro exI [of _ r'] exI [of _ m]) (simp add: Let_def)
  qed
qed

lemma read_loop_reads:
  assumes "reader_wf r" and "br \<le> length target"
  shows "\<exists>r' n. n = min (length target - br) (length (stream r)) \<and>
    read_loop rd r target br =
      Some (r', take br target @ take n (stream r) @ drop (br + n) target, Inr (br + n)) \<and>
    reader_wf r' \<and> (\<not> rd_done r \<longrightarrow> rd_done r' \<longrightarrow> stream r' = []) \<and>
    (32 dvd length target - br \<longrightarrow> stream r' = drop n (stream r)) \<and>
    length (stream r') = length (stream r) - 32 * ((n + 31) div 32)"
  using assms
proof (induction "length target - br" arbitrary: r br target rule: less_induct)
  case less
  show ?case
  proof (cases "br < length target")
    case False
    then show ?thesis using less.prems by (subst read_loop.simps) simp
  next
    case br: True
    have step: "\<exists>r' n. n = min (length target - br) (length (stream r)) \<and>
        (case copy_out r1 target br of
                 Inl e \<Rightarrow> Some (r1, target, Inl (Io_panic ''read''))
               | Inr (r'', target', br') \<Rightarrow> read_loop rd r'' target' br') =
      Some (r', take br target @ take n (stream r) @ drop (br + n) target, Inr (br + n)) \<and>
    reader_wf r' \<and> (\<not> rd_done r \<longrightarrow> rd_done r' \<longrightarrow> stream r' = []) \<and>
    (32 dvd length target - br \<longrightarrow> stream r' = drop n (stream r)) \<and>
    length (stream r') = length (stream r) - 32 * ((n + 31) div 32)"
      if r1: "reader_wf r1" "0 < available_frs r1" "stream r1 = stream r" "rd_done r1 = rd_done r" for r1
    proof -
      define len where "len = min (32 * available_frs r1) (length target - br)"
      obtain r2 where r2: "copy_out r1 target br =
          Inr (r2, take br target @ take len (buffered r1) @ drop (br + len) target, br + len)"
        "reader_wf r2" "rd_source r2 = rd_source r1" "rd_done r2 = rd_done r1"
        "available_frs r2 = available_frs r1 - (len + 31) div 32"
        "32 dvd len \<longrightarrow> buffered r2 = drop len (buffered r1)"
        using copy_out_copies [OF r1(1,2) br] unfolding len_def by blast
      define T2 where "T2 = take br target @ take len (buffered r1) @ drop (br + len) target"
      have lb: "length (buffered r1) = 32 * available_frs r1" using r1(1) by (rule length_buffered)
      have lT: "length T2 = length target" using br lb by (simp add: T2_def len_def)
      have pos: "0 < len" using r1(2) br by (simp add: len_def)
      have ls: "length (stream r2) = length (stream r) - 32 * ((len + 31) div 32)"
      proof -
        have "(len + 31) div 32 < available_frs r1 + 1"
          by (intro less_mult_imp_div_less) (simp add: len_def)
        then show ?thesis using r2(3,5) lb length_buffered [OF r2(2)]
          unfolding r1(3) [symmetric] unfolding stream_def by (simp add: right_diff_distrib')
      qed
      have want: "length T2 - (br + len) < length target - br" using lT pos br by simp
      have le: "br + len \<le> length T2" using lT br by (simp add: len_def)
      obtain r3 n2 where IH: "n2 = min (length T2 - (br + len)) (length (stream r2))"
        "read_loop rd r2 T2 (br + len) =
          Some (r3, take (br + len) T2 @ take n2 (stream r2) @ drop (br + len + n2) T2, Inr (br + len + n2))"
        "reader_wf r3" "\<not> rd_done r2 \<longrightarrow> rd_done r3 \<longrightarrow> stream r3 = []"
        "32 dvd length T2 - (br + len) \<longrightarrow> stream r3 = drop n2 (stream r2)"
        "length (stream r3) = length (stream r2) - 32 * ((n2 + 31) div 32)"
        using less.hyps [OF want r2(2) le] by blast
      have tT: "take (br + len) T2 = take br target @ take len (stream r)" 
        using lb br unfolding r1(3) [symmetric] by (simp add: T2_def stream_def len_def)
      have dT: "drop (br + len + n2) T2 = drop (br + len + n2) target" 
        using lb br by (simp add: T2_def len_def add.commute add.left_commute)
      have E: "(case copy_out r1 target br of
                 Inl e \<Rightarrow> Some (r1, target, Inl (Io_panic ''read''))
               | Inr (r'', target', br') \<Rightarrow> read_loop rd r'' target' br') = read_loop rd r2 T2 (br + len)"
        using r2(1) by (simp add: T2_def)
      have dn: "\<not> rd_done r \<longrightarrow> rd_done r3 \<longrightarrow> stream r3 = []" using IH(4) r2(4) r1(4) by simp
      show ?thesis
      proof (cases "32 * available_frs r1 \<le> length target - br")
        case True
        have len: "len = 32 * available_frs r1" "len \<le> length target - br" using True by (simp_all add: len_def)
        have "stream r1 = buffered r1 @ stream r2" using r2(3,6) lb by (simp add: len stream_def)
        then have S: "stream r = buffered r1 @ stream r2" "length (buffered r1) = len"
          using r1(3) lb by (simp_all add: len)
        define n where "n = len + n2"
        have n: "n = min (length target - br) (length (stream r))"
          using IH(1) S lT len(2) by (simp add: n_def)
        have "32 * ((n + 31) div 32) = len + 32 * ((n2 + 31) div 32)"
          by (simp add: n_def len add.assoc)
        then have ln: "length (stream r3) = length (stream r) - 32 * ((n + 31) div 32)"
          using IH(6) S by simp
        have dv: "32 dvd length target - br \<longrightarrow> stream r3 = drop n (stream r)"
        proof
          assume "32 dvd length target - br"
          then have "32 dvd length target - br - 32 * available_frs r1" by (rule dvd_diff_nat) simp
          then have "32 dvd length T2 - (br + len)" by (simp add: lT len(1))
          then show "stream r3 = drop n (stream r)" using IH(5) S lT by (simp add: n_def)
        qed
        have tk: "take br target @ take n (stream r) @ drop (br + n) target =
            take (br + len) T2 @ take n2 (stream r2) @ drop (br + len + n2) T2"
          unfolding tT dT using S by (simp add: n_def add.assoc)
        have E2: "read_loop rd r2 T2 (br + len) =
            Some (r3, take br target @ take n (stream r) @ drop (br + n) target, Inr (br + n))"
          using IH(2) unfolding tk by (simp add: n_def add.assoc)
        show ?thesis unfolding E E2
          by (intro exI [of _ r3] exI [of _ n] conjI refl n IH(3) dn dv ln)
      next
        case False
        then have len: "len = length target - br" "len < length (buffered r1)"
          using lb by (simp_all add: len_def)
        have n2: "n2 = 0" using IH(1) lT len by simp
        have r3: "stream r3 = stream r2" using IH(5) lT len n2 by simp
        have n: "len = min (length target - br) (length (stream r))"
          using len unfolding r1(3) [symmetric] unfolding stream_def by simp
        have dv: "32 dvd length target - br \<longrightarrow> stream r3 = drop len (stream r)"
          using r3 r2(3,6) len unfolding r1(3) [symmetric] unfolding stream_def by simp
        have E2: "read_loop rd r2 T2 (br + len) =
            Some (r3, take br target @ take len (stream r) @ drop (br + len) target, Inr (br + len))"
          using IH(2) tT dT unfolding n2 by simp
        show ?thesis unfolding E E2
          by (intro exI [of _ r3] exI [of _ len] conjI refl n IH(3) dn dv ls [folded r3])
      qed
    qed
    show ?thesis
    proof (cases "available_frs r = 0")
      case False
      have "read_loop rd r target br = (case copy_out r target br of
                 Inl e \<Rightarrow> Some (r, target, Inl (Io_panic ''read''))
               | Inr (r'', target', br') \<Rightarrow> read_loop rd r'' target' br')"
        using br False by (subst read_loop.simps) simp
      then show ?thesis using step [of r] less.prems(1) False by simp
    next
      case True
      obtain r' m where f: "fill_in_buffer rd r = Some (r', Inr m)" 
        "if m = 0 then reader_wf r' \<and> stream r = [] \<and> stream (r'\<lparr>rd_done := True\<rparr>) = [] \<and> reader_wf (r'\<lparr>rd_done := True\<rparr>)
     else let r2 = (process_block r')\<lparr>available_frs := div_ceil (m * 8) IN_BITS_FR\<rparr> in
       reader_wf r2 \<and> stream r2 = stream r \<and> 0 < available_frs r2 \<and> rd_done r2 = rd_done r"
        using refill [OF less.prems(1) True] by blast
      show ?thesis
      proof (cases "m = 0")
        case m: True
        have "read_loop rd r target br = Some (r'\<lparr>rd_done := True\<rparr>, target, Inr br)"
          using br True m f(1) by (subst read_loop.simps) simp
        then show ?thesis using f(2) m by simp
      next
        case m: False
        define r1 where "r1 = (process_block r')\<lparr>available_frs := div_ceil (m * 8) IN_BITS_FR\<rparr>"
        have "read_loop rd r target br = (case copy_out r1 target br of
                 Inl e \<Rightarrow> Some (r1, target, Inl (Io_panic ''read''))
               | Inr (r'', target', br') \<Rightarrow> read_loop rd r'' target' br')"
          using br True m f(1) by (subst read_loop.simps) (simp flip: r1_def)
        then show ?thesis using step [of r1] f(2) m by (simp add: r1_def [symmetric] Let_def)
      qed
    qed
  qed
qed

lemma fr32_read_reads:
  fixes target :: "u8 list"
  assumes "reader_wf r" and "rd_done r \<longrightarrow> stream r = []"
  defines "n \<equiv> min (length target) (length (stream r))"
  shows "\<exists>r'. fr32_read rd r target = Some (r', take n (stream r) @ drop n target, Inr n) \<and>
    reader_wf r' \<and> (rd_done r' \<longrightarrow> stream r' = []) \<and>
    (32 dvd length target \<longrightarrow> stream r' = drop n (stream r)) \<and>
    length (stream r') = length (stream r) - 32 * ((n + 31) div 32)"
proof (cases "rd_done r \<or> target = []")
  case True
  then show ?thesis using assms by (auto simp: fr32_read_def)
next
  case False
  then show ?thesis using read_loop_reads [OF assms(1), of 0 target]
    by (auto simp: fr32_read_def n_def)
qed

end

lemma reader_new:
  "reader_wf (fr32_reader_new s)" "\<not> rd_done (fr32_reader_new s)"
  "padded_stream rest (fr32_reader_new s) = pad_spec (rest s)"
  by (simp_all add: fr32_reader_new_def reader_wf_def padded_stream_def buffered_def
      NUM_BYTES_IN_BLOCK_def NUM_FRS_PER_BLOCK_def IN_BITS_FR_def NUM_U128S_PER_BLOCK_def
      NUM_BYTES_OUT_BLOCK_def OUT_BITS_FR_def)

interpretation zeros: byte_source empty_source_read "\<lambda>n. replicate n 0" "\<lambda>_. 0"
  by unfold_locales (auto simp: empty_source_read_def Let_def min_def split: if_splits)

interpretation bytes: byte_source slice_read id "\<lambda>_. 0"
  by unfold_locales (auto simp: slice_read_def Let_def min_def split: if_splits)

lemma unpad_pad: "unpad_spec (pad_spec xs) 0 (length xs) = xs"
proof (rule bytes_eqI)
  fix i assume "i < 8 * length (unpad_spec (pad_spec xs) 0 (length xs))"
  then have i: "i < 8 * length xs" by (simp add: unpad_spec_def)
  obtain q k where ik: "i = 254 * q + k" "k < 254" "i div 254 = q" "i mod 254 = k"
    by (rule div_modE [of 254 i]) auto
  have p: "pbit i = 256 * q + k" by (simp add: pbit_def ik)
  have "q < (8 * length xs + 253) div 254"
    using i by (simp add: ik(1) less_eq_div_iff_mult_less_eq flip: Suc_le_eq)
  then have "pbit i < 8 * (32 * ((8 * length xs + 253) div 254))" using ik(2) unfolding p by linarith
  moreover have "pbit i mod 256 = k" "pbit i div 256 = q" using ik(2) unfolding p by simp_all
  ultimately show "nbit (unpad_spec (pad_spec xs) 0 (length xs)) i = nbit xs i"
    using i ik by (simp add: unpad_spec_def pad_spec_def nbit_bytes_of pad_nbit_def)
qed (simp add: unpad_spec_def)

text \<open>A sequence of reads with buffers of the given sizes, the bytes read in order.\<close>

fun read_seq :: "'s read_op \<Rightarrow> 's fr32_reader \<Rightarrow> nat list \<Rightarrow> u8 list option" where
  "read_seq rd r [] = Some []"
| "read_seq rd r (n # ns) =
     (case fr32_read rd r (replicate n 0) of
        Some (r', t, Inr m) \<Rightarrow> map_option ((@) (take m t)) (read_seq rd r' ns)
      | _ \<Rightarrow> None)"

context byte_source
begin

lemma read_seq_aligned:
  assumes "reader_wf r" and "rd_done r \<longrightarrow> stream r = []" and "\<forall>n\<in>set ns. 32 dvd n"
  shows "read_seq rd r ns = Some (take (sum_list ns) (stream r))"
  using assms
proof (induction ns arbitrary: r)
  case (Cons n ns)
  obtain r' where r': "fr32_read rd r (replicate n 0) = Some (r', take (min n (length (stream r))) (stream r) @
        drop (min n (length (stream r))) (replicate n 0), Inr (min n (length (stream r))))"
    "reader_wf r'" "rd_done r' \<longrightarrow> stream r' = []" "stream r' = drop (min n (length (stream r))) (stream r)"
    using fr32_read_reads [OF Cons.prems(1,2), of "replicate n 0"] Cons.prems(3) by auto
  have "take (n + sum_list ns) (stream r) =
      take (min n (length (stream r))) (stream r) @ take (sum_list ns) (drop (min n (length (stream r))) (stream r))"
    by (auto simp: take_add min_def)
  then show ?case using r' Cons.IH [OF r'(2,3)] Cons.prems(3) by simp
qed simp

lemma read_seq_two:
  assumes "reader_wf r" and "rd_done r \<longrightarrow> stream r = []" and "n < length (stream r)"
    and "length (stream r) \<le> m"
  shows "\<exists>out. read_seq rd r [n, m] = Some out \<and> take n out = take n (stream r) \<and>
    length out + (32 * ((n + 31) div 32) - n) = length (stream r)"
proof -
  have mn: "min n (length (stream r)) = n" using assms(3) by simp
  obtain r' where r': "fr32_read rd r (replicate n 0) = Some (r', take n (stream r), Inr n)"
    "reader_wf r'" "rd_done r' \<longrightarrow> stream r' = []" "length (stream r') = length (stream r) - 32 * ((n + 31) div 32)"
    using fr32_read_reads [OF assms(1,2), of "replicate n 0"] by (auto simp: mn)
  have mm: "min m (length (stream r')) = length (stream r')" using r'(4) assms(4) by simp
  obtain r'' where r'': "fr32_read rd r' (replicate m 0) =
      Some (r'', stream r' @ replicate (m - length (stream r')) 0, Inr (length (stream r')))"
    using fr32_read_reads [OF r'(2,3), of "replicate m 0"] by (auto simp: mm)
  have d: "32 dvd length (stream r)"
    using assms(1) by (simp add: stream_def length_buffered length_pad_spec)
  then obtain k where k: "length (stream r) = 32 * k" by (elim dvdE)
  have "(n + 31) div 32 < k + 1" using assms(3) k by (intro less_mult_imp_div_less) simp
  then have "32 * ((n + 31) div 32) \<le> length (stream r)" "n \<le> 32 * ((n + 31) div 32)" using k by linarith+
  then show ?thesis using r'(1,4) r'' assms(3) by simp
qed

end

section \<open>Properties\<close>

text \<open>
  C22. The reader pads: reads with buffers of any sizes that are multiples of 32 give, in
  order, exactly the padded form of the source (two zero bits after every 254 data bits, the
  last element filled with zeros), however the reads cut the 128-byte blocks; they all return.
\<close>
theorem fr32_reader_pads:
  assumes "\<forall>n\<in>set ns. 32 dvd n"
  shows "read_seq slice_read (fr32_reader_new xs) ns = Some (take (sum_list ns) (pad_spec xs))"
  using bytes.read_seq_aligned [OF reader_new(1) _ assms, of xs] by (simp add: reader_new)

theorem fr32_reader_pads_witness:
  "read_seq slice_read (fr32_reader_new (replicate 200 7)) [32, 0, 96, 64] =
     Some (take 192 (pad_spec (replicate 200 7)))"
  using fr32_reader_pads [of "[32, 0, 96, 64]" "replicate 200 7"] by simp

text \<open>
  Round trip: the bytes of one read that is large enough for the whole padded source,
  given to \<open>write_unpadded\<close>, are the source again.
\<close>
theorem pad_unpad_round_trip:
  assumes "length (pad_spec xs) \<le> n"
  shows "\<exists>padded. read_seq slice_read (fr32_reader_new xs) [n] = Some padded \<and>
    write_unpadded b vec_write_all padded [] 0 (length xs) = Some (Inr (xs, length xs))"
proof -
  have mn: "min n (length (pad_spec xs)) = length (pad_spec xs)" using assms by simp
  obtain r' where "fr32_read slice_read (fr32_reader_new xs) (replicate n 0) =
      Some (r', pad_spec xs @ drop (length (pad_spec xs)) (replicate n 0), Inr (length (pad_spec xs)))"
    using bytes.fr32_read_reads [OF reader_new(1), of xs "replicate n 0"]
    by (auto simp: reader_new mn)
  then have "read_seq slice_read (fr32_reader_new xs) [n] = Some (pad_spec xs)" by simp
  moreover have "pbit (8 * (0 + length xs)) \<le> 8 * length (pad_spec xs)"
  proof -
    obtain q k where ik: "8 * length xs = 254 * q + k" "k < 254" "8 * length xs div 254 = q"
      "8 * length xs mod 254 = k" by (rule div_modE [of 254 "8 * length xs"]) auto
    have "q + (if k = 0 then 0 else 1) = (8 * length xs + 253) div 254"
      using ik(2) by (auto simp: ik(1) div_add1_eq [of "254 * q"])
    then show ?thesis using ik(2) by (simp add: pbit_def ik(3,4) length_pad_spec flip: \<open>q + _ = _\<close>)
  qed
  ultimately show ?thesis using write_unpadded_vec [of 0 "length xs" "pad_spec xs" b "[]"] by (simp add: unpad_pad)
qed

theorem pad_unpad_round_trip_witness:
  "\<exists>padded. read_seq slice_read (fr32_reader_new (replicate 127 5)) [500] = Some padded \<and>
    write_unpadded Release vec_write_all padded [] 0 127 = Some (Inr (replicate 127 5, 127))"
  using pad_unpad_round_trip [of "replicate 127 5" 500] by (simp add: length_pad_spec)

text \<open>
  Reads of other sizes lose data: after a read of \<open>n\<close> bytes, \<open>n\<close> not a multiple of 32
  and less than the stream, a read of everything that is left comes back short, so the
  reader does not keep the contract of \<open>Read\<close>.
\<close>
theorem fr32_reader_unaligned_loses:
  assumes "\<not> 32 dvd n" and "n < length (pad_spec xs)" and "length (pad_spec xs) \<le> m"
  shows "\<exists>out. read_seq slice_read (fr32_reader_new xs) [n, m] = Some out \<and>
    length out + (32 * ((n + 31) div 32) - n) = length (pad_spec xs) \<and> length out < length (pad_spec xs)"
proof -
  have "n < 32 * ((n + 31) div 32)" using assms(1) by presburger
  then show ?thesis using bytes.read_seq_two [OF reader_new(1), of xs n m] assms(2,3)
    by (auto simp: reader_new)
qed

theorem fr32_reader_unaligned_loses_witness:
  "\<exists>out. read_seq slice_read (fr32_reader_new (replicate 127 5)) [1, 8192] = Some out \<and> length out = 97"
  using fr32_reader_unaligned_loses [of 1 "replicate 127 5" 8192]
  by (auto simp: length_pad_spec simp del: read_seq.simps)

end
