(* ===== verification/Sha2raw.thy ===== *)
theory Sha2raw
  imports Prelude
begin

text \<open>
  The crate \<open>sha2raw\<close>: SHA-256 on messages of 32-byte blocks without a byte buffer. The
  portable implementation (\<open>sha256_utils.rs\<close>) works on vectors of four words in the order
  of the Intel SHA instructions; the theory shows that it is the algorithm of FIPS 180-4,
  which is stated here word by word. Vectors and their lanewise operations are those of
  \<open>fake_simd::u32x4\<close>.
\<close>

section \<open>The code\<close>

datatype u32x4 = U32x4 u32 u32 u32 u32

fun x4_lift2 :: "(u32 \<Rightarrow> u32 \<Rightarrow> u32) \<Rightarrow> u32x4 \<Rightarrow> u32x4 \<Rightarrow> u32x4" where
  "x4_lift2 f (U32x4 a b c d) (U32x4 a' b' c' d') = U32x4 (f a a') (f b b') (f c c') (f d d')"

abbreviation x4_add :: "u32x4 \<Rightarrow> u32x4 \<Rightarrow> u32x4" where
  "x4_add \<equiv> x4_lift2 (+)"

abbreviation x4_xor :: "u32x4 \<Rightarrow> u32x4 \<Rightarrow> u32x4" where
  "x4_xor \<equiv> x4_lift2 (XOR)"

abbreviation x4_or :: "u32x4 \<Rightarrow> u32x4 \<Rightarrow> u32x4" where
  "x4_or \<equiv> x4_lift2 (OR)"

text \<open>Shifts of every lane by the same count.\<close>

fun x4_shr :: "u32x4 \<Rightarrow> nat \<Rightarrow> u32x4" where
  "x4_shr (U32x4 a b c d) n = U32x4 (drop_bit n a) (drop_bit n b) (drop_bit n c) (drop_bit n d)"

fun x4_shl :: "u32x4 \<Rightarrow> nat \<Rightarrow> u32x4" where
  "x4_shl (U32x4 a b c d) n = U32x4 (push_bit n a) (push_bit n b) (push_bit n c) (push_bit n d)"

definition STATE_LEN :: nat where "STATE_LEN = 8"
definition BLOCK_LEN :: nat where "BLOCK_LEN = 16"

definition K32 :: "u32 list" where
  "K32 = concat [
    [0x428a2f98, 0x71374491, 0xb5c0fbcf, 0xe9b5dba5, 0x3956c25b, 0x59f111f1, 0x923f82a4, 0xab1c5ed5],
    [0xd807aa98, 0x12835b01, 0x243185be, 0x550c7dc3, 0x72be5d74, 0x80deb1fe, 0x9bdc06a7, 0xc19bf174],
    [0xe49b69c1, 0xefbe4786, 0x0fc19dc6, 0x240ca1cc, 0x2de92c6f, 0x4a7484aa, 0x5cb0a9dc, 0x76f988da],
    [0x983e5152, 0xa831c66d, 0xb00327c8, 0xbf597fc7, 0xc6e00bf3, 0xd5a79147, 0x06ca6351, 0x14292967],
    [0x27b70a85, 0x2e1b2138, 0x4d2c6dfc, 0x53380d13, 0x650a7354, 0x766a0abb, 0x81c2c92e, 0x92722c85],
    [0xa2bfe8a1, 0xa81a664b, 0xc24b8b70, 0xc76c51a3, 0xd192e819, 0xd6990624, 0xf40e3585, 0x106aa070],
    [0x19a4c116, 0x1e376c08, 0x2748774c, 0x34b0bcb5, 0x391c0cb3, 0x4ed8aa4a, 0x5b9cca4f, 0x682e6ff3],
    [0x748f82ee, 0x78a5636f, 0x84c87814, 0x8cc70208, 0x90befffa, 0xa4506ceb, 0xbef9a3f7, 0xc67178f2]]"

definition K32X4 :: "u32x4 list" where
  "K32X4 = [
    U32x4 (K32 ! 3) (K32 ! 2) (K32 ! 1) (K32 ! 0),
    U32x4 (K32 ! 7) (K32 ! 6) (K32 ! 5) (K32 ! 4),
    U32x4 (K32 ! 11) (K32 ! 10) (K32 ! 9) (K32 ! 8),
    U32x4 (K32 ! 15) (K32 ! 14) (K32 ! 13) (K32 ! 12),
    U32x4 (K32 ! 19) (K32 ! 18) (K32 ! 17) (K32 ! 16),
    U32x4 (K32 ! 23) (K32 ! 22) (K32 ! 21) (K32 ! 20),
    U32x4 (K32 ! 27) (K32 ! 26) (K32 ! 25) (K32 ! 24),
    U32x4 (K32 ! 31) (K32 ! 30) (K32 ! 29) (K32 ! 28),
    U32x4 (K32 ! 35) (K32 ! 34) (K32 ! 33) (K32 ! 32),
    U32x4 (K32 ! 39) (K32 ! 38) (K32 ! 37) (K32 ! 36),
    U32x4 (K32 ! 43) (K32 ! 42) (K32 ! 41) (K32 ! 40),
    U32x4 (K32 ! 47) (K32 ! 46) (K32 ! 45) (K32 ! 44),
    U32x4 (K32 ! 51) (K32 ! 50) (K32 ! 49) (K32 ! 48),
    U32x4 (K32 ! 55) (K32 ! 54) (K32 ! 53) (K32 ! 52),
    U32x4 (K32 ! 59) (K32 ! 58) (K32 ! 57) (K32 ! 56),
    U32x4 (K32 ! 63) (K32 ! 62) (K32 ! 61) (K32 ! 60)]"

definition H256 :: "u32 list" where
  "H256 = [0x6a09e667, 0xbb67ae85, 0x3c6ef372, 0xa54ff53a, 0x510e527f, 0x9b05688c, 0x1f83d9ab, 0x5be0cd19]"

fun sha256load :: "u32x4 \<Rightarrow> u32x4 \<Rightarrow> u32x4" where
  "sha256load (U32x4 p0 p1 p2 p3) (U32x4 q0 q1 q2 q3) = U32x4 q3 p0 p1 p2"

fun sha256swap :: "u32x4 \<Rightarrow> u32x4" where
  "sha256swap (U32x4 a b c d) = U32x4 c d a b"

definition sigma0x4 :: "u32x4 \<Rightarrow> u32x4" where
  "sigma0x4 x = x4_xor (x4_xor (x4_or (x4_shr x 7) (x4_shl x 25)) (x4_or (x4_shr x 18) (x4_shl x 14)))
     (x4_shr x 3)"

definition sha256msg1 :: "u32x4 \<Rightarrow> u32x4 \<Rightarrow> u32x4" where
  "sha256msg1 v0 v1 = x4_add v0 (sigma0x4 (sha256load v0 v1))"

definition sigma1 :: "u32 \<Rightarrow> u32" where
  "sigma1 a = word_rotr 17 a XOR word_rotr 19 a XOR drop_bit 10 a"

fun sha256msg2 :: "u32x4 \<Rightarrow> u32x4 \<Rightarrow> u32x4" where
  "sha256msg2 (U32x4 x3 x2 x1 x0) (U32x4 w15 w14 _ _) =
     (let w16 = x0 + sigma1 w14;
          w17 = x1 + sigma1 w15;
          w18 = x2 + sigma1 w16;
          w19 = x3 + sigma1 w17
      in U32x4 w19 w18 w17 w16)"

definition big_sigma0 :: "u32 \<Rightarrow> u32" where
  "big_sigma0 a = word_rotr 2 a XOR word_rotr 13 a XOR word_rotr 22 a"

definition big_sigma1 :: "u32 \<Rightarrow> u32" where
  "big_sigma1 a = word_rotr 6 a XOR word_rotr 11 a XOR word_rotr 25 a"

definition bool3ary_202 :: "u32 \<Rightarrow> u32 \<Rightarrow> u32 \<Rightarrow> u32" where
  "bool3ary_202 a b c = c XOR (a AND (b XOR c))"

definition bool3ary_232 :: "u32 \<Rightarrow> u32 \<Rightarrow> u32 \<Rightarrow> u32" where
  "bool3ary_232 a b c = (a AND b) XOR (a AND c) XOR (b AND c)"

fun sha256_digest_round_x2 :: "u32x4 \<Rightarrow> u32x4 \<Rightarrow> u32x4 \<Rightarrow> u32x4" where
  "sha256_digest_round_x2 (U32x4 c0 d0 g0 h0) (U32x4 a0 b0 e0 f0) (U32x4 _ _ wk1 wk0) =
     (let x0 = big_sigma1 e0 + bool3ary_202 e0 f0 g0 + wk0 + h0;
          y0 = big_sigma0 a0 + bool3ary_232 a0 b0 c0;
          (a1, b1, c1, d1, e1, f1, g1, h1) = (x0 + y0, a0, b0, c0, x0 + d0, e0, f0, g0);
          x1 = big_sigma1 e1 + bool3ary_202 e1 f1 g1 + wk1 + h1;
          y1 = big_sigma0 a1 + bool3ary_232 a1 b1 c1;
          (a2, b2, e2, f2) = (x1 + y1, a1, x1 + d1, e1)
      in U32x4 a2 b2 e2 f2)"

definition schedule :: "u32x4 \<Rightarrow> u32x4 \<Rightarrow> u32x4 \<Rightarrow> u32x4 \<Rightarrow> u32x4" where
  "schedule v0 v1 v2 v3 = sha256msg2 (x4_add (sha256msg1 v0 v1) (sha256load v2 v3)) v3"

fun rounds4 :: "u32x4 \<times> u32x4 \<Rightarrow> u32x4 \<Rightarrow> u32x4 \<times> u32x4" where
  "rounds4 (abef, cdgh) rest =
     (let cdgh = sha256_digest_round_x2 cdgh abef rest;
          abef = sha256_digest_round_x2 abef cdgh (sha256swap rest)
      in (abef, cdgh))"

definition sha256_digest_block_u32 :: "u32 list \<Rightarrow> u32 list \<Rightarrow> u32 list" where
  "sha256_digest_block_u32 state block =
     (let abef = U32x4 (state ! 0) (state ! 1) (state ! 4) (state ! 5);
          cdgh = U32x4 (state ! 2) (state ! 3) (state ! 6) (state ! 7);
          w0 = U32x4 (block ! 3) (block ! 2) (block ! 1) (block ! 0);
          (abef, cdgh) = rounds4 (abef, cdgh) (x4_add (K32X4 ! 0) w0);
          w1 = U32x4 (block ! 7) (block ! 6) (block ! 5) (block ! 4);
          (abef, cdgh) = rounds4 (abef, cdgh) (x4_add (K32X4 ! 1) w1);
          w2 = U32x4 (block ! 11) (block ! 10) (block ! 9) (block ! 8);
          (abef, cdgh) = rounds4 (abef, cdgh) (x4_add (K32X4 ! 2) w2);
          w3 = U32x4 (block ! 15) (block ! 14) (block ! 13) (block ! 12);
          (abef, cdgh) = rounds4 (abef, cdgh) (x4_add (K32X4 ! 3) w3);
          w4 = schedule w0 w1 w2 w3;
          (abef, cdgh) = rounds4 (abef, cdgh) (x4_add (K32X4 ! 4) w4);
          w0 = schedule w1 w2 w3 w4;
          (abef, cdgh) = rounds4 (abef, cdgh) (x4_add (K32X4 ! 5) w0);
          w1 = schedule w2 w3 w4 w0;
          (abef, cdgh) = rounds4 (abef, cdgh) (x4_add (K32X4 ! 6) w1);
          w2 = schedule w3 w4 w0 w1;
          (abef, cdgh) = rounds4 (abef, cdgh) (x4_add (K32X4 ! 7) w2);
          w3 = schedule w4 w0 w1 w2;
          (abef, cdgh) = rounds4 (abef, cdgh) (x4_add (K32X4 ! 8) w3);
          w4 = schedule w0 w1 w2 w3;
          (abef, cdgh) = rounds4 (abef, cdgh) (x4_add (K32X4 ! 9) w4);
          w0 = schedule w1 w2 w3 w4;
          (abef, cdgh) = rounds4 (abef, cdgh) (x4_add (K32X4 ! 10) w0);
          w1 = schedule w2 w3 w4 w0;
          (abef, cdgh) = rounds4 (abef, cdgh) (x4_add (K32X4 ! 11) w1);
          w2 = schedule w3 w4 w0 w1;
          (abef, cdgh) = rounds4 (abef, cdgh) (x4_add (K32X4 ! 12) w2);
          w3 = schedule w4 w0 w1 w2;
          (abef, cdgh) = rounds4 (abef, cdgh) (x4_add (K32X4 ! 13) w3);
          w4 = schedule w0 w1 w2 w3;
          (abef, cdgh) = rounds4 (abef, cdgh) (x4_add (K32X4 ! 14) w4);
          w0 = schedule w1 w2 w3 w4;
          (abef, cdgh) = rounds4 (abef, cdgh) (x4_add (K32X4 ! 15) w0)
      in case (abef, cdgh) of (U32x4 a b e f, U32x4 c d g h) \<Rightarrow>
           [state ! 0 + a, state ! 1 + b, state ! 2 + c, state ! 3 + d,
            state ! 4 + e, state ! 5 + f, state ! 6 + g, state ! 7 + h])"

text \<open>\<open>compress256\<close>: pairs of 32-byte blocks; an odd number of blocks panics at \<open>block[1]\<close>.\<close>

fun compress256 :: "u32 list \<Rightarrow> u8 list list \<Rightarrow> u32 list res" where
  "compress256 state [] = Inr state"
| "compress256 state [b0] =
     (if length b0 = 32 then Inl (Panic ''index out of bounds'') else Inl (Panic ''assertion failed''))"
| "compress256 state (b0 # b1 # bs) =
     (if length b0 = 32 \<and> length b1 = 32
      then compress256 (sha256_digest_block_u32 state
             (map word_of_be (chunks 4 b0) @ map word_of_be (chunks 4 b1))) bs
      else Inl (Panic ''assertion failed''))"

record sha256 =
  sha_len :: u64
  sha_state :: "u32 list"

definition sha256_new :: sha256 where
  "sha256_new = \<lparr>sha_len = 0, sha_state = H256\<rparr>"

definition sha256_input :: "sha256 \<Rightarrow> u8 list list \<Rightarrow> sha256 res" where
  "sha256_input s blocks =
     bindR (compress256 (sha_state s) blocks) (\<lambda>state.
       Inr \<lparr>sha_len = sha_len s + push_bit 8 (of_nat (length blocks)), sha_state = state\<rparr>)"

definition write_u32_into :: "u32 list \<Rightarrow> u8 list" where
  "write_u32_into ws = concat (map (be_of_word 4) ws)"

definition sha256_finish :: "sha256 \<Rightarrow> u8 list res" where
  "sha256_finish s =
     (let block0 = 0x80 # replicate 31 0;
          block1 = replicate 24 0 @ be_of_word 8 (sha_len s)
      in bindR (compress256 (sha_state s) [block0, block1]) (\<lambda>state. Inr (write_u32_into state)))"

definition sha256_finish_with :: "sha256 \<Rightarrow> u8 list \<Rightarrow> u8 list res" where
  "sha256_finish_with s block0 =
     (let block1 = 0x80 # replicate 23 0 @ be_of_word 8 (sha_len s + 256)
      in bindR (compress256 (sha_state s) [block0, block1]) (\<lambda>state. Inr (write_u32_into state)))"

definition sha256_digest :: "u8 list list \<Rightarrow> u8 list res" where
  "sha256_digest blocks = bindR (sha256_input sha256_new blocks) sha256_finish"

section \<open>FIPS 180-4\<close>

text \<open>
  The standard, with nothing of the code. The constants are given by what it says of them (4.2.2 and 5.3.3):
  the first 32 bits of the fractional parts of the cube roots of the first 64 primes, and of the
  square roots of the first 8. The root of \<open>p * 2 ^ (32 * k)\<close> is found bit by bit.
\<close>

fun root_bits :: "nat \<Rightarrow> int \<Rightarrow> nat \<Rightarrow> int \<Rightarrow> int" where
  "root_bits k x 0 r = r"
| "root_bits k x (Suc b) r = root_bits k x b (if (r + 2 ^ b) ^ k \<le> x then r + 2 ^ b else r)"

definition root_fraction :: "nat \<Rightarrow> int \<Rightarrow> u32" where
  "root_fraction k p = word_of_int (root_bits k (p * 2 ^ (32 * k)) 40 0)"

definition fips_primes :: "int list" where
  "fips_primes = [
    2, 3, 5, 7, 11, 13, 17, 19, 23, 29, 31, 37, 41, 43, 47, 53,
    59, 61, 67, 71, 73, 79, 83, 89, 97, 101, 103, 107, 109, 113, 127, 131,
    137, 139, 149, 151, 157, 163, 167, 173, 179, 181, 191, 193, 197, 199, 211, 223,
    227, 229, 233, 239, 241, 251, 257, 263, 269, 271, 277, 281, 283, 293, 307, 311]"

definition fips_K :: "u32 list" where
  "fips_K = map (root_fraction 3) fips_primes"

definition fips_H0 :: "u32 list" where
  "fips_H0 = map (root_fraction 2) (take 8 fips_primes)"

text \<open>The functions, the message schedule and the rounds of sections 4.1.2 and 6.2.2.\<close>

definition fips_ch :: "u32 \<Rightarrow> u32 \<Rightarrow> u32 \<Rightarrow> u32" where
  "fips_ch x y z = (x AND y) XOR (NOT x AND z)"

definition fips_maj :: "u32 \<Rightarrow> u32 \<Rightarrow> u32 \<Rightarrow> u32" where
  "fips_maj x y z = (x AND y) XOR (x AND z) XOR (y AND z)"

definition fips_big_sigma0 :: "u32 \<Rightarrow> u32" where
  "fips_big_sigma0 x = word_rotr 2 x XOR word_rotr 13 x XOR word_rotr 22 x"

definition fips_big_sigma1 :: "u32 \<Rightarrow> u32" where
  "fips_big_sigma1 x = word_rotr 6 x XOR word_rotr 11 x XOR word_rotr 25 x"

definition fips_sigma0 :: "u32 \<Rightarrow> u32" where
  "fips_sigma0 x = word_rotr 7 x XOR word_rotr 18 x XOR drop_bit 3 x"

definition fips_sigma1 :: "u32 \<Rightarrow> u32" where
  "fips_sigma1 x = word_rotr 17 x XOR word_rotr 19 x XOR drop_bit 10 x"

fun fips_w :: "u32 list \<Rightarrow> nat \<Rightarrow> u32" where
  "fips_w m t = (if t < 16 then m ! t
     else fips_sigma1 (fips_w m (t - 2)) + fips_w m (t - 7) + fips_sigma0 (fips_w m (t - 15)) + fips_w m (t - 16))"

declare fips_w.simps [simp del]

type_synonym regs = "u32 \<times> u32 \<times> u32 \<times> u32 \<times> u32 \<times> u32 \<times> u32 \<times> u32"

fun fips_round :: "u32 \<Rightarrow> regs \<Rightarrow> regs" where
  "fips_round kw (a, b, c, d, e, f, g, h) =
     (let t1 = h + fips_big_sigma1 e + fips_ch e f g + kw;
          t2 = fips_big_sigma0 a + fips_maj a b c
      in (t1 + t2, a, b, c, d + t1, e, f, g))"

definition fips_compress :: "u32 list \<Rightarrow> u32 list \<Rightarrow> u32 list" where
  "fips_compress H m =
     (case fold (\<lambda>t. fips_round (fips_K ! t + fips_w m t)) [0..<64]
          (H ! 0, H ! 1, H ! 2, H ! 3, H ! 4, H ! 5, H ! 6, H ! 7) of
        (a, b, c, d, e, f, g, h) \<Rightarrow>
          [H ! 0 + a, H ! 1 + b, H ! 2 + c, H ! 3 + d, H ! 4 + e, H ! 5 + f, H ! 6 + g, H ! 7 + h])"

text \<open>Padding (5.1.1), parsing into blocks (5.2.1) and the hash (6.2).\<close>

definition fips_pad :: "u8 list \<Rightarrow> u8 list" where
  "fips_pad msg = msg @ [0x80] @ replicate ((119 - length msg mod 64) mod 64) 0
     @ be_of_word 8 (of_nat (8 * length msg) :: u64)"

definition fips_sha256 :: "u8 list \<Rightarrow> u8 list" where
  "fips_sha256 msg =
     concat (map (be_of_word 4)
       (fold (\<lambda>block H. fips_compress H (map word_of_be (chunks 4 block)))
         (chunks 64 (fips_pad msg)) fips_H0))"

section \<open>The constants\<close>

lemma root_bits_bounds:
  assumes "0 < k" and "0 \<le> r" and "r ^ k \<le> x" and "x < (r + 2 ^ b) ^ k"
  shows "0 \<le> root_bits k x b r \<and> root_bits k x b r ^ k \<le> x \<and> x < (root_bits k x b r + 1) ^ k"
  using assms by (induction b arbitrary: r) (simp_all add: algebra_simps)

lemma root_fractionI:
  fixes s :: int
  assumes "0 < k" and "0 \<le> s" and "s ^ k \<le> p * 2 ^ (32 * k)" and "p * 2 ^ (32 * k) < (s + 1) ^ k" and "s < 2 ^ 40"
  shows "root_fraction k p = word_of_int s"
proof -
  let ?x = "p * 2 ^ (32 * k)" let ?q = "root_bits k ?x 40 0"
  have "(s + 1) ^ k \<le> (2 ^ 40) ^ k" using assms(2,5) by (intro power_mono) auto
  moreover have "0 \<le> ?x" using assms(2,3) by (meson order_trans zero_le_power)
  ultimately have q: "0 \<le> ?q" "?q ^ k \<le> ?x" "?x < (?q + 1) ^ k"
    using root_bits_bounds [of k 0 ?x 40] assms(1,4) by (auto simp: power_0_left simp del: power_mult)
  have "\<not> ?q < s"
  proof
    assume "?q < s"
    then have "(?q + 1) ^ k \<le> s ^ k" using q(1) by (intro power_mono) auto
    then show False using q(3) assms(3) by simp
  qed
  moreover have "\<not> s < ?q"
  proof
    assume "s < ?q"
    then have "(s + 1) ^ k \<le> ?q ^ k" using assms(2) by (intro power_mono) auto
    then show False using q(2) assms(4) by simp
  qed
  ultimately show ?thesis by (simp add: root_fraction_def)
qed

lemma root_fractions:
  assumes "list_all2 (\<lambda>p s. 0 \<le> s \<and> s ^ k \<le> p * 2 ^ (32 * k) \<and> p * 2 ^ (32 * k) < (s + 1) ^ k \<and> s < 2 ^ 40) ps ss" and "0 < k"
  shows "map (root_fraction k) ps = map word_of_int ss"
  using assms(1) by (induction rule: list_all2_induct) (use assms(2) root_fractionI in auto)

text \<open>The tables of the code are the constants of the standard; these are evaluated by the tables.\<close>

lemma fips_K_table [code]: "fips_K = K32"
proof -
  have "list_all2 (\<lambda>p s. 0 \<le> s \<and> s ^ 3 \<le> p * 2 ^ (32 * 3) \<and> p * 2 ^ (32 * 3) < (s + 1) ^ 3 \<and> s < 2 ^ 40) fips_primes [
      0x1428a2f98, 0x171374491, 0x1b5c0fbcf, 0x1e9b5dba5, 0x23956c25b, 0x259f111f1, 0x2923f82a4, 0x2ab1c5ed5,
      0x2d807aa98, 0x312835b01, 0x3243185be, 0x3550c7dc3, 0x372be5d74, 0x380deb1fe, 0x39bdc06a7, 0x3c19bf174,
      0x3e49b69c1, 0x3efbe4786, 0x40fc19dc6, 0x4240ca1cc, 0x42de92c6f, 0x44a7484aa, 0x45cb0a9dc, 0x476f988da,
      0x4983e5152, 0x4a831c66d, 0x4b00327c8, 0x4bf597fc7, 0x4c6e00bf3, 0x4d5a79147, 0x506ca6351, 0x514292967,
      0x527b70a85, 0x52e1b2138, 0x54d2c6dfc, 0x553380d13, 0x5650a7354, 0x5766a0abb, 0x581c2c92e, 0x592722c85,
      0x5a2bfe8a1, 0x5a81a664b, 0x5c24b8b70, 0x5c76c51a3, 0x5d192e819, 0x5d6990624, 0x5f40e3585, 0x6106aa070,
      0x619a4c116, 0x61e376c08, 0x62748774c, 0x634b0bcb5, 0x6391c0cb3, 0x64ed8aa4a, 0x65b9cca4f, 0x6682e6ff3,
      0x6748f82ee, 0x678a5636f, 0x684c87814, 0x68cc70208, 0x690befffa, 0x6a4506ceb, 0x6bef9a3f7, 0x6c67178f2 :: int]"
    by (simp add: fips_primes_def)
  from root_fractions [OF this] show ?thesis by (simp add: fips_K_def K32_def)
qed

lemma fips_H0_table [code]: "fips_H0 = H256"
proof -
  have "list_all2 (\<lambda>p s. 0 \<le> s \<and> s ^ 2 \<le> p * 2 ^ (32 * 2) \<and> p * 2 ^ (32 * 2) < (s + 1) ^ 2 \<and> s < 2 ^ 40) (take 8 fips_primes) [
      0x16a09e667, 0x1bb67ae85, 0x23c6ef372, 0x2a54ff53a, 0x3510e527f, 0x39b05688c, 0x41f83d9ab, 0x45be0cd19 :: int]"
    by (simp add: fips_primes_def)
  from root_fractions [OF this] show ?thesis by (simp add: fips_H0_def H256_def)
qed

lemma sigma1_fips: "sigma1 = fips_sigma1"
  by (simp add: fun_eq_iff sigma1_def fips_sigma1_def)

lemma big_sigma_fips: "big_sigma0 = fips_big_sigma0" "big_sigma1 = fips_big_sigma1"
  by (simp_all add: fun_eq_iff big_sigma0_def fips_big_sigma0_def big_sigma1_def fips_big_sigma1_def)

section \<open>The block function\<close>

lemma ch_eq: "bool3ary_202 x y z = fips_ch x y z"
  by (rule bit_word_eqI) (auto simp: bool3ary_202_def fips_ch_def bit_simps)

lemma rotr_as_shifts:
  assumes "0 < n" "n < 32"
  shows "drop_bit n x OR push_bit (32 - n) x = word_rotr n (x :: u32)"
proof (rule bit_word_eqI)
  fix k assume "k < LENGTH(32)"
  then have k: "k < 32" by simp
  show "bit (drop_bit n x OR push_bit (32 - n) x) k = bit (word_rotr n x) k"
  proof (cases "k + n < 32")
    case True
    then have "(k + n) mod 32 = k + n" "\<not> 32 - n \<le> k" by simp_all
    then show ?thesis using assms k by (simp add: bit_simps bit_word_rotr_iff add.commute)
  next
    case False
    then have "(k + n) mod 32 = k + n - 32" using assms k by (simp add: le_mod_geq)
    moreover have "\<not> bit x (n + k)" using False bit_imp_le_length [of x "n + k"] by auto
    ultimately show ?thesis using assms k False by (auto simp: bit_simps bit_word_rotr_iff)
  qed
qed

lemma sigma0x4_lanes:
  "sigma0x4 (U32x4 a b c d) = U32x4 (fips_sigma0 a) (fips_sigma0 b) (fips_sigma0 c) (fips_sigma0 d)"
  using rotr_as_shifts [of 7] rotr_as_shifts [of 18] by (simp add: sigma0x4_def fips_sigma0_def xor.assoc)

text \<open>Four consecutive words of the schedule, as the vectors hold them.\<close>

definition wvec :: "u32 list \<Rightarrow> nat \<Rightarrow> u32x4" where
  "wvec m j = U32x4 (fips_w m (4 * j + 3)) (fips_w m (4 * j + 2)) (fips_w m (4 * j + 1)) (fips_w m (4 * j))"

lemma schedule_w: "schedule (wvec m j) (wvec m (j + 1)) (wvec m (j + 2)) (wvec m (j + 3)) = wvec m (j + 4)"
proof -
  define f where "f = (\<lambda>i. fips_w m (i + 4 * j))"
  have w: "wvec m (j + n) = U32x4 (f (4 * n + 3)) (f (4 * n + 2)) (f (4 * n + 1)) (f (4 * n))" for n
    by (simp add: wvec_def f_def algebra_simps)
  have st: "f 16 = fips_sigma1 (f 14) + f 9 + fips_sigma0 (f 1) + f 0"
    "f 17 = fips_sigma1 (f 15) + f 10 + fips_sigma0 (f 2) + f 1"
    "f 18 = fips_sigma1 (f 16) + f 11 + fips_sigma0 (f 3) + f 2"
    "f 19 = fips_sigma1 (f 17) + f 12 + fips_sigma0 (f 4) + f 3"
    unfolding f_def by (subst fips_w.simps, simp add: numeral_eq_Suc)+
  show ?thesis
    using w [of 0] w [of 1] w [of 2] w [of 3] w [of 4]
    by (simp add: schedule_def sha256msg1_def sigma0x4_lanes sigma1_fips Let_def st add.commute add.left_commute
        flip: numeral_2_eq_2)
qed

text \<open>Registers packed as the vectors hold them; four rounds.\<close>

fun pack :: "regs \<Rightarrow> u32x4 \<times> u32x4" where
  "pack (a, b, c, d, e, f, g, h) = (U32x4 a b e f, U32x4 c d g h)"

fun fips_four :: "u32x4 \<Rightarrow> regs \<Rightarrow> regs" where
  "fips_four (U32x4 k3 k2 k1 k0) s = fips_round k3 (fips_round k2 (fips_round k1 (fips_round k0 s)))"

lemma round_x2:
  "fips_round wk1 (fips_round wk0 (a, b, c, d, e, f, g, h)) = (a2, b2, c2, d2, e2, f2, g2, h2) \<Longrightarrow>
   sha256_digest_round_x2 (U32x4 c d g h) (U32x4 a b e f) (U32x4 x y wk1 wk0) = U32x4 a2 b2 e2 f2 \<and>
   (c2, d2, g2, h2) = (a, b, e, f)"
  by (auto simp: Let_def ch_eq big_sigma_fips bool3ary_232_def fips_maj_def ac_simps)

lemma rounds4_pack: "rounds4 (pack s) v = pack (fips_four v s)"
proof -
  obtain a b c d e f g h where s: "s = (a, b, c, d, e, f, g, h)" by (metis prod.exhaust)
  obtain k3 k2 k1 k0 where v: "v = U32x4 k3 k2 k1 k0" by (cases v)
  obtain a2 b2 c2 d2 e2 f2 g2 h2 where 1:
    "fips_round k1 (fips_round k0 s) = (a2, b2, c2, d2, e2, f2, g2, h2)" by (metis prod.exhaust)
  obtain a4 b4 c4 d4 e4 f4 g4 h4 where 2:
    "fips_round k3 (fips_round k2 (a2, b2, c2, d2, e2, f2, g2, h2)) = (a4, b4, c4, d4, e4, f4, g4, h4)"
    by (metis prod.exhaust)
  note r1 = round_x2 [OF 1 [unfolded s], of k3 k2]
  note r2 = round_x2 [OF 2, of k1 k0]
  have "fips_four v s = (a4, b4, c4, d4, e4, f4, g4, h4)" using 1 2 by (simp add: v del: fips_round.simps)
  then show ?thesis using r1 r2
    by (simp add: s v Let_def del: sha256_digest_round_x2.simps fips_round.simps fips_four.simps)
qed

lemma K32X4_nth:
  "j < 16 \<Longrightarrow> K32X4 ! j = U32x4 (K32 ! (4 * j + 3)) (K32 ! (4 * j + 2)) (K32 ! (4 * j + 1)) (K32 ! (4 * j))"
  unfolding K32X4_def by (auto simp: less_Suc_eq numeral_eq_Suc)

definition rounds_upto :: "u32 list \<Rightarrow> nat \<Rightarrow> regs \<Rightarrow> regs" where
  "rounds_upto m n = fold (\<lambda>t. fips_round (fips_K ! t + fips_w m t)) [0..<n]"

lemma rounds4_step:
  assumes "j < 16"
  shows "rounds4 (pack (rounds_upto m (4 * j) s)) (x4_add (K32X4 ! j) (wvec m j)) =
    pack (rounds_upto m (4 * (j + 1)) s)"
proof -
  have "[0..<4 * (j + 1)] = [0..<4 * j] @ [4 * j, 4 * j + 1, 4 * j + 2, 4 * j + 3]"
    by (simp add: numeral_eq_Suc)
  then show ?thesis
    unfolding rounds4_pack K32X4_nth [OF assms] wvec_def by (simp add: rounds_upto_def fips_K_table)
qed

lemma wvec_first:
  assumes "j < 4"
  shows "wvec m j = U32x4 (m ! (4 * j + 3)) (m ! (4 * j + 2)) (m ! (4 * j + 1)) (m ! (4 * j))"
  using assms by (simp add: wvec_def fips_w.simps)

lemma digest_block_fips: "sha256_digest_block_u32 H m = fips_compress H m"
proof -
  define s where "s = (H ! 0, H ! 1, H ! 2, H ! 3, H ! 4, H ! 5, H ! 6, H ! 7)"
  have p: "(U32x4 (H ! 0) (H ! 1) (H ! 4) (H ! 5), U32x4 (H ! 2) (H ! 3) (H ! 6) (H ! 7)) =
      pack (rounds_upto m 0 s)"
    by (simp add: s_def rounds_upto_def)
  have W: "U32x4 (m ! 3) (m ! 2) (m ! 1) (m ! 0) = wvec m 0"
    "U32x4 (m ! 7) (m ! 6) (m ! 5) (m ! 4) = wvec m 1"
    "U32x4 (m ! 11) (m ! 10) (m ! 9) (m ! 8) = wvec m 2"
    "U32x4 (m ! 15) (m ! 14) (m ! 13) (m ! 12) = wvec m 3"
    by (simp_all add: wvec_first numeral_2_eq_2)
  have S: "schedule (wvec m a) (wvec m b) (wvec m c) (wvec m d) = wvec m (a + 4)"
    if "b = a + 1" "c = a + 2" "d = a + 3" for a b c d
    using that schedule_w by simp
  have R: "rounds4 (pack (rounds_upto m n s)) (x4_add (K32X4 ! j) (wvec m j)) = pack (rounds_upto m (n + 4) s)"
    if "j < 16" "n = 4 * j" for j n
    using that rounds4_step [of j m s] by (simp add: add.commute)
  have Ss: "schedule (wvec m 0) (wvec m 1) (wvec m 2) (wvec m 3) = wvec m 4"
    "schedule (wvec m 1) (wvec m 2) (wvec m 3) (wvec m 4) = wvec m 5"
    "schedule (wvec m 2) (wvec m 3) (wvec m 4) (wvec m 5) = wvec m 6"
    "schedule (wvec m 3) (wvec m 4) (wvec m 5) (wvec m 6) = wvec m 7"
    "schedule (wvec m 4) (wvec m 5) (wvec m 6) (wvec m 7) = wvec m 8"
    "schedule (wvec m 5) (wvec m 6) (wvec m 7) (wvec m 8) = wvec m 9"
    "schedule (wvec m 6) (wvec m 7) (wvec m 8) (wvec m 9) = wvec m 10"
    "schedule (wvec m 7) (wvec m 8) (wvec m 9) (wvec m 10) = wvec m 11"
    "schedule (wvec m 8) (wvec m 9) (wvec m 10) (wvec m 11) = wvec m 12"
    "schedule (wvec m 9) (wvec m 10) (wvec m 11) (wvec m 12) = wvec m 13"
    "schedule (wvec m 10) (wvec m 11) (wvec m 12) (wvec m 13) = wvec m 14"
    "schedule (wvec m 11) (wvec m 12) (wvec m 13) (wvec m 14) = wvec m 15"
    by (simp_all add: S)
  have Rs: "rounds4 (fst (pack (rounds_upto m 4 s)), snd (pack (rounds_upto m 4 s))) (x4_add (K32X4 ! 1) (wvec m 1)) = pack (rounds_upto m 8 s)"
    "rounds4 (fst (pack (rounds_upto m 8 s)), snd (pack (rounds_upto m 8 s))) (x4_add (K32X4 ! 2) (wvec m 2)) = pack (rounds_upto m 12 s)"
    "rounds4 (fst (pack (rounds_upto m 12 s)), snd (pack (rounds_upto m 12 s))) (x4_add (K32X4 ! 3) (wvec m 3)) = pack (rounds_upto m 16 s)"
    "rounds4 (fst (pack (rounds_upto m 16 s)), snd (pack (rounds_upto m 16 s))) (x4_add (K32X4 ! 4) (wvec m 4)) = pack (rounds_upto m 20 s)"
    "rounds4 (fst (pack (rounds_upto m 20 s)), snd (pack (rounds_upto m 20 s))) (x4_add (K32X4 ! 5) (wvec m 5)) = pack (rounds_upto m 24 s)"
    "rounds4 (fst (pack (rounds_upto m 24 s)), snd (pack (rounds_upto m 24 s))) (x4_add (K32X4 ! 6) (wvec m 6)) = pack (rounds_upto m 28 s)"
    "rounds4 (fst (pack (rounds_upto m 28 s)), snd (pack (rounds_upto m 28 s))) (x4_add (K32X4 ! 7) (wvec m 7)) = pack (rounds_upto m 32 s)"
    "rounds4 (fst (pack (rounds_upto m 32 s)), snd (pack (rounds_upto m 32 s))) (x4_add (K32X4 ! 8) (wvec m 8)) = pack (rounds_upto m 36 s)"
    "rounds4 (fst (pack (rounds_upto m 36 s)), snd (pack (rounds_upto m 36 s))) (x4_add (K32X4 ! 9) (wvec m 9)) = pack (rounds_upto m 40 s)"
    "rounds4 (fst (pack (rounds_upto m 40 s)), snd (pack (rounds_upto m 40 s))) (x4_add (K32X4 ! 10) (wvec m 10)) = pack (rounds_upto m 44 s)"
    "rounds4 (fst (pack (rounds_upto m 44 s)), snd (pack (rounds_upto m 44 s))) (x4_add (K32X4 ! 11) (wvec m 11)) = pack (rounds_upto m 48 s)"
    "rounds4 (fst (pack (rounds_upto m 48 s)), snd (pack (rounds_upto m 48 s))) (x4_add (K32X4 ! 12) (wvec m 12)) = pack (rounds_upto m 52 s)"
    "rounds4 (fst (pack (rounds_upto m 52 s)), snd (pack (rounds_upto m 52 s))) (x4_add (K32X4 ! 13) (wvec m 13)) = pack (rounds_upto m 56 s)"
    "rounds4 (fst (pack (rounds_upto m 56 s)), snd (pack (rounds_upto m 56 s))) (x4_add (K32X4 ! 14) (wvec m 14)) = pack (rounds_upto m 60 s)"
    "rounds4 (fst (pack (rounds_upto m 60 s)), snd (pack (rounds_upto m 60 s))) (x4_add (K32X4 ! 15) (wvec m 15)) = pack (rounds_upto m 64 s)"
    by (simp_all add: R)
  have R0: "rounds4 (U32x4 (H ! 0) (H ! 1) (H ! 4) (H ! 5), U32x4 (H ! 2) (H ! 3) (H ! 6) (H ! 7))
      (x4_add (K32X4 ! 0) (wvec m 0)) = pack (rounds_upto m 4 s)"
    unfolding p using R [of 0 0] by simp
  have "sha256_digest_block_u32 H m = (case pack (rounds_upto m 64 s) of (U32x4 a b e f, U32x4 c d g h) \<Rightarrow>
      [H ! 0 + a, H ! 1 + b, H ! 2 + c, H ! 3 + d, H ! 4 + e, H ! 5 + f, H ! 6 + g, H ! 7 + h])"
    unfolding sha256_digest_block_u32_def
    by (simp only: W R0 Ss Rs split_beta Let_def fst_conv snd_conv cong: let_weak_cong prod.case_cong_weak)
  also have "\<dots> = fips_compress H m"
    unfolding fips_compress_def s_def [symmetric] rounds_upto_def [symmetric]
    by (cases "rounds_upto m 64 s" rule: pack.cases) simp
  finally show ?thesis .
qed


section \<open>Streaming\<close>

lemma chunks_append_dvd:
  assumes "0 < n"
  shows "n dvd length xs \<Longrightarrow> chunks n (xs @ ys) = chunks n xs @ chunks n ys"
proof (induction "length xs" arbitrary: xs rule: less_induct)
  case less
  show ?case
  proof (cases "xs = []")
    case False
    then have n: "n \<le> length xs" using less.prems by (simp add: dvd_imp_le)
    then have "chunks n (drop n xs @ ys) = chunks n (drop n xs) @ chunks n ys"
      using less.hyps [of "drop n xs"] less.prems assms by (simp add: dvd_diff_nat)
    then show ?thesis using False n assms
      by (simp add: chunks_step [of n "xs @ ys"] chunks_step [of n xs])
  qed simp
qed

definition fips_fold :: "u8 list \<Rightarrow> u32 list \<Rightarrow> u32 list" where
  "fips_fold msg = fold (\<lambda>block H. fips_compress H (map word_of_be (chunks 4 block))) (chunks 64 msg)"

lemma fips_fold_append: "64 dvd length a \<Longrightarrow> fips_fold (a @ b) H = fips_fold b (fips_fold a H)"
  by (simp add: fips_fold_def chunks_append_dvd)

definition blocks_ok :: "u8 list list \<Rightarrow> bool" where
  "blocks_ok bs \<longleftrightarrow> (\<forall>b\<in>set bs. length b = 32) \<and> even (length bs)"

lemma blocks_ok_concat: "blocks_ok bs \<Longrightarrow> length (concat bs) = 32 * length bs"
proof -
  have "\<forall>b\<in>set bs. length b = 32 \<Longrightarrow> length (concat bs) = 32 * length bs" by (induction bs) auto
  then show "blocks_ok bs \<Longrightarrow> ?thesis" by (simp add: blocks_ok_def)
qed

lemma blocks_ok_64: "blocks_ok bs \<Longrightarrow> 64 dvd length (concat bs)"
  using blocks_ok_concat [of bs] by (auto simp: blocks_ok_def elim!: evenE)

lemma compress256_fips: "blocks_ok bs \<Longrightarrow> compress256 H bs = Inr (fips_fold (concat bs) H)"
proof (induction H bs rule: compress256.induct)
  case (3 H b0 b1 bs)
  then have b: "length b0 = 32" "length b1 = 32" "blocks_ok bs" by (auto simp: blocks_ok_def)
  have "chunks 4 (b0 @ b1) = chunks 4 b0 @ chunks 4 b1" using b by (intro chunks_append_dvd) auto
  moreover have "chunks 64 (b0 @ b1) = [b0 @ b1]" using b chunks_append [of 64 "b0 @ b1" "[]"] by simp
  ultimately have "fips_fold (b0 @ b1) H = sha256_digest_block_u32 H
      (map word_of_be (chunks 4 b0) @ map word_of_be (chunks 4 b1))"
    by (simp add: fips_fold_def digest_block_fips)
  then show ?case using 3 b fips_fold_append [of "b0 @ b1" "concat bs" H] by simp
qed (auto simp: blocks_ok_def fips_fold_def)

text \<open>What a hasher state holds: the message absorbed so far.\<close>

definition absorbed :: "sha256 \<Rightarrow> u8 list \<Rightarrow> bool" where
  "absorbed s msg \<longleftrightarrow> 64 dvd length msg \<and> sha_len s = of_nat (8 * length msg) \<and>
     sha_state s = fips_fold msg fips_H0"

lemma absorbed_new: "absorbed sha256_new []"
  by (simp add: absorbed_def sha256_new_def fips_fold_def fips_H0_table)

lemma absorbed_input:
  assumes "absorbed s msg" and "blocks_ok bs"
  shows "\<exists>s'. sha256_input s bs = Inr s' \<and> absorbed s' (msg @ concat bs)"
  using assms blocks_ok_64 [OF assms(2)] blocks_ok_concat [OF assms(2)]
  by (simp add: sha256_input_def compress256_fips absorbed_def fips_fold_append push_bit_eq_mult algebra_simps)

lemma fips_sha256_fold: "fips_sha256 msg = write_u32_into (fips_fold (fips_pad msg) fips_H0)"
  by (simp add: fips_sha256_def fips_fold_def write_u32_into_def)

lemma absorbed_finish:
  assumes "absorbed s msg"
  shows "sha256_finish s = Inr (fips_sha256 msg)"
proof -
  have "length msg mod 64 = 0" using assms by (simp add: absorbed_def dvd_eq_mod_eq_0)
  moreover have "replicate 55 0 = replicate 31 (0 :: u8) @ replicate 24 0" by (simp flip: replicate_add)
  ultimately have "fips_pad msg = msg @ concat [0x80 # replicate 31 0, replicate 24 0 @ be_of_word 8 (sha_len s)]"
    using assms by (simp add: fips_pad_def absorbed_def)
  then show ?thesis using assms
    by (simp add: sha256_finish_def compress256_fips blocks_ok_def fips_sha256_fold absorbed_def fips_fold_append
        del: compress256.simps)
qed

lemma absorbed_finish_with:
  assumes "absorbed s msg" and "length b = 32"
  shows "sha256_finish_with s b = Inr (fips_sha256 (msg @ b))"
proof -
  obtain k where "length msg = 64 * k" using assms(1) by (auto simp: absorbed_def elim: dvdE)
  then have "(119 - length (msg @ b) mod 64) mod 64 = 23" using assms(2) by simp
  then have "fips_pad (msg @ b) = msg @ concat [b, 0x80 # replicate 23 0 @ be_of_word 8 (sha_len s + 256)]"
    unfolding fips_pad_def using assms by (simp only: absorbed_def) (simp add: add.commute)
  then show ?thesis using assms
    by (simp add: sha256_finish_with_def compress256_fips blocks_ok_def fips_sha256_fold absorbed_def fips_fold_append
        del: compress256.simps)
qed

text \<open>A sequence of calls of \<open>input\<close>.\<close>

fun sha256_inputs :: "sha256 \<Rightarrow> u8 list list list \<Rightarrow> sha256 res" where
  "sha256_inputs s [] = Inr s"
| "sha256_inputs s (bs # bss) = bindR (sha256_input s bs) (\<lambda>s. sha256_inputs s bss)"

lemma absorbed_inputs:
  "absorbed s msg \<Longrightarrow> \<forall>bs\<in>set bss. blocks_ok bs \<Longrightarrow>
   \<exists>s'. sha256_inputs s bss = Inr s' \<and> absorbed s' (msg @ concat (concat bss))"
proof (induction bss arbitrary: s msg)
  case (Cons bs bss)
  then obtain s1 where "sha256_input s bs = Inr s1" "absorbed s1 (msg @ concat bs)"
    using absorbed_input [of s msg bs] by auto
  then show ?case using Cons.IH [of s1 "msg @ concat bs"] Cons.prems by simp
qed simp

section \<open>Properties\<close>

text \<open>
  C36. The vectorised block function with its table of constants computes the compression function of
  FIPS 180-4, for every state and block. The standard is stated apart from the code: its
  constants are fractions of the cube roots of primes, its functions have definitions of their own.
\<close>
theorem sha256_block_is_fips: "sha256_digest_block_u32 H m = fips_compress H m"
  by (rule digest_block_fips)

text \<open>
  C23. After any sequence of inputs, each an even number of 32-byte blocks, \<open>finish\<close> gives
  the SHA-256 hash of all the bytes, and \<open>finish_with\<close> that of the bytes followed by one more
  32-byte block: the padding each of them writes is the padding of the standard.
\<close>
theorem sha256_is_fips:
  assumes "\<forall>bs\<in>set bss. blocks_ok bs" and "length b = 32"
  shows "bindR (sha256_inputs sha256_new bss) sha256_finish = Inr (fips_sha256 (concat (concat bss))) \<and>
    bindR (sha256_inputs sha256_new bss) (\<lambda>s. sha256_finish_with s b) =
      Inr (fips_sha256 (concat (concat bss) @ b))"
  using absorbed_inputs [OF absorbed_new assms(1)] absorbed_finish absorbed_finish_with assms(2) by auto

theorem sha256_is_fips_witness:
  "bindR (sha256_inputs sha256_new [[replicate 32 1, replicate 32 2], [replicate 32 3, replicate 32 4]]) sha256_finish =
     Inr (fips_sha256 (concat (concat [[replicate 32 1, replicate 32 2], [replicate 32 3, replicate 32 4]])))"
  using sha256_is_fips [of "[[replicate 32 1, replicate 32 2], [replicate 32 3, replicate 32 4]]" "replicate 32 5"]
  by (simp add: blocks_ok_def)

end
