(* ===== verification/Core_Types.thy ===== *)
theory Core_Types
  imports Prelude
begin

text \<open>
  Small shared parts of \<open>storage-proofs-core\<close> and its neighbours: nodes and bits
  (\<open>util.rs\<close>), API versions and features (\<open>api_version.rs\<close>), the seeds of \<open>crypto/mod.rs\<close>,
  the encodings (\<open>crypto/xor.rs\<close>, \<open>crypto/sloth.rs\<close>, \<open>storage-proofs-porep/src/encode.rs\<close>) and
  sector identifiers (\<open>sector.rs\<close>). The scalar
  field \<open>Fr\<close> is any field; its conversions to other domains are parameters.
\<close>

section \<open>Nodes and bits\<close>

definition NODE_SIZE :: nat where "NODE_SIZE = 32"

definition data_at_node_offset :: "nat \<Rightarrow> nat" where
  "data_at_node_offset v = v * NODE_SIZE"

definition data_at_node :: "u8 list \<Rightarrow> nat \<Rightarrow> u8 list res" where
  "data_at_node bytes v =
     (let offset = data_at_node_offset v
      in ensure (offset + NODE_SIZE \<le> length bytes) ''Out of bounds!''
           (slice bytes offset (offset + NODE_SIZE)))"

definition bytes_into_bits :: "u8 list \<Rightarrow> bool list" where
  "bytes_into_bits bytes = concat (map (\<lambda>byte. map (\<lambda>i. (drop_bit i byte AND 1) = 1) [0..<8]) bytes)"

definition bytes_into_bits_opt :: "u8 list \<Rightarrow> bool option list" where
  "bytes_into_bits_opt bytes =
     concat (map (\<lambda>byte. map (\<lambda>i. Some ((drop_bit i byte AND 1) = 1)) [0..<8]) bytes)"

definition bytes_into_bits_be :: "u8 list \<Rightarrow> bool list" where
  "bytes_into_bits_be bytes =
     concat (map (\<lambda>byte. map (\<lambda>i. (drop_bit i byte AND 1) = 1) (rev [0..<8])) bytes)"

definition bool_to_u8 :: "bool \<Rightarrow> nat \<Rightarrow> u8" where
  "bool_to_u8 b offset = (if b then push_bit offset 1 else 0)"

text \<open>A last chunk of fewer than 8 bits is an out of bounds access at \<open>bits[7]\<close>.\<close>

definition bits_to_bytes :: "bool list \<Rightarrow> u8 list res" where
  "bits_to_bytes bits =
     collectR (\<lambda>b. if length b = 8
         then Inr (bool_to_u8 (b ! 7) 7 OR bool_to_u8 (b ! 6) 6 OR bool_to_u8 (b ! 5) 5 OR
           bool_to_u8 (b ! 4) 4 OR bool_to_u8 (b ! 3) 3 OR bool_to_u8 (b ! 2) 2 OR
           bool_to_u8 (b ! 1) 1 OR bool_to_u8 (b ! 0) 0)
         else Inl (Panic ''index out of bounds''))
       (chunks 8 bits)"

definition reverse_bit_numbering :: "bool list \<Rightarrow> bool list" where
  "reverse_bit_numbering bits =
     (let padded_bits = bits @ replicate ((8 - length bits mod 8) mod 8) False
      in concat (map rev (chunks 8 padded_bits)))"

text \<open>\<open>get_merkle_tree_row_count\<close> is of the \<open>merkletree\<close> crate: the row count is an argument.\<close>

definition default_rows_to_discard :: "(nat \<Rightarrow> nat \<Rightarrow> nat) \<Rightarrow> nat \<Rightarrow> nat \<Rightarrow> nat \<Rightarrow> nat" where
  "default_rows_to_discard row_count_of rows_to_discard leafs arity =
     (let row_count = row_count_of leafs arity in
      if row_count \<le> 2 then 0
      else if row_count = 3 then 1
      else let max_rows_to_discard = row_count - 2 in
        if arity = 2 then min max_rows_to_discard 7
        else if arity = 4 then min max_rows_to_discard 5
        else min max_rows_to_discard rows_to_discard)"

section \<open>API versions and features\<close>

datatype api_version = V1_0_0 | V1_1_0 | V1_2_0

fun as_semver :: "api_version \<Rightarrow> nat \<times> nat \<times> nat" where
  "as_semver V1_0_0 = (1, 0, 0)"
| "as_semver V1_1_0 = (1, 1, 0)"
| "as_semver V1_2_0 = (1, 2, 0)"

text \<open>The order is the one of \<open>semver::Version\<close> without pre-release and build parts.\<close>

fun semver_le :: "nat \<times> nat \<times> nat \<Rightarrow> nat \<times> nat \<times> nat \<Rightarrow> bool" where
  "semver_le (a, b, c) (a', b', c') \<longleftrightarrow> a < a' \<or> a = a' \<and> (b < b' \<or> b = b' \<and> c \<le> c')"

definition api_version_le :: "api_version \<Rightarrow> api_version \<Rightarrow> bool" where
  "api_version_le v w \<longleftrightarrow> semver_le (as_semver v) (as_semver w)"

instantiation api_version :: linorder
begin

definition less_eq_api_version :: "api_version \<Rightarrow> api_version \<Rightarrow> bool" where
  "less_eq_api_version v w \<longleftrightarrow> api_version_le v w"

definition less_api_version :: "api_version \<Rightarrow> api_version \<Rightarrow> bool" where
  "less_api_version v w \<longleftrightarrow> v \<le> w \<and> \<not> w \<le> v"

instance
proof
  fix x y z :: api_version
  show "x < y \<longleftrightarrow> x \<le> y \<and> \<not> y \<le> x" by (simp add: less_api_version_def)
  show "x \<le> x" by (cases x) (simp_all add: less_eq_api_version_def api_version_le_def)
  show "x \<le> y \<Longrightarrow> y \<le> z \<Longrightarrow> x \<le> z"
    by (cases x; cases y; cases z) (simp_all add: less_eq_api_version_def api_version_le_def)
  show "x \<le> y \<Longrightarrow> y \<le> x \<Longrightarrow> x = y"
    by (cases x; cases y) (simp_all add: less_eq_api_version_def api_version_le_def)
  show "x \<le> y \<or> y \<le> x" by (cases x; cases y) (simp_all add: less_eq_api_version_def api_version_le_def)
qed

end

text \<open>\<open>from_str\<close> after \<open>Version::parse\<close> (of the \<open>semver\<close> crate), and \<open>Display\<close>.\<close>

definition api_version_of_semver :: "nat \<times> nat \<times> nat \<Rightarrow> api_version res" where
  "api_version_of_semver v =
     (case v of (major, minor, patch) \<Rightarrow>
       if major = 1 \<and> minor = 0 \<and> patch = 0 then Inr V1_0_0
       else if major = 1 \<and> minor = 1 \<and> patch = 0 then Inr V1_1_0
       else if major = 1 \<and> minor = 2 \<and> patch = 0 then Inr V1_2_0
       else if major = 1 \<and> minor \<le> 2
       then Inl (Fail ''Could not parse API Version from string (patch)'')
       else if major = 1 then Inl (Fail ''Could not parse API Version from string (minor)'')
       else Inl (Fail ''Could not parse API Version from string (major)''))"

datatype api_feature = SyntheticPoRep | NonInteractivePoRep

fun first_supported_version :: "api_feature \<Rightarrow> api_version" where
  "first_supported_version SyntheticPoRep = V1_2_0"
| "first_supported_version NonInteractivePoRep = V1_2_0"

fun last_supported_version :: "api_feature \<Rightarrow> api_version option" where
  "last_supported_version SyntheticPoRep = None"
| "last_supported_version NonInteractivePoRep = None"

fun conflicting_features :: "api_feature \<Rightarrow> api_feature list" where
  "conflicting_features SyntheticPoRep = [NonInteractivePoRep]"
| "conflicting_features NonInteractivePoRep = [SyntheticPoRep]"

fun api_feature_str :: "api_feature \<Rightarrow> string" where
  "api_feature_str SyntheticPoRep = ''synthetic-porep''"
| "api_feature_str NonInteractivePoRep = ''non-interactive-porep''"

definition api_feature_from_str :: "string \<Rightarrow> api_feature res" where
  "api_feature_from_str s =
     (if s = ''synthetic-porep'' then Inr SyntheticPoRep
      else if s = ''non-interactive-porep'' then Inr NonInteractivePoRep
      else Inl (Fail ''cannot be parsed as valid API feature''))"

definition supports_feature :: "api_version \<Rightarrow> api_feature \<Rightarrow> bool" where
  "supports_feature v feat \<longleftrightarrow> first_supported_version feat \<le> v \<and>
     (case last_supported_version feat of None \<Rightarrow> True | Some v_last \<Rightarrow> v \<le> v_last)"

definition supports_features :: "api_version \<Rightarrow> api_feature list \<Rightarrow> bool" where
  "supports_features v feats \<longleftrightarrow> list_all (supports_feature v) feats"

section \<open>Seeds and encodings\<close>

definition DRSAMPLE_DST :: string where "DRSAMPLE_DST = ''Filecoin_DRSample''"
definition FEISTEL_DST :: string where "FEISTEL_DST = ''Filecoin_Feistel''"

definition string_bytes :: "string \<Rightarrow> u8 list" where
  "string_bytes s = map (\<lambda>c. of_nat (of_char c)) s"

text \<open>\<open>sha256\<close> is the hash of the \<open>sha2\<close> crate.\<close>

definition derive_porep_domain_seed :: "(u8 list \<Rightarrow> u8 list) \<Rightarrow> string \<Rightarrow> u8 list \<Rightarrow> u8 list" where
  "derive_porep_domain_seed sha256 tag porep_id = sha256 (string_bytes tag @ porep_id)"

definition xor_bytes :: "u8 list \<Rightarrow> u8 list \<Rightarrow> u8 list res" where
  "xor_bytes key input =
     (let key_len = length key
      in ensure (key_len = 32) ''Key must be 32 bytes.''
           (Inr (map (\<lambda>(i, byte). byte XOR key ! (i mod key_len)) (enumerate 0 input))))"

definition xor_encode :: "u8 list \<Rightarrow> u8 list \<Rightarrow> u8 list res" where
  "xor_encode key plaintext = xor_bytes key plaintext"

definition xor_decode :: "u8 list \<Rightarrow> u8 list \<Rightarrow> u8 list res" where
  "xor_decode key ciphertext = xor_bytes key ciphertext"

definition sloth_encode :: "'f::field \<Rightarrow> 'f \<Rightarrow> 'f" where
  "sloth_encode key plaintext = plaintext + key"

definition sloth_decode :: "'f::field \<Rightarrow> 'f \<Rightarrow> 'f" where
  "sloth_decode key ciphertext = ciphertext - key"

definition encode_fr :: "'f::field \<Rightarrow> 'f \<Rightarrow> 'f" where
  "encode_fr key v = key + v"

definition porep_encode :: "('d \<Rightarrow> 'f::field) \<Rightarrow> ('f \<Rightarrow> 'd) \<Rightarrow> 'd \<Rightarrow> 'd \<Rightarrow> 'd" where
  "porep_encode to_fr of_fr key v = of_fr (encode_fr (to_fr key) (to_fr v))"

definition porep_decode :: "('d \<Rightarrow> 'f::field) \<Rightarrow> ('f \<Rightarrow> 'd) \<Rightarrow> 'd \<Rightarrow> 'd \<Rightarrow> 'd" where
  "porep_decode to_fr of_fr key v = of_fr (to_fr v - to_fr key)"

definition bytes_into_fr_repr_safe :: "u8 list \<Rightarrow> u8 list" where
  "bytes_into_fr_repr_safe le_bytes = le_bytes[31 := le_bytes ! 31 AND 0x3f]"

definition as_fr_safe :: "u64 \<Rightarrow> u8 list" where
  "as_fr_safe sector_id = le_of_word 8 sector_id @ replicate 24 0"

section \<open>Lemmas\<close>

lemma low_bit [simp]: "(drop_bit i (b :: u8) AND 1) = 1 \<longleftrightarrow> bit b i"
  by (simp add: and_one_eq bit_iff_odd_drop_bit mod_2_eq_odd)

lemma bits_of_byte: "length bs = 8 \<Longrightarrow>
    bit (bool_to_u8 (bs ! 7) 7 OR bool_to_u8 (bs ! 6) 6 OR bool_to_u8 (bs ! 5) 5 OR
         bool_to_u8 (bs ! 4) 4 OR bool_to_u8 (bs ! 3) 3 OR bool_to_u8 (bs ! 2) 2 OR
         bool_to_u8 (bs ! 1) 1 OR bool_to_u8 (bs ! 0) 0) k \<longleftrightarrow> k < 8 \<and> bs ! k"
proof -
  have "bit (bool_to_u8 b n) k \<longleftrightarrow> b \<and> k = n" if "n < 8" for b n
    using that by (auto simp: bool_to_u8_def bit_simps)
  then show ?thesis by (auto simp: bit_or_iff less_Suc_eq numeral_eq_Suc)
qed

lemma bits_to_bytes_round_trip: "bits_to_bytes (bytes_into_bits bs) = Inr bs"
proof (induction bs)
  case (Cons b bs)
  let ?c = "map (\<lambda>i. bit b i) [0..<8]"
  have "bytes_into_bits (b # bs) = ?c @ bytes_into_bits bs" by (simp add: bytes_into_bits_def)
  then have "chunks 8 (bytes_into_bits (b # bs)) = ?c # chunks 8 (bytes_into_bits bs)"
    by (simp add: chunks_append)
  moreover have "(bool_to_u8 (?c ! 7) 7 OR bool_to_u8 (?c ! 6) 6 OR bool_to_u8 (?c ! 5) 5 OR
         bool_to_u8 (?c ! 4) 4 OR bool_to_u8 (?c ! 3) 3 OR bool_to_u8 (?c ! 2) 2 OR
         bool_to_u8 (?c ! 1) 1 OR bool_to_u8 (?c ! 0) 0) = b"
    by (rule bit_word_eqI) (subst bits_of_byte, simp, simp)
  moreover have "length ?c = 8" by simp
  ultimately show ?case using Cons unfolding bits_to_bytes_def
    by (simp only: collectR.simps if_True bindR.simps simp_thms)
qed (simp add: bits_to_bytes_def bytes_into_bits_def)

lemma xor_round_trip:
  assumes "length key = 32"
  shows "\<exists>c. xor_encode key p = Inr c \<and> length c = length p \<and> xor_decode key c = Inr p"
proof -
  have "map (\<lambda>(i, byte). byte XOR key ! (i mod 32))
      (enumerate 0 (map (\<lambda>(i, byte). byte XOR key ! (i mod 32)) (enumerate 0 p))) = p"
    by (rule nth_equalityI) (simp_all add: nth_enumerate_eq xor.assoc)
  then show ?thesis using assms by (simp add: xor_encode_def xor_decode_def xor_bytes_def)
qed

lemma sloth_round_trip: "sloth_decode key (sloth_encode key p) = p"
  by (simp add: sloth_decode_def sloth_encode_def)

lemma porep_round_trip:
  "(\<And>x. to_fr (of_fr x) = x) \<Longrightarrow> of_fr (to_fr v) = v \<Longrightarrow>
   porep_decode to_fr of_fr key (porep_encode to_fr of_fr key v) = v"
  by (simp add: porep_decode_def porep_encode_def encode_fr_def)

end
