(* ===== verification/Porep_Challenges.thy ===== *)
theory Porep_Challenges
  imports Core_Types
begin

text \<open>
  \<open>storage-proofs-porep/src/stacked/vanilla/challenges.rs\<close>: the interactive, the synthetic
  and the non-interactive PoRep challenges. The hashes (\<open>sha2\<close>, \<open>blake2b_simd\<close>) and the
  keystream of \<open>chacha20\<close> are parameters: functions of their key, nonce and input. A cipher
  is its keystream and its position; the end of the keystream (256 GiB) is far beyond
  every position used here. The state of the generator is a record, and its \<open>next\<close> is a
  function from states to states.
\<close>

section \<open>The code\<close>

text \<open>\<open>BigUint::from_bytes_le\<close>.\<close>

fun nat_of_le :: "u8 list \<Rightarrow> nat" where
  "nat_of_le [] = 0"
| "nat_of_le (b # bs) = unat b + 256 * nat_of_le bs"

text \<open>
  \<open>to_u32_digits()[0]\<close> is the lowest 32 bits of a number that is not 0. A failed \<open>debug_assert\<close> is
  a panic, as in a build with debug assertions.
\<close>

definition bigint_to_challenge :: "nat \<Rightarrow> nat \<Rightarrow> nat res" where
  "bigint_to_challenge bigint sector_nodes =
     (if sector_nodes < 2 ^ 32
      then bindR (usub sector_nodes 1) (\<lambda>m.
        if m = 0 then Inl (Panic ''attempt to divide by zero'')
        else let non_zero_node = bigint mod m + 1 in Inr (non_zero_node mod 2 ^ 32))
      else Inl (Panic ''assertion failed: sector_nodes < 1 << 32''))"

datatype challenges = Interactive nat | Synth nat | Ni nat

fun num_challenges_per_partition :: "challenges \<Rightarrow> nat" where
  "num_challenges_per_partition (Interactive n) = n"
| "num_challenges_per_partition (Synth n) = n"
| "num_challenges_per_partition (Ni n) = n"

definition interactive_derive ::
  "(u8 list \<Rightarrow> u8 list) \<Rightarrow> nat \<Rightarrow> nat \<Rightarrow> u8 list \<Rightarrow> u8 list \<Rightarrow> nat \<Rightarrow> nat list res" where
  "interactive_derive sha256 challenges_per_partition sector_nodes replica_id seed k =
     collectR (\<lambda>i.
       let j = of_nat (challenges_per_partition * k + i) :: u32;
           hash = sha256 (replica_id @ seed @ le_of_word 4 j)
       in bigint_to_challenge (nat_of_le hash) sector_nodes)
     [0..<challenges_per_partition]"

definition NI_TAG :: string where "NI_TAG = ''filecoin.io|PoRep|1|NonInteractive|1''"

definition ni_derive ::
  "(u8 list \<Rightarrow> u8 list) \<Rightarrow> nat \<Rightarrow> nat \<Rightarrow> u8 list \<Rightarrow> u8 list \<Rightarrow> nat \<Rightarrow> nat list res" where
  "ni_derive sha256 challenges_per_partition sector_nodes replica_id comm_r k =
     collectR (\<lambda>i.
       let j = of_nat (challenges_per_partition * k + i) :: u32;
           hash = sha256 (string_bytes NI_TAG @ replica_id @ comm_r @ le_of_word 4 j)
       in bigint_to_challenge (nat_of_le hash) sector_nodes)
     [0..<challenges_per_partition]"

subsection \<open>Synthetic challenges\<close>

definition DEFAULT_SYNTH_CHALLENGE_COUNT :: nat where "DEFAULT_SYNTH_CHALLENGE_COUNT = 2 ^ 18"
definition SYNTH_CHALLENGE_SIZE :: nat where "SYNTH_CHALLENGE_SIZE = 32"
definition SYNTH_INDEX_SIZE :: nat where "SYNTH_INDEX_SIZE = 4"
definition CHACHA20_KEY_SIZE :: nat where "CHACHA20_KEY_SIZE = 32"
definition CHACHA20_NONCE :: "u8 list" where "CHACHA20_NONCE = string_bytes ''synth-porep'' @ [0]"

text \<open>The external primitives: \<open>blake2b hash_length key message\<close>, \<open>chacha20 key nonce\<close>.\<close>

record prims =
  blake2b :: "nat \<Rightarrow> u8 list \<Rightarrow> u8 list \<Rightarrow> u8 list"
  chacha20 :: "u8 list \<Rightarrow> u8 list \<Rightarrow> nat \<Rightarrow> u8"

record cipher =
  keystream :: "nat \<Rightarrow> u8"
  cipher_pos :: nat

text \<open>\<open>apply_keystream\<close> on \<open>n\<close> zero bytes, and \<open>try_seek\<close>.\<close>

definition apply_keystream :: "cipher \<Rightarrow> nat \<Rightarrow> cipher \<times> u8 list" where
  "apply_keystream c n =
     (c\<lparr>cipher_pos := cipher_pos c + n\<rparr>, map (\<lambda>i. keystream c (cipher_pos c + i)) [0..<n])"

definition cipher_seek :: "cipher \<Rightarrow> nat \<Rightarrow> cipher" where
  "cipher_seek c p = c\<lparr>cipher_pos := p\<rparr>"

definition chacha20_gen :: "prims \<Rightarrow> u8 list \<Rightarrow> u8 list \<Rightarrow> cipher" where
  "chacha20_gen p replica_id comm_r =
     (let key = blake2b p CHACHA20_KEY_SIZE (string_bytes ''filecoin.io|PoRep|1|Synthetic|1|Generation'')
                  (replica_id @ comm_r)
      in \<lparr>keystream = chacha20 p key CHACHA20_NONCE, cipher_pos = 0\<rparr>)"

definition chacha20_select :: "prims \<Rightarrow> u8 list \<Rightarrow> u8 list \<Rightarrow> cipher" where
  "chacha20_select p replica_id rand =
     (let key = blake2b p CHACHA20_KEY_SIZE (string_bytes ''filecoin.io|PoRep|1|Synthetic|1|Selection'')
                  (replica_id @ rand)
      in \<lparr>keystream = chacha20 p key CHACHA20_NONCE, cipher_pos = 0\<rparr>)"

record synth_gen =
  sg_sector_nodes :: nat
  sg_replica_id :: "u8 list"
  sg_comm_r :: "u8 list"
  num_synth_challenges :: nat
  sg_chacha20 :: cipher
  sg_i :: nat

definition synth_next :: "synth_gen \<Rightarrow> (synth_gen \<times> nat option) res" where
  "synth_next g =
     (if num_synth_challenges g \<le> sg_i g then Inr (g, None)
      else let (c, rand_bytes) = apply_keystream (sg_chacha20 g) SYNTH_CHALLENGE_SIZE
           in bindR (bigint_to_challenge (nat_of_le rand_bytes) (sg_sector_nodes g)) (\<lambda>challenge.
                Inr (g\<lparr>sg_chacha20 := c, sg_i := sg_i g + 1\<rparr>, Some challenge)))"

definition synth_new :: "prims \<Rightarrow> ('f \<Rightarrow> u8 list) \<Rightarrow> nat \<Rightarrow> 'f \<Rightarrow> 'f \<Rightarrow> nat \<Rightarrow> synth_gen res" where
  "synth_new p to_repr sector_nodes replica_id comm_r num =
     (if num < 2 ^ 32
      then Inr \<lparr>sg_sector_nodes = sector_nodes, sg_replica_id = to_repr replica_id,
             sg_comm_r = to_repr comm_r, num_synth_challenges = num,
             sg_chacha20 = chacha20_gen p (to_repr replica_id) (to_repr comm_r), sg_i = 0\<rparr>
      else Inl (Panic ''num_synth_challenges must not exceed u32''))"

definition synth_default :: "prims \<Rightarrow> ('f \<Rightarrow> u8 list) \<Rightarrow> nat \<Rightarrow> 'f \<Rightarrow> 'f \<Rightarrow> synth_gen res" where
  "synth_default p to_repr sector_nodes replica_id comm_r =
     synth_new p to_repr sector_nodes replica_id comm_r (min sector_nodes DEFAULT_SYNTH_CHALLENGE_COUNT)"

text \<open>The byte position is cast to \<open>u32\<close>.\<close>

definition synth_seek :: "synth_gen \<Rightarrow> nat \<Rightarrow> synth_gen" where
  "synth_seek g i =
     g\<lparr>sg_chacha20 := cipher_seek (sg_chacha20 g) (i * SYNTH_CHALLENGE_SIZE mod 2 ^ 32), sg_i := i\<rparr>"

definition synth_clone :: "prims \<Rightarrow> synth_gen \<Rightarrow> synth_gen" where
  "synth_clone p g =
     synth_seek (g\<lparr>sg_chacha20 := chacha20_gen p (sg_replica_id g) (sg_comm_r g), sg_i := 0\<rparr>) (sg_i g)"

lemma synth_next_advances:
  "synth_next g = Inr (g', Some c) \<Longrightarrow>
   num_synth_challenges g' = num_synth_challenges g \<and> sg_i g' = sg_i g + 1 \<and> sg_i g < num_synth_challenges g"
  by (auto simp: synth_next_def bindR_eq_Inr apply_keystream_def split: if_splits)

text \<open>\<open>collect\<close>: the challenges until the iterator is finished.\<close>

function synth_collect :: "synth_gen \<Rightarrow> nat list res" where
  "synth_collect g =
     (case synth_next g of
        Inl e \<Rightarrow> Inl e
      | Inr (g', r) \<Rightarrow>
          (case r of None \<Rightarrow> Inr []
           | Some c \<Rightarrow> bindR (synth_collect g') (\<lambda>cs. Inr (c # cs))))"
  by pat_completeness auto
termination
  by (relation "measure (\<lambda>g. num_synth_challenges g - sg_i g)") (auto dest!: synth_next_advances)

declare synth_collect.simps [simp del]

definition gen_synth_challenge :: "synth_gen \<Rightarrow> nat \<Rightarrow> (synth_gen \<times> nat) res" where
  "gen_synth_challenge g i =
     (if i < num_synth_challenges g
      then bindR (synth_next (synth_seek g i)) (\<lambda>(g', r).
             case r of None \<Rightarrow> Inl (Panic ''challenge iterator should not be finished'')
             | Some c \<Rightarrow> Inr (g', c))
      else Inl (Panic ''assertion failed''))"

definition gen_partition_synth_indexes :: "prims \<Rightarrow> synth_gen \<Rightarrow> nat \<Rightarrow> u8 list \<Rightarrow> nat \<Rightarrow> nat list res" where
  "gen_partition_synth_indexes p g num_partition_challenges rand k =
     (let first_porep_challenge = k * num_partition_challenges;
          c = cipher_seek (chacha20_select p (sg_replica_id g) rand)
                (first_porep_challenge * SYNTH_INDEX_SIZE mod 2 ^ 32);
          (_, rand_bytes) = apply_keystream c (num_partition_challenges * SYNTH_INDEX_SIZE)
      in collectR (\<lambda>index_bytes.
           let synth_index = unat (word_of_le index_bytes :: u32)
           in if num_synth_challenges g = 0 then Inl (Panic ''attempt to calculate the remainder with a divisor of zero'')
              else Inr (synth_index mod num_synth_challenges g))
         (chunks SYNTH_INDEX_SIZE rand_bytes))"

fun gen_each :: "synth_gen \<Rightarrow> nat list \<Rightarrow> nat list res" where
  "gen_each g [] = Inr []"
| "gen_each g (i # is) =
     bindR (gen_synth_challenge g i) (\<lambda>(g', c). bindR (gen_each g' is) (\<lambda>cs. Inr (c # cs)))"

definition gen_porep_partition_challenges ::
  "prims \<Rightarrow> synth_gen \<Rightarrow> nat \<Rightarrow> u8 list \<Rightarrow> nat \<Rightarrow> nat list res" where
  "gen_porep_partition_challenges p g num_partition_challenges rand k =
     (let synth = synth_clone p g
      in bindR (gen_partition_synth_indexes p g num_partition_challenges rand k) (gen_each synth))"

definition synth_derive ::
  "prims \<Rightarrow> ('f \<Rightarrow> u8 list) \<Rightarrow> nat \<Rightarrow> nat \<Rightarrow> 'f \<Rightarrow> 'f \<Rightarrow> u8 list \<Rightarrow> nat \<Rightarrow> nat list res" where
  "synth_derive p to_repr challenges_per_partition sector_nodes replica_id comm_r seed k =
     bindR (synth_default p to_repr sector_nodes replica_id comm_r) (\<lambda>g.
       gen_porep_partition_challenges p g challenges_per_partition seed k)"

definition synth_derive_indexes ::
  "prims \<Rightarrow> ('f \<Rightarrow> u8 list) \<Rightarrow> nat \<Rightarrow> nat \<Rightarrow> 'f \<Rightarrow> 'f \<Rightarrow> u8 list \<Rightarrow> nat \<Rightarrow> nat list res" where
  "synth_derive_indexes p to_repr challenges_per_partition sector_nodes replica_id comm_r seed k =
     bindR (synth_default p to_repr sector_nodes replica_id comm_r) (\<lambda>g.
       gen_partition_synth_indexes p g challenges_per_partition seed k)"

definition derive_synthetic :: "prims \<Rightarrow> ('f \<Rightarrow> u8 list) \<Rightarrow> nat \<Rightarrow> 'f \<Rightarrow> 'f \<Rightarrow> nat list res" where
  "derive_synthetic p to_repr sector_nodes replica_id comm_r =
     bindR (synth_default p to_repr sector_nodes replica_id comm_r) synth_collect"

section \<open>Values\<close>

lemma bigint_ok:
  assumes "2 \<le> n" "n < 2 ^ 32"
  shows "bigint_to_challenge b n = Inr (b mod (n - 1) + 1)"
proof -
  have "b mod (n - 1) < n - 1" using assms by simp
  then have "b mod (n - 1) + 1 < 2 ^ 32" using assms by linarith
  then show ?thesis using assms by (simp add: bigint_to_challenge_def Let_def)
qed

definition in_sector :: "nat \<Rightarrow> nat \<Rightarrow> bool" where
  "in_sector n c \<longleftrightarrow> 1 \<le> c \<and> c < n"

lemma bigint_in_sector: "2 \<le> n \<Longrightarrow> in_sector n (b mod (n - 1) + 1)"
proof -
  assume "2 \<le> n"
  then have "b mod (n - 1) < n - 1" by simp
  then show ?thesis unfolding in_sector_def by linarith
qed

definition interactive_at :: "(u8 list \<Rightarrow> u8 list) \<Rightarrow> u8 list \<Rightarrow> nat \<Rightarrow> nat \<Rightarrow> nat" where
  "interactive_at sha256 prefix n i =
     nat_of_le (sha256 (prefix @ le_of_word 4 (of_nat i :: u32))) mod (n - 1) + 1"

lemma interactive_derive_eq:
  assumes "2 \<le> n" "n < 2 ^ 32"
  shows "interactive_derive sha256 m n replica_id seed k =
      Inr (map (\<lambda>i. interactive_at sha256 (replica_id @ seed) n (m * k + i)) [0..<m])"
    and "ni_derive sha256 m n replica_id comm_r k =
      Inr (map (\<lambda>i. interactive_at sha256 (string_bytes NI_TAG @ replica_id @ comm_r) n (m * k + i)) [0..<m])"
  unfolding interactive_derive_def ni_derive_def interactive_at_def Let_def
  by (intro collectR_all_ok; simp add: bigint_ok [OF assms])+

text \<open>The \<open>i\<close>-th synthetic challenge of a keystream.\<close>

definition synth_at :: "(nat \<Rightarrow> u8) \<Rightarrow> nat \<Rightarrow> nat \<Rightarrow> nat" where
  "synth_at ks n i = nat_of_le (map (\<lambda>j. ks (32 * i + j)) [0..<32]) mod (n - 1) + 1"

definition gen_ok :: "synth_gen \<Rightarrow> bool" where
  "gen_ok g \<longleftrightarrow> cipher_pos (sg_chacha20 g) = 32 * sg_i g \<and> num_synth_challenges g \<le> 2 ^ 27 \<and>
     2 \<le> sg_sector_nodes g \<and> sg_sector_nodes g < 2 ^ 32"

definition same_gen :: "synth_gen \<Rightarrow> synth_gen \<Rightarrow> bool" where
  "same_gen g h \<longleftrightarrow> keystream (sg_chacha20 g) = keystream (sg_chacha20 h) \<and>
     sg_sector_nodes g = sg_sector_nodes h \<and> num_synth_challenges g = num_synth_challenges h"

lemma synth_next_ok:
  assumes "gen_ok g" and "sg_i g < num_synth_challenges g"
  shows "\<exists>g'. synth_next g =
      Inr (g', Some (synth_at (keystream (sg_chacha20 g)) (sg_sector_nodes g) (sg_i g))) \<and>
    gen_ok g' \<and> same_gen g' g \<and> sg_i g' = sg_i g + 1"
  using assms
  by (simp add: synth_next_def apply_keystream_def synth_at_def gen_ok_def same_gen_def
      bigint_ok SYNTH_CHALLENGE_SIZE_def del: upt_rec_numeral)

lemma synth_collect_ok:
  "gen_ok g \<Longrightarrow> synth_collect g =
     Inr (map (synth_at (keystream (sg_chacha20 g)) (sg_sector_nodes g)) [sg_i g..<num_synth_challenges g])"
proof (induction "num_synth_challenges g - sg_i g" arbitrary: g rule: less_induct)
  case less
  show ?case
  proof (cases "sg_i g < num_synth_challenges g")
    case False
    then show ?thesis by (subst synth_collect.simps) (simp add: synth_next_def)
  next
    case True
    obtain g' where g': "synth_next g =
      Inr (g', Some (synth_at (keystream (sg_chacha20 g)) (sg_sector_nodes g) (sg_i g)))"
      "gen_ok g'" "same_gen g' g" "sg_i g' = sg_i g + 1"
      using synth_next_ok [OF less.prems True] by blast
    have "synth_collect g' = Inr (map (synth_at (keystream (sg_chacha20 g)) (sg_sector_nodes g))
        [sg_i g + 1..<num_synth_challenges g])"
      using less.hyps [of g'] g'(2-4) True by (simp add: same_gen_def)
    then show ?thesis using True
      by (subst synth_collect.simps) (simp add: g'(1) upt_conv_Cons)
  qed
qed

lemma gen_synth_challenge_ok:
  assumes "gen_ok g" and "i < num_synth_challenges g"
  shows "\<exists>g'. gen_synth_challenge g i =
      Inr (g', synth_at (keystream (sg_chacha20 g)) (sg_sector_nodes g) i) \<and> gen_ok g' \<and> same_gen g' g"
proof -
  have "gen_ok (synth_seek g i)" using assms
    by (auto simp: gen_ok_def synth_seek_def cipher_seek_def SYNTH_CHALLENGE_SIZE_def)
  then obtain g' where "synth_next (synth_seek g i) = Inr (g', Some (synth_at
      (keystream (sg_chacha20 (synth_seek g i))) (sg_sector_nodes (synth_seek g i)) (sg_i (synth_seek g i))))"
      "gen_ok g'" "same_gen g' (synth_seek g i)"
    using synth_next_ok [of "synth_seek g i"] assms(2) by (auto simp: synth_seek_def)
  then show ?thesis using assms(2)
    by (simp add: gen_synth_challenge_def synth_seek_def cipher_seek_def same_gen_def)
qed

lemma gen_each_ok:
  "gen_ok g \<Longrightarrow> \<forall>i\<in>set is. i < num_synth_challenges g \<Longrightarrow>
   gen_each g is = Inr (map (synth_at (keystream (sg_chacha20 g)) (sg_sector_nodes g)) is)"
proof (induction "is" arbitrary: g)
  case (Cons i "is")
  then obtain g' where g': "gen_synth_challenge g i =
      Inr (g', synth_at (keystream (sg_chacha20 g)) (sg_sector_nodes g) i)" "gen_ok g'" "same_gen g' g"
    using gen_synth_challenge_ok [of g i] by auto
  then show ?case using Cons.IH [of g'] Cons.prems by (simp add: same_gen_def)
qed simp

text \<open>The indexes: four keystream bytes each.\<close>

definition index_at :: "(nat \<Rightarrow> u8) \<Rightarrow> nat \<Rightarrow> nat \<Rightarrow> nat" where
  "index_at ks num i = unat (word_of_le (map (\<lambda>j. ks (4 * i + j)) [0..<4]) :: u32) mod num"

lemma chunks_blocks:
  "chunks 4 (map f [s..<s + 4 * n]) = map (\<lambda>i. map (\<lambda>j. f (s + 4 * i + j)) [0..<4]) [0..<n]"
proof (induction n arbitrary: s)
  case (Suc n)
  have "[s..<s + 4 + 4 * n] = [s..<s + 4] @ [s + 4..<s + 4 + 4 * n]"
    by (rule upt_add_eq_append) simp
  moreover have "s + 4 * Suc n = s + 4 + 4 * n" by simp
  ultimately have "map f [s..<s + 4 * Suc n] = map f [s..<s + 4] @ map f [s + 4..<(s + 4) + 4 * n]"
    by (simp only: map_append)
  then have "chunks 4 (map f [s..<s + 4 * Suc n]) = map f [s..<s + 4] # chunks 4 (map f [s + 4..<(s + 4) + 4 * n])"
    by (simp only:) (rule chunks_append; simp)
  moreover have "[0..<Suc n] = 0 # map Suc [0..<n]" by (simp add: map_Suc_upt upt_conv_Cons del: upt_Suc)
  moreover have "map f [s..<s + 4] = map (\<lambda>j. f (s + 4 * 0 + j)) [0..<4]"
    by (rule nth_equalityI) simp_all
  ultimately show ?case using Suc [of "s + 4"] by (simp add: comp_def add.assoc del: upt_Suc)
qed simp

lemma gen_partition_synth_indexes_ok:
  assumes "0 < num_synth_challenges g" and "4 * (k * m) < 2 ^ 32"
  shows "gen_partition_synth_indexes p g m rand k =
    Inr (map (\<lambda>i. index_at (keystream (chacha20_select p (sg_replica_id g) rand)) (num_synth_challenges g) (m * k + i)) [0..<m])"
proof -
  let ?ks = "keystream (chacha20_select p (sg_replica_id g) rand)"
  have "map (\<lambda>i. ?ks (4 * (k * m) + i)) [0..<4 * m] = map ?ks [4 * (k * m)..<4 * (k * m) + 4 * m]"
    by (rule nth_equalityI) simp_all
  moreover have "4 * (k * m) + 4 * i + j = 4 * (m * k + i) + j" for i j by (simp add: mult.commute)
  ultimately have "chunks 4 (map (\<lambda>i. ?ks (4 * (k * m) + i)) [0..<4 * m]) =
      map (\<lambda>i. map (\<lambda>j. ?ks (4 * (m * k + i) + j)) [0..<4]) [0..<m]"
    by (simp only: chunks_blocks)
  moreover have "collectR (\<lambda>index_bytes. Inr (unat (word_of_le index_bytes :: u32) mod num_synth_challenges g)) xs =
      Inr (map (\<lambda>index_bytes. unat (word_of_le index_bytes :: u32) mod num_synth_challenges g) xs)" for xs
    by (rule collectR_all_ok) simp
  moreover have "gen_partition_synth_indexes p g m rand k =
      collectR (\<lambda>index_bytes. Inr (unat (word_of_le index_bytes :: u32) mod num_synth_challenges g))
        (chunks 4 (map (\<lambda>i. ?ks (4 * (k * m) + i)) [0..<4 * m]))"
    using assms by (simp add: gen_partition_synth_indexes_def apply_keystream_def cipher_seek_def
        SYNTH_INDEX_SIZE_def Let_def mult.commute)
  ultimately show ?thesis by (simp only: index_at_def map_map comp_def)
qed

lemma synth_default_ok:
  assumes "2 \<le> n" "n < 2 ^ 32"
  obtains g where "synth_default p to_repr n replica_id comm_r = Inr g" "gen_ok g" "sg_i g = 0"
    "sg_sector_nodes g = n" "num_synth_challenges g = min n (2 ^ 18)"
    "sg_replica_id g = to_repr replica_id" "gen_ok (synth_clone p g)" "same_gen (synth_clone p g) g"
  using assms
  by (simp add: synth_default_def synth_new_def DEFAULT_SYNTH_CHALLENGE_COUNT_def gen_ok_def chacha20_gen_def
      synth_clone_def synth_seek_def cipher_seek_def same_gen_def)

lemma synth_derive_eq:
  assumes "2 \<le> n" "n < 2 ^ 32" "4 * (k * m) < 2 ^ 32"
  shows "\<exists>all is. derive_synthetic p to_repr n replica_id comm_r = Inr all \<and>
      synth_derive_indexes p to_repr m n replica_id comm_r seed k = Inr is \<and>
      length all = min n (2 ^ 18) \<and> (\<forall>c\<in>set all. in_sector n c) \<and>
      length is = m \<and> (\<forall>i\<in>set is. i < length all) \<and>
      is = map (\<lambda>i. index_at (keystream (chacha20_select p (to_repr replica_id) seed)) (min n (2 ^ 18)) (m * k + i)) [0..<m] \<and>
      synth_derive p to_repr m n replica_id comm_r seed k = Inr (map ((!) all) is)"
proof -
  obtain g where g: "synth_default p to_repr n replica_id comm_r = Inr g" "gen_ok g" "sg_i g = 0"
    "sg_sector_nodes g = n" "num_synth_challenges g = min n (2 ^ 18)"
    "sg_replica_id g = to_repr replica_id" "gen_ok (synth_clone p g)" "same_gen (synth_clone p g) g"
    by (rule synth_default_ok [OF assms(1,2), of p to_repr replica_id comm_r])
  define all where "all = map (synth_at (keystream (sg_chacha20 g)) n) [0..<min n (2 ^ 18)]"
  define "is" where "is = map (\<lambda>i. index_at (keystream (chacha20_select p (to_repr replica_id) seed)) (min n (2 ^ 18)) (m * k + i)) [0..<m]"
  have pos: "0 < min n (2 ^ 18)" using assms(1) by simp
  have ix: "gen_partition_synth_indexes p g m seed k = Inr is"
    using gen_partition_synth_indexes_ok [of g k m p seed] assms(3) g pos by (simp add: is_def)
  have small: "\<forall>i\<in>set is. i < min n (2 ^ 18)" proof
    fix i assume "i \<in> set is"
    then obtain x where "i = x mod min n (2 ^ 18)" by (auto simp: is_def index_at_def)
    then show "i < min n (2 ^ 18)" using mod_less_divisor [OF pos] by simp
  qed
  have "gen_each (synth_clone p g) is = Inr (map (synth_at (keystream (sg_chacha20 g)) n) is)"
    using gen_each_ok [OF g(7)] g(4,5,8) small by (simp add: same_gen_def)
  moreover have "map (synth_at (keystream (sg_chacha20 g)) n) is = map ((!) all) is"
    using small by (simp add: all_def)
  moreover have "\<forall>c\<in>set all. in_sector n c"
    using bigint_in_sector [OF assms(1)] by (auto simp: all_def synth_at_def)
  ultimately show ?thesis using g ix small is_def
    by (intro exI [of _ all] exI [of _ "is"])
      (auto simp: derive_synthetic_def synth_derive_indexes_def synth_derive_def
        gen_porep_partition_challenges_def synth_collect_ok all_def is_def)
qed

lemma concat_partitions:
  "concat (map (\<lambda>k. map (\<lambda>i. f (m * k + i)) [0..<m]) [0..<p]) = map f [0..<m * p]"
proof (induction p)
  case (Suc p)
  have "map (\<lambda>i. f (m * p + i)) [0..<m] = map f [m * p..<m * p + m]"
    by (rule nth_equalityI) simp_all
  moreover have "[0..<m * p + m] = [0..<m * p] @ [m * p..<m * p + m]" by (rule upt_add_eq_append) simp
  ultimately show ?case using Suc by (simp add: add.commute [of m])
qed simp

lemma synth_at_of_list:
  assumes "derive_synthetic p to_repr n replica_id comm_r = Inr all"
    "synth_derive p to_repr m n replica_id comm_r seed k = r" "2 \<le> n" "n < 2 ^ 32" "4 * (k * m) < 2 ^ 32"
  shows "r = Inr (map (\<lambda>i. all ! index_at (keystream (chacha20_select p (to_repr replica_id) seed))
     (min n (2 ^ 18)) (m * k + i)) [0..<m])"
  using synth_derive_eq [OF assms(3-5), of p to_repr replica_id comm_r seed] assms(1,2) by auto

lemma synth_partitions:
  assumes n: "2 \<le> n" "n < 2 ^ 32" and "4 * (m * q) \<le> 2 ^ 32"
  shows "map_sum id concat (collectR (\<lambda>k. synth_derive p to_repr m n replica_id comm_r seed k) [0..<q]) =
    synth_derive p to_repr (m * q) n replica_id comm_r seed 0"
proof -
  obtain all where all: "derive_synthetic p to_repr n replica_id comm_r = Inr all"
  proof -
    have "4 * (0 * 0) < (2 :: nat) ^ 32" by simp
    from synth_derive_eq [OF n this, of p to_repr replica_id comm_r seed] show ?thesis
      by (elim exE conjE) (rule that)
  qed
  define f where "f = (\<lambda>i. all ! index_at (keystream (chacha20_select p (to_repr replica_id) seed)) (min n (2 ^ 18)) i)"
  have "4 * (k * m) < 2 ^ 32" if "k < q" for k
  proof (cases "m = 0")
    case False
    then have "k * m < m * q" using that by simp
    then show ?thesis using assms(3) by linarith
  qed simp
  then have "collectR (\<lambda>k. synth_derive p to_repr m n replica_id comm_r seed k) [0..<q] =
      Inr (map (\<lambda>k. map (\<lambda>i. f (m * k + i)) [0..<m]) [0..<q])"
    unfolding f_def by (intro collectR_all_ok synth_at_of_list [OF all _ n]) auto
  moreover have "synth_derive p to_repr (m * q) n replica_id comm_r seed 0 = Inr (map f [0..<m * q])"
    unfolding f_def using synth_at_of_list [OF all refl n, of 0 "m * q" seed] by simp
  ultimately show ?thesis by (simp add: concat_partitions)
qed

section \<open>Properties\<close>

text \<open>
  C24. In every mode a partition has exactly the configured number of challenges, each a node of
  the sector other than node 0, for every sector of at least two nodes and of fewer than \<open>2 ^ 32\<close>
  nodes, as the code asserts.
\<close>
theorem challenges_in_sector:
  assumes "2 \<le> n" and "n < 2 ^ 32" and "4 * (k * m) < 2 ^ 32"
  shows "(\<exists>cs. interactive_derive sha256 m n replica_id seed k = Inr cs \<and> length cs = m \<and> list_all (in_sector n) cs) \<and>
    (\<exists>cs. ni_derive sha256 m n replica_id comm_r k = Inr cs \<and> length cs = m \<and> list_all (in_sector n) cs) \<and>
    (\<exists>cs. synth_derive p to_repr m n rid cr seed k = Inr cs \<and> length cs = m \<and> list_all (in_sector n) cs)"
proof -
  obtain all "is" where s: "\<forall>c\<in>set all. in_sector n c" "length is = m" "\<forall>i\<in>set is. i < length all"
    "synth_derive p to_repr m n rid cr seed k = Inr (map ((!) all) is)"
    using synth_derive_eq [OF assms, of p to_repr rid cr seed] by blast
  then have "list_all (in_sector n) (map ((!) all) is)" by (auto simp: list_all_iff)
  moreover have "list_all (in_sector n) (map (\<lambda>i. interactive_at sha256 x n (m * k + i)) [0..<m])" for x
    using bigint_in_sector [OF assms(1)] by (auto simp: list_all_iff interactive_at_def)
  ultimately show ?thesis using s(2,4) by (simp add: interactive_derive_eq [OF assms(1,2)])
qed

theorem challenges_in_sector_witness:
  "\<exists>cs. interactive_derive (\<lambda>_. replicate 32 9) 18 (2 ^ 30) [1] [2] 3 = Inr cs \<and> length cs = 18 \<and>
     list_all (in_sector (2 ^ 30)) cs"
  by (rule challenges_in_sector [THEN conjunct1]) simp_all

text \<open>
  Partitioning does not change the challenges: those of \<open>q\<close> partitions of \<open>m\<close> challenges,
  one after the other, are the challenges of one partition of \<open>m * q\<close>, in every mode.
\<close>
theorem challenges_partitions:
  assumes "2 \<le> n" and "n < 2 ^ 32" and "4 * (m * q) \<le> 2 ^ 32"
  shows "map_sum id concat (collectR (\<lambda>k. interactive_derive sha256 m n replica_id seed k) [0..<q]) =
      interactive_derive sha256 (m * q) n replica_id seed 0 \<and>
    map_sum id concat (collectR (\<lambda>k. ni_derive sha256 m n replica_id comm_r k) [0..<q]) =
      ni_derive sha256 (m * q) n replica_id comm_r 0 \<and>
    map_sum id concat (collectR (\<lambda>k. synth_derive p to_repr m n rid cr seed k) [0..<q]) =
      synth_derive p to_repr (m * q) n rid cr seed 0"
  using synth_partitions [OF assms]
  by (simp add: interactive_derive_eq [OF assms(1,2)] concat_partitions)

theorem challenges_partitions_witness:
  "map_sum id concat (collectR (\<lambda>k. interactive_derive (\<lambda>_. replicate 32 9) 18 1024 [1] [2] k) [0..<10]) =
      interactive_derive (\<lambda>_. replicate 32 9) (18 * 10) 1024 [1] [2] 0"
  by (rule challenges_partitions [THEN conjunct1]) simp_all

text \<open>
  C37. A synthetic PoRep challenges a subset of the synthetic set: the challenges of a partition are
  the elements of the full set (\<open>derive_synthetic\<close>, of \<open>min n 2^18\<close> nodes) at the
  indexes that \<open>derive_indexes\<close> gives, all of them in range, for every sector of the sizes
  that the code asserts.
\<close>
theorem synth_challenges_subset:
  assumes "2 \<le> n" and "n < 2 ^ 32" and "4 * (k * m) < 2 ^ 32"
  shows "\<exists>all is. derive_synthetic p to_repr n replica_id comm_r = Inr all \<and>
    synth_derive_indexes p to_repr m n replica_id comm_r seed k = Inr is \<and>
    length all = min n (2 ^ 18) \<and> length is = m \<and> (\<forall>i\<in>set is. i < length all) \<and>
    synth_derive p to_repr m n replica_id comm_r seed k = Inr (map ((!) all) is)"
  using synth_derive_eq [OF assms, of p to_repr replica_id comm_r seed] by blast

theorem synth_challenges_subset_witness:
  "\<exists>all is. derive_synthetic \<lparr>blake2b = \<lambda>_ _ m. m, chacha20 = \<lambda>key nonce i. of_nat i\<rparr>
       (\<lambda>_. [0]) 64 (1::int) 2 = Inr all \<and> length all = 64 \<and>
     synth_derive \<lparr>blake2b = \<lambda>_ _ m. m, chacha20 = \<lambda>key nonce i. of_nat i\<rparr>
       (\<lambda>_. [0]) 18 64 (1::int) 2 [3] 1 = Inr (map ((!) all) is)"
proof -
  let ?p = "\<lparr>blake2b = \<lambda>_ _ m. m, chacha20 = \<lambda>key nonce i. of_nat i\<rparr>"
  have "2 \<le> (64::nat)" "64 < (2::nat) ^ 32" "4 * (1 * 18) < (2::nat) ^ 32" "min 64 (2 ^ 18) = (64::nat)"
    by simp_all
  then show ?thesis
    using synth_challenges_subset [of 64 1 18 ?p "\<lambda>_. [0]" "1::int" 2 "[3]"] by metis
qed

end
