(* ===== verification/Config.thy ===== *)
theory Config
  imports Porep_Challenges Fr32_Padding
begin

text \<open>
  The configuration of \<open>filecoin-proofs\<close>: sector sizes and tables (\<open>constants.rs\<close>),
  \<open>PoRepConfig\<close> with its feature switches and \<open>PoStConfig\<close> (\<open>types/\<close>), and the setup
  parameters computed from them (\<open>parameters.rs\<close>). The tables are behind locks that tests
  overwrite; the model has their initial contents. A missing entry is a panic.
\<close>

section \<open>Constants\<close>

definition SECTOR_SIZE_2_KIB :: nat where "SECTOR_SIZE_2_KIB = 2 ^ 11"
definition SECTOR_SIZE_4_KIB :: nat where "SECTOR_SIZE_4_KIB = 2 ^ 12"
definition SECTOR_SIZE_16_KIB :: nat where "SECTOR_SIZE_16_KIB = 2 ^ 14"
definition SECTOR_SIZE_32_KIB :: nat where "SECTOR_SIZE_32_KIB = 2 ^ 15"
definition SECTOR_SIZE_8_MIB :: nat where "SECTOR_SIZE_8_MIB = 2 ^ 23"
definition SECTOR_SIZE_16_MIB :: nat where "SECTOR_SIZE_16_MIB = 2 ^ 24"
definition SECTOR_SIZE_512_MIB :: nat where "SECTOR_SIZE_512_MIB = 2 ^ 29"
definition SECTOR_SIZE_1_GIB :: nat where "SECTOR_SIZE_1_GIB = 2 ^ 30"
definition SECTOR_SIZE_32_GIB :: nat where "SECTOR_SIZE_32_GIB = 2 ^ 35"
definition SECTOR_SIZE_64_GIB :: nat where "SECTOR_SIZE_64_GIB = 2 ^ 36"

lemmas sector_size_defs =
  SECTOR_SIZE_2_KIB_def SECTOR_SIZE_4_KIB_def SECTOR_SIZE_16_KIB_def
  SECTOR_SIZE_32_KIB_def SECTOR_SIZE_8_MIB_def SECTOR_SIZE_16_MIB_def
  SECTOR_SIZE_512_MIB_def SECTOR_SIZE_1_GIB_def SECTOR_SIZE_32_GIB_def
  SECTOR_SIZE_64_GIB_def

definition SUPPORTED_SECTOR_SIZES :: "nat list" where
  "SUPPORTED_SECTOR_SIZES = [SECTOR_SIZE_2_KIB,
     SECTOR_SIZE_4_KIB,
     SECTOR_SIZE_16_KIB,
     SECTOR_SIZE_32_KIB,
     SECTOR_SIZE_8_MIB,
     SECTOR_SIZE_16_MIB,
     SECTOR_SIZE_512_MIB,
     SECTOR_SIZE_1_GIB,
     SECTOR_SIZE_32_GIB,
     SECTOR_SIZE_64_GIB]"

definition PUBLISHED_SECTOR_SIZES :: "nat list" where
  "PUBLISHED_SECTOR_SIZES = [SECTOR_SIZE_2_KIB, SECTOR_SIZE_8_MIB, SECTOR_SIZE_512_MIB,
     SECTOR_SIZE_32_GIB, SECTOR_SIZE_64_GIB]"

definition POREP_PARTITIONS :: "(nat \<times> nat) list" where
  "POREP_PARTITIONS = [(SECTOR_SIZE_2_KIB, 1),
     (SECTOR_SIZE_4_KIB, 1),
     (SECTOR_SIZE_16_KIB, 1),
     (SECTOR_SIZE_32_KIB, 1),
     (SECTOR_SIZE_8_MIB, 1),
     (SECTOR_SIZE_16_MIB, 1),
     (SECTOR_SIZE_512_MIB, 1),
     (SECTOR_SIZE_1_GIB, 1),
     (SECTOR_SIZE_32_GIB, 10),
     (SECTOR_SIZE_64_GIB, 10)]"

definition LAYERS :: "(nat \<times> nat) list" where
  "LAYERS = [(SECTOR_SIZE_2_KIB, 2),
     (SECTOR_SIZE_4_KIB, 2),
     (SECTOR_SIZE_16_KIB, 2),
     (SECTOR_SIZE_32_KIB, 2),
     (SECTOR_SIZE_8_MIB, 2),
     (SECTOR_SIZE_16_MIB, 2),
     (SECTOR_SIZE_512_MIB, 2),
     (SECTOR_SIZE_1_GIB, 2),
     (SECTOR_SIZE_32_GIB, 11),
     (SECTOR_SIZE_64_GIB, 11)]"

definition WINDOW_POST_SECTOR_COUNT :: "(nat \<times> nat) list" where
  "WINDOW_POST_SECTOR_COUNT = [(SECTOR_SIZE_2_KIB, 2),
     (SECTOR_SIZE_4_KIB, 2),
     (SECTOR_SIZE_16_KIB, 2),
     (SECTOR_SIZE_32_KIB, 2),
     (SECTOR_SIZE_8_MIB, 2),
     (SECTOR_SIZE_16_MIB, 2),
     (SECTOR_SIZE_512_MIB, 2),
     (SECTOR_SIZE_1_GIB, 2),
     (SECTOR_SIZE_32_GIB, 2349),
     (SECTOR_SIZE_64_GIB, 2300)]"

definition get_porep_interactive_minimum_challenges :: "nat \<Rightarrow> nat res" where
  "get_porep_interactive_minimum_challenges sector_size =
     (if sector_size \<in> {SECTOR_SIZE_2_KIB, SECTOR_SIZE_4_KIB, SECTOR_SIZE_16_KIB, SECTOR_SIZE_32_KIB,
          SECTOR_SIZE_8_MIB, SECTOR_SIZE_16_MIB, SECTOR_SIZE_512_MIB, SECTOR_SIZE_1_GIB} then Inr 2
      else if sector_size \<in> {SECTOR_SIZE_32_GIB, SECTOR_SIZE_64_GIB} then Inr 176
      else Inl (Panic ''invalid sector size''))"

definition get_porep_non_interactive_minimum_challenges :: "nat \<Rightarrow> nat res" where
  "get_porep_non_interactive_minimum_challenges sector_size =
     (if sector_size \<in> {SECTOR_SIZE_2_KIB, SECTOR_SIZE_4_KIB, SECTOR_SIZE_16_KIB, SECTOR_SIZE_32_KIB,
          SECTOR_SIZE_8_MIB, SECTOR_SIZE_16_MIB, SECTOR_SIZE_512_MIB, SECTOR_SIZE_1_GIB} then Inr 26
      else if sector_size \<in> {SECTOR_SIZE_32_GIB, SECTOR_SIZE_64_GIB} then Inr 2253
      else Inl (Panic ''invalid sector size''))"

definition get_porep_non_interactive_partitions :: "nat \<Rightarrow> nat res" where
  "get_porep_non_interactive_partitions sector_size =
     (if sector_size \<in> {SECTOR_SIZE_2_KIB, SECTOR_SIZE_4_KIB, SECTOR_SIZE_16_KIB, SECTOR_SIZE_32_KIB,
          SECTOR_SIZE_8_MIB, SECTOR_SIZE_16_MIB, SECTOR_SIZE_512_MIB, SECTOR_SIZE_1_GIB} then Inr 13
      else if sector_size \<in> {SECTOR_SIZE_32_GIB, SECTOR_SIZE_64_GIB} then Inr 126
      else Inl (Panic ''invalid sector size''))"

definition MAX_CHALLENGES_PER_PARTITION :: nat where "MAX_CHALLENGES_PER_PARTITION = 18"
definition MINIMUM_RESERVED_LEAVES_FOR_PIECE_IN_SECTOR :: nat where "MINIMUM_RESERVED_LEAVES_FOR_PIECE_IN_SECTOR = 4"
definition MINIMUM_RESERVED_BYTES_FOR_PIECE_IN_FULLY_ALIGNED_SECTOR :: nat where
  "MINIMUM_RESERVED_BYTES_FOR_PIECE_IN_FULLY_ALIGNED_SECTOR = MINIMUM_RESERVED_LEAVES_FOR_PIECE_IN_SECTOR * NODE_SIZE - 1"
definition MIN_PIECE_SIZE :: nat where "MIN_PIECE_SIZE = 127"
definition BASE_DEGREE :: nat where "BASE_DEGREE = 6"
definition EXP_DEGREE :: nat where "EXP_DEGREE = 8"

definition is_sector_shape_base :: "nat \<Rightarrow> bool" where
  "is_sector_shape_base sector_size \<longleftrightarrow> sector_size \<in> {SECTOR_SIZE_2_KIB, SECTOR_SIZE_8_MIB, SECTOR_SIZE_512_MIB}"

definition is_sector_shape_sub2 :: "nat \<Rightarrow> bool" where
  "is_sector_shape_sub2 sector_size \<longleftrightarrow> sector_size \<in> {SECTOR_SIZE_4_KIB, SECTOR_SIZE_16_MIB, SECTOR_SIZE_1_GIB}"

definition is_sector_shape_sub8 :: "nat \<Rightarrow> bool" where
  "is_sector_shape_sub8 sector_size \<longleftrightarrow> sector_size \<in> {SECTOR_SIZE_16_KIB, SECTOR_SIZE_32_GIB}"

definition is_sector_shape_top2 :: "nat \<Rightarrow> bool" where
  "is_sector_shape_top2 sector_size \<longleftrightarrow> sector_size \<in> {SECTOR_SIZE_32_KIB, SECTOR_SIZE_64_GIB}"

section \<open>\<open>PoRepConfig\<close>\<close>

record porep_config =
  pc_sector_size :: nat
  pc_partitions :: nat
  pc_porep_id :: "u8 list"
  pc_api_version :: api_version
  pc_api_features :: "api_feature list"

text \<open>\<open>POREP_PARTITIONS\<close> is a by sector size, whose missing entry is a panic.\<close>

definition porep_partitions_of :: "nat \<Rightarrow> nat res" where
  "porep_partitions_of sector_size =
     (case map_of POREP_PARTITIONS sector_size of None \<Rightarrow> Inl (Panic ''unknown sector size'') | Some p \<Rightarrow> Inr p)"

definition new_groth16 :: "nat \<Rightarrow> u8 list \<Rightarrow> api_version \<Rightarrow> porep_config res" where
  "new_groth16 sector_size porep_id v =
     bindR (porep_partitions_of sector_size) (\<lambda>p.
       Inr \<lparr>pc_sector_size = sector_size, pc_partitions = p, pc_porep_id = porep_id,
            pc_api_version = v, pc_api_features = []\<rparr>)"

definition feature_enabled :: "porep_config \<Rightarrow> api_feature \<Rightarrow> bool" where
  "feature_enabled cfg feat \<longleftrightarrow> feat \<in> set (pc_api_features cfg)"

definition enable_feature ::
  "porep_config \<Rightarrow> api_feature \<Rightarrow> porep_config res" where
  "enable_feature cfg feat =
     (if list_ex (feature_enabled cfg) (conflicting_features feat)
      then Inl (Fail ''Cannot enable feature'')
      else bindR
        (case feat of
           SyntheticPoRep \<Rightarrow> porep_partitions_of (pc_sector_size cfg)
         | NonInteractivePoRep \<Rightarrow> get_porep_non_interactive_partitions (pc_sector_size cfg))
        (\<lambda>p. let cfg' = cfg\<lparr>pc_partitions := p\<rparr>
             in Inr (if feature_enabled cfg' feat then cfg'
                     else cfg'\<lparr>pc_api_features := pc_api_features cfg' @ [feat]\<rparr>)))"

fun enable_features ::
  "porep_config \<Rightarrow> api_feature list \<Rightarrow> porep_config res" where
  "enable_features cfg [] = Inr cfg"
| "enable_features cfg (f # fs) =
     bindR (enable_feature cfg f) (\<lambda>cfg. enable_features cfg fs)"

definition new_groth16_with_features ::
  "nat \<Rightarrow> u8 list \<Rightarrow> api_version \<Rightarrow> api_feature list \<Rightarrow> porep_config res" where
  "new_groth16_with_features sector_size porep_id v feats =
     bindR (new_groth16 sector_size porep_id v) (\<lambda>cfg. enable_features cfg feats)"

definition minimum_challenges :: "porep_config \<Rightarrow> nat res" where
  "minimum_challenges cfg =
     (if feature_enabled cfg NonInteractivePoRep
      then get_porep_non_interactive_minimum_challenges (pc_sector_size cfg)
      else get_porep_interactive_minimum_challenges (pc_sector_size cfg))"

definition padded_bytes_amount :: "porep_config \<Rightarrow> nat" where
  "padded_bytes_amount cfg = pc_sector_size cfg"

definition unpadded_bytes_amount :: "porep_config \<Rightarrow> nat" where
  "unpadded_bytes_amount cfg = to_unpadded_bytes (padded_bytes_amount cfg)"

section \<open>Setup parameters\<close>

text \<open>\<open>div_ceil\<close> of \<open>parameters.rs\<close>, with its panics.\<close>

definition div_ceil_checked :: "nat \<Rightarrow> nat \<Rightarrow> nat res" where
  "div_ceil_checked x y =
     bindR (usub x 1) (\<lambda>x1.
       if y = 0 then Inl (Panic ''attempt to divide by zero'') else Inr (1 + x1 div y))"

definition select_challenges :: "nat \<Rightarrow> nat \<Rightarrow> api_feature list \<Rightarrow> challenges res" where
  "select_challenges partitions minimum_total_challenges features =
     bindR (div_ceil_checked minimum_total_challenges partitions) (\<lambda>challenges.
       if MAX_CHALLENGES_PER_PARTITION < challenges then Inl (Panic ''assertion failed'')
       else Inr (if SyntheticPoRep \<in> set features then Synth challenges
                 else if NonInteractivePoRep \<in> set features then Ni challenges
                 else Interactive challenges))"

record stacked_setup_params =
  sp_nodes :: nat
  sp_degree :: nat
  sp_expansion_degree :: nat
  sp_porep_id :: "u8 list"
  sp_challenges :: challenges
  sp_num_layers :: nat
  sp_api_version :: api_version
  sp_api_features :: "api_feature list"

definition setup_params :: "porep_config \<Rightarrow> stacked_setup_params res" where
  "setup_params cfg =
     (let sector_bytes = padded_bytes_amount cfg in
      bindR (minimum_challenges cfg) (\<lambda>mc.
      bindR (select_challenges (pc_partitions cfg) mc (pc_api_features cfg)) (\<lambda>challenges.
      bindR (case map_of LAYERS sector_bytes of None \<Rightarrow> Inl (Panic ''unknown sector size'') | Some n \<Rightarrow> Inr n) (\<lambda>num_layers.
      ensure (sector_bytes mod 32 = 0) ''sector_bytes must be a multiple of 32''
        (Inr \<lparr>sp_nodes = sector_bytes div 32, sp_degree = BASE_DEGREE, sp_expansion_degree = EXP_DEGREE,
              sp_porep_id = pc_porep_id cfg, sp_challenges = challenges, sp_num_layers = num_layers,
              sp_api_version = pc_api_version cfg, sp_api_features = pc_api_features cfg\<rparr>)))))"

datatype post_type = Winning | Window

record post_config =
  po_sector_size :: nat
  po_challenge_count :: nat
  po_sector_count :: nat
  po_typ :: post_type
  po_priority :: bool
  po_api_version :: api_version

record post_setup_params =
  ps_sector_size :: nat
  ps_challenge_count :: nat
  ps_sector_count :: nat
  ps_api_version :: api_version

text \<open>\<open>0.is_multiple_of(0)\<close> holds, and then the division panics.\<close>

definition winning_post_setup_params :: "post_config \<Rightarrow> post_setup_params res" where
  "winning_post_setup_params cfg =
     ensure (if po_sector_count cfg = 0 then po_challenge_count cfg = 0
             else po_challenge_count cfg mod po_sector_count cfg = 0)
       ''sector count must divide challenge count''
       (if po_sector_count cfg = 0 then Inl (Panic ''attempt to divide by zero'')
        else let param_sector_count = po_challenge_count cfg div po_sector_count cfg in
          if param_sector_count = 0 then Inl (Panic ''attempt to divide by zero'')
          else let param_challenge_count = po_challenge_count cfg div param_sector_count in
            ensure (param_sector_count * param_challenge_count = po_challenge_count cfg)
              ''invald parameters calculated''
              (Inr \<lparr>ps_sector_size = po_sector_size cfg, ps_challenge_count = param_challenge_count,
                    ps_sector_count = param_sector_count, ps_api_version = po_api_version cfg\<rparr>))"

definition window_post_setup_params :: "post_config \<Rightarrow> post_setup_params" where
  "window_post_setup_params cfg =
     \<lparr>ps_sector_size = po_sector_size cfg, ps_challenge_count = po_challenge_count cfg,
      ps_sector_count = po_sector_count cfg, ps_api_version = po_api_version cfg\<rparr>"

section \<open>Lemmas\<close>

text \<open>At most one of the conflicting features is ever enabled.\<close>

definition features_ok :: "porep_config \<Rightarrow> bool" where
  "features_ok cfg \<longleftrightarrow> distinct (pc_api_features cfg) \<and>
     (\<forall>f\<in>set (pc_api_features cfg). \<forall>g\<in>set (conflicting_features f). \<not> feature_enabled cfg g)"

lemma enable_feature_ok:
  assumes "features_ok cfg" and "enable_feature cfg f = Inr cfg'"
  shows "features_ok cfg' \<and> feature_enabled cfg' f \<and>
    (\<forall>g. feature_enabled cfg g \<longrightarrow> feature_enabled cfg' g)"
proof -
  have conf: "g \<in> set (conflicting_features h) \<longleftrightarrow> g \<noteq> h" for g h
    by (cases h; cases g) simp_all
  have no: "\<not> list_ex (feature_enabled cfg) (conflicting_features f)"
    using assms(2) by (simp add: enable_feature_def split: if_splits)
  obtain p where cfg': "cfg' = (let c = cfg\<lparr>pc_partitions := p\<rparr> in
      if feature_enabled c f then c else c\<lparr>pc_api_features := pc_api_features c @ [f]\<rparr>)"
    using assms(2) no unfolding enable_feature_def Let_def bindR_eq_Inr if_not_P [OF no] by blast
  have sub: "set (pc_api_features cfg) \<subseteq> {f}"
    using no conf unfolding list_ex_iff feature_enabled_def by blast
  have fs: "set (pc_api_features cfg') = {f} \<and> distinct (pc_api_features cfg')"
  proof (cases "f \<in> set (pc_api_features cfg)")
    case True
    then have "pc_api_features cfg' = pc_api_features cfg"
      unfolding cfg' by (simp add: feature_enabled_def)
    then show ?thesis using True sub assms(1) unfolding features_ok_def by auto
  next
    case False
    then have "pc_api_features cfg = []" using sub by (cases "pc_api_features cfg") auto
    then have "pc_api_features cfg' = [f]" unfolding cfg' by (simp add: feature_enabled_def)
    then show ?thesis by simp
  qed
  have "features_ok cfg'" using fs unfolding features_ok_def feature_enabled_def by (simp add: conf)
  then show ?thesis using fs sub unfolding feature_enabled_def by auto
qed

lemma enable_features_ok:
  "features_ok cfg \<Longrightarrow> enable_features cfg fs = Inr cfg' \<Longrightarrow>
   features_ok cfg' \<and> (\<forall>f\<in>set fs. feature_enabled cfg' f) \<and>
   (\<forall>g. feature_enabled cfg g \<longrightarrow> feature_enabled cfg' g)"
proof (induction fs arbitrary: cfg)
  case (Cons f fs)
  then obtain cfg1 where "enable_feature cfg f = Inr cfg1"
    "enable_features cfg1 fs = Inr cfg'" by (auto simp: bindR_eq_Inr)
  then show ?case using Cons.IH [of cfg1] enable_feature_ok [OF Cons.prems(1)] by auto
qed simp


lemma enable_feature_partitions:
  assumes "enable_feature cfg f = Inr cfg'"
  shows "pc_sector_size cfg' = pc_sector_size cfg \<and>
    (case f of SyntheticPoRep \<Rightarrow> porep_partitions_of (pc_sector_size cfg)
     | NonInteractivePoRep \<Rightarrow> get_porep_non_interactive_partitions (pc_sector_size cfg)) = Inr (pc_partitions cfg')"
  using assms by (auto simp: enable_feature_def bindR_eq_Inr Let_def split: if_splits)

text \<open>The partitions a configuration must have for its features.\<close>

definition partitions_ok :: "porep_config \<Rightarrow> bool" where
  "partitions_ok cfg \<longleftrightarrow>
     (if feature_enabled cfg NonInteractivePoRep then get_porep_non_interactive_partitions (pc_sector_size cfg)
      else porep_partitions_of (pc_sector_size cfg)) = Inr (pc_partitions cfg)"

lemma enable_features_partitions:
  "features_ok cfg \<Longrightarrow> partitions_ok cfg \<Longrightarrow> enable_features cfg fs = Inr cfg' \<Longrightarrow>
   partitions_ok cfg' \<and> pc_sector_size cfg' = pc_sector_size cfg"
proof (induction fs arbitrary: cfg)
  case (Cons f fs)
  then obtain cfg1 where c: "enable_feature cfg f = Inr cfg1" "enable_features cfg1 fs = Inr cfg'"
    by (auto simp: bindR_eq_Inr)
  note ok = enable_feature_ok [OF Cons.prems(1) c(1)] enable_feature_partitions [OF c(1)]
  have "partitions_ok cfg1"
  proof (cases f)
    case SyntheticPoRep
    then have "\<not> feature_enabled cfg1 NonInteractivePoRep"
      using ok by (auto simp: features_ok_def feature_enabled_def)
    then show ?thesis using ok SyntheticPoRep by (simp add: partitions_ok_def)
  qed (use ok in \<open>simp add: partitions_ok_def\<close>)
  then show ?case using Cons.IH [of cfg1] c(2) ok by simp
qed simp

lemma size_tables:
  assumes "s \<in> set SUPPORTED_SECTOR_SIZES"
  shows "s mod 32 = 0 \<and> map_of LAYERS s \<noteq> None \<and>
    (porep_partitions_of s = Inr 1 \<and> get_porep_interactive_minimum_challenges s = Inr 2 \<or>
     porep_partitions_of s = Inr 10 \<and> get_porep_interactive_minimum_challenges s = Inr 176) \<and>
    (get_porep_non_interactive_partitions s = Inr 13 \<and> get_porep_non_interactive_minimum_challenges s = Inr 26 \<or>
     get_porep_non_interactive_partitions s = Inr 126 \<and> get_porep_non_interactive_minimum_challenges s = Inr 2253)"
  using assms unfolding SUPPORTED_SECTOR_SIZES_def
  by (auto simp: sector_size_defs LAYERS_def POREP_PARTITIONS_def porep_partitions_of_def
      get_porep_interactive_minimum_challenges_def get_porep_non_interactive_partitions_def
      get_porep_non_interactive_minimum_challenges_def)

lemma select_challenges_enough:
  assumes "(partitions, mc) \<in> {(1, 2), (10, 176), (13, 26), (126, 2253)}"
  shows "\<exists>c. select_challenges partitions mc fs = Inr c \<and> mc \<le> partitions * num_challenges_per_partition c \<and>
    num_challenges_per_partition c \<le> 18 \<and>
    (c \<in> range Synth \<longleftrightarrow> SyntheticPoRep \<in> set fs) \<and>
    (c \<in> range Ni \<longleftrightarrow> SyntheticPoRep \<notin> set fs \<and> NonInteractivePoRep \<in> set fs)"
  using assms by (auto simp: select_challenges_def div_ceil_checked_def MAX_CHALLENGES_PER_PARTITION_def)

lemma new_groth16_with_features_ok:
  assumes "new_groth16_with_features s porep_id v fs = Inr cfg"
  shows "features_ok cfg \<and> partitions_ok cfg \<and> pc_sector_size cfg = s \<and>
    (\<forall>f\<in>set fs. feature_enabled cfg f)"
proof -
  obtain cfg0 where c: "new_groth16 s porep_id v = Inr cfg0" "enable_features cfg0 fs = Inr cfg"
    using assms by (auto simp: new_groth16_with_features_def bindR_eq_Inr)
  have "features_ok cfg0" "partitions_ok cfg0" "pc_sector_size cfg0 = s"
    using c(1) by (auto simp: new_groth16_def bindR_eq_Inr features_ok_def partitions_ok_def feature_enabled_def)
  then show ?thesis
    using enable_features_ok [OF _ c(2)] enable_features_partitions [OF _ _ c(2)] by simp
qed

lemma setup_params_ok:
  assumes "pc_sector_size cfg \<in> set SUPPORTED_SECTOR_SIZES" and "partitions_ok cfg"
  shows "\<exists>sp mc. minimum_challenges cfg = Inr mc \<and> setup_params cfg = Inr sp \<and> 32 * sp_nodes sp = pc_sector_size cfg \<and>
    mc \<le> pc_partitions cfg * num_challenges_per_partition (sp_challenges sp) \<and>
    num_challenges_per_partition (sp_challenges sp) \<le> 18 \<and>
    (sp_challenges sp \<in> range Synth \<longleftrightarrow> feature_enabled cfg SyntheticPoRep) \<and>
    (sp_challenges sp \<in> range Ni \<longleftrightarrow>
       \<not> feature_enabled cfg SyntheticPoRep \<and> feature_enabled cfg NonInteractivePoRep)"
proof -
  note t = size_tables [OF assms(1)]
  obtain mc where mc: "minimum_challenges cfg = Inr mc"
    "(pc_partitions cfg, mc) \<in> {(1, 2), (10, 176), (13, 26), (126, 2253)}"
    using t assms(2) by (auto simp: minimum_challenges_def partitions_ok_def split: if_splits)
  obtain c where "select_challenges (pc_partitions cfg) mc (pc_api_features cfg) = Inr c"
    "mc \<le> pc_partitions cfg * num_challenges_per_partition c" "num_challenges_per_partition c \<le> 18"
    "c \<in> range Synth \<longleftrightarrow> SyntheticPoRep \<in> set (pc_api_features cfg)"
    "c \<in> range Ni \<longleftrightarrow> SyntheticPoRep \<notin> set (pc_api_features cfg) \<and> NonInteractivePoRep \<in> set (pc_api_features cfg)"
    using select_challenges_enough [OF mc(2)] by blast
  moreover have "32 * (pc_sector_size cfg div 32) = pc_sector_size cfg" using t [THEN conjunct1] by presburger
  ultimately show ?thesis using mc(1) t
    by (auto simp: setup_params_def Let_def padded_bytes_amount_def feature_enabled_def ensure_def)
qed

section \<open>Properties\<close>

text \<open>
  C31. For every supported sector size, the configuration that \<open>new_groth16_with_features\<close>
  builds never has two conflicting features, has every requested one, and its setup
  parameters exist: the partitions together have at least the minimum number of challenges of
  the mode, no partition has more than 18, and the kind of the challenges is the one of the feature.
\<close>
theorem setup_params_sound:
  assumes "s \<in> set SUPPORTED_SECTOR_SIZES" and "new_groth16_with_features s porep_id v fs = Inr cfg"
  shows "features_ok cfg \<and> (\<forall>f\<in>set fs. feature_enabled cfg f) \<and>
    (\<exists>sp mc. minimum_challenges cfg = Inr mc \<and> setup_params cfg = Inr sp \<and> 32 * sp_nodes sp = s \<and>
      mc \<le> pc_partitions cfg * num_challenges_per_partition (sp_challenges sp) \<and>
      num_challenges_per_partition (sp_challenges sp) \<le> 18 \<and>
      (sp_challenges sp \<in> range Synth \<longleftrightarrow> feature_enabled cfg SyntheticPoRep) \<and>
      (sp_challenges sp \<in> range Ni \<longleftrightarrow>
         \<not> feature_enabled cfg SyntheticPoRep \<and> feature_enabled cfg NonInteractivePoRep))"
  using new_groth16_with_features_ok [OF assms(2)] setup_params_ok [of cfg] assms(1) by simp

theorem setup_params_sound_witness:
  "\<exists>cfg sp. new_groth16_with_features SECTOR_SIZE_32_GIB [] V1_2_0 [NonInteractivePoRep] = Inr cfg \<and>
     setup_params cfg = Inr sp \<and> sp_nodes sp = 2 ^ 30"
proof -
  have 1: "SECTOR_SIZE_32_GIB \<in> set SUPPORTED_SECTOR_SIZES" by (simp add: SUPPORTED_SECTOR_SIZES_def)
  obtain cfg where 2: "new_groth16_with_features SECTOR_SIZE_32_GIB [] V1_2_0 [NonInteractivePoRep] = Inr cfg"
    by (simp add: new_groth16_with_features_def new_groth16_def porep_partitions_of_def POREP_PARTITIONS_def
        sector_size_defs enable_feature_def feature_enabled_def get_porep_non_interactive_partitions_def)
  show ?thesis using setup_params_sound [OF 1 2] 2 by (auto simp: SECTOR_SIZE_32_GIB_def)
qed

end
