(* ===== verification/Stacked_Graph.thy ===== *)
theory Stacked_Graph
  imports Feistel Sha2raw Config
begin

text \<open>
  The graph of the SDR encoding: the depth robust bucket graph of
  \<open>storage-proofs-core/src/drgraph.rs\<close>, the expander edges and the hashing of the parents of
  \<open>storage-proofs-porep/src/stacked/vanilla/graph.rs\<close>. The generator ChaCha8 is a
  parameter (the sequence of \<open>u64\<close> draws of a seed), as is \<open>f64::log2().ceil()\<close>, whose
  precision the standard library does not fix: the theorems assume a value between 1 and
  63. The hash of the Feistel rounds and the hash of the seeds are parameters too.
\<close>

section \<open>The bucket graph\<close>

record bucket_graph =
  bg_nodes :: nat
  base_degree :: nat
  bg_seed :: "u8 list"
  bg_api_version :: api_version

definition derive_drg_seed :: "(u8 list \<Rightarrow> u8 list) \<Rightarrow> u8 list \<Rightarrow> u8 list" where
  "derive_drg_seed sha256 porep_id = take 28 (derive_porep_domain_seed sha256 DRSAMPLE_DST porep_id)"

definition bucket_graph_new ::
  "(u8 list \<Rightarrow> u8 list) \<Rightarrow> nat \<Rightarrow> nat \<Rightarrow> nat \<Rightarrow> u8 list \<Rightarrow> api_version \<Rightarrow> bucket_graph res" where
  "bucket_graph_new sha256 nodes degree expansion_degree porep_id v =
     ensure (expansion_degree = 0) ''Expension degree must be zero.''
       (bindR (usub degree 1) (\<lambda>m_prime.
          ensure (nodes * m_prime \<le> 2 ^ 54)
            ''The number of metagraph nodes must be precisely castable to f64''
            (Inr \<lparr>bg_nodes = nodes, base_degree = degree, bg_seed = derive_drg_seed sha256 porep_id,
                  bg_api_version = v\<rparr>)))"

text \<open>\<open>1 << b\<close> on \<open>u64\<close>: the shift count is taken modulo 64.\<close>

definition shl1 :: "nat \<Rightarrow> nat" where
  "shl1 b = 2 ^ (b mod 64)"

text \<open>The body of the loop over the other parents: the two draws of the iteration give one parent.\<close>

definition bucket_parent :: "nat \<Rightarrow> nat \<Rightarrow> nat \<Rightarrow> nat \<Rightarrow> nat \<Rightarrow> nat \<Rightarrow> u32 res" where
  "bucket_parent node m_prime metagraph_node n_buckets draw1 draw2 =
     (if n_buckets = 0 then Inl (Panic ''attempt to calculate the remainder with a divisor of zero'')
      else let bucket_index = draw1 mod n_buckets + 1;
               largest_distance_in_bucket = min metagraph_node (shl1 bucket_index);
               smallest_distance_in_bucket = max 2 (largest_distance_in_bucket div 2)
           in bindR (usub largest_distance_in_bucket smallest_distance_in_bucket) (\<lambda>d.
              let n_distances_in_bucket = d + 1;
                  distance = smallest_distance_in_bucket + draw2 mod n_distances_in_bucket
              in bindR (usub metagraph_node distance) (\<lambda>metagraph_parent.
                 let mapped_parent = metagraph_parent div m_prime mod 2 ^ 32
                 in Inr (if mapped_parent = node then of_nat (node - 1) else of_nat mapped_parent))))"

text \<open>
  \<open>parents\<close>: \<open>rng seed i\<close> is the \<open>i\<close>-th draw of the generator of that seed. The buffer may
  be longer than the degree; the entries after the degree are left alone. The loop
  writes as many other parents as the buffer has room for, and the last
  assignment panics where its index is out of range.
\<close>

definition bucket_parents ::
  "(u8 list \<Rightarrow> nat \<Rightarrow> nat) \<Rightarrow> (nat \<Rightarrow> nat) \<Rightarrow> bucket_graph \<Rightarrow> nat \<Rightarrow> u32 list \<Rightarrow> u32 list res" where
  "bucket_parents rng log2_ceil g node parents =
     (let m = base_degree g in
      if node = 0 \<or> node = 1
      then Inr (replicate (min m (length parents)) 0 @ drop m parents)
      else
        let node32 = node mod 2 ^ 32;
            seed = bg_seed g @ le_of_word 4 (of_nat node32 :: u32)
        in bindR (usub m 1) (\<lambda>m_prime.
           let metagraph_node = node32 * m_prime;
               n_buckets = log2_ceil metagraph_node;
               (predecessor_index, start) =
                 (case bg_api_version g of V1_0_0 \<Rightarrow> (m_prime, 0) | V1_1_0 \<Rightarrow> (0, 1) | V1_2_0 \<Rightarrow> (0, 1));
               count = min m_prime (length parents - start)
           in bindR (collectR (\<lambda>k. bucket_parent node32 m_prime metagraph_node n_buckets
                        (rng seed (2 * k)) (rng seed (2 * k + 1))) [0..<count]) (\<lambda>others.
              let parents' = take start parents @ others @ drop (start + count) parents
              in if predecessor_index < length parents'
                 then Inr (parents'[predecessor_index := of_nat (node32 - 1)])
                 else Inl (Panic ''index out of bounds''))))"

text \<open>\<open>create_key\<close> of the bucket graph; \<open>sha256\<close> is the hash of the \<open>sha2\<close> crate.\<close>

definition bucket_create_key ::
  "(u8 list \<Rightarrow> u8 list) \<Rightarrow> u8 list \<Rightarrow> nat \<Rightarrow> u32 list \<Rightarrow> u8 list \<Rightarrow> u8 list res" where
  "bucket_create_key sha256 id' node parents base_parents_data =
     bindR (at_index parents 0) (\<lambda>p0.
       bindR (if node \<noteq> unat p0
              then collectR (\<lambda>p. let offset = data_at_node_offset (unat p)
                                 in slice base_parents_data offset (offset + NODE_SIZE)) parents
              else Inr []) (\<lambda>nodes.
         Inr (bytes_into_fr_repr_safe (sha256 (id' @ concat nodes)))))"

section \<open>The stacked graph\<close>

definition DEGREE :: nat where "DEGREE = BASE_DEGREE + EXP_DEGREE"

record stacked_graph =
  expansion_degree :: nat
  base_graph :: bucket_graph
  feistel_keys :: "u64 list"
  feistel_pre :: feistel_precomputed
  sg_api_version :: api_version

definition derive_feistel_keys :: "(u8 list \<Rightarrow> u8 list) \<Rightarrow> u8 list \<Rightarrow> u64 list" where
  "derive_feistel_keys sha256 porep_id =
     (let raw_seed = derive_porep_domain_seed sha256 FEISTEL_DST porep_id
      in map (\<lambda>i. word_of_le (take 8 (drop (8 * i) raw_seed))) [0..<4])"

text \<open>\<open>None\<close>: \<open>precompute\<close> does not return.\<close>

definition stacked_graph_new ::
  "(u8 list \<Rightarrow> u8 list) \<Rightarrow> bucket_graph option \<Rightarrow> nat \<Rightarrow> nat \<Rightarrow> nat \<Rightarrow> u8 list \<Rightarrow> api_version \<Rightarrow>
   stacked_graph res option" where
  "stacked_graph_new sha256 bg nodes degree exp_degree porep_id v =
     (if degree \<noteq> BASE_DEGREE \<or> exp_degree \<noteq> EXP_DEGREE then Some (Inl (Panic ''assertion failed''))
      else if 2 ^ 32 \<le> nodes then Some (Inl (Fail ''too many nodes''))
      else case (case bg of Some g \<Rightarrow> Inr g | None \<Rightarrow> bucket_graph_new sha256 nodes degree 0 porep_id v) of
             Inl e \<Rightarrow> Some (Inl e)
           | Inr g \<Rightarrow>
               map_option (\<lambda>pre. Inr \<lparr>expansion_degree = exp_degree, base_graph = g,
                   feistel_keys = derive_feistel_keys sha256 porep_id, feistel_pre = pre, sg_api_version = v\<rparr>)
                 (precompute (of_nat (exp_degree * nodes))))"

definition graph_size :: "stacked_graph \<Rightarrow> nat" where
  "graph_size g = bg_nodes (base_graph g)"

definition correspondent :: "(u8 list \<Rightarrow> u8 list) \<Rightarrow> stacked_graph \<Rightarrow> nat \<Rightarrow> nat \<Rightarrow> u32 res option" where
  "correspondent b2b g node i =
     (let a = of_nat (node * expansion_degree g) + of_nat i :: u64
      in map_option (\<lambda>transformed.
           case sg_api_version g of
             V1_0_0 \<Rightarrow> Inr (ucast transformed div of_nat (expansion_degree g))
           | _ \<Rightarrow> let q = transformed div of_nat (expansion_degree g)
                  in if unat q < 2 ^ 32 then Inr (ucast q) else Inl (Panic ''invalid transformation''))
         (permute b2b (of_nat (graph_size g) * of_nat (expansion_degree g)) a
            (feistel_keys g) (feistel_pre g)))"

text \<open>The whole buffer is written, whatever its length.\<close>

fun expanded_loop :: "(nat \<Rightarrow> u32 res option) \<Rightarrow> nat list \<Rightarrow> u32 list res option" where
  "expanded_loop f [] = Some (Inr [])"
| "expanded_loop f (i # is) =
     (case f i of
        None \<Rightarrow> None
      | Some (Inl e) \<Rightarrow> Some (Inl e)
      | Some (Inr p) \<Rightarrow> map_option (map_sum id ((#) p)) (expanded_loop f is))"

definition expanded_parents :: "(u8 list \<Rightarrow> u8 list) \<Rightarrow> stacked_graph \<Rightarrow> nat \<Rightarrow> u32 list \<Rightarrow> u32 list res option" where
  "expanded_parents b2b g node parents =
     expanded_loop (correspondent b2b g node) [0..<length parents]"

definition stacked_parents ::
  "(u8 list \<Rightarrow> nat \<Rightarrow> nat) \<Rightarrow> (nat \<Rightarrow> nat) \<Rightarrow> (u8 list \<Rightarrow> u8 list) \<Rightarrow> stacked_graph \<Rightarrow> nat \<Rightarrow> u32 list \<Rightarrow>
   u32 list res option" where
  "stacked_parents rng log2_ceil b2b g node parents =
     (let d = base_degree (base_graph g); e = expansion_degree g in
      case bindR (slice_to parents d) (bucket_parents rng log2_ceil (base_graph g) node) of
        Inl err \<Rightarrow> Some (Inl err)
      | Inr base \<Rightarrow>
          (case slice parents d (d + e) of
             Inl err \<Rightarrow> Some (Inl err)
           | Inr exp_buf \<Rightarrow>
               map_option (map_sum id (\<lambda>exp. base @ exp @ drop (d + e) parents))
                 (expanded_parents b2b g node exp_buf)))"

subsection \<open>Hashing the parents\<close>

definition read_node :: "nat \<Rightarrow> u32 list \<Rightarrow> u8 list \<Rightarrow> u8 list res" where
  "read_node i parents bytes =
     bindR (at_index parents i) (\<lambda>p.
       let start = unat p * NODE_SIZE; end' = start + NODE_SIZE in slice bytes start end')"

definition copy_parents_data_inner :: "u32 list \<Rightarrow> u8 list \<Rightarrow> sha256 \<Rightarrow> u8 list res" where
  "copy_parents_data_inner cache_parents base_data hasher =
     bindR (collectR (\<lambda>i. read_node i cache_parents base_data) [0..<6]) (\<lambda>parents.
     bindR (sha256_input hasher parents) (\<lambda>hasher.
     bindR (sha256_input hasher parents) (\<lambda>hasher.
     bindR (sha256_input hasher parents) (\<lambda>hasher.
     bindR (sha256_input hasher parents) (\<lambda>hasher.
     bindR (sha256_input hasher parents) (\<lambda>hasher.
     bindR (sha256_input hasher parents) (\<lambda>hasher.
     sha256_finish_with hasher (parents ! 0))))))))"

definition copy_parents_data_inner_exp :: "u32 list \<Rightarrow> u8 list \<Rightarrow> u8 list \<Rightarrow> sha256 \<Rightarrow> u8 list res" where
  "copy_parents_data_inner_exp cache_parents base_data exp_data hasher =
     bindR (collectR (\<lambda>i. read_node i cache_parents base_data) [0..<6]) (\<lambda>base.
     bindR (collectR (\<lambda>i. read_node i cache_parents exp_data) [6..<14]) (\<lambda>exp.
     let parents = base @ exp in
     bindR (sha256_input hasher parents) (\<lambda>hasher.
     bindR (sha256_input hasher parents) (\<lambda>hasher.
     bindR (sha256_input hasher (take 8 parents)) (\<lambda>hasher.
     sha256_finish_with hasher (parents ! 8))))))"

section \<open>The bucket graph\<close>

text \<open>The assumption on the logarithm: at least one bucket, and no shift beyond 63.\<close>

definition log2_bounded :: "(nat \<Rightarrow> nat) \<Rightarrow> bool" where
  "log2_bounded log2_ceil \<longleftrightarrow> (\<forall>m\<ge>2. 1 \<le> log2_ceil m \<and> log2_ceil m \<le> 63)"

lemma bucket_parent_below:
  assumes node: "2 \<le> node" "node < 2 ^ 32" and m: "1 \<le> m" and nb: "1 \<le> nb" "nb \<le> 63"
  shows "\<exists>p. bucket_parent node m (node * m) nb r1 r2 = Inr p \<and> unat p < node"
proof -
  define b where "b = r1 mod nb + 1"
  define L where "L = min (node * m) (shl1 b)"
  define S where "S = max 2 (L div 2)"
  define D where "D = S + r2 mod (L - S + 1)"
  have "r1 mod nb < nb" using nb by simp
  then have b: "1 \<le> b" "b \<le> 63" using nb unfolding b_def by linarith+
  then have "(2::nat) \<le> shl1 b" using power_increasing [of 1 b "2::nat"] by (simp add: shl1_def)
  moreover have mg: "2 \<le> node * m" using node m by (metis mult_le_mono mult.right_neutral)
  ultimately have L: "2 \<le> L" "L \<le> node * m" by (auto simp: L_def)
  then have S: "2 \<le> S" "S \<le> L" by (auto simp: S_def)
  have "r2 mod (L - S + 1) < L - S + 1" by simp
  then have D: "2 \<le> D" "D \<le> node * m" using S L unfolding D_def by linarith+
  have lt: "(node * m - D) div m < node" using D m by (intro less_mult_imp_div_less) simp
  then have *: "(node * m - D) div m mod 2 ^ 32 = (node * m - D) div m" using node by simp
  have "bucket_parent node m (node * m) nb r1 r2 = Inr (of_nat ((node * m - D) div m))"
  proof -
    have "usub L S = Inr (L - S)" "usub (node * m) D = Inr (node * m - D)" "nb \<noteq> 0"
      using S D nb by simp_all
    then show ?thesis
      unfolding bucket_parent_def Let_def b_def [symmetric] L_def [symmetric] S_def [symmetric]
      using lt * by (simp only: bindR.simps D_def [symmetric] if_False) simp
  qed
  moreover have "unat (of_nat ((node * m - D) div m) :: u32) = (node * m - D) div m"
    using lt node by (simp add: unat_of_nat)
  ultimately show ?thesis using lt by simp
qed

definition predecessor_index :: "bucket_graph \<Rightarrow> nat" where
  "predecessor_index g = (case bg_api_version g of V1_0_0 \<Rightarrow> base_degree g - 1 | _ \<Rightarrow> 0)"

lemma collectR_exists:
  "(\<And>x. x \<in> set xs \<Longrightarrow> \<exists>y. f x = Inr y \<and> P y) \<Longrightarrow>
   \<exists>ys. collectR f xs = Inr ys \<and> length ys = length xs \<and> (\<forall>y\<in>set ys. P y)"
proof (induction xs)
  case (Cons x xs)
  obtain y where "f x = Inr y" "P y" using Cons.prems [of x] by auto
  moreover obtain ys where "collectR f xs = Inr ys" "length ys = length xs" "\<forall>y\<in>set ys. P y"
    using Cons by (metis list.set_intros(2))
  ultimately show ?case by simp
qed simp

lemma bucket_parents_below:
  assumes m: "2 \<le> base_degree g" and len: "base_degree g \<le> length parents" and node: "node < 2 ^ 32"
    and lg: "log2_bounded log2_ceil"
  shows "\<exists>ps. bucket_parents rng log2_ceil g node parents = Inr ps \<and> length ps = length parents \<and>
    drop (base_degree g) ps = drop (base_degree g) parents \<and>
    (\<forall>i<base_degree g. if node = 0 then ps ! i = 0 else unat (ps ! i) < node) \<and>
    (0 < node \<longrightarrow> ps ! predecessor_index g = of_nat (node - 1))"
proof (cases "node \<le> 1")
  case True
  moreover have "predecessor_index g < base_degree g" using m
    by (auto simp: predecessor_index_def split: api_version.split)
  moreover have "min (base_degree g) (length parents) = base_degree g" using len by simp
  ultimately show ?thesis using len
    by (cases "node = 0") (auto simp: bucket_parents_def Let_def nth_append)
next
  case False
  define m' where "m' = base_degree g - 1"
  define st where "st = (case bg_api_version g of V1_0_0 \<Rightarrow> (0 :: nat) | _ \<Rightarrow> 1)"
  define pre where "pre = predecessor_index g"
  have pst: "pre + st * m' = m'" "st \<le> 1" "pre = (if st = 0 then m' else 0)"
    by (auto simp: pre_def st_def predecessor_index_def m'_def split: api_version.split)
  have n32: "node mod 2 ^ 32 = node" using node by simp
  have bd: "base_degree g = Suc m'" using m by (simp add: m'_def)
  then have "1 \<le> m'" using m by simp
  then have "2 \<le> node * m'" using False mult_le_mono [of 2 node 1 m'] by simp
  then have nb: "1 \<le> log2_ceil (node * m')" "log2_ceil (node * m') \<le> 63"
    using lg by (auto simp: log2_bounded_def)
  define others where "others = (\<lambda>k. bucket_parent node m' (node * m') (log2_ceil (node * m'))
    (rng (bg_seed g @ le_of_word 4 (of_nat node :: u32)) (2 * k))
    (rng (bg_seed g @ le_of_word 4 (of_nat node :: u32)) (2 * k + 1)))"
  obtain os where os: "collectR others [0..<m'] = Inr os" "length os = m'" "\<forall>p\<in>set os. unat p < node"
    using collectR_exists [of "[0..<m']" others "\<lambda>p. unat p < node"]
      bucket_parent_below [OF _ node \<open>1 \<le> m'\<close> nb] False by (auto simp: others_def)
  define ps where "ps = (take st parents @ os @ drop (st + m') parents)[pre := of_nat (node - 1)]"
  have lens: "st + m' \<le> length parents" "pre < length parents" "min m' (length parents - st) = m'"
    using len pst(2,3) m by (auto simp: m'_def)
  have "bucket_parents rng log2_ceil g node parents = Inr ps"
    using False n32 os(1,2) lens
    by (cases "bg_api_version g")
      (simp_all add: bucket_parents_def Let_def ps_def others_def pre_def predecessor_index_def st_def bd)
  moreover have "length ps = length parents" using os lens by (simp add: ps_def)
  moreover have "ps ! pre = of_nat (node - 1)" using os lens by (simp add: ps_def)
  moreover have "drop (base_degree g) ps = drop (base_degree g) parents"
  proof -
    show ?thesis using bd os lens pst by (cases st) (auto simp: ps_def drop_update_swap)
  qed
  moreover have "unat (ps ! i) < node" if "i < base_degree g" for i
  proof (cases "i = pre")
    case True
    moreover have "unat (of_nat (node - 1) :: u32) = node - 1"
      by (subst unat_of_nat) (use node in simp)
    ultimately show ?thesis using \<open>ps ! pre = _\<close> False by simp
  next
    case i: False
    then have "st \<le> i" "i < st + m'" using that pst(2,3) m by (auto simp: m'_def split: if_splits)
    moreover from this have "i - st < m'" by linarith
    ultimately have "ps ! i = os ! (i - st)" using i os lens by (simp add: ps_def nth_append)
    then show ?thesis using os(2,3) \<open>i - st < m'\<close> by simp
  qed
  ultimately show ?thesis using False by (intro exI [of _ ps]) (auto simp: pre_def)
qed

section \<open>The expander\<close>

lemma card_fibre:
  assumes "bij_betw \<pi> {..<d * n} {..<d * n}" and "t < n" and "0 < d"
  shows "card {k. k < d * n \<and> \<pi> k div d = t} = d"
proof -
  let ?A = "{k. k < d * n \<and> \<pi> k div d = t}"
  have img: "\<pi> ` {..<d * n} = {..<d * n}" using assms(1) by (rule bij_betw_imp_surj_on)
  have "\<pi> ` ?A = {y. y < d * n \<and> y div d = t}"
  proof (intro subset_antisym subsetI)
    fix y assume "y \<in> \<pi> ` ?A"
    then show "y \<in> {y. y < d * n \<and> y div d = t}" using img by blast
  next
    fix y assume y: "y \<in> {y. y < d * n \<and> y div d = t}"
    then obtain k where "k < d * n" "\<pi> k = y" using img by (metis (lifting) imageE lessThan_iff mem_Collect_eq)
    then show "y \<in> \<pi> ` ?A" using y by blast
  qed
  also have "\<dots> = {d * t..<d * t + d}"
  proof -
    have "d * t + d \<le> d * n" using assms(2) by (metis Suc_leI mult_Suc_right mult_le_mono2 add.commute)
    moreover have "y div d = t \<longleftrightarrow> d * t \<le> y \<and> y < d * t + d" for y
    proof
      assume "y div d = t"
      then have "d * t + y mod d = y" using mult_div_mod_eq [of d y] by simp
      then show "d * t \<le> y \<and> y < d * t + d"
        using mod_less_divisor [OF assms(3), of y] by linarith
    next
      assume "d * t \<le> y \<and> y < d * t + d"
      then show "y div d = t" by (intro div_nat_eqI) simp_all
    qed
    ultimately show ?thesis
      by (intro set_eqI, simp only: mem_Collect_eq atLeastLessThan_iff, linarith)
  qed
  finally have "card (\<pi> ` ?A) = d" by simp
  moreover have "inj_on \<pi> ?A" using assms(1) by (rule bij_betw_imp_inj_on [THEN inj_on_subset]) auto
  ultimately show ?thesis by (simp add: card_image)
qed

text \<open>What \<open>stacked_graph_new\<close> establishes.\<close>

definition graph_ok :: "stacked_graph \<Rightarrow> nat \<Rightarrow> bool" where
  "graph_ok g nodes \<longleftrightarrow> graph_size g = nodes \<and> nodes < 2 ^ 32 \<and> expansion_degree g = 8 \<and>
     length (feistel_keys g) = 4 \<and> precompute (of_nat (8 * nodes)) = Some (feistel_pre g) \<and>
     base_degree (base_graph g) = 6"

lemma of_nat_le_62: "m < 2 ^ 35 \<Longrightarrow> (of_nat m :: u64) \<le> 2 ^ 62"
  by (simp add: word_le_nat_alt unat_of_nat unat_2p)

lemma stacked_graph_new_ok:
  assumes "nodes < 2 ^ 32"
  shows "\<exists>g. stacked_graph_new sha256 None nodes BASE_DEGREE EXP_DEGREE porep_id v = Some (Inr g) \<and>
    graph_ok g nodes \<and> sg_api_version g = v \<and> bg_api_version (base_graph g) = v"
proof -
  have "(of_nat (8 * nodes) :: u64) \<le> 2 ^ 62" using assms by (intro of_nat_le_62) simp
  then obtain pre where "precompute (of_nat (8 * nodes)) = Some pre"
    using precompute_masks_of by metis
  moreover have "nodes * 5 \<le> 2 ^ 54" using assms by simp
  ultimately show ?thesis using assms
    by (simp add: stacked_graph_new_def bucket_graph_new_def graph_ok_def graph_size_def EXP_DEGREE_def
        BASE_DEGREE_def derive_feistel_keys_def)
qed

definition slot :: "(u8 list \<Rightarrow> u8 list) \<Rightarrow> stacked_graph \<Rightarrow> nat \<Rightarrow> nat" where
  "slot b2b g k = unat (the (permute b2b (of_nat (8 * graph_size g)) (of_nat k) (feistel_keys g) (feistel_pre g)))"

lemma slot_bij:
  assumes "graph_ok g n"
  shows "bij_betw (slot b2b g) {..<8 * n} {..<8 * n}"
    and "k < 8 * n \<Longrightarrow> permute b2b (of_nat (8 * n)) (of_nat k) (feistel_keys g) (feistel_pre g) =
      Some (of_nat (slot b2b g k))"
proof -
  let ?N = "of_nat (8 * n) :: u64"
  have n: "8 * n < 2 ^ 35" "graph_size g = n" using assms by (auto simp: graph_ok_def)
  have le: "?N \<le> 2 ^ 62" using n(1) by (rule of_nat_le_62)
  have keys: "3 \<le> length (feistel_keys g)" "precompute ?N = Some (feistel_pre g)"
    using assms by (auto simp: graph_ok_def)
  have u: "unat (of_nat k :: u64) = k" if "k < 8 * n" for k
    using that n by (simp add: unat_of_nat)
  have uN: "unat ?N = 8 * n" by (subst unat_of_nat) (use n in simp)
  have lt: "(of_nat k :: u64) < ?N" if "k < 8 * n" for k
    using that unfolding word_less_nat_alt u [OF that] uN .
  let ?p = "\<lambda>i. the (permute b2b ?N i (feistel_keys g) (feistel_pre g))"
  have bij: "bij_betw ?p {..<?N} {..<?N}" by (rule permute_bij_betw [OF le keys])
  have nat_bij: "bij_betw unat {..<?N} {..<8 * n}"
    unfolding bij_betw_def
  proof
    show "inj_on unat {..<?N}" by (simp add: inj_on_def word_unat_eq_iff)
    show "unat ` {..<?N} = {..<8 * n}"
    proof
      show "unat ` {..<?N} \<subseteq> {..<8 * n}" by (auto simp: word_less_nat_alt uN [simplified])
      show "{..<8 * n} \<subseteq> unat ` {..<?N}"
        using lt u by (metis image_eqI lessThan_iff subsetI)
    qed
  qed
  have of_bij: "bij_betw (of_nat :: nat \<Rightarrow> u64) {..<8 * n} {..<?N}"
    using lt u by (intro bij_betw_byWitness [where f' = unat]) (auto simp: word_less_nat_alt uN [simplified])
  have "slot b2b g = unat \<circ> (?p \<circ> of_nat)" by (simp add: fun_eq_iff slot_def n)
  then show "bij_betw (slot b2b g) {..<8 * n} {..<8 * n}"
    using bij_betw_trans [OF bij_betw_trans [OF of_bij bij] nat_bij] by simp
  show "permute b2b ?N (of_nat k) (feistel_keys g) (feistel_pre g) = Some (of_nat (slot b2b g k))" if kn: "k < 8 * n"
  proof -
    obtain y where "permute b2b ?N (of_nat k) (feistel_keys g) (feistel_pre g) = Some y"
      by (rule permute_in_range [OF le keys lt [OF kn], of b2b])
    then show ?thesis by (simp add: slot_def n)
  qed
qed

lemma correspondent_eq:
  assumes "graph_ok g n" and "sg_api_version g \<noteq> V1_0_0" and "node < n" and "i < 8"
  shows "correspondent b2b g node i = Some (Inr (of_nat (slot b2b g (8 * node + i) div 8)))"
    and "slot b2b g (8 * node + i) div 8 < n"
proof -
  have k: "8 * node + i < 8 * n" using assms(3,4) by simp
  have s: "slot b2b g (8 * node + i) < 8 * n"
    using slot_bij(1) [OF assms(1), of b2b] k by (meson bij_betwE lessThan_iff)
  then show lt: "slot b2b g (8 * node + i) div 8 < n" by (intro less_mult_imp_div_less) simp
  have n: "n < 2 ^ 32" "graph_size g = n" "expansion_degree g = 8" using assms(1) by (auto simp: graph_ok_def)
  have e: "of_nat n * of_nat 8 = (of_nat (8 * n) :: u64)" "of_nat (node * 8) + of_nat i = (of_nat (8 * node + i) :: u64)"
    by (simp_all add: mult.commute)
  have q: "(of_nat (slot b2b g (8 * node + i)) :: u64) div of_nat 8 = of_nat (slot b2b g (8 * node + i) div 8)"
    using s n by (simp add: word_unat_eq_iff unat_div unat_of_nat)
  have "unat (of_nat (slot b2b g (8 * node + i) div 8) :: u64) < 2 ^ 32" using lt n by (simp add: unat_of_nat)
  moreover have "(ucast (of_nat (slot b2b g (8 * node + i) div 8) :: u64) :: u32) = of_nat (slot b2b g (8 * node + i) div 8)"
    using lt n by (simp add: word_unat_eq_iff unat_of_nat unsigned_ucast_eq unsigned_of_nat take_bit_eq_mod)
  moreover have P: "permute b2b (of_nat n * of_nat 8) (of_nat (node * 8) + of_nat i) (feistel_keys g) (feistel_pre g) =
      Some (of_nat (slot b2b g (8 * node + i)))"
    unfolding e by (rule slot_bij(2) [OF assms(1) k])
  ultimately show "correspondent b2b g node i = Some (Inr (of_nat (slot b2b g (8 * node + i) div 8)))"
    unfolding correspondent_def Let_def n(2,3) P option.map(2) q
    using assms(2) by (cases "sg_api_version g") simp_all
qed

lemma in_degree:
  assumes "graph_ok g n" and "sg_api_version g \<noteq> V1_0_0" and "t < n"
  shows "card {(node, i). node < n \<and> i < 8 \<and> correspondent b2b g node i = Some (Inr (of_nat t))} = 8"
proof -
  let ?A = "{(node, i). node < n \<and> i < 8 \<and> correspondent b2b g node i = Some (Inr (of_nat t))}"
  let ?B = "{k. k < 8 * n \<and> slot b2b g k div 8 = t}"
  have n: "n < 2 ^ 32" using assms(1) by (simp add: graph_ok_def)
  have key: "correspondent b2b g node i = Some (Inr (of_nat t)) \<longleftrightarrow> slot b2b g (8 * node + i) div 8 = t"
    if "node < n" "i < 8" for node i
  proof -
    have inj: "(of_nat a :: u32) = of_nat b \<longleftrightarrow> a = b" if "a < n" "b < n" for a b
      using that n by (simp add: word_unat_eq_iff unat_of_nat)
    show ?thesis using correspondent_eq [OF assms(1,2) that, of b2b] inj assms(3) by simp
  qed
  have "bij_betw (\<lambda>(node, i). 8 * node + i) ?A ?B"
  proof (rule bij_betw_byWitness [where f' = "\<lambda>k. (k div 8, k mod 8)"])
    show "\<forall>a\<in>?A. (\<lambda>k. (k div 8, k mod 8)) (case a of (node, i) \<Rightarrow> 8 * node + i) = a" by auto
    show "\<forall>k\<in>?B. (case (k div 8, k mod 8) of (node, i) \<Rightarrow> 8 * node + i) = k" by auto
    show "(\<lambda>(node, i). 8 * node + i) ` ?A \<subseteq> ?B" using key by auto
    show "(\<lambda>k. (k div 8, k mod 8)) ` ?B \<subseteq> ?A"
    proof
      fix x assume "x \<in> (\<lambda>k. (k div 8, k mod 8)) ` ?B"
      then obtain k where k: "x = (k div 8, k mod 8)" "k < 8 * n" "slot b2b g k div 8 = t" by blast
      have "k div 8 < n" using k(2) by (intro less_mult_imp_div_less) simp
      then show "x \<in> ?A" using k key [of "k div 8" "k mod 8"] by simp
    qed
  qed
  then have "card ?A = card ?B" by (rule bij_betw_same_card)
  then show ?thesis using card_fibre [OF slot_bij(1) [OF assms(1)] assms(3), of b2b] by simp
qed

lemma legacy_parent:
  assumes "graph_ok g n" and "sg_api_version g = V1_0_0" and "correspondent b2b g node i = Some (Inr p)"
  shows "unat p < 2 ^ 29"
proof -
  obtain w :: u64 where "p = ucast w div of_nat 8"
    using assms by (auto simp: correspondent_def Let_def graph_ok_def)
  moreover have "unat (ucast w :: u32) < 2 ^ 32" using unsigned_less [of "ucast w :: u32"] by simp
  then have "unat (ucast w :: u32) div 8 < 2 ^ 29" by (intro less_mult_imp_div_less) simp
  ultimately show ?thesis by (simp add: unat_div)
qed

section \<open>Hashing the parents\<close>

text \<open>The node that a parent index selects in a layer.\<close>

definition node_of :: "u8 list \<Rightarrow> u32 \<Rightarrow> u8 list" where
  "node_of layer p = take 32 (drop (32 * unat p) layer)"

definition parents_in :: "u32 list \<Rightarrow> u8 list \<Rightarrow> bool" where
  "parents_in ps layer \<longleftrightarrow> (\<forall>p\<in>set ps. 32 * unat p + 32 \<le> length layer)"

lemma length_node_of: "32 * unat p + 32 \<le> length layer \<Longrightarrow> length (node_of layer p) = 32"
  by (simp add: node_of_def)

lemma read_nodes:
  assumes "length ps = b" and "parents_in (drop a ps) layer"
  shows "collectR (\<lambda>i. read_node i ps layer) [a..<b] = Inr (map (node_of layer) (drop a ps))"
proof -
  have "collectR (\<lambda>i. read_node i ps layer) [a..<b] = Inr (map (\<lambda>i. node_of layer (ps ! i)) [a..<b])"
  proof (rule collectR_all_ok)
    fix i assume i: "i \<in> set [a..<b]"
    then have "ps ! i \<in> set (drop a ps)" using assms(1)
      by (auto simp: in_set_conv_nth intro!: exI [of _ "i - a"])
    then have "32 * unat (ps ! i) + 32 \<le> length layer" using assms(2) by (simp add: parents_in_def)
    then show "read_node i ps layer = Inr (node_of layer (ps ! i))" using i assms(1)
      by (simp add: read_node_def NODE_SIZE_def node_of_def mult.commute)
  qed
  also have "map (\<lambda>i. node_of layer (ps ! i)) [a..<b] = map (node_of layer) (drop a ps)"
    using assms(1) by (intro nth_equalityI) simp_all
  finally show ?thesis .
qed

lemma read_nodes_prefix:
  assumes "b \<le> length ps" and "parents_in (take b ps) layer"
  shows "collectR (\<lambda>i. read_node i ps layer) [0..<b] = Inr (map (node_of layer) (take b ps))"
proof -
  have "collectR (\<lambda>i. read_node i ps layer) [0..<b] = collectR (\<lambda>i. read_node i (take b ps) layer) [0..<b]"
    using assms(1) by (intro collectR_cong) (auto simp: read_node_def)
  then show ?thesis using read_nodes [of "take b ps" b 0 layer] assms by simp
qed

lemma input_nodes:
  assumes "absorbed s msg" and "\<forall>b\<in>set bs. length b = 32" and "even (length bs)"
  obtains s' where "sha256_input s bs = Inr s'" "absorbed s' (msg @ concat bs)"
  using absorbed_input [OF assms(1), of bs] assms(2,3) by (auto simp: blocks_ok_def)

lemma copy_parents_inner:
  assumes ab: "absorbed s msg" and "length ps = 6" and "parents_in ps base"
  shows "copy_parents_data_inner ps base s =
    Inr (fips_sha256 (msg @ concat (take 37 (concat (replicate 7 (map (node_of base) ps))))))"
proof -
  let ?P = "map (node_of base) ps"
  have P: "\<forall>b\<in>set ?P. length b = 32" "even (length ?P)" "length ?P = 6"
    using assms(2,3) by (auto simp: parents_in_def length_node_of)
  note inp = input_nodes [OF _ P(1,2)]
  obtain s1 where s1: "sha256_input s ?P = Inr s1" "absorbed s1 (msg @ concat ?P)" by (rule inp [OF ab])
  obtain s2 where s2: "sha256_input s1 ?P = Inr s2" "absorbed s2 ((msg @ concat ?P) @ concat ?P)" by (rule inp [OF s1(2)])
  obtain s3 where s3: "sha256_input s2 ?P = Inr s3" "absorbed s3 (((msg @ concat ?P) @ concat ?P) @ concat ?P)" by (rule inp [OF s2(2)])
  obtain s4 where s4: "sha256_input s3 ?P = Inr s4" "absorbed s4 ((((msg @ concat ?P) @ concat ?P) @ concat ?P) @ concat ?P)" by (rule inp [OF s3(2)])
  obtain s5 where s5: "sha256_input s4 ?P = Inr s5" "absorbed s5 (((((msg @ concat ?P) @ concat ?P) @ concat ?P) @ concat ?P) @ concat ?P)" by (rule inp [OF s4(2)])
  obtain s6 where s6: "sha256_input s5 ?P = Inr s6" "absorbed s6 ((((((msg @ concat ?P) @ concat ?P) @ concat ?P) @ concat ?P) @ concat ?P) @ concat ?P)" by (rule inp [OF s5(2)])
  have "length (?P ! 0) = 32" using P by (metis nth_mem zero_less_numeral)
  note fin = absorbed_finish_with [OF s6(2) this]
  have "collectR (\<lambda>i. read_node i ps base) [0..<6] = Inr ?P"
    using read_nodes [of ps 6 0 base] assms by simp
  then have "copy_parents_data_inner ps base s = sha256_finish_with s6 (?P ! 0)"
    unfolding copy_parents_data_inner_def by (simp only: bindR.simps s1(1) s2(1) s3(1) s4(1) s5(1) s6(1))
  moreover obtain p0 rest where "?P = p0 # rest" "length rest = 5" using P(3) by (cases ?P) auto
  ultimately show ?thesis unfolding fin by (simp add: eval_nat_numeral)
qed

lemma take_37_of_14:
  assumes "length P = 14"
  shows "take 37 (P @ P @ P) = P @ P @ take 8 P @ [P ! 8]"
  using assms take_Suc_conv_app_nth [of 8 P] by simp

lemma copy_parents_inner_exp:
  assumes ab: "absorbed s msg" and "length ps = 14" and "parents_in (take 6 ps) base" and "parents_in (drop 6 ps) exp"
  shows "copy_parents_data_inner_exp ps base exp s = Inr (fips_sha256 (msg @
    concat (take 37 (concat (replicate 3 (map (node_of base) (take 6 ps) @ map (node_of exp) (drop 6 ps)))))))"
proof -
  let ?P = "map (node_of base) (take 6 ps) @ map (node_of exp) (drop 6 ps)"
  have P: "\<forall>b\<in>set ?P. length b = 32" "even (length ?P)" "length ?P = 14"
    using assms(2-4) by (auto simp: parents_in_def length_node_of)
  have "?P ! 8 \<in> set ?P" by (rule nth_mem) (simp only: P(3))
  then have P8: "\<forall>b\<in>set (take 8 ?P). length b = 32" "length (take 8 ?P) = 8" "length (?P ! 8) = 32"
    using P(1,3) by (auto dest!: in_set_takeD simp del: length_map)
  note inp = input_nodes [OF _ P(1,2)]
  obtain s1 where s1: "sha256_input s ?P = Inr s1" "absorbed s1 (msg @ concat ?P)" by (rule inp [OF ab])
  obtain s2 where s2: "sha256_input s1 ?P = Inr s2" "absorbed s2 ((msg @ concat ?P) @ concat ?P)" by (rule inp [OF s1(2)])
  obtain s3 where s3: "sha256_input s2 (take 8 ?P) = Inr s3" "absorbed s3 (((msg @ concat ?P) @ concat ?P) @ concat (take 8 ?P))"
    by (rule input_nodes [OF s2(2) P8(1)]) (simp only: P8(2) even_numeral)
  note fin = absorbed_finish_with [OF s3(2) P8(3)]
  have "copy_parents_data_inner_exp ps base exp s = sha256_finish_with s3 (?P ! 8)"
    unfolding copy_parents_data_inner_exp_def
    using read_nodes_prefix [of 6 ps base] read_nodes [of ps 14 6 exp] assms(2-4)
    by (simp only: bindR.simps s1(1) s2(1) s3(1) Let_def)
  moreover have "concat (replicate 3 ?P) = ?P @ ?P @ ?P" by (simp add: eval_nat_numeral)
  moreover note take_37_of_14 [OF P(3)]
  ultimately show ?thesis unfolding fin by (simp only: concat_append append_assoc) simp
qed

section \<open>Properties\<close>

text \<open>
  C25. The bucket graph is topologically ordered: for every generator, every node and a
  buffer of at least the degree, \<open>parents\<close> succeeds, every parent of a node is smaller than
  the node (node 0 is its own parent), the immediate predecessor is at the
  place the API version fixes, and the rest of the buffer is not touched.
\<close>
theorem bucket_parents_topological:
  assumes "2 \<le> base_degree g" and "base_degree g \<le> length parents" and "node < 2 ^ 32"
    and "log2_bounded log2_ceil"
  shows "\<exists>ps. bucket_parents rng log2_ceil g node parents = Inr ps \<and> length ps = length parents \<and>
    drop (base_degree g) ps = drop (base_degree g) parents \<and>
    (\<forall>i<base_degree g. if node = 0 then ps ! i = 0 else unat (ps ! i) < node) \<and>
    (0 < node \<longrightarrow> ps ! predecessor_index g = of_nat (node - 1))"
  using assms by (rule bucket_parents_below)

theorem bucket_parents_topological_witness:
  "\<exists>ps. bucket_parents (\<lambda>seed i. 7 * i) (\<lambda>m. min 63 (max 1 m))
     \<lparr>bg_nodes = 64, base_degree = 6, bg_seed = replicate 28 1, bg_api_version = V1_1_0\<rparr>
     9 (replicate 14 0) = Inr ps \<and> ps ! 0 = 8"
  using bucket_parents_topological [of "\<lparr>bg_nodes = 64, base_degree = 6, bg_seed = replicate 28 1,
      bg_api_version = V1_1_0\<rparr>" "replicate 14 0" 9 "\<lambda>m. min 63 (max 1 m)" "\<lambda>seed i. 7 * i"]
  by (auto simp: log2_bounded_def predecessor_index_def)

text \<open>
  C29. The expander edges are regular: in the graph of every sector of fewer than \<open>2^32\<close>
  nodes, after API version 1.0.0, every node has eight parents inside the sector and every
  node is the parent of exactly eight (node, index) pairs, because the Feistel walk is a permutation.
\<close>
theorem expander_regular:
  assumes "nodes < 2 ^ 32" and "v \<noteq> V1_0_0"
  shows "\<exists>g. stacked_graph_new sha256 None nodes BASE_DEGREE EXP_DEGREE porep_id v = Some (Inr g) \<and>
    (\<forall>node i. node < nodes \<longrightarrow> i < 8 \<longrightarrow>
       (\<exists>p. correspondent b2b g node i = Some (Inr p) \<and> unat p < nodes)) \<and>
    (\<forall>t. t < nodes \<longrightarrow>
       card {(node, i). node < nodes \<and> i < 8 \<and> correspondent b2b g node i = Some (Inr (of_nat t))} = 8)"
proof -
  obtain g where g: "stacked_graph_new sha256 None nodes BASE_DEGREE EXP_DEGREE porep_id v = Some (Inr g)"
    "graph_ok g nodes" "sg_api_version g \<noteq> V1_0_0"
    using stacked_graph_new_ok [OF assms(1)] assms(2) by metis
  have "\<exists>p. correspondent b2b g node i = Some (Inr p) \<and> unat p < nodes" if "node < nodes" "i < 8" for node i
    using correspondent_eq [OF g(2,3) that, of b2b] assms(1) by (simp add: unat_of_nat)
  then show ?thesis using g(1) in_degree [OF g(2,3)] by blast
qed

theorem expander_regular_witness:
  "\<exists>g. stacked_graph_new (\<lambda>_. replicate 32 1) None 64 BASE_DEGREE EXP_DEGREE [] V1_2_0 = Some (Inr g) \<and>
    card {(node, i). node < 64 \<and> i < 8 \<and>
      correspondent (\<lambda>_. replicate 8 3) g node i = Some (Inr (of_nat 5))} = 8"
proof -
  have 64: "(64::nat) < 2 ^ 32" "V1_2_0 \<noteq> V1_0_0" by simp_all
  obtain g where g: "stacked_graph_new (\<lambda>_. replicate 32 1) None 64 BASE_DEGREE EXP_DEGREE [] V1_2_0 = Some (Inr g)"
    "\<forall>t. t < 64 \<longrightarrow> card {(node, i). node < 64 \<and> i < 8 \<and>
       correspondent (\<lambda>_. replicate 8 3) g node i = Some (Inr (of_nat t))} = 8"
    using expander_regular [OF 64, of "\<lambda>_. replicate 32 1" "[]" "\<lambda>_. replicate 8 3"] by (elim exE conjE) (rule that)
  from g(2) have "card {(node, i). node < 64 \<and> i < 8 \<and>
       correspondent (\<lambda>_. replicate 8 3) g node i = Some (Inr (of_nat 5))} = 8"
    by (rule allE [where x = 5]) (erule mp, simp)
  with g(1) show ?thesis by (intro exI [of _ g] conjI)
qed

text \<open>
  The pathology of API version 1.0.0: the shuffled position is cut to 32 bits before it
  is divided by the degree, so no expander parent is ever beyond node \<open>2^29\<close>, whatever the
  size of the sector.
\<close>
theorem legacy_expander_bounded:
  assumes "stacked_graph_new sha256 None nodes BASE_DEGREE EXP_DEGREE porep_id V1_0_0 = Some (Inr g)"
    and "nodes < 2 ^ 32" and "correspondent b2b g node i = Some (Inr p)"
  shows "unat p < 2 ^ 29"
  using stacked_graph_new_ok [OF assms(2), of sha256 porep_id V1_0_0] assms(1,3) legacy_parent by auto

theorem legacy_expander_bounded_witness:
  "\<exists>g p. stacked_graph_new (\<lambda>_. replicate 32 1) None (2 ^ 31) BASE_DEGREE EXP_DEGREE [] V1_0_0 = Some (Inr g) \<and>
     correspondent (\<lambda>_. replicate 8 3) g 5 1 = Some (Inr p) \<and> unat p < 2 ^ 29"
proof -
  have n: "(2::nat) ^ 31 < 2 ^ 32" by simp
  obtain g where g: "stacked_graph_new (\<lambda>_. replicate 32 1) None (2 ^ 31) BASE_DEGREE EXP_DEGREE [] V1_0_0 = Some (Inr g)"
    "graph_ok g (2 ^ 31)" "sg_api_version g = V1_0_0" using stacked_graph_new_ok [OF n] by metis
  have "graph_size g = 2 ^ 31" "expansion_degree g = 8" using g(2) by (auto simp: graph_ok_def)
  then obtain p where p: "correspondent (\<lambda>_. replicate 8 3) g 5 1 = Some (Inr p)"
    using slot_bij(2) [OF g(2), of 41 "\<lambda>_. replicate 8 3"] g(3) by (simp add: correspondent_def)
  show ?thesis using g(1) p legacy_expander_bounded [OF g(1) n p] by blast
qed

text \<open>
  Hashing the parents: on a hasher that has absorbed a message, both layer functions give
  the SHA-256 hash of the message followed by 37 parent nodes, the 6 (or 14) parents
  repeated in order; in a later layer the expander parents are read from the layer before.
\<close>
theorem parents_hash:
  assumes "absorbed s msg" and "length ps = 14" and "parents_in (take 6 ps) base" and "parents_in (drop 6 ps) exp"
  shows "copy_parents_data_inner (take 6 ps) base s =
      Inr (fips_sha256 (msg @ concat (take 37 (concat (replicate 7 (map (node_of base) (take 6 ps))))))) \<and>
    copy_parents_data_inner_exp ps base exp s = Inr (fips_sha256 (msg @
      concat (take 37 (concat (replicate 3 (map (node_of base) (take 6 ps) @ map (node_of exp) (drop 6 ps)))))))"
  using copy_parents_inner [OF assms(1) _ assms(3)] copy_parents_inner_exp [OF assms] assms(2) by simp

theorem parents_hash_witness:
  "\<exists>h. copy_parents_data_inner_exp (replicate 14 1) (replicate 96 5) (replicate 96 6) sha256_new = Inr h"
proof -
  have "parents_in (take 6 (replicate 14 1)) (replicate 96 5)" "parents_in (drop 6 (replicate 14 1)) (replicate 96 6)"
    by (simp_all add: parents_in_def)
  then show ?thesis using parents_hash [OF absorbed_new, of "replicate 14 1"] by auto
qed

end
