(* ===== verification/Parent_Cache.thy ===== *)
theory Parent_Cache
  imports Stacked_Graph
begin

text \<open>
  The parent cache of \<open>storage-proofs-porep/src/stacked/vanilla/cache.rs\<close>: a file with the
  14 parents of every node, of which a window is mapped into memory. The file is its
  contents; a mapping is the part of the contents it covers, and reading outside of it is a
  panic. \<open>u32\<close> sums of offsets are \<open>nat\<close>: they stay below the number of nodes. The
  manifest of digests, its hash and the state of the disk (whether the file exists, its
  contents) are arguments; locks and logging are left out.
\<close>

section \<open>The code\<close>

definition NODE_BYTES :: nat where "NODE_BYTES = 4"

record cache_data =
  cd_data :: "u8 list"
  cd_offset :: nat
  cd_len :: nat
  cd_file :: "u8 list"

definition map_file :: "u8 list \<Rightarrow> nat \<Rightarrow> nat \<Rightarrow> u8 list" where
  "map_file file offset len = take len (drop offset file)"

definition cd_shift :: "nat \<Rightarrow> cache_data \<Rightarrow> cache_data" where
  "cd_shift new_offset c =
     (if cd_offset c = new_offset then c
      else c\<lparr>cd_data := map_file (cd_file c) (new_offset * DEGREE * NODE_BYTES) (cd_len c * DEGREE * NODE_BYTES),
             cd_offset := new_offset\<rparr>)"

definition cd_contains :: "cache_data \<Rightarrow> nat \<Rightarrow> bool" where
  "cd_contains c node \<longleftrightarrow> cd_offset c \<le> node \<and> node < cd_offset c + cd_len c"

definition read_u32s :: "u8 list \<Rightarrow> u32 list" where
  "read_u32s bs = map word_of_le (chunks 4 bs)"

definition cd_read :: "cache_data \<Rightarrow> nat \<Rightarrow> u32 list res" where
  "cd_read c node =
     (if cd_offset c \<le> node
      then let start = (node - cd_offset c) * DEGREE * NODE_BYTES; end' = start + DEGREE * NODE_BYTES
           in bindR (slice (cd_data c) start end') (\<lambda>bs. Inr (read_u32s bs))
      else Inl (Panic ''node not in cache''))"

definition cd_reset :: "cache_data \<Rightarrow> cache_data" where
  "cd_reset c = (if cd_offset c = 0 then c else cd_shift 0 c)"

definition cd_open :: "nat \<Rightarrow> nat \<Rightarrow> u8 list \<Rightarrow> cache_data res" where
  "cd_open offset len file =
     (let min_cache_size = (offset + len) * DEGREE * NODE_BYTES
      in if length file < min_cache_size then Inl (Fail ''corrupted cache'')
         else Inr \<lparr>cd_data = map_file file (offset * DEGREE * NODE_BYTES) (len * DEGREE * NODE_BYTES),
                   cd_offset = offset, cd_len = len, cd_file = file\<rparr>)"

record parent_cache =
  num_cache_entries :: nat
  pc_cache :: cache_data
  pc_sector_size :: nat
  pc_digest :: string

definition pcache_read :: "nat \<Rightarrow> parent_cache \<Rightarrow> (parent_cache \<times> u32 list) res" where
  "pcache_read node pc =
     (let c = pc_cache pc in
      if cd_contains c node then bindR (cd_read c node) (\<lambda>ps. Inr (pc, ps))
      else ensure (cd_offset c + cd_len c \<le> node) ''cache must be read in ascending order''
        (bindR (usub (num_cache_entries pc) (cd_len c)) (\<lambda>last.
           let new_offset = min last (cd_offset c + cd_len c);
               c' = cd_shift new_offset c
           in bindR (cd_read c' node) (\<lambda>ps. Inr (pc\<lparr>pc_cache := c'\<rparr>, ps)))))"

definition pcache_reset :: "parent_cache \<Rightarrow> parent_cache" where
  "pcache_reset pc = pc\<lparr>pc_cache := cd_reset (pc_cache pc)\<rparr>"

text \<open>
  The contents that \<open>generate\<close> writes: entry \<open>node\<close> holds the parents of that node in
  little-endian order; \<open>parents\<close> gives them or the error of the graph.
\<close>

definition write_u32s :: "u32 list \<Rightarrow> u8 list" where
  "write_u32s ws = concat (map (le_of_word 4) ws)"

definition cache_contents :: "(nat \<Rightarrow> u32 list res) \<Rightarrow> nat \<Rightarrow> u8 list res" where
  "cache_contents parents cache_entries =
     bindR (collectR (\<lambda>node. bindR (parents node) (\<lambda>ps. Inr (write_u32s ps))) [0..<cache_entries])
       (\<lambda>entries. Inr (concat entries))"

text \<open>\<open>write!(output, "{:01$x}", x, 2)\<close> for every byte: two lower-case hex digits each.\<close>

definition hex_digit :: "nat \<Rightarrow> char" where
  "hex_digit d = (if d < 10 then char_of (48 + d) else char_of (87 + d))"

definition digest_hex :: "u8 list \<Rightarrow> string" where
  "digest_hex hash = concat (map (\<lambda>x. [hex_digit (unat x div 16), hex_digit (unat x mod 16)]) hash)"

text \<open>The result is the cache and the contents of the file; \<open>manifest\<close> is the digest listed for the path.\<close>

definition generate ::
  "(u8 list \<Rightarrow> u8 list) \<Rightarrow> string option \<Rightarrow> (nat \<Rightarrow> u32 list res) \<Rightarrow> nat \<Rightarrow> nat \<Rightarrow> nat \<Rightarrow>
   (parent_cache \<times> u8 list) res" where
  "generate sha256 manifest parents nodes len cache_entries =
     bindR (cache_contents parents cache_entries) (\<lambda>file.
       let digest = digest_hex (sha256 file) in
       ensure (case manifest of None \<Rightarrow> True | Some d \<Rightarrow> digest = d) ''Newly generated parent cache is invalid''
         (bindR (cd_open 0 len file) (\<lambda>c.
            Inr (\<lparr>num_cache_entries = cache_entries, pc_cache = c, pc_sector_size = nodes * NODE_SIZE,
                  pc_digest = digest\<rparr>, file))))"

definition open_cache ::
  "(u8 list \<Rightarrow> u8 list) \<Rightarrow> string option \<Rightarrow> bool \<Rightarrow> (nat \<Rightarrow> u32 list res) \<Rightarrow> nat \<Rightarrow> nat \<Rightarrow> nat \<Rightarrow> u8 list \<Rightarrow>
   (parent_cache \<times> u8 list) res" where
  "open_cache sha256 manifest verify_cache parents nodes len cache_entries file =
     (let listed = (case manifest of None \<Rightarrow> [] | Some d \<Rightarrow> d);
          digest = (if verify_cache then digest_hex (sha256 file) else listed)
      in bindR
        (if verify_cache \<and> manifest \<noteq> None \<and> digest \<noteq> listed
         then (case generate sha256 manifest parents nodes len nodes of
                 Inl (Panic m) \<Rightarrow> Inl (Panic m)
               | Inl (Fail m) \<Rightarrow> Inl (Fail ''Failed to generate parent cache'')
               | Inr (_, file') \<Rightarrow> Inr file')
         else Inr file) (\<lambda>file'.
        bindR (cd_open 0 len file') (\<lambda>c.
          Inr (\<lparr>num_cache_entries = cache_entries, pc_cache = c, pc_sector_size = nodes * NODE_SIZE,
                pc_digest = digest\<rparr>, file'))))"

text \<open>\<open>ParentCache::new\<close>: \<open>None\<close> is a missing file.\<close>

definition parent_cache_new ::
  "(u8 list \<Rightarrow> u8 list) \<Rightarrow> string option \<Rightarrow> bool \<Rightarrow> (nat \<Rightarrow> u32 list res) \<Rightarrow> nat \<Rightarrow> nat \<Rightarrow> nat \<Rightarrow> u8 list option \<Rightarrow>
   (parent_cache \<times> u8 list) res" where
  "parent_cache_new sha256 manifest verify_cache parents nodes len cache_entries disk =
     (case disk of
        Some file \<Rightarrow> open_cache sha256 manifest verify_cache parents nodes len cache_entries file
      | None \<Rightarrow> generate sha256 manifest parents nodes len cache_entries)"

section \<open>Reading\<close>

lemma DEGREE_14: "DEGREE = 14"
  by (simp add: DEGREE_def BASE_DEGREE_def EXP_DEGREE_def)

lemma length_write_u32s [simp]: "length (write_u32s ws) = 4 * length ws"
  by (induction ws) (auto simp: write_u32s_def)

lemma read_write_u32s: "read_u32s (write_u32s ws) = ws"
proof (induction ws)
  case (Cons w ws)
  have "write_u32s (w # ws) = le_of_word 4 w @ write_u32s ws" by (simp add: write_u32s_def)
  then show ?case using Cons by (simp add: read_u32s_def chunks_append word_of_le_of_word)
qed (simp add: read_u32s_def write_u32s_def)

lemma concat_slice:
  "(\<And>x. x \<in> set xss \<Longrightarrow> length x = n) \<Longrightarrow> i < length xss \<Longrightarrow> take n (drop (i * n) (concat xss)) = xss ! i"
proof (induction xss arbitrary: i)
  case (Cons xs xss)
  then show ?case by (cases i) (simp_all add: add.commute)
qed simp

text \<open>A cache over a file that holds \<open>par node\<close> for every node below \<open>n\<close>.\<close>

definition file_ok :: "(nat \<Rightarrow> u32 list) \<Rightarrow> nat \<Rightarrow> u8 list \<Rightarrow> bool" where
  "file_ok par n file \<longleftrightarrow> (\<forall>i<n. length (par i) = 14) \<and> file = concat (map (\<lambda>i. write_u32s (par i)) [0..<n])"

definition cache_ok :: "(nat \<Rightarrow> u32 list) \<Rightarrow> nat \<Rightarrow> parent_cache \<Rightarrow> bool" where
  "cache_ok par n pc \<longleftrightarrow> file_ok par n (cd_file (pc_cache pc)) \<and> num_cache_entries pc = n \<and>
     0 < cd_len (pc_cache pc) \<and> cd_offset (pc_cache pc) + cd_len (pc_cache pc) \<le> n \<and>
     cd_data (pc_cache pc) = map_file (cd_file (pc_cache pc)) (cd_offset (pc_cache pc) * 56) (cd_len (pc_cache pc) * 56)"

lemma file_ok_length: "file_ok par n file \<Longrightarrow> length file = 56 * n"
proof -
  assume a: "file_ok par n file"
  then have "length file = sum_list (map (\<lambda>i. 56) [0..<n])"
    by (auto simp: file_ok_def length_concat comp_def intro!: arg_cong [where f = sum_list])
  then show ?thesis by (simp add: sum_list_triv)
qed

lemma cd_shift_fields [simp]:
  "cd_file (cd_shift o' c) = cd_file c" "cd_len (cd_shift o' c) = cd_len c" "cd_offset (cd_shift o' c) = o'"
  by (simp_all add: cd_shift_def)

lemma cache_ok_shift:
  assumes "cache_ok par n pc" and "o' + cd_len (pc_cache pc) \<le> n"
  shows "cache_ok par n (pc\<lparr>pc_cache := cd_shift o' (pc_cache pc)\<rparr>)"
proof -
  have "cd_data (cd_shift o' (pc_cache pc)) =
      map_file (cd_file (pc_cache pc)) (o' * 56) (cd_len (pc_cache pc) * 56)"
    using assms(1) by (auto simp: cd_shift_def cache_ok_def DEGREE_14 NODE_BYTES_def mult.commute)
  then show ?thesis using assms by (simp add: cache_ok_def)
qed

lemma cd_read_window:
  assumes "cache_ok par n pc" and "cd_contains (pc_cache pc) node"
  shows "cd_read (pc_cache pc) node = Inr (par node)"
proof -
  let ?c = "pc_cache pc"
  have f: "file_ok par n (cd_file ?c)" and node: "cd_offset ?c \<le> node" "node < cd_offset ?c + cd_len ?c" "node < n"
    using assms by (auto simp: cache_ok_def cd_contains_def)
  define k where "k = node - cd_offset ?c"
  have k: "node = cd_offset ?c + k" "k < cd_len ?c" using node by (auto simp: k_def)
  have data: "cd_data ?c = take (cd_len ?c * 56) (drop (cd_offset ?c * 56) (cd_file ?c))"
    and wf: "cd_offset ?c + cd_len ?c \<le> n"
    using assms(1) by (auto simp: cache_ok_def map_file_def)
  have ld: "length (cd_data ?c) = cd_len ?c * 56" using file_ok_length [OF f] wf unfolding data by simp
  have "k * 56 + 56 \<le> cd_len ?c * 56" using k(2) by simp
  moreover have "take 56 (drop (k * 56) (cd_data ?c)) = take 56 (drop (node * 56) (cd_file ?c))"
  proof -
    have "drop (k * 56) (cd_data ?c) = take (cd_len ?c * 56 - k * 56) (drop (node * 56) (cd_file ?c))"
      by (simp add: data drop_take k(1) algebra_simps)
    moreover have "56 \<le> cd_len ?c * 56 - k * 56" using \<open>k * 56 + 56 \<le> _\<close> by linarith
    ultimately show ?thesis by (simp add: min_def)
  qed
  moreover have "take 56 (drop (node * 56) (cd_file ?c)) = write_u32s (par node)"
  proof -
    have "length x = 56" if "x \<in> set (map (\<lambda>i. write_u32s (par i)) [0..<n])" for x
      using that f by (auto simp: file_ok_def)
    then show ?thesis using f node(3) concat_slice [of "map (\<lambda>i. write_u32s (par i)) [0..<n]" 56 node]
      by (simp add: file_ok_def)
  qed
  ultimately show ?thesis using node ld
    by (simp add: cd_read_def Let_def DEGREE_14 NODE_BYTES_def k_def [symmetric] mult.assoc read_write_u32s)
qed

lemma pcache_read_ok:
  assumes ok: "cache_ok par n pc" and node: "cd_offset (pc_cache pc) \<le> node" "node < n"
    "node < cd_offset (pc_cache pc) + 2 * cd_len (pc_cache pc)"
  shows "\<exists>pc'. pcache_read node pc = Inr (pc', par node) \<and> cache_ok par n pc' \<and>
    cd_len (pc_cache pc') = cd_len (pc_cache pc) \<and> cd_contains (pc_cache pc') node"
proof (cases "cd_contains (pc_cache pc) node")
  case True
  then show ?thesis using cd_read_window [OF ok True] ok by (simp add: pcache_read_def Let_def)
next
  case False
  let ?c = "pc_cache pc"
  have ge: "cd_offset ?c + cd_len ?c \<le> node" using False node(1) by (simp add: cd_contains_def)
  define o' where "o' = min (n - cd_len ?c) (cd_offset ?c + cd_len ?c)"
  define pc' where "pc' = pc\<lparr>pc_cache := cd_shift o' ?c\<rparr>"
  have wf: "num_cache_entries pc = n" "cd_offset ?c + cd_len ?c \<le> n" using ok by (auto simp: cache_ok_def)
  have "o' + cd_len ?c \<le> n" using wf by (auto simp: o'_def)
  then have ok': "cache_ok par n pc'" unfolding pc'_def by (rule cache_ok_shift [OF ok])
  have con: "cd_contains (pc_cache pc') node"
    using ge node by (auto simp: pc'_def cd_contains_def o'_def min_def)
  show ?thesis using cd_read_window [OF ok' con] False ge wf ok' con
    by (simp add: pcache_read_def Let_def o'_def [symmetric] pc'_def)
qed

lemma pcache_reset_ok:
  "cache_ok par n pc \<Longrightarrow> cache_ok par n (pcache_reset pc) \<and> cd_offset (pc_cache (pcache_reset pc)) = 0 \<and>
     cd_len (pc_cache (pcache_reset pc)) = cd_len (pc_cache pc)"
  using cache_ok_shift [of par n pc 0] by (auto simp: pcache_reset_def cd_reset_def cache_ok_def)

section \<open>Whole passes\<close>

text \<open>Reads of a list of nodes, one after the other, as the labelling loops do them.\<close>

fun pcache_reads :: "nat list \<Rightarrow> parent_cache \<Rightarrow> (parent_cache \<times> u32 list list) res" where
  "pcache_reads [] pc = Inr (pc, [])"
| "pcache_reads (node # nodes) pc =
     bindR (pcache_read node pc) (\<lambda>(pc', ps). bindR (pcache_reads nodes pc') (\<lambda>(pc'', pss). Inr (pc'', ps # pss)))"

lemma pcache_reads_upt:
  "\<lbrakk>cache_ok par n pc; j \<le> n; i < j \<Longrightarrow> cd_offset (pc_cache pc) \<le> i \<and> i \<le> cd_offset (pc_cache pc) + cd_len (pc_cache pc)\<rbrakk> \<Longrightarrow>
     \<exists>pc'. pcache_reads [i..<j] pc = Inr (pc', map par [i..<j]) \<and> cache_ok par n pc' \<and>
       cd_len (pc_cache pc') = cd_len (pc_cache pc)"
proof (induction "j - i" arbitrary: i pc)
  case 0
  then show ?case by simp
next
  case (Suc k)
  then have ij: "i < j" "i < n" by auto
  have w: "cd_offset (pc_cache pc) \<le> i" "i \<le> cd_offset (pc_cache pc) + cd_len (pc_cache pc)"
    using Suc.prems(3) ij by auto
  have "0 < cd_len (pc_cache pc)" using Suc.prems(1) by (simp add: cache_ok_def)
  then have b: "i < cd_offset (pc_cache pc) + 2 * cd_len (pc_cache pc)" using w by linarith
  obtain pc1 where p1: "pcache_read i pc = Inr (pc1, par i)" "cache_ok par n pc1"
      "cd_len (pc_cache pc1) = cd_len (pc_cache pc)" "cd_contains (pc_cache pc1) i"
    using pcache_read_ok [OF Suc.prems(1) w(1) ij(2) b] by blast
  have k: "k = j - Suc i" using Suc.hyps(2) by simp
  have c: "cd_offset (pc_cache pc1) \<le> Suc i \<and> Suc i \<le> cd_offset (pc_cache pc1) + cd_len (pc_cache pc1)"
    using p1(4) by (simp add: cd_contains_def)
  obtain pc2 where p2: "pcache_reads [Suc i..<j] pc1 = Inr (pc2, map par [Suc i..<j])" "cache_ok par n pc2"
      "cd_len (pc_cache pc2) = cd_len (pc_cache pc1)"
    using Suc.hyps(1) [OF k p1(2) Suc.prems(2) c] by blast
  then show ?case using p1 by (simp add: upt_conv_Cons [OF ij(1)])
qed

lemma cache_contents_ok:
  assumes "\<And>i. i < n \<Longrightarrow> parents i = Inr (par i) \<and> length (par i) = 14"
  shows "\<exists>file. cache_contents parents n = Inr file \<and> file_ok par n file"
proof -
  have "collectR (\<lambda>node. bindR (parents node) (\<lambda>ps. Inr (write_u32s ps))) [0..<n] =
      Inr (map (\<lambda>i. write_u32s (par i)) [0..<n])"
    by (rule collectR_all_ok) (simp add: assms)
  then show ?thesis using assms by (simp add: cache_contents_def file_ok_def)
qed

lemma cd_open_ok:
  assumes "file_ok par n file" and "len \<le> n"
  shows "cd_open 0 len file = Inr \<lparr>cd_data = map_file file 0 (len * 56), cd_offset = 0, cd_len = len, cd_file = file\<rparr>"
  using file_ok_length [OF assms(1)] assms(2) by (simp add: cd_open_def DEGREE_14 NODE_BYTES_def Let_def mult.commute)

lemma generate_ok:
  assumes "generate sha256 manifest parents nodes len n = Inr (pc, file)"
    and par: "\<And>i. i < n \<Longrightarrow> parents i = Inr (par i) \<and> length (par i) = 14"
    and len: "0 < len" "len \<le> n"
  shows "cache_ok par n pc" "cd_offset (pc_cache pc) = 0" "cd_len (pc_cache pc) = len" "file_ok par n file"
proof -
  obtain fl where f: "cache_contents parents n = Inr fl" "file_ok par n fl"
    using cache_contents_ok [of n parents par] par by blast
  show "cache_ok par n pc" "cd_offset (pc_cache pc) = 0" "cd_len (pc_cache pc) = len" "file_ok par n file"
    using assms(1) f len by (auto simp: generate_def cd_open_ok ensure_eq_Inr cache_ok_def Let_def)
qed

text \<open>
  C28. A generated parent cache serves the graph: reading all nodes in ascending order gives
  each node its 14 parents, whatever the size of the window that is kept in memory, and a
  reset makes the next pass (the next layer) give them again.
\<close>

theorem parent_cache_serves_graph:
  assumes "generate sha256 manifest parents nodes len n = Inr (pc, file)"
    and "\<And>i. i < n \<Longrightarrow> parents i = Inr (par i) \<and> length (par i) = DEGREE"
    and "0 < len" and "len \<le> n"
  shows "\<exists>pc1 pc2. pcache_reads [0..<n] pc = Inr (pc1, map par [0..<n]) \<and>
    pcache_reads [0..<n] (pcache_reset pc1) = Inr (pc2, map par [0..<n])"
proof -
  have par: "\<And>i. i < n \<Longrightarrow> parents i = Inr (par i) \<and> length (par i) = 14"
    using assms(2) by (simp add: DEGREE_14)
  note g = generate_ok [OF assms(1) par assms(3,4)]
  obtain pc1 where p1: "pcache_reads [0..<n] pc = Inr (pc1, map par [0..<n])" "cache_ok par n pc1"
    using pcache_reads_upt [OF g(1), of n 0] g(2) by auto
  obtain pc2 where "pcache_reads [0..<n] (pcache_reset pc1) = Inr (pc2, map par [0..<n])"
    using pcache_reads_upt [of par n "pcache_reset pc1" n 0] pcache_reset_ok [OF p1(2)] by auto
  then show ?thesis using p1 by blast
qed

definition counting_parents :: "nat \<Rightarrow> u32 list res" where
  "counting_parents i = Inr (map (\<lambda>j. of_nat (i * j)) [0..<DEGREE])"

lemma generate_succeeds:
  assumes "\<And>i. i < n \<Longrightarrow> parents i = Inr (par i) \<and> length (par i) = DEGREE" and "len \<le> n"
  shows "\<exists>pc file. generate sha256 None parents nodes len n = Inr (pc, file)"
proof -
  have par: "\<And>i. i < n \<Longrightarrow> parents i = Inr (par i) \<and> length (par i) = 14"
    using assms(1) by (simp add: DEGREE_14)
  obtain fl where f: "cache_contents parents n = Inr fl" "file_ok par n fl"
    using cache_contents_ok [of n parents par] par by blast
  show ?thesis using f cd_open_ok [OF f(2) assms(2)] by (simp add: generate_def Let_def)
qed

theorem parent_cache_serves_graph_witness:
  "\<exists>pc file pc1 pc2. generate (\<lambda>_. []) None counting_parents 5 2 5 = Inr (pc, file) \<and>
     pcache_reads [0..<5] pc = Inr (pc1, map (\<lambda>i. map (\<lambda>j. of_nat (i * j)) [0..<DEGREE]) [0..<5]) \<and>
     pcache_reads [0..<5] (pcache_reset pc1) = Inr (pc2, map (\<lambda>i. map (\<lambda>j. of_nat (i * j)) [0..<DEGREE]) [0..<5])"
proof -
  let ?par = "\<lambda>i. map (\<lambda>j. of_nat (i * j)) [0..<DEGREE] :: u32 list"
  have par: "\<And>i. i < 5 \<Longrightarrow> counting_parents i = Inr (?par i) \<and> length (?par i) = DEGREE"
    by (simp add: counting_parents_def)
  obtain pc fl where g: "generate (\<lambda>_. []) None counting_parents 5 2 5 = Inr (pc, fl)"
    using generate_succeeds [of 5 counting_parents ?par 2 "\<lambda>_. []" 5, OF par] by auto
  show ?thesis using g parent_cache_serves_graph [OF g par] by auto
qed

lemma open_cache_mismatch:
  assumes "open_cache sha256 (Some listed) True parents nodes len entries file = Inr (pc, file')"
    and "digest_hex (sha256 file) \<noteq> listed"
  shows "digest_hex (sha256 file') = listed \<and> cd_file (pc_cache pc) = file' \<and> pc_digest pc = digest_hex (sha256 file)"
  using assms
  by (auto simp: open_cache_def generate_def bindR_eq_Inr ensure_eq_Inr cd_open_def Let_def
      split: sum.splits err.splits if_splits)

text \<open>
  Opening a cache file whose digest does not match the manifest regenerates the file, and
  the file on disk then has the listed digest; the cache that is returned nevertheless
  carries the digest of the file that was thrown away.
\<close>

theorem open_cache_stale_digest:
  assumes "open_cache sha256 (Some listed) True parents nodes len entries file = Inr (pc, file')"
    and "digest_hex (sha256 file) \<noteq> listed"
  shows "digest_hex (sha256 file') = listed \<and> pc_digest pc \<noteq> digest_hex (sha256 (cd_file (pc_cache pc)))"
  using open_cache_mismatch [OF assms] assms(2) by auto

definition toy_digest :: "u8 list \<Rightarrow> u8 list" where
  "toy_digest bs = [of_nat (length (filter (\<lambda>b. b = 1) bs))]"

theorem open_cache_stale_digest_witness:
  "\<exists>pc file'. open_cache toy_digest (Some ''00'') True (\<lambda>i. Inr (replicate 14 0)) 2 1 2 [1, 1] = Inr (pc, file') \<and>
     pc_digest pc \<noteq> digest_hex (toy_digest (cd_file (pc_cache pc)))"
proof -
  have "is_ok (open_cache toy_digest (Some ''00'') True (\<lambda>i. Inr (replicate 14 0)) 2 1 2 [1, 1])"
    by code_simp
  then obtain pc fl where o: "open_cache toy_digest (Some ''00'') True (\<lambda>i. Inr (replicate 14 0)) 2 1 2 [1, 1] = Inr (pc, fl)"
    unfolding is_ok_iff by (metis surj_pair)
  have "digest_hex (toy_digest [1, 1]) \<noteq> ''00''" by code_simp
  then show ?thesis using open_cache_stale_digest [OF o] o by blast
qed
end
