(* ===== verification/Create_Label.thy ===== *)
theory Create_Label
  imports Parent_Cache
begin

text \<open>
  The labelling of the layers: \<open>create_label/single.rs\<close> and \<open>create_label/mod.rs\<close> of
  \<open>storage-proofs-porep/src/stacked/vanilla\<close>, with the functions of \<open>graph.rs\<close> that fetch
  parents with or without the cache. The disk is a map from file names to contents;
  renaming is atomic. The results have the extra outcome \<open>None\<close> of the Feistel walk, which
  is only reached without a cache.
\<close>

section \<open>The code\<close>

text \<open>The graph with the primitives it draws from: the generator, the logarithm and the hash of the walk.\<close>

record graph_env =
  ge_rng :: "u8 list \<Rightarrow> nat \<Rightarrow> nat"
  ge_log2_ceil :: "nat \<Rightarrow> nat"
  ge_blake2b :: "u8 list \<Rightarrow> u8 list"
  ge_graph :: stacked_graph

definition env_parents :: "graph_env \<Rightarrow> nat \<Rightarrow> u32 list res option" where
  "env_parents E node =
     stacked_parents (ge_rng E) (ge_log2_ceil E) (ge_blake2b E) (ge_graph E) node (replicate DEGREE 0)"

definition base_parents :: "graph_env \<Rightarrow> nat \<Rightarrow> u32 list \<Rightarrow> u32 list res" where
  "base_parents E node parents =
     bucket_parents (ge_rng E) (ge_log2_ceil E) (base_graph (ge_graph E)) node parents"

definition copy_parents_data ::
  "graph_env \<Rightarrow> nat \<Rightarrow> u8 list \<Rightarrow> sha256 \<Rightarrow> parent_cache option \<Rightarrow> (parent_cache option \<times> u8 list) res" where
  "copy_parents_data E node base_data hasher cache =
     (case cache of
        Some pc \<Rightarrow> bindR (pcache_read node pc) (\<lambda>(pc', cache_parents).
          bindR (copy_parents_data_inner cache_parents base_data hasher) (\<lambda>h. Inr (Some pc', h)))
      | None \<Rightarrow> bindR (expectR ''parents failure'' (base_parents E node (replicate BASE_DEGREE 0)))
          (\<lambda>cache_parents. bindR (copy_parents_data_inner cache_parents base_data hasher) (\<lambda>h. Inr (None, h))))"

definition copy_parents_data_exp ::
  "graph_env \<Rightarrow> nat \<Rightarrow> u8 list \<Rightarrow> u8 list \<Rightarrow> sha256 \<Rightarrow> parent_cache option \<Rightarrow>
   (parent_cache option \<times> u8 list) res option" where
  "copy_parents_data_exp E node base_data exp_data hasher cache =
     (case cache of
        Some pc \<Rightarrow> Some (bindR (pcache_read node pc) (\<lambda>(pc', cache_parents).
          bindR (copy_parents_data_inner_exp cache_parents base_data exp_data hasher) (\<lambda>h. Inr (Some pc', h))))
      | None \<Rightarrow> bindO (map_option (expectR ''parents failure'') (env_parents E node))
          (\<lambda>cache_parents. Some (bindR (copy_parents_data_inner_exp cache_parents base_data exp_data hasher)
             (\<lambda>h. Inr (None, h)))))"

text \<open>The preamble of a label: the hasher after the replica id, the layer and the node.\<close>

definition label_preamble :: "u8 list \<Rightarrow> nat \<Rightarrow> nat \<Rightarrow> sha256 res" where
  "label_preamble replica_id layer_index node =
     sha256_input sha256_new
       [replica_id, be_of_word 4 (of_nat layer_index :: u32) @ be_of_word 8 (of_nat node :: u64) @ replicate 20 0]"

text \<open>Storing the hash and clearing its two top bits.\<close>

definition store_label :: "u8 list \<Rightarrow> u8 list \<Rightarrow> nat \<Rightarrow> u8 list res" where
  "store_label hash layer_labels node =
     (let start = data_at_node_offset node; end' = start + NODE_SIZE in
      if end' \<le> length layer_labels \<and> length hash = NODE_SIZE
      then let labels = take start layer_labels @ hash @ drop end' layer_labels
           in Inr (labels[end' - 1 := labels ! (end' - 1) AND 0x3f])
      else Inl (Panic ''slice index out of range''))"

definition create_label ::
  "graph_env \<Rightarrow> parent_cache option \<Rightarrow> u8 list \<Rightarrow> u8 list \<Rightarrow> nat \<Rightarrow> nat \<Rightarrow> (parent_cache option \<times> u8 list) res" where
  "create_label E cache replica_id layer_labels layer_index node =
     bindR (label_preamble replica_id layer_index node) (\<lambda>hasher.
     bindR (if 0 < node
            then bindR (slice layer_labels ((node - 1) * NODE_SIZE) (node * NODE_SIZE)) (\<lambda>_.
                   copy_parents_data E (node mod 2 ^ 32) layer_labels hasher cache)
            else bindR (sha256_finish hasher) (\<lambda>h. Inr (cache, h))) (\<lambda>(cache', hash).
     bindR (store_label hash layer_labels node) (\<lambda>labels. Inr (cache', labels))))"

definition create_label_exp ::
  "graph_env \<Rightarrow> parent_cache option \<Rightarrow> u8 list \<Rightarrow> u8 list \<Rightarrow> u8 list \<Rightarrow> nat \<Rightarrow> nat \<Rightarrow>
   (parent_cache option \<times> u8 list) res option" where
  "create_label_exp E cache replica_id exp_parents_data layer_labels layer_index node =
     bindO (Some (label_preamble replica_id layer_index node)) (\<lambda>hasher.
     bindO (if 0 < node
            then bindO (Some (slice layer_labels ((node - 1) * NODE_SIZE) (node * NODE_SIZE))) (\<lambda>_.
                   copy_parents_data_exp E (node mod 2 ^ 32) layer_labels exp_parents_data hasher cache)
            else Some (bindR (sha256_finish hasher) (\<lambda>h. Inr (cache, h)))) (\<lambda>(cache', hash).
     Some (bindR (store_label hash layer_labels node) (\<lambda>labels. Inr (cache', labels)))))"

text \<open>The loop over the nodes of a layer, for both kinds of layers.\<close>

fun label_nodes ::
  "graph_env \<Rightarrow> u8 list \<Rightarrow> nat \<Rightarrow> u8 list \<Rightarrow> nat list \<Rightarrow> parent_cache option \<Rightarrow> u8 list \<Rightarrow>
   (parent_cache option \<times> u8 list) res option" where
  "label_nodes E replica_id layer exp_labels [] cache layer_labels = Some (Inr (cache, layer_labels))"
| "label_nodes E replica_id layer exp_labels (node # nodes) cache layer_labels =
     bindO (if layer = 1 then Some (create_label E cache replica_id layer_labels layer node)
            else create_label_exp E cache replica_id exp_labels layer_labels layer node) (\<lambda>(cache', labels).
     label_nodes E replica_id layer exp_labels nodes cache' labels)"

subsection \<open>The files of the layers\<close>

fun show_nat :: "nat \<Rightarrow> string" where
  "show_nat n = (if n < 10 then [char_of (48 + n)] else show_nat (n div 10) @ [char_of (48 + n mod 10)])"

declare show_nat.simps [simp del]

datatype cache_key = PAux | TAux | CommDTree | CommCTree | CommRLastTree

fun cache_key_str :: "cache_key \<Rightarrow> string" where
  "cache_key_str PAux = ''p_aux''"
| "cache_key_str TAux = ''t_aux''"
| "cache_key_str CommDTree = ''tree-d''"
| "cache_key_str CommCTree = ''tree-c''"
| "cache_key_str CommRLastTree = ''tree-r-last''"

definition LABEL_LAYER_KEY :: string where "LABEL_LAYER_KEY = ''layer''"

definition label_layer :: "nat \<Rightarrow> string" where
  "label_layer layer = LABEL_LAYER_KEY @ ''-'' @ show_nat layer"

text \<open>
  The file of a store id, the file next to it with the extension \<open>.tmp\<close>, and the other files of
  the cache directory.
\<close>

datatype file_name = Data_File string | Tmp_File string | Named_File string

type_synonym disk = "file_name \<Rightarrow> u8 list option"

record layer_state =
  ls_id :: string
  ls_generated :: bool

definition remove_tmp_layer :: "string \<Rightarrow> disk \<Rightarrow> disk" where
  "remove_tmp_layer id' d = d(Tmp_File id' := None)"

definition is_layer_written :: "graph_env \<Rightarrow> string \<Rightarrow> disk \<Rightarrow> bool" where
  "is_layer_written E id' d =
     (case d (Data_File id') of None \<Rightarrow> False
      | Some file \<Rightarrow> length file = graph_size (ge_graph E) * NODE_SIZE)"

definition write_layer :: "u8 list \<Rightarrow> string \<Rightarrow> disk \<Rightarrow> disk" where
  "write_layer data id' d =
     (let d1 = d(Tmp_File id' := Some data)
      in d1(Data_File id' := d1 (Tmp_File id'), Tmp_File id' := None))"

definition read_layer :: "string \<Rightarrow> disk \<Rightarrow> u8 list \<Rightarrow> u8 list res" where
  "read_layer id' d data =
     (case d (Data_File id') of None \<Rightarrow> Inl (Fail ''failed to open layer'')
      | Some file \<Rightarrow> if length file \<le> length data then Inr (file @ drop (length file) data)
                     else Inl (Fail ''failed to read layer''))"

fun prepare_loop :: "graph_env \<Rightarrow> nat list \<Rightarrow> disk \<Rightarrow> disk \<times> layer_state list" where
  "prepare_loop E [] d = (d, [])"
| "prepare_loop E (layer # layers) d =
     (let id' = label_layer layer;
          d1 = remove_tmp_layer id' d;
          generated = is_layer_written E id' d1;
          (d2, states) = prepare_loop E layers d1
      in (d2, \<lparr>ls_id = id', ls_generated = generated\<rparr> # states))"

definition prepare_layers :: "graph_env \<Rightarrow> nat \<Rightarrow> disk \<Rightarrow> disk \<times> layer_state list" where
  "prepare_layers E layers d = prepare_loop E [1..<layers + 1] d"

text \<open>The loop of \<open>create_labels_for_encoding\<close>: the disk, the cache and the two buffers are its state.\<close>

fun encoding_loop ::
  "graph_env \<Rightarrow> u8 list \<Rightarrow> (nat \<times> layer_state) list \<Rightarrow> disk \<times> parent_cache \<times> u8 list \<times> u8 list \<Rightarrow>
   (disk \<times> parent_cache) res option" where
  "encoding_loop E replica_id [] (d, cache, layer_labels, exp_labels) = Some (Inr (d, cache))"
| "encoding_loop E replica_id ((layer, state) # rest) (d, cache, layer_labels, exp_labels) =
     (if ls_generated state
      then bindO (Some (read_layer (ls_id state) d exp_labels)) (\<lambda>exp_labels.
             encoding_loop E replica_id rest (d, cache, layer_labels, exp_labels))
      else bindO (label_nodes E replica_id layer exp_labels [0..<graph_size (ge_graph E)]
                    (Some (pcache_reset cache)) layer_labels) (\<lambda>(cache', labels).
             encoding_loop E replica_id rest
               (write_layer labels (ls_id state) d, the cache', exp_labels, labels)))"

definition create_labels_for_encoding ::
  "graph_env \<Rightarrow> parent_cache \<Rightarrow> nat \<Rightarrow> u8 list \<Rightarrow> disk \<Rightarrow> (disk \<times> parent_cache \<times> string list \<times> layer_state list) res option" where
  "create_labels_for_encoding E cache layers replica_id d =
     (let (d1, states) = prepare_layers E layers d;
          layer_size = graph_size (ge_graph E) * NODE_SIZE
      in bindO (encoding_loop E replica_id (zip [1..<layers + 1] states)
           (d1, cache, replicate layer_size 0, replicate layer_size 0)) (\<lambda>(d2, cache').
           Some (Inr (d2, cache', map ls_id states, states))))"

text \<open>
  \<open>create_labels_for_decoding\<close> writes every layer under one id; the store opened after each
  write (an open file, unaffected by the later renames) is its contents.
\<close>

fun decoding_loop ::
  "graph_env \<Rightarrow> u8 list \<Rightarrow> string \<Rightarrow> nat list \<Rightarrow> disk \<times> parent_cache \<times> u8 list \<times> u8 list \<Rightarrow>
   (disk \<times> parent_cache \<times> u8 list list) res option" where
  "decoding_loop E replica_id id' [] (d, cache, layer_labels, exp_labels) = Some (Inr (d, cache, []))"
| "decoding_loop E replica_id id' (layer # rest) (d, cache, layer_labels, exp_labels) =
     bindO (label_nodes E replica_id layer exp_labels [0..<graph_size (ge_graph E)]
              (Some (pcache_reset cache)) layer_labels) (\<lambda>(cache', labels).
     let d1 = write_layer labels id' d in
     bindO (Some (case d1 (Data_File id') of None \<Rightarrow> Inl (Fail ''no store'') | Some f \<Rightarrow> Inr f)) (\<lambda>layer_store.
     bindO (decoding_loop E replica_id id' rest (d1, the cache', exp_labels, labels)) (\<lambda>(d2, cache'', stores).
     Some (Inr (d2, cache'', layer_store # stores)))))"

definition create_labels_for_decoding ::
  "graph_env \<Rightarrow> parent_cache \<Rightarrow> nat \<Rightarrow> u8 list \<Rightarrow> string \<Rightarrow> disk \<Rightarrow> (disk \<times> parent_cache \<times> u8 list list) res option" where
  "create_labels_for_decoding E cache layers replica_id id' d =
     (let layer_size = graph_size (ge_graph E) * NODE_SIZE
      in bindO (decoding_loop E replica_id id' [1..<layers + 1]
           (d, cache, replicate layer_size 0, replicate layer_size 0)) (\<lambda>(d', cache', labels).
         if length labels = layers then Some (Inr (d', cache', labels))
         else Some (Inl (Panic ''Invalid amount of layers encoded expected''))))"

section \<open>The labels of a replica\<close>

text \<open>
  The specification: the label of a node is the SHA-256 hash, with its two top bits cleared,
  of the replica id, the layer, the node and (except for node 0) 37 parent labels: the 6
  base parents of the layer, after the first layer also the 8 expander parents of
  the layer before, repeated in order. Expander parents of the first layer do not count.
\<close>

definition clear_top :: "u8 list \<Rightarrow> u8 list" where
  "clear_top h = h[31 := h ! 31 AND 0x3f]"

definition label_prefix :: "u8 list \<Rightarrow> nat \<Rightarrow> nat \<Rightarrow> u8 list" where
  "label_prefix rid layer node =
     rid @ be_of_word 4 (of_nat layer :: u32) @ be_of_word 8 (of_nat node :: u64) @ replicate 20 0"

definition label_hash :: "u8 list \<Rightarrow> nat \<Rightarrow> nat \<Rightarrow> u8 list list \<Rightarrow> u8 list" where
  "label_hash rid layer node ps =
     clear_top (fips_sha256 (label_prefix rid layer node @ concat (take 37 (concat (replicate 7 ps)))))"

function label_spec :: "(nat \<Rightarrow> u32 list) \<Rightarrow> u8 list \<Rightarrow> nat \<Rightarrow> nat \<Rightarrow> u8 list" where
  "label_spec par rid layer node =
     label_hash rid layer node
       (if node = 0 then []
        else map (\<lambda>p. if unat p < node then label_spec par rid layer (unat p) else []) (take 6 (par node)) @
             (if layer \<le> 1 then [] else map (\<lambda>p. label_spec par rid (layer - 1) (unat p)) (drop 6 (par node))))"
  by pat_completeness auto
termination
  by (relation "measures [\<lambda>(par, rid, layer, node). layer, \<lambda>(par, rid, layer, node). node]") auto

declare label_spec.simps [simp del]

section \<open>One label\<close>

definition node_at :: "u8 list \<Rightarrow> nat \<Rightarrow> u8 list" where
  "node_at L i = take 32 (drop (32 * i) L)"

lemma node_of_at: "node_of L p = node_at L (unat p)"
  by (simp add: node_of_def node_at_def)

text \<open>The first \<open>m\<close> nodes of a buffer are the labels of a layer.\<close>

definition holds :: "(nat \<Rightarrow> u32 list) \<Rightarrow> u8 list \<Rightarrow> nat \<Rightarrow> nat \<Rightarrow> u8 list \<Rightarrow> bool" where
  "holds par rid layer m L \<longleftrightarrow> (\<forall>i<m. node_at L i = label_spec par rid layer i)"

definition topological :: "(nat \<Rightarrow> u32 list) \<Rightarrow> nat \<Rightarrow> bool" where
  "topological par n \<longleftrightarrow> (\<forall>i<n. length (par i) = 14 \<and>
     (\<forall>p\<in>set (take 6 (par i)). 0 < i \<longrightarrow> unat p < i) \<and> (\<forall>p\<in>set (drop 6 (par i)). unat p < n))"

lemma length_fips_compress: "length (fips_compress H ws) = 8"
  by (simp add: fips_compress_def split: prod.split)

lemma length_fips_sha256 [simp]: "length (fips_sha256 msg) = 32"
proof -
  have *: "length (fold f bs H) = 8" if "length H = 8" "\<And>x H. length (f x H) = 8"
    for f :: "'a \<Rightarrow> u32 list \<Rightarrow> u32 list" and bs H
    using that by (induction bs arbitrary: H) auto
  have "length (fips_fold (fips_pad msg) fips_H0) = 8"
    unfolding fips_fold_def by (rule *) (simp_all add: fips_H0_table H256_def length_fips_compress)
  then show ?thesis
    by (simp add: fips_sha256_fold write_u32_into_def length_concat comp_def sum_list_triv)
qed

lemma length_label_hash [simp]: "length (label_hash rid layer node ps) = 32"
  by (simp add: label_hash_def clear_top_def)

lemma length_label_spec [simp]: "length (label_spec par rid layer node) = 32"
  by (simp add: label_spec.simps [of par rid layer node])

lemma store_label_eq:
  assumes "length hash = 32" and "32 * node + 32 \<le> length L"
  shows "store_label hash L node = Inr (take (32 * node) L @ clear_top hash @ drop (32 * node + 32) L)"
  using assms
  by (simp add: store_label_def data_at_node_offset_def NODE_SIZE_def Let_def clear_top_def nth_append
      list_update_append mult.commute min_def)

lemma label_preamble_absorbed:
  assumes "length rid = 32"
  obtains s where "label_preamble rid layer node = Inr s" "absorbed s (label_prefix rid layer node)"
proof -
  let ?bs = "[rid, be_of_word 4 (of_nat layer :: u32) @ be_of_word 8 (of_nat node :: u64) @ replicate 20 0]"
  have ok: "\<forall>b\<in>set ?bs. length b = 32" "even (length ?bs)" using assms by auto
  obtain s where s: "sha256_input sha256_new ?bs = Inr s" "absorbed s ([] @ concat ?bs)"
    by (rule input_nodes [OF absorbed_new ok])
  show thesis by (rule that [of s]) (use s in \<open>simp_all add: label_prefix_def label_preamble_def\<close>)
qed

lemma copy_parents_inner_14:
  assumes "absorbed s msg" and "length ps = 14" and "parents_in (take 6 ps) base"
  shows "copy_parents_data_inner ps base s =
    Inr (fips_sha256 (msg @ concat (take 37 (concat (replicate 7 (map (node_of base) (take 6 ps)))))))"
proof -
  have "collectR (\<lambda>i. read_node i ps base) [0..<6] = collectR (\<lambda>i. read_node i (take 6 ps) base) [0..<6]"
    using assms(2) by (intro collectR_cong) (auto simp: read_node_def)
  then have "copy_parents_data_inner ps base s = copy_parents_data_inner (take 6 ps) base s"
    by (simp only: copy_parents_data_inner_def)
  then show ?thesis using copy_parents_inner [OF assms(1) _ assms(3)] assms(2) by simp
qed

lemma take_37_of_7:
  assumes "length P = 14"
  shows "take 37 (concat (replicate 7 P)) = take 37 (concat (replicate 3 P))"
proof -
  have "concat (replicate 7 P) = concat (replicate 3 P) @ concat (replicate 4 P)"
    by (simp only: concat_append [symmetric] replicate_add [symmetric]) simp
  moreover have "length (concat (replicate 3 P)) = 42" using assms by (simp add: eval_nat_numeral)
  ultimately show ?thesis by (simp only: take_append) simp
qed

lemma spec_base:
  assumes "holds par rid layer node L" and "\<forall>p\<in>set ps. unat p < node"
  shows "map (node_of L) ps = map (\<lambda>p. if unat p < node then label_spec par rid layer (unat p) else []) ps"
  using assms by (simp add: holds_def node_of_at)

lemma spec_exp:
  assumes "holds par rid layer n L" and "\<forall>p\<in>set ps. unat p < n"
  shows "map (node_of L) ps = map (\<lambda>p. label_spec par rid layer (unat p)) ps"
  using assms by (simp add: holds_def node_of_at)

lemma parents_in_below: "\<forall>p\<in>set ps. unat p < n \<Longrightarrow> 32 * n \<le> length L \<Longrightarrow> parents_in ps L"
  by (fastforce simp: parents_in_def)

text \<open>The window of the cache admits a read of node \<open>i\<close>.\<close>

definition ready :: "(nat \<Rightarrow> u32 list) \<Rightarrow> nat \<Rightarrow> nat \<Rightarrow> parent_cache \<Rightarrow> bool" where
  "ready par n i pc \<longleftrightarrow> cache_ok par n pc \<and> cd_offset (pc_cache pc) \<le> i \<and>
     i < cd_offset (pc_cache pc) + 2 * cd_len (pc_cache pc)"

lemma ready_reset: "cache_ok par n pc \<Longrightarrow> ready par n 0 (pcache_reset pc)"
  using pcache_reset_ok [of par n pc] by (simp add: ready_def cache_ok_def)

lemma ready_skip: "ready par n 0 pc \<Longrightarrow> ready par n (Suc 0) pc"
  by (auto simp: ready_def cache_ok_def)

lemma ready_read:
  assumes "ready par n i pc" and "i < n"
  obtains pc' where "pcache_read i pc = Inr (pc', par i)" "ready par n (Suc i) pc'"
proof -
  obtain pc' where "pcache_read i pc = Inr (pc', par i)" "cache_ok par n pc'" "cd_contains (pc_cache pc') i"
    using pcache_read_ok [of par n pc i] assms by (auto simp: ready_def)
  moreover from this(2,3) have "ready par n (Suc i) pc'" by (auto simp: ready_def cd_contains_def cache_ok_def)
  ultimately show thesis using that by blast
qed

text \<open>The hash of a node, from a buffer with the labels before it.\<close>

lemma hash_first_layer:
  assumes top: "topological par n" and node: "0 < node" "node < n" "n < 2 ^ 32"
    and L: "holds par rid 1 node L" "length L = 32 * n" and rdy: "ready par n node pc"
    and ab: "absorbed s (label_prefix rid 1 node)"
  obtains pc' h where "copy_parents_data E (node mod 2 ^ 32) L s (Some pc) = Inr (Some pc', h)"
    "ready par n (Suc node) pc'" "length h = 32" "clear_top h = label_spec par rid 1 node"
proof -
  obtain pc' where r: "pcache_read node pc = Inr (pc', par node)" "ready par n (Suc node) pc'"
    using ready_read [OF rdy node(2)] by blast
  have ps: "length (par node) = 14" "\<forall>p\<in>set (take 6 (par node)). unat p < node"
    using top node by (auto simp: topological_def)
  have pin: "parents_in (take 6 (par node)) L" by (rule parents_in_below [OF ps(2)]) (use L node in simp)
  let ?h = "fips_sha256 (label_prefix rid 1 node @
    concat (take 37 (concat (replicate 7 (map (node_of L) (take 6 (par node)))))))"
  have "copy_parents_data E (node mod 2 ^ 32) L s (Some pc) = Inr (Some pc', ?h)"
    using r(1) node copy_parents_inner_14 [OF ab ps(1) pin] by (simp add: copy_parents_data_def)
  moreover have "clear_top ?h = label_spec par rid 1 node"
    unfolding label_spec.simps [of par rid 1 node] spec_base [OF L(1) ps(2)] using node by (simp add: label_hash_def)
  ultimately show thesis using r(2) by (intro that) auto
qed

lemma hash_next_layer:
  assumes top: "topological par n" and node: "0 < node" "node < n" "n < 2 ^ 32" and layer: "1 < layer"
    and L: "holds par rid layer node L" "length L = 32 * n"
    and X: "holds par rid (layer - 1) n X" "length X = 32 * n" and rdy: "ready par n node pc"
    and ab: "absorbed s (label_prefix rid layer node)"
  obtains pc' h where "copy_parents_data_exp E (node mod 2 ^ 32) L X s (Some pc) = Some (Inr (Some pc', h))"
    "ready par n (Suc node) pc'" "length h = 32" "clear_top h = label_spec par rid layer node"
proof -
  obtain pc' where r: "pcache_read node pc = Inr (pc', par node)" "ready par n (Suc node) pc'"
    using ready_read [OF rdy node(2)] by blast
  have ps: "length (par node) = 14" "\<forall>p\<in>set (take 6 (par node)). unat p < node" "\<forall>p\<in>set (drop 6 (par node)). unat p < n"
    using top node by (auto simp: topological_def)
  have pin: "parents_in (take 6 (par node)) L" "parents_in (drop 6 (par node)) X"
    by (rule parents_in_below [OF ps(2)], use L node in simp) (rule parents_in_below [OF ps(3)], use X in simp)
  let ?P = "map (node_of L) (take 6 (par node)) @ map (node_of X) (drop 6 (par node))"
  let ?h = "fips_sha256 (label_prefix rid layer node @ concat (take 37 (concat (replicate 3 ?P))))"
  have "copy_parents_data_exp E (node mod 2 ^ 32) L X s (Some pc) = Some (Inr (Some pc', ?h))"
    using r(1) node copy_parents_inner_exp [OF ab ps(1) pin] by (simp add: copy_parents_data_exp_def)
  moreover have "clear_top ?h = label_spec par rid layer node"
  proof -
    have "length ?P = 14" using ps(1) by simp
    then have "clear_top ?h = label_hash rid layer node ?P" unfolding label_hash_def by (simp only: take_37_of_7)
    then show ?thesis
      unfolding label_spec.simps [of par rid layer node] spec_base [OF L(1) ps(2)] spec_exp [OF X(1) ps(3)]
      using node layer by simp
  qed
  ultimately show thesis using r(2) by (intro that) auto
qed

section \<open>A layer\<close>

lemma node_at_stored:
  assumes "length h = 32" and "32 * node + 32 \<le> length L"
  shows "node_at (take (32 * node) L @ h @ drop (32 * node + 32) L) node = h"
    and "i < node \<Longrightarrow> node_at (take (32 * node) L @ h @ drop (32 * node + 32) L) i = node_at L i"
proof -
  show "node_at (take (32 * node) L @ h @ drop (32 * node + 32) L) node = h"
    using assms by (simp add: node_at_def)
  assume i: "i < node"
  have "take 32 (drop (32 * i) (take (32 * node) L)) = take 32 (drop (32 * i) L)"
    using i by (simp add: drop_take min_def)
  moreover have "32 \<le> length (drop (32 * i) (take (32 * node) L))" using i assms(2) by simp
  ultimately show "node_at (take (32 * node) L @ h @ drop (32 * node + 32) L) i = node_at L i"
    unfolding node_at_def using i assms(2) by (simp add: drop_append)
qed

lemma holds_stored:
  assumes "holds par rid layer node L" and "32 * node + 32 \<le> length L"
    and "clear_top h = label_spec par rid layer node" and "length h = 32"
  shows "\<exists>L'. store_label h L node = Inr L' \<and> holds par rid layer (Suc node) L' \<and> length L' = length L"
proof -
  have len: "length (clear_top h) = 32" using assms(4) by (simp add: clear_top_def)
  note at = node_at_stored [OF len assms(2)]
  show ?thesis using store_label_eq [OF assms(4,2)] at assms(1-3) len
    by (auto simp: holds_def less_Suc_eq)
qed

definition layer_input :: "(nat \<Rightarrow> u32 list) \<Rightarrow> u8 list \<Rightarrow> nat \<Rightarrow> nat \<Rightarrow> u8 list \<Rightarrow> bool" where
  "layer_input par rid n layer X \<longleftrightarrow> length X = 32 * n \<and> (layer = 1 \<or> 1 < layer \<and> holds par rid (layer - 1) n X)"

lemma hash_first_node:
  assumes ab: "absorbed s (label_prefix rid layer 0)"
  shows "\<exists>h. sha256_finish s = Inr h \<and> length h = 32 \<and> clear_top h = label_spec par rid layer 0"
  using absorbed_finish [OF ab] by (simp add: label_spec.simps [of par rid layer 0] label_hash_def)

lemma label_step:
  assumes top: "topological par n" and node: "node < n" "n < 2 ^ 32" and rid: "length rid = 32"
    and L: "holds par rid layer node L" "length L = 32 * n" and X: "layer_input par rid n layer X"
    and rdy: "ready par n node pc"
  shows "\<exists>pc' L'. (if layer = 1 then Some (create_label E (Some pc) rid L layer node)
      else create_label_exp E (Some pc) rid X L layer node) = Some (Inr (Some pc', L')) \<and>
    ready par n (Suc node) pc' \<and> holds par rid layer (Suc node) L' \<and> length L' = 32 * n"
proof -
  obtain s where s: "label_preamble rid layer node = Inr s" "absorbed s (label_prefix rid layer node)"
    by (rule label_preamble_absorbed [OF rid])
  have le: "32 * node + 32 \<le> length L" using node(1) L(2) by simp
  note store = holds_stored [OF L(1) le]
  show ?thesis
  proof (cases "node = 0")
    case True
    obtain h where h: "sha256_finish s = Inr h" "length h = 32" "clear_top h = label_spec par rid layer node"
      using hash_first_node [of s rid layer par] s(2) True by auto
    obtain L' where "store_label h L node = Inr L'" "holds par rid layer (Suc node) L'" "length L' = length L"
      using store [OF h(3,2)] by blast
    then show ?thesis using s(1) h(1) True rdy ready_skip [of par n pc] L(2)
      by (cases "layer = 1") (auto simp: create_label_def create_label_exp_def)
  next
    case False
    then have pos: "0 < node" by simp
    have sl: "slice L ((node - 1) * NODE_SIZE) (node * NODE_SIZE) =
        Inr (take (node * NODE_SIZE - (node - 1) * NODE_SIZE) (drop ((node - 1) * NODE_SIZE) L))"
      using le by (intro slice_Inr) (simp_all add: NODE_SIZE_def)
    show ?thesis
    proof (cases "layer = 1")
      case True
      obtain pc' h where h: "copy_parents_data E (node mod 2 ^ 32) L s (Some pc) = Inr (Some pc', h)"
          "ready par n (Suc node) pc'" "length h = 32" "clear_top h = label_spec par rid 1 node"
        by (rule hash_first_layer [OF top pos node L(1) [unfolded True] L(2) rdy s(2) [unfolded True]])
      obtain L' where "store_label h L node = Inr L'" "holds par rid layer (Suc node) L'" "length L' = length L"
        using store [OF h(4) [folded True] h(3)] by blast
      then show ?thesis using s(1) h sl pos True L(2) by (simp add: create_label_def)
    next
      case False
      then have X': "1 < layer" "holds par rid (layer - 1) n X" "length X = 32 * n" using X by (auto simp: layer_input_def)
      obtain pc' h where h: "copy_parents_data_exp E (node mod 2 ^ 32) L X s (Some pc) = Some (Inr (Some pc', h))"
          "ready par n (Suc node) pc'" "length h = 32" "clear_top h = label_spec par rid layer node"
        by (rule hash_next_layer [OF top pos node X'(1) L X'(2,3) rdy s(2)])
      obtain L' where "store_label h L node = Inr L'" "holds par rid layer (Suc node) L'" "length L' = length L"
        using store [OF h(4,3)] by blast
      then show ?thesis using s(1) h sl pos False L(2) by (simp add: create_label_exp_def)
    qed
  qed
qed

lemma label_nodes_from:
  assumes top: "topological par n" and n: "n < 2 ^ 32" and rid: "length rid = 32" and X: "layer_input par rid n layer X"
  shows "\<lbrakk>i \<le> n; holds par rid layer i L; length L = 32 * n; ready par n i pc\<rbrakk> \<Longrightarrow>
    \<exists>pc' L'. label_nodes E rid layer X [i..<n] (Some pc) L = Some (Inr (Some pc', L')) \<and>
      ready par n n pc' \<and> holds par rid layer n L' \<and> length L' = 32 * n"
proof (induction "n - i" arbitrary: i L pc)
  case 0
  then show ?case by simp
next
  case (Suc k)
  then have i: "i < n" and k: "k = n - Suc i" by simp_all
  obtain pc1 L1 where 1: "(if layer = 1 then Some (create_label E (Some pc) rid L layer i)
      else create_label_exp E (Some pc) rid X L layer i) = Some (Inr (Some pc1, L1))"
      "ready par n (Suc i) pc1" "holds par rid layer (Suc i) L1" "length L1 = 32 * n"
    using label_step [OF top i n rid Suc.prems(2,3) X Suc.prems(4)] by metis
  obtain pc2 L2 where 2: "label_nodes E rid layer X [Suc i..<n] (Some pc1) L1 = Some (Inr (Some pc2, L2))"
      "ready par n n pc2" "holds par rid layer n L2" "length L2 = 32 * n"
    using Suc.hyps(1) [OF k _ 1(3,4,2)] i by auto
  show ?case unfolding upt_conv_Cons [OF i] label_nodes.simps 1(1) using 2 by simp
qed

text \<open>A buffer that holds a layer is the concatenation of its labels.\<close>

definition layer_bytes :: "(nat \<Rightarrow> u32 list) \<Rightarrow> u8 list \<Rightarrow> nat \<Rightarrow> nat \<Rightarrow> u8 list" where
  "layer_bytes par rid n layer = concat (map (label_spec par rid layer) [0..<n])"

lemma length_layer_bytes [simp]: "length (layer_bytes par rid n layer) = 32 * n"
  by (simp add: layer_bytes_def length_concat comp_def sum_list_triv)

lemma take_nodes: "32 * m \<le> length L \<Longrightarrow> take (32 * m) L = concat (map (node_at L) [0..<m])"
proof (induction m)
  case (Suc m)
  have "take (32 * m + 32) L = take (32 * m) L @ take 32 (drop (32 * m) L)" by (rule take_add)
  then show ?case using Suc by (simp add: node_at_def add.commute)
qed simp

lemma holds_bytes: "holds par rid layer n L \<Longrightarrow> length L = 32 * n \<Longrightarrow> L = layer_bytes par rid n layer"
proof -
  assume h: "holds par rid layer n L" and l: "length L = 32 * n"
  have "L = concat (map (node_at L) [0..<n])" using take_nodes [of n L] l by simp
  also have "map (node_at L) [0..<n] = map (label_spec par rid layer) [0..<n]" using h by (simp add: holds_def)
  finally show ?thesis unfolding layer_bytes_def .
qed

lemma node_at_layer: "i < n \<Longrightarrow> node_at (layer_bytes par rid n layer) i = label_spec par rid layer i"
proof -
  assume i: "i < n"
  have "length x = 32" if "x \<in> set (map (label_spec par rid layer) [0..<n])" for x using that by auto
  then show ?thesis using concat_slice [of "map (label_spec par rid layer) [0..<n]" 32 i] i
    by (simp add: node_at_def layer_bytes_def mult.commute)
qed

lemma holds_layer_bytes: "holds par rid layer n (layer_bytes par rid n layer)"
  by (simp add: holds_def node_at_layer)

lemma label_layer_ok:
  assumes "topological par n" and "n < 2 ^ 32" and "length rid = 32" and "layer_input par rid n layer X"
    and "length L = 32 * n" and "cache_ok par n pc"
  obtains pc' where "label_nodes E rid layer X [0..<n] (Some (pcache_reset pc)) L =
      Some (Inr (Some pc', layer_bytes par rid n layer))" "cache_ok par n pc'"
proof -
  have "holds par rid layer 0 L" by (simp add: holds_def)
  then obtain pc' L' where *: "label_nodes E rid layer X [0..<n] (Some (pcache_reset pc)) L = Some (Inr (Some pc', L'))"
    "ready par n n pc'" "holds par rid layer n L'" "length L' = 32 * n"
    using label_nodes_from [OF assms(1-4), of 0 L "pcache_reset pc" E] assms(5) ready_reset [OF assms(6)] by auto
  show thesis by (rule that [of pc']) (use * holds_bytes [OF *(3,4)] in \<open>auto simp: ready_def\<close>)
qed

section \<open>All layers\<close>

definition read_nat :: "string \<Rightarrow> nat" where
  "read_nat s = foldl (\<lambda>a c. a * 10 + (of_char c - 48)) 0 s"

lemma read_show_nat: "read_nat (show_nat n) = n"
proof (induction n rule: show_nat.induct)
  case (1 n)
  show ?case
  proof (cases "n < 10")
    case True
    then show ?thesis by (simp add: show_nat.simps read_nat_def)
  next
    case False
    then have "show_nat n = show_nat (n div 10) @ [char_of (48 + n mod 10)]" by (simp add: show_nat.simps [of n])
    moreover have "n mod 10 < 10" by simp
    ultimately show ?thesis using 1 False by (simp add: read_nat_def)
  qed
qed

lemma label_layer_inj [simp]: "label_layer a = label_layer b \<longleftrightarrow> a = b"
  using read_show_nat by (auto simp: label_layer_def) metis

lemma write_layer_data [simp]:
  "write_layer L id' d (Data_File x) = (if x = id' then Some L else d (Data_File x))"
  by (simp add: write_layer_def Let_def)

lemma prepare_loop_eq:
  "\<exists>d'. prepare_loop E ls d =
     (d', map (\<lambda>l. \<lparr>ls_id = label_layer l, ls_generated = is_layer_written E (label_layer l) d\<rparr>) ls) \<and>
   (\<forall>x. d' (Data_File x) = d (Data_File x))"
proof (induction ls arbitrary: d)
  case (Cons l ls)
  let ?d = "remove_tmp_layer (label_layer l) d"
  obtain d' where "prepare_loop E ls ?d =
      (d', map (\<lambda>l. \<lparr>ls_id = label_layer l, ls_generated = is_layer_written E (label_layer l) ?d\<rparr>) ls)"
    "\<forall>x. d' (Data_File x) = ?d (Data_File x)" using Cons.IH by blast
  then show ?case by (simp add: remove_tmp_layer_def is_layer_written_def Let_def)
qed simp

text \<open>
  What may be on the disk before: nothing, files of other sizes, or finished layers of the
  same replica (a run that was interrupted), for the layers below \<open>M\<close>.
\<close>

definition resumable :: "(nat \<Rightarrow> u32 list) \<Rightarrow> u8 list \<Rightarrow> nat \<Rightarrow> nat \<Rightarrow> disk \<Rightarrow> bool" where
  "resumable par rid n M d \<longleftrightarrow> (\<forall>l\<in>{1..<M}. \<forall>f. d (Data_File (label_layer l)) = Some f \<longrightarrow>
     length f = 32 * n \<longrightarrow> f = layer_bytes par rid n l)"

lemma layer_input_next: "1 \<le> k \<Longrightarrow> layer_input par rid n (Suc k) (layer_bytes par rid n k)"
  by (simp add: layer_input_def holds_layer_bytes)

lemma encoding_loop_ok:
  assumes top: "topological par n" "n < 2 ^ 32" "length rid = 32" and sz: "graph_size (ge_graph E) = n"
  shows "\<lbrakk>1 \<le> k; k \<le> M; states = map (\<lambda>l. \<lparr>ls_id = label_layer l, ls_generated = G l\<rparr>) [k..<M];
      \<And>l. k \<le> l \<Longrightarrow> l < M \<Longrightarrow> G l = is_layer_written E (label_layer l) d;
      resumable par rid n M d; length LL = 32 * n; layer_input par rid n k X; cache_ok par n pc\<rbrakk> \<Longrightarrow>
    \<exists>d' pc'. encoding_loop E rid (zip [k..<M] states) (d, pc, LL, X) = Some (Inr (d', pc')) \<and>
      cache_ok par n pc' \<and>
      (\<forall>x. d' (Data_File x) = (if x \<in> label_layer ` {k..<M} then Some (layer_bytes par rid n (read_nat (drop 6 x)))
         else d (Data_File x)))"
proof (induction "M - k" arbitrary: k states d LL X pc)
  case 0
  then show ?case by simp
next
  case (Suc j)
  then have k: "k < M" and j: "j = M - Suc k" by simp_all
  let ?rest = "map (\<lambda>l. \<lparr>ls_id = label_layer l, ls_generated = G l\<rparr>) [Suc k..<M]"
  have st: "states = \<lparr>ls_id = label_layer k, ls_generated = G k\<rparr> # ?rest"
    using Suc.prems(3) upt_conv_Cons [OF k(1)] by simp
  have X: "length X = 32 * n" using Suc.prems(7) by (simp add: layer_input_def)
  have num: "read_nat (drop 6 (label_layer l)) = l" for l
    by (simp add: label_layer_def LABEL_LAYER_KEY_def read_show_nat)
  have set: "{k..<M} = insert k {Suc k..<M}" using k by auto
  show ?case
  proof (cases "G k")
    case True
    then have "is_layer_written E (label_layer k) d" using Suc.prems(4) k by auto
    then obtain f where f: "d (Data_File (label_layer k)) = Some f" "length f = 32 * n"
      by (auto simp: is_layer_written_def NODE_SIZE_def sz split: option.splits)
    have fk: "f = layer_bytes par rid n k"
      using Suc.prems(1,5) k f unfolding resumable_def by auto
    have rd: "read_layer (label_layer k) d X = Inr f" using f X by (simp add: read_layer_def)
    obtain d' pc' where "encoding_loop E rid (zip [Suc k..<M] ?rest) (d, pc, LL, f) = Some (Inr (d', pc'))"
      "cache_ok par n pc'" "\<forall>x. d' (Data_File x) = (if x \<in> label_layer ` {Suc k..<M}
         then Some (layer_bytes par rid n (read_nat (drop 6 x))) else d (Data_File x))"
      using Suc.hyps(1) [OF j _ _ refl _ Suc.prems(5,6) layer_input_next [OF Suc.prems(1), of par rid n, folded fk] Suc.prems(8)]
        Suc.prems(4) k by auto
    then show ?thesis using True rd f fk num unfolding st upt_conv_Cons [OF k(1)] set by auto
  next
    case False
    obtain pc1 where 1: "label_nodes E rid k X [0..<n] (Some (pcache_reset pc)) LL = Some (Inr (Some pc1, layer_bytes par rid n k))"
      "cache_ok par n pc1" by (rule label_layer_ok [OF top Suc.prems(7,6,8)])
    let ?d = "write_layer (layer_bytes par rid n k) (label_layer k) d"
    have res: "resumable par rid n M ?d" using Suc.prems(5) by (auto simp: resumable_def)
    have G: "G l = is_layer_written E (label_layer l) ?d" if "Suc k \<le> l" "l < M" for l
      using Suc.prems(4) [of l] that by (simp add: is_layer_written_def)
    obtain d' pc' where "encoding_loop E rid (zip [Suc k..<M] ?rest) (?d, pc1, X, layer_bytes par rid n k) = Some (Inr (d', pc'))"
      "cache_ok par n pc'" "\<forall>x. d' (Data_File x) = (if x \<in> label_layer ` {Suc k..<M}
         then Some (layer_bytes par rid n (read_nat (drop 6 x))) else ?d (Data_File x))"
      using Suc.hyps(1) [OF j _ _ refl G res X layer_input_next [OF Suc.prems(1)] 1(2)] k by auto
    then show ?thesis using False 1(1) num unfolding st upt_conv_Cons [OF k(1)] set by (auto simp: sz)
  qed
qed

lemma decoding_loop_ok:
  assumes top: "topological par n" "n < 2 ^ 32" "length rid = 32" and sz: "graph_size (ge_graph E) = n"
  shows "\<lbrakk>1 \<le> k; k \<le> M; length LL = 32 * n; layer_input par rid n k X; cache_ok par n pc\<rbrakk> \<Longrightarrow>
    \<exists>d' pc'. decoding_loop E rid id' [k..<M] (d, pc, LL, X) =
      Some (Inr (d', pc', map (layer_bytes par rid n) [k..<M])) \<and> cache_ok par n pc'"
proof (induction "M - k" arbitrary: k d LL X pc)
  case 0
  then show ?case by simp
next
  case (Suc j)
  then have k: "k < M" and j: "j = M - Suc k" and k': "1 \<le> Suc k" "Suc k \<le> M" by simp_all
  have X: "length X = 32 * n" using Suc.prems(4) by (simp add: layer_input_def)
  obtain pc1 where 1: "label_nodes E rid k X [0..<n] (Some (pcache_reset pc)) LL = Some (Inr (Some pc1, layer_bytes par rid n k))"
    "cache_ok par n pc1" by (rule label_layer_ok [OF top Suc.prems(4,3,5)])
  let ?d = "write_layer (layer_bytes par rid n k) id' d"
  obtain d' pc' where "decoding_loop E rid id' [Suc k..<M] (?d, pc1, X, layer_bytes par rid n k) =
      Some (Inr (d', pc', map (layer_bytes par rid n) [Suc k..<M]))" "cache_ok par n pc'"
    using Suc.hyps(1) [OF j k' X layer_input_next [OF Suc.prems(1)] 1(2)] by blast
  then show ?case using 1(1) unfolding upt_conv_Cons [OF k] by (simp add: sz Let_def)
qed

section \<open>The parents of a stacked graph\<close>

lemma correspondent_below:
  assumes "graph_ok g n" and "node < n" and "i < 8"
  shows "\<exists>p. correspondent b2b g node i = Some (Inr p) \<and> unat p < n"
proof (cases "sg_api_version g = V1_0_0")
  case False
  then show ?thesis using correspondent_eq [OF assms(1) False assms(2,3), of b2b] assms(1)
    by (simp add: graph_ok_def unat_of_nat)
next
  case True
  let ?s = "slot b2b g (8 * node + i)"
  have k: "8 * node + i < 8 * n" using assms(2,3) by simp
  have s: "?s < 8 * n" using slot_bij(1) [OF assms(1), of b2b] k by (meson bij_betwE lessThan_iff)
  have n: "n < 2 ^ 32" "graph_size g = n" "expansion_degree g = 8" using assms(1) by (auto simp: graph_ok_def)
  have e: "of_nat n * of_nat 8 = (of_nat (8 * n) :: u64)" "of_nat (node * 8) + of_nat i = (of_nat (8 * node + i) :: u64)"
    by (simp_all add: mult.commute)
  have P: "permute b2b (of_nat n * of_nat 8) (of_nat (node * 8) + of_nat i) (feistel_keys g) (feistel_pre g) = Some (of_nat ?s)"
    unfolding e by (rule slot_bij(2) [OF assms(1) k])
  have "correspondent b2b g node i = Some (Inr (ucast (of_nat ?s :: u64) div of_nat 8))"
    unfolding correspondent_def Let_def n(2,3) P option.map(2) using True by simp
  moreover have "unat (ucast (of_nat ?s :: u64) div of_nat 8 :: u32) = ?s mod 2 ^ 32 div 8"
    using s n by (simp add: unat_div unsigned_ucast_eq unsigned_of_nat take_bit_eq_mod)
  moreover have "?s mod 2 ^ 32 div 8 \<le> ?s div 8" by (intro div_le_mono) simp
  moreover have "?s div 8 < n" using s by (intro less_mult_imp_div_less) simp
  ultimately show ?thesis by auto
qed

lemma expanded_loop_all:
  "(\<And>i. i \<in> set is \<Longrightarrow> \<exists>p. f i = Some (Inr p) \<and> P p) \<Longrightarrow>
   \<exists>ps. expanded_loop f is = Some (Inr ps) \<and> length ps = length is \<and> (\<forall>p\<in>set ps. P p)"
proof (induction "is")
  case (Cons i "is")
  obtain p where p: "f i = Some (Inr p)" "P p" using Cons.prems by force
  obtain ps where "expanded_loop f is = Some (Inr ps)" "length ps = length is" "\<forall>p\<in>set ps. P p"
    using Cons by (metis list.set_intros(2))
  then show ?case using p by simp
qed simp

lemma env_parents_ok:
  assumes g: "graph_ok (ge_graph E) n" and lg: "log2_bounded (ge_log2_ceil E)" and node: "node < n"
  shows "\<exists>ps. env_parents E node = Some (Inr ps) \<and> length ps = 14 \<and>
    (\<forall>p\<in>set (take 6 ps). 0 < node \<longrightarrow> unat p < node) \<and> (\<forall>p\<in>set (drop 6 ps). unat p < n)"
proof -
  let ?g = "ge_graph E"
  have d: "base_degree (base_graph ?g) = 6" "expansion_degree ?g = 8" "node < 2 ^ 32"
    using g node by (auto simp: graph_ok_def)
  obtain base where b: "bucket_parents (ge_rng E) (ge_log2_ceil E) (base_graph ?g) node (replicate 6 0) = Inr base"
      "length base = 6" "\<forall>i<6. if node = 0 then base ! i = 0 else unat (base ! i) < node"
    using bucket_parents_below [of "base_graph ?g" "replicate 6 0" node "ge_log2_ceil E" "ge_rng E"] d lg by auto
  have "\<exists>p. correspondent (ge_blake2b E) ?g node i = Some (Inr p) \<and> unat p < n" if "i \<in> set [0..<8]" for i
    using that by (intro correspondent_below [OF g node]) simp
  then obtain exp where e: "expanded_loop (correspondent (ge_blake2b E) ?g node) [0..<8] = Some (Inr exp)"
      "length exp = 8" "\<forall>p\<in>set exp. unat p < n"
    using expanded_loop_all [of "[0..<8]" "correspondent (ge_blake2b E) ?g node" "\<lambda>p. unat p < n"] by auto
  have "env_parents E node = Some (Inr (base @ exp))"
    using b(1) e(1) d by (simp add: env_parents_def stacked_parents_def expanded_parents_def DEGREE_14 slice_to_def del: upt_rec_numeral)
  then show ?thesis using b e(2,3) by (auto simp: in_set_conv_nth)
qed

text \<open>What the cache is generated from.\<close>

definition graph_parents :: "graph_env \<Rightarrow> nat \<Rightarrow> u32 list res" where
  "graph_parents E node =
     (case env_parents E node of None \<Rightarrow> Inl (Panic ''no parents'') | Some r \<Rightarrow> r)"

lemma graph_parents_topological:
  assumes "graph_ok (ge_graph E) n" and "log2_bounded (ge_log2_ceil E)"
  shows "\<exists>par. topological par n \<and> (\<forall>i<n. env_parents E i = Some (Inr (par i)))"
proof -
  define par where "par i = projr (the (env_parents E i))" for i
  have "length (par i) = 14 \<and> (\<forall>p\<in>set (take 6 (par i)). 0 < i \<longrightarrow> unat p < i) \<and>
      (\<forall>p\<in>set (drop 6 (par i)). unat p < n) \<and> env_parents E i = Some (Inr (par i))" if i: "i < n" for i
    using env_parents_ok [OF assms i] by (auto simp: par_def)
  then show ?thesis unfolding topological_def by blast
qed

lemma sdr_setting:
  assumes E: "stacked_graph_new sha None n BASE_DEGREE EXP_DEGREE porep_id v = Some (Inr (ge_graph E))" "n < 2 ^ 32"
    and lg: "log2_bounded (ge_log2_ceil E)"
    and gen: "generate digest manifest (graph_parents E) n len n = Inr (pc, file)" "0 < len" "len \<le> n"
  shows "\<exists>par. topological par n \<and> (\<forall>i<n. env_parents E i = Some (Inr (par i))) \<and> cache_ok par n pc \<and>
    graph_size (ge_graph E) = n"
proof -
  have g: "graph_ok (ge_graph E) n" using stacked_graph_new_ok [OF E(2), of sha porep_id v] E(1) by auto
  obtain par where par: "topological par n" "\<forall>i<n. env_parents E i = Some (Inr (par i))"
    using graph_parents_topological [OF g lg] by blast
  have "graph_parents E i = Inr (par i) \<and> length (par i) = 14" if "i < n" for i
    using par that by (auto simp: graph_parents_def topological_def)
  then have "cache_ok par n pc" using generate_ok(1) [OF gen(1) _ gen(2,3)] by blast
  then show ?thesis using par g by (auto simp: graph_ok_def)
qed

lemma create_labels_encoding_ok:
  assumes top: "topological par n" "n < 2 ^ 32" "length rid = 32" and sz: "graph_size (ge_graph E) = n"
    and c: "cache_ok par n pc" and r: "resumable par rid n (layers + 1) d"
  shows "\<exists>d' pc' states. create_labels_for_encoding E pc layers rid d =
      Some (Inr (d', pc', map label_layer [1..<layers + 1], states)) \<and>
    (\<forall>l\<in>{1..layers}. d' (Data_File (label_layer l)) = Some (layer_bytes par rid n l))"
proof -
  let ?G = "\<lambda>l. is_layer_written E (label_layer l) d"
  let ?st = "map (\<lambda>l. \<lparr>ls_id = label_layer l, ls_generated = ?G l\<rparr>) [1..<layers + 1]"
  obtain d1 where d1: "prepare_loop E [1..<layers + 1] d = (d1, ?st)" "\<forall>x. d1 (Data_File x) = d (Data_File x)"
    using prepare_loop_eq [of E "[1..<layers + 1]" d] by blast
  have G: "?G l = is_layer_written E (label_layer l) d1" if "1 \<le> l" "l < layers + 1" for l
    using d1(2) by (simp add: is_layer_written_def)
  have r1: "resumable par rid n (layers + 1) d1" using r d1(2) by (simp add: resumable_def)
  have X: "layer_input par rid n 1 (replicate (32 * n) 0)" by (simp add: layer_input_def)
  have L: "length (replicate (32 * n) (0 :: u8)) = 32 * n" by simp
  have le: "(1::nat) \<le> 1" "1 \<le> layers + 1" by simp_all
  obtain d' pc' where *: "encoding_loop E rid (zip [1..<layers + 1] ?st) (d1, pc, replicate (32 * n) 0, replicate (32 * n) 0) =
      Some (Inr (d', pc'))" "\<forall>x. d' (Data_File x) = (if x \<in> label_layer ` {1..<layers + 1}
         then Some (layer_bytes par rid n (read_nat (drop 6 x))) else d1 (Data_File x))"
    using encoding_loop_ok [OF top sz le refl G r1 L X c] by blast
  have "create_labels_for_encoding E pc layers rid d = Some (Inr (d', pc', map label_layer [1..<layers + 1], ?st))"
    unfolding create_labels_for_encoding_def prepare_layers_def d1(1)
    using *(1) by (simp add: NODE_SIZE_def sz mult.commute comp_def del: upt_Suc)
  moreover have "d' (Data_File (label_layer l)) = Some (layer_bytes par rid n l)" if "l \<in> {1..layers}" for l
    using that *(2) by (auto simp: label_layer_def LABEL_LAYER_KEY_def read_show_nat)
  ultimately show ?thesis by blast
qed

lemma create_labels_decoding_ok:
  assumes top: "topological par n" "n < 2 ^ 32" "length rid = 32" and sz: "graph_size (ge_graph E) = n"
    and c: "cache_ok par n pc"
  shows "\<exists>d' pc'. create_labels_for_decoding E pc layers rid id' d =
    Some (Inr (d', pc', map (layer_bytes par rid n) [1..<layers + 1]))"
proof -
  have X: "layer_input par rid n 1 (replicate (32 * n) 0)" by (simp add: layer_input_def)
  have L: "length (replicate (32 * n) (0 :: u8)) = 32 * n" by simp
  have le: "(1::nat) \<le> 1" "1 \<le> layers + 1" by simp_all
  obtain d' pc' where "decoding_loop E rid id' [1..<layers + 1] (d, pc, replicate (32 * n) 0, replicate (32 * n) 0) =
      Some (Inr (d', pc', map (layer_bytes par rid n) [1..<layers + 1]))"
    using decoding_loop_ok [OF top sz le L X c] by blast
  then show ?thesis
    by (simp add: create_labels_for_decoding_def NODE_SIZE_def sz mult.commute del: upt_Suc)
qed

section \<open>Properties\<close>

text \<open>
  C5. The labels of a replica: with the parent cache of a graph, whatever its window, and on a
  disk that may hold finished layers of an interrupted run, \<open>create_labels_for_encoding\<close>
  succeeds and the file of every layer then holds, node after node, the labels of the
  specification over the parents of the graph.
\<close>

theorem encoding_labels_correct:
  assumes "stacked_graph_new sha None n BASE_DEGREE EXP_DEGREE porep_id v = Some (Inr (ge_graph E))"
    and "n < 2 ^ 32" and "log2_bounded (ge_log2_ceil E)"
    and "generate digest manifest (graph_parents E) n len n = Inr (pc, file)" and "0 < len" and "len \<le> n"
    and "length rid = 32"
    and "\<forall>par. (\<forall>i<n. env_parents E i = Some (Inr (par i))) \<longrightarrow> resumable par rid n (layers + 1) d"
  shows "\<exists>par d' pc' states. (\<forall>i<n. env_parents E i = Some (Inr (par i))) \<and>
    create_labels_for_encoding E pc layers rid d = Some (Inr (d', pc', map label_layer [1..<layers + 1], states)) \<and>
    (\<forall>l\<in>{1..layers}. d' (Data_File (label_layer l)) = Some (concat (map (label_spec par rid l) [0..<n])))"
  using sdr_setting [OF assms(1-6)] create_labels_encoding_ok [OF _ assms(2,7)] assms(8)
  unfolding layer_bytes_def by blast

definition toy_env :: graph_env where
  "toy_env = \<lparr>ge_rng = (\<lambda>seed i. 7 * i), ge_log2_ceil = (\<lambda>m. min 63 (max 1 m)), ge_blake2b = (\<lambda>_. replicate 8 3),
     ge_graph = projr (the (stacked_graph_new (\<lambda>_. replicate 32 1) None 4 BASE_DEGREE EXP_DEGREE [] V1_2_0))\<rparr>"

lemma toy_env_ok:
  "stacked_graph_new (\<lambda>_. replicate 32 1) None 4 BASE_DEGREE EXP_DEGREE [] V1_2_0 = Some (Inr (ge_graph toy_env))"
  "log2_bounded (ge_log2_ceil toy_env)"
proof -
  have "(4::nat) < 2 ^ 32" by simp
  then show "stacked_graph_new (\<lambda>_. replicate 32 1) None 4 BASE_DEGREE EXP_DEGREE [] V1_2_0 = Some (Inr (ge_graph toy_env))"
    using stacked_graph_new_ok [of 4 "\<lambda>_. replicate 32 1" "[]" V1_2_0] by (auto simp: toy_env_def)
  show "log2_bounded (ge_log2_ceil toy_env)" by (simp add: toy_env_def log2_bounded_def)
qed

lemma toy_cache:
  "\<exists>pc file. generate toy_digest None (graph_parents toy_env) 4 3 4 = Inr (pc, file)"
proof -
  have "graph_ok (ge_graph toy_env) 4"
    using stacked_graph_new_ok [of 4 "\<lambda>_. replicate 32 1" "[]" V1_2_0] toy_env_ok(1) by auto
  then obtain par where "topological par 4" "\<forall>i<4. env_parents toy_env i = Some (Inr (par i))"
    using graph_parents_topological [OF _ toy_env_ok(2)] by blast
  then have "graph_parents toy_env i = Inr (par i) \<and> length (par i) = DEGREE" if "i < 4" for i
    using that by (auto simp: graph_parents_def topological_def DEGREE_14)
  then show ?thesis using generate_succeeds [of 4 "graph_parents toy_env" par 3 toy_digest 4] by auto
qed

theorem encoding_labels_correct_witness:
  "\<exists>pc d' pc' states. create_labels_for_encoding toy_env pc 11 (replicate 32 9) (\<lambda>_. None) =
     Some (Inr (d', pc', map label_layer [1..<12], states)) \<and> d' (Data_File (label_layer 11)) \<noteq> None"
proof -
  obtain pc fl where g: "generate toy_digest None (graph_parents toy_env) 4 3 4 = Inr (pc, fl)" using toy_cache by blast
  have n: "(4::nat) < 2 ^ 32" "(0::nat) < 3" "(3::nat) \<le> 4" "length (replicate 32 (9::u8)) = 32" by simp_all
  have "\<forall>par. (\<forall>i<4. env_parents toy_env i = Some (Inr (par i))) \<longrightarrow> resumable par (replicate 32 9) 4 (11 + 1) (\<lambda>_. None)"
    by (simp add: resumable_def)
  from encoding_labels_correct [OF toy_env_ok(1) n(1) toy_env_ok(2) g n(2-4) this]
  obtain d' pc' states par where r: "create_labels_for_encoding toy_env pc 11 (replicate 32 9) (\<lambda>_. None) =
      Some (Inr (d', pc', map label_layer [1..<11 + 1], states))"
    "\<forall>l\<in>{1..11}. d' (Data_File (label_layer l)) = Some (concat (map (label_spec par (replicate 32 9) l) [0..<4]))"
    by (elim exE conjE) (rule that)
  have "d' (Data_File (label_layer 11)) \<noteq> None" using r(2) by simp
  moreover have "(11::nat) + 1 = 12" by simp
  ultimately show ?thesis using r(1) by metis
qed

text \<open>
  C26. Decoding regenerates the same labels: the stores that \<open>create_labels_for_decoding\<close>
  returns, one per layer, hold the labels of the specification, whatever
  was on the disk.
\<close>

theorem decoding_labels_correct:
  assumes "stacked_graph_new sha None n BASE_DEGREE EXP_DEGREE porep_id v = Some (Inr (ge_graph E))"
    and "n < 2 ^ 32" and "log2_bounded (ge_log2_ceil E)"
    and "generate digest manifest (graph_parents E) n len n = Inr (pc, file)" and "0 < len" and "len \<le> n"
    and "length rid = 32"
  shows "\<exists>par d' pc'. (\<forall>i<n. env_parents E i = Some (Inr (par i))) \<and>
    create_labels_for_decoding E pc layers rid id' d =
      Some (Inr (d', pc', map (\<lambda>l. concat (map (label_spec par rid l) [0..<n])) [1..<layers + 1]))"
  using sdr_setting [OF assms(1-6)] create_labels_decoding_ok [OF _ assms(2,7)]
  unfolding layer_bytes_def by blast

theorem decoding_labels_correct_witness:
  "\<exists>pc d' pc' stores. create_labels_for_decoding toy_env pc 2 (replicate 32 9) ''x'' (\<lambda>_. None) =
     Some (Inr (d', pc', stores)) \<and> length stores = 2"
proof -
  obtain pc fl where g: "generate toy_digest None (graph_parents toy_env) 4 3 4 = Inr (pc, fl)" using toy_cache by blast
  have n: "(4::nat) < 2 ^ 32" "(0::nat) < 3" "(3::nat) \<le> 4" "length (replicate 32 (9::u8)) = 32" by simp_all
  from decoding_labels_correct [OF toy_env_ok(1) n(1) toy_env_ok(2) g n(2-4), of 2 "''x''" "\<lambda>_. None"]
  obtain par d' pc' where "create_labels_for_decoding toy_env pc 2 (replicate 32 9) ''x'' (\<lambda>_. None) =
      Some (Inr (d', pc', map (\<lambda>l. concat (map (label_spec par (replicate 32 9) l) [0..<4])) [1..<2 + 1]))"
    by (elim exE conjE) (rule that)
  moreover have "length (map (\<lambda>l. concat (map (label_spec par (replicate 32 9) l) [0..<4])) [1..<2 + 1]) = 2" by simp
  ultimately show ?thesis by blast
qed

end
