(* ===== verification/Merkle_Proof.thy ===== *)
theory Merkle_Proof
  imports Core_Types
begin

text \<open>
  Inclusion proofs: \<open>storage-proofs-core/src/merkle/proof.rs\<close>, and the proof of retrievability
  on top of them (\<open>storage-proofs-core/src/por.rs\<close>). The hash of a list of
  nodes at a height is a parameter (it panics on an arity it does not support), as is the
  number of rows of a tree. A proof of the \<open>merkletree\<close> crate is an abstract value with its
  accessors. The arities, which the code has as types, are a record. Indices are \<open>nat\<close>.
\<close>

section \<open>The code\<close>

type_synonym 'd node_hash = "'d list \<Rightarrow> nat \<Rightarrow> 'd res"

record arities =
  base_arity :: nat
  sub_tree_arity :: nat
  top_tree_arity :: nat

record 'd path_element =
  pe_hashes :: "'d list"
  pe_index :: nat

type_synonym 'd inclusion_path = "'d path_element list"

definition element_of :: "'d list \<times> nat \<Rightarrow> 'd path_element" where
  "element_of e = \<lparr>pe_hashes = fst e, pe_index = snd e\<rparr>"

text \<open>\<open>Vec::insert\<close>: a panic when the index is greater than the length.\<close>

definition vec_insert :: "'a list \<Rightarrow> nat \<Rightarrow> 'a \<Rightarrow> 'a list res" where
  "vec_insert xs i x =
     (if i \<le> length xs then Inr (take i xs @ x # drop i xs) else Inl (Panic ''insertion index out of range''))"

fun root_from :: "'d node_hash \<Rightarrow> nat \<Rightarrow> 'd inclusion_path \<Rightarrow> 'd \<Rightarrow> 'd res" where
  "root_from H height [] h = Inr h"
| "root_from H height (p # ps) h =
     bindR (vec_insert (pe_hashes p) (pe_index p) h) (\<lambda>nodes.
     bindR (H nodes height) (\<lambda>h'. root_from H (Suc height) ps h'))"

definition inclusion_root :: "'d node_hash \<Rightarrow> 'd inclusion_path \<Rightarrow> 'd \<Rightarrow> 'd res" where
  "inclusion_root H path leaf = root_from H 0 path leaf"

definition inclusion_path_index :: "nat \<Rightarrow> 'd inclusion_path \<Rightarrow> nat" where
  "inclusion_path_index arity path = foldl (\<lambda>acc p. acc * arity + pe_index p) 0 (rev path)"

record 'd single_proof =
  sg_root :: 'd
  sg_leaf :: 'd
  sg_path :: "'d inclusion_path"

record 'd sub_proof =
  sb_base_proof :: "'d inclusion_path"
  sb_sub_proof :: "'d inclusion_path"
  sb_root :: 'd
  sb_leaf :: 'd

record 'd top_proof =
  tp_base_proof :: "'d inclusion_path"
  tp_sub_proof :: "'d inclusion_path"
  tp_top_proof :: "'d inclusion_path"
  tp_root :: 'd
  tp_leaf :: 'd

datatype 'd proof_data = Single "'d single_proof" | Sub "'d sub_proof" | Top "'d top_proof"

definition single_verify :: "'d node_hash \<Rightarrow> 'd single_proof \<Rightarrow> bool res" where
  "single_verify H p =
     bindR (inclusion_root H (sg_path p) (sg_leaf p)) (\<lambda>calculated_root. Inr (sg_root p = calculated_root))"

definition sub_verify :: "'d node_hash \<Rightarrow> 'd sub_proof \<Rightarrow> bool res" where
  "sub_verify H p =
     bindR (inclusion_root H (sb_base_proof p) (sb_leaf p)) (\<lambda>sub_leaf.
     bindR (inclusion_root H (sb_sub_proof p) sub_leaf) (\<lambda>calculated_root.
     Inr (sb_root p = calculated_root)))"

definition top_verify :: "'d node_hash \<Rightarrow> 'd top_proof \<Rightarrow> bool res" where
  "top_verify H p =
     bindR (inclusion_root H (tp_base_proof p) (tp_leaf p)) (\<lambda>sub_leaf.
     bindR (inclusion_root H (tp_sub_proof p) sub_leaf) (\<lambda>top_leaf.
     bindR (inclusion_root H (tp_top_proof p) top_leaf) (\<lambda>calculated_root.
     Inr (tp_root p = calculated_root))))"

definition sub_path_index :: "arities \<Rightarrow> 'd sub_proof \<Rightarrow> nat" where
  "sub_path_index A p =
     (let base_proof_leaves = base_arity A ^ length (sb_base_proof p);
          sub_proof_index = inclusion_path_index (sub_tree_arity A) (sb_sub_proof p)
      in sub_proof_index * base_proof_leaves + inclusion_path_index (base_arity A) (sb_base_proof p))"

definition top_path_index :: "arities \<Rightarrow> 'd top_proof \<Rightarrow> nat" where
  "top_path_index A p =
     (let base_proof_leaves = base_arity A ^ length (tp_base_proof p);
          sub_proof_leaves = base_proof_leaves * sub_tree_arity A;
          sub_proof_index = inclusion_path_index (sub_tree_arity A) (tp_sub_proof p);
          top_proof_index = inclusion_path_index (top_tree_arity A) (tp_top_proof p)
      in sub_proof_index * base_proof_leaves + top_proof_index * sub_proof_leaves
         + inclusion_path_index (base_arity A) (tp_base_proof p))"

text \<open>The methods of \<open>MerkleProof\<close>, forwarded to the variant.\<close>

fun mp_verify :: "'d node_hash \<Rightarrow> 'd proof_data \<Rightarrow> bool res" where
  "mp_verify H (Single p) = single_verify H p"
| "mp_verify H (Sub p) = sub_verify H p"
| "mp_verify H (Top p) = top_verify H p"

fun mp_leaf :: "'d proof_data \<Rightarrow> 'd" where
  "mp_leaf (Single p) = sg_leaf p" | "mp_leaf (Sub p) = sb_leaf p" | "mp_leaf (Top p) = tp_leaf p"

fun mp_root :: "'d proof_data \<Rightarrow> 'd" where
  "mp_root (Single p) = sg_root p" | "mp_root (Sub p) = sb_root p" | "mp_root (Top p) = tp_root p"

fun mp_len :: "arities \<Rightarrow> 'd proof_data \<Rightarrow> nat" where
  "mp_len A (Single p) = length (sg_path p) * (base_arity A - 1) + 2"
| "mp_len A (Sub p) = sub_tree_arity A"
| "mp_len A (Top p) = top_tree_arity A"

fun mp_elements :: "'d proof_data \<Rightarrow> 'd inclusion_path" where
  "mp_elements (Single p) = sg_path p"
| "mp_elements (Sub p) = sb_base_proof p @ sb_sub_proof p"
| "mp_elements (Top p) = tp_base_proof p @ tp_sub_proof p @ tp_top_proof p"

definition mp_path :: "'d proof_data \<Rightarrow> ('d list \<times> nat) list" where
  "mp_path p = map (\<lambda>x. (pe_hashes x, pe_index x)) (mp_elements p)"

fun mp_path_index :: "arities \<Rightarrow> 'd proof_data \<Rightarrow> nat" where
  "mp_path_index A (Single p) = inclusion_path_index (base_arity A) (sg_path p)"
| "mp_path_index A (Sub p) = sub_path_index A p"
| "mp_path_index A (Top p) = top_path_index A p"

definition mp_validate :: "'d node_hash \<Rightarrow> arities \<Rightarrow> 'd proof_data \<Rightarrow> nat \<Rightarrow> bool res" where
  "mp_validate H A p node = bindR (mp_verify H p) (\<lambda>v. Inr (v \<and> node = mp_path_index A p))"

definition mp_validate_data :: "'d node_hash \<Rightarrow> 'd proof_data \<Rightarrow> 'd \<Rightarrow> bool res" where
  "mp_validate_data H p x = bindR (mp_verify H p) (\<lambda>v. Inr (v \<and> mp_leaf p = x))"

definition proves_challenge :: "arities \<Rightarrow> 'd proof_data \<Rightarrow> nat \<Rightarrow> bool" where
  "proves_challenge A p challenge \<longleftrightarrow> mp_path_index A p = challenge"

text \<open>\<open>Vec::pop\<close> followed by \<open>expect\<close>: the rest and the last element.\<close>

definition vec_pop :: "'a list \<Rightarrow> ('a list \<times> 'a) res" where
  "vec_pop xs = (if xs = [] then Inl (Panic ''path should not be empty'') else Inr (butlast xs, last xs))"

definition from_parts :: "arities \<Rightarrow> 'd \<Rightarrow> 'd \<Rightarrow> ('d list \<times> nat) list \<Rightarrow> 'd proof_data res" where
  "from_parts A leaf root path =
     (if sub_tree_arity A = 0
      then Inr (Single \<lparr>sg_root = root, sg_leaf = leaf, sg_path = map element_of path\<rparr>)
      else if top_tree_arity A = 0
      then bindR (vec_pop path) (\<lambda>(path, sub_elem).
             Inr (Sub \<lparr>sb_base_proof = map element_of path, sb_sub_proof = [element_of sub_elem],
                       sb_root = root, sb_leaf = leaf\<rparr>))
      else bindR (vec_pop path) (\<lambda>(path, top_elem). bindR (vec_pop path) (\<lambda>(path, sub_elem).
             Inr (Top \<lparr>tp_base_proof = map element_of path, tp_sub_proof = [element_of sub_elem],
                       tp_top_proof = [element_of top_elem], tp_root = root, tp_leaf = leaf\<rparr>))))"

text \<open>The accessors of a proof of the \<open>merkletree\<close> crate.\<close>

record ('p, 'd) proof_ops =
  po_root :: "'p \<Rightarrow> 'd"
  po_item :: "'p \<Rightarrow> 'd"
  po_lemma :: "'p \<Rightarrow> 'd list"
  po_path :: "'p \<Rightarrow> nat list"
  po_sub_tree_proof :: "'p \<Rightarrow> 'p option"
  po_top_layer_nodes :: "'p \<Rightarrow> nat"
  po_sub_layer_nodes :: "'p \<Rightarrow> nat"

definition extract_path :: "nat \<Rightarrow> 'd list \<Rightarrow> nat list \<Rightarrow> nat \<Rightarrow> 'd inclusion_path res" where
  "extract_path arity lemma' path lemma_start_index =
     bindR (usub (length lemma') 1) (\<lambda>end'. bindR (slice lemma' lemma_start_index end') (\<lambda>hashes.
       if arity \<le> 1 then Inl (Panic ''chunk size must be non-zero'')
       else Inr (map element_of (zip (chunks (arity - 1) hashes) path))))"

definition single_try_from_proof :: "('p, 'd) proof_ops \<Rightarrow> arities \<Rightarrow> 'p \<Rightarrow> 'd single_proof res" where
  "single_try_from_proof ops A p =
     bindR (extract_path (base_arity A) (po_lemma ops p) (po_path ops p) 1) (\<lambda>path.
       Inr \<lparr>sg_root = po_root ops p, sg_leaf = po_item ops p, sg_path = path\<rparr>)"

definition sub_try_from_proof :: "('p, 'd) proof_ops \<Rightarrow> arities \<Rightarrow> 'p \<Rightarrow> 'd sub_proof res" where
  "sub_try_from_proof ops A p =
     ensure (po_sub_layer_nodes ops p = sub_tree_arity A) ''sub arity mismatch''
       (case po_sub_tree_proof ops p of
          None \<Rightarrow> Inl (Fail ''Cannot generate sub proof without a base-proof'')
        | Some base_p \<Rightarrow>
            bindR (extract_path (base_arity A) (po_lemma ops base_p) (po_path ops base_p) 1) (\<lambda>base_proof.
            bindR (extract_path (sub_tree_arity A) (po_lemma ops p) (po_path ops p) 0) (\<lambda>sub_proof.
            Inr \<lparr>sb_base_proof = base_proof, sb_sub_proof = sub_proof, sb_root = po_root ops p,
                 sb_leaf = po_item ops base_p\<rparr>)))"

definition top_try_from_proof :: "('p, 'd) proof_ops \<Rightarrow> arities \<Rightarrow> 'p \<Rightarrow> 'd top_proof res" where
  "top_try_from_proof ops A p =
     ensure (po_top_layer_nodes ops p = top_tree_arity A) ''top arity mismatch''
     (ensure (po_sub_layer_nodes ops p = sub_tree_arity A) ''sub arity mismatch''
       (case po_sub_tree_proof ops p of
          None \<Rightarrow> Inl (Fail ''Cannot generate top proof without a sub-proof'')
        | Some sub_p \<Rightarrow>
            (case po_sub_tree_proof ops sub_p of
               None \<Rightarrow> Inl (Fail ''Cannot generate top proof without a base-proof'')
             | Some base_p \<Rightarrow>
                 bindR (extract_path (base_arity A) (po_lemma ops base_p) (po_path ops base_p) 1) (\<lambda>base_proof.
                 bindR (extract_path (sub_tree_arity A) (po_lemma ops sub_p) (po_path ops sub_p) 0) (\<lambda>sub_proof.
                 bindR (extract_path (top_tree_arity A) (po_lemma ops p) (po_path ops p) 0) (\<lambda>top_proof.
                 Inr \<lparr>tp_base_proof = base_proof, tp_sub_proof = sub_proof, tp_top_proof = top_proof,
                      tp_root = po_root ops p, tp_leaf = po_item ops base_p\<rparr>))))))"

definition try_from_proof :: "('p, 'd) proof_ops \<Rightarrow> arities \<Rightarrow> 'p \<Rightarrow> 'd proof_data res" where
  "try_from_proof ops A p =
     (if 0 < po_top_layer_nodes ops p then bindR (top_try_from_proof ops A p) (\<lambda>x. Inr (Top x))
      else if 0 < po_sub_layer_nodes ops p then bindR (sub_try_from_proof ops A p) (\<lambda>x. Inr (Sub x))
      else bindR (single_try_from_proof ops A p) (\<lambda>x. Inr (Single x)))"

text \<open>The expected length of a path; \<open>rows leaves arity\<close> is the number of rows of a tree.\<close>

definition udiv :: "nat \<Rightarrow> nat \<Rightarrow> nat res" where
  "udiv a b = (if b = 0 then Inl (Panic ''attempt to divide by zero'') else Inr (a div b))"

definition base_path_length :: "(nat \<Rightarrow> nat \<Rightarrow> nat) \<Rightarrow> arities \<Rightarrow> nat \<Rightarrow> nat res" where
  "base_path_length rows A leaves =
     bindR (if 0 < top_tree_arity A
            then bindR (udiv leaves (top_tree_arity A)) (\<lambda>l. udiv l (sub_tree_arity A))
            else if 0 < sub_tree_arity A then udiv leaves (sub_tree_arity A)
            else Inr leaves) (\<lambda>leaves. usub (rows leaves (base_arity A)) 1)"

definition compound_path_length :: "(nat \<Rightarrow> nat \<Rightarrow> nat) \<Rightarrow> arities \<Rightarrow> nat \<Rightarrow> nat res" where
  "compound_path_length rows A leaves =
     bindR (base_path_length rows A leaves) (\<lambda>len.
       Inr (len + (if 0 < sub_tree_arity A then 1 else 0) + (if 0 < top_tree_arity A then 1 else 0)))"

definition compound_tree_height :: "(nat \<Rightarrow> nat \<Rightarrow> nat) \<Rightarrow> arities \<Rightarrow> nat \<Rightarrow> nat res" where
  "compound_tree_height rows A leaves =
     bindR (usub (rows leaves (base_arity A)) 1) (\<lambda>a.
       Inr (a + (if 0 < sub_tree_arity A then sub_tree_arity A - 1 else 0)
              + (if 0 < top_tree_arity A then top_tree_arity A - 1 else 0)))"

subsection \<open>Proof of retrievability\<close>

record 'd data_proof =
  dp_proof :: "'d proof_data"
  dp_data :: 'd

record por_params =
  pp_leaves :: nat
  pp_private :: bool

record 'd por_inputs =
  pi_commitment :: "'d option"
  pi_challenge :: nat

record 'd por_private =
  pv_leaf :: 'd
  pv_root :: 'd
  pv_gen_proof :: "nat \<Rightarrow> 'd proof_data res"

definition por_prove :: "por_params \<Rightarrow> 'd por_inputs \<Rightarrow> 'd por_private \<Rightarrow> 'd data_proof res" where
  "por_prove pub pi priv =
     (if pp_leaves pub = 0 then Inl (Panic ''attempt to calculate the remainder with a divisor of zero'')
      else let challenge = pi_challenge pi mod pp_leaves pub
      in ensure (case pi_commitment pi of None \<Rightarrow> True | Some c \<Rightarrow> c = pv_root priv) ''InvalidCommitment''
           (bindR (pv_gen_proof priv challenge) (\<lambda>p. Inr \<lparr>dp_proof = p, dp_data = pv_leaf priv\<rparr>)))"

definition por_verify ::
  "'d node_hash \<Rightarrow> (nat \<Rightarrow> nat \<Rightarrow> nat) \<Rightarrow> arities \<Rightarrow> por_params \<Rightarrow> 'd por_inputs \<Rightarrow> 'd data_proof \<Rightarrow> bool res" where
  "por_verify H rows A pub pi pr =
     (let commitments_match = (case pi_commitment pi of Some c \<Rightarrow> c = mp_root (dp_proof pr) | None \<Rightarrow> True)
      in bindR (compound_path_length rows A (pp_leaves pub)) (\<lambda>expected_path_length.
         let path_length_match = (expected_path_length = length (mp_path (dp_proof pr)))
         in if \<not> (commitments_match \<and> path_length_match) then Inr False
            else bindR (mp_validate_data H (dp_proof pr) (dp_data pr)) (\<lambda>data_valid.
                 bindR (mp_validate H A (dp_proof pr) (pi_challenge pi)) (\<lambda>path_valid.
                 Inr (data_valid \<and> path_valid)))))"

subsection \<open>The hashes of the trees\<close>

text \<open>
  \<open>multi_node\<close> of the hashers of \<open>filecoin-hashers\<close>: the digests of the \<open>sha2\<close> and
  \<open>blake2s_simd\<close> crates of the concatenated parts, the first cut to 254 bits, and the
  Poseidon hash of the parts as field elements (\<open>from_repr\<close> is partial) for the supported arities.
\<close>

definition trim_to_fr32 :: "u8 list \<Rightarrow> u8 list" where
  "trim_to_fr32 h = h[31 := h ! 31 AND 0x3f]"

definition sha256_multi_node :: "(u8 list \<Rightarrow> u8 list) \<Rightarrow> u8 list node_hash" where
  "sha256_multi_node digest parts height = Inr (trim_to_fr32 (digest (concat parts)))"

definition blake2s_multi_node :: "(u8 list \<Rightarrow> u8 list) \<Rightarrow> u8 list node_hash" where
  "blake2s_multi_node digest parts height = Inr (digest (concat parts))"

definition poseidon_multi_node :: "('d \<Rightarrow> 'f option) \<Rightarrow> ('f list \<Rightarrow> 'd) \<Rightarrow> 'd node_hash" where
  "poseidon_multi_node from_repr shared_hash_frs parts height =
     (if length parts \<in> {1, 2, 4, 8, 16}
      then bindR (collectR (\<lambda>x. case from_repr x of Some fr \<Rightarrow> Inr fr | None \<Rightarrow> Inl (Panic ''from_repr failure'')) parts)
             (\<lambda>frs. Inr (shared_hash_frs frs))
      else Inl (Panic ''unsupported arity''))"

section \<open>Merkle trees\<close>

text \<open>
  The specification: the levels of a tree from the leaves to the root, each with its arity
  and the height its hash is called with (the sub- and the top-tree start at height 0 again);
  the root; the honest path of a leaf; the mixed-radix index of a path.
\<close>

fun tree_root :: "'d node_hash \<Rightarrow> (nat \<times> nat) list \<Rightarrow> 'd list \<Rightarrow> 'd res" where
  "tree_root H [] leaves = at_index leaves 0"
| "tree_root H ((a, h) # ls) leaves = bindR (collectR (\<lambda>c. H c h) (chunks a leaves)) (tree_root H ls)"

definition remove_at :: "nat \<Rightarrow> 'a list \<Rightarrow> 'a list" where
  "remove_at i xs = take i xs @ drop (Suc i) xs"

fun honest_path :: "'d node_hash \<Rightarrow> (nat \<times> nat) list \<Rightarrow> 'd list \<Rightarrow> nat \<Rightarrow> ('d list \<times> nat) list res" where
  "honest_path H [] leaves i = Inr []"
| "honest_path H ((a, h) # ls) leaves i =
     bindR (collectR (\<lambda>c. H c h) (chunks a leaves)) (\<lambda>nodes.
     bindR (honest_path H ls nodes (i div a)) (\<lambda>path.
     Inr ((remove_at (i mod a) (chunks a leaves ! (i div a)), i mod a) # path)))"

fun mixed_index :: "nat list \<Rightarrow> nat list \<Rightarrow> nat" where
  "mixed_index (a # as) (i # is) = i + a * mixed_index as is"
| "mixed_index _ _ = 0"

definition levels :: "arities \<Rightarrow> nat \<Rightarrow> (nat \<times> nat) list" where
  "levels A k = map (\<lambda>h. (base_arity A, h)) [0..<k] @
     (if 0 < sub_tree_arity A then [(sub_tree_arity A, 0)] else []) @
     (if 0 < top_tree_arity A then [(top_tree_arity A, 0)] else [])"

definition leaf_count :: "(nat \<times> nat) list \<Rightarrow> nat" where
  "leaf_count ls = prod_list (map fst ls)"

text \<open>
  An opening that collides with a tree: at some level the nodes that the hash chain of the path hashes
  are not those that the tree has at this place, and both have the same hash. The two lists are computed
  from the opening and from the leaves, so that this is a collision that one holds in the hand, and
  false for most openings (for nodes of 32 bytes it is a collision of the digest).
\<close>

fun path_collides :: "'d node_hash \<Rightarrow> (nat \<times> nat) list \<Rightarrow> 'd list \<Rightarrow> 'd inclusion_path \<Rightarrow> 'd \<Rightarrow> bool" where
  "path_collides H ((a, h) # ls) leaves (p # ps) x =
     (case (vec_insert (pe_hashes p) (pe_index p) x, collectR (\<lambda>c. H c h) (chunks a leaves)) of
        (Inr opened, Inr nodes) \<Rightarrow>
          (let j = mixed_index (map fst ls) (map pe_index ps) in
             j < length nodes \<and> opened \<noteq> chunks a leaves ! j \<and> H opened h = Inr (nodes ! j)) \<or>
          (case H opened h of Inr y \<Rightarrow> path_collides H ls nodes ps y | Inl _ \<Rightarrow> False)
      | _ \<Rightarrow> False)"
| "path_collides H ls leaves ps x = False"

definition proof_collides :: "'d node_hash \<Rightarrow> arities \<Rightarrow> nat \<Rightarrow> 'd list \<Rightarrow> 'd proof_data \<Rightarrow> bool" where
  "proof_collides H A k leaves p = path_collides H (levels A k) leaves (mp_elements p) (mp_leaf p)"

text \<open>The same for a hash of two values: two given pairs are different and have the same hash.\<close>

definition pair_collides :: "('a \<Rightarrow> 'b \<Rightarrow> 'c) \<Rightarrow> 'a \<times> 'b \<Rightarrow> 'a \<times> 'b \<Rightarrow> bool" where
  "pair_collides h u v \<longleftrightarrow> u \<noteq> v \<and> h (fst u) (snd u) = h (fst v) (snd v)"

lemma chunks_length: "0 < n \<Longrightarrow> length xs = n * m \<Longrightarrow> length (chunks n xs) = m"
proof (induction m arbitrary: xs)
  case (Suc m)
  then have "xs \<noteq> []" by auto
  then show ?case using Suc chunks_step [of n xs] by simp
qed simp

lemma chunks_nth:
  "0 < n \<Longrightarrow> length xs = n * m \<Longrightarrow> j < m \<Longrightarrow> chunks n xs ! j = take n (drop (j * n) xs)"
proof (induction m arbitrary: xs j)
  case (Suc m)
  then have "xs \<noteq> []" by auto
  then show ?case using Suc chunks_step [of n xs] by (cases j) (simp_all add: add.commute)
qed simp

lemma chunks_nth_nth:
  assumes "0 < n" "length xs = n * m" "j < m" "i < n"
  shows "length (chunks n xs ! j) = n" "chunks n xs ! j ! i = xs ! (i + n * j)"
proof -
  have "j * n + n \<le> length xs" using assms mult_le_mono1 [of "Suc j" m n] by (simp add: mult.commute add.commute)
  then show "length (chunks n xs ! j) = n" "chunks n xs ! j ! i = xs ! (i + n * j)"
    using assms by (simp_all add: chunks_nth [OF assms(1-3)] algebra_simps)
qed

lemma vec_insert_nth: "vec_insert xs i x = Inr ys \<Longrightarrow> i < length ys \<and> ys ! i = x"
  by (auto simp: vec_insert_def nth_append split: if_splits)

lemma vec_insert_remove: "i < length xs \<Longrightarrow> vec_insert (remove_at i xs) i (xs ! i) = Inr xs"
  by (simp add: vec_insert_def remove_at_def id_take_nth_drop [symmetric])

lemma foldl_index:
  "foldl (\<lambda>acc p. acc * a + pe_index p) 0 (rev ps) = mixed_index (replicate (length ps) a) (map pe_index ps)"
  by (induction ps) (simp_all add: mult.commute add.commute)

lemma mixed_append:
  "length as = length is \<Longrightarrow>
     mixed_index (as @ bs) (is @ js) = mixed_index as is + prod_list as * mixed_index bs js"
  by (induction as "is" rule: list_induct2) (simp_all add: algebra_simps)

lemma mixed_index_of_honest:
  "honest_path H ls leaves i = Inr path \<Longrightarrow> i < leaf_count ls \<Longrightarrow>
     length path = length ls \<and> mixed_index (map fst ls) (map snd path) = i"
proof (induction H ls leaves i arbitrary: path rule: honest_path.induct)
  case (1 H leaves i)
  then show ?case by (simp add: leaf_count_def)
next
  case (2 H a h ls leaves i)
  have "i div a < leaf_count ls"
    using 2(3) by (intro less_mult_imp_div_less) (simp add: leaf_count_def mult.commute)
  then show ?case using 2 by (fastforce simp: bindR_eq_Inr mult.commute)
qed

lemma root_from_append:
  "root_from H h (ps @ qs) x = bindR (root_from H h ps x) (root_from H (h + length ps) qs)"
proof (induction ps arbitrary: h x)
  case (Cons p ps)
  show ?case
  proof (cases "vec_insert (pe_hashes p) (pe_index p) x")
    case (Inr nodes)
    then show ?thesis using Cons by (cases "H nodes h") simp_all
  qed simp
qed simp

subsection \<open>Hashes that do not depend on the height\<close>

locale merkle_hash =
  fixes H :: "'d list \<Rightarrow> nat \<Rightarrow> 'd res"
  assumes height_irrelevant: "H xs h = H xs h'"
begin

lemma root_from_height: "root_from H h ps x = root_from H h' ps x"
proof (induction ps arbitrary: h h' x)
  case (Cons p ps)
  show ?case
  proof (cases "vec_insert (pe_hashes p) (pe_index p) x")
    case (Inr nodes)
    then show ?thesis using Cons [of "Suc h" _ "Suc h'"] height_irrelevant [of nodes h h']
      by (cases "H nodes h'") simp_all
  qed simp
qed simp

lemma root_append: "bindR (inclusion_root H ps x) (inclusion_root H qs) = inclusion_root H (ps @ qs) x"
proof -
  have "root_from H (0 + length ps) qs = root_from H 0 qs" by (rule ext) (rule root_from_height)
  then show ?thesis by (simp add: inclusion_root_def [abs_def] root_from_append)
qed

text \<open>All variants check the hash chain over all elements.\<close>

lemma mp_verify_iff: "mp_verify H p = Inr True \<longleftrightarrow> inclusion_root H (mp_elements p) (mp_leaf p) = Inr (mp_root p)"
proof (cases p)
  case (Single q)
  then show ?thesis by (auto simp: single_verify_def bindR_eq_Inr)
next
  case (Sub q)
  then show ?thesis by (auto simp: sub_verify_def bindR_eq_Inr simp flip: root_append)
next
  case (Top q)
  then show ?thesis by (auto simp: top_verify_def bindR_eq_Inr simp flip: root_append)
qed

text \<open>
  Binding: a path that leads from a value to the root of a tree proves that the value is the
  leaf at the index of the path, unless it collides with the tree.
\<close>

lemma path_binds:
  "\<lbrakk>length ps = length ls; \<forall>l\<in>set ls. 0 < fst l; length leaves = leaf_count ls; tree_root H ls leaves = Inr r;
    root_from H h0 ps x = Inr r\<rbrakk> \<Longrightarrow>
   path_collides H ls leaves ps x \<or> (mixed_index (map fst ls) (map pe_index ps) < length leaves \<and>
     x = leaves ! mixed_index (map fst ls) (map pe_index ps))"
proof (induction ls arbitrary: leaves ps x h0)
  case Nil
  then show ?case by (auto simp: leaf_count_def at_index_def)
next
  case (Cons l ls)
  obtain a h where l: "l = (a, h)" by (cases l)
  note 2 = Cons [unfolded l]
  obtain p qs where ps: "ps = p # qs" "length qs = length ls" using 2(2) by (cases ps) auto
  have a: "0 < a" and len: "length leaves = a * leaf_count ls" using 2(3,4) by (auto simp: leaf_count_def)
  obtain nodes where nodes: "collectR (\<lambda>c. H c h) (chunks a leaves) = Inr nodes" "tree_root H ls nodes = Inr r"
    using 2(5) by (auto simp: bindR_eq_Inr)
  obtain ns y where ns: "vec_insert (pe_hashes p) (pe_index p) x = Inr ns" "H ns h0 = Inr y" "root_from H (Suc h0) qs y = Inr r"
    using 2(6) by (auto simp: ps bindR_eq_Inr)
  let ?j = "mixed_index (map fst ls) (map pe_index qs)"
  have ln: "length nodes = leaf_count ls" using collectR_length [OF nodes(1)] chunks_length [OF a len] by simp
  have hy: "H ns h = Inr y" using ns(2) height_irrelevant [of ns h h0] by simp
  consider "path_collides H ls nodes qs y" | "?j < length nodes" "y = nodes ! ?j"
    using Cons.IH [OF ps(2) _ ln nodes(2) ns(3)] 2(3) by auto
  then show ?case
  proof cases
    case 1
    then show ?thesis using ns(1) nodes(1) hy by (simp add: ps l)
  next
    case jn: 2
    let ?c = "chunks a leaves ! ?j"
    show ?thesis
    proof (cases "ns = ?c")
      case True
      have j: "?j < leaf_count ls" using jn ln by simp
      have i: "pe_index p < length ?c" "?c ! pe_index p = x" using vec_insert_nth [OF ns(1)] True by auto
      have "length ?c = a" using chunks_nth_nth(1) [OF a len j a] .
      then have ia: "pe_index p < a" using i by simp
      have "pe_index p + a * ?j < a + a * ?j" using ia by simp
      also have "\<dots> \<le> length leaves" using j unfolding len by (metis Suc_leI mult_Suc_right mult_le_mono2)
      finally show ?thesis using chunks_nth_nth(2) [OF a len j ia] i by (simp add: ps l)
    next
      case False
      then show ?thesis using ns(1) nodes(1) hy jn by (simp add: ps l Let_def)
    qed
  qed
qed

end

subsection \<open>Shapes\<close>

lemma element_of_fields [simp]: "pe_hashes (element_of e) = fst e" "pe_index (element_of e) = snd e"
  by (simp_all add: element_of_def)

lemma leaf_count_pos: "\<forall>l\<in>set ls. 0 < fst l \<Longrightarrow> 0 < leaf_count ls"
  by (induction ls) (auto simp: leaf_count_def)

text \<open>What the type parameters promise: a proof has the variant and the path lengths of its tree.\<close>

fun shape_ok :: "arities \<Rightarrow> nat \<Rightarrow> 'd proof_data \<Rightarrow> bool" where
  "shape_ok A k (Single p) \<longleftrightarrow> sub_tree_arity A = 0 \<and> length (sg_path p) = k"
| "shape_ok A k (Sub p) \<longleftrightarrow> 0 < sub_tree_arity A \<and> top_tree_arity A = 0 \<and>
     length (sb_base_proof p) = k \<and> length (sb_sub_proof p) = 1"
| "shape_ok A k (Top p) \<longleftrightarrow> 0 < sub_tree_arity A \<and> 0 < top_tree_arity A \<and>
     length (tp_base_proof p) = k \<and> length (tp_sub_proof p) = 1 \<and> length (tp_top_proof p) = 1"

definition arities_ok :: "arities \<Rightarrow> bool" where
  "arities_ok A \<longleftrightarrow> 2 \<le> base_arity A \<and> sub_tree_arity A \<noteq> 1 \<and> top_tree_arity A \<noteq> 1 \<and>
     (0 < top_tree_arity A \<longrightarrow> 0 < sub_tree_arity A)"

text \<open>The documented row count of a full tree: one row per level and the root.\<close>

definition rows_ok :: "(nat \<Rightarrow> nat \<Rightarrow> nat) \<Rightarrow> bool" where
  "rows_ok rows \<longleftrightarrow> (\<forall>a k. 2 \<le> a \<longrightarrow> rows (a ^ k) a = k + 1)"

lemma levels_pos: "arities_ok A \<Longrightarrow> \<forall>l\<in>set (levels A k). 2 \<le> fst l"
  by (auto simp: levels_def arities_ok_def)

lemma levels_arities: "map fst (levels A k) = replicate k (base_arity A) @
    (if 0 < sub_tree_arity A then [sub_tree_arity A] else []) @ (if 0 < top_tree_arity A then [top_tree_arity A] else [])"
  by (simp add: levels_def comp_def map_replicate_const)

lemma leaf_count_levels:
  "leaf_count (levels A k) = base_arity A ^ k * (if 0 < sub_tree_arity A then sub_tree_arity A else 1) *
     (if 0 < top_tree_arity A then top_tree_arity A else 1)"
  unfolding leaf_count_def levels_arities by simp

lemma path_index_mixed:
  assumes "arities_ok A" and "shape_ok A k p"
  shows "mp_path_index A p = mixed_index (map fst (levels A k)) (map pe_index (mp_elements p))"
    and "length (mp_elements p) = length (levels A k)"
proof -
  have *: "inclusion_path_index a qs = mixed_index (replicate (length qs) a) (map pe_index qs)" for a and qs :: "'a path_element list"
    by (simp add: inclusion_path_index_def foldl_index)
  have one: "\<exists>e. qs = [e]" if "length qs = 1" for qs :: "'a path_element list" using that by (cases qs) auto
  show "mp_path_index A p = mixed_index (map fst (levels A k)) (map pe_index (mp_elements p))"
  proof (cases p)
    case (Single q)
    then show ?thesis using assms by (simp add: levels_arities * arities_ok_def)
  next
    case (Sub q)
    then obtain e where "sb_sub_proof q = [e]" using assms one by auto
    then show ?thesis using assms Sub
      by (simp add: levels_arities sub_path_index_def * mixed_append mult.commute Let_def)
  next
    case (Top q)
    then have "length (tp_sub_proof q) = 1" "length (tp_top_proof q) = 1" using assms(2) by auto
    then obtain e f where "tp_sub_proof q = [e]" "tp_top_proof q = [f]" using one by blast
    then show ?thesis using assms Top
      by (simp add: levels_arities top_path_index_def * mixed_append algebra_simps Let_def)
  qed
  show "length (mp_elements p) = length (levels A k)"
    using assms by (cases p) (auto simp: levels_def arities_ok_def)
qed

lemma expected_length:
  assumes "arities_ok A" and "rows_ok rows"
  shows "compound_path_length rows A (leaf_count (levels A k)) = Inr (length (levels A k))"
proof -
  have "rows (base_arity A ^ k) (base_arity A) = k + 1" using assms by (auto simp: rows_ok_def arities_ok_def)
  then show ?thesis using assms(1) unfolding leaf_count_levels
    by (auto simp: compound_path_length_def base_path_length_def udiv_def levels_def arities_ok_def)
qed

lemma from_parts_shape:
  assumes "arities_ok A" and "length path = length (levels A k)"
  obtains p where "from_parts A leaf root path = Inr p" "shape_ok A k p" "mp_elements p = map element_of path"
    "mp_leaf p = leaf" "mp_root p = root"
proof (cases "sub_tree_arity A = 0")
  case True
  show thesis by (rule that [of "Single \<lparr>sg_root = root, sg_leaf = leaf, sg_path = map element_of path\<rparr>"])
      (use assms True in \<open>auto simp: from_parts_def levels_def arities_ok_def\<close>)
next
  case False
  note sub = False
  then obtain ps e where ps: "path = ps @ [e]" using assms(2) by (cases path rule: rev_cases) (auto simp: levels_def)
  show thesis
  proof (cases "top_tree_arity A = 0")
    case True
    show thesis
      by (rule that [of "Sub \<lparr>sb_base_proof = map element_of ps, sb_sub_proof = [element_of e], sb_root = root, sb_leaf = leaf\<rparr>"])
        (use assms True sub in \<open>auto simp: from_parts_def levels_def vec_pop_def ps\<close>)
  next
    case False
    then obtain qs f where qs: "ps = qs @ [f]" using assms(2) sub ps by (cases ps rule: rev_cases) (auto simp: levels_def)
    have bl: "butlast (qs @ [f, e]) = qs @ [f]" by (simp add: butlast_append)
    show thesis
      by (rule that [of "Top \<lparr>tp_base_proof = map element_of qs, tp_sub_proof = [element_of f],
            tp_top_proof = [element_of e], tp_root = root, tp_leaf = leaf\<rparr>"])
        (use assms False sub bl in \<open>auto simp: from_parts_def levels_def vec_pop_def ps qs\<close>)
  qed
qed

context merkle_hash
begin

lemma honest_path_verifies:
  "\<lbrakk>\<forall>l\<in>set ls. 0 < fst l; length leaves = leaf_count ls; tree_root H ls leaves = Inr r; i < leaf_count ls\<rbrakk> \<Longrightarrow>
   \<exists>path. honest_path H ls leaves i = Inr path \<and> root_from H h0 (map element_of path) (leaves ! i) = Inr r"
proof (induction ls arbitrary: leaves i h0)
  case Nil
  then show ?case by (auto simp: at_index_def leaf_count_def split: if_splits)
next
  case (Cons l ls)
  obtain a h where l: "l = (a, h)" by (cases l)
  have a: "0 < a" and len: "length leaves = a * leaf_count ls" using Cons.prems by (auto simp: leaf_count_def l)
  obtain nodes where nodes: "collectR (\<lambda>c. H c h) (chunks a leaves) = Inr nodes" "tree_root H ls nodes = Inr r"
    using Cons.prems(3) by (auto simp: bindR_eq_Inr l)
  have ln: "length nodes = leaf_count ls" using collectR_length [OF nodes(1)] chunks_length [OF a len] by simp
  have j: "i div a < leaf_count ls"
    using Cons.prems(4) by (intro less_mult_imp_div_less) (simp add: leaf_count_def mult.commute l)
  let ?c = "chunks a leaves ! (i div a)"
  obtain path where path: "honest_path H ls nodes (i div a) = Inr path"
      "root_from H (Suc h0) (map element_of path) (nodes ! (i div a)) = Inr r"
    using Cons.IH [OF _ ln nodes(2) j] Cons.prems(1) by auto
  have im: "i mod a < a" using a by simp
  have c: "length ?c = a" "?c ! (i mod a) = leaves ! i"
    using chunks_nth_nth [OF a len j im] by (simp_all add: add.commute)
  have "H ?c h = Inr (nodes ! (i div a))"
    using collectR_nth [OF nodes(1), of "i div a"] j chunks_length [OF a len] by simp
  then have "H ?c h0 = Inr (nodes ! (i div a))" using height_irrelevant [of ?c h0 h] by simp
  then show ?case using nodes(1) path vec_insert_remove [of "i mod a" ?c] c im
    by (simp add: l)
qed

lemma validate_binds:
  assumes A: "arities_ok A" and L: "length leaves = leaf_count (levels A k)" "tree_root H (levels A k) leaves = Inr r"
    and s: "shape_ok A k p" "mp_root p = r" and v: "mp_validate H A p c = Inr True"
  shows "proof_collides H A k leaves p \<or> c < length leaves \<and> mp_leaf p = leaves ! c"
proof -
  have "mp_verify H p = Inr True" "c = mp_path_index A p" using v by (auto simp: mp_validate_def bindR_eq_Inr)
  moreover have "\<forall>l\<in>set (levels A k). 0 < fst l" using levels_pos [OF A, of k] by (metis gr0I not_numeral_le_zero)
  ultimately show ?thesis
    using path_binds [OF path_index_mixed(2) [OF A s(1)] _ L, of 0 "mp_leaf p"] path_index_mixed(1) [OF A s(1)] s(2)
    by (auto simp: mp_verify_iff inclusion_root_def proof_collides_def)
qed

lemma por_verify_binds:
  assumes A: "arities_ok A" "rows_ok rows" and L: "length leaves = leaf_count (levels A k)"
    and r: "tree_root H (levels A k) leaves = Inr r" "pp_leaves pub = length leaves" "pi_commitment pi = Some r"
    and s: "shape_ok A k (dp_proof pr)" and v: "por_verify H rows A pub pi pr = Inr True"
  shows "proof_collides H A k leaves (dp_proof pr) \<or> pi_challenge pi < length leaves \<and> dp_data pr = leaves ! pi_challenge pi"
proof -
  have "mp_root (dp_proof pr) = r" "mp_validate H A (dp_proof pr) (pi_challenge pi) = Inr True" "mp_leaf (dp_proof pr) = dp_data pr"
    using v r by (auto simp: por_verify_def mp_validate_data_def bindR_eq_Inr Let_def split: if_splits)
  then show ?thesis using validate_binds [OF A(1) L r(1) s] by simp
qed

lemma honest_proof_ok:
  assumes A: "arities_ok A" and L: "length leaves = leaf_count (levels A k)"
    and r: "tree_root H (levels A k) leaves = Inr r" and c: "c < leaf_count (levels A k)"
  obtains p where "bindR (honest_path H (levels A k) leaves c) (from_parts A (leaves ! c) r) = Inr p"
    "shape_ok A k p" "mp_verify H p = Inr True" "mp_path_index A p = c" "mp_leaf p = leaves ! c" "mp_root p = r"
proof -
  have pos: "\<forall>l\<in>set (levels A k). 0 < fst l" using levels_pos [OF A, of k] by (metis gr0I not_numeral_le_zero)
  obtain path where path: "honest_path H (levels A k) leaves c = Inr path"
      "root_from H 0 (map element_of path) (leaves ! c) = Inr r"
    using honest_path_verifies [OF pos L r c, of 0] by blast
  note m = mixed_index_of_honest [OF path(1) c]
  obtain p where p: "from_parts A (leaves ! c) r path = Inr p" "shape_ok A k p" "mp_elements p = map element_of path"
      "mp_leaf p = leaves ! c" "mp_root p = r"
    by (rule from_parts_shape [OF A conjunct1 [OF m]])
  have "mp_path_index A p = c"
    unfolding path_index_mixed(1) [OF A p(2)] p(3) using m by (simp add: comp_def)
  moreover have "mp_verify H p = Inr True" unfolding mp_verify_iff p(3-5) inclusion_root_def by (rule path(2))
  ultimately show thesis using that [of p] path(1) p by simp
qed

lemma por_verify_honest:
  assumes A: "arities_ok A" "rows_ok rows" and L: "length leaves = leaf_count (levels A k)"
    and r: "tree_root H (levels A k) leaves = Inr r" "pp_leaves pub = length leaves" "pi_commitment pi \<in> {None, Some r}"
    and c: "c = pi_challenge pi mod length leaves"
    and p: "bindR (honest_path H (levels A k) leaves c) (from_parts A (leaves ! c) r) = Inr p"
  shows "por_verify H rows A pub pi \<lparr>dp_proof = p, dp_data = leaves ! c\<rparr> = Inr (pi_challenge pi < length leaves)"
proof -
  have "\<forall>l\<in>set (levels A k). 0 < fst l" using levels_pos [OF A(1), of k] by (metis gr0I not_numeral_le_zero)
  then have n0: "length leaves \<noteq> 0" using L leaf_count_pos by fastforce
  then have cl: "c < leaf_count (levels A k)" using c L by simp
  obtain p' where p': "bindR (honest_path H (levels A k) leaves c) (from_parts A (leaves ! c) r) = Inr p'"
    "shape_ok A k p'" "mp_verify H p' = Inr True" "mp_path_index A p' = c" "mp_leaf p' = leaves ! c" "mp_root p' = r"
    by (rule honest_proof_ok [OF A(1) L r(1) cl])
  have pp: "p = p'" using p p'(1) by simp
  have "pi_challenge pi < length leaves \<longleftrightarrow> pi_challenge pi = c" using c n0 by (metis mod_less mod_less_divisor neq0_conv)
  moreover have "compound_path_length rows A (length leaves) = Inr (length (mp_path p'))"
    using expected_length [OF A] path_index_mixed(2) [OF A(1) p'(2)] L by (simp add: mp_path_def)
  ultimately show ?thesis using r p'(3-6) unfolding pp
    by (auto simp: por_verify_def mp_validate_def mp_validate_data_def)
qed

end

interpretation sha256_tree: merkle_hash "sha256_multi_node digest" for digest
  by unfold_locales (simp add: sha256_multi_node_def)

interpretation blake2s_tree: merkle_hash "blake2s_multi_node digest" for digest
  by unfold_locales (simp add: blake2s_multi_node_def)

interpretation poseidon_tree: merkle_hash "poseidon_multi_node from_repr shared_hash_frs" for from_repr shared_hash_frs
  by unfold_locales (simp add: poseidon_multi_node_def)

subsection \<open>Proofs of the merkletree crate\<close>

text \<open>
  One level of a crate proof: the lemma is the leaf (for the base level), the siblings of
  every element in order and the root; sub- and top-level lemmas start with the siblings.
\<close>

definition level_repr :: "('p, 'd) proof_ops \<Rightarrow> nat \<Rightarrow> 'd list \<Rightarrow> 'p \<Rightarrow> ('d list \<times> nat) list \<Rightarrow> bool" where
  "level_repr ops arity front p path \<longleftrightarrow> 2 \<le> arity \<and> (\<forall>e\<in>set path. length (fst e) = arity - 1) \<and>
     (\<exists>r. po_lemma ops p = front @ concat (map fst path) @ [r]) \<and> po_path ops p = map snd path"

definition represents :: "('p, 'd) proof_ops \<Rightarrow> arities \<Rightarrow> 'p \<Rightarrow> 'd \<Rightarrow> 'd \<Rightarrow> ('d list \<times> nat) list \<Rightarrow> bool" where
  "represents ops A p leaf root path \<longleftrightarrow> po_root ops p = root \<and>
     po_sub_layer_nodes ops p = sub_tree_arity A \<and> po_top_layer_nodes ops p = top_tree_arity A \<and>
     (if sub_tree_arity A = 0
      then po_item ops p = leaf \<and> level_repr ops (base_arity A) [leaf] p path
      else if top_tree_arity A = 0
      then \<exists>b ps e. path = ps @ [e] \<and> po_sub_tree_proof ops p = Some b \<and> po_item ops b = leaf \<and>
        level_repr ops (base_arity A) [leaf] b ps \<and> level_repr ops (sub_tree_arity A) [] p [e]
      else \<exists>s b ps e f. path = ps @ [e, f] \<and> po_sub_tree_proof ops p = Some s \<and> po_sub_tree_proof ops s = Some b \<and>
        po_item ops b = leaf \<and> level_repr ops (base_arity A) [leaf] b ps \<and>
        level_repr ops (sub_tree_arity A) [] s [e] \<and> level_repr ops (top_tree_arity A) [] p [f])"

lemma extract_level:
  assumes "level_repr ops arity front p path"
  shows "extract_path arity (po_lemma ops p) (po_path ops p) (length front) = Inr (map element_of path)"
proof -
  have c: "chunks (arity - 1) (concat (map fst path)) = map fst path"
    using assms by (intro chunks_concat) (auto simp: level_repr_def)
  have z: "zip (map fst path) (map snd path) = path" by (rule zip_map_fst_snd)
  show ?thesis using assms by (auto simp: level_repr_def extract_path_def c [simplified] z)
qed

lemma try_from_represents:
  assumes "represents ops A p leaf root path" and "arities_ok A"
  shows "try_from_proof ops A p = from_parts A leaf root path"
proof (cases "sub_tree_arity A = 0")
  case True
  then show ?thesis using assms extract_level [of ops "base_arity A" "[leaf]" p path]
    by (auto simp: represents_def try_from_proof_def single_try_from_proof_def from_parts_def arities_ok_def)
next
  case False
  note sub = False
  show ?thesis
  proof (cases "top_tree_arity A = 0")
    case True
    then obtain b ps e where *: "path = ps @ [e]" "po_sub_tree_proof ops p = Some b" "po_item ops b = leaf"
        "level_repr ops (base_arity A) [leaf] b ps" "level_repr ops (sub_tree_arity A) [] p [e]"
        "po_root ops p = root" "po_sub_layer_nodes ops p = sub_tree_arity A" "po_top_layer_nodes ops p = 0"
      using assms(1) sub by (auto simp: represents_def)
    show ?thesis using * True sub extract_level [OF *(4)] extract_level [OF *(5)]
      by (simp add: try_from_proof_def sub_try_from_proof_def from_parts_def vec_pop_def)
  next
    case False
    then obtain s b ps e f where *: "path = ps @ [e, f]" "po_sub_tree_proof ops p = Some s" "po_sub_tree_proof ops s = Some b"
        "po_item ops b = leaf" "level_repr ops (base_arity A) [leaf] b ps"
        "level_repr ops (sub_tree_arity A) [] s [e]" "level_repr ops (top_tree_arity A) [] p [f]"
        "po_root ops p = root" "po_sub_layer_nodes ops p = sub_tree_arity A" "po_top_layer_nodes ops p = top_tree_arity A"
      using assms(1) sub by (auto simp: represents_def)
    have bl: "butlast (ps @ [e, f]) = ps @ [e]" by (simp add: butlast_append)
    show ?thesis using * False sub bl extract_level [OF *(5)] extract_level [OF *(6)] extract_level [OF *(7)]
      by (simp add: try_from_proof_def top_try_from_proof_def from_parts_def vec_pop_def)
  qed
qed

section \<open>Properties\<close>

text \<open>The row count of the \<open>merkletree\<close> crate on full trees, for the witnesses.\<close>

fun full_rows :: "nat \<Rightarrow> nat \<Rightarrow> nat" where
  "full_rows n a = (if n \<le> 1 \<or> a < 2 then 1 else Suc (full_rows (n div a) a))"

declare full_rows.simps [simp del]

lemma full_rows_ok: "rows_ok full_rows"
  unfolding rows_ok_def
proof (intro allI impI)
  fix a k :: nat assume a: "2 \<le> a"
  show "full_rows (a ^ k) a = k + 1"
  proof (induction k)
    case (Suc k)
    have "a ^ Suc k div a = a ^ k" using a by simp
    moreover have "1 < a ^ Suc k" using a by (intro one_less_power) auto
    ultimately show ?case using Suc a by (subst full_rows.simps) simp
  qed (simp add: full_rows.simps)
qed

text \<open>
  C7. The proof of retrievability is binding: over the tree of any hasher of the code, a proof
  of the shape of its tree that \<open>verify\<close> accepts against the root proves that the value is
  the leaf at the challenge, and that the challenge is a leaf. The only exception is a proof that
  collides with the tree: the nodes it hashes at some level are not the ones that the
  tree has there, but have their hash. Neither the number of siblings nor the indices in
  the path need to be assumed.
\<close>

theorem por_verify_sound:
  assumes "H \<in> {sha256_multi_node digest, blake2s_multi_node digest, poseidon_multi_node from_repr shared_hash_frs}"
    and "arities_ok A" and "rows_ok rows" and "length leaves = leaf_count (levels A k)"
    and "tree_root H (levels A k) leaves = Inr r" and "pp_leaves pub = length leaves" and "pi_commitment pi = Some r"
    and "shape_ok A k (dp_proof pr)" and "por_verify H rows A pub pi pr = Inr True"
  shows "proof_collides H A k leaves (dp_proof pr) \<or> pi_challenge pi < length leaves \<and> dp_data pr = leaves ! pi_challenge pi"
  using assms(1) sha256_tree.por_verify_binds [OF assms(2-4), of digest r pub pi pr]
    blake2s_tree.por_verify_binds [OF assms(2-4), of digest r pub pi pr]
    poseidon_tree.por_verify_binds [OF assms(2-4), of from_repr shared_hash_frs r pub pi pr] assms(5-9)
  by blast

definition toy_sum :: "u8 list \<Rightarrow> u8 list" where
  "toy_sum bs = sum_list bs # replicate 31 0"

definition toy_leaf :: "nat \<Rightarrow> u8 list" where
  "toy_leaf i = of_nat i # replicate 31 0"

theorem por_verify_sound_witness:
  "let H = sha256_multi_node toy_sum; A = \<lparr>base_arity = 2, sub_tree_arity = 0, top_tree_arity = 0\<rparr>;
       pr = \<lparr>dp_proof = Single \<lparr>sg_root = toy_leaf 3, sg_leaf = toy_leaf 1, sg_path = [\<lparr>pe_hashes = [toy_leaf 2], pe_index = 0\<rparr>]\<rparr>,
         dp_data = toy_leaf 1\<rparr>
   in por_verify H full_rows A \<lparr>pp_leaves = 2, pp_private = False\<rparr> \<lparr>pi_commitment = Some (toy_leaf 3), pi_challenge = 0\<rparr> pr = Inr True \<and>
      \<not> proof_collides H A 1 [toy_leaf 1, toy_leaf 2] (dp_proof pr) \<and> dp_data pr = [toy_leaf 1, toy_leaf 2] ! 0"
proof -
  let ?A = "\<lparr>base_arity = 2, sub_tree_arity = 0, top_tree_arity = 0\<rparr>" and ?H = "sha256_multi_node toy_sum"
  let ?pr = "\<lparr>dp_proof = Single \<lparr>sg_root = toy_leaf 3, sg_leaf = toy_leaf 1,
       sg_path = [\<lparr>pe_hashes = [toy_leaf 2], pe_index = 0\<rparr>]\<rparr>, dp_data = toy_leaf 1\<rparr>"
  let ?pi = "\<lparr>pi_commitment = Some (toy_leaf 3), pi_challenge = 0\<rparr>"
  have v: "por_verify ?H full_rows ?A \<lparr>pp_leaves = 2, pp_private = False\<rparr> ?pi ?pr = Inr True"
    by code_simp
  have t: "tree_root ?H (levels ?A 1) [toy_leaf 1, toy_leaf 2] = Inr (toy_leaf 3)" by code_simp
  have A: "arities_ok ?A" by (simp add: arities_ok_def)
  have l: "length [toy_leaf 1, toy_leaf 2] = leaf_count (levels ?A 1)" by code_simp
  have s: "shape_ok ?A 1 (dp_proof ?pr)" by simp
  have n: "\<not> proof_collides ?H ?A 1 [toy_leaf 1, toy_leaf 2] (dp_proof ?pr)" by code_simp
  have "pi_challenge ?pi < length [toy_leaf 1, toy_leaf 2] \<and> dp_data ?pr = [toy_leaf 1, toy_leaf 2] ! pi_challenge ?pi"
    using por_verify_sound [OF _ A full_rows_ok l t _ _ s v, of toy_sum "\<lambda>_. None" "\<lambda>_. []"] n by simp
  then show ?thesis unfolding Let_def using v n by auto
qed

text \<open>
  C38. Honest proofs are accepted: a proof of the \<open>merkletree\<close> crate for a leaf becomes a proof
  that \<open>verify\<close> accepts when the challenge is a leaf. A challenge beyond the leaves, which
  \<open>prove\<close> reduces, gets a proof that is rejected.
\<close>

theorem por_prove_verify:
  assumes "H \<in> {sha256_multi_node digest, blake2s_multi_node digest, poseidon_multi_node from_repr shared_hash_frs}"
    and "arities_ok A" and "rows_ok rows" and "length leaves = leaf_count (levels A k)"
    and "tree_root H (levels A k) leaves = Inr r" and "pp_leaves pub = length leaves" and "pi_commitment pi \<in> {None, Some r}"
    and "c = pi_challenge pi mod length leaves" and "pv_root priv = r" and "pv_leaf priv = leaves ! c"
    and "honest_path H (levels A k) leaves c = Inr path" and "represents ops A p (leaves ! c) r path"
    and "pv_gen_proof priv c = try_from_proof ops A p"
  shows "bindR (por_prove pub pi priv) (por_verify H rows A pub pi) = Inr (pi_challenge pi < length leaves)"
proof -
  have pos: "\<forall>l\<in>set (levels A k). 0 < fst l" using levels_pos [OF assms(2), of k] by (metis gr0I not_numeral_le_zero)
  have n0: "length leaves \<noteq> 0" using leaf_count_pos [OF pos] assms(4) by simp
  then have cl: "c < leaf_count (levels A k)" using assms(4,8) by simp
  have lp: "length path = length (levels A k)" using mixed_index_of_honest [OF assms(11) cl] by simp
  obtain q where q: "from_parts A (leaves ! c) r path = Inr q" by (rule from_parts_shape [OF assms(2) lp])
  have e: "bindR (honest_path H (levels A k) leaves c) (from_parts A (leaves ! c) r) = Inr q" using assms(11) q by simp
  have "por_verify H rows A pub pi \<lparr>dp_proof = q, dp_data = leaves ! c\<rparr> = Inr (pi_challenge pi < length leaves)"
    using assms(1) sha256_tree.por_verify_honest [OF assms(2-4), of digest r pub pi c q]
      blake2s_tree.por_verify_honest [OF assms(2-4), of digest r pub pi c q]
      poseidon_tree.por_verify_honest [OF assms(2-4), of from_repr shared_hash_frs r pub pi c q] assms(5-8) e by blast
  moreover have "por_prove pub pi priv = Inr \<lparr>dp_proof = q, dp_data = leaves ! c\<rparr>"
    using assms(6-10,13) n0 q try_from_represents [OF assms(12,2)] by (auto simp: por_prove_def Let_def)
  ultimately show ?thesis by simp
qed

datatype toy_proof = Toy_Proof

definition toy_ops :: "(toy_proof, u8 list) proof_ops" where
  "toy_ops = \<lparr>po_root = (\<lambda>_. toy_leaf 3), po_item = (\<lambda>_. toy_leaf 2),
     po_lemma = (\<lambda>_. [toy_leaf 2, toy_leaf 1, toy_leaf 3]), po_path = (\<lambda>_. [1]), po_sub_tree_proof = (\<lambda>_. None),
     po_top_layer_nodes = (\<lambda>_. 0), po_sub_layer_nodes = (\<lambda>_. 0)\<rparr>"

theorem por_prove_verify_witness:
  "let A = \<lparr>base_arity = 2, sub_tree_arity = 0, top_tree_arity = 0\<rparr>; pub = \<lparr>pp_leaves = 2, pp_private = False\<rparr>;
       priv = \<lparr>pv_leaf = toy_leaf 2, pv_root = toy_leaf 3, pv_gen_proof = (\<lambda>_. try_from_proof toy_ops A Toy_Proof)\<rparr>;
       pi = \<lparr>pi_commitment = Some (toy_leaf 3), pi_challenge = 3\<rparr>
   in bindR (por_prove pub pi priv) (por_verify (sha256_multi_node toy_sum) full_rows A pub pi) = Inr False"
proof -
  let ?A = "\<lparr>base_arity = 2, sub_tree_arity = 0, top_tree_arity = 0\<rparr>"
  let ?H = "sha256_multi_node toy_sum"
  let ?L = "[toy_leaf 1, toy_leaf 2]"
  have A: "arities_ok ?A" by (simp add: arities_ok_def)
  have l: "length ?L = leaf_count (levels ?A 1)" by code_simp
  have t: "tree_root ?H (levels ?A 1) ?L = Inr (toy_leaf 3)" by code_simp
  have h: "honest_path ?H (levels ?A 1) ?L 1 = Inr [([toy_leaf 1], 1)]" by code_simp
  have r: "represents toy_ops ?A Toy_Proof (?L ! 1) (toy_leaf 3) [([toy_leaf 1], 1)]"
    by (simp add: represents_def level_repr_def toy_ops_def)
  have m: "1 = pi_challenge \<lparr>pi_commitment = Some (toy_leaf 3), pi_challenge = 3\<rparr> mod length ?L" by code_simp
  show ?thesis
    using por_prove_verify [OF _ A full_rows_ok l t _ _ m _ _ h r, of toy_sum "\<lambda>_. None" "\<lambda>_. []"
        "\<lparr>pp_leaves = 2, pp_private = False\<rparr>"
        "\<lparr>pv_leaf = toy_leaf 2, pv_root = toy_leaf 3, pv_gen_proof = (\<lambda>_. try_from_proof toy_ops ?A Toy_Proof)\<rparr>"]
    by (simp add: Let_def)
qed

definition sum_node :: "int node_hash" where
  "sum_node xs h = Inr (foldl (\<lambda>acc x. 2 * acc + x) 1 xs)"

text \<open>
  \<open>verify\<close> relies on the shape of the proof without checking it: only the total length of
  the path is compared. In the shape of the 64 GiB sectors (arities 8, 8 and 2, here with one
  base level) a proof whose two lowest elements are filed under the sub-tree is accepted as
  the proof of leaf 8, though its value is leaf 64.
\<close>

theorem por_verify_shape_unchecked:
  "\<exists>root pr. let A = \<lparr>base_arity = 8, sub_tree_arity = 8, top_tree_arity = 2\<rparr> in
     tree_root sum_node (levels A 1) (map int [0..<128]) = Inr root \<and>
     por_verify sum_node full_rows A \<lparr>pp_leaves = 128, pp_private = False\<rparr>
       \<lparr>pi_commitment = Some root, pi_challenge = 8\<rparr> pr = Inr True \<and>
     dp_data pr = (map int [0..<128]) ! 64 \<and> \<not> shape_ok A 1 (dp_proof pr)"
proof -
  let ?A = "\<lparr>base_arity = 8, sub_tree_arity = 8, top_tree_arity = 2\<rparr>"
  define root where "root = projr (tree_root sum_node (levels ?A 1) (map int [0..<128]))"
  define es where "es = map element_of (projr (honest_path sum_node (levels ?A 1) (map int [0..<128]) 64))"
  define pr where "pr = \<lparr>dp_proof = Top \<lparr>tp_base_proof = [], tp_sub_proof = take 2 es, tp_top_proof = drop 2 es,
      tp_root = root, tp_leaf = 64\<rparr>, dp_data = 64\<rparr>"
  have t: "tree_root sum_node (levels ?A 1) (map int [0..<128]) = Inr root" unfolding root_def by code_simp
  have v: "por_verify sum_node full_rows ?A \<lparr>pp_leaves = 128, pp_private = False\<rparr>
       \<lparr>pi_commitment = Some root, pi_challenge = 8\<rparr> pr = Inr True"
    unfolding pr_def es_def root_def by code_simp
  have "dp_data pr = (map int [0..<128]) ! 64" by (simp add: pr_def)
  moreover have "\<not> shape_ok ?A 1 (dp_proof pr)" by (simp add: pr_def)
  ultimately show ?thesis using t v unfolding Let_def by blast
qed

end
