(* ===== verification/Porep_Proof.thy ===== *)
theory Porep_Proof
  imports Merkle_Proof Create_Label Porep_Challenges
begin

text \<open>
  The vanilla proofs of replication: \<open>labeling_proof.rs\<close>, \<open>encoding_proof.rs\<close>,
  \<open>column.rs\<close>, \<open>column_proof.rs\<close>, \<open>hash.rs\<close> and the proof types of \<open>params.rs\<close>
  in \<open>storage-proofs-porep/src/stacked/vanilla\<close>, with the verification of all partitions of
  \<open>proof_scheme.rs\<close>. Domains are their 32 bytes; the conversions to and from field
  elements, the hash of the \<open>sha2\<close> crate, the Poseidon permutations of a column and the node
  hashes of the two kinds of trees are parameters.
\<close>

section \<open>The code\<close>

record 'f porep_prims =
  pq_sha256 :: "u8 list \<Rightarrow> u8 list"
  pq_poseidon :: "'f list \<Rightarrow> 'f"
  pq_from_repr :: "u8 list \<Rightarrow> 'f option"
  pq_of_fr :: "'f \<Rightarrow> u8 list"
  pq_tree_hash :: "u8 list node_hash"
  pq_hash2 :: "u8 list \<Rightarrow> u8 list \<Rightarrow> u8 list"

text \<open>Conversions of domains to field elements panic on bytes that represent none.\<close>

definition into_fr :: "'f porep_prims \<Rightarrow> u8 list \<Rightarrow> 'f res" where
  "into_fr P x = (case pq_from_repr P x of Some fr \<Rightarrow> Inr fr | None \<Rightarrow> Inl (Panic ''from_repr failure''))"

definition encode :: "'f::field porep_prims \<Rightarrow> u8 list \<Rightarrow> u8 list \<Rightarrow> u8 list res" where
  "encode P key value =
     bindR (into_fr P value) (\<lambda>v. bindR (into_fr P key) (\<lambda>k. Inr (pq_of_fr P (encode_fr k v))))"

definition decode :: "'f::field porep_prims \<Rightarrow> u8 list \<Rightarrow> u8 list \<Rightarrow> u8 list res" where
  "decode P key value =
     bindR (into_fr P value) (\<lambda>v. bindR (into_fr P key) (\<lambda>k. Inr (pq_of_fr P (v - k))))"

text \<open>\<open>check!(c)\<close>: return \<open>false\<close> unless the condition holds.\<close>

definition check :: "bool res \<Rightarrow> bool res \<Rightarrow> bool res" where
  "check c rest = bindR c (\<lambda>b. if b then rest else Inr False)"

lemma check_Inr [simp]: "check (Inr b) rest = (if b then rest else Inr False)"
  by (simp add: check_def)

lemma check_True: "check c rest = Inr True \<longleftrightarrow> c = Inr True \<and> rest = Inr True"
  by (cases c) (auto simp: check_def)

text \<open>\<open>check!\<close> for every element of a loop.\<close>

fun check_all :: "('a \<Rightarrow> bool res) \<Rightarrow> 'a list \<Rightarrow> bool res" where
  "check_all f [] = Inr True"
| "check_all f (x # xs) = check (f x) (check_all f xs)"

lemma check_all_True: "check_all f xs = Inr True \<longleftrightarrow> (\<forall>x\<in>set xs. f x = Inr True)"
  by (induction xs) (auto simp: check_True)

subsection \<open>Labels and encodings\<close>

record labeling_proof =
  lp_parents :: "u8 list list"
  lp_layer_index :: u32
  lp_node :: u64

text \<open>The 64 bytes that are hashed first.\<close>

definition proof_buffer :: "u8 list \<Rightarrow> labeling_proof \<Rightarrow> u8 list" where
  "proof_buffer replica_id p =
     replica_id @ be_of_word 4 (lp_layer_index p) @ be_of_word 8 (lp_node p) @ replicate 20 0"

definition lp_create_label :: "'f porep_prims \<Rightarrow> u8 list \<Rightarrow> labeling_proof \<Rightarrow> u8 list" where
  "lp_create_label P replica_id p =
     bytes_into_fr_repr_safe (pq_sha256 P (proof_buffer replica_id p @ concat (lp_parents p)))"

definition lp_verify :: "'f porep_prims \<Rightarrow> u8 list \<Rightarrow> u8 list \<Rightarrow> labeling_proof \<Rightarrow> bool" where
  "lp_verify P replica_id expected_label p \<longleftrightarrow> expected_label = lp_create_label P replica_id p"

text \<open>An encoding proof has the same fields, and its key is computed like a label.\<close>

type_synonym encoding_proof = labeling_proof

definition ep_create_key :: "'f porep_prims \<Rightarrow> u8 list \<Rightarrow> encoding_proof \<Rightarrow> u8 list" where
  "ep_create_key P replica_id p =
     bytes_into_fr_repr_safe (pq_sha256 P (proof_buffer replica_id p @ concat (lp_parents p)))"

definition ep_verify :: "'f::field porep_prims \<Rightarrow> u8 list \<Rightarrow> u8 list \<Rightarrow> u8 list \<Rightarrow> encoding_proof \<Rightarrow> bool res" where
  "ep_verify P replica_id exp_encoded_node decoded_node p =
     (let key = ep_create_key P replica_id p
      in bindR (into_fr P decoded_node) (\<lambda>fr.
         bindR (encode P key (pq_of_fr P fr)) (\<lambda>encoded_node.
         check (Inr (exp_encoded_node = encoded_node)) (Inr True))))"

subsection \<open>Columns\<close>

definition hash_single_column :: "'f porep_prims \<Rightarrow> 'f list \<Rightarrow> 'f res" where
  "hash_single_column P column =
     (if length column = 2 \<or> length column = 11 then Inr (pq_poseidon P column)
      else Inl (Panic ''unsupported column size''))"

record column =
  col_index :: u32
  col_rows :: "u8 list list"

definition column_hash :: "'f porep_prims \<Rightarrow> column \<Rightarrow> 'f res" where
  "column_hash P c = bindR (collectR (into_fr P) (col_rows c)) (hash_single_column P)"

definition get_node_at_layer :: "column \<Rightarrow> nat \<Rightarrow> u8 list res" where
  "get_node_at_layer c layer =
     (if 0 < layer then at_index (col_rows c) (layer - 1) else Inl (Panic ''layer must be greater than 0''))"

record column_proof =
  cp_column :: column
  cp_inclusion_proof :: "u8 list proof_data"

definition cp_root :: "column_proof \<Rightarrow> u8 list" where
  "cp_root p = mp_root (cp_inclusion_proof p)"

definition into_proof :: "(nat \<Rightarrow> u8 list proof_data res) \<Rightarrow> column \<Rightarrow> column_proof res" where
  "into_proof gen_proof c =
     bindR (gen_proof (unat (col_index c))) (\<lambda>p. Inr \<lparr>cp_column = c, cp_inclusion_proof = p\<rparr>)"

definition cp_verify :: "'f porep_prims \<Rightarrow> arities \<Rightarrow> u32 \<Rightarrow> u8 list \<Rightarrow> column_proof \<Rightarrow> bool res" where
  "cp_verify P A challenge expected_root p =
     bindR (column_hash P (cp_column p)) (\<lambda>c_i.
       check (Inr (cp_root p = expected_root))
       (check (mp_validate_data (pq_tree_hash P) (cp_inclusion_proof p) (pq_of_fr P c_i))
       (check (mp_validate (pq_tree_hash P) A (cp_inclusion_proof p) (unat challenge))
       (Inr True))))"

record replica_column_proof =
  rc_c_x :: column_proof
  rc_drg_parents :: "column_proof list"
  rc_exp_parents :: "column_proof list"

definition rc_verify :: "'f porep_prims \<Rightarrow> arities \<Rightarrow> nat \<Rightarrow> u32 list \<Rightarrow> replica_column_proof \<Rightarrow> bool res" where
  "rc_verify P A challenge parents r =
     (let expected_comm_c = cp_root (rc_c_x r) in
      check (cp_verify P A (of_nat challenge) expected_comm_c (rc_c_x r))
      (check (check_all (\<lambda>(proof, parent). cp_verify P A parent expected_comm_c proof) (zip (rc_drg_parents r) parents))
      (check (check_all (\<lambda>(proof, parent). cp_verify P A parent expected_comm_c proof)
         (zip (rc_exp_parents r) (drop (length (rc_drg_parents r)) parents)))
      (Inr True))))"

subsection \<open>The proof of a challenge\<close>

definition TOTAL_PARENTS :: nat where "TOTAL_PARENTS = 37"

record tau =
  tau_comm_d :: "u8 list"
  tau_comm_r :: "u8 list"

record public_inputs =
  pin_replica_id :: "u8 list"
  pin_seed :: "u8 list option"
  pin_tau :: "tau option"
  pin_k :: "nat option"

record public_params =
  ppr_graph :: graph_env
  ppr_challenges :: challenges
  ppr_num_layers :: nat

record porep_proof =
  pf_comm_d_proofs :: "u8 list proof_data"
  pf_comm_r_last_proof :: "u8 list proof_data"
  pf_replica_column_proofs :: replica_column_proof
  pf_labeling_proofs :: "labeling_proof list"
  pf_encoding_proof :: encoding_proof

definition binary_arities :: arities where
  "binary_arities = \<lparr>base_arity = 2, sub_tree_arity = 0, top_tree_arity = 0\<rparr>"

definition comm_c :: "porep_proof \<Rightarrow> u8 list" where
  "comm_c p = mp_root (cp_inclusion_proof (rc_c_x (pf_replica_column_proofs p)))"

definition comm_r_last :: "porep_proof \<Rightarrow> u8 list" where
  "comm_r_last p = mp_root (pf_comm_r_last_proof p)"

definition verify_labels :: "'f porep_prims \<Rightarrow> u8 list \<Rightarrow> nat \<Rightarrow> porep_proof \<Rightarrow> bool res" where
  "verify_labels P replica_id num_layers p =
     check_all (\<lambda>layer.
       check (Inr (layer - 1 < length (pf_labeling_proofs p)))
         (bindR (get_node_at_layer (cp_column (rc_c_x (pf_replica_column_proofs p))) layer) (\<lambda>labeled_node.
            Inr (lp_verify P replica_id labeled_node (pf_labeling_proofs p ! (layer - 1))))))
       [1..<num_layers + 1]"

definition verify_final_replica_layer :: "arities \<Rightarrow> nat \<Rightarrow> porep_proof \<Rightarrow> bool" where
  "verify_final_replica_layer A challenge p \<longleftrightarrow> proves_challenge A (pf_comm_r_last_proof p) challenge"

text \<open>\<open>verify\<close>; \<open>None\<close> is the outcome of the Feistel walk that does not end.\<close>

definition proof_verify ::
  "'f::field porep_prims \<Rightarrow> arities \<Rightarrow> public_params \<Rightarrow> public_inputs \<Rightarrow> nat \<Rightarrow> graph_env \<Rightarrow> porep_proof \<Rightarrow>
   bool res option" where
  "proof_verify P A pub_params pub_inputs challenge graph p =
     (case pin_tau pub_inputs of
        None \<Rightarrow> Some (Inr False)
      | Some tau \<Rightarrow>
          if \<not> (challenge < graph_size (ge_graph graph) \<and> proves_challenge binary_arities (pf_comm_d_proofs p) challenge \<and>
                mp_root (pf_comm_d_proofs p) = tau_comm_d tau)
          then Some (Inr False)
          else bindO (map_option (expectR ''graph parents failure'') (env_parents graph challenge)) (\<lambda>parents.
            Some (check (rc_verify P A challenge parents (pf_replica_column_proofs p))
                 (check (Inr (verify_final_replica_layer A challenge p))
                 (check (verify_labels P (pin_replica_id pub_inputs) (ppr_num_layers pub_params) p)
                 (check (ep_verify P (pin_replica_id pub_inputs) (mp_leaf (pf_comm_r_last_proof p))
                           (mp_leaf (pf_comm_d_proofs p)) (pf_encoding_proof p))
                 (Inr True)))))))"

text \<open>\<open>iter.cycle().take(n)\<close>.\<close>

definition cycle_take :: "nat \<Rightarrow> 'a list \<Rightarrow> 'a list" where
  "cycle_take n xs = take n (concat (replicate n xs))"

text \<open>\<open>from_parts\<close>: the iterator is lazy, so only the taken parents are read.\<close>

definition parts_labeling_proof :: "nat \<Rightarrow> u64 \<Rightarrow> column_proof list \<Rightarrow> column_proof list \<Rightarrow> labeling_proof res" where
  "parts_labeling_proof layer_index challenge drg exp =
     (let layer_parents = (if layer_index = 0 then length drg else length drg + length exp);
          layer = layer_index + 1; prev_layer = layer_index
      in bindR (collectR (\<lambda>(col_proof, l). expectR ''layer index should never be invalid'' (get_node_at_layer (cp_column col_proof) l))
             (take layer_parents (map (\<lambda>c. (c, layer)) drg @ map (\<lambda>c. (c, prev_layer)) exp))) (\<lambda>labels.
           Inr \<lparr>lp_parents = cycle_take TOTAL_PARENTS labels, lp_layer_index = of_nat layer, lp_node = challenge\<rparr>))"

definition proof_from_parts ::
  "u8 list proof_data \<Rightarrow> column_proof \<Rightarrow> column_proof list \<Rightarrow> column_proof list \<Rightarrow> u8 list proof_data \<Rightarrow> porep_proof res" where
  "proof_from_parts proof_d col_proof drg exp proof_r =
     (let challenge = ucast (col_index (cp_column col_proof));
          num_layers = length (col_rows (cp_column col_proof))
      in bindR (collectR (\<lambda>layer_index. parts_labeling_proof layer_index challenge drg exp) [0..<num_layers]) (\<lambda>labeling_proofs.
         bindR (usub num_layers 1) (\<lambda>last. bindR (at_index labeling_proofs last) (\<lambda>enc_key_proof.
         Inr \<lparr>pf_comm_d_proofs = proof_d, pf_comm_r_last_proof = proof_r,
              pf_replica_column_proofs = \<lparr>rc_c_x = col_proof, rc_drg_parents = drg, rc_exp_parents = exp\<rparr>,
              pf_labeling_proofs = labeling_proofs, pf_encoding_proof = enc_key_proof\<rparr>))))"

subsection \<open>All partitions\<close>

definition public_challenges ::
  "'f porep_prims \<Rightarrow> prims \<Rightarrow> public_inputs \<Rightarrow> challenges \<Rightarrow> nat \<Rightarrow> nat option \<Rightarrow> nat list res" where
  "public_challenges P pr pin cs sector_nodes k_opt =
     (let k = (case k_opt of None \<Rightarrow> 0 | Some k \<Rightarrow> k);
          synth = (\<lambda>tau f. bindR (into_fr P (pin_replica_id pin)) (\<lambda>id. bindR (into_fr P (tau_comm_r tau)) (f id))) in
      case cs of
        Interactive n \<Rightarrow>
          (case pin_seed pin of None \<Rightarrow> Inl (Panic ''challenge seed must be set for interactive porep'')
           | Some seed \<Rightarrow> interactive_derive (pq_sha256 P) n sector_nodes (pin_replica_id pin) seed (k mod 256))
      | Synth n \<Rightarrow>
          (case pin_tau pin of None \<Rightarrow> Inl (Panic ''comm_r must be set prior to deriving synth porep challenges'')
           | Some tau \<Rightarrow>
               (case pin_seed pin of
                  Some seed \<Rightarrow> synth tau (\<lambda>id comm_r. synth_derive pr (pq_of_fr P) n sector_nodes id comm_r seed (k mod 256))
                | None \<Rightarrow> if k = 0 then synth tau (derive_synthetic pr (pq_of_fr P) sector_nodes)
                          else Inl (Panic ''synth challenge generation is always using a single partition'')))
      | Ni n \<Rightarrow>
          (case pin_tau pin of None \<Rightarrow> Inl (Panic ''comm_r must be set prior to generating ni porep challenges'')
           | Some tau \<Rightarrow> ni_derive (pq_sha256 P) n sector_nodes (pin_replica_id pin) (tau_comm_r tau) (k mod 256)))"

text \<open>
  \<open>verify_all_partitions\<close>: the parallel \<open>all\<close> is a sequential one; a false answer and a panic
  of different partitions may then come in another order, acceptance is the same.
\<close>

fun checkO_all :: "('a \<Rightarrow> bool res option) \<Rightarrow> 'a list \<Rightarrow> bool res option" where
  "checkO_all f [] = Some (Inr True)"
| "checkO_all f (x # xs) = bindO (f x) (\<lambda>b. if b then checkO_all f xs else Some (Inr False))"

definition verify_partition ::
  "'f::field porep_prims \<Rightarrow> prims \<Rightarrow> arities \<Rightarrow> public_params \<Rightarrow> public_inputs \<Rightarrow> u8 list \<Rightarrow> nat \<times> porep_proof list \<Rightarrow>
   bool res option" where
  "verify_partition P pr A pub_params pub_inputs expected_comm_r kp =
     (let k = fst kp; proofs = snd kp in
      bindO (Some (at_index proofs 0)) (\<lambda>first.
      if expected_comm_r \<noteq> pq_hash2 P (comm_c first) (comm_r_last first) then Some (Inr False)
      else bindO (Some (public_challenges P pr pub_inputs (ppr_challenges pub_params)
                    (graph_size (ge_graph (ppr_graph pub_params))) (Some k))) (\<lambda>challenges.
           if length proofs \<noteq> length challenges then Some (Inr False)
           else checkO_all (\<lambda>(i, proof).
                  if comm_c proof \<noteq> comm_c first \<or> comm_r_last proof \<noteq> comm_r_last first then Some (Inr False)
                  else proof_verify P A pub_params pub_inputs (challenges ! i) (ppr_graph pub_params) proof)
                (enumerate 0 proofs))))"

definition verify_all_partitions ::
  "'f::field porep_prims \<Rightarrow> prims \<Rightarrow> arities \<Rightarrow> public_params \<Rightarrow> public_inputs \<Rightarrow> porep_proof list list \<Rightarrow> bool res option" where
  "verify_all_partitions P pr A pub_params pub_inputs partition_proofs =
     (case pin_tau pub_inputs of
        None \<Rightarrow> Some (Inr False)
      | Some tau \<Rightarrow>
          if (case ppr_challenges pub_params of Synth n \<Rightarrow> True | _ \<Rightarrow> False) \<and> pin_seed pub_inputs = None
          then Some (Inr True)
          else if pin_seed pub_inputs = None
          then Some (Inl (Fail ''porep challenge seed must be set to verify vanilla proofs''))
          else checkO_all (verify_partition P pr A pub_params pub_inputs (tau_comm_r tau)) (enumerate 0 partition_proofs))"

definition satisfies_requirements :: "public_params \<Rightarrow> nat \<Rightarrow> nat \<Rightarrow> bool" where
  "satisfies_requirements pub_params req_minimum partitions \<longleftrightarrow>
     req_minimum \<le> num_challenges_per_partition (ppr_challenges pub_params) * partitions"

section \<open>The proof of a labelled replica\<close>

lemma cycle_37:
  assumes "length ps = 6 \<or> length ps = 14"
  shows "cycle_take 37 ps = take 37 (concat (replicate 7 ps))"
proof -
  have "concat (replicate 37 ps) = concat (replicate 7 ps) @ concat (replicate 30 ps)"
    by (simp only: concat_append [symmetric] replicate_add [symmetric]) simp
  moreover have "37 \<le> length (concat (replicate 7 ps))" using assms by (auto simp: eval_nat_numeral)
  ultimately show ?thesis by (simp add: cycle_take_def)
qed

definition parent_labels :: "(nat \<Rightarrow> u32 list) \<Rightarrow> u8 list \<Rightarrow> nat \<Rightarrow> nat \<Rightarrow> u8 list list" where
  "parent_labels par rid layer node =
     map (\<lambda>p. label_spec par rid layer (unat p)) (take 6 (par node)) @
     (if layer \<le> 1 then [] else map (\<lambda>p. label_spec par rid (layer - 1) (unat p)) (drop 6 (par node)))"

definition honest_labeling_proof :: "(nat \<Rightarrow> u32 list) \<Rightarrow> u8 list \<Rightarrow> nat \<Rightarrow> nat \<Rightarrow> labeling_proof" where
  "honest_labeling_proof par rid layer node =
     \<lparr>lp_parents = cycle_take TOTAL_PARENTS (parent_labels par rid layer node), lp_layer_index = of_nat layer,
      lp_node = of_nat node\<rparr>"

lemma honest_label:
  assumes top: "topological par n" and node: "0 < node" "node < n" and P: "pq_sha256 P = fips_sha256"
  shows "lp_create_label P rid (honest_labeling_proof par rid layer node) = label_spec par rid layer node"
proof -
  have ps: "length (par node) = 14" "\<forall>p\<in>set (take 6 (par node)). unat p < node" using top node by (auto simp: topological_def)
  have len: "length (parent_labels par rid layer node) = 6 \<or> length (parent_labels par rid layer node) = 14"
    using ps(1) by (simp add: parent_labels_def)
  have "map (\<lambda>p. if unat p < node then label_spec par rid layer (unat p) else []) (take 6 (par node)) =
      map (\<lambda>p. label_spec par rid layer (unat p)) (take 6 (par node))" using ps(2) by (intro map_cong) auto
  then have "label_spec par rid layer node = label_hash rid layer node (parent_labels par rid layer node)"
    unfolding label_spec.simps [of par rid layer node] parent_labels_def using node by (simp del: map_eq_conv)
  also have "\<dots> = lp_create_label P rid (honest_labeling_proof par rid layer node)"
    by (simp add: label_hash_def lp_create_label_def honest_labeling_proof_def proof_buffer_def label_prefix_def P
        TOTAL_PARENTS_def cycle_37 [OF len] clear_top_def bytes_into_fr_repr_safe_def)
  finally show ?thesis by simp
qed

definition honest_column :: "(nat \<Rightarrow> u32 list) \<Rightarrow> u8 list \<Rightarrow> nat \<Rightarrow> u32 \<Rightarrow> column" where
  "honest_column par rid layers node =
     \<lparr>col_index = node, col_rows = map (\<lambda>l. label_spec par rid l (unat node)) [1..<layers + 1]\<rparr>"

lemma honest_column_node:
  assumes "1 \<le> l" "l \<le> layers"
  shows "get_node_at_layer (honest_column par rid layers node) l = Inr (label_spec par rid l (unat node))"
proof -
  have "[1..<layers + 1] ! (l - 1) = l" "l - 1 < length [1..<layers + 1]" using assms nth_upt [of 1 "l - 1" "layers + 1"] by simp_all
  then show ?thesis using assms by (simp add: get_node_at_layer_def honest_column_def del: upt_Suc)
qed

lemma parent_rows:
  assumes "map cp_column cs = map (honest_column par rid layers) ps" "1 \<le> l" "l \<le> layers"
  shows "collectR (\<lambda>(c, l). expectR ''layer index should never be invalid'' (get_node_at_layer (cp_column c) l)) (map (\<lambda>c. (c, l)) cs) =
    Inr (map (\<lambda>p. label_spec par rid l (unat p)) ps)"
  using assms(1)
proof (induction cs arbitrary: ps)
  case (Cons c cs)
  then show ?case using honest_column_node [OF assms(2, 3), of par rid] by (cases ps) auto
qed simp

lemma parts_honest:
  assumes drg: "map cp_column drg = map (honest_column par rid layers) (take 6 (par node))"
    and exp: "map cp_column exp = map (honest_column par rid layers) (drop 6 (par node))" and i: "i < layers"
  shows "parts_labeling_proof i (of_nat node) drg exp = Inr (honest_labeling_proof par rid (i + 1) node)"
proof (cases "i = 0")
  case True
  then show ?thesis using parent_rows [OF drg, of 1] i
    by (simp add: parts_labeling_proof_def honest_labeling_proof_def parent_labels_def)
next
  case False
  then show ?thesis using parent_rows [OF drg, of "i + 1"] parent_rows [OF exp, of i] i
    by (simp add: parts_labeling_proof_def honest_labeling_proof_def parent_labels_def collectR_append)
qed
text \<open>
  The documented behaviour of the field elements: 32 bytes that are read back, and a modulus
  above \<open>2 ^ 254\<close>, so that every value of 254 bits is one.
\<close>

definition fr_ok :: "'f porep_prims \<Rightarrow> bool" where
  "fr_ok P \<longleftrightarrow> (\<forall>x. pq_from_repr P (pq_of_fr P x) = Some x \<and> length (pq_of_fr P x) = 32) \<and>
     (\<forall>b. length b = 32 \<longrightarrow> b ! 31 < 0x40 \<longrightarrow> pq_from_repr P b \<noteq> None)"

definition fr_of :: "'f porep_prims \<Rightarrow> u8 list \<Rightarrow> 'f" where
  "fr_of P b = the (pq_from_repr P b)"

lemma into_fr_ok: "fr_ok P \<Longrightarrow> length b = 32 \<Longrightarrow> b ! 31 < 0x40 \<Longrightarrow> into_fr P b = Inr (fr_of P b)"
  by (auto simp: fr_ok_def into_fr_def fr_of_def split: option.splits)

lemma into_of_fr [simp]: "fr_ok P \<Longrightarrow> into_fr P (pq_of_fr P x) = Inr x"
  by (simp add: fr_ok_def into_fr_def)

lemma encode_repr: "fr_ok P \<Longrightarrow> into_fr P v = Inr x \<Longrightarrow> encode P key (pq_of_fr P x) = encode P key v"
  by (simp add: encode_def)

lemma ep_verify_iff:
  assumes "fr_ok P"
  shows "ep_verify P rid replica_node data_node p = Inr True \<longleftrightarrow>
    encode P (ep_create_key P rid p) data_node = Inr replica_node"
proof (cases "into_fr P data_node")
  case (Inl e)
  then show ?thesis by (simp add: ep_verify_def encode_def)
next
  case (Inr x)
  then show ?thesis using encode_repr [OF assms Inr]
    by (cases "encode P (ep_create_key P rid p) data_node") (auto simp: ep_verify_def)
qed

lemma and_3f_less: "(w :: u8) AND 0x3f < 0x40"
proof -
  have "w AND 0x3f \<le> 0x3f" by (rule word_and_le1)
  also have "(0x3f :: u8) < 0x40" by simp
  finally show ?thesis .
qed

lemma label_spec_top: "label_spec par rid layer node ! 31 < 0x40"
proof -
  have "length (fips_sha256 m) = 32" for m by (rule length_fips_sha256)
  then show ?thesis using and_3f_less
    by (subst label_spec.simps) (simp add: label_hash_def clear_top_def)
qed

lemma into_fr_label: "fr_ok P \<Longrightarrow> into_fr P (label_spec par rid l i) = Inr (fr_of P (label_spec par rid l i))"
  by (simp add: into_fr_ok label_spec_top)
definition column_leaf :: "'f porep_prims \<Rightarrow> (nat \<Rightarrow> u32 list) \<Rightarrow> u8 list \<Rightarrow> nat \<Rightarrow> nat \<Rightarrow> u8 list" where
  "column_leaf P par rid layers i =
     pq_of_fr P (pq_poseidon P (map (\<lambda>l. fr_of P (label_spec par rid l i)) [1..<layers + 1]))"

lemma column_hash_honest:
  assumes "fr_ok P" and "layers = 2 \<or> layers = 11"
  shows "bindR (column_hash P (honest_column par rid layers node)) (\<lambda>c. Inr (pq_of_fr P c)) =
    Inr (column_leaf P par rid layers (unat node))"
proof -
  have "collectR (into_fr P) (map (\<lambda>l. label_spec par rid l (unat node)) [1..<layers + 1]) =
      Inr (map (\<lambda>l. fr_of P (label_spec par rid l (unat node))) [1..<layers + 1])"
    by (simp only: collectR_map comp_def into_fr_label [OF assms(1)] collectR_Inr)
  then show ?thesis using assms(2)
    by (simp add: column_hash_def honest_column_def hash_single_column_def column_leaf_def del: upt_Suc)
qed

text \<open>A proof of the leaf at a position of a tree with the given leaves and root.\<close>

definition opens :: "'d node_hash \<Rightarrow> arities \<Rightarrow> 'd list \<Rightarrow> 'd \<Rightarrow> nat \<Rightarrow> 'd proof_data \<Rightarrow> bool" where
  "opens H A leaves root i p \<longleftrightarrow> mp_verify H p = Inr True \<and> mp_path_index A p = i \<and> mp_leaf p = leaves ! i \<and> mp_root p = root"

definition column_proof_of ::
  "'f porep_prims \<Rightarrow> arities \<Rightarrow> (nat \<Rightarrow> u32 list) \<Rightarrow> u8 list \<Rightarrow> nat \<Rightarrow> nat \<Rightarrow> u8 list \<Rightarrow> u32 \<Rightarrow> column_proof \<Rightarrow> bool" where
  "column_proof_of P A par rid layers n root node cp \<longleftrightarrow> cp_column cp = honest_column par rid layers node \<and>
     opens (pq_tree_hash P) A (map (column_leaf P par rid layers) [0..<n]) root (unat node) (cp_inclusion_proof cp)"

lemma cp_verify_honest:
  assumes "fr_ok P" and "layers = 2 \<or> layers = 11" and "unat node < n"
    and cp: "column_proof_of P A par rid layers n root node cp"
  shows "cp_verify P A node root cp = Inr True"
proof -
  obtain c where c: "column_hash P (honest_column par rid layers node) = Inr c" "pq_of_fr P c = column_leaf P par rid layers (unat node)"
    using column_hash_honest [OF assms(1,2), of par rid node] by (auto simp: bindR_eq_Inr)
  have "[0..<n] ! unat node = unat node" "unat node < length [0..<n]" using assms(3) by simp_all
  then show ?thesis using cp c
    by (simp add: cp_verify_def column_proof_of_def opens_def cp_root_def mp_validate_def mp_validate_data_def)
qed

lemma rc_verify_honest:
  assumes F: "fr_ok P" "layers = 2 \<or> layers = 11" and n: "n < 2 ^ 32" "c < n" and top: "topological par n" "0 < c"
    and cx: "column_proof_of P A par rid layers n root (of_nat c) (rc_c_x r)"
    and drg: "list_all2 (column_proof_of P A par rid layers n root) (take 6 (par c)) (rc_drg_parents r)"
    and exp: "list_all2 (column_proof_of P A par rid layers n root) (drop 6 (par c)) (rc_exp_parents r)"
  shows "rc_verify P A c (par c) r = Inr True"
proof -
  have len: "length (par c) = 14" and lt: "\<forall>p\<in>set (take 6 (par c)). unat p < n" "\<forall>p\<in>set (drop 6 (par c)). unat p < n"
    using top n(2) by (auto simp: topological_def dest: order.strict_trans)
  have uc: "unat (of_nat c :: u32) = c" using n by (simp add: unat_of_nat)
  have root: "cp_root (rc_c_x r) = root" using cx by (simp add: column_proof_of_def opens_def cp_root_def)
  have l6: "length (rc_drg_parents r) = 6" using list_all2_lengthD [OF drg] len by simp
  have z: "check_all (\<lambda>(proof, parent). cp_verify P A parent root proof) (zip ps (xs @ ys)) = Inr True"
    if "list_all2 (column_proof_of P A par rid layers n root) xs ps" "\<forall>x\<in>set xs. unat x < n" for xs ys ps
    using that by (induction rule: list_all2_induct) (auto simp: check_True intro: cp_verify_honest [OF F])
  have "zip (rc_drg_parents r) (par c) = zip (rc_drg_parents r) (take 6 (par c) @ drop 6 (par c))" by simp
  then show ?thesis
    using z [OF drg lt(1), of "drop 6 (par c)"] z [OF exp lt(2), of "[]"] cp_verify_honest [OF F _ cx] uc n(2)
    by (simp add: rc_verify_def root l6 Let_def)
qed

lemma verify_labels_honest:
  assumes top: "topological par n" and node: "0 < c" "c < n" "n < 2 ^ 32" and P: "pq_sha256 P = fips_sha256"
    and lp: "pf_labeling_proofs p = map (\<lambda>l. honest_labeling_proof par rid l c) [1..<layers + 1]"
    and col: "cp_column (rc_c_x (pf_replica_column_proofs p)) = honest_column par rid layers (of_nat c)"
  shows "verify_labels P rid layers p = Inr True"
  unfolding verify_labels_def check_all_True
proof (intro ballI)
  fix layer assume l: "layer \<in> set [1..<layers + 1]"
  then have l: "1 \<le> layer" "layer \<le> layers" by auto
  moreover have "unat (of_nat c :: u32) = c" using node by (simp add: unat_of_nat)
  moreover have "[1..<layers + 1] ! (layer - 1) = layer" using l nth_upt [of 1 "layer - 1" "layers + 1"] by (simp del: upt_Suc)
  ultimately show "check (Inr (layer - 1 < length (pf_labeling_proofs p)))
         (bindR (get_node_at_layer (cp_column (rc_c_x (pf_replica_column_proofs p))) layer) (\<lambda>labeled_node.
            Inr (lp_verify P rid labeled_node (pf_labeling_proofs p ! (layer - 1))))) = Inr True"
    using honest_label [OF top node(1,2) P] by (simp add: lp col honest_column_node lp_verify_def del: upt_Suc)
qed

text \<open>The proof of a challenge that \<open>from_parts\<close> composes from honest openings is accepted.\<close>

lemma proof_honest:
  assumes F: "fr_ok P" "pq_sha256 P = fips_sha256" "layers = 2 \<or> layers = 11"
    and c: "0 < c" "c < n" "n < 2 ^ 32" and top: "topological par n" and pa: "env_parents G c = Some (Inr (par c))"
    and sz: "graph_size (ge_graph G) = n" and layers: "ppr_num_layers pub_params = layers"
    and tau: "pin_tau pub_inputs = Some tau" and rid: "pin_replica_id pub_inputs = rid"
    and cx: "column_proof_of P A par rid layers n root (of_nat c) (rc_c_x (pf_replica_column_proofs p))"
    and drg: "list_all2 (column_proof_of P A par rid layers n root) (take 6 (par c)) (rc_drg_parents (pf_replica_column_proofs p))"
    and exp: "list_all2 (column_proof_of P A par rid layers n root) (drop 6 (par c)) (rc_exp_parents (pf_replica_column_proofs p))"
    and lp: "pf_labeling_proofs p = map (\<lambda>l. honest_labeling_proof par rid l c) [1..<layers + 1]"
    and ep: "pf_encoding_proof p = honest_labeling_proof par rid layers c"
    and D: "opens HD binary_arities data (tau_comm_d tau) c (pf_comm_d_proofs p)"
    and R: "opens HR A replica root_r c (pf_comm_r_last_proof p)"
    and enc: "encode P (label_spec par rid layers c) (data ! c) = Inr (replica ! c)"
  shows "proof_verify P A pub_params pub_inputs c G p = Some (Inr True)"
proof -
  have "ep_create_key P rid (honest_labeling_proof par rid layers c) = label_spec par rid layers c"
    using honest_label [OF top c(1,2) F(2), of rid layers] by (simp add: ep_create_key_def lp_create_label_def)
  then have E: "ep_verify P rid (replica ! c) (data ! c) (honest_labeling_proof par rid layers c) = Inr True"
    using enc by (simp add: ep_verify_iff [OF F(1)])
  have col: "cp_column (rc_c_x (pf_replica_column_proofs p)) = honest_column par rid layers (of_nat c)"
    using cx by (simp add: column_proof_of_def)
  show ?thesis
    using rc_verify_honest [OF F(1,3) c(3,2) top c(1) cx drg exp] verify_labels_honest [OF top c F(2) lp col] E D R
    by (simp add: proof_verify_def tau sz c(2) opens_def proves_challenge_def pa layers rid ep verify_final_replica_layer_def)
qed
subsection \<open>What an accepted proof shows\<close>

lemma proof_verify_parts:
  assumes "proof_verify P A pub_params pub_inputs c G p = Some (Inr True)"
  obtains tau ps where "pin_tau pub_inputs = Some tau" "env_parents G c = Some (Inr ps)"
    "c < graph_size (ge_graph G)" "mp_path_index binary_arities (pf_comm_d_proofs p) = c"
    "mp_root (pf_comm_d_proofs p) = tau_comm_d tau" "mp_path_index A (pf_comm_r_last_proof p) = c"
    "rc_verify P A c ps (pf_replica_column_proofs p) = Inr True"
    "verify_labels P (pin_replica_id pub_inputs) (ppr_num_layers pub_params) p = Inr True"
    "ep_verify P (pin_replica_id pub_inputs) (mp_leaf (pf_comm_r_last_proof p)) (mp_leaf (pf_comm_d_proofs p)) (pf_encoding_proof p) = Inr True"
proof -
  obtain tau where tau: "pin_tau pub_inputs = Some tau" using assms by (auto simp: proof_verify_def split: option.splits)
  have d: "c < graph_size (ge_graph G)" "mp_path_index binary_arities (pf_comm_d_proofs p) = c"
    "mp_root (pf_comm_d_proofs p) = tau_comm_d tau"
    using assms by (auto simp: proof_verify_def tau proves_challenge_def split: if_splits)
  then obtain ps where ps: "env_parents G c = Some (Inr ps)"
    using assms by (cases "env_parents G c") (auto simp: proof_verify_def tau proves_challenge_def expectR_def split: sum.splits)
  show thesis
    by (rule that [OF tau ps d]) (use assms in \<open>auto simp: proof_verify_def tau proves_challenge_def ps d check_True verify_final_replica_layer_def split: if_splits\<close>)
qed

lemma cp_verify_binds:
  assumes MH: "merkle_hash (pq_tree_hash P)" and A: "arities_ok A" and L: "length leaves = leaf_count (levels A k)"
    and r: "tree_root (pq_tree_hash P) (levels A k) leaves = Inr root" and s: "shape_ok A k (cp_inclusion_proof cp)"
    and v: "cp_verify P A node root cp = Inr True"
  shows "proof_collides (pq_tree_hash P) A k leaves (cp_inclusion_proof cp) \<or> unat node < length leaves \<and>
    bindR (column_hash P (cp_column cp)) (\<lambda>h. Inr (pq_of_fr P h)) = Inr (leaves ! unat node)"
proof -
  let ?p = "cp_inclusion_proof cp"
  obtain h where h: "column_hash P (cp_column cp) = Inr h" "mp_root ?p = root" "mp_verify (pq_tree_hash P) ?p = Inr True"
      "mp_leaf ?p = pq_of_fr P h" "unat node = mp_path_index A ?p"
    using v by (auto simp: cp_verify_def check_True bindR_eq_Inr cp_root_def mp_validate_def mp_validate_data_def split: if_splits)
  have "\<forall>l\<in>set (levels A k). 0 < fst l" using levels_pos [OF A, of k] by (metis gr0I not_numeral_le_zero)
  then show ?thesis using h
    merkle_hash.path_binds [OF MH path_index_mixed(2) [OF A s] _ L r, of 0 "mp_leaf ?p"] path_index_mixed(1) [OF A s]
    by (auto simp: merkle_hash.mp_verify_iff [OF MH] inclusion_root_def proof_collides_def)
qed

lemma zip_take_length: "zip xs (take (length xs) ys) = zip xs ys"
proof (induction xs arbitrary: ys)
  case (Cons x xs)
  then show ?case by (cases ys) simp_all
qed simp

lemma code_hashes:
  assumes "H \<in> {sha256_multi_node digest, blake2s_multi_node digest, poseidon_multi_node from_repr shared_hash_frs}"
  shows "merkle_hash H"
  using assms sha256_tree.merkle_hash_axioms [of digest] blake2s_tree.merkle_hash_axioms [of digest]
    poseidon_tree.merkle_hash_axioms [of from_repr shared_hash_frs] by blast

lemma rc_verify_parts:
  assumes "rc_verify P A c ps r = Inr True"
  shows "cp_verify P A (of_nat c) (cp_root (rc_c_x r)) (rc_c_x r) = Inr True"
    and "(cp, parent) \<in> set (zip (rc_drg_parents r @ rc_exp_parents r) ps) \<Longrightarrow>
      cp_verify P A parent (cp_root (rc_c_x r)) cp = Inr True"
proof -
  show "cp_verify P A (of_nat c) (cp_root (rc_c_x r)) (rc_c_x r) = Inr True"
    using assms by (simp add: rc_verify_def check_True Let_def)
  have "\<forall>x\<in>set (zip (rc_drg_parents r) ps). (case x of (cp, parent) \<Rightarrow> cp_verify P A parent (cp_root (rc_c_x r)) cp) = Inr True"
    "\<forall>x\<in>set (zip (rc_exp_parents r) (drop (length (rc_drg_parents r)) ps)). (case x of (cp, parent) \<Rightarrow> cp_verify P A parent (cp_root (rc_c_x r)) cp) = Inr True"
    using assms by (simp_all add: rc_verify_def check_True check_all_True Let_def)
  moreover have "set (zip (rc_drg_parents r @ rc_exp_parents r) ps) =
      set (zip (rc_drg_parents r) ps) \<union> set (zip (rc_exp_parents r) (drop (length (rc_drg_parents r)) ps))"
    by (simp add: zip_append1 zip_take_length)
  ultimately show "(cp, parent) \<in> set (zip (rc_drg_parents r @ rc_exp_parents r) ps) \<Longrightarrow>
      cp_verify P A parent (cp_root (rc_c_x r)) cp = Inr True" by fastforce
qed

text \<open>The same proof with other leaves and without the columns of the parents.\<close>

fun with_leaf :: "'d \<Rightarrow> 'd proof_data \<Rightarrow> 'd proof_data" where
  "with_leaf x (Single p) = Single (p\<lparr>sg_leaf := x\<rparr>)"
| "with_leaf x (Sub p) = Sub (p\<lparr>sb_leaf := x\<rparr>)"
| "with_leaf x (Top p) = Top (p\<lparr>tp_leaf := x\<rparr>)"

lemma with_leaf_fields [simp]:
  "mp_leaf (with_leaf x p) = x" "mp_root (with_leaf x p) = mp_root p" "mp_path_index A (with_leaf x p) = mp_path_index A p"
  by (cases p; simp add: sub_path_index_def top_path_index_def)+

definition forged :: "u8 list \<Rightarrow> u8 list \<Rightarrow> porep_proof \<Rightarrow> porep_proof" where
  "forged data_node replica_node p = p\<lparr>
     pf_comm_d_proofs := with_leaf data_node (pf_comm_d_proofs p),
     pf_comm_r_last_proof := with_leaf replica_node (pf_comm_r_last_proof p),
     pf_replica_column_proofs := \<lparr>rc_c_x = rc_c_x (pf_replica_column_proofs p), rc_drg_parents = [], rc_exp_parents = []\<rparr>\<rparr>"

lemma forged_accepted:
  assumes v: "proof_verify P A pub_params pub_inputs c G p = Some (Inr True)" and F: "fr_ok P"
    and e: "encode P (ep_create_key P (pin_replica_id pub_inputs) (pf_encoding_proof p)) data_node = Inr replica_node"
  shows "proof_verify P A pub_params pub_inputs c G (forged data_node replica_node p) = Some (Inr True)"
proof -
  obtain tau ps where o: "pin_tau pub_inputs = Some tau" "env_parents G c = Some (Inr ps)"
    "c < graph_size (ge_graph G)" "mp_path_index binary_arities (pf_comm_d_proofs p) = c"
    "mp_root (pf_comm_d_proofs p) = tau_comm_d tau" "mp_path_index A (pf_comm_r_last_proof p) = c"
    "rc_verify P A c ps (pf_replica_column_proofs p) = Inr True"
    "verify_labels P (pin_replica_id pub_inputs) (ppr_num_layers pub_params) p = Inr True"
    by (rule proof_verify_parts [OF v])
  have "ep_verify P (pin_replica_id pub_inputs) replica_node data_node (pf_encoding_proof p) = Inr True"
    using e by (simp add: ep_verify_iff [OF F])
  moreover have "verify_labels P (pin_replica_id pub_inputs) (ppr_num_layers pub_params) (forged data_node replica_node p) = Inr True"
    using o(8) by (simp add: verify_labels_def forged_def)
  moreover have "rc_verify P A c ps (pf_replica_column_proofs (forged data_node replica_node p)) = Inr True"
    using rc_verify_parts(1) [OF o(7)] by (simp add: rc_verify_def forged_def)
  ultimately show ?thesis using o
    by (simp add: proof_verify_def proves_challenge_def verify_final_replica_layer_def) (simp add: forged_def)
qed
subsection \<open>Honest proofs exist\<close>

lemma tree_root_total:
  assumes "\<And>xs h. \<exists>y. H xs h = Inr y"
  shows "\<lbrakk>length leaves = leaf_count ls; \<forall>l\<in>set ls. 0 < fst l\<rbrakk> \<Longrightarrow> \<exists>r. tree_root H ls leaves = Inr r"
proof (induction ls arbitrary: leaves)
  case Nil
  then show ?case by (simp add: leaf_count_def)
next
  case (Cons l ls)
  obtain a h where l: "l = (a, h)" by (cases l)
  obtain f where f: "H xs k = Inr (f xs k)" for xs k using assms by metis
  have a: "0 < a" "length leaves = a * leaf_count ls" using Cons.prems by (auto simp: leaf_count_def l)
  have "length (map (\<lambda>c. f c h) (chunks a leaves)) = leaf_count ls" using chunks_length [OF a] by simp
  then show ?case using Cons by (simp add: l f)
qed

lemma opens_exists:
  assumes "merkle_hash H" and "arities_ok A" and "length leaves = leaf_count (levels A k)"
    and "tree_root H (levels A k) leaves = Inr r" and "i < leaf_count (levels A k)"
  shows "\<exists>p. opens H A leaves r i p \<and> shape_ok A k p"
  by (rule merkle_hash.honest_proof_ok [OF assms]) (auto simp: opens_def)

lemma honest_proof_exists:
  assumes MH: "merkle_hash (pq_tree_hash P)" "merkle_hash HD" and A: "arities_ok A"
    and n: "n = leaf_count (levels A k)" "n = leaf_count (levels binary_arities kd)"
    and F: "fr_ok P" "pq_sha256 P = fips_sha256" "layers = 2 \<or> layers = 11"
    and c: "0 < c" "c < n" "n < 2 ^ 32" and top: "topological par n" and pa: "env_parents G c = Some (Inr (par c))"
    and sz: "graph_size (ge_graph G) = n" and layers: "ppr_num_layers pub_params = layers"
    and tau: "pin_tau pub_inputs = Some tau" and rid: "pin_replica_id pub_inputs = rid"
    and C: "tree_root (pq_tree_hash P) (levels A k) (map (column_leaf P par rid layers) [0..<n]) = Inr root"
    and D: "length data = n" "tree_root HD (levels binary_arities kd) data = Inr (tau_comm_d tau)"
    and R: "length replica = n" "tree_root (pq_tree_hash P) (levels A k) replica = Inr root_r"
    and enc: "encode P (label_spec par rid layers c) (data ! c) = Inr (replica ! c)"
  shows "\<exists>p. proof_verify P A pub_params pub_inputs c G p = Some (Inr True) \<and> comm_c p = root \<and> comm_r_last p = root_r \<and>
    (\<forall>cp\<in>insert (rc_c_x (pf_replica_column_proofs p))
       (set (rc_drg_parents (pf_replica_column_proofs p)) \<union> set (rc_exp_parents (pf_replica_column_proofs p))).
       shape_ok A k (cp_inclusion_proof cp))"
proof -
  let ?leaves = "map (column_leaf P par rid layers) [0..<n]"
  have ex: "\<exists>cp. column_proof_of P A par rid layers n root node cp \<and> shape_ok A k (cp_inclusion_proof cp)" if node: "unat node < n" for node
  proof -
    obtain p where "opens (pq_tree_hash P) A ?leaves root (unat node) p" "shape_ok A k p"
      using opens_exists [OF MH(1) A _ C, of "unat node"] node n by auto
    then show ?thesis by (intro exI [of _ "\<lparr>cp_column = honest_column par rid layers node, cp_inclusion_proof = p\<rparr>"])
        (simp add: column_proof_of_def)
  qed
  then obtain f where f: "unat node < n \<Longrightarrow> column_proof_of P A par rid layers n root node (f node) \<and> shape_ok A k (cp_inclusion_proof (f node))" for node
    by metis
  have lt: "\<forall>p\<in>set (take 6 (par c)). unat p < n" "\<forall>p\<in>set (drop 6 (par c)). unat p < n"
    using top c by (auto simp: topological_def dest: order.strict_trans)
  have uc: "unat (of_nat c :: u32) < n" using c by (simp add: unat_of_nat)
  obtain pd where pd: "opens HD binary_arities data (tau_comm_d tau) c pd"
    using opens_exists [OF MH(2) _ _ D(2), of c] c n D by (auto simp: arities_ok_def binary_arities_def)
  obtain pr where pr: "opens (pq_tree_hash P) A replica root_r c pr"
    using opens_exists [OF MH(1) A _ R(2), of c] c n R by auto
  let ?p = "\<lparr>pf_comm_d_proofs = pd, pf_comm_r_last_proof = pr, pf_replica_column_proofs = \<lparr>rc_c_x = f (of_nat c),
      rc_drg_parents = map f (take 6 (par c)), rc_exp_parents = map f (drop 6 (par c))\<rparr>,
    pf_labeling_proofs = map (\<lambda>l. honest_labeling_proof par rid l c) [1..<layers + 1],
    pf_encoding_proof = honest_labeling_proof par rid layers c\<rparr>"
  have "proof_verify P A pub_params pub_inputs c G ?p = Some (Inr True)"
    by (rule proof_honest [OF F c top pa sz layers tau rid, where p = ?p and root = root and root_r = root_r and data = data
          and replica = replica and HD = HD and HR = "pq_tree_hash P"])
      (use f lt uc pd pr enc in \<open>simp_all add: list_all2_map2 list_all2_same\<close>)
  moreover have "comm_c ?p = root" using f [OF uc] by (simp add: comm_c_def column_proof_of_def opens_def)
  moreover have "comm_r_last ?p = root_r" using pr by (simp add: comm_r_last_def opens_def)
  ultimately show ?thesis using f lt uc by (intro exI [of _ ?p]) auto
qed
subsection \<open>An instance\<close>

text \<open>A field of two elements, and primitives over it that satisfy the documented behaviour.\<close>

datatype toy_fr = F0 | F1

instantiation toy_fr :: field
begin

definition zero_toy_fr :: toy_fr where "0 = F0"
definition one_toy_fr :: toy_fr where "1 = F1"
definition plus_toy_fr :: "toy_fr \<Rightarrow> toy_fr \<Rightarrow> toy_fr" where "a + b = (if a = b then F0 else F1)"
definition uminus_toy_fr :: "toy_fr \<Rightarrow> toy_fr" where "- a = (a :: toy_fr)"
definition minus_toy_fr :: "toy_fr \<Rightarrow> toy_fr \<Rightarrow> toy_fr" where "a - b = (a + b :: toy_fr)"
definition times_toy_fr :: "toy_fr \<Rightarrow> toy_fr \<Rightarrow> toy_fr" where "a * b = (if a = F1 \<and> b = F1 then F1 else F0)"
definition inverse_toy_fr :: "toy_fr \<Rightarrow> toy_fr" where "inverse a = (a :: toy_fr)"
definition divide_toy_fr :: "toy_fr \<Rightarrow> toy_fr \<Rightarrow> toy_fr" where "divide a b = (a * b :: toy_fr)"

lemmas toy_fr_defs = zero_toy_fr_def one_toy_fr_def plus_toy_fr_def uminus_toy_fr_def minus_toy_fr_def times_toy_fr_def
  inverse_toy_fr_def divide_toy_fr_def

instance
proof
  fix a b c :: toy_fr
  show "a + b + c = a + (b + c)" by (cases a; cases b; cases c) (simp_all add: toy_fr_defs)
  show "a + b = b + a" by (cases a; cases b) (simp_all add: toy_fr_defs)
  show "0 + a = a" by (cases a) (simp_all add: toy_fr_defs)
  show "- a + a = 0" by (cases a) (simp_all add: toy_fr_defs)
  show "a - b = a + - b" by (cases a; cases b) (simp_all add: toy_fr_defs)
  show "a * b * c = a * (b * c)" by (cases a; cases b; cases c) (simp_all add: toy_fr_defs)
  show "a * b = b * a" by (cases a; cases b) (simp_all add: toy_fr_defs)
  show "1 * a = a" by (cases a) (simp_all add: toy_fr_defs)
  show "(a + b) * c = a * c + b * c" by (cases a; cases b; cases c) (simp_all add: toy_fr_defs)
  show "(0::toy_fr) \<noteq> 1" by (simp add: toy_fr_defs)
  show "a \<noteq> 0 \<Longrightarrow> inverse a * a = 1" by (cases a) (simp_all add: toy_fr_defs)
  show "divide a b = a * inverse b" by (simp add: toy_fr_defs)
  show "inverse (0::toy_fr) = 0" by (simp add: toy_fr_defs)
qed

end

definition toy_to_fr :: "u8 list \<Rightarrow> toy_fr option" where
  "toy_to_fr b = (if length b = 32 then Some (if bit (b ! 0) 0 then F1 else F0) else None)"

definition toy_of_fr :: "toy_fr \<Rightarrow> u8 list" where
  "toy_of_fr x = (if x = F1 then 1 else 0) # replicate 31 0"

definition toy_prims :: "toy_fr porep_prims" where
  "toy_prims = \<lparr>pq_sha256 = fips_sha256, pq_poseidon = (\<lambda>xs. foldr (+) xs 0), pq_from_repr = toy_to_fr, pq_of_fr = toy_of_fr,
     pq_tree_hash = sha256_multi_node toy_sum, pq_hash2 = (\<lambda>a b. trim_to_fr32 (toy_sum (a @ b)))\<rparr>"

lemma toy_prims_ok: "fr_ok toy_prims"
  by (auto simp: fr_ok_def toy_prims_def toy_to_fr_def toy_of_fr_def)
    (metis toy_fr.exhaust)

lemma toy_hash: "merkle_hash (pq_tree_hash toy_prims)" "\<exists>y. sha256_multi_node digest xs h = Inr y"
  by (simp_all add: toy_prims_def sha256_tree.merkle_hash_axioms sha256_multi_node_def)

definition toy_params :: public_params where
  "toy_params = \<lparr>ppr_graph = toy_env, ppr_challenges = Interactive 1, ppr_num_layers = 2\<rparr>"

definition toy_data :: "u8 list list" where
  "toy_data = map toy_of_fr [F1, F0, F1, F1]"

lemma toy_encode: "length key = 32 \<Longrightarrow> length v = 32 \<Longrightarrow> \<exists>r. encode toy_prims key v = Inr r"
  by (simp add: encode_def into_fr_def toy_prims_def toy_to_fr_def)

text \<open>An accepted proof of the toy graph for every challenge.\<close>

lemma toy_proof:
  assumes c: "0 < c" "c < 4"
  shows "\<exists>tau p leaves root_r. proof_verify toy_prims binary_arities toy_params
      \<lparr>pin_replica_id = replicate 32 9, pin_seed = None, pin_tau = Some tau, pin_k = None\<rparr> c toy_env p = Some (Inr True) \<and>
    length leaves = leaf_count (levels binary_arities 2) \<and>
    tree_root (pq_tree_hash toy_prims) (levels binary_arities 2) leaves = Inr (comm_c p) \<and>
    (\<forall>cp\<in>insert (rc_c_x (pf_replica_column_proofs p))
       (set (rc_drg_parents (pf_replica_column_proofs p)) \<union> set (rc_exp_parents (pf_replica_column_proofs p))).
       shape_ok binary_arities 2 (cp_inclusion_proof cp))"
proof -
  let ?rid = "replicate 32 (9::u8)"
  have g: "graph_ok (ge_graph toy_env) 4"
    using stacked_graph_new_ok [of 4 "\<lambda>_. replicate 32 1" "[]" V1_2_0] toy_env_ok(1) by auto
  then obtain par where par: "topological par 4" "\<forall>i<4. env_parents toy_env i = Some (Inr (par i))"
    using graph_parents_topological [OF _ toy_env_ok(2)] by blast
  have A: "arities_ok binary_arities" "\<forall>l\<in>set (levels binary_arities 2). 0 < fst l"
    by (simp_all add: arities_ok_def binary_arities_def levels_def)
  have n: "4 = leaf_count (levels binary_arities 2)" by (simp add: leaf_count_levels binary_arities_def)
  have ex: "\<exists>r. tree_root (pq_tree_hash toy_prims) (levels binary_arities 2) ls = Inr r" if "length ls = 4" for ls
    using tree_root_total [of "sha256_multi_node toy_sum" ls "levels binary_arities 2"] that n A toy_hash(2)
    by (simp add: toy_prims_def)
  let ?leaves = "map (column_leaf toy_prims par ?rid 2) [0..<4]"
  obtain root where root: "tree_root (pq_tree_hash toy_prims) (levels binary_arities 2) ?leaves = Inr root" using ex [of ?leaves] by auto
  obtain d where d: "tree_root (pq_tree_hash toy_prims) (levels binary_arities 2) toy_data = Inr d"
    using ex [of toy_data] by (auto simp: toy_data_def)
  have "length (toy_data ! i) = 32" if "i < 4" for i
    using that by (auto simp: toy_data_def toy_of_fr_def less_Suc_eq numeral_eq_Suc)
  note len = this
  define enc where "enc i = projr (encode toy_prims (label_spec par ?rid 2 i) (toy_data ! i))" for i
  have enc: "encode toy_prims (label_spec par ?rid 2 i) (toy_data ! i) = Inr (enc i)" if "i < 4" for i
    using toy_encode [OF length_label_spec len [OF that], of par ?rid 2 i] by (auto simp: enc_def)
  obtain root_r where root_r: "tree_root (pq_tree_hash toy_prims) (levels binary_arities 2) (map enc [0..<4]) = Inr root_r"
    using ex [of "map enc [0..<4]"] by auto
  let ?tau = "\<lparr>tau_comm_d = d, tau_comm_r = []\<rparr>"
  have P: "pq_sha256 toy_prims = fips_sha256" "(2::nat) = 2 \<or> (2::nat) = 11" "(4::nat) < 2 ^ 32" "graph_size (ge_graph toy_env) = 4"
    "ppr_num_layers toy_params = 2" "length toy_data = 4" using g by (simp_all add: toy_prims_def toy_params_def toy_data_def graph_ok_def)
  have e: "encode toy_prims (label_spec par ?rid 2 c) (toy_data ! c) = Inr (map enc [0..<4] ! c)" using enc [OF c(2)] c by simp
  have "\<exists>p. proof_verify toy_prims binary_arities toy_params \<lparr>pin_replica_id = ?rid, pin_seed = None, pin_tau = Some ?tau, pin_k = None\<rparr>
      c toy_env p = Some (Inr True) \<and> comm_c p = root \<and> comm_r_last p = root_r \<and>
    (\<forall>cp\<in>insert (rc_c_x (pf_replica_column_proofs p))
       (set (rc_drg_parents (pf_replica_column_proofs p)) \<union> set (rc_exp_parents (pf_replica_column_proofs p))).
       shape_ok binary_arities 2 (cp_inclusion_proof cp))"
    by (rule honest_proof_exists [OF toy_hash(1) toy_hash(1) A(1) n n toy_prims_ok P(1,2) c P(3) par(1) _ P(4,5) _ _ root P(6) _ _ root_r e, where tau = ?tau])
      (use par(2) c d in simp_all)
  then show ?thesis using root n by (metis length_map length_upt diff_zero)
qed
section \<open>Properties\<close>

text \<open>
  C6. What an accepted proof of a challenge shows, for the tree of columns of any hasher of the
  code: the opened column is the one committed at the challenge, its rows are the labels computed
  from the labelling proofs, the columns that accompany it are the ones committed at the parents
  they are filed under, and the replica node is the encoding of the data node under the key of the
  encoding proof. The openings of columns have one exception, each on its own: its
  hash chain collides with the tree, at a place that the opening gives.
\<close>

theorem proof_verify_sound:
  assumes "pq_tree_hash P \<in> {sha256_multi_node digest, blake2s_multi_node digest, poseidon_multi_node from_repr shared_hash_frs}"
    and "fr_ok P" and "arities_ok A" and "length leaves = leaf_count (levels A k)"
    and "tree_root (pq_tree_hash P) (levels A k) leaves = Inr (comm_c p)"
    and "rcp = pf_replica_column_proofs p" and "c < 2 ^ 32" and "env_parents G c = Some (Inr parents)"
    and "\<forall>cp\<in>insert (rc_c_x rcp) (set (rc_drg_parents rcp) \<union> set (rc_exp_parents rcp)). shape_ok A k (cp_inclusion_proof cp)"
    and "proof_verify P A pub_params pub_inputs c G p = Some (Inr True)"
  shows "(proof_collides (pq_tree_hash P) A k leaves (cp_inclusion_proof (rc_c_x rcp)) \<or>
      c < length leaves \<and> bindR (column_hash P (cp_column (rc_c_x rcp))) (\<lambda>h. Inr (pq_of_fr P h)) = Inr (leaves ! c)) \<and>
    (\<forall>l\<in>{1..ppr_num_layers pub_params}. get_node_at_layer (cp_column (rc_c_x rcp)) l =
       Inr (lp_create_label P (pin_replica_id pub_inputs) (pf_labeling_proofs p ! (l - 1)))) \<and>
    (\<forall>(cp, parent)\<in>set (zip (rc_drg_parents rcp @ rc_exp_parents rcp) parents).
       proof_collides (pq_tree_hash P) A k leaves (cp_inclusion_proof cp) \<or>
       unat parent < length leaves \<and> bindR (column_hash P (cp_column cp)) (\<lambda>h. Inr (pq_of_fr P h)) = Inr (leaves ! unat parent)) \<and>
    encode P (ep_create_key P (pin_replica_id pub_inputs) (pf_encoding_proof p)) (mp_leaf (pf_comm_d_proofs p)) =
      Inr (mp_leaf (pf_comm_r_last_proof p))"
proof -
  note MH = code_hashes [OF assms(1)]
  have o: "rc_verify P A c parents rcp = Inr True"
    "verify_labels P (pin_replica_id pub_inputs) (ppr_num_layers pub_params) p = Inr True"
    "ep_verify P (pin_replica_id pub_inputs) (mp_leaf (pf_comm_r_last_proof p)) (mp_leaf (pf_comm_d_proofs p)) (pf_encoding_proof p) = Inr True"
    by (rule proof_verify_parts [OF assms(10)]; use assms(6,8) in simp)+
  have root: "cp_root (rc_c_x rcp) = comm_c p" by (simp add: assms(6) comm_c_def cp_root_def)
  have binds: "proof_collides (pq_tree_hash P) A k leaves (cp_inclusion_proof cp) \<or> unat node < length leaves \<and>
      bindR (column_hash P (cp_column cp)) (\<lambda>h. Inr (pq_of_fr P h)) = Inr (leaves ! unat node)"
    if "cp_verify P A node (comm_c p) cp = Inr True" "shape_ok A k (cp_inclusion_proof cp)" for cp node
    using cp_verify_binds [OF MH assms(3-5) that(2,1)] .
  have rows: "get_node_at_layer (cp_column (rc_c_x rcp)) l = Inr (lp_create_label P (pin_replica_id pub_inputs) (pf_labeling_proofs p ! (l - 1)))"
    if "l \<in> {1..ppr_num_layers pub_params}" for l
  proof -
    have "l \<in> set [1..<ppr_num_layers pub_params + 1]" using that by auto
    then have "bindR (get_node_at_layer (cp_column (rc_c_x rcp)) l) (\<lambda>labeled_node.
        Inr (lp_verify P (pin_replica_id pub_inputs) labeled_node (pf_labeling_proofs p ! (l - 1)))) = Inr True"
      using o(2) unfolding verify_labels_def check_all_True check_True assms(6) by blast
    then show ?thesis by (auto simp: bindR_eq_Inr lp_verify_def)
  qed
  have c: "unat (of_nat c :: u32) = c" using assms(7) by (simp add: unat_of_nat)
  have cx: "proof_collides (pq_tree_hash P) A k leaves (cp_inclusion_proof (rc_c_x rcp)) \<or> c < length leaves \<and>
      bindR (column_hash P (cp_column (rc_c_x rcp))) (\<lambda>h. Inr (pq_of_fr P h)) = Inr (leaves ! c)"
    using binds [OF rc_verify_parts(1) [OF o(1), unfolded root]] assms(9) unfolding c by blast
  have par: "proof_collides (pq_tree_hash P) A k leaves (cp_inclusion_proof cp) \<or> unat parent < length leaves \<and> bindR (column_hash P (cp_column cp)) (\<lambda>h. Inr (pq_of_fr P h)) = Inr (leaves ! unat parent)"
    if z: "(cp, parent) \<in> set (zip (rc_drg_parents rcp @ rc_exp_parents rcp) parents)" for cp parent
  proof -
    have "shape_ok A k (cp_inclusion_proof cp)" using assms(9) set_zip_leftD [OF z] by auto
    then show ?thesis using binds [OF rc_verify_parts(2) [OF o(1) z, unfolded root]] by blast
  qed
  have "encode P (ep_create_key P (pin_replica_id pub_inputs) (pf_encoding_proof p)) (mp_leaf (pf_comm_d_proofs p)) =
      Inr (mp_leaf (pf_comm_r_last_proof p))" using o(3) by (simp only: ep_verify_iff [OF assms(2)])
  then show ?thesis using cx rows par by blast
qed

theorem proof_verify_sound_witness:
  "\<exists>pin p leaves. proof_verify toy_prims binary_arities toy_params pin 3 toy_env p = Some (Inr True) \<and>
     (proof_collides (sha256_multi_node toy_sum) binary_arities 2 leaves (cp_inclusion_proof (rc_c_x (pf_replica_column_proofs p))) \<or>
        3 < length (leaves :: u8 list list)) \<and>
     encode toy_prims (ep_create_key toy_prims (pin_replica_id pin) (pf_encoding_proof p)) (mp_leaf (pf_comm_d_proofs p)) =
       Inr (mp_leaf (pf_comm_r_last_proof p))"
proof -
  obtain tau p leaves where t: "proof_verify toy_prims binary_arities toy_params
      \<lparr>pin_replica_id = replicate 32 9, pin_seed = None, pin_tau = Some tau, pin_k = None\<rparr> 3 toy_env p = Some (Inr True)"
    "length leaves = leaf_count (levels binary_arities 2)"
    "tree_root (pq_tree_hash toy_prims) (levels binary_arities 2) leaves = Inr (comm_c p)"
    "\<forall>cp\<in>insert (rc_c_x (pf_replica_column_proofs p))
       (set (rc_drg_parents (pf_replica_column_proofs p)) \<union> set (rc_exp_parents (pf_replica_column_proofs p))).
       shape_ok binary_arities 2 (cp_inclusion_proof cp)" using toy_proof [of 3] by auto
  obtain ps where ps: "env_parents toy_env 3 = Some (Inr ps)" by (rule proof_verify_parts [OF t(1)])
  have H: "pq_tree_hash toy_prims \<in> {sha256_multi_node toy_sum, blake2s_multi_node toy_sum, poseidon_multi_node (\<lambda>_. None) (\<lambda>_. [])}"
    by (simp add: toy_prims_def)
  have A: "arities_ok binary_arities" "(3::nat) < 2 ^ 32" by (simp_all add: arities_ok_def binary_arities_def)
  have h: "pq_tree_hash toy_prims = sha256_multi_node toy_sum" by (simp add: toy_prims_def)
  show ?thesis using proof_verify_sound [OF H toy_prims_ok A(1) t(2,3) refl A(2) ps t(4,1)] t(1) unfolding h by blast
qed

text \<open>
  What it does not show: the hash chains of the data and of the replica opening are not
  verified, and columns of parents may be missing. From an accepted proof, any data node
  whose encoding replaces the replica node gives another accepted proof, without any parent.
\<close>

theorem proof_verify_ignores_data:
  assumes "fr_ok P" and "proof_verify P A pub_params pub_inputs c G p = Some (Inr True)"
    and "encode P (ep_create_key P (pin_replica_id pub_inputs) (pf_encoding_proof p)) data_node = Inr replica_node"
  shows "proof_verify P A pub_params pub_inputs c G (forged data_node replica_node p) = Some (Inr True) \<and>
    comm_c (forged data_node replica_node p) = comm_c p \<and> comm_r_last (forged data_node replica_node p) = comm_r_last p \<and>
    mp_leaf (pf_comm_d_proofs (forged data_node replica_node p)) = data_node \<and>
    rc_drg_parents (pf_replica_column_proofs (forged data_node replica_node p)) = []"
  using forged_accepted [OF assms(2,1,3)] by (simp add: comm_c_def comm_r_last_def) (simp add: forged_def)

theorem proof_verify_ignores_data_witness:
  "\<exists>pin p q. proof_verify toy_prims binary_arities toy_params pin 3 toy_env p = Some (Inr True) \<and>
     proof_verify toy_prims binary_arities toy_params pin 3 toy_env q = Some (Inr True) \<and>
     comm_r_last p = comm_r_last q \<and> mp_leaf (pf_comm_d_proofs p) \<noteq> mp_leaf (pf_comm_d_proofs q)"
proof -
  obtain tau p where t: "proof_verify toy_prims binary_arities toy_params
      \<lparr>pin_replica_id = replicate 32 9, pin_seed = None, pin_tau = Some tau, pin_k = None\<rparr> 3 toy_env p = Some (Inr True)"
    (is "proof_verify _ _ _ ?pin _ _ _ = _") using toy_proof [of 3] by auto
  have "length (toy_of_fr F0) = 32" "length (toy_of_fr F1) = 32" "toy_of_fr F0 \<noteq> toy_of_fr F1" by (simp_all add: toy_of_fr_def)
  then obtain d where d: "length d = 32" "d \<noteq> mp_leaf (pf_comm_d_proofs p)" by metis
  have "length (bytes_into_fr_repr_safe h) = length h" for h by (simp add: bytes_into_fr_repr_safe_def)
  then have "length (ep_create_key toy_prims (replicate 32 9) (pf_encoding_proof p)) = 32"
    by (simp add: ep_create_key_def toy_prims_def)
  then obtain r where r: "encode toy_prims (ep_create_key toy_prims (pin_replica_id ?pin) (pf_encoding_proof p)) d = Inr r"
    using toy_encode [OF _ d(1)] by auto
  show ?thesis using proof_verify_ignores_data [OF toy_prims_ok t r] t d(2) by metis
qed
end
