(* ===== verification/Synth_Proofs.thy ===== *)
theory Synth_Proofs
  imports Porep_Proof
begin

text \<open>
  The file of the synthetic proofs: \<open>SynthProofs\<close> of
  \<open>storage-proofs-porep/src/stacked/vanilla/params.rs\<close>. A writer is the list of bytes that were
  written, a reader the bytes from its position on; nodes are 32 bytes. Arithmetic on
  \<open>usize\<close> is on \<open>nat\<close>, with the panics of subtraction and division; challenges are \<open>u64\<close>.
\<close>

section \<open>The code\<close>

subsection \<open>Writing\<close>

definition write_path :: "u8 list proof_data \<Rightarrow> u8 list" where
  "write_path p = concat (map (\<lambda>(sibs, _). concat sibs) (mp_path p))"

definition write_path_d :: "u8 list proof_data \<Rightarrow> u8 list res" where
  "write_path_d p = bindR (collectR (\<lambda>(sibs, _). at_index sibs 0) (mp_path p)) (\<lambda>sibs. Inr (concat sibs))"

definition write_column :: "column_proof \<Rightarrow> u8 list" where
  "write_column cp =
     (let col = col_rows (cp_column cp); proof_c = cp_inclusion_proof cp
      in concat col @ mp_leaf proof_c @ write_path proof_c)"

definition write_proof :: "arities \<Rightarrow> porep_proof \<Rightarrow> u8 list res" where
  "write_proof A p =
     (let proof_d = pf_comm_d_proofs p; rcp = pf_replica_column_proofs p; proof_r = pf_comm_r_last_proof p;
          col_proofs = rc_drg_parents rcp @ rc_exp_parents rcp;
          challenge = of_nat (mp_path_index binary_arities proof_d) :: u64;
          parents = map (\<lambda>col_proof. of_nat (mp_path_index A (cp_inclusion_proof col_proof)) :: u64) col_proofs
      in bindR (write_path_d proof_d) (\<lambda>path_d.
         Inr (le_of_word 8 challenge @ concat (map (le_of_word 8) parents) @ (mp_leaf proof_d @ path_d) @
              write_column (rc_c_x rcp) @ concat (map write_column col_proofs) @ (mp_leaf proof_r @ write_path proof_r))))"

definition synth_write :: "arities \<Rightarrow> porep_proof list \<Rightarrow> u8 list res" where
  "synth_write A proofs =
     bindR (at_index proofs 0) (\<lambda>first.
     bindR (collectR (write_proof A) proofs) (\<lambda>bytes.
     Inr (mp_root (pf_comm_d_proofs first) @ mp_root (cp_inclusion_proof (rc_c_x (pf_replica_column_proofs first))) @
          mp_root (pf_comm_r_last_proof first) @ concat bytes)))"

subsection \<open>Reading\<close>

type_synonym 'a reader = "u8 list \<Rightarrow> ('a \<times> u8 list) res"

definition retP :: "'a \<Rightarrow> 'a reader" where
  "retP x bs = Inr (x, bs)"

definition bindP :: "'a reader \<Rightarrow> ('a \<Rightarrow> 'b reader) \<Rightarrow> 'b reader" where
  "bindP r f bs = bindR (r bs) (\<lambda>(x, rest). f x rest)"

definition liftP :: "'a res \<Rightarrow> 'a reader" where
  "liftP r bs = bindR r (\<lambda>x. Inr (x, bs))"

fun collectP :: "('a \<Rightarrow> 'b reader) \<Rightarrow> 'a list \<Rightarrow> 'b list reader" where
  "collectP f [] = retP []"
| "collectP f (x # xs) = bindP (f x) (\<lambda>y. bindP (collectP f xs) (\<lambda>ys. retP (y # ys)))"

definition read_exact :: "nat \<Rightarrow> u8 list reader" where
  "read_exact n bs = (if n \<le> length bs then Inr (take n bs, drop n bs) else Inl (Fail ''failed to fill whole buffer''))"

definition read_u64 :: "u64 reader" where
  "read_u64 = bindP (read_exact 8) (\<lambda>buf_8. retP (word_of_le buf_8))"

definition read_proof_d :: "u64 \<Rightarrow> u8 list \<Rightarrow> nat \<Rightarrow> u8 list proof_data reader" where
  "read_proof_d challenge root path_len =
     bindP (read_exact 32) (\<lambda>leaf.
     bindP (collectP (\<lambda>i. let idx = drop_bit i challenge AND 1 in
              bindP (read_exact 32) (\<lambda>sib. retP ([sib], unat idx))) [0..<path_len]) (\<lambda>path.
     liftP (from_parts binary_arities leaf root path)))"

definition read_proof_r :: "arities \<Rightarrow> nat list \<Rightarrow> u8 list \<Rightarrow> nat list \<Rightarrow> u8 list proof_data reader" where
  "read_proof_r A path_indexes root path_r_sibs =
     bindP (read_exact 32) (\<lambda>leaf.
     bindP (collectP (\<lambda>(num_sibs, idx). bindP (collectP (\<lambda>_. read_exact 32) [0..<num_sibs]) (\<lambda>sibs. retP (sibs, idx)))
              (zip path_r_sibs path_indexes)) (\<lambda>path.
     liftP (from_parts A leaf root path)))"

definition read_col_proof :: "arities \<Rightarrow> u64 \<Rightarrow> nat list \<Rightarrow> u8 list \<Rightarrow> nat list \<Rightarrow> nat \<Rightarrow> column_proof reader" where
  "read_col_proof A challenge path_indexes root path_r_sibs num_layers =
     bindP (collectP (\<lambda>_. read_exact 32) [0..<num_layers]) (\<lambda>col.
     bindP (read_proof_r A path_indexes root path_r_sibs) (\<lambda>proof_c.
     retP \<lparr>cp_column = \<lparr>col_index = ucast challenge, col_rows = col\<rparr>, cp_inclusion_proof = proof_c\<rparr>))"

fun path_r_indexes :: "u64 \<Rightarrow> u64 list \<Rightarrow> nat list \<Rightarrow> nat list" where
  "path_r_indexes challenge (m # masks) (bit_len # bit_lens) =
     unat (challenge AND m) # path_r_indexes (drop_bit bit_len challenge) masks bit_lens"
| "path_r_indexes challenge _ _ = []"

text \<open>\<open>usize::trailing_zeros\<close>.\<close>

fun trailing_zeros :: "nat \<Rightarrow> nat" where
  "trailing_zeros n = (if n = 0 then 64 else if odd n then 0 else Suc (trailing_zeros (n div 2)))"

declare trailing_zeros.simps [simp del]

definition arity_bit_len :: "nat \<Rightarrow> nat" where
  "arity_bit_len arity = (if arity = 0 then 0 else trailing_zeros arity)"

definition base_path_len :: "arities \<Rightarrow> nat \<Rightarrow> nat res" where
  "base_path_len A challenge_bit_len =
     bindR (usub challenge_bit_len (arity_bit_len (sub_tree_arity A))) (\<lambda>x.
     bindR (usub x (arity_bit_len (top_tree_arity A))) (\<lambda>y. udiv y (trailing_zeros (base_arity A))))"

text \<open>The arities of the path elements, with the number of their bits.\<close>

definition path_r_arities :: "arities \<Rightarrow> nat \<Rightarrow> (nat \<times> nat) list res" where
  "path_r_arities A challenge_bit_len =
     bindR (base_path_len A challenge_bit_len) (\<lambda>base_path_r_len.
       let path_r_len = base_path_r_len + (if sub_tree_arity A = 0 then 0 else 1) + (if top_tree_arity A = 0 then 0 else 1) in
       Inr (take path_r_len (replicate base_path_r_len (base_arity A, trailing_zeros (base_arity A)) @
              [(sub_tree_arity A, arity_bit_len (sub_tree_arity A)), (top_tree_arity A, arity_bit_len (top_tree_arity A))])))"

definition proof_size :: "arities \<Rightarrow> nat \<Rightarrow> nat \<Rightarrow> nat res" where
  "proof_size A sector_nodes num_layers =
     (let num_merkle_challenges = 1 + BASE_DEGREE + EXP_DEGREE;
          challenge_bit_len = trailing_zeros sector_nodes;
          proof_d_nodes = 1 + challenge_bit_len
      in bindR (base_path_len A challenge_bit_len) (\<lambda>base_path_len.
         bindR (usub (base_arity A) 1) (\<lambda>base_sibs.
         let base_path_nodes = base_path_len * base_sibs;
             sub_path_nodes = sub_tree_arity A - 1;
             top_path_nodes = top_tree_arity A - 1;
             proof_r_nodes = 1 + base_path_nodes + sub_path_nodes + top_path_nodes;
             col_proof_nodes = num_layers + proof_r_nodes;
             total_proof_nodes = proof_d_nodes + num_merkle_challenges * col_proof_nodes + proof_r_nodes
         in Inr (num_merkle_challenges * 8 + total_proof_nodes * NODE_SIZE))))"

definition read_proof ::
  "arities \<Rightarrow> nat \<Rightarrow> nat list \<Rightarrow> u64 list \<Rightarrow> nat list \<Rightarrow> nat \<Rightarrow> u8 list \<Rightarrow> u8 list \<Rightarrow> u8 list \<Rightarrow> porep_proof reader" where
  "read_proof A challenge_bit_len path_r_sibs masks bit_lens num_layers root_d root_c root_r =
     (let read_col = (\<lambda>node. read_col_proof A node (path_r_indexes node masks bit_lens) root_c path_r_sibs num_layers) in
      bindP read_u64 (\<lambda>challenge.
      bindP (collectP (\<lambda>_. read_u64) [0..<BASE_DEGREE + EXP_DEGREE]) (\<lambda>parents.
      bindP (read_proof_d challenge root_d challenge_bit_len) (\<lambda>proof_d.
      bindP (read_col challenge) (\<lambda>col_proof.
      bindP (collectP read_col (take BASE_DEGREE parents)) (\<lambda>drg_col_proofs.
      bindP (collectP read_col (drop BASE_DEGREE parents)) (\<lambda>exp_col_proofs.
      bindP (read_proof_r A (path_r_indexes challenge masks bit_lens) root_r path_r_sibs) (\<lambda>proof_r.
      liftP (proof_from_parts proof_d col_proof drg_col_proofs exp_col_proofs proof_r)))))))))"

definition synth_read :: "arities \<Rightarrow> u8 list \<Rightarrow> nat \<Rightarrow> nat \<Rightarrow> nat list \<Rightarrow> porep_proof list res" where
  "synth_read A file_bytes sector_nodes num_layers selected_proofs =
     (let challenge_bit_len = trailing_zeros sector_nodes in
      bindR (path_r_arities A challenge_bit_len) (\<lambda>arities.
      bindR (collectR (\<lambda>(arity, _). usub arity 1) arities) (\<lambda>path_r_sibs.
      bindR (bindP (read_exact 32) (\<lambda>root_d. bindP (read_exact 32) (\<lambda>root_c. bindP (read_exact 32) (\<lambda>root_r.
               retP (root_d, root_c, root_r)))) file_bytes) (\<lambda>((root_d, root_c, root_r), _).
      bindR (proof_size A sector_nodes num_layers) (\<lambda>proof_size.
      collectR (\<lambda>proof_index.
        let offset = 3 * NODE_SIZE + proof_index * proof_size in
        bindR (read_proof A challenge_bit_len path_r_sibs (map of_nat path_r_sibs) (map snd arities) num_layers root_d root_c root_r
                 (drop offset file_bytes)) (\<lambda>(p, _). Inr p))
        selected_proofs)))))"

section \<open>Parsers\<close>

text \<open>A reader takes exactly the given bytes, whatever follows them, and gives a value.\<close>

definition parses :: "'a reader \<Rightarrow> u8 list \<Rightarrow> 'a \<Rightarrow> bool" where
  "parses r bs x \<longleftrightarrow> (\<forall>rest. r (bs @ rest) = Inr (x, rest))"

lemma parses_ret: "parses (retP x) [] x"
  by (simp add: parses_def retP_def)

lemma parses_lift: "r = Inr x \<Longrightarrow> parses (liftP r) [] x"
  by (simp add: parses_def liftP_def)

lemma parses_bind: "parses r a x \<Longrightarrow> parses (f x) b y \<Longrightarrow> parses (bindP r f) (a @ b) y"
  by (simp add: parses_def bindP_def)

lemma parses_bind_ret: "parses r a x \<Longrightarrow> parses (bindP r (\<lambda>x. retP (g x))) a (g x)"
  using parses_bind [OF _ parses_ret, of r a x g] by simp

lemma parses_bind_lift: "parses r a x \<Longrightarrow> g x = Inr y \<Longrightarrow> parses (bindP r (\<lambda>x. liftP (g x))) a y"
  using parses_bind [of r a x "\<lambda>x. liftP (g x)", OF _ parses_lift, of y] by simp

lemma parses_exact: "length bs = n \<Longrightarrow> parses (read_exact n) bs bs"
  by (auto simp: parses_def read_exact_def)

lemma parses_u64: "parses read_u64 (le_of_word 8 w) w"
  using parses_bind_ret [OF parses_exact, of "le_of_word 8 w" 8 "word_of_le :: u8 list \<Rightarrow> u64"]
  by (simp add: read_u64_def word_of_le_of_word)

lemma parses_collect:
  "list_all2 (\<lambda>x (b, y). parses (f x) b y) xs bys \<Longrightarrow> parses (collectP f xs) (concat (map fst bys)) (map snd bys)"
proof (induction xs bys rule: list_all2_induct)
  case Nil
  then show ?case by (simp add: parses_ret)
next
  case (Cons x xs y ys)
  then show ?case
    by (cases y) (auto intro!: parses_bind parses_bind_ret)
qed

lemma parses_collect_map:
  "(\<And>x. x \<in> set xs \<Longrightarrow> parses (f x) (b x) (y x)) \<Longrightarrow> parses (collectP f xs) (concat (map b xs)) (map y xs)"
  using parses_collect [of f xs "map (\<lambda>x. (b x, y x)) xs"] by (simp add: list_all2_map2 list_all2_same comp_def)

lemma parses_nodes:
  assumes "\<forall>x\<in>set xs. length x = 32" and "length xs = n"
  shows "parses (collectP (\<lambda>_. read_exact 32) [0..<n]) (concat xs) xs"
proof -
  have "list_all2 (\<lambda>x (b, y). parses (read_exact 32) b y) [0..<n] (map (\<lambda>x. (x, x)) xs)"
    using assms by (auto simp: list_all2_conv_all_nth parses_exact)
  from parses_collect [OF this] show ?thesis by (simp add: comp_def)
qed

section \<open>Layout\<close>

lemma trailing_zeros_2p [simp]: "trailing_zeros (2 ^ n) = n"
  by (induction n) (subst trailing_zeros.simps; simp)+

text \<open>Arities that are powers of two, as all trees of the code have them, with the numbers of bits.\<close>

definition arity_bits :: "arities \<Rightarrow> nat \<Rightarrow> nat \<Rightarrow> nat \<Rightarrow> bool" where
  "arity_bits A b s t \<longleftrightarrow> base_arity A = 2 ^ b \<and> 0 < b \<and>
     (sub_tree_arity A = 0 \<and> s = 0 \<or> sub_tree_arity A = 2 ^ s \<and> 0 < s) \<and>
     (top_tree_arity A = 0 \<and> t = 0 \<or> top_tree_arity A = 2 ^ t \<and> 0 < t \<and> 0 < s)"

definition level_bits :: "nat \<Rightarrow> nat \<Rightarrow> nat \<Rightarrow> nat \<Rightarrow> nat list" where
  "level_bits k b s t = replicate k b @ (if s = 0 then [] else [s]) @ (if t = 0 then [] else [t])"

lemma arity_bits_ok: "arity_bits A b s t \<Longrightarrow> arities_ok A"
proof -
  have "(2::nat) \<le> 2 ^ i \<and> Suc 0 \<noteq> 2 ^ i" if "0 < i" for i using that by (cases i) auto
  then show "arity_bits A b s t \<Longrightarrow> arities_ok A" by (auto simp: arity_bits_def arities_ok_def)
qed

lemma levels_bits: "arity_bits A b s t \<Longrightarrow> map fst (levels A k) = map (\<lambda>i. 2 ^ i) (level_bits k b s t)"
  by (auto simp: levels_arities level_bits_def arity_bits_def)

lemma leaf_count_bits: "arity_bits A b s t \<Longrightarrow> leaf_count (levels A k) = 2 ^ sum_list (level_bits k b s t)"
  by (auto simp: leaf_count_def levels_arities level_bits_def arity_bits_def power_add power_mult sum_list_replicate mult.commute)

lemma arity_bit_len_bits: "arity_bits A b s t \<Longrightarrow> arity_bit_len (sub_tree_arity A) = s \<and> arity_bit_len (top_tree_arity A) = t"
  by (auto simp: arity_bits_def arity_bit_len_def)

lemma base_path_len_bits:
  assumes "arity_bits A b s t"
  shows "base_path_len A (sum_list (level_bits k b s t)) = Inr k"
proof -
  have "0 < b" "base_arity A = 2 ^ b" using assms by (simp_all add: arity_bits_def)
  then show ?thesis using arity_bit_len_bits [OF assms]
    by (simp add: base_path_len_def level_bits_def sum_list_replicate udiv_def)
qed

lemma path_r_arities_bits:
  assumes "arity_bits A b s t"
  shows "path_r_arities A (sum_list (level_bits k b s t)) = Inr (map (\<lambda>i. (2 ^ i, i)) (level_bits k b s t))"
  unfolding path_r_arities_def base_path_len_bits [OF assms] using assms arity_bit_len_bits [OF assms]
  by (auto simp: level_bits_def arity_bits_def map_replicate_const)

lemma path_sibs_bits:
  "collectR (\<lambda>(arity, _). usub arity 1) (map (\<lambda>i. (2 ^ i, i)) bits) = Inr (map (\<lambda>i. 2 ^ i - 1) bits)"
  by (induction bits) (simp_all add: Suc_leI)

lemma digit_bound: "i < p \<Longrightarrow> m < q \<Longrightarrow> i + p * m < p * (q :: nat)"
proof -
  assume "i < p" "m < q"
  then have "i + p * m < p * Suc m" "p * Suc m \<le> p * q" by (simp, intro mult_le_mono2) simp
  then show ?thesis by simp
qed

lemma path_indexes_digits:
  "\<lbrakk>list_all2 (\<lambda>i b. i < 2 ^ b) is bits; sum_list bits \<le> 64\<rbrakk> \<Longrightarrow>
   path_r_indexes (of_nat (mixed_index (map (\<lambda>i. 2 ^ i) bits) is)) (map (\<lambda>b. of_nat (2 ^ b - 1)) bits) bits = is"
proof (induction "is" bits rule: list_all2_induct)
  case (Cons i "is" b bits)
  let ?m = "mixed_index (map (\<lambda>i. 2 ^ i) bits) is"
  have m: "mixed_index (map (\<lambda>i. 2 ^ i) bits) is < 2 ^ sum_list bits"
    using Cons(2) by (induction "is" bits rule: list_all2_induct) (auto simp: power_add intro: digit_bound)
  have b: "b \<le> 64" using Cons.prems by simp
  have "i + 2 ^ b * ?m < 2 ^ b * 2 ^ sum_list bits" using digit_bound [OF Cons(1) m] by simp
  also have "\<dots> = 2 ^ (b + sum_list bits)" by (simp add: power_add)
  also have "\<dots> \<le> 2 ^ 64" using Cons.prems by (intro power_increasing) simp_all
  finally have lt: "i + 2 ^ b * ?m < 2 ^ 64" .
  have w: "(of_nat (2 ^ b - 1) :: u64) = mask b" by (simp add: mask_eq_exp_minus_1 of_nat_diff)
  define x where "x = i + 2 ^ b * ?m"
  have x: "x mod 2 ^ b = i" "x div 2 ^ b = ?m" "x < 2 ^ 64" using lt Cons(1) by (simp_all add: x_def)
  have ux: "unat (of_nat x :: u64) = x" "unat (of_nat ?m :: u64) = ?m"
    using x div_le_dividend [of x "2 ^ b"] by (auto simp: unat_of_nat)
  have "unat ((of_nat x :: u64) AND of_nat (2 ^ b - 1)) = i"
    unfolding w take_bit_eq_mask [symmetric] unsigned_take_bit_eq ux(1) using x(1) by (simp add: take_bit_eq_mod)
  moreover have "drop_bit b (of_nat x :: u64) = of_nat ?m"
    unfolding word_unat_eq_iff unat_drop_bit_eq ux using x(2) by (simp add: drop_bit_eq_div)
  ultimately show ?case using Cons by (simp add: x_def)
qed simp
section \<open>Writing and reading\<close>

text \<open>
  The shape of a Merkle proof as the code builds it for trees of \<open>k\<close> rows above the leaves:
  one path element per level with all siblings and an index below the arity, nodes of 32 bytes.
\<close>

definition mp_canonical :: "arities \<Rightarrow> nat \<Rightarrow> u8 list proof_data \<Rightarrow> bool" where
  "mp_canonical A k p \<longleftrightarrow> from_parts A (mp_leaf p) (mp_root p) (mp_path p) = Inr p \<and> shape_ok A k p \<and>
     length (mp_leaf p) = 32 \<and>
     list_all2 (\<lambda>(sibs, i) a. length sibs = a - 1 \<and> i < a \<and> (\<forall>x\<in>set sibs. length x = 32)) (mp_path p) (map fst (levels A k))"

definition column_canonical :: "arities \<Rightarrow> nat \<Rightarrow> nat \<Rightarrow> column_proof \<Rightarrow> bool" where
  "column_canonical A k layers cp \<longleftrightarrow> mp_canonical A k (cp_inclusion_proof cp) \<and>
     col_index (cp_column cp) = of_nat (mp_path_index A (cp_inclusion_proof cp)) \<and>
     length (col_rows (cp_column cp)) = layers \<and> (\<forall>x\<in>set (col_rows (cp_column cp)). length x = 32)"

lemma path_indexes_canonical:
  assumes "arity_bits A b s t" and "mp_canonical A k p" and "sum_list (level_bits k b s t) \<le> 64"
  shows "path_r_indexes (of_nat (mp_path_index A p)) (map (\<lambda>b. of_nat (2 ^ b - 1)) (level_bits k b s t)) (level_bits k b s t) =
    map snd (mp_path p)"
proof -
  have c: "shape_ok A k p" "list_all2 (\<lambda>(sibs, i) a. length sibs = a - 1 \<and> i < a \<and> (\<forall>x\<in>set sibs. length x = 32))
      (mp_path p) (map (\<lambda>i. 2 ^ i) (level_bits k b s t))"
    using assms(2) levels_bits [OF assms(1)] by (auto simp: mp_canonical_def)
  have ix: "map snd (mp_path p) = map pe_index (mp_elements p)" by (simp add: mp_path_def)
  have "list_all2 (\<lambda>i b. i < 2 ^ b) (map snd (mp_path p)) (level_bits k b s t)"
    using c(2) by (auto simp: list_all2_map1 list_all2_map2 elim!: list_all2_mono)
  from path_indexes_digits [OF this assms(3)] show ?thesis
    using path_index_mixed(1) [OF arity_bits_ok [OF assms(1)] c(1)] levels_bits [OF assms(1), of k] by (simp add: ix)
qed

lemma parses_path:
  assumes "list_all2 (\<lambda>(sibs, i) a. length sibs = a - 1 \<and> i < a \<and> (\<forall>x\<in>set sibs. length x = 32)) path as"
  shows "parses (collectP (\<lambda>(num_sibs, idx). bindP (collectP (\<lambda>_. read_exact 32) [0..<num_sibs]) (\<lambda>sibs. retP (sibs, idx)))
      (zip (map (\<lambda>a. a - 1) as) (map snd path))) (concat (map (\<lambda>(sibs, _). concat sibs) path)) path"
proof -
  let ?f = "\<lambda>(num_sibs, idx). bindP (collectP (\<lambda>_. read_exact 32) [0..<num_sibs]) (\<lambda>sibs. retP (sibs, idx))"
  have "list_all2 (\<lambda>x (b, y). parses (?f x) b y) (zip (map (\<lambda>a. a - 1) as) (map snd path)) (map (\<lambda>e. (concat (fst e), e)) path)"
    using assms
  proof (induction path as rule: list_all2_induct)
    case (Cons e path a as)
    obtain sibs i where e: "e = (sibs, i)" by (cases e)
    have "parses (collectP (\<lambda>_. read_exact 32) [0..<a - 1]) (concat sibs) sibs" using Cons(1) by (intro parses_nodes) (auto simp: e)
    from parses_bind_ret [OF this, of "\<lambda>s. (s, i)"] show ?case using Cons(3) by (simp add: e)
  qed simp
  from parses_collect [OF this] show ?thesis by (simp add: comp_def split_def)
qed

lemma parses_proof_r:
  assumes "arity_bits A b s t" and p: "mp_canonical A k p"
  shows "parses (read_proof_r A (map snd (mp_path p)) (mp_root p) (map (\<lambda>i. 2 ^ i - 1) (level_bits k b s t)))
    (mp_leaf p @ write_path p) p"
proof -
  have l: "map (\<lambda>i. 2 ^ i - 1) (level_bits k b s t) = map (\<lambda>a. a - 1) (map fst (levels A k))"
    by (simp add: levels_bits [OF assms(1)])
  show ?thesis unfolding read_proof_r_def l write_path_def
    by (rule parses_bind [OF parses_exact], use p in \<open>simp add: mp_canonical_def\<close>,
        rule parses_bind_lift [OF parses_path]) (use p in \<open>simp_all add: mp_canonical_def\<close>)
qed

lemma u32_of_u64: "ucast (of_nat n :: u64) = (of_nat n :: u32)"
  by (simp add: word_unat_eq_iff unsigned_ucast_eq unat_of_nat take_bit_eq_mod mod_mod_cancel)

lemma parses_col_proof:
  assumes "arity_bits A b s t" and "column_canonical A k layers cp"
  shows "parses (read_col_proof A (of_nat (mp_path_index A (cp_inclusion_proof cp))) (map snd (mp_path (cp_inclusion_proof cp)))
      (cp_root cp) (map (\<lambda>i. 2 ^ i - 1) (level_bits k b s t)) layers) (write_column cp) cp"
proof -
  let ?p = "cp_inclusion_proof cp"
  have c: "mp_canonical A k ?p" "length (col_rows (cp_column cp)) = layers" "\<forall>x\<in>set (col_rows (cp_column cp)). length x = 32"
      "col_index (cp_column cp) = of_nat (mp_path_index A ?p)"
    using assms(2) by (simp_all add: column_canonical_def)
  have "cp = \<lparr>cp_column = \<lparr>col_index = ucast (of_nat (mp_path_index A ?p) :: u64), col_rows = col_rows (cp_column cp)\<rparr>,
      cp_inclusion_proof = ?p\<rparr>" using c(4) by (simp add: u32_of_u64)
  moreover have "parses (read_col_proof A (of_nat (mp_path_index A ?p)) (map snd (mp_path ?p)) (mp_root ?p)
      (map (\<lambda>i. 2 ^ i - 1) (level_bits k b s t)) layers) (concat (col_rows (cp_column cp)) @ mp_leaf ?p @ write_path ?p)
      \<lparr>cp_column = \<lparr>col_index = ucast (of_nat (mp_path_index A ?p) :: u64), col_rows = col_rows (cp_column cp)\<rparr>, cp_inclusion_proof = ?p\<rparr>"
    unfolding read_col_proof_def
    by (rule parses_bind [OF parses_nodes [OF c(3,2)]], rule parses_bind_ret [OF parses_proof_r [OF assms(1) c(1)]])
  ultimately show ?thesis by (simp add: write_column_def cp_root_def Let_def)
qed

lemma binary_bits: "arity_bits binary_arities 1 0 0" "level_bits k (Suc 0) 0 0 = replicate k (Suc 0)"
  by (simp_all add: arity_bits_def binary_arities_def level_bits_def)

lemma path_indexes_binary:
  "path_r_indexes c (replicate n 1) (replicate n 1) = map (\<lambda>i. unat (drop_bit i c AND 1)) [0..<n]"
proof (induction n arbitrary: c)
  case (Suc n)
  have "[0..<Suc n] = 0 # map Suc [0..<n]" by (simp add: map_Suc_upt upt_conv_Cons)
  then show ?case using Suc [of "drop_bit 1 c"] by simp
qed simp

lemma parses_proof_d:
  assumes p: "mp_canonical binary_arities k p" and "k \<le> 64"
  shows "parses (read_proof_d (of_nat (mp_path_index binary_arities p)) (mp_root p) k)
      (mp_leaf p @ concat (map (\<lambda>(sibs, _). hd sibs) (mp_path p))) p"
    and "write_path_d p = Inr (concat (map (\<lambda>(sibs, _). hd sibs) (mp_path p)))"
proof -
  let ?c = "of_nat (mp_path_index binary_arities p) :: u64"
  have len: "length (mp_path p) = k" "map fst (levels binary_arities k) = replicate k 2"
    and path: "\<forall>e\<in>set (mp_path p). length (fst e) = 1 \<and> (\<forall>x\<in>set (fst e). length x = 32)"
  proof -
    show l: "map fst (levels binary_arities k) = replicate k 2"
      by (simp add: levels_bits [OF binary_bits(1)] binary_bits(2) map_replicate_const)
    have "list_all2 (\<lambda>(sibs, i) a. length sibs = a - 1 \<and> i < a \<and> (\<forall>x\<in>set sibs. length x = 32)) (mp_path p) (replicate k 2)"
      using p by (simp add: mp_canonical_def l)
    then have l: "length (mp_path p) = k"
      "\<forall>i<k. length (fst (mp_path p ! i)) = 1 \<and> (\<forall>x\<in>set (fst (mp_path p ! i)). length x = 32)"
      by (simp_all add: list_all2_conv_all_nth case_prod_beta)
    then show "length (mp_path p) = k" "\<forall>e\<in>set (mp_path p). length (fst e) = 1 \<and> (\<forall>x\<in>set (fst e). length x = 32)"
      by (metis in_set_conv_nth)+
  qed
  have ix: "map (\<lambda>i. unat (drop_bit i ?c AND 1)) [0..<k] = map snd (mp_path p)"
    using path_indexes_canonical [OF binary_bits(1) p] assms(2) path_indexes_binary [of ?c k]
    by (simp add: binary_bits(2) sum_list_replicate)
  have one: "fst e = [hd (fst e)]" "length (hd (fst e)) = 32" "at_index (fst e) 0 = Inr (hd (fst e))" if "e \<in> set (mp_path p)" for e
    using path that by (cases "fst e"; force)+
  let ?f = "\<lambda>i. let idx = drop_bit i ?c AND 1 in bindP (read_exact 32) (\<lambda>sib. retP ([sib], unat idx))"
  have "list_all2 (\<lambda>x (b, y). parses (?f x) b y) [0..<k] (map (\<lambda>e. (hd (fst e), e)) (mp_path p))"
    unfolding list_all2_conv_all_nth
  proof (intro conjI allI impI)
    fix i assume "i < length [0..<k]"
    then have i: "i < k" by simp
    let ?e = "mp_path p ! i"
    have "?e \<in> set (mp_path p)" using i len by simp
    note e = one [OF this]
    have "unat (drop_bit i ?c AND 1) = snd ?e" using arg_cong [OF ix, of "\<lambda>xs. xs ! i"] i len by simp
    then have "([hd (fst ?e)], unat (drop_bit i ?c AND 1)) = ?e" using e(1) by (metis prod.collapse)
    then show "case map (\<lambda>e. (hd (fst e), e)) (mp_path p) ! i of (b, y) \<Rightarrow> parses (?f ([0..<k] ! i)) b y"
      using parses_bind_ret [OF parses_exact [OF e(2)], of "\<lambda>sib. ([sib], unat (drop_bit i ?c AND 1))"] i len by simp
  qed (simp add: len)
  from parses_collect [OF this] show "parses (read_proof_d ?c (mp_root p) k)
      (mp_leaf p @ concat (map (\<lambda>(sibs, _). hd sibs) (mp_path p))) p"
    unfolding read_proof_d_def using conjunct1 [OF p [unfolded mp_canonical_def]] p
    by (intro parses_bind [OF parses_exact] parses_bind_lift) (simp_all add: mp_canonical_def comp_def split_def)
  have "collectR (\<lambda>(sibs, _). at_index sibs 0) (mp_path p) = Inr (map (\<lambda>(sibs, _). hd sibs) (mp_path p))"
    using one(3) by (intro collectR_all_ok) (simp add: split_def)
  then show "write_path_d p = Inr (concat (map (\<lambda>(sibs, _). hd sibs) (mp_path p)))" by (simp add: write_path_d_def)
qed
text \<open>The proofs that \<open>prove_layers_generate\<close> makes of a sector with the given roots.\<close>

definition synth_ok :: "arities \<Rightarrow> nat \<Rightarrow> nat \<Rightarrow> nat \<Rightarrow> u8 list \<Rightarrow> u8 list \<Rightarrow> u8 list \<Rightarrow> porep_proof \<Rightarrow> bool" where
  "synth_ok A k kd layers root_d root_c root_r p \<longleftrightarrow>
     (let proof_d = pf_comm_d_proofs p; proof_r = pf_comm_r_last_proof p; rcp = pf_replica_column_proofs p;
          challenge = mp_path_index binary_arities proof_d in
      mp_canonical binary_arities kd proof_d \<and> mp_root proof_d = root_d \<and>
      mp_canonical A k proof_r \<and> mp_root proof_r = root_r \<and> mp_path_index A proof_r = challenge \<and>
      mp_path_index A (cp_inclusion_proof (rc_c_x rcp)) = challenge \<and>
      (\<forall>cp\<in>insert (rc_c_x rcp) (set (rc_drg_parents rcp @ rc_exp_parents rcp)). column_canonical A k layers cp \<and> cp_root cp = root_c) \<and>
      length (rc_drg_parents rcp) = BASE_DEGREE \<and> length (rc_exp_parents rcp) = EXP_DEGREE \<and>
      proof_from_parts proof_d (rc_c_x rcp) (rc_drg_parents rcp) (rc_exp_parents rcp) proof_r = Inr p)"

definition proof_bytes :: "arities \<Rightarrow> porep_proof \<Rightarrow> u8 list" where
  "proof_bytes A p = projr (write_proof A p)"

lemma write_proof_ok:
  assumes "synth_ok A k kd layers root_d root_c root_r p" and "kd \<le> 64"
  shows "write_proof A p = Inr (proof_bytes A p)"
proof -
  have "mp_canonical binary_arities kd (pf_comm_d_proofs p)" using assms(1) by (simp add: synth_ok_def Let_def)
  from parses_proof_d(2) [OF this assms(2)] show ?thesis by (simp add: proof_bytes_def write_proof_def Let_def)
qed

lemma read_proof_ok:
  assumes A: "arity_bits A b s t" and bits: "sum_list (level_bits k b s t) = kd" "kd \<le> 64"
    and p: "synth_ok A k kd layers root_d root_c root_r p"
  shows "parses (read_proof A kd (map (\<lambda>i. 2 ^ i - 1) (level_bits k b s t)) (map of_nat (map (\<lambda>i. 2 ^ i - 1) (level_bits k b s t)))
      (level_bits k b s t) layers root_d root_c root_r) (proof_bytes A p) p"
proof -
  let ?sibs = "map (\<lambda>i. 2 ^ i - 1) (level_bits k b s t)" and ?bits = "level_bits k b s t"
  let ?D = "pf_comm_d_proofs p" and ?R = "pf_comm_r_last_proof p"
  let ?x = "rc_c_x (pf_replica_column_proofs p)" and ?drg = "rc_drg_parents (pf_replica_column_proofs p)"
    and ?exp = "rc_exp_parents (pf_replica_column_proofs p)"
  let ?c = "of_nat (mp_path_index binary_arities ?D) :: u64"
  let ?ix = "\<lambda>cp. of_nat (mp_path_index A (cp_inclusion_proof cp)) :: u64"
  let ?col = "\<lambda>node. read_col_proof A node (path_r_indexes node (map of_nat ?sibs) ?bits) root_c ?sibs layers"
  have q: "mp_canonical binary_arities kd ?D" "mp_root ?D = root_d" "mp_canonical A k ?R" "mp_root ?R = root_r"
      "of_nat (mp_path_index A ?R) = ?c" "?ix ?x = ?c"
      "\<forall>cp\<in>insert ?x (set (?drg @ ?exp)). column_canonical A k layers cp \<and> cp_root cp = root_c"
      "length ?drg = BASE_DEGREE" "length ?exp = EXP_DEGREE" "proof_from_parts ?D ?x ?drg ?exp ?R = Inr p"
    using p by (simp_all add: synth_ok_def Let_def)
  have ix: "path_r_indexes (of_nat (mp_path_index A m)) (map of_nat ?sibs) ?bits = map snd (mp_path m)" if "mp_canonical A k m" for m
    using path_indexes_canonical [OF A that] bits by (simp add: comp_def)
  have col: "parses (?col (?ix cp)) (write_column cp) cp" if "cp \<in> insert ?x (set (?drg @ ?exp))" for cp
  proof -
    have cp: "column_canonical A k layers cp" "cp_root cp = root_c" using q(7) that by blast+
    then have "mp_canonical A k (cp_inclusion_proof cp)" by (simp add: column_canonical_def)
    from ix [OF this] show ?thesis using parses_col_proof [OF A cp(1)] cp(2) by simp
  qed
  have cols: "parses (collectP ?col (map ?ix cps)) (concat (map write_column cps)) cps" if "set cps \<subseteq> set (?drg @ ?exp)" for cps
    using parses_collect [of ?col "map ?ix cps" "map (\<lambda>cp. (write_column cp, cp)) cps"] col that
    by (simp add: list_all2_map1 list_all2_map2 list_all2_same comp_def subset_iff)
  have parents: "parses (collectP (\<lambda>_. read_u64) [0..<BASE_DEGREE + EXP_DEGREE]) (concat (map (le_of_word 8) (map ?ix (?drg @ ?exp))))
      (map ?ix (?drg @ ?exp))"
  proof -
    have "list_all2 (\<lambda>x (b, y). parses read_u64 b y) [0..<BASE_DEGREE + EXP_DEGREE] (map (\<lambda>cp. (le_of_word 8 (?ix cp), ?ix cp)) (?drg @ ?exp))"
      using q(8,9) by (auto simp: list_all2_conv_all_nth parses_u64 simp del: map_append)
    from parses_collect [OF this] show ?thesis by (simp add: comp_def)
  qed
  have bytes: "proof_bytes A p = le_of_word 8 ?c @ concat (map (le_of_word 8) (map ?ix (?drg @ ?exp))) @
      (mp_leaf ?D @ concat (map (\<lambda>(sibs, _). hd sibs) (mp_path ?D))) @ write_column ?x @
      concat (map write_column ?drg) @ concat (map write_column ?exp) @ (mp_leaf ?R @ write_path ?R)"
    using parses_proof_d(2) [OF q(1) bits(2)] by (simp add: proof_bytes_def write_proof_def Let_def comp_def)
  have d: "parses (read_proof_d ?c root_d kd) (mp_leaf ?D @ concat (map (\<lambda>(sibs, _). hd sibs) (mp_path ?D))) ?D"
    using parses_proof_d(1) [OF q(1) bits(2)] q(2) by simp
  have r: "parses (read_proof_r A (path_r_indexes ?c (map of_nat ?sibs) ?bits) root_r ?sibs) (mp_leaf ?R @ write_path ?R) ?R"
    using parses_proof_r [OF A q(3)] ix [OF q(3)] q(4,5) by simp
  have x: "parses (?col ?c) (write_column ?x) ?x" using col [of ?x] q(6) by simp
  have td: "take BASE_DEGREE (map ?ix (?drg @ ?exp)) = map ?ix ?drg" "drop BASE_DEGREE (map ?ix (?drg @ ?exp)) = map ?ix ?exp"
    using q(8) by simp_all
  show ?thesis unfolding bytes read_proof_def Let_def
    by (rule parses_bind [OF parses_u64], rule parses_bind [OF parents], rule parses_bind [OF d], rule parses_bind [OF x], unfold td,
        rule parses_bind [OF cols], simp, rule parses_bind [OF cols], simp, rule parses_bind_lift [OF r], rule q(10))
qed

lemma length_nodes: "\<forall>x\<in>set xs. length x = 32 \<Longrightarrow> length (concat xs) = 32 * length (xs :: u8 list list)"
  by (induction xs) auto

lemma length_write_path:
  "mp_canonical A k p \<Longrightarrow> length (write_path p) = 32 * sum_list (map (\<lambda>a. a - 1) (map fst (levels A k)))"
proof -
  have "list_all2 (\<lambda>(sibs, i) a. length sibs = a - 1 \<and> i < a \<and> (\<forall>x\<in>set sibs. length x = 32)) path as \<Longrightarrow>
      length (concat (map (\<lambda>(sibs, _). concat sibs) path)) = 32 * sum_list (map (\<lambda>a. a - 1) as)" for path :: "(u8 list list \<times> nat) list" and as
  proof (induction path as rule: list_all2_induct)
    case (Cons e path a as)
    then show ?case by (cases e) (auto simp: length_nodes)
  qed simp
  then show "mp_canonical A k p \<Longrightarrow> length (write_path p) = 32 * sum_list (map (\<lambda>a. a - 1) (map fst (levels A k)))"
    unfolding mp_canonical_def write_path_def by blast
qed

lemma length_write_path_d:
  assumes "mp_canonical binary_arities k p"
  shows "length (concat (map (\<lambda>(sibs, _). hd sibs) (mp_path p))) = 32 * k"
proof -
  have "list_all2 (\<lambda>(sibs, i) a. length sibs = a - 1 \<and> i < a \<and> (\<forall>x\<in>set sibs. length x = 32)) path (replicate k 2) \<Longrightarrow>
      length (concat (map (\<lambda>(sibs, _). hd sibs) path)) = 32 * k" for path :: "(u8 list list \<times> nat) list" and k
  proof (induction k arbitrary: path)
    case (Suc k)
    obtain sibs i rest where "path = (sibs, i) # rest" "length sibs = 1" "\<forall>x\<in>set sibs. length x = 32"
      using Suc.prems by (auto simp: list_all2_Cons2)
    then show ?case using Suc.IH [of rest] Suc.prems by (cases sibs) auto
  qed simp
  moreover have "map fst (levels binary_arities k) = replicate k 2"
    by (simp add: levels_bits [OF binary_bits(1)] binary_bits(2) map_replicate_const)
  ultimately show ?thesis using assms by (simp add: mp_canonical_def)
qed

lemma sum_siblings:
  "arity_bits A b s t \<Longrightarrow> sum_list (map (\<lambda>a. a - 1) (map fst (levels A k))) =
     k * (base_arity A - 1) + (sub_tree_arity A - 1) + (top_tree_arity A - 1)"
  by (auto simp: levels_arities arity_bits_def sum_list_replicate map_replicate_const)

lemma proof_size_ok:
  assumes A: "arity_bits A b s t" and bits: "sum_list (level_bits k b s t) = kd" "kd \<le> 64"
    and p: "synth_ok A k kd layers root_d root_c root_r p"
  shows "proof_size A (2 ^ kd) layers = Inr (length (proof_bytes A p))"
proof -
  let ?D = "pf_comm_d_proofs p" and ?R = "pf_comm_r_last_proof p"
  let ?cols = "rc_drg_parents (pf_replica_column_proofs p) @ rc_exp_parents (pf_replica_column_proofs p)"
  let ?n = "sum_list (map (\<lambda>a. a - 1) (map fst (levels A k)))"
  have q: "mp_canonical binary_arities kd ?D" "mp_canonical A k ?R"
      "\<forall>cp\<in>insert (rc_c_x (pf_replica_column_proofs p)) (set ?cols). column_canonical A k layers cp" "length ?cols = 14"
    using p by (auto simp: synth_ok_def Let_def BASE_DEGREE_def EXP_DEGREE_def)
  have c: "length (write_column cp) = 32 * (layers + 1 + ?n)" if "column_canonical A k layers cp" for cp
  proof -
    show ?thesis using that length_write_path [of A k "cp_inclusion_proof cp"]
      by (simp add: length_nodes column_canonical_def write_column_def Let_def mp_canonical_def)
  qed
  have cs: "\<forall>cp\<in>set cps. column_canonical A k layers cp \<Longrightarrow>
      length (concat (map write_column cps)) = length cps * (32 * (layers + 1 + ?n))" for cps
    by (induction cps) (simp_all only: list.map concat.simps length_append c list.size, simp_all add: c)
  have ws: "length (concat (map (le_of_word 8 \<circ> f) xs)) = 8 * length xs" for f :: "column_proof \<Rightarrow> u64" and xs by (induction xs) auto
  have l: "length (mp_leaf ?D) = 32" "length (mp_leaf ?R) = 32" using q(1,2) by (simp_all add: mp_canonical_def)
  have "length (proof_bytes A p) = 8 + 8 * 14 + (32 + 32 * kd) + 32 * (layers + 1 + ?n) + 14 * (32 * (layers + 1 + ?n)) + (32 + 32 * ?n)"
    using parses_proof_d(2) [OF q(1) bits(2)] length_write_path_d [OF q(1)] length_write_path [OF q(2)] q(3,4) cs [of ?cols] l
    by (simp add: proof_bytes_def write_proof_def Let_def ws c del: map_append concat_append)
  moreover have "proof_size A (2 ^ kd) layers = Inr (15 * 8 + (1 + kd + 15 * (layers + (1 + ?n)) + (1 + ?n)) * 32)"
    unfolding sum_siblings [OF A] using base_path_len_bits [OF A, of k] A bits(1)
    by (simp add: proof_size_def Let_def NODE_SIZE_def BASE_DEGREE_def EXP_DEGREE_def arity_bits_def Suc_leI add.assoc)
  ultimately show ?thesis by (simp only:) simp
qed
lemma drop_concat: "\<forall>x\<in>set xs. length x = w \<Longrightarrow> i < length xs \<Longrightarrow> drop (i * w) (concat xs) = xs ! i @ concat (drop (Suc i) xs)"
proof (induction xs arbitrary: i)
  case (Cons x xs)
  then show ?case by (cases i) simp_all
qed simp

lemma synth_file:
  assumes A: "arity_bits A b s t" and bits: "sum_list (level_bits k b s t) = kd" "kd \<le> 64"
    and ps: "proofs \<noteq> []" "\<forall>p\<in>set proofs. synth_ok A k kd layers root_d root_c root_r p"
    and roots: "length root_d = 32" "length root_c = 32" "length root_r = 32" and idxs: "\<forall>i\<in>set idxs. i < length proofs"
  shows "\<exists>f size. synth_write A proofs = Inr f \<and> proof_size A (2 ^ kd) layers = Inr size \<and> length f = 96 + length proofs * size \<and>
    synth_read A f (2 ^ kd) layers idxs = Inr (map ((!) proofs) idxs)"
proof -
  let ?bs = "map (proof_bytes A) proofs"
  let ?f = "root_d @ root_c @ root_r @ concat ?bs"
  have wp: "write_proof A p = Inr (proof_bytes A p)" if "p \<in> set proofs" for p using write_proof_ok ps(2) bits(2) that by blast
  have "proofs ! 0 \<in> set proofs" using ps(1) by simp
  then have w: "synth_write A proofs = Inr ?f"
    using ps collectR_all_ok [of proofs "write_proof A" "proof_bytes A"] wp
    by (simp add: synth_write_def synth_ok_def Let_def cp_root_def)
  obtain size where size: "proof_size A (2 ^ kd) layers = Inr size" "\<forall>x\<in>set ?bs. length x = size"
    using proof_size_ok [OF A bits] ps by (cases proofs) (auto, metis sum.inject(2))
  have rd: "bindP (read_exact 32) (\<lambda>root_d. bindP (read_exact 32) (\<lambda>root_c. bindP (read_exact 32) (\<lambda>root_r.
      retP (root_d, root_c, root_r)))) ?f = Inr ((root_d, root_c, root_r), concat ?bs)"
    using roots by (simp add: bindP_def retP_def read_exact_def)
  let ?sibs = "map (\<lambda>i. 2 ^ i - 1) (level_bits k b s t)"
  have one: "bindR (read_proof A kd ?sibs (map of_nat ?sibs) (level_bits k b s t) layers root_d root_c root_r
      (drop (3 * NODE_SIZE + i * size) ?f)) (\<lambda>(p, _). Inr p) = Inr (proofs ! i)" if i: "i < length proofs" for i
  proof -
    have "drop (3 * NODE_SIZE + i * size) ?f = drop (i * size) (concat ?bs)" using roots by (simp add: NODE_SIZE_def)
    also have "\<dots> = proof_bytes A (proofs ! i) @ concat (drop (Suc i) ?bs)" using drop_concat [OF size(2), of i] i by simp
    finally show ?thesis using read_proof_ok [OF A bits] ps(2) i by (simp add: parses_def)
  qed
  have snds: "map snd (map (\<lambda>i. (2 ^ i, i)) (level_bits k b s t)) = level_bits k b s t" by (simp add: comp_def)
  have "synth_read A ?f (2 ^ kd) layers idxs = Inr (map ((!) proofs) idxs)"
    unfolding synth_read_def trailing_zeros_2p Let_def path_r_arities_bits [OF A, of k, unfolded bits(1)] bindR.simps path_sibs_bits rd
      size(1) snds prod.case
    using idxs by (intro collectR_all_ok one) simp
  moreover have "length (concat ?bs) = length proofs * size" using size(2) by (induction proofs) auto
  ultimately show ?thesis using w size(1) roots by auto
qed

subsection \<open>An instance\<close>

text \<open>A proof of the second of two nodes, in binary trees, with two layers.\<close>

definition toy_mp :: "nat \<Rightarrow> u8 list proof_data" where
  "toy_mp i = Single \<lparr>sg_root = replicate 32 1, sg_leaf = replicate 32 (of_nat i), sg_path = [\<lparr>pe_hashes = [replicate 32 7], pe_index = i\<rparr>]\<rparr>"

definition toy_column_proof :: "nat \<Rightarrow> column_proof" where
  "toy_column_proof i = \<lparr>cp_column = \<lparr>col_index = of_nat i, col_rows = [replicate 32 5, replicate 32 6]\<rparr>, cp_inclusion_proof = toy_mp i\<rparr>"

definition toy_synth_proof :: porep_proof where
  "toy_synth_proof = projr (proof_from_parts (toy_mp 1) (toy_column_proof 1) (replicate 6 (toy_column_proof 0)) (replicate 8 (toy_column_proof 0)) (toy_mp 1))"

lemma collectR_replicate: "collectR f (replicate n x) = (if n = 0 then Inr [] else bindR (f x) (\<lambda>y. Inr (replicate n y)))"
proof (induction n)
  case (Suc n)
  then show ?case by (cases "f x") simp_all
qed simp

lemma toy_synth_ok: "synth_ok binary_arities 1 1 2 (replicate 32 1) (replicate 32 1) (replicate 32 1) toy_synth_proof"
proof -
  have s: "shape_ok binary_arities 1 (toy_mp i)" for i by (simp add: toy_mp_def binary_arities_def)
  have ix: "mp_path_index binary_arities (toy_mp i) = i" for i by (simp add: toy_mp_def inclusion_path_index_def)
  have c: "mp_canonical binary_arities 1 (toy_mp i)" if "i < 2" for i
    using that s by (simp add: mp_canonical_def toy_mp_def from_parts_def mp_path_def element_of_def binary_arities_def levels_def)
  have cc: "column_canonical binary_arities 1 2 (toy_column_proof i)" "cp_root (toy_column_proof i) = replicate 32 1" if "i < 2" for i
    using c [OF that] ix [of i] by (simp_all add: column_canonical_def toy_column_proof_def cp_root_def toy_mp_def)
  obtain p where p: "proof_from_parts (toy_mp 1) (toy_column_proof 1) (replicate 6 (toy_column_proof 0)) (replicate 8 (toy_column_proof 0)) (toy_mp 1) = Inr p"
    by (simp add: proof_from_parts_def toy_column_proof_def parts_labeling_proof_def get_node_at_layer_def numeral_2_eq_2 collectR_append collectR_replicate)
  have "pf_comm_d_proofs p = toy_mp 1" "pf_comm_r_last_proof p = toy_mp 1" "pf_replica_column_proofs p =
      \<lparr>rc_c_x = toy_column_proof 1, rc_drg_parents = replicate 6 (toy_column_proof 0), rc_exp_parents = replicate 8 (toy_column_proof 0)\<rparr>"
    using p by (auto simp: proof_from_parts_def Let_def bindR_eq_Inr)
  then show ?thesis using p c [of 1] cc [of 0] cc [of 1] ix [of 1]
    by (auto simp: toy_synth_proof_def synth_ok_def Let_def BASE_DEGREE_def EXP_DEGREE_def toy_column_proof_def toy_mp_def)
qed

section \<open>Properties\<close>

text \<open>
  C9. Round trip of the file of synthetic proofs: for trees of power-of-two arities the file
  consists of three roots and records of \<open>proof_size\<close> bytes, and reading any selection of records
  returns exactly the proofs that were written at these positions, in the order asked for.
\<close>

theorem synth_proofs_roundtrip:
  assumes "arity_bits A b s t" and "leaf_count (levels A k) = 2 ^ kd" and "kd \<le> 64" and "proofs \<noteq> []"
    and "\<forall>p\<in>set proofs. synth_ok A k kd layers root_d root_c root_r p"
    and "length root_d = 32" and "length root_c = 32" and "length root_r = 32" and "\<forall>i\<in>set idxs. i < length proofs"
  shows "\<exists>f size. synth_write A proofs = Inr f \<and> proof_size A (2 ^ kd) layers = Inr size \<and> length f = 96 + length proofs * size \<and>
    synth_read A f (2 ^ kd) layers idxs = Inr (map ((!) proofs) idxs)"
proof -
  have "(2::nat) ^ sum_list (level_bits k b s t) = 2 ^ kd" using leaf_count_bits [OF assms(1), of k] assms(2) by simp
  then have "sum_list (level_bits k b s t) = kd" by simp
  then show ?thesis by (rule synth_file [OF assms(1) _ assms(3-9)])
qed

theorem synth_proofs_roundtrip_witness:
  "\<exists>f. synth_write binary_arities (replicate 3 toy_synth_proof) = Inr f \<and>
     synth_read binary_arities f 2 2 [2, 0] = Inr [toy_synth_proof, toy_synth_proof]"
proof -
  have n: "leaf_count (levels binary_arities 1) = 2 ^ 1" by (simp add: leaf_count_levels binary_arities_def)
  have p: "\<forall>p\<in>set (replicate 3 toy_synth_proof). synth_ok binary_arities 1 1 2 (replicate 32 1) (replicate 32 1) (replicate 32 1) p"
    using toy_synth_ok by simp
  have l: "(1::nat) \<le> 64" "replicate 3 toy_synth_proof \<noteq> []" "length (replicate 32 (1::u8)) = 32" "\<forall>i\<in>set [2, 0]. i < length (replicate 3 toy_synth_proof)"
    by simp_all
  have e: "map ((!) (replicate 3 toy_synth_proof)) [2, 0] = [toy_synth_proof, toy_synth_proof]" "(2::nat) ^ 1 = 2" by simp_all
  show ?thesis using synth_proofs_roundtrip [OF binary_bits(1) n l(1,2) p l(3,3,3,4)] unfolding e by blast
qed
end
