(* ===== verification/Tree_Builders.thy ===== *)
theory Tree_Builders
  imports Merkle_Proof Create_Label
begin

text \<open>
  Trees and their stores: \<open>storage-proofs-core/src/merkle/builders.rs\<close> and the parts of
  \<open>merkle/tree.rs\<close> that turn proofs of the \<open>merkletree\<close> crate into proofs of the program. The
  crate is a record of its operations, over the contents of store files; what is relied on is the
  predicate \<open>crate_ok\<close>. All stores lie in one directory, so a configuration has no path.
\<close>

section \<open>The code\<close>

record store_config =
  sc_id :: string
  sc_size :: "nat option"
  sc_rows_to_discard :: nat

text \<open>A replica: its contents and the offsets of the base trees in it.\<close>

record replica_config =
  rpc_replica :: "u8 list"
  rpc_offsets :: "nat list"

text \<open>
  The crate: the arithmetic of tree sizes; opening a store file (\<open>None\<close>: no such file) and reading
  from it; building a base tree, with the contents of its store file; trees over stores; proofs.
\<close>

record ('t, 'p) tree_crate =
  get_merkle_tree_len :: "nat \<Rightarrow> nat \<Rightarrow> nat res"
  get_merkle_tree_leafs :: "nat \<Rightarrow> nat \<Rightarrow> nat res"
  is_merkle_tree_size_valid :: "nat \<Rightarrow> nat \<Rightarrow> bool"
  new_from_disk :: "nat \<Rightarrow> nat \<Rightarrow> u8 list option \<Rightarrow> u8 list res"
  new_from_disk_with_reader :: "nat \<Rightarrow> nat \<Rightarrow> store_config \<Rightarrow> u8 list option \<Rightarrow> u8 list res"
  read_at :: "u8 list \<Rightarrow> nat \<Rightarrow> u8 list res"
  read_range :: "u8 list \<Rightarrow> nat \<Rightarrow> nat \<Rightarrow> u8 list list res"
  store_len :: "u8 list \<Rightarrow> nat"
  from_par_iter_with_config :: "arities \<Rightarrow> store_config \<Rightarrow> u8 list list \<Rightarrow> (u8 list \<times> 't) res"
  from_data_store :: "arities \<Rightarrow> u8 list \<Rightarrow> nat \<Rightarrow> replica_config option \<Rightarrow> 't res"
  from_store_configs :: "arities \<Rightarrow> nat \<Rightarrow> u8 list option list \<Rightarrow> replica_config option \<Rightarrow> 't res"
  from_sub_tree_store_configs :: "arities \<Rightarrow> nat \<Rightarrow> u8 list option list \<Rightarrow> replica_config option \<Rightarrow> 't res"
  tree_root_of :: "'t \<Rightarrow> u8 list"
  tree_len :: "'t \<Rightarrow> nat"
  inner_gen_proof :: "'t \<Rightarrow> nat \<Rightarrow> 'p res"
  inner_gen_cached_proof :: "'t \<Rightarrow> nat \<Rightarrow> nat option \<Rightarrow> 'p res"
  proof_ops_of :: "('p, u8 list) proof_ops"

definition gen_proof :: "('t, 'p) tree_crate \<Rightarrow> arities \<Rightarrow> 't \<Rightarrow> nat \<Rightarrow> u8 list proof_data res" where
  "gen_proof T A t i = bindR (inner_gen_proof T t i) (try_from_proof (proof_ops_of T) A)"

definition gen_cached_proof :: "('t, 'p) tree_crate \<Rightarrow> arities \<Rightarrow> 't \<Rightarrow> nat \<Rightarrow> nat option \<Rightarrow> u8 list proof_data res" where
  "gen_cached_proof T A t i rows_to_discard =
     (if rows_to_discard = Some 0 then gen_proof T A t i
      else bindR (inner_gen_cached_proof T t i rows_to_discard) (try_from_proof (proof_ops_of T) A))"

text \<open>The arities of a base tree.\<close>

definition base_only :: "arities \<Rightarrow> arities" where
  "base_only A = A\<lparr>sub_tree_arity := 0, top_tree_arity := 0\<rparr>"

definition file_of :: "store_config \<Rightarrow> disk \<Rightarrow> u8 list option" where
  "file_of config d = d (Data_File (sc_id config))"

definition create_disk_tree :: "('t, 'p) tree_crate \<Rightarrow> arities \<Rightarrow> nat \<Rightarrow> store_config list \<Rightarrow> disk \<Rightarrow> 't res" where
  "create_disk_tree T A base_tree_len configs d =
     bindR (get_merkle_tree_leafs T base_tree_len (base_arity A)) (\<lambda>base_tree_leafs.
       if 0 < top_tree_arity A
       then ensure (0 < sub_tree_arity A) ''Invalid top arity specified without sub arity''
              (from_sub_tree_store_configs T A base_tree_leafs (map (\<lambda>c. file_of c d) configs) None)
       else if 0 < sub_tree_arity A
       then ensure (configs \<noteq> []) ''Cannot create sub-tree with a single tree config''
              (from_store_configs T A base_tree_leafs (map (\<lambda>c. file_of c d) configs) None)
       else ensure (length configs = 1) ''Invalid tree-shape specified''
              (bindR (at_index configs 0) (\<lambda>config.
               bindR (new_from_disk T base_tree_len (base_arity A) (file_of config d)) (\<lambda>store.
               from_data_store T A store base_tree_leafs None))))"

definition create_lc_tree ::
  "('t, 'p) tree_crate \<Rightarrow> arities \<Rightarrow> nat \<Rightarrow> store_config list \<Rightarrow> replica_config \<Rightarrow> disk \<Rightarrow> 't res" where
  "create_lc_tree T A base_tree_len configs replica d =
     bindR (get_merkle_tree_leafs T base_tree_len (base_arity A)) (\<lambda>base_tree_leafs.
       if 0 < top_tree_arity A
       then ensure (0 < sub_tree_arity A) ''Invalid top arity specified without sub arity''
              (from_sub_tree_store_configs T A base_tree_leafs (map (\<lambda>c. file_of c d) configs) (Some replica))
       else if 0 < sub_tree_arity A
       then ensure (configs \<noteq> []) ''Cannot create sub-tree with a single tree config''
              (from_store_configs T A base_tree_leafs (map (\<lambda>c. file_of c d) configs) (Some replica))
       else ensure (length configs = 1) ''Invalid tree-shape specified''
              (bindR (at_index configs 0) (\<lambda>config.
               bindR (new_from_disk_with_reader T base_tree_len (base_arity A) config (file_of config d)) (\<lambda>store.
               from_data_store T A store base_tree_leafs (Some replica)))))"

definition split_config :: "store_config \<Rightarrow> nat \<Rightarrow> store_config list" where
  "split_config config count =
     (if count = 1 then [config]
      else map (\<lambda>i. config\<lparr>sc_id := sc_id config @ ''-'' @ show_nat i\<rparr>) [0..<count])"

definition split_config_and_replica ::
  "store_config \<Rightarrow> u8 list \<Rightarrow> nat \<Rightarrow> nat \<Rightarrow> store_config list \<times> replica_config" where
  "split_config_and_replica config replica sub_tree_width count =
     (if count = 1 then ([config], \<lparr>rpc_replica = replica, rpc_offsets = [0]\<rparr>)
      else (map (\<lambda>i. config\<lparr>sc_id := sc_id config @ ''-'' @ show_nat i\<rparr>) [0..<count],
            \<lparr>rpc_replica = replica, rpc_offsets = map (\<lambda>i. i * sub_tree_width * NODE_SIZE) [0..<count]\<rparr>))"

definition get_base_tree_count :: "arities \<Rightarrow> nat res" where
  "get_base_tree_count A =
     (if top_tree_arity A = 0 \<and> sub_tree_arity A = 0 then Inr 1
      else if 0 < top_tree_arity A
      then if sub_tree_arity A \<noteq> 0 then Inr (top_tree_arity A * sub_tree_arity A) else Inl (Panic ''assertion failed'')
      else Inr (sub_tree_arity A))"

text \<open>\<open>create_base_merkle_tree\<close> with a configuration: the nodes of the data are the leaves.\<close>

definition create_base_merkle_tree ::
  "('t, 'p) tree_crate \<Rightarrow> arities \<Rightarrow> store_config \<Rightarrow> nat \<Rightarrow> u8 list \<Rightarrow> disk \<Rightarrow> (disk \<times> 't) res" where
  "create_base_merkle_tree T A config leafs data d =
     ensure (length data = NODE_SIZE * leafs) ''Invalid merkle tree args''
     (ensure (is_merkle_tree_size_valid T leafs (base_arity A)) ''Invalid merkle tree size given the arity''
       (bindR (collectR (\<lambda>i. expectR ''data_at_node math failed'' (data_at_node data i)) [0..<leafs]) (\<lambda>leaves.
        bindR (from_par_iter_with_config T A config leaves) (\<lambda>(store, t).
        Inr (d(Data_File (sc_id config) \<mapsto> store), t)))))"

end
