(* ===== verification/Stacked_Drg.thy ===== *)
theory Stacked_Drg
  imports Synth_Proofs Tree_Builders
begin

text \<open>
  Replication: \<open>storage-proofs-porep/src/stacked/vanilla/proof.rs\<close> with the labels and
  auxiliary data of \<open>params.rs\<close>: the trees of a replica, its encoding and decoding, and the
  generation of the proofs of a set of challenges. Hashing of columns in threads is
  written with the chunks of the code; GPU builders are left out.
\<close>

section \<open>The code\<close>

text \<open>
  What the functions get from their type parameters and from other crates: the primitives of
  the proofs, the trees of the replica and of the data, the node hash of the latter, the arities, the number of processors, the
  rows of a tree and the configured rows to discard.
\<close>

record ('f, 't, 'p) drg_env =
  de_prims :: "'f porep_prims"
  de_tree :: "('t, 'p) tree_crate"
  de_tree_d :: "('t, 'p) tree_crate"
  de_hash_d :: "u8 list node_hash"
  de_arities :: arities
  de_cpus :: nat
  de_rows :: "nat \<Rightarrow> nat \<Rightarrow> nat"
  de_rows_to_discard :: nat

subsection \<open>Labels\<close>

definition labels_for_layer :: "('f, 't, 'p) drg_env \<Rightarrow> store_config list \<Rightarrow> nat \<Rightarrow> disk \<Rightarrow> u8 list res" where
  "labels_for_layer X labels layer d =
     (if layer = 0 then Inl (Panic ''Layer cannot be 0'')
      else if length labels < layer then Inl (Panic ''Layer is not available'')
      else let config = labels ! (layer - 1) in
        case sc_size config of
          None \<Rightarrow> Inl (Panic ''assertion failed'')
        | Some n \<Rightarrow> new_from_disk (de_tree X) n (base_arity (de_arities X)) (file_of config d))"

definition labels_for_last_layer :: "('f, 't, 'p) drg_env \<Rightarrow> store_config list \<Rightarrow> disk \<Rightarrow> u8 list res" where
  "labels_for_last_layer X labels d = labels_for_layer X labels (length labels) d"

definition labels_column :: "('f, 't, 'p) drg_env \<Rightarrow> store_config list \<Rightarrow> u32 \<Rightarrow> disk \<Rightarrow> column res" where
  "labels_column X labels node d =
     bindR (collectR (\<lambda>label. case sc_size label of
         None \<Rightarrow> Inl (Panic ''assertion failed'')
       | Some n \<Rightarrow> bindR (new_from_disk (de_tree X) n (base_arity (de_arities X)) (file_of label d))
           (\<lambda>store. read_at (de_tree X) store (unat node))) labels) (\<lambda>rows.
     Inr \<lparr>col_index = node, col_rows = rows\<rparr>)"

type_synonym labels_cache = "u8 list list"

definition labels_cache_new :: "('f, 't, 'p) drg_env \<Rightarrow> store_config list \<Rightarrow> disk \<Rightarrow> labels_cache res" where
  "labels_cache_new X labels d = collectR (\<lambda>i. labels_for_layer X labels (i + 1) d) [0..<length labels]"

definition cache_labels_for_layer :: "labels_cache \<Rightarrow> nat \<Rightarrow> u8 list res" where
  "cache_labels_for_layer labels layer =
     (if layer = 0 then Inl (Panic ''Layer cannot be 0'')
      else if length labels < layer then Inl (Panic ''Layer is not available'')
      else Inr (labels ! (layer - 1)))"

definition cache_labels_for_last_layer :: "labels_cache \<Rightarrow> u8 list res" where
  "cache_labels_for_last_layer labels = bindR (usub (length labels) 1) (at_index labels)"

definition cache_column :: "('f, 't, 'p) drg_env \<Rightarrow> labels_cache \<Rightarrow> u32 \<Rightarrow> column res" where
  "cache_column X labels node =
     bindR (collectR (\<lambda>store. read_at (de_tree X) store (unat node)) labels) (\<lambda>rows.
     Inr \<lparr>col_index = node, col_rows = rows\<rparr>)"

subsection \<open>Auxiliary data\<close>

record persistent_aux =
  pa_comm_c :: "u8 list"
  pa_comm_r_last :: "u8 list"

record temporary_aux =
  ta_labels :: "store_config list"
  ta_tree_d_config :: store_config
  ta_tree_r_last_config :: store_config
  ta_tree_c_config :: store_config

record 't temporary_aux_cache =
  tc_labels :: labels_cache
  tc_tree_d :: "'t option"
  tc_tree_r_last :: 't
  tc_rows_to_discard :: nat
  tc_tree_c :: "'t option"

definition config_size :: "store_config \<Rightarrow> nat res" where
  "config_size c = (case sc_size c of None \<Rightarrow> Inl (Panic ''config size failure'') | Some n \<Rightarrow> Inr n)"

definition temporary_aux_cache_new ::
  "('f, 't, 'p) drg_env \<Rightarrow> temporary_aux \<Rightarrow> u8 list \<Rightarrow> bool \<Rightarrow> disk \<Rightarrow> 't temporary_aux_cache res" where
  "temporary_aux_cache_new X t_aux replica skip_labels d =
     bindR (get_base_tree_count (de_arities X)) (\<lambda>tree_count.
     bindR (if skip_labels then Inr (None, None)
            else bindR (config_size (ta_tree_d_config t_aux)) (\<lambda>tree_d_size.
                 bindR (get_merkle_tree_leafs (de_tree_d X) tree_d_size 2) (\<lambda>tree_d_leafs.
                 bindR (new_from_disk (de_tree_d X) tree_d_size 2 (file_of (ta_tree_d_config t_aux) d)) (\<lambda>tree_d_store.
                 bindR (from_data_store (de_tree_d X) binary_arities tree_d_store tree_d_leafs None) (\<lambda>tree_d.
                 let configs = split_config (ta_tree_c_config t_aux) tree_count in
                 bindR (config_size (ta_tree_c_config t_aux)) (\<lambda>tree_c_size.
                 bindR (create_disk_tree (de_tree X) (de_arities X) tree_c_size configs d) (\<lambda>tree_c.
                 Inr (Some tree_d, Some tree_c)))))))) (\<lambda>(tree_d, tree_c).
     bindR (config_size (ta_tree_r_last_config t_aux)) (\<lambda>tree_r_last_size.
     bindR (get_merkle_tree_leafs (de_tree X) tree_r_last_size (base_arity (de_arities X))) (\<lambda>leafs.
     let (configs, replica_config) = split_config_and_replica (ta_tree_r_last_config t_aux) replica leafs tree_count in
     bindR (create_lc_tree (de_tree X) (de_arities X) tree_r_last_size configs replica_config d) (\<lambda>tree_r_last.
     bindR (labels_cache_new X (if skip_labels then [] else ta_labels t_aux) d) (\<lambda>labels.
     Inr \<lparr>tc_labels = labels, tc_tree_d = tree_d, tc_tree_r_last = tree_r_last,
          tc_rows_to_discard = sc_rows_to_discard (ta_tree_r_last_config t_aux), tc_tree_c = tree_c\<rparr>))))))"

definition aux_domain_node_at_layer :: "('f, 't, 'p) drg_env \<Rightarrow> 't temporary_aux_cache \<Rightarrow> nat \<Rightarrow> u32 \<Rightarrow> u8 list res" where
  "aux_domain_node_at_layer X t_aux layer node =
     bindR (cache_labels_for_layer (tc_labels t_aux) layer) (\<lambda>store. read_at (de_tree X) store (unat node))"

definition aux_column :: "('f, 't, 'p) drg_env \<Rightarrow> 't temporary_aux_cache \<Rightarrow> u32 \<Rightarrow> column res" where
  "aux_column X t_aux node = cache_column X (tc_labels t_aux) node"

subsection \<open>The trees of a replica\<close>

definition build_binary_tree :: "('t, 'p) tree_crate \<Rightarrow> u8 list \<Rightarrow> store_config \<Rightarrow> disk \<Rightarrow> (disk \<times> 't) res" where
  "build_binary_tree T tree_data config d =
     (let leafs = length tree_data div NODE_SIZE in
      if length tree_data mod NODE_SIZE \<noteq> 0 then Inl (Panic ''assertion failed'')
      else bindR (collectR (\<lambda>i. expectR ''get_node failure'' (expectR ''invalid node math'' (data_at_node tree_data i))) [0..<leafs]) (\<lambda>leaves.
           bindR (from_par_iter_with_config T binary_arities config leaves) (\<lambda>(store, t).
           Inr (d(Data_File (sc_id config) \<mapsto> store), t))))"

text \<open>
  The hashes of the columns of base tree \<open>i\<close>: the chunks are computed by different threads. The
  quotient of the node count and the number of chunks is rounded up in \<open>f64\<close>, exactly for these sizes.
\<close>

definition column_hash_at :: "('f, 't, 'p) drg_env \<Rightarrow> nat \<Rightarrow> labels_cache \<Rightarrow> nat \<Rightarrow> u8 list res" where
  "column_hash_at X column_arity labels i =
     bindR (collectR (\<lambda>layer.
         bindR (cache_labels_for_layer labels layer) (\<lambda>store.
         bindR (expectR ''store read_at failure'' (read_at (de_tree X) store i)) (into_fr (de_prims X))))
       [1..<column_arity + 1]) (\<lambda>data.
     bindR (hash_single_column (de_prims X) data) (\<lambda>h. Inr (pq_of_fr (de_prims X) h)))"

definition num_chunks :: "nat \<Rightarrow> nat \<Rightarrow> nat" where
  "num_chunks n nodes_count = (if nodes_count * 2 < n then 1 else n)"

definition tree_c_hashes :: "('f, 't, 'p) drg_env \<Rightarrow> nat \<Rightarrow> nat \<Rightarrow> labels_cache \<Rightarrow> nat \<Rightarrow> u8 list list res" where
  "tree_c_hashes X column_arity nodes_count labels i =
     (let n = num_chunks (de_cpus X) nodes_count;
          chunk_size = (nodes_count + n - 1) div n in
      if chunk_size = 0 then Inl (Panic ''chunk size must be non-zero'')
      else bindR (collectR (\<lambda>(chunk, hashes_chunk).
             collectR (\<lambda>(j, _). column_hash_at X column_arity labels (i * nodes_count + j + chunk * chunk_size))
               (enumerate 0 hashes_chunk))
           (enumerate 0 (chunks chunk_size (replicate nodes_count ())))) (\<lambda>hashes. Inr (concat hashes)))"

text \<open>
  The outcome of building a base tree is pushed to a list and never looked at: when it fails,
  its store file is as it was.
\<close>

fun tree_c_loop ::
  "('f, 't, 'p) drg_env \<Rightarrow> nat \<Rightarrow> nat \<Rightarrow> labels_cache \<Rightarrow> (nat \<times> store_config) list \<Rightarrow> disk \<Rightarrow> disk res" where
  "tree_c_loop X column_arity nodes_count labels [] d = Inr d"
| "tree_c_loop X column_arity nodes_count labels ((i, config) # rest) d =
     bindR (tree_c_hashes X column_arity nodes_count labels i) (\<lambda>hashes.
       let d' = (case from_par_iter_with_config (de_tree X) (base_only (de_arities X)) config hashes of
                   Inl _ \<Rightarrow> d | Inr (store, _) \<Rightarrow> d(Data_File (sc_id config) \<mapsto> store))
       in tree_c_loop X column_arity nodes_count labels rest d')"

definition generate_tree_c_cpu ::
  "('f, 't, 'p) drg_env \<Rightarrow> nat \<Rightarrow> nat \<Rightarrow> nat \<Rightarrow> store_config list \<Rightarrow> labels_cache \<Rightarrow> disk \<Rightarrow> (disk \<times> 't) res" where
  "generate_tree_c_cpu X column_arity nodes_count tree_count configs labels d =
     bindR (tree_c_loop X column_arity nodes_count labels (enumerate 0 configs) d) (\<lambda>d'.
     if tree_count \<noteq> length configs then Inl (Panic ''assertion failed'')
     else bindR (at_index configs 0) (\<lambda>config. bindR (config_size config) (\<lambda>n.
          bindR (create_disk_tree (de_tree X) (de_arities X) n configs d') (\<lambda>t. Inr (d', t)))))"

text \<open>The encoding of the nodes of a base tree; the data is changed in place.\<close>

definition prepare_tree_r_data_cpu ::
  "('f::field, 't, 'p) drg_env \<Rightarrow> u8 list \<Rightarrow> u8 list \<Rightarrow> nat \<Rightarrow> nat \<Rightarrow> (u8 list \<times> u8 list list) res" where
  "prepare_tree_r_data_cpu X source data start end' =
     bindR (read_range (de_tree X) source start end') (\<lambda>keys.
     bindR (slice data (start * NODE_SIZE) (end' * NODE_SIZE)) (\<lambda>part.
     bindR (collectR (\<lambda>(key, data_node_bytes).
         if length data_node_bytes = NODE_SIZE then encode (de_prims X) key data_node_bytes
         else Inl (Panic ''try from bytes failed'')) (zip keys (chunks NODE_SIZE part))) (\<lambda>encoded.
     Inr (take (start * NODE_SIZE) data @ concat encoded @ drop (start * NODE_SIZE + length (concat encoded)) data, encoded))))"

type_synonym tree_r_callback = "u8 list \<Rightarrow> u8 list \<Rightarrow> nat \<Rightarrow> nat \<Rightarrow> (u8 list \<times> u8 list list) res"

fun tree_r_last_loop ::
  "('f, 't, 'p) drg_env \<Rightarrow> tree_r_callback \<Rightarrow> u8 list \<Rightarrow> nat \<Rightarrow> store_config list \<Rightarrow> nat \<Rightarrow> nat \<Rightarrow> u8 list \<Rightarrow> disk \<Rightarrow>
    (u8 list \<times> disk) res" where
  "tree_r_last_loop X encode_data source nodes_count [] start end' data d = Inr (data, d)"
| "tree_r_last_loop X encode_data source nodes_count (config # rest) start end' data d =
     bindR (expectR ''failed to prepare tree_r_last data'' (encode_data source data start end')) (\<lambda>(data', encoded).
       let d1 = d(Data_File (sc_id config) := None)
       in bindR (from_par_iter_with_config (de_tree X) (base_only (de_arities X)) config encoded) (\<lambda>(store, _).
          tree_r_last_loop X encode_data source nodes_count rest (start + nodes_count) (end' + nodes_count) data'
            (d1(Data_File (sc_id config) \<mapsto> store))))"

text \<open>
  \<open>replica_of\<close> gives the contents of the file at \<open>replica_path\<close> from the data: in replication this
  file is the data, and the tree is opened on the encoded data.
\<close>

definition generate_tree_r_last_cpu ::
  "('f, 't, 'p) drg_env \<Rightarrow> tree_r_callback \<Rightarrow> (u8 list \<Rightarrow> u8 list) \<Rightarrow> u8 list \<Rightarrow> nat \<Rightarrow> nat \<Rightarrow> store_config \<Rightarrow> u8 list \<Rightarrow>
    disk \<Rightarrow> (u8 list \<times> disk \<times> 't) res" where
  "generate_tree_r_last_cpu X encode_data replica_of data nodes_count tree_count config source d =
     (let (configs, _) = split_config_and_replica config (replica_of data) nodes_count tree_count in
      bindR (tree_r_last_loop X encode_data source nodes_count configs 0 nodes_count data d) (\<lambda>(data', d').
      bindR (config_size config) (\<lambda>n.
      bindR (create_lc_tree (de_tree X) (de_arities X) n configs
               (snd (split_config_and_replica config (replica_of data') nodes_count tree_count)) d') (\<lambda>t.
      Inr (data', d', t)))))"

text \<open>The result: the encoded data, the disk, the commitments and the auxiliary data.\<close>

definition transform_and_replicate_layers ::
  "('f::field, 't, 'p) drg_env \<Rightarrow> nat \<Rightarrow> nat \<Rightarrow> u8 list \<Rightarrow> 't option \<Rightarrow> store_config list \<Rightarrow> disk \<Rightarrow>
   (u8 list \<times> disk \<times> tau \<times> persistent_aux \<times> temporary_aux) res" where
  "transform_and_replicate_layers X total_nodes_count num_layers data data_tree label_configs d =
     (let T = de_tree X; A = de_arities X in
      if length data \<noteq> total_nodes_count * NODE_SIZE then Inl (Panic ''assertion failed'')
      else bindR (get_base_tree_count A) (\<lambda>tree_count.
      bindR (udiv total_nodes_count tree_count) (\<lambda>nodes_count.
      if \<not> (is_merkle_tree_size_valid T nodes_count 2 \<and> is_merkle_tree_size_valid T nodes_count (base_arity A) \<and> 0 < num_layers)
      then Inl (Panic ''assertion failed'')
      else bindR (get_merkle_tree_len (de_tree_d X) total_nodes_count 2) (\<lambda>tree_d_size.
      bindR (get_merkle_tree_len T nodes_count (base_arity A)) (\<lambda>n.
      let tree_d_config = \<lparr>sc_id = cache_key_str CommDTree, sc_size = Some tree_d_size, sc_rows_to_discard = 0\<rparr>;
          tree_r_last_config = \<lparr>sc_id = cache_key_str CommRLastTree, sc_size = Some n,
            sc_rows_to_discard = default_rows_to_discard (de_rows X) (de_rows_to_discard X) nodes_count (base_arity A)\<rparr>;
          tree_c_config = \<lparr>sc_id = cache_key_str CommCTree, sc_size = Some n, sc_rows_to_discard = 0\<rparr>
      in bindR (labels_cache_new X label_configs d) (\<lambda>labels.
      let configs = split_config tree_c_config tree_count in
      bindR (if num_layers = 2 \<or> num_layers = 11 then generate_tree_c_cpu X num_layers nodes_count tree_count configs labels d
             else Inl (Panic ''Unsupported column arity'')) (\<lambda>(d1, tree_c).
      bindR (case data_tree of
               Some t \<Rightarrow> if Suc (tree_len (de_tree_d X) t) = 2 * (length data div NODE_SIZE) then Inr (d1, t)
                         else Inl (Panic ''assertion failed'')
             | None \<Rightarrow> build_binary_tree (de_tree_d X) data tree_d_config d1) (\<lambda>(d2, tree_d).
      if tree_d_size \<noteq> tree_len (de_tree_d X) tree_d then Inl (Panic ''assertion failed'')
      else bindR (cache_labels_for_last_layer labels) (\<lambda>last_layer_labels.
      bindR (generate_tree_r_last_cpu X (prepare_tree_r_data_cpu X) id data nodes_count tree_count tree_r_last_config last_layer_labels d2)
        (\<lambda>(replica, d3, tree_r_last).
      let c = tree_root_of T tree_c; r = tree_root_of T tree_r_last
      in Inr (replica, d3, \<lparr>tau_comm_d = tree_root_of (de_tree_d X) tree_d, tau_comm_r = pq_hash2 (de_prims X) c r\<rparr>,
              \<lparr>pa_comm_c = c, pa_comm_r_last = r\<rparr>,
              \<lparr>ta_labels = label_configs, ta_tree_d_config = tree_d_config,
               ta_tree_r_last_config = tree_r_last_config, ta_tree_c_config = tree_c_config\<rparr>)))))))))))"
subsection \<open>The phases of replication\<close>

text \<open>The settings of the parent cache, its file and the digest of the \<open>sha2\<close> crate.\<close>

record cache_env =
  ca_sha256 :: "u8 list \<Rightarrow> u8 list"
  ca_manifest :: "string option"
  ca_verify :: bool
  ca_size :: nat
  ca_file :: "u8 list option"

definition graph_parent_cache :: "cache_env \<Rightarrow> graph_env \<Rightarrow> (parent_cache \<times> u8 list) res" where
  "graph_parent_cache S E =
     (let cache_entries = graph_size (ge_graph E); cache_size = min cache_entries (ca_size S)
      in parent_cache_new (ca_sha256 S) (ca_manifest S) (ca_verify S) (graph_parents E) cache_entries cache_size cache_entries (ca_file S))"

definition label_config :: "graph_env \<Rightarrow> string \<Rightarrow> store_config" where
  "label_config E id' = \<lparr>sc_id = id', sc_size = Some (graph_size (ge_graph E)), sc_rows_to_discard = 0\<rparr>"

definition generate_labels_for_encoding ::
  "cache_env \<Rightarrow> graph_env \<Rightarrow> nat \<Rightarrow> u8 list \<Rightarrow> disk \<Rightarrow> (disk \<times> store_config list) res option" where
  "generate_labels_for_encoding S E num_layers replica_id d =
     bindO (Some (graph_parent_cache S E)) (\<lambda>(parent_cache, _).
     bindO (create_labels_for_encoding E parent_cache num_layers replica_id d) (\<lambda>(d', _, ids, _).
     Some (Inr (d', map (label_config E) ids))))"

definition replicate_phase1 ::
  "cache_env \<Rightarrow> public_params \<Rightarrow> u8 list \<Rightarrow> disk \<Rightarrow> (disk \<times> store_config list) res option" where
  "replicate_phase1 S pp replica_id d = generate_labels_for_encoding S (ppr_graph pp) (ppr_num_layers pp) replica_id d"

definition replicate_phase2 ::
  "('f::field, 't, 'p) drg_env \<Rightarrow> public_params \<Rightarrow> store_config list \<Rightarrow> u8 list \<Rightarrow> 't option \<Rightarrow> disk \<Rightarrow>
   (u8 list \<times> disk \<times> tau \<times> persistent_aux \<times> temporary_aux) res" where
  "replicate_phase2 X pp label_configs data data_tree d =
     transform_and_replicate_layers X (graph_size (ge_graph (ppr_graph pp))) (ppr_num_layers pp) data data_tree label_configs d"

definition generate_labels_for_decoding ::
  "cache_env \<Rightarrow> graph_env \<Rightarrow> nat \<Rightarrow> u8 list \<Rightarrow> string \<Rightarrow> disk \<Rightarrow> (disk \<times> labels_cache) res option" where
  "generate_labels_for_decoding S E num_layers replica_id id' d =
     bindO (Some (graph_parent_cache S E)) (\<lambda>(parent_cache, _).
     bindO (create_labels_for_decoding E parent_cache num_layers replica_id id' d) (\<lambda>(d', _, labels).
     Some (Inr (d', labels))))"

definition extract_and_invert_transform_layers ::
  "('f::field, 't, 'p) drg_env \<Rightarrow> cache_env \<Rightarrow> graph_env \<Rightarrow> nat \<Rightarrow> u8 list \<Rightarrow> u8 list \<Rightarrow> string \<Rightarrow> disk \<Rightarrow>
   (disk \<times> u8 list) res option" where
  "extract_and_invert_transform_layers X S E num_layers replica_id data id' d =
     (if num_layers = 0 then Some (Inl (Panic ''assertion failed''))
      else bindO (generate_labels_for_decoding S E num_layers replica_id id' d) (\<lambda>(d', labels).
      bindO (Some (cache_labels_for_last_layer labels)) (\<lambda>last_layer_labels.
      bindO (Some (read_range (de_tree X) last_layer_labels 0 (store_len (de_tree X) last_layer_labels))) (\<lambda>keys.
      bindO (Some (collectR (\<lambda>(key, encoded_node_bytes).
          if length encoded_node_bytes = NODE_SIZE then decode (de_prims X) key encoded_node_bytes
          else Inl (Fail ''invalid amount of bytes'')) (zip keys (chunks NODE_SIZE data)))) (\<lambda>decoded.
      Some (Inr (d', concat decoded @ drop (length (concat decoded)) data)))))))"

text \<open>The replica id of a sector.\<close>

definition generate_replica_id :: "(u8 list \<Rightarrow> u8 list) \<Rightarrow> u8 list \<Rightarrow> u64 \<Rightarrow> u8 list \<Rightarrow> u8 list \<Rightarrow> u8 list \<Rightarrow> u8 list" where
  "generate_replica_id sha256 prover_id sector_id ticket comm_d porep_seed =
     bytes_into_fr_repr_safe (sha256 (prover_id @ be_of_word 8 sector_id @ ticket @ comm_d @ porep_seed))"

text \<open>Commitments of sectors that are all zeros, without sealing.\<close>

fun fake_tree_loop :: "('f, 't, 'p) drg_env \<Rightarrow> nat \<Rightarrow> store_config list \<Rightarrow> disk \<Rightarrow> disk res" where
  "fake_tree_loop X nodes_count [] d = Inr d"
| "fake_tree_loop X nodes_count (config # rest) d =
     bindR (from_par_iter_with_config (de_tree X) (base_only (de_arities X)) config (replicate nodes_count (replicate NODE_SIZE 0)))
       (\<lambda>(store, _). fake_tree_loop X nodes_count rest (d(Data_File (sc_id config) \<mapsto> store)))"

definition generate_fake_tree_r_last ::
  "('f, 't, 'p) drg_env \<Rightarrow> nat \<Rightarrow> nat \<Rightarrow> store_config \<Rightarrow> u8 list \<Rightarrow> disk \<Rightarrow> (disk \<times> 't) res" where
  "generate_fake_tree_r_last X nodes_count tree_count config replica d =
     (let (configs, replica_config) = split_config_and_replica config replica nodes_count tree_count in
      bindR (fake_tree_loop X nodes_count configs d) (\<lambda>d'.
      bindR (config_size config) (\<lambda>n.
      bindR (create_lc_tree (de_tree X) (de_arities X) n configs replica_config d') (\<lambda>t. Inr (d', t)))))"

definition fake_replicate_phase2 ::
  "('f, 't, 'p) drg_env \<Rightarrow> u8 list \<Rightarrow> u8 list \<Rightarrow> nat \<Rightarrow> disk \<Rightarrow> (disk \<times> u8 list \<times> persistent_aux) res" where
  "fake_replicate_phase2 X tree_c_root replica sector_size d =
     (let leaf_count = sector_size div NODE_SIZE in
      if sector_size mod NODE_SIZE \<noteq> 0 then Inl (Panic ''assertion failed'')
      else bindR (get_base_tree_count (de_arities X)) (\<lambda>tree_count.
      bindR (udiv leaf_count tree_count) (\<lambda>nodes_count.
      bindR (get_merkle_tree_len (de_tree X) nodes_count (base_arity (de_arities X))) (\<lambda>n.
      let config = \<lparr>sc_id = cache_key_str CommRLastTree, sc_size = Some n,
            sc_rows_to_discard = default_rows_to_discard (de_rows X) (de_rows_to_discard X) nodes_count (base_arity (de_arities X))\<rparr>
      in bindR (generate_fake_tree_r_last X nodes_count tree_count config replica d) (\<lambda>(d', t).
      let r = tree_root_of (de_tree X) t
      in Inr (d', pq_hash2 (de_prims X) tree_c_root r, \<lparr>pa_comm_c = tree_c_root, pa_comm_r_last = r\<rparr>))))))"

definition fake_comm_r ::
  "('f, 't, 'p) drg_env \<Rightarrow> (u8 list \<Rightarrow> persistent_aux res) \<Rightarrow> u8 list \<Rightarrow> u8 list option \<Rightarrow> (u8 list \<times> persistent_aux) res" where
  "fake_comm_r X deserialize tree_c_root p_aux_file =
     (case p_aux_file of None \<Rightarrow> Inl (Fail ''no such file'')
      | Some bytes \<Rightarrow> bindR (deserialize bytes) (\<lambda>existing.
          let r = pa_comm_r_last existing
          in Inr (pq_hash2 (de_prims X) tree_c_root r, \<lparr>pa_comm_c = tree_c_root, pa_comm_r_last = r\<rparr>)))"
subsection \<open>Proving\<close>

text \<open>
  The checks of the generated proofs run as jobs of a thread pool, which set shared flags when
  they fail. When a challenge reaches the end of layer \<open>l\<close>, \<open>finished i l\<close> are the jobs that have
  run; the remaining ones run later, before \<open>prove_layers_generate\<close> returns.
\<close>

datatype job = Comm_D_Job nat | Comm_R_Job nat | Label_Job nat nat

fun collectO :: "('a \<Rightarrow> 'b res option) \<Rightarrow> 'a list \<Rightarrow> 'b list res option" where
  "collectO f [] = Some (Inr [])"
| "collectO f (x # xs) = bindO (f x) (\<lambda>y. bindO (collectO f xs) (\<lambda>ys. Some (Inr (y # ys))))"

definition expectS :: "string \<Rightarrow> 'a option \<Rightarrow> 'a res" where
  "expectS msg x = (case x of None \<Rightarrow> Inl (Panic msg) | Some y \<Rightarrow> Inr y)"

definition drg_parents_columns :: "('f, 't, 'p) drg_env \<Rightarrow> graph_env \<Rightarrow> 't temporary_aux_cache \<Rightarrow> nat \<Rightarrow> column list res" where
  "drg_parents_columns X E t_aux x =
     bindR (base_parents E x (replicate (base_degree (base_graph (ge_graph E))) 0)) (collectR (aux_column X t_aux))"

definition exp_parents_columns :: "('f, 't, 'p) drg_env \<Rightarrow> graph_env \<Rightarrow> 't temporary_aux_cache \<Rightarrow> nat \<Rightarrow> column list res option" where
  "exp_parents_columns X E t_aux x =
     bindO (expanded_parents (ge_blake2b E) (ge_graph E) x (replicate (expansion_degree (ge_graph E)) 0))
       (\<lambda>ps. Some (collectR (aux_column X t_aux) ps))"

definition parents_data :: "('f, 't, 'p) drg_env \<Rightarrow> graph_env \<Rightarrow> 't temporary_aux_cache \<Rightarrow> nat \<Rightarrow> nat \<Rightarrow> u8 list list res option" where
  "parents_data X E t_aux challenge layer =
     (let base_parents_count = base_degree (base_graph (ge_graph E)) in
      if layer = 1
      then Some (bindR (base_parents E challenge (replicate base_parents_count 0))
                   (collectR (aux_domain_node_at_layer X t_aux layer)))
      else bindO (env_parents E challenge) (\<lambda>ps. Some (collectR (\<lambda>(i, parent).
             if i < base_parents_count then aux_domain_node_at_layer X t_aux layer parent
             else aux_domain_node_at_layer X t_aux (layer - 1) parent) (enumerate 0 ps))))"

definition repeat_parents :: "u8 list list \<Rightarrow> u8 list list res" where
  "repeat_parents parents =
     (if parents = [] then Inl (Panic ''chunk size must be non-zero'') else Inr (cycle_take TOTAL_PARENTS parents))"

definition layer_proof ::
  "('f, 't, 'p) drg_env \<Rightarrow> graph_env \<Rightarrow> 't temporary_aux_cache \<Rightarrow> nat \<Rightarrow> nat \<Rightarrow> labeling_proof res option" where
  "layer_proof X E t_aux challenge layer =
     bindO (parents_data X E t_aux challenge layer) (\<lambda>ps. bindO (Some (repeat_parents ps)) (\<lambda>full.
     Some (Inr \<lparr>lp_parents = full, lp_layer_index = of_nat layer, lp_node = of_nat challenge\<rparr>)))"

definition column_openings ::
  "('f, 't, 'p) drg_env \<Rightarrow> graph_env \<Rightarrow> 't temporary_aux_cache \<Rightarrow> u8 list \<Rightarrow> nat \<Rightarrow> replica_column_proof res option" where
  "column_openings X E t_aux root_c challenge =
     bindO (Some (expectS ''failed to get tree_c'' (tc_tree_c t_aux))) (\<lambda>tree_c.
     if root_c \<noteq> tree_root_of (de_tree X) tree_c then Some (Inl (Panic ''assertion failed''))
     else let open_col = into_proof (gen_proof (de_tree X) (de_arities X) tree_c) in
       bindO (Some (bindR (aux_column X t_aux (of_nat challenge)) open_col)) (\<lambda>c_x.
       bindO (Some (bindR (drg_parents_columns X E t_aux challenge) (collectR open_col))) (\<lambda>drg.
       bindO (exp_parents_columns X E t_aux challenge) (\<lambda>cols. bindO (Some (collectR open_col cols)) (\<lambda>exp.
       Some (Inr \<lparr>rc_c_x = c_x, rc_drg_parents = drg, rc_exp_parents = exp\<rparr>))))))"

definition data_opening :: "('f, 't, 'p) drg_env \<Rightarrow> 't temporary_aux_cache \<Rightarrow> nat \<Rightarrow> u8 list proof_data res" where
  "data_opening X t_aux challenge =
     bindR (expectS ''failed to get tree_d'' (tc_tree_d t_aux)) (\<lambda>tree_d. gen_proof (de_tree_d X) binary_arities tree_d challenge)"

definition replica_opening :: "('f, 't, 'p) drg_env \<Rightarrow> 't temporary_aux_cache \<Rightarrow> nat \<Rightarrow> u8 list proof_data res" where
  "replica_opening X t_aux challenge =
     gen_cached_proof (de_tree X) (de_arities X) (tc_tree_r_last t_aux) challenge (Some (tc_rows_to_discard t_aux))"

text \<open>Whether a job fails, from what it is given.\<close>

definition job_failed ::
  "('f, 't, 'p) drg_env \<Rightarrow> graph_env \<Rightarrow> u8 list \<Rightarrow> 't temporary_aux_cache \<Rightarrow> nat list \<Rightarrow> job \<Rightarrow> bool" where
  "job_failed X E replica_id t_aux challenges j =
     (case j of
        Comm_D_Job i \<Rightarrow> (case data_opening X t_aux (challenges ! i) of Inl _ \<Rightarrow> False
          | Inr p \<Rightarrow> mp_validate (de_hash_d X) binary_arities p (challenges ! i) = Inr False)
      | Comm_R_Job i \<Rightarrow> (case replica_opening X t_aux (challenges ! i) of Inl _ \<Rightarrow> False
          | Inr p \<Rightarrow> mp_validate (pq_tree_hash (de_prims X)) (de_arities X) p (challenges ! i) = Inr False)
      | Label_Job i l \<Rightarrow> (case layer_proof X E t_aux (challenges ! i) l of
            Some (Inr p) \<Rightarrow> (case bindR (aux_column X t_aux (of_nat (challenges ! i))) (\<lambda>c. get_node_at_layer c l) of
                Inr labeled_node \<Rightarrow> \<not> lp_verify (de_prims X) replica_id labeled_node p | Inl _ \<Rightarrow> False)
          | _ \<Rightarrow> False))"

fun labeling_loop ::
  "(nat \<Rightarrow> labeling_proof res option) \<Rightarrow> column_proof \<Rightarrow> (nat \<Rightarrow> bool) \<Rightarrow> nat list \<Rightarrow> labeling_proof list res option" where
  "labeling_loop prove c_x failed [] = Some (Inr [])"
| "labeling_loop prove c_x failed (layer # layers) =
     bindO (prove layer) (\<lambda>proof.
     bindO (Some (get_node_at_layer (cp_column c_x) layer)) (\<lambda>labeled_node.
     if failed layer then Some (Inl (Fail ''Invalid proof detected''))
     else bindO (labeling_loop prove c_x failed layers) (\<lambda>ps. Some (Inr (proof # ps)))))"

definition prove_challenge ::
  "('f, 't, 'p) drg_env \<Rightarrow> graph_env \<Rightarrow> 't temporary_aux_cache \<Rightarrow> u8 list \<Rightarrow> nat \<Rightarrow> (nat \<Rightarrow> bool) \<Rightarrow> nat \<Rightarrow> porep_proof res option" where
  "prove_challenge X E t_aux root_c num_layers failed challenge =
     (if graph_size (ge_graph E) \<le> challenge \<or> challenge = 0 then Some (Inl (Panic ''Invalid challenge''))
      else bindO (Some (data_opening X t_aux challenge)) (\<lambda>comm_d_proof.
      bindO (column_openings X E t_aux root_c challenge) (\<lambda>rcp.
      bindO (Some (replica_opening X t_aux challenge)) (\<lambda>comm_r_last_proof.
      bindO (labeling_loop (layer_proof X E t_aux challenge) (rc_c_x rcp) failed [1..<num_layers + 1]) (\<lambda>labeling_proofs.
      if labeling_proofs = [] then Some (Inl (Panic ''invalid tapering''))
      else Some (Inr \<lparr>pf_comm_d_proofs = comm_d_proof, pf_comm_r_last_proof = comm_r_last_proof,
             pf_replica_column_proofs = rcp, pf_labeling_proofs = labeling_proofs,
             pf_encoding_proof = last labeling_proofs\<rparr>))))))"

definition prove_layers_generate ::
  "('f, 't, 'p) drg_env \<Rightarrow> graph_env \<Rightarrow> public_inputs \<Rightarrow> u8 list \<Rightarrow> 't temporary_aux_cache \<Rightarrow> nat list \<Rightarrow> nat \<Rightarrow>
   (nat \<Rightarrow> nat \<Rightarrow> job list) \<Rightarrow> porep_proof list res option" where
  "prove_layers_generate X E pub_inputs root_c t_aux challenges num_layers finished =
     (if length (tc_labels t_aux) \<noteq> num_layers then Some (Inl (Panic ''assertion failed''))
      else bindO (Some (expectS ''as_ref failure'' (pin_tau pub_inputs))) (\<lambda>tau.
      bindO (Some (expectS ''failed to get tree_d'' (tc_tree_d t_aux))) (\<lambda>tree_d.
      if tau_comm_d tau \<noteq> tree_root_of (de_tree_d X) tree_d then Some (Inl (Panic ''assertion failed''))
      else collectO (\<lambda>(i, challenge). prove_challenge X E t_aux root_c num_layers
             (\<lambda>layer. list_ex (job_failed X E (pin_replica_id pub_inputs) t_aux challenges) (finished i layer)) challenge)
           (enumerate 0 challenges))))"
section \<open>Replication\<close>

text \<open>The documented behaviour of stores: a file of the right length is the sequence of its nodes.\<close>

definition store_ok :: "('t, 'p) tree_crate \<Rightarrow> bool" where
  "store_ok T \<longleftrightarrow> (\<forall>f m a. length f = 32 * m \<longrightarrow> new_from_disk T m a (Some f) = Inr f \<and> store_len T f = m \<and>
     (\<forall>i<m. read_at T f i = Inr (node_at f i)) \<and>
     (\<forall>i j. i \<le> j \<and> j \<le> m \<longrightarrow> read_range T f i j = Inr (map (node_at f) [i..<j])))"

definition label_stores :: "(nat \<Rightarrow> u32 list) \<Rightarrow> u8 list \<Rightarrow> nat \<Rightarrow> nat \<Rightarrow> labels_cache" where
  "label_stores par rid n layers = map (layer_bytes par rid n) [1..<layers + 1]"

lemma length_label_stores [simp]: "length (label_stores par rid n layers) = layers"
  by (simp add: label_stores_def)

lemma label_stores_nth: "1 \<le> l \<Longrightarrow> l \<le> layers \<Longrightarrow> label_stores par rid n layers ! (l - 1) = layer_bytes par rid n l"
  unfolding label_stores_def using nth_upt [of 1 "l - 1" "layers + 1"] by (simp del: upt_Suc)

lemma cache_layer: "1 \<le> l \<Longrightarrow> l \<le> layers \<Longrightarrow> cache_labels_for_layer (label_stores par rid n layers) l = Inr (layer_bytes par rid n l)"
  using label_stores_nth [of l layers] by (simp add: cache_labels_for_layer_def)

lemma cache_last_layer: "0 < layers \<Longrightarrow> cache_labels_for_last_layer (label_stores par rid n layers) = Inr (layer_bytes par rid n layers)"
  using label_stores_nth [of layers layers] by (simp add: cache_labels_for_last_layer_def)

lemma read_label: "store_ok T \<Longrightarrow> i < n \<Longrightarrow> read_at T (layer_bytes par rid n l) i = Inr (label_spec par rid l i)"
  by (simp add: store_ok_def node_at_layer)

lemma read_labels:
  "store_ok T \<Longrightarrow> i \<le> j \<Longrightarrow> j \<le> n \<Longrightarrow> read_range T (layer_bytes par rid n l) i j = Inr (map (label_spec par rid l) [i..<j])"
  by (simp add: store_ok_def node_at_layer)

lemma cache_column_honest:
  assumes "store_ok (de_tree X)" and "unat node < n"
  shows "cache_column X (label_stores par rid n layers) node = Inr (honest_column par rid layers node)"
proof -
  have "collectR (\<lambda>store. read_at (de_tree X) store (unat node)) (label_stores par rid n layers) =
      Inr (map (\<lambda>l. label_spec par rid l (unat node)) [1..<layers + 1])"
    unfolding label_stores_def collectR_map comp_def read_label [OF assms] by (rule collectR_Inr)
  then show ?thesis by (simp add: cache_column_def honest_column_def)
qed

lemma labels_cache_ok:
  assumes "store_ok (de_tree X)" and "graph_size (ge_graph E) = n"
    and "\<forall>l\<in>{1..layers}. d (Data_File (label_layer l)) = Some (layer_bytes par rid n l)"
  shows "labels_cache_new X (map (label_config E) (map label_layer [1..<layers + 1])) d = Inr (label_stores par rid n layers)"
proof -
  let ?cs = "map (label_config E) (map label_layer [1..<layers + 1])"
  have "labels_for_layer X ?cs (i + 1) d = Inr (layer_bytes par rid n (i + 1))" if "i < layers" for i
  proof -
    have "?cs ! i = label_config E (label_layer (i + 1))" using that nth_upt [of 1 i "layers + 1"] by (simp del: upt_Suc)
    then show ?thesis using that assms by (simp add: labels_for_layer_def label_config_def file_of_def store_ok_def)
  qed
  then have "labels_cache_new X ?cs d = Inr (map (\<lambda>i. layer_bytes par rid n (i + 1)) [0..<layers])"
    unfolding labels_cache_new_def by (subst collectR_all_ok [where g = "\<lambda>i. layer_bytes par rid n (i + 1)"]) auto
  also have "map (\<lambda>i. layer_bytes par rid n (i + 1)) [0..<layers] = label_stores par rid n layers"
    by (rule nth_equalityI) (use label_stores_nth [of "Suc _" layers] in auto)
  finally show ?thesis .
qed

text \<open>The chunks of the threads cover the nodes in order, whatever their number.\<close>

lemma chunks_cover:
  "0 < cs \<Longrightarrow> concat (map (\<lambda>(c, ch). map (\<lambda>(j, _). g (j + c * cs)) (enumerate 0 ch)) (enumerate k (chunks cs (replicate m ())))) =
    map (\<lambda>j. g (j + k * cs)) [0..<m]"
proof (induction m arbitrary: k rule: less_induct)
  case (less m)
  show ?case
  proof (cases "m = 0")
    case False
    let ?f = "min cs m"
    have c: "chunks cs (replicate m ()) = replicate ?f () # chunks cs (replicate (m - cs) ())"
      using False less.prems by (subst chunks_step) simp_all
    have e: "map (\<lambda>(j, _). h j) (enumerate 0 (replicate f ())) = map h [0..<f]" for h :: "nat \<Rightarrow> 'b" and f
      by (rule nth_equalityI) (simp_all add: nth_enumerate_eq)
    have s: "[0..<m] = [0..<?f] @ map (\<lambda>j. j + cs) [0..<m - cs]"
    proof (cases "cs \<le> m")
      case True
      then show ?thesis using upt_add_eq_append [of 0 cs "m - cs"] map_add_upt [of cs "m - cs"] by (simp add: min_def)
    qed (simp add: min_def)
    have IH: "concat (map (\<lambda>(c, ch). map (\<lambda>(j, _). g (j + c * cs)) (enumerate 0 ch)) (enumerate (Suc k) (chunks cs (replicate (m - cs) ())))) =
        map (\<lambda>j. g (j + Suc k * cs)) [0..<m - cs]"
      using less.IH [of "m - cs" "Suc k"] less.prems False by simp
    show ?thesis unfolding c s by (simp add: IH e comp_def add.assoc)
  qed simp
qed
lemma column_hash_at_ok:
  assumes "store_ok (de_tree X)" and F: "fr_ok (de_prims X)" and l: "layers = 2 \<or> layers = 11" and "i < n"
  shows "column_hash_at X layers (label_stores par rid n layers) i = Inr (column_leaf (de_prims X) par rid layers i)"
proof -
  have "collectR (\<lambda>layer. bindR (cache_labels_for_layer (label_stores par rid n layers) layer) (\<lambda>store.
         bindR (expectR ''store read_at failure'' (read_at (de_tree X) store i)) (into_fr (de_prims X)))) [1..<layers + 1] =
      Inr (map (\<lambda>l. fr_of (de_prims X) (label_spec par rid l i)) [1..<layers + 1])"
    by (rule collectR_all_ok) (auto simp: cache_layer read_label [OF assms(1,4)] into_fr_label [OF F])
  then show ?thesis using l by (simp add: column_hash_at_def hash_single_column_def column_leaf_def del: upt_Suc)
qed

lemma chunk_positions:
  assumes "0 < cs" and "(k, hs) \<in> set (enumerate s (chunks cs (replicate m ())))" and "j < length hs"
  shows "j + k * cs < m + s * cs"
  using assms
proof (induction m arbitrary: s rule: less_induct)
  case (less m)
  show ?case
  proof (cases "m = 0")
    case True
    then show ?thesis using less.prems by simp
  next
    case False
    then have c: "chunks cs (replicate m ()) = replicate (min cs m) () # chunks cs (replicate (m - cs) ())"
      using less.prems(1) by (subst chunks_step) simp_all
    consider "k = s" "hs = replicate (min cs m) ()" | "(k, hs) \<in> set (enumerate (Suc s) (chunks cs (replicate (m - cs) ())))"
      using less.prems(2) unfolding c by auto
    then show ?thesis
    proof cases
      case 2
      then have "j + k * cs < (m - cs) + Suc s * cs" using less.IH [of "m - cs" "Suc s"] less.prems False by simp
      moreover have "cs < m"
      proof (rule ccontr)
        assume "\<not> cs < m"
        then show False using 2 by simp
      qed
      ultimately show ?thesis by simp
    qed (use less.prems in simp)
  qed
qed

lemma tree_c_hashes_ok:
  assumes S: "store_ok (de_tree X)" and F: "fr_ok (de_prims X)" and l: "layers = 2 \<or> layers = 11"
    and m: "0 < m" "0 < de_cpus X" "i * m + m \<le> n"
  shows "tree_c_hashes X layers m (label_stores par rid n layers) i =
    Inr (map (\<lambda>j. column_leaf (de_prims X) par rid layers (i * m + j)) [0..<m])"
proof -
  define nc where "nc = num_chunks (de_cpus X) m"
  define cs where "cs = (m + nc - 1) div nc"
  have nc: "0 < nc" using m by (simp add: nc_def num_chunks_def)
  then have "nc \<le> m + nc - 1" using m by linarith
  then have cs: "0 < cs" using nc by (simp add: cs_def div_greater_zero_iff)
  let ?g = "\<lambda>j. column_leaf (de_prims X) par rid layers (i * m + j)"
  let ?h = "\<lambda>c ch. map (\<lambda>(j, _). ?g (j + c * cs)) (enumerate 0 ch)"
  have inner: "collectR (\<lambda>(j, _). column_hash_at X layers (label_stores par rid n layers) (i * m + j + c * cs)) (enumerate 0 ch) = Inr (?h c ch)"
    if "(c, ch) \<in> set (enumerate 0 (chunks cs (replicate m ())))" for c ch
  proof (rule collectR_all_ok)
    fix x assume xs: "x \<in> set (enumerate 0 ch)"
    obtain j u where xj: "x = (j, u)" by (cases x)
    then have x: "x = (j, u)" "j < length ch" using xs by (simp_all add: in_set_enumerate_eq)
    have "j + c * cs < m" using chunk_positions [OF cs that x(2)] by simp
    then have "i * m + j + c * cs < n" using m(3) by linarith
    then show "(case x of (j, _) \<Rightarrow> column_hash_at X layers (label_stores par rid n layers) (i * m + j + c * cs)) =
        Inr (case x of (j, _) \<Rightarrow> ?g (j + c * cs))"
      by (simp add: x column_hash_at_ok [OF S F l] add.assoc)
  qed
  have "collectR (\<lambda>(c, ch). collectR (\<lambda>(j, _). column_hash_at X layers (label_stores par rid n layers) (i * m + j + c * cs)) (enumerate 0 ch))
      (enumerate 0 (chunks cs (replicate m ()))) = Inr (map (\<lambda>(c, ch). ?h c ch) (enumerate 0 (chunks cs (replicate m ()))))"
    by (rule collectR_all_ok) (use inner in auto)
  moreover have "concat (map (\<lambda>(c, ch). ?h c ch) (enumerate 0 (chunks cs (replicate m ())))) = map ?g [0..<m]"
    using chunks_cover [OF cs, of ?g 0 m] by simp
  ultimately show ?thesis using cs unfolding tree_c_hashes_def nc_def [symmetric] Let_def cs_def [symmetric] by simp
qed
subsection \<open>What is relied on of trees\<close>

text \<open>
  The documented behaviour of the \<open>merkletree\<close> crate, for base trees of \<open>base_arity A ^ k\<close> leaves:
  the size arithmetic, that a base tree of nodes can be built, and that the tree
  over the stores of its base trees has the root of all leaves and generates the proofs of them.
  A store some of whose rows were discarded needs the replica with the leaves.
\<close>

definition tree_of :: "('t, 'p) tree_crate \<Rightarrow> u8 list node_hash \<Rightarrow> arities \<Rightarrow> nat \<Rightarrow> bool \<Rightarrow> u8 list list \<Rightarrow> 't \<Rightarrow> bool" where
  "tree_of T H A k cached leaves t \<longleftrightarrow> length leaves = leaf_count (levels A k) \<and>
     tree_root H (levels A k) leaves = Inr (tree_root_of T t) \<and>
     (\<forall>i<length leaves. \<exists>path. honest_path H (levels A k) leaves i = Inr path \<and>
        (\<exists>p. inner_gen_proof T t i = Inr p \<and> represents (proof_ops_of T) A p (leaves ! i) (tree_root_of T t) path) \<and>
        (cached \<longrightarrow> (\<forall>r. \<exists>p. inner_gen_cached_proof T t i (Some r) = Inr p \<and>
           represents (proof_ops_of T) A p (leaves ! i) (tree_root_of T t) path)))"

definition stored :: "('t, 'p) tree_crate \<Rightarrow> arities \<Rightarrow> store_config list \<Rightarrow> u8 list list list \<Rightarrow> u8 list list \<Rightarrow> bool" where
  "stored T A cfgs leavess stores \<longleftrightarrow> length cfgs = length leavess \<and> length stores = length leavess \<and>
     (\<forall>i<length leavess. \<exists>t. from_par_iter_with_config T (base_only A) (cfgs ! i) (leavess ! i) = Inr (stores ! i, t))"

definition nodes_ok :: "nat \<Rightarrow> u8 list list \<Rightarrow> bool" where
  "nodes_ok n leaves \<longleftrightarrow> length leaves = n \<and> (\<forall>x\<in>set leaves. length x = 32)"

definition readable :: "nat \<Rightarrow> store_config list \<Rightarrow> u8 list list list \<Rightarrow> replica_config option \<Rightarrow> bool" where
  "readable n cfgs leavess rep \<longleftrightarrow>
     (case rep of None \<Rightarrow> \<forall>c\<in>set cfgs. sc_rows_to_discard c = 0
      | Some r \<Rightarrow> rpc_replica r = concat (concat leavess) \<and> rpc_offsets r = map (\<lambda>i. i * n * 32) [0..<length leavess])"

definition from_stores ::
  "('t, 'p) tree_crate \<Rightarrow> arities \<Rightarrow> nat \<Rightarrow> nat \<Rightarrow> store_config list \<Rightarrow> u8 list list \<Rightarrow> replica_config option \<Rightarrow> 't res" where
  "from_stores T A len n cfgs stores rep =
     (if 0 < top_tree_arity A then from_sub_tree_store_configs T A n (map Some stores) rep
      else if 0 < sub_tree_arity A then from_store_configs T A n (map Some stores) rep
      else bindR (case rep of None \<Rightarrow> new_from_disk T len (base_arity A) (Some (stores ! 0))
                  | Some r \<Rightarrow> new_from_disk_with_reader T len (base_arity A) (cfgs ! 0) (Some (stores ! 0)))
             (\<lambda>s. from_data_store T A s n rep))"

definition tree_count :: "arities \<Rightarrow> nat" where
  "tree_count A = (if sub_tree_arity A = 0 then 1 else if top_tree_arity A = 0 then sub_tree_arity A
     else top_tree_arity A * sub_tree_arity A)"

definition crate_ok :: "('t, 'p) tree_crate \<Rightarrow> u8 list node_hash \<Rightarrow> arities \<Rightarrow> nat \<Rightarrow> nat \<Rightarrow> bool" where
  "crate_ok T H A k len \<longleftrightarrow> (let n = base_arity A ^ k in
     is_merkle_tree_size_valid T n (base_arity A) \<and> is_merkle_tree_size_valid T n 2 \<and>
     get_merkle_tree_len T n (base_arity A) = Inr len \<and> get_merkle_tree_leafs T len (base_arity A) = Inr n \<and>
     (\<forall>c leaves. nodes_ok n leaves \<longrightarrow> is_ok (from_par_iter_with_config T (base_only A) c leaves)) \<and>
     (\<forall>cfgs leavess stores rep. length leavess = tree_count A \<longrightarrow> (\<forall>ls\<in>set leavess. nodes_ok n ls) \<longrightarrow>
        stored T A cfgs leavess stores \<longrightarrow> readable n cfgs leavess rep \<longrightarrow>
        (\<exists>t. from_stores T A len n cfgs stores rep = Inr t \<and> tree_of T H A k (rep \<noteq> None) (concat leavess) t)) \<and>
     (sub_tree_arity A = 0 \<longrightarrow> (\<forall>c leaves s t. nodes_ok n leaves \<longrightarrow> from_par_iter_with_config T (base_only A) c leaves = Inr (s, t) \<longrightarrow>
        tree_of T H A k False leaves t \<and> tree_len T t = len)))"

lemma base_tree_count_ok: "arities_ok A \<Longrightarrow> get_base_tree_count A = Inr (tree_count A)"
  by (auto simp: get_base_tree_count_def tree_count_def arities_ok_def)

lemma leaf_count_trees: "arities_ok A \<Longrightarrow> leaf_count (levels A k) = base_arity A ^ k * tree_count A"
  by (auto simp: leaf_count_levels tree_count_def arities_ok_def)

lemma tree_count_pos: "0 < tree_count A"
  by (simp add: tree_count_def)

text \<open>Nodes have 32 bytes: the domains of the hashers do.\<close>

definition hash_nodes :: "u8 list node_hash \<Rightarrow> bool" where
  "hash_nodes H \<longleftrightarrow> (\<forall>xs h y. H xs h = Inr y \<longrightarrow> length y = 32)"

lemma honest_path_siblings:
  "\<lbrakk>honest_path H ls leaves i = Inr path; \<forall>l\<in>set ls. 0 < fst l; length leaves = leaf_count ls; i < leaf_count ls; hash_nodes H;
    \<forall>x\<in>set leaves. length x = 32\<rbrakk> \<Longrightarrow>
   list_all2 (\<lambda>(sibs, j) a. length sibs = a - 1 \<and> j < a \<and> (\<forall>x\<in>set sibs. length x = 32)) path (map fst ls)"
proof (induction ls arbitrary: leaves i path)
  case (Cons l ls)
  obtain a h where l: "l = (a, h)" by (cases l) auto
  have a: "0 < a" and len: "length leaves = a * leaf_count ls" using Cons.prems(2,3) by (simp_all add: l leaf_count_def)
  have j: "i div a < leaf_count ls" using Cons.prems(4) by (intro less_mult_imp_div_less) (simp add: leaf_count_def mult.commute l)
  obtain nodes rest where n: "collectR (\<lambda>c. H c h) (chunks a leaves) = Inr nodes" "honest_path H ls nodes (i div a) = Inr rest"
      "path = (remove_at (i mod a) (chunks a leaves ! (i div a)), i mod a) # rest"
    using Cons.prems(1) by (auto simp: l bindR_eq_Inr)
  have ln: "length nodes = leaf_count ls" using collectR_length [OF n(1)] chunks_length [OF a len] by simp
  have "\<forall>x\<in>set nodes. length x = 32"
  proof
    fix x assume "x \<in> set nodes"
    then obtain j where "j < length nodes" "nodes ! j = x" by (auto simp: in_set_conv_nth)
    then have "H (chunks a leaves ! j) h = Inr x" using collectR_nth [OF n(1)] collectR_length [OF n(1)] by auto
    then show "length x = 32" using Cons.prems(5) by (simp add: hash_nodes_def)
  qed
  then have rest: "list_all2 (\<lambda>(sibs, j) a. length sibs = a - 1 \<and> j < a \<and> (\<forall>x\<in>set sibs. length x = 32)) rest (map fst ls)"
    using Cons.IH [OF n(2) _ ln j Cons.prems(5)] Cons.prems(2) by simp
  let ?c = "chunks a leaves ! (i div a)"
  have "length ?c = a" using chunks_nth_nth(1) [OF a len j a] .
  moreover have "set ?c \<subseteq> set leaves" using chunks_nth [OF a len j] set_take_subset set_drop_subset by fastforce
  ultimately show ?case using Cons.prems(6) rest mod_less_divisor [OF a, of i]
    by (auto simp: n(3) l remove_at_def dest: in_set_takeD in_set_dropD)
qed simp

lemma gen_proof_path:
  assumes t: "tree_of T H A k cached leaves t" and A: "arities_ok A" and H: "merkle_hash H" and i: "i < length leaves"
    and N: "hash_nodes H" "\<forall>x\<in>set leaves. length x = 32"
  obtains p where "gen_proof T A t i = Inr p" "\<And>r. cached \<Longrightarrow> gen_cached_proof T A t i (Some r) = Inr p"
    "opens H A leaves (tree_root_of T t) i p" "mp_canonical A k p" "honest_path H (levels A k) leaves i = Inr (mp_path p)"
proof -
  have L: "length leaves = leaf_count (levels A k)" "tree_root H (levels A k) leaves = Inr (tree_root_of T t)"
    using t by (auto simp: tree_of_def)
  obtain path where path: "honest_path H (levels A k) leaves i = Inr path"
      "\<exists>p. inner_gen_proof T t i = Inr p \<and> represents (proof_ops_of T) A p (leaves ! i) (tree_root_of T t) path"
      "cached \<Longrightarrow> \<exists>p. inner_gen_cached_proof T t i (Some r) = Inr p \<and> represents (proof_ops_of T) A p (leaves ! i) (tree_root_of T t) path" for r
    using t i unfolding tree_of_def by meson
  have pos: "\<forall>l\<in>set (levels A k). 0 < fst l" using levels_pos [OF A, of k] by force
  have ps: "length path = length (levels A k)" "list_all2 (\<lambda>(sibs, j) a. length sibs = a - 1 \<and> j < a \<and> (\<forall>x\<in>set sibs. length x = 32))
      path (map fst (levels A k))"
    using mixed_index_of_honest [OF path(1)] honest_path_siblings [OF path(1) pos L(1) _ N] i L(1) by simp_all
  obtain q where q: "bindR (honest_path H (levels A k) leaves i) (from_parts A (leaves ! i) (tree_root_of T t)) = Inr q"
      "shape_ok A k q" "mp_verify H q = Inr True" "mp_path_index A q = i" "mp_leaf q = leaves ! i" "mp_root q = tree_root_of T t"
    using merkle_hash.honest_proof_ok [OF H A L] i L by metis
  have o: "opens H A leaves (tree_root_of T t) i q" using q by (simp add: opens_def)
  have "mp_elements q = map element_of path"
    using from_parts_shape [OF A ps(1), of "leaves ! i" "tree_root_of T t"] q(1) path(1) by auto
  then have "mp_path q = path" by (simp add: mp_path_def comp_def)
  then have c: "mp_canonical A k q" using q path(1) ps(2) i N(2) by (simp add: mp_canonical_def)
  have f: "try_from_proof (proof_ops_of T) A p = Inr q" if "represents (proof_ops_of T) A p (leaves ! i) (tree_root_of T t) path" for p
    using try_from_represents [OF that A] q(1) path(1) by simp
  have g: "gen_proof T A t i = Inr q" using path(2) f by (auto simp: gen_proof_def)
  have "gen_cached_proof T A t i (Some r) = Inr q" if cached for r
    using path(3) [OF that, of r] g f by (auto simp: gen_cached_proof_def)
  then show thesis using that [of q] g o c path(1) \<open>mp_path q = path\<close> by blast
qed

lemma gen_proof_ok:
  assumes t: "tree_of T H A k cached leaves t" and A: "arities_ok A" and H: "merkle_hash H" and i: "i < length leaves"
    and N: "hash_nodes H" "\<forall>x\<in>set leaves. length x = 32"
  shows "\<exists>p. gen_proof T A t i = Inr p \<and> opens H A leaves (tree_root_of T t) i p \<and> mp_canonical A k p"
    and "cached \<Longrightarrow> \<exists>p. gen_cached_proof T A t i (Some r) = Inr p \<and> opens H A leaves (tree_root_of T t) i p \<and> mp_canonical A k p"
  using gen_proof_path [OF assms] by metis+

lemma files_of_stores:
  "length stores = length cfgs \<Longrightarrow> (\<And>i. i < length cfgs \<Longrightarrow> file_of (cfgs ! i) d = Some (stores ! i)) \<Longrightarrow>
   map (\<lambda>c. file_of c d) cfgs = map Some stores"
  by (rule nth_equalityI) auto

lemma create_tree_stores:
  assumes len: "get_merkle_tree_leafs T len (base_arity A) = Inr n" and A: "arities_ok A"
    and cfgs: "length cfgs = tree_count A" "length stores = length cfgs"
    and f: "\<And>i. i < length cfgs \<Longrightarrow> file_of (cfgs ! i) d = Some (stores ! i)"
  shows "create_disk_tree T A len cfgs d = from_stores T A len n cfgs stores None"
    and "create_lc_tree T A len cfgs rep d = from_stores T A len n cfgs stores (Some rep)"
proof -
  have ne: "cfgs \<noteq> []" using cfgs(1) tree_count_pos [of A] by auto
  have one: "cfgs = [cfgs ! 0]" "file_of (cfgs ! 0) d = Some (stores ! 0)" if "sub_tree_arity A = 0"
    using that cfgs f [of 0] by (auto simp: tree_count_def length_Suc_conv)
  show "create_disk_tree T A len cfgs d = from_stores T A len n cfgs stores None"
    using len files_of_stores [OF cfgs(2) f] ne one A cfgs(1)
    by (auto simp: create_disk_tree_def from_stores_def arities_ok_def tree_count_def)
  show "create_lc_tree T A len cfgs rep d = from_stores T A len n cfgs stores (Some rep)"
    using len files_of_stores [OF cfgs(2) f] ne one A cfgs(1)
    by (auto simp: create_lc_tree_def from_stores_def arities_ok_def tree_count_def)
qed

definition ids_of :: "store_config list \<Rightarrow> file_name set" where
  "ids_of cfgs = Data_File ` sc_id ` set cfgs"

lemma show_nat_inj [simp]: "show_nat a = show_nat b \<longleftrightarrow> a = b"
  using read_show_nat by metis

lemma split_config_facts:
  "length (split_config c m) = m" "fst (split_config_and_replica c r w m) = split_config c m"
  "snd (split_config_and_replica c r w m) = \<lparr>rpc_replica = r, rpc_offsets = map (\<lambda>i. i * w * 32) [0..<m]\<rparr>"
  "distinct (map sc_id (split_config c m))" "x \<in> set (split_config c m) \<Longrightarrow> sc_rows_to_discard x = sc_rows_to_discard c"
  "x \<in> set (split_config c m) \<Longrightarrow> sc_size x = sc_size c"
  "x \<in> set (split_config c m) \<Longrightarrow> take (length (sc_id c)) (sc_id x) = sc_id c"
  by (auto simp: split_config_def split_config_and_replica_def NODE_SIZE_def comp_def distinct_map inj_on_def
      split: if_splits dest: arg_cong [of _ _ sc_id])

lemma stored_Cons:
  "from_par_iter_with_config T (base_only A) c ls = Inr (s, t) \<Longrightarrow> stored T A cfgs lss ss \<Longrightarrow> stored T A (c # cfgs) (ls # lss) (s # ss)"
  by (auto simp: stored_def nth_Cons split: nat.split)

text \<open>Building the stores of the base trees one after the other.\<close>

lemma file_of_update: "file_of c (d(Data_File x \<mapsto> s)) = (if sc_id c = x then Some s else file_of c d)"
  by (simp add: file_of_def)

lemma tree_c_loop_ok:
  assumes S: "store_ok (de_tree X)" and F: "fr_ok (de_prims X)" and l: "layers = 2 \<or> layers = 11"
    and m: "0 < m" "0 < de_cpus X"
    and B: "\<And>c leaves. nodes_ok m leaves \<Longrightarrow> is_ok (from_par_iter_with_config (de_tree X) (base_only (de_arities X)) c leaves)"
  shows "\<lbrakk>(k + length cfgs) * m \<le> n; distinct (map sc_id cfgs)\<rbrakk> \<Longrightarrow>
    \<exists>d' stores. tree_c_loop X layers m (label_stores par rid n layers) (enumerate k cfgs) d = Inr d' \<and>
      stored (de_tree X) (de_arities X) cfgs
        (map (\<lambda>i. map (\<lambda>j. column_leaf (de_prims X) par rid layers (i * m + j)) [0..<m]) [k..<k + length cfgs]) stores \<and>
      (\<forall>i<length cfgs. file_of (cfgs ! i) d' = Some (stores ! i)) \<and> (\<forall>x. x \<notin> ids_of cfgs \<longrightarrow> d' x = d x)"
proof (induction cfgs arbitrary: k d)
  case Nil
  then show ?case by (intro exI [of _ d] exI [of _ "[]"]) (simp add: stored_def)
next
  case (Cons c cfgs)
  let ?lf = "\<lambda>i. map (\<lambda>j. column_leaf (de_prims X) par rid layers (i * m + j)) [0..<m]"
  have km: "k * m + m \<le> n" using Cons.prems(1) by (simp add: algebra_simps)
  have h: "tree_c_hashes X layers m (label_stores par rid n layers) k = Inr (?lf k)"
    by (rule tree_c_hashes_ok [OF S F l m km])
  have "length (pq_of_fr (de_prims X) x) = 32" for x using F by (simp add: fr_ok_def)
  then have "nodes_ok m (?lf k)" by (auto simp: nodes_ok_def column_leaf_def)
  then obtain s t where st: "from_par_iter_with_config (de_tree X) (base_only (de_arities X)) c (?lf k) = Inr (s, t)"
    using B [of "?lf k" c] by (auto simp: is_ok_iff)
  let ?d = "d(Data_File (sc_id c) \<mapsto> s)"
  obtain d' stores where r: "tree_c_loop X layers m (label_stores par rid n layers) (enumerate (Suc k) cfgs) ?d = Inr d'"
      "stored (de_tree X) (de_arities X) cfgs (map ?lf [Suc k..<Suc k + length cfgs]) stores"
      "\<forall>i<length cfgs. file_of (cfgs ! i) d' = Some (stores ! i)" "\<forall>x. x \<notin> ids_of cfgs \<longrightarrow> d' x = ?d x"
  proof -
    have "(Suc k + length cfgs) * m \<le> n" "distinct (map sc_id cfgs)" using Cons.prems by simp_all
    from Cons.IH [OF this, of ?d] show ?thesis using that by blast
  qed
  have u: "[k..<k + length (c # cfgs)] = k # [Suc k..<Suc k + length cfgs]" by (simp add: upt_conv_Cons del: upt_Suc)
  have "stored (de_tree X) (de_arities X) (c # cfgs) (map ?lf [k..<k + length (c # cfgs)]) (s # stores)"
    unfolding u list.map by (rule stored_Cons [OF st r(2)])
  moreover have "Data_File (sc_id c) \<notin> ids_of cfgs" using Cons.prems(2) by (auto simp: ids_of_def image_iff)
  then have "file_of c d' = Some s" using r(4) by (simp add: file_of_def)
  then have "\<forall>i<length (c # cfgs). file_of ((c # cfgs) ! i) d' = Some ((s # stores) ! i)"
    using r(3) by (auto simp: nth_Cons split: nat.split)
  ultimately show ?case using h st r(1,4) by (intro exI [of _ d'] exI [of _ "s # stores"]) (auto simp: ids_of_def)
qed
lemma concat_grid: "concat (map (\<lambda>i. map (\<lambda>j. f (i * m + j)) [0..<m]) [0..<c]) = map f [0..<c * m]"
proof (induction c)
  case (Suc c)
  have "[0..<Suc c * m] = [0..<c * m] @ map (\<lambda>j. j + c * m) [0..<m]"
    using upt_add_eq_append [of 0 "c * m" m] map_add_upt [of "c * m" m] by (simp add: add.commute)
  then show ?case using Suc by (simp add: comp_def add.commute)
qed simp

lemma crate_okD:
  assumes "crate_ok T H A k len"
  shows "is_merkle_tree_size_valid T (base_arity A ^ k) (base_arity A)" "is_merkle_tree_size_valid T (base_arity A ^ k) 2"
    "get_merkle_tree_len T (base_arity A ^ k) (base_arity A) = Inr len"
    "get_merkle_tree_leafs T len (base_arity A) = Inr (base_arity A ^ k)"
    "nodes_ok (base_arity A ^ k) leaves \<Longrightarrow> is_ok (from_par_iter_with_config T (base_only A) c leaves)"
    "\<lbrakk>length leavess = tree_count A; \<forall>ls\<in>set leavess. nodes_ok (base_arity A ^ k) ls; stored T A cfgs leavess stores;
      readable (base_arity A ^ k) cfgs leavess rep\<rbrakk> \<Longrightarrow>
     \<exists>t. from_stores T A len (base_arity A ^ k) cfgs stores rep = Inr t \<and> tree_of T H A k (rep \<noteq> None) (concat leavess) t"
    "\<lbrakk>sub_tree_arity A = 0; nodes_ok (base_arity A ^ k) leaves; from_par_iter_with_config T (base_only A) c leaves = Inr (s, t)\<rbrakk> \<Longrightarrow>
     tree_of T H A k False leaves t \<and> tree_len T t = len"
  using assms unfolding crate_ok_def Let_def by blast+

lemma generate_tree_c_ok:
  assumes S: "store_ok (de_tree X)" and F: "fr_ok (de_prims X)" and l: "layers = 2 \<or> layers = 11" and cpus: "0 < de_cpus X"
    and A: "arities_ok (de_arities X)" and C: "crate_ok (de_tree X) H (de_arities X) k len"
    and n: "m = base_arity (de_arities X) ^ k" "n = tree_count (de_arities X) * m"
    and cfgs: "cfgs = split_config \<lparr>sc_id = c, sc_size = Some len, sc_rows_to_discard = 0\<rparr> (tree_count (de_arities X))"
  shows "\<exists>d' t. generate_tree_c_cpu X layers m (tree_count (de_arities X)) cfgs (label_stores par rid n layers) d = Inr (d', t) \<and>
    tree_of (de_tree X) H (de_arities X) k False (map (column_leaf (de_prims X) par rid layers) [0..<n]) t \<and>
    (\<forall>d2. (\<forall>x\<in>ids_of cfgs. d2 x = d' x) \<longrightarrow> create_disk_tree (de_tree X) (de_arities X) len cfgs d2 = Inr t) \<and>
    (\<forall>x. x \<notin> ids_of cfgs \<longrightarrow> d' x = d x)"
proof -
  let ?T = "de_tree X" and ?A = "de_arities X" and ?c = "tree_count (de_arities X)"
  have m: "0 < m" using A by (auto simp: n arities_ok_def)
  let ?lss = "map (\<lambda>i. map (\<lambda>j. column_leaf (de_prims X) par rid layers (i * m + j)) [0..<m]) [0..<?c]"
  have len: "length cfgs = ?c" "distinct (map sc_id cfgs)" by (simp_all add: cfgs split_config_facts)
  have B: "is_ok (from_par_iter_with_config ?T (base_only ?A) c leaves)" if "nodes_ok m leaves" for c leaves
    using crate_okD(5) [OF C] that n by simp
  have le: "(0 + length cfgs) * m \<le> n" using len n by simp
  obtain d' stores where r: "tree_c_loop X layers m (label_stores par rid n layers) (enumerate 0 cfgs) d = Inr d'"
      "stored ?T ?A cfgs ?lss stores" "\<forall>i<length cfgs. file_of (cfgs ! i) d' = Some (stores ! i)" "\<forall>x. x \<notin> ids_of cfgs \<longrightarrow> d' x = d x"
    using tree_c_loop_ok [OF S F l m cpus B le len(2), of par rid d] len by auto
  have "length (pq_of_fr (de_prims X) x) = 32" for x using F by (simp add: fr_ok_def)
  then have "\<forall>ls\<in>set ?lss. nodes_ok (base_arity ?A ^ k) ls" by (auto simp: nodes_ok_def column_leaf_def n)
  moreover have "readable (base_arity ?A ^ k) cfgs ?lss None" by (auto simp: readable_def cfgs split_config_facts)
  ultimately obtain t where t: "from_stores ?T ?A len (base_arity ?A ^ k) cfgs stores None = Inr t"
      "tree_of ?T H ?A k False (concat ?lss) t"
    using crate_okD(6) [OF C _ _ r(2), of None] by auto
  have g: "tree_of ?T H ?A k False (map (column_leaf (de_prims X) par rid layers) [0..<n]) t" using t(2) by (simp add: concat_grid n)
  have re: "create_disk_tree ?T ?A len cfgs d2 = Inr t" if "\<forall>x\<in>ids_of cfgs. d2 x = d' x" for d2
  proof -
    have "file_of (cfgs ! i) d2 = Some (stores ! i)" if "i < length cfgs" for i
      using that r(3) \<open>\<forall>x\<in>ids_of cfgs. d2 x = d' x\<close> by (auto simp: ids_of_def file_of_def)
    then show ?thesis using create_tree_stores(1) [OF crate_okD(4) [OF C] A len(1), of stores d2] r(2) t(1) by (simp add: stored_def)
  qed
  have "cfgs ! 0 \<in> set cfgs" using len tree_count_pos [of ?A] by auto
  then have "sc_size (cfgs ! 0) = Some len" unfolding cfgs by (simp add: split_config_facts(6))
  then have "config_size (cfgs ! 0) = Inr len" by (simp add: config_size_def)
  then have "generate_tree_c_cpu X layers m ?c cfgs (label_stores par rid n layers) d = Inr (d', t)"
    using r(1) re [of d'] len tree_count_pos [of ?A] by (simp add: generate_tree_c_cpu_def)
  then show ?thesis using g re r(4) by blast
qed
text \<open>Encoding the nodes in place, base tree after base tree.\<close>

lemma take_drop_concat:
  "(\<forall>x\<in>set xs. length x = w) \<Longrightarrow> take (k * w) (concat xs) = concat (take k xs) \<and> drop (k * w) (concat xs) = concat (drop k xs)"
proof (induction xs arbitrary: k)
  case (Cons x xs)
  then show ?case by (cases k) (auto simp: Cons.IH)
qed simp

lemma length_concat_nodes: "(\<forall>x\<in>set xs. length x = w) \<Longrightarrow> length (concat xs) = length xs * w"
  by (induction xs) auto

definition encoded_upto :: "(nat \<Rightarrow> u8 list) \<Rightarrow> u8 list list \<Rightarrow> nat \<Rightarrow> u8 list" where
  "encoded_upto enc nodes s = concat (map enc [0..<s] @ drop s nodes)"

lemma collectR_zip:
  "length xs = length ys \<Longrightarrow> (\<And>i. i < length xs \<Longrightarrow> f (xs ! i, ys ! i) = Inr (g i)) \<Longrightarrow>
   collectR f (zip xs ys) = Inr (map g [0..<length xs])"
  by (simp add: collectR_Inr_iff list_all2_conv_all_nth)

lemma prepare_ok:
  assumes S: "store_ok (de_tree X)" and N: "nodes_ok n nodes" and le: "s + m \<le> n"
    and enc: "\<And>i. i < n \<Longrightarrow> encode (de_prims X) (label_spec par rid l i) (nodes ! i) = Inr (enc i) \<and> length (enc i) = 32"
  shows "prepare_tree_r_data_cpu X (layer_bytes par rid n l) (encoded_upto enc nodes s) s (s + m) =
    Inr (encoded_upto enc nodes (s + m), map enc [s..<s + m])"
proof -
  let ?D = "map enc [0..<s] @ drop s nodes"
  have N': "length nodes = n" "\<forall>x\<in>set nodes. length x = 32" using N by (auto simp: nodes_ok_def)
  have u: "\<forall>x\<in>set ?D. length x = 32" using N' enc le by (auto dest: in_set_dropD)
  have lD: "length ?D = n" using N' le by simp
  have mid: "take m (drop s ?D) = take m (drop s nodes)" by simp
  have part: "slice (concat ?D) (s * 32) ((s + m) * 32) = Inr (concat (take m (drop s nodes)))"
  proof -
    have u2: "\<forall>x\<in>set (drop s ?D). length x = 32" using u by (meson in_set_dropD)
    have "take (m * 32) (drop (s * 32) (concat ?D)) = concat (take m (drop s ?D))"
      using take_drop_concat [OF u, of s] take_drop_concat [OF u2, of m] by simp
    moreover have "(s + m) * 32 \<le> length (concat ?D)" using length_concat_nodes [OF u] lD le by simp
    ultimately show ?thesis using mid by (simp add: slice_def algebra_simps)
  qed
  have c: "chunks 32 (concat (take m (drop s nodes))) = take m (drop s nodes)"
    using N'(2) by (intro chunks_concat) (auto dest: in_set_takeD in_set_dropD)
  let ?f = "\<lambda>(key, data_node_bytes). if length data_node_bytes = NODE_SIZE then encode (de_prims X) key data_node_bytes
         else Inl (Panic ''try from bytes failed'')"
  have z: "collectR ?f (zip (map (label_spec par rid l) [s..<s + m]) (take m (drop s nodes))) =
      Inr (map (\<lambda>i. enc (s + i)) [0..<m])"
  proof -
    have "length (nodes ! i) = 32" if "i < n" for i using N' that by auto
    then have "?f (map (label_spec par rid l) [s..<s + m] ! i, take m (drop s nodes) ! i) = Inr (enc (s + i))" if "i < m" for i
      using that enc [of "s + i"] le N' by (simp add: NODE_SIZE_def)
    then show ?thesis using collectR_zip [of "map (label_spec par rid l) [s..<s + m]" "take m (drop s nodes)" ?f "\<lambda>i. enc (s + i)"] le N'
      by simp
  qed
  have e: "map (\<lambda>i. enc (s + i)) [0..<m] = map enc [s..<s + m]" by (rule nth_equalityI) simp_all
  have lc: "length (concat (map enc [s..<s + m])) = m * 32"
    using enc le length_concat_nodes [of "map enc [s..<s + m]" 32] by auto
  have t: "take (s * 32) (concat ?D) = concat (map enc [0..<s])" "drop (s * 32 + m * 32) (concat ?D) = concat (drop (s + m) nodes)"
    using take_drop_concat [OF u, of s] take_drop_concat [OF u, of "s + m"] by (simp_all add: algebra_simps)
  have j: "map enc [0..<s] @ map enc [s..<s + m] = map enc [0..<s + m]" using upt_add_eq_append [of 0 s m] by simp
  have "concat (map enc [0..<s]) @ concat (map enc [s..<s + m]) @ concat (drop (s + m) nodes) = encoded_upto enc nodes (s + m)"
    unfolding encoded_upto_def j [symmetric] by simp
  note fin = this
  have R: "read_range (de_tree X) (layer_bytes par rid n l) s (s + m) = Inr (map (label_spec par rid l) [s..<s + m])"
    by (rule read_labels [OF S _ le]) simp
  show ?thesis
    unfolding prepare_tree_r_data_cpu_def R bindR.simps encoded_upto_def [of enc nodes s] NODE_SIZE_def part c z [unfolded NODE_SIZE_def] e t(1) lc t(2)
      fin ..
qed
lemma tree_r_last_loop_ok:
  assumes P: "\<And>k. Suc k * m \<le> n \<Longrightarrow>
      encode_data source (st k) (k * m) (k * m + m) = Inr (st (Suc k), map (\<lambda>j. enc (k * m + j)) [0..<m])"
    and enc: "\<And>i. i < n \<Longrightarrow> length (enc i) = 32"
    and B: "\<And>c leaves. nodes_ok m leaves \<Longrightarrow> is_ok (from_par_iter_with_config (de_tree X) (base_only (de_arities X)) c leaves)"
  shows "\<lbrakk>(k + length cfgs) * m \<le> n; distinct (map sc_id cfgs)\<rbrakk> \<Longrightarrow>
    \<exists>d' stores. tree_r_last_loop X encode_data source m cfgs (k * m) (k * m + m) (st k) d = Inr (st (k + length cfgs), d') \<and>
      stored (de_tree X) (de_arities X) cfgs (map (\<lambda>i. map (\<lambda>j. enc (i * m + j)) [0..<m]) [k..<k + length cfgs]) stores \<and>
      (\<forall>i<length cfgs. file_of (cfgs ! i) d' = Some (stores ! i)) \<and> (\<forall>x. x \<notin> ids_of cfgs \<longrightarrow> d' x = d x)"
proof (induction cfgs arbitrary: k d)
  case Nil
  then show ?case by (intro exI [of _ d] exI [of _ "[]"]) (simp add: stored_def)
next
  case (Cons c cfgs)
  let ?lf = "\<lambda>i. map (\<lambda>j. enc (i * m + j)) [0..<m]"
  have km: "k * m + m \<le> n" using Cons.prems(1) by (simp add: algebra_simps)
  then have p: "encode_data source (st k) (k * m) (k * m + m) = Inr (st (Suc k), ?lf k)" by (intro P) simp
  have "nodes_ok m (?lf k)" using enc km by (auto simp: nodes_ok_def)
  then obtain s t where st: "from_par_iter_with_config (de_tree X) (base_only (de_arities X)) c (?lf k) = Inr (s, t)"
    using B [of "?lf k" c] by (auto simp: is_ok_iff)
  let ?d = "(d(Data_File (sc_id c) := None))(Data_File (sc_id c) \<mapsto> s)"
  obtain d' stores where r: "tree_r_last_loop X encode_data source m cfgs (Suc k * m) (Suc k * m + m) (st (Suc k)) ?d =
        Inr (st (Suc k + length cfgs), d')"
      "stored (de_tree X) (de_arities X) cfgs (map ?lf [Suc k..<Suc k + length cfgs]) stores"
      "\<forall>i<length cfgs. file_of (cfgs ! i) d' = Some (stores ! i)" "\<forall>x. x \<notin> ids_of cfgs \<longrightarrow> d' x = ?d x"
  proof -
    have "(Suc k + length cfgs) * m \<le> n" "distinct (map sc_id cfgs)" using Cons.prems by simp_all
    from Cons.IH [OF this, of ?d] show ?thesis using that by blast
  qed
  have u: "[k..<k + length (c # cfgs)] = k # [Suc k..<Suc k + length cfgs]" by (simp add: upt_conv_Cons del: upt_Suc)
  have "stored (de_tree X) (de_arities X) (c # cfgs) (map ?lf [k..<k + length (c # cfgs)]) (s # stores)"
    unfolding u list.map by (rule stored_Cons [OF st r(2)])
  moreover have "Data_File (sc_id c) \<notin> ids_of cfgs" using Cons.prems(2) by (auto simp: ids_of_def image_iff)
  then have "file_of c d' = Some s" using r(4) by (simp add: file_of_def)
  then have "\<forall>i<length (c # cfgs). file_of ((c # cfgs) ! i) d' = Some ((s # stores) ! i)"
    using r(3) by (auto simp: nth_Cons split: nat.split)
  moreover have "tree_r_last_loop X encode_data source m (c # cfgs) (k * m) (k * m + m) (st k) d = Inr (st (k + length (c # cfgs)), d')"
    using p st r(1) by (simp add: add.commute add.left_commute)
  ultimately show ?case using r(4) by (intro exI [of _ d'] exI [of _ "s # stores"]) (auto simp: ids_of_def)
qed

text \<open>The stores of the base trees over the leaves are on the disk.\<close>

definition tree_stored :: "('t, 'p) tree_crate \<Rightarrow> arities \<Rightarrow> nat \<Rightarrow> store_config \<Rightarrow> u8 list list \<Rightarrow> disk \<Rightarrow> bool" where
  "tree_stored T A k c leaves d \<longleftrightarrow> (\<exists>leavess stores. concat leavess = leaves \<and> length leavess = tree_count A \<and>
     (\<forall>ls\<in>set leavess. nodes_ok (base_arity A ^ k) ls) \<and> stored T A (split_config c (tree_count A)) leavess stores \<and>
     (\<forall>i<tree_count A. file_of (split_config c (tree_count A) ! i) d = Some (stores ! i)))"

text \<open>The configuration of \<open>tree-r-last\<close>.\<close>

definition r_last_config :: "('t, 'p) tree_crate \<Rightarrow> arities \<Rightarrow> (nat \<Rightarrow> nat \<Rightarrow> nat) \<Rightarrow> nat \<Rightarrow> nat \<Rightarrow> store_config \<Rightarrow> bool" where
  "r_last_config T A rows discard k c \<longleftrightarrow> (let m = base_arity A ^ k in \<exists>len. get_merkle_tree_len T m (base_arity A) = Inr len \<and>
     get_merkle_tree_leafs T len (base_arity A) = Inr m \<and> c = \<lparr>sc_id = cache_key_str CommRLastTree, sc_size = Some len,
       sc_rows_to_discard = default_rows_to_discard rows discard m (base_arity A)\<rparr>)"

text \<open>Whatever the callback encodes, the stores and the tree are those of the encoded nodes.\<close>

lemma generate_tree_r_last_gen:
  assumes P: "\<And>k. Suc k * m \<le> n \<Longrightarrow>
      encode_data source (st k) (k * m) (k * m + m) = Inr (st (Suc k), map (\<lambda>j. enc (k * m + j)) [0..<m])"
    and enc: "\<And>i. i < n \<Longrightarrow> length (enc i) = 32"
    and A: "arities_ok (de_arities X)" and C: "crate_ok (de_tree X) H (de_arities X) k len"
    and n: "m = base_arity (de_arities X) ^ k" "n = tree_count (de_arities X) * m" and c: "sc_size c = Some len"
    and cfgs: "cfgs = split_config c (tree_count (de_arities X))"
    and rep: "replica_of (st (tree_count (de_arities X))) = concat (map enc [0..<n])"
  shows "\<exists>d' t. generate_tree_r_last_cpu X encode_data replica_of (st 0) m (tree_count (de_arities X)) c source d =
      Inr (st (tree_count (de_arities X)), d', t) \<and>
    tree_of (de_tree X) H (de_arities X) k True (map enc [0..<n]) t \<and>
    (\<forall>d2. (\<forall>x\<in>ids_of cfgs. d2 x = d' x) \<longrightarrow> create_lc_tree (de_tree X) (de_arities X) len cfgs
       (snd (split_config_and_replica c (concat (map enc [0..<n])) m (tree_count (de_arities X)))) d2 = Inr t) \<and>
    (\<forall>x. x \<notin> ids_of cfgs \<longrightarrow> d' x = d x) \<and> tree_stored (de_tree X) (de_arities X) k c (map enc [0..<n]) d'"
proof -
  let ?T = "de_tree X" and ?A = "de_arities X" and ?c = "tree_count (de_arities X)"
  let ?lss = "map (\<lambda>i. map (\<lambda>j. enc (i * m + j)) [0..<m]) [0..<?c]"
  let ?rep = "snd (split_config_and_replica c (concat (map enc [0..<n])) m ?c)"
  have len: "length cfgs = ?c" "distinct (map sc_id cfgs)" by (simp_all add: cfgs split_config_facts)
  have B: "is_ok (from_par_iter_with_config ?T (base_only ?A) c leaves)" if "nodes_ok m leaves" for c leaves
    using crate_okD(5) [OF C] that n by simp
  have le: "(0 + length cfgs) * m \<le> n" using len n by simp
  obtain d' stores where r: "tree_r_last_loop X encode_data source m cfgs 0 m (st 0) d = Inr (st ?c, d')"
      "stored ?T ?A cfgs ?lss stores" "\<forall>i<length cfgs. file_of (cfgs ! i) d' = Some (stores ! i)" "\<forall>x. x \<notin> ids_of cfgs \<longrightarrow> d' x = d x"
    using tree_r_last_loop_ok [where st = st and encode_data = encode_data, OF P enc B le len(2), of d] len by auto
  have g: "concat ?lss = map enc [0..<n]" by (simp add: concat_grid n)
  have "i * m + j < n" if "i < ?c" "j < m" for i j
  proof -
    have "i * m + j < Suc i * m" using that by simp
    also have "\<dots> \<le> n" unfolding n(2) using that by (intro mult_le_mono1) simp
    finally show ?thesis .
  qed
  then have nk: "\<forall>ls\<in>set ?lss. nodes_ok (base_arity ?A ^ k) ls" using enc by (auto simp: nodes_ok_def n(1))
  have stor: "tree_stored ?T ?A k c (map enc [0..<n]) d'"
    unfolding tree_stored_def cfgs [symmetric] using g nk r(2,3) len(1) by (intro exI [of _ ?lss] exI [of _ stores]) simp
  note nk
  moreover have "readable (base_arity ?A ^ k) cfgs ?lss (Some ?rep)"
    by (simp add: readable_def split_config_facts g n(1) [symmetric])
  ultimately obtain t where t: "from_stores ?T ?A len (base_arity ?A ^ k) cfgs stores (Some ?rep) = Inr t"
      "tree_of ?T H ?A k True (map enc [0..<n]) t"
    using crate_okD(6) [OF C _ _ r(2), of "Some ?rep"] g by auto
  have re: "create_lc_tree ?T ?A len cfgs ?rep d2 = Inr t" if "\<forall>x\<in>ids_of cfgs. d2 x = d' x" for d2
  proof -
    have "file_of (cfgs ! i) d2 = Some (stores ! i)" if "i < length cfgs" for i
      using that r(3) \<open>\<forall>x\<in>ids_of cfgs. d2 x = d' x\<close> by (auto simp: ids_of_def file_of_def)
    then show ?thesis using create_tree_stores(2) [OF crate_okD(4) [OF C] A len(1), of stores d2 ?rep] r(2) t(1) by (simp add: stored_def)
  qed
  obtain rep0 where "split_config_and_replica c (replica_of (st 0)) m ?c = (cfgs, rep0)"
    by (metis cfgs prod.collapse split_config_facts(2))
  then have "generate_tree_r_last_cpu X encode_data replica_of (st 0) m ?c c source d = Inr (st ?c, d', t)"
    using r(1) re [of d'] c rep by (simp add: generate_tree_r_last_cpu_def config_size_def)
  then show ?thesis using t(2) re r(4) stor by blast
qed

lemma generate_tree_r_last_ok:
  assumes S: "store_ok (de_tree X)" and N: "nodes_ok n nodes"
    and enc: "\<And>i. i < n \<Longrightarrow> encode (de_prims X) (label_spec par rid l i) (nodes ! i) = Inr (enc i) \<and> length (enc i) = 32"
    and A: "arities_ok (de_arities X)" and C: "crate_ok (de_tree X) H (de_arities X) k len"
    and n: "m = base_arity (de_arities X) ^ k" "n = tree_count (de_arities X) * m" and c: "sc_size c = Some len"
    and cfgs: "cfgs = split_config c (tree_count (de_arities X))"
  shows "\<exists>d' t. generate_tree_r_last_cpu X (prepare_tree_r_data_cpu X) id (concat nodes) m (tree_count (de_arities X)) c (layer_bytes par rid n l) d =
      Inr (concat (map enc [0..<n]), d', t) \<and>
    tree_of (de_tree X) H (de_arities X) k True (map enc [0..<n]) t \<and>
    (\<forall>d2. (\<forall>x\<in>ids_of cfgs. d2 x = d' x) \<longrightarrow> create_lc_tree (de_tree X) (de_arities X) len cfgs
       (snd (split_config_and_replica c (concat (map enc [0..<n])) m (tree_count (de_arities X)))) d2 = Inr t) \<and>
    (\<forall>x. x \<notin> ids_of cfgs \<longrightarrow> d' x = d x) \<and> tree_stored (de_tree X) (de_arities X) k c (map enc [0..<n]) d'"
proof -
  let ?st = "\<lambda>k. encoded_upto enc nodes (k * m)"
  have P: "prepare_tree_r_data_cpu X (layer_bytes par rid n l) (?st k) (k * m) (k * m + m) =
      Inr (?st (Suc k), map (\<lambda>j. enc (k * m + j)) [0..<m])" if "Suc k * m \<le> n" for k
  proof -
    have km: "k * m + m \<le> n" using that by simp
    have e: "map enc [k * m..<k * m + m] = map (\<lambda>j. enc (k * m + j)) [0..<m]" by (rule nth_equalityI) simp_all
    show ?thesis using prepare_ok [OF S N km enc] unfolding e by (simp add: add.commute)
  qed
  have L: "length (enc i) = 32" if "i < n" for i using enc that by simp
  have u: "?st 0 = concat nodes" "?st (tree_count (de_arities X)) = concat (map enc [0..<n])"
    using N n by (simp_all add: encoded_upto_def nodes_ok_def)
  show ?thesis
    using generate_tree_r_last_gen [where st = ?st and encode_data = "prepare_tree_r_data_cpu X" and source = "layer_bytes par rid n l" and
        replica_of = id, OF P L A C n c cfgs, of d] unfolding u by simp
qed

subsection \<open>Replicas\<close>

definition drg_ok :: "('f::field, 't, 'p) drg_env \<Rightarrow> nat \<Rightarrow> nat \<Rightarrow> nat \<Rightarrow> bool" where
  "drg_ok X n k kd \<longleftrightarrow> store_ok (de_tree X) \<and> fr_ok (de_prims X) \<and> pq_sha256 (de_prims X) = fips_sha256 \<and> 0 < de_cpus X \<and>
     arities_ok (de_arities X) \<and> merkle_hash (pq_tree_hash (de_prims X)) \<and> merkle_hash (de_hash_d X) \<and>
     hash_nodes (pq_tree_hash (de_prims X)) \<and> hash_nodes (de_hash_d X) \<and>
     (\<exists>len. crate_ok (de_tree X) (pq_tree_hash (de_prims X)) (de_arities X) k len) \<and>
     (\<exists>len. crate_ok (de_tree_d X) (de_hash_d X) binary_arities kd len) \<and>
     n = base_arity (de_arities X) ^ k * tree_count (de_arities X) \<and> n = 2 ^ kd \<and> n < 2 ^ 32"

text \<open>The auxiliary data of a replica: its labels and the trees of its data, its columns and its nodes.\<close>

definition aux_ok ::
  "('f::field, 't, 'p) drg_env \<Rightarrow> (nat \<Rightarrow> u32 list) \<Rightarrow> u8 list \<Rightarrow> nat \<Rightarrow> nat \<Rightarrow> nat \<Rightarrow> nat \<Rightarrow> u8 list list \<Rightarrow> u8 list list \<Rightarrow>
   tau \<Rightarrow> persistent_aux \<Rightarrow> 't temporary_aux_cache \<Rightarrow> bool" where
  "aux_ok X par rid n layers k kd nodes replica tau p_aux t_aux \<longleftrightarrow>
     tc_labels t_aux = label_stores par rid n layers \<and>
     (\<exists>td. tc_tree_d t_aux = Some td \<and> tree_of (de_tree_d X) (de_hash_d X) binary_arities kd False nodes td \<and>
        tree_root_of (de_tree_d X) td = tau_comm_d tau) \<and>
     (\<exists>tc. tc_tree_c t_aux = Some tc \<and> tree_root_of (de_tree X) tc = pa_comm_c p_aux \<and>
        tree_of (de_tree X) (pq_tree_hash (de_prims X)) (de_arities X) k False (map (column_leaf (de_prims X) par rid layers) [0..<n]) tc) \<and>
     tree_of (de_tree X) (pq_tree_hash (de_prims X)) (de_arities X) k True replica (tc_tree_r_last t_aux) \<and>
     tree_root_of (de_tree X) (tc_tree_r_last t_aux) = pa_comm_r_last p_aux \<and>
     tau_comm_r tau = pq_hash2 (de_prims X) (pa_comm_c p_aux) (pa_comm_r_last p_aux)"

lemma data_at_concat: "nodes_ok n nodes \<Longrightarrow> i < n \<Longrightarrow> data_at_node (concat nodes) i = Inr (nodes ! i)"
proof -
  assume a: "nodes_ok n nodes" "i < n"
  then have u: "\<forall>x\<in>set nodes. length x = 32" "length nodes = n" by (auto simp: nodes_ok_def)
  have l: "length (concat nodes) = n * 32" using length_concat_nodes [OF u(1)] u(2) by simp
  have "drop (i * 32) (concat nodes) = concat (drop i nodes)" using take_drop_concat [OF u(1), of i] by simp
  also have "\<dots> = nodes ! i @ concat (drop (Suc i) nodes)" using Cons_nth_drop_Suc [of i nodes] a(2) u(2) by (metis concat.simps(2))
  finally have "take 32 (drop (i * 32) (concat nodes)) = nodes ! i" using u a(2) by simp
  then show ?thesis using a(2) l by (simp add: data_at_node_def data_at_node_offset_def NODE_SIZE_def)
qed

lemma build_binary_tree_ok:
  assumes N: "nodes_ok n nodes" and C: "crate_ok T H binary_arities kd len" and n: "n = 2 ^ kd"
  shows "\<exists>s t. build_binary_tree T (concat nodes) c d = Inr (d(Data_File (sc_id c) \<mapsto> s), t) \<and>
    tree_of T H binary_arities kd False nodes t \<and> tree_len T t = len \<and>
    stored T binary_arities [c] [nodes] [s]"
proof -
  have b: "base_arity binary_arities = 2" "sub_tree_arity binary_arities = 0" by (simp_all add: binary_arities_def)
  have N': "nodes_ok (base_arity binary_arities ^ kd) nodes" using N n b by simp
  have l: "length (concat nodes) = n * 32" using N length_concat_nodes [of nodes 32] by (auto simp: nodes_ok_def)
  have c: "collectR (\<lambda>i. expectR ''get_node failure'' (expectR ''invalid node math'' (data_at_node (concat nodes) i))) [0..<n] = Inr nodes"
  proof -
    have "collectR (\<lambda>i. expectR ''get_node failure'' (expectR ''invalid node math'' (data_at_node (concat nodes) i))) [0..<n] =
        Inr (map (\<lambda>i. nodes ! i) [0..<n])" by (rule collectR_all_ok) (simp add: data_at_concat [OF N])
    then show ?thesis using N map_nth [of nodes] by (simp add: nodes_ok_def)
  qed
  obtain s t where st: "from_par_iter_with_config T (base_only binary_arities) c nodes = Inr (s, t)"
    using crate_okD(5) [OF C N', of c] by (auto simp: is_ok_iff)
  have bo: "base_only binary_arities = binary_arities" by (simp add: base_only_def binary_arities_def)
  have "build_binary_tree T (concat nodes) c d = Inr (d(Data_File (sc_id c) \<mapsto> s), t)"
    using c st l by (simp add: build_binary_tree_def NODE_SIZE_def bo)
  then show ?thesis using crate_okD(7) [OF C b(2) N' st] st by (auto simp: stored_def)
qed
lemma split_config_prefix: "x \<in> set (split_config c m) \<Longrightarrow> \<exists>rest. sc_id x = sc_id c @ rest"
  by (auto simp: split_config_def split: if_splits)

lemma ids_disjoint:
  assumes "sc_id c = ''tree-c''" and "sc_id r = ''tree-r-last''"
  shows "ids_of (split_config c m) \<inter> ids_of (split_config r m) = {}"
    and "Data_File ''tree-d'' \<notin> ids_of (split_config c m)" "Data_File ''tree-d'' \<notin> ids_of (split_config r m)"
    and "Data_File (label_layer l) \<notin> ids_of (split_config c m)" "Data_File (label_layer l) \<notin> ids_of (split_config r m)"
  using split_config_prefix [of _ c m] split_config_prefix [of _ r m] assms
  by (auto simp: ids_of_def label_layer_def LABEL_LAYER_KEY_def) fastforce+
lemma tree_of_root_unique: "tree_of T H A k b leaves t \<Longrightarrow> tree_of T H A k b' leaves t' \<Longrightarrow> tree_root_of T t = tree_root_of T t'"
  by (simp add: tree_of_def)

text \<open>The data tree is built or given; the auxiliary files may be written afterwards.\<close>

definition data_tree_ok :: "('f, 't, 'p) drg_env \<Rightarrow> nat \<Rightarrow> nat \<Rightarrow> u8 list list \<Rightarrow> disk \<Rightarrow> 't \<Rightarrow> bool" where
  "data_tree_ok X n kd nodes d t \<longleftrightarrow> tree_of (de_tree_d X) (de_hash_d X) binary_arities kd False nodes t \<and>
     Suc (tree_len (de_tree_d X) t) = 2 * n \<and> get_merkle_tree_len (de_tree_d X) n 2 = Inr (tree_len (de_tree_d X) t) \<and>
     (\<exists>c s. sc_rows_to_discard c = 0 \<and> stored (de_tree_d X) binary_arities [c] [nodes] [s] \<and> d (Data_File ''tree-d'') = Some s)"

definition same_but_aux :: "disk \<Rightarrow> disk \<Rightarrow> bool" where
  "same_but_aux d d' \<longleftrightarrow> (\<forall>f. f \<noteq> Data_File ''p_aux'' \<longrightarrow> f \<noteq> Data_File ''t_aux'' \<longrightarrow> d' f = d f)"

lemma aux_ids_disjoint:
  assumes "take 4 (sc_id c) = ''tree''" and "x \<in> ids_of (split_config c m)"
  shows "x \<noteq> Data_File ''p_aux''" "x \<noteq> Data_File ''t_aux''"
proof -
  obtain i rest where "x = Data_File (sc_id c @ rest)" using assms(2) split_config_prefix [of _ c m] by (auto simp: ids_of_def)
  moreover have "sc_id c = ''tree'' @ drop 4 (sc_id c)" using assms(1) append_take_drop_id [of 4 "sc_id c"] by simp
  ultimately have "x = Data_File (''tree'' @ drop 4 (sc_id c) @ rest)" by simp
  then show "x \<noteq> Data_File ''p_aux''" "x \<noteq> Data_File ''t_aux''" by auto
qed

lemma replicate_gen_ok:
  assumes D: "drg_ok X n k kd" and l: "layers = 2 \<or> layers = 11" and sz: "graph_size (ge_graph E) = n"
    and files: "\<forall>l\<in>{1..layers}. d (Data_File (label_layer l)) = Some (layer_bytes par rid n l)"
    and N: "nodes_ok n nodes"
    and enc: "\<And>i. i < n \<Longrightarrow> encode (de_prims X) (label_spec par rid layers i) (nodes ! i) = Inr (enc i) \<and> length (enc i) = 32"
    and dt: "\<And>t. dt = Some t \<Longrightarrow> data_tree_ok X n kd nodes d t"
  shows "\<exists>d' tau p_aux t_aux tc. transform_and_replicate_layers X n layers (concat nodes) dt
        (map (label_config E) (map label_layer [1..<layers + 1])) d = Inr (concat (map enc [0..<n]), d', tau, p_aux, t_aux) \<and>
      (\<forall>d4. same_but_aux d' d4 \<longrightarrow> temporary_aux_cache_new X t_aux (concat (map enc [0..<n])) False d4 = Inr tc) \<and>
      aux_ok X par rid n layers k kd nodes (map enc [0..<n]) tau p_aux tc \<and>
      tree_stored (de_tree X) (de_arities X) k (ta_tree_r_last_config t_aux) (map enc [0..<n]) d' \<and>
      r_last_config (de_tree X) (de_arities X) (de_rows X) (de_rows_to_discard X) k (ta_tree_r_last_config t_aux)"
proof -
  let ?T = "de_tree X" and ?A = "de_arities X" and ?H = "pq_tree_hash (de_prims X)" and ?c = "tree_count (de_arities X)"
  define m where "m = base_arity ?A ^ k"
  obtain len len_d where D': "store_ok ?T" "fr_ok (de_prims X)" "0 < de_cpus X" "arities_ok ?A"
      "crate_ok ?T ?H ?A k len" "crate_ok (de_tree_d X) (de_hash_d X) binary_arities kd len_d" "n = ?c * m" "n = 2 ^ kd"
    using D by (auto simp: drg_ok_def m_def mult.commute)
  have cnt: "get_base_tree_count ?A = Inr ?c" by (rule base_tree_count_ok [OF D'(4)])
  have udiv: "udiv n ?c = Inr m" using tree_count_pos [of ?A] D'(7) by (simp add: udiv_def)
  let ?labels = "map (label_config E) (map label_layer [1..<layers + 1])"
  have L: "labels_cache_new X ?labels d = Inr (label_stores par rid n layers)" by (rule labels_cache_ok [OF D'(1) sz files])
  let ?dc = "\<lparr>sc_id = ''tree-d'', sc_size = Some len_d, sc_rows_to_discard = 0\<rparr>"
  let ?cc = "\<lparr>sc_id = ''tree-c'', sc_size = Some len, sc_rows_to_discard = 0\<rparr>"
  let ?rc = "\<lparr>sc_id = ''tree-r-last'', sc_size = Some len,
      sc_rows_to_discard = default_rows_to_discard (de_rows X) (de_rows_to_discard X) m (base_arity ?A)\<rparr>"
  let ?repl = "concat (map enc [0..<n])"
  obtain d1 tc where C: "generate_tree_c_cpu X layers m ?c (split_config ?cc ?c) (label_stores par rid n layers) d = Inr (d1, tc)"
      "tree_of ?T ?H ?A k False (map (column_leaf (de_prims X) par rid layers) [0..<n]) tc"
      "\<And>d2. (\<forall>x\<in>ids_of (split_config ?cc ?c). d2 x = d1 x) \<Longrightarrow> create_disk_tree ?T ?A len (split_config ?cc ?c) d2 = Inr tc"
      "\<forall>x. x \<notin> ids_of (split_config ?cc ?c) \<longrightarrow> d1 x = d x"
    using generate_tree_c_ok [OF D'(1,2) l D'(3,4,5) m_def D'(7) refl, of "''tree-c''" par rid d] by blast
  have ln: "length (concat nodes) = n * NODE_SIZE" using N length_concat_nodes [of nodes 32] by (auto simp: nodes_ok_def NODE_SIZE_def)
  have b: "base_arity binary_arities = 2" "sub_tree_arity binary_arities = 0" by (simp_all add: binary_arities_def)
  have dlen: "get_merkle_tree_len (de_tree_d X) n 2 = Inr len_d" "get_merkle_tree_leafs (de_tree_d X) len_d 2 = Inr n"
    using crate_okD(3,4) [OF D'(6)] D'(8) b by simp_all
  note dis = ids_disjoint [of ?cc ?rc, simplified] and dis2 = aux_ids_disjoint [of ?cc _ ?c, simplified] aux_ids_disjoint [of ?rc _ ?c, simplified]
  have "\<exists>d2 td s c. (case dt of
        Some t \<Rightarrow> if Suc (tree_len (de_tree_d X) t) = 2 * (length (concat nodes) div NODE_SIZE) then Inr (d1, t) else Inl (Panic ''assertion failed'')
      | None \<Rightarrow> build_binary_tree (de_tree_d X) (concat nodes) ?dc d1) = Inr (d2, td) \<and>
      tree_of (de_tree_d X) (de_hash_d X) binary_arities kd False nodes td \<and> tree_len (de_tree_d X) td = len_d \<and>
      sc_rows_to_discard c = 0 \<and> stored (de_tree_d X) binary_arities [c] [nodes] [s] \<and> d2 (Data_File ''tree-d'') = Some s \<and>
      (\<forall>x. x \<noteq> Data_File ''tree-d'' \<longrightarrow> d2 x = d1 x)"
  proof (cases dt)
    case None
    obtain s td where B: "build_binary_tree (de_tree_d X) (concat nodes) ?dc d1 = Inr (d1(Data_File ''tree-d'' \<mapsto> s), td)"
      "tree_of (de_tree_d X) (de_hash_d X) binary_arities kd False nodes td" "tree_len (de_tree_d X) td = len_d"
      "stored (de_tree_d X) binary_arities [?dc] [nodes] [s]"
      using build_binary_tree_ok [OF N D'(6,8), of ?dc d1] by auto
    then show ?thesis using None by (intro exI [of _ "d1(Data_File ''tree-d'' \<mapsto> s)"] exI [of _ td] exI [of _ s] exI [of _ ?dc]) simp
  next
    case (Some t)
    have t: "tree_of (de_tree_d X) (de_hash_d X) binary_arities kd False nodes t" "Suc (tree_len (de_tree_d X) t) = 2 * n"
        "tree_len (de_tree_d X) t = len_d" using dt [OF Some] dlen(1) by (simp_all add: data_tree_ok_def)
    obtain c s where c: "sc_rows_to_discard c = 0" "stored (de_tree_d X) binary_arities [c] [nodes] [s]" "d (Data_File ''tree-d'') = Some s"
      using dt [OF Some] by (auto simp: data_tree_ok_def)
    have "d1 (Data_File ''tree-d'') = Some s" using C(4) dis c(3) by simp
    moreover have "length (concat nodes) div NODE_SIZE = n" using ln by (simp add: NODE_SIZE_def)
    ultimately show ?thesis using Some t c by (intro exI [of _ d1] exI [of _ t] exI [of _ s] exI [of _ c]) simp
  qed
  then obtain d2 td s cd where B: "(case dt of
        Some t \<Rightarrow> if Suc (tree_len (de_tree_d X) t) = 2 * (length (concat nodes) div NODE_SIZE) then Inr (d1, t) else Inl (Panic ''assertion failed'')
      | None \<Rightarrow> build_binary_tree (de_tree_d X) (concat nodes) ?dc d1) = Inr (d2, td)"
      "tree_of (de_tree_d X) (de_hash_d X) binary_arities kd False nodes td" "tree_len (de_tree_d X) td = len_d"
      "stored (de_tree_d X) binary_arities [cd] [nodes] [s]" "sc_rows_to_discard cd = 0" "d2 (Data_File ''tree-d'') = Some s"
      "\<And>x. x \<noteq> Data_File ''tree-d'' \<Longrightarrow> d2 x = d1 x" by blast
  have sc: "sc_size ?rc = Some len" by simp
  obtain d3 tr where R: "generate_tree_r_last_cpu X (prepare_tree_r_data_cpu X) id (concat nodes) m ?c ?rc (layer_bytes par rid n layers) d2 = Inr (?repl, d3, tr)"
      "tree_of ?T ?H ?A k True (map enc [0..<n]) tr"
      "\<And>d4. (\<forall>x\<in>ids_of (split_config ?rc ?c). d4 x = d3 x) \<Longrightarrow>
         create_lc_tree ?T ?A len (split_config ?rc ?c) (snd (split_config_and_replica ?rc ?repl m ?c)) d4 = Inr tr"
      "\<forall>x. x \<notin> ids_of (split_config ?rc ?c) \<longrightarrow> d3 x = d2 x" "tree_stored ?T ?A k ?rc (map enc [0..<n]) d3"
    using generate_tree_r_last_ok [OF D'(1) N enc D'(4,5) m_def D'(7) sc refl, of d2] by blast
  define t_aux where "t_aux = \<lparr>ta_labels = ?labels, ta_tree_d_config = ?dc, ta_tree_r_last_config = ?rc, ta_tree_c_config = ?cc\<rparr>"
  define tau where "tau = \<lparr>tau_comm_d = tree_root_of (de_tree_d X) td,
      tau_comm_r = pq_hash2 (de_prims X) (tree_root_of ?T tc) (tree_root_of ?T tr)\<rparr>"
  define p_aux where "p_aux = \<lparr>pa_comm_c = tree_root_of ?T tc, pa_comm_r_last = tree_root_of ?T tr\<rparr>"
  note sizes = dlen crate_okD(1-4) [OF D'(5), folded m_def]
  have "0 < layers" using l by auto
  then have tr: "transform_and_replicate_layers X n layers (concat nodes) dt ?labels d = Inr (?repl, d3, tau, p_aux, t_aux)"
    using ln cnt udiv sizes L C(1) l B(1,3) R(1) cache_last_layer [of layers par rid n]
    by (simp add: transform_and_replicate_layers_def Let_def tau_def p_aux_def t_aux_def del: upt_Suc map_map)
  have s3: "d3 (Data_File ''tree-d'') = Some s" using R(4) dis B(6) by simp
  have "\<exists>t. from_stores (de_tree_d X) binary_arities len_d n [cd] [s] None = Inr t \<and>
      tree_of (de_tree_d X) (de_hash_d X) binary_arities kd False nodes t"
    using crate_okD(6) [OF D'(6), of "[nodes]" "[cd]" "[s]" None] B(4,5) N D'(8) b by (simp add: tree_count_def readable_def)
  then obtain s' td' where td': "new_from_disk (de_tree_d X) len_d 2 (Some s) = Inr s'"
      "from_data_store (de_tree_d X) binary_arities s' n None = Inr td'"
      "tree_of (de_tree_d X) (de_hash_d X) binary_arities kd False nodes td'"
    using b by (auto simp: from_stores_def bindR_eq_Inr binary_arities_def)
  define rep where "rep = snd (split_config_and_replica ?rc ?repl m ?c)"
  have sp: "split_config_and_replica ?rc ?repl m ?c = (split_config ?rc ?c, rep)"
    unfolding rep_def by (metis prod.collapse split_config_facts(2))
  let ?tc = "\<lparr>tc_labels = label_stores par rid n layers, tc_tree_d = Some td', tc_tree_r_last = tr,
      tc_rows_to_discard = sc_rows_to_discard ?rc, tc_tree_c = Some tc\<rparr>"
  have "temporary_aux_cache_new X t_aux ?repl False d4 = Inr ?tc" if d4: "same_but_aux d3 d4" for d4
  proof -
    have e4: "d4 f = d3 f" if "f \<noteq> Data_File ''p_aux''" "f \<noteq> Data_File ''t_aux''" for f using d4 that by (simp add: same_but_aux_def)
    have r4: "d4 x = d3 x" if "x \<in> ids_of (split_config ?rc ?c)" for x by (rule e4 [OF dis2(3,4) [OF that]])
    have c4: "d4 x = d1 x" if "x \<in> ids_of (split_config ?cc ?c)" for x
    proof -
      have "x \<notin> ids_of (split_config ?rc ?c)" "x \<noteq> Data_File ''tree-d''" using that dis(1,2) by auto
      then show ?thesis using R(4) B(7) e4 [OF dis2(1,2) [OF that]] by simp
    qed
    have cc: "create_disk_tree ?T ?A len (split_config ?cc ?c) d4 = Inr tc" using C(3) c4 by blast
    have rr: "create_lc_tree ?T ?A len (split_config ?rc ?c) rep d4 = Inr tr" unfolding rep_def using R(3) r4 by blast
    have fd: "file_of ?dc d4 = Some s" using e4 s3 by (simp add: file_of_def)
    have "d4 (Data_File (label_layer i)) = d (Data_File (label_layer i))" for i
    proof -
      have "label_layer i \<noteq> ''tree-d''" "label_layer i \<noteq> ''p_aux''" "label_layer i \<noteq> ''t_aux''" by (simp_all add: label_layer_def LABEL_LAYER_KEY_def)
      then show ?thesis using R(4) C(4) B(7) e4 dis(4,5) by simp
    qed
    then have files4: "\<forall>l\<in>{1..layers}. d4 (Data_File (label_layer l)) = Some (layer_bytes par rid n l)" using files by simp
    have L4: "labels_cache_new X ?labels d4 = Inr (label_stores par rid n layers)" by (rule labels_cache_ok [OF D'(1) sz files4])
    show ?thesis using cnt sizes fd td'(1,2) cc rr L4
      by (simp add: temporary_aux_cache_new_def t_aux_def config_size_def sp del: upt_Suc map_map)
  qed
  moreover have "aux_ok X par rid n layers k kd nodes (map enc [0..<n]) tau p_aux ?tc"
    using C(2) R(2) td'(3) tree_of_root_unique [OF td'(3) B(2)] by (simp add: aux_ok_def tau_def p_aux_def)
  moreover have "r_last_config ?T ?A (de_rows X) (de_rows_to_discard X) k (ta_tree_r_last_config t_aux)"
    using sizes by (simp add: r_last_config_def t_aux_def m_def)
  moreover have "tree_stored ?T ?A k (ta_tree_r_last_config t_aux) (map enc [0..<n]) d3" using R(5) by (simp add: t_aux_def)
  ultimately show ?thesis using tr by blast
qed

lemma replicate_ok:
  assumes D: "drg_ok X n k kd" and l: "layers = 2 \<or> layers = 11" and sz: "graph_size (ge_graph E) = n"
    and files: "\<forall>l\<in>{1..layers}. d (Data_File (label_layer l)) = Some (layer_bytes par rid n l)"
    and N: "nodes_ok n nodes"
    and enc: "\<And>i. i < n \<Longrightarrow> encode (de_prims X) (label_spec par rid layers i) (nodes ! i) = Inr (enc i) \<and> length (enc i) = 32"
  shows "\<exists>d' tau p_aux t_aux tc. transform_and_replicate_layers X n layers (concat nodes) None
        (map (label_config E) (map label_layer [1..<layers + 1])) d = Inr (concat (map enc [0..<n]), d', tau, p_aux, t_aux) \<and>
      temporary_aux_cache_new X t_aux (concat (map enc [0..<n])) False d' = Inr tc \<and>
      aux_ok X par rid n layers k kd nodes (map enc [0..<n]) tau p_aux tc \<and>
      tree_stored (de_tree X) (de_arities X) k (ta_tree_r_last_config t_aux) (map enc [0..<n]) d' \<and>
      r_last_config (de_tree X) (de_arities X) (de_rows X) (de_rows_to_discard X) k (ta_tree_r_last_config t_aux)"
proof -
  have "same_but_aux d' d'" for d' by (simp add: same_but_aux_def)
  moreover have "None = Some t \<Longrightarrow> data_tree_ok X n kd nodes d t" for t by simp
  ultimately show ?thesis using replicate_gen_ok [OF D l sz files N enc, of None] by blast
qed

section \<open>Proofs of a replica\<close>

lemma map_sum_Inr: "map_sum id f r = Inr y \<longleftrightarrow> (\<exists>x. r = Inr x \<and> f x = y)"
  by (cases r) auto

lemma expanded_loop_length: "expanded_loop f is = Some (Inr ps) \<Longrightarrow> length ps = length is"
proof (induction "is" arbitrary: ps)
  case (Cons i "is")
  then obtain p qs where "f i = Some (Inr p)" "expanded_loop f is = Some (Inr qs)" "ps = p # qs"
    by (auto split: option.splits sum.splits simp: map_sum_Inr)
  then show ?case using Cons.IH by simp
qed simp

lemma env_parents_split:
  assumes g: "graph_ok (ge_graph E) n" and ps: "env_parents E c = Some (Inr ps)" and len: "length ps = 14"
  shows "base_parents E c (replicate 6 0) = Inr (take 6 ps)"
    and "expanded_parents (ge_blake2b E) (ge_graph E) c (replicate 8 0) = Some (Inr (drop 6 ps))"
proof -
  have d: "base_degree (base_graph (ge_graph E)) = 6" "expansion_degree (ge_graph E) = 8" using g by (auto simp: graph_ok_def)
  have s: "slice_to (replicate DEGREE (0::u32)) 6 = Inr (replicate 6 0)" "slice (replicate DEGREE (0::u32)) 6 (6 + 8) = Inr (replicate 8 0)"
    by (simp_all add: DEGREE_14 slice_to_def slice_def)
  note P = ps [unfolded env_parents_def stacked_parents_def Let_def d s bindR.simps]
  obtain base where b: "bucket_parents (ge_rng E) (ge_log2_ceil E) (base_graph (ge_graph E)) c (replicate 6 0) = Inr base"
    using P by (auto split: sum.splits)
  obtain exp where e: "expanded_parents (ge_blake2b E) (ge_graph E) c (replicate 8 0) = Some (Inr exp)" "ps = base @ exp"
    using P unfolding b by (auto simp: DEGREE_14 map_sum_Inr split: sum.splits)
  have "length exp = 8" using expanded_loop_length [OF e(1) [unfolded expanded_parents_def]] by simp
  then have "length base = 6" using e(2) len by simp
  then show "base_parents E c (replicate 6 0) = Inr (take 6 ps)"
    "expanded_parents (ge_blake2b E) (ge_graph E) c (replicate 8 0) = Some (Inr (drop 6 ps))"
    using b e by (simp_all add: base_parents_def)
qed

text \<open>The setting: a graph, its replica and the auxiliary data of it.\<close>

definition proving ::
  "('f::field, 't, 'p) drg_env \<Rightarrow> graph_env \<Rightarrow> (nat \<Rightarrow> u32 list) \<Rightarrow> u8 list \<Rightarrow> nat \<Rightarrow> nat \<Rightarrow> nat \<Rightarrow> nat \<Rightarrow> u8 list list \<Rightarrow>
   (nat \<Rightarrow> u8 list) \<Rightarrow> tau \<Rightarrow> persistent_aux \<Rightarrow> 't temporary_aux_cache \<Rightarrow> bool" where
  "proving X E par rid n layers k kd nodes enc tau p_aux t_aux \<longleftrightarrow> drg_ok X n k kd \<and> nodes_ok n nodes \<and> (layers = 2 \<or> layers = 11) \<and>
     graph_ok (ge_graph E) n \<and> topological par n \<and> (\<forall>i<n. env_parents E i = Some (Inr (par i))) \<and>
     aux_ok X par rid n layers k kd nodes (map enc [0..<n]) tau p_aux t_aux \<and>
     (\<forall>i<n. encode (de_prims X) (label_spec par rid layers i) (nodes ! i) = Inr (enc i))"

lemma proving_parents:
  assumes "proving X E par rid n layers k kd nodes enc tau p_aux t_aux" and c: "c < n"
  shows "base_parents E c (replicate (base_degree (base_graph (ge_graph E))) 0) = Inr (take 6 (par c))"
    "expanded_parents (ge_blake2b E) (ge_graph E) c (replicate (expansion_degree (ge_graph E)) 0) = Some (Inr (drop 6 (par c)))"
    "env_parents E c = Some (Inr (take 6 (par c) @ drop 6 (par c)))" "length (par c) = 14"
    "base_degree (base_graph (ge_graph E)) = 6"
    "0 < c \<Longrightarrow> p \<in> set (take 6 (par c)) \<Longrightarrow> unat p < n" "p \<in> set (drop 6 (par c)) \<Longrightarrow> unat p < n"
proof -
  have g: "graph_ok (ge_graph E) n" and ps: "env_parents E c = Some (Inr (par c))" and t: "topological par n"
    using assms by (auto simp: proving_def)
  have len: "length (par c) = 14" using t c by (simp add: topological_def)
  have d: "base_degree (base_graph (ge_graph E)) = 6" "expansion_degree (ge_graph E) = 8" using g by (auto simp: graph_ok_def)
  show "base_parents E c (replicate (base_degree (base_graph (ge_graph E))) 0) = Inr (take 6 (par c))"
    "expanded_parents (ge_blake2b E) (ge_graph E) c (replicate (expansion_degree (ge_graph E)) 0) = Some (Inr (drop 6 (par c)))"
    "env_parents E c = Some (Inr (take 6 (par c) @ drop 6 (par c)))" "length (par c) = 14" "base_degree (base_graph (ge_graph E)) = 6"
    using env_parents_split [OF g ps len] ps len d by simp_all
  show "0 < c \<Longrightarrow> p \<in> set (take 6 (par c)) \<Longrightarrow> unat p < n" "p \<in> set (drop 6 (par c)) \<Longrightarrow> unat p < n"
    using t c by (auto simp: topological_def dest: order.strict_trans)
qed

lemma aux_column_ok:
  assumes "proving X E par rid n layers k kd nodes enc tau p_aux t_aux" and "unat p < n"
  shows "aux_column X t_aux p = Inr (honest_column par rid layers p)"
  using assms cache_column_honest by (auto simp: proving_def aux_ok_def drg_ok_def aux_column_def)

lemma aux_node_ok:
  assumes "proving X E par rid n layers k kd nodes enc tau p_aux t_aux" and "unat p < n" and "1 \<le> l" "l \<le> layers"
  shows "aux_domain_node_at_layer X t_aux l p = Inr (label_spec par rid l (unat p))"
  using assms by (simp add: proving_def aux_ok_def drg_ok_def aux_domain_node_at_layer_def cache_layer read_label)

lemma layer_proof_ok:
  assumes pr: "proving X E par rid n layers k kd nodes enc tau p_aux t_aux" and c: "0 < c" "c < n" and l: "1 \<le> l" "l \<le> layers"
  shows "layer_proof X E t_aux c l = Some (Inr (honest_labeling_proof par rid l c))"
proof -
  note P = proving_parents [OF pr c(2)]
  have ne: "take 6 (par c) \<noteq> []" using P(4) by auto
  have drg: "collectR (aux_domain_node_at_layer X t_aux l) (take 6 (par c)) = Inr (map (\<lambda>p. label_spec par rid l (unat p)) (take 6 (par c)))"
    by (rule collectR_all_ok) (use aux_node_ok [OF pr _ l] P(6) [OF c(1)] in auto)
  have "parents_data X E t_aux c l = Some (Inr (parent_labels par rid l c))"
  proof (cases "l = 1")
    case True
    then show ?thesis using drg P(1) by (simp add: parents_data_def parent_labels_def)
  next
    case False
    then have l1: "1 \<le> l - 1" "l - 1 \<le> layers" using l by auto
    let ?f = "\<lambda>(i, parent). if i < 6 then aux_domain_node_at_layer X t_aux l parent else aux_domain_node_at_layer X t_aux (l - 1) parent"
    have "collectR ?f (enumerate 0 (take 6 (par c))) = collectR (aux_domain_node_at_layer X t_aux l) (map snd (enumerate 0 (take 6 (par c))))"
      unfolding collectR_map by (rule collectR_cong) (auto simp: in_set_enumerate_eq)
    moreover have "collectR ?f (enumerate 6 (drop 6 (par c))) = collectR (aux_domain_node_at_layer X t_aux (l - 1)) (map snd (enumerate 6 (drop 6 (par c))))"
      unfolding collectR_map by (rule collectR_cong) (auto simp: in_set_enumerate_eq)
    moreover have "collectR (aux_domain_node_at_layer X t_aux (l - 1)) (drop 6 (par c)) =
        Inr (map (\<lambda>p. label_spec par rid (l - 1) (unat p)) (drop 6 (par c)))"
      by (rule collectR_all_ok) (use aux_node_ok [OF pr _ l1] P(7) in auto)
    moreover have "enumerate 0 (take 6 (par c) @ drop 6 (par c)) = enumerate 0 (take 6 (par c)) @ enumerate 6 (drop 6 (par c))"
      using P(4) by (simp only: enumerate_append_eq) simp
    ultimately show ?thesis using False drg l
      unfolding parents_data_def P(3,5) Let_def by (simp add: collectR_append parent_labels_def)
  qed
  moreover have "parent_labels par rid l c \<noteq> []" using ne by (simp add: parent_labels_def)
  ultimately show ?thesis by (simp add: layer_proof_def repeat_parents_def honest_labeling_proof_def)
qed
lemma collectR_opens:
  "(\<And>x. x \<in> set xs \<Longrightarrow> \<exists>y. f x = Inr y \<and> R x y) \<Longrightarrow> \<exists>ys. collectR f xs = Inr ys \<and> list_all2 R xs ys"
proof (induction xs)
  case (Cons x xs)
  obtain y where y: "f x = Inr y" "R x y" using Cons.prems by force
  obtain ys where "collectR f xs = Inr ys" "list_all2 R xs ys" using Cons by (metis list.set_intros(2))
  then show ?case using y by simp
qed simp

definition column_opened ::
  "('f::field, 't, 'p) drg_env \<Rightarrow> (nat \<Rightarrow> u32 list) \<Rightarrow> u8 list \<Rightarrow> nat \<Rightarrow> nat \<Rightarrow> nat \<Rightarrow> u8 list \<Rightarrow> u32 \<Rightarrow> column_proof \<Rightarrow> bool" where
  "column_opened X par rid layers n k root node cp \<longleftrightarrow>
     column_proof_of (de_prims X) (de_arities X) par rid layers n root node cp \<and> mp_canonical (de_arities X) k (cp_inclusion_proof cp)"

lemma column_openings_ok:
  assumes pr: "proving X E par rid n layers k kd nodes enc tau p_aux t_aux" and c: "0 < c" "c < n"
  shows "\<exists>r. column_openings X E t_aux (pa_comm_c p_aux) c = Some (Inr r) \<and>
    column_opened X par rid layers n k (pa_comm_c p_aux) (of_nat c) (rc_c_x r) \<and>
    list_all2 (column_opened X par rid layers n k (pa_comm_c p_aux)) (take 6 (par c)) (rc_drg_parents r) \<and>
    list_all2 (column_opened X par rid layers n k (pa_comm_c p_aux)) (drop 6 (par c)) (rc_exp_parents r)"
proof -
  note P = proving_parents [OF pr c(2)]
  let ?R = "column_opened X par rid layers n k (pa_comm_c p_aux)"
  obtain tc where tc: "tc_tree_c t_aux = Some tc" "tree_root_of (de_tree X) tc = pa_comm_c p_aux"
      "tree_of (de_tree X) (pq_tree_hash (de_prims X)) (de_arities X) k False (map (column_leaf (de_prims X) par rid layers) [0..<n]) tc"
    using pr by (auto simp: proving_def aux_ok_def)
  have AH: "arities_ok (de_arities X)" "merkle_hash (pq_tree_hash (de_prims X))" "hash_nodes (pq_tree_hash (de_prims X))" and n: "n < 2 ^ 32"
    and "fr_ok (de_prims X)" using pr by (auto simp: proving_def drg_ok_def)
  then have N: "\<forall>x\<in>set (map (column_leaf (de_prims X) par rid layers) [0..<n]). length x = 32" by (auto simp: fr_ok_def column_leaf_def)
  let ?open = "into_proof (gen_proof (de_tree X) (de_arities X) tc)"
  have op: "\<exists>cp. ?open (honest_column par rid layers p) = Inr cp \<and> ?R p cp" if pn: "unat p < n" for p
  proof -
    obtain q where "gen_proof (de_tree X) (de_arities X) tc (unat p) = Inr q"
        "opens (pq_tree_hash (de_prims X)) (de_arities X) (map (column_leaf (de_prims X) par rid layers) [0..<n]) (pa_comm_c p_aux) (unat p) q" "mp_canonical (de_arities X) k q"
      using gen_proof_ok(1) [OF tc(3) AH(1,2) _ AH(3) N, of "unat p"] pn tc(2) by auto
    then show ?thesis by (simp add: into_proof_def column_opened_def column_proof_of_def) (simp add: honest_column_def)
  qed
  have uc: "unat (of_nat c :: u32) < n" using c n by (simp add: unat_of_nat)
  obtain cx where cx: "?open (honest_column par rid layers (of_nat c)) = Inr cx" "?R (of_nat c) cx" using op [OF uc] by blast
  have col: "collectR (aux_column X t_aux) ps = Inr (map (honest_column par rid layers) ps)" if "\<forall>p\<in>set ps. unat p < n" for ps
    by (rule collectR_all_ok) (use that aux_column_ok [OF pr] in auto)
  have ol: "\<exists>ys. collectR ?open (map (honest_column par rid layers) ps) = Inr ys \<and> list_all2 ?R ps ys" if "\<forall>p\<in>set ps. unat p < n" for ps
    unfolding collectR_map comp_def by (rule collectR_opens) (use that op in auto)
  have d: "\<forall>p\<in>set (take 6 (par c)). unat p < n" "\<forall>p\<in>set (drop 6 (par c)). unat p < n" using P(6) [OF c(1)] P(7) by auto
  obtain drg where drg: "collectR ?open (map (honest_column par rid layers) (take 6 (par c))) = Inr drg" "list_all2 ?R (take 6 (par c)) drg"
    using ol [OF d(1)] by blast
  obtain exp where exp: "collectR ?open (map (honest_column par rid layers) (drop 6 (par c))) = Inr exp" "list_all2 ?R (drop 6 (par c)) exp"
    using ol [OF d(2)] by blast
  have "column_openings X E t_aux (pa_comm_c p_aux) c = Some (Inr \<lparr>rc_c_x = cx, rc_drg_parents = drg, rc_exp_parents = exp\<rparr>)"
    using P(1,2) tc(1,2) cx(1) drg(1) exp(1) aux_column_ok [OF pr uc] col [OF d(1)] col [OF d(2)]
    by (simp add: column_openings_def expectS_def drg_parents_columns_def exp_parents_columns_def)
  then show ?thesis using cx(2) drg(2) exp(2) by auto
qed

lemma data_replica_openings_ok:
  assumes pr: "proving X E par rid n layers k kd nodes enc tau p_aux t_aux" and c: "c < n"
  shows "\<exists>p. data_opening X t_aux c = Inr p \<and> opens (de_hash_d X) binary_arities nodes (tau_comm_d tau) c p \<and>
      mp_canonical binary_arities kd p"
    and "\<exists>p. replica_opening X t_aux c = Inr p \<and>
      opens (pq_tree_hash (de_prims X)) (de_arities X) (map enc [0..<n]) (pa_comm_r_last p_aux) c p \<and> mp_canonical (de_arities X) k p"
proof -
  obtain td where td: "tc_tree_d t_aux = Some td" "tree_of (de_tree_d X) (de_hash_d X) binary_arities kd False nodes td"
      "tree_root_of (de_tree_d X) td = tau_comm_d tau"
    and tr: "tree_of (de_tree X) (pq_tree_hash (de_prims X)) (de_arities X) k True (map enc [0..<n]) (tc_tree_r_last t_aux)"
      "tree_root_of (de_tree X) (tc_tree_r_last t_aux) = pa_comm_r_last p_aux"
    using pr by (auto simp: proving_def aux_ok_def)
  have D: "arities_ok (de_arities X)" "merkle_hash (pq_tree_hash (de_prims X))" "merkle_hash (de_hash_d X)" "n = 2 ^ kd" "arities_ok binary_arities"
      "hash_nodes (pq_tree_hash (de_prims X))" "hash_nodes (de_hash_d X)" "\<forall>x\<in>set nodes. length x = 32"
    using pr by (auto simp: proving_def drg_ok_def arities_ok_def binary_arities_def nodes_ok_def)
  have "length (enc i) = 32" if "i < n" for i
  proof -
    have "encode (de_prims X) (label_spec par rid layers i) (nodes ! i) = Inr (enc i)" "fr_ok (de_prims X)"
      using pr that by (simp_all add: proving_def drg_ok_def)
    then show ?thesis unfolding encode_def bindR_eq_Inr fr_ok_def by (metis sum.inject(2))
  qed
  then have N: "\<forall>x\<in>set (map enc [0..<n]). length x = 32" by auto
  have "length nodes = leaf_count (levels binary_arities kd)" using td(2) by (simp add: tree_of_def)
  then have "c < length nodes" using c D(4) by (simp add: leaf_count_levels binary_arities_def)
  then show "\<exists>p. data_opening X t_aux c = Inr p \<and> opens (de_hash_d X) binary_arities nodes (tau_comm_d tau) c p \<and> mp_canonical binary_arities kd p"
    using gen_proof_ok(1) [OF td(2) D(5,3) _ D(7,8)] td(1,3) by (auto simp: data_opening_def expectS_def)
  have "c < length (map enc [0..<n])" using c by simp
  then show "\<exists>p. replica_opening X t_aux c = Inr p \<and>
      opens (pq_tree_hash (de_prims X)) (de_arities X) (map enc [0..<n]) (pa_comm_r_last p_aux) c p \<and> mp_canonical (de_arities X) k p"
    using gen_proof_ok(2) [OF tr(1) D(1,2) _ D(6) N TrueI, of c "tc_rows_to_discard t_aux"] tr(2) by (auto simp: replica_opening_def)
qed

fun job_in_run :: "nat \<Rightarrow> nat \<Rightarrow> job \<Rightarrow> bool" where
  "job_in_run m layers (Comm_D_Job i) \<longleftrightarrow> i < m"
| "job_in_run m layers (Comm_R_Job i) \<longleftrightarrow> i < m"
| "job_in_run m layers (Label_Job i l) \<longleftrightarrow> i < m \<and> 1 \<le> l \<and> l \<le> layers"

lemma no_job_fails:
  assumes pr: "proving X E par rid n layers k kd nodes enc tau p_aux t_aux"
    and cs: "\<forall>c\<in>set challenges. 0 < c \<and> c < n" and j: "job_in_run (length challenges) layers j"
  shows "\<not> job_failed X E rid t_aux challenges j"
proof -
  have in_range: "0 < challenges ! i" "challenges ! i < n" if "i < length challenges" for i using cs that by auto
  show ?thesis
  proof (cases j)
    case (Comm_D_Job i)
    then obtain p where "data_opening X t_aux (challenges ! i) = Inr p" "opens (de_hash_d X) binary_arities nodes (tau_comm_d tau) (challenges ! i) p"
      using data_replica_openings_ok(1) [OF pr] in_range j by force
    then show ?thesis by (simp add: job_failed_def Comm_D_Job mp_validate_def opens_def)
  next
    case (Comm_R_Job i)
    then obtain p where "replica_opening X t_aux (challenges ! i) = Inr p"
        "opens (pq_tree_hash (de_prims X)) (de_arities X) (map enc [0..<n]) (pa_comm_r_last p_aux) (challenges ! i) p"
      using data_replica_openings_ok(2) [OF pr] in_range j by force
    then show ?thesis by (simp add: job_failed_def Comm_R_Job mp_validate_def opens_def)
  next
    case (Label_Job i l)
    have l: "i < length challenges" "1 \<le> l" "l \<le> layers" using j Label_Job by auto
    have n: "n < 2 ^ 32" "topological par n" "pq_sha256 (de_prims X) = fips_sha256" using pr by (auto simp: proving_def drg_ok_def)
    let ?c = "challenges ! i"
    have u: "unat (of_nat ?c :: u32) = ?c" using in_range [OF l(1)] n by (simp add: unat_of_nat)
    have "get_node_at_layer (honest_column par rid layers (of_nat ?c)) l = Inr (label_spec par rid l ?c)"
      using honest_column_node [OF l(2,3)] u by simp
    then show ?thesis
      using layer_proof_ok [OF pr in_range [OF l(1)] l(2,3)] aux_column_ok [OF pr, of "of_nat ?c"] u in_range [OF l(1)]
        honest_label [OF n(2) in_range [OF l(1)] n(3), of rid l]
      by (simp add: job_failed_def Label_Job lp_verify_def)
  qed
qed
definition verifies ::
  "('f::field, 't, 'p) drg_env \<Rightarrow> public_params \<Rightarrow> public_inputs \<Rightarrow> graph_env \<Rightarrow> persistent_aux \<Rightarrow> nat \<Rightarrow> porep_proof \<Rightarrow> bool" where
  "verifies X pp pin E p_aux c p \<longleftrightarrow> proof_verify (de_prims X) (de_arities X) pp pin c E p = Some (Inr True) \<and>
     comm_c p = pa_comm_c p_aux \<and> comm_r_last p = pa_comm_r_last p_aux"

lemma labeling_loop_ok:
  assumes "\<And>l. l \<in> set ls \<Longrightarrow> prove l = Some (Inr (f l)) \<and> is_ok (get_node_at_layer (cp_column cx) l) \<and> \<not> failed l"
  shows "labeling_loop prove cx failed ls = Some (Inr (map f ls))"
  using assms
proof (induction ls)
  case (Cons l ls)
  obtain y where "get_node_at_layer (cp_column cx) l = Inr y" using Cons.prems [of l] by (auto simp: is_ok_iff)
  moreover have "labeling_loop prove cx failed ls = Some (Inr (map f ls))" by (rule Cons.IH) (use Cons.prems in auto)
  ultimately show ?case using Cons.prems [of l] by simp
qed simp

lemma prove_challenge_ok:
  assumes pr: "proving X E par rid n layers k kd nodes enc tau p_aux t_aux" and c: "0 < c" "c < n"
    and pin: "pin_tau pin = Some tau" "pin_replica_id pin = rid" and pp: "ppr_num_layers pp = layers"
    and nf: "\<And>l. 1 \<le> l \<Longrightarrow> l \<le> layers \<Longrightarrow> \<not> failed l"
  shows "\<exists>p. prove_challenge X E t_aux (pa_comm_c p_aux) layers failed c = Some (Inr p) \<and> verifies X pp pin E p_aux c p \<and>
    synth_ok (de_arities X) k kd layers (tau_comm_d tau) (pa_comm_c p_aux) (pa_comm_r_last p_aux) p"
proof -
  obtain r where r: "column_openings X E t_aux (pa_comm_c p_aux) c = Some (Inr r)"
    "column_opened X par rid layers n k (pa_comm_c p_aux) (of_nat c) (rc_c_x r)"
    "list_all2 (column_opened X par rid layers n k (pa_comm_c p_aux)) (take 6 (par c)) (rc_drg_parents r)"
    "list_all2 (column_opened X par rid layers n k (pa_comm_c p_aux)) (drop 6 (par c)) (rc_exp_parents r)"
    using column_openings_ok [OF pr c] by blast
  have rp: "column_proof_of (de_prims X) (de_arities X) par rid layers n (pa_comm_c p_aux) (of_nat c) (rc_c_x r)"
    "list_all2 (column_proof_of (de_prims X) (de_arities X) par rid layers n (pa_comm_c p_aux)) (take 6 (par c)) (rc_drg_parents r)"
    "list_all2 (column_proof_of (de_prims X) (de_arities X) par rid layers n (pa_comm_c p_aux)) (drop 6 (par c)) (rc_exp_parents r)"
    using r(2-4) by (auto simp: column_opened_def elim: list_all2_mono)
  obtain pd where pd: "data_opening X t_aux c = Inr pd" "opens (de_hash_d X) binary_arities nodes (tau_comm_d tau) c pd" "mp_canonical binary_arities kd pd"
    using data_replica_openings_ok(1) [OF pr c(2)] by blast
  obtain pl where pl: "replica_opening X t_aux c = Inr pl"
      "opens (pq_tree_hash (de_prims X)) (de_arities X) (map enc [0..<n]) (pa_comm_r_last p_aux) c pl" "mp_canonical (de_arities X) k pl"
    using data_replica_openings_ok(2) [OF pr c(2)] by blast
  have D: "fr_ok (de_prims X)" "pq_sha256 (de_prims X) = fips_sha256" "layers = 2 \<or> layers = 11" "n < 2 ^ 32" "topological par n"
      "env_parents E c = Some (Inr (par c))" "graph_size (ge_graph E) = n"
      "encode (de_prims X) (label_spec par rid layers c) (nodes ! c) = Inr (map enc [0..<n] ! c)"
    using pr c by (auto simp: proving_def drg_ok_def graph_ok_def)
  have "is_ok (get_node_at_layer (cp_column (rc_c_x r)) l)" if "1 \<le> l" "l \<le> layers" for l
    using rp(1) honest_column_node [OF that] by (simp add: column_proof_of_def)
  then have "labeling_loop (layer_proof X E t_aux c) (rc_c_x r) failed [1..<layers + 1] =
      Some (Inr (map (\<lambda>l. honest_labeling_proof par rid l c) [1..<layers + 1]))"
    by (intro labeling_loop_ok) (auto simp: layer_proof_ok [OF pr c] nf)
  note loop = this
  let ?lps = "map (\<lambda>l. honest_labeling_proof par rid l c) [1..<layers + 1]"
  have ne: "?lps \<noteq> []" "last ?lps = honest_labeling_proof par rid layers c" using D(3) by (auto simp: last_map)
  let ?p = "\<lparr>pf_comm_d_proofs = pd, pf_comm_r_last_proof = pl, pf_replica_column_proofs = r, pf_labeling_proofs = ?lps,
      pf_encoding_proof = last ?lps\<rparr>"
  have "prove_challenge X E t_aux (pa_comm_c p_aux) layers failed c = Some (Inr ?p)"
    unfolding prove_challenge_def using c D(7) r(1) pd(1) pl(1) loop ne(1) by simp
  moreover have "proof_verify (de_prims X) (de_arities X) pp pin c E ?p = Some (Inr True)"
    by (rule proof_honest [OF D(1-3) c D(4-7) pp pin, where p = ?p and root = "pa_comm_c p_aux" and root_r = "pa_comm_r_last p_aux"
          and data = nodes and replica = "map enc [0..<n]" and HD = "de_hash_d X" and HR = "pq_tree_hash (de_prims X)"])
      (use rp pd pl D(8) ne(2) in simp_all)
  moreover have "synth_ok (de_arities X) k kd layers (tau_comm_d tau) (pa_comm_c p_aux) (pa_comm_r_last p_aux) ?p"
  proof -
    have n: "unat (of_nat c :: u32) = c" using c D(4) by (simp add: unat_of_nat)
    have len: "length (rc_drg_parents r) = 6" "length (rc_exp_parents r) = 8"
      using list_all2_lengthD [OF r(3)] list_all2_lengthD [OF r(4)] proving_parents(4) [OF pr c(2)] by simp_all
    have col: "column_canonical (de_arities X) k layers cp \<and> cp_root cp = pa_comm_c p_aux"
      if "column_opened X par rid layers n k (pa_comm_c p_aux) q cp" for q cp
      using that by (auto simp: column_canonical_def column_opened_def column_proof_of_def opens_def honest_column_def cp_root_def)
    have cols: "map cp_column cps = map (honest_column par rid layers) ps" "\<forall>cp\<in>set cps. \<exists>q. column_opened X par rid layers n k (pa_comm_c p_aux) q cp"
      if "list_all2 (column_opened X par rid layers n k (pa_comm_c p_aux)) ps cps" for ps cps
      using that by (induction rule: list_all2_induct) (auto simp: column_opened_def column_proof_of_def)
    have x: "cp_column (rc_c_x r) = honest_column par rid layers (of_nat c)" using rp(1) by (simp add: column_proof_of_def)
    have u: "ucast (of_nat c :: u32) = (of_nat c :: u64)" using c D(4) by (simp add: word_unat_eq_iff unsigned_ucast_eq unat_of_nat take_bit_eq_mod)
    have lps: "collectR (\<lambda>i. parts_labeling_proof i (of_nat c) (rc_drg_parents r) (rc_exp_parents r)) [0..<layers] = Inr ?lps"
    proof -
      have "collectR (\<lambda>i. parts_labeling_proof i (of_nat c) (rc_drg_parents r) (rc_exp_parents r)) [0..<layers] =
          Inr (map (\<lambda>i. honest_labeling_proof par rid (i + 1) c) [0..<layers])"
        by (rule collectR_all_ok) (use parts_honest [OF cols(1) [OF r(3)] cols(1) [OF r(4)]] in simp)
      also have "map (\<lambda>i. honest_labeling_proof par rid (i + 1) c) [0..<layers] = ?lps" by (rule nth_equalityI) (simp_all del: upt_Suc)
      finally show ?thesis .
    qed
    have "proof_from_parts pd (rc_c_x r) (rc_drg_parents r) (rc_exp_parents r) pl = Inr ?p"
      using lps ne D(3) x u by (auto simp: proof_from_parts_def Let_def honest_column_def last_conv_nth simp del: upt_Suc)
    moreover have "\<forall>cp\<in>insert (rc_c_x r) (set (rc_drg_parents r @ rc_exp_parents r)).
        column_canonical (de_arities X) k layers cp \<and> cp_root cp = pa_comm_c p_aux"
      using col [OF r(2)] col cols(2) [OF r(3)] cols(2) [OF r(4)] by auto
    ultimately show ?thesis using pd pl rp(1) n len
      by (simp add: synth_ok_def Let_def opens_def column_proof_of_def BASE_DEGREE_def EXP_DEGREE_def)
  qed
  ultimately show ?thesis using rp(1) pl(2)
    by (auto simp: verifies_def comm_c_def comm_r_last_def column_proof_of_def opens_def)
qed

lemma collectO_all:
  "(\<And>x. x \<in> set xs \<Longrightarrow> \<exists>y. f x = Some (Inr y) \<and> R x y) \<Longrightarrow> \<exists>ys. collectO f xs = Some (Inr ys) \<and> list_all2 R xs ys"
proof (induction xs)
  case (Cons x xs)
  obtain y where y: "f x = Some (Inr y)" "R x y" using Cons.prems by force
  obtain ys where "collectO f xs = Some (Inr ys)" "list_all2 R xs ys" using Cons by (metis list.set_intros(2))
  then show ?case using y by simp
qed simp

definition schedule_ok :: "nat \<Rightarrow> nat \<Rightarrow> (nat \<Rightarrow> nat \<Rightarrow> job list) \<Rightarrow> bool" where
  "schedule_ok m layers finished \<longleftrightarrow> (\<forall>i l. \<forall>j\<in>set (finished i l). job_in_run m layers j)"

lemma prove_layers_generate_ok:
  assumes pr: "proving X E par rid n layers k kd nodes enc tau p_aux t_aux"
    and cs: "\<forall>c\<in>set challenges. 0 < c \<and> c < n"
    and pin: "pin_tau pin = Some tau" "pin_replica_id pin = rid" and pp: "ppr_num_layers pp = layers"
    and sch: "schedule_ok (length challenges) layers finished"
  shows "\<exists>ps. prove_layers_generate X E pin (pa_comm_c p_aux) t_aux challenges layers finished = Some (Inr ps) \<and>
    list_all2 (verifies X pp pin E p_aux) challenges ps \<and>
    (\<forall>p\<in>set ps. synth_ok (de_arities X) k kd layers (tau_comm_d tau) (pa_comm_c p_aux) (pa_comm_r_last p_aux) p)"
proof -
  let ?f = "\<lambda>i layer. list_ex (job_failed X E rid t_aux challenges) (finished i layer)"
  have nf: "\<not> ?f i l" for i l
    using sch no_job_fails [OF pr cs] by (auto simp: schedule_ok_def list_ex_iff)
  let ?S = "synth_ok (de_arities X) k kd layers (tau_comm_d tau) (pa_comm_c p_aux) (pa_comm_r_last p_aux)"
  let ?g = "\<lambda>(i, challenge). prove_challenge X E t_aux (pa_comm_c p_aux) layers (?f i) challenge"
  have "\<exists>p. ?g x = Some (Inr p) \<and> verifies X pp pin E p_aux (snd x) p \<and> ?S p" if "x \<in> set (enumerate 0 challenges)" for x
  proof -
    obtain i c where x: "x = (i, c)" by (cases x)
    have "c \<in> set challenges" using that set_zip_rightD unfolding x enumerate_eq_zip by metis
    then show ?thesis using prove_challenge_ok [OF pr _ _ pin pp, where c = c and failed = "?f i"] nf cs unfolding x by simp
  qed
  then obtain ps where ps: "collectO ?g (enumerate 0 challenges) = Some (Inr ps)"
      "list_all2 (\<lambda>x p. verifies X pp pin E p_aux (snd x) p \<and> ?S p) (enumerate 0 challenges) ps"
    using collectO_all [of "enumerate 0 challenges" ?g "\<lambda>x p. verifies X pp pin E p_aux (snd x) p \<and> ?S p"] by blast
  have "list_all2 (verifies X pp pin E p_aux) challenges ps" "\<forall>p\<in>set ps. ?S p"
    using ps(2) by (auto simp: list_all2_conv_all_nth nth_enumerate_eq in_set_conv_nth)
  moreover obtain td where "tc_tree_d t_aux = Some td" "tree_root_of (de_tree_d X) td = tau_comm_d tau" "tc_labels t_aux = label_stores par rid n layers"
    using pr by (auto simp: proving_def aux_ok_def)
  then have "prove_layers_generate X E pin (pa_comm_c p_aux) t_aux challenges layers finished = Some (Inr ps)"
    using ps(1) pin by (simp add: prove_layers_generate_def expectS_def)
  ultimately show ?thesis by blast
qed

lemma checkO_all_True: "(\<And>x. x \<in> set xs \<Longrightarrow> f x = Some (Inr True)) \<Longrightarrow> checkO_all f xs = Some (Inr True)"
  by (induction xs) auto

text \<open>A partition of such proofs passes, when its challenges are the ones of the partition.\<close>

lemma verify_partition_ok:
  assumes ps: "list_all2 (verifies X pp pin (ppr_graph pp) p_aux) challenges ps" and ne: "challenges \<noteq> []"
    and ch: "public_challenges (de_prims X) pr pin (ppr_challenges pp) (graph_size (ge_graph (ppr_graph pp))) (Some k) = Inr challenges"
  shows "verify_partition (de_prims X) pr (de_arities X) pp pin
    (pq_hash2 (de_prims X) (pa_comm_c p_aux) (pa_comm_r_last p_aux)) (k, ps) = Some (Inr True)"
proof -
  have len: "length ps = length challenges" and v: "\<And>i. i < length ps \<Longrightarrow> verifies X pp pin (ppr_graph pp) p_aux (challenges ! i) (ps ! i)"
    using ps by (auto simp: list_all2_conv_all_nth)
  have z: "0 < length ps" using ne len by simp
  have "checkO_all (\<lambda>(i, proof). if comm_c proof \<noteq> comm_c (ps ! 0) \<or> comm_r_last proof \<noteq> comm_r_last (ps ! 0) then Some (Inr False)
      else proof_verify (de_prims X) (de_arities X) pp pin (challenges ! i) (ppr_graph pp) proof) (enumerate 0 ps) = Some (Inr True)"
  proof (rule checkO_all_True)
    fix x assume "x \<in> set (enumerate 0 ps)"
    then have "fst x < length ps" "snd x = ps ! fst x" by (auto simp: in_set_enumerate_eq)
    then show "(case x of (i, proof) \<Rightarrow> if comm_c proof \<noteq> comm_c (ps ! 0) \<or> comm_r_last proof \<noteq> comm_r_last (ps ! 0) then Some (Inr False)
        else proof_verify (de_prims X) (de_arities X) pp pin (challenges ! i) (ppr_graph pp) proof) = Some (Inr True)"
      using v [of "fst x"] v [OF z] by (cases x) (simp add: verifies_def)
  qed
  then show ?thesis using v [OF z] z ch len by (simp add: verify_partition_def Let_def verifies_def)
qed
section \<open>An instance\<close>

text \<open>
  A crate of binary trees of \<open>2 ^ k\<close> leaves that satisfies the documented behaviour: a tree is
  its leaves, a store their bytes, a proof the leaf, the root and the honest path.
\<close>

definition toy_root :: "u8 list node_hash \<Rightarrow> nat \<Rightarrow> u8 list list \<Rightarrow> u8 list" where
  "toy_root H k leaves = projr (tree_root H (levels binary_arities k) leaves)"

definition toy_gen ::
  "u8 list node_hash \<Rightarrow> nat \<Rightarrow> u8 list list \<Rightarrow> nat \<Rightarrow> (u8 list \<times> u8 list \<times> (u8 list list \<times> nat) list) res" where
  "toy_gen H k leaves i = Inr (leaves ! i, toy_root H k leaves, projr (honest_path H (levels binary_arities k) leaves i))"

definition toy_open :: "u8 list option \<Rightarrow> u8 list res" where
  "toy_open f = (case f of None \<Rightarrow> Inl (Fail ''no such file'') | Some f \<Rightarrow> Inr f)"

definition toy_crate :: "u8 list node_hash \<Rightarrow> nat \<Rightarrow> (u8 list list, u8 list \<times> u8 list \<times> (u8 list list \<times> nat) list) tree_crate" where
  "toy_crate H k = \<lparr>get_merkle_tree_len = (\<lambda>n a. Inr (2 * n - 1)), get_merkle_tree_leafs = (\<lambda>len a. Inr ((len + 1) div 2)),
     is_merkle_tree_size_valid = (\<lambda>n a. True), new_from_disk = (\<lambda>m a f. toy_open f),
     new_from_disk_with_reader = (\<lambda>m a c f. toy_open f), read_at = (\<lambda>f i. Inr (node_at f i)),
     read_range = (\<lambda>f i j. Inr (map (node_at f) [i..<j])), store_len = (\<lambda>f. length f div 32),
     from_par_iter_with_config = (\<lambda>A c leaves. Inr (concat leaves, leaves)),
     from_data_store = (\<lambda>A s n r. Inr (map (node_at s) [0..<n])),
     from_store_configs = (\<lambda>A n fs r. Inl (Fail ''no sub-trees'')),
     from_sub_tree_store_configs = (\<lambda>A n fs r. Inl (Fail ''no sub-trees'')),
     tree_root_of = toy_root H k, tree_len = (\<lambda>t. 2 * length t - 1), inner_gen_proof = toy_gen H k,
     inner_gen_cached_proof = (\<lambda>t i r. toy_gen H k t i),
     proof_ops_of = \<lparr>po_root = (\<lambda>p. fst (snd p)), po_item = fst,
       po_lemma = (\<lambda>(leaf, root, path). leaf # concat (map fst path) @ [root]), po_path = (\<lambda>p. map snd (snd (snd p))),
       po_sub_tree_proof = (\<lambda>_. None), po_top_layer_nodes = (\<lambda>_. 0), po_sub_layer_nodes = (\<lambda>_. 0)\<rparr>\<rparr>"

lemma toy_tree_of:
  assumes H: "merkle_hash H" "\<And>xs h. \<exists>y. H xs h = Inr y" "hash_nodes H" and L: "nodes_ok (2 ^ k) leaves"
  shows "tree_of (toy_crate H k) H binary_arities k b leaves leaves"
proof -
  let ?ls = "levels binary_arities k"
  have A: "arities_ok binary_arities" "\<forall>l\<in>set ?ls. fst l = 2" "\<forall>l\<in>set ?ls. 0 < fst l"
    by (auto simp: arities_ok_def binary_arities_def levels_def)
  have n: "length leaves = leaf_count ?ls" and N: "\<forall>x\<in>set leaves. length x = 32"
    using L by (simp_all add: leaf_count_levels binary_arities_def nodes_ok_def)
  obtain r where r: "tree_root H ?ls leaves = Inr r" using tree_root_total [of H leaves ?ls] H(2) n A(3) by blast
  have "\<exists>path. honest_path H ?ls leaves i = Inr path \<and>
      represents (proof_ops_of (toy_crate H k)) binary_arities (leaves ! i, r, path) (leaves ! i) r path" if i: "i < length leaves" for i
  proof -
    obtain path where p: "honest_path H ?ls leaves i = Inr path"
      using merkle_hash.honest_path_verifies [OF H(1) A(3) n r, of i 0] i n by auto
    have "map fst ?ls = replicate k 2" by (simp add: levels_bits [OF binary_bits(1)] binary_bits(2) map_replicate_const)
    then have "list_all2 (\<lambda>(sibs, j) a. length sibs = a - 1 \<and> j < a \<and> (\<forall>x\<in>set sibs. length x = 32)) path (replicate k 2)"
      using honest_path_siblings [OF p A(3) n _ H(3) N] i n by simp
    then have "\<forall>j<length path. length (fst (path ! j)) = 1" by (simp add: list_all2_conv_all_nth split_beta)
    then have "\<forall>e\<in>set path. length (fst e) = 1" by (metis in_set_conv_nth)
    then show ?thesis using p by (simp add: represents_def level_repr_def toy_crate_def binary_arities_def)
  qed
  then show ?thesis using r n by (fastforce simp: tree_of_def toy_crate_def toy_root_def toy_gen_def)
qed

lemma node_at_concat: "nodes_ok n nodes \<Longrightarrow> map (node_at (concat nodes)) [0..<n] = nodes"
proof (rule nth_equalityI)
  assume a: "nodes_ok n nodes"
  show "length (map (node_at (concat nodes)) [0..<n]) = length nodes" using a by (simp add: nodes_ok_def)
  fix i assume "i < length (map (node_at (concat nodes)) [0..<n])"
  then have i: "i < n" by simp
  have "node_at (concat nodes) i = nodes ! i"
    using data_at_concat [OF a i] i a length_concat_nodes [of nodes 32]
    by (simp add: data_at_node_def data_at_node_offset_def NODE_SIZE_def node_at_def nodes_ok_def mult.commute slice_def split: if_splits)
  then show "map (node_at (concat nodes)) [0..<n] ! i = nodes ! i" using i by simp
qed

lemma toy_crate_ok:
  assumes H: "merkle_hash H" "\<And>xs h. \<exists>y. H xs h = Inr y" "hash_nodes H"
  shows "crate_ok (toy_crate H k) H binary_arities k (2 * 2 ^ k - 1)" and "store_ok (toy_crate H k)"
proof -
  have b: "base_arity binary_arities = 2" "sub_tree_arity binary_arities = 0" "top_tree_arity binary_arities = 0" "tree_count binary_arities = 1"
    by (simp_all add: binary_arities_def tree_count_def)
  have t: "tree_of (toy_crate H k) H binary_arities k c leaves leaves" if "nodes_ok (2 ^ k) leaves" for c leaves
    using that by (intro toy_tree_of [OF H])
  have s: "\<exists>t. from_stores (toy_crate H k) binary_arities (2 * 2 ^ k - 1) (2 ^ k) cfgs stores rep = Inr t \<and>
      tree_of (toy_crate H k) H binary_arities k (rep \<noteq> None) (concat leavess) t"
    if st: "length leavess = 1" "\<forall>ls\<in>set leavess. nodes_ok (2 ^ k) ls" "stored (toy_crate H k) binary_arities cfgs leavess stores"
    for cfgs leavess stores rep
  proof -
    obtain ls where ls: "leavess = [ls]" using st(1) by (auto simp: length_Suc_conv)
    then have "stores ! 0 = concat ls" using st(3) by (simp add: stored_def toy_crate_def)
    then have "from_stores (toy_crate H k) binary_arities (2 * 2 ^ k - 1) (2 ^ k) cfgs stores rep = Inr ls"
      using st(2) node_at_concat [of "2 ^ k" ls] ls b
      by (simp add: from_stores_def toy_crate_def toy_open_def split: option.split)
    then show ?thesis using t [of ls] st(2) ls by simp
  qed
  have "(2 * 2 ^ k - 1 + 1) div 2 = (2 ^ k :: nat)" by simp
  then show "crate_ok (toy_crate H k) H binary_arities k (2 * 2 ^ k - 1)"
    unfolding crate_ok_def Let_def b using t s
    by (intro conjI allI impI) (auto simp: toy_crate_def nodes_ok_def)
  show "store_ok (toy_crate H k)" by (simp add: store_ok_def toy_crate_def toy_open_def)
qed
section \<open>Sealing and unsealing\<close>

text \<open>The setting of the properties: a graph with a parent cache that is generated, and the environment.\<close>

definition sealing :: "('f::field, 't, 'p) drg_env \<Rightarrow> cache_env \<Rightarrow> graph_env \<Rightarrow> nat \<Rightarrow> nat \<Rightarrow> nat \<Rightarrow> bool" where
  "sealing X S E n k kd \<longleftrightarrow>
     (\<exists>sha porep_id v. stacked_graph_new sha None n BASE_DEGREE EXP_DEGREE porep_id v = Some (Inr (ge_graph E))) \<and>
     log2_bounded (ge_log2_ceil E) \<and> is_ok (graph_parent_cache S E) \<and> ca_file S = None \<and> 0 < ca_size S \<and> drg_ok X n k kd"

lemma sealing_facts:
  assumes "sealing X S E n k kd"
  obtains par pc fl where "topological par n" "\<forall>i<n. env_parents E i = Some (Inr (par i))" "cache_ok par n pc"
    "graph_ok (ge_graph E) n" "graph_parent_cache S E = Inr (pc, fl)" "n < 2 ^ 32"
proof -
  obtain sha porep_id v where g: "stacked_graph_new sha None n BASE_DEGREE EXP_DEGREE porep_id v = Some (Inr (ge_graph E))"
    and s: "log2_bounded (ge_log2_ceil E)" "is_ok (graph_parent_cache S E)" "ca_file S = None" "0 < ca_size S" "drg_ok X n k kd"
    using assms by (auto simp: sealing_def)
  have n: "n < 2 ^ 32" and "n = 2 ^ kd" using s(5) by (simp_all add: drg_ok_def)
  then have n0: "0 < n" by simp
  have ok: "graph_ok (ge_graph E) n" using stacked_graph_new_ok [OF n, of sha porep_id v] g by auto
  then have sz: "graph_size (ge_graph E) = n" by (simp add: graph_ok_def)
  obtain pc fl where pc: "graph_parent_cache S E = Inr (pc, fl)" using s(2) by (auto simp: is_ok_iff)
  then have "generate (ca_sha256 S) (ca_manifest S) (graph_parents E) n (min n (ca_size S)) n = Inr (pc, fl)"
    using s(3) sz by (simp add: graph_parent_cache_def parent_cache_new_def Let_def)
  then obtain par where "topological par n" "\<forall>i<n. env_parents E i = Some (Inr (par i))" "cache_ok par n pc"
    using sdr_setting [OF g n s(1), of "ca_sha256 S" "ca_manifest S" "min n (ca_size S)" pc fl] s(4) n0 by auto
  then show thesis using that ok pc n by blast
qed

lemma phase1_ok:
  assumes top: "topological par n" "n < 2 ^ 32" and g: "graph_ok (ge_graph E) n" and c: "cache_ok par n pc"
    and pc: "graph_parent_cache S E = Inr (pc, fl)" and rid: "length rid = 32" and pp: "ppr_graph pp = E" "ppr_num_layers pp = layers"
    and fresh: "\<forall>l. d (Data_File (label_layer l)) = None"
  shows "\<exists>d'. replicate_phase1 S pp rid d = Some (Inr (d', map (label_config E) (map label_layer [1..<layers + 1]))) \<and>
    (\<forall>l\<in>{1..layers}. d' (Data_File (label_layer l)) = Some (layer_bytes par rid n l))"
proof -
  have sz: "graph_size (ge_graph E) = n" using g by (simp add: graph_ok_def)
  have r: "resumable par rid n (layers + 1) d" using fresh by (simp add: resumable_def)
  obtain d' pc' states where "create_labels_for_encoding E pc layers rid d = Some (Inr (d', pc', map label_layer [1..<layers + 1], states))"
      "\<forall>l\<in>{1..layers}. d' (Data_File (label_layer l)) = Some (layer_bytes par rid n l)"
    using create_labels_encoding_ok [OF top rid sz c r] by blast
  then show ?thesis using pc pp by (simp add: replicate_phase1_def generate_labels_for_encoding_def del: upt_Suc map_map)
qed

lemma unseal_ok:
  assumes D: "drg_ok X n k kd" and top: "topological par n" and g: "graph_ok (ge_graph E) n" and c: "cache_ok par n pc"
    and pc: "graph_parent_cache S E = Inr (pc, fl)" and rid: "length rid = 32" and l: "0 < layers"
    and N: "nodes_ok n nodes" and canon: "\<And>i. i < n \<Longrightarrow> \<exists>v. into_fr (de_prims X) (nodes ! i) = Inr v \<and> pq_of_fr (de_prims X) v = nodes ! i"
    and enc: "\<And>i. i < n \<Longrightarrow> encode (de_prims X) (label_spec par rid layers i) (nodes ! i) = Inr (enc i) \<and> length (enc i) = 32"
  shows "\<exists>d'. extract_and_invert_transform_layers X S E layers rid (concat (map enc [0..<n])) id' d = Some (Inr (d', concat nodes))"
proof -
  have sz: "graph_size (ge_graph E) = n" and n: "n < 2 ^ 32" using g by (auto simp: graph_ok_def)
  have S: "store_ok (de_tree X)" and F: "fr_ok (de_prims X)" using D by (auto simp: drg_ok_def)
  obtain d' pc' where dec: "create_labels_for_decoding E pc layers rid id' d = Some (Inr (d', pc', label_stores par rid n layers))"
    using create_labels_decoding_ok [OF top n rid sz c, of layers id' d] unfolding label_stores_def by blast
  have keys: "read_range (de_tree X) (layer_bytes par rid n layers) 0 (store_len (de_tree X) (layer_bytes par rid n layers)) =
      Inr (map (label_spec par rid layers) [0..<n])"
  proof -
    have "store_len (de_tree X) (layer_bytes par rid n layers) = n" using S by (simp add: store_ok_def)
    then show ?thesis using read_labels [OF S, of 0 n n] by simp
  qed
  have ch: "chunks 32 (concat (map enc [0..<n])) = map enc [0..<n]" using enc by (intro chunks_concat) auto
  let ?f = "\<lambda>(key, encoded_node_bytes). if length encoded_node_bytes = NODE_SIZE then decode (de_prims X) key encoded_node_bytes
          else Inl (Fail ''invalid amount of bytes'')"
  have d: "decode (de_prims X) (label_spec par rid layers i) (enc i) = Inr (nodes ! i)" if i: "i < n" for i
  proof -
    obtain v where v: "into_fr (de_prims X) (nodes ! i) = Inr v" "pq_of_fr (de_prims X) v = nodes ! i" using canon [OF i] by blast
    then have "enc i = pq_of_fr (de_prims X) (encode_fr (fr_of (de_prims X) (label_spec par rid layers i)) v)"
      using enc [OF i] into_fr_label [OF F] by (simp add: encode_def)
    then show ?thesis using v into_of_fr [OF F] into_fr_label [OF F] by (simp add: decode_def encode_fr_def)
  qed
  have "collectR ?f (zip (map (label_spec par rid layers) [0..<n]) (map enc [0..<n])) = Inr (map ((!) nodes) [0..<n])"
    using collectR_zip [of "map (label_spec par rid layers) [0..<n]" "map enc [0..<n]" ?f "(!) nodes"] d enc by (simp add: NODE_SIZE_def)
  moreover have "map ((!) nodes) [0..<n] = nodes" using N map_nth [of nodes] by (simp add: nodes_ok_def)
  moreover have "length (concat (map enc [0..<n])) = length (concat nodes)"
    using length_concat_nodes [of "map enc [0..<n]" 32] length_concat_nodes [of nodes 32] enc N by (auto simp: nodes_ok_def)
  ultimately show ?thesis
    using pc dec keys ch l cache_last_layer [OF l, of par rid n]
    by (simp add: extract_and_invert_transform_layers_def generate_labels_for_decoding_def NODE_SIZE_def)
qed

lemma encodable:
  assumes "fr_ok P" and "is_ok (into_fr P x)"
  shows "\<exists>e. encode P (label_spec par rid l i) x = Inr e \<and> length e = 32"
  using assms into_fr_label [OF assms(1)] by (auto simp: is_ok_iff encode_def fr_ok_def)

text \<open>Both phases of replication of the nodes of a sector, from a disk without layers.\<close>

lemma seal_ok:
  assumes s: "sealing X S E n k kd" and l: "layers = 2 \<or> layers = 11" and rid: "length rid = 32"
    and pp: "ppr_graph pp = E" "ppr_num_layers pp = layers" and N: "nodes_ok n nodes" and fr: "\<forall>x\<in>set nodes. is_ok (into_fr (de_prims X) x)"
    and fresh: "\<forall>l. d (Data_File (label_layer l)) = None"
  obtains par pc fl enc d1 labels d2 tau p_aux t_aux tc where
    "topological par n" "graph_ok (ge_graph E) n" "cache_ok par n pc" "graph_parent_cache S E = Inr (pc, fl)"
    "\<forall>i<n. encode (de_prims X) (label_spec par rid layers i) (nodes ! i) = Inr (enc i) \<and> length (enc i) = 32"
    "replicate_phase1 S pp rid d = Some (Inr (d1, labels))"
    "replicate_phase2 X pp labels (concat nodes) None d1 = Inr (concat (map enc [0..<n]), d2, tau, p_aux, t_aux)"
    "temporary_aux_cache_new X t_aux (concat (map enc [0..<n])) False d2 = Inr tc"
    "proving X E par rid n layers k kd nodes enc tau p_aux tc"
    "tree_stored (de_tree X) (de_arities X) k (ta_tree_r_last_config t_aux) (map enc [0..<n]) d2"
    "r_last_config (de_tree X) (de_arities X) (de_rows X) (de_rows_to_discard X) k (ta_tree_r_last_config t_aux)"
proof -
  have D: "drg_ok X n k kd" using s by (simp add: sealing_def)
  then have F: "fr_ok (de_prims X)" by (simp add: drg_ok_def)
  obtain par pc fl where f: "topological par n" "\<forall>i<n. env_parents E i = Some (Inr (par i))" "cache_ok par n pc"
    "graph_ok (ge_graph E) n" "graph_parent_cache S E = Inr (pc, fl)" "n < 2 ^ 32" by (rule sealing_facts [OF s])
  have sz: "graph_size (ge_graph E) = n" using f(4) by (simp add: graph_ok_def)
  have "\<exists>e. encode (de_prims X) (label_spec par rid layers i) (nodes ! i) = Inr e \<and> length e = 32" if "i < n" for i
    using encodable [OF F] fr N that by (simp add: nodes_ok_def)
  then obtain enc where enc: "\<And>i. i < n \<Longrightarrow> encode (de_prims X) (label_spec par rid layers i) (nodes ! i) = Inr (enc i) \<and> length (enc i) = 32"
    by metis
  obtain d1 where d1: "replicate_phase1 S pp rid d = Some (Inr (d1, map (label_config E) (map label_layer [1..<layers + 1])))"
      "\<forall>l\<in>{1..layers}. d1 (Data_File (label_layer l)) = Some (layer_bytes par rid n l)"
    using phase1_ok [OF f(1,6,4,3,5) rid pp fresh] by blast
  obtain d2 tau p_aux t_aux tc where r: "transform_and_replicate_layers X n layers (concat nodes) None
        (map (label_config E) (map label_layer [1..<layers + 1])) d1 = Inr (concat (map enc [0..<n]), d2, tau, p_aux, t_aux)"
      "temporary_aux_cache_new X t_aux (concat (map enc [0..<n])) False d2 = Inr tc"
      "aux_ok X par rid n layers k kd nodes (map enc [0..<n]) tau p_aux tc"
      "tree_stored (de_tree X) (de_arities X) k (ta_tree_r_last_config t_aux) (map enc [0..<n]) d2"
      "r_last_config (de_tree X) (de_arities X) (de_rows X) (de_rows_to_discard X) k (ta_tree_r_last_config t_aux)"
    using replicate_ok [OF D l sz d1(2) N enc] by blast
  have "proving X E par rid n layers k kd nodes enc tau p_aux tc" using D l f r(3) enc N by (simp add: proving_def)
  moreover have "replicate_phase2 X pp (map (label_config E) (map label_layer [1..<layers + 1])) (concat nodes) None d1 =
      Inr (concat (map enc [0..<n]), d2, tau, p_aux, t_aux)"
    using r(1) unfolding replicate_phase2_def pp sz .
  ultimately show thesis by (intro that [OF f(1,4,3,5) _ d1(1) _ r(2) _ r(4,5)] allI impI enc)
qed
definition toy_drg :: "(toy_fr, u8 list list, u8 list \<times> u8 list \<times> (u8 list list \<times> nat) list) drg_env" where
  "toy_drg = \<lparr>de_prims = toy_prims, de_tree = toy_crate (sha256_multi_node toy_sum) 2, de_tree_d = toy_crate (sha256_multi_node toy_sum) 2,
     de_hash_d = sha256_multi_node toy_sum, de_arities = binary_arities, de_cpus = 3, de_rows = (\<lambda>_ _. 1), de_rows_to_discard = 0\<rparr>"

definition toy_cache_env :: cache_env where
  "toy_cache_env = \<lparr>ca_sha256 = toy_digest, ca_manifest = None, ca_verify = False, ca_size = 3, ca_file = None\<rparr>"

lemma toy_sealing: "sealing toy_drg toy_cache_env toy_env 4 2 2"
proof -
  have H: "merkle_hash (sha256_multi_node toy_sum)" by (rule sha256_tree.merkle_hash_axioms)
  have A: "arities_ok binary_arities" "base_arity binary_arities = 2" "tree_count binary_arities = 1"
    by (simp_all add: arities_ok_def binary_arities_def tree_count_def)
  have "length (toy_sum xs) = 32" for xs by (simp add: toy_sum_def)
  then have N: "hash_nodes (sha256_multi_node toy_sum)" by (auto simp: hash_nodes_def sha256_multi_node_def trim_to_fr32_def)
  have "drg_ok toy_drg 4 2 2"
    using toy_crate_ok [OF H toy_hash(2) N, of 2] toy_prims_ok H N A
    by (auto simp: drg_ok_def toy_drg_def) (auto simp: toy_prims_def)
  moreover have "graph_ok (ge_graph toy_env) 4"
    using stacked_graph_new_ok [of 4 "\<lambda>_. replicate 32 1" "[]" V1_2_0] toy_env_ok(1) by auto
  then have "is_ok (graph_parent_cache toy_cache_env toy_env)"
    using toy_cache by (auto simp: graph_parent_cache_def toy_cache_env_def parent_cache_new_def graph_ok_def is_ok_iff)
  ultimately show ?thesis using toy_env_ok by (auto simp: sealing_def toy_cache_env_def)
qed

lemma toy_data_ok: "nodes_ok 4 toy_data" "\<forall>x\<in>set toy_data. \<exists>v. into_fr toy_prims x = Inr v \<and> pq_of_fr toy_prims v = x"
  by (auto simp: nodes_ok_def toy_data_def toy_of_fr_def into_fr_def toy_prims_def toy_to_fr_def)

section \<open>Properties\<close>

text \<open>
  C4. Unsealing inverts sealing: after both phases of replication of a sector whose nodes are
  field elements, over any trees that behave as documented and any number of threads, the
  extraction from the replica regenerates the labels and gives the sector back.
\<close>

theorem unseal_replica:
  assumes "sealing X S E n k kd" and "layers = 2 \<or> layers = 11" and "length rid = 32" and "nodes_ok n nodes"
    and "\<forall>x\<in>set nodes. \<exists>v. into_fr (de_prims X) x = Inr v \<and> pq_of_fr (de_prims X) v = x"
    and "\<forall>l. d (Data_File (label_layer l)) = None"
  shows "\<exists>d1 labels replica d2 tau p_aux t_aux d3.
    replicate_phase1 S \<lparr>ppr_graph = E, ppr_challenges = cs, ppr_num_layers = layers\<rparr> rid d = Some (Inr (d1, labels)) \<and>
    replicate_phase2 X \<lparr>ppr_graph = E, ppr_challenges = cs, ppr_num_layers = layers\<rparr> labels (concat nodes) None d1 =
      Inr (replica, d2, tau, p_aux, t_aux) \<and>
    extract_and_invert_transform_layers X S E layers rid replica id' d2 = Some (Inr (d3, concat nodes))"
proof -
  let ?pp = "\<lparr>ppr_graph = E, ppr_challenges = cs, ppr_num_layers = layers\<rparr>"
  have D: "drg_ok X n k kd" using assms(1) by (simp add: sealing_def)
  have l0: "0 < layers" using assms(2) by auto
  have fr: "\<forall>x\<in>set nodes. is_ok (into_fr (de_prims X) x)" using assms(5) by (auto simp: is_ok_iff)
  have canon: "\<exists>v. into_fr (de_prims X) (nodes ! i) = Inr v \<and> pq_of_fr (de_prims X) v = nodes ! i" if "i < n" for i
    using assms(4,5) that by (simp add: nodes_ok_def)
  have pp: "ppr_graph ?pp = E" "ppr_num_layers ?pp = layers" by simp_all
  obtain par pc fl enc d1 labels d2 tau p_aux t_aux tc where s:
    "topological par n" "graph_ok (ge_graph E) n" "cache_ok par n pc" "graph_parent_cache S E = Inr (pc, fl)"
    "\<forall>i<n. encode (de_prims X) (label_spec par rid layers i) (nodes ! i) = Inr (enc i) \<and> length (enc i) = 32"
    "replicate_phase1 S ?pp rid d = Some (Inr (d1, labels))"
    "replicate_phase2 X ?pp labels (concat nodes) None d1 = Inr (concat (map enc [0..<n]), d2, tau, p_aux, t_aux)"
    "temporary_aux_cache_new X t_aux (concat (map enc [0..<n])) False d2 = Inr tc"
    "proving X E par rid n layers k kd nodes enc tau p_aux tc"
    "tree_stored (de_tree X) (de_arities X) k (ta_tree_r_last_config t_aux) (map enc [0..<n]) d2"
    "r_last_config (de_tree X) (de_arities X) (de_rows X) (de_rows_to_discard X) k (ta_tree_r_last_config t_aux)"
    by (rule seal_ok [OF assms(1-3) pp assms(4) fr assms(6)])
  show ?thesis using unseal_ok [OF D s(1-4) assms(3) l0 assms(4) canon s(5) [rule_format], of id' d2] s(6,7) by blast
qed

theorem unseal_replica_witness:
  "\<exists>d1 labels replica d2 tau p_aux t_aux d3.
    replicate_phase1 toy_cache_env toy_params (replicate 32 9) (\<lambda>_. None) = Some (Inr (d1, labels)) \<and>
    replicate_phase2 toy_drg toy_params labels (concat toy_data) None d1 = Inr (replica, d2, tau, p_aux, t_aux) \<and>
    extract_and_invert_transform_layers toy_drg toy_cache_env toy_env 2 (replicate 32 9) replica ''x'' d2 = Some (Inr (d3, concat toy_data))"
proof -
  have l: "(2::nat) = 2 \<or> (2::nat) = 11" "length (replicate 32 (9::u8)) = 32" by simp_all
  have p: "de_prims toy_drg = toy_prims" by (simp add: toy_drg_def)
  show ?thesis unfolding toy_params_def
    by (rule unseal_replica [OF toy_sealing l toy_data_ok(1) toy_data_ok(2) [folded p]]) simp
qed
end
