(* ===== verification/Porep_Scheme.thy ===== *)
theory Porep_Scheme
  imports Stacked_Drg
begin

text \<open>
  The proof scheme of the stacked PoRep: \<open>prove_layers\<close> and the synthetic proofs on disk of
  \<open>storage-proofs-porep/src/stacked/vanilla/proof.rs\<close>, and \<open>proof_scheme.rs\<close>. The schedule of the
  jobs of the thread pool is given for every partition.
\<close>

section \<open>The code\<close>

subsection \<open>Synthetic proofs on disk\<close>

definition synth_proofs_path :: file_name where
  "synth_proofs_path = Named_File ''syn-porep-vanilla-proofs.dat''"

text \<open>All jobs of the scope have run when it ends; a panic of one of them is the outcome.\<close>

definition write_synth_proofs ::
  "('f::field, 't, 'p) drg_env \<Rightarrow> prims \<Rightarrow> porep_proof list \<Rightarrow> public_inputs \<Rightarrow> graph_env \<Rightarrow> nat \<Rightarrow> nat \<Rightarrow> disk \<Rightarrow> disk res option" where
  "write_synth_proofs X pr synth_proofs pub_inputs E challenges num_layers d =
     (case pin_tau pub_inputs of
        None \<Rightarrow> Some (Inl (Fail ''comm_r must be set prior to generating synthetic challenges''))
      | Some tau \<Rightarrow>
          let P = de_prims X; pub_params = \<lparr>ppr_graph = E, ppr_challenges = Synth challenges, ppr_num_layers = num_layers\<rparr> in
          bindO (Some (into_fr P (pin_replica_id pub_inputs))) (\<lambda>replica_id.
          bindO (Some (into_fr P (tau_comm_r tau))) (\<lambda>comm_r.
          bindO (Some (synth_default pr (pq_of_fr P) (graph_size (ge_graph E)) replica_id comm_r)) (\<lambda>synth_challenges.
          if length synth_proofs \<noteq> num_synth_challenges synth_challenges
          then Some (Inl (Fail ''Mismatched synth porep proofs for the required challenge set''))
          else bindO (Some (synth_collect synth_challenges)) (\<lambda>cs.
               bindO (collectO (\<lambda>(challenge, proof). proof_verify P (de_arities X) pub_params pub_inputs challenge E proof) (zip cs synth_proofs)) (\<lambda>valid.
               if \<not> list_all id valid then Some (Inl (Fail ''Invalid synth_porep proof generated''))
               else bindO (Some (synth_write (de_arities X) synth_proofs)) (\<lambda>bytes.
                    Some (Inr (d(synth_proofs_path \<mapsto> bytes))))))))))"

definition read_porep_proofs_from_synth ::
  "('f::field, 't, 'p) drg_env \<Rightarrow> prims \<Rightarrow> nat \<Rightarrow> public_inputs \<Rightarrow> nat \<Rightarrow> nat \<Rightarrow> nat \<Rightarrow> disk \<Rightarrow> porep_proof list list res" where
  "read_porep_proofs_from_synth X pr sector_nodes pub_inputs challenges num_layers partition_count d =
     (case pin_seed pub_inputs of
        None \<Rightarrow> Inl (Fail ''porep challenge seed must be set prior to reading porep proofs from synthetic'')
      | Some seed \<Rightarrow>
     (case pin_tau pub_inputs of
        None \<Rightarrow> Inl (Fail ''comm_r must be set prior to generating synthetic porep challenges'')
      | Some tau \<Rightarrow>
     (case d synth_proofs_path of
        None \<Rightarrow> Inl (Fail ''failed to open synthetic vanilla proofs file'')
      | Some file_bytes \<Rightarrow>
          let P = de_prims X in
          collectR (\<lambda>k.
            bindR (into_fr P (pin_replica_id pub_inputs)) (\<lambda>replica_id.
            bindR (into_fr P (tau_comm_r tau)) (\<lambda>comm_r.
            bindR (synth_derive_indexes pr (pq_of_fr P) challenges sector_nodes replica_id comm_r seed k) (\<lambda>synth_indexes.
            synth_read (de_arities X) file_bytes sector_nodes num_layers synth_indexes))))
            [0..<partition_count mod 256])))"

subsection \<open>Proving\<close>

definition prove_layers ::
  "('f::field, 't, 'p) drg_env \<Rightarrow> prims \<Rightarrow> graph_env \<Rightarrow> public_inputs \<Rightarrow> persistent_aux \<Rightarrow> 't temporary_aux_cache \<Rightarrow> challenges \<Rightarrow> nat \<Rightarrow>
   nat \<Rightarrow> (nat \<Rightarrow> nat \<Rightarrow> nat \<Rightarrow> job list) \<Rightarrow> disk \<Rightarrow> (disk \<times> porep_proof list list) res option" where
  "prove_layers X pr E pub_inputs p_aux t_aux challenges num_layers partition_count finished d =
     (let P = de_prims X; n = graph_size (ge_graph E); rid = pin_replica_id pub_inputs;
          generate = (\<lambda>derive k. bindO (Some (derive (k mod 256))) (\<lambda>challenge_positions.
            prove_layers_generate X E pub_inputs (pa_comm_c p_aux) t_aux challenge_positions num_layers (finished k))) in
      if num_layers = 0 then Some (Inl (Panic ''assertion failed''))
      else case pin_tau pub_inputs of
        None \<Rightarrow> Some (Inl (Panic ''assertion failed''))
      | Some tau \<Rightarrow>
     (case challenges of
        Interactive m \<Rightarrow>
          (case pin_seed pub_inputs of
             None \<Rightarrow> Some (Inl (Panic ''seed must be set for interactive vanilla proofs''))
           | Some seed \<Rightarrow> bindO (collectO (generate (interactive_derive (pq_sha256 P) m n rid seed)) [0..<partition_count]) (\<lambda>proofs.
                            Some (Inr (d, proofs))))
      | Synth m \<Rightarrow>
          (case pin_seed pub_inputs of
             None \<Rightarrow>
               bindO (Some (into_fr P rid)) (\<lambda>replica_id. bindO (Some (into_fr P (tau_comm_r tau))) (\<lambda>comm_r.
               bindO (Some (derive_synthetic pr (pq_of_fr P) n replica_id comm_r)) (\<lambda>challenge_positions.
               bindO (prove_layers_generate X E pub_inputs (pa_comm_c p_aux) t_aux challenge_positions num_layers (finished 0)) (\<lambda>synth_proofs.
               bindO (write_synth_proofs X pr synth_proofs pub_inputs E m num_layers d) (\<lambda>d'.
               Some (Inr (d', replicate partition_count [])))))))
           | Some seed \<Rightarrow> Some (bindR (read_porep_proofs_from_synth X pr n pub_inputs m num_layers partition_count d) (\<lambda>proofs. Inr (d, proofs))))
      | Ni m \<Rightarrow>
          bindO (collectO (generate (ni_derive (pq_sha256 P) m n rid (tau_comm_r tau))) [0..<partition_count]) (\<lambda>proofs.
          Some (Inr (d, proofs)))))"

definition scheme_setup :: "(u8 list \<Rightarrow> u8 list) \<Rightarrow> stacked_setup_params \<Rightarrow> (stacked_graph \<times> challenges \<times> nat) res option" where
  "scheme_setup sha256 sp =
     bindO (stacked_graph_new sha256 None (sp_nodes sp) (sp_degree sp) (sp_expansion_degree sp) (sp_porep_id sp) (sp_api_version sp))
       (\<lambda>graph. Some (Inr (graph, sp_challenges sp, sp_num_layers sp)))"

definition prove_all_partitions ::
  "('f::field, 't, 'p) drg_env \<Rightarrow> prims \<Rightarrow> public_params \<Rightarrow> public_inputs \<Rightarrow> persistent_aux \<Rightarrow> 't temporary_aux_cache \<Rightarrow> nat \<Rightarrow>
   (nat \<Rightarrow> nat \<Rightarrow> nat \<Rightarrow> job list) \<Rightarrow> disk \<Rightarrow> (disk \<times> porep_proof list list) res option" where
  "prove_all_partitions X pr pub_params pub_inputs p_aux t_aux partition_count finished d =
     (if partition_count = 0 then Some (Inl (Fail ''partitions must not be 0''))
      else prove_layers X pr (ppr_graph pub_params) pub_inputs p_aux t_aux (ppr_challenges pub_params) (ppr_num_layers pub_params)
             partition_count finished d)"

definition scheme_prove ::
  "('f::field, 't, 'p) drg_env \<Rightarrow> prims \<Rightarrow> public_params \<Rightarrow> public_inputs \<Rightarrow> persistent_aux \<Rightarrow> 't temporary_aux_cache \<Rightarrow>
   (nat \<Rightarrow> nat \<Rightarrow> nat \<Rightarrow> job list) \<Rightarrow> disk \<Rightarrow> (disk \<times> porep_proof list) res option" where
  "scheme_prove X pr pub_params pub_inputs p_aux t_aux finished d =
     bindO (prove_all_partitions X pr pub_params pub_inputs p_aux t_aux 1 finished d) (\<lambda>(d', proofs).
     let k = (case pin_k pub_inputs of None \<Rightarrow> 0 | Some k \<Rightarrow> k) in
     if 1 \<le> k then Some (Inl (Panic ''It is a programmer error to call StackedDrg::prove with more than one partition.''))
     else Some (bindR (at_index proofs k) (\<lambda>ps. Inr (d', ps))))"

definition with_partition :: "public_inputs \<Rightarrow> nat option \<Rightarrow> public_inputs" where
  "with_partition pub_in k =
     \<lparr>pin_replica_id = pin_replica_id pub_in, pin_seed = pin_seed pub_in, pin_tau = pin_tau pub_in, pin_k = k\<rparr>"

section \<open>Completeness\<close>

lemma proof_verify_pin:
  assumes "pin_tau pin = pin_tau pin'" "pin_replica_id pin = pin_replica_id pin'" "ppr_num_layers pp = ppr_num_layers pp'"
  shows "proof_verify P A pp pin c G p = proof_verify P A pp' pin' c G p"
  by (simp only: proof_verify_def assms)

lemma verify_partitions_ok:
  assumes ps: "\<And>k. k < length pss \<Longrightarrow> list_all2 (verifies X pp pin (ppr_graph pp) p_aux) (ch k) (pss ! k) \<and> ch k \<noteq> [] \<and>
      public_challenges (de_prims X) pr pin (ppr_challenges pp) (graph_size (ge_graph (ppr_graph pp))) (Some k) = Inr (ch k)"
    and tau: "pin_tau pin = Some tau" "tau_comm_r tau = pq_hash2 (de_prims X) (pa_comm_c p_aux) (pa_comm_r_last p_aux)"
    and seed: "pin_seed pin = Some seed"
  shows "verify_all_partitions (de_prims X) pr (de_arities X) pp pin pss = Some (Inr True)"
proof -
  have "verify_partition (de_prims X) pr (de_arities X) pp pin (tau_comm_r tau) x = Some (Inr True)" if "x \<in> set (enumerate 0 pss)" for x
  proof -
    have x: "fst x < length pss" "snd x = pss ! fst x" using that by (auto simp: in_set_enumerate_eq)
    note v = ps [OF x(1)]
    have "verify_partition (de_prims X) pr (de_arities X) pp pin (tau_comm_r tau) (fst x, pss ! fst x) = Some (Inr True)"
      unfolding tau(2) by (rule verify_partition_ok [OF conjunct1 [OF v] conjunct1 [OF conjunct2 [OF v]] conjunct2 [OF conjunct2 [OF v]]])
    then show ?thesis using x(2) by (cases x) simp
  qed
  then show ?thesis using seed tau(1) by (simp add: verify_all_partitions_def checkO_all_True)
qed

lemma in_sector_bounds: "in_sector n c \<Longrightarrow> 0 < c" "in_sector n c \<Longrightarrow> c < n"
  by (auto simp: in_sector_def)

lemma generate_partitions_ok:
  assumes pr: "proving X E par rid n layers k kd nodes enc tau p_aux t_aux"
    and pin: "pin_tau pin = Some tau" "pin_replica_id pin = rid" and pp: "ppr_num_layers pp = layers"
    and ch: "\<And>j. derive j = Inr (ch j) \<and> length (ch j) = m \<and> (\<forall>c\<in>set (ch j). in_sector n c)"
    and sch: "\<And>j. schedule_ok m layers (finished j)"
  shows "\<exists>pss. collectO (\<lambda>j. bindO (Some (derive (j mod 256))) (\<lambda>challenge_positions.
        prove_layers_generate X E pin (pa_comm_c p_aux) t_aux challenge_positions layers (finished j))) [0..<q] = Some (Inr pss) \<and>
      length pss = q \<and> (\<forall>j<q. list_all2 (verifies X pp pin E p_aux) (ch (j mod 256)) (pss ! j))"
proof -
  let ?f = "\<lambda>j. bindO (Some (derive (j mod 256))) (\<lambda>challenge_positions.
      prove_layers_generate X E pin (pa_comm_c p_aux) t_aux challenge_positions layers (finished j))"
  have "\<exists>ps. ?f j = Some (Inr ps) \<and> list_all2 (verifies X pp pin E p_aux) (ch (j mod 256)) ps" for j
  proof -
    have "\<forall>c\<in>set (ch (j mod 256)). 0 < c \<and> c < n" "schedule_ok (length (ch (j mod 256))) layers (finished j)"
      using ch [of "j mod 256"] sch in_sector_bounds by auto
    from prove_layers_generate_ok [OF pr this(1) pin pp this(2)] show ?thesis using ch by auto
  qed
  then obtain pss where "collectO ?f [0..<q] = Some (Inr pss)" "list_all2 (\<lambda>j ps. list_all2 (verifies X pp pin E p_aux) (ch (j mod 256)) ps) [0..<q] pss"
    using collectO_all [of "[0..<q]" ?f "\<lambda>j ps. list_all2 (verifies X pp pin E p_aux) (ch (j mod 256)) ps"] by blast
  then show ?thesis by (auto simp: list_all2_conv_all_nth)
qed

lemma derive_in_sector:
  assumes "2 \<le> n" "n < 2 ^ 32"
  shows "\<exists>ch. \<forall>j. interactive_derive sha m n rid seed j = Inr (ch j) \<and> length (ch j) = m \<and> (\<forall>c\<in>set (ch j). in_sector n c)"
    and "\<exists>ch. \<forall>j. ni_derive sha m n rid comm_r j = Inr (ch j) \<and> length (ch j) = m \<and> (\<forall>c\<in>set (ch j). in_sector n c)"
  using bigint_in_sector [OF assms(1)]
  by (auto simp: interactive_derive_eq [OF assms] interactive_at_def intro!: exI)

text \<open>The number of challenges of a partition in the modes without a synthetic set.\<close>

fun direct_challenges :: "challenges \<Rightarrow> nat option" where
  "direct_challenges (Interactive m) = Some m"
| "direct_challenges (Ni m) = Some m"
| "direct_challenges (Synth m) = None"

lemma prove_direct_ok:
  assumes pr: "proving X E par rid n layers k kd nodes enc tau p_aux t_aux" and n: "2 \<le> n"
    and m: "direct_challenges (ppr_challenges pp) = Some m" "0 < m" and pp: "ppr_graph pp = E" "ppr_num_layers pp = layers"
    and pin: "pin = \<lparr>pin_replica_id = rid, pin_seed = Some seed, pin_tau = Some tau, pin_k = kk\<rparr>"
    and q: "0 < q" and sch: "\<And>j. schedule_ok m layers (finished j)"
  shows "\<exists>pss. prove_all_partitions X prm pp pin p_aux t_aux q finished d = Some (Inr (d, pss)) \<and> length pss = q \<and>
    (\<forall>ps\<in>set pss. length ps = m) \<and> verify_all_partitions (de_prims X) prm (de_arities X) pp pin pss = Some (Inr True)"
proof -
  have D: "graph_size (ge_graph E) = n" "n < 2 ^ 32" "0 < layers" "tau_comm_r tau = pq_hash2 (de_prims X) (pa_comm_c p_aux) (pa_comm_r_last p_aux)"
    using pr by (auto simp: proving_def drg_ok_def graph_ok_def aux_ok_def)
  have n32: "n < 2 ^ 32" using D(2) by simp
  have pin': "pin_tau pin = Some tau" "pin_replica_id pin = rid" "pin_seed pin = Some seed" by (simp_all add: pin)
  define derive where "derive = (case ppr_challenges pp of Ni _ \<Rightarrow> ni_derive (pq_sha256 (de_prims X)) m n rid (tau_comm_r tau)
      | _ \<Rightarrow> interactive_derive (pq_sha256 (de_prims X)) m n rid seed)"
  obtain ch where ch: "\<And>j. derive j = Inr (ch j) \<and> length (ch j) = m \<and> (\<forall>c\<in>set (ch j). in_sector n c)"
    using derive_in_sector [OF n n32] unfolding derive_def by (cases "ppr_challenges pp") (simp_all, metis+)
  obtain pss where pss: "collectO (\<lambda>j. bindO (Some (derive (j mod 256))) (\<lambda>challenge_positions.
        prove_layers_generate X E pin (pa_comm_c p_aux) t_aux challenge_positions layers (finished j))) [0..<q] = Some (Inr pss)"
      "length pss = q" "\<forall>j<q. list_all2 (verifies X pp pin E p_aux) (ch (j mod 256)) (pss ! j)"
    using generate_partitions_ok [OF pr pin'(1,2) pp(2), where derive = derive and ch = ch and m = m and finished = finished and q = q, OF ch sch] by blast
  have "prove_all_partitions X prm pp pin p_aux t_aux q finished d = Some (Inr (d, pss))"
    using pss(1) m(1) q D(1,3) pp pin' unfolding prove_all_partitions_def prove_layers_def derive_def
    by (cases "ppr_challenges pp") (simp_all add: Let_def)
  moreover have "length ps = m" if "ps \<in> set pss" for ps
    using that pss(2,3) ch by (metis in_set_conv_nth list_all2_lengthD)
  moreover have "verify_all_partitions (de_prims X) prm (de_arities X) pp pin pss = Some (Inr True)"
  proof (rule verify_partitions_ok [OF _ pin'(1) D(4) pin'(3)])
    fix j assume j: "j < length pss"
    have "ch (j mod 256) \<noteq> []" using ch [of "j mod 256"] m(2) by auto
    moreover have "public_challenges (de_prims X) prm pin (ppr_challenges pp) n (Some j) = Inr (ch (j mod 256))"
      using ch [of "j mod 256"] m(1) pin' by (cases "ppr_challenges pp") (simp_all add: public_challenges_def derive_def)
    ultimately show "list_all2 (verifies X pp pin (ppr_graph pp) p_aux) (ch (j mod 256)) (pss ! j) \<and> ch (j mod 256) \<noteq> [] \<and>
        public_challenges (de_prims X) prm pin (ppr_challenges pp) (graph_size (ge_graph (ppr_graph pp))) (Some j) = Inr (ch (j mod 256))"
      using pss j D(1) pp(1) by simp
  qed
  ultimately show ?thesis using pss(2) by blast
qed

lemma tree_root_node:
  "\<lbrakk>tree_root H ls leaves = Inr r; hash_nodes H; \<forall>x\<in>set leaves. length x = 32\<rbrakk> \<Longrightarrow> length r = 32"
proof (induction ls arbitrary: leaves)
  case Nil
  then show ?case by (auto simp: at_index_def split: if_splits)
next
  case (Cons l ls)
  obtain a h where l: "l = (a, h)" by (cases l)
  obtain nodes where n: "collectR (\<lambda>c. H c h) (chunks a leaves) = Inr nodes" "tree_root H ls nodes = Inr r"
    using Cons.prems(1) by (auto simp: l bindR_eq_Inr)
  have "\<forall>x\<in>set nodes. length x = 32"
  proof
    fix x assume "x \<in> set nodes"
    then obtain j where "j < length nodes" "nodes ! j = x" by (auto simp: in_set_conv_nth)
    then have "H (chunks a leaves ! j) h = Inr x" using collectR_nth [OF n(1)] collectR_length [OF n(1)] by auto
    then show "length x = 32" using Cons.prems(2) by (simp add: hash_nodes_def)
  qed
  then show ?case using Cons.IH [OF n(2) Cons.prems(2)] by simp
qed

lemma roots_32:
  assumes pr: "proving X E par rid n layers k kd nodes enc tau p_aux t_aux"
  shows "length (tau_comm_d tau) = 32" "length (pa_comm_c p_aux) = 32" "length (pa_comm_r_last p_aux) = 32"
proof -
  have H: "hash_nodes (pq_tree_hash (de_prims X))" "hash_nodes (de_hash_d X)" "fr_ok (de_prims X)" "\<forall>x\<in>set nodes. length x = 32"
    using pr by (simp_all add: proving_def drg_ok_def nodes_ok_def)
  have a: "aux_ok X par rid n layers k kd nodes (map enc [0..<n]) tau p_aux t_aux" using pr by (simp add: proving_def)
  have "\<forall>x\<in>set (map (column_leaf (de_prims X) par rid layers) [0..<n]). length x = 32" using H(3) by (auto simp: fr_ok_def column_leaf_def)
  moreover have "length (enc i) = 32" if "i < n" for i
  proof -
    have "encode (de_prims X) (label_spec par rid layers i) (nodes ! i) = Inr (enc i)" using pr that by (simp add: proving_def)
    then show ?thesis using H(3) unfolding encode_def bindR_eq_Inr fr_ok_def by (metis sum.inject(2))
  qed
  then have "\<forall>x\<in>set (map enc [0..<n]). length x = 32" by auto
  ultimately show "length (tau_comm_d tau) = 32" "length (pa_comm_c p_aux) = 32" "length (pa_comm_r_last p_aux) = 32"
    using a H tree_root_node unfolding aux_ok_def tree_of_def by metis+
qed

lemma read_synth_ok:
  assumes A: "arity_bits (de_arities X) b s t" and bits: "sum_list (level_bits k b s t) = kd" "kd \<le> 64" and n: "n = 2 ^ kd" "2 \<le> n" "n < 2 ^ 32"
    and ids: "into_fr (de_prims X) (pin_replica_id pin) = Inr rf" "into_fr (de_prims X) (tau_comm_r tau) = Inr cf"
    and pin: "pin_seed pin = Some seed" "pin_tau pin = Some tau"
    and all: "derive_synthetic prm (pq_of_fr (de_prims X)) n rf cf = Inr all" and ps: "length ps = length all"
      "\<forall>p\<in>set ps. synth_ok (de_arities X) k kd layers root_d root_c root_r p"
    and roots: "length root_d = 32" "length root_c = 32" "length root_r = 32"
    and f: "synth_write (de_arities X) ps = Inr f" "d synth_proofs_path = Some f" and q: "q < 256" "4 * (q * m) \<le> 2 ^ 32"
  shows "\<exists>ix. read_porep_proofs_from_synth X prm n pin m layers q d = Inr (map (\<lambda>j. map ((!) ps) (ix j)) [0..<q]) \<and>
    (\<forall>j<q. length (ix j) = m \<and> (\<forall>i\<in>set (ix j). i < length all) \<and>
       synth_derive prm (pq_of_fr (de_prims X)) m n rf cf seed j = Inr (map ((!) all) (ix j)))"
proof -
  have "\<exists>is. synth_derive_indexes prm (pq_of_fr (de_prims X)) m n rf cf seed j = Inr is \<and> length is = m \<and> (\<forall>i\<in>set is. i < length all) \<and>
      synth_derive prm (pq_of_fr (de_prims X)) m n rf cf seed j = Inr (map ((!) all) is)" if "j < q" for j
  proof (cases "m = 0")
    case False
    then have "j * m < q * m" using that by simp
    then have "4 * (j * m) < 2 ^ 32" using q(2) by linarith
    from synth_derive_eq [OF n(2,3) this, of prm "pq_of_fr (de_prims X)" rf cf seed] show ?thesis using all by (metis sum.inject(2))
  next
    case True
    then have "4 * (j * m) < 2 ^ 32" by simp
    from synth_derive_eq [OF n(2,3) this, of prm "pq_of_fr (de_prims X)" rf cf seed] show ?thesis using all by (metis sum.inject(2))
  qed
  then obtain ix where ix: "j < q \<Longrightarrow> synth_derive_indexes prm (pq_of_fr (de_prims X)) m n rf cf seed j = Inr (ix j) \<and> length (ix j) = m \<and>
      (\<forall>i\<in>set (ix j). i < length all) \<and> synth_derive prm (pq_of_fr (de_prims X)) m n rf cf seed j = Inr (map ((!) all) (ix j))" for j
    by metis
  have "length all = min n (2 ^ 18)" using synth_derive_eq [OF n(2,3), of 0 0 prm "pq_of_fr (de_prims X)" rf cf] all by auto
  then have ne: "ps \<noteq> []" using ps(1) n(2) by auto
  have rd: "synth_read (de_arities X) f n layers (ix j) = Inr (map ((!) ps) (ix j))" if "j < q" for j
    using synth_file [OF A bits ne ps(2) roots, of "ix j"] ix [OF that] f(1) ps(1) n(1) by auto
  have "read_porep_proofs_from_synth X prm n pin m layers q d = Inr (map (\<lambda>j. map ((!) ps) (ix j)) [0..<q])"
    using pin f(2) q(1) unfolding read_porep_proofs_from_synth_def Let_def
    by (simp, intro collectR_all_ok) (simp add: ids ix rd)
  then show ?thesis using ix by blast
qed

lemma write_synth_ok:
  assumes ids: "into_fr (de_prims X) (pin_replica_id pin) = Inr rf" "into_fr (de_prims X) (tau_comm_r tau) = Inr cf"
    and pin: "pin_tau pin = Some tau" and n: "graph_size (ge_graph E) = n" "2 \<le> n" "n < 2 ^ 32"
    and all: "derive_synthetic prm (pq_of_fr (de_prims X)) n rf cf = Inr all"
    and v: "list_all2 (verifies X pp pin E p_aux) all ps" and pp: "ppr_num_layers pp = layers"
    and f: "synth_write (de_arities X) ps = Inr f"
  shows "write_synth_proofs X prm ps pin E m layers d = Some (Inr (d(synth_proofs_path \<mapsto> f)))"
proof -
  obtain g where g: "synth_default prm (pq_of_fr (de_prims X)) n rf cf = Inr g" "synth_collect g = Inr all"
    using all by (auto simp: derive_synthetic_def bindR_eq_Inr)
  have "length all = min n (2 ^ 18)" "num_synth_challenges g = min n (2 ^ 18)"
    using synth_derive_eq [OF n(2,3), of 0 0 prm "pq_of_fr (de_prims X)" rf cf] all g(1)
      synth_default_ok [OF n(2,3), of prm "pq_of_fr (de_prims X)" rf cf] by auto
  then have len: "length ps = num_synth_challenges g" using list_all2_lengthD [OF v] by simp
  let ?pp = "\<lparr>ppr_graph = E, ppr_challenges = Synth m, ppr_num_layers = layers\<rparr>"
  have "proof_verify (de_prims X) (de_arities X) ?pp pin c E p = Some (Inr True)" if "(c, p) \<in> set (zip all ps)" for c p
  proof -
    have "proof_verify (de_prims X) (de_arities X) pp pin c E p = Some (Inr True)" using v that by (auto simp: list_all2_iff verifies_def)
    then show ?thesis by (subst proof_verify_pin [of pin pin ?pp pp]) (simp_all add: pp)
  qed
  then have "\<exists>oks. collectO (\<lambda>(c, p). proof_verify (de_prims X) (de_arities X) ?pp pin c E p) (zip all ps) = Some (Inr oks) \<and>
      list_all2 (\<lambda>_ y. y) (zip all ps) oks"
    by (intro collectO_all) auto
  then obtain oks where oks: "collectO (\<lambda>(c, p). proof_verify (de_prims X) (de_arities X) ?pp pin c E p) (zip all ps) = Some (Inr oks)"
      "list_all2 (\<lambda>_ y. y) (zip all ps) oks" by blast
  have "list_all id oks" using oks(2) by (induction rule: list_all2_induct) simp_all
  then show ?thesis using oks(1) g len ids pin n(1) f by (simp add: write_synth_proofs_def Let_def)
qed

lemma prove_synth_ok:
  assumes pr: "proving X E par rid n layers k kd nodes enc tau p_aux t_aux" and A: "arity_bits (de_arities X) b s t" and n: "2 \<le> n"
    and m: "ppr_challenges pp = Synth m" "0 < m" and pp: "ppr_graph pp = E" "ppr_num_layers pp = layers"
    and ids: "into_fr (de_prims X) rid = Inr rf" "into_fr (de_prims X) (tau_comm_r tau) = Inr cf"
    and q: "0 < q" "q < 256" "4 * (q * m) \<le> 2 ^ 32" and sch: "schedule_ok (min n (2 ^ 18)) layers (finished 0)"
    and pin: "pin = (\<lambda>seed. \<lparr>pin_replica_id = rid, pin_seed = seed, pin_tau = Some tau, pin_k = kk\<rparr>)"
  shows "\<exists>d'. prove_all_partitions X prm pp (pin None) p_aux t_aux q finished d = Some (Inr (d', replicate q [])) \<and>
    (\<forall>seed finished'. \<exists>pss. prove_all_partitions X prm pp (pin (Some seed)) p_aux t_aux q finished' d' = Some (Inr (d', pss)) \<and>
       length pss = q \<and> (\<forall>ps\<in>set pss. length ps = m) \<and>
       verify_all_partitions (de_prims X) prm (de_arities X) pp (pin (Some seed)) pss = Some (Inr True))"
proof -
  have D: "graph_size (ge_graph E) = n" "n < 2 ^ 32" "0 < layers" "tau_comm_r tau = pq_hash2 (de_prims X) (pa_comm_c p_aux) (pa_comm_r_last p_aux)"
      "n = leaf_count (levels (de_arities X) k)" "n = 2 ^ kd"
    using pr leaf_count_trees by (auto simp: proving_def drg_ok_def graph_ok_def aux_ok_def)
  have "(2::nat) ^ sum_list (level_bits k b s t) = 2 ^ kd" using D(5,6) leaf_count_bits [OF A, of k] by simp
  then have bits: "sum_list (level_bits k b s t) = kd" by simp
  have "(2::nat) ^ kd \<le> 2 ^ 64" using D(2,6) by simp
  then have kd: "kd \<le> 64" by (rule power_le_imp_le_exp [rotated]) simp
  have pin': "pin_tau (pin x) = Some tau" "pin_replica_id (pin x) = rid" "pin_seed (pin x) = x" for x by (simp_all add: pin)
  obtain all where all: "derive_synthetic prm (pq_of_fr (de_prims X)) n rf cf = Inr all" "length all = min n (2 ^ 18)" "\<forall>c\<in>set all. in_sector n c"
    using synth_derive_eq [OF n D(2), of 0 0 prm "pq_of_fr (de_prims X)" rf cf] by auto
  have cs: "\<forall>c\<in>set all. 0 < c \<and> c < n" using all(3) in_sector_bounds by blast
  have sch': "schedule_ok (length all) layers (finished 0)" using sch all(2) by simp
  let ?S = "synth_ok (de_arities X) k kd layers (tau_comm_d tau) (pa_comm_c p_aux) (pa_comm_r_last p_aux)"
  obtain ps where ps: "prove_layers_generate X E (pin None) (pa_comm_c p_aux) t_aux all layers (finished 0) = Some (Inr ps)"
      "list_all2 (verifies X pp (pin None) E p_aux) all ps" "\<forall>p\<in>set ps. ?S p"
    using prove_layers_generate_ok [OF pr cs pin'(1,2) pp(2) sch'] by blast
  note len = list_all2_lengthD [OF ps(2)]
  have ne: "ps \<noteq> []" using len all(2) n by auto
  obtain f where f: "synth_write (de_arities X) ps = Inr f"
    using synth_file [OF A bits kd ne ps(3) roots_32 [OF pr], of "[]"] by auto
  define d' where "d' = d(synth_proofs_path \<mapsto> f)"
  have ids': "into_fr (de_prims X) (pin_replica_id (pin x)) = Inr rf" for x using ids(1) pin'(2) by simp
  have w: "write_synth_proofs X prm ps (pin None) E m layers d = Some (Inr d')"
    using write_synth_ok [OF ids' ids(2) pin'(1) D(1) n D(2) all(1) ps(2) pp(2) f] by (simp add: d'_def)
  have one: "prove_all_partitions X prm pp (pin None) p_aux t_aux q finished d = Some (Inr (d', replicate q []))"
    using q(1) m(1) D(1,3) pp pin' ids all(1) ps(1) w by (simp add: prove_all_partitions_def prove_layers_def Let_def)
  have "\<exists>pss. prove_all_partitions X prm pp (pin (Some seed)) p_aux t_aux q finished' d' = Some (Inr (d', pss)) \<and>
       length pss = q \<and> (\<forall>ps\<in>set pss. length ps = m) \<and>
       verify_all_partitions (de_prims X) prm (de_arities X) pp (pin (Some seed)) pss = Some (Inr True)" for seed finished'
  proof -
    obtain ix where ix: "read_porep_proofs_from_synth X prm n (pin (Some seed)) m layers q d' = Inr (map (\<lambda>j. map ((!) ps) (ix j)) [0..<q])"
      "\<forall>j<q. length (ix j) = m \<and> (\<forall>i\<in>set (ix j). i < length all) \<and>
         synth_derive prm (pq_of_fr (de_prims X)) m n rf cf seed j = Inr (map ((!) all) (ix j))"
    proof -
      have df: "d' synth_proofs_path = Some f" by (simp add: d'_def)
      show thesis using read_synth_ok [OF A bits kd D(6) n D(2) ids' [of "Some seed"] ids(2) pin'(3) [of "Some seed"] pin'(1) [of "Some seed"] all(1) len [symmetric] ps(3) roots_32 [OF pr] f _ q(2,3), where d = d'] df that by blast
    qed
    let ?pss = "map (\<lambda>j. map ((!) ps) (ix j)) [0..<q]"
    have "prove_all_partitions X prm pp (pin (Some seed)) p_aux t_aux q finished' d' = Some (Inr (d', ?pss))"
      using q(1) m(1) D(1,3) pp pin' ix(1) by (simp add: prove_all_partitions_def prove_layers_def Let_def)
    moreover have "verify_all_partitions (de_prims X) prm (de_arities X) pp (pin (Some seed)) ?pss = Some (Inr True)"
    proof (rule verify_partitions_ok [where ch = "\<lambda>j. map ((!) all) (ix j)", OF _ pin'(1) D(4) pin'(3)])
      fix j assume j: "j < length ?pss"
      then have i: "length (ix j) = m" "\<forall>i\<in>set (ix j). i < length all"
        "synth_derive prm (pq_of_fr (de_prims X)) m n rf cf seed j = Inr (map ((!) all) (ix j))" using ix(2) by auto
      have "verifies X pp (pin (Some seed)) E p_aux (all ! i) (ps ! i)" if "i < length all" for i
      proof -
        have "verifies X pp (pin None) E p_aux (all ! i) (ps ! i)" using ps(2) that by (auto simp: list_all2_conv_all_nth)
        then show ?thesis unfolding verifies_def by (subst proof_verify_pin [of "pin (Some seed)" "pin None" pp pp]) (simp_all add: pin')
      qed
      then have "list_all2 (verifies X pp (pin (Some seed)) E p_aux) (map ((!) all) (ix j)) (map ((!) ps) (ix j))"
        using i(2) by (simp add: list_all2_map1 list_all2_map2 list_all2_same)
      moreover have "j mod 256 = j" using j q(2) by simp
      then have "public_challenges (de_prims X) prm (pin (Some seed)) (Synth m) n (Some j) = Inr (map ((!) all) (ix j))"
        using i(3) ids pin' by (simp add: public_challenges_def)
      ultimately show "list_all2 (verifies X pp (pin (Some seed)) (ppr_graph pp) p_aux) (map ((!) all) (ix j)) (?pss ! j) \<and>
          map ((!) all) (ix j) \<noteq> [] \<and> public_challenges (de_prims X) prm (pin (Some seed)) (ppr_challenges pp)
            (graph_size (ge_graph (ppr_graph pp))) (Some j) = Inr (map ((!) all) (ix j))"
        using j i(1) m pp(1) D(1) by auto
    qed
    ultimately show ?thesis using ix(2) by (intro exI [of _ ?pss]) auto
  qed
  then show ?thesis using one by blast
qed

section \<open>Properties\<close>

text \<open>
  C2. Completeness of the interactive and the non-interactive PoRep: for every sector of field
  elements that is sealed by both phases over trees that behave as documented, the proofs of all
  partitions are made, whatever the order in which the threads run the jobs, and all
  of them are accepted.
\<close>

theorem porep_complete:
  assumes "sealing X S E n k kd" and "2 \<le> n" and "layers = 2 \<or> layers = 11" and "length rid = 32" and "nodes_ok n nodes"
    and "\<forall>x\<in>set nodes. is_ok (into_fr (de_prims X) x)" and "\<forall>l. d (Data_File (label_layer l)) = None"
    and "direct_challenges cs = Some m" and "0 < m" and "0 < q" and "\<forall>j. schedule_ok m layers (finished j)"
    and "pp = \<lparr>ppr_graph = E, ppr_challenges = cs, ppr_num_layers = layers\<rparr>"
    and "pin = (\<lambda>tau. \<lparr>pin_replica_id = rid, pin_seed = Some seed, pin_tau = Some tau, pin_k = kk\<rparr>)"
  shows "\<exists>d1 labels replica d2 tau p_aux t_aux tc proofs.
    replicate_phase1 S pp rid d = Some (Inr (d1, labels)) \<and>
    replicate_phase2 X pp labels (concat nodes) None d1 = Inr (replica, d2, tau, p_aux, t_aux) \<and>
    temporary_aux_cache_new X t_aux replica False d2 = Inr tc \<and>
    prove_all_partitions X prm pp (pin tau) p_aux tc q finished d2 = Some (Inr (d2, proofs)) \<and>
    length proofs = q \<and> (\<forall>ps\<in>set proofs. length ps = m) \<and>
    verify_all_partitions (de_prims X) prm (de_arities X) pp (pin tau) proofs = Some (Inr True)"
proof -
  have pp: "ppr_graph pp = E" "ppr_num_layers pp = layers" "direct_challenges (ppr_challenges pp) = Some m" using assms(8,12) by simp_all
  obtain par pc fl enc d1 labels d2 tau p_aux t_aux tc where s: "replicate_phase1 S pp rid d = Some (Inr (d1, labels))"
    "replicate_phase2 X pp labels (concat nodes) None d1 = Inr (concat (map enc [0..<n]), d2, tau, p_aux, t_aux)"
    "temporary_aux_cache_new X t_aux (concat (map enc [0..<n])) False d2 = Inr tc"
    "proving X E par rid n layers k kd nodes enc tau p_aux tc"
    "tree_stored (de_tree X) (de_arities X) k (ta_tree_r_last_config t_aux) (map enc [0..<n]) d2"
    "r_last_config (de_tree X) (de_arities X) (de_rows X) (de_rows_to_discard X) k (ta_tree_r_last_config t_aux)"
    by (rule seal_ok [OF assms(1,3,4) pp(1,2) assms(5-7)])
  have "\<And>j. schedule_ok m layers (finished j)" using assms(11) by simp
  note sch = this
  have pin: "pin tau = \<lparr>pin_replica_id = rid, pin_seed = Some seed, pin_tau = Some tau, pin_k = kk\<rparr>" by (simp add: assms(13))
  show ?thesis using prove_direct_ok [OF s(4) assms(2) pp(3) assms(9) pp(1,2) pin assms(10), of finished prm d2, OF sch] s(1-3) by blast
qed

lemma toy_into_fr: "length x = 32 \<Longrightarrow> \<exists>f. into_fr toy_prims x = Inr f"
  by (simp add: into_fr_def toy_prims_def toy_to_fr_def)

lemma toy_frs: "\<forall>x\<in>set toy_data. is_ok (into_fr (de_prims toy_drg) x)"
  using toy_data_ok(2) by (auto simp: toy_drg_def)

definition toy_synth_prims :: prims where
  "toy_synth_prims = \<lparr>blake2b = \<lambda>_ _ m. m, chacha20 = \<lambda>key nonce i. of_nat i\<rparr>"

theorem porep_complete_witness:
  "\<exists>replica d2 tau p_aux t_aux tc proofs.
    temporary_aux_cache_new toy_drg t_aux replica False d2 = Inr tc \<and>
    prove_all_partitions toy_drg toy_synth_prims \<lparr>ppr_graph = toy_env, ppr_challenges = Ni 3, ppr_num_layers = 2\<rparr>
      \<lparr>pin_replica_id = replicate 32 9, pin_seed = Some [1], pin_tau = Some tau, pin_k = None\<rparr> p_aux tc 5
      (\<lambda>j i l. [Label_Job 0 1, Comm_D_Job 2]) d2 = Some (Inr (d2, proofs)) \<and> length proofs = 5 \<and>
    verify_all_partitions (de_prims toy_drg) toy_synth_prims (de_arities toy_drg) \<lparr>ppr_graph = toy_env, ppr_challenges = Ni 3, ppr_num_layers = 2\<rparr>
      \<lparr>pin_replica_id = replicate 32 9, pin_seed = Some [1], pin_tau = Some tau, pin_k = None\<rparr> proofs = Some (Inr True)"
proof -
  have s: "\<forall>j::nat. schedule_ok 3 2 (\<lambda>i l. [Label_Job 0 1, Comm_D_Job 2])" by (simp add: schedule_ok_def)
  have l: "(2::nat) \<le> 4" "(2::nat) = 2 \<or> (2::nat) = 11" "length (replicate 32 (9::u8)) = 32" "direct_challenges (Ni 3) = Some 3" "(0::nat) < 3" "(0::nat) < 5"
    by simp_all
  have f: "\<forall>l. (\<lambda>_. None) (Data_File (label_layer l)) = None" by simp
  from porep_complete [OF toy_sealing l(1-3) toy_data_ok(1) toy_frs f l(4-6) s refl refl, of toy_synth_prims "[1]" None]
  show ?thesis by blast
qed

text \<open>
  C8. Completeness of the synthetic PoRep: without a seed the prover makes, checks and stores
  the proofs of the whole synthetic set; with any seed it then reads from that file one
  proof for every challenge of every partition, and all of them are accepted.
\<close>

theorem synth_porep_complete:
  assumes "sealing X S E n k kd" and "2 \<le> n" and "layers = 2 \<or> layers = 11" and "length rid = 32" and "nodes_ok n nodes"
    and "\<forall>x\<in>set nodes. is_ok (into_fr (de_prims X) x)" and "\<forall>l. d (Data_File (label_layer l)) = None"
    and "arity_bits (de_arities X) b s t" and "0 < m" and "0 < q" and "q < 256" and "4 * (q * m) \<le> 2 ^ 32"
    and "is_ok (into_fr (de_prims X) rid)" and "\<forall>a c. is_ok (into_fr (de_prims X) (pq_hash2 (de_prims X) a c))"
    and "schedule_ok (min n (2 ^ 18)) layers (finished 0)"
    and "pp = \<lparr>ppr_graph = E, ppr_challenges = Synth m, ppr_num_layers = layers\<rparr>"
    and "pin = (\<lambda>tau seed. \<lparr>pin_replica_id = rid, pin_seed = seed, pin_tau = Some tau, pin_k = kk\<rparr>)"
  shows "\<exists>d1 labels replica d2 tau p_aux t_aux tc d3.
    replicate_phase1 S pp rid d = Some (Inr (d1, labels)) \<and>
    replicate_phase2 X pp labels (concat nodes) None d1 = Inr (replica, d2, tau, p_aux, t_aux) \<and>
    temporary_aux_cache_new X t_aux replica False d2 = Inr tc \<and>
    prove_all_partitions X prm pp (pin tau None) p_aux tc q finished d2 = Some (Inr (d3, replicate q [])) \<and>
    (\<forall>seed finished'. \<exists>proofs. prove_all_partitions X prm pp (pin tau (Some seed)) p_aux tc q finished' d3 = Some (Inr (d3, proofs)) \<and>
       length proofs = q \<and> (\<forall>ps\<in>set proofs. length ps = m) \<and>
       verify_all_partitions (de_prims X) prm (de_arities X) pp (pin tau (Some seed)) proofs = Some (Inr True))"
proof -
  have pp: "ppr_graph pp = E" "ppr_num_layers pp = layers" "ppr_challenges pp = Synth m" using assms(16) by simp_all
  obtain par pc fl enc d1 labels d2 tau p_aux t_aux tc where r: "replicate_phase1 S pp rid d = Some (Inr (d1, labels))"
    "replicate_phase2 X pp labels (concat nodes) None d1 = Inr (concat (map enc [0..<n]), d2, tau, p_aux, t_aux)"
    "temporary_aux_cache_new X t_aux (concat (map enc [0..<n])) False d2 = Inr tc"
    "proving X E par rid n layers k kd nodes enc tau p_aux tc"
    "tree_stored (de_tree X) (de_arities X) k (ta_tree_r_last_config t_aux) (map enc [0..<n]) d2"
    "r_last_config (de_tree X) (de_arities X) (de_rows X) (de_rows_to_discard X) k (ta_tree_r_last_config t_aux)"
    by (rule seal_ok [OF assms(1,3,4) pp(1,2) assms(5-7)])
  obtain rf where rf: "into_fr (de_prims X) rid = Inr rf" using assms(13) by (auto simp: is_ok_iff)
  have "is_ok (into_fr (de_prims X) (tau_comm_r tau))" using assms(14) r(4) by (simp add: proving_def aux_ok_def)
  then obtain cf where cf: "into_fr (de_prims X) (tau_comm_r tau) = Inr cf" by (auto simp: is_ok_iff)
  have "pin tau = (\<lambda>seed. \<lparr>pin_replica_id = rid, pin_seed = seed, pin_tau = Some tau, pin_k = kk\<rparr>)" by (simp add: assms(17))
  from prove_synth_ok [OF r(4) assms(8,2) pp(3) assms(9) pp(1,2) rf cf assms(10-12) _ this, where finished = finished and prm = prm and d = d2, OF assms(15)]
  show ?thesis using r(1-3) by blast
qed

theorem synth_porep_complete_witness:
  "\<exists>tau p_aux tc d2 d3.
    prove_all_partitions toy_drg toy_synth_prims \<lparr>ppr_graph = toy_env, ppr_challenges = Synth 3, ppr_num_layers = 2\<rparr>
      \<lparr>pin_replica_id = replicate 32 9, pin_seed = None, pin_tau = Some tau, pin_k = None\<rparr> p_aux tc 2 (\<lambda>_ _ _. [Comm_R_Job 1]) d2 =
      Some (Inr (d3, replicate 2 [])) \<and>
    (\<forall>seed finished'. \<exists>proofs. prove_all_partitions toy_drg toy_synth_prims \<lparr>ppr_graph = toy_env, ppr_challenges = Synth 3, ppr_num_layers = 2\<rparr>
      \<lparr>pin_replica_id = replicate 32 9, pin_seed = Some seed, pin_tau = Some tau, pin_k = None\<rparr> p_aux tc 2 finished' d3 =
      Some (Inr (d3, proofs)) \<and> length proofs = 2)"
proof -
  have s: "schedule_ok (min 4 (2 ^ 18)) 2 (\<lambda>i l. [Comm_R_Job 1])" by (simp add: schedule_ok_def)
  have l: "(2::nat) \<le> 4" "(2::nat) = 2 \<or> (2::nat) = 11" "length (replicate 32 (9::u8)) = 32" "(0::nat) < 3" "(0::nat) < 2" "(2::nat) < 256"
      "4 * (2 * 3) \<le> (2::nat) ^ 32" by simp_all
  have f: "\<forall>l. (\<lambda>_. None) (Data_File (label_layer l)) = None" by simp
  have A: "arity_bits (de_arities toy_drg) 1 0 0" using binary_bits(1) by (simp add: toy_drg_def)
  have i: "is_ok (into_fr (de_prims toy_drg) (replicate 32 9))" using toy_into_fr [of "replicate 32 9"] by (auto simp: toy_drg_def)
  have "length (pq_hash2 toy_prims a c) = 32" for a c by (simp add: toy_prims_def trim_to_fr32_def toy_sum_def)
  then have h: "\<forall>a c. is_ok (into_fr (de_prims toy_drg) (pq_hash2 (de_prims toy_drg) a c))" using toy_into_fr by (fastforce simp: toy_drg_def is_ok_iff)
  from synth_porep_complete [OF toy_sealing l(1-3) toy_data_ok(1) toy_frs f A l(4-7) i h s refl refl, of toy_synth_prims None]
  show ?thesis by blast
qed
end
