(* ===== verification/Commitment_Reader.thy ===== *)
theory Commitment_Reader
  imports Fr32_Reader Porep_Proof
begin

text \<open>
  \<open>filecoin-proofs/src/commitment_reader.rs\<close>: the reader that hashes the bytes it passes on,
  with its buffer and the row of hashes, and the commitment at the end; \<open>piece_hash\<close> of
  \<open>filecoin-proofs/src/pieces.rs\<close> and the hash of the pieces (\<open>filecoin-hashers/src/sha256.rs\<close>).
  The digest of the \<open>sha2\<close> crate is a parameter. \<open>io::copy\<close> of the standard library is the
  loop over its 8 KiB buffer. The source is what a \<open>Fr32Reader\<close> is to it: its contract is
  the locale \<open>node_source\<close>, which every \<open>byte_source\<close> behind a \<open>Fr32Reader\<close> satisfies.
\<close>

section \<open>The code\<close>

text \<open>\<open>Sha256Function::hash\<close> and \<open>piece_hash\<close>.\<close>

definition sha256_function_hash :: "(u8 list \<Rightarrow> u8 list) \<Rightarrow> u8 list \<Rightarrow> u8 list" where
  "sha256_function_hash digest xs = trim_to_fr32 (digest xs)"

definition piece_hash :: "(u8 list \<Rightarrow> u8 list) \<Rightarrow> u8 list \<Rightarrow> u8 list \<Rightarrow> u8 list" where
  "piece_hash digest a b = sha256_function_hash digest (a @ b)"

definition BUFFER_SIZE :: nat where "BUFFER_SIZE = 4096"

record 's commitment_reader =
  cr_source :: 's
  cr_buffer :: "u8 list"
  cr_buffer_pos :: nat
  cr_current_tree :: "u8 list list"

definition commitment_reader_new :: "'s \<Rightarrow> 's commitment_reader" where
  "commitment_reader_new source = \<lparr>cr_source = source, cr_buffer = replicate BUFFER_SIZE 0,
     cr_buffer_pos = 0, cr_current_tree = []\<rparr>"

definition try_hash :: "(u8 list \<Rightarrow> u8 list) \<Rightarrow> 's commitment_reader \<Rightarrow> 's commitment_reader" where
  "try_hash digest r =
     (if cr_buffer_pos r mod 64 \<noteq> 0 then r
      else r\<lparr>cr_current_tree := cr_current_tree r @
               map (sha256_function_hash digest) (chunks 64 (take (cr_buffer_pos r) (cr_buffer r))),
             cr_buffer_pos := 0\<rparr>)"

text \<open>A read that may not return; the source gets a part of the buffer.\<close>

type_synonym 's read_op' = "'s \<Rightarrow> u8 list \<Rightarrow> ('s \<times> u8 list \<times> (io_err + nat)) option"

definition commitment_read ::
  "(u8 list \<Rightarrow> u8 list) \<Rightarrow> 's read_op' \<Rightarrow> 's commitment_reader read_op'" where
  "commitment_read digest rd r buf =
     (case usub BUFFER_SIZE (cr_buffer_pos r) of
        Inl e \<Rightarrow> Some (r, buf, Inl (Io_panic ''attempt to subtract with overflow''))
      | Inr left' \<Rightarrow>
          let start = cr_buffer_pos r; end' = start + min left' (length buf)
          in map_option (\<lambda>(s', part, res).
               let r' = r\<lparr>cr_source := s', cr_buffer := take start (cr_buffer r) @ part @ drop end' (cr_buffer r)\<rparr>
               in case res of
                    Inl e \<Rightarrow> (r', buf, Inl e)
                  | Inr n \<Rightarrow>
                      if length buf < n \<or> BUFFER_SIZE < start + n
                      then (r', buf, Inl (Io_panic ''slice index out of range''))
                      else (try_hash digest (r'\<lparr>cr_buffer_pos := start + n\<rparr>),
                            take n (drop start (cr_buffer r')) @ drop n buf, Inr n))
             (rd (cr_source r) (take (end' - start) (drop start (cr_buffer r)))))"

text \<open>The loop of \<open>finish\<close>: \<open>chunk[1]\<close> of a last chunk of one node is out of bounds.\<close>

lemma bindR_cong [fundef_cong]:
  "r = r' \<Longrightarrow> (\<And>x. r' = Inr x \<Longrightarrow> f x = g x) \<Longrightarrow> bindR r f = bindR r' g"
  by (cases r') auto

lemma length_chunks_2: "length (chunks 2 xs) = (length xs + 1) div 2"
proof (induction "length xs" arbitrary: xs rule: less_induct)
  case less
  show ?case
  proof (cases "xs = []")
    case False
    then have "length (chunks 2 (drop 2 xs)) = (length (drop 2 xs) + 1) div 2" "0 < length xs" using less by simp_all
    moreover from this(2) have "Suc (Suc (length xs - 2) div 2) = Suc (length xs) div 2" by presburger
    ultimately show ?thesis using False chunks_step [of 2 xs] by simp
  qed simp
qed

definition next_row :: "(u8 list \<Rightarrow> u8 list) \<Rightarrow> u8 list list \<Rightarrow> u8 list list res" where
  "next_row digest row = collectR (\<lambda>chunk. bindR (at_index chunk 0) (\<lambda>a. bindR (at_index chunk 1) (\<lambda>b.
     Inr (piece_hash digest a b)))) (chunks 2 row)"

function finish_rows :: "(u8 list \<Rightarrow> u8 list) \<Rightarrow> u8 list list \<Rightarrow> u8 list list res" where
  "finish_rows digest row =
     (if 1 < length row then bindR (next_row digest row) (finish_rows digest) else Inr row)"
  by pat_completeness auto
termination
  by (relation "measure (\<lambda>(digest, row). length row)")
    (auto simp: next_row_def length_chunks_2 dest!: collectR_length)

declare finish_rows.simps [simp del]

definition commitment_finish :: "(u8 list \<Rightarrow> u8 list) \<Rightarrow> 's commitment_reader \<Rightarrow> u8 list res" where
  "commitment_finish digest r =
     ensure (cr_buffer_pos r = 0) ''not enough inputs provided''
       (bindR (finish_rows digest (cr_current_tree r)) (\<lambda>row.
          case row of [] \<Rightarrow> Inl (Panic ''should have been caught by debug build: len==1'') | x # _ \<Rightarrow> Inr x))"

text \<open>\<open>io::copy\<close>: the reader, the bytes that were written, and their number or the error.\<close>

partial_function (option) io_copy ::
  "'s read_op' \<Rightarrow> 's \<Rightarrow> u8 list \<Rightarrow> ('s \<times> u8 list \<times> (io_err + nat)) option" where
  "io_copy rd s out =
     (case rd s (replicate 8192 0) of
        None \<Rightarrow> None
      | Some (s', buf, res) \<Rightarrow> (case res of
          Inl e \<Rightarrow> if e = Interrupted then io_copy rd s' out else Some (s', out, Inl e)
        | Inr n \<Rightarrow> if n = 0 then Some (s', out, Inr (length out)) else io_copy rd s' (out @ take n buf)))"


lemma chunks_split: "0 < m \<Longrightarrow> m dvd n \<Longrightarrow> n \<le> length xs \<Longrightarrow> chunks m xs = chunks m (take n xs) @ chunks m (drop n xs)"
proof (induction n arbitrary: xs rule: less_induct)
  case (less n)
  show ?case
  proof (cases "n = 0")
    case False
    then have "m \<le> n" using less.prems(2) by (simp add: dvd_imp_le)
    then obtain k where n: "n = m + k" "m dvd k" using less.prems(2) by (metis dvd_diff_nat dvd_refl le_add_diff_inverse)
    have "chunks m (drop m xs) = chunks m (take k (drop m xs)) @ chunks m (drop k (drop m xs))"
      using less.IH [of k "drop m xs"] less.prems n by simp
    moreover have "xs \<noteq> []" using less.prems n by auto
    then have "chunks m xs = take m xs # chunks m (drop m xs)" "chunks m (take n xs) = take m xs # chunks m (take k (drop m xs))"
      using chunks_step [OF less.prems(1), of xs] chunks_step [OF less.prems(1), of "take n xs"] less.prems(1)
      by (simp_all add: n(1) drop_take)
    ultimately show ?thesis by (simp add: n(1) add.commute)
  qed simp
qed

section \<open>The reader\<close>

text \<open>
  The contract of the source: reads with buffers of a multiple of 32 bytes give the next bytes
  of the stream, as many as there are and fit.
\<close>

locale node_source =
  fixes rd :: "'s read_op'" and rest :: "'s \<Rightarrow> u8 list" and ok :: "'s \<Rightarrow> bool"
  assumes read_nodes: "ok s \<Longrightarrow> 32 dvd length buf \<Longrightarrow>
      \<exists>s'. rd s buf = Some (s', take (length buf) (rest s) @ drop (length (rest s)) buf,
             Inr (min (length buf) (length (rest s)))) \<and> ok s' \<and> rest s' = drop (length buf) (rest s)"
begin

text \<open>The readers between two reads of a stream of whole pairs of nodes.\<close>

definition ready :: "'s commitment_reader \<Rightarrow> bool" where
  "ready r \<longleftrightarrow> ok (cr_source r) \<and> cr_buffer_pos r = 0 \<and> length (cr_buffer r) = BUFFER_SIZE \<and>
     64 dvd length (rest (cr_source r))"

lemma commitment_read_ok:
  assumes "ready r" and "64 dvd length buf"
  defines "n \<equiv> min (min BUFFER_SIZE (length buf)) (length (rest (cr_source r)))"
  shows "\<exists>r'. commitment_read digest rd r buf =
      Some (r', take n (rest (cr_source r)) @ drop n buf, Inr n) \<and> ready r' \<and>
      rest (cr_source r') = drop n (rest (cr_source r)) \<and>
      cr_current_tree r' = cr_current_tree r @ map (sha256_function_hash digest) (chunks 64 (take n (rest (cr_source r))))"
proof -
  let ?X = "rest (cr_source r)" and ?m = "min BUFFER_SIZE (length buf)"
  let ?part = "take ?m (cr_buffer r)"
  have lp: "length ?part = ?m" using assms(1) by (simp add: ready_def)
  have d: "64 dvd ?m" "64 dvd n" using assms by (auto simp: ready_def BUFFER_SIZE_def min_def)
  have "32 dvd length ?part" unfolding lp by (rule dvd_trans [OF _ d(1)]) simp
  then obtain s' where s': "rd (cr_source r) ?part = Some (s', take ?m ?X @ drop (length ?X) ?part, Inr n)"
    "ok s'" "rest s' = drop ?m ?X"
    using read_nodes [of "cr_source r" ?part] assms(1) lp by (auto simp: ready_def n_def)
  define b where "b = take ?m ?X @ drop (length ?X) ?part @ drop ?m (cr_buffer r)"
  have tn: "take n b = take n ?X" by (auto simp: b_def n_def min_def)
  have lb: "length b = BUFFER_SIZE" using assms(1) by (auto simp: b_def ready_def min_def)
  have dr: "drop n ?X = drop ?m ?X" by (auto simp: n_def min_def)
  have "64 dvd length (drop ?m ?X)" using d(1) assms(1) by (auto simp: ready_def)
  moreover have "commitment_read digest rd r buf = Some (try_hash digest (r\<lparr>cr_source := s', cr_buffer := b, cr_buffer_pos := n\<rparr>),
      take n ?X @ drop n buf, Inr n)"
    using assms(1) s'(1) tn by (simp add: commitment_read_def ready_def Let_def b_def n_def)
  moreover have "n mod 64 = 0" using d(2) by simp
  ultimately show ?thesis using s'(2,3) tn lb dr by (simp add: try_hash_def ready_def)
qed

lemma io_copy_ok:
  assumes "ready r"
  shows "\<exists>r'. io_copy (commitment_read digest rd) r out =
      Some (r', out @ rest (cr_source r), Inr (length out + length (rest (cr_source r)))) \<and> cr_buffer_pos r' = 0 \<and>
      cr_current_tree r' = cr_current_tree r @ map (sha256_function_hash digest) (chunks 64 (rest (cr_source r)))"
  using assms
proof (induction "length (rest (cr_source r))" arbitrary: r out rule: less_induct)
  case less
  let ?X = "rest (cr_source r)"
  define n where "n = min (min BUFFER_SIZE 8192) (length ?X)"
  obtain r1 where r1: "commitment_read digest rd r (replicate 8192 0) =
      Some (r1, take n ?X @ drop n (replicate 8192 0), Inr n)" "ready r1" "rest (cr_source r1) = drop n ?X"
      "cr_current_tree r1 = cr_current_tree r @ map (sha256_function_hash digest) (chunks 64 (take n ?X))"
    using commitment_read_ok [OF less.prems, of "replicate 8192 0"] by (auto simp: n_def)
  show ?case
  proof (cases "?X = []")
    case True
    then have n: "n = 0" by (simp add: n_def)
    show ?thesis using r1 by (subst io_copy.simps) (simp add: True n ready_def)
  next
    case False
    then have n0: "0 < n" by (simp add: n_def BUFFER_SIZE_def)
    have "length (rest (cr_source r1)) < length ?X" using False n0 r1(3) by simp
    then obtain r' where IH: "io_copy (commitment_read digest rd) r1 (out @ take n ?X) =
      Some (r', (out @ take n ?X) @ rest (cr_source r1), Inr (length (out @ take n ?X) + length (rest (cr_source r1))))"
      "cr_buffer_pos r' = 0"
      "cr_current_tree r' = cr_current_tree r1 @ map (sha256_function_hash digest) (chunks 64 (rest (cr_source r1)))"
      using less.hyps [OF _ r1(2)] by blast
    have nX: "n \<le> length ?X" "64 dvd n" using less.prems by (auto simp: n_def ready_def BUFFER_SIZE_def min_def)
    have "chunks 64 ?X = chunks 64 (take n ?X) @ chunks 64 (drop n ?X)"
      using chunks_split [OF _ nX(2), of ?X] nX(1) by simp
    then show ?thesis using r1 IH n0 nX(1) by (subst io_copy.simps) (simp add: min_def)
  qed
qed

end

text \<open>
  Behind a \<open>Fr32Reader\<close> every byte source is a source of nodes: the padded form of its bytes.
\<close>

sublocale byte_source \<subseteq> fr32: node_source "fr32_read rd" "padded_stream rest"
  "\<lambda>r. reader_wf r \<and> (rd_done r \<longrightarrow> padded_stream rest r = [])"
proof
  fix s buf
  assume s: "reader_wf s \<and> (rd_done s \<longrightarrow> stream s = [])" and d: "32 dvd length (buf :: u8 list)"
  have m: "take (min (length buf) (length (stream s))) (stream s) = take (length buf) (stream s)"
    "drop (min (length buf) (length (stream s))) (stream s) = drop (length buf) (stream s)"
    "drop (min (length buf) (length (stream s))) buf = drop (length (stream s)) buf"
    by (auto simp: min_def)
  then show "\<exists>s'. fr32_read rd s buf = Some (s', take (length buf) (stream s) @ drop (length (stream s)) buf,
      Inr (min (length buf) (length (stream s)))) \<and> (reader_wf s' \<and> (rd_done s' \<longrightarrow> stream s' = [])) \<and>
      stream s' = drop (length buf) (stream s)"
    using fr32_read_reads [of s buf] s d by auto
qed

section \<open>The commitment\<close>

text \<open>The root of a perfect binary tree over \<open>2 ^ k\<close> nodes, from the top.\<close>

fun subtree_root :: "(u8 list \<Rightarrow> u8 list) \<Rightarrow> nat \<Rightarrow> u8 list list \<Rightarrow> u8 list" where
  "subtree_root digest 0 nodes = hd nodes"
| "subtree_root digest (Suc k) nodes =
     piece_hash digest (subtree_root digest k (take (2 ^ k) nodes)) (subtree_root digest k (drop (2 ^ k) nodes))"

definition parents :: "(u8 list \<Rightarrow> u8 list) \<Rightarrow> u8 list list \<Rightarrow> u8 list list" where
  "parents digest nodes = map (\<lambda>c. piece_hash digest (c ! 0) (c ! 1)) (chunks 2 nodes)"

lemma in_chunks_length: "0 < n \<Longrightarrow> length xs = n * m \<Longrightarrow> c \<in> set (chunks n xs) \<Longrightarrow> length c = n"
proof (induction m arbitrary: xs)
  case (Suc m)
  then have "xs \<noteq> []" by auto
  then show ?case using Suc.IH [of "drop n xs"] Suc.prems chunks_step [of n xs] by auto
qed simp

lemma length_parents: "length xs = 2 * m \<Longrightarrow> length (parents digest xs) = m"
  by (simp add: parents_def chunks_length)

lemma parents_append: "length xs = 2 * m \<Longrightarrow> parents digest (xs @ ys) = parents digest xs @ parents digest ys"
  using chunks_split [of 2 "2 * m" "xs @ ys"] by (simp add: parents_def)

lemma subtree_root_parents:
  "length xs = 2 ^ Suc k \<Longrightarrow> subtree_root digest (Suc k) xs = subtree_root digest k (parents digest xs)"
proof (induction k arbitrary: xs)
  case 0
  then have "xs = [xs ! 0, xs ! 1]" by (cases xs; cases "tl xs") auto
  then obtain a b where "xs = [a, b]" by blast
  then show ?case by (simp add: parents_def chunks_step)
next
  case (Suc k)
  let ?l = "take (2 ^ Suc k) xs" and ?r = "drop (2 ^ Suc k) xs"
  have l: "length ?l = 2 ^ Suc k" "length ?r = 2 ^ Suc k" using Suc.prems by simp_all
  have p: "parents digest xs = parents digest ?l @ parents digest ?r"
    using parents_append [of ?l "2 ^ k" digest ?r] l by simp
  have "length (parents digest ?l) = 2 ^ k" using length_parents [of ?l "2 ^ k"] l by simp
  then show ?case unfolding subtree_root.simps(2) [of digest "Suc k"] Suc.IH [OF l(1)] Suc.IH [OF l(2)]
    by (simp add: p)
qed

lemma subtree_tree_root:
  "length xs = 2 ^ k \<Longrightarrow> tree_root (sha256_multi_node digest) (map (\<lambda>h. (2, h + i)) [0..<k]) xs = Inr (subtree_root digest k xs)"
proof (induction k arbitrary: xs i)
  case 0
  then show ?case by (cases xs) auto
next
  case (Suc k)
  have e: "map (\<lambda>h. (2::nat, h + i)) [0..<Suc k] = (2, i) # map (\<lambda>h. (2, h + Suc i)) [0..<k]"
    by (simp add: upt_conv_Cons map_Suc_upt [symmetric] comp_def del: upt_Suc)
  have l: "length xs = 2 * 2 ^ k" using Suc.prems by simp
  have c: "sha256_multi_node digest c i = Inr (piece_hash digest (c ! 0) (c ! 1))" if "c \<in> set (chunks 2 xs)" for c
  proof -
    have "c = [c ! 0, c ! 1]" using in_chunks_length [OF _ l that] by (cases c; cases "tl c") auto
    then obtain a b where "c = [a, b]" by blast
    then show ?thesis by (simp add: sha256_multi_node_def piece_hash_def sha256_function_hash_def)
  qed
  then have "collectR (\<lambda>c. sha256_multi_node digest c i) (chunks 2 xs) = Inr (parents digest xs)"
    unfolding parents_def by (rule collectR_all_ok)
  then show ?case unfolding e using Suc.IH [of "parents digest xs" "Suc i"] length_parents [OF l]
    subtree_root_parents [OF Suc.prems] by simp
qed

lemma comm_root: "length xs = 2 ^ k \<Longrightarrow>
    tree_root (sha256_multi_node digest) (levels binary_arities k) xs = Inr (subtree_root digest k xs)"
  using subtree_tree_root [of xs k digest 0] by (simp add: levels_def binary_arities_def)

lemma finish_rows_ok: "length row = 2 ^ k \<Longrightarrow> finish_rows digest row = Inr [subtree_root digest k row]"
proof (induction k arbitrary: row)
  case 0
  then show ?case by (subst finish_rows.simps) (cases row; auto)
next
  case (Suc k)
  have l: "length row = 2 * 2 ^ k" using Suc.prems by simp
  have "bindR (at_index c 0) (\<lambda>a. bindR (at_index c 1) (\<lambda>b. Inr (piece_hash digest a b))) =
      Inr (piece_hash digest (c ! 0) (c ! 1))" if "c \<in> set (chunks 2 row)" for c
    using in_chunks_length [OF _ l that] by simp
  then have "next_row digest row = Inr (parents digest row)"
    unfolding next_row_def parents_def by (rule collectR_all_ok)
  moreover have "1 < length row" unfolding l using one_le_power [of "2::nat" k] by linarith
  ultimately show ?case using Suc.IH [of "parents digest row"] length_parents [OF l] subtree_root_parents [OF Suc.prems]
    by (subst finish_rows.simps) simp
qed

lemma hashes_are_parents:
  "length xs = 64 * m \<Longrightarrow> map (sha256_function_hash digest) (chunks 64 xs) = parents digest (chunks 32 xs)"
proof (induction m arbitrary: xs)
  case (Suc m)
  have ne: "xs \<noteq> []" "drop 32 xs \<noteq> []" using Suc.prems by auto
  have "chunks 2 (chunks 32 xs) = [take 32 xs, take 32 (drop 32 xs)] # chunks 2 (chunks 32 (drop 64 xs))"
    using chunks_step [of 32 xs] chunks_step [of 32 "drop 32 xs"] chunks_step [of 2 "chunks 32 xs"] ne by simp
  moreover have "take 64 xs = take 32 xs @ take 32 (drop 32 xs)" using take_add [of 32 32 xs] by simp
  ultimately show ?case using Suc.IH [of "drop 64 xs"] Suc.prems chunks_step [of 64 xs] ne
    by (simp add: parents_def piece_hash_def)
qed (simp add: parents_def)

context node_source
begin

lemma commit_stream:
  assumes "ok s" and "length (rest s) = 64 * 2 ^ k"
  shows "\<exists>r. io_copy (commitment_read digest rd) (commitment_reader_new s) out =
      Some (r, out @ rest s, Inr (length out + length (rest s))) \<and>
      commitment_finish digest r = Inr (subtree_root digest (Suc k) (chunks 32 (rest s)))"
proof -
  let ?r = "commitment_reader_new s"
  have "ready ?r" using assms by (simp add: ready_def commitment_reader_new_def)
  then obtain r where r: "io_copy (commitment_read digest rd) ?r out = Some (r, out @ rest s, Inr (length out + length (rest s)))"
      "cr_buffer_pos r = 0" "cr_current_tree r = map (sha256_function_hash digest) (chunks 64 (rest s))"
    using io_copy_ok [of ?r] by (auto simp: commitment_reader_new_def)
  let ?nodes = "chunks 32 (rest s)"
  have n: "length ?nodes = 2 ^ Suc k" using chunks_length [of 32 "rest s" "2 ^ Suc k"] assms(2) by simp
  have row: "cr_current_tree r = parents digest ?nodes" using r(3) hashes_are_parents [OF assms(2)] by simp
  have "length (parents digest ?nodes) = 2 ^ k" using length_parents [of ?nodes "2 ^ k"] n by simp
  from finish_rows_ok [OF this, of digest] show ?thesis
    using r(1,2) row subtree_root_parents [OF n] by (simp add: commitment_finish_def del: subtree_root.simps)
qed

end
end
