(* ===== verification/Pieces.thy ===== *)
theory Pieces
  imports Commitment_Reader
begin

text \<open>
  Pieces of a sector: \<open>filecoin-proofs/src/pieces.rs\<close> (the commitment to the data of a sector
  from the commitments of its pieces, with the stack that reduces equal neighbours, and the
  alignment of pieces), the types of sizes (\<open>filecoin-proofs/src/types\<close>) and
  \<open>storage-proofs-core/src/pieces.rs\<close>. Sizes are \<open>nat\<close> with the overflow of \<open>u64\<close> as a
  panic. The static map of empty commitments is part of the state. The digest of the \<open>sha2\<close>
  crate is a parameter.
\<close>

section \<open>The code\<close>

definition MINIMUM_PIECE_SIZE :: nat where "MINIMUM_PIECE_SIZE = 127"

record piece_info =
  pc_commitment :: "u8 list"
  pc_size :: nat

definition piece_info_new :: "u8 list \<Rightarrow> nat \<Rightarrow> piece_info res" where
  "piece_info_new commitment sz =
     ensure (commitment \<noteq> replicate 32 0) ''Invalid all zero commitment'' (Inr \<lparr>pc_commitment = commitment, pc_size = sz\<rparr>)"

text \<open>\<open>u64::is_power_of_two\<close>.\<close>

fun is_power_of_two :: "nat \<Rightarrow> bool" where
  "is_power_of_two n = (if n \<le> 1 then n = 1 else even n \<and> is_power_of_two (n div 2))"

declare is_power_of_two.simps [simp del]

lemma bindO_as_bind: "bindO r f = Option.bind r (\<lambda>r. case r of Inl e \<Rightarrow> Some (Inl e) | Inr x \<Rightarrow> f x)"
  by (simp add: bindO_def split: option.splits)

lemma bindO_mono [partial_function_mono]:
  assumes "mono_option B" and "\<And>y. mono_option (\<lambda>f. C y f)"
  shows "mono_option (\<lambda>f. bindO (B f) (\<lambda>y. C y f))"
  unfolding bindO_as_bind
proof (rule bind_mono [OF assms(1)])
  show "mono_option (\<lambda>f. case r of Inl e \<Rightarrow> Some (Inl e) | Inr x \<Rightarrow> C x f)" for r
    using assms(2) option.const_mono by (cases r) auto
qed

subsection \<open>The commitment to the data of a sector\<close>

definition join_piece_infos :: "(u8 list \<Rightarrow> u8 list) \<Rightarrow> piece_info \<Rightarrow> piece_info \<Rightarrow> piece_info res" where
  "join_piece_infos digest left right =
     ensure (pc_size left = pc_size right) ''Piece sizes must be equal''
       (bindR (uadd (pc_size left) (pc_size right)) (\<lambda>sz.
          Inr \<lparr>pc_commitment = piece_hash digest (pc_commitment left) (pc_commitment right), pc_size = sz\<rparr>))"

partial_function (option) zero_loop :: "(u8 list \<Rightarrow> u8 list) \<Rightarrow> nat \<Rightarrow> u8 list \<Rightarrow> nat \<Rightarrow> (u8 list \<times> nat) res option" where
  "zero_loop digest padded commitment hashed_size =
     (if hashed_size < padded
      then bindO (Some (umul hashed_size 2)) (zero_loop digest padded (piece_hash digest commitment commitment))
      else Some (Inr (commitment, hashed_size)))"

definition zero_padding :: "(u8 list \<Rightarrow> u8 list) \<Rightarrow> nat \<Rightarrow> piece_info res option" where
  "zero_padding digest sz =
     (let padded_size = to_padded_bytes sz;
          commitment = replicate 32 0
      in bindO (zero_loop digest padded_size (piece_hash digest commitment commitment) 64) (\<lambda>(commitment, hashed_size).
         Some (ensure (hashed_size = padded_size) ''Hashed size must equal padded size'' (piece_info_new commitment sz))))"

text \<open>The stack: a vector, its end is the top.\<close>

type_synonym stack = "piece_info list"

definition stack_shift :: "stack \<Rightarrow> piece_info \<Rightarrow> stack" where
  "stack_shift st el = st @ [el]"

definition stack_peek :: "stack \<Rightarrow> piece_info res" where
  "stack_peek st = bindR (usub (length st) 1) (at_index st)"

definition stack_peek2 :: "stack \<Rightarrow> piece_info res" where
  "stack_peek2 st = bindR (usub (length st) 2) (at_index st)"

definition stack_pop :: "stack \<Rightarrow> (stack \<times> piece_info) res" where
  "stack_pop st = (if st = [] then Inl (Fail ''empty stack popped'') else Inr (butlast st, last st))"

definition stack_reduce1 :: "(u8 list \<Rightarrow> u8 list) \<Rightarrow> stack \<Rightarrow> (stack \<times> bool) res" where
  "stack_reduce1 digest st =
     (if length st < 2 then Inr (st, False)
      else bindR (stack_peek st) (\<lambda>a. bindR (stack_peek2 st) (\<lambda>b.
        if pc_size a = pc_size b
        then bindR (stack_pop st) (\<lambda>(st, right). bindR (stack_pop st) (\<lambda>(st, left).
             bindR (join_piece_infos digest left right) (\<lambda>joined. Inr (stack_shift st joined, True))))
        else Inr (st, False))))"

lemma reduce1_shrinks: "stack_reduce1 digest st = Inr (st', True) \<Longrightarrow> length st' < length st"
  by (auto simp: stack_reduce1_def bindR_eq_Inr stack_pop_def stack_shift_def split: if_splits)

function stack_reduce :: "(u8 list \<Rightarrow> u8 list) \<Rightarrow> stack \<Rightarrow> stack res" where
  "stack_reduce digest st =
     bindR (stack_reduce1 digest st) (\<lambda>r. if snd r then stack_reduce digest (fst r) else Inr (fst r))"
  by pat_completeness auto
termination
  by (relation "measure (\<lambda>(digest, st). length st)") (auto dest: reduce1_shrinks)

declare stack_reduce.simps [simp del]

definition stack_shift_reduce :: "(u8 list \<Rightarrow> u8 list) \<Rightarrow> stack \<Rightarrow> piece_info \<Rightarrow> stack res" where
  "stack_shift_reduce digest st piece = stack_reduce digest (stack_shift st piece)"

partial_function (option) pad_stack :: "(u8 list \<Rightarrow> u8 list) \<Rightarrow> nat \<Rightarrow> stack \<Rightarrow> stack res option" where
  "pad_stack digest sz st =
     bindO (Some (stack_peek st)) (\<lambda>top.
       if pc_size top < sz
       then bindO (zero_padding digest (pc_size top)) (\<lambda>zero.
            bindO (Some (stack_shift_reduce digest st zero)) (pad_stack digest sz))
       else Some (Inr st))"

fun shift_pieces :: "(u8 list \<Rightarrow> u8 list) \<Rightarrow> piece_info list \<Rightarrow> stack \<Rightarrow> stack res option" where
  "shift_pieces digest [] st = Some (Inr st)"
| "shift_pieces digest (p # ps) st =
     (if \<not> is_power_of_two (to_padded_bytes (pc_size p)) then Some (Inl (Fail ''Piece size must be a power of 2.''))
      else bindO (pad_stack digest (pc_size p) st) (\<lambda>st.
           bindO (Some (stack_shift_reduce digest st p)) (shift_pieces digest ps)))"

partial_function (option) close_stack :: "(u8 list \<Rightarrow> u8 list) \<Rightarrow> stack \<Rightarrow> stack res option" where
  "close_stack digest st =
     (if 1 < length st
      then bindO (Some (stack_peek st)) (\<lambda>top. bindO (zero_padding digest (pc_size top)) (\<lambda>zero.
           bindO (Some (stack_shift_reduce digest st zero)) (close_stack digest)))
      else Some (Inr st))"

text \<open>The static map \<open>COMMITMENTS\<close>, and the commitment of a sector without pieces.\<close>

type_synonym commitments = "nat \<Rightarrow> u8 list option"

definition empty_comm_d :: "(u8 list \<Rightarrow> u8 list) \<Rightarrow> commitments \<Rightarrow> nat \<Rightarrow> (commitments \<times> u8 list) res option" where
  "empty_comm_d digest cache sector_size =
     (case cache sector_size of
        Some comm \<Rightarrow> Some (Inr (cache, comm))
      | None \<Rightarrow>
          (case io_copy (commitment_read digest (fr32_read empty_source_read))
              (commitment_reader_new (fr32_reader_new (to_unpadded_bytes sector_size))) [] of
             None \<Rightarrow> None
           | Some (r, _, res) \<Rightarrow> (case res of
               Inl e \<Rightarrow> Some (Inl (Panic ''failed to copy commitment to sink''))
             | Inr _ \<Rightarrow> Some (bindR (expectR ''failed to create commitment'' (commitment_finish digest r))
                 (\<lambda>comm. Inr (cache(sector_size \<mapsto> comm), comm))))))"

fun sum_padded :: "nat \<Rightarrow> piece_info list \<Rightarrow> nat res" where
  "sum_padded acc [] = Inr acc"
| "sum_padded acc (p # ps) = bindR (uadd acc (to_padded_bytes (pc_size p))) (\<lambda>acc. sum_padded acc ps)"

definition compute_comm_d ::
  "(u8 list \<Rightarrow> u8 list) \<Rightarrow> commitments \<Rightarrow> nat \<Rightarrow> piece_info list \<Rightarrow> (commitments \<times> u8 list) res option" where
  "compute_comm_d digest cache sector_size piece_infos =
     (if piece_infos = [] then empty_comm_d digest cache sector_size
      else if \<not> length piece_infos \<le> to_unpadded_bytes sector_size div MINIMUM_PIECE_SIZE
      then Some (Inl (Fail ''Too many pieces''))
      else bindO (Some (sum_padded 0 piece_infos)) (\<lambda>piece_size.
        if \<not> piece_size \<le> sector_size then Some (Inl (Fail ''Piece is larger than sector.''))
        else if \<not> is_power_of_two (to_padded_bytes (pc_size (hd piece_infos)))
        then Some (Inl (Fail ''Piece size must be a power of 2.''))
        else bindO (shift_pieces digest (tl piece_infos) (stack_shift [] (hd piece_infos))) (\<lambda>stack.
             bindO (close_stack digest stack) (\<lambda>stack.
             Some (ensure (length stack = 1) ''Stack size must be 1.''
               (bindR (stack_pop stack) (\<lambda>(_, p). Inr (cache, pc_commitment p))))))))"

definition verify_pieces ::
  "(u8 list \<Rightarrow> u8 list) \<Rightarrow> commitments \<Rightarrow> u8 list \<Rightarrow> piece_info list \<Rightarrow> nat \<Rightarrow> (commitments \<times> bool) res option" where
  "verify_pieces digest cache comm_d piece_infos sector_size =
     bindO (compute_comm_d digest cache sector_size piece_infos) (\<lambda>(cache, comm_d_calculated).
       Some (Inr (cache, comm_d_calculated = comm_d)))"

subsection \<open>Alignment\<close>

record piece_alignment =
  al_left_bytes :: nat
  al_right_bytes :: nat

definition alignment_sum :: "piece_alignment \<Rightarrow> nat \<Rightarrow> nat res" where
  "alignment_sum al piece_size = bindR (uadd (al_left_bytes al) piece_size) (\<lambda>s. uadd s (al_right_bytes al))"

partial_function (option) needed_loop :: "nat \<Rightarrow> nat \<Rightarrow> nat res option" where
  "needed_loop piece_bytes piece_bytes_needed =
     (if piece_bytes_needed < piece_bytes then bindO (Some (umul piece_bytes_needed 2)) (needed_loop piece_bytes)
      else Some (Inr piece_bytes_needed))"

definition get_piece_alignment :: "nat \<Rightarrow> nat \<Rightarrow> piece_alignment res option" where
  "get_piece_alignment written_bytes piece_bytes =
     bindO (needed_loop piece_bytes MINIMUM_PIECE_SIZE) (\<lambda>piece_bytes_needed.
       let encroaching = written_bytes mod piece_bytes_needed
       in Some (bindR (if 0 < encroaching then usub piece_bytes_needed encroaching else Inr 0) (\<lambda>left_bytes.
                bindR (usub piece_bytes_needed piece_bytes) (\<lambda>right_bytes.
                Inr \<lparr>al_left_bytes = left_bytes, al_right_bytes = right_bytes\<rparr>))))"

fun sum_aligned :: "nat \<Rightarrow> nat list \<Rightarrow> nat res option" where
  "sum_aligned acc [] = Some (Inr acc)"
| "sum_aligned acc (piece_bytes # ps) =
     bindO (get_piece_alignment acc piece_bytes) (\<lambda>al.
     bindO (Some (alignment_sum al piece_bytes)) (\<lambda>s. bindO (Some (uadd acc s)) (\<lambda>acc. sum_aligned acc ps)))"

definition sum_piece_bytes_with_alignment :: "nat list \<Rightarrow> nat res option" where
  "sum_piece_bytes_with_alignment pieces = sum_aligned 0 pieces"

definition get_piece_start_byte :: "nat list \<Rightarrow> nat \<Rightarrow> nat res option" where
  "get_piece_start_byte pieces piece_bytes =
     bindO (sum_piece_bytes_with_alignment pieces) (\<lambda>last_byte.
     bindO (get_piece_alignment last_byte piece_bytes) (\<lambda>alignment.
     Some (uadd last_byte (al_left_bytes alignment))))"

text \<open>A source is given by its contents.\<close>

definition with_alignment :: "u8 list \<Rightarrow> piece_alignment \<Rightarrow> u8 list" where
  "with_alignment source al = replicate (al_left_bytes al) 0 @ source @ replicate (al_right_bytes al) 0"

definition get_aligned_source :: "u8 list \<Rightarrow> nat list \<Rightarrow> nat \<Rightarrow> (nat \<times> piece_alignment \<times> u8 list) res option" where
  "get_aligned_source source pieces piece_bytes =
     bindO (sum_piece_bytes_with_alignment pieces) (\<lambda>written_bytes.
     bindO (get_piece_alignment written_bytes piece_bytes) (\<lambda>al.
     Some (bindR (alignment_sum al piece_bytes) (\<lambda>expected_num_bytes_written.
       Inr (expected_num_bytes_written, al, with_alignment source al)))))"


subsection \<open>Pieces in trees (\<open>storage-proofs-core/src/pieces.rs\<close>)\<close>

text \<open>\<open>next_pow2\<close> is of the \<open>merkletree\<close> crate, \<open>log2_ceil n\<close> is \<open>(n as f64).log2().ceil()\<close>.\<close>

record piece_spec =
  ps_comm_p :: "u8 list"
  ps_position :: nat
  ps_number_of_leaves :: nat

definition height_for_length :: "(nat \<Rightarrow> nat) \<Rightarrow> nat \<Rightarrow> nat" where
  "height_for_length log2_ceil n = (if n = 0 then 0 else log2_ceil n)"

partial_function (option) capacity_loop :: "nat \<Rightarrow> nat \<Rightarrow> nat res option" where
  "capacity_loop capacity cursor =
     (if even cursor then bindO (Some (umul capacity 2)) (\<lambda>capacity. capacity_loop capacity (cursor div 2))
      else Some (Inr capacity))"

definition subtree_capacity :: "(nat \<Rightarrow> nat) \<Rightarrow> nat \<Rightarrow> nat \<Rightarrow> nat res option" where
  "subtree_capacity next_pow2 pos tree_len =
     (if \<not> pos < tree_len then Some (Inl (Fail ''position must be less than tree capacity''))
      else bindO (Some (uadd pos (next_pow2 tree_len))) (capacity_loop 1))"

definition piece_is_aligned :: "(nat \<Rightarrow> nat) \<Rightarrow> nat \<Rightarrow> nat \<Rightarrow> nat \<Rightarrow> bool res option" where
  "piece_is_aligned next_pow2 position len tree_len =
     bindO (subtree_capacity next_pow2 position tree_len) (\<lambda>capacity_at_pos.
       Some (Inr (is_power_of_two capacity_at_pos \<and> len \<le> capacity_at_pos)))"

definition is_aligned :: "(nat \<Rightarrow> nat) \<Rightarrow> piece_spec \<Rightarrow> nat \<Rightarrow> bool res option" where
  "is_aligned next_pow2 p tree_len = piece_is_aligned next_pow2 (ps_position p) (ps_number_of_leaves p) tree_len"

definition proof_length :: "(nat \<Rightarrow> nat) \<Rightarrow> piece_spec \<Rightarrow> nat \<Rightarrow> nat res" where
  "proof_length log2_ceil p tree_len =
     usub (height_for_length log2_ceil tree_len) (height_for_length log2_ceil (ps_number_of_leaves p))"

definition compute_packing ::
  "(nat \<Rightarrow> nat) \<Rightarrow> (nat \<Rightarrow> nat) \<Rightarrow> piece_spec \<Rightarrow> nat \<Rightarrow> ((nat \<times> nat) list \<times> nat) res option" where
  "compute_packing next_pow2 log2_ceil p tree_len =
     bindO (is_aligned next_pow2 p tree_len) (\<lambda>aligned.
       Some (ensure aligned ''UnalignedPiece''
         (bindR (proof_length log2_ceil p tree_len) (\<lambda>n. Inr ([(0, ps_number_of_leaves p)], n)))))"

text \<open>
  \<open>Read::read_exact\<close> of the standard library, and the commitment of a source with the tree of
  the \<open>merkletree\<close> crate, which is given by its root; \<open>try_from_bytes\<close> is of the domain.
\<close>

partial_function (option) read_exact_from ::
  "'s read_op' \<Rightarrow> 's \<Rightarrow> u8 list \<Rightarrow> u8 list \<Rightarrow> ('s \<times> u8 list) res option" where
  "read_exact_from rd s filled buf =
     (if buf = [] then Some (Inr (s, filled))
      else case rd s buf of
        None \<Rightarrow> None
      | Some (s', buf', res) \<Rightarrow> (case res of
          Inl e \<Rightarrow> if e = Interrupted then read_exact_from rd s' filled buf' else Some (Inl (Fail ''read''))
        | Inr n \<Rightarrow>
            if n = 0 then Some (Inl (Fail ''failed to fill whole buffer''))
            else if length buf' < n then Some (Inl (Panic ''slice index out of range''))
            else read_exact_from rd s' (filled @ take n buf') (drop n buf')))"

fun read_leaves ::
  "'s read_op' \<Rightarrow> (u8 list \<Rightarrow> u8 list res) \<Rightarrow> nat \<Rightarrow> 's \<Rightarrow> u8 list \<Rightarrow> u8 list list res option" where
  "read_leaves rd try_from_bytes 0 s buf = Some (Inr [])"
| "read_leaves rd try_from_bytes (Suc parts) s buf =
     bindO (read_exact_from rd s [] buf) (\<lambda>(s, buf). bindO (Some (try_from_bytes buf)) (\<lambda>leaf.
     bindO (read_leaves rd try_from_bytes parts s buf) (\<lambda>leaves. Some (Inr (leaf # leaves)))))"

definition generate_piece_commitment_bytes_from_source ::
  "'s read_op' \<Rightarrow> (u8 list \<Rightarrow> u8 list res) \<Rightarrow> (u8 list list \<Rightarrow> u8 list res) \<Rightarrow> 's \<Rightarrow> nat \<Rightarrow> u8 list res option" where
  "generate_piece_commitment_bytes_from_source rd try_from_bytes tree_root_of_leaves source padded_piece_size =
     (if \<not> 32 < padded_piece_size then Some (Inl (Fail ''piece is too small''))
      else if padded_piece_size mod 32 \<noteq> 0 then Some (Inl (Fail ''piece is not valid size''))
      else let parts = (f64_of_nat padded_piece_size + 31) div NODE_SIZE
           in bindO (read_leaves rd try_from_bytes parts source (replicate NODE_SIZE 0)) (\<lambda>leaves.
              Some (tree_root_of_leaves leaves)))"

subsection \<open>Writing pieces (\<open>filecoin-proofs/src/api/mod.rs\<close>)\<close>

definition ensure_piece_size :: "nat \<Rightarrow> unit res" where
  "ensure_piece_size piece_size =
     ensure (MINIMUM_PIECE_SIZE \<le> piece_size) ''Piece must be at least 127 bytes''
     (ensure (is_power_of_two (to_padded_bytes piece_size)) ''Bit-padded piece size must be a power of 2''
       (Inr ()))"

text \<open>
  The target is a byte vector: writing appends. The source is behind a \<open>BufReader\<close>, which is a
  byte source again.
\<close>

definition add_piece ::
  "(u8 list \<Rightarrow> u8 list) \<Rightarrow> 's read_op \<Rightarrow> 's \<Rightarrow> u8 list \<Rightarrow> nat \<Rightarrow> nat list \<Rightarrow>
   (u8 list \<times> piece_info \<times> nat) res option" where
  "add_piece digest rd source target piece_size piece_lengths =
     bindO (Some (ensure_piece_size piece_size)) (\<lambda>_.
     bindO (sum_piece_bytes_with_alignment piece_lengths) (\<lambda>written_bytes.
     bindO (get_piece_alignment written_bytes piece_size) (\<lambda>al.
     case io_copy (commitment_read digest (fr32_read rd)) (commitment_reader_new (fr32_reader_new source)) [] of
       None \<Rightarrow> None
     | Some (r, copied, Inl e) \<Rightarrow> Some (Inl (Fail ''failed to write and preprocess bytes''))
     | Some (r, copied, Inr n) \<Rightarrow> Some (
         ensure (n \<noteq> 0) ''add_piece: read 0 bytes before EOF from source''
         (ensure (to_unpadded_bytes n = piece_size) ''add_piece: invalid bytes amount written''
           (bindR (commitment_finish digest r) (\<lambda>comm.
            bindR (uadd (al_left_bytes al) (al_right_bytes al)) (\<lambda>w. bindR (uadd w piece_size) (\<lambda>written.
            bindR (piece_info_new comm (to_unpadded_bytes n)) (\<lambda>info.
            Inr (target @ replicate (to_padded_bytes (al_left_bytes al)) 0 @ copied @
                   replicate (to_padded_bytes (al_right_bytes al)) 0, info, written)))))))))))"

definition write_and_preprocess ::
  "(u8 list \<Rightarrow> u8 list) \<Rightarrow> 's read_op \<Rightarrow> 's \<Rightarrow> u8 list \<Rightarrow> nat \<Rightarrow> (u8 list \<times> piece_info \<times> nat) res option" where
  "write_and_preprocess digest rd source target piece_size = add_piece digest rd source target piece_size []"

definition generate_piece_commitment ::
  "'s read_op \<Rightarrow> (u8 list list \<Rightarrow> u8 list res) \<Rightarrow> 's \<Rightarrow> nat \<Rightarrow> piece_info res option" where
  "generate_piece_commitment rd tree_root_of_leaves source piece_size =
     bindO (Some (ensure_piece_size piece_size)) (\<lambda>_.
     bindO (generate_piece_commitment_bytes_from_source (fr32_read rd) Inr tree_root_of_leaves
              (fr32_reader_new source) (to_padded_bytes piece_size)) (\<lambda>commitment.
     Some (piece_info_new commitment piece_size)))"

section \<open>Pieces as trees\<close>

text \<open>
  The specification of a piece: \<open>2 ^ k\<close> leaves, at least four, under a commitment that is
  the root of their tree; and of a row of zeros.
\<close>

definition zero_nodes :: "nat \<Rightarrow> u8 list list" where
  "zero_nodes n = replicate n (replicate 32 0)"

definition unpadded_size :: "nat \<Rightarrow> nat" where
  "unpadded_size k = 127 * 2 ^ (k - 2)"

definition piece_ok :: "(u8 list \<Rightarrow> u8 list) \<Rightarrow> nat \<Rightarrow> u8 list list \<Rightarrow> piece_info \<Rightarrow> bool" where
  "piece_ok digest k leaves p \<longleftrightarrow> 2 \<le> k \<and> length leaves = 2 ^ k \<and> pc_size p = unpadded_size k \<and>
     pc_commitment p = subtree_root digest k leaves"

text \<open>The roots of zeros are not zero, up to the largest supported height.\<close>

definition zeros_ok :: "(u8 list \<Rightarrow> u8 list) \<Rightarrow> bool" where
  "zeros_ok digest \<longleftrightarrow> (\<forall>k\<in>{2..44}. subtree_root digest k (zero_nodes (2 ^ k)) \<noteq> replicate 32 0)"

lemma length_zero_nodes [simp]: "length (zero_nodes n) = n"
  by (simp add: zero_nodes_def)

lemma zero_nodes_add: "zero_nodes (m + n) = zero_nodes m @ zero_nodes n"
  by (simp add: zero_nodes_def replicate_add)

lemma unpadded_size_less_iff: "2 \<le> j \<Longrightarrow> 2 \<le> k \<Longrightarrow> unpadded_size j < unpadded_size k \<longleftrightarrow> j < k"
  by (simp add: unpadded_size_def) arith

lemma unpadded_size_eq_iff: "2 \<le> j \<Longrightarrow> 2 \<le> k \<Longrightarrow> unpadded_size j = unpadded_size k \<longleftrightarrow> j = k"
  by (simp add: unpadded_size_def) arith

lemma unpadded_size_Suc: "2 \<le> k \<Longrightarrow> unpadded_size (Suc k) = unpadded_size k + unpadded_size k"
  by (cases k; cases "k - 1") (simp_all add: unpadded_size_def)

lemma unpadded_size_le: "2 \<le> k \<Longrightarrow> k \<le> 44 \<Longrightarrow> unpadded_size k \<le> 2 ^ 49"
proof -
  assume "k \<le> 44"
  then have "(2::nat) ^ (k - 2) \<le> 2 ^ 42" by (intro power_increasing) simp_all
  then show ?thesis by (simp add: unpadded_size_def)
qed

lemma to_padded_size:
  assumes "2 \<le> k" and "k \<le> 44"
  shows "to_padded_bytes (unpadded_size k) = 2 ^ (k + 5)"
proof -
  obtain j where k: "k = j + 2" using assms(1) by (metis le_Suc_ex add.commute)
  have "8 * unpadded_size k = 254 * (4 * 2 ^ j)" by (simp add: unpadded_size_def k)
  then show ?thesis using to_padded_eq [OF unpadded_size_le [OF assms]]
    by (simp add: pbit_def k power_add)
qed

lemma is_power_of_two_pow [simp]: "is_power_of_two (2 ^ k)"
proof (induction k)
  case 0
  show ?case by (subst is_power_of_two.simps) simp
next
  case (Suc k)
  have "\<not> (2::nat) ^ Suc k \<le> 1" unfolding power_Suc using one_le_power [of "2::nat" k] by linarith
  then show ?case using Suc by (subst is_power_of_two.simps) simp
qed

lemma subtree_zeros_Suc: "subtree_root digest (Suc k) (zero_nodes (2 ^ Suc k)) =
    piece_hash digest (subtree_root digest k (zero_nodes (2 ^ k))) (subtree_root digest k (zero_nodes (2 ^ k)))"
  by (simp add: zero_nodes_def)

lemma zero_loop_ok:
  assumes "i \<le> k" and "k \<le> 44"
  shows "zero_loop digest (2 ^ (k + 5)) (subtree_root digest i (zero_nodes (2 ^ i))) (2 ^ (i + 5)) =
    Some (Inr (subtree_root digest k (zero_nodes (2 ^ k)), 2 ^ (k + 5)))"
  using assms
proof (induction "k - i" arbitrary: i)
  case 0
  then show ?case by (subst zero_loop.simps) simp
next
  case (Suc m)
  then have i: "i < k" "Suc i \<le> k" by simp_all
  have "(2::nat) ^ (Suc i + 5) \<le> 2 ^ 63" using Suc.prems i by (intro power_increasing) simp_all
  then have "umul (2 ^ (i + 5)) 2 = Inr (2 ^ (Suc i + 5))" by (simp add: umul_def power_add)
  moreover have "(2::nat) ^ (i + 5) < 2 ^ (k + 5)" using i(1) by simp
  moreover have "m = k - Suc i" using Suc.hyps(2) by simp
  ultimately show ?case using Suc.hyps(1) [of "Suc i"] i Suc.prems(2)
    by (subst zero_loop.simps) (simp add: subtree_zeros_Suc [symmetric] del: subtree_root.simps power_Suc)
qed

lemma zero_padding_ok:
  assumes "zeros_ok digest" and "2 \<le> k" and "k \<le> 44"
  obtains p where "zero_padding digest (unpadded_size k) = Some (Inr p)" "piece_ok digest k (zero_nodes (2 ^ k)) p"
proof -
  have "piece_hash digest (replicate 32 0) (replicate 32 0) = subtree_root digest 1 (zero_nodes (2 ^ 1))"
    by (simp add: zero_nodes_def numeral_2_eq_2)
  then have "zero_loop digest (2 ^ (k + 5)) (piece_hash digest (replicate 32 0) (replicate 32 0)) 64 =
      Some (Inr (subtree_root digest k (zero_nodes (2 ^ k)), 2 ^ (k + 5)))"
    using zero_loop_ok [of 1 k digest] assms(2,3) by simp
  moreover have "subtree_root digest k (zero_nodes (2 ^ k)) \<noteq> replicate 32 0"
    using assms by (simp add: zeros_ok_def)
  ultimately have "zero_padding digest (unpadded_size k) =
      Some (Inr \<lparr>pc_commitment = subtree_root digest k (zero_nodes (2 ^ k)), pc_size = unpadded_size k\<rparr>)"
    by (simp add: zero_padding_def Let_def to_padded_size [OF assms(2,3)] piece_info_new_def)
  then show ?thesis by (rule that) (simp add: piece_ok_def assms(2))
qed

section \<open>The stack\<close>

text \<open>
  A stack holds pieces of strictly falling sizes; its leaves are those of the pieces in order.
\<close>

type_synonym block = "nat \<times> u8 list list"

definition stacked :: "(u8 list \<Rightarrow> u8 list) \<Rightarrow> block list \<Rightarrow> stack \<Rightarrow> bool" where
  "stacked digest bs st \<longleftrightarrow> list_all2 (\<lambda>b p. piece_ok digest (fst b) (snd b) p) bs st"

definition falling :: "block list \<Rightarrow> bool" where
  "falling bs \<longleftrightarrow> sorted_wrt (\<lambda>a b. fst b < fst a) bs"

definition leaves_of :: "block list \<Rightarrow> u8 list list" where
  "leaves_of bs = concat (map snd bs)"

lemma leaves_of_simps [simp]:
  "leaves_of [] = []" "leaves_of (b # bs) = snd b @ leaves_of bs" "leaves_of (bs @ cs) = leaves_of bs @ leaves_of cs"
  by (simp_all add: leaves_of_def)

lemma stacked_snoc: "stacked digest (bs @ [b]) st \<longleftrightarrow>
    (\<exists>st0 p. st = st0 @ [p] \<and> stacked digest bs st0 \<and> piece_ok digest (fst b) (snd b) p)"
  using list_all2_rev [of "\<lambda>b p. piece_ok digest (fst b) (snd b) p" "bs @ [b]" st]
    list_all2_rev [of "\<lambda>b p. piece_ok digest (fst b) (snd b) p" bs "butlast st"]
  by (cases st rule: rev_cases) (auto simp: stacked_def)

lemma peek_snoc [simp]: "stack_peek (st @ [a]) = Inr a" "stack_peek (st @ [b, a]) = Inr a" "stack_peek2 (st @ [b, a]) = Inr b"
  by (simp_all add: stack_peek_def stack_peek2_def nth_append)

lemma join_ok:
  assumes "piece_ok digest k L p" and "piece_ok digest k M q" and "k \<le> 44"
  obtains r where "join_piece_infos digest p q = Inr r" "piece_ok digest (Suc k) (L @ M) r"
proof -
  have "unpadded_size k + unpadded_size k < 2 ^ 64"
    using unpadded_size_le [of k] assms by (simp add: piece_ok_def)
  then have "join_piece_infos digest p q = Inr \<lparr>pc_commitment = piece_hash digest (pc_commitment p) (pc_commitment q),
      pc_size = unpadded_size k + unpadded_size k\<rparr>"
    using assms by (simp add: join_piece_infos_def piece_ok_def uadd_def)
  then show ?thesis by (rule that) (use assms in \<open>simp add: piece_ok_def unpadded_size_Suc\<close>)
qed

lemma reduce1_two:
  "stack_reduce1 digest (st @ [a, b]) = (if pc_size b = pc_size a
     then bindR (join_piece_infos digest a b) (\<lambda>j. Inr (st @ [j], True)) else Inr (st @ [a, b], False))"
  by (simp add: stack_reduce1_def stack_pop_def stack_shift_def butlast_append)

lemma reduce_ok:
  assumes "stacked digest (bs @ [(k, L)]) st" and "falling bs" and "bs \<noteq> [] \<Longrightarrow> k \<le> fst (last bs)"
    and "length (leaves_of bs @ L) \<le> 2 ^ 44"
  shows "\<exists>bs' st'. stack_reduce digest st = Inr st' \<and> stacked digest bs' st' \<and> falling bs' \<and> bs' \<noteq> [] \<and>
    leaves_of bs' = leaves_of bs @ L \<and> k \<le> fst (last bs')"
  using assms
proof (induction bs arbitrary: k L st rule: rev_induct)
  case Nil
  then obtain p where "st = [p]" by (auto simp: stacked_def list_all2_Cons1)
  then show ?case using Nil
    by (intro exI [of _ "[(k, L)]"]) (simp add: stack_reduce.simps stack_reduce1_def falling_def)
next
  case (snoc b bs)
  obtain k' L' where b: "b = (k', L')" by (cases b)
  obtain st0 p q where st: "st = st0 @ [p, q]" "stacked digest bs st0" "piece_ok digest k' L' p" "piece_ok digest k L q"
    using snoc.prems(1) unfolding stacked_snoc b by auto
  have f: "falling bs" "bs \<noteq> [] \<Longrightarrow> k' < fst (last bs)"
    using snoc.prems(2) by (auto simp: falling_def sorted_wrt_append b)
  have kk: "2 \<le> k" "2 \<le> k'" "length L' = 2 ^ k'" using st(3,4) by (simp_all add: piece_ok_def)
  show ?case
  proof (cases "k = k'")
    case True
    have "length L' \<le> 2 ^ 44" using snoc.prems(4) by (simp add: b)
    then have "k' \<le> 44" using kk(3) power_le_imp_le_exp [of "2::nat" k' 44] by simp
    then obtain j where j: "join_piece_infos digest p q = Inr j" "piece_ok digest (Suc k') (L' @ L) j"
      using join_ok [OF st(3)] st(4) True by blast
    have "stacked digest (bs @ [(Suc k', L' @ L)]) (st0 @ [j])" using st(2) j(2) by (auto simp: stacked_snoc)
    moreover have "bs \<noteq> [] \<Longrightarrow> Suc k' \<le> fst (last bs)" using f(2) by simp
    ultimately obtain bs' st' where IH: "stack_reduce digest (st0 @ [j]) = Inr st'" "stacked digest bs' st'" "falling bs'"
        "bs' \<noteq> []" "leaves_of bs' = leaves_of bs @ L' @ L" "Suc k' \<le> fst (last bs')"
      using snoc.IH [of "Suc k'" "L' @ L" "st0 @ [j]"] f(1) snoc.prems(4) by (auto simp: b)
    have "pc_size q = pc_size p" using st(3,4) True by (simp add: piece_ok_def)
    then have "stack_reduce digest st = stack_reduce digest (st0 @ [j])"
      using j(1) by (subst stack_reduce.simps) (simp add: st(1) reduce1_two)
    then show ?thesis using IH True by (intro exI [of _ bs'] exI [of _ st']) (simp add: b)
  next
    case False
    then have "k < k'" using snoc.prems(3) by (simp add: b)
    moreover have "pc_size q \<noteq> pc_size p" using st(3,4) kk False by (simp add: piece_ok_def unpadded_size_eq_iff)
    then have "stack_reduce digest st = Inr st" by (subst stack_reduce.simps) (simp add: st(1) reduce1_two)
    moreover have "\<forall>x\<in>set bs. k' < fst x" using snoc.prems(2) by (simp add: falling_def sorted_wrt_append b)
    ultimately show ?thesis using snoc.prems(1,2)
      by (intro exI [of _ "bs @ [(k', L'), (k, L)]"] exI [of _ st]) (fastforce simp: b falling_def sorted_wrt_append)
  qed
qed

text \<open>The number of nodes from \<open>n\<close> to the next multiple of \<open>2 ^ k\<close>.\<close>

definition gap :: "nat \<Rightarrow> nat \<Rightarrow> nat" where
  "gap k n = (2 ^ k - n mod 2 ^ k) mod 2 ^ k"

lemma gap_dvd: "(2::nat) ^ k dvd n + gap k n"
proof -
  have "n mod 2 ^ k < 2 ^ k" by simp
  then have "n mod 2 ^ k + gap k n = 0 \<or> n mod 2 ^ k + gap k n = 2 ^ k"
    by (cases "n mod 2 ^ k = 0") (simp_all add: gap_def)
  then have "(n mod 2 ^ k + gap k n) mod 2 ^ k = 0" by auto
  then have "(n + gap k n) mod 2 ^ k = 0" by (simp add: mod_add_left_eq)
  then show ?thesis by (simp add: dvd_eq_mod_eq_0)
qed

lemma gap_less: "gap k n < 2 ^ k"
  by (simp add: gap_def)

lemma gap_0_iff: "gap k n = 0 \<longleftrightarrow> 2 ^ k dvd n"
proof
  assume "gap k n = 0"
  then show "2 ^ k dvd n" using gap_dvd [of k n] by simp
qed (simp add: gap_def dvd_eq_mod_eq_0)

lemma gap_unique:
  assumes "2 ^ k dvd n + z" and "z < 2 ^ k"
  shows "z = gap k n"
proof -
  have "2 ^ k dvd gap k n - z" "2 ^ k dvd z - gap k n"
    using dvd_diff_nat [OF gap_dvd [of k n] assms(1)] dvd_diff_nat [OF assms(1) gap_dvd [of k n]] by simp_all
  moreover have "gap k n - z < 2 ^ k" "z - gap k n < 2 ^ k" using assms(2) gap_less [of k n] by linarith+
  ultimately have "gap k n - z = 0" "z - gap k n = 0" by (metis nat_dvd_not_less neq0_conv)+
  then show ?thesis by linarith
qed

lemma gap_add: "z \<le> gap k n \<Longrightarrow> gap k (n + z) = gap k n - z"
  using gap_unique [of k "n + z" "gap k n - z"] gap_dvd [of k n] gap_less [of k n] by simp

definition sized :: "block list \<Rightarrow> bool" where
  "sized bs \<longleftrightarrow> (\<forall>b\<in>set bs. length (snd b) = 2 ^ fst b)"

lemma stacked_sized: "stacked digest bs st \<Longrightarrow> sized bs"
  unfolding stacked_def by (induction rule: list_all2_induct) (auto simp: sized_def piece_ok_def)

lemma leaves_dvd: "sized bs \<Longrightarrow> \<forall>b\<in>set bs. t \<le> fst b \<Longrightarrow> 2 ^ t dvd length (leaves_of bs)"
  by (induction bs) (auto simp: sized_def le_imp_power_dvd)

lemma leaves_less: "sized bs \<Longrightarrow> falling bs \<Longrightarrow> \<forall>b\<in>set bs. fst b < n \<Longrightarrow> length (leaves_of bs) < 2 ^ n"
proof (induction bs arbitrary: n)
  case (Cons b bs)
  have "length (leaves_of bs) < 2 ^ fst b" using Cons by (simp add: sized_def falling_def)
  then have "length (leaves_of (b # bs)) < 2 ^ Suc (fst b)" using Cons.prems(1) by (simp add: sized_def)
  also have "\<dots> \<le> 2 ^ n" using Cons.prems(3) by (intro power_increasing) (simp_all add: Suc_le_eq)
  finally show ?case .
qed simp

lemma leaves_last:
  assumes "sized bs" and "falling bs" and "bs \<noteq> []"
  shows "2 ^ fst (last bs) dvd length (leaves_of bs)" "\<not> 2 ^ Suc (fst (last bs)) dvd length (leaves_of bs)"
proof -
  obtain cs b where bs: "bs = cs @ [b]" using assms(3) by (metis rev_exhaust)
  have "\<forall>c\<in>set cs. Suc (fst b) \<le> fst c" using assms(2) by (auto simp: bs falling_def sorted_wrt_append Suc_le_eq)
  then have d: "2 ^ Suc (fst b) dvd length (leaves_of cs)" using leaves_dvd [of cs "Suc (fst b)"] assms(1) by (simp add: bs sized_def del: power_Suc)
  have l: "length (leaves_of bs) = length (leaves_of cs) + 2 ^ fst b" using assms(1) by (simp add: bs sized_def)
  have "2 ^ fst b dvd length (leaves_of cs)" using d by (rule power_le_dvd) simp
  then show "2 ^ fst (last bs) dvd length (leaves_of bs)" using assms(1) by (simp add: bs sized_def)
  have "\<not> (2::nat) ^ Suc (fst b) dvd 2 ^ fst b" by (simp add: dvd_power_iff_le del: power_Suc)
  then show "\<not> 2 ^ Suc (fst (last bs)) dvd length (leaves_of bs)"
    using d assms(1) by (simp add: dvd_add_right_iff bs sized_def del: power_Suc)
qed

lemma leaves_hd:
  assumes "sized bs" and "falling bs" and "1 < length bs"
  shows "2 ^ fst (hd bs) < length (leaves_of bs)" "length (leaves_of bs) < 2 ^ Suc (fst (hd bs))"
    "fst (last bs) < fst (hd bs)"
proof -
  obtain b c cs where bs: "bs = b # c # cs" using assms(3) by (cases bs; cases "tl bs") auto
  have "0 < length (leaves_of (c # cs))" using assms(1) by (simp add: bs sized_def)
  then show "2 ^ fst (hd bs) < length (leaves_of bs)" using assms(1) by (simp add: bs sized_def)
  have "\<forall>x\<in>set bs. fst x < Suc (fst b)" using assms(2) by (auto simp: bs falling_def)
  then show "length (leaves_of bs) < 2 ^ Suc (fst (hd bs))" using leaves_less [OF assms(1,2), of "Suc (fst b)"] by (simp add: bs del: power_Suc)
  have "last bs \<in> set (c # cs)" by (simp add: bs)
  then show "fst (last bs) < fst (hd bs)" using assms(2) unfolding bs falling_def by (simp only: sorted_wrt.simps list.sel)
qed

lemma stacked_top: "stacked digest bs st \<Longrightarrow> bs \<noteq> [] \<Longrightarrow>
    \<exists>p. stack_peek st = Inr p \<and> pc_size p = unpadded_size (fst (last bs)) \<and> 2 \<le> fst (last bs)"
  by (cases bs rule: rev_cases) (auto simp: stacked_snoc piece_ok_def)

text \<open>Shifting a piece that is not larger than the top.\<close>

lemma shift_reduce_ok:
  assumes "stacked digest bs st" and "falling bs" and "bs \<noteq> [] \<Longrightarrow> k \<le> fst (last bs)" and "piece_ok digest k L p"
    and "length (leaves_of bs @ L) \<le> 2 ^ 44"
  obtains bs' st' where "stack_shift_reduce digest st p = Inr st'" "stacked digest bs' st'" "falling bs'" "bs' \<noteq> []"
    "leaves_of bs' = leaves_of bs @ L" "k \<le> fst (last bs')"
proof -
  have "stacked digest (bs @ [(k, L)]) (st @ [p])" using assms(1,4) by (auto simp: stacked_snoc)
  then show ?thesis using reduce_ok [OF _ assms(2,3,5)] that by (auto simp: stack_shift_reduce_def stack_shift_def)
qed

text \<open>One round of padding: as many zeros as the top has leaves.\<close>

lemma pad_round:
  assumes "zeros_ok digest" and "stacked digest bs st" and "falling bs" and "bs \<noteq> []"
    and "length (leaves_of bs) + 2 ^ fst (last bs) \<le> 2 ^ 44"
  obtains top p bs' st' where "stack_peek st = Inr top" "pc_size top = unpadded_size (fst (last bs))"
    "zero_padding digest (pc_size top) = Some (Inr p)" "stack_shift_reduce digest st p = Inr st'"
    "stacked digest bs' st'" "falling bs'" "bs' \<noteq> []"
    "leaves_of bs' = leaves_of bs @ zero_nodes (2 ^ fst (last bs))"
proof -
  let ?t = "fst (last bs)"
  obtain top where top: "stack_peek st = Inr top" "pc_size top = unpadded_size ?t" "2 \<le> ?t"
    using stacked_top [OF assms(2,4)] by blast
  have "(2::nat) ^ ?t \<le> 2 ^ 44" using assms(5) by linarith
  then have "?t \<le> 44" using power_le_imp_le_exp [of "2::nat" ?t 44] by simp
  then obtain p where p: "zero_padding digest (unpadded_size ?t) = Some (Inr p)"
      "piece_ok digest ?t (zero_nodes (2 ^ ?t)) p"
    using zero_padding_ok [OF assms(1) top(3)] by blast
  obtain bs' st' where "stack_shift_reduce digest st p = Inr st'" "stacked digest bs' st'" "falling bs'" "bs' \<noteq> []"
    "leaves_of bs' = leaves_of bs @ zero_nodes (2 ^ ?t)"
    by (rule shift_reduce_ok [OF assms(2,3) _ p(2)]) (use assms(5) in auto)
  then show ?thesis using that top p(1) by simp
qed

lemma pad_stack_ok:
  assumes "zeros_ok digest" and "2 \<le> k" and "stacked digest bs st" and "falling bs" and "bs \<noteq> []"
    and "length (leaves_of bs) + gap k (length (leaves_of bs)) \<le> 2 ^ 44"
  shows "\<exists>bs' st'. pad_stack digest (unpadded_size k) st = Some (Inr st') \<and> stacked digest bs' st' \<and> falling bs' \<and>
    bs' \<noteq> [] \<and> leaves_of bs' = leaves_of bs @ zero_nodes (gap k (length (leaves_of bs))) \<and> k \<le> fst (last bs')"
  using assms(3-6)
proof (induction "gap k (length (leaves_of bs))" arbitrary: bs st rule: less_induct)
  case less
  let ?t = "fst (last bs)" and ?X = "leaves_of bs"
  obtain top where top: "stack_peek st = Inr top" "pc_size top = unpadded_size ?t" "2 \<le> ?t"
    using stacked_top [OF less.prems(1,3)] by blast
  note d = leaves_last [OF stacked_sized [OF less.prems(1)] less.prems(2,3)]
  show ?case
  proof (cases "?t < k")
    case True
    have "\<not> 2 ^ k dvd length ?X" using d(2) power_le_dvd [of 2 k "length ?X" "Suc ?t"] True by (auto simp: Suc_le_eq)
    then have g: "0 < gap k (length ?X)" using gap_0_iff [of k "length ?X"] by simp
    have "2 ^ ?t dvd length ?X + gap k (length ?X)" using gap_dvd [of k "length ?X"] True by (auto intro: power_le_dvd)
    then have "2 ^ ?t dvd gap k (length ?X)" using d(1) by (simp add: dvd_add_right_iff)
    then have le: "2 ^ ?t \<le> gap k (length ?X)" using g by (simp add: dvd_imp_le)
    then have "length ?X + 2 ^ ?t \<le> 2 ^ 44" using less.prems(4) by linarith
    then obtain p bs' st' where r: "zero_padding digest (pc_size top) = Some (Inr p)" "stack_shift_reduce digest st p = Inr st'"
        "stacked digest bs' st'" "falling bs'" "bs' \<noteq> []" "leaves_of bs' = ?X @ zero_nodes (2 ^ ?t)"
      using pad_round [OF assms(1) less.prems(1-3)] top(1) by (metis sum.inject(2))
    have g': "gap k (length (leaves_of bs')) = gap k (length ?X) - 2 ^ ?t" using gap_add [OF le] r(6) by simp
    then have "gap k (length (leaves_of bs')) < gap k (length ?X)" using g by simp
    moreover have "length (leaves_of bs') + gap k (length (leaves_of bs')) \<le> 2 ^ 44" using g' le r(6) less.prems(4) by simp
    ultimately obtain bs'' st'' where IH: "pad_stack digest (unpadded_size k) st' = Some (Inr st'')" "stacked digest bs'' st''"
        "falling bs''" "bs'' \<noteq> []" "leaves_of bs'' = leaves_of bs' @ zero_nodes (gap k (length (leaves_of bs')))"
        "k \<le> fst (last bs'')"
      using less.hyps [OF _ r(3-5)] by blast
    have "leaves_of bs'' = ?X @ zero_nodes (gap k (length ?X))"
      using IH(5) zero_nodes_add [of "2 ^ ?t" "gap k (length ?X) - 2 ^ ?t"] le unfolding g' by (simp add: r(6))
    moreover have "pc_size top < unpadded_size k" using True top(2,3) by (simp add: unpadded_size_less_iff)
    ultimately show ?thesis using IH top(1) r(1,2) by (subst pad_stack.simps) auto
  next
    case False
    then have "2 ^ k dvd length ?X" using power_le_dvd [OF d(1), of k] by simp
    then have "gap k (length ?X) = 0" by (simp add: gap_0_iff)
    moreover have "\<not> pc_size top < unpadded_size k" using False top(2,3) assms(2) by (simp add: unpadded_size_less_iff)
    ultimately show ?thesis using less.prems False top(1)
      by (intro exI [of _ bs] exI [of _ st], subst pad_stack.simps) (simp add: zero_nodes_def)
  qed
qed

text \<open>The stack is closed to the next power of two.\<close>

lemma close_stack_ok:
  assumes "zeros_ok digest" and "m \<le> 44" and "stacked digest bs st" and "falling bs" and "bs \<noteq> []"
    and "length (leaves_of bs) \<le> 2 ^ m" and "2 ^ m < 2 * length (leaves_of bs)"
  shows "\<exists>p. close_stack digest st = Some (Inr [p]) \<and>
    pc_commitment p = subtree_root digest m (leaves_of bs @ zero_nodes (2 ^ m - length (leaves_of bs)))"
  using assms(3-7)
proof (induction "2 ^ m - length (leaves_of bs)" arbitrary: bs st rule: less_induct)
  case less
  let ?X = "leaves_of bs" and ?t = "fst (last bs)"
  have len: "length st = length bs" using less.prems(1) by (simp add: stacked_def list_all2_lengthD)
  show ?case
  proof (cases "1 < length bs")
    case False
    then obtain k L where bs: "bs = [(k, L)]" using less.prems(3) by (cases bs) auto
    then obtain p where p: "st = [p]" "piece_ok digest k L p" using less.prems(1) by (auto simp: stacked_def list_all2_Cons1)
    have l: "length L = 2 ^ k" using p(2) by (simp add: piece_ok_def)
    have "(2::nat) ^ k \<le> 2 ^ m" "(2::nat) ^ m < 2 ^ Suc k" using less.prems(4,5) l by (simp_all add: bs)
    then have "k = m" by (metis le_antisym less_Suc_eq_le nat_power_less_imp_less one_less_numeral_iff power_le_imp_le_exp semiring_norm(76) zero_less_numeral)
    then show ?thesis using p l by (subst close_stack.simps) (simp add: bs piece_ok_def zero_nodes_def)
  next
    case True
    note h = leaves_hd [OF stacked_sized [OF less.prems(1)] less.prems(2) True]
    note d = leaves_last [OF stacked_sized [OF less.prems(1)] less.prems(2,3)]
    have "(2::nat) ^ fst (hd bs) < 2 ^ m" using h(1) less.prems(4) by linarith
    then have "Suc (fst (hd bs)) \<le> m" using power_less_imp_less_exp [of "2::nat" "fst (hd bs)" m] by simp
    then have le: "(2::nat) ^ Suc (fst (hd bs)) \<le> 2 ^ m" by (rule power_increasing) simp
    have "?t < m" using h(3) \<open>Suc (fst (hd bs)) \<le> m\<close> by linarith
    have lt: "length ?X < 2 ^ m" using h(2) le by linarith
    have "2 ^ ?t dvd 2 ^ m - length ?X" using d(1) \<open>?t < m\<close> by (intro dvd_diff_nat le_imp_power_dvd) simp_all
    then have "2 ^ ?t \<le> 2 ^ m - length ?X" using lt by (simp add: dvd_imp_le)
    then have le44: "length ?X + 2 ^ ?t \<le> 2 ^ m" using lt by linarith
    also have "(2::nat) ^ m \<le> 2 ^ 44" using assms(2) by (intro power_increasing) simp_all
    finally have b: "length ?X + 2 ^ ?t \<le> 2 ^ 44" .
    obtain top p bs' st' where r: "stack_peek st = Inr top" "zero_padding digest (pc_size top) = Some (Inr p)"
        "stack_shift_reduce digest st p = Inr st'" "stacked digest bs' st'" "falling bs'" "bs' \<noteq> []"
        "leaves_of bs' = ?X @ zero_nodes (2 ^ ?t)"
      using pad_round [OF assms(1) less.prems(1-3) b] by metis
    have "length (leaves_of bs') \<le> 2 ^ m" "2 ^ m < 2 * length (leaves_of bs')"
      using r(7) le44 less.prems(5) by simp_all
    moreover have "2 ^ m - length (leaves_of bs') < 2 ^ m - length ?X"
      using lt by (intro diff_less_mono2) (simp_all add: r(7))
    ultimately obtain q where q: "close_stack digest st' = Some (Inr [q])"
        "pc_commitment q = subtree_root digest m (leaves_of bs' @ zero_nodes (2 ^ m - length (leaves_of bs')))"
      using less.hyps [OF _ r(4-6)] by blast
    have "leaves_of bs' @ zero_nodes (2 ^ m - length (leaves_of bs')) = ?X @ zero_nodes (2 ^ m - length ?X)"
      using zero_nodes_add [of "2 ^ ?t" "2 ^ m - length ?X - 2 ^ ?t"] le44 by (simp add: r(7))
    then show ?thesis using q r(1-3) True len by (subst close_stack.simps) simp
  qed
qed

text \<open>
  The specification of a sector with pieces: each piece is placed at the next multiple of its
  number of leaves, the gap is filled with zeros.
\<close>

definition place :: "u8 list list \<Rightarrow> block \<Rightarrow> u8 list list" where
  "place nodes b = nodes @ zero_nodes (gap (fst b) (length nodes)) @ snd b"

definition sector_nodes :: "block list \<Rightarrow> u8 list list" where
  "sector_nodes bs = foldl place [] bs"

lemma length_foldl_place: "length nodes \<le> length (foldl place nodes bs)"
proof (induction bs arbitrary: nodes)
  case (Cons b bs)
  have "length nodes \<le> length (place nodes b)" by (simp add: place_def)
  then show ?case using Cons [of "place nodes b"] by simp
qed simp

lemma shift_pieces_ok:
  assumes "zeros_ok digest" and "list_all2 (\<lambda>b p. piece_ok digest (fst b) (snd b) p) cs ps"
    and "stacked digest bs st" and "falling bs" and "bs \<noteq> []"
    and "length (foldl place (leaves_of bs) cs) \<le> 2 ^ 44"
  shows "\<exists>bs' st'. shift_pieces digest ps st = Some (Inr st') \<and> stacked digest bs' st' \<and> falling bs' \<and> bs' \<noteq> [] \<and>
    leaves_of bs' = foldl place (leaves_of bs) cs"
  using assms(2-6)
proof (induction cs ps arbitrary: bs st rule: list_all2_induct)
  case Nil
  then show ?case by auto
next
  case (Cons c cs p ps)
  let ?X = "leaves_of bs" and ?k = "fst c"
  have p: "2 \<le> ?k" "length (snd c) = 2 ^ ?k" "pc_size p = unpadded_size ?k" using Cons.hyps(1) by (simp_all add: piece_ok_def)
  have b: "length (place ?X c) \<le> 2 ^ 44" using Cons.prems(4) length_foldl_place [of "place ?X c" cs] by simp
  then have "(2::nat) ^ ?k \<le> 2 ^ 44" by (simp add: place_def p(2))
  then have k: "?k \<le> 44" using power_le_imp_le_exp [of "2::nat" ?k 44] by simp
  have "length ?X + gap ?k (length ?X) \<le> 2 ^ 44" using b by (simp add: place_def)
  then obtain bs1 st1 where 1: "pad_stack digest (pc_size p) st = Some (Inr st1)" "stacked digest bs1 st1" "falling bs1"
      "bs1 \<noteq> []" "leaves_of bs1 = ?X @ zero_nodes (gap ?k (length ?X))" "?k \<le> fst (last bs1)"
    using pad_stack_ok [OF assms(1) p(1) Cons.prems(1-3)] by (auto simp: p(3))
  have "length (leaves_of bs1 @ snd c) \<le> 2 ^ 44" using b by (simp add: 1(5) place_def)
  then obtain bs2 st2 where 2: "stack_shift_reduce digest st1 p = Inr st2" "stacked digest bs2 st2" "falling bs2"
      "bs2 \<noteq> []" "leaves_of bs2 = leaves_of bs1 @ snd c"
    using shift_reduce_ok [OF 1(2,3) 1(6) Cons.hyps(1)] by blast
  have "leaves_of bs2 = place ?X c" by (simp add: 1(5) 2(5) place_def)
  then obtain bs' st' where "shift_pieces digest ps st2 = Some (Inr st')" "stacked digest bs' st'" "falling bs'" "bs' \<noteq> []"
      "leaves_of bs' = foldl place (place ?X c) cs"
    using Cons.IH [OF 2(2-4)] Cons.prems(4) by auto
  then show ?case using 1(1) 2(1) p(1,3) k by (auto simp: to_padded_size)
qed

text \<open>The number of leaves of the pieces alone.\<close>

definition piece_leaves :: "block list \<Rightarrow> nat" where
  "piece_leaves bs = sum_list (map (\<lambda>b. 2 ^ fst b) bs)"

lemma length_place_le:
  "sized bs \<Longrightarrow> length (foldl place nodes bs) \<le> length nodes + 2 * piece_leaves bs"
proof (induction bs arbitrary: nodes)
  case (Cons b bs)
  have "length (place nodes b) \<le> length nodes + 2 * 2 ^ fst b"
    using Cons.prems gap_less [of "fst b" "length nodes"] by (simp add: place_def sized_def)
  then show ?case using Cons.IH [of "place nodes b"] Cons.prems by (simp add: piece_leaves_def sized_def)
qed (simp add: piece_leaves_def)

lemma blocks_sized: "list_all2 (\<lambda>b p. piece_ok digest (fst b) (snd b) p) bs ps \<Longrightarrow> sized bs"
  using stacked_sized [of digest bs ps] by (simp add: stacked_def)

lemma blocks_small:
  assumes "list_all2 (\<lambda>b p. piece_ok digest (fst b) (snd b) p) bs ps" and "piece_leaves bs \<le> 2 ^ 44" and "b \<in> set bs"
  shows "2 \<le> fst b" "fst b \<le> 44"
proof -
  show "2 \<le> fst b" using assms(1,3) by (induction rule: list_all2_induct) (auto simp: piece_ok_def)
  have "2 ^ fst b \<le> piece_leaves bs" unfolding piece_leaves_def using assms(3) by (intro member_le_sum_list) auto
  then have "(2::nat) ^ fst b \<le> 2 ^ 44" using assms(2) by linarith
  then show "fst b \<le> 44" using power_le_imp_le_exp [of "2::nat" "fst b" 44] by simp
qed

lemma sum_padded_ok:
  assumes "list_all2 (\<lambda>b p. piece_ok digest (fst b) (snd b) p) bs ps" and "\<forall>b\<in>set bs. fst b \<le> 44"
    and "acc + 32 * piece_leaves bs < 2 ^ 64"
  shows "sum_padded acc ps = Inr (acc + 32 * piece_leaves bs)"
  using assms
proof (induction arbitrary: acc rule: list_all2_induct)
  case (Cons b bs p ps)
  have "to_padded_bytes (pc_size p) = 32 * 2 ^ fst b"
    using Cons.hyps(1) Cons.prems(1) by (simp add: piece_ok_def to_padded_size power_add)
  then show ?case using Cons.IH [of "acc + 32 * 2 ^ fst b"] Cons.prems
    by (simp add: uadd_def piece_leaves_def algebra_simps)
qed (simp add: piece_leaves_def)

lemma piece_count:
  assumes "list_all2 (\<lambda>b p. piece_ok digest (fst b) (snd b) p) bs ps" and "32 * piece_leaves bs \<le> ss" and "ss \<le> 2 ^ 49"
  shows "length ps \<le> to_unpadded_bytes ss div MINIMUM_PIECE_SIZE"
proof -
  have "4 * length ps \<le> piece_leaves bs" using assms(1)
  proof (induction rule: list_all2_induct)
    case (Cons b bs p ps)
    then have "(2::nat) ^ 2 \<le> 2 ^ fst b" by (intro power_increasing) (simp_all add: piece_ok_def)
    then show ?case using Cons by (simp add: piece_leaves_def)
  qed (simp add: piece_leaves_def)
  then have l: "1024 * length ps \<le> 8 * ss" using assms(2) by linarith
  then have "4 * length ps \<le> 8 * ss div 256" by linarith
  then have "127 * length ps * 8 \<le> 254 * (8 * ss div 256) + 8 * ss mod 256" by linarith
  then have "127 * length ps \<le> (254 * (8 * ss div 256) + 8 * ss mod 256) div 8" by (simp add: less_eq_div_iff_mult_less_eq)
  then have "127 * length ps \<le> to_unpadded_bytes ss" using assms(3) by (simp add: to_unpadded_eq)
  then show ?thesis unfolding MINIMUM_PIECE_SIZE_def by (simp add: less_eq_div_iff_mult_less_eq mult.commute)
qed

lemma next_power: "0 < n \<Longrightarrow> \<exists>m. n \<le> 2 ^ m \<and> 2 ^ m < 2 * (n::nat)"
proof (cases "n = 1")
  case False
  assume "0 < n"
  then obtain i where "2 ^ i < n" "n \<le> 2 ^ (i + 1)" using ex_power_ivl2 [of 2 n] False by auto
  then show ?thesis by (intro exI [of _ "i + 1"]) simp
qed (auto intro: exI [of _ 0])

lemma compute_comm_d_ok:
  assumes "zeros_ok digest" and "list_all2 (\<lambda>b p. piece_ok digest (fst b) (snd b) p) bs ps" and "bs \<noteq> []"
    and "32 * piece_leaves bs \<le> ss" and "ss \<le> 2 ^ 47"
  shows "\<exists>m comm. compute_comm_d digest cache ss ps = Some (Inr (cache, comm)) \<and>
    length (sector_nodes bs) \<le> 2 ^ m \<and> 2 ^ m < 2 * length (sector_nodes bs) \<and>
    tree_root (sha256_multi_node digest) (levels binary_arities m)
      (sector_nodes bs @ zero_nodes (2 ^ m - length (sector_nodes bs))) = Inr comm"
proof -
  obtain b cs p qs where bp: "bs = b # cs" "ps = p # qs" using assms(2,3) by (cases bs; cases ps) auto
  have pl: "piece_leaves bs \<le> 2 ^ 42" using assms(4,5) by simp
  then have small: "2 \<le> fst x" "fst x \<le> 44" if "x \<in> set bs" for x using blocks_small [OF assms(2) _ that] by simp_all
  have sum: "sum_padded 0 ps = Inr (32 * piece_leaves bs)" using sum_padded_ok [OF assms(2), of 0] small pl by simp
  have count: "length ps \<le> to_unpadded_bytes ss div MINIMUM_PIECE_SIZE" using piece_count [OF assms(2,4)] assms(5) by simp
  have n: "length (sector_nodes bs) \<le> 2 ^ 43"
    using length_place_le [OF blocks_sized [OF assms(2)], of "[]"] pl by (simp add: sector_nodes_def)
  have first: "sector_nodes bs = foldl place (snd b) cs"
    by (simp add: sector_nodes_def bp place_def gap_def zero_nodes_def)
  have pb: "piece_ok digest (fst b) (snd b) p" using assms(2) by (simp add: bp)
  have "stacked digest [b] [p]" using pb by (simp add: stacked_def)
  then obtain bs' st' where 1: "shift_pieces digest qs [p] = Some (Inr st')" "stacked digest bs' st'" "falling bs'" "bs' \<noteq> []"
      "leaves_of bs' = sector_nodes bs"
    using shift_pieces_ok [OF assms(1), of cs qs "[b]" "[p]"] assms(2) n first by (auto simp: falling_def bp)
  have "0 < length (snd b)" using pb by (simp add: piece_ok_def)
  then have "0 < length (sector_nodes bs)" using length_foldl_place [of "snd b" cs] unfolding first by linarith
  then obtain m where m: "length (sector_nodes bs) \<le> 2 ^ m" "2 ^ m < 2 * length (sector_nodes bs)"
    using next_power by blast
  have "2 * length (sector_nodes bs) \<le> 2 ^ 44" using n by simp
  with m(2) have "(2::nat) ^ m < 2 ^ 44" by (rule less_le_trans)
  then have "m \<le> 44" using power_less_imp_less_exp [of "2::nat" m 44] by simp
  then obtain q where q: "close_stack digest st' = Some (Inr [q])"
      "pc_commitment q = subtree_root digest m (sector_nodes bs @ zero_nodes (2 ^ m - length (sector_nodes bs)))"
    using close_stack_ok [OF assms(1) _ 1(2-4), of m] m by (auto simp: 1(5))
  have "length (sector_nodes bs @ zero_nodes (2 ^ m - length (sector_nodes bs))) = 2 ^ m" using m(1) by simp
  from comm_root [OF this, of digest] have root: "tree_root (sha256_multi_node digest) (levels binary_arities m)
      (sector_nodes bs @ zero_nodes (2 ^ m - length (sector_nodes bs))) = Inr (pc_commitment q)" using q(2) by simp
  have "is_power_of_two (to_padded_bytes (pc_size p))" using pb small [of b] by (simp add: piece_ok_def to_padded_size bp)
  then have "compute_comm_d digest cache ss ps = Some (Inr (cache, pc_commitment q))"
    using sum count assms(4) 1(1) q(1) by (simp add: compute_comm_d_def bp stack_shift_def stack_pop_def)
  then show ?thesis using m root by blast
qed

section \<open>Alignment\<close>

lemma needed_loop_ok:
  assumes "i \<le> 57" and "b \<le> 127 * 2 ^ 57"
  shows "\<exists>j\<ge>i. needed_loop b (127 * 2 ^ i) = Some (Inr (127 * 2 ^ j)) \<and> b \<le> 127 * 2 ^ j \<and> (j = i \<or> 127 * 2 ^ (j - 1) < b)"
  using assms
proof (induction "57 - i" arbitrary: i)
  case 0
  then have "i = 57" by simp
  then show ?case using 0 by (intro exI [of _ 57], subst needed_loop.simps) simp
next
  case (Suc n)
  have n: "n = 57 - Suc i" "Suc i \<le> 57" using Suc.hyps(2) by simp_all
  show ?case
  proof (cases "127 * 2 ^ i < b")
    case False
    then show ?thesis by (intro exI [of _ i], subst needed_loop.simps) simp
  next
    case True
    have "(2::nat) ^ Suc i \<le> 2 ^ 57" using Suc.hyps(2) by (intro power_increasing) simp_all
    then have "umul (127 * 2 ^ i) 2 = Inr (127 * 2 ^ Suc i)" by (simp add: umul_def)
    moreover obtain j where "Suc i \<le> j" "needed_loop b (127 * 2 ^ Suc i) = Some (Inr (127 * 2 ^ j))" "b \<le> 127 * 2 ^ j"
        "j = Suc i \<or> 127 * 2 ^ (j - 1) < b"
      using Suc.hyps(1) [OF n Suc.prems(2)] by blast
    ultimately show ?thesis using True by (intro exI [of _ j], subst needed_loop.simps) auto
  qed
qed

lemma needed_loop_overflow:
  assumes "i \<le> 57" and "127 * 2 ^ 57 < b"
  shows "needed_loop b (127 * 2 ^ i) = Some (Inl (Panic ''attempt to multiply with overflow''))"
  using assms
proof (induction "57 - i" arbitrary: i)
  case 0
  then have "i = 57" by simp
  then show ?case using 0 by (subst needed_loop.simps) (simp add: umul_def)
next
  case (Suc n)
  have le: "(2::nat) ^ Suc i \<le> 2 ^ 57" using Suc.hyps(2) by (intro power_increasing) simp_all
  then have "umul (127 * 2 ^ i) 2 = Inr (127 * 2 ^ Suc i)" by (simp add: umul_def)
  moreover have "127 * 2 ^ i < b" using le Suc.prems(2) by simp
  ultimately show ?case using Suc.hyps(1) [of "Suc i"] Suc.hyps(2) Suc.prems(2) by (subst needed_loop.simps) simp
qed

lemma alignment_ok:
  assumes "b \<le> 127 * 2 ^ 57"
  obtains j l where "get_piece_alignment w b = Some (Inr \<lparr>al_left_bytes = l, al_right_bytes = 127 * 2 ^ j - b\<rparr>)"
    "b \<le> 127 * 2 ^ j" "j = 0 \<or> 127 * 2 ^ (j - 1) < b" "127 * 2 ^ j dvd w + l" "l < 127 * 2 ^ j"
proof -
  obtain j where j: "needed_loop b 127 = Some (Inr (127 * 2 ^ j))" "b \<le> 127 * 2 ^ j" "j = 0 \<or> 127 * 2 ^ (j - 1) < b"
    using needed_loop_ok [OF _ assms, of 0] by auto
  let ?n = "127 * 2 ^ j :: nat"
  define l where "l = (if 0 < w mod ?n then ?n - w mod ?n else 0)"
  have m: "w mod ?n < ?n" by (rule mod_less_divisor) simp
  have "?n dvd w + l"
  proof (cases "0 < w mod ?n")
    case True
    have "w + l = w div ?n * ?n + ?n" using True m div_mult_mod_eq [of w ?n] by (simp add: l_def)
    then show ?thesis by simp
  next
    case False
    then show ?thesis by (auto simp: l_def)
  qed
  moreover have "l < ?n" by (simp add: l_def)
  moreover have "get_piece_alignment w b = Some (Inr \<lparr>al_left_bytes = l, al_right_bytes = ?n - b\<rparr>)"
    using j(1,2) m by (simp add: get_piece_alignment_def MINIMUM_PIECE_SIZE_def Let_def l_def)
  ultimately show ?thesis using that j(2,3) by blast
qed

text \<open>
  For the sizes of pieces the alignment is the gap of the specification: 127 bytes of data are
  four leaves.
\<close>

lemma alignment_size:
  assumes "2 \<le> k" and "k \<le> 44"
  shows "get_piece_alignment (127 * n) (unpadded_size k) =
    Some (Inr \<lparr>al_left_bytes = 127 * gap (k - 2) n, al_right_bytes = 0\<rparr>)"
proof -
  have "unpadded_size k \<le> 127 * 2 ^ 57" using unpadded_size_le [OF assms] by simp
  then obtain j l where a: "get_piece_alignment (127 * n) (unpadded_size k) =
        Some (Inr \<lparr>al_left_bytes = l, al_right_bytes = 127 * 2 ^ j - unpadded_size k\<rparr>)"
      "unpadded_size k \<le> 127 * 2 ^ j" "j = 0 \<or> 127 * 2 ^ (j - 1) < unpadded_size k" "127 * 2 ^ j dvd 127 * n + l" "l < 127 * 2 ^ j"
    by (rule alignment_ok [of _ "127 * n"])
  have "k - 2 \<le> j" using a(2) by (simp add: unpadded_size_def)
  moreover have "j = 0 \<or> j - 1 < k - 2" using a(3) by (auto simp: unpadded_size_def)
  ultimately have j: "j = k - 2" by auto
  have "127 dvd 127 * n + l" using a(4) by (rule dvd_mult_left)
  then have "127 dvd l" by (simp add: dvd_add_right_iff)
  then obtain l' where l': "l = 127 * l'" by (elim dvdE)
  have "127 * 2 ^ j dvd 127 * (n + l')" using a(4) by (simp only: l' distrib_left)
  then have "2 ^ j dvd n + l'" by (simp only: nat_mult_dvd_cancel1 zero_less_numeral)
  moreover have "l' < 2 ^ j" using a(5) by (simp add: l')
  ultimately have "l' = gap j n" by (rule gap_unique)
  then show ?thesis using a(1) by (simp add: l' j unpadded_size_def)
qed

lemma gap_4: "2 \<le> k \<Longrightarrow> gap k (4 * n) = 4 * gap (k - 2) n"
proof -
  assume "2 \<le> k"
  then obtain j where k: "k = j + 2" by (metis le_Suc_ex add.commute)
  have e: "(2::nat) ^ k = 4 * 2 ^ j" by (simp add: k power_add)
  have "2 ^ k dvd 4 * n + 4 * gap j n" unfolding e distrib_left [symmetric] by (intro mult_dvd_mono dvd_refl gap_dvd)
  moreover have "4 * gap j n < 2 ^ k" using gap_less [of j n] by (simp add: k power_add)
  ultimately show ?thesis using gap_unique [of k "4 * n" "4 * gap j n"] by (simp add: k)
qed

lemma to_padded_127: "127 * n \<le> 2 ^ 49 \<Longrightarrow> to_padded_bytes (127 * n) = 128 * n"
proof -
  have "8 * (127 * n) = 254 * (4 * n)" by simp
  moreover assume "127 * n \<le> 2 ^ 49"
  ultimately show ?thesis using to_padded_eq [of "127 * n"] by (simp add: pbit_def)
qed

lemma bindO_assoc: "bindO (bindO r f) g = bindO r (\<lambda>x. bindO (f x) g)"
  by (simp add: bindO_def split: option.splits sum.splits)

lemma sum_aligned_snoc: "sum_aligned acc (ps @ [p]) = bindO (sum_aligned acc ps) (\<lambda>acc. sum_aligned acc [p])"
proof (induction ps arbitrary: acc)
  case (Cons q ps)
  show ?case by (simp only: append_Cons sum_aligned.simps(2) [of _ q] Cons bindO_assoc)
qed simp

section \<open>Staged sectors\<close>

text \<open>The leaves of a piece are the nodes of its padded bytes.\<close>

definition source_nodes :: "u8 list \<Rightarrow> u8 list list" where
  "source_nodes xs = chunks 32 (pad_spec xs)"

lemma padded_length: "2 \<le> k \<Longrightarrow> length xs = unpadded_size k \<Longrightarrow> length (pad_spec xs) = 32 * 2 ^ k"
proof -
  assume "2 \<le> k" "length xs = unpadded_size k"
  then obtain j where "k = j + 2" "length xs = 127 * 2 ^ j" by (metis le_Suc_ex add.commute add_diff_cancel_right' unpadded_size_def)
  then have "8 * length xs = 254 * (4 * 2 ^ j)" "k = j + 2" by simp_all
  then show ?thesis by (simp add: length_pad_spec power_add)
qed

lemma length_source_nodes: "2 \<le> k \<Longrightarrow> length xs = unpadded_size k \<Longrightarrow> length (source_nodes xs) = 2 ^ k"
  using chunks_length [of 32 "pad_spec xs" "2 ^ k"] padded_length [of k xs] by (simp add: source_nodes_def)

lemma concat_source_nodes: "concat (source_nodes xs) = pad_spec xs"
  by (simp add: source_nodes_def concat_chunks)

lemma node_lengths:
  assumes "2 \<le> k" and "length xs = unpadded_size k"
  shows "\<forall>x\<in>set (source_nodes xs). length x = 32"
proof
  fix x assume "x \<in> set (source_nodes xs)"
  then show "length x = 32" unfolding source_nodes_def by (rule in_chunks_length [OF _ padded_length [OF assms], rotated]) simp
qed

lemma unpadded_of_padded:
  assumes "2 \<le> k" and "k \<le> 44"
  shows "to_unpadded_bytes (32 * 2 ^ k) = unpadded_size k"
proof -
  obtain j where k: "k = j + 2" using assms(1) by (metis le_Suc_ex add.commute)
  have "(2::nat) ^ k \<le> 2 ^ 44" using assms(2) by (intro power_increasing) simp_all
  moreover have "8 * (32 * 2 ^ k) = 256 * (4 * (2::nat) ^ j)" by (simp add: k power_add)
  ultimately show ?thesis by (simp add: to_unpadded_eq unpadded_size_def k)
qed

text \<open>What is copied and the commitment, for a source behind a \<open>Fr32Reader\<close>.\<close>

lemma copy_source:
  assumes "2 \<le> k" and "length xs = unpadded_size k"
  obtains r where "io_copy (commitment_read digest (fr32_read slice_read)) (commitment_reader_new (fr32_reader_new xs)) [] =
      Some (r, pad_spec xs, Inr (32 * 2 ^ k))" "commitment_finish digest r = Inr (subtree_root digest k (source_nodes xs))"
proof -
  obtain j where k: "k = Suc j" using assms(1) by (cases k) auto
  have l: "length (pad_spec xs) = 64 * 2 ^ j" using padded_length [OF assms] by (simp add: k)
  show ?thesis
    using bytes.fr32.commit_stream [of "fr32_reader_new xs" j digest "[]"] that l
    by (simp add: reader_new k source_nodes_def del: subtree_root.simps) auto
qed

lemma add_piece_ok:
  assumes k: "2 \<le> k" "k \<le> 42" and xs: "length xs = unpadded_size k"
    and comm: "subtree_root digest k (source_nodes xs) \<noteq> replicate 32 0"
    and n: "sum_piece_bytes_with_alignment lens = Some (Inr (127 * n))" "n \<le> 2 ^ 41"
  shows "add_piece digest slice_read xs target (length xs) lens =
      Some (Inr (target @ replicate (128 * gap (k - 2) n) 0 @ pad_spec xs,
        \<lparr>pc_commitment = subtree_root digest k (source_nodes xs), pc_size = unpadded_size k\<rparr>,
        127 * gap (k - 2) n + unpadded_size k))"
    and "sum_piece_bytes_with_alignment (lens @ [length xs]) = Some (Inr (127 * (n + gap (k - 2) n + 2 ^ (k - 2))))"
proof -
  obtain r where r: "io_copy (commitment_read digest (fr32_read slice_read)) (commitment_reader_new (fr32_reader_new xs)) [] =
      Some (r, pad_spec xs, Inr (32 * 2 ^ k))" "commitment_finish digest r = Inr (subtree_root digest k (source_nodes xs))"
    using copy_source [OF k(1) xs] by blast
  have p: "to_padded_bytes (unpadded_size k) = 2 ^ (k + 5)" using to_padded_size k by simp
  have u: "unpadded_size k = 127 * 2 ^ (k - 2)" by (simp add: unpadded_size_def)
  have "(2::nat) ^ (k - 2) \<le> 2 ^ 40" using k by (intro power_increasing) simp_all
  then have small: "gap (k - 2) n < 2 ^ 40" "unpadded_size k \<le> 127 * 2 ^ 40" "2 ^ (k - 2) \<le> (2::nat) ^ 40"
    using gap_less [of "k - 2" n] by (simp_all add: u)
  have "(1::nat) \<le> 2 ^ (k - 2)" by simp
  then have e: "ensure_piece_size (unpadded_size k) = Inr ()"
    by (simp add: ensure_piece_size_def MINIMUM_PIECE_SIZE_def p) (simp add: u)
  have al: "get_piece_alignment (127 * n) (unpadded_size k) = Some (Inr \<lparr>al_left_bytes = 127 * gap (k - 2) n, al_right_bytes = 0\<rparr>)"
    using alignment_size k by simp
  have tp: "to_padded_bytes (127 * gap (k - 2) n) = 128 * gap (k - 2) n" "to_padded_bytes 0 = 0"
    using to_padded_127 [of "gap (k - 2) n"] to_padded_127 [of 0] small(1) by simp_all
  have add: "uadd (127 * gap (k - 2) n) (unpadded_size k) = Inr (127 * gap (k - 2) n + unpadded_size k)"
    "uadd (127 * gap (k - 2) n) 0 = Inr (127 * gap (k - 2) n)"
    using small by (simp_all add: uadd_def)
  have tu: "to_unpadded_bytes (32 * 2 ^ k) = unpadded_size k" using unpadded_of_padded k by simp
  have nz: "(32::nat) * 2 ^ k \<noteq> 0" by simp
  show "add_piece digest slice_read xs target (length xs) lens =
      Some (Inr (target @ replicate (128 * gap (k - 2) n) 0 @ pad_spec xs,
        \<lparr>pc_commitment = subtree_root digest k (source_nodes xs), pc_size = unpadded_size k\<rparr>,
        127 * gap (k - 2) n + unpadded_size k))"
    unfolding add_piece_def xs n(1) e bindO_simps al r(1)
    using r(2) tp add tu nz comm by (simp add: piece_info_new_def)
  have "uadd (127 * gap (k - 2) n + unpadded_size k) 0 = Inr (127 * gap (k - 2) n + unpadded_size k)"
    "uadd (127 * n) (127 * gap (k - 2) n + unpadded_size k) = Inr (127 * n + (127 * gap (k - 2) n + unpadded_size k))"
    using small n(2) by (simp_all add: uadd_def)
  then show "sum_piece_bytes_with_alignment (lens @ [length xs]) = Some (Inr (127 * (n + gap (k - 2) n + 2 ^ (k - 2))))"
    using n(1) al add by (simp add: sum_piece_bytes_with_alignment_def sum_aligned_snoc xs alignment_sum_def) (simp add: u)
qed

text \<open>A client that stages pieces: it calls \<open>add_piece\<close> for each source with the sizes before it.\<close>

fun stage_pieces ::
  "(u8 list \<Rightarrow> u8 list) \<Rightarrow> u8 list list \<Rightarrow> u8 list \<Rightarrow> piece_info list \<Rightarrow> nat list \<Rightarrow> (u8 list \<times> piece_info list) res option" where
  "stage_pieces digest [] target infos lens = Some (Inr (target, infos))"
| "stage_pieces digest (xs # xss) target infos lens =
     bindO (add_piece digest slice_read xs target (length xs) lens) (\<lambda>(target, info, written).
       stage_pieces digest xss target (infos @ [info]) (lens @ [length xs]))"

text \<open>
  A source of \<open>2 ^ k\<close> leaves after padding, whose commitment is not zero.
\<close>

definition source_ok :: "(u8 list \<Rightarrow> u8 list) \<Rightarrow> nat \<times> u8 list \<Rightarrow> bool" where
  "source_ok digest s \<longleftrightarrow> 2 \<le> fst s \<and> length (snd s) = unpadded_size (fst s) \<and>
     subtree_root digest (fst s) (source_nodes (snd s)) \<noteq> replicate 32 0"

definition source_block :: "nat \<times> u8 list \<Rightarrow> block" where
  "source_block s = (fst s, source_nodes (snd s))"

lemma pow_quarter: "2 \<le> k \<Longrightarrow> (2::nat) ^ k = 4 * 2 ^ (k - 2)"
  by (cases k; cases "k - 1") simp_all

lemma place_more: "2 \<le> fst b \<Longrightarrow> length (snd b) = 2 ^ fst b \<Longrightarrow> length nodes = 4 * n \<Longrightarrow>
    length (place nodes b) = 4 * (n + gap (fst b - 2) n + 2 ^ (fst b - 2))"
  using pow_quarter [of "fst b"] by (simp add: place_def gap_4)

lemma concat_zero_nodes: "concat (zero_nodes n) = replicate (32 * n) 0"
  by (induction n) (simp_all add: zero_nodes_def replicate_add)

lemma stage_ok:
  assumes "\<forall>s\<in>set srcs. source_ok digest s \<and> fst s \<le> 42" and "length nodes = 4 * n" and "\<forall>x\<in>set nodes. length x = 32"
    and "sum_piece_bytes_with_alignment lens = Some (Inr (127 * n))"
    and "length (foldl place nodes (map source_block srcs)) \<le> 2 ^ 43"
  shows "\<exists>infos'. stage_pieces digest (map snd srcs) (concat nodes) infos lens =
      Some (Inr (concat (foldl place nodes (map source_block srcs)), infos @ infos')) \<and>
    list_all2 (\<lambda>s p. p = \<lparr>pc_commitment = subtree_root digest (fst s) (source_nodes (snd s)), pc_size = length (snd s)\<rparr>)
      srcs infos' \<and>
    (\<forall>x\<in>set (foldl place nodes (map source_block srcs)). length x = 32)"
  using assms
proof (induction srcs arbitrary: nodes n infos lens)
  case Nil
  then show ?case by simp
next
  case (Cons s srcs)
  obtain k xs where s: "s = (k, xs)" by (cases s)
  have ok: "2 \<le> k" "k \<le> 42" "length xs = unpadded_size k" "subtree_root digest k (source_nodes xs) \<noteq> replicate 32 0"
    using Cons.prems(1) by (simp_all add: source_ok_def s)
  let ?nodes = "place nodes (source_block s)"
  let ?info = "\<lparr>pc_commitment = subtree_root digest k (source_nodes xs), pc_size = unpadded_size k\<rparr>"
  have l: "length (source_nodes xs) = 2 ^ k" using length_source_nodes [OF ok(1,3)] .
  have n: "length ?nodes = 4 * (n + gap (k - 2) n + 2 ^ (k - 2))"
    using place_more [of "source_block s" nodes n] ok(1) l Cons.prems(2) by (simp add: source_block_def s)
  have "length ?nodes \<le> 2 ^ 43" using length_foldl_place [of ?nodes "map source_block srcs"] Cons.prems(5) by simp
  then have "n \<le> 2 ^ 41" unfolding n by simp
  note a = add_piece_ok [OF ok Cons.prems(4) this]
  have t: "concat nodes @ replicate (128 * gap (k - 2) n) 0 @ pad_spec xs = concat ?nodes"
    using Cons.prems(2) ok(1) by (simp add: place_def source_block_def s concat_zero_nodes gap_4 concat_source_nodes)
  have nodes: "\<forall>x\<in>set ?nodes. length x = 32"
    using Cons.prems(3) node_lengths [OF ok(1,3)] by (auto simp: place_def source_block_def s zero_nodes_def)
  obtain infos' where IH: "stage_pieces digest (map snd srcs) (concat ?nodes) (infos @ [?info]) (lens @ [length xs]) =
      Some (Inr (concat (foldl place ?nodes (map source_block srcs)), (infos @ [?info]) @ infos'))"
    "list_all2 (\<lambda>s p. p = \<lparr>pc_commitment = subtree_root digest (fst s) (source_nodes (snd s)), pc_size = length (snd s)\<rparr>)
      srcs infos'"
    "\<forall>x\<in>set (foldl place ?nodes (map source_block srcs)). length x = 32"
    using Cons.IH [OF _ n nodes a(2), of "infos @ [?info]"] Cons.prems(1,5) by auto
  have "stage_pieces digest (map snd (s # srcs)) (concat nodes) infos lens =
      stage_pieces digest (map snd srcs) (concat ?nodes) (infos @ [?info]) (lens @ [length xs])"
    using a(1) [of "concat nodes"] by (simp add: s t)
  then show ?case using IH by (intro exI [of _ "?info # infos'"]) (simp add: s ok(3))
qed

text \<open>Reading node by node.\<close>

context node_source
begin

lemma read_exact_node:
  assumes "ok s" and "32 \<le> length (rest s)" and "length buf = 32"
  obtains s' where "read_exact_from rd s [] buf = Some (Inr (s', take 32 (rest s)))" "ok s'" "rest s' = drop 32 (rest s)"
proof -
  obtain s' where s': "rd s buf = Some (s', take 32 (rest s), Inr 32)" "ok s'" "rest s' = drop 32 (rest s)"
    using read_nodes [OF assms(1), of buf] assms(2,3) by auto
  moreover have "take 32 (rest s) \<noteq> []" "buf \<noteq> []" using assms(2,3) by auto
  ultimately have "read_exact_from rd s [] buf = Some (Inr (s', take 32 (rest s)))"
    using assms(2,3) by (subst read_exact_from.simps) (simp add: read_exact_from.simps)
  then show ?thesis using that s'(2,3) by blast
qed

lemma read_leaves_ok:
  assumes "ok s" and "length (rest s) = 32 * n" and "length buf = 32"
  shows "read_leaves rd Inr n s buf = Some (Inr (chunks 32 (rest s)))"
  using assms
proof (induction n arbitrary: s buf)
  case (Suc n)
  have ne: "32 \<le> length (rest s)" "rest s \<noteq> []" using Suc.prems(2) by auto
  obtain s' where s': "read_exact_from rd s [] buf = Some (Inr (s', take 32 (rest s)))" "ok s'" "rest s' = drop 32 (rest s)"
    using read_exact_node [OF Suc.prems(1) ne(1) Suc.prems(3)] by blast
  then show ?case using Suc.IH [OF s'(2), of "take 32 (rest s)"] Suc.prems(2) ne chunks_step [of 32 "rest s"] by simp
qed simp

end

text \<open>The documented behaviour of the binary trees of the \<open>merkletree\<close> crate.\<close>

definition binary_tree_ok :: "(u8 list \<Rightarrow> u8 list) \<Rightarrow> (u8 list list \<Rightarrow> u8 list res) \<Rightarrow> bool" where
  "binary_tree_ok digest T \<longleftrightarrow> (\<forall>k leaves. length leaves = 2 ^ k \<longrightarrow>
     T leaves = tree_root (sha256_multi_node digest) (levels binary_arities k) leaves)"

lemma generate_piece_ok:
  assumes "source_ok digest s" and "fst s \<le> 42" and "binary_tree_ok digest T"
  shows "generate_piece_commitment slice_read T (snd s) (length (snd s)) =
    Some (Inr \<lparr>pc_commitment = subtree_root digest (fst s) (source_nodes (snd s)), pc_size = length (snd s)\<rparr>)"
proof -
  obtain k xs where s: "s = (k, xs)" by (cases s)
  have ok: "2 \<le> k" "k \<le> 42" "length xs = unpadded_size k" "subtree_root digest k (source_nodes xs) \<noteq> replicate 32 0"
    using assms by (simp_all add: source_ok_def s)
  have p: "to_padded_bytes (unpadded_size k) = 32 * 2 ^ k" using to_padded_size [of k] ok(1,2) by (simp add: power_add)
  have "(2::nat) ^ k \<le> 2 ^ 42" "(2::nat) ^ 2 \<le> 2 ^ k" using power_increasing [OF ok(2), of "2::nat"] power_increasing [OF ok(1), of "2::nat"] by simp_all
  then have f: "f64_of_nat (32 * 2 ^ k) = 32 * 2 ^ k" "32 < 32 * (2::nat) ^ k" by (simp_all add: f64_exact)
  have "(32 * 2 ^ k + 31) div 32 = (2::nat) ^ k" by simp
  then have parts: "(f64_of_nat (32 * 2 ^ k) + 31) div NODE_SIZE = 2 ^ k" by (simp add: f(1) NODE_SIZE_def)
  have leaves: "read_leaves (fr32_read slice_read) Inr (2 ^ k) (fr32_reader_new xs) (replicate 32 0) = Some (Inr (source_nodes xs))"
    using bytes.fr32.read_leaves_ok [of "fr32_reader_new xs" "2 ^ k" "replicate 32 0"] padded_length [OF ok(1,3)]
    by (simp add: reader_new source_nodes_def)
  have root: "T (source_nodes xs) = Inr (subtree_root digest k (source_nodes xs))"
    using assms(3) length_source_nodes [OF ok(1,3)] comm_root [of "source_nodes xs" k digest] by (simp add: binary_tree_ok_def)
  have "(1::nat) \<le> 2 ^ (k - 2)" by simp
  moreover have "32 * 2 ^ k = (2::nat) ^ (k + 5)" by (simp add: power_add)
  ultimately have "ensure_piece_size (unpadded_size k) = Inr ()"
    using is_power_of_two_pow [of "k + 5"] by (simp add: ensure_piece_size_def MINIMUM_PIECE_SIZE_def p) (simp add: unpadded_size_def)
  then show ?thesis using leaves parts root f(2) ok(4)
    by (simp add: generate_piece_commitment_def generate_piece_commitment_bytes_from_source_def s ok(3) p NODE_SIZE_def
        Let_def piece_info_new_def)
qed

text \<open>The empty sector.\<close>

definition commitments_ok :: "(u8 list \<Rightarrow> u8 list) \<Rightarrow> commitments \<Rightarrow> bool" where
  "commitments_ok digest cache \<longleftrightarrow> (\<forall>k\<in>{2..42}. \<forall>comm. cache (32 * 2 ^ k) = Some comm \<longrightarrow>
     tree_root (sha256_multi_node digest) (levels binary_arities k) (zero_nodes (2 ^ k)) = Inr comm)"

lemma pad_zeros: "pad_spec (replicate n 0) = replicate (32 * ((8 * n + 253) div 254)) 0"
  by (rule bytes_eqI) (simp_all add: length_pad_spec pad_spec_def nbit_bytes_of pad_nbit_def)

lemma empty_comm_d_ok:
  assumes "2 \<le> k" and "k \<le> 42" and "commitments_ok digest cache"
  shows "\<exists>cache' comm. empty_comm_d digest cache (32 * 2 ^ k) = Some (Inr (cache', comm)) \<and> commitments_ok digest cache' \<and>
    cache' (32 * 2 ^ k) = Some comm"
proof (cases "cache (32 * 2 ^ k)")
  case (Some comm)
  then show ?thesis using assms(3) by (simp add: empty_comm_d_def)
next
  case None
  obtain j where k: "k = Suc j" using assms(1) by (cases k) auto
  let ?n = "to_unpadded_bytes (32 * 2 ^ k)"
  have n: "?n = unpadded_size k" using unpadded_of_padded assms(1,2) by simp
  have p: "pad_spec (replicate ?n 0) = replicate (32 * 2 ^ k) 0"
    using padded_length [of k "replicate ?n 0"] assms(1) n pad_zeros [of ?n] by (simp add: length_pad_spec)
  have nodes: "chunks 32 (replicate (32 * 2 ^ k) 0) = zero_nodes (2 ^ k)"
    using chunks_concat [of 32 "zero_nodes (2 ^ k)"] concat_zero_nodes [of "2 ^ k"] by (simp add: zero_nodes_def)
  have "length (pad_spec (replicate ?n 0)) = 64 * 2 ^ j" unfolding p by (simp add: k)
  then obtain r where r: "io_copy (commitment_read digest (fr32_read empty_source_read)) (commitment_reader_new (fr32_reader_new ?n)) [] =
      Some (r, pad_spec (replicate ?n 0), Inr (length (pad_spec (replicate ?n 0))))"
      "commitment_finish digest r = Inr (subtree_root digest k (zero_nodes (2 ^ k)))"
    using zeros.fr32.commit_stream [of "fr32_reader_new ?n" j digest "[]"] nodes p
    by (auto simp: reader_new k simp del: subtree_root.simps)
  let ?c = "subtree_root digest k (zero_nodes (2 ^ k))"
  have e: "empty_comm_d digest cache (32 * 2 ^ k) = Some (Inr (cache(32 * 2 ^ k \<mapsto> ?c), ?c))"
    using None r by (simp add: empty_comm_d_def)
  have "commitments_ok digest (cache(32 * 2 ^ k \<mapsto> ?c))"
    using assms(3) comm_root [of "zero_nodes (2 ^ k)" k digest] by (auto simp: commitments_ok_def)
  then show ?thesis using e by simp
qed

text \<open>
  The sum of the sizes does not bound the tree: three pieces of 128, 512 and 128 padded bytes are
  accepted for a sector of 1024 bytes, and get the root of a tree over 2048 bytes.
\<close>

lemma pieces_exceed_sector:
  assumes "zeros_ok digest" and "piece_ok digest 2 L p" and "piece_ok digest 4 M q" and "piece_ok digest 2 N r"
  shows "\<exists>comm. compute_comm_d digest cache 1024 [p, q, r] = Some (Inr (cache, comm)) \<and>
    tree_root (sha256_multi_node digest) (levels binary_arities 6)
      (L @ zero_nodes 12 @ M @ N @ zero_nodes 28) = Inr comm"
proof -
  let ?bs = "[(2, L), (4, M), (2, N)]"
  have l: "length L = 4" "length M = 16" "length N = 4" using assms(2-4) by (simp_all add: piece_ok_def)
  have s: "sector_nodes ?bs = L @ zero_nodes 12 @ M @ N"
    by (simp add: sector_nodes_def place_def gap_def l zero_nodes_def)
  obtain m comm where m: "compute_comm_d digest cache 1024 [p, q, r] = Some (Inr (cache, comm))"
      "36 \<le> (2::nat) ^ m" "(2::nat) ^ m < 72"
      "tree_root (sha256_multi_node digest) (levels binary_arities m) (sector_nodes ?bs @ zero_nodes (2 ^ m - 36)) = Inr comm"
    using compute_comm_d_ok [OF assms(1), of ?bs "[p, q, r]" 1024 cache] assms(2-4) by (auto simp: piece_leaves_def s l)
  have "(2::nat) ^ m < 2 ^ 7" using m(3) by simp
  then have "m < 7" using power_less_imp_less_exp [of "2::nat" m 7] by simp
  moreover have "(2::nat) ^ 5 < 2 ^ m" using m(2) by simp
  then have "5 < m" using power_less_imp_less_exp [of "2::nat" 5 m] by simp
  ultimately have "m = 6" by simp
  then show ?thesis using m(1,4) by (simp add: s)
qed

lemma length_concat_nodes_32: "\<forall>x\<in>set xs. length x = 32 \<Longrightarrow> length (concat xs) = 32 * length xs"
  by (induction xs) simp_all

section \<open>Properties\<close>

text \<open>
  C20. Pieces that are staged with \<open>add_piece\<close>, one after another and each with the sizes of
  those before, make a sector whose commitment is computed from their infos: staging succeeds,
  the info of each piece is the one \<open>generate_piece_commitment\<close> gives, and
  \<open>compute_comm_d\<close>, which sees only the infos, returns the root of the tree over the
  staged bytes (zeros up to the next power of two), so \<open>verify_pieces\<close> accepts this root and no other.
\<close>
theorem staged_sector_commitment:
  assumes "zeros_ok digest" and "binary_tree_ok digest T" and "srcs \<noteq> []" and "\<forall>s\<in>set srcs. source_ok digest s"
    and "sum_list (map (\<lambda>s. 32 * 2 ^ fst s) srcs) \<le> sector_size" and "sector_size \<le> 2 ^ 47"
  shows "\<exists>target infos comm m. stage_pieces digest (map snd srcs) [] [] [] = Some (Inr (target, infos)) \<and>
    list_all2 (\<lambda>s p. generate_piece_commitment slice_read T (snd s) (length (snd s)) = Some (Inr p)) srcs infos \<and>
    compute_comm_d digest cache sector_size infos = Some (Inr (cache, comm)) \<and>
    (\<forall>c. verify_pieces digest cache c infos sector_size = Some (Inr (cache, comm = c))) \<and>
    length target \<le> 32 * 2 ^ m \<and> 32 * 2 ^ m < 2 * length target \<and>
    tree_root (sha256_multi_node digest) (levels binary_arities m)
      (chunks 32 (target @ replicate (32 * 2 ^ m - length target) 0)) = Inr comm"
proof -
  let ?bs = "map source_block srcs" and ?info = "\<lambda>s. \<lparr>pc_commitment = subtree_root digest (fst s) (source_nodes (snd s)), pc_size = length (snd s)\<rparr>"
  have pl: "32 * piece_leaves ?bs \<le> sector_size" using assms(5)
    by (simp add: piece_leaves_def source_block_def comp_def sum_list_const_mult)
  have blocks: "list_all2 (\<lambda>b p. piece_ok digest (fst b) (snd b) p) ?bs (map ?info srcs)"
    using assms(4) by (auto simp: list_all2_conv_all_nth source_block_def source_ok_def piece_ok_def length_source_nodes)
  have sized: "sized ?bs" using blocks_sized [OF blocks] .
  have small: "fst s \<le> 42" if "s \<in> set srcs" for s
  proof -
    have "2 ^ fst (source_block s) \<le> piece_leaves ?bs" unfolding piece_leaves_def using that by (intro member_le_sum_list) auto
    then have "(2::nat) ^ fst s \<le> 2 ^ 42" using pl assms(6) by (simp add: source_block_def)
    then show ?thesis using power_le_imp_le_exp [of "2::nat" "fst s" 42] by simp
  qed
  have n: "length (foldl place [] ?bs) \<le> 2 ^ 43" using length_place_le [OF sized, of "[]"] pl assms(6) by simp
  obtain infos where st: "stage_pieces digest (map snd srcs) [] [] [] = Some (Inr (concat (sector_nodes ?bs), infos))"
      "list_all2 (\<lambda>s p. p = ?info s) srcs infos" "\<forall>x\<in>set (sector_nodes ?bs). length x = 32"
    using stage_ok [of srcs digest "[]" 0 "[]" "[]"] assms(4) small n
    by (auto simp: sector_nodes_def sum_piece_bytes_with_alignment_def)
  have infos: "infos = map ?info srcs" using st(2) by (auto simp: list_all2_conv_all_nth intro: nth_equalityI)
  obtain m comm where c: "compute_comm_d digest cache sector_size infos = Some (Inr (cache, comm))"
      "length (sector_nodes ?bs) \<le> 2 ^ m" "2 ^ m < 2 * length (sector_nodes ?bs)"
      "tree_root (sha256_multi_node digest) (levels binary_arities m)
        (sector_nodes ?bs @ zero_nodes (2 ^ m - length (sector_nodes ?bs))) = Inr comm"
    using compute_comm_d_ok [OF assms(1) blocks _ pl assms(6), of cache] assms(3) infos by auto
  have lt: "length (concat (sector_nodes ?bs)) = 32 * length (sector_nodes ?bs)" using length_concat_nodes_32 [OF st(3)] .
  have pad: "concat (sector_nodes ?bs) @ replicate (32 * 2 ^ m - length (concat (sector_nodes ?bs))) 0 =
      concat (sector_nodes ?bs @ zero_nodes (2 ^ m - length (sector_nodes ?bs)))"
    by (simp add: lt concat_zero_nodes right_diff_distrib')
  have "\<forall>x\<in>set (sector_nodes ?bs @ zero_nodes (2 ^ m - length (sector_nodes ?bs))). length x = 32"
    using st(3) by (auto simp: zero_nodes_def)
  then have "chunks 32 (concat (sector_nodes ?bs) @ replicate (32 * 2 ^ m - length (concat (sector_nodes ?bs))) 0) =
      sector_nodes ?bs @ zero_nodes (2 ^ m - length (sector_nodes ?bs))"
    unfolding pad by (intro chunks_concat) simp_all
  moreover have "list_all2 (\<lambda>s p. generate_piece_commitment slice_read T (snd s) (length (snd s)) = Some (Inr p)) srcs infos"
    unfolding infos using generate_piece_ok [OF _ _ assms(2)] assms(4) small by (simp add: list_all2_conv_all_nth)
  ultimately show ?thesis using st(1) c lt by (intro exI conjI allI) (auto simp: verify_pieces_def)
qed

definition toy_node_digest :: "u8 list \<Rightarrow> u8 list" where
  "toy_node_digest xs = 1 # map (\<lambda>i. xs ! i + 2 * xs ! (i + 32)) [0..<31]"

lemma toy_root_nonzero: "1 \<le> k \<Longrightarrow> subtree_root toy_node_digest k nodes \<noteq> replicate 32 0"
  by (cases k) (simp_all add: piece_hash_def sha256_function_hash_def trim_to_fr32_def toy_node_digest_def
      numeral_eq_Suc del: upt_Suc)

definition toy_binary_tree :: "u8 list list \<Rightarrow> u8 list res" where
  "toy_binary_tree leaves = bindR (finish_rows toy_node_digest leaves) (\<lambda>row. at_index row 0)"

lemma toy_binary_tree_ok: "binary_tree_ok toy_node_digest toy_binary_tree"
  by (auto simp: binary_tree_ok_def toy_binary_tree_def finish_rows_ok comm_root)

definition toy_sources :: "(nat \<times> u8 list) list" where
  "toy_sources = [(2, replicate 127 5), (3, replicate 254 7)]"

theorem staged_sector_commitment_witness:
  "\<exists>target infos comm m. stage_pieces toy_node_digest (map snd toy_sources) [] [] [] = Some (Inr (target, infos)) \<and>
    list_all2 (\<lambda>s p. generate_piece_commitment slice_read toy_binary_tree (snd s) (length (snd s)) = Some (Inr p))
      toy_sources infos \<and>
    compute_comm_d toy_node_digest (\<lambda>_. None) 1024 infos = Some (Inr (\<lambda>_. None, comm)) \<and>
    (\<forall>c. verify_pieces toy_node_digest (\<lambda>_. None) c infos 1024 = Some (Inr (\<lambda>_. None, comm = c))) \<and>
    length target \<le> 32 * 2 ^ m \<and> 32 * 2 ^ m < 2 * length target \<and>
    tree_root (sha256_multi_node toy_node_digest) (levels binary_arities m)
      (chunks 32 (target @ replicate (32 * 2 ^ m - length target) 0)) = Inr comm"
  by (rule staged_sector_commitment [OF _ toy_binary_tree_ok])
    (simp_all add: zeros_ok_def source_ok_def unpadded_size_def toy_sources_def toy_root_nonzero)

text \<open>
  C39. The alignment of a piece of any size: the bytes needed are the least \<open>127 * 2 ^ j\<close> that
  hold the piece, the left padding moves the start to the next multiple of them (a part of the
  tree of its own), the right padding fills them. A size above \<open>127 * 2 ^ 57\<close> overflows
  before the loop ends.
\<close>
theorem piece_alignment_ok:
  "(piece_bytes \<le> 127 * 2 ^ 57 \<longrightarrow> (\<exists>al j. get_piece_alignment written_bytes piece_bytes = Some (Inr al) \<and>
      (j = 0 \<or> 127 * 2 ^ (j - 1) < piece_bytes) \<and> piece_bytes + al_right_bytes al = 127 * 2 ^ j \<and>
      al_left_bytes al < 127 * 2 ^ j \<and> 127 * 2 ^ j dvd written_bytes + al_left_bytes al)) \<and>
   (127 * 2 ^ 57 < piece_bytes \<longrightarrow>
      get_piece_alignment written_bytes piece_bytes = Some (Inl (Panic ''attempt to multiply with overflow'')))"
proof (intro conjI impI)
  assume "piece_bytes \<le> 127 * 2 ^ 57"
  then obtain j l where "get_piece_alignment written_bytes piece_bytes =
        Some (Inr \<lparr>al_left_bytes = l, al_right_bytes = 127 * 2 ^ j - piece_bytes\<rparr>)"
      "piece_bytes \<le> 127 * 2 ^ j" "j = 0 \<or> 127 * 2 ^ (j - 1) < piece_bytes" "127 * 2 ^ j dvd written_bytes + l" "l < 127 * 2 ^ j"
    by (rule alignment_ok [of _ written_bytes])
  then show "\<exists>al j. get_piece_alignment written_bytes piece_bytes = Some (Inr al) \<and>
      (j = 0 \<or> 127 * 2 ^ (j - 1) < piece_bytes) \<and> piece_bytes + al_right_bytes al = 127 * 2 ^ j \<and>
      al_left_bytes al < 127 * 2 ^ j \<and> 127 * 2 ^ j dvd written_bytes + al_left_bytes al"
    by (intro exI [of _ "\<lparr>al_left_bytes = l, al_right_bytes = 127 * 2 ^ j - piece_bytes\<rparr>"] exI [of _ j]) simp
next
  assume "127 * 2 ^ 57 < piece_bytes"
  from needed_loop_overflow [OF _ this, of 0]
  show "get_piece_alignment written_bytes piece_bytes = Some (Inl (Panic ''attempt to multiply with overflow''))"
    by (simp add: get_piece_alignment_def MINIMUM_PIECE_SIZE_def)
qed

theorem piece_alignment_ok_witness:
  "(\<exists>al j. get_piece_alignment 300 300 = Some (Inr al) \<and> (j = 0 \<or> 127 * 2 ^ (j - 1) < (300::nat)) \<and>
     300 + al_right_bytes al = 127 * 2 ^ j \<and> al_left_bytes al < 127 * 2 ^ j \<and> 127 * 2 ^ j dvd 300 + al_left_bytes al) \<and>
   get_piece_alignment 0 (2 ^ 64 - 1) = Some (Inl (Panic ''attempt to multiply with overflow''))"
  using piece_alignment_ok [of 300 300] piece_alignment_ok [of "2 ^ 64 - 1" 0] by simp

text \<open>
  C40. A sector without pieces gets the root of the tree of zeros, computed through the padding
  and the hashing reader, and the static map of such commitments stays right: any sequence of
  calls keeps the invariant that every entry is the root of zeros.
\<close>
theorem empty_sector_commitment:
  assumes "commitments_ok digest cache" and "2 \<le> k" and "k \<le> 42"
  shows "\<exists>cache' comm. compute_comm_d digest cache (32 * 2 ^ k) [] = Some (Inr (cache', comm)) \<and>
    commitments_ok digest cache' \<and> cache' (32 * 2 ^ k) = Some comm \<and>
    tree_root (sha256_multi_node digest) (levels binary_arities k) (replicate (2 ^ k) (replicate 32 0)) = Inr comm"
proof -
  obtain cache' comm where c: "empty_comm_d digest cache (32 * 2 ^ k) = Some (Inr (cache', comm))" "commitments_ok digest cache'"
      "cache' (32 * 2 ^ k) = Some comm"
    using empty_comm_d_ok [OF assms(2,3,1)] by blast
  then have "tree_root (sha256_multi_node digest) (levels binary_arities k) (zero_nodes (2 ^ k)) = Inr comm"
    using assms(2,3) by (simp add: commitments_ok_def)
  then show ?thesis using c by (simp add: compute_comm_d_def zero_nodes_def)
qed

theorem empty_sector_commitment_witness:
  "\<exists>cache' comm. compute_comm_d toy_node_digest (\<lambda>_. None) 256 [] = Some (Inr (cache', comm)) \<and>
    commitments_ok toy_node_digest cache' \<and> cache' 256 = Some comm \<and>
    tree_root (sha256_multi_node toy_node_digest) (levels binary_arities 3) (replicate 8 (replicate 32 0)) = Inr comm"
  using empty_sector_commitment [of toy_node_digest "\<lambda>_. None" 3] by (simp add: commitments_ok_def)
end
