(* ===== verification/Replica_Info.thy ===== *)
theory Replica_Info
  imports Stacked_Drg
begin

text \<open>
  What is known of a sealed sector: \<open>filecoin-proofs/src/types/private_replica_info.rs\<close> and
  \<open>public_replica_info.rs\<close>, with the helpers of \<open>api/util.rs\<close> they use and \<open>create_tree\<close> of
  \<open>storage-proofs-core/src/merkle/builders.rs\<close>, which opens the replica tree on the stores that
  sealing left in the cache directory (a disk of its own) and on the replica.
\<close>

section \<open>The code\<close>

subsection \<open>Opening a tree\<close>

text \<open>
  The operations of the \<open>merkletree\<close> crate on stores: opening a store file with a
  configuration, whether stores are of the kind that reads leaves from elsewhere
  (\<open>downcast_mut\<close>), setting that reader, and trees over one store and over base trees.
\<close>

record ('s, 'b, 't) tree_opener =
  new_with_config :: "nat \<Rightarrow> nat \<Rightarrow> store_config \<Rightarrow> u8 list option \<Rightarrow> 's res"
  is_level_cache :: bool
  set_external_reader :: "'s \<Rightarrow> replica_config \<Rightarrow> nat \<Rightarrow> 's res"
  tree_from_data_store :: "arities \<Rightarrow> 's \<Rightarrow> nat \<Rightarrow> 't res"
  base_from_data_store :: "arities \<Rightarrow> 's \<Rightarrow> nat \<Rightarrow> 'b res"
  from_trees :: "arities \<Rightarrow> 'b list \<Rightarrow> 't res"
  from_sub_trees_as_trees :: "arities \<Rightarrow> 'b list \<Rightarrow> 't res"

definition get_base_tree_leafs :: "('t, 'p) tree_crate \<Rightarrow> arities \<Rightarrow> nat \<Rightarrow> nat res" where
  "get_base_tree_leafs T A base_tree_size = get_merkle_tree_leafs T base_tree_size (base_arity A)"

definition get_base_tree_size :: "('t, 'p) tree_crate \<Rightarrow> arities \<Rightarrow> nat \<Rightarrow> nat res" where
  "get_base_tree_size T A sector_size =
     bindR (get_base_tree_count A) (\<lambda>tree_count.
     bindR (udiv (sector_size div NODE_SIZE) tree_count) (\<lambda>base_tree_leaves.
     get_merkle_tree_len T base_tree_leaves (base_arity A)))"

definition open_store ::
  "('s, 'b, 't) tree_opener \<Rightarrow> arities \<Rightarrow> nat \<Rightarrow> replica_config option \<Rightarrow> disk \<Rightarrow> nat \<times> store_config \<Rightarrow> 's res" where
  "open_store W A base_tree_len replica_config d = (\<lambda>(i, config).
     bindR (new_with_config W base_tree_len (base_arity A) config (file_of config d)) (\<lambda>store.
     if is_level_cache W
     then (case replica_config of None \<Rightarrow> Inl (Fail ''Cannot create LCTree without replica paths'')
           | Some rc \<Rightarrow> set_external_reader W store rc i)
     else Inr store))"

definition create_tree ::
  "('s, 'b, 't) tree_opener \<Rightarrow> ('t, 'p) tree_crate \<Rightarrow> arities \<Rightarrow> nat \<Rightarrow> store_config list \<Rightarrow> replica_config option \<Rightarrow> disk \<Rightarrow> 't res" where
  "create_tree W T A base_tree_len configs replica_config d =
     bindR (get_base_tree_leafs T A base_tree_len) (\<lambda>base_tree_leafs.
     if length configs = 1
     then bindR (open_store W A base_tree_len replica_config d (0, configs ! 0)) (\<lambda>store. tree_from_data_store W A store base_tree_leafs)
     else bindR (collectR (\<lambda>ic. bindR (open_store W A base_tree_len replica_config d ic) (\<lambda>store.
                   base_from_data_store W A store base_tree_leafs)) (enumerate 0 configs)) (\<lambda>trees.
          ensure (0 < top_tree_arity A \<or> 0 < sub_tree_arity A) ''Cannot have a sub/top tree without more than 1 config''
            (if 0 < top_tree_arity A
             then ensure (0 < sub_tree_arity A) ''Invalid top arity specified without sub arity'' (from_sub_trees_as_trees W A trees)
             else ensure (configs \<noteq> []) ''Cannot create sub-tree with a single tree config'' (from_trees W A trees))))"

subsection \<open>Commitments\<close>

text \<open>\<open>bytes_into_fr\<close> and the conversion of the field element to a domain element.\<close>

definition bytes_into_fr :: "'f porep_prims \<Rightarrow> u8 list \<Rightarrow> 'f res" where
  "bytes_into_fr P le_bytes =
     ensure (length le_bytes = 32) ''BadFrBytes''
       (case pq_from_repr P le_bytes of None \<Rightarrow> Inl (Fail ''BadFrBytes'') | Some fr \<Rightarrow> Inr fr)"

definition as_safe_commitment :: "'f porep_prims \<Rightarrow> u8 list \<Rightarrow> u8 list res" where
  "as_safe_commitment P comm = bindR (bytes_into_fr P comm) (\<lambda>fr. Inr (pq_of_fr P fr))"

definition commitment_from_fr :: "'f porep_prims \<Rightarrow> 'f \<Rightarrow> u8 list" where
  "commitment_from_fr P fr =
     foldl (\<lambda>commitment (i, b). commitment[i := b]) (replicate 32 0) (enumerate 0 (pq_of_fr P fr))"

subsection \<open>Replicas\<close>

text \<open>A private replica: the replica file, its commitment, the persistent auxiliary data and the cache directory.\<close>

record replica_info =
  ri_replica :: "u8 list"
  ri_comm_r :: "u8 list"
  ri_aux :: persistent_aux
  ri_cache_dir :: disk

definition get_p_aux :: "(u8 list \<Rightarrow> persistent_aux res) \<Rightarrow> disk \<Rightarrow> persistent_aux res" where
  "get_p_aux deserialize d =
     (case d (Data_File (cache_key_str PAux)) of None \<Rightarrow> Inl (Fail ''could not read file p_aux'')
      | Some p_aux_bytes \<Rightarrow> deserialize p_aux_bytes)"

definition persist_p_aux :: "(persistent_aux \<Rightarrow> u8 list res) \<Rightarrow> persistent_aux \<Rightarrow> disk \<Rightarrow> disk res" where
  "persist_p_aux serialize p_aux d =
     bindR (serialize p_aux) (\<lambda>p_aux_bytes. Inr (d(Data_File (cache_key_str PAux) \<mapsto> p_aux_bytes)))"

definition private_replica_info_new ::
  "(u8 list \<Rightarrow> persistent_aux res) \<Rightarrow> u8 list option \<Rightarrow> u8 list \<Rightarrow> disk \<Rightarrow> replica_info res" where
  "private_replica_info_new deserialize replica comm_r cache_dir =
     ensure (comm_r \<noteq> replicate 32 0) ''Invalid all zero commitment (comm_r)''
       (bindR (get_p_aux deserialize cache_dir) (\<lambda>aux.
        case replica of None \<Rightarrow> Inl (Fail ''Sealed replica does not exist'')
        | Some r \<Rightarrow> Inr \<lparr>ri_replica = r, ri_comm_r = comm_r, ri_aux = aux, ri_cache_dir = cache_dir\<rparr>))"

definition safe_comm_r :: "'f porep_prims \<Rightarrow> replica_info \<Rightarrow> u8 list res" where
  "safe_comm_r P r = as_safe_commitment P (ri_comm_r r)"

definition safe_comm_c :: "replica_info \<Rightarrow> u8 list" where "safe_comm_c r = pa_comm_c (ri_aux r)"

definition safe_comm_r_last :: "replica_info \<Rightarrow> u8 list" where "safe_comm_r_last r = pa_comm_r_last (ri_aux r)"

definition merkle_tree_of ::
  "('s, 'b, 't) tree_opener \<Rightarrow> ('t, 'p) tree_crate \<Rightarrow> arities \<Rightarrow> (nat \<Rightarrow> nat \<Rightarrow> nat) \<Rightarrow> nat \<Rightarrow> nat \<Rightarrow> replica_info \<Rightarrow> 't res" where
  "merkle_tree_of W T A rows discard sector_size r =
     bindR (get_base_tree_size T A sector_size) (\<lambda>base_tree_size.
     bindR (get_base_tree_leafs T A base_tree_size) (\<lambda>base_tree_leafs.
     let config = \<lparr>sc_id = cache_key_str CommRLastTree, sc_size = Some base_tree_size,
           sc_rows_to_discard = default_rows_to_discard rows discard base_tree_leafs (base_arity A)\<rparr>
     in bindR (get_base_tree_count A) (\<lambda>tree_count.
        let (configs, replica_config) = split_config_and_replica config (ri_replica r) base_tree_leafs tree_count
        in create_tree W T A base_tree_size configs (Some replica_config) (ri_cache_dir r))))"

text \<open>A public replica is its commitment.\<close>

record public_replica_info =
  pri_comm_r :: "u8 list"

definition public_replica_info_new :: "u8 list \<Rightarrow> public_replica_info res" where
  "public_replica_info_new comm_r =
     ensure (comm_r \<noteq> replicate 32 0) ''Invalid all zero commitment (comm_r)'' (Inr \<lparr>pri_comm_r = comm_r\<rparr>)"

definition public_safe_comm_r :: "'f porep_prims \<Rightarrow> public_replica_info \<Rightarrow> u8 list res" where
  "public_safe_comm_r P r = as_safe_commitment P (pri_comm_r r)"

section \<open>Opening the tree of a sealed sector\<close>

text \<open>
  The documented behaviour of the crate, by what stores and base trees hold (\<open>S\<close>, \<open>B\<close>): a
  store file of a base tree opens with that configuration and, with the leaves at its offset in the
  replica, holds them; trees over stores and over base trees are trees of the leaves.
\<close>

definition opener_spec ::
  "('s, 'b, 't) tree_opener \<Rightarrow> ('t, 'p) tree_crate \<Rightarrow> u8 list node_hash \<Rightarrow> arities \<Rightarrow> nat \<Rightarrow> nat \<Rightarrow> nat \<Rightarrow>
    ('s \<Rightarrow> u8 list list \<Rightarrow> bool) \<Rightarrow> ('b \<Rightarrow> u8 list list \<Rightarrow> bool) \<Rightarrow> bool" where
  "opener_spec W T H A k n len S B \<longleftrightarrow>
     (\<forall>c leaves store t. nodes_ok n leaves \<longrightarrow> from_par_iter_with_config T (base_only A) c leaves = Inr (store, t) \<longrightarrow>
        (\<exists>s. new_with_config W len (base_arity A) c (Some store) = Inr s \<and>
          (\<forall>rc i. i < length (rpc_offsets rc) \<longrightarrow> take (32 * n) (drop (rpc_offsets rc ! i) (rpc_replica rc)) = concat leaves \<longrightarrow>
             (\<exists>s'. set_external_reader W s rc i = Inr s' \<and> S s' leaves)))) \<and>
     (\<forall>s leaves. S s leaves \<longrightarrow>
        (tree_count A = 1 \<longrightarrow> (\<exists>t. tree_from_data_store W A s n = Inr t \<and> tree_of T H A k True leaves t)) \<and>
        (\<exists>b. base_from_data_store W A s n = Inr b \<and> B b leaves)) \<and>
     (\<forall>bs leavess. list_all2 B bs leavess \<longrightarrow> length bs = tree_count A \<longrightarrow> 1 < tree_count A \<longrightarrow>
        (\<exists>t. (if 0 < top_tree_arity A then from_sub_trees_as_trees W A bs else from_trees W A bs) = Inr t \<and>
           tree_of T H A k True (concat leavess) t))"

definition opener_ok ::
  "('s, 'b, 't) tree_opener \<Rightarrow> ('t, 'p) tree_crate \<Rightarrow> u8 list node_hash \<Rightarrow> arities \<Rightarrow> nat \<Rightarrow> nat \<Rightarrow> bool" where
  "opener_ok W T H A k len \<longleftrightarrow> is_level_cache W \<and> (\<exists>S B. opener_spec W T H A k (base_arity A ^ k) len S B)"

lemma base_tree_in_replica:
  assumes "\<forall>ls\<in>set leavess. nodes_ok n ls" and "i < length leavess"
  shows "take (32 * n) (drop (i * n * 32) (concat (concat leavess))) = concat (leavess ! i)"
proof -
  have w: "\<forall>x\<in>set (map concat leavess). length x = 32 * n"
    using assms(1) by (auto simp: nodes_ok_def length_concat_nodes [where w = 32])
  have e: "concat (concat leavess) = concat (map concat leavess)" by (induction leavess) simp_all
  have "drop (i * (32 * n)) (concat (map concat leavess)) = concat (drop i (map concat leavess))"
    using take_drop_concat [OF w, of i] by simp
  also have "\<dots> = concat (leavess ! i) @ concat (drop (Suc i) (map concat leavess))"
    using assms(2) by (subst Cons_nth_drop_Suc [symmetric]) simp_all
  finally have "drop (i * n * 32) (concat (concat leavess)) = concat (leavess ! i) @ concat (drop (Suc i) (map concat leavess))"
    unfolding e by (simp add: mult.assoc mult.commute [of n])
  moreover have "length (concat (leavess ! i)) = 32 * n" using w assms(2) by simp
  ultimately show ?thesis by simp
qed

lemma create_tree_ok:
  assumes W: "opener_ok W T H A k len" and A: "arities_ok A" and st: "tree_stored T A k c leaves d"
    and len: "get_merkle_tree_leafs T len (base_arity A) = Inr (base_arity A ^ k)"
    and sp: "split_config_and_replica c (concat leaves) (base_arity A ^ k) (tree_count A) = (cfgs, rc)"
  shows "\<exists>t. create_tree W T A len cfgs (Some rc) d = Inr t \<and> tree_of T H A k True leaves t"
proof -
  define n where "n = base_arity A ^ k"
  obtain leavess stores where l: "concat leavess = leaves" "length leavess = tree_count A" "\<forall>ls\<in>set leavess. nodes_ok n ls"
      "stored T A cfgs leavess stores" "\<forall>i<tree_count A. file_of (cfgs ! i) d = Some (stores ! i)"
    using st sp split_config_facts(2) [of c "concat leaves" "base_arity A ^ k" "tree_count A"] by (auto simp: tree_stored_def n_def)
  have rc: "rpc_replica rc = concat leaves" "rpc_offsets rc = map (\<lambda>i. i * n * 32) [0..<tree_count A]"
    using sp split_config_facts(3) [of c "concat leaves" "base_arity A ^ k" "tree_count A"] by (simp_all add: n_def)
  have lc: "length cfgs = tree_count A" using l(2,4) by (simp add: stored_def)
  obtain S B where "opener_spec W T H A k n len S B" using W by (auto simp: opener_ok_def n_def)
  note o = this [unfolded opener_spec_def, THEN conjunct1] this [unfolded opener_spec_def, THEN conjunct2, THEN conjunct1]
    this [unfolded opener_spec_def, THEN conjunct2, THEN conjunct2]
  have op: "\<exists>s. open_store W A len (Some rc) d (i, cfgs ! i) = Inr s \<and> S s (leavess ! i)" if i: "i < tree_count A" for i
  proof -
    obtain t where "from_par_iter_with_config T (base_only A) (cfgs ! i) (leavess ! i) = Inr (stores ! i, t)"
      using l(2,4) i by (auto simp: stored_def)
    then obtain s where s: "new_with_config W len (base_arity A) (cfgs ! i) (Some (stores ! i)) = Inr s"
        "\<forall>rc j. j < length (rpc_offsets rc) \<longrightarrow> take (32 * n) (drop (rpc_offsets rc ! j) (rpc_replica rc)) = concat (leavess ! i) \<longrightarrow>
           (\<exists>s'. set_external_reader W s rc j = Inr s' \<and> S s' (leavess ! i))"
      using o(1) l(2,3) i by (metis nth_mem)
    have "\<exists>s'. set_external_reader W s rc i = Inr s' \<and> S s' (leavess ! i)"
      using s(2) i rc base_tree_in_replica [OF l(3), of i] l(1,2) by (simp add: mult.commute)
    then show ?thesis using s(1) l(5) i W by (auto simp: open_store_def opener_ok_def)
  qed
  show ?thesis
  proof (cases "tree_count A = 1")
    case True
    then obtain ls where "leavess = [ls]" using l(2) by (auto simp: length_Suc_conv)
    then show ?thesis using op [of 0] o(2) True lc len l(1) by (force simp: create_tree_def get_base_tree_leafs_def n_def)
  next
    case False
    then have t1: "1 < tree_count A" using tree_count_pos [of A] by linarith
    then have sub: "0 < sub_tree_arity A" by (simp add: tree_count_def split: if_splits)
    let ?f = "\<lambda>ic. bindR (open_store W A len (Some rc) d ic) (\<lambda>s. base_from_data_store W A s n)"
    have "\<exists>b. ?f (i, cfgs ! i) = Inr b \<and> B b (leavess ! i)" if "i < length cfgs" for i
      using op [of i] o(2) that lc by force
    then obtain bs where bs: "collectR ?f (enumerate 0 cfgs) = Inr bs" "length bs = length cfgs" "\<And>i. i < length cfgs \<Longrightarrow> B (bs ! i) (leavess ! i)"
      using collectR_enumerate [of cfgs ?f "\<lambda>i b. B b (leavess ! i)"] by metis
    then have "list_all2 B bs leavess" using l(2) lc by (simp add: list_all2_conv_all_nth)
    then obtain t where "(if 0 < top_tree_arity A then from_sub_trees_as_trees W A bs else from_trees W A bs) = Inr t"
        "tree_of T H A k True leaves t" using o(3) t1 bs(2) lc l(1) by metis
    moreover have "cfgs \<noteq> []" using lc t1 by auto
    ultimately show ?thesis using bs(1) len lc False sub t1 by (auto simp: create_tree_def get_base_tree_leafs_def n_def)
  qed
qed


lemma merkle_tree_ok:
  assumes W: "opener_ok W T H A k len" and A: "arities_ok A" and C: "r_last_config T A rows discard k c"
    and len: "get_merkle_tree_len T (base_arity A ^ k) (base_arity A) = Inr len"
    and st: "tree_stored T A k c leaves (ri_cache_dir r)" and rep: "ri_replica r = concat leaves"
    and size: "sector_size = NODE_SIZE * leaf_count (levels A k)"
  shows "\<exists>t. merkle_tree_of W T A rows discard sector_size r = Inr t \<and> tree_of T H A k True leaves t"
proof -
  let ?m = "base_arity A ^ k"
  have m: "sector_size div NODE_SIZE div tree_count A = ?m"
    using tree_count_pos [of A] by (simp add: size leaf_count_trees [OF A] NODE_SIZE_def)
  have l: "get_merkle_tree_leafs T len (base_arity A) = Inr ?m"
    and c: "c = \<lparr>sc_id = cache_key_str CommRLastTree, sc_size = Some len, sc_rows_to_discard = default_rows_to_discard rows discard ?m (base_arity A)\<rparr>"
    using C len by (auto simp: r_last_config_def Let_def)
  obtain cfgs rc where sp: "split_config_and_replica c (concat leaves) ?m (tree_count A) = (cfgs, rc)" by fastforce
  show ?thesis
    using create_tree_ok [OF W A st l sp] sp m l len tree_count_pos [of A] rep
    by (simp add: merkle_tree_of_def get_base_tree_size_def get_base_tree_leafs_def base_tree_count_ok [OF A] udiv_def c)
qed

lemma safe_commitment: "fr_ok P \<Longrightarrow> as_safe_commitment P (pq_of_fr P x) = Inr (pq_of_fr P x)"
  by (simp add: as_safe_commitment_def bytes_into_fr_def fr_ok_def)

definition toy_api_prims :: "toy_fr porep_prims" where
  "toy_api_prims = toy_prims\<lparr>pq_hash2 := (\<lambda>a b. pq_of_fr toy_prims (fr_of toy_prims a + fr_of toy_prims b))\<rparr>"

definition toy_api_drg :: "(toy_fr, u8 list list, u8 list \<times> u8 list \<times> (u8 list list \<times> nat) list) drg_env" where
  "toy_api_drg = toy_drg\<lparr>de_prims := toy_api_prims, de_rows := full_rows\<rparr>"

lemma toy_api_sealing: "sealing toy_api_drg toy_cache_env toy_env 4 2 2"
  using toy_sealing toy_prims_ok unfolding sealing_def drg_ok_def
  by (simp add: toy_api_drg_def toy_api_prims_def toy_drg_def fr_ok_def)

lemma toy_api_fr: "fr_ok toy_api_prims"
  using toy_prims_ok by (simp add: toy_api_prims_def fr_ok_def)
end
