(* ===== verification/Fallback_Post.thy ===== *)
theory Fallback_Post
  imports Stacked_Drg Config
begin

text \<open>
  Proofs of spacetime: \<open>storage-proofs-post/src/fallback/vanilla.rs\<close> and \<open>utils.rs\<close>. For every
  sector of a set, challenges are derived from the randomness and the number of the sector, and the
  leaves of the replica tree under them are opened. Sectors are proved in partitions of
  \<open>sector_count\<close>; a sector whose tree cannot be opened, or does not match its commitments, is reported.

  The hasher \<open>Sha256\<close> with some input is the bytes it was given so far, \<open>hash2\<close> is a function
  of two nodes. Parallel iterators keep the order of their results; an error that \<open>reduce\<close>
  does not look at is lost, a panic never is.
\<close>

section \<open>The code\<close>

record ('t, 'p) post_env =
  fe_crate :: "('t, 'p) tree_crate"
  fe_leafs :: "'t \<Rightarrow> nat"
  fe_arities :: arities
  fe_rows :: "nat \<Rightarrow> nat \<Rightarrow> nat"
  fe_rows_to_discard :: nat
  fe_node_hash :: "u8 list node_hash"
  fe_hash2 :: "u8 list \<Rightarrow> u8 list \<Rightarrow> u8 list"
  fe_sha256 :: "u8 list \<Rightarrow> u8 list"

record post_params =
  fp_sector_size :: nat
  fp_challenge_count :: nat
  fp_sector_count :: nat
  fp_api_version :: api_version

record challenge_requirements =
  cr_minimum_challenge_count :: nat

record public_sector =
  pub_id :: u64
  pub_comm_r :: "u8 list"

record 't private_sector =
  prv_tree :: 't
  prv_comm_c :: "u8 list"
  prv_comm_r_last :: "u8 list"

record post_inputs =
  fi_randomness :: "u8 list"
  fi_prover_id :: "u8 list"
  fi_sectors :: "public_sector list"
  fi_k :: "nat option"

record sector_proof =
  sp_inclusion_proofs :: "u8 list proof_data list"
  sp_comm_c :: "u8 list"
  sp_comm_r_last :: "u8 list"

record post_proof =
  po_sectors :: "sector_proof list"

definition sp_leafs :: "sector_proof \<Rightarrow> u8 list list" where
  "sp_leafs s = map mp_leaf (sp_inclusion_proofs s)"

definition sp_root :: "sector_proof \<Rightarrow> u8 list res" where
  "sp_root s = bindR (at_index (sp_inclusion_proofs s) 0) (\<lambda>p. Inr (mp_root p))"

definition sp_commitments :: "sector_proof \<Rightarrow> u8 list list" where
  "sp_commitments s = map mp_root (sp_inclusion_proofs s)"

definition sp_paths :: "sector_proof \<Rightarrow> (u8 list list \<times> nat) list list" where
  "sp_paths s = map mp_path (sp_inclusion_proofs s)"

subsection \<open>Challenges\<close>

fun get_challenge_index :: "api_version \<Rightarrow> nat \<Rightarrow> nat \<Rightarrow> nat \<Rightarrow> nat res" where
  "get_challenge_index V1_2_0 sector_index challenge_count_per_sector challenge_index = Inr challenge_index"
| "get_challenge_index v sector_index challenge_count_per_sector challenge_index =
     bindR (umul sector_index challenge_count_per_sector) (\<lambda>m. uadd m challenge_index)"

definition generate_sector_challenge :: "(u8 list \<Rightarrow> u8 list) \<Rightarrow> u8 list \<Rightarrow> nat \<Rightarrow> nat \<Rightarrow> u8 list \<Rightarrow> nat res" where
  "generate_sector_challenge sha256 randomness n sector_set_len prover_id =
     (let hash = sha256 (prover_id @ randomness @ le_of_word 8 (of_nat n :: u64));
          sector_challenge = (word_of_le (take 8 hash) :: u64)
      in if sector_set_len = 0 then Inl (Panic ''attempt to calculate the remainder with a divisor of zero'')
         else Inr (unat sector_challenge mod sector_set_len))"

definition generate_sector_challenges :: "(u8 list \<Rightarrow> u8 list) \<Rightarrow> u8 list \<Rightarrow> nat \<Rightarrow> nat \<Rightarrow> u8 list \<Rightarrow> nat list res" where
  "generate_sector_challenges sha256 randomness challenge_count sector_set_len prover_id =
     collectR (\<lambda>n. generate_sector_challenge sha256 randomness n sector_set_len prover_id) [0..<challenge_count]"

definition generate_leaf_challenge_inner :: "(u8 list \<Rightarrow> u8 list) \<Rightarrow> u8 list \<Rightarrow> post_params \<Rightarrow> nat \<Rightarrow> nat res" where
  "generate_leaf_challenge_inner sha256 hasher pp leaf_challenge_index =
     (let hash = sha256 (hasher @ le_of_word 8 (of_nat leaf_challenge_index :: u64));
          leaf_challenge = (word_of_le (take 8 hash) :: u64);
          nodes = fp_sector_size pp div NODE_SIZE
      in if nodes = 0 then Inl (Panic ''attempt to calculate the remainder with a divisor of zero'')
         else Inr (unat leaf_challenge mod nodes))"

definition generate_leaf_challenge :: "(u8 list \<Rightarrow> u8 list) \<Rightarrow> post_params \<Rightarrow> u8 list \<Rightarrow> u64 \<Rightarrow> nat \<Rightarrow> nat res" where
  "generate_leaf_challenge sha256 pp randomness sector_id leaf_challenge_index =
     generate_leaf_challenge_inner sha256 (randomness @ le_of_word 8 sector_id) pp leaf_challenge_index"

definition generate_leaf_challenges :: "(u8 list \<Rightarrow> u8 list) \<Rightarrow> post_params \<Rightarrow> u8 list \<Rightarrow> u64 \<Rightarrow> nat \<Rightarrow> nat list res" where
  "generate_leaf_challenges sha256 pp randomness sector_id challenge_count =
     collectR (generate_leaf_challenge_inner sha256 (randomness @ le_of_word 8 sector_id) pp) [0..<challenge_count]"

subsection \<open>Proving\<close>

definition post_rows_to_discard :: "('t, 'p) post_env \<Rightarrow> 't \<Rightarrow> nat" where
  "post_rows_to_discard E t =
     default_rows_to_discard (fe_rows E) (fe_rows_to_discard E) (fe_leafs E t) (base_arity (fe_arities E))"

definition vanilla_proof :: "('t, 'p) post_env \<Rightarrow> 't private_sector list \<Rightarrow> nat list \<Rightarrow> post_proof res" where
  "vanilla_proof E prvs challenges =
     ensure (length prvs = 1) ''vanilla_proof called with multiple sector proofs''
       (let prv = prvs ! 0; t = prv_tree prv
        in bindR (collectR (\<lambda>challenged_leaf.
             bindR (gen_cached_proof (fe_crate E) (fe_arities E) t challenged_leaf (Some (post_rows_to_discard E t))) (\<lambda>proof.
             bindR (mp_validate (fe_node_hash E) (fe_arities E) proof challenged_leaf) (\<lambda>valid.
             ensure (valid \<and> mp_root proof = prv_comm_r_last prv) ''Generated vanilla proof for sector is invalid'' (Inr proof))))
             challenges) (\<lambda>inclusion_proofs.
           Inr \<lparr>po_sectors = [\<lparr>sp_inclusion_proofs = inclusion_proofs, sp_comm_c = prv_comm_c prv,
                  sp_comm_r_last = prv_comm_r_last prv\<rparr>]\<rparr>))"

definition fallback_setup :: "post_setup_params \<Rightarrow> post_params" where
  "fallback_setup sp = \<lparr>fp_sector_size = ps_sector_size sp, fp_challenge_count = ps_challenge_count sp,
     fp_sector_count = ps_sector_count sp, fp_api_version = ps_api_version sp\<rparr>"

text \<open>The leaf under challenge \<open>n\<close> of sector \<open>i\<close> in partition \<open>j\<close>.\<close>

definition challenged_leaf :: "('t, 'p) post_env \<Rightarrow> post_params \<Rightarrow> post_inputs \<Rightarrow> nat \<Rightarrow> nat \<Rightarrow> u64 \<Rightarrow> nat \<Rightarrow> nat res" where
  "challenged_leaf E pp pi j i sector_id n =
     bindR (umul j (fp_sector_count pp)) (\<lambda>m. bindR (uadd m i) (\<lambda>sector_index.
     bindR (get_challenge_index (fp_api_version pp) sector_index (fp_challenge_count pp) n) (\<lambda>challenge_index.
     generate_leaf_challenge_inner (fe_sha256 E) (fi_randomness pi @ le_of_word 8 sector_id) pp challenge_index)))"

text \<open>One challenge: a proof, or \<open>None\<close> for a fault.\<close>

definition post_challenge ::
  "('t, 'p) post_env \<Rightarrow> post_params \<Rightarrow> post_inputs \<Rightarrow> nat \<Rightarrow> nat \<Rightarrow> public_sector \<Rightarrow> 't private_sector \<Rightarrow> nat \<Rightarrow>
    u8 list proof_data option res" where
  "post_challenge E pp pi j i pub prv n =
     bindR (challenged_leaf E pp pi j i (pub_id pub) n) (\<lambda>leaf.
     case gen_cached_proof (fe_crate E) (fe_arities E) (prv_tree prv) leaf (Some (post_rows_to_discard E (prv_tree prv))) of
       Inl (Panic m) \<Rightarrow> Inl (Panic m)
     | Inl (Fail m) \<Rightarrow> Inr None
     | Inr proof \<Rightarrow> bindR (mp_validate (fe_node_hash E) (fe_arities E) proof leaf) (\<lambda>valid.
         Inr (if valid \<and> mp_root proof = prv_comm_r_last prv \<and>
                 pub_comm_r pub = fe_hash2 E (prv_comm_c prv) (prv_comm_r_last prv)
              then Some proof else None)))"

definition prove_sector ::
  "('t, 'p) post_env \<Rightarrow> post_params \<Rightarrow> post_inputs \<Rightarrow> nat \<Rightarrow> nat \<times> public_sector \<times> 't private_sector \<Rightarrow> (sector_proof \<times> u64 list) res" where
  "prove_sector E pp pi j = (\<lambda>(i, pub, prv).
     bindR (collectR (post_challenge E pp pi j i pub prv) [0..<fp_challenge_count pp]) (\<lambda>rs.
     Inr (\<lparr>sp_inclusion_proofs = map the (filter (\<lambda>r. r \<noteq> None) rs), sp_comm_c = prv_comm_c prv,
            sp_comm_r_last = prv_comm_r_last prv\<rparr>, if None \<in> set rs then [pub_id pub] else [])))"

text \<open>The loop that repeats the last sector.\<close>

function pad_proofs :: "nat \<Rightarrow> 'a list \<Rightarrow> 'a list res" where
  "pad_proofs n ps =
     (if length ps < n
      then bindR (usub (length ps) 1) (\<lambda>i. bindR (at_index ps i) (\<lambda>p. pad_proofs n (ps @ [p])))
      else Inr ps)"
  by pat_completeness auto
termination by (relation "measure (\<lambda>(n, ps). n - length ps)") auto

declare pad_proofs.simps [simp del]

definition prove_partition ::
  "('t, 'p) post_env \<Rightarrow> post_params \<Rightarrow> post_inputs \<Rightarrow> nat \<times> public_sector list \<times> 't private_sector list \<Rightarrow>
    (post_proof \<times> u64 list) res" where
  "prove_partition E pp pi = (\<lambda>(j, pubs, prvs).
     bindR (collectR (prove_sector E pp pi j) (enumerate 0 (zip pubs prvs))) (\<lambda>rs.
     bindR (pad_proofs (fp_sector_count pp) (map fst rs)) (\<lambda>proofs.
     Inr (\<lparr>po_sectors = proofs\<rparr>, concat (map snd rs)))))"

text \<open>\<open>slice.chunks(n)\<close> panics for 0.\<close>

definition uchunks :: "nat \<Rightarrow> 'a list \<Rightarrow> 'a list list res" where
  "uchunks n xs = (if n = 0 then Inl (Panic ''chunk size must be non-zero'') else Inr (chunks n xs))"

definition prove_partitions ::
  "('t, 'p) post_env \<Rightarrow> post_params \<Rightarrow> post_inputs \<Rightarrow> 't private_sector list \<Rightarrow> nat \<Rightarrow> (post_proof \<times> u64 list) list res" where
  "prove_partitions E pp pi prvs partition_count =
     ensure (length prvs = length (fi_sectors pi)) ''inconsistent number of private and public sectors''
       (bindR (umul partition_count (fp_sector_count pp)) (\<lambda>most.
        ensure (length (fi_sectors pi) \<le> most) ''cannot prove the provided number of sectors''
          (bindR (uchunks (fp_sector_count pp) (fi_sectors pi)) (\<lambda>pub_chunks.
           bindR (uchunks (fp_sector_count pp) prvs) (\<lambda>prv_chunks.
           collectR (prove_partition E pp pi) (enumerate 0 (zip pub_chunks prv_chunks)))))))"

datatype post_error = Faulty_Sectors "u64 list" | Other err

definition fallback_prove_all ::
  "('t, 'p) post_env \<Rightarrow> post_params \<Rightarrow> post_inputs \<Rightarrow> 't private_sector list \<Rightarrow> nat \<Rightarrow> post_error + post_proof list" where
  "fallback_prove_all E pp pi prvs partition_count =
     (case prove_partitions E pp pi prvs partition_count of
        Inl e \<Rightarrow> Inl (Other e)
      | Inr rs \<Rightarrow> (let faulty_sectors = sort (remdups (concat (map snd rs)))
                  in if faulty_sectors = [] then Inr (map fst rs) else Inl (Faulty_Sectors faulty_sectors)))"

definition fallback_prove ::
  "('t, 'p) post_env \<Rightarrow> post_params \<Rightarrow> post_inputs \<Rightarrow> 't private_sector list \<Rightarrow> post_error + post_proof" where
  "fallback_prove E pp pi prvs =
     (case fallback_prove_all E pp pi prvs 1 of
        Inl e \<Rightarrow> Inl e
      | Inr proofs \<Rightarrow> (let k = (case fi_k pi of None \<Rightarrow> 0 | Some k \<Rightarrow> k)
                      in if k < 1 then map_sum Other id (at_index proofs k)
                         else Inl (Other (Panic ''It is a programmer error to call prove with more than one partition.''))))"

subsection \<open>Verification\<close>

definition verify_inclusion ::
  "('t, 'p) post_env \<Rightarrow> post_params \<Rightarrow> post_inputs \<Rightarrow> nat \<Rightarrow> nat \<Rightarrow> u64 \<Rightarrow> u8 list \<Rightarrow> nat \<times> u8 list proof_data \<Rightarrow> bool res" where
  "verify_inclusion E pp pi j i sector_id root = (\<lambda>(n, inclusion_proof).
     bindR (challenged_leaf E pp pi j i sector_id n) (\<lambda>leaf.
     if mp_root inclusion_proof \<noteq> root then Inr False
     else bindR (compound_path_length (fe_rows E) (fe_arities E) (fp_sector_size pp div NODE_SIZE)) (\<lambda>expected_path_length.
       if expected_path_length \<noteq> length (mp_path inclusion_proof) then Inr False
       else mp_validate (fe_node_hash E) (fe_arities E) inclusion_proof leaf)))"

definition verify_sector ::
  "('t, 'p) post_env \<Rightarrow> post_params \<Rightarrow> post_inputs \<Rightarrow> nat \<Rightarrow> nat \<times> public_sector \<times> sector_proof \<Rightarrow> bool res" where
  "verify_sector E pp pi j = (\<lambda>(i, pub, sp).
     bindR (sp_root sp) (\<lambda>root.
     if fe_hash2 E (sp_comm_c sp) root \<noteq> pub_comm_r pub then Inr False
     else ensure (fp_challenge_count pp = length (sp_inclusion_proofs sp)) ''unexpected number of inclusion proofs''
       (bindR (collectR (verify_inclusion E pp pi j i (pub_id pub) root) (enumerate 0 (sp_inclusion_proofs sp))) (\<lambda>vs.
        Inr (list_all id vs)))))"

text \<open>\<open>reduce\<close> with \<open>all_valid? && is_valid?\<close>, after all the results, any of which may be a panic.\<close>

fun is_panic :: "'a res \<Rightarrow> bool" where
  "is_panic (Inl (Panic m)) = True"
| "is_panic _ = False"

definition reduce_valid :: "bool res list \<Rightarrow> bool res" where
  "reduce_valid rs =
     (case find is_panic rs of
        Some r \<Rightarrow> r
      | None \<Rightarrow> foldl (\<lambda>all_valid is_valid. bindR all_valid (\<lambda>a. if a then is_valid else Inr False)) (Inr True) rs)"

definition fallback_verify :: "('t, 'p) post_env \<Rightarrow> post_params \<Rightarrow> post_inputs \<Rightarrow> post_proof \<Rightarrow> bool res" where
  "fallback_verify E pp pi partition_proof =
     (case fi_k pi of None \<Rightarrow> Inl (Fail ''must be called with a partition index'')
      | Some j \<Rightarrow>
          ensure (length (fi_sectors pi) \<le> fp_sector_count pp) ''inconsistent number of public sectors''
         (ensure (length (po_sectors partition_proof) = fp_sector_count pp) ''invalid number of sectors in the partition proof''
            (reduce_valid (map (verify_sector E pp pi j) (enumerate 0 (zip (fi_sectors pi) (po_sectors partition_proof)))))))"

definition fallback_verify_all :: "('t, 'p) post_env \<Rightarrow> post_params \<Rightarrow> post_inputs \<Rightarrow> post_proof list \<Rightarrow> bool res" where
  "fallback_verify_all E pp pi partition_proofs =
     bindR (umul (fp_sector_count pp) (length partition_proofs)) (\<lambda>most.
     ensure (length (fi_sectors pi) \<le> most) ''inconsistent number of sectors''
       (bindR (uchunks (fp_sector_count pp) (fi_sectors pi)) (\<lambda>pub_chunks.
        check_all (\<lambda>(j, proof, pub_sectors_chunk).
            fallback_verify E pp (pi\<lparr>fi_sectors := pub_sectors_chunk, fi_k := Some j\<rparr>) proof)
          (enumerate 0 (zip partition_proofs pub_chunks)))))"

definition fallback_with_partition :: "post_inputs \<Rightarrow> nat option \<Rightarrow> post_inputs" where
  "fallback_with_partition pi k = pi\<lparr>fi_k := k\<rparr>"

definition fallback_satisfies_requirements :: "post_params \<Rightarrow> challenge_requirements \<Rightarrow> nat \<Rightarrow> bool res" where
  "fallback_satisfies_requirements pp requirements partitions =
     bindR (umul partitions (fp_sector_count pp)) (\<lambda>checked.
     bindR (umul checked (fp_challenge_count pp)) (\<lambda>n. Inr (cr_minimum_challenge_count requirements \<le> n)))"


section \<open>Proving and verifying\<close>

text \<open>
  The setting: the primitives, and a sector size that fits the tree. A sector can be opened when its
  tree is a tree of the crate over some leaves, and it is healthy when the commitments match that tree.
\<close>

definition post_ok :: "('t, 'p) post_env \<Rightarrow> post_params \<Rightarrow> nat \<Rightarrow> bool" where
  "post_ok E pp k \<longleftrightarrow> arities_ok (fe_arities E) \<and> rows_ok (fe_rows E) \<and> merkle_hash (fe_node_hash E) \<and> hash_nodes (fe_node_hash E) \<and>
     fp_sector_size pp = NODE_SIZE * leaf_count (levels (fe_arities E) k) \<and> 0 < fp_sector_count pp"

definition can_open :: "('t, 'p) post_env \<Rightarrow> nat \<Rightarrow> 't \<Rightarrow> bool" where
  "can_open E k t \<longleftrightarrow> (\<exists>leaves. tree_of (fe_crate E) (fe_node_hash E) (fe_arities E) k True leaves t \<and> (\<forall>x\<in>set leaves. length x = 32))"

definition cannot_open :: "('t, 'p) post_env \<Rightarrow> 't \<Rightarrow> bool" where
  "cannot_open E t \<longleftrightarrow> (\<forall>i r. \<exists>m. gen_cached_proof (fe_crate E) (fe_arities E) t i r = Inl (Fail m))"

definition healthy :: "('t, 'p) post_env \<Rightarrow> nat \<Rightarrow> public_sector \<times> 't private_sector \<Rightarrow> bool" where
  "healthy E k = (\<lambda>(pub, prv). can_open E k (prv_tree prv) \<and> prv_comm_r_last prv = tree_root_of (fe_crate E) (prv_tree prv) \<and>
     pub_comm_r pub = fe_hash2 E (prv_comm_c prv) (prv_comm_r_last prv))"

lemma leaf_challenge_ok:
  assumes "post_ok E pp k"
  obtains leaf where "generate_leaf_challenge_inner sha hasher pp n = Inr leaf" "leaf < leaf_count (levels (fe_arities E) k)"
proof -
  have "\<forall>l\<in>set (levels (fe_arities E) k). 0 < fst l" using assms levels_pos [of "fe_arities E" k] by (force simp: post_ok_def)
  then have "0 < leaf_count (levels (fe_arities E) k)" by (rule leaf_count_pos)
  then show thesis using assms that by (simp add: generate_leaf_challenge_inner_def post_ok_def NODE_SIZE_def Let_def)
qed

lemma challenge_index_ok: "m * cc + n < 2 ^ 64 \<Longrightarrow> \<exists>i. get_challenge_index v m cc n = Inr i"
  by (cases v) (simp_all add: umul_Inr uadd_Inr)

text \<open>Sector \<open>m\<close> of all is sector \<open>m mod c\<close> of partition \<open>m div c\<close>; none of the products overflows.\<close>

definition in_bounds :: "post_params \<Rightarrow> nat \<Rightarrow> nat \<Rightarrow> bool" where
  "in_bounds pp j i \<longleftrightarrow> j * fp_sector_count pp + i < 2 ^ 64 \<and> (j * fp_sector_count pp + i + 1) * fp_challenge_count pp < 2 ^ 64"

lemma challenged_leaf_ok:
  assumes P: "post_ok E pp k" and "in_bounds pp j i" and n: "n < fp_challenge_count pp"
  obtains leaf where "challenged_leaf E pp pi j i sector_id n = Inr leaf" "leaf < leaf_count (levels (fe_arities E) k)"
proof -
  let ?m = "j * fp_sector_count pp + i"
  have "?m * fp_challenge_count pp + n < 2 ^ 64" using assms(2) n by (simp add: in_bounds_def algebra_simps)
  then obtain ci where "get_challenge_index (fp_api_version pp) ?m (fp_challenge_count pp) n = Inr ci" using challenge_index_ok by blast
  moreover have "umul j (fp_sector_count pp) = Inr (j * fp_sector_count pp)" "uadd (j * fp_sector_count pp) i = Inr ?m"
    using assms(2) by (simp_all add: in_bounds_def umul_Inr uadd_Inr)
  moreover obtain leaf where "generate_leaf_challenge_inner (fe_sha256 E) (fi_randomness pi @ le_of_word 8 sector_id) pp ci = Inr leaf"
      "leaf < leaf_count (levels (fe_arities E) k)" by (rule leaf_challenge_ok [OF P])
  ultimately show thesis using that by (simp add: challenged_leaf_def)
qed

lemma opens_validates: "opens H A leaves r i p \<Longrightarrow> mp_validate H A p i = Inr True"
  by (simp add: opens_def mp_validate_def)

lemma cached_opening:
  assumes "post_ok E pp k" and "can_open E k t" and "i < leaf_count (levels (fe_arities E) k)"
  obtains p where "gen_cached_proof (fe_crate E) (fe_arities E) t i (Some r) = Inr p" "mp_validate (fe_node_hash E) (fe_arities E) p i = Inr True"
    "mp_root p = tree_root_of (fe_crate E) t" "length (mp_path p) = length (levels (fe_arities E) k)"
proof -
  obtain leaves where l: "tree_of (fe_crate E) (fe_node_hash E) (fe_arities E) k True leaves t" "\<forall>x\<in>set leaves. length x = 32"
    using assms(2) by (auto simp: can_open_def)
  have n: "i < length leaves" using l(1) assms(3) by (simp add: tree_of_def)
  obtain p where "gen_cached_proof (fe_crate E) (fe_arities E) t i (Some r) = Inr p"
      "opens (fe_node_hash E) (fe_arities E) leaves (tree_root_of (fe_crate E) t) i p" "mp_canonical (fe_arities E) k p"
    using gen_proof_ok(2) [OF l(1) _ _ n _ l(2)] assms(1) by (auto simp: post_ok_def)
  then show thesis using that opens_validates
    by (fastforce simp: opens_def mp_canonical_def dest: list_all2_lengthD)
qed

lemma post_challenge_ok:
  assumes P: "post_ok E pp k" and b: "in_bounds pp j i" and n: "n < fp_challenge_count pp"
    and t: "can_open E k (prv_tree prv) \<or> cannot_open E (prv_tree prv)"
  shows "\<exists>r. post_challenge E pp pi j i pub prv n = Inr r \<and> (r \<noteq> None \<longleftrightarrow> healthy E k (pub, prv)) \<and>
    (\<forall>p. r = Some p \<longrightarrow> mp_root p = prv_comm_r_last prv \<and> verify_inclusion E pp pi j i (pub_id pub) (prv_comm_r_last prv) (n, p) = Inr True)"
proof -
  obtain leaf where leaf: "challenged_leaf E pp pi j i (pub_id pub) n = Inr leaf" "leaf < leaf_count (levels (fe_arities E) k)"
    by (rule challenged_leaf_ok [OF P b n])
  have len: "compound_path_length (fe_rows E) (fe_arities E) (fp_sector_size pp div NODE_SIZE) = Inr (length (levels (fe_arities E) k))"
    using P expected_length [of "fe_arities E" "fe_rows E" k] by (simp add: post_ok_def NODE_SIZE_def)
  show ?thesis
  proof (cases "can_open E k (prv_tree prv)")
    case True
    obtain p where "gen_cached_proof (fe_crate E) (fe_arities E) (prv_tree prv) leaf (Some (post_rows_to_discard E (prv_tree prv))) = Inr p"
        "mp_validate (fe_node_hash E) (fe_arities E) p leaf = Inr True" "mp_root p = tree_root_of (fe_crate E) (prv_tree prv)"
        "length (mp_path p) = length (levels (fe_arities E) k)"
      by (rule cached_opening [OF P True leaf(2)])
    then show ?thesis using leaf(1) len True by (auto simp: post_challenge_def healthy_def verify_inclusion_def)
  next
    case False
    then obtain m where "gen_cached_proof (fe_crate E) (fe_arities E) (prv_tree prv) leaf (Some (post_rows_to_discard E (prv_tree prv))) = Inl (Fail m)"
      using t by (metis cannot_open_def)
    then show ?thesis using leaf(1) False by (simp add: post_challenge_def healthy_def)
  qed
qed

lemma prove_sector_ok:
  assumes P: "post_ok E pp k" and b: "in_bounds pp j i" and cc: "0 < fp_challenge_count pp"
    and t: "can_open E k (prv_tree prv) \<or> cannot_open E (prv_tree prv)"
  shows "\<exists>sp. prove_sector E pp pi j (i, pub, prv) = Inr (sp, if healthy E k (pub, prv) then [] else [pub_id pub]) \<and>
    (healthy E k (pub, prv) \<longrightarrow> verify_sector E pp pi j (i, pub, sp) = Inr True)"
proof -
  let ?ns = "[0..<fp_challenge_count pp]" and ?ok = "\<lambda>p n. mp_root p = prv_comm_r_last prv \<and>
      verify_inclusion E pp pi j i (pub_id pub) (prv_comm_r_last prv) (n, p) = Inr True"
  have "\<forall>n\<in>{..<fp_challenge_count pp}. \<exists>r. post_challenge E pp pi j i pub prv n = Inr r \<and>
      (r \<noteq> None \<longleftrightarrow> healthy E k (pub, prv)) \<and> (\<forall>p. r = Some p \<longrightarrow> ?ok p n)"
    using post_challenge_ok [OF P b _ t] by blast
  then obtain f where f: "\<And>n. n < fp_challenge_count pp \<Longrightarrow> post_challenge E pp pi j i pub prv n = Inr (f n) \<and>
      (f n \<noteq> None \<longleftrightarrow> healthy E k (pub, prv)) \<and> (\<forall>p. f n = Some p \<longrightarrow> ?ok p n)"
    by (auto dest!: bchoice)
  have c: "collectR (post_challenge E pp pi j i pub prv) ?ns = Inr (map f ?ns)"
    using f by (intro collectR_all_ok) simp
  show ?thesis
  proof (cases "healthy E k (pub, prv)")
    case True
    let ?ps = "map (\<lambda>n. the (f n)) ?ns"
    have s: "f n = Some (the (f n))" "?ok (the (f n)) n" if "n < fp_challenge_count pp" for n using f [OF that] True by auto
    have "filter (\<lambda>r. r \<noteq> None) (map f ?ns) = map f ?ns" "None \<notin> set (map f ?ns)"
      using f True by (auto simp: filter_id_conv) (metis option.distinct(1))
    then have "prove_sector E pp pi j (i, pub, prv) = Inr (\<lparr>sp_inclusion_proofs = ?ps, sp_comm_c = prv_comm_c prv,
        sp_comm_r_last = prv_comm_r_last prv\<rparr>, [])" by (simp add: prove_sector_def c comp_def)
    moreover have "at_index ?ps 0 = Inr (the (f 0))" using cc by simp
    moreover have "collectR (verify_inclusion E pp pi j i (pub_id pub) (prv_comm_r_last prv)) (enumerate 0 ?ps) = Inr (map (\<lambda>_. True) ?ns)"
      unfolding enumerate_map_upt collectR_map using s(2) by (intro collectR_all_ok) simp
    ultimately show ?thesis using True s(2) [OF cc]
      by (simp add: verify_sector_def sp_root_def healthy_def del: at_index_Inr) (simp add: list_all_iff)
  next
    case False
    then have "f 0 = None" "0 \<in> set ?ns" using f [OF cc] cc by auto
    then have "None \<in> set (map f ?ns)" by (metis image_eqI list.set_map)
    then show ?thesis using False by (simp add: prove_sector_def c)
  qed
qed

lemma pad_proofs_ok: "ps \<noteq> [] \<Longrightarrow> length ps \<le> n \<Longrightarrow> \<exists>qs. pad_proofs n ps = Inr (ps @ qs) \<and> length (ps @ qs) = n"
proof (induction n ps rule: pad_proofs.induct)
  case (1 n ps)
  show ?case
  proof (cases "length ps < n")
    case True
    have l: "usub (length ps) 1 = Inr (length ps - 1)" "at_index ps (length ps - 1) = Inr (last ps)"
      using 1(2) by (simp_all add: Suc_leI last_conv_nth)
    obtain qs where "pad_proofs n ((ps @ [last ps])) = Inr ((ps @ [last ps]) @ qs)" "length ((ps @ [last ps]) @ qs) = n"
      using 1(1) [OF True, of "last ps"] True by auto
    moreover have "pad_proofs n ps = pad_proofs n (ps @ [last ps])"
      by (subst pad_proofs.simps) (simp only: True l if_True bindR.simps)
    ultimately show ?thesis by auto
  next
    case False
    then show ?thesis using 1(3) by (subst pad_proofs.simps) simp
  qed
qed

lemma reduce_valid_True: "\<forall>r\<in>set rs. r = Inr True \<Longrightarrow> reduce_valid rs = Inr True"
proof -
  assume a: "\<forall>r\<in>set rs. r = Inr True"
  then have "find is_panic rs = None" by (auto simp: find_None_iff)
  moreover have "foldl (\<lambda>all_valid is_valid. bindR all_valid (\<lambda>a. if a then is_valid else Inr False)) (Inr True) rs = Inr True"
    using a by (induction rs) simp_all
  ultimately show ?thesis by (simp add: reduce_valid_def)
qed

lemma challenged_leaf_randomness: "fi_randomness pi' = fi_randomness pi \<Longrightarrow> challenged_leaf E pp pi' = challenged_leaf E pp pi"
  by (intro ext) (simp add: challenged_leaf_def)

lemma verify_inclusion_randomness: "fi_randomness pi' = fi_randomness pi \<Longrightarrow> verify_inclusion E pp pi' = verify_inclusion E pp pi"
  unfolding verify_inclusion_def [abs_def] by (simp only: challenged_leaf_randomness [of pi' pi])

lemma verify_sector_randomness: "fi_randomness pi' = fi_randomness pi \<Longrightarrow> verify_sector E pp pi' = verify_sector E pp pi"
  unfolding verify_sector_def [abs_def] by (simp only: verify_inclusion_randomness [of pi' pi])

lemma verify_sector_inputs: "verify_sector E pp (pi\<lparr>fi_sectors := s, fi_k := x\<rparr>) = verify_sector E pp pi"
  by (rule verify_sector_randomness) simp

text \<open>The ids that are reported for a list of sectors.\<close>

definition faults_of :: "('t, 'p) post_env \<Rightarrow> nat \<Rightarrow> (public_sector \<times> 't private_sector) list \<Rightarrow> u64 list" where
  "faults_of E k ss = map (\<lambda>(pub, prv). pub_id pub) (filter (\<lambda>s. \<not> healthy E k s) ss)"

lemma concat_reports: "concat (map (\<lambda>s. if h s then [] else [g s]) xs) = map g (filter (\<lambda>s. \<not> h s) xs)"
  by (induction xs) simp_all

lemma length_chunks_same: "length xs = length ys \<Longrightarrow> length (chunks n xs) = length (chunks n ys)"
proof (induction n xs arbitrary: ys rule: chunks.induct)
  case (1 n xs)
  show ?case
  proof (cases "n = 0 \<or> xs = []")
    case False
    then have "ys \<noteq> []" using 1(2) by auto
    then show ?thesis using False 1 by (simp add: chunks_step)
  qed (use 1(2) in \<open>auto simp: chunks.simps\<close>)
qed

lemma chunk_bounds:
  assumes "0 < n" and "xs \<noteq> []"
  shows "(length (chunks n xs) - 1) * n < length xs" and "length xs \<le> length (chunks n xs) * n"
proof -
  have "0 < length (chunks n xs)" using assms by (simp add: chunks_step)
  then show "(length (chunks n xs) - 1) * n < length xs"
    using chunks_take_drop [OF assms(1), of "length (chunks n xs) - 1" xs] by simp
  have "(length xs - 1) div n < length (chunks n xs)" using chunks_reach [OF assms(1), of "length xs - 1" xs] assms(2) by simp
  then have "length xs - 1 < length (chunks n xs) * n" by (simp add: div_less_iff_less_mult assms(1))
  then show "length xs \<le> length (chunks n xs) * n" by simp
qed

lemma chunk_count:
  assumes "0 < n" and "length xs \<le> c * n" and "c * n < 2 ^ 64"
  shows "n * length (chunks n xs) < 2 ^ 64" and "length xs \<le> n * length (chunks n xs)"
proof -
  have "n * length (chunks n xs) < 2 ^ 64 \<and> length xs \<le> n * length (chunks n xs)"
  proof (cases "xs = []")
    case False
    note cb = chunk_bounds [OF assms(1) False]
    have "(length (chunks n xs) - 1) * n < c * n" using cb(1) assms(2) by linarith
    then have "length (chunks n xs) \<le> c" by auto
    then have "length (chunks n xs) * n < 2 ^ 64" using mult_le_mono1 [of "length (chunks n xs)" c n] assms(3) by linarith
    then show ?thesis using cb(2) by (simp add: mult.commute)
  qed simp
  then show "n * length (chunks n xs) < 2 ^ 64" and "length xs \<le> n * length (chunks n xs)" by simp_all
qed

text \<open>Sector proofs that verify make a partition that verifies, and partitions that verify a whole.\<close>

lemma padded_verifies:
  assumes l: "length ps = length pubs" "pubs \<noteq> []" "length pubs \<le> fp_sector_count pp"
    and v: "\<And>i. i < length pubs \<Longrightarrow> verify_sector E pp pi j (i, pubs ! i, ps ! i) = Inr True"
    and pi: "fi_randomness pi' = fi_randomness pi" "fi_sectors pi' = pubs" "fi_k pi' = Some j"
  shows "\<exists>qs. pad_proofs (fp_sector_count pp) ps = Inr qs \<and> fallback_verify E pp pi' \<lparr>po_sectors = qs\<rparr> = Inr True"
proof -
  have n: "ps \<noteq> []" "length ps \<le> fp_sector_count pp" using l by auto
  obtain qs where qs: "pad_proofs (fp_sector_count pp) ps = Inr (ps @ qs)" "length (ps @ qs) = fp_sector_count pp"
    using pad_proofs_ok [OF n] by blast
  have "zip pubs (ps @ qs) = zip pubs ps" using l(1) by (simp add: zip_append2)
  moreover have "verify_sector E pp pi j (i, s) = Inr True" if s: "(i, s) \<in> set (enumerate 0 (zip pubs ps))" for i s
    using s l(1) v by (auto simp: in_set_enumerate_eq)
  then have "\<forall>r\<in>set (map (verify_sector E pp pi j) (enumerate 0 (zip pubs ps))). r = Inr True" by auto
  moreover have "verify_sector E pp pi' = verify_sector E pp pi" by (rule verify_sector_randomness [OF pi(1)])
  ultimately show ?thesis using l(3) qs reduce_valid_True pi(2,3) by (simp add: fallback_verify_def)
qed

lemma partitions_verify:
  assumes n: "0 < fp_sector_count pp" and l: "length prs = length (chunks (fp_sector_count pp) (fi_sectors pi))"
    and b: "length (fi_sectors pi) \<le> partition_count * fp_sector_count pp" "partition_count * fp_sector_count pp < 2 ^ 64"
    and v: "\<And>j. j < length prs \<Longrightarrow>
      fallback_verify E pp (pi\<lparr>fi_sectors := chunks (fp_sector_count pp) (fi_sectors pi) ! j, fi_k := Some j\<rparr>) (prs ! j) = Inr True"
  shows "fallback_verify_all E pp pi prs = Inr True"
proof -
  let ?n = "fp_sector_count pp" and ?S = "fi_sectors pi"
  have "?n * length prs < 2 ^ 64" "length ?S \<le> ?n * length prs" using chunk_count [OF n b] l by simp_all
  moreover have "fallback_verify E pp (pi\<lparr>fi_sectors := c, fi_k := Some j\<rparr>) pr = Inr True"
    if "(j, pr, c) \<in> set (enumerate 0 (zip prs (chunks ?n ?S)))" for j pr c
    using that v l by (auto simp: in_set_enumerate_eq)
  ultimately show ?thesis using n by (auto simp: fallback_verify_all_def umul_Inr uchunks_def check_all_True)
qed

lemma prove_partition_ok:
  assumes P: "post_ok E pp k" and cc: "0 < fp_challenge_count pp" and l: "length prvs = length pubs" "pubs \<noteq> []" "length pubs \<le> fp_sector_count pp"
    and b: "\<And>i. i < length pubs \<Longrightarrow> in_bounds pp j i"
    and t: "\<forall>prv\<in>set prvs. can_open E k (prv_tree prv) \<or> cannot_open E (prv_tree prv)"
  shows "\<exists>pr. prove_partition E pp pi (j, pubs, prvs) = Inr (pr, faults_of E k (zip pubs prvs)) \<and>
    ((\<forall>s\<in>set (zip pubs prvs). healthy E k s) \<longrightarrow> fallback_verify E pp (pi\<lparr>fi_sectors := pubs, fi_k := Some j\<rparr>) pr = Inr True)"
proof -
  let ?z = "zip pubs prvs" and ?id = "\<lambda>(pub, prv). pub_id pub"
  obtain rs where rs: "collectR (prove_sector E pp pi j) (enumerate 0 ?z) = Inr rs" "length rs = length ?z"
      "\<And>i. i < length ?z \<Longrightarrow> snd (rs ! i) = (if healthy E k (?z ! i) then [] else [?id (?z ! i)]) \<and>
        (healthy E k (?z ! i) \<longrightarrow> verify_sector E pp pi j (i, pubs ! i, fst (rs ! i)) = Inr True)"
  proof (rule collectR_enumerate [of ?z "prove_sector E pp pi j" "\<lambda>i r. snd r = (if healthy E k (?z ! i) then [] else [?id (?z ! i)]) \<and>
        (healthy E k (?z ! i) \<longrightarrow> verify_sector E pp pi j (i, pubs ! i, fst r) = Inr True)"])
    fix i assume i: "i < length ?z"
    then show "\<exists>r. prove_sector E pp pi j (i, ?z ! i) = Inr r \<and> snd r = (if healthy E k (?z ! i) then [] else [?id (?z ! i)]) \<and>
        (healthy E k (?z ! i) \<longrightarrow> verify_sector E pp pi j (i, pubs ! i, fst r) = Inr True)"
      using prove_sector_ok [OF P b cc, of i "prvs ! i" pi "pubs ! i"] t l(1) by auto
  qed blast
  have "map snd rs = map (\<lambda>s. if healthy E k s then [] else [?id s]) ?z" using rs(2,3) by (intro nth_equalityI) simp_all
  then have F: "concat (map snd rs) = faults_of E k ?z" unfolding faults_of_def by (simp only: concat_reports)
  have n: "length (map fst rs) = length pubs" using l rs(2) by simp
  obtain qs where qs: "pad_proofs (fp_sector_count pp) (map fst rs) = Inr qs" using pad_proofs_ok [of "map fst rs" "fp_sector_count pp"] n l by fastforce
  have "fallback_verify E pp (pi\<lparr>fi_sectors := pubs, fi_k := Some j\<rparr>) \<lparr>po_sectors = qs\<rparr> = Inr True" if h: "\<forall>s\<in>set ?z. healthy E k s"
  proof -
    have "verify_sector E pp pi j (i, pubs ! i, map fst rs ! i) = Inr True" if i: "i < length pubs" for i
      using rs(2) rs(3) [of i] h i l(1) nth_mem [of i ?z] by simp
    then show ?thesis using padded_verifies [OF n l(2,3), where E = E and pi = pi and j = j and pi' = "pi\<lparr>fi_sectors := pubs, fi_k := Some j\<rparr>"] qs by simp
  qed
  then show ?thesis by (simp add: prove_partition_def rs(1) qs F)
qed

lemma faults_of_concat: "faults_of E k (concat zss) = concat (map (faults_of E k) zss)"
  by (induction zss) (simp_all add: faults_of_def)

lemma prove_partitions_ok:
  assumes P: "post_ok E pp k" and cc: "0 < fp_challenge_count pp" and l: "length prvs = length (fi_sectors pi)"
    and n: "length prvs \<le> partition_count * fp_sector_count pp" "partition_count * fp_sector_count pp < 2 ^ 64"
      "length prvs * fp_challenge_count pp < 2 ^ 64"
    and t: "\<forall>prv\<in>set prvs. can_open E k (prv_tree prv) \<or> cannot_open E (prv_tree prv)"
  shows "\<exists>rs. prove_partitions E pp pi prvs partition_count = Inr rs \<and> concat (map snd rs) = faults_of E k (zip (fi_sectors pi) prvs) \<and>
    ((\<forall>s\<in>set (zip (fi_sectors pi) prvs). healthy E k s) \<longrightarrow> fallback_verify_all E pp pi (map fst rs) = Inr True)"
proof -
  let ?n = "fp_sector_count pp" let ?S = "fi_sectors pi" let ?pcs = "chunks ?n ?S" and ?vcs = "chunks ?n prvs"
  let ?z = "zip ?pcs ?vcs"
  have n0: "0 < ?n" using P by (simp add: post_ok_def)
  have lc: "length ?vcs = length ?pcs" by (rule length_chunks_same [OF l])
  have chunk: "?pcs ! j = take ?n (drop (j * ?n) ?S)" "?vcs ! j = take ?n (drop (j * ?n) prvs)" "j * ?n < length ?S" if "j < length ?pcs" for j
    using chunks_take_drop [OF n0, of j ?S] chunks_take_drop [OF n0, of j prvs] lc that by auto
  have b: "in_bounds pp j i" if "j * ?n + i < length ?S" for j i
  proof -
    have "(j * ?n + i + 1) * fp_challenge_count pp \<le> length prvs * fp_challenge_count pp"
      using that l by (intro mult_le_mono1) simp
    then show ?thesis using that n l by (simp add: in_bounds_def)
  qed
  define Q where "Q j r \<longleftrightarrow> snd r = faults_of E k (zip (?pcs ! j) (?vcs ! j)) \<and>
      ((\<forall>s\<in>set (zip (?pcs ! j) (?vcs ! j)). healthy E k s) \<longrightarrow>
         fallback_verify E pp (pi\<lparr>fi_sectors := ?pcs ! j, fi_k := Some j\<rparr>) (fst r) = Inr True)" for j r
  have part: "\<exists>r. prove_partition E pp pi (j, ?z ! j) = Inr r \<and> Q j r" if j: "j < length ?z" for j
  proof -
    have j: "j < length ?pcs" "?z ! j = (?pcs ! j, ?vcs ! j)" using j lc by simp_all
    note c = chunk [OF j(1)]
    have "length (?vcs ! j) = length (?pcs ! j)" "?pcs ! j \<noteq> []" "length (?pcs ! j) \<le> ?n" using c l n0 by simp_all
    moreover have "in_bounds pp j i" if "i < length (?pcs ! j)" for i using that c(1,3) by (intro b) auto
    moreover have "set (?vcs ! j) \<subseteq> set prvs" using c(2) set_take_subset set_drop_subset by fastforce
    ultimately show ?thesis using prove_partition_ok [OF P cc, of "?vcs ! j" "?pcs ! j" j pi] t unfolding j(2) Q_def by fastforce
  qed
  obtain rs where rs: "collectR (prove_partition E pp pi) (enumerate 0 ?z) = Inr rs" "length rs = length ?z"
      "\<And>j. j < length ?z \<Longrightarrow> Q j (rs ! j)"
    using collectR_enumerate [of ?z "prove_partition E pp pi" Q, OF part] by blast
  note Q = rs(3) [unfolded Q_def]
  have "map snd rs = map (faults_of E k) (map (\<lambda>(a, b). zip a b) ?z)" using rs(2) Q lc by (intro nth_equalityI) simp_all
  then have F: "concat (map snd rs) = faults_of E k (zip ?S prvs)"
    using l n0 by (simp add: map_zip_chunks flip: faults_of_concat) (simp add: concat_chunks)
  have V: "fallback_verify_all E pp pi (map fst rs) = Inr True" if h: "\<forall>s\<in>set (zip ?S prvs). healthy E k s"
  proof (rule partitions_verify [OF n0 _ _ n(2)])
    show "length (map fst rs) = length ?pcs" "length ?S \<le> partition_count * ?n" using rs(2) lc n(1) l by simp_all
    fix j assume "j < length (map fst rs)"
    then have j: "j < length ?z" "j < length ?pcs" using rs(2) lc by simp_all
    have "set (zip (?pcs ! j) (?vcs ! j)) \<subseteq> set (zip ?S prvs)" using chunk [OF j(2)]
      by (auto simp: take_zip drop_zip dest!: in_set_takeD in_set_dropD simp flip: take_zip drop_zip)
    then show "fallback_verify E pp (pi\<lparr>fi_sectors := ?pcs ! j, fi_k := Some j\<rparr>) (map fst rs ! j) = Inr True"
      using Q [OF j(1)] h rs(2) j lc by auto
  qed
  show ?thesis using F V rs(1) n l n0 by (simp add: prove_partitions_def umul_Inr uchunks_def)
qed

section \<open>Soundness\<close>

lemma reduce_valid_only: "reduce_valid rs = Inr True \<Longrightarrow> r \<in> set rs \<Longrightarrow> r = Inr True"
proof -
  assume a: "reduce_valid rs = Inr True" and r: "r \<in> set rs"
  let ?f = "\<lambda>all_valid is_valid. bindR all_valid (\<lambda>a. if a then is_valid else Inr False)"
  have k: "foldl ?f x xs = Inr True \<longleftrightarrow> x = Inr True \<and> (\<forall>r\<in>set xs. r = Inr True)" for x and xs :: "bool res list"
    by (induction xs arbitrary: x) (auto simp: bindR_eq_Inr split: if_splits)
  show "r = Inr True"
  proof (cases "find is_panic rs")
    case None
    then show ?thesis using a r by (simp add: reduce_valid_def k)
  next
    case (Some s)
    then have "is_panic s" by (auto simp: find_Some_iff)
    then show ?thesis using a Some by (cases s rule: is_panic.cases) (auto simp: reduce_valid_def)
  qed
qed

lemma verify_sector_parts:
  assumes "verify_sector E pp pi j (i, pub, sp) = Inr True"
  obtains r where "fe_hash2 E (sp_comm_c sp) r = pub_comm_r pub" "length (sp_inclusion_proofs sp) = fp_challenge_count pp"
    "\<And>n. n < fp_challenge_count pp \<Longrightarrow> verify_inclusion E pp pi j i (pub_id pub) r (n, sp_inclusion_proofs sp ! n) = Inr True"
proof -
  obtain r vs where r: "sp_root sp = Inr r" "fe_hash2 E (sp_comm_c sp) r = pub_comm_r pub" "length (sp_inclusion_proofs sp) = fp_challenge_count pp"
      "collectR (verify_inclusion E pp pi j i (pub_id pub) r) (enumerate 0 (sp_inclusion_proofs sp)) = Inr vs" "list_all id vs"
    using assms by (auto simp: verify_sector_def bindR_eq_Inr ensure_eq_Inr split: if_splits)
  have "verify_inclusion E pp pi j i (pub_id pub) r (n, sp_inclusion_proofs sp ! n) = Inr True" if n: "n < fp_challenge_count pp" for n
  proof -
    have "length vs = fp_challenge_count pp" using collectR_length [OF r(4)] r(3) by simp
    then have "vs ! n" using r(5) n by (auto simp: list_all_length)
    then show ?thesis using collectR_nth [OF r(4), of n] n r(3) by (simp add: nth_enumerate_eq)
  qed
  then show thesis using r(2,3) that by blast
qed

lemma verify_all_parts:
  assumes v: "fallback_verify_all E pp pi proofs = Inr True" and m: "m < length (fi_sectors pi)"
  shows "0 < fp_sector_count pp" and "m div fp_sector_count pp < length proofs"
    and "length (po_sectors (proofs ! (m div fp_sector_count pp))) = fp_sector_count pp"
    and "verify_sector E pp pi (m div fp_sector_count pp)
      (m mod fp_sector_count pp, fi_sectors pi ! m, po_sectors (proofs ! (m div fp_sector_count pp)) ! (m mod fp_sector_count pp)) = Inr True"
proof -
  let ?c = "fp_sector_count pp" let ?S = "fi_sectors pi" let ?j = "m div ?c" and ?i = "m mod ?c" and ?pcs = "chunks ?c ?S"
  have c: "0 < ?c" "length ?S \<le> ?c * length proofs" and a: "\<And>x. x \<in> set (enumerate 0 (zip proofs ?pcs)) \<Longrightarrow>
      (\<lambda>(j, proof, pub_sectors_chunk). fallback_verify E pp (pi\<lparr>fi_sectors := pub_sectors_chunk, fi_k := Some j\<rparr>) proof) x = Inr True"
    using v by (auto simp: fallback_verify_all_def bindR_eq_Inr ensure_eq_Inr umul_def uchunks_def check_all_True split: if_splits)
  show "0 < ?c" by (rule c(1))
  have j: "?j < length ?pcs" by (rule chunks_reach [OF c(1) m])
  have "m < length proofs * ?c" using m c(2) by (simp add: mult.commute)
  then show jp: "?j < length proofs" using c(1) by (simp add: div_less_iff_less_mult)
  note ch = chunks_take_drop [OF c(1) j]
  have i: "?i < ?c" "?j * ?c + ?i = m" using c(1) by simp_all
  from this m have "?i < length ?S - ?j * ?c" by linarith
  with i have ci: "?i < length (?pcs ! ?j)" "?pcs ! ?j ! ?i = ?S ! m" using ch by simp_all
  have "(?j, proofs ! ?j, ?pcs ! ?j) \<in> set (enumerate 0 (zip proofs ?pcs))" using j jp by (auto simp: in_set_enumerate_eq)
  from a [OF this] have f: "fallback_verify E pp (pi\<lparr>fi_sectors := ?pcs ! ?j, fi_k := Some ?j\<rparr>) (proofs ! ?j) = Inr True" by simp
  then show l: "length (po_sectors (proofs ! ?j)) = ?c" by (simp add: fallback_verify_def ensure_eq_Inr)
  have "(?i, ?S ! m, po_sectors (proofs ! ?j) ! ?i) \<in> set (enumerate 0 (zip (?pcs ! ?j) (po_sectors (proofs ! ?j))))"
    using ci i(1) l by (auto simp: in_set_enumerate_eq)
  then show "verify_sector E pp pi ?j (?i, ?S ! m, po_sectors (proofs ! ?j) ! ?i) = Inr True"
    using f by (auto simp: fallback_verify_def ensure_eq_Inr verify_sector_inputs intro: reduce_valid_only)
qed

section \<open>Properties\<close>

text \<open>
  C10. Proofs of spacetime are complete, and report exactly the bad sectors: when every tree can be
  opened or fails with an error, proving all partitions gives proofs that \<open>verify_all_partitions\<close>
  accepts if every sector is healthy. Otherwise it gives \<open>FaultySectors\<close> with the ids of all
  unhealthy sectors (unreadable tree, wrong \<open>comm_r_last\<close>, or \<open>comm_r\<close> that is not the
  hash of \<open>comm_c\<close> and \<open>comm_r_last\<close>), sorted and without duplicates.
\<close>
theorem post_complete:
  assumes "post_ok E pp k" and "0 < fp_challenge_count pp" and "length prvs = length (fi_sectors pi)"
    and "length prvs \<le> partition_count * fp_sector_count pp" and "partition_count * fp_sector_count pp < 2 ^ 64"
    and "length prvs * fp_challenge_count pp < 2 ^ 64"
    and "\<forall>prv\<in>set prvs. can_open E k (prv_tree prv) \<or> cannot_open E (prv_tree prv)"
  shows "if \<forall>s\<in>set (zip (fi_sectors pi) prvs). healthy E k s
    then \<exists>proofs. fallback_prove_all E pp pi prvs partition_count = Inr proofs \<and> fallback_verify_all E pp pi proofs = Inr True
    else fallback_prove_all E pp pi prvs partition_count =
      Inl (Faulty_Sectors (sorted_list_of_set {pub_id pub |pub prv. (pub, prv) \<in> set (zip (fi_sectors pi) prvs) \<and> \<not> healthy E k (pub, prv)}))"
proof -
  let ?z = "zip (fi_sectors pi) prvs"
  obtain rs where rs: "prove_partitions E pp pi prvs partition_count = Inr rs" "concat (map snd rs) = faults_of E k ?z"
      "(\<forall>s\<in>set ?z. healthy E k s) \<longrightarrow> fallback_verify_all E pp pi (map fst rs) = Inr True"
    using prove_partitions_ok [OF assms] by blast
  have F: "set (faults_of E k ?z) = {pub_id pub |pub prv. (pub, prv) \<in> set ?z \<and> \<not> healthy E k (pub, prv)}"
    unfolding faults_of_def by force
  have e: "sort (remdups (faults_of E k ?z)) = [] \<longleftrightarrow> (\<forall>s\<in>set ?z. healthy E k s)"
    unfolding set_empty [symmetric] set_sort set_remdups by (auto simp: faults_of_def)
  have S: "sort (remdups (faults_of E k ?z)) = sorted_list_of_set {pub_id pub |pub prv. (pub, prv) \<in> set ?z \<and> \<not> healthy E k (pub, prv)}"
    unfolding F [symmetric] by (rule sorted_list_of_set_sort_remdups [symmetric])
  show ?thesis
  proof (cases "\<forall>s\<in>set ?z. healthy E k s")
    case True
    then show ?thesis using rs e by (simp add: fallback_prove_all_def)
  next
    case False
    then have "fallback_prove_all E pp pi prvs partition_count = Inl (Faulty_Sectors (sort (remdups (faults_of E k ?z))))"
      using rs e by (simp add: fallback_prove_all_def Let_def)
    then show ?thesis using False unfolding S by simp
  qed
qed

definition toy_post :: "(u8 list list, u8 list \<times> u8 list \<times> (u8 list list \<times> nat) list) post_env" where
  "toy_post = \<lparr>fe_crate = toy_crate (sha256_multi_node toy_sum) 1, fe_leafs = length, fe_arities = binary_arities, fe_rows = full_rows,
     fe_rows_to_discard = 2, fe_node_hash = sha256_multi_node toy_sum, fe_hash2 = (\<lambda>a b. trim_to_fr32 (toy_sum (a @ b))), fe_sha256 = toy_sum\<rparr>"

definition toy_post_params :: post_params where
  "toy_post_params = \<lparr>fp_sector_size = 64, fp_challenge_count = 3, fp_sector_count = 2, fp_api_version = V1_1_0\<rparr>"

definition toy_sector :: "u8 list list private_sector" where
  "toy_sector = \<lparr>prv_tree = [toy_leaf 1, toy_leaf 2], prv_comm_c = toy_leaf 5, prv_comm_r_last = toy_leaf 3\<rparr>"

lemma toy_post_ok: "post_ok toy_post toy_post_params 1"
  by (simp add: post_ok_def toy_post_def toy_post_params_def arities_ok_def binary_arities_def full_rows_ok sha256_tree.merkle_hash_axioms
      hash_nodes_def sha256_multi_node_def trim_to_fr32_def toy_sum_def NODE_SIZE_def levels_def leaf_count_def)

lemma toy_sector_facts: "can_open toy_post 1 (prv_tree toy_sector)" "prv_comm_r_last toy_sector = tree_root_of (fe_crate toy_post) (prv_tree toy_sector)"
    "fe_hash2 toy_post (prv_comm_c toy_sector) (prv_comm_r_last toy_sector) = toy_leaf 8"
proof -
  have "nodes_ok (2 ^ 1) [toy_leaf 1, toy_leaf 2]" by (simp add: nodes_ok_def toy_leaf_def)
  then have "tree_of (toy_crate (sha256_multi_node toy_sum) 1) (sha256_multi_node toy_sum) binary_arities 1 True
      [toy_leaf 1, toy_leaf 2] [toy_leaf 1, toy_leaf 2]"
    by (intro toy_tree_of) (simp_all add: sha256_tree.merkle_hash_axioms hash_nodes_def sha256_multi_node_def trim_to_fr32_def toy_sum_def)
  then show "can_open toy_post 1 (prv_tree toy_sector)"
    unfolding can_open_def by (intro exI [of _ "[toy_leaf 1, toy_leaf 2]"]) (simp add: toy_post_def toy_sector_def toy_leaf_def)
qed code_simp+

definition toy_post_inputs :: "u8 list \<Rightarrow> post_inputs" where
  "toy_post_inputs comm_r_9 = \<lparr>fi_randomness = toy_leaf 6, fi_prover_id = toy_leaf 4,
     fi_sectors = [\<lparr>pub_id = 9, pub_comm_r = comm_r_9\<rparr>, \<lparr>pub_id = 7, pub_comm_r = toy_leaf 8\<rparr>, \<lparr>pub_id = 3, pub_comm_r = comm_r_9\<rparr>], fi_k = None\<rparr>"

theorem post_complete_witness:
  "(\<exists>proofs. fallback_prove_all toy_post toy_post_params (toy_post_inputs (toy_leaf 8)) (replicate 3 toy_sector) 2 = Inr proofs \<and>
      fallback_verify_all toy_post toy_post_params (toy_post_inputs (toy_leaf 8)) proofs = Inr True) \<and>
   fallback_prove_all toy_post toy_post_params (toy_post_inputs (toy_leaf 2)) (replicate 3 toy_sector) 2 = Inl (Faulty_Sectors [3, 9])"
proof -
  have h: "healthy toy_post (Suc 0) (\<lparr>pub_id = i, pub_comm_r = c\<rparr>, toy_sector) \<longleftrightarrow> c = toy_leaf 8" for i c
    using toy_sector_facts by (simp add: healthy_def)
  have n: "toy_leaf 2 \<noteq> toy_leaf 8" by (simp add: toy_leaf_def)
  have F: "{f a |a b. (a, b) \<in> set zs \<and> Q (a, b)} = (\<lambda>z. f (fst z)) ` set (filter Q zs)" for f Q and zs :: "('a \<times> 'b) list"
    by force
  note t = post_complete [OF toy_post_ok, of "replicate 3 toy_sector" "toy_post_inputs c" 2 for c]
  have S: "{pub_id pub |pub prv. (pub, prv) \<in> set (zip (fi_sectors (toy_post_inputs (toy_leaf 2))) (replicate 3 toy_sector)) \<and>
      \<not> healthy toy_post 1 (pub, prv)} = {9, 3}"
    unfolding F [of pub_id _ "\<lambda>s. \<not> healthy toy_post 1 s"] using n by (simp add: toy_post_inputs_def numeral_3_eq_3 h)
  have l: "sorted_list_of_set {9, 3 :: u64} = [3, 9]" using sorted_list_of_set_sort_remdups [of "[9, 3 :: u64]"] by simp
  show ?thesis
    using t [of "toy_leaf 8"] t [of "toy_leaf 2", unfolded S] n toy_sector_facts(1)
    by (simp add: toy_post_params_def toy_post_inputs_def numeral_3_eq_3 h l)
qed

text \<open>
  C11. Proofs of spacetime are sound: if \<open>verify_all_partitions\<close> accepts, then for every sector of the
  list whose \<open>comm_r\<close> is the commitment of a tree, and for every challenge, the proof
  of its partition holds an opening of exactly the challenged leaf of that tree. There are two exceptions, both of
  which give a collision of values in the proof with committed values: the roots
  in the proof are not those of the sector but hash to the same \<open>comm_r\<close>, or the hash chain of
  this opening collides with the tree.
\<close>
theorem post_verify_sound:
  assumes P: "post_ok E pp k" and v: "fallback_verify_all E pp pi proofs = Inr True"
    and m: "m < length (fi_sectors pi)" and n: "n < fp_challenge_count pp"
    and s: "\<forall>pr\<in>set proofs. \<forall>sp\<in>set (po_sectors pr). \<forall>p\<in>set (sp_inclusion_proofs sp). shape_ok (fe_arities E) k p"
    and r: "pub_comm_r (fi_sectors pi ! m) = fe_hash2 E c r" "tree_root (fe_node_hash E) (levels (fe_arities E) k) leaves = Inr r"
      "length leaves = leaf_count (levels (fe_arities E) k)"
  shows "let j = m div fp_sector_count pp; i = m mod fp_sector_count pp; sp = po_sectors (proofs ! j) ! i; p = sp_inclusion_proofs sp ! n
    in pair_collides (fe_hash2 E) (sp_comm_c sp, mp_root p) (c, r) \<or> proof_collides (fe_node_hash E) (fe_arities E) k leaves p \<or>
      (\<exists>leaf. challenged_leaf E pp pi j i (pub_id (fi_sectors pi ! m)) n = Inr leaf \<and> leaf < length leaves \<and> mp_leaf p = leaves ! leaf)"
proof -
  let ?j = "m div fp_sector_count pp" and ?i = "m mod fp_sector_count pp" let ?sp = "po_sectors (proofs ! ?j) ! ?i"
  note parts = verify_all_parts [OF v m]
  obtain q where q: "fe_hash2 E (sp_comm_c ?sp) q = pub_comm_r (fi_sectors pi ! m)" "length (sp_inclusion_proofs ?sp) = fp_challenge_count pp"
      "verify_inclusion E pp pi ?j ?i (pub_id (fi_sectors pi ! m)) q (n, sp_inclusion_proofs ?sp ! n) = Inr True"
    by (rule verify_sector_parts [OF parts(4)]) (use n in blast)
  obtain leaf where leaf: "challenged_leaf E pp pi ?j ?i (pub_id (fi_sectors pi ! m)) n = Inr leaf" "mp_root (sp_inclusion_proofs ?sp ! n) = q"
      "mp_validate (fe_node_hash E) (fe_arities E) (sp_inclusion_proofs ?sp ! n) leaf = Inr True"
    using q(3) by (auto simp: verify_inclusion_def bindR_eq_Inr split: if_splits)
  have sh: "shape_ok (fe_arities E) k (sp_inclusion_proofs ?sp ! n)"
    using s parts(1-3) q(2) n by (metis mod_less_divisor nth_mem)
  show ?thesis
  proof (cases "q = r")
    case True
    show ?thesis
      using merkle_hash.validate_binds [OF _ _ r(3,2) sh _ leaf(3)] P leaf(1,2) True by (auto simp: post_ok_def Let_def)
  next
    case False
    then have "pair_collides (fe_hash2 E) (sp_comm_c ?sp, mp_root (sp_inclusion_proofs ?sp ! n)) (c, r)"
      using q(1) r(1) leaf(2) by (simp add: pair_collides_def)
    then show ?thesis by (simp add: Let_def)
  qed
qed

definition toy_post_proof :: post_proof where
  "toy_post_proof = \<lparr>po_sectors = [\<lparr>sp_inclusion_proofs = [Single \<lparr>sg_root = toy_leaf 3, sg_leaf = toy_leaf 2,
     sg_path = [\<lparr>pe_hashes = [toy_leaf 1], pe_index = 1\<rparr>]\<rparr>], sp_comm_c = toy_leaf 5, sp_comm_r_last = toy_leaf 3\<rparr>]\<rparr>"

definition toy_one_challenge :: post_params where
  "toy_one_challenge = \<lparr>fp_sector_size = 64, fp_challenge_count = 1, fp_sector_count = 1, fp_api_version = V1_1_0\<rparr>"

definition toy_one_sector :: post_inputs where
  "toy_one_sector = \<lparr>fi_randomness = toy_leaf 6, fi_prover_id = toy_leaf 4,
     fi_sectors = [\<lparr>pub_id = 9, pub_comm_r = toy_leaf 8\<rparr>], fi_k = None\<rparr>"

theorem post_verify_sound_witness:
  "fallback_verify_all toy_post toy_one_challenge toy_one_sector [toy_post_proof] = Inr True \<and>
   (\<exists>leaf. challenged_leaf toy_post toy_one_challenge toy_one_sector 0 0 9 0 = Inr leaf \<and> leaf < 2 \<and>
      mp_leaf (sp_inclusion_proofs (po_sectors toy_post_proof ! 0) ! 0) = [toy_leaf 1, toy_leaf 2] ! leaf)"
proof -
  have P: "post_ok toy_post toy_one_challenge 1" using toy_post_ok by (simp add: post_ok_def toy_post_params_def toy_one_challenge_def)
  have v: "fallback_verify_all toy_post toy_one_challenge toy_one_sector [toy_post_proof] = Inr True"
  proof -
    have f: "fi_sectors toy_one_sector = [\<lparr>pub_id = 9, pub_comm_r = toy_leaf 8\<rparr>]" "fp_sector_count toy_one_challenge = 1"
      by (simp_all add: toy_one_sector_def toy_one_challenge_def)
    let ?p = "sp_inclusion_proofs (po_sectors toy_post_proof ! 0) ! 0"
    have g: "generate_leaf_challenge_inner (fe_sha256 toy_post) (fi_randomness toy_one_sector @ le_of_word 8 (9 :: u64)) toy_one_challenge 0 = Inr 1"
      by code_simp
    have c: "challenged_leaf toy_post toy_one_challenge toy_one_sector 0 0 9 0 = Inr 1"
      using g by (simp add: challenged_leaf_def toy_one_challenge_def umul_def uadd_def)
    have m: "mp_validate (fe_node_hash toy_post) (fe_arities toy_post) ?p 1 = Inr True" "mp_root ?p = toy_leaf 3" "length (mp_path ?p) = 1"
        "compound_path_length (fe_rows toy_post) (fe_arities toy_post) 2 = Inr 1" "fe_hash2 toy_post (toy_leaf 5) (toy_leaf 3) = toy_leaf 8"
      by code_simp+
    have "verify_inclusion toy_post toy_one_challenge toy_one_sector 0 0 9 (toy_leaf 3) (0, ?p) = Inr True"
      using c m by (simp add: verify_inclusion_def toy_one_challenge_def NODE_SIZE_def)
    then have "verify_sector toy_post toy_one_challenge toy_one_sector 0 (0, \<lparr>pub_id = 9, pub_comm_r = toy_leaf 8\<rparr>, po_sectors toy_post_proof ! 0) = Inr True"
      using m(2,5) by (simp add: verify_sector_def sp_root_def toy_post_proof_def toy_one_challenge_def)
    then have "fallback_verify toy_post toy_one_challenge (toy_one_sector\<lparr>fi_sectors := fi_sectors toy_one_sector, fi_k := Some 0\<rparr>) toy_post_proof = Inr True"
      using f by (simp add: fallback_verify_def verify_sector_inputs reduce_valid_def toy_post_proof_def)
    then show ?thesis
      by (simp add: fallback_verify_all_def umul_def uchunks_def chunks_step f)
  qed
  have t: "tree_root (fe_node_hash toy_post) (levels (fe_arities toy_post) 1) [toy_leaf 1, toy_leaf 2] = Inr (toy_leaf 3)" by code_simp
  have r: "pub_comm_r (fi_sectors toy_one_sector ! 0) = fe_hash2 toy_post (toy_leaf 5) (toy_leaf 3)" by code_simp
  have l: "length [toy_leaf 1, toy_leaf 2] = leaf_count (levels (fe_arities toy_post) 1)" by code_simp
  have s: "\<forall>pr\<in>set [toy_post_proof]. \<forall>sp\<in>set (po_sectors pr). \<forall>p\<in>set (sp_inclusion_proofs sp). shape_ok (fe_arities toy_post) 1 p"
    by code_simp
  have b: "0 < length (fi_sectors toy_one_sector)" "0 < fp_challenge_count toy_one_challenge" by code_simp+
  have n: "\<not> proof_collides (fe_node_hash toy_post) (fe_arities toy_post) 1 [toy_leaf 1, toy_leaf 2] (sp_inclusion_proofs (po_sectors toy_post_proof ! 0) ! 0)"
      "\<not> pair_collides (fe_hash2 toy_post) (sp_comm_c (po_sectors toy_post_proof ! 0), mp_root (sp_inclusion_proofs (po_sectors toy_post_proof ! 0) ! 0))
         (toy_leaf 5, toy_leaf 3)"
    by code_simp+
  have "pub_id (fi_sectors toy_one_sector ! 0) = 9" "fp_sector_count toy_one_challenge = 1"
    by (simp_all add: toy_one_sector_def toy_one_challenge_def)
  then show ?thesis using post_verify_sound [OF P v b s r t l] v n by (simp add: numeral_2_eq_2 Let_def)
qed
end
