(* ===== verification/F32.thy ===== *)
theory F32
  imports Prelude
begin

text \<open>
  Rounded-up quotients of counts in single precision, \<open>(a as f32 / b as f32).ceil() as usize\<close>, as
  \<open>filecoin-proofs/src/api/post_util.rs\<close> and \<open>storage-proofs-update/src/challenges.rs\<close> compute them,
  and the proof that they are exact for counts below \<open>2 ^ 24\<close>.
\<close>

section \<open>The code\<close>

text \<open>
  \<open>(a as f32 / b as f32).ceil() as usize\<close>: both operands and the quotient are rounded to 24 significant
  bits, ties to even. The quotient is computed with 89 more bits and whether there is a rest.
\<close>

function f32_scale :: "nat \<Rightarrow> nat" where
  "f32_scale n = (if n < 2 ^ 24 then 0 else Suc (f32_scale (n div 2)))"
  by pat_completeness auto
termination by (relation "measure id") auto

declare f32_scale.simps [simp del]

definition f32_round :: "nat \<Rightarrow> bool \<Rightarrow> nat" where
  "f32_round n inexact =
     (let u = 2 ^ f32_scale n; q = n div u; r = n mod u
      in (if 2 * r < u \<or> 2 * r = u \<and> \<not> inexact \<and> even q then q else q + 1) * u)"

definition f32_ceil_div :: "nat \<Rightarrow> nat \<Rightarrow> nat" where
  "f32_ceil_div a b =
     (let a = f32_round a False; b = f32_round b False
      in if b = 0 then if a = 0 then 0 else 2 ^ 64 - 1
         else min (2 ^ 64 - 1) ((f32_round (a * 2 ^ 89 div b) (a * 2 ^ 89 mod b \<noteq> 0) + (2 ^ 89 - 1)) div 2 ^ 89))"

section \<open>Exact quotients\<close>

lemma f32_scale_0: "n < 2 ^ 24 \<Longrightarrow> f32_scale n = 0"
  by (simp add: f32_scale.simps)

lemma f32_exact: "n < 2 ^ 24 \<Longrightarrow> f32_round n False = n"
  by (simp add: f32_round_def f32_scale_0)

lemma f32_scale_bounds: "n div 2 ^ f32_scale n < 2 ^ 24 \<and> (f32_scale n = 0 \<or> 2 ^ 23 * 2 ^ f32_scale n \<le> n)"
proof (induction n rule: f32_scale.induct)
  case (1 n)
  show ?case
  proof (cases "n < 2 ^ 24")
    case False
    then have s: "f32_scale n = Suc (f32_scale (n div 2))" by (subst f32_scale.simps) simp
    have "2 ^ 23 * 2 ^ f32_scale (n div 2) \<le> n div 2"
    proof (cases "f32_scale (n div 2) = 0")
      case True
      then show ?thesis using False by (simp add: div_greater_zero_iff)
    next
      case f: False
      then show ?thesis using 1 [OF False] by simp
    qed
    then have "2 * (2 ^ 23 * 2 ^ f32_scale (n div 2)) \<le> n" by linarith
    moreover have "n div 2 ^ f32_scale n = n div 2 div 2 ^ f32_scale (n div 2)" by (simp add: s div_mult2_eq)
    ultimately show ?thesis using 1 False by (simp add: s)
  qed (simp add: f32_scale_0)
qed

lemma f32_scale_le: "n div 2 ^ t < 2 ^ 24 \<Longrightarrow> f32_scale n \<le> t"
proof (induction t arbitrary: n)
  case (Suc t)
  then have "n div 2 div 2 ^ t < 2 ^ 24" by (simp add: div_mult2_eq)
  then have "f32_scale (n div 2) \<le> t" by (rule Suc.IH)
  then show ?case by (subst f32_scale.simps) simp
qed (simp add: f32_scale_0)

text \<open>Rounding to nearest does not cross a multiple of a power of two that is coarser than the last place.\<close>

lemma f32_round_below:
  assumes "f32_scale n \<le> t" and "n \<le> c * 2 ^ t"
  shows "f32_round n b \<le> c * 2 ^ t"
proof -
  let ?u = "(2::nat) ^ f32_scale n"
  obtain v where v: "(2::nat) ^ t = ?u * v" using assms(1) by (metis le_add_diff_inverse power_add)
  show ?thesis
  proof (cases "n mod ?u = 0")
    case True
    then show ?thesis using assms(2) by (simp add: f32_round_def Let_def) (metis True mod_0_imp_dvd dvd_div_mult_self)
  next
    case False
    have "n div ?u < c * v"
    proof -
      have "n div ?u * ?u < n" using False by (metis div_mult_mod_eq less_add_same_cancel1 neq0_conv)
      then have "n div ?u * ?u < c * v * ?u" using assms(2) by (simp only: v mult.assoc mult.commute [of v])
      then show ?thesis by (simp only: mult_less_cancel2)
    qed
    then have "(n div ?u + 1) * ?u \<le> c * v * ?u" by (intro mult_le_mono1) simp
    moreover have "f32_round n b \<le> (n div ?u + 1) * ?u" by (simp add: f32_round_def Let_def)
    ultimately show ?thesis by (simp add: v mult.commute mult.left_commute)
  qed
qed

lemma f32_round_above:
  assumes "f32_scale n \<le> t" and "c * 2 ^ t < n" and "2 ^ f32_scale n < 2 * (n - c * 2 ^ t)"
  shows "c * 2 ^ t < f32_round n b"
proof -
  let ?u = "(2::nat) ^ f32_scale n" let ?q = "n div ?u" and ?r = "n mod ?u"
  obtain v where v: "(2::nat) ^ t = ?u * v" using assms(1) by (metis le_add_diff_inverse power_add)
  have n: "?q * ?u + ?r = n" by (rule div_mult_mod_eq)
  have cv: "c * 2 ^ t = c * v * ?u" by (simp only: v mult.assoc mult.commute [of v])
  have "c * v * ?u \<le> n" using assms(2) cv by linarith
  then have q: "c * v \<le> ?q" by (simp add: less_eq_div_iff_mult_less_eq)
  show ?thesis
  proof (cases "c * v = ?q")
    case True
    then have cq: "c * 2 ^ t = ?q * ?u" by (simp only: cv)
    have "?r = n - c * 2 ^ t" unfolding cq using n by linarith
    then have "\<not> 2 * ?r < ?u" "2 * ?r \<noteq> ?u" using assms(3) by linarith+
    then have "f32_round n b = (?q + 1) * ?u" by (simp add: f32_round_def Let_def)
    moreover have "(?q + 1) * ?u = c * 2 ^ t + ?u" by (simp only: cq add_mult_distrib mult_1)
    ultimately show ?thesis by simp
  next
    case False
    then have "c * v + 1 \<le> ?q" using q by simp
    then have "(c * v + 1) * ?u \<le> ?q * ?u" by (rule mult_le_mono1)
    moreover have "?q * ?u \<le> f32_round n b" by (simp add: f32_round_def Let_def)
    moreover have "(c * v + 1) * ?u = c * 2 ^ t + ?u" by (simp only: cv add_mult_distrib mult_1)
    moreover have "0 < ?u" by simp
    ultimately show ?thesis by linarith
  qed
qed

lemma f32_quotient:
  assumes a: "a < 2 ^ 24" and b: "0 < b" "b < 2 ^ 24" and D: "D = (2::nat) ^ 89" and N: "N = a * D div b"
  shows "a mod b = 0 \<Longrightarrow> f32_round N False = (a div b) * D"
    and "a mod b \<noteq> 0 \<Longrightarrow> (a div b) * D < f32_round N x \<and> f32_round N x \<le> (a div b + 1) * D"
proof -
  let ?m = "a div b" and ?r = "a mod b"
  have m: "?m < 2 ^ 24" using a div_le_dividend [of a b] by linarith
  have "a * D = (?m * b + ?r) * D" by (simp only: div_mult_mod_eq)
  then have e: "a * D = ?m * D * b + ?r * D" by (simp only: add_mult_distrib mult.assoc mult.commute [of D b])
  have N': "N = ?m * D + ?r * D div b" unfolding N e using b(1) by simp
  have rD: "?r * D div b < D"
  proof -
    have "?r * D < b * D" using b(1) D by simp
    then show ?thesis by (simp add: div_less_iff_less_mult b(1) mult.commute)
  qed
  have "N div D = ?m" using rD D by (simp add: N')
  then have s: "f32_scale N \<le> 89" using m D by (intro f32_scale_le) simp
  show "f32_round N False = ?m * D" if "?r = 0"
  proof -
    have "2 ^ f32_scale N dvd D" unfolding D by (rule le_imp_power_dvd [OF s])
    then have "2 ^ f32_scale N dvd N" using N' that by (simp add: dvd_mult)
    then have "N mod 2 ^ f32_scale N = 0" "N div 2 ^ f32_scale N * 2 ^ f32_scale N = N" by simp_all
    then show ?thesis using N' that by (simp add: f32_round_def Let_def)
  qed
  show "?m * D < f32_round N x \<and> f32_round N x \<le> (?m + 1) * D" if r: "?r \<noteq> 0"
  proof
    have "N \<le> (?m + 1) * D" using N' rD by simp
    then show "f32_round N x \<le> (?m + 1) * D" using f32_round_below [OF s] unfolding D by blast
    have "D div b \<le> ?r * D div b" using r by (intro div_le_mono) simp
    then have d: "D div b \<le> N - ?m * D" using N' by simp
    have Db: "D < D div b * b + b" using b(1) by (metis add.commute div_mult_mod_eq add_less_cancel_left mod_less_divisor)
    have big: "2 ^ f32_scale N < 2 * (D div b)"
    proof (cases "f32_scale N = 0")
      case True
      have "1 * b \<le> D" using b(2) D by simp
      then have "1 \<le> D div b" using b(1) by (simp add: less_eq_div_iff_mult_less_eq)
      then show ?thesis using True by simp
    next
      case False
      then have "2 ^ 23 * 2 ^ f32_scale N \<le> N" using f32_scale_bounds [of N] by simp
      then have "2 ^ 23 * 2 ^ f32_scale N * b \<le> N * b" by (rule mult_le_mono1)
      also have "\<dots> \<le> a * D" unfolding N by (rule div_times_less_eq_dividend)
      also have "\<dots> \<le> (2 ^ 24 - 1) * D" using a by (intro mult_le_mono1) simp
      finally have "2 ^ f32_scale N * b \<le> (2 ^ 24 - 1) * 2 ^ 66" unfolding D by (simp add: mult.assoc mult.commute [of b])
      also have "\<dots> < 2 * (D - b)" using b(2) D by simp
      also have "\<dots> < 2 * (D div b) * b" using Db b(2) D by simp
      finally show ?thesis by simp
    qed
    then have "0 < D div b" by (cases "D div b") simp_all
    then show "?m * D < f32_round N x" using f32_round_above [OF s, of ?m x] big d unfolding D by linarith
  qed
qed

lemma f32_ceil_div_exact:
  assumes a: "a < 2 ^ 24" and b: "0 < b" "b < 2 ^ 24"
  shows "f32_ceil_div a b = (a + b - 1) div b"
proof -
  let ?m = "a div b" and ?r = "a mod b"
  define D where "D = (2::nat) ^ 89"
  define R where "R = f32_round (a * D div b) (a * D mod b \<noteq> 0)"
  note q = f32_quotient [OF assms D_def refl]
  have m: "?m < 2 ^ 24" using a div_le_dividend [of a b] by linarith
  have e: "a = ?m * b + ?r" by simp
  have dv: "(q * b + s) div b = q" if "s < b" for q s using that by simp
  have R: "(R + (D - 1)) div D = (a + b - 1) div b"
  proof (cases "?r = 0")
    case True
    then have "a * D mod b = 0" by (metis mod_mult_left_eq mult_0 mod_0)
    then have "R = ?m * D" using q(1) [OF True] by (simp add: R_def)
    then have "(R + (D - 1)) div D = ?m" by (simp add: D_def)
    moreover have x: "a + b - 1 = ?m * b + (b - 1)" using e True b by linarith
    have "(a + b - 1) div b = ?m" unfolding x by (rule dv) (use b in simp)
    ultimately show ?thesis by simp
  next
    case False
    then have "?m * D < R" "R \<le> (?m + 1) * D" using q(2) by (simp_all add: R_def)
    then have "(R + (D - 1)) div D = ?m + 1"
      by (intro div_nat_eqI) (simp_all add: D_def)
    moreover have x: "a + b - 1 = (?m + 1) * b + (?r - 1)" using e False by simp
    have "(a + b - 1) div b = ?m + 1" unfolding x by (rule dv) (use mod_less_divisor [OF b(1), of a] False in linarith)
    ultimately show ?thesis by simp
  qed
  have "a + b - 1 \<le> 2 ^ 25" using a b by simp
  with div_le_dividend have "(a + b - 1) div b \<le> 2 ^ 25" by (rule le_trans)
  then show ?thesis using R b by (simp add: f32_ceil_div_def f32_exact [OF a] f32_exact [OF b(2)] R_def D_def Let_def)
qed

end
