(* ===== verification/Post_Api.thy ===== *)
theory Post_Api
  imports Replica_Info Fallback_Post F32
begin

text \<open>
  Window and winning proofs of spacetime over replicas: \<open>filecoin-proofs/src/api/post_util.rs\<close>,
  \<open>window_post.rs\<close> and \<open>winning_post.rs\<close>, with the vanilla part of \<open>CompoundProof\<close>
  (\<open>storage-proofs-core/src/compound_proof.rs\<close>). The sectors can be proved together, or each on its
  own machine, and the proofs put together in partitions afterwards.

  The last step, from vanilla proofs to Groth16 proofs and their bytes, is the argument
  \<open>groth\<close>. Maps from sector ids are lists of pairs in the order of the ids when they are iterated.
\<close>

section \<open>The code\<close>

subsection \<open>Counting partitions\<close>

definition get_partitions_for_window_post :: "nat \<Rightarrow> post_config \<Rightarrow> nat option" where
  "get_partitions_for_window_post total_sector_count cfg =
     (let partitions = f32_ceil_div total_sector_count (po_sector_count cfg)
      in if 1 < partitions then Some partitions else None)"

definition get_num_partition_for_fallback_post :: "post_config \<Rightarrow> nat \<Rightarrow> nat" where
  "get_num_partition_for_fallback_post cfg num_sectors =
     (case po_typ cfg of
        Window \<Rightarrow> (let partitions = f32_ceil_div num_sectors (po_sector_count cfg) in if 1 < partitions then partitions else 1)
      | Winning \<Rightarrow> 1)"

subsection \<open>Challenges and proofs of single sectors\<close>

text \<open>What is fixed in a run: the primitives, the crate and how trees are opened.\<close>

record ('f, 't, 'p, 's, 'b) post_api =
  wa_env :: "('t, 'p) post_env"
  wa_prims :: "'f porep_prims"
  wa_opener :: "('s, 'b, 't) tree_opener"

record fallback_sector_proof =
  fsp_sector_id :: u64
  fsp_comm_r :: "u8 list"
  fsp_vanilla_proof :: post_proof

definition unwrap_or :: "'a option \<Rightarrow> 'a \<Rightarrow> 'a" where
  "unwrap_or o' d = (case o' of None \<Rightarrow> d | Some x \<Rightarrow> x)"

definition params_of_config :: "post_config \<Rightarrow> post_params" where
  "params_of_config cfg = \<lparr>fp_sector_size = po_sector_size cfg, fp_challenge_count = po_challenge_count cfg,
     fp_sector_count = po_sector_count cfg, fp_api_version = po_api_version cfg\<rparr>"

definition sector_challenges ::
  "('f, 't, 'p, 's, 'b) post_api \<Rightarrow> post_config \<Rightarrow> u8 list \<Rightarrow> nat \<Rightarrow> nat \<times> u64 \<Rightarrow> (u64 \<times> nat list) res" where
  "sector_challenges A cfg randomness partition_index = (\<lambda>(i, sector).
     bindR (collectR (\<lambda>n.
       bindR (umul partition_index (po_sector_count cfg)) (\<lambda>m. bindR (uadd m i) (\<lambda>sector_index.
       bindR (get_challenge_index (po_api_version cfg) sector_index (po_challenge_count cfg) n) (\<lambda>challenge_index.
       generate_leaf_challenge (fe_sha256 (wa_env A)) (params_of_config cfg) randomness sector challenge_index))))
       [0..<po_challenge_count cfg]) (\<lambda>challenges. Inr (sector, challenges)))"

definition generate_fallback_sector_challenges ::
  "('f, 't, 'p, 's, 'b) post_api \<Rightarrow> post_config \<Rightarrow> u8 list \<Rightarrow> u64 list \<Rightarrow> u8 list \<Rightarrow> (u64 \<rightharpoonup> nat list) res" where
  "generate_fallback_sector_challenges A cfg randomness pub_sectors prover_id =
     bindR (as_safe_commitment (wa_prims A) randomness) (\<lambda>randomness_safe.
     let partitions = (case po_typ cfg of
           Window \<Rightarrow> unwrap_or (get_partitions_for_window_post (length pub_sectors) cfg) 1 | Winning \<Rightarrow> 1)
     in bindR (collectR (\<lambda>partition_index.
          bindR (uchunks (po_sector_count cfg) pub_sectors) (\<lambda>chunks.
          if partition_index < length chunks
          then collectR (sector_challenges A cfg randomness_safe partition_index) (enumerate 0 (chunks ! partition_index))
          else Inl (Fail ''invalid number of sectors/partition index'')))
          [0..<partitions]) (\<lambda>rs.
        Inr (foldl (\<lambda>m (sector, challenges). m(sector \<mapsto> challenges)) Map.empty (concat rs))))"

definition api_merkle_tree :: "('f, 't, 'p, 's, 'b) post_api \<Rightarrow> nat \<Rightarrow> replica_info \<Rightarrow> 't res" where
  "api_merkle_tree A sector_size r =
     merkle_tree_of (wa_opener A) (fe_crate (wa_env A)) (fe_arities (wa_env A)) (fe_rows (wa_env A))
       (fe_rows_to_discard (wa_env A)) sector_size r"

definition generate_single_vanilla_proof ::
  "('f, 't, 'p, 's, 'b) post_api \<Rightarrow> post_config \<Rightarrow> u64 \<Rightarrow> replica_info \<Rightarrow> nat list \<Rightarrow> fallback_sector_proof res" where
  "generate_single_vanilla_proof A cfg sector_id replica challenges =
     bindR (api_merkle_tree A (po_sector_size cfg) replica) (\<lambda>tree.
     bindR (safe_comm_r (wa_prims A) replica) (\<lambda>comm_r.
     let priv_sectors = [\<lparr>prv_tree = tree, prv_comm_c = safe_comm_c replica, prv_comm_r_last = safe_comm_r_last replica\<rparr>]
     in bindR (vanilla_proof (wa_env A) priv_sectors challenges) (\<lambda>proof.
        Inr \<lparr>fsp_sector_id = sector_id, fsp_comm_r = comm_r, fsp_vanilla_proof = proof\<rparr>)))"

subsection \<open>Partitions\<close>

definition single_partition_vanilla_proofs ::
  "('t, 'p) post_env \<Rightarrow> post_config \<Rightarrow> post_params \<Rightarrow> post_inputs \<Rightarrow> fallback_sector_proof list \<Rightarrow> post_proof res" where
  "single_partition_vanilla_proofs E cfg pp pi vanilla_proofs =
     (case fi_k pi of None \<Rightarrow> Inl (Fail ''must have a partition index'')
      | Some partition_index \<Rightarrow>
        ensure (length (fi_sectors pi) \<le> fp_sector_count pp) ''can only prove a single partition''
          (bindR (case po_typ cfg of
             Window \<Rightarrow>
               bindR (collectR (\<lambda>pub_sector. case find (\<lambda>proof. fsp_sector_id proof = pub_id pub_sector) vanilla_proofs of
                     None \<Rightarrow> Inl (Panic ''failed to locate sector proof'')
                   | Some cur_proof \<Rightarrow> Inr (po_sectors (fsp_vanilla_proof cur_proof))) (fi_sectors pi)) (\<lambda>sector_proofs.
               pad_proofs (fp_sector_count pp) (concat sector_proofs))
           | Winning \<Rightarrow>
               ensure (length vanilla_proofs = 1) ''Invalid sector chunk for Winning PoSt''
               (ensure (length (po_sectors (fsp_vanilla_proof (vanilla_proofs ! 0))) = 1) ''Invalid sector count for Winning PoSt chunk''
               (bindR (at_index vanilla_proofs partition_index) (\<lambda>chunk.
                ensure (po_sector_count cfg = length (po_sectors (fsp_vanilla_proof chunk))) ''invalid number of sector proofs for Winning PoSt''
                (let cur_sector_proof = po_sectors (fsp_vanilla_proof (vanilla_proofs ! 0)) ! 0;
                     sector_proofs = map (\<lambda>p. cur_sector_proof\<lparr>sp_inclusion_proofs := [p]\<rparr>) (sp_inclusion_proofs cur_sector_proof)
                 in bindR (pad_proofs (fp_sector_count pp) sector_proofs) (\<lambda>sector_proofs.
                    ensure (length sector_proofs = po_challenge_count cfg)
                      ''invalid number of partition proofs based on Winning PoSt challenges'' (Inr sector_proofs)))))))
           (\<lambda>sector_proofs.
           bindR (fallback_verify E pp pi \<lparr>po_sectors = sector_proofs\<rparr>) (\<lambda>valid.
           ensure valid ''partitioned vanilla proofs failed to verify'' (Inr \<lparr>po_sectors = sector_proofs\<rparr>)))))"

definition partition_vanilla_proofs ::
  "('t, 'p) post_env \<Rightarrow> post_config \<Rightarrow> post_params \<Rightarrow> post_inputs \<Rightarrow> nat \<Rightarrow> fallback_sector_proof list \<Rightarrow> post_proof list res" where
  "partition_vanilla_proofs E cfg pp pi partition_count vanilla_proofs =
     bindR (umul partition_count (fp_sector_count pp)) (\<lambda>most.
     ensure (length (fi_sectors pi) \<le> most) ''cannot prove the provided number of sectors''
       (bindR (case po_typ cfg of
          Window \<Rightarrow> bindR (uchunks (fp_sector_count pp) (fi_sectors pi)) (\<lambda>chunks.
            collectR (\<lambda>(j, sectors_chunk). single_partition_vanilla_proofs E cfg pp (pi\<lparr>fi_sectors := sectors_chunk, fi_k := Some j\<rparr>) vanilla_proofs)
              (enumerate 0 chunks))
        | Winning \<Rightarrow> bindR (uchunks (fp_sector_count pp) vanilla_proofs) (\<lambda>chunks.
            collectR (\<lambda>(j, sectors_chunk). single_partition_vanilla_proofs E cfg pp (fallback_with_partition pi (Some j)) sectors_chunk)
              (enumerate 0 chunks)))
        (\<lambda>partition_proofs.
        bindR (fallback_verify_all E pp pi partition_proofs) (\<lambda>valid.
        ensure valid ''partitioned vanilla proofs failed to verify'' (Inr partition_proofs)))))"

definition merge_window_post_partition_proofs :: "u8 list list \<Rightarrow> u8 list res" where
  "merge_window_post_partition_proofs proofs = Inr (foldl (@) [] proofs)"


subsection \<open>Compound proofs\<close>

text \<open>
  \<open>groth\<close> makes the bytes of the circuit proofs for the parameters, the public inputs and the vanilla
  proofs; \<open>read_many\<close> and \<open>verify_batch\<close> read circuit proofs and verify them (with the public inputs).
\<close>

record compound_setup_params =
  cs_vanilla_params :: post_setup_params
  cs_partitions :: "nat option"
  cs_priority :: bool

record compound_params =
  cq_vanilla_params :: post_params
  cq_partitions :: "nat option"
  cq_priority :: bool

type_synonym groth_prover = "compound_params \<Rightarrow> post_inputs \<Rightarrow> post_proof list \<Rightarrow> u8 list res"

definition compound_setup :: "compound_setup_params \<Rightarrow> compound_params" where
  "compound_setup sp = \<lparr>cq_vanilla_params = fallback_setup (cs_vanilla_params sp), cq_partitions = cs_partitions sp, cq_priority = cs_priority sp\<rparr>"

fun compound_partition_count :: "nat option \<Rightarrow> nat res" where
  "compound_partition_count None = Inr 1"
| "compound_partition_count (Some 0) = Inl (Panic ''cannot specify zero partitions'')"
| "compound_partition_count (Some k) = Inr k"

definition compound_prove ::
  "('t, 'p) post_env \<Rightarrow> groth_prover \<Rightarrow> compound_params \<Rightarrow> post_inputs \<Rightarrow> 't private_sector list \<Rightarrow> post_error + u8 list" where
  "compound_prove E groth cq pi prvs =
     (case bindR (compound_partition_count (cq_partitions cq)) (\<lambda>n. ensure (0 < n) ''There must be partitions'' (Inr n)) of
        Inl e \<Rightarrow> Inl (Other e)
      | Inr partition_count \<Rightarrow>
          (case fallback_prove_all E (cq_vanilla_params cq) pi prvs partition_count of
             Inl e \<Rightarrow> Inl e
           | Inr vanilla_proofs \<Rightarrow>
               map_sum Other id (bindR (fallback_verify_all E (cq_vanilla_params cq) pi vanilla_proofs) (\<lambda>sanity_check.
                 ensure sanity_check ''sanity check failed'' (groth cq pi vanilla_proofs)))))"

definition prove_with_vanilla :: "groth_prover \<Rightarrow> compound_params \<Rightarrow> post_inputs \<Rightarrow> post_proof list \<Rightarrow> u8 list res" where
  "prove_with_vanilla groth cq pi vanilla_proofs =
     bindR (compound_partition_count (cq_partitions cq)) (\<lambda>n. ensure (0 < n) ''There must be partitions'' (groth cq pi vanilla_proofs))"

definition multi_proof_from_bytes :: "(u8 list \<Rightarrow> nat \<Rightarrow> 'g list res) \<Rightarrow> nat option \<Rightarrow> u8 list \<Rightarrow> 'g list res" where
  "multi_proof_from_bytes read_many partitions bytes =
     (let num_proofs = unwrap_or partitions 1
      in bindR (read_many bytes num_proofs) (\<lambda>proofs.
         ensure (num_proofs = length proofs) ''unexpected number of proofs'' (Inr proofs)))"

definition compound_verify ::
  "(compound_params \<Rightarrow> post_inputs \<Rightarrow> 'g list \<Rightarrow> bool res) \<Rightarrow> compound_params \<Rightarrow> post_inputs \<Rightarrow> 'g list \<Rightarrow> challenge_requirements \<Rightarrow> bool res" where
  "compound_verify verify_batch cq pi multi_proof requirements =
     bindR (compound_partition_count (cq_partitions cq)) (\<lambda>n.
     ensure (length multi_proof = n) ''Inconsistent inputs''
       (bindR (fallback_satisfies_requirements (cq_vanilla_params cq) requirements (length multi_proof)) (\<lambda>ok.
        if \<not> ok then Inr False else verify_batch cq pi multi_proof)))"

subsection \<open>Window proofs of spacetime\<close>

definition window_params :: "post_config \<Rightarrow> nat \<Rightarrow> bool \<Rightarrow> compound_params" where
  "window_params cfg sectors priority =
     compound_setup \<lparr>cs_vanilla_params = window_post_setup_params cfg, cs_partitions = get_partitions_for_window_post sectors cfg,
       cs_priority = priority\<rparr>"

definition public_of_vanilla :: "u8 list \<Rightarrow> u8 list \<Rightarrow> fallback_sector_proof list \<Rightarrow> nat option \<Rightarrow> post_inputs" where
  "public_of_vanilla randomness prover_id vanilla_proofs k =
     \<lparr>fi_randomness = randomness, fi_prover_id = prover_id,
      fi_sectors = map (\<lambda>p. \<lparr>pub_id = fsp_sector_id p, pub_comm_r = fsp_comm_r p\<rparr>) vanilla_proofs, fi_k = k\<rparr>"

definition sector_of_replica ::
  "('f, 't, 'p, 's, 'b) post_api \<Rightarrow> (u64 \<times> replica_info) \<times> 't \<Rightarrow> (public_sector \<times> 't private_sector) res" where
  "sector_of_replica A = (\<lambda>((sector_id, replica), tree).
     bindR (safe_comm_r (wa_prims A) replica) (\<lambda>comm_r.
     Inr (\<lparr>pub_id = sector_id, pub_comm_r = comm_r\<rparr>,
          \<lparr>prv_tree = tree, prv_comm_c = safe_comm_c replica, prv_comm_r_last = safe_comm_r_last replica\<rparr>)))"

definition generate_window_post_with_vanilla ::
  "('f, 't, 'p, 's, 'b) post_api \<Rightarrow> groth_prover \<Rightarrow> post_config \<Rightarrow> u8 list \<Rightarrow> u8 list \<Rightarrow> fallback_sector_proof list \<Rightarrow> u8 list res" where
  "generate_window_post_with_vanilla A groth cfg randomness prover_id vanilla_proofs =
     ensure (po_typ cfg = Window) ''invalid post config type''
       (bindR (as_safe_commitment (wa_prims A) randomness) (\<lambda>randomness_safe.
        bindR (as_safe_commitment (wa_prims A) prover_id) (\<lambda>prover_id_safe.
        let cq = window_params cfg (length vanilla_proofs) (po_priority cfg);
            pi = public_of_vanilla randomness_safe prover_id_safe vanilla_proofs None
        in bindR (partition_vanilla_proofs (wa_env A) cfg (cq_vanilla_params cq) pi (unwrap_or (cq_partitions cq) 1) vanilla_proofs)
             (\<lambda>partitioned_proofs. prove_with_vanilla groth cq pi partitioned_proofs))))"

definition generate_window_post ::
  "('f, 't, 'p, 's, 'b) post_api \<Rightarrow> groth_prover \<Rightarrow> post_config \<Rightarrow> u8 list \<Rightarrow> (u64 \<times> replica_info) list \<Rightarrow> u8 list \<Rightarrow> post_error + u8 list" where
  "generate_window_post A groth cfg randomness replicas prover_id =
     (case ensure (po_typ cfg = Window) ''invalid post config type''
        (bindR (as_safe_commitment (wa_prims A) randomness) (\<lambda>randomness_safe.
         bindR (as_safe_commitment (wa_prims A) prover_id) (\<lambda>prover_id_safe.
         bindR (collectR (\<lambda>(sector_id, replica). api_merkle_tree A (po_sector_size cfg) replica) replicas) (\<lambda>trees.
         bindR (collectR (sector_of_replica A) (zip replicas trees)) (\<lambda>sectors.
         Inr (\<lparr>fi_randomness = randomness_safe, fi_prover_id = prover_id_safe, fi_sectors = map fst sectors, fi_k = None\<rparr>,
              map snd sectors)))))) of
        Inl e \<Rightarrow> Inl (Other e)
      | Inr (pi, prvs) \<Rightarrow> compound_prove (wa_env A) groth (window_params cfg (length replicas) (po_priority cfg)) pi prvs)"

definition generate_single_window_post_with_vanilla ::
  "('f, 't, 'p, 's, 'b) post_api \<Rightarrow> groth_prover \<Rightarrow> post_config \<Rightarrow> u8 list \<Rightarrow> u8 list \<Rightarrow> fallback_sector_proof list \<Rightarrow> nat \<Rightarrow> u8 list res" where
  "generate_single_window_post_with_vanilla A groth cfg randomness prover_id vanilla_proofs partition_index =
     ensure (po_typ cfg = Window) ''invalid post config type''
       (bindR (as_safe_commitment (wa_prims A) randomness) (\<lambda>randomness_safe.
        bindR (as_safe_commitment (wa_prims A) prover_id) (\<lambda>prover_id_safe.
        let cq = window_params cfg (length vanilla_proofs) (po_priority cfg);
            pi = public_of_vanilla randomness_safe prover_id_safe vanilla_proofs (Some partition_index)
        in bindR (single_partition_vanilla_proofs (wa_env A) cfg (cq_vanilla_params cq) pi vanilla_proofs)
             (\<lambda>partitioned_proof. prove_with_vanilla groth cq pi [partitioned_proof]))))"

definition verify_window_post ::
  "('f, 't, 'p, 's, 'b) post_api \<Rightarrow> (u8 list \<Rightarrow> nat \<Rightarrow> 'g list res) \<Rightarrow> (compound_params \<Rightarrow> post_inputs \<Rightarrow> 'g list \<Rightarrow> bool res) \<Rightarrow>
    post_config \<Rightarrow> u8 list \<Rightarrow> (u64 \<times> public_replica_info) list \<Rightarrow> u8 list \<Rightarrow> u8 list \<Rightarrow> bool res" where
  "verify_window_post A read_many verify_batch cfg randomness replicas prover_id proof =
     ensure (po_typ cfg = Window) ''invalid post config type''
       (bindR (as_safe_commitment (wa_prims A) randomness) (\<lambda>randomness_safe.
        bindR (as_safe_commitment (wa_prims A) prover_id) (\<lambda>prover_id_safe.
        let cq = window_params cfg (length replicas) False
        in bindR (collectR (\<lambda>(sector_id, replica). bindR (public_safe_comm_r (wa_prims A) replica) (\<lambda>comm_r.
               Inr \<lparr>pub_id = sector_id, pub_comm_r = comm_r\<rparr>)) replicas) (\<lambda>pub_sectors.
           bindR (multi_proof_from_bytes read_many (cq_partitions cq) proof) (\<lambda>multi_proof.
           bindR (umul (po_challenge_count cfg) (po_sector_count cfg)) (\<lambda>minimum.
           compound_verify verify_batch cq \<lparr>fi_randomness = randomness_safe, fi_prover_id = prover_id_safe, fi_sectors = pub_sectors, fi_k = None\<rparr>
             multi_proof \<lparr>cr_minimum_challenge_count = minimum\<rparr>))))))"

subsection \<open>Winning proofs of spacetime\<close>

definition winning_params :: "post_config \<Rightarrow> bool \<Rightarrow> compound_params res" where
  "winning_params cfg priority =
     bindR (winning_post_setup_params cfg) (\<lambda>vanilla_params.
     Inr (compound_setup \<lparr>cs_vanilla_params = vanilla_params, cs_partitions = None, cs_priority = priority\<rparr>))"

definition generate_winning_post_with_vanilla ::
  "('f, 't, 'p, 's, 'b) post_api \<Rightarrow> groth_prover \<Rightarrow> post_config \<Rightarrow> u8 list \<Rightarrow> u8 list \<Rightarrow> fallback_sector_proof list \<Rightarrow> u8 list res" where
  "generate_winning_post_with_vanilla A groth cfg randomness prover_id vanilla_proofs =
     ensure (po_typ cfg = Winning) ''invalid post config type''
       (ensure (length vanilla_proofs = po_sector_count cfg) ''invalid amount of vanilla proofs''
         (bindR (as_safe_commitment (wa_prims A) randomness) (\<lambda>randomness_safe.
          bindR (as_safe_commitment (wa_prims A) prover_id) (\<lambda>prover_id_safe.
          bindR (winning_params cfg (po_priority cfg)) (\<lambda>cq.
          let pi = public_of_vanilla randomness_safe prover_id_safe vanilla_proofs None
          in bindR (partition_vanilla_proofs (wa_env A) cfg (cq_vanilla_params cq) pi (unwrap_or (cq_partitions cq) 1) vanilla_proofs)
               (\<lambda>partitioned_proofs. prove_with_vanilla groth cq pi partitioned_proofs))))))"

definition generate_winning_post ::
  "('f, 't, 'p, 's, 'b) post_api \<Rightarrow> groth_prover \<Rightarrow> post_config \<Rightarrow> u8 list \<Rightarrow> (u64 \<times> replica_info) list \<Rightarrow> u8 list \<Rightarrow> post_error + u8 list" where
  "generate_winning_post A groth cfg randomness replicas prover_id =
     (case ensure (po_typ cfg = Winning) ''invalid post config type''
        (ensure (length replicas = po_sector_count cfg) ''invalid amount of replicas''
          (bindR (as_safe_commitment (wa_prims A) randomness) (\<lambda>randomness_safe.
           bindR (as_safe_commitment (wa_prims A) prover_id) (\<lambda>prover_id_safe.
           bindR (winning_params cfg (po_priority cfg)) (\<lambda>cq.
           bindR (collectR (\<lambda>(sector_id, replica). api_merkle_tree A (po_sector_size cfg) replica) replicas) (\<lambda>trees.
           bindR (collectR (sector_of_replica A) (concat (replicate (fp_sector_count (cq_vanilla_params cq)) (zip replicas trees)))) (\<lambda>sectors.
           Inr (cq, \<lparr>fi_randomness = randomness_safe, fi_prover_id = prover_id_safe, fi_sectors = map fst sectors, fi_k = None\<rparr>,
                map snd sectors)))))))) of
        Inl e \<Rightarrow> Inl (Other e)
      | Inr (cq, pi, prvs) \<Rightarrow> compound_prove (wa_env A) groth cq pi prvs)"

definition generate_winning_post_sector_challenge ::
  "('f, 't, 'p, 's, 'b) post_api \<Rightarrow> post_config \<Rightarrow> u8 list \<Rightarrow> nat \<Rightarrow> u8 list \<Rightarrow> nat list res" where
  "generate_winning_post_sector_challenge A cfg randomness sector_set_size prover_id =
     ensure (sector_set_size \<noteq> 0) ''empty sector set is invalid''
       (ensure (po_typ cfg = Winning) ''invalid post config type''
         (bindR (as_safe_commitment (wa_prims A) prover_id) (\<lambda>prover_id_safe.
          bindR (as_safe_commitment (wa_prims A) randomness) (\<lambda>randomness_safe.
          generate_sector_challenges (fe_sha256 (wa_env A)) randomness_safe (po_sector_count cfg) sector_set_size prover_id_safe))))"

definition verify_winning_post ::
  "('f, 't, 'p, 's, 'b) post_api \<Rightarrow> (u8 list \<Rightarrow> nat \<Rightarrow> 'g list res) \<Rightarrow> (compound_params \<Rightarrow> post_inputs \<Rightarrow> 'g list \<Rightarrow> bool res) \<Rightarrow>
    post_config \<Rightarrow> u8 list \<Rightarrow> (u64 \<times> public_replica_info) list \<Rightarrow> u8 list \<Rightarrow> u8 list \<Rightarrow> bool res" where
  "verify_winning_post A read_many verify_batch cfg randomness replicas prover_id proof =
     ensure (po_typ cfg = Winning) ''invalid post config type''
       (ensure (po_sector_count cfg = length replicas) ''invalid amount of replicas provided''
         (bindR (as_safe_commitment (wa_prims A) randomness) (\<lambda>randomness_safe.
          bindR (as_safe_commitment (wa_prims A) prover_id) (\<lambda>prover_id_safe.
          bindR (winning_params cfg False) (\<lambda>cq.
          bindR (collectR (\<lambda>(sector_id, replica). bindR (public_safe_comm_r (wa_prims A) replica) (\<lambda>comm_r.
               Inr \<lparr>pub_id = sector_id, pub_comm_r = comm_r\<rparr>)) (concat (replicate (fp_sector_count (cq_vanilla_params cq)) replicas))) (\<lambda>pub_sectors.
          bindR (multi_proof_from_bytes read_many None proof) (\<lambda>single_proof.
          if length single_proof \<noteq> 1 then Inr False
          else bindR (umul (po_challenge_count cfg) (po_sector_count cfg)) (\<lambda>minimum.
            compound_verify verify_batch cq \<lparr>fi_randomness = randomness_safe, fi_prover_id = prover_id_safe, fi_sectors = pub_sectors, fi_k = None\<rparr>
              single_proof \<lparr>cr_minimum_challenge_count = minimum\<rparr>))))))))"

section \<open>Counting partitions is exact\<close>

lemma partition_count_ok:
  assumes n: "0 < po_sector_count cfg" "po_sector_count cfg < 2 ^ 24" and xs: "xs \<noteq> []" "length xs < 2 ^ 24"
  shows "unwrap_or (get_partitions_for_window_post (length xs) cfg) 1 = length (chunks (po_sector_count cfg) xs)"
    and "compound_partition_count (get_partitions_for_window_post (length xs) cfg) = Inr (length (chunks (po_sector_count cfg) xs))"
proof -
  let ?n = "po_sector_count cfg" and ?L = "length (chunks (po_sector_count cfg) xs)"
  note c = chunk_bounds [OF n(1) xs(1)]
  have L: "0 < ?L" using n(1) xs(1) by (simp add: chunks_step)
  then obtain l where l: "?L = Suc l" by (cases ?L) simp_all
  have "(length xs + ?n - 1) div ?n = ?L"
    using c n(1) by (intro div_nat_eqI) (simp_all add: l mult.commute)
  then have f: "f32_ceil_div (length xs) ?n = ?L" by (simp add: f32_ceil_div_exact [OF xs(2) n])
  show "unwrap_or (get_partitions_for_window_post (length xs) cfg) 1 = ?L"
    using l by (auto simp: get_partitions_for_window_post_def f unwrap_or_def Let_def)
  show "compound_partition_count (get_partitions_for_window_post (length xs) cfg) = Inr ?L"
    using L by (cases "1 < ?L") (auto simp: get_partitions_for_window_post_def f l Let_def)
qed

section \<open>One proof or many\<close>

text \<open>The proof of one sector, from its tree and the challenged leaves.\<close>

definition honest_sector :: "('t, 'p) post_env \<Rightarrow> 't private_sector \<Rightarrow> nat list \<Rightarrow> sector_proof" where
  "honest_sector E prv leaves =
     \<lparr>sp_inclusion_proofs = map (\<lambda>leaf. projr (gen_cached_proof (fe_crate E) (fe_arities E) (prv_tree prv) leaf
        (Some (post_rows_to_discard E (prv_tree prv))))) leaves,
      sp_comm_c = prv_comm_c prv, sp_comm_r_last = prv_comm_r_last prv\<rparr>"

lemma honest_sector_ok:
  assumes P: "post_ok E pp k" and b: "in_bounds pp j i" and cc: "0 < fp_challenge_count pp" and h: "healthy E k (pub, prv)"
    and ls: "collectR (challenged_leaf E pp pi j i (pub_id pub)) [0..<fp_challenge_count pp] = Inr leaves"
  shows "prove_sector E pp pi j (i, pub, prv) = Inr (honest_sector E prv leaves, [])"
    and "vanilla_proof E [prv] leaves = Inr \<lparr>po_sectors = [honest_sector E prv leaves]\<rparr>"
    and "verify_sector E pp pi j (i, pub, honest_sector E prv leaves) = Inr True"
proof -
  let ?g = "\<lambda>leaf. gen_cached_proof (fe_crate E) (fe_arities E) (prv_tree prv) leaf (Some (post_rows_to_discard E (prv_tree prv)))"
  have t: "can_open E k (prv_tree prv)" and r: "prv_comm_r_last prv = tree_root_of (fe_crate E) (prv_tree prv)"
    and c: "pub_comm_r pub = fe_hash2 E (prv_comm_c prv) (prv_comm_r_last prv)" using h by (simp_all add: healthy_def)
  have len: "length leaves = fp_challenge_count pp" using collectR_length [OF ls] by simp
  have leaf: "challenged_leaf E pp pi j i (pub_id pub) n = Inr (leaves ! n)" if "n < fp_challenge_count pp" for n
    using collectR_nth [OF ls, of n] that by simp
  have g: "?g (leaves ! n) = Inr (projr (?g (leaves ! n))) \<and> mp_validate (fe_node_hash E) (fe_arities E) (projr (?g (leaves ! n))) (leaves ! n) = Inr True \<and>
      mp_root (projr (?g (leaves ! n))) = prv_comm_r_last prv" if n: "n < fp_challenge_count pp" for n
  proof -
    obtain x where "challenged_leaf E pp pi j i (pub_id pub) n = Inr x" "x < leaf_count (levels (fe_arities E) k)"
      by (rule challenged_leaf_ok [OF P b n])
    then have lt: "leaves ! n < leaf_count (levels (fe_arities E) k)" using leaf [OF n] by simp
    obtain p where "?g (leaves ! n) = Inr p" "mp_validate (fe_node_hash E) (fe_arities E) p (leaves ! n) = Inr True"
        "mp_root p = tree_root_of (fe_crate E) (prv_tree prv)" by (rule cached_opening [OF P t lt]) blast
    then show ?thesis using r by simp
  qed
  have "post_challenge E pp pi j i pub prv n = Inr (Some (projr (?g (leaves ! n))))" if n: "n < fp_challenge_count pp" for n
    using g [OF n] leaf [OF n] c by (auto simp: post_challenge_def split: sum.splits)
  then have "collectR (post_challenge E pp pi j i pub prv) [0..<fp_challenge_count pp] =
      Inr (map (\<lambda>n. Some (projr (?g (leaves ! n)))) [0..<fp_challenge_count pp])" by (intro collectR_all_ok) simp
  moreover have m: "map (\<lambda>n. f (leaves ! n)) [0..<fp_challenge_count pp] = map f leaves" for f :: "nat \<Rightarrow> 'c"
    using len by (intro nth_equalityI) simp_all
  moreover have "filter (\<lambda>r. r \<noteq> None) (map (\<lambda>n. Some (f n)) xs) = map (\<lambda>n. Some (f n)) xs" for f :: "nat \<Rightarrow> 'd" and xs
    by (induction xs) simp_all
  ultimately show p: "prove_sector E pp pi j (i, pub, prv) = Inr (honest_sector E prv leaves, [])"
    by (auto simp: prove_sector_def honest_sector_def comp_def)
  have "collectR (\<lambda>leaf. bindR (?g leaf) (\<lambda>proof. bindR (mp_validate (fe_node_hash E) (fe_arities E) proof leaf) (\<lambda>valid.
      ensure (valid \<and> mp_root proof = prv_comm_r_last prv) ''Generated vanilla proof for sector is invalid'' (Inr proof)))) leaves =
      Inr (map (\<lambda>leaf. projr (?g leaf)) leaves)"
  proof (rule collectR_all_ok)
    fix leaf assume "leaf \<in> set leaves"
    then obtain n where n: "n < fp_challenge_count pp" "leaf = leaves ! n" using len by (auto simp: in_set_conv_nth)
    then obtain p where "?g leaf = Inr p" "mp_validate (fe_node_hash E) (fe_arities E) p leaf = Inr True" "mp_root p = prv_comm_r_last prv"
      using g [OF n(1)] by metis
    then show "bindR (?g leaf) (\<lambda>proof. bindR (mp_validate (fe_node_hash E) (fe_arities E) proof leaf) (\<lambda>valid.
        ensure (valid \<and> mp_root proof = prv_comm_r_last prv) ''Generated vanilla proof for sector is invalid'' (Inr proof))) = Inr (projr (?g leaf))"
      by simp
  qed
  then show "vanilla_proof E [prv] leaves = Inr \<lparr>po_sectors = [honest_sector E prv leaves]\<rparr>"
    by (simp add: vanilla_proof_def honest_sector_def Let_def)
  show "verify_sector E pp pi j (i, pub, honest_sector E prv leaves) = Inr True"
    using prove_sector_ok [OF P b cc, of prv pi pub] t h p by auto
qed

lemma single_partition_ok:
  assumes P: "post_ok E pp k" and cc: "0 < fp_challenge_count pp" and w: "po_typ cfg = Window"
    and l: "length prvs = length pubs" "pubs \<noteq> []" "length pubs \<le> fp_sector_count pp"
    and b: "\<And>i. i < length pubs \<Longrightarrow> in_bounds pp j i" and h: "\<And>i. i < length pubs \<Longrightarrow> healthy E k (pubs ! i, prvs ! i)"
    and ls: "\<And>i. i < length pubs \<Longrightarrow> collectR (challenged_leaf E pp pi j i (pub_id (pubs ! i))) [0..<fp_challenge_count pp] = Inr (ls i)"
    and f: "\<And>i. i < length pubs \<Longrightarrow> \<exists>v. find (\<lambda>p. fsp_sector_id p = pub_id (pubs ! i)) vps = Some v \<and>
      fsp_vanilla_proof v = \<lparr>po_sectors = [honest_sector E (prvs ! i) (ls i)]\<rparr>"
  shows "\<exists>pr. prove_partition E pp pi (j, pubs, prvs) = Inr (pr, []) \<and>
    single_partition_vanilla_proofs E cfg pp (pi\<lparr>fi_sectors := pubs, fi_k := Some j\<rparr>) vps = Inr pr \<and>
    fallback_verify E pp (pi\<lparr>fi_sectors := pubs, fi_k := Some j\<rparr>) pr = Inr True"
proof -
  let ?hs = "map (\<lambda>i. honest_sector E (prvs ! i) (ls i)) [0..<length pubs]" and ?pi = "pi\<lparr>fi_sectors := pubs, fi_k := Some j\<rparr>"
  note ok = honest_sector_ok [OF P b cc h ls]
  have "enumerate 0 (zip pubs prvs) = map (\<lambda>i. (i, pubs ! i, prvs ! i)) [0..<length pubs]"
    using l(1) by (intro nth_equalityI) (simp_all add: nth_enumerate_eq)
  then have "collectR (prove_sector E pp pi j) (enumerate 0 (zip pubs prvs)) =
      Inr (map (\<lambda>i. (honest_sector E (prvs ! i) (ls i), [])) [0..<length pubs])"
    using ok(1) by (simp add: collectR_map) (intro collectR_all_ok, simp)
  moreover obtain ps where ps: "pad_proofs (fp_sector_count pp) ?hs = Inr ps" "fallback_verify E pp ?pi \<lparr>po_sectors = ps\<rparr> = Inr True"
    using padded_verifies [of ?hs pubs pp E pi j ?pi] l ok(3) by auto
  moreover have "concat (map snd (map (\<lambda>i. (honest_sector E (prvs ! i) (ls i), [] :: u64 list)) [0..<length pubs])) = []" by simp
  ultimately have pp: "prove_partition E pp pi (j, pubs, prvs) = Inr (\<lparr>po_sectors = ps\<rparr>, [])"
    by (simp add: prove_partition_def comp_def)
  let ?find = "\<lambda>pub_sector. case find (\<lambda>proof. fsp_sector_id proof = pub_id pub_sector) vps of
      None \<Rightarrow> Inl (Panic ''failed to locate sector proof'') | Some cur_proof \<Rightarrow> Inr (po_sectors (fsp_vanilla_proof cur_proof))"
  have "collectR ?find pubs = collectR (?find \<circ> (!) pubs) [0..<length pubs]" by (simp flip: collectR_map add: map_nth)
  also have "\<dots> = Inr (map (\<lambda>i. [honest_sector E (prvs ! i) (ls i)]) [0..<length pubs])"
    using f by (intro collectR_all_ok) fastforce
  finally have "single_partition_vanilla_proofs E cfg pp ?pi vps = Inr \<lparr>po_sectors = ps\<rparr>"
    using w l(3) ps by (simp add: single_partition_vanilla_proofs_def)
  then show ?thesis using pp ps(2) by blast
qed

text \<open>The number of a sector in the whole list, as in the challenges.\<close>

lemma distributed_partitions:
  assumes P: "post_ok E pp k" and cc: "0 < fp_challenge_count pp" and w: "po_typ cfg = Window"
    and l: "length prvs = length (fi_sectors pi)" "length vps = length (fi_sectors pi)"
    and n: "length prvs \<le> partition_count * fp_sector_count pp" "partition_count * fp_sector_count pp < 2 ^ 64"
      "length prvs * fp_challenge_count pp < 2 ^ 64"
    and h: "\<And>m. m < length prvs \<Longrightarrow> healthy E k (fi_sectors pi ! m, prvs ! m)"
    and ids: "distinct (map pub_id (fi_sectors pi))" "map fsp_sector_id vps = map pub_id (fi_sectors pi)"
    and ls: "\<And>m. m < length prvs \<Longrightarrow> collectR (challenged_leaf E pp pi (m div fp_sector_count pp) (m mod fp_sector_count pp)
      (pub_id (fi_sectors pi ! m))) [0..<fp_challenge_count pp] = Inr (ls m)"
    and v: "\<And>m. m < length prvs \<Longrightarrow> fsp_vanilla_proof (vps ! m) = \<lparr>po_sectors = [honest_sector E (prvs ! m) (ls m)]\<rparr>"
  shows "\<exists>proofs. fallback_prove_all E pp pi prvs partition_count = Inr proofs \<and>
    partition_vanilla_proofs E cfg pp pi partition_count vps = Inr proofs \<and> fallback_verify_all E pp pi proofs = Inr True"
proof -
  let ?n = "fp_sector_count pp" let ?S = "fi_sectors pi" let ?pcs = "chunks ?n ?S" and ?vcs = "chunks ?n prvs"
  have n0: "0 < ?n" using P by (simp add: post_ok_def)
  have lc: "length ?vcs = length ?pcs" by (rule length_chunks_same [OF l(1)])
  have b: "in_bounds pp j i" if "j * ?n + i < length ?S" for j i
  proof -
    have "(j * ?n + i + 1) * fp_challenge_count pp \<le> length prvs * fp_challenge_count pp"
      using that l by (intro mult_le_mono1) simp
    then show ?thesis using that n l by (simp add: in_bounds_def)
  qed
  have fnd: "find (\<lambda>p. fsp_sector_id p = pub_id (?S ! m)) vps = Some (vps ! m)" if m: "m < length ?S" for m
  proof -
    have "fsp_sector_id (vps ! i) = pub_id (?S ! i)" if "i < length ?S" for i using ids(2) l(2) that by (metis nth_map)
    then show ?thesis using m l(2) ids(1) by (auto simp: find_Some_iff distinct_conv_nth intro!: exI [of _ m])
  qed
  have part: "\<exists>pr. prove_partition E pp pi (j, ?pcs ! j, ?vcs ! j) = Inr (pr, []) \<and>
      single_partition_vanilla_proofs E cfg pp (pi\<lparr>fi_sectors := ?pcs ! j, fi_k := Some j\<rparr>) vps = Inr pr \<and>
      fallback_verify E pp (pi\<lparr>fi_sectors := ?pcs ! j, fi_k := Some j\<rparr>) pr = Inr True" if j: "j < length ?pcs" for j
  proof -
    have c: "?pcs ! j = take ?n (drop (j * ?n) ?S)" "?vcs ! j = take ?n (drop (j * ?n) prvs)" "j * ?n < length ?S"
      using chunks_take_drop [OF n0, of j ?S] chunks_take_drop [OF n0, of j prvs] lc j by auto
    have ix: "j * ?n + i < length ?S" "(j * ?n + i) div ?n = j" "(j * ?n + i) mod ?n = i" "?pcs ! j ! i = ?S ! (j * ?n + i)"
        "?vcs ! j ! i = prvs ! (j * ?n + i)" if "i < length (?pcs ! j)" for i
      using that c l(1) n0 by auto
    show ?thesis
    proof (rule single_partition_ok [OF P cc w, where ls = "\<lambda>i. ls (j * ?n + i)"])
      show "length (?vcs ! j) = length (?pcs ! j)" "?pcs ! j \<noteq> []" "length (?pcs ! j) \<le> ?n" using c l(1) n0 by simp_all
      fix i assume i: "i < length (?pcs ! j)"
      note ix = ix [OF i]
      show "in_bounds pp j i" by (rule b [OF ix(1)])
      show "healthy E k (?pcs ! j ! i, ?vcs ! j ! i)" using h [of "j * ?n + i"] ix l(1) by simp
      show "collectR (challenged_leaf E pp pi j i (pub_id (?pcs ! j ! i))) [0..<fp_challenge_count pp] = Inr (ls (j * ?n + i))"
        using ls [of "j * ?n + i"] ix l(1) by simp
      show "\<exists>va. find (\<lambda>p. fsp_sector_id p = pub_id (?pcs ! j ! i)) vps = Some va \<and>
          fsp_vanilla_proof va = \<lparr>po_sectors = [honest_sector E (?vcs ! j ! i) (ls (j * ?n + i))]\<rparr>"
        using fnd [OF ix(1)] v [of "j * ?n + i"] ix l(1) by simp
    qed
  qed
  define pr where "pr j = (SOME pr. prove_partition E pp pi (j, ?pcs ! j, ?vcs ! j) = Inr (pr, []) \<and>
      single_partition_vanilla_proofs E cfg pp (pi\<lparr>fi_sectors := ?pcs ! j, fi_k := Some j\<rparr>) vps = Inr pr \<and>
      fallback_verify E pp (pi\<lparr>fi_sectors := ?pcs ! j, fi_k := Some j\<rparr>) pr = Inr True)" for j
  note pr = someI_ex [OF part, folded pr_def]
  let ?prs = "map pr [0..<length ?pcs]"
  have v: "fallback_verify_all E pp pi ?prs = Inr True"
    by (rule partitions_verify [OF n0 _ _ n(2)]) (use n(1) l(1) pr in simp_all)
  have "enumerate 0 (zip ?pcs ?vcs) = map (\<lambda>j. (j, ?pcs ! j, ?vcs ! j)) [0..<length ?pcs]"
    using lc by (intro nth_equalityI) (simp_all add: nth_enumerate_eq)
  then have "collectR (prove_partition E pp pi) (enumerate 0 (zip ?pcs ?vcs)) = Inr (map (\<lambda>j. (pr j, [])) [0..<length ?pcs])"
    using pr(1) by (simp add: collectR_map) (intro collectR_all_ok, simp)
  then have "prove_partitions E pp pi prvs partition_count = Inr (map (\<lambda>j. (pr j, [])) [0..<length ?pcs])"
    using n l n0 by (simp add: prove_partitions_def umul_Inr uchunks_def)
  moreover have e: "concat (map (\<lambda>j. [] :: u64 list) xs) = []" for xs :: "nat list" by simp
  ultimately have a: "fallback_prove_all E pp pi prvs partition_count = Inr ?prs"
    by (simp only: fallback_prove_all_def Let_def comp_def map_map sum.case snd_conv fst_conv e remdups.simps sort_key_simps refl if_True)
  have "enumerate 0 ?pcs = map (\<lambda>j. (j, ?pcs ! j)) [0..<length ?pcs]" by (intro nth_equalityI) (simp_all add: nth_enumerate_eq)
  then have "collectR (\<lambda>(j, c). single_partition_vanilla_proofs E cfg pp (pi\<lparr>fi_sectors := c, fi_k := Some j\<rparr>) vps) (enumerate 0 ?pcs) = Inr ?prs"
    using pr by (simp add: collectR_map) (intro collectR_all_ok, simp)
  then have "partition_vanilla_proofs E cfg pp pi partition_count vps = Inr ?prs"
    using n l n0 w v by (simp add: partition_vanilla_proofs_def umul_Inr uchunks_def)
  then show ?thesis using a v by blast
qed
section \<open>The challenges of the sectors\<close>

lemma foldl_insert_other: "x \<notin> fst ` set ps \<Longrightarrow> foldl (\<lambda>m (k, v). m(k \<mapsto> v)) m ps x = m x"
  by (induction ps arbitrary: m) (auto simp: image_iff)

lemma foldl_insert_lookup: "distinct (map fst ps) \<Longrightarrow> (x, y) \<in> set ps \<Longrightarrow> foldl (\<lambda>m (k, v). m(k \<mapsto> v)) m ps x = Some y"
proof (induction ps arbitrary: m)
  case (Cons p ps)
  show ?case
  proof (cases "(x, y) \<in> set ps")
    case False
    then have p: "p = (x, y)" using Cons.prems by auto
    then have "x \<notin> fst ` set ps" using Cons.prems(1) by simp
    then have "foldl (\<lambda>m (k, v). m(k \<mapsto> v)) (m(x \<mapsto> y)) ps x = (m(x \<mapsto> y)) x" by (rule foldl_insert_other)
    then show ?thesis by (simp only: p foldl.simps prod.case fun_upd_same)
  qed (use Cons in simp)
qed simp

lemma sector_challenges_eq:
  "fi_randomness pi = r \<Longrightarrow> sector_challenges A cfg r j (i, s) =
     bindR (collectR (challenged_leaf (wa_env A) (params_of_config cfg) pi j i s) [0..<po_challenge_count cfg]) (\<lambda>cs. Inr (s, cs))"
  unfolding sector_challenges_def challenged_leaf_def [abs_def] generate_leaf_challenge_def by (simp add: params_of_config_def)

lemma fallback_challenges_ok:
  assumes P: "post_ok (wa_env A) (params_of_config cfg) k" and w: "po_typ cfg = Window" and n: "po_sector_count cfg < 2 ^ 24"
    and ids: "ids \<noteq> []" "length ids < 2 ^ 24" "distinct ids" "length ids * po_challenge_count cfg < 2 ^ 64"
    and r: "as_safe_commitment (wa_prims A) randomness = Inr (fi_randomness pi)"
  obtains M ls where "generate_fallback_sector_challenges A cfg randomness ids prover_id = Inr M"
    "\<And>m. m < length ids \<Longrightarrow> M (ids ! m) = Some (ls m)"
    "\<And>m. m < length ids \<Longrightarrow> collectR (challenged_leaf (wa_env A) (params_of_config cfg) pi (m div po_sector_count cfg)
       (m mod po_sector_count cfg) (ids ! m)) [0..<po_challenge_count cfg] = Inr (ls m)"
proof -
  let ?n = "po_sector_count cfg" and ?cc = "po_challenge_count cfg" and ?C = "chunks (po_sector_count cfg) ids"
  let ?leaf = "challenged_leaf (wa_env A) (params_of_config cfg) pi"
  have n0: "0 < ?n" using P by (simp add: post_ok_def params_of_config_def)
  have "\<exists>l. collectR (?leaf (m div ?n) (m mod ?n) (ids ! m)) [0..<?cc] = Inr l" if m: "m < length ids" for m
  proof -
    have "(m + 1) * ?cc \<le> length ids * ?cc" using m by (intro mult_le_mono1) simp
    then have b: "in_bounds (params_of_config cfg) (m div ?n) (m mod ?n)"
      using m ids(2,4) by (simp add: in_bounds_def params_of_config_def)
    have "\<exists>x. ?leaf (m div ?n) (m mod ?n) (ids ! m) i = Inr x" if "i < ?cc" for i
      using challenged_leaf_ok [OF P b] that by (metis params_of_config_def post_params.select_convs(2))
    then obtain f where "\<And>i. i < ?cc \<Longrightarrow> ?leaf (m div ?n) (m mod ?n) (ids ! m) i = Inr (f i)" by metis
    then have "collectR (?leaf (m div ?n) (m mod ?n) (ids ! m)) [0..<?cc] = Inr (map f [0..<?cc])" by (intro collectR_all_ok) simp
    then show ?thesis by blast
  qed
  then obtain ls where ls: "\<And>m. m < length ids \<Longrightarrow> collectR (?leaf (m div ?n) (m mod ?n) (ids ! m)) [0..<?cc] = Inr (ls m)" by metis
  define part where "part j = map (\<lambda>i. (ids ! (j * ?n + i), ls (j * ?n + i))) [0..<length (?C ! j)]" for j
  have c: "?C ! j = take ?n (drop (j * ?n) ids)" "j * ?n < length ids" if "j < length ?C" for j
    using chunks_take_drop [OF n0 that] by auto
  have p: "collectR (sector_challenges A cfg (fi_randomness pi) j) (enumerate 0 (?C ! j)) = Inr (part j)" if j: "j < length ?C" for j
  proof -
    have e: "enumerate 0 (?C ! j) = map (\<lambda>i. (i, ids ! (j * ?n + i))) [0..<length (?C ! j)]"
      using c [OF j] by (intro nth_equalityI) (simp_all add: nth_enumerate_eq)
    have "collectR (sector_challenges A cfg (fi_randomness pi) j \<circ> (\<lambda>i. (i, ids ! (j * ?n + i)))) [0..<length (?C ! j)] = Inr (part j)"
      unfolding part_def
    proof (rule collectR_all_ok)
      fix i assume "i \<in> set [0..<length (?C ! j)]"
      then have "j * ?n + i < length ids" "(j * ?n + i) div ?n = j" "(j * ?n + i) mod ?n = i" using c [OF j] n0 by auto
      then show "(sector_challenges A cfg (fi_randomness pi) j \<circ> (\<lambda>i. (i, ids ! (j * ?n + i)))) i = Inr (ids ! (j * ?n + i), ls (j * ?n + i))"
        using ls [of "j * ?n + i"] by (simp add: sector_challenges_eq [OF refl])
    qed
    then show ?thesis by (simp only: e collectR_map)
  qed
  have cnt: "(case po_typ cfg of Window \<Rightarrow> unwrap_or (get_partitions_for_window_post (length ids) cfg) 1 | Winning \<Rightarrow> 1) = length ?C"
    unfolding w post_type.case by (rule partition_count_ok(1) [OF n0 n ids(1,2)])
  have all: "collectR (\<lambda>j. bindR (uchunks ?n ids) (\<lambda>chunks. if j < length chunks
        then collectR (sector_challenges A cfg (fi_randomness pi) j) (enumerate 0 (chunks ! j))
        else Inl (Fail ''invalid number of sectors/partition index''))) [0..<length ?C] = Inr (map part [0..<length ?C])"
    using p n0 by (intro collectR_all_ok) (simp add: uchunks_def)
  have "map fst (part j) = ?C ! j" if "j < length ?C" for j
    using c [OF that] by (intro nth_equalityI) (simp_all add: part_def)
  then have "map (map fst \<circ> part) [0..<length ?C] = ?C" by (intro nth_equalityI) simp_all
  then have "map fst (concat (map part [0..<length ?C])) = ids" using concat_chunks [OF n0, of ids] by (simp add: map_concat)
  then have d: "distinct (map fst (concat (map part [0..<length ?C])))" using ids(3) by simp
  have mem: "(ids ! m, ls m) \<in> set (concat (map part [0..<length ?C]))" if m: "m < length ids" for m
  proof -
    have j: "m div ?n < length ?C" using chunks_reach [OF n0 m] by simp
    moreover have "m mod ?n < length (?C ! (m div ?n))"
      using c [OF j] m n0 by (simp add: minus_div_mult_eq_mod [symmetric]) (metis diff_less_mono div_times_less_eq_dividend minus_div_mult_eq_mod mod_less_divisor)
    ultimately show ?thesis by (force simp: part_def intro!: bexI [of _ "m div ?n"] image_eqI [of _ _ "m mod ?n"])
  qed
  have "generate_fallback_sector_challenges A cfg randomness ids prover_id =
      Inr (foldl (\<lambda>m (sector, challenges). m(sector \<mapsto> challenges)) Map.empty (concat (map part [0..<length ?C])))"
    unfolding generate_fallback_sector_challenges_def by (simp only: r cnt all bindR.simps Let_def)
  then show thesis by (rule that [OF _ foldl_insert_lookup [OF d mem] ls])
qed
section \<open>Sealed sectors pass\<close>

text \<open>
  A replica as sealing leaves it: the file, the cache directory and the auxiliary data are those of
  \<open>replicate_phase1\<close> and \<open>replicate_phase2\<close>, and \<open>comm_r\<close> the commitment to them.
\<close>

definition sealed_replica :: "('f::field, 't, 'p) drg_env \<Rightarrow> nat \<Rightarrow> replica_info \<Rightarrow> bool" where
  "sealed_replica X k r \<longleftrightarrow> (\<exists>S E n kd layers rid pp nodes d d1 labels tau t_aux.
     sealing X S E n k kd \<and> (layers = 2 \<or> layers = 11) \<and> length rid = 32 \<and> ppr_graph pp = E \<and> ppr_num_layers pp = layers \<and>
     nodes_ok n nodes \<and> (\<forall>x\<in>set nodes. is_ok (into_fr (de_prims X) x)) \<and> (\<forall>l. d (Data_File (label_layer l)) = None) \<and>
     replicate_phase1 S pp rid d = Some (Inr (d1, labels)) \<and>
     replicate_phase2 X pp labels (concat nodes) None d1 = Inr (ri_replica r, ri_cache_dir r, tau, ri_aux r, t_aux) \<and>
     ri_comm_r r = tau_comm_r tau)"

text \<open>
  The setting: the same primitives and crate as in sealing; \<open>hash2\<close> gives canonical field
  elements; trees open as documented; and the configuration is one for window proofs of sectors of this size.
\<close>

definition api_ok :: "('f::field, 't, 'p) drg_env \<Rightarrow> ('f, 't, 'p, 's, 'b) post_api \<Rightarrow> post_config \<Rightarrow> nat \<Rightarrow> bool" where
  "api_ok X A cfg k \<longleftrightarrow>
     wa_prims A = de_prims X \<and> fe_crate (wa_env A) = de_tree X \<and> fe_arities (wa_env A) = de_arities X \<and>
     fe_rows (wa_env A) = de_rows X \<and> fe_rows_to_discard (wa_env A) = de_rows_to_discard X \<and>
     fe_node_hash (wa_env A) = pq_tree_hash (de_prims X) \<and> fe_hash2 (wa_env A) = pq_hash2 (de_prims X) \<and>
     rows_ok (de_rows X) \<and> (\<forall>a b. as_safe_commitment (de_prims X) (pq_hash2 (de_prims X) a b) = Inr (pq_hash2 (de_prims X) a b)) \<and>
     (\<exists>len. get_merkle_tree_len (de_tree X) (base_arity (de_arities X) ^ k) (base_arity (de_arities X)) = Inr len \<and>
        opener_ok (wa_opener A) (de_tree X) (pq_tree_hash (de_prims X)) (de_arities X) k len) \<and>
     po_sector_size cfg = NODE_SIZE * leaf_count (levels (de_arities X) k) \<and> po_typ cfg = Window \<and>
     0 < po_challenge_count cfg \<and> 0 < po_sector_count cfg \<and> po_sector_count cfg < 2 ^ 24"

lemma sealed_tree:
  assumes A: "api_ok X A cfg k" and r: "sealed_replica X k r"
  obtains t where "api_merkle_tree A (po_sector_size cfg) r = Inr t" "safe_comm_r (wa_prims A) r = Inr (ri_comm_r r)"
    "healthy (wa_env A) k (\<lparr>pub_id = i, pub_comm_r = ri_comm_r r\<rparr>,
       \<lparr>prv_tree = t, prv_comm_c = safe_comm_c r, prv_comm_r_last = safe_comm_r_last r\<rparr>)"
    "post_ok (wa_env A) (params_of_config cfg) k"
proof -
  let ?T = "de_tree X" and ?H = "pq_tree_hash (de_prims X)" and ?A = "de_arities X"
  obtain S E n kd layers rid pp nodes d d1 labels tau t_aux where
    s: "sealing X S E n k kd" "layers = 2 \<or> layers = 11" "length rid = 32" "ppr_graph pp = E" "ppr_num_layers pp = layers"
      "nodes_ok n nodes" "\<forall>x\<in>set nodes. is_ok (into_fr (de_prims X) x)" "\<forall>l. d (Data_File (label_layer l)) = None"
    and p: "replicate_phase1 S pp rid d = Some (Inr (d1, labels))"
      "replicate_phase2 X pp labels (concat nodes) None d1 = Inr (ri_replica r, ri_cache_dir r, tau, ri_aux r, t_aux)"
      "ri_comm_r r = tau_comm_r tau"
    using r unfolding sealed_replica_def by blast
  obtain len where a: "wa_prims A = de_prims X" "fe_crate (wa_env A) = ?T" "fe_arities (wa_env A) = ?A" "fe_rows (wa_env A) = de_rows X"
      "fe_rows_to_discard (wa_env A) = de_rows_to_discard X" "fe_node_hash (wa_env A) = ?H" "fe_hash2 (wa_env A) = pq_hash2 (de_prims X)"
      "rows_ok (de_rows X)" "\<forall>a b. as_safe_commitment (de_prims X) (pq_hash2 (de_prims X) a b) = Inr (pq_hash2 (de_prims X) a b)"
      "get_merkle_tree_len ?T (base_arity ?A ^ k) (base_arity ?A) = Inr len" "opener_ok (wa_opener A) ?T ?H ?A k len"
      "po_sector_size cfg = NODE_SIZE * leaf_count (levels ?A k)" "0 < po_sector_count cfg"
    using A unfolding api_ok_def by blast
  obtain par pc fl enc d1' labels' d2 tau' p_aux t_aux' tc where
    q: "replicate_phase1 S pp rid d = Some (Inr (d1', labels'))"
      "replicate_phase2 X pp labels' (concat nodes) None d1' = Inr (concat (map enc [0..<n]), d2, tau', p_aux, t_aux')"
      "proving X E par rid n layers k kd nodes enc tau' p_aux tc"
      "tree_stored ?T ?A k (ta_tree_r_last_config t_aux') (map enc [0..<n]) d2"
      "r_last_config ?T ?A (de_rows X) (de_rows_to_discard X) k (ta_tree_r_last_config t_aux')"
      "\<forall>i<n. encode (de_prims X) (label_spec par rid layers i) (nodes ! i) = Inr (enc i) \<and> length (enc i) = 32"
    by (rule seal_ok [OF s]) blast
  have e: "ri_replica r = concat (map enc [0..<n])" "ri_cache_dir r = d2" "tau = tau'" "ri_aux r = p_aux"
    using p q by simp_all
  have D: "drg_ok X n k kd" and aux: "aux_ok X par rid n layers k kd nodes (map enc [0..<n]) tau' p_aux tc"
    using q(3) by (simp_all add: proving_def)
  have ar: "arities_ok ?A" "merkle_hash ?H" "hash_nodes ?H" using D by (simp_all add: drg_ok_def)
  obtain t where t: "merkle_tree_of (wa_opener A) ?T ?A (de_rows X) (de_rows_to_discard X) (po_sector_size cfg) r = Inr t"
      "tree_of ?T ?H ?A k True (map enc [0..<n]) t"
    using merkle_tree_ok [OF a(11) ar(1) q(5) a(10) _ e(1) a(12)] q(4) e(2) by auto
  have "tree_root_of ?T t = pa_comm_r_last p_aux" using t(2) aux by (auto simp: aux_ok_def tree_of_def)
  moreover have c: "ri_comm_r r = pq_hash2 (de_prims X) (pa_comm_c p_aux) (pa_comm_r_last p_aux)"
    using aux p(3) e(3) by (simp add: aux_ok_def)
  moreover have "can_open (wa_env A) k t" using t(2) q(6) a by (force simp: can_open_def)
  ultimately have h: "healthy (wa_env A) k (\<lparr>pub_id = i, pub_comm_r = ri_comm_r r\<rparr>,
       \<lparr>prv_tree = t, prv_comm_c = safe_comm_c r, prv_comm_r_last = safe_comm_r_last r\<rparr>)"
    using a e(4) by (simp add: healthy_def safe_comm_c_def safe_comm_r_last_def)
  have "post_ok (wa_env A) (params_of_config cfg) k" using a ar by (simp add: post_ok_def params_of_config_def)
  then show thesis using t(1) a c h by (intro that [of t]) (simp_all add: api_merkle_tree_def safe_comm_r_def)
qed
lemma window_params_ok:
  "cq_vanilla_params (window_params cfg m p) = params_of_config cfg"
  "cq_partitions (window_params cfg m p) = get_partitions_for_window_post m cfg"
  by (simp_all add: window_params_def compound_setup_def fallback_setup_def window_post_setup_params_def params_of_config_def)

text \<open>Both ways end in the same call of \<open>groth\<close> when the two provers make the same proofs.\<close>

lemma same_groth_call:
  assumes w: "po_typ cfg = Window" and r: "as_safe_commitment (wa_prims A) randomness = Inr rs" "as_safe_commitment (wa_prims A) prover_id = Inr ps"
    and c: "compound_partition_count (get_partitions_for_window_post (length replicas) cfg) = Inr L" "0 < L"
      "unwrap_or (get_partitions_for_window_post (length replicas) cfg) 1 = L"
    and l: "length vps = length replicas"
    and trees: "collectR (\<lambda>(sector_id, replica). api_merkle_tree A (po_sector_size cfg) replica) replicas = Inr trees"
    and sectors: "collectR (sector_of_replica A) (zip replicas trees) = Inr sectors"
    and pi: "pi = \<lparr>fi_randomness = rs, fi_prover_id = ps, fi_sectors = map fst sectors, fi_k = None\<rparr>"
    and vs: "map (\<lambda>p. \<lparr>pub_id = fsp_sector_id p, pub_comm_r = fsp_comm_r p\<rparr>) vps = map fst sectors"
    and p: "fallback_prove_all (wa_env A) (params_of_config cfg) pi (map snd sectors) L = Inr proofs"
      "partition_vanilla_proofs (wa_env A) cfg (params_of_config cfg) pi L vps = Inr proofs"
      "fallback_verify_all (wa_env A) (params_of_config cfg) pi proofs = Inr True"
  shows "generate_window_post A groth cfg randomness replicas prover_id =
      map_sum Other id (groth (window_params cfg (length replicas) (po_priority cfg)) pi proofs)"
    and "generate_window_post_with_vanilla A groth cfg randomness prover_id vps =
      groth (window_params cfg (length replicas) (po_priority cfg)) pi proofs"
  using c p(1,3) by (simp_all add: generate_window_post_def w r trees sectors pi compound_prove_def window_params_ok
      generate_window_post_with_vanilla_def public_of_vanilla_def vs l p(2) [unfolded pi] prove_with_vanilla_def Let_def)

lemma partition_bounds:
  assumes "0 < n" and "n < 2 ^ 24" and "xs \<noteq> []" and "length xs < 2 ^ 24"
  shows "length xs \<le> length (chunks n xs) * n" and "0 < length (chunks n xs)" and "length (chunks n xs) * n < 2 ^ 64"
proof -
  let ?L = "length (chunks n xs)"
  note c = chunk_bounds [OF assms(1,3)]
  show "length xs \<le> ?L * n" by (rule c(2))
  show L: "0 < ?L" using assms by (simp add: chunks_step)
  have "(?L - 1 + 1) * n < 2 ^ 24 + 2 ^ 24" using c(1) assms(2,4) by (simp only: add_mult_distrib mult_1)
  moreover have "?L - 1 + 1 = ?L" using L by simp
  ultimately have "?L * n < 2 ^ 24 + 2 ^ 24" by (simp only:)
  then show "?L * n < 2 ^ 64" by simp
qed

definition public_of :: "u64 \<times> replica_info \<Rightarrow> public_sector" where
  "public_of x = \<lparr>pub_id = fst x, pub_comm_r = ri_comm_r (snd x)\<rparr>"

definition private_of :: "(u64 \<times> replica_info \<Rightarrow> 't) \<Rightarrow> u64 \<times> replica_info \<Rightarrow> 't private_sector" where
  "private_of t x = \<lparr>prv_tree = t x, prv_comm_c = safe_comm_c (snd x), prv_comm_r_last = safe_comm_r_last (snd x)\<rparr>"

text \<open>The trees \<open>t\<close> of the replicas, opened, make the inputs of both provers.\<close>

definition opened :: "('f, 't, 'p, 's, 'b) post_api \<Rightarrow> post_config \<Rightarrow> nat \<Rightarrow> (u64 \<times> replica_info \<Rightarrow> 't) \<Rightarrow> u64 \<times> replica_info \<Rightarrow> bool" where
  "opened A cfg k t x \<longleftrightarrow> api_merkle_tree A (po_sector_size cfg) (snd x) = Inr (t x) \<and>
     safe_comm_r (wa_prims A) (snd x) = Inr (ri_comm_r (snd x)) \<and> healthy (wa_env A) k (public_of x, private_of t x)"

lemma opened_sectors:
  assumes "\<And>x. x \<in> set replicas \<Longrightarrow> opened A cfg k t x"
  shows "collectR (\<lambda>(sector_id, replica). api_merkle_tree A (po_sector_size cfg) replica) replicas = Inr (map t replicas)"
    and "collectR (sector_of_replica A) (zip replicas (map t replicas)) = Inr (map (\<lambda>x. (public_of x, private_of t x)) replicas)"
proof -
  show "collectR (\<lambda>(sector_id, replica). api_merkle_tree A (po_sector_size cfg) replica) replicas = Inr (map t replicas)"
    using assms by (intro collectR_all_ok) (auto simp: opened_def)
  have "zip replicas (map t replicas) = map (\<lambda>x. (x, t x)) replicas" by (simp add: zip_map2 zip_same_conv_map)
  moreover have "collectR (sector_of_replica A \<circ> (\<lambda>x. (x, t x))) replicas = Inr (map (\<lambda>x. (public_of x, private_of t x)) replicas)"
    using assms by (intro collectR_all_ok) (auto simp: opened_def sector_of_replica_def public_of_def private_of_def)
  ultimately show "collectR (sector_of_replica A) (zip replicas (map t replicas)) = Inr (map (\<lambda>x. (public_of x, private_of t x)) replicas)"
    by (simp add: collectR_map)
qed

lemma opened_single_proof:
  assumes P: "post_ok (wa_env A) (params_of_config cfg) k" and cc: "0 < po_challenge_count cfg"
    and b: "in_bounds (params_of_config cfg) j i" and o: "opened A cfg k t x"
    and ls: "collectR (challenged_leaf (wa_env A) (params_of_config cfg) pi j i (fst x)) [0..<po_challenge_count cfg] = Inr leaves"
  shows "generate_single_vanilla_proof A cfg (fst x) (snd x) leaves = Inr \<lparr>fsp_sector_id = fst x, fsp_comm_r = ri_comm_r (snd x),
     fsp_vanilla_proof = \<lparr>po_sectors = [honest_sector (wa_env A) (private_of t x) leaves]\<rparr>\<rparr>"
proof -
  have "collectR (challenged_leaf (wa_env A) (params_of_config cfg) pi j i (pub_id (public_of x))) [0..<fp_challenge_count (params_of_config cfg)] = Inr leaves"
    using ls by (simp add: params_of_config_def public_of_def)
  then have "vanilla_proof (wa_env A) [private_of t x] leaves = Inr \<lparr>po_sectors = [honest_sector (wa_env A) (private_of t x) leaves]\<rparr>"
    using honest_sector_ok(2) [OF P b] o cc by (auto simp: opened_def params_of_config_def)
  then show ?thesis using o by (simp add: generate_single_vanilla_proof_def opened_def private_of_def)
qed

text \<open>
  C12. Sealed sectors pass window proofs of spacetime, proved together or one by one: for any list of
  sectors with different ids that \<open>replicate_phase1\<close> and \<open>replicate_phase2\<close> have sealed,
  the challenges can be generated, every sector can be proved with its challenges from the files alone, and
  \<open>generate_window_post_with_vanilla\<close> on these proofs returns exactly what
  \<open>generate_window_post\<close> returns on the replicas: the circuit proof of partition proofs for the sectors
  and their commitments, which \<open>verify_all_partitions\<close> accepts.
\<close>
theorem window_post_sealed:
  assumes A: "api_ok X A cfg k" and s: "\<forall>r\<in>set replicas. sealed_replica X k (snd r)"
    and n: "replicas \<noteq> []" "length replicas < 2 ^ 24" "length replicas * po_challenge_count cfg < 2 ^ 64" "distinct (map fst replicas)"
    and r: "is_ok (as_safe_commitment (wa_prims A) randomness)" "is_ok (as_safe_commitment (wa_prims A) prover_id)"
  shows "\<exists>challenges vps pi proofs.
    generate_fallback_sector_challenges A cfg randomness (map fst replicas) prover_id = Inr challenges \<and>
    collectR (\<lambda>(id, r). generate_single_vanilla_proof A cfg id r (the (challenges id))) replicas = Inr vps \<and>
    fi_sectors pi = map (\<lambda>(id, r). \<lparr>pub_id = id, pub_comm_r = ri_comm_r r\<rparr>) replicas \<and>
    fallback_verify_all (wa_env A) (params_of_config cfg) pi proofs = Inr True \<and>
    (\<forall>groth. generate_window_post A groth cfg randomness replicas prover_id =
         map_sum Other id (groth (window_params cfg (length replicas) (po_priority cfg)) pi proofs) \<and>
       generate_window_post_with_vanilla A groth cfg randomness prover_id vps =
         groth (window_params cfg (length replicas) (po_priority cfg)) pi proofs)"
proof -
  let ?E = "wa_env A" and ?pp = "params_of_config cfg" and ?N = "length replicas" and ?n = "po_sector_count cfg"
    and ?cc = "po_challenge_count cfg" and ?ids = "map fst replicas"
  obtain rs ps where rs: "as_safe_commitment (wa_prims A) randomness = Inr rs" "as_safe_commitment (wa_prims A) prover_id = Inr ps"
    using r by (auto simp: is_ok_iff)
  have a: "po_typ cfg = Window" "0 < ?cc" "0 < ?n" "?n < 2 ^ 24" using A by (simp_all add: api_ok_def)
  have "\<exists>v. opened A cfg k (\<lambda>_. v) x" if "x \<in> set replicas" for x
    using sealed_tree [OF A, of "snd x" "fst x"] s that by (metis opened_def private_of_def public_of_def)
  then obtain t where "\<And>x. x \<in> set replicas \<Longrightarrow> opened A cfg k (\<lambda>_. t x) x" by metis
  then have t: "opened A cfg k t x" if "x \<in> set replicas" for x using that by (simp add: opened_def private_of_def)
  obtain x where "x \<in> set replicas" using n(1) by (cases replicas) auto
  then have P: "post_ok ?E ?pp k" using sealed_tree [OF A, of "snd x"] s by blast
  define pi where "pi = \<lparr>fi_randomness = rs, fi_prover_id = ps, fi_sectors = map public_of replicas, fi_k = None\<rparr>"
  have pi: "fi_randomness pi = rs" "fi_sectors pi = map public_of replicas" by (simp_all add: pi_def)
  have idl: "?ids \<noteq> []" "length ?ids < 2 ^ 24" "length ?ids * ?cc < 2 ^ 64" using n by simp_all
  obtain M ls where M: "generate_fallback_sector_challenges A cfg randomness ?ids prover_id = Inr M"
      "\<And>m. m < length ?ids \<Longrightarrow> M (?ids ! m) = Some (ls m)"
      "\<And>m. m < length ?ids \<Longrightarrow> collectR (challenged_leaf ?E ?pp pi (m div ?n) (m mod ?n) (?ids ! m)) [0..<?cc] = Inr (ls m)"
    by (rule fallback_challenges_ok [OF P a(1,4) idl(1,2) n(4) idl(3), of randomness pi prover_id]) (simp_all add: rs pi)
  let ?vp = "\<lambda>m. \<lparr>fsp_sector_id = fst (replicas ! m), fsp_comm_r = ri_comm_r (snd (replicas ! m)),
     fsp_vanilla_proof = \<lparr>po_sectors = [honest_sector ?E (private_of t (replicas ! m)) (ls m)]\<rparr>\<rparr>"
  let ?vps = "map ?vp [0..<?N]" and ?sectors = "map (\<lambda>x. (public_of x, private_of t x)) replicas" and ?L = "length (chunks ?n replicas)"
  have "generate_single_vanilla_proof A cfg (fst (replicas ! m)) (snd (replicas ! m)) (the (M (fst (replicas ! m)))) = Inr (?vp m)"
    if m: "m < ?N" for m
  proof -
    have "(m + 1) * ?cc \<le> ?N * ?cc" using m by (intro mult_le_mono1) simp
    then have "in_bounds ?pp (m div ?n) (m mod ?n)" using m n(2,3) by (simp add: in_bounds_def params_of_config_def)
    then show ?thesis using opened_single_proof [OF P a(2) _ t] M(2,3) [of m] m by simp
  qed
  then have "collectR ((\<lambda>(id, r). generate_single_vanilla_proof A cfg id r (the (M id))) \<circ> (!) replicas) [0..<?N] = Inr ?vps"
    by (intro collectR_all_ok) (simp add: case_prod_beta)
  then have vps: "collectR (\<lambda>(id, r). generate_single_vanilla_proof A cfg id r (the (M id))) replicas = Inr ?vps"
    by (simp only: collectR_map [symmetric] map_nth)
  note L = partition_count_ok [OF a(3,4) n(1,2)] note nL = partition_bounds [OF a(3,4) n(1,2)]
  have pc: "fp_challenge_count ?pp = ?cc" "fp_sector_count ?pp = ?n" by (simp_all add: params_of_config_def)
  have "\<exists>proofs. fallback_prove_all ?E ?pp pi (map snd ?sectors) ?L = Inr proofs \<and>
      partition_vanilla_proofs ?E cfg ?pp pi ?L ?vps = Inr proofs \<and> fallback_verify_all ?E ?pp pi proofs = Inr True"
  proof (rule distributed_partitions [OF P _ a(1), where ls = ls], unfold pc)
    show "map fsp_sector_id ?vps = map pub_id (fi_sectors pi)" by (intro nth_equalityI) (simp_all add: pi public_of_def)
    show "distinct (map pub_id (fi_sectors pi))" using n(4) by (simp add: pi comp_def public_of_def)
  qed (use a n nL t M(3) in \<open>simp_all add: pi opened_def public_of_def\<close>)
  then obtain proofs where pr: "fallback_prove_all ?E ?pp pi (map snd ?sectors) ?L = Inr proofs"
      "partition_vanilla_proofs ?E cfg ?pp pi ?L ?vps = Inr proofs" "fallback_verify_all ?E ?pp pi proofs = Inr True" by blast
  have e: "pi = \<lparr>fi_randomness = rs, fi_prover_id = ps, fi_sectors = map fst ?sectors, fi_k = None\<rparr>" by (simp add: pi_def comp_def)
  have pv: "map (\<lambda>p. \<lparr>pub_id = fsp_sector_id p, pub_comm_r = fsp_comm_r p\<rparr>) ?vps = map fst ?sectors"
    by (intro nth_equalityI) (simp_all add: public_of_def)
  have "length ?vps = ?N" by simp
  note g = same_groth_call [OF a(1) rs L(2) nL(2) L(1) this opened_sectors [OF t] e pv pr]
  show ?thesis using M(1) vps pr(3) g
    by (intro exI [of _ M] exI [of _ ?vps] exI [of _ pi] exI [of _ proofs]) (simp add: pi case_prod_beta public_of_def [abs_def])
qed

definition toy_opener :: "(u8 list, u8 list list, u8 list list) tree_opener" where
  "toy_opener = \<lparr>new_with_config = (\<lambda>len a c f. toy_open f), is_level_cache = True, set_external_reader = (\<lambda>s rc i. Inr s),
     tree_from_data_store = (\<lambda>A s n. Inr (map (node_at s) [0..<n])), base_from_data_store = (\<lambda>A s n. Inr (map (node_at s) [0..<n])),
     from_trees = (\<lambda>A bs. Inr (concat bs)), from_sub_trees_as_trees = (\<lambda>A bs. Inr (concat bs))\<rparr>"

definition toy_api :: "(toy_fr, u8 list list, u8 list \<times> u8 list \<times> (u8 list list \<times> nat) list, u8 list, u8 list list) post_api" where
  "toy_api = \<lparr>wa_env = \<lparr>fe_crate = toy_crate (sha256_multi_node toy_sum) 2, fe_leafs = length, fe_arities = binary_arities, fe_rows = full_rows,
      fe_rows_to_discard = 0, fe_node_hash = sha256_multi_node toy_sum, fe_hash2 = pq_hash2 toy_api_prims, fe_sha256 = toy_sum\<rparr>,
     wa_prims = toy_api_prims, wa_opener = toy_opener\<rparr>"

definition toy_window :: post_config where
  "toy_window = \<lparr>po_sector_size = 128, po_challenge_count = 2, po_sector_count = 2, po_typ = Window, po_priority = False, po_api_version = V1_1_0\<rparr>"

lemma toy_opener_ok: "opener_ok toy_opener (toy_crate (sha256_multi_node toy_sum) 2) (sha256_multi_node toy_sum) binary_arities 2 7"
proof -
  have t: "tree_of (toy_crate (sha256_multi_node toy_sum) 2) (sha256_multi_node toy_sum) binary_arities 2 True leaves leaves"
    if "nodes_ok 4 leaves" for leaves
    using that by (intro toy_tree_of)
      (simp_all add: sha256_tree.merkle_hash_axioms hash_nodes_def sha256_multi_node_def trim_to_fr32_def toy_sum_def)
  have n: "map (node_at (concat leaves)) [0..<4] = leaves" if "nodes_ok 4 leaves" for leaves
    using that by (rule node_at_concat)
  have "opener_spec toy_opener (toy_crate (sha256_multi_node toy_sum) 2) (sha256_multi_node toy_sum) binary_arities 2 4 7
      (\<lambda>s leaves. nodes_ok 4 leaves \<and> s = concat leaves) (\<lambda>b leaves. b = leaves)"
    using t n by (auto simp: opener_spec_def toy_opener_def toy_crate_def toy_open_def binary_arities_def tree_count_def)
  moreover have "base_arity binary_arities ^ 2 = 4" "is_level_cache toy_opener" by (simp_all add: binary_arities_def toy_opener_def)
  ultimately show ?thesis by (auto simp: opener_ok_def)
qed

lemma toy_api_ok: "api_ok toy_api_drg toy_api toy_window 2"
proof -
  have c: "as_safe_commitment toy_api_prims (pq_hash2 toy_api_prims a b) = Inr (pq_hash2 toy_api_prims a b)" for a b
    using safe_commitment [OF toy_api_fr] by (simp add: toy_api_prims_def)
  have "NODE_SIZE * leaf_count (levels binary_arities 2) = 128" by code_simp
  then show ?thesis
    using toy_opener_ok c full_rows_ok
    by (simp add: api_ok_def toy_api_def toy_api_drg_def toy_drg_def toy_window_def toy_crate_def binary_arities_def)
       (simp add: toy_api_prims_def toy_prims_def)
qed

theorem window_post_sealed_witness:
  "\<exists>r. sealed_replica toy_api_drg 2 r \<and>
    (\<exists>challenges vps pi proofs.
      generate_fallback_sector_challenges toy_api toy_window (replicate 32 1) [9, 7, 3] (replicate 32 0) = Inr challenges \<and>
      collectR (\<lambda>(id, r). generate_single_vanilla_proof toy_api toy_window id r (the (challenges id))) [(9, r), (7, r), (3, r)] = Inr vps \<and>
      fi_sectors pi = map (\<lambda>(id, r). \<lparr>pub_id = id, pub_comm_r = ri_comm_r r\<rparr>) [(9, r), (7, r), (3, r)] \<and>
      fallback_verify_all (wa_env toy_api) (params_of_config toy_window) pi proofs = Inr True \<and>
      (\<forall>groth. generate_window_post toy_api groth toy_window (replicate 32 1) [(9, r), (7, r), (3, r)] (replicate 32 0) =
           map_sum Other id (groth (window_params toy_window 3 False) pi proofs) \<and>
         generate_window_post_with_vanilla toy_api groth toy_window (replicate 32 1) (replicate 32 0) vps =
           groth (window_params toy_window 3 False) pi proofs))"
proof -
  have l: "(2::nat) = 2 \<or> (2::nat) = 11" "length (replicate 32 (9::u8)) = 32" by simp_all
  have pp: "ppr_graph toy_params = toy_env" "ppr_num_layers toy_params = 2" by (simp_all add: toy_params_def)
  have fr: "\<forall>x\<in>set toy_data. is_ok (into_fr (de_prims toy_api_drg) x)"
  proof
    fix x assume "x \<in> set toy_data"
    then obtain v where "into_fr toy_prims x = Inr v" using toy_data_ok(2) by blast
    then show "is_ok (into_fr (de_prims toy_api_drg) x)" by (simp add: toy_api_drg_def toy_api_prims_def into_fr_def)
  qed
  have fresh: "\<forall>l. (\<lambda>_. None) (Data_File (label_layer l)) = None" by simp
  obtain replica d1 labels d2 tau p_aux t_aux where
    p: "replicate_phase1 toy_cache_env toy_params (replicate 32 9) (\<lambda>_. None) = Some (Inr (d1, labels))"
      "replicate_phase2 toy_api_drg toy_params labels (concat toy_data) None d1 = Inr (replica, d2, tau, p_aux, t_aux)"
    by (rule seal_ok [OF toy_api_sealing l pp toy_data_ok(1) fr fresh]) blast
  define r where "r = \<lparr>ri_replica = replica, ri_comm_r = tau_comm_r tau, ri_aux = p_aux, ri_cache_dir = d2\<rparr>"
  have r: "sealed_replica toy_api_drg 2 r"
    unfolding sealed_replica_def r_def replica_info.select_convs
    by (intro exI conjI) (rule toy_api_sealing l pp toy_data_ok(1) fr fresh p refl)+
  have ok: "is_ok (as_safe_commitment (wa_prims toy_api) (replicate 32 x))" if "x < 2" for x
  proof -
    have "x < 0x40" using that by (rule less_trans) simp
    then have "pq_from_repr toy_api_prims (replicate 32 x) \<noteq> None" using toy_api_fr by (simp add: fr_ok_def)
    then show ?thesis by (auto simp: toy_api_def as_safe_commitment_def bytes_into_fr_def is_ok_iff)
  qed
  let ?rs = "[(9 :: u64, r), (7, r), (3, r)]"
  have f: "map fst ?rs = [9, 7, 3]" "length ?rs = 3" "po_priority toy_window = False" by (simp_all add: toy_window_def)
  have n: "?rs \<noteq> []" "length ?rs < 2 ^ 24" "length ?rs * po_challenge_count toy_window < 2 ^ 64" "distinct (map fst ?rs)"
    by (simp_all add: toy_window_def)
  have s: "\<forall>x\<in>set ?rs. sealed_replica toy_api_drg 2 (snd x)" using r by simp
  have ok: "is_ok (as_safe_commitment (wa_prims toy_api) (replicate 32 1))" "is_ok (as_safe_commitment (wa_prims toy_api) (replicate 32 0))"
    by (rule ok, simp)+
  show ?thesis using window_post_sealed [OF toy_api_ok s n ok] r unfolding f by blast
qed
end
