(* ===== verification/Update_Challenges.thy ===== *)
theory Update_Challenges
  imports Synth_Proofs F32
begin

text \<open>
  The constants and the challenges of sector updates: \<open>storage-proofs-update/src/constants.rs\<close> and
  \<open>challenges.rs\<close>. Sizes of sectors are in nodes. Every partition draws its challenges from the
  bits of Poseidon digests of the new commitment and a counter that runs over all partitions.
\<close>

section \<open>The code\<close>

subsection \<open>Constants\<close>

definition SECTOR_SIZE_1_KIB_nodes :: nat where "SECTOR_SIZE_1_KIB_nodes = 2 ^ 5"
definition SECTOR_SIZE_2_KIB_nodes :: nat where "SECTOR_SIZE_2_KIB_nodes = 2 ^ 6"
definition SECTOR_SIZE_4_KIB_nodes :: nat where "SECTOR_SIZE_4_KIB_nodes = 2 ^ 7"
definition SECTOR_SIZE_8_KIB_nodes :: nat where "SECTOR_SIZE_8_KIB_nodes = 2 ^ 8"
definition SECTOR_SIZE_16_KIB_nodes :: nat where "SECTOR_SIZE_16_KIB_nodes = 2 ^ 9"
definition SECTOR_SIZE_32_KIB_nodes :: nat where "SECTOR_SIZE_32_KIB_nodes = 2 ^ 10"
definition SECTOR_SIZE_8_MIB_nodes :: nat where "SECTOR_SIZE_8_MIB_nodes = 2 ^ 18"
definition SECTOR_SIZE_16_MIB_nodes :: nat where "SECTOR_SIZE_16_MIB_nodes = 2 ^ 19"
definition SECTOR_SIZE_512_MIB_nodes :: nat where "SECTOR_SIZE_512_MIB_nodes = 2 ^ 24"
definition SECTOR_SIZE_32_GIB_nodes :: nat where "SECTOR_SIZE_32_GIB_nodes = 2 ^ 30"
definition SECTOR_SIZE_64_GIB_nodes :: nat where "SECTOR_SIZE_64_GIB_nodes = 2 ^ 31"

lemmas sector_sizes = SECTOR_SIZE_1_KIB_nodes_def SECTOR_SIZE_2_KIB_nodes_def SECTOR_SIZE_4_KIB_nodes_def SECTOR_SIZE_8_KIB_nodes_def
  SECTOR_SIZE_16_KIB_nodes_def SECTOR_SIZE_32_KIB_nodes_def SECTOR_SIZE_8_MIB_nodes_def SECTOR_SIZE_16_MIB_nodes_def SECTOR_SIZE_512_MIB_nodes_def
  SECTOR_SIZE_32_GIB_nodes_def SECTOR_SIZE_64_GIB_nodes_def

definition ALLOWED_SECTOR_SIZES :: "nat list" where
  "ALLOWED_SECTOR_SIZES = [SECTOR_SIZE_1_KIB_nodes, SECTOR_SIZE_2_KIB_nodes, SECTOR_SIZE_4_KIB_nodes, SECTOR_SIZE_8_KIB_nodes, SECTOR_SIZE_16_KIB_nodes,
     SECTOR_SIZE_32_KIB_nodes, SECTOR_SIZE_8_MIB_nodes, SECTOR_SIZE_16_MIB_nodes, SECTOR_SIZE_512_MIB_nodes, SECTOR_SIZE_32_GIB_nodes, SECTOR_SIZE_64_GIB_nodes]"

definition partition_count :: "nat \<Rightarrow> nat" where
  "partition_count sector_nodes =
     (if sector_nodes \<le> SECTOR_SIZE_8_KIB_nodes then 1
      else if sector_nodes \<le> SECTOR_SIZE_32_KIB_nodes then 2
      else if sector_nodes \<le> SECTOR_SIZE_16_MIB_nodes then 4
      else 16)"

definition challenge_count :: "nat \<Rightarrow> nat" where
  "challenge_count sector_nodes = (if sector_nodes \<le> SECTOR_SIZE_16_MIB_nodes then 10 else 86)"

definition challenge_count_poseidon :: "nat \<Rightarrow> nat" where
  "challenge_count_poseidon sector_nodes = challenge_count sector_nodes * partition_count sector_nodes"

definition hs :: "nat \<Rightarrow> nat list" where
  "hs sector_nodes = (if sector_nodes \<le> SECTOR_SIZE_32_KIB_nodes then [1, 1, 1, 1, 1, 1] else [7, 8, 9, 10, 11, 12])"

definition h_default :: "nat \<Rightarrow> nat" where
  "h_default sector_nodes = hs sector_nodes ! 3"

fun position :: "('a \<Rightarrow> bool) \<Rightarrow> 'a list \<Rightarrow> nat option" where
  "position p [] = None"
| "position p (x # xs) = (if p x then Some 0 else map_option Suc (position p xs))"

definition h_select :: "nat \<Rightarrow> nat \<Rightarrow> u64 res" where
  "h_select sector_nodes h =
     (case position (\<lambda>h_allowed. h_allowed = h) (hs sector_nodes) of
        None \<Rightarrow> Inl (Panic ''invalid `h` for sector-size'')
      | Some h_index \<Rightarrow> Inr (push_bit h_index 1))"

definition apex_leaf_count :: "nat \<Rightarrow> nat" where
  "apex_leaf_count sector_nodes = (if sector_nodes \<le> SECTOR_SIZE_8_KIB_nodes then 8 else 128)"

definition validate_tree_r_shape :: "arities \<Rightarrow> nat \<Rightarrow> unit res" where
  "validate_tree_r_shape A sector_nodes =
     bindR (case map_of [(SECTOR_SIZE_1_KIB_nodes, (8, 4, 0)), (SECTOR_SIZE_2_KIB_nodes, (8, 0, 0)), (SECTOR_SIZE_4_KIB_nodes, (8, 2, 0)),
          (SECTOR_SIZE_8_KIB_nodes, (8, 4, 0)), (SECTOR_SIZE_16_KIB_nodes, (8, 8, 0)), (SECTOR_SIZE_32_KIB_nodes, (8, 8, 2)),
          (SECTOR_SIZE_8_MIB_nodes, (8, 0, 0)), (SECTOR_SIZE_16_MIB_nodes, (8, 2, 0)), (SECTOR_SIZE_512_MIB_nodes, (8, 0, 0)),
          (SECTOR_SIZE_32_GIB_nodes, (8, 8, 0)), (SECTOR_SIZE_64_GIB_nodes, (8, 8, 2))] sector_nodes of
        None \<Rightarrow> Inl (Panic ''internal error: entered unreachable code'') | Some arities_expected \<Rightarrow> Inr arities_expected)
     (\<lambda>arities_expected.
      if (base_arity A, sub_tree_arity A, top_tree_arity A) = arities_expected then Inr () else Inl (Panic ''assertion failed''))"

subsection \<open>Challenges\<close>

text \<open>
  The field: its primitives, \<open>Fr::CAPACITY\<close>, the bits of an element from the least significant on, and
  Poseidon with the constants for randomness.
\<close>

record 'f randomness =
  rn_prims :: "'f porep_prims"
  rn_capacity :: nat
  rn_le_bits :: "'f \<Rightarrow> bool list"
  rn_hash :: "'f list \<Rightarrow> 'f"

record update_challenges =
  uc_comm_r_new :: "u8 list"
  uc_partition_bits :: u32
  uc_random_bits_per_challenge :: nat
  uc_challenges_per_digest :: nat
  uc_digest_index_all_partitions :: nat
  uc_i :: nat
  uc_digest_bits :: "bool list"
  uc_challenges_remaining :: nat

definition shl_usize :: "nat \<Rightarrow> nat \<Rightarrow> u64 res" where
  "shl_usize k n = (if n < 64 then Inr (push_bit n (of_nat k)) else Inl (Panic ''attempt to shift left with overflow''))"

definition update_challenges_new :: "'f randomness \<Rightarrow> nat \<Rightarrow> u8 list \<Rightarrow> nat \<Rightarrow> update_challenges res" where
  "update_challenges_new R sector_nodes comm_r_new k =
     (let partitions = partition_count sector_nodes in
      if \<not> k < partitions then Inl (Panic ''assertion failed'')
      else bindR (usub (trailing_zeros sector_nodes) (trailing_zeros partitions)) (\<lambda>random_bits_per_challenge.
           bindR (udiv (rn_capacity R) random_bits_per_challenge) (\<lambda>challenges_per_digest.
           bindR (shl_usize k random_bits_per_challenge) (\<lambda>partition_bits.
           let digests_per_partition = f32_ceil_div (challenge_count sector_nodes) challenges_per_digest in
           bindR (umul k digests_per_partition) (\<lambda>digest_index_all_partitions.
           Inr \<lparr>uc_comm_r_new = comm_r_new, uc_partition_bits = ucast partition_bits,
             uc_random_bits_per_challenge = random_bits_per_challenge, uc_challenges_per_digest = challenges_per_digest,
             uc_digest_index_all_partitions = digest_index_all_partitions, uc_i = 0, uc_digest_bits = [],
             uc_challenges_remaining = challenge_count sector_nodes\<rparr>)))))"

definition update_challenges_new_poseidon :: "'f randomness \<Rightarrow> nat \<Rightarrow> u8 list \<Rightarrow> update_challenges res" where
  "update_challenges_new_poseidon R sector_nodes comm_r_new =
     (let repeats = partition_count sector_nodes; random_bits_per_challenge = trailing_zeros sector_nodes in
      bindR (udiv (rn_capacity R) random_bits_per_challenge) (\<lambda>challenges_per_digest.
      Inr \<lparr>uc_comm_r_new = comm_r_new, uc_partition_bits = 0, uc_random_bits_per_challenge = random_bits_per_challenge,
        uc_challenges_per_digest = challenges_per_digest, uc_digest_index_all_partitions = 0, uc_i = 0, uc_digest_bits = [],
        uc_challenges_remaining = challenge_count sector_nodes * repeats\<rparr>))"

fun or_bits :: "nat \<Rightarrow> bool list \<Rightarrow> u32 \<Rightarrow> u32 res" where
  "or_bits i [] c = Inr c"
| "or_bits i (b # bits) c =
     (if b then if i < 32 then or_bits (i + 1) bits (c OR push_bit i 1) else Inl (Panic ''attempt to shift left with overflow'')
      else or_bits (i + 1) bits c)"

definition refresh_digest :: "'f::field randomness \<Rightarrow> update_challenges \<Rightarrow> update_challenges res" where
  "refresh_digest R s =
     (if uc_i s = 0
      then bindR (into_fr (rn_prims R) (uc_comm_r_new s)) (\<lambda>comm_r_new.
           Inr (s\<lparr>uc_digest_bits := rn_le_bits R (rn_hash R [comm_r_new, of_nat (uc_digest_index_all_partitions s)])\<rparr>))
      else Inr s)"

definition next_challenge :: "'f::field randomness \<Rightarrow> update_challenges \<Rightarrow> (u32 option \<times> update_challenges) res" where
  "next_challenge R s =
     (if uc_challenges_remaining s = 0 then Inr (None, s)
      else bindR (refresh_digest R s) (\<lambda>s.
           let start = uc_i s * uc_random_bits_per_challenge s; stop = start + uc_random_bits_per_challenge s in
           bindR (slice (uc_digest_bits s) start stop) (\<lambda>c_bits.
           bindR (or_bits 0 c_bits 0) (\<lambda>c.
           let c = c OR uc_partition_bits s; s = s\<lparr>uc_i := uc_i s + 1\<rparr>;
               s = (if uc_i s = uc_challenges_per_digest s
                    then s\<lparr>uc_i := 0, uc_digest_index_all_partitions := uc_digest_index_all_partitions s + 1\<rparr> else s)
           in Inr (Some c, s\<lparr>uc_challenges_remaining := uc_challenges_remaining s - 1\<rparr>)))))"

lemma next_challenge_remaining:
  "next_challenge R s = Inr (Some c, s') \<Longrightarrow> uc_challenges_remaining s' < uc_challenges_remaining s"
  by (auto simp: next_challenge_def refresh_digest_def bindR_eq_Inr Let_def split: if_splits)

text \<open>\<open>collect\<close>.\<close>

function collect_challenges :: "'f::field randomness \<Rightarrow> update_challenges \<Rightarrow> u32 list res" where
  "collect_challenges R s =
     (case next_challenge R s of
        Inl e \<Rightarrow> Inl e
      | Inr (None, s') \<Rightarrow> Inr []
      | Inr (Some c, s') \<Rightarrow> bindR (collect_challenges R s') (\<lambda>cs. Inr (c # cs)))"
  by pat_completeness auto
termination by (relation "measure (\<lambda>(R, s). uc_challenges_remaining s)") (auto dest: next_challenge_remaining)

declare collect_challenges.simps [simp del]


section \<open>What the challenges are\<close>

text \<open>Challenge \<open>n\<close>: \<open>r\<close> bits of a digest, below the bits of the partition.\<close>

definition digest_bits_of :: "'f::field randomness \<Rightarrow> 'f \<Rightarrow> nat \<Rightarrow> bool list" where
  "digest_bits_of R x j = rn_le_bits R (rn_hash R [x, of_nat j])"

definition challenge_bits :: "'f::field randomness \<Rightarrow> 'f \<Rightarrow> nat \<Rightarrow> nat \<Rightarrow> nat \<Rightarrow> nat \<Rightarrow> bool list" where
  "challenge_bits R x r per_digest first n =
     take r (drop (n mod per_digest * r) (digest_bits_of R x (first + n div per_digest)))"

definition randomness_ok :: "'f::field randomness \<Rightarrow> bool" where
  "randomness_ok R \<longleftrightarrow> rn_capacity R = 254 \<and> (\<forall>x. 254 \<le> length (rn_le_bits R x))"

lemma or_bits_ok:
  "i + length bits \<le> 32 \<Longrightarrow> or_bits i bits c = Inr (c OR push_bit i (horner_sum of_bool 2 bits))"
proof (induction i bits c rule: or_bits.induct)
  case (2 i b bits c)
  have h: "push_bit i (horner_sum of_bool 2 (b # bits) :: u32) = (if b then push_bit i 1 else 0) OR push_bit (i + 1) (horner_sum of_bool 2 bits)"
  proof (rule bit_word_eqI)
    fix n assume "n < LENGTH(32)"
    then show "bit (push_bit i (horner_sum of_bool 2 (b # bits)) :: u32) n =
        bit ((if b then push_bit i 1 else 0) OR push_bit (i + 1) (horner_sum of_bool 2 bits) :: u32) n"
      unfolding bit_push_bit_iff bit_or_iff bit_horner_sum_bit_word_iff
      by (cases rule: linorder_cases [of n i]) (auto simp: bit_simps nth_Cons' Suc_le_eq)
  qed
  show ?case using 2 unfolding h by (cases b) (simp_all add: or.assoc)
qed simp

lemma challenge_in_partition:
  assumes "length bits = r" and "(k + 1) * 2 ^ r \<le> 2 ^ 32"
  shows "unat (horner_sum of_bool 2 bits OR ucast (push_bit r (of_nat k :: u64)) :: u32) = k * 2 ^ r + horner_sum of_bool 2 bits"
    and "horner_sum of_bool 2 bits < (2 :: nat) ^ r"
proof -
  let ?w = "horner_sum of_bool 2 bits :: u32" and ?p = "of_nat (k * 2 ^ r) :: u32"
  have "(k + 1) * 2 ^ r \<ge> 2 ^ r" by simp
  then have "(2::nat) ^ r \<le> 2 ^ 32" using assms(2) by linarith
  then have r: "r \<le> 32" by (rule power_le_imp_le_exp [rotated]) simp
  have kr: "k * 2 ^ r + 2 ^ r \<le> 2 ^ 32" using assms(2) by simp
  then have k: "k * 2 ^ r < 2 ^ 32" using zero_less_power [of "2 :: nat" r] by linarith
  have "take_bit r ?w = ?w" using assms(1) by (intro bit_word_eqI) (auto simp: bit_take_bit_iff bit_horner_sum_bit_word_iff)
  then have w: "unat ?w < 2 ^ r" by (metis take_bit_eq_self_iff_drop_bit_eq_0 unsigned_take_bit_eq take_bit_nat_less_exp)
  have n: "unat ?w = horner_sum of_bool 2 bits"
    using assms(1) r by (intro bit_eqI) (auto simp: bit_unsigned_iff bit_horner_sum_bit_word_iff bit_horner_sum_bit_iff)
  then show "horner_sum of_bool 2 bits < (2 :: nat) ^ r" using w by simp
  have "(ucast (push_bit r (of_nat k :: u64)) :: u32) = ?p"
    by (rule bit_word_eqI) (auto simp: bit_simps simp flip: push_bit_of_nat push_bit_eq_mult)
  moreover have "?w AND ?p = 0"
    using assms(1) by (intro bit_word_eqI)
      (auto simp: bit_and_iff bit_horner_sum_bit_word_iff bit_push_bit_iff simp flip: push_bit_of_nat push_bit_eq_mult)
  then have "?w OR ?p = ?w + ?p" using word_plus_and_or [of ?w ?p] by simp
  moreover have p: "unat ?p = k * 2 ^ r" using k by (simp only: unsigned_of_nat) (simp add: take_bit_nat_eq_self)
  moreover have "unat (?w + ?p) = unat ?w + unat ?p"
    using w kr p by (intro unat_add_lem [THEN iffD1]) (simp add: p)
  ultimately show "unat (horner_sum of_bool 2 bits OR ucast (push_bit r (of_nat k :: u64)) :: u32) = k * 2 ^ r + horner_sum of_bool 2 bits"
    by (simp add: n)
qed

lemma collect_challenges_ok:
  assumes x: "into_fr (rn_prims R) comm = Inr x" and R: "randomness_ok R" and p: "0 < p" "p * r \<le> 254" "r \<le> 32"
  shows "\<lbrakk>uc_comm_r_new s = comm; uc_random_bits_per_challenge s = r; uc_challenges_per_digest s = p; uc_i s = n mod p;
    uc_digest_index_all_partitions s = first + n div p; n mod p \<noteq> 0 \<Longrightarrow> uc_digest_bits s = digest_bits_of R x (first + n div p)\<rbrakk> \<Longrightarrow>
    collect_challenges R s = Inr (map (\<lambda>n. horner_sum of_bool 2 (challenge_bits R x r p first n) OR uc_partition_bits s)
      [n..<n + uc_challenges_remaining s])"
proof (induction "uc_challenges_remaining s" arbitrary: s n)
  case 0
  then show ?case by (subst collect_challenges.simps) (simp add: next_challenge_def)
next
  case (Suc m)
  let ?bits = "digest_bits_of R x (first + n div p)"
  define s1 where "s1 = s\<lparr>uc_digest_bits := ?bits\<rparr>"
  have r1: "refresh_digest R s = Inr s1"
    using Suc.prems x by (cases "n mod p = 0") (simp_all add: refresh_digest_def s1_def digest_bits_of_def)
  have "n mod p + 1 \<le> p" using p(1) by (simp add: Suc_le_eq)
  then have "(n mod p + 1) * r \<le> p * r" by (rule mult_le_mono1)
  then have le: "n mod p * r + r \<le> length ?bits" using p(2) R unfolding randomness_ok_def digest_bits_of_def
    by (metis add.commute add_mult_distrib mult_1 order_trans)
  define s' where "s' = (let s = s1\<lparr>uc_i := uc_i s1 + 1\<rparr>;
      s = (if uc_i s = p then s\<lparr>uc_i := 0, uc_digest_index_all_partitions := uc_digest_index_all_partitions s + 1\<rparr> else s)
      in s\<lparr>uc_challenges_remaining := uc_challenges_remaining s - 1\<rparr>)"
  have len: "length (challenge_bits R x r p first n) = r" using le by (simp add: challenge_bits_def)
  have "slice (uc_digest_bits s1) (uc_i s1 * uc_random_bits_per_challenge s1) (uc_i s1 * uc_random_bits_per_challenge s1 + uc_random_bits_per_challenge s1) =
      Inr (challenge_bits R x r p first n)"
    using Suc.prems le by (simp add: s1_def slice_def challenge_bits_def)
  then have nx: "next_challenge R s = Inr (Some (horner_sum of_bool 2 (challenge_bits R x r p first n) OR uc_partition_bits s), s')"
    using Suc.hyps(2) Suc.prems r1 or_bits_ok [of 0 "challenge_bits R x r p first n" 0] len p(3)
    by (simp add: next_challenge_def s'_def Let_def) (simp add: s1_def)
  have m: "m = uc_challenges_remaining s'" using Suc.hyps(2) by (simp add: s'_def s1_def Let_def)
  have st: "uc_comm_r_new s' = comm" "uc_random_bits_per_challenge s' = r" "uc_challenges_per_digest s' = p"
      "uc_partition_bits s' = uc_partition_bits s" using Suc.prems by (simp_all add: s'_def s1_def Let_def)
  have i: "uc_i s' = Suc n mod p" "uc_digest_index_all_partitions s' = first + Suc n div p"
    using Suc.prems(4,5) by (simp_all add: s'_def s1_def Let_def mod_Suc div_Suc)
  have b: "uc_digest_bits s' = digest_bits_of R x (first + Suc n div p)" if "Suc n mod p \<noteq> 0"
    using that by (simp add: s'_def s1_def Let_def div_Suc)
  show ?case
    using Suc.hyps(1) [OF m st(1-3) i b] Suc.hyps(2) m nx
    by (subst collect_challenges.simps) (simp add: st(4) upt_conv_Cons flip: Suc.hyps(2) del: upt_Suc)
qed

section \<open>Challenges of all sector sizes\<close>

lemma allowed_sizes:
  assumes "nodes \<in> set ALLOWED_SECTOR_SIZES"
  obtains a b where "nodes = 2 ^ a" "partition_count nodes = 2 ^ b" "b \<le> 4" "b + 5 \<le> a" "a \<le> 31"
    "challenge_count nodes \<le> 86" "0 < challenge_count nodes" "challenge_count nodes * partition_count nodes \<le> 1376"
proof -
  have "\<exists>a b. nodes = 2 ^ a \<and> partition_count nodes = 2 ^ b \<and> b \<le> 4 \<and> b + 5 \<le> a \<and> a \<le> 31"
    using assms unfolding ALLOWED_SECTOR_SIZES_def set_simps
  proof (elim insertE)
    assume "nodes = SECTOR_SIZE_1_KIB_nodes" then show ?thesis by (intro exI [of _ 5] exI [of _ 0]) (simp add: sector_sizes partition_count_def)
  next
    assume "nodes = SECTOR_SIZE_2_KIB_nodes" then show ?thesis by (intro exI [of _ 6] exI [of _ 0]) (simp add: sector_sizes partition_count_def)
  next
    assume "nodes = SECTOR_SIZE_4_KIB_nodes" then show ?thesis by (intro exI [of _ 7] exI [of _ 0]) (simp add: sector_sizes partition_count_def)
  next
    assume "nodes = SECTOR_SIZE_8_KIB_nodes" then show ?thesis by (intro exI [of _ 8] exI [of _ 0]) (simp add: sector_sizes partition_count_def)
  next
    assume "nodes = SECTOR_SIZE_16_KIB_nodes" then show ?thesis by (intro exI [of _ 9] exI [of _ 1]) (simp add: sector_sizes partition_count_def)
  next
    assume "nodes = SECTOR_SIZE_32_KIB_nodes" then show ?thesis by (intro exI [of _ 10] exI [of _ 1]) (simp add: sector_sizes partition_count_def)
  next
    assume "nodes = SECTOR_SIZE_8_MIB_nodes" then show ?thesis by (intro exI [of _ 18] exI [of _ 2]) (simp add: sector_sizes partition_count_def)
  next
    assume "nodes = SECTOR_SIZE_16_MIB_nodes" then show ?thesis by (intro exI [of _ 19] exI [of _ 2]) (simp add: sector_sizes partition_count_def)
  next
    assume "nodes = SECTOR_SIZE_512_MIB_nodes" then show ?thesis by (intro exI [of _ 24] exI [of _ 4]) (simp add: sector_sizes partition_count_def)
  next
    assume "nodes = SECTOR_SIZE_32_GIB_nodes" then show ?thesis by (intro exI [of _ 30] exI [of _ 4]) (simp add: sector_sizes partition_count_def)
  next
    assume "nodes = SECTOR_SIZE_64_GIB_nodes" then show ?thesis by (intro exI [of _ 31] exI [of _ 4]) (simp add: sector_sizes partition_count_def)
  qed simp
  moreover have "challenge_count nodes \<le> 86" "0 < challenge_count nodes" "challenge_count nodes * partition_count nodes \<le> 1376"
    by (simp_all add: challenge_count_def partition_count_def)
  ultimately show thesis using that by blast
qed

text \<open>
  The challenges of partition \<open>k\<close> of a sector update, for every sector size: there are
  \<open>challenge_count\<close> of them, they all lie in the \<open>k\<close>-th chunk of the nodes (with the partition in
  their high bits), and the low bits of challenge \<open>n\<close> are the \<open>n mod p\<close>-th group of bits of
  digest \<open>k * d + n div p\<close>, where no other partition uses the \<open>d\<close> digests from \<open>k * d\<close> on.
\<close>
theorem update_challenges_in_partition:
  assumes nodes: "nodes \<in> set ALLOWED_SECTOR_SIZES" and k: "k < partition_count nodes" and r: "nodes = partition_count nodes * 2 ^ r"
    and x: "into_fr (rn_prims R) comm = Inr x" and R: "randomness_ok R"
  shows "let p = 254 div r; d = (challenge_count nodes + p - 1) div p
    in \<exists>s cs. update_challenges_new R nodes comm k = Inr s \<and> collect_challenges R s = Inr cs \<and> length cs = challenge_count nodes \<and>
      (\<forall>n<length cs. n div p < d \<and> unat (cs ! n) div 2 ^ r = k \<and>
         unat (cs ! n) = k * 2 ^ r + horner_sum of_bool 2 (take r (drop (n mod p * r) (digest_bits_of R x (k * d + n div p)))))"
proof -
  obtain a b where s: "nodes = 2 ^ a" "partition_count nodes = 2 ^ b" "b \<le> 4" "b + 5 \<le> a" "a \<le> 31" "challenge_count nodes \<le> 86"
      "0 < challenge_count nodes" by (rule allowed_sizes [OF nodes])
  have "(2::nat) ^ a = 2 ^ (b + r)" using r s(1,2) by (simp add: power_add)
  then have a: "a = b + r" by (rule power_inject_exp [THEN iffD1, rotated]) simp
  define p where "p = 254 div r" define d where "d = (challenge_count nodes + p - 1) div p"
  have r5: "5 \<le> r" "r \<le> 31" using a s(4,5) by simp_all
  then have "254 div 31 \<le> p" "p \<le> 254 div 5" unfolding p_def by (intro div_le_mono2; simp)+
  then have p: "8 \<le> p" "p \<le> 50" by simp_all
  have pr: "p * r \<le> 254" by (simp add: p_def)
  have d: "f32_ceil_div (challenge_count nodes) p = d" unfolding d_def using s(6) p by (intro f32_ceil_div_exact) simp_all
  have "(2::nat) ^ b \<le> 2 ^ 4" using s(3) by (intro power_increasing) simp_all
  then have k16: "k < 16" using k s(2) by simp
  have "d \<le> challenge_count nodes + p - 1" unfolding d_def by (rule div_le_dividend)
  then have "k * d \<le> 16 * 200" using k16 s(6) p(2) by (intro mult_le_mono) simp_all
  then have kd: "umul k d = Inr (k * d)" by (simp add: umul_Inr)
  have tz: "trailing_zeros nodes = b + r" "trailing_zeros (partition_count nodes) = b" using s(1,2) a by simp_all
  define s where "s = \<lparr>uc_comm_r_new = comm, uc_partition_bits = ucast (push_bit r (of_nat k :: u64)), uc_random_bits_per_challenge = r,
    uc_challenges_per_digest = p, uc_digest_index_all_partitions = k * d, uc_i = 0, uc_digest_bits = [], uc_challenges_remaining = challenge_count nodes\<rparr>"
  have new: "update_challenges_new R nodes comm k = Inr s"
    using k r5 R kd d by (simp add: update_challenges_new_def tz usub_def udiv_def shl_usize_def randomness_ok_def p_def [symmetric] s_def)
  let ?cs = "map (\<lambda>n. horner_sum of_bool 2 (challenge_bits R x r p (k * d) n) OR ucast (push_bit r (of_nat k :: u64)) :: u32) [0..<challenge_count nodes]"
  have cs: "collect_challenges R s = Inr ?cs"
    using collect_challenges_ok [OF x R, of p r s 0 "k * d"] p(1) pr r5 by (simp add: s_def)
  have "(k + 1) * 2 ^ r \<le> 2 ^ b * 2 ^ r" using k s(2) by (intro mult_le_mono1) simp
  also have "\<dots> \<le> 2 ^ 32" unfolding power_add [symmetric] using a s(5) by (intro power_increasing) simp_all
  finally have bound: "(k + 1) * 2 ^ r \<le> 2 ^ 32" .
  have len: "length ?cs = challenge_count nodes" by simp
  have main: "n div p < d \<and> unat (?cs ! n) div 2 ^ r = k \<and>
      unat (?cs ! n) = k * 2 ^ r + horner_sum of_bool 2 (take r (drop (n mod p * r) (digest_bits_of R x (k * d + n div p))))"
    if n: "n < challenge_count nodes" for n
  proof -
    have "(n mod p + 1) * r \<le> p * r" using p(1) by (intro mult_le_mono1) (simp add: Suc_le_eq)
    then have "n mod p * r + r \<le> 254" using pr by simp
    moreover have "254 \<le> length (digest_bits_of R x (k * d + n div p))" using R by (simp add: randomness_ok_def digest_bits_of_def)
    ultimately have "length (challenge_bits R x r p (k * d) n) = r" by (simp add: challenge_bits_def)
    note u = challenge_in_partition [OF this bound]
    have "p * (n div p) \<le> n" by simp
    then have "p * (n div p) + p \<le> challenge_count nodes + p - 1" using n by linarith
    then have "n div p + 1 \<le> d" unfolding d_def using p(1) by (simp add: less_eq_div_iff_mult_less_eq mult.commute)
    then show ?thesis using u n by (simp add: challenge_bits_def)
  qed
  show ?thesis
    unfolding Let_def p_def [symmetric] d_def [symmetric]
    by (intro exI [of _ s] exI [of _ ?cs] conjI new cs len) (unfold len, use main in blast)
qed

definition toy_randomness :: "toy_fr randomness" where
  "toy_randomness = \<lparr>rn_prims = toy_prims, rn_capacity = 254,
     rn_le_bits = (\<lambda>x. (x = F1) # replicate 254 True), rn_hash = (\<lambda>xs. foldr (+) xs 0)\<rparr>"

theorem update_challenges_in_partition_witness:
  "\<exists>s cs. update_challenges_new toy_randomness (2 ^ 9) (toy_of_fr F1) 1 = Inr s \<and> collect_challenges toy_randomness s = Inr cs \<and>
     length cs = 10 \<and> (\<forall>n<10. unat (cs ! n) div 256 = 1)"
proof -
  have n: "(2::nat) ^ 9 \<in> set ALLOWED_SECTOR_SIZES" by (simp add: ALLOWED_SECTOR_SIZES_def sector_sizes)
  have k: "1 < partition_count (2 ^ 9)" "(2::nat) ^ 9 = partition_count (2 ^ 9) * 2 ^ 8" "challenge_count (2 ^ 9) = 10"
    by (simp_all add: partition_count_def challenge_count_def sector_sizes)
  have x: "into_fr (rn_prims toy_randomness) (toy_of_fr F1) = Inr F1"
    using into_of_fr [OF toy_prims_ok, of F1] by (simp add: toy_randomness_def toy_prims_def)
  have R: "randomness_ok toy_randomness" by (simp add: randomness_ok_def toy_randomness_def)
  obtain s cs where "update_challenges_new toy_randomness (2 ^ 9) (toy_of_fr F1) 1 = Inr s" "collect_challenges toy_randomness s = Inr cs"
      "length cs = challenge_count (2 ^ 9)" "\<forall>n<length cs. unat (cs ! n) div 2 ^ 8 = 1"
    using update_challenges_in_partition [OF n k(1,2) x R] unfolding Let_def by blast
  then show ?thesis using k(3) by (intro exI [of _ s] exI [of _ cs]) simp
qed
end
