(* ===== verification/Sector_Update.thy ===== *)
theory Sector_Update
  imports Replica_Info Update_Challenges Commitment_Reader
begin

text \<open>
  Updates of sealed sectors: \<open>storage-proofs-update/src/vanilla.rs\<close>. New data is encoded into the
  replica of an empty sector (the sector key) with multipliers that depend on the new data, the
  data can be decoded and the key recovered, and proofs open the three trees at the challenges.

  A file is its contents (\<open>None\<close>: there is no such file), a memory map of it the bytes; the test for
  directories is left out. A configuration comes with the disk of its directory. Blocks are
  encoded in parallel by the program, and an error in one of them makes the call fail.
\<close>

section \<open>The code\<close>

text \<open>
  The environment: trees and primitives as in replication (the data tree is one of \<open>Sha256Hasher\<close>),
  the randomness, the digest of the \<open>sha2\<close> crate and \<open>DiskStore::new_from_slice\<close>.
\<close>

record ('f, 't, 'p) update_env =
  ue_drg :: "('f, 't, 'p) drg_env"
  ue_randomness :: "'f randomness"
  ue_sha256 :: "u8 list \<Rightarrow> u8 list"
  ue_new_from_slice :: "nat \<Rightarrow> u8 list \<Rightarrow> u8 list res"

definition sha256_hash2 :: "(u8 list \<Rightarrow> u8 list) \<Rightarrow> u8 list \<Rightarrow> u8 list \<Rightarrow> u8 list" where
  "sha256_hash2 digest a b = trim_to_fr32 (digest (a @ b))"

definition CHUNK_SIZE_MIN :: nat where "CHUNK_SIZE_MIN = 4096"

definition FR_SIZE :: nat where "FR_SIZE = 32"

subsection \<open>Parameters and inputs\<close>

record update_params =
  up_sector_nodes :: nat
  up_challenge_count :: nat
  up_challenge_bit_len :: nat
  up_partition_count :: nat
  up_partition_bit_len :: nat
  up_apex_leaf_count :: nat
  up_apex_leaf_bit_len :: nat

definition find_sector_nodes :: "nat \<Rightarrow> nat res" where
  "find_sector_nodes sector_bytes =
     (case find (\<lambda>allowed_nodes. allowed_nodes * 2 ^ 5 = sector_bytes) ALLOWED_SECTOR_SIZES of
        None \<Rightarrow> Inl (Panic ''provided sector-size is not allowed'') | Some sector_nodes \<Rightarrow> Inr sector_nodes)"

definition from_sector_size :: "nat \<Rightarrow> update_params res" where
  "from_sector_size sector_bytes =
     bindR (find_sector_nodes sector_bytes) (\<lambda>sector_nodes.
     Inr \<lparr>up_sector_nodes = sector_nodes, up_challenge_count = challenge_count sector_nodes,
       up_challenge_bit_len = trailing_zeros sector_nodes, up_partition_count = partition_count sector_nodes,
       up_partition_bit_len = trailing_zeros (partition_count sector_nodes),
       up_apex_leaf_count = apex_leaf_count sector_nodes,
       up_apex_leaf_bit_len = trailing_zeros (apex_leaf_count sector_nodes)\<rparr>)"

definition from_sector_size_poseidon :: "nat \<Rightarrow> update_params res" where
  "from_sector_size_poseidon sector_bytes =
     bindR (find_sector_nodes sector_bytes) (\<lambda>sector_nodes.
     Inr \<lparr>up_sector_nodes = sector_nodes, up_challenge_count = challenge_count_poseidon sector_nodes,
       up_challenge_bit_len = trailing_zeros sector_nodes, up_partition_count = 1, up_partition_bit_len = 0,
       up_apex_leaf_count = 0, up_apex_leaf_bit_len = 0\<rparr>)"

definition params_sector_size :: "update_params \<Rightarrow> nat" where
  "params_sector_size pp = up_sector_nodes pp * 2 ^ 5"

record update_inputs =
  ui_k :: nat
  ui_comm_r_old :: "u8 list"
  ui_comm_d_new :: "u8 list"
  ui_comm_r_new :: "u8 list"
  ui_h :: nat

record update_private =
  uv_comm_c :: "u8 list"
  uv_tree_r_old_config :: "store_config \<times> disk"
  uv_old_replica :: "u8 list option"
  uv_tree_d_new_config :: "store_config \<times> disk"
  uv_tree_r_new_config :: "store_config \<times> disk"
  uv_replica :: "u8 list option"

record challenge_proof =
  cf_proof_r_old :: "u8 list proof_data"
  cf_proof_d_new :: "u8 list proof_data"
  cf_proof_r_new :: "u8 list proof_data"

record update_proof =
  uf_comm_c :: "u8 list"
  uf_apex_leafs :: "u8 list list"
  uf_challenge_proofs :: "challenge_proof list"

text \<open>The conjunction is evaluated from the left; only \<open>verify\<close> can panic.\<close>

definition verify_merkle_proofs ::
  "('f, 't, 'p) update_env \<Rightarrow> challenge_proof \<Rightarrow> u32 \<Rightarrow> u8 list \<Rightarrow> u8 list \<Rightarrow> u8 list \<Rightarrow> bool res" where
  "verify_merkle_proofs U cp c root_r_old comm_d_new root_r_new =
     (let X = ue_drg U; A = de_arities X; c = unat c; H = pq_tree_hash (de_prims X) in
      if mp_path_index A (cf_proof_r_old cp) = c \<and> mp_path_index binary_arities (cf_proof_d_new cp) = c \<and>
         mp_path_index A (cf_proof_r_new cp) = c \<and> mp_root (cf_proof_r_old cp) = root_r_old \<and>
         mp_root (cf_proof_d_new cp) = comm_d_new \<and> mp_root (cf_proof_r_new cp) = root_r_new
      then bindR (mp_verify H (cf_proof_r_old cp)) (\<lambda>ok. if \<not> ok then Inr False
           else bindR (mp_verify (de_hash_d X) (cf_proof_d_new cp)) (\<lambda>ok. if \<not> ok then Inr False
           else mp_verify H (cf_proof_r_new cp)))
      else Inr False)"

subsection \<open>Randomness\<close>

definition update_phi :: "'f randomness \<Rightarrow> u8 list \<Rightarrow> u8 list \<Rightarrow> u8 list res" where
  "update_phi R comm_d_new comm_r_old =
     bindR (into_fr (rn_prims R) comm_d_new) (\<lambda>comm_d_new. bindR (into_fr (rn_prims R) comm_r_old) (\<lambda>comm_r_old.
     Inr (pq_of_fr (rn_prims R) (rn_hash R [comm_d_new, comm_r_old]))))"

definition update_rho :: "'f::field randomness \<Rightarrow> u8 list \<Rightarrow> u32 \<Rightarrow> 'f res" where
  "update_rho R phi high =
     bindR (into_fr (rn_prims R) phi) (\<lambda>phi. Inr (rn_hash R [phi, of_nat (unat high)]))"

record 'f rhos =
  rh_rhos :: "nat \<rightharpoonup> 'f"
  rh_bits_shr :: nat

definition calc_bits_shr :: "nat \<Rightarrow> nat \<Rightarrow> nat res" where
  "calc_bits_shr h nodes_count = usub (trailing_zeros nodes_count) h"

definition calc_high_range :: "nat \<Rightarrow> nat \<Rightarrow> nat \<Rightarrow> nat list res" where
  "calc_high_range offset num bits_shr =
     bindR (usub (offset + num) 1) (\<lambda>last. Inr [offset div 2 ^ bits_shr..<Suc (last div 2 ^ bits_shr)])"

definition rhos_new_range :: "'f::field randomness \<Rightarrow> u8 list \<Rightarrow> nat \<Rightarrow> nat \<Rightarrow> nat \<Rightarrow> nat \<Rightarrow> 'f rhos res" where
  "rhos_new_range R phi h nodes_count offset num =
     bindR (calc_bits_shr h nodes_count) (\<lambda>bits_shr.
     bindR (calc_high_range offset num bits_shr) (\<lambda>high_range.
     bindR (collectR (\<lambda>high. bindR (update_rho R phi (of_nat high)) (\<lambda>r. Inr (high, r))) high_range) (\<lambda>rhos.
     Inr \<lparr>rh_rhos = map_of rhos, rh_bits_shr = bits_shr\<rparr>)))"

definition rhos_new_inv_range :: "'f::field randomness \<Rightarrow> u8 list \<Rightarrow> nat \<Rightarrow> nat \<Rightarrow> nat \<Rightarrow> nat \<Rightarrow> 'f rhos res" where
  "rhos_new_inv_range R phi h nodes_count offset num =
     bindR (calc_bits_shr h nodes_count) (\<lambda>bits_shr.
     bindR (calc_high_range offset num bits_shr) (\<lambda>high_range.
     bindR (collectR (\<lambda>high. bindR (update_rho R phi (of_nat high)) (\<lambda>r.
       if r = 0 then Inl (Panic ''rho inversion should not fail'') else Inr (high, inverse r))) high_range) (\<lambda>rhos.
     Inr \<lparr>rh_rhos = map_of rhos, rh_bits_shr = bits_shr\<rparr>)))"

definition rhos_new :: "'f::field randomness \<Rightarrow> u8 list \<Rightarrow> nat \<Rightarrow> nat \<Rightarrow> 'f rhos res" where
  "rhos_new R phi h nodes_count = rhos_new_range R phi h nodes_count 0 nodes_count"

definition rhos_new_inv :: "'f::field randomness \<Rightarrow> u8 list \<Rightarrow> nat \<Rightarrow> nat \<Rightarrow> 'f rhos res" where
  "rhos_new_inv R phi h nodes_count = rhos_new_inv_range R phi h nodes_count 0 nodes_count"

definition rhos_get :: "'f rhos \<Rightarrow> nat \<Rightarrow> 'f res" where
  "rhos_get r offset =
     (case rh_rhos r (offset div 2 ^ rh_bits_shr r) of None \<Rightarrow> Inl (Panic ''no entry found for key'') | Some x \<Rightarrow> Inr x)"

subsection \<open>Encoding and decoding\<close>

text \<open>
  The loops over blocks: \<open>f\<close> gives the bytes that are written for an index of the input. The
  starts of the blocks go up to \<open>end\<close>, the output is changed in chunks of the size of a block.
\<close>

fun write_nodes :: "(nat \<Rightarrow> u8 list res) \<Rightarrow> nat \<Rightarrow> nat list \<Rightarrow> u8 list \<Rightarrow> u8 list res" where
  "write_nodes f chunk_index [] out = Inr out"
| "write_nodes f chunk_index (i # rest) out =
     bindR (f (chunk_index + i)) (\<lambda>b.
     bindR (slice out i (i + FR_SIZE)) (\<lambda>_.
     write_nodes f chunk_index rest (take i out @ b @ drop (i + FR_SIZE) out)))"

definition step_by :: "nat \<Rightarrow> nat \<Rightarrow> nat list" where
  "step_by end' step = map (\<lambda>i. i * step) [0..<(end' + step - 1) div step]"

definition write_blocks :: "(nat \<Rightarrow> u8 list res) \<Rightarrow> nat \<Rightarrow> nat \<Rightarrow> u8 list \<Rightarrow> u8 list res" where
  "write_blocks f data_block_size end' out =
     (if data_block_size = 0 then Inl (Panic ''assertion failed: step != 0'')
      else let starts = step_by end' data_block_size; out_chunks = chunks data_block_size out in
        bindR (collectR (\<lambda>(chunk_index, out_chunk). write_nodes f chunk_index (step_by data_block_size FR_SIZE) out_chunk)
          (zip starts out_chunks)) (\<lambda>written.
        Inr (concat (written @ drop (length starts) out_chunks))))"

definition block_size :: "nat \<Rightarrow> nat" where
  "block_size base_tree_nodes_count = min base_tree_nodes_count CHUNK_SIZE_MIN * FR_SIZE"

definition fr_at :: "'f porep_prims \<Rightarrow> u8 list \<Rightarrow> nat \<Rightarrow> 'f res" where
  "fr_at P data input_index = bindR (slice data input_index (input_index + FR_SIZE)) (bytes_into_fr P)"

definition encode_node :: "'f::field porep_prims \<Rightarrow> 'f rhos \<Rightarrow> u8 list \<Rightarrow> u8 list \<Rightarrow> nat \<Rightarrow> u8 list res" where
  "encode_node P rhos sector_key_data staged_data input_index =
     bindR (rhos_get rhos (input_index div FR_SIZE)) (\<lambda>rho.
     bindR (fr_at P sector_key_data input_index) (\<lambda>sector_key_fr.
     bindR (fr_at P staged_data input_index) (\<lambda>staged_data_fr.
     Inr (pq_of_fr P (sector_key_fr + staged_data_fr * rho)))))"

definition decode_node :: "'f::field porep_prims \<Rightarrow> 'f rhos \<Rightarrow> u8 list \<Rightarrow> u8 list \<Rightarrow> nat \<Rightarrow> u8 list res" where
  "decode_node P rho_invs sector_key_data replica_data input_index =
     bindR (rhos_get rho_invs (input_index div FR_SIZE)) (\<lambda>rho_inv.
     bindR (fr_at P sector_key_data input_index) (\<lambda>sector_key_fr.
     bindR (fr_at P replica_data input_index) (\<lambda>replica_data_fr.
     Inr (pq_of_fr P ((replica_data_fr - sector_key_fr) * rho_inv)))))"

definition remove_node :: "'f::field porep_prims \<Rightarrow> 'f rhos \<Rightarrow> u8 list \<Rightarrow> u8 list \<Rightarrow> nat \<Rightarrow> u8 list res" where
  "remove_node P rhos data replica_data input_index =
     bindR (rhos_get rhos (input_index div FR_SIZE)) (\<lambda>rho.
     bindR (fr_at P data input_index) (\<lambda>data_fr.
     bindR (fr_at P replica_data input_index) (\<lambda>replica_data_fr.
     Inr (pq_of_fr P (replica_data_fr - data_fr * rho)))))"

text \<open>The callback of the tree builder: the leaves are read from the store.\<close>

definition update_prepare_tree_r_data :: "('f, 't, 'p) drg_env \<Rightarrow> tree_r_callback" where
  "update_prepare_tree_r_data X source data start end' =
     bindR (expectR ''failed to read from source'' (read_range (de_tree X) source start end')) (\<lambda>tree_data. Inr (data, tree_data))"

definition open_file :: "u8 list option \<Rightarrow> u8 list res" where
  "open_file f = (case f of None \<Rightarrow> Inl (Fail ''No such file or directory'') | Some bytes \<Rightarrow> Inr bytes)"

text \<open>The new replica, the disk, and \<open>comm_r_new\<close>, \<open>comm_r_last_new\<close>, \<open>comm_d_new\<close>.\<close>

definition encode_into ::
  "('f::field, 't, 'p) update_env \<Rightarrow> nat \<Rightarrow> store_config \<Rightarrow> store_config \<Rightarrow> u8 list \<Rightarrow> u8 list \<Rightarrow>
    u8 list option \<Rightarrow> u8 list option \<Rightarrow> u8 list option \<Rightarrow> nat \<Rightarrow> disk \<Rightarrow> (u8 list \<times> disk \<times> u8 list \<times> u8 list \<times> u8 list) res" where
  "encode_into U nodes_count tree_d_new_config tree_r_last_new_config column_root comm_r_last_old new_replica_file sector_key_file staged_data_file h d =
     (let X = ue_drg U; P = de_prims X; R = ue_randomness U in
      bindR (get_base_tree_count (de_arities X)) (\<lambda>tree_count.
      bindR (udiv nodes_count tree_count) (\<lambda>base_tree_nodes_count.
      bindR (open_file new_replica_file) (\<lambda>new_replica_data.
      bindR (open_file sector_key_file) (\<lambda>sector_key_data.
      bindR (open_file staged_data_file) (\<lambda>staged_data.
      ensure (length new_replica_data = length sector_key_data) ''New replica and sector key file size mis-match (must be equal)''
      (ensure (length sector_key_data \<le> length staged_data) ''Staged data and sector key file size mis-match (must be equal or greater than)''
      (bindR (create_base_merkle_tree (de_tree_d X) binary_arities tree_d_new_config (tree_count * base_tree_nodes_count)
               (take (length sector_key_data) staged_data) d) (\<lambda>(d, tree_d).
       let comm_d_new = tree_root_of (de_tree_d X) tree_d; comm_r_old = pq_hash2 P column_root comm_r_last_old in
       bindR (update_phi R comm_d_new comm_r_old) (\<lambda>phi.
       bindR (rhos_new R phi h nodes_count) (\<lambda>rhos.
       bindR (write_blocks (encode_node P rhos sector_key_data staged_data) (block_size base_tree_nodes_count)
                (length staged_data) new_replica_data) (\<lambda>new_replica_data.
       bindR (ue_new_from_slice U nodes_count new_replica_data) (\<lambda>new_replica_store.
       bindR (generate_tree_r_last_cpu X (update_prepare_tree_r_data X) (\<lambda>_. new_replica_data) [] base_tree_nodes_count tree_count
                tree_r_last_new_config new_replica_store d) (\<lambda>(_, d, tree_r_last).
       let comm_r_last_new = tree_root_of (de_tree X) tree_r_last
       in Inr (new_replica_data, d, pq_hash2 P column_root comm_r_last_new, comm_r_last_new, comm_d_new)))))))))))))))"

text \<open>The data that is written to the output file.\<close>

definition decode_from ::
  "('f::field, 't, 'p) update_env \<Rightarrow> nat \<Rightarrow> u8 list option \<Rightarrow> u8 list option \<Rightarrow> u8 list option \<Rightarrow> u8 list \<Rightarrow> u8 list \<Rightarrow> u8 list \<Rightarrow>
    nat \<Rightarrow> u8 list res" where
  "decode_from U nodes_count out_data_file replica_file sector_key_file column_root comm_d_new comm_sector_key h =
     (let X = ue_drg U; P = de_prims X; R = ue_randomness U in
      bindR (get_base_tree_count (de_arities X)) (\<lambda>tree_count.
      bindR (udiv nodes_count tree_count) (\<lambda>base_tree_nodes_count.
      bindR (open_file out_data_file) (\<lambda>out_data.
      bindR (open_file replica_file) (\<lambda>replica_data.
      bindR (open_file sector_key_file) (\<lambda>sector_key_data.
      ensure (length replica_data = length sector_key_data) ''Replica and sector key file size mis-match (must be equal)''
      (bindR (update_phi R comm_d_new (pq_hash2 P column_root comm_sector_key)) (\<lambda>phi.
       bindR (rhos_new_inv R phi h nodes_count) (\<lambda>rho_invs.
       write_blocks (decode_node P rho_invs sector_key_data replica_data) (block_size base_tree_nodes_count)
         (length replica_data) out_data)))))))))"

text \<open>
  The recovered sector key, the disk and the root of its tree. The code opens the tree with the path of a
  directory in the place of the path of a replica: \<open>directory\<close> is what reading from it gives.
\<close>

definition recover_sector_key ::
  "('f::field, 't, 'p) update_env \<Rightarrow> nat \<Rightarrow> nat \<Rightarrow> u8 list option \<Rightarrow> u8 list option \<Rightarrow> u8 list option \<Rightarrow> u8 list \<Rightarrow> u8 list \<Rightarrow> u8 list \<Rightarrow>
    nat \<Rightarrow> u8 list res" where
  "recover_sector_key U nodes_count base_tree_nodes_count sector_key_file replica_file data_file column_root comm_d_new comm_sector_key h =
     (let P = de_prims (ue_drg U); R = ue_randomness U in
      bindR (open_file data_file) (\<lambda>data.
      bindR (open_file replica_file) (\<lambda>replica_data.
      bindR (open_file sector_key_file) (\<lambda>sector_key_data.
      ensure (length replica_data = length sector_key_data) ''Replica and sector key file size mis-match (must be equal)''
      (ensure (length replica_data \<le> length data) ''Replica and data file size mis-match (must be equal or less than)''
      (bindR (update_phi R comm_d_new (pq_hash2 P column_root comm_sector_key)) (\<lambda>phi.
       bindR (rhos_new R phi h nodes_count) (\<lambda>rhos.
       write_blocks (remove_node P rhos data replica_data) (block_size base_tree_nodes_count)
         (length replica_data) sector_key_data))))))))"

definition remove_encoded_data ::
  "('f::field, 't, 'p) update_env \<Rightarrow> nat \<Rightarrow> u8 list option \<Rightarrow> u8 list \<Rightarrow> u8 list option \<Rightarrow> u8 list option \<Rightarrow> store_config \<Rightarrow>
    u8 list \<Rightarrow> u8 list \<Rightarrow> u8 list \<Rightarrow> nat \<Rightarrow> disk \<Rightarrow> (u8 list \<times> disk \<times> u8 list) res" where
  "remove_encoded_data U nodes_count sector_key_file directory replica_file data_file tree_r_last_new_config column_root comm_d_new comm_sector_key h d =
     (let X = ue_drg U in
      bindR (get_base_tree_count (de_arities X)) (\<lambda>tree_count.
      bindR (udiv nodes_count tree_count) (\<lambda>base_tree_nodes_count.
      bindR (recover_sector_key U nodes_count base_tree_nodes_count sector_key_file replica_file data_file column_root comm_d_new comm_sector_key h)
        (\<lambda>sector_key_data.
      bindR (ue_new_from_slice U nodes_count sector_key_data) (\<lambda>sector_key_store.
      bindR (generate_tree_r_last_cpu X (update_prepare_tree_r_data X) (\<lambda>_. directory) [] base_tree_nodes_count tree_count
               tree_r_last_new_config sector_key_store d) (\<lambda>(_, d, tree_r_last).
      Inr (sector_key_data, d, tree_root_of (de_tree X) tree_r_last)))))))"

subsection \<open>Proving\<close>

definition instantiate_tree_d :: "('f, 't, 'p) update_env \<Rightarrow> nat \<Rightarrow> store_config \<times> disk \<Rightarrow> 't res" where
  "instantiate_tree_d U tree_d_leafs = (\<lambda>(config, d). let T = de_tree_d (ue_drg U) in
     bindR (config_size config) (\<lambda>tree_d_nodes.
     bindR (new_from_disk T tree_d_nodes 2 (file_of config d)) (\<lambda>tree_d_store.
     from_data_store T binary_arities tree_d_store tree_d_leafs None)))"

definition instantiate_tree_r :: "('f, 't, 'p) update_env \<Rightarrow> store_config \<times> disk \<Rightarrow> u8 list option \<Rightarrow> 't res" where
  "instantiate_tree_r U = (\<lambda>(config, d) replica. let X = ue_drg U; T = de_tree X; A = de_arities X in
     bindR (config_size config) (\<lambda>tree_r_base_tree_nodes.
     bindR (get_merkle_tree_leafs T tree_r_base_tree_nodes (base_arity A)) (\<lambda>tree_r_base_tree_leafs.
     bindR (get_base_tree_count A) (\<lambda>tree_r_base_tree_count.
     bindR (open_file replica) (\<lambda>replica.
     let (tree_r_configs, replica_config) = split_config_and_replica config replica tree_r_base_tree_leafs tree_r_base_tree_count
     in create_lc_tree T A tree_r_base_tree_nodes tree_r_configs replica_config d)))))"

definition read_apex_leafs :: "('f, 't, 'p) update_env \<Rightarrow> update_params \<Rightarrow> nat \<Rightarrow> store_config \<times> disk \<Rightarrow> u8 list list res" where
  "read_apex_leafs U pp k = (\<lambda>(config, d). let T = de_tree_d (ue_drg U) in
     bindR (config_size config) (\<lambda>tree_d_nodes.
     bindR (new_from_disk T tree_d_nodes 2 (file_of config d)) (\<lambda>tree_d_store.
     ensure (tree_d_nodes = store_len T tree_d_store) ''TreeD store size mismatch''
     (let total_apex_leafs = up_partition_count pp * up_apex_leaf_count pp in
      bindR (get_merkle_tree_len T total_apex_leafs 2) (\<lambda>tree_d_nodes_apex_leafs_to_root.
      bindR (usub tree_d_nodes tree_d_nodes_apex_leafs_to_root) (\<lambda>tree_d_nodes_below_apex_leafs.
      let apex_leafs_start = tree_d_nodes_below_apex_leafs + k * up_apex_leaf_count pp;
          apex_leafs_stop = apex_leafs_start + up_apex_leaf_count pp
      in read_range T tree_d_store apex_leafs_start apex_leafs_stop))))))"

definition update_challenge_proof :: "('f, 't, 'p) update_env \<Rightarrow> nat \<Rightarrow> 't \<Rightarrow> 't \<Rightarrow> 't \<Rightarrow> nat \<Rightarrow> challenge_proof res" where
  "update_challenge_proof U rows_to_discard tree_r_old tree_d_new tree_r_new c =
     (let X = ue_drg U; T = de_tree X; A = de_arities X; H = pq_tree_hash (de_prims X) in
      bindR (gen_proof (de_tree_d X) binary_arities tree_d_new c) (\<lambda>proof_d_new.
      bindR (gen_cached_proof T A tree_r_new c (Some rows_to_discard)) (\<lambda>proof_r_new.
      bindR (gen_cached_proof T A tree_r_old c (Some rows_to_discard)) (\<lambda>proof_r_old.
      bindR (mp_verify (de_hash_d X) proof_d_new) (\<lambda>ok. ensure ok ''invalid TreeDNew Merkle proof''
      (bindR (mp_verify H proof_r_new) (\<lambda>ok. ensure ok ''invalid TreeRNew Merkle proof''
      (bindR (mp_verify H proof_r_old) (\<lambda>ok. ensure ok ''invalid TreeROld Merkle proof''
      (Inr \<lparr>cf_proof_r_old = proof_r_old, cf_proof_d_new = proof_d_new, cf_proof_r_new = proof_r_new\<rparr>))))))))))"

definition prove_inner ::
  "('f::field, 't, 'p) update_env \<Rightarrow> update_params \<Rightarrow> update_inputs \<Rightarrow> update_private \<Rightarrow> 't \<Rightarrow> 't \<Rightarrow> 't \<Rightarrow> update_proof res" where
  "prove_inner U pp pi priv tree_r_old tree_d_new tree_r_new =
     ensure (ui_k pi < up_partition_count pp) ''partition-index `k` exceeds partition-count for sector-size''
     (bindR (open_file (uv_old_replica priv)) (\<lambda>_.
      bindR (open_file (uv_replica priv)) (\<lambda>_.
      bindR (read_apex_leafs U pp (ui_k pi) (uv_tree_d_new_config priv)) (\<lambda>apex_leafs.
      bindR (update_challenges_new (ue_randomness U) (up_sector_nodes pp) (ui_comm_r_new pi) (ui_k pi)) (\<lambda>s.
      bindR (collect_challenges (ue_randomness U) s) (\<lambda>challenges.
      bindR (collectR (\<lambda>c. update_challenge_proof U (sc_rows_to_discard (fst (uv_tree_r_old_config priv))) tree_r_old tree_d_new tree_r_new (unat c))
        challenges) (\<lambda>challenge_proofs.
      Inr \<lparr>uf_comm_c = uv_comm_c priv, uf_apex_leafs = apex_leafs, uf_challenge_proofs = challenge_proofs\<rparr>)))))))"

definition update_with_partition :: "update_inputs \<Rightarrow> nat option \<Rightarrow> update_inputs res" where
  "update_with_partition pi k =
     (case k of None \<Rightarrow> Inl (Panic ''must provide `k` to generate partition's public-inputs'') | Some k \<Rightarrow> Inr (pi\<lparr>ui_k := k\<rparr>))"

definition with_trees ::
  "('f, 't, 'p) update_env \<Rightarrow> update_params \<Rightarrow> update_private \<Rightarrow> ('t \<Rightarrow> 't \<Rightarrow> 't \<Rightarrow> 'a res) \<Rightarrow> 'a res" where
  "with_trees U pp priv f =
     bindR (instantiate_tree_d U (up_sector_nodes pp) (uv_tree_d_new_config priv)) (\<lambda>tree_d_new.
     bindR (instantiate_tree_r U (uv_tree_r_old_config priv) (uv_old_replica priv)) (\<lambda>tree_r_old.
     bindR (instantiate_tree_r U (uv_tree_r_new_config priv) (uv_replica priv)) (\<lambda>tree_r_new.
     f tree_r_old tree_d_new tree_r_new)))"

definition update_prove :: "('f::field, 't, 'p) update_env \<Rightarrow> update_params \<Rightarrow> update_inputs \<Rightarrow> update_private \<Rightarrow> update_proof res" where
  "update_prove U pp pi priv = with_trees U pp priv (prove_inner U pp pi priv)"

definition update_prove_all ::
  "('f::field, 't, 'p) update_env \<Rightarrow> update_params \<Rightarrow> update_inputs \<Rightarrow> update_private \<Rightarrow> update_proof list res" where
  "update_prove_all U pp pi priv =
     with_trees U pp priv (\<lambda>tree_r_old tree_d_new tree_r_new.
       collectR (\<lambda>k. bindR (update_with_partition pi (Some k)) (\<lambda>pi.
         prove_inner U pp pi priv tree_r_old tree_d_new tree_r_new)) [0..<up_partition_count pp])"

subsection \<open>Verification\<close>

text \<open>The rows of the apex tree from its leaves on.\<close>

definition apex_row :: "(u8 list \<Rightarrow> u8 list) \<Rightarrow> u8 list list \<Rightarrow> u8 list list res" where
  "apex_row digest row =
     collectR (\<lambda>siblings. bindR (at_index siblings 0) (\<lambda>a. bindR (at_index siblings 1) (\<lambda>b. Inr (sha256_hash2 digest a b))))
       (chunks 2 row)"

fun apex_tree :: "(u8 list \<Rightarrow> u8 list) \<Rightarrow> nat \<Rightarrow> u8 list list \<Rightarrow> u8 list list list res" where
  "apex_tree digest 0 row = Inr [row]"
| "apex_tree digest (Suc n) row = bindR (apex_row digest row) (\<lambda>row'. bindR (apex_tree digest n row') (\<lambda>rows. Inr (row # rows)))"

definition encoding_valid :: "('f::field, 't, 'p) update_env \<Rightarrow> u8 list \<Rightarrow> nat \<Rightarrow> u32 \<Rightarrow> challenge_proof \<Rightarrow> bool res" where
  "encoding_valid U phi get_high_bits_shr c cp =
     (let P = de_prims (ue_drg U) in
      bindR (into_fr P (mp_leaf (cf_proof_r_old cp))) (\<lambda>label_r_old.
      bindR (into_fr P (mp_leaf (cf_proof_d_new cp))) (\<lambda>label_d_new.
      if 32 \<le> get_high_bits_shr then Inl (Panic ''attempt to shift right with overflow'')
      else bindR (update_rho (ue_randomness U) phi (drop_bit get_high_bits_shr c)) (\<lambda>rho.
        Inr (pq_of_fr P (label_r_old + label_d_new * rho) = mp_leaf (cf_proof_r_new cp))))))"

definition apex_valid :: "nat \<Rightarrow> nat \<Rightarrow> u8 list list list \<Rightarrow> challenge_proof \<Rightarrow> bool res" where
  "apex_valid apex_leafs_height apex_leaf_bit_len rows cp =
     bindR (slice (mp_path (cf_proof_d_new cp)) apex_leafs_height (apex_leafs_height + apex_leaf_bit_len)) (\<lambda>apex_path.
     bindR (collectR (\<lambda>(path_elem, apex_tree_row). bindR (at_index (fst path_elem) 0) (\<lambda>sibling.
         Inr (sibling \<in> set apex_tree_row))) (zip apex_path rows)) (\<lambda>vs.
     Inr (list_all id vs)))"

definition verify_challenge_proof ::
  "('f::field, 't, 'p) update_env \<Rightarrow> update_params \<Rightarrow> update_inputs \<Rightarrow> u8 list \<Rightarrow> nat \<Rightarrow> nat \<Rightarrow> u8 list list list \<Rightarrow> u8 list \<Rightarrow> u8 list \<Rightarrow>
    u32 \<times> challenge_proof \<Rightarrow> bool res" where
  "verify_challenge_proof U pp pi phi get_high_bits_shr apex_leafs_height rows root_r_old root_r_new = (\<lambda>(c, cp).
     bindR (verify_merkle_proofs U cp c root_r_old (ui_comm_d_new pi) root_r_new) (\<lambda>ok. if \<not> ok then Inr False
     else bindR (encoding_valid U phi get_high_bits_shr c cp) (\<lambda>ok. if \<not> ok then Inr False
     else apex_valid apex_leafs_height (up_apex_leaf_bit_len pp) rows cp)))"

definition update_verify :: "('f::field, 't, 'p) update_env \<Rightarrow> update_params \<Rightarrow> update_inputs \<Rightarrow> update_proof \<Rightarrow> bool res" where
  "update_verify U pp pi pr =
     ensure (ui_k pi < up_partition_count pp) ''partition-index `k` exceeds partition-count for sector-size''
     (ensure (ui_h pi \<in> set (hs (up_sector_nodes pp))) ''invalid `h` for sector-size''
     (ensure (length (uf_apex_leafs pr) = up_apex_leaf_count pp) ''invalid number of apex-leafs''
     (ensure (length (uf_challenge_proofs pr) = up_challenge_count pp) ''invalid number of challenge proofs''
     (bindR (apex_tree (ue_sha256 U) (up_apex_leaf_bit_len pp) (uf_apex_leafs pr)) (\<lambda>rows.
      bindR (usub (up_challenge_bit_len pp) (up_partition_bit_len pp)) (\<lambda>m.
      bindR (usub m (up_apex_leaf_bit_len pp)) (\<lambda>apex_leafs_height.
      bindR (at_index (uf_challenge_proofs pr) 0) (\<lambda>cp0.
      let root_r_old = mp_root (cf_proof_r_old cp0); root_r_new = mp_root (cf_proof_r_new cp0);
          hash2 = pq_hash2 (de_prims (ue_drg U))
      in if hash2 (uf_comm_c pr) root_r_old \<noteq> ui_comm_r_old pi \<or> hash2 (uf_comm_c pr) root_r_new \<noteq> ui_comm_r_new pi then Inr False
         else bindR (update_phi (ue_randomness U) (ui_comm_d_new pi) (ui_comm_r_old pi)) (\<lambda>phi.
              bindR (update_challenges_new (ue_randomness U) (up_sector_nodes pp) (ui_comm_r_new pi) (ui_k pi)) (\<lambda>s.
              bindR (collect_challenges (ue_randomness U) s) (\<lambda>challenges.
              bindR (usub (up_challenge_bit_len pp) (ui_h pi)) (\<lambda>get_high_bits_shr.
              bindR (collectR (verify_challenge_proof U pp pi phi get_high_bits_shr apex_leafs_height rows root_r_old root_r_new)
                (zip challenges (uf_challenge_proofs pr))) (\<lambda>vs.
              Inr (list_all id vs))))))))))))))"

fun verify_partitions :: "('f::field, 't, 'p) update_env \<Rightarrow> update_params \<Rightarrow> update_inputs \<Rightarrow> (nat \<times> update_proof) list \<Rightarrow> bool res" where
  "verify_partitions U pp pi [] = Inr True"
| "verify_partitions U pp pi ((k, pr) # rest) =
     bindR (update_with_partition pi (Some k)) (\<lambda>pi'. bindR (update_verify U pp pi' pr) (\<lambda>ok.
     if \<not> ok then Inr False else verify_partitions U pp pi rest))"

definition update_verify_all :: "('f::field, 't, 'p) update_env \<Rightarrow> update_params \<Rightarrow> update_inputs \<Rightarrow> update_proof list \<Rightarrow> bool res" where
  "update_verify_all U pp pi proofs =
     ensure (length proofs = up_partition_count pp) ''invalid number of partition proofs''
       (verify_partitions U pp pi (enumerate 0 proofs))"

section \<open>The loops over blocks\<close>

lemma write_nodes_ok:
  assumes "length out = 32 * m" and "\<And>i. i < m \<Longrightarrow> f (ci + i * 32) = Inr (g i) \<and> length (g i) = 32" and "a \<le> m"
  shows "write_nodes f ci (map (\<lambda>i. i * 32) [a..<m]) out = Inr (take (a * 32) out @ concat (map g [a..<m]))"
  using assms(1,3)
proof (induction "m - a" arbitrary: a out)
  case (Suc j)
  then have a: "a < m" by simp
  then have u: "[a..<m] = a # [Suc a..<m]" by (rule upt_conv_Cons)
  let ?out = "take (a * 32) out @ g a @ drop (a * 32 + 32) out"
  have g: "f (ci + a * 32) = Inr (g a)" "length (g a) = 32" using assms(2) [OF a] by simp_all
  have le: "a * 32 + 32 \<le> length out" using Suc.prems(1) a by simp
  then have s: "is_ok (slice out (a * 32) (a * 32 + FR_SIZE))" by (simp add: slice_def FR_SIZE_def)
  have l: "length ?out = 32 * m" using g le Suc.prems(1) by simp
  have t: "take (Suc a * 32) ?out = take (a * 32) out @ g a" using g le by simp
  have j: "j = m - Suc a" "Suc a \<le> m" using Suc.hyps(2) a by simp_all
  have "write_nodes f ci (map (\<lambda>i. i * 32) [Suc a..<m]) ?out = Inr (take (Suc a * 32) ?out @ concat (map g [Suc a..<m]))"
    by (rule Suc.hyps(1) [OF j(1) l j(2)])
  then show ?case using g s unfolding u t by (auto simp: is_ok_iff FR_SIZE_def)
qed simp

lemma step_by_nodes: "step_by (m * 32) FR_SIZE = map (\<lambda>i. i * 32) [0..<m]"
proof -
  have "(m * 32 + 31) div 32 = m" by simp
  then show ?thesis by (simp add: step_by_def FR_SIZE_def)
qed

lemma write_blocks_ok:
  assumes m: "0 < m" and out: "length out = 32 * (q * m)" and e: "32 * (q * m) \<le> end'"
    and f: "\<And>i. i < q * m \<Longrightarrow> f (i * 32) = Inr (g i) \<and> length (g i) = 32"
  shows "write_blocks f (m * 32) end' out = Inr (concat (map g [0..<q * m]))"
proof -
  let ?s = "step_by end' (m * 32)" and ?c = "chunks (m * 32) out"
  have c: "length ?c = q" using chunks_length [of "m * 32" out q] m out by (simp add: mult.commute mult.left_commute)
  have "q * (m * 32) \<le> end' + m * 32 - 1" using e m by (simp add: mult.commute mult.left_commute)
  then have s: "q \<le> length ?s" using m by (simp add: step_by_def less_eq_div_iff_mult_less_eq)
  have z: "zip ?s ?c = map (\<lambda>j. (j * (m * 32), ?c ! j)) [0..<q]"
    using c s by (intro nth_equalityI) (simp_all add: step_by_def)
  have b: "write_nodes f (j * (m * 32)) (map (\<lambda>i. i * 32) [0..<m]) (?c ! j) = Inr (concat (map (\<lambda>i. g (j * m + i)) [0..<m]))"
    if j: "j < q" for j
  proof -
    have "j * m + i < q * m" if "i < m" for i
    proof -
      have "j * m + i < Suc j * m" using that by simp
      also have "\<dots> \<le> q * m" using j by (intro mult_le_mono1) simp
      finally show ?thesis .
    qed
    then have fi: "f (j * (m * 32) + i * 32) = Inr (g (j * m + i)) \<and> length (g (j * m + i)) = 32" if "i < m" for i
      using f [of "j * m + i"] that by (simp add: algebra_simps)
    have "length (?c ! j) = 32 * m" using in_chunks_length [of "m * 32" out q "?c ! j"] m out c j by (simp add: mult.commute mult.left_commute)
    from write_nodes_ok [OF this, of f "j * (m * 32)" "\<lambda>i. g (j * m + i)" 0] show ?thesis using fi by simp
  qed
  have "collectR (\<lambda>(chunk_index, out_chunk). write_nodes f chunk_index (step_by (m * 32) FR_SIZE) out_chunk) (zip ?s ?c) =
      Inr (map (\<lambda>j. concat (map (\<lambda>i. g (j * m + i)) [0..<m])) [0..<q])"
    unfolding z step_by_nodes collectR_map using b by (intro collectR_all_ok) simp
  moreover have "concat (map (\<lambda>j. concat (map (\<lambda>i. g (j * m + i)) [0..<m])) [0..<q]) = concat (map g [0..<q * m])"
  proof -
    have c2: "concat (concat xss) = concat (map concat xss)" for xss :: "u8 list list list" by (induction xss) simp_all
    show ?thesis
      unfolding concat_grid [of g m q, symmetric] c2 by (simp add: comp_def)
  qed
  ultimately show ?thesis using m s c by (simp add: write_blocks_def)
qed

section \<open>Multipliers and nodes\<close>

text \<open>The multiplier of a node: it depends on the high bits of the index of the node.\<close>

definition node_rho :: "'f::field randomness \<Rightarrow> 'f \<Rightarrow> nat \<Rightarrow> nat \<Rightarrow> 'f" where
  "node_rho R x bits_shr i = rn_hash R [x, of_nat (unat (of_nat (i div 2 ^ bits_shr) :: u32))]"

lemma high_range_ok: "0 < n \<Longrightarrow> calc_high_range 0 n s = Inr [0..<Suc ((n - 1) div 2 ^ s)]"
  by (simp add: calc_high_range_def usub_def)

lemma map_of_range: "i < n \<Longrightarrow> map_of (map (\<lambda>i. (i, f i)) [0..<n]) i = Some (f i)"
  by (simp add: map_of_map_restrict)

lemma rhos_ok:
  assumes x: "into_fr (rn_prims R) phi = Inr x" and h: "h \<le> b" and n: "n = 2 ^ b"
  obtains r where "rhos_new R phi h n = Inr r" "\<And>i. i < n \<Longrightarrow> rhos_get r i = Inr (node_rho R x (b - h) i)"
proof -
  let ?rho = "\<lambda>high. rn_hash R [x, of_nat (unat (of_nat high :: u32))]" let ?N = "Suc ((n - 1) div 2 ^ (b - h))"
  let ?r = "\<lparr>rh_rhos = map_of (map (\<lambda>high. (high, ?rho high)) [0..<?N]), rh_bits_shr = b - h\<rparr>"
  have "collectR (\<lambda>high. bindR (update_rho R phi (of_nat high)) (\<lambda>r. Inr (high, r))) [0..<?N] = Inr (map (\<lambda>high. (high, ?rho high)) [0..<?N])"
    using x by (intro collectR_all_ok) (simp add: update_rho_def)
  then have "rhos_new R phi h n = Inr ?r"
    using h n by (simp add: rhos_new_def rhos_new_range_def calc_bits_shr_def usub_def high_range_ok del: upt_Suc)
  moreover have "rhos_get ?r i = Inr (node_rho R x (b - h) i)" if "i < n" for i
  proof -
    have "i div 2 ^ (b - h) < ?N" using that by (simp add: less_Suc_eq_le div_le_mono)
    then show ?thesis by (simp add: rhos_get_def node_rho_def map_of_range del: upt_Suc)
  qed
  ultimately show thesis by (rule that)
qed

lemma rhos_inv_ok:
  assumes x: "into_fr (rn_prims R) phi = Inr x" and h: "h \<le> b" and n: "n = 2 ^ b" and nz: "\<And>i. i < n \<Longrightarrow> node_rho R x (b - h) i \<noteq> 0"
  obtains r where "rhos_new_inv R phi h n = Inr r" "\<And>i. i < n \<Longrightarrow> rhos_get r i = Inr (inverse (node_rho R x (b - h) i))"
proof -
  let ?rho = "\<lambda>high. rn_hash R [x, of_nat (unat (of_nat high :: u32))]" let ?N = "Suc ((n - 1) div 2 ^ (b - h))"
  let ?r = "\<lparr>rh_rhos = map_of (map (\<lambda>high. (high, inverse (?rho high))) [0..<?N]), rh_bits_shr = b - h\<rparr>"
  have "collectR (\<lambda>high. bindR (update_rho R phi (of_nat high)) (\<lambda>r.
      if r = 0 then Inl (Panic ''rho inversion should not fail'') else Inr (high, inverse r))) [0..<?N] =
      Inr (map (\<lambda>high. (high, inverse (?rho high))) [0..<?N])"
  proof (intro collectR_all_ok)
    fix high assume "high \<in> set [0..<?N]"
    then have "high \<le> (n - 1) div 2 ^ (b - h)" by auto
    then have "high * 2 ^ (b - h) \<le> n - 1" by (simp add: less_eq_div_iff_mult_less_eq)
    moreover have "0 < n" using n by simp
    ultimately have "?rho high \<noteq> 0" using nz [of "high * 2 ^ (b - h)"] by (simp add: node_rho_def)
    then show "bindR (update_rho R phi (of_nat high)) (\<lambda>r. if r = 0 then Inl (Panic ''rho inversion should not fail'') else Inr (high, inverse r)) =
        Inr (high, inverse (?rho high))" using x by (simp add: update_rho_def)
  qed
  then have "rhos_new_inv R phi h n = Inr ?r"
    using h n by (simp add: rhos_new_inv_def rhos_new_inv_range_def calc_bits_shr_def usub_def high_range_ok del: upt_Suc)
  moreover have "rhos_get ?r i = Inr (inverse (node_rho R x (b - h) i))" if "i < n" for i
  proof -
    have "i div 2 ^ (b - h) < ?N" using that by (simp add: less_Suc_eq_le div_le_mono)
    then show ?thesis by (simp add: rhos_get_def node_rho_def map_of_range del: upt_Suc)
  qed
  ultimately show thesis by (rule that)
qed

text \<open>Nodes that are the bytes of field elements, in the only representation.\<close>

definition canonical_nodes :: "'f porep_prims \<Rightarrow> nat \<Rightarrow> u8 list list \<Rightarrow> bool" where
  "canonical_nodes P n nodes \<longleftrightarrow> length nodes = n \<and> (\<forall>x\<in>set nodes. as_safe_commitment P x = Inr x)"

lemma canonical_fr: "as_safe_commitment P x = Inr x \<Longrightarrow> length x = 32 \<and> into_fr P x = Inr (fr_of P x) \<and>
    bytes_into_fr P x = Inr (fr_of P x) \<and> pq_of_fr P (fr_of P x) = x"
  by (auto simp: as_safe_commitment_def bytes_into_fr_def into_fr_def fr_of_def bindR_eq_Inr ensure_def split: if_splits option.splits)

lemma of_fr_canonical: "fr_ok P \<Longrightarrow> as_safe_commitment P (pq_of_fr P v) = Inr (pq_of_fr P v) \<and> fr_of P (pq_of_fr P v) = v"
  by (simp add: safe_commitment fr_of_def fr_ok_def)

lemma canonical_nodes_ok: "canonical_nodes P n nodes \<Longrightarrow> nodes_ok n nodes"
  using canonical_fr by (fastforce simp: canonical_nodes_def nodes_ok_def)

lemma fr_at_ok:
  assumes "canonical_nodes P n nodes" and "i < n"
  shows "fr_at P (concat nodes) (i * 32) = Inr (fr_of P (nodes ! i))"
proof -
  have w: "\<forall>x\<in>set nodes. length x = 32" "length nodes = n" using canonical_nodes_ok [OF assms(1)] by (simp_all add: nodes_ok_def)
  have "drop (i * 32) (concat nodes) = concat (drop i nodes)" using take_drop_concat [OF w(1), of i] by simp
  also have "\<dots> = nodes ! i @ concat (drop (Suc i) nodes)" using assms(2) w(2) by (subst Cons_nth_drop_Suc [symmetric]) simp_all
  finally have d: "drop (i * 32) (concat nodes) = nodes ! i @ concat (drop (Suc i) nodes)" .
  have l: "length (nodes ! i) = 32" "length (concat nodes) = n * 32" using w assms(2) length_concat_nodes [OF w(1)] by simp_all
  have "i * 32 + 32 \<le> n * 32" using assms(2) by simp
  then have "slice (concat nodes) (i * 32) (i * 32 + FR_SIZE) = Inr (nodes ! i)" using d l by (simp add: slice_def FR_SIZE_def)
  then show ?thesis using canonical_fr [of P "nodes ! i"] assms w(2) by (simp add: fr_at_def canonical_nodes_def)
qed

definition encoded_node :: "'f::field porep_prims \<Rightarrow> (nat \<Rightarrow> 'f) \<Rightarrow> u8 list list \<Rightarrow> u8 list list \<Rightarrow> nat \<Rightarrow> u8 list" where
  "encoded_node P rho keys data i = pq_of_fr P (fr_of P (keys ! i) + fr_of P (data ! i) * rho i)"

definition encoded_nodes :: "'f::field porep_prims \<Rightarrow> (nat \<Rightarrow> 'f) \<Rightarrow> u8 list list \<Rightarrow> u8 list list \<Rightarrow> u8 list list" where
  "encoded_nodes P rho keys data = map (encoded_node P rho keys data) [0..<length keys]"

lemma encoded_canonical: "fr_ok P \<Longrightarrow> length keys = n \<Longrightarrow> canonical_nodes P n (encoded_nodes P rho keys data)"
  using of_fr_canonical [of P] by (auto simp: canonical_nodes_def encoded_nodes_def encoded_node_def)

lemma node_loops:
  assumes P: "fr_ok P" and K: "canonical_nodes P n keys" and D: "canonical_nodes P n data" and i: "i < n"
  shows "rhos_get rhos i = Inr (rho i) \<Longrightarrow> encode_node P rhos (concat keys) (concat data) (i * 32) = Inr (encoded_node P rho keys data i)"
    and "rhos_get rho_invs i = Inr (inverse (rho i)) \<Longrightarrow> rho i \<noteq> 0 \<Longrightarrow> decode_node P rho_invs (concat keys) (concat (encoded_nodes P rho keys data)) (i * 32) = Inr (data ! i)"
    and "rhos_get rhos i = Inr (rho i) \<Longrightarrow> remove_node P rhos (concat data) (concat (encoded_nodes P rho keys data)) (i * 32) = Inr (keys ! i)"
proof -
  have l: "length keys = n" using K by (simp add: canonical_nodes_def)
  have e: "fr_of P (encoded_nodes P rho keys data ! i) = fr_of P (keys ! i) + fr_of P (data ! i) * rho i"
    using i l of_fr_canonical [OF P] by (simp add: encoded_nodes_def encoded_node_def)
  note f = fr_at_ok [OF K i] fr_at_ok [OF D i] fr_at_ok [OF encoded_canonical [OF P l] i]
  have c: "pq_of_fr P (fr_of P (keys ! i)) = keys ! i" "pq_of_fr P (fr_of P (data ! i)) = data ! i"
    using K D i by (auto simp: canonical_nodes_def canonical_fr)
  show "encode_node P rhos (concat keys) (concat data) (i * 32) = Inr (encoded_node P rho keys data i)"
    if "rhos_get rhos i = Inr (rho i)" using that f by (simp add: encode_node_def encoded_node_def FR_SIZE_def)
  show "decode_node P rho_invs (concat keys) (concat (encoded_nodes P rho keys data)) (i * 32) = Inr (data ! i)"
    if "rhos_get rho_invs i = Inr (inverse (rho i))" "rho i \<noteq> 0" using that f c e by (simp add: decode_node_def FR_SIZE_def mult.assoc)
  show "remove_node P rhos (concat data) (concat (encoded_nodes P rho keys data)) (i * 32) = Inr (keys ! i)"
    if "rhos_get rhos i = Inr (rho i)" using that f c e by (simp add: remove_node_def FR_SIZE_def)
qed

section \<open>Encoding\<close>

text \<open>
  The setting: trees and primitives as in replication, over the same field as the randomness; the data tree
  is one of \<open>Sha256Hasher\<close>; a store made from a slice holds it; \<open>hash2\<close> gives field elements.
\<close>

definition update_ok :: "('f::field, 't, 'p) update_env \<Rightarrow> nat \<Rightarrow> nat \<Rightarrow> nat \<Rightarrow> bool" where
  "update_ok U n k kd \<longleftrightarrow> drg_ok (ue_drg U) n k kd \<and> rn_prims (ue_randomness U) = de_prims (ue_drg U) \<and>
     randomness_ok (ue_randomness U) \<and> de_hash_d (ue_drg U) = sha256_multi_node (ue_sha256 U) \<and> (\<forall>xs. length (ue_sha256 U xs) = 32) \<and>
     (\<forall>n data. length data = 32 * n \<longrightarrow> ue_new_from_slice U n data = Inr data) \<and>
     (\<forall>a b. is_ok (into_fr (de_prims (ue_drg U)) (pq_hash2 (de_prims (ue_drg U)) a b)))"

lemma trimmed_into_fr: "fr_ok P \<Longrightarrow> length h = 32 \<Longrightarrow> is_ok (into_fr P (trim_to_fr32 h))"
proof -
  assume P: "fr_ok P" and h: "length h = 32"
  have "x AND 0x3f < (0x40 :: u8)" for x
    using word_and_le1 [of x "0x3f"] by (rule le_less_trans) simp
  then show ?thesis using into_fr_ok [OF P, of "trim_to_fr32 h"] h by (simp add: trim_to_fr32_def)
qed

lemma subtree_root_into_fr:
  "\<lbrakk>fr_ok P; \<And>xs. length (digest xs) = 32; length xs = 2 ^ k; \<forall>x\<in>set xs. is_ok (into_fr P x)\<rbrakk> \<Longrightarrow>
    is_ok (into_fr P (subtree_root digest k xs))"
  by (cases k; cases xs) (simp_all add: piece_hash_def sha256_function_hash_def trimmed_into_fr)

lemma data_root:
  assumes "update_ok U n k kd" and t: "tree_of (de_tree_d (ue_drg U)) (de_hash_d (ue_drg U)) binary_arities kd False nodes td"
    and N: "canonical_nodes (de_prims (ue_drg U)) n nodes"
  shows "tree_root_of (de_tree_d (ue_drg U)) td = subtree_root (ue_sha256 U) kd nodes"
    and "is_ok (into_fr (de_prims (ue_drg U)) (subtree_root (ue_sha256 U) kd nodes))"
proof -
  have u: "de_hash_d (ue_drg U) = sha256_multi_node (ue_sha256 U)" "n = 2 ^ kd" "fr_ok (de_prims (ue_drg U))" "\<And>xs. length (ue_sha256 U xs) = 32"
    using assms(1) by (simp_all add: update_ok_def drg_ok_def)
  have l: "length nodes = 2 ^ kd" using N u(2) by (simp add: canonical_nodes_def)
  show "tree_root_of (de_tree_d (ue_drg U)) td = subtree_root (ue_sha256 U) kd nodes"
    using t comm_root [OF l, of "ue_sha256 U"] by (simp add: tree_of_def u(1))
  have "\<forall>x\<in>set nodes. is_ok (into_fr (de_prims (ue_drg U)) x)"
    using N canonical_fr [of "de_prims (ue_drg U)"] by (fastforce simp: canonical_nodes_def)
  then show "is_ok (into_fr (de_prims (ue_drg U)) (subtree_root (ue_sha256 U) kd nodes))"
    by (rule subtree_root_into_fr [OF u(3,4) l])
qed

lemma tree_d_ok:
  assumes D: "drg_ok X n k kd" and N: "nodes_ok n nodes"
  obtains s td where "create_base_merkle_tree (de_tree_d X) binary_arities c n (concat nodes) d = Inr (d(Data_File (sc_id c) \<mapsto> s), td)"
    "from_par_iter_with_config (de_tree_d X) binary_arities c nodes = Inr (s, td)"
    "tree_of (de_tree_d X) (de_hash_d X) binary_arities kd False nodes td"
proof -
  obtain len where C: "crate_ok (de_tree_d X) (de_hash_d X) binary_arities kd len" and n: "n = 2 ^ kd" using D by (auto simp: drg_ok_def)
  have b: "base_arity binary_arities = 2" "sub_tree_arity binary_arities = 0" "base_only binary_arities = binary_arities"
    by (simp_all add: binary_arities_def base_only_def)
  have N': "nodes_ok (base_arity binary_arities ^ kd) nodes" using N n b by simp
  obtain s td where st: "from_par_iter_with_config (de_tree_d X) binary_arities c nodes = Inr (s, td)"
    using crate_okD(5) [OF C N', of c] b by (auto simp: is_ok_iff)
  have l: "length (concat nodes) = NODE_SIZE * n" using N length_concat_nodes [of nodes 32] by (auto simp: nodes_ok_def NODE_SIZE_def)
  have "collectR (\<lambda>i. expectR ''data_at_node math failed'' (data_at_node (concat nodes) i)) [0..<n] = Inr (map ((!) nodes) [0..<n])"
    using data_at_concat [OF N] by (intro collectR_all_ok) simp
  also have "map ((!) nodes) [0..<n] = nodes" using N map_nth [of nodes] by (simp add: nodes_ok_def)
  finally have "create_base_merkle_tree (de_tree_d X) binary_arities c n (concat nodes) d = Inr (d(Data_File (sc_id c) \<mapsto> s), td)"
    using st l crate_okD(1) [OF C] n b by (simp add: create_base_merkle_tree_def)
  moreover have "tree_of (de_tree_d X) (de_hash_d X) binary_arities kd False nodes td"
    using crate_okD(7) [OF C b(2) N', of c s td] st unfolding b(3) by blast
  ultimately show thesis using st by (intro that)
qed

text \<open>Blocks divide the sector: both are powers of two.\<close>

lemma dvd_two_power: "m dvd (2::nat) ^ k \<Longrightarrow> \<exists>e\<le>k. m = 2 ^ e"
proof (induction k arbitrary: m)
  case (Suc k)
  show ?case
  proof (cases "even m")
    case True
    then obtain m' where m: "m = 2 * m'" by (auto elim: evenE)
    then have "m' dvd 2 ^ k" using Suc.prems by simp
    then obtain e where "e \<le> k" "m' = 2 ^ e" using Suc.IH by blast
    then show ?thesis using m by (intro exI [of _ "Suc e"]) simp
  next
    case False
    then have "m dvd 2 ^ k" using Suc.prems by (simp add: coprime_dvd_mult_right_iff)
    then obtain e where "e \<le> k" "m = 2 ^ e" using Suc.IH by blast
    then show ?thesis by (intro exI [of _ e]) simp
  qed
qed simp

lemma block_divides:
  assumes "n = 2 ^ kd" and "n = m * c"
  obtains q where "0 < min m CHUNK_SIZE_MIN" "n = q * min m CHUNK_SIZE_MIN"
proof -
  have "m dvd 2 ^ kd" unfolding assms(1) [symmetric] assms(2) by simp
  then obtain e where e: "m = 2 ^ e" "e \<le> kd" using dvd_two_power by blast
  have c: "CHUNK_SIZE_MIN = 2 ^ 12" by (simp add: CHUNK_SIZE_MIN_def)
  have "min m CHUNK_SIZE_MIN = 2 ^ min e 12" proof -
    have "(2::nat) ^ e \<le> 2 ^ 12 \<longleftrightarrow> e \<le> 12" by (rule power_increasing_iff) simp
    then show ?thesis unfolding c e(1) min_def by (cases "e \<le> 12") (simp_all only: if_True if_False)
  qed
  moreover have "(2::nat) ^ min e 12 dvd 2 ^ kd" using e(2) by (intro le_imp_power_dvd) simp
  then obtain q where "(2::nat) ^ kd = 2 ^ min e 12 * q" by (auto simp: dvd_def)
  ultimately show thesis using assms(1) by (intro that [of q]) (simp_all add: mult.commute)
qed

lemma update_phi_ok:
  assumes "update_ok U n k kd" and "canonical_nodes (de_prims (ue_drg U)) n data"
  obtains phi x where "update_phi (ue_randomness U) (subtree_root (ue_sha256 U) kd data) (pq_hash2 (de_prims (ue_drg U)) a b) = Inr phi"
    "into_fr (rn_prims (ue_randomness U)) phi = Inr x"
proof -
  let ?P = "de_prims (ue_drg U)"
  have U: "rn_prims (ue_randomness U) = ?P" "fr_ok ?P" "is_ok (into_fr ?P (pq_hash2 ?P a b))" "n = 2 ^ kd" "\<And>xs. length (ue_sha256 U xs) = 32"
    using assms(1) by (simp_all add: update_ok_def drg_ok_def)
  have "\<forall>x\<in>set data. is_ok (into_fr ?P x)" using assms(2) canonical_fr [of ?P] by (fastforce simp: canonical_nodes_def)
  then have "is_ok (into_fr ?P (subtree_root (ue_sha256 U) kd data))"
    using assms(2) U(4) by (intro subtree_root_into_fr [OF U(2,5)]) (simp_all add: canonical_nodes_def)
  then show thesis using U(1,3) that into_of_fr [OF U(2)] by (auto simp: update_phi_def is_ok_iff)
qed

lemma encode_into_ok:
  assumes U: "update_ok U n k kd" and K: "canonical_nodes (de_prims (ue_drg U)) n keys" and N: "canonical_nodes (de_prims (ue_drg U)) n data"
    and h: "h \<le> kd" and out: "length out = 32 * n"
    and C: "crate_ok (de_tree (ue_drg U)) (pq_tree_hash (de_prims (ue_drg U))) (de_arities (ue_drg U)) k len" and sc: "sc_size cR = Some len"
    and id: "Data_File (sc_id cD) \<notin> ids_of (split_config cR (tree_count (de_arities (ue_drg U))))"
    and phi: "update_phi (ue_randomness U) (subtree_root (ue_sha256 U) kd data) (pq_hash2 (de_prims (ue_drg U)) root r_old) = Inr phi"
      "into_fr (rn_prims (ue_randomness U)) phi = Inr x"
    and new: "new = encoded_nodes (de_prims (ue_drg U)) (node_rho (ue_randomness U) x (kd - h)) keys data"
  obtains s td t d2 where
    "encode_into U n cD cR root r_old (Some out) (Some (concat keys)) (Some (concat data)) h d =
       Inr (concat new, d2, pq_hash2 (de_prims (ue_drg U)) root (tree_root_of (de_tree (ue_drg U)) t), tree_root_of (de_tree (ue_drg U)) t,
            subtree_root (ue_sha256 U) kd data)"
    "tree_of (de_tree (ue_drg U)) (pq_tree_hash (de_prims (ue_drg U))) (de_arities (ue_drg U)) k True new t"
    "from_par_iter_with_config (de_tree_d (ue_drg U)) binary_arities cD data = Inr (s, td)" "file_of cD d2 = Some s"
    "create_lc_tree (de_tree (ue_drg U)) (de_arities (ue_drg U)) len (split_config cR (tree_count (de_arities (ue_drg U))))
       (snd (split_config_and_replica cR (concat new) (base_arity (de_arities (ue_drg U)) ^ k) (tree_count (de_arities (ue_drg U))))) d2 = Inr t"
proof -
  let ?X = "ue_drg U" and ?R = "ue_randomness U" let ?P = "de_prims ?X" and ?T = "de_tree ?X" and ?A = "de_arities ?X" let ?c = "tree_count ?A"
  define m where "m = base_arity ?A ^ k"
  have D1: "drg_ok ?X n k kd" "\<And>data. length data = 32 * n \<Longrightarrow> ue_new_from_slice U n data = Inr data" using U by (simp_all add: update_ok_def)
  have D: "drg_ok ?X n k kd" "store_ok ?T" "fr_ok ?P" "arities_ok ?A" "n = m * ?c" "n = 2 ^ kd"
      "\<And>data. length data = 32 * n \<Longrightarrow> ue_new_from_slice U n data = Inr data"
    using D1 by (simp_all add: drg_ok_def m_def)
  have cm: "?c * m = n" "0 < ?c" "udiv n ?c = Inr m" using D(5) tree_count_pos [of ?A] by (simp_all add: udiv_def)
  note nk = canonical_nodes_ok [OF K] canonical_nodes_ok [OF N]
  have l: "length (concat keys) = 32 * n" "length (concat data) = 32 * n"
    using nk length_concat_nodes [of keys 32] length_concat_nodes [of data 32] by (auto simp: nodes_ok_def)
  obtain s td where td: "create_base_merkle_tree (de_tree_d ?X) binary_arities cD n (concat data) d = Inr (d(Data_File (sc_id cD) \<mapsto> s), td)"
      "from_par_iter_with_config (de_tree_d ?X) binary_arities cD data = Inr (s, td)"
      "tree_of (de_tree_d ?X) (de_hash_d ?X) binary_arities kd False data td" by (rule tree_d_ok [OF D(1) nk(2)])
  note root = data_root(1) [OF U td(3) N]
  obtain rhos where rhos: "rhos_new ?R phi h n = Inr rhos" "\<And>i. i < n \<Longrightarrow> rhos_get rhos i = Inr (node_rho ?R x (kd - h) i)"
    by (rule rhos_ok [OF phi(2) h D(6)]) blast
  have ln: "length keys = n" using K by (simp add: canonical_nodes_def)
  note new_ok = canonical_nodes_ok [OF encoded_canonical [OF D(3) ln], of "node_rho ?R x (kd - h)" data, folded new]
  obtain q where q: "0 < min m CHUNK_SIZE_MIN" "n = q * min m CHUNK_SIZE_MIN" by (rule block_divides [OF D(6,5)])
  have w: "write_blocks (encode_node ?P rhos (concat keys) (concat data)) (block_size m) (length (concat data)) out = Inr (concat new)"
  proof -
    have "encode_node ?P rhos (concat keys) (concat data) (i * 32) = Inr (encoded_node ?P (node_rho ?R x (kd - h)) keys data i) \<and>
        length (encoded_node ?P (node_rho ?R x (kd - h)) keys data i) = 32" if "i < n" for i
      using node_loops(1) [OF D(3) K N that, where rho = "node_rho ?R x (kd - h)"] rhos(2) [OF that] D(3)
      by (simp add: encoded_node_def fr_ok_def)
    then show ?thesis
      using write_blocks_ok [OF q(1), of out q "length (concat data)"] out l(2) q(2) unfolding new encoded_nodes_def ln
      by (simp add: block_size_def FR_SIZE_def)
  qed
  have ln': "length (concat new) = 32 * n" using new_ok length_concat_nodes [of new 32] by (auto simp: nodes_ok_def)
  have at: "node_at (concat new) i = new ! i" if "i < n" for i
    using arg_cong [OF node_at_concat [OF new_ok], of "\<lambda>xs. xs ! i"] that by simp
  have read: "update_prepare_tree_r_data ?X (concat new) [] (i * m) (i * m + m) = Inr ([], map (\<lambda>j. new ! (i * m + j)) [0..<m])"
    if i: "Suc i * m \<le> n" for i
  proof -
    have "read_range ?T (concat new) (i * m) (i * m + m) = Inr (map (node_at (concat new)) [i * m..<i * m + m])"
      using D(2) ln' i by (simp add: store_ok_def add.commute)
    also have "map (node_at (concat new)) [i * m..<i * m + m] = map (\<lambda>j. new ! (i * m + j)) [0..<m]"
      using at i by (intro nth_equalityI) simp_all
    finally show ?thesis by (simp add: update_prepare_tree_r_data_def)
  qed
  have n32: "length (new ! i) = 32" if "i < n" for i using new_ok that by (simp add: nodes_ok_def)
  have nn: "map ((!) new) [0..<n] = new" using new_ok map_nth [of new] by (simp add: nodes_ok_def)
  let ?d = "d(Data_File (sc_id cD) \<mapsto> s)"
  obtain d2 t where g: "generate_tree_r_last_cpu ?X (update_prepare_tree_r_data ?X) (\<lambda>_. concat new) [] m ?c cR (concat new) ?d = Inr ([], d2, t)"
      "tree_of ?T (pq_tree_hash ?P) ?A k True new t"
      "create_lc_tree ?T ?A len (split_config cR ?c) (snd (split_config_and_replica cR (concat new) m ?c)) d2 = Inr t"
      "\<forall>x. x \<notin> ids_of (split_config cR ?c) \<longrightarrow> d2 x = ?d x"
    using generate_tree_r_last_gen [where st = "\<lambda>_. []" and encode_data = "update_prepare_tree_r_data ?X" and source = "concat new" and
        replica_of = "\<lambda>_. concat new" and enc = "(!) new", OF read n32 D(4) C m_def cm(1) [symmetric] sc refl, of ?d]
    unfolding nn by blast
  have "encode_into U n cD cR root r_old (Some out) (Some (concat keys)) (Some (concat data)) h d =
      Inr (concat new, d2, pq_hash2 ?P root (tree_root_of ?T t), tree_root_of ?T t, subtree_root (ue_sha256 U) kd data)"
    using base_tree_count_ok [OF D(4)] cm l out td(1) root phi(1) rhos(1) w D(7) [OF ln'] g(1)
    by (simp add: encode_into_def open_file_def Let_def)
  moreover have "file_of cD d2 = Some s" using g(4) id by (simp add: file_of_def)
  ultimately show thesis using g(2,3) td(2) unfolding m_def by (intro that)
qed

lemma decode_from_ok:
  assumes U: "update_ok U n k kd" and K: "canonical_nodes (de_prims (ue_drg U)) n keys" and N: "canonical_nodes (de_prims (ue_drg U)) n data"
    and h: "h \<le> kd" and out: "length out = 32 * n"
    and phi: "update_phi (ue_randomness U) comm_d (pq_hash2 (de_prims (ue_drg U)) root r_old) = Inr phi"
      "into_fr (rn_prims (ue_randomness U)) phi = Inr x"
    and new: "new = encoded_nodes (de_prims (ue_drg U)) (node_rho (ue_randomness U) x (kd - h)) keys data"
  shows "(\<And>i. i < n \<Longrightarrow> node_rho (ue_randomness U) x (kd - h) i \<noteq> 0) \<Longrightarrow>
      decode_from U n (Some out) (Some (concat new)) (Some (concat keys)) root comm_d r_old h = Inr (concat data)"
    and "recover_sector_key U n (base_arity (de_arities (ue_drg U)) ^ k) (Some out) (Some (concat new)) (Some (concat data)) root comm_d r_old h =
      Inr (concat keys)"
proof -
  let ?X = "ue_drg U" and ?R = "ue_randomness U" let ?P = "de_prims ?X" and ?A = "de_arities ?X" let ?c = "tree_count ?A"
  define m where "m = base_arity ?A ^ k"
  have D1: "drg_ok ?X n k kd" using U by (simp add: update_ok_def)
  then have D: "fr_ok ?P" "arities_ok ?A" "n = m * ?c" "n = 2 ^ kd" by (simp_all add: drg_ok_def m_def)
  have cm: "udiv n ?c = Inr m" using D(3) tree_count_pos [of ?A] by (simp add: udiv_def)
  obtain q where q: "0 < min m CHUNK_SIZE_MIN" "n = q * min m CHUNK_SIZE_MIN" by (rule block_divides [OF D(4,3)])
  have ln: "length keys = n" using K by (simp add: canonical_nodes_def)
  note nk = canonical_nodes_ok [OF K] canonical_nodes_ok [OF N]
    canonical_nodes_ok [OF encoded_canonical [OF D(1) ln], of "node_rho ?R x (kd - h)" data, folded new]
  have l: "length (concat keys) = 32 * n" "length (concat data) = 32 * n" "length (concat new) = 32 * n"
    using nk length_concat_nodes [of keys 32] length_concat_nodes [of data 32] length_concat_nodes [of new 32] by (auto simp: nodes_ok_def)
  have blocks: "write_blocks f (block_size m) (32 * n) out = Inr (concat nodes)"
    if "nodes_ok n nodes" "\<And>i. i < n \<Longrightarrow> f (i * 32) = Inr (nodes ! i)" for f nodes
  proof -
    note f = that
    have "f (i * 32) = Inr (nodes ! i) \<and> length (nodes ! i) = 32" if "i < n" for i
      using f(1) f(2) [OF that] that by (auto simp: nodes_ok_def)
    moreover have "map ((!) nodes) [0..<n] = nodes" using that(1) map_nth [of nodes] by (simp add: nodes_ok_def)
    ultimately show ?thesis using write_blocks_ok [OF q(1), of out q "32 * n" f "(!) nodes"] out q(2) by (simp add: block_size_def FR_SIZE_def)
  qed
  show "decode_from U n (Some out) (Some (concat new)) (Some (concat keys)) root comm_d r_old h = Inr (concat data)"
    if nz: "\<And>i. i < n \<Longrightarrow> node_rho ?R x (kd - h) i \<noteq> 0"
  proof -
    obtain invs where invs: "rhos_new_inv ?R phi h n = Inr invs" "\<And>i. i < n \<Longrightarrow> rhos_get invs i = Inr (inverse (node_rho ?R x (kd - h) i))"
      by (rule rhos_inv_ok [OF phi(2) h D(4) nz]) blast+
    have "write_blocks (decode_node ?P invs (concat keys) (concat new)) (block_size m) (32 * n) out = Inr (concat data)"
      using node_loops(2) [OF D(1) K N] invs(2) nz unfolding new by (intro blocks nk(2)) blast
    then show ?thesis using base_tree_count_ok [OF D(2)] cm l phi(1) invs(1) by (simp add: decode_from_def open_file_def Let_def)
  qed
  obtain rhos where rhos: "rhos_new ?R phi h n = Inr rhos" "\<And>i. i < n \<Longrightarrow> rhos_get rhos i = Inr (node_rho ?R x (kd - h) i)"
    by (rule rhos_ok [OF phi(2) h D(4)]) blast
  have "write_blocks (remove_node ?P rhos (concat data) (concat new)) (block_size m) (32 * n) out = Inr (concat keys)"
    using node_loops(3) [OF D(1) K N] rhos(2) unfolding new by (intro blocks nk(1)) blast
  then show "recover_sector_key U n (base_arity ?A ^ k) (Some out) (Some (concat new)) (Some (concat data)) root comm_d r_old h = Inr (concat keys)"
    using l phi(1) rhos(1) out unfolding m_def by (simp add: recover_sector_key_def open_file_def Let_def)
qed

section \<open>Properties\<close>

text \<open>
  C15. Updating a sector can be undone: for every sector key and all data that are field elements,
  \<open>encode_into\<close> succeeds, whatever was in the output file; the commitments it returns are the data root and the
  hash of the column root and the root of the tree over the new replica; the tree can be opened again from the
  disk and the replica. From the new replica and the key, \<open>decode_from\<close> gives the data back when
  no multiplier is zero, and from the new replica and the data the sector key is recovered.
\<close>
theorem update_roundtrip:
  assumes U: "update_ok U n k kd" and K: "canonical_nodes (de_prims (ue_drg U)) n keys" and N: "canonical_nodes (de_prims (ue_drg U)) n data"
    and h: "h \<le> kd" and out: "length out = 32 * n"
    and C: "crate_ok (de_tree (ue_drg U)) (pq_tree_hash (de_prims (ue_drg U))) (de_arities (ue_drg U)) k len" and sc: "sc_size cR = Some len"
    and id: "Data_File (sc_id cD) \<notin> ids_of (split_config cR (tree_count (de_arities (ue_drg U))))"
  shows "\<exists>phi replica d2 t.
    update_phi (ue_randomness U) (subtree_root (ue_sha256 U) kd data) (pq_hash2 (de_prims (ue_drg U)) root r_old) = Inr phi \<and>
    (let comm_d = subtree_root (ue_sha256 U) kd data; root_r = tree_root_of (de_tree (ue_drg U)) t;
         rho = node_rho (ue_randomness U) (fr_of (de_prims (ue_drg U)) phi) (kd - h) in
     encode_into U n cD cR root r_old (Some out) (Some (concat keys)) (Some (concat data)) h d =
       Inr (replica, d2, pq_hash2 (de_prims (ue_drg U)) root root_r, root_r, comm_d) \<and>
     replica = concat (map (\<lambda>i. pq_of_fr (de_prims (ue_drg U)) (fr_of (de_prims (ue_drg U)) (keys ! i) + fr_of (de_prims (ue_drg U)) (data ! i) * rho i)) [0..<n]) \<and>
     create_lc_tree (de_tree (ue_drg U)) (de_arities (ue_drg U)) len (split_config cR (tree_count (de_arities (ue_drg U))))
       (snd (split_config_and_replica cR replica (base_arity (de_arities (ue_drg U)) ^ k) (tree_count (de_arities (ue_drg U))))) d2 = Inr t \<and>
     ((\<forall>i<n. rho i \<noteq> 0) \<longrightarrow>
       decode_from U n (Some out) (Some replica) (Some (concat keys)) root comm_d r_old h = Inr (concat data)) \<and>
     recover_sector_key U n (base_arity (de_arities (ue_drg U)) ^ k) (Some out) (Some replica) (Some (concat data)) root comm_d r_old h =
       Inr (concat keys))"
proof -
  let ?P = "de_prims (ue_drg U)" and ?R = "ue_randomness U"
  obtain phi x where phi: "update_phi ?R (subtree_root (ue_sha256 U) kd data) (pq_hash2 ?P root r_old) = Inr phi" "into_fr (rn_prims ?R) phi = Inr x"
    by (rule update_phi_ok [OF U N])
  have x: "fr_of ?P phi = x" using phi(2) U by (auto simp: update_ok_def into_fr_def fr_of_def split: option.splits)
  define new where "new = encoded_nodes ?P (node_rho ?R x (kd - h)) keys data"
  have ln: "length keys = n" using K by (simp add: canonical_nodes_def)
  note dec = decode_from_ok [OF U K N h out phi new_def]
  obtain s td t d2 where e: "encode_into U n cD cR root r_old (Some out) (Some (concat keys)) (Some (concat data)) h d =
       Inr (concat new, d2, pq_hash2 ?P root (tree_root_of (de_tree (ue_drg U)) t), tree_root_of (de_tree (ue_drg U)) t, subtree_root (ue_sha256 U) kd data)"
    "create_lc_tree (de_tree (ue_drg U)) (de_arities (ue_drg U)) len (split_config cR (tree_count (de_arities (ue_drg U))))
       (snd (split_config_and_replica cR (concat new) (base_arity (de_arities (ue_drg U)) ^ k) (tree_count (de_arities (ue_drg U))))) d2 = Inr t"
    by (rule encode_into_ok [OF U K N h out C sc id phi new_def, of d]) blast
  show ?thesis
    unfolding Let_def
    by (rule exI [of _ phi], rule exI [of _ "concat new"], rule exI [of _ d2], rule exI [of _ t], unfold x)
      (intro conjI impI, rule phi(1), rule e(1), simp add: new_def encoded_nodes_def encoded_node_def [abs_def] ln,
        rule e(2), rule dec(1), blast, rule dec(2))
qed

definition toy_update :: "(toy_fr, u8 list list, u8 list \<times> u8 list \<times> (u8 list list \<times> nat) list) update_env" where
  "toy_update = \<lparr>ue_drg = toy_api_drg, ue_randomness = \<lparr>rn_prims = toy_api_prims, rn_capacity = 254,
     rn_le_bits = (\<lambda>x. (x = F1) # replicate 254 True), rn_hash = (\<lambda>xs. F1)\<rparr>, ue_sha256 = toy_sum, ue_new_from_slice = (\<lambda>n data. Inr data)\<rparr>"

lemma toy_update_ok: "update_ok toy_update 4 2 2"
proof -
  have "drg_ok toy_api_drg 4 2 2" using toy_api_sealing by (simp add: sealing_def)
  moreover have "into_fr toy_api_prims (toy_of_fr x) = Inr x" for x
    using into_of_fr [OF toy_api_fr, of x] by (simp add: toy_api_prims_def toy_prims_def)
  ultimately show ?thesis
    by (simp add: update_ok_def toy_update_def randomness_ok_def toy_api_drg_def toy_drg_def toy_sum_def is_ok_iff)
      (simp add: toy_api_prims_def toy_prims_def)
qed

theorem update_roundtrip_witness:
  "\<exists>phi replica d2 t comm_d. encode_into toy_update 4 \<lparr>sc_id = ''d'', sc_size = None, sc_rows_to_discard = 0\<rparr>
      \<lparr>sc_id = ''r'', sc_size = Some 7, sc_rows_to_discard = 0\<rparr> (toy_of_fr F1) (toy_of_fr F0) (Some (replicate 128 7))
      (Some (concat (map toy_of_fr [F0, F1, F1, F0]))) (Some (concat toy_data)) 1 (\<lambda>_. None) =
      Inr (replica, d2, pq_hash2 toy_api_prims (toy_of_fr F1) (tree_root_of (de_tree toy_api_drg) t), tree_root_of (de_tree toy_api_drg) t, comm_d) \<and>
    decode_from toy_update 4 (Some (replicate 128 7)) (Some replica) (Some (concat (map toy_of_fr [F0, F1, F1, F0])))
      (toy_of_fr F1) comm_d (toy_of_fr F0) 1 = Inr (concat toy_data) \<and>
    recover_sector_key toy_update 4 4 (Some (replicate 128 7)) (Some replica) (Some (concat toy_data))
      (toy_of_fr F1) comm_d (toy_of_fr F0) 1 = Inr (concat (map toy_of_fr [F0, F1, F1, F0]))"
proof -
  let ?keys = "map toy_of_fr [F0, F1, F1, F0]" and ?cR = "\<lparr>sc_id = ''r'', sc_size = Some 7, sc_rows_to_discard = 0\<rparr>"
    and ?cD = "\<lparr>sc_id = ''d'', sc_size = None, sc_rows_to_discard = 0\<rparr>"
  have P: "de_prims (ue_drg toy_update) = toy_api_prims" "de_tree (ue_drg toy_update) = toy_crate (sha256_multi_node toy_sum) 2"
      "de_arities (ue_drg toy_update) = binary_arities" "de_tree toy_api_drg = toy_crate (sha256_multi_node toy_sum) 2"
    by (simp_all add: toy_update_def toy_api_drg_def toy_drg_def)
  have c: "as_safe_commitment toy_api_prims (toy_of_fr x) = Inr (toy_of_fr x)" for x
    using safe_commitment [OF toy_api_fr, of x] by (simp add: toy_api_prims_def toy_prims_def)
  have K: "canonical_nodes (de_prims (ue_drg toy_update)) 4 ?keys" and N: "canonical_nodes (de_prims (ue_drg toy_update)) 4 toy_data"
    using c by (simp_all add: canonical_nodes_def P toy_data_def)
  have H: "merkle_hash (sha256_multi_node toy_sum)" by (rule sha256_tree.merkle_hash_axioms)
  have "hash_nodes (sha256_multi_node toy_sum)" by (simp add: hash_nodes_def sha256_multi_node_def trim_to_fr32_def toy_sum_def)
  from toy_crate_ok(1) [OF H toy_hash(2) this, of 2]
  have C: "crate_ok (de_tree (ue_drg toy_update)) (pq_tree_hash (de_prims (ue_drg toy_update))) (de_arities (ue_drg toy_update)) 2 7"
    by (simp add: P) (simp add: toy_api_prims_def toy_prims_def)
  have id: "Data_File (sc_id ?cD) \<notin> ids_of (split_config ?cR (tree_count (de_arities (ue_drg toy_update))))"
    by (simp add: P ids_of_def split_config_def tree_count_def binary_arities_def)
  have b: "base_arity binary_arities ^ 2 = 4" by (simp add: binary_arities_def)
  have nz: "node_rho (ue_randomness toy_update) x s i \<noteq> 0" for x s i by (simp add: node_rho_def toy_update_def zero_toy_fr_def)
  have "(1::nat) \<le> 2" "length (replicate 128 (7::u8)) = 32 * 4" "sc_size ?cR = Some 7" by simp_all
  from update_roundtrip [OF toy_update_ok K N this(1,2) C this(3) id, where d = "\<lambda>_. None" and root = "toy_of_fr F1" and r_old = "toy_of_fr F0"]
  show ?thesis using nz unfolding Let_def P b by blast
qed
end
