(* ===== verification/Update_Proofs.thy ===== *)
theory Update_Proofs
  imports Sector_Update Fallback_Post
begin

text \<open>
  The proofs of \<open>storage-proofs-update/src/vanilla.rs\<close> and their verification: what is proved of an honestly
  encoded sector verifies, and what verifies opens the trees of the old and the new replica and of the
  new data at the challenges, with the encoding satisfied there.
\<close>

section \<open>Rows of the data tree\<close>

definition next_row :: "(u8 list \<Rightarrow> u8 list) \<Rightarrow> u8 list list \<Rightarrow> u8 list list" where
  "next_row digest xs = map (\<lambda>i. sha256_hash2 digest (xs ! (2 * i)) (xs ! (2 * i + 1))) [0..<length xs div 2]"

primrec data_row :: "(u8 list \<Rightarrow> u8 list) \<Rightarrow> nat \<Rightarrow> u8 list list \<Rightarrow> u8 list list" where
  "data_row digest 0 xs = xs"
| "data_row digest (Suc j) xs = data_row digest j (next_row digest xs)"

lemma length_next_row [simp]: "length (next_row digest xs) = length xs div 2"
  by (simp add: next_row_def)

lemma length_data_row: "length (data_row digest j xs) = length xs div 2 ^ j"
  by (induction j arbitrary: xs) (simp_all add: div_mult2_eq)

lemma chunks_pairs:
  assumes "length xs = 2 * m"
  shows "chunks 2 xs = map (\<lambda>i. [xs ! (2 * i), xs ! (2 * i + 1)]) [0..<m]"
proof (rule nth_equalityI)
  show l: "length (chunks 2 xs) = length (map (\<lambda>i. [xs ! (2 * i), xs ! (2 * i + 1)]) [0..<m])"
    using chunks_length [of 2 xs m] assms by simp
  fix i assume "i < length (chunks 2 xs)"
  then have i: "i < m" using l by simp
  then have "drop (2 * i) xs = xs ! (2 * i) # xs ! (2 * i + 1) # drop (2 * i + 2) xs"
    using assms by (simp add: Cons_nth_drop_Suc)
  then show "chunks 2 xs ! i = map (\<lambda>i. [xs ! (2 * i), xs ! (2 * i + 1)]) [0..<m] ! i"
    using chunks_nth [of 2 xs m i] assms i by (simp add: mult.commute)
qed

lemma hash_row: "length xs = 2 * m \<Longrightarrow> collectR (\<lambda>c. sha256_multi_node digest c h) (chunks 2 xs) = Inr (next_row digest xs)"
  by (simp add: chunks_pairs collectR_map comp_def sha256_multi_node_def next_row_def sha256_hash2_def)

lemma apex_row_hash: "length xs = 2 * m \<Longrightarrow> apex_row digest xs = Inr (next_row digest xs)"
  by (simp add: apex_row_def chunks_pairs collectR_map comp_def at_index_def next_row_def)

lemma apex_tree_rows: "length xs = 2 ^ n \<Longrightarrow> apex_tree digest n xs = Inr (map (\<lambda>l. data_row digest l xs) [0..<Suc n])"
proof (induction n arbitrary: xs)
  case (Suc n)
  have "map (\<lambda>l. data_row digest l xs) [0..<Suc (Suc n)] = xs # map (\<lambda>l. data_row digest l (next_row digest xs)) [0..<Suc n]"
    by (subst upt_conv_Cons) (simp_all add: map_Suc_upt [symmetric] comp_def del: upt_Suc)
  then show ?case using Suc.IH [of "next_row digest xs"] Suc.prems apex_row_hash [of xs "2 ^ n"] by (simp del: upt_Suc)
qed simp

lemma next_row_slice:
  assumes "(k + 1) * (2 * m) \<le> length xs"
  shows "next_row digest (take (2 * m) (drop (k * (2 * m)) xs)) = take m (drop (k * m) (next_row digest xs))"
proof (rule nth_equalityI)
  have l: "2 * (k * m) + 2 * m \<le> length xs" using assms by (simp add: algebra_simps)
  then show "length (next_row digest (take (2 * m) (drop (k * (2 * m)) xs))) = length (take m (drop (k * m) (next_row digest xs)))"
    by (simp add: algebra_simps)
  fix i assume "i < length (next_row digest (take (2 * m) (drop (k * (2 * m)) xs)))"
  then have i: "i < m" by simp
  then have "k * m + i < length xs div 2" using l by linarith
  then show "next_row digest (take (2 * m) (drop (k * (2 * m)) xs)) ! i = take m (drop (k * m) (next_row digest xs)) ! i"
    using i l by (simp add: next_row_def algebra_simps)
qed

text \<open>The rows over a chunk of the leaves are chunks of the rows.\<close>

lemma data_row_slice:
  "l \<le> a \<Longrightarrow> (k + 1) * 2 ^ a \<le> length xs \<Longrightarrow>
    data_row digest l (take (2 ^ a) (drop (k * 2 ^ a) xs)) = take (2 ^ (a - l)) (drop (k * 2 ^ (a - l)) (data_row digest l xs))"
proof (induction l arbitrary: a xs)
  case (Suc l)
  then obtain b where a: "a = Suc b" by (cases a) auto
  have "(k + 1) * 2 ^ b \<le> length (next_row digest xs)" using Suc.prems(2) a by (simp add: less_eq_div_iff_mult_less_eq algebra_simps)
  then show ?case
    using Suc.IH [of b "next_row digest xs"] Suc.prems next_row_slice [of k "2 ^ b" xs digest] by (simp add: a)
qed simp

text \<open>The siblings on the path of a leaf lie in the rows.\<close>

lemma path_siblings:
  "\<lbrakk>honest_path (sha256_multi_node digest) ls xs i = Inr path; \<forall>l\<in>set ls. fst l = 2; length xs = 2 ^ length ls; i < 2 ^ length ls; j < length ls\<rbrakk> \<Longrightarrow>
    j < length path \<and> (\<exists>s. s div 2 = i div 2 ^ Suc j \<and> fst (path ! j) = [data_row digest j xs ! s])"
proof (induction ls arbitrary: xs i path j)
  case (Cons l ls)
  obtain h where l: "l = (2, h)" using Cons.prems(2) by (cases l) auto
  have len: "length xs = 2 * 2 ^ length ls" using Cons.prems(3) by simp
  obtain p where p: "honest_path (sha256_multi_node digest) ls (next_row digest xs) (i div 2) = Inr p"
      "path = (remove_at (i mod 2) (chunks 2 xs ! (i div 2)), i mod 2) # p"
    using Cons.prems(1) hash_row [OF len, of digest h] by (auto simp: l bindR_eq_Inr)
  have i: "i div 2 < 2 ^ length ls" using Cons.prems(4) by auto
  show ?case
  proof (cases j)
    case 0
    have "chunks 2 xs ! (i div 2) = [xs ! (2 * (i div 2)), xs ! (2 * (i div 2) + 1)]" using i by (simp add: chunks_pairs [OF len])
    moreover have "i mod 2 = 0 \<or> i mod 2 = 1" by auto
    ultimately have "\<exists>s. s div 2 = i div 2 \<and> fst (path ! 0) = [xs ! s]"
    proof (elim disjE)
      assume c: "chunks 2 xs ! (i div 2) = [xs ! (2 * (i div 2)), xs ! (2 * (i div 2) + 1)]" and m: "i mod 2 = 0"
      show ?thesis by (rule exI [of _ "2 * (i div 2) + 1"]) (simp add: p(2) c m remove_at_def)
    next
      assume c: "chunks 2 xs ! (i div 2) = [xs ! (2 * (i div 2)), xs ! (2 * (i div 2) + 1)]" and m: "i mod 2 = 1"
      show ?thesis by (rule exI [of _ "2 * (i div 2)"]) (simp add: p(2) c m remove_at_def)
    qed
    then show ?thesis using 0 p(2) by simp
  next
    case (Suc j')
    have "j' < length p \<and> (\<exists>s. s div 2 = (i div 2) div 2 ^ Suc j' \<and> fst (p ! j') = [data_row digest j' (next_row digest xs) ! s])"
      using Cons.IH [OF p(1) _ _ i, of j'] Cons.prems(2,3,5) Suc by simp
    moreover have "(i div 2) div 2 ^ Suc j' = i div 2 ^ Suc j" unfolding Suc power_Suc [of _ "Suc j'"] by (rule div_mult2_eq [symmetric])
    ultimately show ?thesis using Suc p(2) by simp
  qed
qed simp

lemma data_row_add: "data_row digest l (data_row digest h xs) = data_row digest (h + l) xs"
  by (induction h arbitrary: xs) simp_all

lemma nth_in_window: "p \<le> s \<Longrightarrow> s < p + w \<Longrightarrow> p + w \<le> length ys \<Longrightarrow> ys ! s \<in> set (take w (drop p ys))"
  by (auto simp: in_set_conv_nth intro: exI [of _ "s - p"])

text \<open>The siblings on the path of a challenge are in the tree over the apex leaves of its partition.\<close>

lemma sibling_in_apex:
  assumes "s div 2 = i div 2 ^ Suc (ht + l)" and "l < a" and "i div 2 ^ (ht + a) = k" and "length xs = 2 ^ (ht + a) * c" and "k < c"
  shows "data_row digest (ht + l) xs ! s \<in> set (data_row digest l (take (2 ^ a) (drop (k * 2 ^ a) (data_row digest ht xs))))"
proof -
  have len: "length (data_row digest ht xs) = 2 ^ a * c" using assms(4) by (simp add: length_data_row power_add)
  have "(k + 1) * 2 ^ a \<le> c * 2 ^ a" using assms(5) by (intro mult_le_mono1) simp
  then have row: "data_row digest l (take (2 ^ a) (drop (k * 2 ^ a) (data_row digest ht xs))) =
      take (2 ^ (a - l)) (drop (k * 2 ^ (a - l)) (data_row digest (ht + l) xs))"
    using data_row_slice [of l a k "data_row digest ht xs" digest] assms(2) len by (simp add: data_row_add mult.commute)
  obtain b where b: "a = Suc (l + b)" using less_imp_Suc_add [OF assms(2)] by auto
  have "s div 2 ^ Suc b = s div 2 div 2 ^ b" by (simp add: div_mult2_eq)
  also have "\<dots> = k" using assms(1,3) unfolding b by (simp add: div_mult2_eq [symmetric] power_add [symmetric] ac_simps flip: power_Suc)
  finally have s: "s div 2 ^ (a - l) = k" using b by simp
  then have "k * 2 ^ (a - l) \<le> s" "s < k * 2 ^ (a - l) + 2 ^ (a - l)"
    using div_times_less_eq_dividend [of s "2 ^ (a - l)"] dividend_less_div_times [of "2 ^ (a - l)" s] by auto
  moreover have "length (data_row digest (ht + l) xs) = 2 ^ (a - l) * c"
    using assms(2,4) by (simp add: length_data_row b power_add)
  moreover have "k * 2 ^ (a - l) + 2 ^ (a - l) \<le> 2 ^ (a - l) * c"
    using mult_le_mono1 [of "k + 1" c "2 ^ (a - l)"] assms(5) by (simp add: algebra_simps)
  ultimately show ?thesis unfolding row by (intro nth_in_window) simp_all
qed
section \<open>Sizes\<close>

lemma update_sizes:
  assumes "n \<in> set ALLOWED_SECTOR_SIZES"
  obtains kd b a where "n = 2 ^ kd" "partition_count n = 2 ^ b" "apex_leaf_count n = 2 ^ a" "b + a \<le> kd" "kd \<le> 31"
    "0 < challenge_count n" "\<forall>h\<in>set (hs n). h \<le> kd"
proof -
  obtain kd b where s: "n = 2 ^ kd" "partition_count n = 2 ^ b" "b \<le> 4" "b + 5 \<le> kd" "kd \<le> 31" "0 < challenge_count n"
    by (rule allowed_sizes [OF assms])
  have le: "n \<le> 2 ^ e \<longleftrightarrow> kd \<le> e" for e unfolding s(1) by (rule power_increasing_iff) simp
  have one: "(2::nat) ^ b = 2 ^ e \<longleftrightarrow> b = e" for e by (rule power_inject_exp) simp
  have "\<forall>h\<in>set (hs n). h \<le> kd"
  proof (cases "n \<le> 2 ^ 10")
    case False
    then have "18 \<le> kd" using assms le [of 10] s(1) unfolding ALLOWED_SECTOR_SIZES_def sector_sizes by (auto simp del: power_numeral)
    then show ?thesis using False by (simp add: hs_def sector_sizes)
  qed (use s in \<open>simp add: hs_def sector_sizes\<close>)
  note rest = s(5,6) this
  show thesis
  proof (cases "n \<le> 2 ^ 8")
    case True
    then have "b = 0" using s(2) one [of 0] by (simp add: partition_count_def sector_sizes)
    then show ?thesis using that [of kd b 3] True s rest by (simp add: apex_leaf_count_def sector_sizes)
  next
    case False
    have "b + 7 \<le> kd"
    proof (cases "n \<le> 2 ^ 10")
      case True
      then have "b = 1" using False s(2) one [of 1] by (simp add: partition_count_def sector_sizes)
      then show ?thesis using False le [of 8] by simp
    next
      case 2: False
      then show ?thesis using s(3) le [of 10] by simp
    qed
    then show ?thesis using that [of kd b 7] False s rest by (simp add: apex_leaf_count_def sector_sizes)
  qed
qed

lemma from_sector_size_ok:
  assumes "n \<in> set ALLOWED_SECTOR_SIZES"
  shows "from_sector_size (32 * n) = Inr \<lparr>up_sector_nodes = n, up_challenge_count = challenge_count n, up_challenge_bit_len = trailing_zeros n,
    up_partition_count = partition_count n, up_partition_bit_len = trailing_zeros (partition_count n),
    up_apex_leaf_count = apex_leaf_count n, up_apex_leaf_bit_len = trailing_zeros (apex_leaf_count n)\<rparr>"
proof -
  have "find (\<lambda>allowed_nodes. allowed_nodes * 2 ^ 5 = 32 * n) xs = Some n" if "n \<in> set xs" for xs
    using that by (induction xs) auto
  from this [OF assms] show ?thesis by (simp add: from_sector_size_def find_sector_nodes_def)
qed

lemma update_okD: "update_ok U n k kd \<Longrightarrow> drg_ok (ue_drg U) n k kd"
  by (simp add: update_ok_def)

section \<open>Proofs of one challenge\<close>

text \<open>What the types of the three proofs promise.\<close>

definition update_shape_ok :: "('f::field, 't, 'p) update_env \<Rightarrow> nat \<Rightarrow> nat \<Rightarrow> challenge_proof \<Rightarrow> bool" where
  "update_shape_ok U m kd cp \<longleftrightarrow> shape_ok (de_arities (ue_drg U)) m (cf_proof_r_old cp) \<and> shape_ok binary_arities kd (cf_proof_d_new cp) \<and>
     shape_ok (de_arities (ue_drg U)) m (cf_proof_r_new cp)"

definition challenge_opened ::
  "('f::field, 't, 'p) update_env \<Rightarrow> nat \<Rightarrow> u8 list list \<Rightarrow> u8 list list \<Rightarrow> u8 list list \<Rightarrow> u8 list \<Rightarrow> u8 list \<Rightarrow> u8 list \<Rightarrow> nat \<Rightarrow> challenge_proof \<Rightarrow> bool" where
  "challenge_opened U kd keys data new root_old root_d root_new i cp \<longleftrightarrow>
     opens (pq_tree_hash (de_prims (ue_drg U))) (de_arities (ue_drg U)) keys root_old i (cf_proof_r_old cp) \<and>
     opens (de_hash_d (ue_drg U)) binary_arities data root_d i (cf_proof_d_new cp) \<and>
     opens (pq_tree_hash (de_prims (ue_drg U))) (de_arities (ue_drg U)) new root_new i (cf_proof_r_new cp) \<and>
     honest_path (de_hash_d (ue_drg U)) (levels binary_arities kd) data i = Inr (mp_path (cf_proof_d_new cp))"

text \<open>The three trees of an update.\<close>

definition update_trees ::
  "('f::field, 't, 'p) update_env \<Rightarrow> nat \<Rightarrow> nat \<Rightarrow> nat \<Rightarrow> u8 list list \<Rightarrow> u8 list list \<Rightarrow> u8 list list \<Rightarrow> 't \<Rightarrow> 't \<Rightarrow> 't \<Rightarrow> bool" where
  "update_trees U n k kd keys data new told td tnew \<longleftrightarrow>
     nodes_ok n keys \<and> nodes_ok n data \<and> nodes_ok n new \<and>
     tree_of (de_tree (ue_drg U)) (pq_tree_hash (de_prims (ue_drg U))) (de_arities (ue_drg U)) k True keys told \<and>
     tree_of (de_tree_d (ue_drg U)) (de_hash_d (ue_drg U)) binary_arities kd False data td \<and>
     tree_of (de_tree (ue_drg U)) (pq_tree_hash (de_prims (ue_drg U))) (de_arities (ue_drg U)) k True new tnew"

lemma challenge_proof_ok:
  assumes U: "update_ok U n k kd" and t: "update_trees U n k kd keys data new told td tnew" and i: "i < n"
  obtains cp where "update_challenge_proof U rows told td tnew i = Inr cp" "update_shape_ok U k kd cp"
    "challenge_opened U kd keys data new (tree_root_of (de_tree (ue_drg U)) told) (tree_root_of (de_tree_d (ue_drg U)) td)
       (tree_root_of (de_tree (ue_drg U)) tnew) i cp"
proof -
  let ?X = "ue_drg U" let ?T = "de_tree ?X" and ?H = "pq_tree_hash (de_prims ?X)" and ?A = "de_arities ?X"
  have D: "arities_ok ?A" "merkle_hash ?H" "merkle_hash (de_hash_d ?X)" "hash_nodes ?H" "hash_nodes (de_hash_d ?X)"
    using update_okD [OF U] by (simp_all add: drg_ok_def)
  have N: "i < length keys" "i < length data" "i < length new" "\<forall>x\<in>set keys. length x = 32" "\<forall>x\<in>set data. length x = 32" "\<forall>x\<in>set new. length x = 32"
    using t i by (simp_all add: update_trees_def nodes_ok_def)
  have t: "tree_of ?T ?H ?A k True keys told" "tree_of (de_tree_d ?X) (de_hash_d ?X) binary_arities kd False data td"
      "tree_of ?T ?H ?A k True new tnew" using t by (simp_all add: update_trees_def)
  have b: "arities_ok binary_arities" by (simp add: arities_ok_def binary_arities_def)
  obtain po where po: "gen_cached_proof ?T ?A told i (Some rows) = Inr po" "opens ?H ?A keys (tree_root_of ?T told) i po" "mp_canonical ?A k po"
    by (rule gen_proof_path [OF t(1) D(1,2) N(1) D(4) N(4)]) blast
  obtain pn where pn: "gen_cached_proof ?T ?A tnew i (Some rows) = Inr pn" "opens ?H ?A new (tree_root_of ?T tnew) i pn" "mp_canonical ?A k pn"
    by (rule gen_proof_path [OF t(3) D(1,2) N(3) D(4) N(6)]) blast
  obtain pd where pd: "gen_proof (de_tree_d ?X) binary_arities td i = Inr pd" "opens (de_hash_d ?X) binary_arities data (tree_root_of (de_tree_d ?X) td) i pd"
      "mp_canonical binary_arities kd pd" "honest_path (de_hash_d ?X) (levels binary_arities kd) data i = Inr (mp_path pd)"
    by (rule gen_proof_path [OF t(2) b D(3) N(2) D(5) N(5)])
  show thesis
  proof (rule that [of "\<lparr>cf_proof_r_old = po, cf_proof_d_new = pd, cf_proof_r_new = pn\<rparr>"])
    show "update_challenge_proof U rows told td tnew i = Inr \<lparr>cf_proof_r_old = po, cf_proof_d_new = pd, cf_proof_r_new = pn\<rparr>"
      using po pn pd by (simp add: update_challenge_proof_def opens_def)
  qed (use po pn pd in \<open>simp_all add: challenge_opened_def update_shape_ok_def mp_canonical_def\<close>)
qed

section \<open>Verification of honest proofs\<close>

lemma levels_binary: "\<forall>l\<in>set (levels binary_arities kd). fst l = 2" "length (levels binary_arities kd) = kd"
  by (auto simp: levels_def binary_arities_def)

lemma all_valid: "(\<And>x. x \<in> set xs \<Longrightarrow> f x = Inr True) \<Longrightarrow> bindR (collectR f xs) (\<lambda>vs. Inr (list_all id vs)) = Inr True"
proof -
  assume "\<And>x. x \<in> set xs \<Longrightarrow> f x = Inr True"
  then have "collectR f xs = Inr (map (\<lambda>_. True) xs)" by (rule collectR_all_ok)
  then show ?thesis by (simp add: list_all_iff)
qed

lemma apex_valid_ok:
  assumes p: "honest_path (sha256_multi_node digest) (levels binary_arities kd) data i = Inr (mp_path (cf_proof_d_new cp))"
    and d: "length data = 2 ^ kd" "i < 2 ^ kd" and h: "kd = b + (ht + a)" and k: "i div 2 ^ (ht + a) = k" "k < 2 ^ b"
    and rows: "rows = map (\<lambda>l. data_row digest l (take (2 ^ a) (drop (k * 2 ^ a) (data_row digest ht data)))) [0..<Suc a]"
  shows "apex_valid ht a rows cp = Inr True"
proof -
  let ?path = "mp_path (cf_proof_d_new cp)"
  have s: "j < length ?path \<and> (\<exists>s. s div 2 = i div 2 ^ Suc j \<and> fst (?path ! j) = [data_row digest j data ! s])" if "j < kd" for j
    using path_siblings [OF p levels_binary(1), unfolded levels_binary(2), OF d that] .
  have len: "ht + a \<le> length ?path"
  proof (cases "ht + a")
    case (Suc m)
    then show ?thesis using s [of m] h by simp
  qed simp
  have n: "length data = 2 ^ (ht + a) * 2 ^ b" using d(1) h by (simp add: power_add)
  have "(case e of (path_elem, apex_tree_row) \<Rightarrow> bindR (at_index (fst path_elem) 0) (\<lambda>sibling. Inr (sibling \<in> set apex_tree_row))) = Inr True"
    if e: "e \<in> set (zip (take a (drop ht ?path)) rows)" for e
  proof -
    obtain l where l: "l < a" "e = (?path ! (ht + l), rows ! l)" using e len by (auto simp: set_zip)
    obtain s where s: "s div 2 = i div 2 ^ Suc (ht + l)" "fst (?path ! (ht + l)) = [data_row digest (ht + l) data ! s]"
      using s [of "ht + l"] l(1) h by auto
    have "rows ! l = data_row digest l (take (2 ^ a) (drop (k * 2 ^ a) (data_row digest ht data)))"
      using l(1) unfolding rows by (simp del: upt_Suc)
    then show ?thesis using sibling_in_apex [OF s(1) l(1) k(1) n k(2)] s(2) l(2) by (simp add: at_index_def)
  qed
  then show ?thesis using len unfolding apex_valid_def by (simp add: all_valid)
qed

lemma challenge_verifies:
  assumes U: "update_ok U n k kd" and K: "canonical_nodes (de_prims (ue_drg U)) n keys" and N: "canonical_nodes (de_prims (ue_drg U)) n data"
    and phi: "into_fr (rn_prims (ue_randomness U)) phi = Inr x" and h: "h \<le> kd" "kd - h < 32"
    and new: "new = encoded_nodes (de_prims (ue_drg U)) (node_rho (ue_randomness U) x (kd - h)) keys data"
    and c: "unat c < n" and o: "challenge_opened U kd keys data new root_old root_d root_new (unat c) cp"
    and d: "ui_comm_d_new pi = root_d" and apex: "apex_valid ht (up_apex_leaf_bit_len pp) rows cp = Inr True"
  shows "verify_challenge_proof U pp pi phi (kd - h) ht rows root_old root_new (c, cp) = Inr True"
proof -
  let ?P = "de_prims (ue_drg U)" and ?rho = "node_rho (ue_randomness U) x (kd - h)"
  have D: "fr_ok ?P" "n = 2 ^ kd" "n < 2 ^ 32" "rn_prims (ue_randomness U) = ?P"
    using update_okD [OF U] U by (simp_all add: drg_ok_def update_ok_def)
  have l: "length keys = n" using K by (simp add: canonical_nodes_def)
  have leaf: "mp_leaf (cf_proof_r_old cp) = keys ! unat c" "mp_leaf (cf_proof_d_new cp) = data ! unat c" "mp_leaf (cf_proof_r_new cp) = new ! unat c"
    using o by (simp_all add: challenge_opened_def opens_def)
  have fr: "into_fr ?P (keys ! unat c) = Inr (fr_of ?P (keys ! unat c))" "into_fr ?P (data ! unat c) = Inr (fr_of ?P (data ! unat c))"
    using K N c canonical_fr [of ?P] by (simp_all add: canonical_nodes_def)
  have "update_rho (ue_randomness U) phi (drop_bit (kd - h) c) = Inr (?rho (unat c))"
  proof -
    have "unat c div 2 ^ (kd - h) < 2 ^ 32" using c D(3) div_le_dividend [of "unat c" "2 ^ (kd - h)"] by linarith
    then have "unat (of_nat (unat c div 2 ^ (kd - h)) :: u32) = unat c div 2 ^ (kd - h)" by (simp add: unsigned_of_nat take_bit_nat_eq_self)
    moreover have "unat (drop_bit (kd - h) c) = unat c div 2 ^ (kd - h)" unfolding unat_drop_bit_eq by (rule drop_bit_eq_div)
    ultimately show ?thesis using phi by (simp add: update_rho_def node_rho_def)
  qed
  then have e: "encoding_valid U phi (kd - h) c cp = Inr True"
    using h(2) fr c l unfolding encoding_valid_def by (simp add: leaf new encoded_nodes_def encoded_node_def)
  have "verify_merkle_proofs U cp c root_old (ui_comm_d_new pi) root_new = Inr True"
    using o d by (simp add: verify_merkle_proofs_def challenge_opened_def opens_def Let_def)
  then show ?thesis using e apex by (simp add: verify_challenge_proof_def)
qed

subsection \<open>Stores\<close>

text \<open>
  What is relied on of the store of the data tree, beside the tree itself: its size, and that it holds the rows
  of the tree one after the other, from the leaves to the root.
\<close>

definition data_store_ok :: "('t, 'p) tree_crate \<Rightarrow> (u8 list \<Rightarrow> u8 list) \<Rightarrow> nat \<Rightarrow> bool" where
  "data_store_ok T digest kd \<longleftrightarrow> store_ok T \<and> crate_ok T (sha256_multi_node digest) binary_arities kd (2 * 2 ^ kd - 1) \<and>
     (\<forall>m\<le>kd. get_merkle_tree_len T (2 ^ m) 2 = Inr (2 * 2 ^ m - 1)) \<and>
     (\<forall>c leaves s t. nodes_ok (2 ^ kd) leaves \<longrightarrow> from_par_iter_with_config T binary_arities c leaves = Inr (s, t) \<longrightarrow>
        length s = 32 * (2 * 2 ^ kd - 1) \<and>
        (\<forall>j\<le>kd. \<forall>i<2 ^ (kd - j). node_at s (2 * 2 ^ kd - 2 * 2 ^ (kd - j) + i) = data_row digest j leaves ! i))"

lemma data_store_okD:
  assumes "data_store_ok T digest kd"
  shows "store_ok T" "crate_ok T (sha256_multi_node digest) binary_arities kd (2 * 2 ^ kd - 1)"
    "m \<le> kd \<Longrightarrow> get_merkle_tree_len T (2 ^ m) 2 = Inr (2 * 2 ^ m - 1)"
    "\<lbrakk>nodes_ok (2 ^ kd) leaves; from_par_iter_with_config T binary_arities c leaves = Inr (s, t)\<rbrakk> \<Longrightarrow> length s = 32 * (2 * 2 ^ kd - 1)"
    "\<lbrakk>nodes_ok (2 ^ kd) leaves; from_par_iter_with_config T binary_arities c leaves = Inr (s, t); j \<le> kd; i < 2 ^ (kd - j)\<rbrakk> \<Longrightarrow>
       node_at s (2 * 2 ^ kd - 2 * 2 ^ (kd - j) + i) = data_row digest j leaves ! i"
  using assms unfolding data_store_ok_def by blast+

lemma read_apex_leafs_ok:
  assumes S: "data_store_ok (de_tree_d (ue_drg U)) digest kd" and data: "nodes_ok (2 ^ kd) data"
    and s: "from_par_iter_with_config (de_tree_d (ue_drg U)) binary_arities cD data = Inr (s, t)" "file_of cD d = Some s" "sc_size cD = Some (2 * 2 ^ kd - 1)"
    and pp: "up_partition_count pp = 2 ^ b" "up_apex_leaf_count pp = 2 ^ a" "kd = b + (ht + a)" and k: "k < 2 ^ b"
  shows "read_apex_leafs U pp k (cD, d) = Inr (take (2 ^ a) (drop (k * 2 ^ a) (data_row digest ht data)))"
proof -
  let ?T = "de_tree_d (ue_drg U)"
  have "ht \<le> kd" using pp(3) by simp
  note l = data_store_okD(4) [OF S data s(1)] and rows = data_store_okD(5) [OF S data s(1) this]
  have st: "new_from_disk ?T (2 * 2 ^ kd - 1) 2 (Some s) = Inr s" "store_len ?T s = 2 * 2 ^ kd - 1"
      "\<And>i j. i \<le> j \<Longrightarrow> j \<le> 2 * 2 ^ kd - 1 \<Longrightarrow> read_range ?T s i j = Inr (map (node_at s) [i..<j])"
    using data_store_okD(1) [OF S] l by (simp_all add: store_ok_def)
  have h: "kd - ht = b + a" using pp(3) by simp
  have len: "get_merkle_tree_len ?T (2 ^ (b + a)) 2 = Inr (2 * 2 ^ (b + a) - 1)" using data_store_okD(3) [OF S] pp(3) by simp
  have ba: "(2::nat) ^ (b + a) \<le> 2 ^ kd" using pp(3) by (intro power_increasing) simp_all
  have ka: "k * 2 ^ a + 2 ^ a \<le> 2 ^ (b + a)" using mult_le_mono1 [of "k + 1" "2 ^ b" "2 ^ a"] k by (simp add: power_add)
  have pos: "(0::nat) < 2 ^ (b + a)" by simp
  define from' where "from' = 2 * 2 ^ kd - 2 * 2 ^ (b + a) + k * 2 ^ a"
  have start: "2 * 2 ^ kd - 1 - (2 * 2 ^ (b + a) - 1) + k * 2 ^ a = from'" using ba pos unfolding from'_def by linarith
  have stop: "from' + 2 ^ a \<le> 2 * 2 ^ kd - 1" using ba ka pos unfolding from'_def by linarith
  have "map (node_at s) [from'..<from' + 2 ^ a] = take (2 ^ a) (drop (k * 2 ^ a) (data_row digest ht data))"
  proof (rule nth_equalityI)
    have "length (data_row digest ht data) = 2 ^ (b + a)" using data pp(3) by (simp add: length_data_row nodes_ok_def power_add)
    then show len: "length (map (node_at s) [from'..<from' + 2 ^ a]) = length (take (2 ^ a) (drop (k * 2 ^ a) (data_row digest ht data)))"
      using ka by simp
    fix i assume "i < length (map (node_at s) [from'..<from' + 2 ^ a])"
    then have i: "i < 2 ^ a" by simp
    then have "node_at s (from' + i) = data_row digest ht data ! (k * 2 ^ a + i)"
      using rows [of "k * 2 ^ a + i"] ka unfolding h from'_def by (simp add: add.assoc)
    then show "map (node_at s) [from'..<from' + 2 ^ a] ! i = take (2 ^ a) (drop (k * 2 ^ a) (data_row digest ht data)) ! i"
      using i len by simp
  qed
  moreover have "usub (2 * 2 ^ kd - 1) (2 * 2 ^ (b + a) - 1) = Inr (2 * 2 ^ kd - 1 - (2 * 2 ^ (b + a) - 1))"
  proof -
    have "2 * 2 ^ (b + a) - 1 \<le> 2 * 2 ^ kd - (1::nat)" using ba by linarith
    then show ?thesis by (simp only: usub_def if_True)
  qed
  ultimately show ?thesis
    using st(1,2) st(3) [of from' "from' + 2 ^ a"] stop start len s(2,3)
    by (simp add: read_apex_leafs_def config_size_def expectS_def pp Let_def power_add [symmetric] del: One_nat_def)
qed

lemma instantiate_tree_d_ok:
  assumes S: "crate_ok (de_tree_d (ue_drg U)) H binary_arities kd len" and data: "nodes_ok (2 ^ kd) data"
    and s: "from_par_iter_with_config (de_tree_d (ue_drg U)) binary_arities cD data = Inr (s, t)" "file_of cD d = Some s" "sc_size cD = Some len" "sc_rows_to_discard cD = 0"
  obtains td where "instantiate_tree_d U (2 ^ kd) (cD, d) = Inr td" "tree_of (de_tree_d (ue_drg U)) H binary_arities kd False data td"
proof -
  let ?T = "de_tree_d (ue_drg U)"
  have b: "base_arity binary_arities = 2" "sub_tree_arity binary_arities = 0" "top_tree_arity binary_arities = 0" "tree_count binary_arities = 1"
      "base_only binary_arities = binary_arities" by (simp_all add: binary_arities_def tree_count_def base_only_def)
  have st: "stored ?T binary_arities [cD] [data] [s]" using s(1) by (simp add: stored_def b)
  have r: "readable (2 ^ kd) [cD] [data] None" using s(4) by (simp add: readable_def)
  obtain td where td: "from_stores ?T binary_arities len (2 ^ kd) [cD] [s] None = Inr td" "tree_of ?T H binary_arities kd False data td"
    using crate_okD(6) [OF S _ _ st, of None] data r by (auto simp: b)
  then show thesis using that [of td] s(2,3) by (simp add: instantiate_tree_d_def config_size_def from_stores_def b Let_def)
qed

lemma instantiate_tree_r_ok:
  assumes "sc_size cR = Some len" and "get_merkle_tree_leafs (de_tree (ue_drg U)) len (base_arity (de_arities (ue_drg U))) = Inr w"
    and "arities_ok (de_arities (ue_drg U))"
    and "create_lc_tree (de_tree (ue_drg U)) (de_arities (ue_drg U)) len (split_config cR (tree_count (de_arities (ue_drg U))))
       (snd (split_config_and_replica cR replica w (tree_count (de_arities (ue_drg U))))) d = Inr t"
  shows "instantiate_tree_r U (cR, d) (Some replica) = Inr t"
proof -
  have "fst (split_config_and_replica c r w n) = split_config c n" for c r w n
    by (simp add: split_config_and_replica_def split_config_def)
  then show ?thesis
    using assms base_tree_count_ok [OF assms(3)] unfolding instantiate_tree_r_def
    by (simp add: config_size_def open_file_def Let_def split_beta)
qed

subsection \<open>One partition\<close>

lemma partition_challenges:
  assumes nodes: "n \<in> set ALLOWED_SECTOR_SIZES" and k: "k < partition_count n" and r: "n = partition_count n * 2 ^ r"
    and x: "into_fr (rn_prims R) comm = Inr x" and R: "randomness_ok R"
  obtains s cs where "update_challenges_new R n comm k = Inr s" "collect_challenges R s = Inr cs" "length cs = challenge_count n"
    "\<forall>c\<in>set cs. unat c div 2 ^ r = k \<and> unat c < n"
proof -
  obtain s cs where s: "update_challenges_new R n comm k = Inr s" "collect_challenges R s = Inr cs" "length cs = challenge_count n"
      "\<forall>i<length cs. unat (cs ! i) div 2 ^ r = k"
    using update_challenges_in_partition [OF assms] unfolding Let_def by blast
  have "unat c div 2 ^ r = k \<and> unat c < n" if "c \<in> set cs" for c
  proof -
    have d: "unat c div 2 ^ r = k" using s(4) that by (metis in_set_conv_nth)
    then have "unat c < (k + 1) * 2 ^ r" by (metis add.commute add_mult_distrib dividend_less_div_times mult_1 zero_less_numeral zero_less_power)
    also have "\<dots> \<le> n" using k by (subst r) (intro mult_le_mono1, simp)
    finally show ?thesis using d by simp
  qed
  then show thesis using that [of s cs] s by blast
qed

lemma partition_ok:
  assumes U: "update_ok U n m kd" and K: "canonical_nodes (de_prims (ue_drg U)) n keys" and N: "canonical_nodes (de_prims (ue_drg U)) n data"
    and n: "n \<in> set ALLOWED_SECTOR_SIZES" and s: "partition_count n = 2 ^ b" "apex_leaf_count n = 2 ^ a" "kd = b + (ht + a)"
    and h: "h \<in> set (hs n)" and pp: "from_sector_size (32 * n) = Inr pp"
    and t: "update_trees U n m kd keys data new told td tnew"
    and new: "new = encoded_nodes (de_prims (ue_drg U)) (node_rho (ue_randomness U) x (kd - h)) keys data"
    and phi: "update_phi (ue_randomness U) (ui_comm_d_new pi) (ui_comm_r_old pi) = Inr phi" "into_fr (rn_prims (ue_randomness U)) phi = Inr x"
    and pi: "ui_comm_d_new pi = tree_root_of (de_tree_d (ue_drg U)) td" "ui_h pi = h" "ui_k pi = k"
      "ui_comm_r_old pi = pq_hash2 (de_prims (ue_drg U)) (uv_comm_c priv) (tree_root_of (de_tree (ue_drg U)) told)"
      "ui_comm_r_new pi = pq_hash2 (de_prims (ue_drg U)) (uv_comm_c priv) (tree_root_of (de_tree (ue_drg U)) tnew)"
    and apex: "read_apex_leafs U pp k (uv_tree_d_new_config priv) = Inr (take (2 ^ a) (drop (k * 2 ^ a) (data_row (ue_sha256 U) ht data)))"
    and files: "uv_old_replica priv = Some f" "uv_replica priv = Some g" and k: "k < partition_count n"
  obtains pr where "prove_inner U pp pi priv told td tnew = Inr pr" "update_verify U pp pi pr = Inr True"
    "\<forall>cp\<in>set (uf_challenge_proofs pr). update_shape_ok U m kd cp"
proof -
  let ?X = "ue_drg U" let ?P = "de_prims ?X" and ?R = "ue_randomness U"
  define ro where "ro = tree_root_of (de_tree ?X) told" define rd where "rd = tree_root_of (de_tree_d ?X) td"
  define rn where "rn = tree_root_of (de_tree ?X) tnew"
  have D: "n = 2 ^ kd" "rn_prims ?R = ?P" "randomness_ok ?R" "de_hash_d ?X = sha256_multi_node (ue_sha256 U)"
      "is_ok (into_fr ?P (pq_hash2 ?P c d))" for c d
    using update_okD [OF U] U by (simp_all add: drg_ok_def update_ok_def)
  have kd31: "kd \<le> 31" and hk: "h \<le> kd" and cc: "0 < challenge_count n"
  proof -
    obtain kd' where "n = 2 ^ kd'" "kd' \<le> 31" "0 < challenge_count n" "\<forall>h\<in>set (hs n). h \<le> kd'" by (rule update_sizes [OF n])
    moreover from this have "kd' = kd" using D(1) by (metis power_inject_exp one_less_numeral_iff semiring_norm(76))
    ultimately show "kd \<le> 31" "h \<le> kd" "0 < challenge_count n" using h by simp_all
  qed
  have ppf: "up_sector_nodes pp = n" "up_challenge_count pp = challenge_count n" "up_challenge_bit_len pp = kd" "up_partition_count pp = 2 ^ b"
      "up_partition_bit_len pp = b" "up_apex_leaf_count pp = 2 ^ a" "up_apex_leaf_bit_len pp = a"
    using pp s from_sector_size_ok [OF n] D(1) by auto
  have k2: "k < 2 ^ b" using k s(1) by simp
  obtain y where y: "into_fr (rn_prims ?R) (ui_comm_r_new pi) = Inr y" using D(2,5) by (auto simp: is_ok_iff pi(5))
  have r: "n = partition_count n * 2 ^ (ht + a)" using D(1) s by (simp add: power_add)
  obtain st cs where cs: "update_challenges_new ?R n (ui_comm_r_new pi) k = Inr st" "collect_challenges ?R st = Inr cs" "length cs = challenge_count n"
      "\<forall>c\<in>set cs. unat c div 2 ^ (ht + a) = k \<and> unat c < n" by (rule partition_challenges [OF n k r y D(3)])
  let ?prove = "\<lambda>c. update_challenge_proof U (sc_rows_to_discard (fst (uv_tree_r_old_config priv))) told td tnew (unat c)"
  let ?opened = "\<lambda>c cp. challenge_opened U kd keys data new ro rd rn (unat c) cp \<and> update_shape_ok U m kd cp"
  have op1: "\<exists>cp. ?prove c = Inr cp \<and> ?opened c cp" if "c \<in> set cs" for c
  proof -
    have "unat c < n" using cs(4) that by blast
    from challenge_proof_ok [OF U t this] show ?thesis unfolding ro_def rd_def rn_def by metis
  qed
  obtain cps where cps: "collectR ?prove cs = Inr cps" "list_all2 ?opened cs cps"
    using collectR_opens [of cs ?prove ?opened, OF op1] by blast
  define rows where "rows = map (\<lambda>l. data_row (ue_sha256 U) l (take (2 ^ a) (drop (k * 2 ^ a) (data_row (ue_sha256 U) ht data)))) [0..<Suc a]"
  let ?apex = "take (2 ^ a) (drop (k * 2 ^ a) (data_row (ue_sha256 U) ht data))"
  let ?pr = "\<lparr>uf_comm_c = uv_comm_c priv, uf_apex_leafs = ?apex, uf_challenge_proofs = cps\<rparr>"
  have p: "prove_inner U pp pi priv told td tnew = Inr ?pr"
    using apex cs cps(1) k2 files pi(3) unfolding prove_inner_def ppf by (simp add: open_file_def)
  have ld: "length data = 2 ^ kd" using N D(1) by (simp add: canonical_nodes_def)
  have la: "length ?apex = 2 ^ a"
    using mult_le_mono1 [of "k + 1" "2 ^ b" "2 ^ a"] k2 ld s(3) by (simp add: length_data_row power_add)
  have rows: "apex_tree (ue_sha256 U) a ?apex = Inr rows" unfolding rows_def by (rule apex_tree_rows [OF la])
  have lc: "length cps = challenge_count n" using cps(2) cs(3) by (simp add: list_all2_lengthD)
  have op: "challenge_opened U kd keys data new ro rd rn (unat (cs ! i)) (cps ! i)" if "i < length cps" for i
    using cps(2) that by (simp add: list_all2_conv_all_nth)
  have root: "mp_root (cf_proof_r_old (cps ! 0)) = ro" "mp_root (cf_proof_r_new (cps ! 0)) = rn"
    using op [of 0] cc lc by (simp_all add: challenge_opened_def opens_def)
  have "verify_challenge_proof U pp pi phi (kd - h) ht rows ro rn e = Inr True" if e: "e \<in> set (zip cs cps)" for e
  proof -
    obtain i where i: "i < length cps" "i < length cs" "e = (cs ! i, cps ! i)" using e by (auto simp: set_zip)
    then have c: "unat (cs ! i) div 2 ^ (ht + a) = k" "unat (cs ! i) < n" using cs(4) by simp_all
    have "apex_valid ht a rows (cps ! i) = Inr True"
      using op [OF i(1)] D(1,4) c by (intro apex_valid_ok [OF _ ld _ s(3) c(1) k2 rows_def]) (simp_all add: challenge_opened_def)
    then show ?thesis
      using challenge_verifies [OF U K N phi(2) hk _ new c(2) op [OF i(1)] pi(1) [folded rd_def], of ht pp rows] kd31 ppf(7) i(3) by simp
  qed
  then have v: "bindR (collectR (verify_challenge_proof U pp pi phi (kd - h) ht rows ro rn) (zip cs cps)) (\<lambda>vs. Inr (list_all id vs)) = Inr True"
    by (rule all_valid)
  have "update_verify U pp pi ?pr = Inr True"
    using rows la lc root cc cs v phi(1) h hk pi(4,5) k2 s(3) unfolding update_verify_def ppf pi(2,3)
    by (simp add: Let_def usub_def at_index_def ro_def rn_def)
  moreover have "\<forall>cp\<in>set cps. update_shape_ok U m kd cp" using cps(2) by (auto simp: list_all2_conv_all_nth in_set_conv_nth)
  ultimately show thesis using that [OF p] by simp
qed

lemma update_partitions_ok:
  "(\<And>k pr. (k, pr) \<in> set kprs \<Longrightarrow> update_verify U pp (pi\<lparr>ui_k := k\<rparr>) pr = Inr True) \<Longrightarrow> verify_partitions U pp pi kprs = Inr True"
  by (induction kprs) (auto simp: update_with_partition_def)

text \<open>The inputs of the proofs of an update, and all of its partitions.\<close>

definition honest_inputs :: "'f porep_prims \<Rightarrow> u8 list \<Rightarrow> u8 list \<Rightarrow> u8 list \<Rightarrow> u8 list \<Rightarrow> nat \<Rightarrow> nat \<Rightarrow> update_inputs" where
  "honest_inputs P column_root root_old root_new comm_d h k = \<lparr>ui_k = k, ui_comm_r_old = pq_hash2 P column_root root_old, ui_comm_d_new = comm_d,
     ui_comm_r_new = pq_hash2 P column_root root_new, ui_h = h\<rparr>"

lemma update_proofs_ok:
  assumes U: "update_ok U n m kd" and K: "canonical_nodes (de_prims (ue_drg U)) n keys" and N: "canonical_nodes (de_prims (ue_drg U)) n data"
    and n: "n \<in> set ALLOWED_SECTOR_SIZES" and h: "h \<in> set (hs n)" and pp: "from_sector_size (32 * n) = Inr pp" and out: "length out = 32 * n"
    and C: "crate_ok (de_tree (ue_drg U)) (pq_tree_hash (de_prims (ue_drg U))) (de_arities (ue_drg U)) m len" and sc: "sc_size cR = Some len"
    and id: "Data_File (sc_id cD) \<notin> ids_of (split_config cR (tree_count (de_arities (ue_drg U))))"
    and S: "data_store_ok (de_tree_d (ue_drg U)) (ue_sha256 U) kd" and cD: "sc_size cD = Some (2 * 2 ^ kd - 1)" "sc_rows_to_discard cD = 0"
    and old: "sc_size cO = Some len" "tree_of (de_tree (ue_drg U)) (pq_tree_hash (de_prims (ue_drg U))) (de_arities (ue_drg U)) m True keys told"
      "create_lc_tree (de_tree (ue_drg U)) (de_arities (ue_drg U)) len (split_config cO (tree_count (de_arities (ue_drg U))))
         (snd (split_config_and_replica cO (concat keys) (base_arity (de_arities (ue_drg U)) ^ m) (tree_count (de_arities (ue_drg U))))) dO = Inr told"
  obtains phi x new d2 tnew proofs where
    "update_phi (ue_randomness U) (subtree_root (ue_sha256 U) kd data) (pq_hash2 (de_prims (ue_drg U)) column_root (tree_root_of (de_tree (ue_drg U)) told)) = Inr phi"
    "into_fr (rn_prims (ue_randomness U)) phi = Inr x" "new = encoded_nodes (de_prims (ue_drg U)) (node_rho (ue_randomness U) x (kd - h)) keys data"
    "encode_into U n cD cR column_root (tree_root_of (de_tree (ue_drg U)) told) (Some out) (Some (concat keys)) (Some (concat data)) h d =
       Inr (concat new, d2, pq_hash2 (de_prims (ue_drg U)) column_root (tree_root_of (de_tree (ue_drg U)) tnew), tree_root_of (de_tree (ue_drg U)) tnew,
         subtree_root (ue_sha256 U) kd data)"
    "tree_of (de_tree (ue_drg U)) (pq_tree_hash (de_prims (ue_drg U))) (de_arities (ue_drg U)) m True new tnew" "length proofs = partition_count n"
    "\<And>k pi priv. pi = honest_inputs (de_prims (ue_drg U)) column_root (tree_root_of (de_tree (ue_drg U)) told) (tree_root_of (de_tree (ue_drg U)) tnew)
        (subtree_root (ue_sha256 U) kd data) h k \<Longrightarrow>
      priv = \<lparr>uv_comm_c = column_root, uv_tree_r_old_config = (cO, dO), uv_old_replica = Some (concat keys),
        uv_tree_d_new_config = (cD, d2), uv_tree_r_new_config = (cR, d2), uv_replica = Some (concat new)\<rparr> \<Longrightarrow>
      update_prove_all U pp pi priv = Inr proofs \<and> update_verify_all U pp pi proofs = Inr True \<and>
      (k < partition_count n \<longrightarrow> update_prove U pp pi priv = Inr (proofs ! k) \<and> update_verify U pp pi (proofs ! k) = Inr True \<and>
         (\<forall>cp\<in>set (uf_challenge_proofs (proofs ! k)). update_shape_ok U m kd cp))"
proof -
  let ?X = "ue_drg U" let ?P = "de_prims ?X" and ?R = "ue_randomness U" and ?T = "de_tree ?X" and ?A = "de_arities ?X"
  let ?comm_d = "subtree_root (ue_sha256 U) kd data" and ?r = "tree_root_of ?T told"
  obtain kd' b a where kd': "n = 2 ^ kd'" "partition_count n = 2 ^ b" "apex_leaf_count n = 2 ^ a" "b + a \<le> kd'" "\<forall>h\<in>set (hs n). h \<le> kd'"
    by (rule update_sizes [OF n])
  have D: "n = 2 ^ kd" "arities_ok ?A" "de_hash_d ?X = sha256_multi_node (ue_sha256 U)" using update_okD [OF U] U by (simp_all add: drg_ok_def update_ok_def)
  have "kd' = kd" using D(1) kd'(1) by (metis power_inject_exp one_less_numeral_iff semiring_norm(76))
  then obtain ht where s: "kd = b + (ht + a)" and hk: "h \<le> kd" using kd'(4,5) h le_Suc_ex [of "b + a" kd] by auto
  obtain phi x where phi: "update_phi ?R ?comm_d (pq_hash2 ?P column_root ?r) = Inr phi" "into_fr (rn_prims ?R) phi = Inr x" by (rule update_phi_ok [OF U N])
  define new where "new = encoded_nodes ?P (node_rho ?R x (kd - h)) keys data"
  obtain st td0 tnew d2 where e: "encode_into U n cD cR column_root ?r (Some out) (Some (concat keys)) (Some (concat data)) h d =
       Inr (concat new, d2, pq_hash2 ?P column_root (tree_root_of ?T tnew), tree_root_of ?T tnew, ?comm_d)"
    "tree_of ?T (pq_tree_hash ?P) ?A m True new tnew"
    "from_par_iter_with_config (de_tree_d ?X) binary_arities cD data = Inr (st, td0)" "file_of cD d2 = Some st"
    "create_lc_tree ?T ?A len (split_config cR (tree_count ?A))
       (snd (split_config_and_replica cR (concat new) (base_arity ?A ^ m) (tree_count ?A))) d2 = Inr tnew"
    by (rule encode_into_ok [OF U K N hk out C sc id phi new_def, of d])
  have fr: "fr_ok ?P" using update_okD [OF U] by (simp add: drg_ok_def)
  have ln: "length keys = n" using K by (simp add: canonical_nodes_def)
  note nk = canonical_nodes_ok [OF K] canonical_nodes_ok [OF N] canonical_nodes_ok [OF encoded_canonical [OF fr ln], of "node_rho ?R x (kd - h)" data, folded new_def]
  obtain td where td: "instantiate_tree_d U n (cD, d2) = Inr td" "tree_of (de_tree_d ?X) (de_hash_d ?X) binary_arities kd False data td"
    using instantiate_tree_d_ok [OF data_store_okD(2) [OF S] nk(2) [unfolded D(1)] e(3,4) cD] D(1,3) by metis
  have t: "update_trees U n m kd keys data new told td tnew" using nk old(2) td(2) e(2) by (simp add: update_trees_def)
  note root_d = data_root(1) [OF U td(2) N]
  let ?pi = "\<lambda>k. \<lparr>ui_k = k, ui_comm_r_old = pq_hash2 ?P column_root ?r, ui_comm_d_new = ?comm_d,
    ui_comm_r_new = pq_hash2 ?P column_root (tree_root_of ?T tnew), ui_h = h\<rparr>"
  let ?priv = "\<lparr>uv_comm_c = column_root, uv_tree_r_old_config = (cO, dO), uv_old_replica = Some (concat keys),
    uv_tree_d_new_config = (cD, d2), uv_tree_r_new_config = (cR, d2), uv_replica = Some (concat new)\<rparr>"
  have ppf: "up_sector_nodes pp = n" "up_partition_count pp = 2 ^ b" "up_apex_leaf_count pp = 2 ^ a"
    using pp kd'(2,3) from_sector_size_ok [OF n] by auto
  have one: "\<exists>pr. prove_inner U pp (?pi k) ?priv told td tnew = Inr pr \<and> update_verify U pp (?pi k) pr = Inr True \<and>
      (\<forall>cp\<in>set (uf_challenge_proofs pr). update_shape_ok U m kd cp)" if k: "k < 2 ^ b" for k
  proof -
    have "read_apex_leafs U pp k (cD, d2) = Inr (take (2 ^ a) (drop (k * 2 ^ a) (data_row (ue_sha256 U) ht data)))"
      by (rule read_apex_leafs_ok [OF S nk(2) [unfolded D(1)] e(3,4) cD(1) ppf(2,3) s k])
    then show ?thesis
      using partition_ok [OF U K N n kd'(2,3) s h pp t new_def, where pi = "?pi k" and priv = ?priv and k = k and phi = phi]
        phi root_d k kd'(2) by fastforce
  qed
  have trees: "with_trees U pp ?priv f = f told td tnew" for f :: "'b \<Rightarrow> 'b \<Rightarrow> 'b \<Rightarrow> 'z res"
    using td(1) instantiate_tree_r_ok [OF old(1) crate_okD(4) [OF C] D(2) old(3)] instantiate_tree_r_ok [OF sc crate_okD(4) [OF C] D(2) e(5)]
    by (simp add: with_trees_def ppf)
  obtain proofs where proofs: "collectR (\<lambda>k. prove_inner U pp (?pi k) ?priv told td tnew) [0..<2 ^ b] = Inr proofs"
      "list_all2 (\<lambda>k pr. prove_inner U pp (?pi k) ?priv told td tnew = Inr pr \<and> update_verify U pp (?pi k) pr = Inr True \<and>
        (\<forall>cp\<in>set (uf_challenge_proofs pr). update_shape_ok U m kd cp)) [0..<2 ^ b] proofs"
    using collectR_opens [of "[0..<2 ^ b]" "\<lambda>k. prove_inner U pp (?pi k) ?priv told td tnew"
        "\<lambda>k pr. prove_inner U pp (?pi k) ?priv told td tnew = Inr pr \<and> update_verify U pp (?pi k) pr = Inr True \<and>
          (\<forall>cp\<in>set (uf_challenge_proofs pr). update_shape_ok U m kd cp)"] one by auto
  have l: "length proofs = 2 ^ b" using list_all2_lengthD [OF proofs(2)] by simp
  have all: "update_prove_all U pp (?pi k) ?priv = Inr proofs" for k using proofs(1) by (simp add: update_prove_all_def trees ppf update_with_partition_def)
  have nth: "prove_inner U pp (?pi j) ?priv told td tnew = Inr (proofs ! j)" "update_verify U pp (?pi j) (proofs ! j) = Inr True"
      "\<forall>cp\<in>set (uf_challenge_proofs (proofs ! j)). update_shape_ok U m kd cp" if "j < 2 ^ b" for j
    using proofs(2) that by (simp_all add: list_all2_conv_all_nth)
  have v: "update_verify_all U pp (?pi k) proofs = Inr True" for k
  proof -
    have "verify_partitions U pp (?pi k) (enumerate 0 proofs) = Inr True"
      using l nth(2) by (intro update_partitions_ok) (auto simp: in_set_enumerate_eq)
    then show ?thesis using l by (simp add: update_verify_all_def ppf)
  qed
  show thesis
    by (rule that [OF phi new_def e(1,2) l [folded kd'(2)]])
      (use all v nth in \<open>simp add: honest_inputs_def kd'(2) update_prove_def trees\<close>)
qed

section \<open>Properties\<close>

text \<open>
  Updates of sectors are complete, for every sector size, every allowed \<open>h\<close>, every sector key with its tree on disk
  and all data that are field elements: \<open>encode_into\<close> succeeds, from the stores it leaves on disk and the
  new replica the proofs of all partitions are generated, they are the proofs that are generated of every partition
  alone, and together they verify against the commitments that \<open>encode_into\<close> returned.
\<close>
theorem update_complete:
  assumes U: "update_ok U n m kd" and K: "canonical_nodes (de_prims (ue_drg U)) n keys" and N: "canonical_nodes (de_prims (ue_drg U)) n data"
    and n: "n \<in> set ALLOWED_SECTOR_SIZES" and h: "h \<in> set (hs n)" and pp: "from_sector_size (32 * n) = Inr pp" and out: "length out = 32 * n"
    and C: "crate_ok (de_tree (ue_drg U)) (pq_tree_hash (de_prims (ue_drg U))) (de_arities (ue_drg U)) m len" and sc: "sc_size cR = Some len"
    and id: "Data_File (sc_id cD) \<notin> ids_of (split_config cR (tree_count (de_arities (ue_drg U))))"
    and S: "data_store_ok (de_tree_d (ue_drg U)) (ue_sha256 U) kd" and cD: "sc_size cD = Some (2 * 2 ^ kd - 1)" "sc_rows_to_discard cD = 0"
    and old: "sc_size cO = Some len" "tree_of (de_tree (ue_drg U)) (pq_tree_hash (de_prims (ue_drg U))) (de_arities (ue_drg U)) m True keys told"
      "create_lc_tree (de_tree (ue_drg U)) (de_arities (ue_drg U)) len (split_config cO (tree_count (de_arities (ue_drg U))))
         (snd (split_config_and_replica cO (concat keys) (base_arity (de_arities (ue_drg U)) ^ m) (tree_count (de_arities (ue_drg U))))) dO = Inr told"
  shows "\<exists>replica d2 comm_r_new comm_r_last_new comm_d_new proofs.
    encode_into U n cD cR column_root (tree_root_of (de_tree (ue_drg U)) told) (Some out) (Some (concat keys)) (Some (concat data)) h d =
      Inr (replica, d2, comm_r_new, comm_r_last_new, comm_d_new) \<and>
    (let pi = \<lparr>ui_k = k, ui_comm_r_old = pq_hash2 (de_prims (ue_drg U)) column_root (tree_root_of (de_tree (ue_drg U)) told),
           ui_comm_d_new = comm_d_new, ui_comm_r_new = comm_r_new, ui_h = h\<rparr>;
         priv = \<lparr>uv_comm_c = column_root, uv_tree_r_old_config = (cO, dO), uv_old_replica = Some (concat keys),
           uv_tree_d_new_config = (cD, d2), uv_tree_r_new_config = (cR, d2), uv_replica = Some replica\<rparr>
     in update_prove_all U pp pi priv = Inr proofs \<and> length proofs = partition_count n \<and>
        (\<forall>k<partition_count n. update_prove U pp (pi\<lparr>ui_k := k\<rparr>) priv = Inr (proofs ! k)) \<and>
        update_verify_all U pp pi proofs = Inr True)"
proof -
  obtain phi x new d2 tnew proofs where
    e: "encode_into U n cD cR column_root (tree_root_of (de_tree (ue_drg U)) told) (Some out) (Some (concat keys)) (Some (concat data)) h d =
       Inr (concat new, d2, pq_hash2 (de_prims (ue_drg U)) column_root (tree_root_of (de_tree (ue_drg U)) tnew), tree_root_of (de_tree (ue_drg U)) tnew,
         subtree_root (ue_sha256 U) kd data)" and l: "length proofs = partition_count n" and
    p: "\<And>k pi priv. pi = honest_inputs (de_prims (ue_drg U)) column_root (tree_root_of (de_tree (ue_drg U)) told) (tree_root_of (de_tree (ue_drg U)) tnew)
        (subtree_root (ue_sha256 U) kd data) h k \<Longrightarrow>
      priv = \<lparr>uv_comm_c = column_root, uv_tree_r_old_config = (cO, dO), uv_old_replica = Some (concat keys),
        uv_tree_d_new_config = (cD, d2), uv_tree_r_new_config = (cR, d2), uv_replica = Some (concat new)\<rparr> \<Longrightarrow>
      update_prove_all U pp pi priv = Inr proofs \<and> update_verify_all U pp pi proofs = Inr True \<and>
      (k < partition_count n \<longrightarrow> update_prove U pp pi priv = Inr (proofs ! k) \<and> update_verify U pp pi (proofs ! k) = Inr True \<and>
         (\<forall>cp\<in>set (uf_challenge_proofs (proofs ! k)). update_shape_ok U m kd cp))"
    by (rule update_proofs_ok [OF assms, of column_root d]) (rule that, assumption, assumption, blast)
  show ?thesis
    unfolding Let_def
    by (rule exI [of _ "concat new"], rule exI [of _ d2], rule exI, rule exI, rule exI, rule exI [of _ proofs], intro conjI, rule e)
      (use p l in \<open>simp_all add: honest_inputs_def\<close>)
qed

text \<open>A crate whose stores hold all rows.\<close>

primrec all_rows :: "(u8 list \<Rightarrow> u8 list) \<Rightarrow> nat \<Rightarrow> u8 list list \<Rightarrow> u8 list list" where
  "all_rows digest 0 xs = xs"
| "all_rows digest (Suc k) xs = xs @ all_rows digest k (next_row digest xs)"

definition row_crate :: "(u8 list \<Rightarrow> u8 list) \<Rightarrow> nat \<Rightarrow> (u8 list list, u8 list \<times> u8 list \<times> (u8 list list \<times> nat) list) tree_crate" where
  "row_crate digest k = (toy_crate (sha256_multi_node digest) k)
     \<lparr>from_par_iter_with_config := (\<lambda>A c leaves. Inr (concat (all_rows digest k leaves), leaves))\<rparr>"

lemma length_all_rows: "length xs = 2 ^ k \<Longrightarrow> length (all_rows digest k xs) = 2 * 2 ^ k - 1"
  by (induction k arbitrary: xs) simp_all

lemma all_rows_nth:
  "length xs = 2 ^ k \<Longrightarrow> j \<le> k \<Longrightarrow> i < 2 ^ (k - j) \<Longrightarrow> all_rows digest k xs ! (2 * 2 ^ k - 2 * 2 ^ (k - j) + i) = data_row digest j xs ! i"
proof (induction k arbitrary: xs j)
  case (Suc k)
  show ?case
  proof (cases j)
    case j: (Suc j')
    then have j': "j' \<le> k" "i < 2 ^ (k - j')" "length (next_row digest xs) = 2 ^ k" using Suc.prems by simp_all
    have "(2::nat) ^ (k - j') \<le> 2 ^ k" by (intro power_increasing) simp_all
    then have e: "2 * 2 ^ Suc k - 2 * 2 ^ (Suc k - j) + i = length xs + (2 * 2 ^ k - 2 * 2 ^ (k - j') + i)"
      unfolding j Suc.prems(1) diff_Suc_Suc power_Suc by linarith
    show ?thesis unfolding e all_rows.simps nth_append_length_plus unfolding j data_row.simps by (rule Suc.IH [OF j'(3,1,2)])
  qed (use Suc.prems in \<open>simp add: nth_append\<close>)
qed simp

lemma all_rows_nodes: "(\<And>xs. length (digest xs) = 32) \<Longrightarrow> nodes_ok (2 ^ k) xs \<Longrightarrow> nodes_ok (2 * 2 ^ k - 1) (all_rows digest k xs)"
proof -
  assume d: "\<And>xs. length (digest xs) = 32" and x: "nodes_ok (2 ^ k) xs"
  have "\<forall>x\<in>set (all_rows digest k xs). length x = 32" if "\<forall>x\<in>set xs. length x = 32"
    using that
  proof (induction k arbitrary: xs)
    case (Suc k)
    have "\<forall>x\<in>set (next_row digest xs). length x = 32" by (auto simp: next_row_def sha256_hash2_def trim_to_fr32_def d)
    from Suc.IH [OF this] show ?case using Suc.prems by auto
  qed simp
  then show ?thesis using x length_all_rows [of xs k digest] unfolding nodes_ok_def by blast
qed

lemma all_rows_leaves: "length xs = 2 ^ k \<Longrightarrow> take (2 ^ k) (all_rows digest k xs) = xs"
  by (cases k) simp_all

lemma row_crate_ok:
  assumes d: "\<And>xs. length (digest xs) = 32"
  shows "crate_ok (row_crate digest k) (sha256_multi_node digest) binary_arities k (2 * 2 ^ k - 1)" and "data_store_ok (row_crate digest k) digest k"
proof -
  let ?H = "sha256_multi_node digest" and ?T = "row_crate digest k"
  have H: "merkle_hash ?H" "\<And>xs h. \<exists>y. ?H xs h = Inr y" "hash_nodes ?H"
    by (rule sha256_tree.merkle_hash_axioms) (simp_all add: hash_nodes_def sha256_multi_node_def trim_to_fr32_def d)
  have b: "base_arity binary_arities = 2" "sub_tree_arity binary_arities = 0" "top_tree_arity binary_arities = 0" "tree_count binary_arities = 1"
    by (simp_all add: binary_arities_def tree_count_def)
  have t: "tree_of ?T ?H binary_arities k c leaves leaves" if "nodes_ok (2 ^ k) leaves" for c leaves
    using toy_tree_of [OF H that, of c] by (simp add: tree_of_def row_crate_def)
  have n: "map (node_at (concat (all_rows digest k leaves))) [0..<2 ^ k] = leaves" if "nodes_ok (2 ^ k) leaves" for leaves
  proof -
    have "map (node_at (concat (all_rows digest k leaves))) [0..<2 * 2 ^ k - 1] = all_rows digest k leaves"
      by (rule node_at_concat [OF all_rows_nodes [OF d that]])
    then have "take (2 ^ k) (map (node_at (concat (all_rows digest k leaves))) [0..<2 * 2 ^ k - 1]) = leaves"
      using all_rows_leaves [of leaves k digest] that by (simp add: nodes_ok_def)
    then show ?thesis by (simp add: take_map min_def)
  qed
  have s: "\<exists>t. from_stores ?T binary_arities (2 * 2 ^ k - 1) (2 ^ k) cfgs stores rep = Inr t \<and> tree_of ?T ?H binary_arities k (rep \<noteq> None) (concat leavess) t"
    if st: "length leavess = 1" "\<forall>ls\<in>set leavess. nodes_ok (2 ^ k) ls" "stored ?T binary_arities cfgs leavess stores" for cfgs leavess stores rep
  proof -
    obtain ls where ls: "leavess = [ls]" using st(1) by (auto simp: length_Suc_conv)
    then have "stores ! 0 = concat (all_rows digest k ls)" using st(3) by (simp add: stored_def row_crate_def)
    then have "from_stores ?T binary_arities (2 * 2 ^ k - 1) (2 ^ k) cfgs stores rep = Inr ls"
      using st(2) n [of ls] ls b by (simp add: from_stores_def row_crate_def toy_crate_def toy_open_def split: option.split)
    then show ?thesis using t [of ls] st(2) ls by simp
  qed
  have "(2 * 2 ^ k - 1 + 1) div 2 = (2 ^ k :: nat)" by simp
  then show c: "crate_ok ?T ?H binary_arities k (2 * 2 ^ k - 1)"
    unfolding crate_ok_def Let_def b using t s by (intro conjI allI impI) (auto simp: row_crate_def toy_crate_def nodes_ok_def)
  have st: "store_ok ?T" using toy_crate_ok(2) [OF H] by (simp add: store_ok_def row_crate_def)
  show "data_store_ok ?T digest k"
    unfolding data_store_ok_def
  proof (intro conjI st c allI impI)
    fix m assume "m \<le> k" then show "get_merkle_tree_len ?T (2 ^ m) 2 = Inr (2 * 2 ^ m - 1)" by (simp add: row_crate_def toy_crate_def)
  next
    fix c leaves s t assume a: "nodes_ok (2 ^ k) leaves" "from_par_iter_with_config ?T binary_arities c leaves = Inr (s, t)"
    then have s: "s = concat (all_rows digest k leaves)" by (auto simp: row_crate_def)
    note r = all_rows_nodes [OF d a(1)]
    then show "length s = 32 * (2 * 2 ^ k - 1)" using length_concat_nodes [of "all_rows digest k leaves" 32] unfolding s by (simp add: nodes_ok_def)
    fix j i assume ji: "j \<le> k" "i < (2::nat) ^ (k - j)"
    then have "(2::nat) ^ (k - j) \<le> 2 ^ k" by (intro power_increasing) simp_all
    then have "2 * 2 ^ k - 2 * 2 ^ (k - j) + i < 2 * 2 ^ k - 1" using ji(2) by linarith
    then have "node_at s (2 * 2 ^ k - 2 * 2 ^ (k - j) + i) = all_rows digest k leaves ! (2 * 2 ^ k - 2 * 2 ^ (k - j) + i)"
      using arg_cong [OF node_at_concat [OF r], of "\<lambda>xs. xs ! (2 * 2 ^ k - 2 * 2 ^ (k - j) + i)"] unfolding s by simp
    then show "node_at s (2 * 2 ^ k - 2 * 2 ^ (k - j) + i) = data_row digest j leaves ! i"
      using all_rows_nth [of leaves k j i digest] ji a(1) by (simp add: nodes_ok_def)
  qed
qed

definition toy_update_1kib :: "(toy_fr, u8 list list, u8 list \<times> u8 list \<times> (u8 list list \<times> nat) list) update_env" where
  "toy_update_1kib = toy_update\<lparr>ue_drg := toy_api_drg\<lparr>de_tree := toy_crate (sha256_multi_node toy_sum) 5, de_tree_d := row_crate toy_sum 5\<rparr>\<rparr>"

lemma toy_update_1kib_ok:
  "update_ok toy_update_1kib 32 5 5" "crate_ok (de_tree (ue_drg toy_update_1kib)) (sha256_multi_node toy_sum) binary_arities 5 63"
  "data_store_ok (de_tree_d (ue_drg toy_update_1kib)) toy_sum 5" "de_prims (ue_drg toy_update_1kib) = toy_api_prims"
  "de_arities (ue_drg toy_update_1kib) = binary_arities" "ue_sha256 toy_update_1kib = toy_sum" "pq_tree_hash toy_api_prims = sha256_multi_node toy_sum"
proof -
  have H: "merkle_hash (sha256_multi_node toy_sum)" by (rule sha256_tree.merkle_hash_axioms)
  have A: "arities_ok binary_arities" "base_arity binary_arities = 2" "tree_count binary_arities = 1"
    by (simp_all add: arities_ok_def binary_arities_def tree_count_def)
  have d: "length (toy_sum xs) = 32" for xs by (simp add: toy_sum_def)
  then have N: "hash_nodes (sha256_multi_node toy_sum)" by (auto simp: hash_nodes_def sha256_multi_node_def trim_to_fr32_def)
  note c = toy_crate_ok [OF H toy_hash(2) N, of 5] row_crate_ok [where digest = toy_sum and k = 5, OF d]
  show p: "de_prims (ue_drg toy_update_1kib) = toy_api_prims" "de_arities (ue_drg toy_update_1kib) = binary_arities" "ue_sha256 toy_update_1kib = toy_sum"
    "pq_tree_hash toy_api_prims = sha256_multi_node toy_sum" "data_store_ok (de_tree_d (ue_drg toy_update_1kib)) toy_sum 5"
    using c(4) by (simp_all add: toy_update_1kib_def toy_update_def toy_api_drg_def toy_drg_def) (simp add: toy_api_prims_def toy_prims_def)
  show "crate_ok (de_tree (ue_drg toy_update_1kib)) (sha256_multi_node toy_sum) binary_arities 5 63"
    using c(1) by (simp add: toy_update_1kib_def)
  have "drg_ok (ue_drg toy_update_1kib) 32 5 5"
    using c toy_api_fr H N A
    by (auto simp: drg_ok_def toy_update_1kib_def toy_api_drg_def toy_drg_def toy_api_prims_def) (auto simp: toy_prims_def)
  then show "update_ok toy_update_1kib 32 5 5"
    using toy_update_ok unfolding update_ok_def by (simp add: toy_update_1kib_def toy_update_def toy_api_drg_def toy_drg_def)
qed

definition toy_keys :: "u8 list list" where "toy_keys = replicate 32 (toy_of_fr F1)"

definition toy_new_data :: "u8 list list" where "toy_new_data = concat (replicate 8 toy_data)"

definition toy_store :: "string \<Rightarrow> nat \<Rightarrow> store_config" where
  "toy_store id' rows = \<lparr>sc_id = id', sc_size = Some 63, sc_rows_to_discard = rows\<rparr>"

definition toy_key_cache :: disk where "toy_key_cache = (\<lambda>_. None)(Data_File ''o'' \<mapsto> concat toy_keys)"

definition toy_update_params :: update_params where "toy_update_params = projr (from_sector_size 1024)"

lemma toy_update_setting:
  defines "U \<equiv> toy_update_1kib"
  shows "update_ok U 32 5 5" "canonical_nodes (de_prims (ue_drg U)) 32 toy_keys" "canonical_nodes (de_prims (ue_drg U)) 32 toy_new_data"
    "32 \<in> set ALLOWED_SECTOR_SIZES" "1 \<in> set (hs 32)" "from_sector_size (32 * 32) = Inr toy_update_params" "length (replicate 1024 (7::u8)) = 32 * 32"
    "crate_ok (de_tree (ue_drg U)) (pq_tree_hash (de_prims (ue_drg U))) (de_arities (ue_drg U)) 5 63" "sc_size (toy_store ''r'' 2) = Some 63"
    "Data_File (sc_id (toy_store ''d'' 0)) \<notin> ids_of (split_config (toy_store ''r'' 2) (tree_count (de_arities (ue_drg U))))"
    "data_store_ok (de_tree_d (ue_drg U)) (ue_sha256 U) 5" "sc_size (toy_store ''d'' 0) = Some (2 * 2 ^ 5 - 1)" "sc_rows_to_discard (toy_store ''d'' 0) = 0"
    "sc_size (toy_store ''o'' 2) = Some 63" "tree_of (de_tree (ue_drg U)) (pq_tree_hash (de_prims (ue_drg U))) (de_arities (ue_drg U)) 5 True toy_keys toy_keys"
    "create_lc_tree (de_tree (ue_drg U)) (de_arities (ue_drg U)) 63 (split_config (toy_store ''o'' 2) (tree_count (de_arities (ue_drg U))))
       (snd (split_config_and_replica (toy_store ''o'' 2) (concat toy_keys) (base_arity (de_arities (ue_drg U)) ^ 5) (tree_count (de_arities (ue_drg U))))) toy_key_cache = Inr toy_keys"
proof -
  let ?T = "de_tree (ue_drg U)" and ?A = binary_arities
  note T = toy_update_1kib_ok [folded U_def]
  have c: "as_safe_commitment toy_api_prims (toy_of_fr x) = Inr (toy_of_fr x)" for x
    using safe_commitment [OF toy_api_fr, of x] by (simp add: toy_api_prims_def toy_prims_def)
  show "canonical_nodes (de_prims (ue_drg U)) 32 toy_keys" "canonical_nodes (de_prims (ue_drg U)) 32 toy_new_data"
    using c by (simp_all add: canonical_nodes_def T toy_keys_def toy_new_data_def toy_data_def length_concat sum_list_replicate)
  show n: "32 \<in> set ALLOWED_SECTOR_SIZES" by (simp add: ALLOWED_SECTOR_SIZES_def sector_sizes)
  show "1 \<in> set (hs 32)" by (simp add: hs_def sector_sizes)
  show "from_sector_size (32 * 32) = Inr toy_update_params" using from_sector_size_ok [OF n] by (simp add: toy_update_params_def)
  show "crate_ok ?T (pq_tree_hash (de_prims (ue_drg U))) (de_arities (ue_drg U)) 5 63" using T(2) by (simp only: T)
  have b: "base_arity ?A = 2" "sub_tree_arity ?A = 0" "top_tree_arity ?A = 0" "tree_count ?A = 1" by (simp_all add: binary_arities_def tree_count_def)
  have k: "nodes_ok (2 ^ 5) toy_keys" by (simp add: nodes_ok_def toy_of_fr_def toy_keys_def)
  have "hash_nodes (sha256_multi_node toy_sum)" by (simp add: hash_nodes_def sha256_multi_node_def trim_to_fr32_def toy_sum_def)
  then show "tree_of ?T (pq_tree_hash (de_prims (ue_drg U))) (de_arities (ue_drg U)) 5 True toy_keys toy_keys"
    using toy_tree_of [OF sha256_tree.merkle_hash_axioms toy_hash(2) _ k] by (simp add: T) (simp add: U_def toy_update_1kib_def)
  show "create_lc_tree ?T (de_arities (ue_drg U)) 63 (split_config (toy_store ''o'' 2) (tree_count (de_arities (ue_drg U))))
       (snd (split_config_and_replica (toy_store ''o'' 2) (concat toy_keys) (base_arity (de_arities (ue_drg U)) ^ 5) (tree_count (de_arities (ue_drg U))))) toy_key_cache = Inr toy_keys"
    using node_at_concat [OF k] unfolding create_lc_tree_def T(5) b
    by (simp add: U_def toy_update_1kib_def toy_crate_def split_config_def at_index_def file_of_def toy_open_def toy_store_def toy_key_cache_def)
qed (simp_all add: toy_update_1kib_ok U_def toy_store_def ids_of_def split_config_def binary_arities_def tree_count_def)

theorem update_complete_witness:
  "\<exists>replica d2 comm_r_new comm_r_last_new comm_d_new proofs.
    encode_into toy_update_1kib 32 (toy_store ''d'' 0) (toy_store ''r'' 2) (toy_of_fr F1) (tree_root_of (de_tree (ue_drg toy_update_1kib)) toy_keys)
      (Some (replicate 1024 7)) (Some (concat toy_keys)) (Some (concat toy_new_data)) 1 (\<lambda>_. None) =
      Inr (replica, d2, comm_r_new, comm_r_last_new, comm_d_new) \<and>
    update_verify_all toy_update_1kib toy_update_params \<lparr>ui_k = 0,
      ui_comm_r_old = pq_hash2 toy_api_prims (toy_of_fr F1) (tree_root_of (de_tree (ue_drg toy_update_1kib)) toy_keys),
      ui_comm_d_new = comm_d_new, ui_comm_r_new = comm_r_new, ui_h = 1\<rparr> proofs = Inr True"
  using update_complete [OF toy_update_setting, of "toy_of_fr F1" "\<lambda>_. None" 0] unfolding Let_def toy_update_1kib_ok(4) by blast

subsection \<open>Soundness\<close>

lemma all_validD: "bindR (collectR f xs) (\<lambda>vs. Inr (list_all id vs)) = Inr True \<Longrightarrow> x \<in> set xs \<Longrightarrow> f x = Inr True"
proof -
  assume "bindR (collectR f xs) (\<lambda>vs. Inr (list_all id vs)) = Inr True" and x: "x \<in> set xs"
  then obtain vs where vs: "collectR f xs = Inr vs" "list_all id vs" by (auto simp: bindR_eq_Inr)
  obtain i where i: "i < length xs" "xs ! i = x" using x by (metis in_set_conv_nth)
  then show "f x = Inr True" using collectR_nth [OF vs(1) i(1)] collectR_length [OF vs(1)] vs(2) by (simp add: list_all_length)
qed

text \<open>The checks of a proof that is accepted.\<close>

lemma update_verify_parts:
  assumes "update_verify U pp pi pr = Inr True" and "update_challenges_new (ue_randomness U) (up_sector_nodes pp) (ui_comm_r_new pi) (ui_k pi) = Inr s"
    and "collect_challenges (ue_randomness U) s = Inr cs"
  obtains phi shr ht rows where "ui_k pi < up_partition_count pp" "ui_h pi \<in> set (hs (up_sector_nodes pp))"
    "length (uf_challenge_proofs pr) = up_challenge_count pp"
    "pq_hash2 (de_prims (ue_drg U)) (uf_comm_c pr) (mp_root (cf_proof_r_old (uf_challenge_proofs pr ! 0))) = ui_comm_r_old pi"
    "pq_hash2 (de_prims (ue_drg U)) (uf_comm_c pr) (mp_root (cf_proof_r_new (uf_challenge_proofs pr ! 0))) = ui_comm_r_new pi"
    "update_phi (ue_randomness U) (ui_comm_d_new pi) (ui_comm_r_old pi) = Inr phi" "usub (up_challenge_bit_len pp) (ui_h pi) = Inr shr"
    "\<And>e. e \<in> set (zip cs (uf_challenge_proofs pr)) \<Longrightarrow> verify_challenge_proof U pp pi phi shr ht rows
       (mp_root (cf_proof_r_old (uf_challenge_proofs pr ! 0))) (mp_root (cf_proof_r_new (uf_challenge_proofs pr ! 0))) e = Inr True"
proof -
  have v: "update_verify U pp pi pr = Inr True" by (fact assms(1))
  obtain rows m ht cp0 where 1: "ui_k pi < up_partition_count pp" "ui_h pi \<in> set (hs (up_sector_nodes pp))"
      "length (uf_challenge_proofs pr) = up_challenge_count pp" "apex_tree (ue_sha256 U) (up_apex_leaf_bit_len pp) (uf_apex_leafs pr) = Inr rows"
      "usub (up_challenge_bit_len pp) (up_partition_bit_len pp) = Inr m" "usub m (up_apex_leaf_bit_len pp) = Inr ht"
      "at_index (uf_challenge_proofs pr) 0 = Inr cp0"
    using v unfolding update_verify_def by (auto simp: ensure_eq_Inr bindR_eq_Inr simp del: ensure_simps)
  have cp0: "cp0 = uf_challenge_proofs pr ! 0" using 1(7) by (simp add: at_index_def split: if_splits)
  have 2: "pq_hash2 (de_prims (ue_drg U)) (uf_comm_c pr) (mp_root (cf_proof_r_old cp0)) = ui_comm_r_old pi"
      "pq_hash2 (de_prims (ue_drg U)) (uf_comm_c pr) (mp_root (cf_proof_r_new cp0)) = ui_comm_r_new pi"
    using v 1 unfolding update_verify_def by (auto simp: ensure_eq_Inr Let_def split: if_splits)
  then obtain phi shr where 3: "update_phi (ue_randomness U) (ui_comm_d_new pi) (ui_comm_r_old pi) = Inr phi" "usub (up_challenge_bit_len pp) (ui_h pi) = Inr shr"
      "bindR (collectR (verify_challenge_proof U pp pi phi shr ht rows (mp_root (cf_proof_r_old cp0)) (mp_root (cf_proof_r_new cp0)))
         (zip cs (uf_challenge_proofs pr))) (\<lambda>vs. Inr (list_all id vs)) = Inr True"
    using v 1 assms(2,3) unfolding update_verify_def by (auto simp: ensure_eq_Inr Let_def bindR_eq_Inr split: if_splits)
  show thesis
    by (rule that [OF 1(1-3) 2 [unfolded cp0] 3(1,2)]) (use all_validD [OF 3(3)] cp0 in blast)
qed

text \<open>The values a checked proof opens. One of its three openings may collide with its tree.\<close>

definition challenge_collides ::
  "('f :: field, 't, 'p) update_env \<Rightarrow> nat \<Rightarrow> nat \<Rightarrow> u8 list list \<Rightarrow> u8 list list \<Rightarrow> u8 list list \<Rightarrow> challenge_proof \<Rightarrow> bool" where
  "challenge_collides U m kd keys data replica cp \<longleftrightarrow>
     proof_collides (pq_tree_hash (de_prims (ue_drg U))) (de_arities (ue_drg U)) m keys (cf_proof_r_old cp) \<or>
     proof_collides (de_hash_d (ue_drg U)) binary_arities kd data (cf_proof_d_new cp) \<or>
     proof_collides (pq_tree_hash (de_prims (ue_drg U))) (de_arities (ue_drg U)) m replica (cf_proof_r_new cp)"

lemma challenge_binds:
  assumes v: "verify_challenge_proof U pp pi phi shr ht rows root_old root_new (c, cp) = Inr True"
    and A: "arities_ok (de_arities (ue_drg U))" and H: "merkle_hash (pq_tree_hash (de_prims (ue_drg U)))" "merkle_hash (de_hash_d (ue_drg U))"
    and old: "tree_root (pq_tree_hash (de_prims (ue_drg U))) (levels (de_arities (ue_drg U)) m) keys = Inr root_old" "length keys = leaf_count (levels (de_arities (ue_drg U)) m)"
    and new: "tree_root (pq_tree_hash (de_prims (ue_drg U))) (levels (de_arities (ue_drg U)) m) replica = Inr root_new" "length replica = leaf_count (levels (de_arities (ue_drg U)) m)"
    and data: "tree_root (de_hash_d (ue_drg U)) (levels binary_arities kd) data = Inr (ui_comm_d_new pi)" "length data = leaf_count (levels binary_arities kd)"
    and s: "shape_ok (de_arities (ue_drg U)) m (cf_proof_r_old cp)" "shape_ok binary_arities kd (cf_proof_d_new cp)" "shape_ok (de_arities (ue_drg U)) m (cf_proof_r_new cp)"
    and phi: "into_fr (rn_prims (ue_randomness U)) phi = Inr x"
  shows "challenge_collides U m kd keys data replica cp \<or>
    (\<exists>key dat. into_fr (de_prims (ue_drg U)) (keys ! unat c) = Inr key \<and> into_fr (de_prims (ue_drg U)) (data ! unat c) = Inr dat \<and>
       replica ! unat c = pq_of_fr (de_prims (ue_drg U)) (key + dat * node_rho (ue_randomness U) x shr (unat c)))"
proof -
  let ?P = "de_prims (ue_drg U)" let ?H = "pq_tree_hash ?P" and ?A = "de_arities (ue_drg U)"
  have b: "arities_ok binary_arities" by (simp add: arities_ok_def binary_arities_def)
  have m: "verify_merkle_proofs U cp c root_old (ui_comm_d_new pi) root_new = Inr True" and e: "encoding_valid U phi shr c cp = Inr True"
    using v by (auto simp: verify_challenge_proof_def bindR_eq_Inr split: if_splits)
  have p: "mp_root (cf_proof_r_old cp) = root_old" "mp_root (cf_proof_d_new cp) = ui_comm_d_new pi" "mp_root (cf_proof_r_new cp) = root_new"
      "mp_validate ?H ?A (cf_proof_r_old cp) (unat c) = Inr True" "mp_validate (de_hash_d (ue_drg U)) binary_arities (cf_proof_d_new cp) (unat c) = Inr True"
      "mp_validate ?H ?A (cf_proof_r_new cp) (unat c) = Inr True"
    using m by (auto simp: verify_merkle_proofs_def Let_def mp_validate_def bindR_eq_Inr split: if_splits)
  have leaf: "challenge_collides U m kd keys data replica cp \<or>
      mp_leaf (cf_proof_r_old cp) = keys ! unat c \<and> mp_leaf (cf_proof_d_new cp) = data ! unat c \<and> mp_leaf (cf_proof_r_new cp) = replica ! unat c"
    using merkle_hash.validate_binds [OF H(1) A old(2,1) s(1) p(1,4)] merkle_hash.validate_binds [OF H(2) b data(2,1) s(2) p(2,5)]
      merkle_hash.validate_binds [OF H(1) A new(2,1) s(3) p(3,6)] unfolding challenge_collides_def by blast
  have "unat c < 2 ^ LENGTH(32)" by (rule unsigned_less)
  then have "unat c < 2 ^ 32" by simp
  then have "unat c div 2 ^ shr < 2 ^ 32" using div_le_dividend [of "unat c" "2 ^ shr"] by (rule le_less_trans [rotated])
  then have "unat (of_nat (unat c div 2 ^ shr) :: u32) = unat c div 2 ^ shr" by (simp add: unsigned_of_nat take_bit_nat_eq_self)
  moreover have "unat (drop_bit shr c) = unat c div 2 ^ shr" unfolding unat_drop_bit_eq by (rule drop_bit_eq_div)
  ultimately have "update_rho (ue_randomness U) phi (drop_bit shr c) = Inr (node_rho (ue_randomness U) x shr (unat c))"
    using phi by (simp add: update_rho_def node_rho_def)
  then have "\<exists>key dat. into_fr ?P (mp_leaf (cf_proof_r_old cp)) = Inr key \<and> into_fr ?P (mp_leaf (cf_proof_d_new cp)) = Inr dat \<and>
      mp_leaf (cf_proof_r_new cp) = pq_of_fr ?P (key + dat * node_rho (ue_randomness U) x shr (unat c))"
    using e by (auto simp: encoding_valid_def bindR_eq_Inr Let_def split: if_splits)
  then show ?thesis using leaf by auto
qed

text \<open>
  C14. What \<open>verify\<close> accepts: for a partition of a sector update of any size whose three commitments are those of
  trees over a key, over data and over a replica, there are \<open>challenge_count\<close> challenges, they lie in the
  partition, and at every one of them the replica is the key plus the data times the multiplier that
  \<open>h\<close> and the commitments determine. The exceptions are collisions of values in the proof with committed ones: the
  roots in the proof are not those of the trees but hash with \<open>comm_c\<close> to the same commitment, or one of the
  three openings of this challenge collides with its tree.
\<close>
theorem update_verify_sound:
  assumes U: "update_ok U n m kd" and n: "n \<in> set ALLOWED_SECTOR_SIZES" and pp: "from_sector_size (32 * n) = Inr pp"
    and v: "update_verify U pp pi pr = Inr True"
    and old: "ui_comm_r_old pi = pq_hash2 (de_prims (ue_drg U)) c_old root_old" "length keys = n"
      "tree_root (pq_tree_hash (de_prims (ue_drg U))) (levels (de_arities (ue_drg U)) m) keys = Inr root_old"
    and new: "ui_comm_r_new pi = pq_hash2 (de_prims (ue_drg U)) c_new root_new" "length replica = n"
      "tree_root (pq_tree_hash (de_prims (ue_drg U))) (levels (de_arities (ue_drg U)) m) replica = Inr root_new"
    and data: "tree_root (de_hash_d (ue_drg U)) (levels binary_arities kd) data = Inr (ui_comm_d_new pi)" "length data = n"
    and s: "\<forall>cp\<in>set (uf_challenge_proofs pr). update_shape_ok U m kd cp"
  shows "pair_collides (pq_hash2 (de_prims (ue_drg U))) (uf_comm_c pr, mp_root (cf_proof_r_old (uf_challenge_proofs pr ! 0))) (c_old, root_old) \<or>
    pair_collides (pq_hash2 (de_prims (ue_drg U))) (uf_comm_c pr, mp_root (cf_proof_r_new (uf_challenge_proofs pr ! 0))) (c_new, root_new) \<or>
    (\<exists>st cs phi x. update_challenges_new (ue_randomness U) n (ui_comm_r_new pi) (ui_k pi) = Inr st \<and>
       collect_challenges (ue_randomness U) st = Inr cs \<and> length cs = challenge_count n \<and>
       update_phi (ue_randomness U) (ui_comm_d_new pi) (ui_comm_r_old pi) = Inr phi \<and> into_fr (rn_prims (ue_randomness U)) phi = Inr x \<and>
       length (uf_challenge_proofs pr) = length cs \<and>
       (\<forall>(c, cp)\<in>set (zip cs (uf_challenge_proofs pr)). unat c < n \<and> unat c * partition_count n div n = ui_k pi \<and>
          (challenge_collides U m kd keys data replica cp \<or>
           (\<exists>key dat. into_fr (de_prims (ue_drg U)) (keys ! unat c) = Inr key \<and> into_fr (de_prims (ue_drg U)) (data ! unat c) = Inr dat \<and>
             replica ! unat c = pq_of_fr (de_prims (ue_drg U)) (key + dat * node_rho (ue_randomness U) x (trailing_zeros n - ui_h pi) (unat c))))))"
proof -
  let ?X = "ue_drg U" let ?P = "de_prims ?X" and ?A = "de_arities ?X" and ?R = "ue_randomness U"
  obtain b where b: "partition_count n = 2 ^ b" "b \<le> kd"
  proof -
    obtain kd' b a where "n = 2 ^ kd'" "partition_count n = 2 ^ b" "b + a \<le> kd'" by (rule update_sizes [OF n])
    moreover have "n = 2 ^ kd" using update_okD [OF U] by (simp add: drg_ok_def)
    ultimately show thesis using that [of b] by (metis add_leD1 power_inject_exp one_less_numeral_iff semiring_norm(76))
  qed
  have D: "n = 2 ^ kd" "arities_ok ?A" "merkle_hash (pq_tree_hash ?P)" "merkle_hash (de_hash_d ?X)" "n = leaf_count (levels ?A m)" "fr_ok ?P"
    using update_okD [OF U] leaf_count_trees [of ?A m] by (simp_all add: drg_ok_def)
  have D2: "rn_prims ?R = ?P" "randomness_ok ?R" "is_ok (into_fr ?P (pq_hash2 ?P y z))" for y z using U by (simp_all add: update_ok_def)
  have ppf: "up_sector_nodes pp = n" "up_challenge_count pp = challenge_count n" "up_challenge_bit_len pp = trailing_zeros n" "up_partition_count pp = partition_count n"
    using pp from_sector_size_ok [OF n] by auto
  have kn: "ui_k pi < partition_count n" using v by (auto simp: update_verify_def ensure_eq_Inr ppf simp del: ensure_simps)
  have r: "n = partition_count n * 2 ^ (kd - b)" using D(1) b by (simp add: power_add [symmetric])
  obtain y where y: "into_fr (rn_prims ?R) (ui_comm_r_new pi) = Inr y" using D2(1,3) new(1) by (auto simp: is_ok_iff)
  obtain st cs where cs: "update_challenges_new ?R n (ui_comm_r_new pi) (ui_k pi) = Inr st" "collect_challenges ?R st = Inr cs" "length cs = challenge_count n"
      "\<forall>c\<in>set cs. unat c div 2 ^ (kd - b) = ui_k pi \<and> unat c < n" by (rule partition_challenges [OF n kn r y D2(2)])
  let ?ro = "mp_root (cf_proof_r_old (uf_challenge_proofs pr ! 0))" and ?rn = "mp_root (cf_proof_r_new (uf_challenge_proofs pr ! 0))"
  obtain phi shr ht rows where pos: "ui_k pi < partition_count n" "ui_h pi \<in> set (hs n)" and parts: "length (uf_challenge_proofs pr) = challenge_count n" "pq_hash2 ?P (uf_comm_c pr) ?ro = ui_comm_r_old pi"
      "pq_hash2 ?P (uf_comm_c pr) ?rn = ui_comm_r_new pi" "update_phi ?R (ui_comm_d_new pi) (ui_comm_r_old pi) = Inr phi" "usub (trailing_zeros n) (ui_h pi) = Inr shr"
      "\<And>e. e \<in> set (zip cs (uf_challenge_proofs pr)) \<Longrightarrow> verify_challenge_proof U pp pi phi shr ht rows ?ro ?rn e = Inr True"
    by (rule update_verify_parts [OF v, unfolded ppf, OF cs(1,2)]) (rule that; blast)
  show ?thesis
  proof (cases "?ro = root_old \<and> ?rn = root_new")
    case False
    then show ?thesis using parts(2,3) old(1) new(1) unfolding pair_collides_def by auto
  next
    case True
    obtain x where x: "into_fr (rn_prims ?R) phi = Inr x"
      using parts(4) D2(1) into_of_fr [OF D(6)] by (auto simp: update_phi_def bindR_eq_Inr)
    have shr: "shr = trailing_zeros n - ui_h pi" using parts(5) by (simp add: usub_def split: if_splits)
    have ld: "length data = leaf_count (levels binary_arities kd)" using data(2) D(1) by (simp add: leaf_count_levels binary_arities_def)
    have "challenge_collides U m kd keys data replica cp \<or> (\<exists>key dat. into_fr ?P (keys ! unat c) = Inr key \<and> into_fr ?P (data ! unat c) = Inr dat \<and>
        replica ! unat c = pq_of_fr ?P (key + dat * node_rho ?R x shr (unat c)))" if e: "(c, cp) \<in> set (zip cs (uf_challenge_proofs pr))" for c cp
      using challenge_binds [OF parts(6) [OF e] D(2-4), of m keys replica kd data x] True old(2,3) new(2,3) data(1) ld D(5) s set_zip_rightD [OF e] x
      by (auto simp: update_shape_ok_def)
    moreover have "unat c * partition_count n div n = ui_k pi" if "c \<in> set cs" for c
    proof -
      have "unat c * partition_count n div n = unat c div 2 ^ (kd - b)"
        using b(1) by (subst (2) r) (simp add: mult.commute)
      then show ?thesis using cs(4) that by simp
    qed
    ultimately have "\<forall>(c, cp)\<in>set (zip cs (uf_challenge_proofs pr)). unat c < n \<and> unat c * partition_count n div n = ui_k pi \<and>
        (challenge_collides U m kd keys data replica cp \<or> (\<exists>key dat. into_fr ?P (keys ! unat c) = Inr key \<and> into_fr ?P (data ! unat c) = Inr dat \<and>
           replica ! unat c = pq_of_fr ?P (key + dat * node_rho ?R x shr (unat c))))"
      using cs(4) by (auto dest: set_zip_leftD)
    then show ?thesis using cs parts(1,4) x unfolding shr by (intro disjI2 exI [of _ st] exI [of _ cs] exI [of _ phi] exI [of _ x]) simp
  qed
qed

theorem update_verify_sound_witness:
  "\<exists>pi pr new root_new. update_verify toy_update_1kib toy_update_params pi pr = Inr True \<and> ui_k pi = 0 \<and>
    (pair_collides (pq_hash2 toy_api_prims) (uf_comm_c pr, mp_root (cf_proof_r_old (uf_challenge_proofs pr ! 0)))
       (toy_of_fr F1, tree_root_of (de_tree (ue_drg toy_update_1kib)) toy_keys) \<or>
     pair_collides (pq_hash2 toy_api_prims) (uf_comm_c pr, mp_root (cf_proof_r_new (uf_challenge_proofs pr ! 0))) (toy_of_fr F1, root_new) \<or>
    (\<exists>st cs. update_challenges_new (ue_randomness toy_update_1kib) 32 (ui_comm_r_new pi) 0 = Inr st \<and>
       collect_challenges (ue_randomness toy_update_1kib) st = Inr cs \<and> length cs = challenge_count 32 \<and>
       (\<forall>(c, cp)\<in>set (zip cs (uf_challenge_proofs pr)). unat c < 32 \<and>
          (challenge_collides toy_update_1kib 5 5 toy_keys toy_new_data new cp \<or>
           (\<exists>key dat rho. into_fr toy_api_prims (toy_keys ! unat c) = Inr key \<and> into_fr toy_api_prims (toy_new_data ! unat c) = Inr dat \<and>
              new ! unat c = pq_of_fr toy_api_prims (key + dat * rho))))))"
proof -
  let ?U = toy_update_1kib
  obtain phi x new d2 tnew proofs where new: "tree_of (de_tree (ue_drg ?U)) (pq_tree_hash (de_prims (ue_drg ?U))) (de_arities (ue_drg ?U)) 5 True new tnew" and
    p: "\<And>k pi priv. pi = honest_inputs (de_prims (ue_drg ?U)) (toy_of_fr F1) (tree_root_of (de_tree (ue_drg ?U)) toy_keys) (tree_root_of (de_tree (ue_drg ?U)) tnew)
        (subtree_root (ue_sha256 ?U) 5 toy_new_data) 1 k \<Longrightarrow>
      priv = \<lparr>uv_comm_c = toy_of_fr F1, uv_tree_r_old_config = (toy_store ''o'' 2, toy_key_cache), uv_old_replica = Some (concat toy_keys),
        uv_tree_d_new_config = (toy_store ''d'' 0, d2), uv_tree_r_new_config = (toy_store ''r'' 2, d2), uv_replica = Some (concat new)\<rparr> \<Longrightarrow>
      update_prove_all ?U toy_update_params pi priv = Inr proofs \<and> update_verify_all ?U toy_update_params pi proofs = Inr True \<and>
      (k < partition_count 32 \<longrightarrow> update_prove ?U toy_update_params pi priv = Inr (proofs ! k) \<and> update_verify ?U toy_update_params pi (proofs ! k) = Inr True \<and>
         (\<forall>cp\<in>set (uf_challenge_proofs (proofs ! k)). update_shape_ok ?U 5 5 cp))"
    by (rule update_proofs_ok [OF toy_update_setting, of "toy_of_fr F1" "\<lambda>_. None"]) (rule that, assumption, blast)
  have "0 < partition_count 32" by (simp add: partition_count_def)
  then obtain pi where pi: "pi = honest_inputs (de_prims (ue_drg ?U)) (toy_of_fr F1) (tree_root_of (de_tree (ue_drg ?U)) toy_keys) (tree_root_of (de_tree (ue_drg ?U)) tnew)
        (subtree_root (ue_sha256 ?U) 5 toy_new_data) 1 0" "update_verify ?U toy_update_params pi (proofs ! 0) = Inr True"
      "\<forall>cp\<in>set (uf_challenge_proofs (proofs ! 0)). update_shape_ok ?U 5 5 cp" using p [OF refl refl, of 0] by blast
  have t: "length toy_keys = 32" "length new = 32" "length toy_new_data = 32"
    using toy_update_setting(2,3) new by (simp_all add: canonical_nodes_def tree_of_def leaf_count_levels toy_update_1kib_ok binary_arities_def)
  have r: "tree_root (pq_tree_hash (de_prims (ue_drg ?U))) (levels (de_arities (ue_drg ?U)) 5) toy_keys = Inr (tree_root_of (de_tree (ue_drg ?U)) toy_keys)"
    "tree_root (pq_tree_hash (de_prims (ue_drg ?U))) (levels (de_arities (ue_drg ?U)) 5) new = Inr (tree_root_of (de_tree (ue_drg ?U)) tnew)"
    using toy_update_setting(15) new by (simp_all add: tree_of_def)
  have h: "de_hash_d (ue_drg ?U) = sha256_multi_node (ue_sha256 ?U)" using toy_update_setting(1) by (simp add: update_ok_def)
  have d: "tree_root (de_hash_d (ue_drg ?U)) (levels binary_arities 5) toy_new_data = Inr (ui_comm_d_new pi)"
    using comm_root [of toy_new_data 5 "ue_sha256 ?U"] t(3) by (simp add: h pi(1) honest_inputs_def)
  have o: "ui_comm_r_old pi = pq_hash2 (de_prims (ue_drg ?U)) (toy_of_fr F1) (tree_root_of (de_tree (ue_drg ?U)) toy_keys)"
    "ui_comm_r_new pi = pq_hash2 (de_prims (ue_drg ?U)) (toy_of_fr F1) (tree_root_of (de_tree (ue_drg ?U)) tnew)" "ui_k pi = 0"
    by (simp_all add: pi(1) honest_inputs_def)
  from update_verify_sound [OF toy_update_setting(1,4,6) pi(2) o(1) t(1) r(1) o(2) t(2) r(2) d t(3) pi(3)] show ?thesis
    unfolding toy_update_1kib_ok(4-7) o(3) using pi(2) o(3)
    by (intro exI [of _ pi] exI [of _ "proofs ! 0"] exI [of _ new] exI [of _ "tree_root_of (de_tree (ue_drg ?U)) tnew"]) (fastforce split: prod.split)
qed
end
