(* ===== verification/Stacked_Compound.thy ===== *)
theory Stacked_Compound
  imports Porep_Scheme Post_Api
begin

text \<open>
  The compound proof of the stacked PoRep: the public inputs of its circuit
  (\<open>storage-proofs-porep/src/stacked/circuit/proof.rs\<close>), the operations of
  \<open>storage-proofs-core/src/compound_proof.rs\<close> on it and the padding of aggregated proofs of
  \<open>filecoin-proofs/src/api/util.rs\<close>. The Groth16 prover, its keys, the aggregation and the bytes of proofs
  are of the bellperson crate: they are given.
\<close>

section \<open>The code\<close>

subsection \<open>Public inputs of the circuit\<close>

text \<open>\<open>PoRCompound::generate_public_inputs\<close>: field elements of a challenge and of a commitment.\<close>

definition por_public_inputs :: "('d \<Rightarrow> 'f::field res) \<Rightarrow> 'd por_inputs \<Rightarrow> por_params \<Rightarrow> 'f list res" where
  "por_public_inputs domain_into_fr pub_inputs pub_params =
     ensure (pi_challenge pub_inputs < pp_leaves pub_params) ''Challenge out of range''
       (let inputs = [of_nat (pi_challenge pub_inputs)] in
        case pi_commitment pub_inputs of
          Some commitment \<Rightarrow> ensure (\<not> pp_private pub_params) ''Params must be public''
            (bindR (domain_into_fr commitment) (\<lambda>c. Inr (inputs @ [c])))
        | None \<Rightarrow> ensure (pp_private pub_params) ''Params must be private'' (Inr inputs))"

definition generate_inclusion_inputs :: "('d \<Rightarrow> 'f::field res) \<Rightarrow> por_params \<Rightarrow> nat \<Rightarrow> 'f list res" where
  "generate_inclusion_inputs domain_into_fr por_params challenge =
     por_public_inputs domain_into_fr \<lparr>pi_commitment = None, pi_challenge = challenge\<rparr> por_params"

definition inclusion_inputs_of_parents :: "('d \<Rightarrow> 'f::field res) \<Rightarrow> por_params \<Rightarrow> u32 list \<Rightarrow> 'f list res" where
  "inclusion_inputs_of_parents domain_into_fr por_params parents =
     bindR (collectR (\<lambda>parent. generate_inclusion_inputs domain_into_fr por_params (unat parent)) parents) (\<lambda>inputs. Inr (concat inputs))"

definition challenge_inputs :: "'f::field porep_prims \<Rightarrow> graph_env \<Rightarrow> por_params \<Rightarrow> nat \<Rightarrow> 'f list res option" where
  "challenge_inputs P E por_params challenge =
     (let inclusion = generate_inclusion_inputs (into_fr P) por_params; parents_of = inclusion_inputs_of_parents (into_fr P) por_params in
      bindO (Some (inclusion challenge)) (\<lambda>data.
      bindO (Some (base_parents E challenge (replicate (base_degree (base_graph (ge_graph E))) 0))) (\<lambda>drg_parents.
      bindO (Some (parents_of drg_parents)) (\<lambda>drg.
      bindO (expanded_parents (ge_blake2b E) (ge_graph E) challenge (replicate (expansion_degree (ge_graph E)) 0)) (\<lambda>exp_parents.
      bindO (Some (parents_of exp_parents)) (\<lambda>exps.
      bindO (Some (inclusion challenge)) (\<lambda>replica.
      bindO (Some (inclusion challenge)) (\<lambda>column.
      Some (Inr (data @ drg @ exps @ [of_nat challenge] @ replica @ column))))))))))"

definition stacked_public_inputs ::
  "'f::field porep_prims \<Rightarrow> prims \<Rightarrow> public_inputs \<Rightarrow> public_params \<Rightarrow> nat option \<Rightarrow> 'f list res option" where
  "stacked_public_inputs P pr pub_in pub_params k =
     (let E = ppr_graph pub_params; n = graph_size (ge_graph E) in
      if pin_seed pub_in = None then Some (Inl (Fail ''porep challenge seed must be set prior to circuit generation''))
      else bindO (Some (into_fr P (pin_replica_id pub_in))) (\<lambda>replica_id.
      bindO (Some (expectS ''missing tau'' (pin_tau pub_in))) (\<lambda>tau.
      bindO (Some (into_fr P (tau_comm_d tau))) (\<lambda>comm_d.
      bindO (Some (into_fr P (tau_comm_r tau))) (\<lambda>comm_r.
      bindO (Some (public_challenges P pr pub_in (ppr_challenges pub_params) n k)) (\<lambda>all_challenges.
      bindO (collectO (challenge_inputs P E \<lparr>pp_leaves = n, pp_private = True\<rparr>) all_challenges) (\<lambda>inputs.
      Some (Inr ([replica_id, comm_d, comm_r] @ concat inputs)))))))))"

subsection \<open>Circuits\<close>

record stacked_circuit =
  ck_replica_id :: "u8 list option"
  ck_comm_d :: "u8 list option"
  ck_comm_r :: "u8 list option"
  ck_comm_r_last :: "u8 list option"
  ck_comm_c :: "u8 list option"
  ck_proofs :: "porep_proof list"

definition stacked_circuit_of :: "public_inputs \<Rightarrow> porep_proof list \<Rightarrow> stacked_circuit res" where
  "stacked_circuit_of pub_in partition_proof =
     ensure (partition_proof \<noteq> []) ''Cannot create a circuit with no vanilla proofs''
       (let root_r = comm_r_last (hd partition_proof); root_c = comm_c (hd partition_proof) in
        ensure (list_all (\<lambda>p. comm_r_last p = root_r) partition_proof) ''inconsistent comm_r_lasts''
        (ensure (list_all (\<lambda>p. comm_c p = root_c) partition_proof) ''inconsistent comm_cs''
        (Inr \<lparr>ck_replica_id = Some (pin_replica_id pub_in), ck_comm_d = map_option tau_comm_d (pin_tau pub_in),
          ck_comm_r = map_option tau_comm_r (pin_tau pub_in), ck_comm_r_last = Some root_r, ck_comm_c = Some root_c, ck_proofs = partition_proof\<rparr>)))"

subsection \<open>Compound proofs\<close>

text \<open>
  The bellperson crate with the keys of the parameter caches: \<open>'k\<close> are keys, \<open>'g\<close> Groth16 proofs and \<open>'a\<close>
  aggregated proofs.
\<close>

datatype aggregate_version = AggV1 | AggV2

record ('f, 'k, 'g, 'a) snark =
  sn_params :: "porep_config \<Rightarrow> 'k res"
  sn_verifying_key :: "porep_config \<Rightarrow> 'k res"
  sn_srs_key :: "porep_config \<Rightarrow> nat \<Rightarrow> 'k res"
  sn_srs_verifier_key :: "porep_config \<Rightarrow> nat \<Rightarrow> 'k res"
  sn_prove :: "bool \<Rightarrow> stacked_circuit list \<Rightarrow> 'k \<Rightarrow> 'g list res"
  sn_write :: "'g \<Rightarrow> u8 list res"
  sn_read :: "u8 list \<Rightarrow> 'g res"
  sn_read_many :: "u8 list \<Rightarrow> nat \<Rightarrow> 'g list res"
  sn_verify_batch :: "'k \<Rightarrow> 'g list \<Rightarrow> 'f list list \<Rightarrow> bool res"
  sn_aggregate :: "'k \<Rightarrow> u8 list \<Rightarrow> 'g list \<Rightarrow> aggregate_version \<Rightarrow> 'a res"
  sn_verify_aggregate :: "'k \<Rightarrow> 'k \<Rightarrow> 'f list list \<Rightarrow> 'a \<Rightarrow> u8 list \<Rightarrow> aggregate_version \<Rightarrow> bool res"
  sn_write_aggregate :: "'a \<Rightarrow> u8 list res"
  sn_read_aggregate :: "u8 list \<Rightarrow> 'a res"
  sn_nproofs :: "'a \<Rightarrow> nat"

record stacked_compound =
  kc_vanilla :: public_params
  kc_partitions :: "nat option"
  kc_priority :: bool

definition MAX_GROTH16_BATCH_SIZE :: nat where "MAX_GROTH16_BATCH_SIZE = 10"

function circuit_batches :: "('c list \<Rightarrow> 'g list res) \<Rightarrow> 'c list \<Rightarrow> 'g list res" where
  "circuit_batches prove circuits =
     (if circuits = [] then Inr []
      else let n = min MAX_GROTH16_BATCH_SIZE (length circuits) in
        bindR (prove (take n circuits)) (\<lambda>proofs. bindR (circuit_batches prove (drop n circuits)) (\<lambda>rest. Inr (proofs @ rest))))"
  by pat_completeness auto
termination by (relation "measure (length \<circ> snd)") (auto simp: MAX_GROTH16_BATCH_SIZE_def)

declare circuit_batches.simps [simp del]

definition circuit_proofs ::
  "('f, 'k, 'g, 'a) snark \<Rightarrow> public_inputs \<Rightarrow> porep_proof list list \<Rightarrow> 'k \<Rightarrow> bool \<Rightarrow> 'g list res" where
  "circuit_proofs N pub_in vanilla_proofs groth_params priority =
     ensure (vanilla_proofs \<noteq> []) ''cannot create a circuit proof over missing vanilla proofs''
       (bindR (collectR (stacked_circuit_of pub_in) vanilla_proofs) (\<lambda>circuits.
        bindR (circuit_batches (\<lambda>batch. sn_prove N priority batch groth_params) circuits) (\<lambda>groth_proofs.
        collectR (\<lambda>g. bindR (sn_write N g) (sn_read N)) groth_proofs)))"

definition multi_proof_write :: "('f, 'k, 'g, 'a) snark \<Rightarrow> 'g list \<Rightarrow> u8 list res" where
  "multi_proof_write N proofs = bindR (collectR (sn_write N) proofs) (\<lambda>bs. Inr (concat bs))"

definition stacked_verify ::
  "('f::field, 'k, 'g, 'a) snark \<Rightarrow> 'f porep_prims \<Rightarrow> prims \<Rightarrow> stacked_compound \<Rightarrow> public_inputs \<Rightarrow> 'k \<Rightarrow> 'g list \<Rightarrow> nat \<Rightarrow> bool res option" where
  "stacked_verify N P pr pub_params pub_in key multi_proof minimum =
     bindO (Some (compound_partition_count (kc_partitions pub_params))) (\<lambda>n.
     if length multi_proof \<noteq> n then Some (Inl (Fail ''Inconsistent inputs''))
     else if \<not> satisfies_requirements (kc_vanilla pub_params) minimum (length multi_proof) then Some (Inr False)
     else bindO (collectO (\<lambda>k. stacked_public_inputs P pr pub_in (kc_vanilla pub_params) (Some k)) [0..<length multi_proof]) (\<lambda>inputs.
          Some (sn_verify_batch N key multi_proof inputs)))"

definition expectO :: "string \<Rightarrow> 'a res option \<Rightarrow> 'a res option" where
  "expectO msg x = map_option (expectR msg) x"

definition stacked_batch_verify ::
  "('f::field, 'k, 'g, 'a) snark \<Rightarrow> 'f porep_prims \<Rightarrow> prims \<Rightarrow> stacked_compound \<Rightarrow> public_inputs list \<Rightarrow> 'k \<Rightarrow> 'g list list \<Rightarrow> nat \<Rightarrow>
    bool res option" where
  "stacked_batch_verify N P pr pub_params pub_ins key multi_proofs minimum =
     (if length pub_ins \<noteq> length multi_proofs then Some (Inl (Fail ''Inconsistent inputs''))
      else bindO (if multi_proofs = [] then Some (Inr 0) else Some (compound_partition_count (kc_partitions pub_params))) (\<lambda>n.
      if \<not> list_all (\<lambda>proof. length proof = n) multi_proofs then Some (Inl (Fail ''Inconsistent inputs''))
      else if pub_ins = [] then Some (Inl (Fail ''Cannot verify empty proofs''))
      else if \<not> list_all (\<lambda>proof. satisfies_requirements (kc_vanilla pub_params) minimum (length proof)) multi_proofs then Some (Inr False)
      else bindO (collectO (\<lambda>(multi_proof, pub_in). expectO ''Invalid public inputs''
               (collectO (\<lambda>k. stacked_public_inputs P pr pub_in (kc_vanilla pub_params) (Some k)) [0..<length multi_proof]))
             (zip multi_proofs pub_ins)) (\<lambda>inputs.
           Some (sn_verify_batch N key (concat multi_proofs) (concat inputs)))))"

subsection \<open>Padding for aggregation\<close>

text \<open>\<open>usize::next_power_of_two\<close>, on lengths of vectors.\<close>

fun next_power_of_two :: "nat \<Rightarrow> nat" where
  "next_power_of_two n = (if n \<le> 1 then 1 else 2 * next_power_of_two ((n + 1) div 2))"

declare next_power_of_two.simps [simp del]

definition get_aggregate_target_len :: "nat \<Rightarrow> nat" where
  "get_aggregate_target_len len = (if len = 1 then 2 else next_power_of_two len)"

definition SRS_MAX_PROOFS_TO_AGGREGATE :: nat where "SRS_MAX_PROOFS_TO_AGGREGATE = 65536"

definition pad_proofs_to_target :: "'g list \<Rightarrow> nat \<Rightarrow> 'g list res" where
  "pad_proofs_to_target proofs target_len =
     ensure (length proofs \<le> target_len) ''target len must be greater than actual num proofs''
     (ensure (proofs \<noteq> []) ''invalid last proof for duplication''
     (let proofs = proofs @ replicate (target_len - length proofs) (last proofs) in
      ensure (next_power_of_two (length proofs) = length proofs) ''proof count must be a power of 2 for aggregation''
      (ensure (length proofs \<le> SRS_MAX_PROOFS_TO_AGGREGATE) ''proof count for aggregation is larger than the max supported value''
      (Inr proofs))))"

text \<open>The loop does not end when nothing is added to inputs that are too few.\<close>

partial_function (option) pad_inputs_loop :: "'x list \<Rightarrow> nat \<Rightarrow> nat \<Rightarrow> nat \<Rightarrow> 'x list \<Rightarrow> 'x list res option" where
  "pad_inputs_loop duplicate_inputs num_inputs_per_proof target_len num_inputs new_inputs =
     (if target_len = num_inputs then Some (Inr new_inputs)
      else let new_inputs = new_inputs @ duplicate_inputs; num_inputs = num_inputs + num_inputs_per_proof in
        if num_inputs \<le> target_len then pad_inputs_loop duplicate_inputs num_inputs_per_proof target_len num_inputs new_inputs
        else Some (Inl (Fail ''num_inputs extended beyond target'')))"

definition pad_inputs_to_target :: "'x list \<Rightarrow> nat \<Rightarrow> nat \<Rightarrow> 'x list res option" where
  "pad_inputs_to_target fr_inputs num_inputs_per_proof target_len =
     (let num_inputs = length fr_inputs in
      if fr_inputs = [] then Some (Inl (Fail ''cannot aggregate with empty public inputs''))
      else if target_len = num_inputs then Some (Inr fr_inputs)
      else if \<not> num_inputs < target_len then Some (Inl (Fail ''target len must be greater than actual num inputs''))
      else bindO (Some (usub num_inputs num_inputs_per_proof)) (\<lambda>start.
           pad_inputs_loop (drop start fr_inputs) num_inputs_per_proof target_len num_inputs fr_inputs))"

section \<open>Padding\<close>

lemma next_power_of_two_bounds: "n \<le> next_power_of_two n" "0 < n \<Longrightarrow> next_power_of_two n < 2 * n"
  "\<exists>k. next_power_of_two n = 2 ^ k"
proof (induction n rule: next_power_of_two.induct)
  case (1 n)
  { case 1 show ?case using "1.IH"(1) by (subst next_power_of_two.simps) auto }
  { case 2
    show ?case
    proof (cases "n \<le> 1")
      case False
      then obtain k where k: "next_power_of_two ((n + 1) div 2) = 2 ^ k" using "1.IH"(3) by blast
      have "(2::nat) ^ k < 2 * ((n + 1) div 2)" using "1.IH"(2) False k by simp
      moreover have "(2::nat) ^ k \<noteq> n" if "odd n" using that False by (cases k) auto
      ultimately have "(2::nat) ^ k < n" using False by (cases "even n") (auto elim!: evenE oddE)
      then show ?thesis using False k by (subst next_power_of_two.simps) simp
    qed (use 2 in \<open>subst next_power_of_two.simps, auto\<close>) }
  { case 3 show ?case
    proof (cases "n \<le> 1")
      case False
      then obtain k where "next_power_of_two ((n + 1) div 2) = 2 ^ k" using "1.IH"(3) by blast
      then show ?thesis using False by (subst next_power_of_two.simps) (auto intro: exI [of _ "Suc k"])
    qed (subst next_power_of_two.simps, auto intro: exI [of _ 0]) }
qed

lemma next_power_of_two_pow [simp]: "next_power_of_two (2 ^ k) = 2 ^ k"
proof -
  obtain j where j: "next_power_of_two (2 ^ k) = 2 ^ j" using next_power_of_two_bounds(3) by blast
  have "2 ^ k \<le> (2::nat) ^ j" "(2::nat) ^ j < 2 ^ Suc k" using next_power_of_two_bounds(1,2) [of "2 ^ k"] by (simp_all add: j)
  then have "k \<le> j" "j < Suc k" by (simp_all only: power_increasing_iff power_strict_increasing_iff one_less_numeral_iff semiring_norm)
  then show ?thesis using j by simp
qed

lemma target_len: "0 < n \<Longrightarrow> \<exists>k. get_aggregate_target_len n = 2 ^ k \<and> 0 < k \<and> n \<le> 2 ^ k \<and> (2::nat) ^ k \<le> 2 * n"
proof (cases "n = 1")
  case False
  assume "0 < n"
  then have n: "2 \<le> n" using False by simp
  obtain k where k: "next_power_of_two n = 2 ^ k" using next_power_of_two_bounds(3) by blast
  have "0 < k" using next_power_of_two_bounds(1) [of n] n k by (cases k) auto
  then show ?thesis using next_power_of_two_bounds(1,2) [of n] n k by (intro exI [of _ k]) (simp add: get_aggregate_target_len_def)
qed (auto simp: get_aggregate_target_len_def intro: exI [of _ 1])
end
