(* ===== verification/Update_Compound.thy ===== *)
theory Update_Compound
  imports Update_Proofs Stacked_Compound
begin

text \<open>
  The compound proof of sector updates: the inputs of its circuit (\<open>storage-proofs-update/src/circuit.rs\<close>, up to the
  synthesis), \<open>storage-proofs-update/src/compound.rs\<close>, and the operations of
  \<open>storage-proofs-core/src/compound_proof.rs\<close> on it. Unknown values of a blank circuit are \<open>None\<close>.
\<close>

section \<open>The code\<close>

subsection \<open>Inputs of the circuit\<close>

record 'f circuit_public =
  cu_k_and_h_select :: "'f option"
  cu_comm_r_old :: "'f option"
  cu_comm_d_new :: "'f option"
  cu_comm_r_new :: "'f option"

definition circuit_public_new :: "'f::field porep_prims \<Rightarrow> nat \<Rightarrow> nat \<Rightarrow> nat \<Rightarrow> u8 list \<Rightarrow> u8 list \<Rightarrow> u8 list \<Rightarrow> 'f circuit_public res" where
  "circuit_public_new P sector_nodes k h comm_r_old comm_d_new comm_r_new =
     (let partitions = partition_count sector_nodes in
      if \<not> k < partitions then Inl (Panic ''partition-index `k` exceeds partition-count for sector-size'')
      else bindR (h_select sector_nodes h) (\<lambda>h_sel.
        let partition_bit_len = trailing_zeros partitions; k_and_h_select = (of_nat k :: u64) OR push_bit partition_bit_len h_sel in
        bindR (into_fr P comm_r_old) (\<lambda>comm_r_old. bindR (into_fr P comm_d_new) (\<lambda>comm_d_new. bindR (into_fr P comm_r_new) (\<lambda>comm_r_new.
        Inr \<lparr>cu_k_and_h_select = Some (of_nat (unat k_and_h_select)), cu_comm_r_old = Some comm_r_old, cu_comm_d_new = Some comm_d_new,
          cu_comm_r_new = Some comm_r_new\<rparr>)))))"

definition circuit_public_empty :: "'f circuit_public" where
  "circuit_public_empty = \<lparr>cu_k_and_h_select = None, cu_comm_r_old = None, cu_comm_d_new = None, cu_comm_r_new = None\<rparr>"

definition unwrapR :: "'a option \<Rightarrow> 'a res" where
  "unwrapR x = (case x of None \<Rightarrow> Inl (Panic ''called `Option::unwrap()` on a `None` value'') | Some y \<Rightarrow> Inr y)"

definition circuit_public_to_vec :: "'f circuit_public \<Rightarrow> 'f list res" where
  "circuit_public_to_vec c = collectR unwrapR [cu_k_and_h_select c, cu_comm_r_old c, cu_comm_d_new c, cu_comm_r_new c]"

record 'f circuit_challenge =
  cc_leaf_r_old :: "'f option"
  cc_path_r_old :: "'f option list list"
  cc_leaf_d_new :: "'f option"
  cc_path_d_new :: "'f option list list"
  cc_leaf_r_new :: "'f option"
  cc_path_r_new :: "'f option list list"

text \<open>The path of a proof: the siblings as field elements, the positions dropped.\<close>

definition circuit_path :: "'f porep_prims \<Rightarrow> u8 list proof_data \<Rightarrow> 'f option list list res" where
  "circuit_path P p = collectR (\<lambda>(siblings, _). collectR (\<lambda>s. bindR (into_fr P s) (\<lambda>x. Inr (Some x))) siblings) (mp_path p)"

definition circuit_leaf :: "'f porep_prims \<Rightarrow> u8 list proof_data \<Rightarrow> 'f option res" where
  "circuit_leaf P p = bindR (into_fr P (mp_leaf p)) (\<lambda>x. Inr (Some x))"

definition from_merkle_proofs :: "'f porep_prims \<Rightarrow> u8 list proof_data \<Rightarrow> u8 list proof_data \<Rightarrow> u8 list proof_data \<Rightarrow> 'f circuit_challenge res" where
  "from_merkle_proofs P proof_r_old proof_d_new proof_r_new =
     bindR (circuit_leaf P proof_r_old) (\<lambda>leaf_r_old. bindR (circuit_path P proof_r_old) (\<lambda>path_r_old.
     bindR (circuit_leaf P proof_d_new) (\<lambda>leaf_d_new. bindR (circuit_path P proof_d_new) (\<lambda>path_d_new.
     bindR (circuit_leaf P proof_r_new) (\<lambda>leaf_r_new. bindR (circuit_path P proof_r_new) (\<lambda>path_r_new.
     Inr \<lparr>cc_leaf_r_old = leaf_r_old, cc_path_r_old = path_r_old, cc_leaf_d_new = leaf_d_new, cc_path_d_new = path_d_new,
       cc_leaf_r_new = leaf_r_new, cc_path_r_new = path_r_new\<rparr>))))))"

definition circuit_challenge_of :: "'f porep_prims \<Rightarrow> challenge_proof \<Rightarrow> 'f circuit_challenge res" where
  "circuit_challenge_of P cp = from_merkle_proofs P (cf_proof_r_old cp) (cf_proof_d_new cp) (cf_proof_r_new cp)"

text \<open>The paths of a blank circuit.\<close>

definition empty_path_r :: "arities \<Rightarrow> nat \<Rightarrow> 'f option list list res" where
  "empty_path_r A challenge_bit_len =
     bindR (if 0 < sub_tree_arity A then bindR (usub challenge_bit_len (trailing_zeros (sub_tree_arity A))) (\<lambda>b. Inr ([replicate (sub_tree_arity A - 1) None], b))
            else Inr ([], challenge_bit_len)) (\<lambda>(sub_path, bits_remaining).
     bindR (if 0 < top_tree_arity A then bindR (usub bits_remaining (trailing_zeros (top_tree_arity A))) (\<lambda>b. Inr (sub_path @ [replicate (top_tree_arity A - 1) None], b))
            else Inr (sub_path, bits_remaining)) (\<lambda>(sub_and_top_path, bits_remaining).
     bindR (udiv bits_remaining (trailing_zeros (base_arity A))) (\<lambda>base_path_len.
     bindR (usub (base_arity A) 1) (\<lambda>siblings.
     Inr (replicate base_path_len (replicate siblings None) @ sub_and_top_path)))))"

definition circuit_challenge_empty :: "arities \<Rightarrow> nat \<Rightarrow> 'f circuit_challenge res" where
  "circuit_challenge_empty A sector_nodes =
     (let challenge_bit_len = trailing_zeros sector_nodes; path_d = replicate challenge_bit_len [None] in
      bindR (empty_path_r A challenge_bit_len) (\<lambda>path_r.
      Inr \<lparr>cc_leaf_r_old = None, cc_path_r_old = path_r, cc_leaf_d_new = None, cc_path_d_new = path_d, cc_leaf_r_new = None, cc_path_r_new = path_r\<rparr>))"

record 'f circuit_private =
  cv_comm_c :: "'f option"
  cv_root_r_old :: "'f option"
  cv_root_r_new :: "'f option"
  cv_apex_leafs :: "'f option list"
  cv_challenge_proofs :: "'f circuit_challenge list"

definition circuit_private_new :: "'f porep_prims \<Rightarrow> u8 list \<Rightarrow> u8 list list \<Rightarrow> challenge_proof list \<Rightarrow> 'f circuit_private res" where
  "circuit_private_new P root_c apex_leafs challenge_proofs =
     bindR (at_index challenge_proofs 0) (\<lambda>cp0.
     bindR (into_fr P (mp_root (cf_proof_r_old cp0))) (\<lambda>root_r_old.
     bindR (into_fr P (mp_root (cf_proof_r_new cp0))) (\<lambda>root_r_new.
     bindR (collectR (\<lambda>leaf. bindR (into_fr P leaf) (\<lambda>x. Inr (Some x))) apex_leafs) (\<lambda>apex_leafs.
     bindR (collectR (circuit_challenge_of P) challenge_proofs) (\<lambda>challenge_proofs.
     bindR (into_fr P root_c) (\<lambda>root_c.
     Inr \<lparr>cv_comm_c = Some root_c, cv_root_r_old = Some root_r_old, cv_root_r_new = Some root_r_new, cv_apex_leafs = apex_leafs,
       cv_challenge_proofs = challenge_proofs\<rparr>))))))"

definition circuit_private_empty :: "arities \<Rightarrow> nat \<Rightarrow> 'f circuit_private res" where
  "circuit_private_empty A sector_nodes =
     bindR (circuit_challenge_empty A sector_nodes) (\<lambda>cp.
     Inr \<lparr>cv_comm_c = None, cv_root_r_old = None, cv_root_r_new = None, cv_apex_leafs = replicate (apex_leaf_count sector_nodes) None,
       cv_challenge_proofs = replicate (challenge_count sector_nodes) cp\<rparr>)"

record 'f update_circuit =
  uk_pub_params :: update_params
  uk_pub_inputs :: "'f circuit_public"
  uk_priv_inputs :: "'f circuit_private"

definition update_circuit_blank :: "arities \<Rightarrow> update_params \<Rightarrow> 'f update_circuit res" where
  "update_circuit_blank A pp =
     bindR (from_sector_size (up_sector_nodes pp * 2 ^ 5)) (\<lambda>expected.
     if expected \<noteq> pp then Inl (Panic ''invalid public-params for sector-size'')
     else bindR (circuit_private_empty A (up_sector_nodes pp)) (\<lambda>priv.
       Inr \<lparr>uk_pub_params = pp, uk_pub_inputs = circuit_public_empty, uk_priv_inputs = priv\<rparr>))"

subsection \<open>Compound proofs\<close>

definition update_public_inputs :: "'f::field porep_prims \<Rightarrow> update_inputs \<Rightarrow> update_params \<Rightarrow> nat option \<Rightarrow> 'f list res" where
  "update_public_inputs P pub_inputs pub_params k =
     (let k = unwrap_or k (ui_k pub_inputs) in
      bindR (circuit_public_new P (up_sector_nodes pub_params) k (ui_h pub_inputs) (ui_comm_r_old pub_inputs) (ui_comm_d_new pub_inputs) (ui_comm_r_new pub_inputs))
        circuit_public_to_vec)"

definition update_circuit_of :: "'f::field porep_prims \<Rightarrow> update_inputs \<Rightarrow> update_proof \<Rightarrow> update_params \<Rightarrow> nat option \<Rightarrow> 'f update_circuit res" where
  "update_circuit_of P pub_inputs vanilla pub_params k =
     (let k = unwrap_or k (ui_k pub_inputs) in
      bindR (circuit_public_new P (up_sector_nodes pub_params) k (ui_h pub_inputs) (ui_comm_r_old pub_inputs) (ui_comm_d_new pub_inputs) (ui_comm_r_new pub_inputs))
        (\<lambda>pub_inputs.
      bindR (circuit_private_new P (uf_comm_c vanilla) (uf_apex_leafs vanilla) (uf_challenge_proofs vanilla)) (\<lambda>priv_inputs.
      Inr \<lparr>uk_pub_params = pub_params, uk_pub_inputs = pub_inputs, uk_priv_inputs = priv_inputs\<rparr>)))"

text \<open>The keys of the circuit from the parameter caches, and its prover in the bellperson crate.\<close>

record ('f, 'k, 'g) update_groth =
  ug_params :: "porep_config \<Rightarrow> 'k res"
  ug_verifying_key :: "porep_config \<Rightarrow> 'k res"
  ug_prove :: "bool \<Rightarrow> 'f update_circuit list \<Rightarrow> 'k \<Rightarrow> 'g list res"

record update_compound =
  uc_vanilla :: update_params
  uc_partitions :: "nat option"
  uc_priority :: bool

definition update_compound_setup :: "nat \<Rightarrow> nat option \<Rightarrow> bool \<Rightarrow> update_compound res" where
  "update_compound_setup sector_bytes partitions priority =
     bindR (from_sector_size sector_bytes) (\<lambda>vanilla_params. Inr \<lparr>uc_vanilla = vanilla_params, uc_partitions = partitions, uc_priority = priority\<rparr>)"

definition update_circuit_proofs ::
  "('f::field, 'k, 'g, 'a) snark \<Rightarrow> ('f, 'k, 'g) update_groth \<Rightarrow> 'f porep_prims \<Rightarrow> update_inputs \<Rightarrow> update_proof list \<Rightarrow> update_params \<Rightarrow> 'k \<Rightarrow> bool \<Rightarrow>
    'g list res" where
  "update_circuit_proofs N G P pub_in vanilla_proofs pub_params groth_params priority =
     ensure (vanilla_proofs \<noteq> []) ''cannot create a circuit proof over missing vanilla proofs''
       (bindR (collectR (\<lambda>(k, vanilla). update_circuit_of P pub_in vanilla pub_params (Some k)) (enumerate 0 vanilla_proofs)) (\<lambda>circuits.
        bindR (circuit_batches (\<lambda>batch. ug_prove G priority batch groth_params) circuits) (\<lambda>groth_proofs.
        collectR (\<lambda>g. bindR (sn_write N g) (sn_read N)) groth_proofs)))"

definition update_compound_prove ::
  "('f::field, 't, 'p) update_env \<Rightarrow> ('f, 'k, 'g, 'a) snark \<Rightarrow> ('f, 'k, 'g) update_groth \<Rightarrow> update_compound \<Rightarrow> update_inputs \<Rightarrow> update_private \<Rightarrow> 'k \<Rightarrow>
    'g list res" where
  "update_compound_prove U N G pub_params pub_in priv_in groth_params =
     bindR (compound_partition_count (uc_partitions pub_params)) (\<lambda>n.
     ensure (0 < n) ''There must be partitions''
       (bindR (update_prove_all U (uc_vanilla pub_params) pub_in priv_in) (\<lambda>vanilla_proofs.
        bindR (update_verify_all U (uc_vanilla pub_params) pub_in vanilla_proofs) (\<lambda>sanity_check.
        ensure sanity_check ''sanity check failed''
          (update_circuit_proofs N G (de_prims (ue_drg U)) pub_in vanilla_proofs (uc_vanilla pub_params) groth_params (uc_priority pub_params))))))"

definition update_compound_prove_with_vanilla ::
  "('f::field, 'k, 'g, 'a) snark \<Rightarrow> ('f, 'k, 'g) update_groth \<Rightarrow> 'f porep_prims \<Rightarrow> update_compound \<Rightarrow> update_inputs \<Rightarrow> update_proof list \<Rightarrow> 'k \<Rightarrow>
    'g list res" where
  "update_compound_prove_with_vanilla N G P pub_params pub_in vanilla_proofs groth_params =
     bindR (compound_partition_count (uc_partitions pub_params)) (\<lambda>n.
     ensure (0 < n) ''There must be partitions''
       (update_circuit_proofs N G P pub_in vanilla_proofs (uc_vanilla pub_params) groth_params (uc_priority pub_params)))"

definition update_compound_verify ::
  "('f::field, 'k, 'g, 'a) snark \<Rightarrow> 'f porep_prims \<Rightarrow> update_compound \<Rightarrow> update_inputs \<Rightarrow> 'k \<Rightarrow> 'g list \<Rightarrow> bool res" where
  "update_compound_verify N P pub_params pub_in key multi_proof =
     bindR (compound_partition_count (uc_partitions pub_params)) (\<lambda>n.
     ensure (length multi_proof = n) ''Inconsistent inputs''
       (bindR (collectR (\<lambda>k. update_public_inputs P pub_in (uc_vanilla pub_params) (Some k)) [0..<length multi_proof]) (\<lambda>inputs.
        sn_verify_batch N key multi_proof inputs)))"

section \<open>Shapes of circuits\<close>

text \<open>The numbers of values in a circuit, from which its constraints are generated.\<close>

definition challenge_shape :: "'f circuit_challenge \<Rightarrow> nat list \<times> nat list \<times> nat list" where
  "challenge_shape cp = (map length (cc_path_r_old cp), map length (cc_path_d_new cp), map length (cc_path_r_new cp))"

definition circuit_shape :: "'f circuit_private \<Rightarrow> nat \<times> (nat list \<times> nat list \<times> nat list) list" where
  "circuit_shape c = (length (cv_apex_leafs c), map challenge_shape (cv_challenge_proofs c))"

definition update_canonical :: "arities \<Rightarrow> nat \<Rightarrow> nat \<Rightarrow> challenge_proof \<Rightarrow> bool" where
  "update_canonical A m kd cp \<longleftrightarrow> mp_canonical A m (cf_proof_r_old cp) \<and> mp_canonical binary_arities kd (cf_proof_d_new cp) \<and>
     mp_canonical A m (cf_proof_r_new cp)"

lemma circuit_path_lengths:
  assumes "circuit_path P p = Inr path" and "mp_canonical A k p"
  shows "map length path = map (\<lambda>a. a - 1) (map fst (levels A k))"
proof (rule nth_equalityI)
  have l: "list_all2 (\<lambda>(sibs, i) a. length sibs = a - 1 \<and> i < a \<and> (\<forall>x\<in>set sibs. length x = 32)) (mp_path p) (map fst (levels A k))"
    using assms(2) by (simp add: mp_canonical_def)
  have lp: "length path = length (mp_path p)" using collectR_length [OF assms(1) [unfolded circuit_path_def]] .
  then show "length (map length path) = length (map (\<lambda>a. a - 1) (map fst (levels A k)))" using list_all2_lengthD [OF l] by simp
  fix i assume "i < length (map length path)"
  then have i: "i < length path" by simp
  obtain sibs j where s: "mp_path p ! i = (sibs, j)" by (cases "mp_path p ! i")
  then have "collectR (\<lambda>s. bindR (into_fr P s) (\<lambda>x. Inr (Some x))) sibs = Inr (path ! i)"
    using collectR_nth [OF assms(1) [unfolded circuit_path_def], of i] i lp by simp
  then have "length (path ! i) = length sibs" by (rule collectR_length)
  moreover have "length sibs = map fst (levels A k) ! i - 1" using list_all2_nthD [OF l, of i] s i lp by simp
  ultimately show "map length path ! i = map (\<lambda>a. a - 1) (map fst (levels A k)) ! i" using i lp list_all2_lengthD [OF l] by simp
qed

text \<open>The shapes of the trees that are allowed.\<close>

lemma valid_shapes:
  assumes "validate_tree_r_shape A n = Inr ()"
  shows "base_arity A = 8" and "sub_tree_arity A = 0 \<and> top_tree_arity A = 0 \<or> (\<exists>s>0. sub_tree_arity A = 2 ^ s) \<and> (top_tree_arity A = 0 \<or> top_tree_arity A = 2)"
proof -
  have s: "base_arity A = 8 \<and> (sub_tree_arity A = 0 \<and> top_tree_arity A = 0 \<or> (sub_tree_arity A = 2 \<or> sub_tree_arity A = 4 \<or> sub_tree_arity A = 8) \<and>
      (top_tree_arity A = 0 \<or> top_tree_arity A = 2))"
    using assms unfolding validate_tree_r_shape_def by (auto simp: bindR_eq_Inr split: if_splits option.splits)
  have "\<exists>s>0. a = 2 ^ s" if "a = 2 \<or> a = 4 \<or> a = 8" for a :: nat
    using that by (elim disjE) (rule exI [of _ 1], simp, rule exI [of _ 2], simp, rule exI [of _ 3], simp)
  then show "base_arity A = 8" "sub_tree_arity A = 0 \<and> top_tree_arity A = 0 \<or> (\<exists>s>0. sub_tree_arity A = 2 ^ s) \<and> (top_tree_arity A = 0 \<or> top_tree_arity A = 2)"
    using s by blast+
qed

lemma empty_path_ok:
  assumes "validate_tree_r_shape A n = Inr ()" and n: "n = leaf_count (levels A m)"
  obtains path where "empty_path_r A (trailing_zeros n) = Inr path" "map length path = map (\<lambda>a. a - 1) (map fst (levels A m))"
proof -
  have p8: "(8::nat) ^ m = 2 ^ (3 * m)" by (simp add: power_mult)
  have tz: "trailing_zeros 8 = 3" using trailing_zeros_2p [of 3] by simp
  have b: "base_arity A = 8" using valid_shapes(1) [OF assms(1)] .
  consider "sub_tree_arity A = 0" "top_tree_arity A = 0" | s where "0 < s" "sub_tree_arity A = 2 ^ s" "top_tree_arity A = 0"
    | s where "0 < s" "sub_tree_arity A = 2 ^ s" "top_tree_arity A = 2" using valid_shapes(2) [OF assms(1)] by metis
  then show thesis
  proof cases
    case 1
    then have "n = 2 ^ (3 * m)" using n b p8 by (simp add: leaf_count_levels)
    then show ?thesis using that 1 b tz by (simp add: empty_path_r_def levels_arities udiv_def usub_def)
  next
    case (2 s)
    then have "n = 2 ^ (3 * m + s)" using n b p8 by (simp add: leaf_count_levels power_add)
    then show ?thesis using that 2 b tz by (simp add: empty_path_r_def levels_arities udiv_def usub_def)
  next
    case (3 s)
    then have "n = 2 ^ (3 * m + s + 1)" using n b p8 by (simp add: leaf_count_levels power_add)
    then have "trailing_zeros n = 3 * m + s + 1" by (simp only: trailing_zeros_2p)
    moreover have "trailing_zeros 2 = 1" using trailing_zeros_2p [of 1] by simp
    ultimately show ?thesis using that 3 b tz by (simp add: empty_path_r_def levels_arities udiv_def usub_def)
  qed
qed

text \<open>
  C30. The circuit that the Groth16 parameters are generated from has the shape of the circuits that are proved: for every
  sector size with its tree shape and every vanilla proof of the counts that \<open>verify\<close> asks for, whose Merkle proofs
  have the siblings of their trees, the circuit of any partition has as many values at every place as the blank circuit.
\<close>
theorem blank_circuit_shape:
  assumes "n \<in> set ALLOWED_SECTOR_SIZES" and "from_sector_size (32 * n) = Inr pp" and "validate_tree_r_shape A n = Inr ()" and "n = leaf_count (levels A m)" and "n = 2 ^ kd"
    and "length (uf_apex_leafs pr) = up_apex_leaf_count pp" and "length (uf_challenge_proofs pr) = up_challenge_count pp"
    and "\<forall>cp\<in>set (uf_challenge_proofs pr). update_canonical A m kd cp"
    and "update_circuit_of (P :: 'f::field porep_prims) pi pr pp k = Inr c"
  shows "\<exists>b :: 'f update_circuit. update_circuit_blank A pp = Inr b \<and> uk_pub_params b = uk_pub_params c \<and> circuit_shape (uk_priv_inputs b) = circuit_shape (uk_priv_inputs c)"
proof -
  have pp: "up_sector_nodes pp = n" "up_challenge_count pp = challenge_count n" "up_apex_leaf_count pp = apex_leaf_count n"
    using assms(2) from_sector_size_ok [OF assms(1)] by auto
  obtain path :: "'f option list list" where path: "empty_path_r A (trailing_zeros n) = Inr path" "map length path = map (\<lambda>a. a - 1) (map fst (levels A m))"
    by (rule empty_path_ok [OF assms(3,4), where 'a = 'f])
  define cp0 where "cp0 = \<lparr>cc_leaf_r_old = None, cc_path_r_old = path, cc_leaf_d_new = None, cc_path_d_new = replicate kd [None], cc_leaf_r_new = None, cc_path_r_new = path\<rparr>"
  have d: "map (\<lambda>a. a - 1) (map fst (levels binary_arities kd)) = replicate kd 1" unfolding levels_arities by (simp add: binary_arities_def)
  have b: "update_circuit_blank A pp = Inr \<lparr>uk_pub_params = pp, uk_pub_inputs = circuit_public_empty, uk_priv_inputs =
      \<lparr>cv_comm_c = None, cv_root_r_old = None, cv_root_r_new = None, cv_apex_leafs = replicate (apex_leaf_count n) None, cv_challenge_proofs = replicate (challenge_count n) cp0\<rparr>\<rparr>"
    using assms(2,5) path(1) unfolding update_circuit_blank_def pp
    by (simp add: mult.commute circuit_private_empty_def circuit_challenge_empty_def Let_def cp0_def)
  obtain priv where c: "circuit_private_new P (uf_comm_c pr) (uf_apex_leafs pr) (uf_challenge_proofs pr) = Inr priv" "uk_priv_inputs c = priv" "uk_pub_params c = pp"
    using assms(9) by (auto simp: update_circuit_of_def Let_def bindR_eq_Inr)
  have a: "length (cv_apex_leafs priv) = length (uf_apex_leafs pr)" "collectR (circuit_challenge_of P) (uf_challenge_proofs pr) = Inr (cv_challenge_proofs priv)"
    using c(1) by (auto simp: circuit_private_new_def bindR_eq_Inr collectR_length)
  have s: "challenge_shape y = challenge_shape cp0" if "circuit_challenge_of P cp = Inr y" "update_canonical A m kd cp" for cp y
  proof -
    have p: "circuit_path P (cf_proof_r_old cp) = Inr (cc_path_r_old y)" "circuit_path P (cf_proof_d_new cp) = Inr (cc_path_d_new y)"
        "circuit_path P (cf_proof_r_new cp) = Inr (cc_path_r_new y)"
      using that(1) by (auto simp: circuit_challenge_of_def from_merkle_proofs_def bindR_eq_Inr)
    show ?thesis
      using circuit_path_lengths [OF p(1), of A m] circuit_path_lengths [OF p(2), of binary_arities kd] circuit_path_lengths [OF p(3), of A m] that(2) path(2) d
      by (simp add: challenge_shape_def cp0_def update_canonical_def)
  qed
  have l: "length (cv_challenge_proofs priv) = challenge_count n" using collectR_length [OF a(2)] assms(7) pp by simp
  have "map challenge_shape (cv_challenge_proofs priv) = replicate (challenge_count n) (challenge_shape cp0)"
  proof (rule nth_equalityI)
    fix i assume "i < length (map challenge_shape (cv_challenge_proofs priv))"
    then have i: "i < length (uf_challenge_proofs pr)" using collectR_length [OF a(2)] by simp
    then show "map challenge_shape (cv_challenge_proofs priv) ! i = replicate (challenge_count n) (challenge_shape cp0) ! i"
      using s [OF collectR_nth [OF a(2) i]] assms(8) l collectR_length [OF a(2)] by simp
  qed (simp add: l)
  then show ?thesis using b c a(1) assms(6) pp by (simp add: circuit_shape_def)
qed

definition toy_octree :: arities where "toy_octree = \<lparr>base_arity = 8, sub_tree_arity = 0, top_tree_arity = 0\<rparr>"

definition toy_opening :: "arities \<Rightarrow> nat \<Rightarrow> u8 list proof_data" where
  "toy_opening A k = projr (from_parts A (toy_of_fr F1) (toy_of_fr F0) (replicate k (replicate (base_arity A - 1) (toy_of_fr F1), 0)))"

definition toy_partition :: update_proof where
  "toy_partition = \<lparr>uf_comm_c = toy_of_fr F1, uf_apex_leafs = replicate 8 (toy_of_fr F1), uf_challenge_proofs = replicate 10
     \<lparr>cf_proof_r_old = toy_opening toy_octree 2, cf_proof_d_new = toy_opening binary_arities 6, cf_proof_r_new = toy_opening toy_octree 2\<rparr>\<rparr>"

lemma toy_opening_canonical:
  assumes "sub_tree_arity A = 0" "top_tree_arity A = 0" "0 < base_arity A"
  shows "mp_canonical A k (toy_opening A k)" "mp_path (toy_opening A k) = replicate k (replicate (base_arity A - 1) (toy_of_fr F1), 0)"
    "mp_leaf (toy_opening A k) = toy_of_fr F1" "mp_root (toy_opening A k) = toy_of_fr F0"
proof -
  show p: "mp_path (toy_opening A k) = replicate k (replicate (base_arity A - 1) (toy_of_fr F1), 0)"
      "mp_leaf (toy_opening A k) = toy_of_fr F1" "mp_root (toy_opening A k) = toy_of_fr F0"
    using assms by (simp_all add: toy_opening_def from_parts_def mp_path_def element_of_def)
  show "mp_canonical A k (toy_opening A k)"
    unfolding mp_canonical_def p using assms
    by (simp add: toy_opening_def from_parts_def levels_arities toy_of_fr_def list_all2_conv_all_nth)
qed

lemma collectR_all_same: "f x = Inr y \<Longrightarrow> collectR f (replicate k x) = Inr (replicate k y)"
  by (induction k) simp_all

theorem blank_circuit_shape_witness:
  "\<exists>pp c b. from_sector_size 2048 = Inr pp \<and>
    update_circuit_of toy_api_prims \<lparr>ui_k = 0, ui_comm_r_old = toy_of_fr F0, ui_comm_d_new = toy_of_fr F1, ui_comm_r_new = toy_of_fr F0, ui_h = 1\<rparr> toy_partition pp (Some 0) = Inr c \<and>
    update_circuit_blank toy_octree pp = Inr (b :: toy_fr update_circuit) \<and> circuit_shape (uk_priv_inputs b) = circuit_shape (uk_priv_inputs c)"
proof -
  let ?pi = "\<lparr>ui_k = 0, ui_comm_r_old = toy_of_fr F0, ui_comm_d_new = toy_of_fr F1, ui_comm_r_new = toy_of_fr F0, ui_h = 1\<rparr>"
  have n: "(64::nat) \<in> set ALLOWED_SECTOR_SIZES" by (simp add: ALLOWED_SECTOR_SIZES_def sector_sizes)
  obtain pp where pp: "from_sector_size (32 * 64) = Inr pp" "up_sector_nodes pp = 64" "up_apex_leaf_count pp = 8" "up_challenge_count pp = 10"
    using from_sector_size_ok [OF n] by (auto simp: apex_leaf_count_def challenge_count_def sector_sizes)
  have v: "validate_tree_r_shape toy_octree 64 = Inr ()" by (simp add: validate_tree_r_shape_def toy_octree_def sector_sizes)
  have s: "(64::nat) = leaf_count (levels toy_octree 2)" "(64::nat) = 2 ^ 6" by (simp_all add: leaf_count_levels toy_octree_def)
  have f: "into_fr toy_api_prims (toy_of_fr x) = Inr x" for x
    using into_of_fr [OF toy_api_fr, of x] by (simp add: toy_api_prims_def toy_prims_def)
  note o = toy_opening_canonical [of toy_octree 2] toy_opening_canonical [of binary_arities 6]
  have p: "\<exists>c. circuit_public_new toy_api_prims 64 0 1 (toy_of_fr F0) (toy_of_fr F1) (toy_of_fr F0) = Inr c"
    by (simp add: circuit_public_new_def partition_count_def sector_sizes h_select_def hs_def Let_def f)
  have path: "\<exists>path. circuit_path toy_api_prims q = Inr path" if "mp_path q = replicate k (replicate j (toy_of_fr F1), 0)" for q j k
    using collectR_all_same [of "\<lambda>s. bindR (into_fr toy_api_prims s) (\<lambda>x. Inr (Some x))" "toy_of_fr F1" "Some F1" j]
    by (simp add: circuit_path_def that f collectR_all_same)
  have "\<exists>c. circuit_challenge_of toy_api_prims \<lparr>cf_proof_r_old = toy_opening toy_octree 2, cf_proof_d_new = toy_opening binary_arities 6, cf_proof_r_new = toy_opening toy_octree 2\<rparr> = Inr c"
    using path [of "toy_opening toy_octree 2" 2 7] path [of "toy_opening binary_arities 6" 6 1] o
    by (auto simp: circuit_challenge_of_def from_merkle_proofs_def circuit_leaf_def f toy_octree_def binary_arities_def)
  then have "\<exists>c. circuit_private_new toy_api_prims (uf_comm_c toy_partition) (uf_apex_leafs toy_partition) (uf_challenge_proofs toy_partition) = Inr c"
    using o by (auto simp: circuit_private_new_def toy_partition_def at_index_def f collectR_all_same toy_octree_def binary_arities_def)
  then have "\<exists>c. update_circuit_of toy_api_prims ?pi toy_partition pp (Some 0) = Inr c"
    using p pp(2) by (auto simp: update_circuit_of_def unwrap_or_def)
  then obtain c where c: "update_circuit_of toy_api_prims ?pi toy_partition pp (Some 0) = Inr c" by blast
  have k: "\<forall>cp\<in>set (uf_challenge_proofs toy_partition). update_canonical toy_octree 2 6 cp"
    using o by (simp add: toy_partition_def update_canonical_def toy_octree_def binary_arities_def)
  have l: "length (uf_apex_leafs toy_partition) = up_apex_leaf_count pp" "length (uf_challenge_proofs toy_partition) = up_challenge_count pp"
    by (simp_all add: toy_partition_def pp)
  obtain b :: "toy_fr update_circuit" where "update_circuit_blank toy_octree pp = Inr b" "circuit_shape (uk_priv_inputs b) = circuit_shape (uk_priv_inputs c)"
    using blank_circuit_shape [OF n pp(1) v s l k c] by blast
  then show ?thesis using pp(1) c by auto
qed
end
