(* ===== verification/Seal_Api.thy ===== *)
theory Seal_Api
  imports Stacked_Compound Pieces Sector_Update
begin

text \<open>
  Sealing: \<open>filecoin-proofs/src/api/seal.rs\<close>. The phases take the contents of files and the disk of the cache
  directory, and return them changed; tests that a path is a directory are left out, and configurations carry
  no path. The map of commitments of empty sectors is state.
\<close>

section \<open>The code\<close>

text \<open>
  The environment: trees, primitives and caches as in replication, the generators of the graph, \<open>bincode\<close> of the
  auxiliary data, \<open>DiskStore::new_from_disk_with_path\<close> and the Groth16 proofs.
\<close>

record ('f, 't, 'p, 'k, 'g, 'a) seal_env =
  se_drg :: "('f, 't, 'p) drg_env"
  se_cache :: cache_env
  se_challenge_prims :: prims
  se_rng :: "u8 list \<Rightarrow> nat \<Rightarrow> nat"
  se_log2_ceil :: "nat \<Rightarrow> nat"
  se_blake2b :: "u8 list \<Rightarrow> u8 list"
  se_write_p_aux :: "persistent_aux \<Rightarrow> u8 list res"
  se_read_p_aux :: "u8 list \<Rightarrow> persistent_aux res"
  se_write_t_aux :: "temporary_aux \<Rightarrow> u8 list res"
  se_read_t_aux :: "u8 list \<Rightarrow> temporary_aux res"
  se_store_of_path :: "nat \<Rightarrow> u8 list \<Rightarrow> u8 list res"
  se_snark :: "('f, 'k, 'g, 'a) snark"

definition seal_graph_env :: "('f, 't, 'p, 'k, 'g, 'a) seal_env \<Rightarrow> stacked_graph \<Rightarrow> graph_env" where
  "seal_graph_env S g = \<lparr>ge_rng = se_rng S, ge_log2_ceil = se_log2_ceil S, ge_blake2b = se_blake2b S, ge_graph = g\<rparr>"

text \<open>The compound parameters of a configuration.\<close>

definition stacked_params :: "('f, 't, 'p, 'k, 'g, 'a) seal_env \<Rightarrow> porep_config \<Rightarrow> stacked_compound res option" where
  "stacked_params S cfg =
     bindO (Some (setup_params cfg)) (\<lambda>sp.
     bindO (scheme_setup (pq_sha256 (de_prims (se_drg S))) sp) (\<lambda>(graph, challenges, layers).
     Some (Inr \<lparr>kc_vanilla = \<lparr>ppr_graph = seal_graph_env S graph, ppr_challenges = challenges, ppr_num_layers = layers\<rparr>,
       kc_partitions = Some (pc_partitions cfg), kc_priority = False\<rparr>)))"

definition sector_replica_id :: "('f, 't, 'p, 'k, 'g, 'a) seal_env \<Rightarrow> porep_config \<Rightarrow> u8 list \<Rightarrow> u64 \<Rightarrow> u8 list \<Rightarrow> u8 list \<Rightarrow> u8 list" where
  "sector_replica_id S cfg prover_id sector_id ticket comm_d =
     generate_replica_id (pq_sha256 (de_prims (se_drg S))) prover_id sector_id ticket comm_d (pc_porep_id cfg)"

text \<open>\<open>Domain::try_from_bytes\<close>.\<close>

definition domain_from_bytes :: "u8 list \<Rightarrow> u8 list res" where
  "domain_from_bytes raw = ensure (length raw = 32) ''invalid amount of bytes'' (Inr raw)"

subsection \<open>First phase\<close>

datatype in_path = Dev_Zero | In_File "u8 list option"

text \<open>\<open>File::set_len\<close>.\<close>

definition set_len :: "nat \<Rightarrow> u8 list \<Rightarrow> u8 list" where
  "set_len n bytes = take n bytes @ replicate (n - length bytes) 0"

record seal_phase1 =
  s1_labels :: "store_config list"
  s1_config :: store_config
  s1_comm_d :: "u8 list"

text \<open>The output file before it is extended.\<close>

definition copy_input :: "in_path \<Rightarrow> u8 list option \<Rightarrow> u8 list res" where
  "copy_input inp out_file =
     (case inp of
        Dev_Zero \<Rightarrow> open_file out_file
      | In_File f \<Rightarrow> bindR (open_file f) (\<lambda>data. bindR (open_file out_file) (\<lambda>_. Inr data)))"

definition sector_data_tree ::
  "('f, 't, 'p, 'k, 'g, 'a) seal_env \<Rightarrow> porep_config \<Rightarrow> nat \<Rightarrow> u8 list \<Rightarrow> disk \<Rightarrow> (disk \<times> store_config \<times> u8 list) res" where
  "sector_data_tree S cfg graph_nodes data d =
     (let X = se_drg S; T = de_tree_d X in
      bindR (get_base_tree_size T binary_arities (porep_config.pc_sector_size cfg)) (\<lambda>base_tree_size.
      bindR (get_base_tree_leafs T binary_arities base_tree_size) (\<lambda>base_tree_leafs.
      ensure (graph_nodes = base_tree_leafs) ''graph size and leaf size do not match''
      (let config = \<lparr>sc_id = cache_key_str CommDTree, sc_size = None, sc_rows_to_discard = 0\<rparr> in
       bindR (create_base_merkle_tree T binary_arities config base_tree_leafs data d) (\<lambda>(d, data_tree).
       bindR (into_fr (de_prims X) (tree_root_of T data_tree)) (\<lambda>comm_d_root.
       Inr (d, config\<lparr>sc_size := Some (tree_len T data_tree)\<rparr>, commitment_from_fr (de_prims X) comm_d_root)))))))"

definition seal_pre_commit_phase1 ::
  "('f::field, 't, 'p, 'k, 'g, 'a) seal_env \<Rightarrow> porep_config \<Rightarrow> in_path \<Rightarrow> u8 list option \<Rightarrow> u8 list \<Rightarrow> u64 \<Rightarrow> u8 list \<Rightarrow> piece_info list \<Rightarrow>
    commitments \<Rightarrow> disk \<Rightarrow> (u8 list \<times> commitments \<times> disk \<times> seal_phase1) res option" where
  "seal_pre_commit_phase1 S cfg inp out_file prover_id sector_id ticket piece_infos cm d =
     bindO (Some (copy_input inp out_file)) (\<lambda>contents.
     let data = set_len (porep_config.pc_sector_size cfg) contents in
     bindO (stacked_params S cfg) (\<lambda>cp.
     let pp = kc_vanilla cp in
     bindO (Some (sector_data_tree S cfg (graph_size (ge_graph (ppr_graph pp))) data d)) (\<lambda>(d, config, comm_d).
     bindO (verify_pieces (pq_sha256 (de_prims (se_drg S))) cm comm_d piece_infos (porep_config.pc_sector_size cfg)) (\<lambda>(cm, ok).
     if \<not> ok then Some (Inl (Fail ''pieces and comm_d do not match''))
     else bindO (replicate_phase1 (se_cache S) pp (sector_replica_id S cfg prover_id sector_id ticket comm_d) d) (\<lambda>(d, labels).
          Some (Inr (data, cm, d, \<lparr>s1_labels = labels, s1_config = config, s1_comm_d = comm_d\<rparr>)))))))"

subsection \<open>Second phase\<close>

record seal_pre_commit =
  so_comm_r :: "u8 list"
  so_comm_d :: "u8 list"

definition persist_t_aux :: "(temporary_aux \<Rightarrow> u8 list res) \<Rightarrow> temporary_aux \<Rightarrow> disk \<Rightarrow> disk res" where
  "persist_t_aux serialize t_aux d =
     bindR (serialize t_aux) (\<lambda>t_aux_bytes. Inr (d(Data_File (cache_key_str TAux) \<mapsto> t_aux_bytes)))"

definition get_t_aux :: "(u8 list \<Rightarrow> temporary_aux res) \<Rightarrow> disk \<Rightarrow> temporary_aux res" where
  "get_t_aux deserialize d =
     (case d (Data_File (cache_key_str TAux)) of None \<Rightarrow> Inl (Fail ''could not read file t_aux'')
      | Some t_aux_bytes \<Rightarrow> deserialize t_aux_bytes)"

definition load_data_tree :: "('f, 't, 'p, 'k, 'g, 'a) seal_env \<Rightarrow> porep_config \<Rightarrow> store_config \<Rightarrow> disk \<Rightarrow> 't res" where
  "load_data_tree S cfg config d =
     (let T = de_tree_d (se_drg S) in
      bindR (get_base_tree_size T binary_arities (porep_config.pc_sector_size cfg)) (\<lambda>base_tree_size.
      bindR (get_base_tree_leafs T binary_arities base_tree_size) (\<lambda>base_tree_leafs.
      bindR (new_from_disk T base_tree_size 2 (file_of config d)) (\<lambda>store.
      from_data_store T binary_arities store base_tree_leafs None))))"

definition seal_pre_commit_phase2 ::
  "('f::field, 't, 'p, 'k, 'g, 'a) seal_env \<Rightarrow> porep_config \<Rightarrow> seal_phase1 \<Rightarrow> u8 list option \<Rightarrow> disk \<Rightarrow>
    (u8 list \<times> disk \<times> seal_pre_commit) res option" where
  "seal_pre_commit_phase2 S cfg phase1_output replica_file d =
     (let X = se_drg S; P = de_prims X in
      bindO (Some (open_file replica_file)) (\<lambda>data.
      bindO (Some (load_data_tree S cfg (s1_config phase1_output) d)) (\<lambda>data_tree.
      bindO (stacked_params S cfg) (\<lambda>cp.
      Some (bindR (replicate_phase2 X (kc_vanilla cp) (s1_labels phase1_output) data (Some data_tree) d) (\<lambda>(replica, d, tau, p_aux, t_aux).
        bindR (into_fr P (tau_comm_r tau)) (\<lambda>root.
        bindR (persist_p_aux (se_write_p_aux S) p_aux d) (\<lambda>d.
        bindR (persist_t_aux (se_write_t_aux S) t_aux d) (\<lambda>d.
        Inr (replica, d, \<lparr>so_comm_r = commitment_from_fr P root, so_comm_d = s1_comm_d phase1_output\<rparr>))))))))))"

subsection \<open>Vanilla proofs\<close>

record seal_commit_phase1_output =
  c1_vanilla_proofs :: "porep_proof list list"
  c1_comm_r :: "u8 list"
  c1_comm_d :: "u8 list"
  c1_replica_id :: "u8 list"
  c1_seed :: "u8 list"
  c1_ticket :: "u8 list"

text \<open>An all-zero commitment is refused.\<close>

abbreviation zero_commitment :: "u8 list" where "zero_commitment \<equiv> replicate 32 0"

definition seal_public_inputs :: "u8 list \<Rightarrow> u8 list \<Rightarrow> u8 list \<Rightarrow> u8 list option \<Rightarrow> public_inputs" where
  "seal_public_inputs replica_id comm_d comm_r seed =
     \<lparr>pin_replica_id = replica_id, pin_seed = seed, pin_tau = Some \<lparr>tau_comm_d = comm_d, tau_comm_r = comm_r\<rparr>, pin_k = None\<rparr>"

definition seal_commit_phase1_inner ::
  "('f::field, 't, 'p, 'k, 'g, 'a) seal_env \<Rightarrow> porep_config \<Rightarrow> u8 list option \<Rightarrow> u8 list \<Rightarrow> u64 \<Rightarrow> u8 list \<Rightarrow> u8 list option \<Rightarrow>
    seal_pre_commit \<Rightarrow> piece_info list \<Rightarrow> bool \<Rightarrow> (nat \<Rightarrow> nat \<Rightarrow> nat \<Rightarrow> job list) \<Rightarrow> commitments \<Rightarrow> disk \<Rightarrow>
    (commitments \<times> disk \<times> seal_commit_phase1_output) res option" where
  "seal_commit_phase1_inner S cfg replica_file prover_id sector_id ticket seed pre_commit piece_infos skip_labels finished cm d =
     (let X = se_drg S; P = de_prims X; comm_d = so_comm_d pre_commit; comm_r = so_comm_r pre_commit in
      bindO (Some (open_file replica_file)) (\<lambda>replica.
      if seed = None \<and> \<not> feature_enabled cfg SyntheticPoRep
      then Some (Inl (Fail ''porep challenge seed must be set for non-synthetic proving''))
      else if comm_d = zero_commitment then Some (Inl (Fail ''Invalid all zero commitment (comm_d)''))
      else if comm_r = zero_commitment then Some (Inl (Fail ''Invalid all zero commitment (comm_r)''))
      else bindO (verify_pieces (pq_sha256 P) cm comm_d piece_infos (porep_config.pc_sector_size cfg)) (\<lambda>(cm, ok).
      if \<not> ok then Some (Inl (Fail ''pieces and comm_d do not match''))
      else bindO (Some (get_p_aux (se_read_p_aux S) d)) (\<lambda>p_aux.
      bindO (Some (get_t_aux (se_read_t_aux S) d)) (\<lambda>t_aux.
      bindO (Some (temporary_aux_cache_new X t_aux replica skip_labels d)) (\<lambda>t_aux_cache.
      bindO (Some (as_safe_commitment P comm_r)) (\<lambda>comm_r_safe.
      bindO (Some (domain_from_bytes comm_d)) (\<lambda>comm_d_safe.
      let replica_id = sector_replica_id S cfg prover_id sector_id ticket comm_d_safe;
          public_inputs = seal_public_inputs replica_id comm_d_safe comm_r_safe seed in
      bindO (stacked_params S cfg) (\<lambda>cp.
      bindO (Some (compound_partition_count (kc_partitions cp))) (\<lambda>partition_count.
      bindO (prove_all_partitions X (se_challenge_prims S) (kc_vanilla cp) public_inputs p_aux t_aux_cache partition_count finished d) (\<lambda>(d, vanilla_proofs).
      bindO (verify_all_partitions P (se_challenge_prims S) (de_arities X) (kc_vanilla cp) public_inputs vanilla_proofs) (\<lambda>sanity_check.
      if \<not> sanity_check then Some (Inl (Fail ''Invalid vanilla proof generated''))
      else Some (Inr (cm, d, \<lparr>c1_vanilla_proofs = vanilla_proofs, c1_comm_r = comm_r, c1_comm_d = comm_d, c1_replica_id = replica_id,
             c1_seed = unwrap_or seed (replicate 32 0), c1_ticket = ticket\<rparr>))))))))))))))"

definition generate_synth_proofs ::
  "('f::field, 't, 'p, 'k, 'g, 'a) seal_env \<Rightarrow> porep_config \<Rightarrow> u8 list option \<Rightarrow> u8 list \<Rightarrow> u64 \<Rightarrow> u8 list \<Rightarrow>
    seal_pre_commit \<Rightarrow> piece_info list \<Rightarrow> (nat \<Rightarrow> nat \<Rightarrow> nat \<Rightarrow> job list) \<Rightarrow> commitments \<Rightarrow> disk \<Rightarrow> (commitments \<times> disk) res option" where
  "generate_synth_proofs S cfg replica_file prover_id sector_id ticket pre_commit piece_infos finished cm d =
     (if \<not> feature_enabled cfg SyntheticPoRep then Some (Inl (Fail ''synth-porep must be enabled to generate synthetic proofs''))
      else bindO (seal_commit_phase1_inner S cfg replica_file prover_id sector_id ticket None pre_commit piece_infos False finished cm d)
        (\<lambda>(cm, d, _). Some (Inr (cm, d))))"

definition seal_commit_phase1 ::
  "('f::field, 't, 'p, 'k, 'g, 'a) seal_env \<Rightarrow> porep_config \<Rightarrow> u8 list option \<Rightarrow> u8 list \<Rightarrow> u64 \<Rightarrow> u8 list \<Rightarrow> u8 list \<Rightarrow>
    seal_pre_commit \<Rightarrow> piece_info list \<Rightarrow> (nat \<Rightarrow> nat \<Rightarrow> nat \<Rightarrow> job list) \<Rightarrow> commitments \<Rightarrow> disk \<Rightarrow>
    (commitments \<times> disk \<times> seal_commit_phase1_output) res option" where
  "seal_commit_phase1 S cfg replica_file prover_id sector_id ticket seed pre_commit piece_infos finished cm d =
     seal_commit_phase1_inner S cfg replica_file prover_id sector_id ticket (Some seed) pre_commit piece_infos
       (feature_enabled cfg SyntheticPoRep) finished cm d"

subsection \<open>Groth16 proofs\<close>

definition seal_commit_phase2_circuit_proofs ::
  "('f::field, 't, 'p, 'k, 'g, 'a) seal_env \<Rightarrow> porep_config \<Rightarrow> seal_commit_phase1_output \<Rightarrow> u8 list res option" where
  "seal_commit_phase2_circuit_proofs S cfg c1 =
     (let P = de_prims (se_drg S); N = se_snark S in
      if c1_comm_d c1 = zero_commitment then Some (Inl (Fail ''Invalid all zero commitment (comm_d)''))
      else if c1_comm_r c1 = zero_commitment then Some (Inl (Fail ''Invalid all zero commitment (comm_r)''))
      else if c1_seed c1 = replicate 32 0 then Some (Inl (Fail ''Invalid porep challenge seed''))
      else if \<not> (c1_vanilla_proofs c1 \<noteq> [] \<and> list_all (\<lambda>partition_proofs. partition_proofs \<noteq> []) (c1_vanilla_proofs c1))
      then Some (Inl (Fail ''C1 output contains no vanilla proofs''))
      else bindO (Some (as_safe_commitment P (c1_comm_r c1))) (\<lambda>comm_r_safe.
      bindO (Some (domain_from_bytes (c1_comm_d c1))) (\<lambda>comm_d_safe.
      let public_inputs = seal_public_inputs (c1_replica_id c1) comm_d_safe comm_r_safe (Some (c1_seed c1)) in
      bindO (Some (sn_params N cfg)) (\<lambda>groth_params.
      bindO (stacked_params S cfg) (\<lambda>cp.
      Some (bindR (circuit_proofs N public_inputs (c1_vanilla_proofs c1) groth_params (kc_priority cp)) (\<lambda>groth_proofs.
        bindR (sn_verifying_key N cfg) (\<lambda>_. multi_proof_write N groth_proofs))))))))"

definition get_seal_inputs ::
  "('f::field, 't, 'p, 'k, 'g, 'a) seal_env \<Rightarrow> porep_config \<Rightarrow> u8 list \<Rightarrow> u8 list \<Rightarrow> u8 list \<Rightarrow> u64 \<Rightarrow> u8 list \<Rightarrow> u8 list \<Rightarrow>
    'f list list res option" where
  "get_seal_inputs S cfg comm_r comm_d prover_id sector_id ticket seed =
     (let P = de_prims (se_drg S) in
      if comm_d = zero_commitment then Some (Inl (Fail ''Invalid all zero commitment (comm_d)''))
      else if comm_r = zero_commitment then Some (Inl (Fail ''Invalid all zero commitment (comm_r)''))
      else let replica_id = sector_replica_id S cfg prover_id sector_id ticket comm_d in
      bindO (Some (as_safe_commitment P comm_r)) (\<lambda>comm_r_safe.
      bindO (Some (domain_from_bytes comm_d)) (\<lambda>comm_d_safe.
      let public_inputs = seal_public_inputs replica_id comm_d_safe comm_r_safe (Some seed) in
      bindO (stacked_params S cfg) (\<lambda>cp.
      bindO (Some (compound_partition_count (kc_partitions cp))) (\<lambda>partitions.
      collectO (\<lambda>k. stacked_public_inputs P (se_challenge_prims S) public_inputs (kc_vanilla cp) (Some k)) [0..<partitions])))))"

text \<open>The bytes that the transcript of an aggregation starts with.\<close>

definition hashed_seeds_and_comm_rs :: "(u8 list \<Rightarrow> u8 list) \<Rightarrow> porep_config \<Rightarrow> u8 list list \<Rightarrow> u8 list list \<Rightarrow> u8 list" where
  "hashed_seeds_and_comm_rs sha256 cfg comm_rs seeds =
     sha256 (if feature_enabled cfg NonInteractivePoRep then concat comm_rs
             else concat (map (\<lambda>(seed, comm_r). seed @ comm_r) (zip seeds comm_rs)))"

definition FIP92_MIN_NI_POREP_AGGREGATION_PROOFS :: nat where "FIP92_MIN_NI_POREP_AGGREGATION_PROOFS = 1"
definition FIP92_MAX_NI_POREP_AGGREGATION_PROOFS :: nat where "FIP92_MAX_NI_POREP_AGGREGATION_PROOFS = 65"

definition aggregate_seal_commit_proofs ::
  "('f, 't, 'p, 'k, 'g, 'a) seal_env \<Rightarrow> porep_config \<Rightarrow> u8 list list \<Rightarrow> u8 list list \<Rightarrow> u8 list list \<Rightarrow> aggregate_version \<Rightarrow> u8 list res" where
  "aggregate_seal_commit_proofs S cfg comm_rs seeds commit_outputs version =
     (let N = se_snark S in
      ensure (commit_outputs \<noteq> []) ''cannot aggregate with empty outputs''
      (ensure (feature_enabled cfg NonInteractivePoRep \<and> 1 < length commit_outputs \<longrightarrow>
           FIP92_MIN_NI_POREP_AGGREGATION_PROOFS \<le> length commit_outputs \<and> length commit_outputs \<le> FIP92_MAX_NI_POREP_AGGREGATION_PROOFS)
         ''proofs is outside of FIP-0090 specified NI-PoRep aggregation bounds''
      (bindR (sn_verifying_key N cfg) (\<lambda>_.
       bindR (collectR (multi_proof_from_bytes (sn_read_many N) (Some (pc_partitions cfg))) commit_outputs) (\<lambda>proofs.
       let proofs = concat proofs; target_proofs_len = get_aggregate_target_len (length proofs) in
       ensure (1 < target_proofs_len) ''cannot aggregate less than two proofs''
       (bindR (pad_proofs_to_target proofs target_proofs_len) (\<lambda>proofs.
        bindR (sn_srs_key N cfg (length proofs)) (\<lambda>srs_prover_key.
        bindR (sn_aggregate N srs_prover_key (hashed_seeds_and_comm_rs (pq_sha256 (de_prims (se_drg S))) cfg comm_rs seeds) proofs version)
          (sn_write_aggregate N)))))))))"

definition verify_aggregate_seal_commit_proofs ::
  "('f, 't, 'p, 'k, 'g, 'a) seal_env \<Rightarrow> porep_config \<Rightarrow> u8 list \<Rightarrow> u8 list list \<Rightarrow> u8 list list \<Rightarrow> 'f list list \<Rightarrow> aggregate_version \<Rightarrow>
    bool res option" where
  "verify_aggregate_seal_commit_proofs S cfg aggregate_proof_bytes comm_rs seeds commit_inputs version =
     (let N = se_snark S in
      bindO (Some (sn_read_aggregate N aggregate_proof_bytes)) (\<lambda>aggregate_proof.
      let n = sn_nproofs N aggregate_proof in
      if n = 0 then Some (Inl (Fail ''cannot verify zero proofs''))
      else if commit_inputs = [] then Some (Inl (Fail ''cannot verify with empty inputs''))
      else if length comm_rs \<noteq> length seeds then Some (Inl (Fail ''invalid comm_rs and seeds len mismatch''))
      else if \<not> 1 < n then Some (Inl (Fail ''cannot verify less than two proofs''))
      else if n \<noteq> next_power_of_two n then Some (Inl (Fail ''cannot verify non-pow2 aggregate seal proofs''))
      else let num_inputs_per_proof = get_aggregate_target_len (length commit_inputs) div n; target_inputs_len = n * num_inputs_per_proof in
      if \<not> n dvd target_inputs_len then Some (Inl (Fail ''invalid number of inputs provided''))
      else bindO (pad_inputs_to_target commit_inputs num_inputs_per_proof target_inputs_len) (\<lambda>commit_inputs.
      Some (bindR (sn_verifying_key N cfg) (\<lambda>verifying_key.
        bindR (sn_srs_verifier_key N cfg n) (\<lambda>srs_verifier_key.
        sn_verify_aggregate N srs_verifier_key verifying_key commit_inputs aggregate_proof
          (hashed_seeds_and_comm_rs (pq_sha256 (de_prims (se_drg S))) cfg comm_rs seeds) version))))))"

definition verify_seal ::
  "('f::field, 't, 'p, 'k, 'g, 'a) seal_env \<Rightarrow> porep_config \<Rightarrow> u8 list \<Rightarrow> u8 list \<Rightarrow> u8 list \<Rightarrow> u64 \<Rightarrow> u8 list \<Rightarrow> u8 list \<Rightarrow> u8 list \<Rightarrow>
    bool res option" where
  "verify_seal S cfg comm_r_in comm_d_in prover_id sector_id ticket seed proof_vec =
     (let P = de_prims (se_drg S); N = se_snark S in
      if feature_enabled cfg NonInteractivePoRep
      then bindO (get_seal_inputs S cfg comm_r_in comm_d_in prover_id sector_id ticket seed) (\<lambda>inputs.
           verify_aggregate_seal_commit_proofs S cfg proof_vec [comm_r_in] [seed] inputs AggV2)
      else if comm_d_in = zero_commitment then Some (Inl (Fail ''Invalid all zero commitment (comm_d)''))
      else if comm_r_in = zero_commitment then Some (Inl (Fail ''Invalid all zero commitment (comm_r)''))
      else if proof_vec = [] then Some (Inl (Fail ''Invalid proof bytes (empty vector)''))
      else bindO (Some (as_safe_commitment P comm_r_in)) (\<lambda>comm_r.
      bindO (Some (as_safe_commitment P comm_d_in)) (\<lambda>comm_d.
      bindO (stacked_params S cfg) (\<lambda>cp.
      bindO (Some (sn_verifying_key N cfg)) (\<lambda>verifying_key.
      bindO (Some (multi_proof_from_bytes (sn_read_many N) (Some (pc_partitions cfg)) proof_vec)) (\<lambda>multi_proof.
      bindO (Some (minimum_challenges cfg)) (\<lambda>minimum.
      stacked_verify N P (se_challenge_prims S) cp
        (seal_public_inputs (sector_replica_id S cfg prover_id sector_id ticket comm_d) comm_d comm_r (Some seed))
        verifying_key multi_proof minimum)))))))"

definition seal_commit_phase2 ::
  "('f::field, 't, 'p, 'k, 'g, 'a) seal_env \<Rightarrow> porep_config \<Rightarrow> seal_commit_phase1_output \<Rightarrow> u8 list \<Rightarrow> u64 \<Rightarrow> u8 list res option" where
  "seal_commit_phase2 S cfg c1 prover_id sector_id =
     bindO (seal_commit_phase2_circuit_proofs S cfg c1) (\<lambda>seal_commit_output.
     bindO (if feature_enabled cfg NonInteractivePoRep
            then if \<not> first_supported_version NonInteractivePoRep \<le> pc_api_version cfg
                 then Some (Inl (Fail ''API version does not support NonInteractivePoRep''))
                 else Some (aggregate_seal_commit_proofs S cfg [c1_comm_r c1] [c1_seed c1] [seal_commit_output] AggV2)
            else Some (Inr seal_commit_output)) (\<lambda>buf.
     bindO (verify_seal S cfg (c1_comm_r c1) (c1_comm_d c1) prover_id sector_id (c1_ticket c1) (c1_seed c1) buf) (\<lambda>is_valid.
     if \<not> is_valid then Some (Inl (Fail ''post seal aggregation verifies'')) else Some (Inr buf))))"

definition batch_input ::
  "('f::field, 't, 'p, 'k, 'g, 'a) seal_env \<Rightarrow> porep_config \<Rightarrow> u8 list \<times> u8 list \<times> u8 list \<times> u64 \<times> u8 list \<times> u8 list \<times> u8 list \<Rightarrow>
    (public_inputs \<times> 'g list) res" where
  "batch_input S cfg = (\<lambda>(comm_r_in, comm_d_in, prover_id, sector_id, ticket, seed, proof_vec). let P = de_prims (se_drg S) in
     bindR (as_safe_commitment P comm_r_in) (\<lambda>comm_r.
     bindR (as_safe_commitment P comm_d_in) (\<lambda>comm_d.
     bindR (multi_proof_from_bytes (sn_read_many (se_snark S)) (Some (pc_partitions cfg)) proof_vec) (\<lambda>proof.
     Inr (seal_public_inputs (sector_replica_id S cfg prover_id sector_id ticket comm_d) comm_d comm_r (Some seed), proof)))))"

definition verify_batch_seal ::
  "('f::field, 't, 'p, 'k, 'g, 'a) seal_env \<Rightarrow> porep_config \<Rightarrow> u8 list list \<Rightarrow> u8 list list \<Rightarrow> u8 list list \<Rightarrow> u64 list \<Rightarrow> u8 list list \<Rightarrow>
    u8 list list \<Rightarrow> u8 list list \<Rightarrow> bool res option" where
  "verify_batch_seal S cfg comm_r_ins comm_d_ins prover_ids sector_ids tickets seeds proof_vecs =
     (let P = de_prims (se_drg S); N = se_snark S; l = length comm_r_ins in
      if comm_r_ins = [] then Some (Inl (Fail ''Cannot prove empty batch''))
      else if \<not> (l = length comm_d_ins \<and> l = length prover_ids \<and> l = length sector_ids \<and> l = length tickets \<and> l = length seeds \<and> l = length proof_vecs)
      then Some (Inl (Fail ''Inconsistent inputs''))
      else if zero_commitment \<in> set comm_d_ins then Some (Inl (Fail ''Invalid all zero commitment (comm_d)''))
      else if zero_commitment \<in> set comm_r_ins then Some (Inl (Fail ''Invalid all zero commitment (comm_r)''))
      else if [] \<in> set proof_vecs then Some (Inl (Fail ''Invalid proof (empty bytes) found''))
      else bindO (Some (sn_verifying_key N cfg)) (\<lambda>verifying_key.
      bindO (stacked_params S cfg) (\<lambda>cp.
      bindO (Some (collectR (batch_input S cfg)
               (zip comm_r_ins (zip comm_d_ins (zip prover_ids (zip sector_ids (zip tickets (zip seeds proof_vecs)))))))) (\<lambda>inputs.
      bindO (Some (minimum_challenges cfg)) (\<lambda>minimum.
      stacked_batch_verify N P (se_challenge_prims S) cp (map fst inputs) verifying_key (map snd inputs) minimum)))))"

subsection \<open>Trees and labels of a sector\<close>

text \<open>The tree over a replica, built from the replica file; the \<open>sector_size\<close> is in bytes.\<close>

definition seal_generate_tree_r_last ::
  "('f::field, 't, 'p, 'k, 'g, 'a) seal_env \<Rightarrow> nat \<Rightarrow> u8 list \<Rightarrow> disk \<Rightarrow> (disk \<times> u8 list) res" where
  "seal_generate_tree_r_last S sector_size replica_file d =
     (let X = se_drg S; T = de_tree X; A = de_arities X; leaf_count = sector_size div NODE_SIZE in
      bindR (get_base_tree_count A) (\<lambda>base_tree_count.
      bindR (udiv leaf_count base_tree_count) (\<lambda>base_tree_leafs.
      bindR (get_base_tree_size T A sector_size) (\<lambda>len.
      let tree_r_last_config = \<lparr>sc_id = cache_key_str CommRLastTree, sc_size = Some len,
            sc_rows_to_discard = default_rows_to_discard (de_rows X) (de_rows_to_discard X) base_tree_leafs (base_arity A)\<rparr> in
      bindR (get_base_tree_size (de_tree_d X) binary_arities sector_size) (\<lambda>replica_base_tree_size.
      bindR (get_base_tree_leafs (de_tree_d X) binary_arities replica_base_tree_size) (\<lambda>replica_base_tree_leafs.
      bindR (se_store_of_path S replica_base_tree_leafs replica_file) (\<lambda>replica.
      bindR (generate_tree_r_last_cpu X (update_prepare_tree_r_data X) (\<lambda>_. replica_file) [] base_tree_leafs base_tree_count
               tree_r_last_config replica d) (\<lambda>(_, d, tree_r_last).
      Inr (d, tree_root_of T tree_r_last)))))))))"

text \<open>The tree over the columns, built from the labels on disk.\<close>

definition seal_generate_tree_c ::
  "('f::field, 't, 'p, 'k, 'g, 'a) seal_env \<Rightarrow> nat \<Rightarrow> nat \<Rightarrow> disk \<Rightarrow> disk \<Rightarrow> (disk \<times> u8 list) res" where
  "seal_generate_tree_c S sector_size num_layers input_dir output_dir =
     (let X = se_drg S; T = de_tree X; A = de_arities X; leaf_count = sector_size div NODE_SIZE in
      bindR (get_base_tree_count A) (\<lambda>base_tree_count.
      bindR (udiv leaf_count base_tree_count) (\<lambda>base_tree_leafs.
      bindR (get_base_tree_size T A sector_size) (\<lambda>len.
      let configs = split_config \<lparr>sc_id = cache_key_str CommCTree, sc_size = Some len, sc_rows_to_discard = 0\<rparr> base_tree_count in
      bindR (get_base_tree_size (de_tree_d X) binary_arities sector_size) (\<lambda>label_base_tree_size.
      bindR (get_base_tree_leafs (de_tree_d X) binary_arities label_base_tree_size) (\<lambda>label_base_tree_leafs.
      let label_configs = map (\<lambda>layer. \<lparr>sc_id = label_layer layer, sc_size = Some label_base_tree_leafs, sc_rows_to_discard = 0\<rparr>) [1..<Suc num_layers] in
      bindR (labels_cache_new X label_configs input_dir) (\<lambda>labels_cache.
      bindR (if num_layers = 2 \<or> num_layers = 11
             then generate_tree_c_cpu X num_layers base_tree_leafs base_tree_count configs labels_cache output_dir
             else Inl (Fail ''Unsupported column arity'')) (\<lambda>(d, tree_c).
      Inr (d, tree_root_of T tree_c)))))))))"

definition sdr ::
  "('f, 't, 'p, 'k, 'g, 'a) seal_env \<Rightarrow> porep_config \<Rightarrow> u8 list \<Rightarrow> disk \<Rightarrow> disk res option" where
  "sdr S cfg replica_id d =
     bindO (Some (setup_params cfg)) (\<lambda>sp.
     bindO (scheme_setup (pq_sha256 (de_prims (se_drg S))) sp) (\<lambda>(graph, challenges, layers).
     bindO (replicate_phase1 (se_cache S) \<lparr>ppr_graph = seal_graph_env S graph, ppr_challenges = challenges, ppr_num_layers = layers\<rparr> replica_id d)
       (\<lambda>(d, _). Some (Inr d))))"
end
