(* ===== verification/Aggregation.thy ===== *)
theory Aggregation
  imports Seal_Api
begin

text \<open>
  What is proved of aggregated proofs of the PoRep: the padding of proofs by the prover and of public inputs by
  the verifier agree, so that an aggregate of valid proofs is accepted, and verification always ends.
\<close>

section \<open>Padding\<close>

lemma next_power_of_two_le: "0 < n \<Longrightarrow> n \<le> 2 ^ k \<Longrightarrow> next_power_of_two n \<le> 2 ^ k"
proof -
  assume n: "0 < n" "n \<le> 2 ^ k"
  obtain j where j: "next_power_of_two n = 2 ^ j" using next_power_of_two_bounds(3) by blast
  then have "(2::nat) ^ j < 2 ^ Suc k" using next_power_of_two_bounds(2) [OF n(1)] n(2) by simp
  then have "j \<le> k" by (simp only: power_strict_increasing_iff one_less_numeral_iff semiring_norm less_Suc_eq_le)
  then show ?thesis using j by simp
qed

lemma pad_to_target_ok:
  assumes "proofs \<noteq> []" and "length proofs \<le> 2 ^ k" and "(2::nat) ^ k \<le> SRS_MAX_PROOFS_TO_AGGREGATE"
  shows "pad_proofs_to_target proofs (2 ^ k) = Inr (proofs @ replicate (2 ^ k - length proofs) (last proofs))"
  using assms by (simp add: pad_proofs_to_target_def Let_def)

text \<open>When inputs are added, the loop ends, and with one input for a proof it adds exactly what is missing.\<close>

lemma pad_inputs_loop_ends:
  "0 < p \<Longrightarrow> num \<le> target \<Longrightarrow> pad_inputs_loop dup p target num new \<noteq> None"
proof (induction "target - num" arbitrary: num new rule: less_induct)
  case less
  show ?case
  proof (cases "num + p \<le> target \<and> target \<noteq> num")
    case True
    then have "target - (num + p) < target - num" using less.prems by linarith
    then have "pad_inputs_loop dup p target (num + p) (new @ dup) \<noteq> None" using less.hyps less.prems(1) True by blast
    then show ?thesis using True by (subst pad_inputs_loop.simps) (simp add: Let_def)
  qed (subst pad_inputs_loop.simps, auto simp: Let_def)
qed

lemma pad_inputs_loop_one:
  "pad_inputs_loop [x] 1 (num + k) num new = Some (Inr (new @ replicate k x))"
proof (induction k arbitrary: num new)
  case (Suc k)
  then show ?case using Suc.IH [of "Suc num" "new @ [x]"] by (subst pad_inputs_loop.simps) (simp add: Let_def)
qed (subst pad_inputs_loop.simps, simp)

lemma pad_inputs_ok:
  assumes "inputs \<noteq> []" and "length inputs \<le> n"
  shows "pad_inputs_to_target inputs 1 n = Some (Inr (inputs @ replicate (n - length inputs) (last inputs)))"
proof -
  have d: "drop (length inputs - 1) inputs = [last inputs]" using assms(1) by (cases inputs rule: rev_cases) auto
  have "1 \<le> length inputs" using assms(1) by (cases inputs) auto
  then show ?thesis using assms d pad_inputs_loop_one [of "last inputs" "length inputs" "n - length inputs" inputs]
    by (simp add: pad_inputs_to_target_def usub_def Let_def)
qed

lemma pad_inputs_ends: "pad_inputs_to_target inputs p target \<noteq> None" if "0 < p \<or> target \<le> length inputs"
proof (cases "inputs \<noteq> [] \<and> length inputs < target")
  case True
  then have p: "0 < p" using that by auto
  have "pad_inputs_loop (drop (length inputs - p) inputs) p target (length inputs) inputs \<noteq> None"
    using pad_inputs_loop_ends [OF p, of "length inputs" target] True by simp
  then show ?thesis using True by (simp add: pad_inputs_to_target_def usub_def Let_def)
qed (auto simp: pad_inputs_to_target_def Let_def)

section \<open>Properties\<close>

text \<open>
  The Groth16 proofs of the bellperson crate: an aggregate of as many proofs as the key is for can be written and
  read again, and is accepted with the same transcript and inputs for which the proofs are valid.
\<close>

definition aggregation_for :: "('f, 'k, 'g, 'a) snark \<Rightarrow> porep_config \<Rightarrow> 'k \<Rightarrow> ('g \<Rightarrow> 'f list \<Rightarrow> bool) \<Rightarrow> bool" where
  "aggregation_for N cfg vk valid \<longleftrightarrow>
     (\<forall>k>0. (2::nat) ^ k \<le> SRS_MAX_PROOFS_TO_AGGREGATE \<longrightarrow> (\<exists>srs srs_vk. sn_srs_key N cfg (2 ^ k) = Inr srs \<and> sn_srs_verifier_key N cfg (2 ^ k) = Inr srs_vk \<and>
        (\<forall>h proofs v inputs. length proofs = 2 ^ k \<longrightarrow> list_all2 valid proofs inputs \<longrightarrow>
           (\<exists>a bytes. sn_aggregate N srs h proofs v = Inr a \<and> sn_write_aggregate N a = Inr bytes \<and> sn_read_aggregate N bytes = Inr a \<and>
              sn_nproofs N a = length proofs \<and> sn_verify_aggregate N srs_vk vk inputs a h v = Inr True))))"

definition aggregation_ok :: "('f, 'k, 'g, 'a) snark \<Rightarrow> porep_config \<Rightarrow> ('g \<Rightarrow> 'f list \<Rightarrow> bool) \<Rightarrow> bool" where
  "aggregation_ok N cfg valid \<longleftrightarrow> (\<exists>vk. sn_verifying_key N cfg = Inr vk \<and> aggregation_for N cfg vk valid)"

text \<open>Proofs padded by the prover and inputs padded by the verifier still belong together.\<close>

lemma padded_aggregate:
  assumes A: "aggregation_for N cfg vk valid" and c: "proofs \<noteq> []" and le: "length proofs \<le> SRS_MAX_PROOFS_TO_AGGREGATE" and v: "list_all2 valid proofs inputs"
  obtains k srs srs_vk padded a bytes where "get_aggregate_target_len (length proofs) = 2 ^ k" "(1::nat) < 2 ^ k" "length inputs = length proofs"
    "pad_proofs_to_target proofs (2 ^ k) = Inr padded" "length padded = 2 ^ k" "sn_srs_key N cfg (2 ^ k) = Inr srs" "sn_srs_verifier_key N cfg (2 ^ k) = Inr srs_vk"
    "sn_aggregate N srs h padded version = Inr a" "sn_write_aggregate N a = Inr bytes" "sn_read_aggregate N bytes = Inr a" "sn_nproofs N a = 2 ^ k"
    "pad_inputs_to_target inputs 1 (2 ^ k) = Some (Inr (inputs @ replicate (2 ^ k - length inputs) (last inputs)))"
    "sn_verify_aggregate N srs_vk vk (inputs @ replicate (2 ^ k - length inputs) (last inputs)) a h version = Inr True"
proof -
  let ?n = "length proofs"
  have n: "0 < ?n" using c by simp
  obtain k where k: "get_aggregate_target_len ?n = 2 ^ k" "0 < k" "?n \<le> 2 ^ k" using target_len [OF n] by blast
  have k2: "(2::nat) ^ k \<le> SRS_MAX_PROOFS_TO_AGGREGATE"
    using next_power_of_two_le [OF n, of 16] le k(1) by (auto simp: get_aggregate_target_len_def SRS_MAX_PROOFS_TO_AGGREGATE_def split: if_splits)
  have one: "(1::nat) < 2 ^ k" using k(2) one_less_power [of "2::nat" k] by simp
  obtain srs srs_vk where key: "sn_srs_key N cfg (2 ^ k) = Inr srs" "sn_srs_verifier_key N cfg (2 ^ k) = Inr srs_vk"
    and agg: "\<And>h proofs v inputs. length proofs = 2 ^ k \<Longrightarrow> list_all2 valid proofs inputs \<Longrightarrow>
      \<exists>a bytes. sn_aggregate N srs h proofs v = Inr a \<and> sn_write_aggregate N a = Inr bytes \<and> sn_read_aggregate N bytes = Inr a \<and>
         sn_nproofs N a = length proofs \<and> sn_verify_aggregate N srs_vk vk inputs a h v = Inr True"
    using A k(2) k2 unfolding aggregation_for_def by blast
  have len: "length inputs = ?n" using v by (simp add: list_all2_lengthD)
  then have i: "inputs \<noteq> []" using n by auto
  let ?proofs = "proofs @ replicate (2 ^ k - ?n) (last proofs)" and ?inputs = "inputs @ replicate (2 ^ k - length inputs) (last inputs)"
  have "valid (last proofs) (last inputs)" using v c i len by (simp add: last_conv_nth list_all2_nthD)
  then have v': "list_all2 valid ?proofs ?inputs" using v len by (intro list_all2_appendI) (auto simp: list_all2_conv_all_nth)
  have l: "length ?proofs = 2 ^ k" using k(3) by simp
  obtain a bytes where a: "sn_aggregate N srs h ?proofs version = Inr a" "sn_write_aggregate N a = Inr bytes" "sn_read_aggregate N bytes = Inr a"
      "sn_nproofs N a = 2 ^ k" "sn_verify_aggregate N srs_vk vk ?inputs a h version = Inr True"
    using agg [OF l v', of h version] unfolding l by blast
  show thesis
    by (rule that [OF k(1) one len pad_to_target_ok [OF c k(3) k2] l key a(1-4) pad_inputs_ok [OF i] a(5)]) (use k(3) len in simp)
qed

text \<open>
  C17. Aggregates are accepted: the circuit proofs of any sectors, padded with copies of the last one to a power of
  two, give an aggregate which verification accepts, whose own padding repeats the last public inputs
  as often; it needs one list of public inputs per proof and the same seeds and commitments.
\<close>

theorem aggregate_complete:
  assumes "aggregation_ok (se_snark S) cfg valid" and "outputs \<noteq> []" and "0 < pc_partitions cfg"
    and "list_all2 (\<lambda>out proofs. multi_proof_from_bytes (sn_read_many (se_snark S)) (Some (pc_partitions cfg)) out = Inr proofs) outputs proofss"
    and "feature_enabled cfg NonInteractivePoRep \<longrightarrow> length outputs \<le> FIP92_MAX_NI_POREP_AGGREGATION_PROOFS"
    and "length (concat proofss) \<le> SRS_MAX_PROOFS_TO_AGGREGATE"
    and "list_all2 valid (concat proofss) inputs" and "length comm_rs = length seeds"
  shows "\<exists>bytes. aggregate_seal_commit_proofs S cfg comm_rs seeds outputs v = Inr bytes \<and>
    verify_aggregate_seal_commit_proofs S cfg bytes comm_rs seeds inputs v = Some (Inr True)"
proof -
  let ?N = "se_snark S" and ?n = "length (concat proofss)" and ?h = "hashed_seeds_and_comm_rs (pq_sha256 (de_prims (se_drg S))) cfg comm_rs seeds"
  have r: "collectR (multi_proof_from_bytes (sn_read_many ?N) (Some (pc_partitions cfg))) outputs = Inr proofss"
    using assms(4) by (simp add: collectR_Inr_iff)
  have c: "concat proofss \<noteq> []"
  proof (cases outputs)
    case (Cons out os)
    then obtain ps pss where "proofss = ps # pss" "multi_proof_from_bytes (sn_read_many ?N) (Some (pc_partitions cfg)) out = Inr ps"
      using assms(4) by (auto simp: list_all2_Cons1)
    then show ?thesis using assms(3) by (auto simp: multi_proof_from_bytes_def bindR_eq_Inr ensure_eq_Inr Let_def unwrap_or_def)
  qed (use assms(2) in simp)
  obtain vk where vk: "sn_verifying_key ?N cfg = Inr vk" "aggregation_for ?N cfg vk valid" using assms(1) unfolding aggregation_ok_def by blast
  obtain k srs srs_vk padded a bytes where k: "get_aggregate_target_len ?n = 2 ^ k" "(1::nat) < 2 ^ k" "length inputs = ?n"
    and p: "pad_proofs_to_target (concat proofss) (2 ^ k) = Inr padded" "length padded = 2 ^ k" "sn_srs_key ?N cfg (2 ^ k) = Inr srs"
      "sn_srs_verifier_key ?N cfg (2 ^ k) = Inr srs_vk"
    and a: "sn_aggregate ?N srs ?h padded v = Inr a" "sn_write_aggregate ?N a = Inr bytes" "sn_read_aggregate ?N bytes = Inr a" "sn_nproofs ?N a = 2 ^ k"
    and i: "pad_inputs_to_target inputs 1 (2 ^ k) = Some (Inr (inputs @ replicate (2 ^ k - length inputs) (last inputs)))"
      "sn_verify_aggregate ?N srs_vk vk (inputs @ replicate (2 ^ k - length inputs) (last inputs)) a ?h v = Inr True"
    by (rule padded_aggregate [OF vk(2) c assms(6,7), where h = ?h and version = v]) 
  have "aggregate_seal_commit_proofs S cfg comm_rs seeds outputs v = Inr bytes"
    using assms(2,5) r vk(1) p a(1,2) k by (simp add: aggregate_seal_commit_proofs_def Let_def FIP92_MIN_NI_POREP_AGGREGATION_PROOFS_def Suc_le_eq)
  moreover have "inputs \<noteq> []" using k(3) c by auto
  then have "verify_aggregate_seal_commit_proofs S cfg bytes comm_rs seeds inputs v = Some (Inr True)"
    using a(3,4) vk(1) p(4) assms(8) k i by (simp add: verify_aggregate_seal_commit_proofs_def Let_def)
  ultimately show ?thesis by blast
qed

text \<open>A crate whose Groth16 proofs are bytes, valid for the inputs which they name, and whose aggregates are the lists of them.\<close>

definition toy_snark :: "(toy_fr, unit, u8, u8 list) snark" where
  "toy_snark = \<lparr>sn_params = (\<lambda>_. Inr ()), sn_verifying_key = (\<lambda>_. Inr ()), sn_srs_key = (\<lambda>_ _. Inr ()), sn_srs_verifier_key = (\<lambda>_ _. Inr ()),
     sn_prove = (\<lambda>_ circuits _. Inr (map (\<lambda>_. 7) circuits)), sn_write = (\<lambda>g. Inr [g]), sn_read = (\<lambda>bs. Inr (hd bs)),
     sn_read_many = (\<lambda>bs n. if length bs = n then Inr bs else Inl (Fail ''bytes'')),
     sn_verify_batch = (\<lambda>_ gs inputs. Inr (inputs = map (\<lambda>g. [of_nat (unat g)]) gs)),
     sn_aggregate = (\<lambda>_ _ gs _. Inr gs), sn_verify_aggregate = (\<lambda>_ _ inputs gs _ _. Inr (inputs = map (\<lambda>g. [of_nat (unat g)]) gs)),
     sn_write_aggregate = Inr, sn_read_aggregate = Inr, sn_nproofs = length\<rparr>"

definition toy_seal :: "(toy_fr, u8 list list, u8 list \<times> u8 list \<times> (u8 list list \<times> nat) list, unit, u8, u8 list) seal_env" where
  "toy_seal = \<lparr>se_drg = toy_api_drg, se_cache = toy_cache_env, se_challenge_prims = toy_synth_prims, se_rng = ge_rng toy_env,
     se_log2_ceil = ge_log2_ceil toy_env, se_blake2b = ge_blake2b toy_env, se_write_p_aux = (\<lambda>_. Inl (Fail ''p_aux'')), se_read_p_aux = (\<lambda>_. Inl (Fail ''p_aux'')),
     se_write_t_aux = (\<lambda>_. Inl (Fail ''t_aux'')), se_read_t_aux = (\<lambda>_. Inl (Fail ''t_aux'')), se_store_of_path = (\<lambda>_ bs. Inr bs), se_snark = toy_snark\<rparr>"

definition toy_config :: porep_config where
  "toy_config = porep_config.make SECTOR_SIZE_2_KIB 1 (replicate 32 0) V1_2_0 []"

theorem aggregate_complete_witness:
  "\<exists>bytes. aggregate_seal_commit_proofs toy_seal toy_config [[1], [2], [3]] [[4], [5], [6]] [[7], [8], [9]] AggV1 = Inr bytes \<and>
    verify_aggregate_seal_commit_proofs toy_seal toy_config bytes [[1], [2], [3]] [[4], [5], [6]]
      [[of_nat 7], [of_nat 8], [of_nat 9]] AggV1 = Some (Inr True)"
proof (rule aggregate_complete)
  have "inputs = map (\<lambda>g. [of_nat (unat g)]) proofs" if "list_all2 (\<lambda>g i. i = [of_nat (unat g) :: toy_fr]) proofs inputs" for proofs :: "u8 list" and inputs
    using that by (induction rule: list_all2_induct) auto
  then show "aggregation_ok (se_snark toy_seal) toy_config (\<lambda>g i. i = [of_nat (unat g)])"
    by (simp add: aggregation_ok_def aggregation_for_def toy_seal_def toy_snark_def)
  show "list_all2 (\<lambda>out proofs. multi_proof_from_bytes (sn_read_many (se_snark toy_seal)) (Some (pc_partitions toy_config)) out = Inr proofs)
      [[7], [8], [9]] [[7], [8], [9]]"
    by (simp add: multi_proof_from_bytes_def toy_seal_def toy_snark_def toy_config_def porep_config.defs unwrap_or_def)
qed (simp_all add: toy_config_def porep_config.defs feature_enabled_def SRS_MAX_PROOFS_TO_AGGREGATE_def)

text \<open>
  C33. Verification of an aggregate ends, whatever its bytes, the number of proofs it claims and the number
  of inputs: the loop which pads the inputs is never entered with nothing to add.
\<close>

theorem verify_aggregate_ends:
  "verify_aggregate_seal_commit_proofs S cfg bytes comm_rs seeds inputs v \<noteq> None"
proof (cases "sn_read_aggregate (se_snark S) bytes")
  case (Inr a)
  let ?p = "get_aggregate_target_len (length inputs) div sn_nproofs (se_snark S) a"
  have "pad_inputs_to_target inputs ?p (sn_nproofs (se_snark S) a * ?p) \<noteq> None"
    by (rule pad_inputs_ends) (cases "?p = 0", auto)
  then obtain x where "pad_inputs_to_target inputs ?p (sn_nproofs (se_snark S) a * ?p) = Some x" by blast
  then show ?thesis using Inr by (simp add: verify_aggregate_seal_commit_proofs_def Let_def bindO_def split: sum.splits)
qed (simp add: verify_aggregate_seal_commit_proofs_def)
end
