(* ===== verification/Update_Api.thy ===== *)
theory Update_Api
  imports Update_Compound Aggregation
begin

text \<open>
  Sector updates of the API: \<open>filecoin-proofs/src/api/update.rs\<close> with \<open>chunk_iter.rs\<close>, the configuration
  \<open>types/sector_update_config.rs\<close> and \<open>types/update_proof_partitions.rs\<close>. The cache directories of the sector key and
  of the new replica are two disks; files are their contents, tests that a path is a directory are left out. Circuit proofs,
  keys and \<open>bincode\<close> are parameters, as in sealing.
\<close>

section \<open>The code\<close>

record ('f, 't, 'p, 'k, 'g, 'a) update_api =
  ua_update :: "('f, 't, 'p) update_env"
  ua_write_p_aux :: "persistent_aux \<Rightarrow> u8 list res"
  ua_read_p_aux :: "u8 list \<Rightarrow> persistent_aux res"
  ua_write_t_aux :: "temporary_aux \<Rightarrow> u8 list res"
  ua_read_t_aux :: "u8 list \<Rightarrow> temporary_aux res"
  ua_snark :: "('f, 'k, 'g, 'a) snark"
  ua_groth :: "('f, 'k, 'g) update_groth"

record sector_update_config =
  su_sector_size :: nat
  su_nodes_count :: nat
  su_update_partitions :: u8
  su_h :: nat

text \<open>The number of partitions is kept as a \<open>u8\<close>.\<close>

definition from_porep_config :: "porep_config \<Rightarrow> sector_update_config" where
  "from_porep_config cfg =
     (let nodes_count = porep_config.pc_sector_size cfg div NODE_SIZE in
      \<lparr>su_sector_size = porep_config.pc_sector_size cfg, su_nodes_count = nodes_count,
        su_update_partitions = of_nat (partition_count nodes_count), su_h = h_default nodes_count\<rparr>)"

definition usize_of_partitions :: "u8 \<Rightarrow> nat" where "usize_of_partitions x = unat x"

definition get_new_configs_from_t_aux_old ::
  "('f, 't, 'p) drg_env \<Rightarrow> temporary_aux \<Rightarrow> nat \<Rightarrow> (store_config \<times> store_config) res" where
  "get_new_configs_from_t_aux_old X t_aux nodes_count =
     bindR (get_base_tree_count (de_arities X)) (\<lambda>tree_count.
     bindR (udiv nodes_count tree_count) (\<lambda>base_tree_nodes_count.
     bindR (get_merkle_tree_len (de_tree_d X) nodes_count 2) (\<lambda>tree_d_size.
     bindR (get_merkle_tree_len (de_tree X) base_tree_nodes_count (base_arity (de_arities X))) (\<lambda>tree_r_last_size.
     Inr ((ta_tree_d_config t_aux)\<lparr>sc_size := Some tree_d_size\<rparr>, (ta_tree_r_last_config t_aux)\<lparr>sc_size := Some tree_r_last_size\<rparr>)))))"

subsection \<open>Encoding\<close>

record update_encoded =
  un_comm_r_new :: "u8 list"
  un_comm_r_last_new :: "u8 list"
  un_comm_d_new :: "u8 list"

text \<open>The new replica, the map of commitments, the new cache directory and the commitments.\<close>

definition api_encode_into ::
  "('f::field, 't, 'p, 'k, 'g, 'a) update_api \<Rightarrow> sector_update_config \<Rightarrow> u8 list option \<Rightarrow> u8 list option \<Rightarrow> disk \<Rightarrow> u8 list option \<Rightarrow>
    piece_info list \<Rightarrow> commitments \<Rightarrow> disk \<Rightarrow> (u8 list \<times> commitments \<times> disk \<times> update_encoded) res option" where
  "api_encode_into E config new_replica_file sector_key_file sector_key_cache staged_file piece_infos cm d =
     (let U = ua_update E in
      bindO (Some (get_p_aux (ua_read_p_aux E) sector_key_cache)) (\<lambda>p_aux.
      bindO (Some (get_t_aux (ua_read_t_aux E) sector_key_cache)) (\<lambda>t_aux.
      bindO (Some (get_new_configs_from_t_aux_old (ue_drg U) t_aux (su_nodes_count config))) (\<lambda>(tree_d_new_config, tree_r_last_new_config).
      bindO (Some (domain_from_bytes (pa_comm_c p_aux))) (\<lambda>comm_c.
      bindO (Some (domain_from_bytes (pa_comm_r_last p_aux))) (\<lambda>comm_sector_key.
      bindO (Some (encode_into U (su_nodes_count config) tree_d_new_config tree_r_last_new_config comm_c comm_sector_key new_replica_file
          sector_key_file staged_file (h_default (su_nodes_count config)) d)) (\<lambda>(new_replica, d, comm_r, comm_r_last, comm_d).
      if comm_d = zero_commitment then Some (Inl (Fail ''Invalid all zero commitment (comm_d)''))
      else if comm_r = zero_commitment then Some (Inl (Fail ''Invalid all zero commitment (comm_r)''))
      else if comm_r_last = zero_commitment then Some (Inl (Fail ''Invalid all zero commitment (comm_r)''))
      else bindO (verify_pieces (ue_sha256 U) cm comm_d piece_infos (su_sector_size config)) (\<lambda>(cm, ok).
        if \<not> ok then Some (Inl (Fail ''pieces and comm_d do not match''))
        else Some (bindR (persist_p_aux (ua_write_p_aux E) (p_aux\<lparr>pa_comm_r_last := comm_r_last\<rparr>) d) (\<lambda>d.
          bindR (persist_t_aux (ua_write_t_aux E) t_aux d) (\<lambda>d.
          Inr (new_replica, cm, d, \<lparr>un_comm_r_new = comm_r, un_comm_r_last_new = comm_r_last, un_comm_d_new = comm_d\<rparr>))))))))))))"

subsection \<open>Decoding\<close>

definition READER_CHUNK_SIZE :: nat where "READER_CHUNK_SIZE = 4096"

text \<open>
  \<open>ChunkIterator::next\<close> on a reader, given by \<open>read_many\<close> of the iowrap crate: it reads until the buffer is full or the
  end is reached. The size of the chunks is always \<open>READER_CHUNK_SIZE\<close>, so that an iterator is its reader.
\<close>

definition chunk_next :: "('r \<Rightarrow> nat \<Rightarrow> 'r \<times> u8 list res) \<Rightarrow> 'r \<Rightarrow> 'r \<times> u8 list res option" where
  "chunk_next read_many reader =
     (case read_many reader READER_CHUNK_SIZE of
        (reader, Inl e) \<Rightarrow> (reader, Some (Inl e))
      | (reader, Inr bytes) \<Rightarrow> (reader, if bytes = [] then None else Some (Inr bytes)))"

definition decode_chunk_node :: "'f::field porep_prims \<Rightarrow> 'f rhos \<Rightarrow> nat \<Rightarrow> u8 list \<Rightarrow> u8 list \<Rightarrow> nat \<Rightarrow> u8 list res" where
  "decode_chunk_node P rho_invs chunk_start sector_key_chunk input_chunk i =
     bindR (rhos_get rho_invs ((chunk_start + i) div NODE_SIZE)) (\<lambda>rho_inv.
     bindR (fr_at P sector_key_chunk i) (\<lambda>sector_key_fr.
     bindR (fr_at P input_chunk i) (\<lambda>input_fr.
     Inr (pq_of_fr P ((input_fr - sector_key_fr) * rho_inv)))))"

definition decode_chunk :: "'f::field porep_prims \<Rightarrow> 'f rhos \<Rightarrow> nat \<Rightarrow> nat \<Rightarrow> u8 list \<Rightarrow> u8 list \<Rightarrow> u8 list res" where
  "decode_chunk P rho_invs chunk_start current_chunk_size input_chunk sector_key_chunk =
     ensure (current_chunk_size \<le> length input_chunk) ''not enough bytes in input''
     (ensure (current_chunk_size \<le> length sector_key_chunk) ''not enough bytes in sector key''
     (bindR (collectR (decode_chunk_node P rho_invs chunk_start sector_key_chunk input_chunk) (step_by current_chunk_size NODE_SIZE)) (\<lambda>output_reprs.
      Inr (concat output_reprs))))"

text \<open>
  The loop over the chunks of both readers: what is written to the output, also when there is an error, and the result.
\<close>

function decode_chunks ::
  "('r \<Rightarrow> nat \<Rightarrow> 'r \<times> u8 list res) \<Rightarrow> ('s \<Rightarrow> nat \<Rightarrow> 's \<times> u8 list res) \<Rightarrow> (nat \<Rightarrow> nat \<Rightarrow> u8 list \<Rightarrow> u8 list \<Rightarrow> u8 list res) \<Rightarrow> nat \<Rightarrow> nat \<Rightarrow> nat \<Rightarrow>
    'r \<Rightarrow> 's \<Rightarrow> u8 list \<Rightarrow> u8 list \<times> unit res" where
  "decode_chunks read_input read_key f start bytes_length chunk_index input sector_key out =
     (let chunk_offset = chunk_index * READER_CHUNK_SIZE; (input, input_chunk_result) = chunk_next read_input input in
      case input_chunk_result of None \<Rightarrow> (out, Inr ()) | Some input_chunk_result \<Rightarrow>
     (let (sector_key, sector_key_chunk_result) = chunk_next read_key sector_key in
      case sector_key_chunk_result of None \<Rightarrow> (out, Inr ()) | Some sector_key_chunk_result \<Rightarrow>
      if bytes_length < chunk_offset then (out, Inr ())
      else case bindR input_chunk_result (\<lambda>input_chunk.
          bindR sector_key_chunk_result (\<lambda>sector_key_chunk.
          f (start + chunk_offset) (min (bytes_length - chunk_offset) READER_CHUNK_SIZE) input_chunk sector_key_chunk)) of
        Inl e \<Rightarrow> (out, Inl e)
      | Inr bytes \<Rightarrow> decode_chunks read_input read_key f start bytes_length (Suc chunk_index) input sector_key (out @ bytes)))"
  by pat_completeness auto

termination
  by (relation "measure (\<lambda>(_, _, _, _, bytes_length, chunk_index, _). Suc bytes_length - chunk_index * READER_CHUNK_SIZE)")
    (auto simp: READER_CHUNK_SIZE_def)

declare decode_chunks.simps [simp del]

definition decode_from_range ::
  "('f::field, 't, 'p) update_env \<Rightarrow> ('r \<Rightarrow> nat \<Rightarrow> 'r \<times> u8 list res) \<Rightarrow> ('s \<Rightarrow> nat \<Rightarrow> 's \<times> u8 list res) \<Rightarrow> nat \<Rightarrow> u8 list \<Rightarrow> u8 list \<Rightarrow> 'r \<Rightarrow> 's \<Rightarrow>
    nat \<Rightarrow> nat \<Rightarrow> u8 list \<Rightarrow> u8 list \<times> unit res" where
  "decode_from_range U read_input read_key nodes_count comm_d comm_r input_data sector_key_data nodes_offset num_nodes out =
     (let R = ue_randomness U; P = de_prims (ue_drg U) in
      case bindR (domain_from_bytes comm_d) (\<lambda>comm_d_domain. bindR (domain_from_bytes comm_r) (\<lambda>comm_r_domain.
        bindR (update_phi R comm_d_domain comm_r_domain) (\<lambda>phi.
        rhos_new_inv_range R phi (h_default nodes_count) nodes_count nodes_offset num_nodes))) of
        Inl e \<Rightarrow> (out, Inl e)
      | Inr rho_invs \<Rightarrow> decode_chunks read_input read_key (decode_chunk P rho_invs) (nodes_offset * NODE_SIZE) (num_nodes * NODE_SIZE) 0
          input_data sector_key_data out)"

text \<open>The data that is written to the output file.\<close>

definition api_decode_from ::
  "('f::field, 't, 'p, 'k, 'g, 'a) update_api \<Rightarrow> sector_update_config \<Rightarrow> u8 list option \<Rightarrow> u8 list option \<Rightarrow> u8 list option \<Rightarrow> disk \<Rightarrow>
    u8 list \<Rightarrow> u8 list res" where
  "api_decode_from E config out_data_file replica_file sector_key_file sector_key_cache comm_d_new =
     bindR (get_p_aux (ua_read_p_aux E) sector_key_cache) (\<lambda>p_aux.
     bindR (domain_from_bytes (pa_comm_c p_aux)) (\<lambda>comm_c.
     bindR (domain_from_bytes (pa_comm_r_last p_aux)) (\<lambda>comm_sector_key.
     decode_from (ua_update E) (su_nodes_count config) out_data_file replica_file sector_key_file comm_c comm_d_new comm_sector_key
       (h_default (su_nodes_count config)))))"

text \<open>The sector key and its cache directory. \<open>directory\<close> is as for \<open>Sector_Update.remove_encoded_data\<close>.\<close>

definition api_remove_encoded_data ::
  "('f::field, 't, 'p, 'k, 'g, 'a) update_api \<Rightarrow> sector_update_config \<Rightarrow> u8 list option \<Rightarrow> u8 list \<Rightarrow> disk \<Rightarrow> u8 list option \<Rightarrow> disk \<Rightarrow>
    u8 list option \<Rightarrow> u8 list \<Rightarrow> (u8 list \<times> disk) res" where
  "api_remove_encoded_data E config sector_key_file directory sector_key_cache replica_file replica_cache data_file comm_d_new =
     (let U = ua_update E in
      bindR (get_p_aux (ua_read_p_aux E) replica_cache) (\<lambda>p_aux.
      bindR (get_t_aux (ua_read_t_aux E) replica_cache) (\<lambda>t_aux.
      bindR (get_new_configs_from_t_aux_old (ue_drg U) t_aux (su_nodes_count config)) (\<lambda>(_, tree_r_last_new_config).
      bindR (domain_from_bytes (pa_comm_c p_aux)) (\<lambda>comm_c.
      bindR (domain_from_bytes (pa_comm_r_last p_aux)) (\<lambda>comm_sector_key.
      bindR (remove_encoded_data U (su_nodes_count config) sector_key_file directory replica_file data_file tree_r_last_new_config comm_c
        comm_d_new comm_sector_key (h_default (su_nodes_count config)) sector_key_cache) (\<lambda>(sector_key, d, tree_r_last_new).
      bindR (persist_p_aux (ua_write_p_aux E) (p_aux\<lparr>pa_comm_r_last := tree_r_last_new\<rparr>) d) (\<lambda>d.
      bindR (persist_t_aux (ua_write_t_aux E) t_aux d) (\<lambda>d.
      Inr (sector_key, d))))))))))"

subsection \<open>Vanilla proofs\<close>

definition update_api_inputs :: "nat \<Rightarrow> u8 list \<Rightarrow> u8 list \<Rightarrow> u8 list \<Rightarrow> nat \<Rightarrow> update_inputs res" where
  "update_api_inputs k comm_r_old comm_r_new comm_d_new h =
     bindR (domain_from_bytes comm_r_old) (\<lambda>comm_r_old_safe. bindR (domain_from_bytes comm_r_new) (\<lambda>comm_r_new_safe.
     bindR (domain_from_bytes comm_d_new) (\<lambda>comm_d_new_safe.
     Inr \<lparr>ui_k = k, ui_comm_r_old = comm_r_old_safe, ui_comm_d_new = comm_d_new_safe, ui_comm_r_new = comm_r_new_safe, ui_h = h\<rparr>)))"

definition update_api_private ::
  "('f, 't, 'p, 'k, 'g, 'a) update_api \<Rightarrow> sector_update_config \<Rightarrow> persistent_aux \<Rightarrow> u8 list option \<Rightarrow> disk \<Rightarrow> u8 list option \<Rightarrow> disk \<Rightarrow>
    update_private res" where
  "update_api_private E config p_aux_old sector_key_file sector_key_cache replica_file replica_cache =
     bindR (get_t_aux (ua_read_t_aux E) sector_key_cache) (\<lambda>t_aux_old.
     bindR (get_new_configs_from_t_aux_old (ue_drg (ua_update E)) t_aux_old (su_nodes_count config)) (\<lambda>(tree_d_new_config, tree_r_last_new_config).
     Inr \<lparr>uv_comm_c = pa_comm_c p_aux_old, uv_tree_r_old_config = (ta_tree_r_last_config t_aux_old, sector_key_cache),
       uv_old_replica = sector_key_file, uv_tree_d_new_config = (tree_d_new_config, replica_cache),
       uv_tree_r_new_config = (tree_r_last_new_config, replica_cache), uv_replica = replica_file\<rparr>))"

definition generate_single_partition_proof ::
  "('f::field, 't, 'p, 'k, 'g, 'a) update_api \<Rightarrow> sector_update_config \<Rightarrow> nat \<Rightarrow> u8 list \<Rightarrow> u8 list \<Rightarrow> u8 list \<Rightarrow> u8 list option \<Rightarrow> disk \<Rightarrow>
    u8 list option \<Rightarrow> disk \<Rightarrow> update_proof res" where
  "generate_single_partition_proof E config partition_index comm_r_old comm_r_new comm_d_new sector_key_file sector_key_cache replica_file replica_cache =
     bindR (update_api_inputs partition_index comm_r_old comm_r_new comm_d_new (su_h config)) (\<lambda>public_inputs.
     bindR (from_sector_size (su_sector_size config)) (\<lambda>public_params.
     bindR (get_p_aux (ua_read_p_aux E) sector_key_cache) (\<lambda>p_aux_old.
     ensure (partition_index < usize_of_partitions (su_update_partitions config)) ''invalid partition index''
       (bindR (update_api_private E config p_aux_old sector_key_file sector_key_cache replica_file replica_cache) (\<lambda>private_inputs.
        update_prove (ua_update E) public_params public_inputs private_inputs)))))"

definition verify_single_partition_proof ::
  "('f::field, 't, 'p, 'k, 'g, 'a) update_api \<Rightarrow> sector_update_config \<Rightarrow> nat \<Rightarrow> update_proof \<Rightarrow> u8 list \<Rightarrow> u8 list \<Rightarrow> u8 list \<Rightarrow> bool res" where
  "verify_single_partition_proof E config partition_index pr comm_r_old comm_r_new comm_d_new =
     bindR (update_api_inputs partition_index comm_r_old comm_r_new comm_d_new (su_h config)) (\<lambda>public_inputs.
     bindR (from_sector_size (su_sector_size config)) (\<lambda>public_params.
     ensure (partition_index < usize_of_partitions (su_update_partitions config)) ''invalid partition index''
       (update_verify (ua_update E) public_params public_inputs pr)))"

definition generate_partition_proofs ::
  "('f::field, 't, 'p, 'k, 'g, 'a) update_api \<Rightarrow> sector_update_config \<Rightarrow> u8 list \<Rightarrow> u8 list \<Rightarrow> u8 list \<Rightarrow> u8 list option \<Rightarrow> disk \<Rightarrow>
    u8 list option \<Rightarrow> disk \<Rightarrow> update_proof list res" where
  "generate_partition_proofs E config comm_r_old comm_r_new comm_d_new sector_key_file sector_key_cache replica_file replica_cache =
     bindR (update_api_inputs (usize_of_partitions (su_update_partitions config)) comm_r_old comm_r_new comm_d_new (su_h config)) (\<lambda>public_inputs.
     bindR (from_sector_size (su_sector_size config)) (\<lambda>public_params.
     bindR (get_p_aux (ua_read_p_aux E) sector_key_cache) (\<lambda>p_aux_old.
     bindR (update_api_private E config p_aux_old sector_key_file sector_key_cache replica_file replica_cache) (\<lambda>private_inputs.
     update_prove_all (ua_update E) public_params public_inputs private_inputs))))"

definition verify_partition_proofs ::
  "('f::field, 't, 'p, 'k, 'g, 'a) update_api \<Rightarrow> sector_update_config \<Rightarrow> update_proof list \<Rightarrow> u8 list \<Rightarrow> u8 list \<Rightarrow> u8 list \<Rightarrow> bool res" where
  "verify_partition_proofs E config proofs comm_r_old comm_r_new comm_d_new =
     bindR (update_api_inputs (usize_of_partitions (su_update_partitions config)) comm_r_old comm_r_new comm_d_new (su_h config)) (\<lambda>public_inputs.
     bindR (from_sector_size (su_sector_size config)) (\<lambda>public_params.
     update_verify_all (ua_update E) public_params public_inputs proofs))"

subsection \<open>Groth16 proofs\<close>

definition generate_empty_sector_update_proof_with_vanilla ::
  "('f::field, 't, 'p, 'k, 'g, 'a) update_api \<Rightarrow> porep_config \<Rightarrow> update_proof list \<Rightarrow> u8 list \<Rightarrow> u8 list \<Rightarrow> u8 list \<Rightarrow> u8 list res" where
  "generate_empty_sector_update_proof_with_vanilla E cfg vanilla_proofs comm_r_old comm_r_new comm_d_new =
     (let config = from_porep_config cfg; partitions = usize_of_partitions (su_update_partitions config); N = ua_snark E; G = ua_groth E in
      bindR (update_api_inputs partitions comm_r_old comm_r_new comm_d_new (su_h config)) (\<lambda>public_inputs.
      bindR (update_compound_setup (su_sector_size config) (Some partitions) False) (\<lambda>pub_params_compound.
      bindR (ug_params G cfg) (\<lambda>groth_params.
      bindR (update_compound_prove_with_vanilla N G (de_prims (ue_drg (ua_update E))) pub_params_compound public_inputs vanilla_proofs groth_params) (\<lambda>proofs.
      multi_proof_write N proofs)))))"

definition generate_empty_sector_update_proof ::
  "('f::field, 't, 'p, 'k, 'g, 'a) update_api \<Rightarrow> porep_config \<Rightarrow> u8 list \<Rightarrow> u8 list \<Rightarrow> u8 list \<Rightarrow> u8 list option \<Rightarrow> disk \<Rightarrow> u8 list option \<Rightarrow> disk \<Rightarrow>
    u8 list res" where
  "generate_empty_sector_update_proof E cfg comm_r_old comm_r_new comm_d_new sector_key_file sector_key_cache replica_file replica_cache =
     (let config = from_porep_config cfg; partitions = usize_of_partitions (su_update_partitions config); N = ua_snark E; G = ua_groth E in
      bindR (update_api_inputs partitions comm_r_old comm_r_new comm_d_new (su_h config)) (\<lambda>public_inputs.
      bindR (get_p_aux (ua_read_p_aux E) sector_key_cache) (\<lambda>p_aux_old.
      bindR (update_api_private E config p_aux_old sector_key_file sector_key_cache replica_file replica_cache) (\<lambda>private_inputs.
      bindR (update_compound_setup (su_sector_size config) (Some partitions) False) (\<lambda>pub_params_compound.
      bindR (ug_params G cfg) (\<lambda>groth_params.
      bindR (update_compound_prove (ua_update E) N G pub_params_compound public_inputs private_inputs groth_params) (\<lambda>proofs.
      multi_proof_write N proofs)))))))"

definition verify_empty_sector_update_proof ::
  "('f::field, 't, 'p, 'k, 'g, 'a) update_api \<Rightarrow> porep_config \<Rightarrow> u8 list \<Rightarrow> u8 list \<Rightarrow> u8 list \<Rightarrow> u8 list \<Rightarrow> bool res" where
  "verify_empty_sector_update_proof E cfg update_bytes comm_r_old comm_r_new comm_d_new =
     (let config = from_porep_config cfg; partitions = usize_of_partitions (su_update_partitions config); N = ua_snark E; G = ua_groth E in
      bindR (update_api_inputs partitions comm_r_old comm_r_new comm_d_new (su_h config)) (\<lambda>public_inputs.
      bindR (update_compound_setup (su_sector_size config) (Some partitions) True) (\<lambda>pub_params_compound.
      bindR (ug_verifying_key G cfg) (\<lambda>verifying_key.
      bindR (multi_proof_from_bytes (sn_read_many N) (Some partitions) update_bytes) (\<lambda>multi_proof.
      update_compound_verify N (de_prims (ue_drg (ua_update E))) pub_params_compound public_inputs verifying_key multi_proof)))))"

definition get_sector_update_inputs ::
  "('f::field, 't, 'p, 'k, 'g, 'a) update_api \<Rightarrow> porep_config \<Rightarrow> u8 list \<Rightarrow> u8 list \<Rightarrow> u8 list \<Rightarrow> 'f list list res" where
  "get_sector_update_inputs E cfg comm_r_old comm_r_new comm_d_new =
     ensure (comm_r_old \<noteq> zero_commitment) ''Invalid all zero commitment (comm_r_old)''
     (ensure (comm_r_new \<noteq> zero_commitment) ''Invalid all zero commitment (comm_r_new)''
     (ensure (comm_d_new \<noteq> zero_commitment) ''Invalid all zero commitment (comm_d_new)''
     (let config = from_porep_config cfg; partitions = usize_of_partitions (su_update_partitions config) in
      bindR (update_api_inputs 0 comm_r_old comm_r_new comm_d_new (su_h config)) (\<lambda>public_inputs.
      bindR (update_compound_setup (su_sector_size config) (Some partitions) False) (\<lambda>pub_params_compound.
      collectR (\<lambda>k. update_public_inputs (de_prims (ue_drg (ua_update E))) public_inputs (uc_vanilla pub_params_compound) (Some k)) [0..<partitions])))))"

subsection \<open>Aggregation\<close>

record sector_update_inputs =
  si_h :: nat
  si_comm_r_old :: "u8 list"
  si_comm_r_new :: "u8 list"
  si_comm_d_new :: "u8 list"

text \<open>\<open>h\<close> is hashed as a \<open>u8\<close>.\<close>

definition get_hashed_commitments :: "(u8 list \<Rightarrow> u8 list) \<Rightarrow> sector_update_inputs list \<Rightarrow> u8 list" where
  "get_hashed_commitments sha256 inputs =
     sha256 (concat (map (\<lambda>i. [of_nat (si_h i)] @ si_comm_r_old i @ si_comm_r_new i @ si_comm_d_new i) inputs))"

definition aggregate_empty_sector_update_proofs ::
  "('f, 't, 'p, 'k, 'g, 'a) update_api \<Rightarrow> porep_config \<Rightarrow> u8 list list \<Rightarrow> sector_update_inputs list \<Rightarrow> aggregate_version \<Rightarrow> u8 list res" where
  "aggregate_empty_sector_update_proofs E cfg proofs inputs version =
     (let N = ua_snark E in
      ensure (api_version_le V1_2_0 (pc_api_version cfg)) ''Empty Sector Update proof aggregation is supported in ApiVersion 1.2.0 or later''
      (ensure (version = AggV2) ''Empty sector update aggregation requires SnarkPackV2''
      (ensure (inputs \<noteq> []) ''cannot aggregate with empty sector_update_inputs''
      (ensure (\<forall>i\<in>set inputs. si_h (hd inputs) = si_h i) ''mismatched h values in sector update aggregation inputs!''
      (let config = from_porep_config cfg; partitions = usize_of_partitions (su_update_partitions config) in
       bindR (collectR (\<lambda>p. sn_read_many N p partitions) proofs) (\<lambda>proofs.
       let proofs = concat proofs; target_proofs_len = get_aggregate_target_len (length proofs) in
       ensure (1 < target_proofs_len) ''cannot aggregate less than two proofs''
       (bindR (pad_proofs_to_target proofs target_proofs_len) (\<lambda>proofs.
        bindR (sn_srs_key N cfg (length proofs)) (\<lambda>srs_prover_key.
        bindR (sn_aggregate N srs_prover_key (get_hashed_commitments (ue_sha256 (ua_update E)) inputs) proofs version) (sn_write_aggregate N))))))))))"

definition verify_aggregate_sector_update_proofs ::
  "('f, 't, 'p, 'k, 'g, 'a) update_api \<Rightarrow> porep_config \<Rightarrow> u8 list \<Rightarrow> sector_update_inputs list \<Rightarrow> 'f list list \<Rightarrow> aggregate_version \<Rightarrow>
    bool res option" where
  "verify_aggregate_sector_update_proofs E cfg aggregate_proof_bytes inputs sector_update_inputs version =
     (let N = ua_snark E in
      if \<not> api_version_le V1_2_0 (pc_api_version cfg)
      then Some (Inl (Fail ''Empty Sector Update proof aggregation is supported in ApiVersion 1.2.0 or later''))
      else if version \<noteq> AggV2 then Some (Inl (Fail ''Empty sector update aggregate verification requires SnarkPackV2''))
      else bindO (Some (sn_read_aggregate N aggregate_proof_bytes)) (\<lambda>aggregate_proof.
      let n = sn_nproofs N aggregate_proof in
      if n = 0 then Some (Inl (Fail ''cannot verify zero proofs''))
      else if sector_update_inputs = [] then Some (Inl (Fail ''cannot verify with empty inputs''))
      else if inputs = [] then Some (Inl (Fail ''cannot verify with empty sector_update_inputs''))
      else if \<exists>i\<in>set inputs. si_h (hd inputs) \<noteq> si_h i then Some (Inl (Fail ''mismatched h values in sector update verify aggregation inputs!''))
      else if \<not> 1 < n then Some (Inl (Fail ''cannot verify less than two proofs''))
      else if n \<noteq> next_power_of_two n then Some (Inl (Fail ''cannot verify non-pow2 aggregate seal proofs''))
      else let num_inputs_per_proof = get_aggregate_target_len (length sector_update_inputs) div n in
      if num_inputs_per_proof \<noteq> 1 then Some (Inl (Fail ''num_inputs per proof mismatch''))
      else let target_inputs_len = n * num_inputs_per_proof in
      if \<not> n dvd target_inputs_len then Some (Inl (Fail ''invalid number of inputs provided''))
      else bindO (pad_inputs_to_target sector_update_inputs num_inputs_per_proof target_inputs_len) (\<lambda>sector_update_inputs.
      Some (bindR (ug_verifying_key (ua_groth E) cfg) (\<lambda>verifying_key.
        bindR (sn_srs_verifier_key N cfg n) (\<lambda>srs_verifier_key.
        sn_verify_aggregate N srs_verifier_key verifying_key sector_update_inputs aggregate_proof
          (get_hashed_commitments (ue_sha256 (ua_update E)) inputs) version))))))"

section \<open>Decoding a range\<close>

text \<open>A reader at a position of a file: the rest of its bytes.\<close>

definition file_reader :: "u8 list \<Rightarrow> nat \<Rightarrow> u8 list \<times> u8 list res" where
  "file_reader bytes n = (drop n bytes, Inr (take n bytes))"

lemma rhos_inv_range_ok:
  assumes x: "into_fr (rn_prims R) phi = Inr x" and h: "h \<le> b" and n: "n = 2 ^ b" and num: "0 < num"
    and nz: "\<And>i. off \<le> i \<Longrightarrow> i < off + num \<Longrightarrow> node_rho R x (b - h) i \<noteq> 0"
  obtains r where "rhos_new_inv_range R phi h n off num = Inr r"
    "\<And>i. off \<le> i \<Longrightarrow> i < off + num \<Longrightarrow> rhos_get r i = Inr (inverse (node_rho R x (b - h) i))"
proof -
  let ?rho = "\<lambda>high. rn_hash R [x, of_nat (unat (of_nat high :: u32))]" and ?s = "2 ^ (b - h) :: nat"
  let ?hs = "[off div ?s..<Suc ((off + num - 1) div ?s)]"
  let ?r = "\<lparr>rh_rhos = map_of (map (\<lambda>high. (high, inverse (?rho high))) ?hs), rh_bits_shr = b - h\<rparr>"
  have "collectR (\<lambda>high. bindR (update_rho R phi (of_nat high)) (\<lambda>r.
      if r = 0 then Inl (Panic ''rho inversion should not fail'') else Inr (high, inverse r))) ?hs = Inr (map (\<lambda>high. (high, inverse (?rho high))) ?hs)"
  proof (intro collectR_all_ok)
    fix high assume "high \<in> set ?hs"
    then have hi: "off div ?s \<le> high" "high \<le> (off + num - 1) div ?s" by auto
    then have "high * ?s \<le> off + num - 1" by (simp add: less_eq_div_iff_mult_less_eq)
    moreover have "max off (high * ?s) div ?s = high" using hi(1) by (auto simp: max_def) (metis div_le_mono div_mult_self_is_m nat_le_linear le_antisym zero_less_numeral zero_less_power)
    ultimately have "?rho high \<noteq> 0" using nz [of "max off (high * ?s)"] num by (simp add: node_rho_def)
    then show "bindR (update_rho R phi (of_nat high)) (\<lambda>r. if r = 0 then Inl (Panic ''rho inversion should not fail'') else Inr (high, inverse r)) =
        Inr (high, inverse (?rho high))" using x by (simp add: update_rho_def)
  qed
  then have "rhos_new_inv_range R phi h n off num = Inr ?r"
    using h n num by (simp add: rhos_new_inv_range_def calc_bits_shr_def usub_def calc_high_range_def del: upt_Suc)
  moreover have "rhos_get ?r i = Inr (inverse (node_rho R x (b - h) i))" if "off \<le> i" "i < off + num" for i
  proof -
    have "i div ?s \<in> set ?hs" using that by (auto simp: less_Suc_eq_le intro: div_le_mono simp del: upt_Suc)
    then show ?thesis by (simp add: rhos_get_def node_rho_def map_of_map_restrict del: upt_Suc)
  qed
  ultimately show thesis by (rule that)
qed

text \<open>The loop over the chunks, when the bytes of a chunk are those of the output there.\<close>

lemma decode_chunks_ok:
  assumes len: "length W \<le> length I" "length W \<le> length K"
    and f: "\<And>c. c * READER_CHUNK_SIZE \<le> length W \<Longrightarrow>
      f (start + c * READER_CHUNK_SIZE) (min (length W - c * READER_CHUNK_SIZE) READER_CHUNK_SIZE) (take READER_CHUNK_SIZE (drop (c * READER_CHUNK_SIZE) I))
        (take READER_CHUNK_SIZE (drop (c * READER_CHUNK_SIZE) K)) = Inr (take READER_CHUNK_SIZE (drop (c * READER_CHUNK_SIZE) W))"
  shows "decode_chunks file_reader file_reader f start (length W) c (drop (c * READER_CHUNK_SIZE) I) (drop (c * READER_CHUNK_SIZE) K) out =
    (out @ drop (c * READER_CHUNK_SIZE) W, Inr ())"
proof (induction "Suc (length W) - c * READER_CHUNK_SIZE" arbitrary: c out rule: less_induct)
  case less
  let ?o = "c * READER_CHUNK_SIZE"
  have nx: "chunk_next file_reader (drop ?o bytes) =
      (drop (Suc c * READER_CHUNK_SIZE) bytes, if length bytes \<le> ?o then None else Some (Inr (take READER_CHUNK_SIZE (drop ?o bytes))))" for bytes :: "u8 list"
    by (simp add: chunk_next_def file_reader_def READER_CHUNK_SIZE_def add.commute)
  show ?case
  proof (cases "length W < ?o \<or> length I \<le> ?o \<or> length K \<le> ?o")
    case True
    then have "length W \<le> ?o" using len by auto
    then show ?thesis using True by (subst decode_chunks.simps) (auto simp: nx Let_def)
  next
    case False
    then have o: "?o \<le> length W" by simp
    have "Suc (length W) - Suc c * READER_CHUNK_SIZE < Suc (length W) - ?o" using o by (simp add: READER_CHUNK_SIZE_def)
    note ih = less [OF this]
    have "take READER_CHUNK_SIZE (drop ?o W) @ drop (Suc c * READER_CHUNK_SIZE) W = drop ?o W"
      using append_take_drop_id [of READER_CHUNK_SIZE "drop ?o W"] by (simp add: add.commute)
    then show ?thesis using False ih f [OF o] by (subst decode_chunks.simps) (simp add: nx Let_def)
  qed
qed

lemma fr_at_chunk: "i + 32 \<le> m \<Longrightarrow> a + i + 32 \<le> length bs \<Longrightarrow> fr_at P (take m (drop a bs)) i = fr_at P bs (a + i)"
  by (auto simp: fr_at_def FR_SIZE_def slice_def drop_take add.commute min_def)

lemma decode_chunk_ok:
  assumes P: "fr_ok P" and K: "canonical_nodes P n keys" and N: "canonical_nodes P n data" and num: "off + num \<le> n"
    and invs: "\<And>i. off \<le> i \<Longrightarrow> i < off + num \<Longrightarrow> rhos_get invs i = Inr (inverse (rho i)) \<and> rho i \<noteq> 0"
    and W: "W = concat (take num (drop off data))" and new: "new = encoded_nodes P rho keys data" and c: "c * READER_CHUNK_SIZE \<le> length W"
  shows "decode_chunk P invs (off * NODE_SIZE + c * READER_CHUNK_SIZE) (min (length W - c * READER_CHUNK_SIZE) READER_CHUNK_SIZE)
      (take READER_CHUNK_SIZE (drop (c * READER_CHUNK_SIZE) (drop (off * NODE_SIZE) (concat new))))
      (take READER_CHUNK_SIZE (drop (c * READER_CHUNK_SIZE) (drop (off * NODE_SIZE) (concat keys)))) =
    Inr (take READER_CHUNK_SIZE (drop (c * READER_CHUNK_SIZE) W))"
proof -
  let ?D = "take num (drop off data)" and ?a = "off * 32 + c * 4096"
  have ln: "length keys = n" using K by (simp add: canonical_nodes_def)
  note nk = canonical_nodes_ok [OF K] canonical_nodes_ok [OF N] canonical_nodes_ok [OF encoded_canonical [OF P ln], of rho data, folded new]
  have l: "length (concat keys) = 32 * n" "length (concat new) = 32 * n"
    using nk length_concat_nodes [of keys 32] length_concat_nodes [of new 32] by (auto simp: nodes_ok_def)
  have D: "length ?D = num" "\<forall>x\<in>set ?D. length x = 32" using nk(2) num by (auto simp: nodes_ok_def dest!: in_set_takeD in_set_dropD)
  then have lW: "length W = 32 * num" using W length_concat_nodes [of ?D 32] by simp
  define q where "q = min (num - c * 128) 128"
  have cs: "min (length W - c * 4096) 4096 = q * 32" unfolding lW q_def by (auto simp: min_def)
  have node: "decode_chunk_node P invs ?a (take 4096 (drop ?a (concat keys))) (take 4096 (drop ?a (concat new))) (i * 32) = Inr (data ! (off + c * 128 + i))"
    if i: "i < q" for i
  proof -
    define j where "j = off + c * 128 + i"
    have j: "off \<le> j" "j < off + num" "j < n" "i * 32 + 32 \<le> 4096" using i num by (auto simp: q_def j_def)
    have e: "?a + i * 32 = j * 32" by (simp add: j_def)
    have "?a + i * 32 + 32 \<le> 32 * n" unfolding e using j(3) by simp
    then have f: "fr_at P (take 4096 (drop ?a (concat keys))) (i * 32) = fr_at P (concat keys) (j * 32)"
        "fr_at P (take 4096 (drop ?a (concat new))) (i * 32) = fr_at P (concat new) (j * 32)"
      using fr_at_chunk [OF j(4), of ?a "concat keys" P] fr_at_chunk [OF j(4), of ?a "concat new" P] unfolding l e by blast+
    note r = invs [OF j(1,2)]
    have s: "(?a + i * 32) div NODE_SIZE = j" unfolding e by (simp add: NODE_SIZE_def)
    have "decode_node P invs (concat keys) (concat new) (j * 32) = Inr (data ! j)"
      using node_loops(2) [OF P K N j(3), where rho = rho and rho_invs = invs] r unfolding new by blast
    then show ?thesis using r unfolding decode_chunk_node_def decode_node_def f s j_def [symmetric] by (simp add: FR_SIZE_def)
  qed
  have cn: "c * 128 \<le> num" using c lW by (simp add: READER_CHUNK_SIZE_def)
  have h: "off * 32 + c * 4096 + q * 32 \<le> 32 * n" using cn num by (auto simp: q_def min_def)
  have dr: "drop (c * 4096) (drop (off * 32) xs) = drop ?a xs" for xs :: "u8 list" by (simp add: add.commute)
  have len: "q * 32 \<le> length (take 4096 (drop ?a (concat keys)))" "q * 32 \<le> length (take 4096 (drop ?a (concat new)))"
    using h by (simp_all add: l q_def)
  have "collectR (decode_chunk_node P invs ?a (take 4096 (drop ?a (concat keys))) (take 4096 (drop ?a (concat new)))) (step_by (q * 32) NODE_SIZE) =
      Inr (map (\<lambda>i. data ! (off + c * 128 + i)) [0..<q])"
    using step_by_nodes [of q] collectR_all_ok [of "[0..<q]"
      "\<lambda>i. decode_chunk_node P invs ?a (take 4096 (drop ?a (concat keys))) (take 4096 (drop ?a (concat new))) (i * 32)" "\<lambda>i. data ! (off + c * 128 + i)"] node
    by (simp add: NODE_SIZE_def FR_SIZE_def collectR_map comp_def)
  moreover have "concat (map (\<lambda>i. data ! (off + c * 128 + i)) [0..<q]) = take 4096 (drop (c * 4096) W)"
  proof -
    have "take 4096 (drop (c * 4096) W) = concat (take 128 (drop (c * 128) ?D))"
    proof -
      have "\<forall>x\<in>set (drop (c * 128) ?D). length x = 32" using D(2) by (meson in_set_dropD)
      then have "take (128 * 32) (concat (drop (c * 128) ?D)) = concat (take 128 (drop (c * 128) ?D))" by (rule take_drop_concat [THEN conjunct1])
      moreover have "drop (c * 128 * 32) W = concat (drop (c * 128) ?D)" unfolding W by (rule take_drop_concat [THEN conjunct2]) (rule D(2))
      ultimately show ?thesis by (simp add: mult.assoc)
    qed
    also have "take 128 (drop (c * 128) ?D) = map (\<lambda>i. data ! (off + c * 128 + i)) [0..<q]"
      using nk(2) num cn by (intro nth_equalityI [where xs = "take 128 (drop (c * 128) ?D)"]) (auto simp: q_def nodes_ok_def add.assoc)
    finally show ?thesis by simp
  qed
  ultimately show ?thesis using len unfolding decode_chunk_def READER_CHUNK_SIZE_def cs NODE_SIZE_def dr by simp
qed

text \<open>Commitments have 32 bytes, by the types of the code.\<close>

lemma length_subtree_root:
  "\<lbrakk>\<And>xs. length (digest xs) = 32; length xs = 2 ^ k; \<forall>x\<in>set xs. length x = 32\<rbrakk> \<Longrightarrow> length (subtree_root digest k xs) = 32"
  by (cases k; cases xs) (simp_all add: piece_hash_def sha256_function_hash_def trim_to_fr32_def)

lemma decode_from_range_ok:
  assumes U: "update_ok U n k kd" and K: "canonical_nodes (de_prims (ue_drg U)) n keys" and N: "canonical_nodes (de_prims (ue_drg U)) n data"
    and h: "h_default n \<le> kd" and num: "0 < num" "off + num \<le> n" and len: "length comm_d = 32" "length comm_r = 32"
    and phi: "update_phi (ue_randomness U) comm_d comm_r = Inr phi" "into_fr (rn_prims (ue_randomness U)) phi = Inr x"
    and new: "new = encoded_nodes (de_prims (ue_drg U)) (node_rho (ue_randomness U) x (kd - h_default n)) keys data"
    and nz: "\<And>i. off \<le> i \<Longrightarrow> i < off + num \<Longrightarrow> node_rho (ue_randomness U) x (kd - h_default n) i \<noteq> 0"
  shows "decode_from_range U file_reader file_reader n comm_d comm_r (drop (off * NODE_SIZE) (concat new)) (drop (off * NODE_SIZE) (concat keys)) off num out =
    (out @ concat (take num (drop off data)), Inr ())"
proof -
  let ?P = "de_prims (ue_drg U)" and ?R = "ue_randomness U" let ?rho = "node_rho ?R x (kd - h_default n)"
  let ?W = "concat (take num (drop off data))" and ?I = "drop (off * NODE_SIZE) (concat new)" and ?K = "drop (off * NODE_SIZE) (concat keys)"
  have D: "fr_ok ?P" "n = 2 ^ kd" using U by (simp_all add: update_ok_def drg_ok_def)
  have ln: "length keys = n" using K by (simp add: canonical_nodes_def)
  note nk = canonical_nodes_ok [OF K] canonical_nodes_ok [OF N] canonical_nodes_ok [OF encoded_canonical [OF D(1) ln], of ?rho data, folded new]
  have l: "length (concat keys) = 32 * n" "length (concat new) = 32 * n"
    using nk length_concat_nodes [of keys 32] length_concat_nodes [of new 32] by (auto simp: nodes_ok_def)
  have "length (take num (drop off data)) = num" "\<forall>x\<in>set (take num (drop off data)). length x = 32"
    using nk(2) num by (auto simp: nodes_ok_def dest!: in_set_takeD in_set_dropD)
  then have W: "length ?W = num * NODE_SIZE" using length_concat_nodes [of "take num (drop off data)" 32] by (simp add: NODE_SIZE_def)
  obtain invs where invs: "rhos_new_inv_range ?R phi (h_default n) n off num = Inr invs"
      "\<And>i. off \<le> i \<Longrightarrow> i < off + num \<Longrightarrow> rhos_get invs i = Inr (inverse (?rho i))"
    by (rule rhos_inv_range_ok [OF phi(2) h D(2) num(1) nz]) blast+
  have "decode_chunks file_reader file_reader (decode_chunk ?P invs) (off * NODE_SIZE) (length ?W) 0 (drop (0 * READER_CHUNK_SIZE) ?I) (drop (0 * READER_CHUNK_SIZE) ?K) out =
      (out @ drop (0 * READER_CHUNK_SIZE) ?W, Inr ())"
  proof (rule decode_chunks_ok)
    show "length ?W \<le> length ?I" "length ?W \<le> length ?K" using num(2) unfolding W by (simp_all add: l NODE_SIZE_def)
    show "decode_chunk ?P invs (off * NODE_SIZE + c * READER_CHUNK_SIZE) (min (length ?W - c * READER_CHUNK_SIZE) READER_CHUNK_SIZE)
        (take READER_CHUNK_SIZE (drop (c * READER_CHUNK_SIZE) ?I)) (take READER_CHUNK_SIZE (drop (c * READER_CHUNK_SIZE) ?K)) =
      Inr (take READER_CHUNK_SIZE (drop (c * READER_CHUNK_SIZE) ?W))" if "c * READER_CHUNK_SIZE \<le> length ?W" for c
      using that nz invs(2) by (intro decode_chunk_ok [OF D(1) K N num(2) _ refl new]) blast+
  qed
  then show ?thesis
    using phi(1) invs(1) len unfolding W by (simp add: decode_from_range_def domain_from_bytes_def)
qed

text \<open>
  C16. A range of the updated sector is decoded without the rest of it: from readers of the new replica and of the sector key
  that stand at the start of the range, \<open>decode_from_range\<close> writes exactly the bytes of the data there, for every range of nodes
  of the sector (ranges that do not start or end with a chunk of the readers included), if no multiplier of the range is zero.
\<close>
theorem decode_range_of_replica:
  assumes U: "update_ok U n k kd" and K: "canonical_nodes (de_prims (ue_drg U)) n keys" and N: "canonical_nodes (de_prims (ue_drg U)) n data"
    and h: "h_default n \<le> kd" and out: "length out = 32 * n"
    and C: "crate_ok (de_tree (ue_drg U)) (pq_tree_hash (de_prims (ue_drg U))) (de_arities (ue_drg U)) k len" and sc: "sc_size cR = Some len"
    and id: "Data_File (sc_id cD) \<notin> ids_of (split_config cR (tree_count (de_arities (ue_drg U))))"
    and e: "encode_into U n cD cR root r_old (Some out) (Some (concat keys)) (Some (concat data)) (h_default n) d =
      Inr (replica, d2, comm_r_new, comm_r_last_new, comm_d_new)"
    and comm_r_old: "comm_r_old = pq_hash2 (de_prims (ue_drg U)) root r_old" "length comm_r_old = 32"
    and num: "0 < num" "off + num \<le> n"
    and nz: "\<forall>phi i. update_phi (ue_randomness U) comm_d_new comm_r_old = Inr phi \<longrightarrow> off \<le> i \<longrightarrow> i < off + num \<longrightarrow>
      node_rho (ue_randomness U) (fr_of (de_prims (ue_drg U)) phi) (kd - h_default n) i \<noteq> 0"
  shows "decode_from_range U file_reader file_reader n comm_d_new comm_r_old (drop (off * NODE_SIZE) replica) (drop (off * NODE_SIZE) (concat keys)) off num written =
    (written @ take (num * NODE_SIZE) (drop (off * NODE_SIZE) (concat data)), Inr ())"
proof -
  let ?P = "de_prims (ue_drg U)" and ?R = "ue_randomness U"
  obtain phi x where phi: "update_phi ?R (subtree_root (ue_sha256 U) kd data) (pq_hash2 ?P root r_old) = Inr phi" "into_fr (rn_prims ?R) phi = Inr x"
    by (rule update_phi_ok [OF U N])
  have x: "fr_of ?P phi = x" using phi(2) U by (auto simp: update_ok_def into_fr_def fr_of_def split: option.splits)
  have r: "replica = concat (encoded_nodes ?P (node_rho ?R x (kd - h_default n)) keys data)" "comm_d_new = subtree_root (ue_sha256 U) kd data"
    by (rule encode_into_ok [OF U K N h out C sc id phi refl, of d], use e in simp)+
  have w: "\<forall>x\<in>set data. length x = 32" "length data = 2 ^ kd" "\<And>xs. length (ue_sha256 U xs) = 32"
    using canonical_nodes_ok [OF N] U by (simp_all add: nodes_ok_def update_ok_def drg_ok_def)
  have l: "length comm_d_new = 32" unfolding r(2) by (rule length_subtree_root) (use w in auto)
  have "concat (take num (drop off data)) = take (num * NODE_SIZE) (drop (off * NODE_SIZE) (concat data))"
  proof -
    have "\<forall>x\<in>set (drop off data). length x = 32" using w(1) by (meson in_set_dropD)
    then show ?thesis using take_drop_concat [OF w(1), of off] take_drop_concat [of "drop off data" 32 num] by (simp add: NODE_SIZE_def)
  qed
  moreover have "decode_from_range U file_reader file_reader n comm_d_new comm_r_old (drop (off * NODE_SIZE) replica) (drop (off * NODE_SIZE) (concat keys)) off num written =
      (written @ concat (take num (drop off data)), Inr ())"
    using phi nz x unfolding r(1) by (intro decode_from_range_ok [OF U K N h num l comm_r_old(2) _ _ refl]) (auto simp: r(2) comm_r_old(1))
  ultimately show ?thesis by simp
qed

theorem decode_range_of_replica_witness:
  "\<exists>replica d2 comm_r_new comm_r_last_new comm_d_new.
    encode_into toy_update_1kib 32 (toy_store ''d'' 0) (toy_store ''r'' 2) (toy_of_fr F1) (toy_of_fr F0)
      (Some (replicate 1024 7)) (Some (concat toy_keys)) (Some (concat toy_new_data)) (h_default 32) (\<lambda>_. None) =
      Inr (replica, d2, comm_r_new, comm_r_last_new, comm_d_new) \<and>
    decode_from_range toy_update_1kib file_reader file_reader 32 comm_d_new (pq_hash2 toy_api_prims (toy_of_fr F1) (toy_of_fr F0))
      (drop (5 * NODE_SIZE) replica) (drop (5 * NODE_SIZE) (concat toy_keys)) 5 20 [1] =
      ([1] @ take (20 * NODE_SIZE) (drop (5 * NODE_SIZE) (concat toy_new_data)), Inr ())"
proof -
  let ?U = toy_update_1kib
  note T = toy_update_setting
  have h: "h_default 32 \<le> 5" by (simp add: h_default_def hs_def sector_sizes)
  obtain phi x where phi: "update_phi (ue_randomness ?U) (subtree_root (ue_sha256 ?U) 5 toy_new_data) (pq_hash2 (de_prims (ue_drg ?U)) (toy_of_fr F1) (toy_of_fr F0)) = Inr phi"
      "into_fr (rn_prims (ue_randomness ?U)) phi = Inr x" by (rule update_phi_ok [OF T(1,3)])
  obtain replica d2 comm_r_new comm_r_last_new comm_d_new where
    e: "encode_into ?U 32 (toy_store ''d'' 0) (toy_store ''r'' 2) (toy_of_fr F1) (toy_of_fr F0)
      (Some (replicate 1024 7)) (Some (concat toy_keys)) (Some (concat toy_new_data)) (h_default 32) (\<lambda>_. None) =
      Inr (replica, d2, comm_r_new, comm_r_last_new, comm_d_new)"
    by (rule encode_into_ok [OF T(1-3) h T(7-10) phi refl, of "\<lambda>_. None"]) blast
  have l: "length (pq_hash2 toy_api_prims (toy_of_fr F1) (toy_of_fr F0)) = 32" by (simp add: toy_api_prims_def toy_prims_def toy_of_fr_def)
  have "node_rho (ue_randomness ?U) x s i \<noteq> 0" for x s i by (simp add: node_rho_def toy_update_1kib_def toy_update_def zero_toy_fr_def)
  then show ?thesis
    using decode_range_of_replica [OF T(1-3) h T(7-10) e refl _, of 20 5 "[1]"] l e unfolding toy_update_1kib_ok(4) by auto
qed

section \<open>Updates through the API\<close>

lemma create_lc_tree_cong:
  "(\<And>c. c \<in> set configs \<Longrightarrow> file_of c d = file_of c d') \<Longrightarrow> create_lc_tree T A l configs r d = create_lc_tree T A l configs r d'"
proof -
  assume f: "\<And>c. c \<in> set configs \<Longrightarrow> file_of c d = file_of c d'"
  then have m: "map (\<lambda>c. file_of c d) configs = map (\<lambda>c. file_of c d') configs" by simp
  have "bindR (at_index configs 0) (\<lambda>c. g c (file_of c d)) = bindR (at_index configs 0) (\<lambda>c. g c (file_of c d'))" for g :: "store_config \<Rightarrow> u8 list option \<Rightarrow> 'z res"
    using f by (cases configs) (simp_all add: at_index_def)
  note i = this [of "\<lambda>c x. bindR (new_from_disk_with_reader T l (base_arity A) c x) h" for h]
  show ?thesis unfolding create_lc_tree_def m by (simp only: i)
qed

text \<open>Files that are written beside the trees of a replica do not change its proofs.\<close>

definition same_files :: "arities \<Rightarrow> store_config \<Rightarrow> store_config \<Rightarrow> disk \<Rightarrow> disk \<Rightarrow> bool" where
  "same_files A cD cR d d' \<longleftrightarrow> file_of cD d = file_of cD d' \<and> (\<forall>x\<in>ids_of (split_config cR (tree_count A)). d x = d' x)"

lemma instantiate_tree_r_same:
  assumes "arities_ok (de_arities (ue_drg U))" and s: "same_files (de_arities (ue_drg U)) cD cR d d'"
  shows "instantiate_tree_r U (cR, d) f = instantiate_tree_r U (cR, d') f"
proof -
  have "file_of c d = file_of c d'" if "c \<in> set (split_config cR (tree_count (de_arities (ue_drg U))))" for c
    using s that by (simp add: same_files_def file_of_def ids_of_def)
  from create_lc_tree_cong [OF this]
  have "create_lc_tree T A l (split_config cR (tree_count (de_arities (ue_drg U)))) r d = create_lc_tree T A l (split_config cR (tree_count (de_arities (ue_drg U)))) r d'"
    for T :: "('b, 'c) tree_crate" and A l r .
  moreover have "fst (split_config_and_replica c r w m) = split_config c m" for c r w m
    by (simp add: split_config_and_replica_def split_config_def)
  ultimately show ?thesis
    unfolding instantiate_tree_r_def by (simp add: split_beta Let_def base_tree_count_ok [OF assms(1)])
qed

lemma proofs_same_files:
  assumes A: "arities_ok (de_arities (ue_drg U))" and s: "same_files (de_arities (ue_drg U)) cD cR d d'"
    and priv: "priv = \<lparr>uv_comm_c = root, uv_tree_r_old_config = old, uv_old_replica = keys, uv_tree_d_new_config = (cD, d),
      uv_tree_r_new_config = (cR, d), uv_replica = replica\<rparr>"
    and priv': "priv' = priv\<lparr>uv_tree_d_new_config := (cD, d'), uv_tree_r_new_config := (cR, d')\<rparr>"
  shows "update_prove_all U pp pi priv' = update_prove_all U pp pi priv" "update_prove U pp pi priv' = update_prove U pp pi priv"
proof -
  have f: "file_of cD d' = file_of cD d" using s by (simp add: same_files_def)
  have "prove_inner U pp pi priv' = prove_inner U pp pi priv" for pi
    by (intro ext) (simp add: prove_inner_def read_apex_leafs_def f priv priv')
  moreover have "with_trees U pp priv' g = with_trees U pp priv g" for g :: "'b \<Rightarrow> 'b \<Rightarrow> 'b \<Rightarrow> 'z res"
    using instantiate_tree_r_same [OF A s] by (simp add: with_trees_def instantiate_tree_d_def f priv priv')
  ultimately show "update_prove_all U pp pi priv' = update_prove_all U pp pi priv" "update_prove U pp pi priv' = update_prove U pp pi priv"
    unfolding update_prove_all_def update_prove_def by simp_all
qed

text \<open>
  The setting: a sealed sector key with its tree, its auxiliary data in the cache directory, and a configuration of its size.
  Commitments have 32 bytes by the types of the code; auxiliary data can be written, to files that are not those of trees.
\<close>

definition api_update_ok ::
  "('f::field, 't, 'p, 'k, 'g, 'a) update_api \<Rightarrow> porep_config \<Rightarrow> nat \<Rightarrow> nat \<Rightarrow> nat \<Rightarrow> u8 list list \<Rightarrow> u8 list \<Rightarrow> 't \<Rightarrow> temporary_aux \<Rightarrow> disk \<Rightarrow> bool" where
  "api_update_ok E cfg n m kd keys root told t_aux dk \<longleftrightarrow>
     (let U = ua_update E; X = ue_drg U; T = de_tree X; A = de_arities X; P = de_prims X; cO = ta_tree_r_last_config t_aux in
      update_ok U n m kd \<and> n \<in> set ALLOWED_SECTOR_SIZES \<and> porep_config.pc_sector_size cfg = 32 * n \<and> data_store_ok (de_tree_d X) (ue_sha256 U) kd \<and>
      canonical_nodes P n keys \<and> (\<forall>a b. length (pq_hash2 P a b) = 32) \<and> length root = 32 \<and> length (tree_root_of T told) = 32 \<and>
      get_p_aux (ua_read_p_aux E) dk = Inr \<lparr>pa_comm_c = root, pa_comm_r_last = tree_root_of T told\<rparr> \<and> get_t_aux (ua_read_t_aux E) dk = Inr t_aux \<and>
      sc_rows_to_discard (ta_tree_d_config t_aux) = 0 \<and> tree_of T (pq_tree_hash P) A m True keys told \<and>
      (\<exists>len. crate_ok T (pq_tree_hash P) A m len \<and> sc_size cO = Some len \<and>
        create_lc_tree T A len (split_config cO (tree_count A)) (snd (split_config_and_replica cO (concat keys) (base_arity A ^ m) (tree_count A))) dk = Inr told) \<and>
      distinct [Data_File (sc_id (ta_tree_d_config t_aux)), Data_File (cache_key_str PAux), Data_File (cache_key_str TAux)] \<and>
      {Data_File (sc_id (ta_tree_d_config t_aux)), Data_File (cache_key_str PAux), Data_File (cache_key_str TAux)} \<inter> ids_of (split_config cO (tree_count A)) = {} \<and>
      (\<forall>p. is_ok (ua_write_p_aux E p)) \<and> (\<forall>t. is_ok (ua_write_t_aux E t)))"

lemma update_api_config:
  assumes "n \<in> set ALLOWED_SECTOR_SIZES" and "porep_config.pc_sector_size cfg = 32 * n"
  shows "su_sector_size (from_porep_config cfg) = 32 * n" "su_nodes_count (from_porep_config cfg) = n"
    "usize_of_partitions (su_update_partitions (from_porep_config cfg)) = partition_count n" "su_h (from_porep_config cfg) = h_default n"
    "h_default n \<in> set (hs n)" "0 < partition_count n"
proof -
  have "n = 32 * n div NODE_SIZE" by (simp add: NODE_SIZE_def)
  then show "su_sector_size (from_porep_config cfg) = 32 * n" "su_nodes_count (from_porep_config cfg) = n" "su_h (from_porep_config cfg) = h_default n"
    using assms(2) by (simp_all add: from_porep_config_def)
  obtain b where b: "partition_count n = 2 ^ b" "b \<le> 4" by (rule allowed_sizes [OF assms(1)])
  then have "(2::nat) ^ b \<le> 2 ^ 4" by (intro power_increasing) simp_all
  then show "usize_of_partitions (su_update_partitions (from_porep_config cfg)) = partition_count n" "0 < partition_count n"
    using b assms(2) take_bit_nat_eq_self [of "2 ^ b" 8] by (simp_all add: from_porep_config_def usize_of_partitions_def NODE_SIZE_def unsigned_of_nat del: of_nat_power)
  show "h_default n \<in> set (hs n)" by (simp add: h_default_def hs_def)
qed

lemma update_configs_ok:
  assumes A: "arities_ok (de_arities X)" and n: "n = base_arity (de_arities X) ^ m * tree_count (de_arities X)" "n = 2 ^ kd"
    and C: "crate_ok (de_tree X) H (de_arities X) m len" and S: "data_store_ok (de_tree_d X) digest kd" and c: "sc_size (ta_tree_r_last_config t_aux) = Some len"
  shows "get_new_configs_from_t_aux_old X t_aux n =
    Inr ((ta_tree_d_config t_aux)\<lparr>sc_size := Some (2 * 2 ^ kd - 1)\<rparr>, ta_tree_r_last_config t_aux)"
proof -
  have "udiv n (tree_count (de_arities X)) = Inr (base_arity (de_arities X) ^ m)" using n(1) tree_count_pos [of "de_arities X"] by (simp add: udiv_def)
  moreover have "get_merkle_tree_len (de_tree_d X) n 2 = Inr (2 * 2 ^ kd - 1)" using data_store_okD(3) [OF S, of kd] n(2) by simp
  moreover have "(ta_tree_r_last_config t_aux)\<lparr>sc_size := Some len\<rparr> = ta_tree_r_last_config t_aux" using c by simp
  ultimately show ?thesis
    using base_tree_count_ok [OF A] crate_okD(2,3) [OF C] by (simp add: get_new_configs_from_t_aux_old_def)
qed

lemma update_api_inputs_ok:
  "length r_old = 32 \<Longrightarrow> length r_new = 32 \<Longrightarrow> length d_new = 32 \<Longrightarrow>
    update_api_inputs k r_old r_new d_new h = Inr \<lparr>ui_k = k, ui_comm_r_old = r_old, ui_comm_d_new = d_new, ui_comm_r_new = r_new, ui_h = h\<rparr>"
  by (simp add: update_api_inputs_def domain_from_bytes_def)

text \<open>Making circuit proofs from a sector is making them from its vanilla proofs.\<close>

lemma circuit_proof_of_vanilla:
  assumes "n \<in> set ALLOWED_SECTOR_SIZES" and "porep_config.pc_sector_size cfg = 32 * n"
    and "generate_partition_proofs E (from_porep_config cfg) r_old r_new d_new keys dk replica d = Inr proofs"
    and "verify_partition_proofs E (from_porep_config cfg) proofs r_old r_new d_new = Inr True"
  shows "generate_empty_sector_update_proof E cfg r_old r_new d_new keys dk replica d =
    generate_empty_sector_update_proof_with_vanilla E cfg proofs r_old r_new d_new"
proof -
  note c = update_api_config [OF assms(1,2)]
  obtain pi pp p_aux priv where p: "update_api_inputs (partition_count n) r_old r_new d_new (h_default n) = Inr pi" "from_sector_size (32 * n) = Inr pp"
      "get_p_aux (ua_read_p_aux E) dk = Inr p_aux" "update_api_private E (from_porep_config cfg) p_aux keys dk replica d = Inr priv"
      "update_prove_all (ua_update E) pp pi priv = Inr proofs"
    using assms(3) c by (auto simp: generate_partition_proofs_def bindR_eq_Inr)
  have v: "update_verify_all (ua_update E) pp pi proofs = Inr True" using assms(4) p(1,2) c by (simp add: verify_partition_proofs_def)
  have n: "compound_partition_count (Some (partition_count n)) = Inr (partition_count n)" using c(6) by (cases "partition_count n") simp_all
  show ?thesis
    using p v n c(6) unfolding generate_empty_sector_update_proof_def generate_empty_sector_update_proof_with_vanilla_def Let_def c(1-4)
    by (simp add: update_compound_setup_def update_compound_prove_def update_compound_prove_with_vanilla_def)
qed

text \<open>
  The specification of an update: the multiplier \<open>phi\<close> that the commitments determine, the new nodes (the key plus the data
  times the multiplier of the node) and the root of the tree over them. All three are functions of the key and the data.
\<close>

definition updated_sector ::
  "('f::field, 't, 'p) update_env \<Rightarrow> nat \<Rightarrow> nat \<Rightarrow> nat \<Rightarrow> u8 list list \<Rightarrow> u8 list list \<Rightarrow> u8 list \<Rightarrow> u8 list \<Rightarrow> u8 list list \<Rightarrow> u8 list \<Rightarrow> bool" where
  "updated_sector U n m kd keys data comm_d comm_r_old new r_last \<longleftrightarrow>
     (\<exists>phi x. update_phi (ue_randomness U) comm_d comm_r_old = Inr phi \<and> into_fr (rn_prims (ue_randomness U)) phi = Inr x \<and>
        new = encoded_nodes (de_prims (ue_drg U)) (node_rho (ue_randomness U) x (kd - h_default n)) keys data) \<and>
     tree_root (pq_tree_hash (de_prims (ue_drg U))) (levels (de_arities (ue_drg U)) m) new = Inr r_last"

text \<open>The steps, from which the property is put together.\<close>

lemma api_update_steps:
  assumes E: "api_update_ok E cfg n m kd keys root told t_aux dk" and N: "canonical_nodes (de_prims (ue_drg (ua_update E))) n data" and out: "length out = 32 * n"
    and pieces: "verify_pieces (ue_sha256 (ua_update E)) cm (subtree_root (ue_sha256 (ua_update E)) kd data) infos (32 * n) = Some (Inr (cm, True))"
    and config: "config = from_porep_config cfg"
    and comm_r_old: "comm_r_old = pq_hash2 (de_prims (ue_drg (ua_update E))) root (tree_root_of (de_tree (ue_drg (ua_update E))) told)"
    and comm_d: "comm_d = subtree_root (ue_sha256 (ua_update E)) kd data"
  obtains replica d2 comm_r comm_r_last proofs new where
    "updated_sector (ua_update E) n m kd keys data comm_d comm_r_old new comm_r_last" "replica = concat new"
    "comm_r = pq_hash2 (de_prims (ue_drg (ua_update E))) root comm_r_last"
    "api_encode_into E config (Some out) (Some (concat keys)) dk (Some (concat data)) infos cm d =
     (if comm_d = zero_commitment then Some (Inl (Fail ''Invalid all zero commitment (comm_d)''))
      else if comm_r = zero_commitment then Some (Inl (Fail ''Invalid all zero commitment (comm_r)''))
      else if comm_r_last = zero_commitment then Some (Inl (Fail ''Invalid all zero commitment (comm_r)''))
      else Some (Inr (replica, cm, d2, \<lparr>un_comm_r_new = comm_r, un_comm_r_last_new = comm_r_last, un_comm_d_new = comm_d\<rparr>)))"
    "generate_partition_proofs E config comm_r_old comm_r comm_d (Some (concat keys)) dk (Some replica) d2 = Inr proofs"
    "verify_partition_proofs E config proofs comm_r_old comm_r comm_d = Inr True" "length proofs = partition_count n"
    "\<And>k. k < partition_count n \<Longrightarrow>
      generate_single_partition_proof E config k comm_r_old comm_r comm_d (Some (concat keys)) dk (Some replica) d2 = Inr (proofs ! k) \<and>
      verify_single_partition_proof E config k (proofs ! k) comm_r_old comm_r comm_d = Inr True"
    "\<forall>phi i. update_phi (ue_randomness (ua_update E)) comm_d comm_r_old = Inr phi \<longrightarrow> i < n \<longrightarrow>
      node_rho (ue_randomness (ua_update E)) (fr_of (de_prims (ue_drg (ua_update E))) phi) (kd - h_default n) i \<noteq> 0 \<Longrightarrow>
     api_decode_from E config (Some out) (Some replica) (Some (concat keys)) dk comm_d = Inr (concat data)"
proof -
  let ?U = "ua_update E" let ?X = "ue_drg ?U" and ?R = "ue_randomness ?U" let ?T = "de_tree ?X" and ?A = "de_arities ?X" and ?P = "de_prims ?X"
  let ?cO = "ta_tree_r_last_config t_aux" and ?cD = "(ta_tree_d_config t_aux)\<lparr>sc_size := Some (2 * 2 ^ kd - 1)\<rparr>"
  obtain len where S: "update_ok ?U n m kd" "canonical_nodes ?P n keys" "n \<in> set ALLOWED_SECTOR_SIZES" "porep_config.pc_sector_size cfg = 32 * n"
      "data_store_ok (de_tree_d ?X) (ue_sha256 ?U) kd" "\<And>a b. length (pq_hash2 ?P a b) = 32" "length root = 32" "length (tree_root_of ?T told) = 32"
      "get_p_aux (ua_read_p_aux E) dk = Inr \<lparr>pa_comm_c = root, pa_comm_r_last = tree_root_of ?T told\<rparr>" "get_t_aux (ua_read_t_aux E) dk = Inr t_aux"
      "sc_rows_to_discard (ta_tree_d_config t_aux) = 0" "tree_of ?T (pq_tree_hash ?P) ?A m True keys told" "crate_ok ?T (pq_tree_hash ?P) ?A m len" "sc_size ?cO = Some len"
      "create_lc_tree ?T ?A len (split_config ?cO (tree_count ?A)) (snd (split_config_and_replica ?cO (concat keys) (base_arity ?A ^ m) (tree_count ?A))) dk = Inr told"
      "distinct [Data_File (sc_id (ta_tree_d_config t_aux)), Data_File (cache_key_str PAux), Data_File (cache_key_str TAux)]"
      "{Data_File (sc_id (ta_tree_d_config t_aux)), Data_File (cache_key_str PAux), Data_File (cache_key_str TAux)} \<inter> ids_of (split_config ?cO (tree_count ?A)) = {}"
      "\<And>p. is_ok (ua_write_p_aux E p)" "\<And>t. is_ok (ua_write_t_aux E t)"
    using E unfolding api_update_ok_def Let_def by blast
  note c = update_api_config [OF S(3,4), folded config]
  have A: "arities_ok ?A" "n = base_arity ?A ^ m * tree_count ?A" "n = 2 ^ kd" "\<And>xs. length (ue_sha256 ?U xs) = 32" "rn_prims ?R = ?P"
    using S(1) by (simp_all add: update_ok_def drg_ok_def)
  note conf = update_configs_ok [OF A(1,2,3) S(13,5,14)]
  obtain pp where pp: "from_sector_size (32 * n) = Inr pp" using from_sector_size_ok [OF S(3)] by blast
  have cD: "sc_size ?cD = Some (2 * 2 ^ kd - 1)" "sc_rows_to_discard ?cD = 0" "Data_File (sc_id ?cD) \<notin> ids_of (split_config ?cO (tree_count ?A))"
    using S(11,17) by simp_all
  obtain phi x new d2 tnew proofs where phi: "update_phi ?R (subtree_root (ue_sha256 ?U) kd data) (pq_hash2 ?P root (tree_root_of ?T told)) = Inr phi"
      "into_fr (rn_prims ?R) phi = Inr x" "new = encoded_nodes ?P (node_rho ?R x (kd - h_default n)) keys data"
    and e: "encode_into ?U n ?cD ?cO root (tree_root_of ?T told) (Some out) (Some (concat keys)) (Some (concat data)) (h_default n) d =
       Inr (concat new, d2, pq_hash2 ?P root (tree_root_of ?T tnew), tree_root_of ?T tnew, subtree_root (ue_sha256 ?U) kd data)"
    and tnew: "tree_of ?T (pq_tree_hash ?P) ?A m True new tnew"
    and l: "length proofs = partition_count n"
    and p: "\<And>k pi priv. pi = honest_inputs ?P root (tree_root_of ?T told) (tree_root_of ?T tnew) (subtree_root (ue_sha256 ?U) kd data) (h_default n) k \<Longrightarrow>
      priv = \<lparr>uv_comm_c = root, uv_tree_r_old_config = (?cO, dk), uv_old_replica = Some (concat keys),
        uv_tree_d_new_config = (?cD, d2), uv_tree_r_new_config = (?cO, d2), uv_replica = Some (concat new)\<rparr> \<Longrightarrow>
      update_prove_all ?U pp pi priv = Inr proofs \<and> update_verify_all ?U pp pi proofs = Inr True \<and>
      (k < partition_count n \<longrightarrow> update_prove ?U pp pi priv = Inr (proofs ! k) \<and> update_verify ?U pp pi (proofs ! k) = Inr True \<and>
         (\<forall>cp\<in>set (uf_challenge_proofs (proofs ! k)). update_shape_ok ?U m kd cp))"
    by (rule update_proofs_ok [OF S(1,2) N S(3) c(5) pp out S(13,14) cD(3) S(5) cD(1,2) S(14,12,15), of root d]) (rule that, assumption, assumption, assumption, assumption, assumption, assumption, blast)
  let ?comm_d = "subtree_root (ue_sha256 ?U) kd data" and ?comm_r = "pq_hash2 ?P root (tree_root_of ?T tnew)" and ?comm_r_last = "tree_root_of ?T tnew"
  have d32: "length ?comm_d = 32" by (rule length_subtree_root) (use canonical_nodes_ok [OF N] A in \<open>auto simp: nodes_ok_def\<close>)
  obtain pb tb where b: "ua_write_p_aux E \<lparr>pa_comm_c = root, pa_comm_r_last = ?comm_r_last\<rparr> = Inr pb" "ua_write_t_aux E t_aux = Inr tb"
    using S(18,19) by (metis is_ok_iff)
  let ?d3 = "d2(Data_File (cache_key_str PAux) \<mapsto> pb, Data_File (cache_key_str TAux) \<mapsto> tb)"
  have enc: "api_encode_into E config (Some out) (Some (concat keys)) dk (Some (concat data)) infos cm d =
     (if ?comm_d = zero_commitment then Some (Inl (Fail ''Invalid all zero commitment (comm_d)''))
      else if ?comm_r = zero_commitment then Some (Inl (Fail ''Invalid all zero commitment (comm_r)''))
      else if ?comm_r_last = zero_commitment then Some (Inl (Fail ''Invalid all zero commitment (comm_r)''))
      else Some (Inr (concat new, cm, ?d3, \<lparr>un_comm_r_new = ?comm_r, un_comm_r_last_new = ?comm_r_last, un_comm_d_new = ?comm_d\<rparr>)))"
    using S(7-10) c(1,2) conf e pieces b by (simp add: api_encode_into_def domain_from_bytes_def persist_p_aux_def persist_t_aux_def Let_def)
  have same: "same_files ?A ?cD ?cO d2 ?d3" using S(16,17) by (auto simp: same_files_def file_of_def)
  let ?pi = "honest_inputs ?P root (tree_root_of ?T told) ?comm_r_last ?comm_d (h_default n)"
  let ?priv = "\<lparr>uv_comm_c = root, uv_tree_r_old_config = (?cO, dk), uv_old_replica = Some (concat keys),
        uv_tree_d_new_config = (?cD, d2), uv_tree_r_new_config = (?cO, d2), uv_replica = Some (concat new)\<rparr>"
  let ?priv3 = "?priv\<lparr>uv_tree_d_new_config := (?cD, ?d3), uv_tree_r_new_config := (?cO, ?d3)\<rparr>"
  note pr = proofs_same_files [OF A(1) same refl refl]
  have priv: "update_api_private E config \<lparr>pa_comm_c = root, pa_comm_r_last = tree_root_of ?T told\<rparr> (Some (concat keys)) dk (Some (concat new)) ?d3 = Inr ?priv3"
    using S(10) conf c(2) by (simp add: update_api_private_def)
  have inputs: "update_api_inputs k comm_r_old ?comm_r ?comm_d (h_default n) = Inr (?pi k)" for k
    unfolding comm_r_old by (simp add: update_api_inputs_ok S(6) d32 honest_inputs_def)
  have gen: "generate_partition_proofs E config comm_r_old ?comm_r ?comm_d (Some (concat keys)) dk (Some (concat new)) ?d3 = Inr proofs"
    using p [OF refl refl, of "partition_count n"] pr(1) inputs pp S(9) priv c by (simp add: generate_partition_proofs_def)
  have ver: "verify_partition_proofs E config proofs comm_r_old ?comm_r ?comm_d = Inr True"
    using p [OF refl refl, of "partition_count n"] inputs pp c by (simp add: verify_partition_proofs_def)
  have one: "generate_single_partition_proof E config k comm_r_old ?comm_r ?comm_d (Some (concat keys)) dk (Some (concat new)) ?d3 = Inr (proofs ! k) \<and>
      verify_single_partition_proof E config k (proofs ! k) comm_r_old ?comm_r ?comm_d = Inr True" if "k < partition_count n" for k
    using that p [OF refl refl, of k] pr(2) inputs pp S(9) priv c by (simp add: generate_single_partition_proof_def verify_single_partition_proof_def)
  have dec: "api_decode_from E config (Some out) (Some (concat new)) (Some (concat keys)) dk ?comm_d = Inr (concat data)"
    if nz: "\<forall>phi i. update_phi ?R ?comm_d comm_r_old = Inr phi \<longrightarrow> i < n \<longrightarrow> node_rho ?R (fr_of ?P phi) (kd - h_default n) i \<noteq> 0"
  proof -
    obtain kd' where "n = 2 ^ kd'" "\<forall>h\<in>set (hs n). h \<le> kd'" by (rule update_sizes [OF S(3)])
    then have h: "h_default n \<le> kd" using c(5) A(3) by simp
    have "fr_of ?P phi = x" using phi(2) A(5) by (auto simp: into_fr_def fr_of_def split: option.splits)
    then have "decode_from ?U n (Some out) (Some (concat new)) (Some (concat keys)) root ?comm_d (tree_root_of ?T told) (h_default n) = Inr (concat data)"
      using nz phi(1) by (intro decode_from_ok(1) [OF S(1,2) N h out phi]) (auto simp: comm_r_old)
    then show ?thesis using S(7-9) c(2) by (simp add: api_decode_from_def domain_from_bytes_def)
  qed
  have up: "updated_sector ?U n m kd keys data comm_d comm_r_old new ?comm_r_last"
    using phi tnew unfolding updated_sector_def comm_d comm_r_old by (auto simp: tree_of_def)
  show thesis by (rule that [OF up refl refl enc [folded comm_d] gen [folded comm_d] ver [folded comm_d] l one [folded comm_d] dec [folded comm_d]]) 
qed

text \<open>
  C13. Sector updates of the API are complete, for every sector size, every sector key with its auxiliary data and
  every new data whose pieces have the root of the data. The new replica is the key plus the data times the multipliers, \<open>comm_d\<close> is the
  root of the data, \<open>comm_r_last\<close> the root of the tree over the new replica and \<open>comm_r\<close> its hash with \<open>comm_c\<close>.
  If one of these commitments is all zeros then \<open>encode_into\<close> fails. Otherwise it writes exactly this replica with these commitments and
  its cache directory; from these all partition proofs are made, together and one by one, and are accepted;
  making the circuit proof from the sector is making it from these proofs; and \<open>decode_from\<close> gives the data
  back if no multiplier is zero. The new auxiliary data does not hide the trees.
\<close>
theorem api_update_complete:
  assumes E: "api_update_ok E cfg n m kd keys root told t_aux dk" and N: "canonical_nodes (de_prims (ue_drg (ua_update E))) n data" and out: "length out = 32 * n"
    and pieces: "verify_pieces (ue_sha256 (ua_update E)) cm (subtree_root (ue_sha256 (ua_update E)) kd data) infos (32 * n) = Some (Inr (cm, True))"
    and config: "config = from_porep_config cfg"
    and comm_r_old: "comm_r_old = pq_hash2 (de_prims (ue_drg (ua_update E))) root (tree_root_of (de_tree (ue_drg (ua_update E))) told)"
    and comm_d: "comm_d = subtree_root (ue_sha256 (ua_update E)) kd data"
  shows "\<exists>new comm_r_last comm_r.
    updated_sector (ua_update E) n m kd keys data comm_d comm_r_old new comm_r_last \<and>
    comm_r = pq_hash2 (de_prims (ue_drg (ua_update E))) root comm_r_last \<and>
    (if comm_d = zero_commitment \<or> comm_r = zero_commitment \<or> comm_r_last = zero_commitment
     then \<exists>msg. api_encode_into E config (Some out) (Some (concat keys)) dk (Some (concat data)) infos cm d = Some (Inl (Fail msg))
     else \<exists>d2 proofs.
      api_encode_into E config (Some out) (Some (concat keys)) dk (Some (concat data)) infos cm d =
        Some (Inr (concat new, cm, d2, \<lparr>un_comm_r_new = comm_r, un_comm_r_last_new = comm_r_last, un_comm_d_new = comm_d\<rparr>)) \<and>
      generate_partition_proofs E config comm_r_old comm_r comm_d (Some (concat keys)) dk (Some (concat new)) d2 = Inr proofs \<and>
      verify_partition_proofs E config proofs comm_r_old comm_r comm_d = Inr True \<and> length proofs = partition_count n \<and>
      (\<forall>k<partition_count n.
        generate_single_partition_proof E config k comm_r_old comm_r comm_d (Some (concat keys)) dk (Some (concat new)) d2 = Inr (proofs ! k) \<and>
        verify_single_partition_proof E config k (proofs ! k) comm_r_old comm_r comm_d = Inr True) \<and>
      generate_empty_sector_update_proof E cfg comm_r_old comm_r comm_d (Some (concat keys)) dk (Some (concat new)) d2 =
        generate_empty_sector_update_proof_with_vanilla E cfg proofs comm_r_old comm_r comm_d \<and>
      ((\<forall>phi i. update_phi (ue_randomness (ua_update E)) comm_d comm_r_old = Inr phi \<longrightarrow> i < n \<longrightarrow>
          node_rho (ue_randomness (ua_update E)) (fr_of (de_prims (ue_drg (ua_update E))) phi) (kd - h_default n) i \<noteq> 0) \<longrightarrow>
        api_decode_from E config (Some out) (Some (concat new)) (Some (concat keys)) dk comm_d = Inr (concat data)))"
proof -
  have n: "n \<in> set ALLOWED_SECTOR_SIZES" "porep_config.pc_sector_size cfg = 32 * n" using E unfolding api_update_ok_def Let_def by blast+
  obtain replica d2 comm_r comm_r_last proofs new where
    up: "updated_sector (ua_update E) n m kd keys data comm_d comm_r_old new comm_r_last" "replica = concat new"
      "comm_r = pq_hash2 (de_prims (ue_drg (ua_update E))) root comm_r_last"
    and enc: "api_encode_into E config (Some out) (Some (concat keys)) dk (Some (concat data)) infos cm d =
     (if comm_d = zero_commitment then Some (Inl (Fail ''Invalid all zero commitment (comm_d)''))
      else if comm_r = zero_commitment then Some (Inl (Fail ''Invalid all zero commitment (comm_r)''))
      else if comm_r_last = zero_commitment then Some (Inl (Fail ''Invalid all zero commitment (comm_r)''))
      else Some (Inr (replica, cm, d2, \<lparr>un_comm_r_new = comm_r, un_comm_r_last_new = comm_r_last, un_comm_d_new = comm_d\<rparr>)))"
    and p: "generate_partition_proofs E config comm_r_old comm_r comm_d (Some (concat keys)) dk (Some replica) d2 = Inr proofs"
      "verify_partition_proofs E config proofs comm_r_old comm_r comm_d = Inr True" "length proofs = partition_count n"
      "\<And>k. k < partition_count n \<Longrightarrow>
        generate_single_partition_proof E config k comm_r_old comm_r comm_d (Some (concat keys)) dk (Some replica) d2 = Inr (proofs ! k) \<and>
        verify_single_partition_proof E config k (proofs ! k) comm_r_old comm_r comm_d = Inr True"
      "\<forall>phi i. update_phi (ue_randomness (ua_update E)) comm_d comm_r_old = Inr phi \<longrightarrow> i < n \<longrightarrow>
        node_rho (ue_randomness (ua_update E)) (fr_of (de_prims (ue_drg (ua_update E))) phi) (kd - h_default n) i \<noteq> 0 \<Longrightarrow>
       api_decode_from E config (Some out) (Some replica) (Some (concat keys)) dk comm_d = Inr (concat data)"
    by (rule api_update_steps [OF E N out pieces config comm_r_old comm_d, of d])
      (rule that, assumption, assumption, assumption, assumption, assumption, assumption, assumption, blast, blast)
  note circ = circuit_proof_of_vanilla [OF n p(1,2) [unfolded config]]
  show ?thesis
  proof (intro exI [of _ new] exI [of _ comm_r_last] exI [of _ comm_r] conjI up(1,3), split if_split, intro conjI impI)
    assume "comm_d = zero_commitment \<or> comm_r = zero_commitment \<or> comm_r_last = zero_commitment"
    then show "\<exists>msg. api_encode_into E config (Some out) (Some (concat keys)) dk (Some (concat data)) infos cm d = Some (Inl (Fail msg))"
      unfolding enc by auto
  next
    assume "\<not> (comm_d = zero_commitment \<or> comm_r = zero_commitment \<or> comm_r_last = zero_commitment)"
    then show "\<exists>d2 proofs. api_encode_into E config (Some out) (Some (concat keys)) dk (Some (concat data)) infos cm d =
        Some (Inr (concat new, cm, d2, \<lparr>un_comm_r_new = comm_r, un_comm_r_last_new = comm_r_last, un_comm_d_new = comm_d\<rparr>)) \<and>
      generate_partition_proofs E config comm_r_old comm_r comm_d (Some (concat keys)) dk (Some (concat new)) d2 = Inr proofs \<and>
      verify_partition_proofs E config proofs comm_r_old comm_r comm_d = Inr True \<and> length proofs = partition_count n \<and>
      (\<forall>k<partition_count n.
        generate_single_partition_proof E config k comm_r_old comm_r comm_d (Some (concat keys)) dk (Some (concat new)) d2 = Inr (proofs ! k) \<and>
        verify_single_partition_proof E config k (proofs ! k) comm_r_old comm_r comm_d = Inr True) \<and>
      generate_empty_sector_update_proof E cfg comm_r_old comm_r comm_d (Some (concat keys)) dk (Some (concat new)) d2 =
        generate_empty_sector_update_proof_with_vanilla E cfg proofs comm_r_old comm_r comm_d \<and>
      ((\<forall>phi i. update_phi (ue_randomness (ua_update E)) comm_d comm_r_old = Inr phi \<longrightarrow> i < n \<longrightarrow>
          node_rho (ue_randomness (ua_update E)) (fr_of (de_prims (ue_drg (ua_update E))) phi) (kd - h_default n) i \<noteq> 0) \<longrightarrow>
        api_decode_from E config (Some out) (Some (concat new)) (Some (concat keys)) dk comm_d = Inr (concat data))"
      using enc p circ unfolding up(2) by (intro exI [of _ d2] exI [of _ proofs] conjI) (simp, simp, simp, simp, blast, simp, blast)
  qed
qed

text \<open>A piece that is the whole sector.\<close>

lemma whole_piece:
  assumes "2 \<le> k" and "length leaves = 2 ^ k" and "p = \<lparr>pc_commitment = subtree_root digest k leaves, pc_size = unpadded_size k\<rparr>"
    and "piece_ok digest k leaves p" and "k \<le> 31"
  shows "verify_pieces digest cm (subtree_root digest k leaves) [p] (32 * 2 ^ k) = Some (Inr (cm, True))"
proof -
  have b: "list_all2 (\<lambda>b p. piece_ok digest (fst b) (snd b) p) [(k, leaves)] [p]" using assms(4) by simp
  have l: "piece_leaves [(k, leaves)] = 2 ^ k" using assms(2) by (simp add: piece_leaves_def)
  have le: "(2::nat) ^ k \<le> 2 ^ 31" using assms(5) by (rule power_increasing) simp
  have count: "1 \<le> to_unpadded_bytes (32 * 2 ^ k) div MINIMUM_PIECE_SIZE" using piece_count [OF b, of "32 * 2 ^ k"] l le by simp
  have sum: "sum_padded 0 [p] = Inr (32 * 2 ^ k)" using sum_padded_ok [OF b, of 0] l le assms(5) by simp
  have "is_power_of_two (to_padded_bytes (unpadded_size k))" using assms(1,5) by (subst to_padded_size) (simp, simp, rule is_power_of_two_pow)
  moreover have "close_stack digest [p] = Some (Inr [p])" "shift_pieces digest [] [p] = Some (Inr [p])"
    by (subst close_stack.simps, simp) simp
  ultimately show ?thesis using count sum assms(3)
    by (simp add: verify_pieces_def compute_comm_d_def stack_shift_def stack_pop_def)
qed

text \<open>The toy sector key of 1 KiB, with an own file for its auxiliary data.\<close>

definition toy_t_aux :: temporary_aux where
  "toy_t_aux = \<lparr>ta_labels = [], ta_tree_d_config = toy_store ''d'' 0, ta_tree_r_last_config = toy_store ''o'' 2, ta_tree_c_config = toy_store ''c'' 0\<rparr>"

definition toy_update_snark :: "(toy_fr, unit, u8, u8 list) snark" where
  "toy_update_snark = toy_snark\<lparr>sn_verify_batch := (\<lambda>_ gs inputs. Inr (inputs = map (\<lambda>_. [1, F1, F1, F1]) gs)),
     sn_verify_aggregate := (\<lambda>_ _ inputs gs _ _. Inr (inputs = map (\<lambda>_. [1, F1, F1, F1]) gs))\<rparr>"

definition toy_update_api :: "(toy_fr, u8 list list, u8 list \<times> u8 list \<times> (u8 list list \<times> nat) list, unit, u8, u8 list) update_api" where
  "toy_update_api = \<lparr>ua_update = toy_update_1kib, ua_write_p_aux = (\<lambda>p. Inr (pa_comm_c p @ pa_comm_r_last p)),
     ua_read_p_aux = (\<lambda>bs. Inr \<lparr>pa_comm_c = take 32 bs, pa_comm_r_last = drop 32 bs\<rparr>), ua_write_t_aux = (\<lambda>_. Inr []), ua_read_t_aux = (\<lambda>_. Inr toy_t_aux),
     ua_snark = toy_update_snark, ua_groth = \<lparr>ug_params = (\<lambda>_. Inr ()), ug_verifying_key = (\<lambda>_. Inr ()), ug_prove = (\<lambda>_ circuits _. Inr (map (\<lambda>_. 7) circuits))\<rparr>\<rparr>"

definition toy_root_old :: "u8 list" where "toy_root_old = tree_root_of (de_tree (ue_drg toy_update_1kib)) toy_keys"

definition toy_key_dir :: disk where
  "toy_key_dir = toy_key_cache(Data_File (cache_key_str PAux) \<mapsto> toy_of_fr F1 @ toy_root_old, Data_File (cache_key_str TAux) \<mapsto> [])"

definition toy_update_config :: porep_config where
  "toy_update_config = porep_config.make 1024 1 (replicate 32 0) V1_2_0 []"

lemma toy_api_update_ok: "api_update_ok toy_update_api toy_update_config 32 5 5 toy_keys (toy_of_fr F1) toy_keys toy_t_aux toy_key_dir"
proof -
  note T = toy_update_setting
  let ?A = "de_arities (ue_drg toy_update_1kib)"
  have t: "tree_count ?A = 1" by (simp add: toy_update_1kib_ok binary_arities_def tree_count_def)
  have "length (pq_hash2 toy_api_prims a b) = 32" for a b by (simp add: toy_api_prims_def toy_prims_def toy_of_fr_def)
  moreover have "length toy_root_old = 32"
  proof -
    have k: "length toy_keys = 2 ^ 5" "\<forall>x\<in>set toy_keys. length x = 32" by (simp_all add: toy_keys_def toy_of_fr_def)
    have "toy_root_old = subtree_root toy_sum 5 toy_keys"
      using T(15) comm_root [OF k(1), of toy_sum] by (simp add: tree_of_def toy_update_1kib_ok toy_root_old_def)
    then show ?thesis using length_subtree_root [OF _ k, of toy_sum] by (simp add: toy_sum_def)
  qed
  moreover have "create_lc_tree (de_tree (ue_drg toy_update_1kib)) ?A 63 (split_config (toy_store ''o'' 2) (tree_count ?A)) r toy_key_dir =
      create_lc_tree (de_tree (ue_drg toy_update_1kib)) ?A 63 (split_config (toy_store ''o'' 2) (tree_count ?A)) r toy_key_cache" for r
    by (rule create_lc_tree_cong) (simp add: t split_config_def toy_store_def file_of_def toy_key_dir_def)
  ultimately show ?thesis
    using T(1,2,4,8,11,15,16) unfolding api_update_ok_def Let_def
    by (auto simp: toy_update_api_def toy_update_1kib_ok(4) toy_update_config_def porep_config.defs get_p_aux_def get_t_aux_def toy_key_dir_def toy_root_old_def [symmetric]
        toy_t_aux_def toy_store_def ids_of_def split_config_def t toy_of_fr_def is_ok_iff intro!: exI [of _ 63])
qed

definition toy_new_replica :: "u8 list list" where
  "toy_new_replica = concat (replicate 8 (map toy_of_fr [F0, F1, F0, F0]))"

lemma toy_updated:
  assumes "updated_sector toy_update_1kib 32 5 5 toy_keys toy_new_data comm_d comm_r_old new r"
  shows "new = toy_new_replica \<and> r = toy_leaf 8"
proof -
  have rho: "node_rho (ue_randomness toy_update_1kib) x s = (\<lambda>_. F1)" for x s
    by (simp add: fun_eq_iff node_rho_def toy_update_1kib_def toy_update_def)
  have "encoded_nodes toy_api_prims (\<lambda>_. F1) toy_keys toy_new_data = toy_new_replica" by code_simp
  then have n: "new = toy_new_replica" using assms by (auto simp: updated_sector_def rho toy_update_1kib_ok(4))
  have "tree_root (sha256_multi_node toy_sum) (levels binary_arities 5) toy_new_replica = Inr (toy_leaf 8)" by code_simp
  then show ?thesis using assms unfolding n by (simp add: updated_sector_def toy_update_1kib_ok(4-7))
qed

theorem api_update_complete_witness:
  "\<exists>d2 proofs. api_encode_into toy_update_api (from_porep_config toy_update_config) (Some (replicate 1024 7)) (Some (concat toy_keys)) toy_key_dir
      (Some (concat toy_new_data)) [\<lparr>pc_commitment = subtree_root toy_sum 5 toy_new_data, pc_size = unpadded_size 5\<rparr>] (\<lambda>_. None) (\<lambda>_. None) =
      Some (Inr (concat toy_new_replica, \<lambda>_. None, d2,
        \<lparr>un_comm_r_new = toy_of_fr F1, un_comm_r_last_new = toy_leaf 8, un_comm_d_new = toy_leaf 24\<rparr>)) \<and>
    verify_partition_proofs toy_update_api (from_porep_config toy_update_config) proofs (pq_hash2 toy_api_prims (toy_of_fr F1) toy_root_old)
      (toy_of_fr F1) (toy_leaf 24) = Inr True \<and>
    length proofs = partition_count 32 \<and>
    api_decode_from toy_update_api (from_porep_config toy_update_config) (Some (replicate 1024 7)) (Some (concat toy_new_replica))
      (Some (concat toy_keys)) toy_key_dir (toy_leaf 24) = Inr (concat toy_new_data)"
proof -
  let ?E = toy_update_api and ?infos = "[\<lparr>pc_commitment = subtree_root toy_sum 5 toy_new_data, pc_size = unpadded_size 5\<rparr>]"
  have U: "ua_update ?E = toy_update_1kib" by (simp add: toy_update_api_def)
  have l: "length toy_new_data = 2 ^ 5" by (simp add: toy_new_data_def toy_data_def length_concat sum_list_replicate)
  have "verify_pieces toy_sum cm (subtree_root toy_sum 5 toy_new_data) ?infos (32 * 2 ^ 5) = Some (Inr (cm, True))" for cm
    by (rule whole_piece [OF _ l refl]) (simp_all add: piece_ok_def l)
  then have p: "verify_pieces (ue_sha256 (ua_update ?E)) (\<lambda>_. None) (subtree_root (ue_sha256 (ua_update ?E)) 5 toy_new_data) ?infos (32 * 32) = Some (Inr (\<lambda>_. None, True))"
    by (simp add: U toy_update_1kib_ok)
  have N: "canonical_nodes (de_prims (ue_drg (ua_update ?E))) 32 toy_new_data" using toy_update_setting(3) by (simp add: U)
  have nz: "node_rho (ue_randomness toy_update_1kib) x s i \<noteq> 0" for x s i by (simp add: node_rho_def toy_update_1kib_def toy_update_def zero_toy_fr_def)
  have o: "length (replicate 1024 (7::u8)) = 32 * 32" by simp
  have d: "toy_leaf 24 = subtree_root (ue_sha256 (ua_update ?E)) 5 toy_new_data" unfolding U toy_update_1kib_ok(6) by code_simp
  have r: "pq_hash2 toy_api_prims (toy_of_fr F1) (toy_leaf 8) = toy_of_fr F1"
      "toy_leaf 24 \<noteq> zero_commitment" "toy_leaf 8 \<noteq> zero_commitment" "toy_of_fr F1 \<noteq> zero_commitment" by code_simp+
  have pick: "Q a b (h b)" if "\<exists>a b c. V a b \<and> c = h b \<and> (if Z b c then R a b c else Q a b c)" "\<And>a' b'. V a' b' \<Longrightarrow> a' = a \<and> b' = b" "\<not> Z b (h b)"
    for V Z R Q h and a :: "u8 list list" and b :: "u8 list" using that by metis
  from pick [OF api_update_complete [OF toy_api_update_ok N o p refl refl d, of "\<lambda>_. None"],
      unfolded U toy_update_1kib_ok(4) toy_root_old_def [symmetric], OF toy_updated] r
  show ?thesis using nz by (fastforce elim!: ex_forward)
qed

section \<open>Circuit proofs of updates\<close>

text \<open>
  The inputs that \<open>get_sector_update_inputs\<close> hands out for aggregation are those that the circuit proofs of the update
  are verified with: for every configuration and all commitments for which it succeeds, verification of a proof is reading the keys and the
  circuit proofs and giving them with these inputs to the batch verifier, one list of four field elements per partition.
\<close>
theorem update_inputs_verify:
  assumes "n \<in> set ALLOWED_SECTOR_SIZES" and "porep_config.pc_sector_size cfg = 32 * n"
    and "get_sector_update_inputs E cfg comm_r_old comm_r_new comm_d_new = Inr inputs"
  shows "verify_empty_sector_update_proof E cfg update_bytes comm_r_old comm_r_new comm_d_new =
      bindR (ug_verifying_key (ua_groth E) cfg) (\<lambda>key.
      bindR (multi_proof_from_bytes (sn_read_many (ua_snark E)) (Some (partition_count n)) update_bytes) (\<lambda>proofs.
      sn_verify_batch (ua_snark E) key proofs inputs)) \<and>
    length inputs = partition_count n \<and> (\<forall>i\<in>set inputs. length i = 4)"
proof -
  let ?P = "de_prims (ue_drg (ua_update E))" let ?pi = "\<lambda>k. \<lparr>ui_k = k, ui_comm_r_old = comm_r_old, ui_comm_d_new = comm_d_new, ui_comm_r_new = comm_r_new, ui_h = h_default n\<rparr>"
  note c = update_api_config [OF assms(1,2)]
  obtain pp where pp: "from_sector_size (32 * n) = Inr pp" using from_sector_size_ok [OF assms(1)] by blast
  have i: "collectR (\<lambda>k. update_public_inputs ?P (?pi 0) pp (Some k)) [0..<partition_count n] = Inr inputs"
      and l: "length comm_r_old = 32" "length comm_r_new = 32" "length comm_d_new = 32"
    using assms(3) pp unfolding get_sector_update_inputs_def Let_def c
    by (auto simp: update_compound_setup_def update_api_inputs_def domain_from_bytes_def bindR_eq_Inr ensure_eq_Inr)
  have k: "update_public_inputs ?P (?pi m) pp (Some k) = update_public_inputs ?P (?pi 0) pp (Some k)" for m k
    by (simp add: update_public_inputs_def unwrap_or_def)
  have n: "compound_partition_count (Some (partition_count n)) = Inr (partition_count n)" using c(6) by (cases "partition_count n") simp_all
  have v: "bindR (multi_proof_from_bytes (sn_read_many (ua_snark E)) (Some (partition_count n)) update_bytes)
        (update_compound_verify (ua_snark E) ?P \<lparr>uc_vanilla = pp, uc_partitions = Some (partition_count n), uc_priority = True\<rparr> (?pi m) key) =
      bindR (multi_proof_from_bytes (sn_read_many (ua_snark E)) (Some (partition_count n)) update_bytes)
        (\<lambda>proofs. sn_verify_batch (ua_snark E) key proofs inputs)" for key m
  proof (cases "multi_proof_from_bytes (sn_read_many (ua_snark E)) (Some (partition_count n)) update_bytes")
    case (Inr proofs)
    then have "length proofs = partition_count n" by (auto simp: multi_proof_from_bytes_def unwrap_or_def Let_def bindR_eq_Inr ensure_eq_Inr)
    then show ?thesis using i by (simp add: Inr update_compound_verify_def n k [of m])
  qed simp
  have "length inputs = partition_count n" using collectR_length [OF i] by simp
  moreover have "\<forall>i\<in>set inputs. length i = 4"
  proof
    fix x assume "x \<in> set inputs"
    then obtain j where "update_public_inputs ?P (?pi 0) pp (Some j) = Inr x" using i by (auto simp: collectR_Inr_iff list_all2_conv_all_nth in_set_conv_nth)
    then show "length x = 4" by (auto simp: update_public_inputs_def circuit_public_to_vec_def bindR_eq_Inr dest: collectR_length)
  qed
  ultimately show ?thesis
    using pp l v by (simp add: verify_empty_sector_update_proof_def Let_def c update_api_inputs_ok update_compound_setup_def)
qed

lemma toy_update_inputs:
  "get_sector_update_inputs toy_update_api toy_update_config (toy_of_fr F1) (toy_of_fr F1) (toy_of_fr F1) = Inr [[1, F1, F1, F1]]"
proof -
  have n: "(32::nat) \<in> set ALLOWED_SECTOR_SIZES" "porep_config.pc_sector_size toy_update_config = 32 * 32"
    by (simp_all add: ALLOWED_SECTOR_SIZES_def sector_sizes toy_update_config_def porep_config.defs)
  obtain pp where pp: "from_sector_size (32 * 32) = Inr pp" "up_sector_nodes pp = 32" using from_sector_size_ok [OF n(1)] by auto
  have f: "into_fr toy_api_prims (toy_of_fr F1) = Inr F1"
    using into_of_fr [OF toy_api_fr, of F1] by (simp add: toy_api_prims_def toy_prims_def)
  have z: "toy_of_fr F1 \<noteq> zero_commitment" "length (toy_of_fr F1) = 32" by (auto simp: toy_of_fr_def dest: arg_cong [where f = hd])
  have p: "partition_count 32 = 1" "h_default 32 = 1" "h_select 32 1 = Inr 1" "trailing_zeros 1 = 0"
    using trailing_zeros_2p [of 0] by (simp_all add: partition_count_def h_default_def hs_def h_select_def sector_sizes Let_def)
  have D: "de_prims (ue_drg (ua_update toy_update_api)) = toy_api_prims" using toy_update_1kib_ok(4) by (simp add: toy_update_api_def)
  show ?thesis
    using z pp p f unfolding get_sector_update_inputs_def Let_def update_api_config [OF n]
    by (simp add: update_api_inputs_ok update_compound_setup_def update_public_inputs_def circuit_public_new_def circuit_public_to_vec_def unwrapR_def
        unwrap_or_def D)
qed

theorem update_inputs_verify_witness:
  "get_sector_update_inputs toy_update_api toy_update_config (toy_of_fr F1) (toy_of_fr F1) (toy_of_fr F1) = Inr [[1, F1, F1, F1]] \<and>
    verify_empty_sector_update_proof toy_update_api toy_update_config [7] (toy_of_fr F1) (toy_of_fr F1) (toy_of_fr F1) = Inr True"
proof -
  have n: "(32::nat) \<in> set ALLOWED_SECTOR_SIZES" "porep_config.pc_sector_size toy_update_config = 32 * 32"
    by (simp_all add: ALLOWED_SECTOR_SIZES_def sector_sizes toy_update_config_def porep_config.defs)
  have "partition_count 32 = 1" by (simp add: partition_count_def sector_sizes)
  then show ?thesis
    using update_inputs_verify [OF n toy_update_inputs, of "[7]"] toy_update_inputs
    by (simp add: toy_update_api_def toy_update_snark_def toy_snark_def multi_proof_from_bytes_def unwrap_or_def)
qed

text \<open>
  C18. Aggregates of sector updates are accepted: for API version 1.2.0 and later and updates with the same \<open>h\<close>,
  the aggregate made from the circuit proofs of all updates is accepted with the inputs that \<open>get_sector_update_inputs\<close>
  gives for the same updates, whenever each proof is valid for its inputs; prover and verifier pad alike.
\<close>
theorem aggregate_updates_complete:
  assumes v: "api_version_le V1_2_0 (pc_api_version cfg)" and G: "aggregation_for (ua_snark E) cfg key valid" "ug_verifying_key (ua_groth E) cfg = Inr key"
    and u: "updates \<noteq> []" "\<forall>u\<in>set updates. si_h u = h"
    and p: "list_all2 (\<lambda>bytes gs. sn_read_many (ua_snark E) bytes (usize_of_partitions (su_update_partitions (from_porep_config cfg))) = Inr gs) proofs groth_proofs"
      "concat groth_proofs \<noteq> []" "length (concat groth_proofs) \<le> SRS_MAX_PROOFS_TO_AGGREGATE"
    and i: "list_all2 (\<lambda>u inputs. get_sector_update_inputs E cfg (si_comm_r_old u) (si_comm_r_new u) (si_comm_d_new u) = Inr inputs) updates inputss"
      "list_all2 valid (concat groth_proofs) (concat inputss)"
  shows "\<exists>bytes. aggregate_empty_sector_update_proofs E cfg proofs updates AggV2 = Inr bytes \<and>
    verify_aggregate_sector_update_proofs E cfg bytes updates (concat inputss) AggV2 = Some (Inr True)"
proof -
  let ?N = "ua_snark E" and ?n = "length (concat groth_proofs)" and ?h = "get_hashed_commitments (ue_sha256 (ua_update E)) updates"
  have r: "collectR (\<lambda>bytes. sn_read_many ?N bytes (usize_of_partitions (su_update_partitions (from_porep_config cfg)))) proofs = Inr groth_proofs"
    using p(1) by (simp add: collectR_Inr_iff)
  obtain k srs srs_vk padded a bytes where k: "get_aggregate_target_len ?n = 2 ^ k" "(1::nat) < 2 ^ k" "length (concat inputss) = ?n"
    and q: "pad_proofs_to_target (concat groth_proofs) (2 ^ k) = Inr padded" "length padded = 2 ^ k" "sn_srs_key ?N cfg (2 ^ k) = Inr srs"
      "sn_srs_verifier_key ?N cfg (2 ^ k) = Inr srs_vk"
    and a: "sn_aggregate ?N srs ?h padded AggV2 = Inr a" "sn_write_aggregate ?N a = Inr bytes" "sn_read_aggregate ?N bytes = Inr a" "sn_nproofs ?N a = 2 ^ k"
    and j: "pad_inputs_to_target (concat inputss) 1 (2 ^ k) = Some (Inr (concat inputss @ replicate (2 ^ k - length (concat inputss)) (last (concat inputss))))"
      "sn_verify_aggregate ?N srs_vk key (concat inputss @ replicate (2 ^ k - length (concat inputss)) (last (concat inputss))) a ?h AggV2 = Inr True"
    by (rule padded_aggregate [OF G(1) p(2,3) i(2), where h = ?h and version = AggV2])
  have h: "\<forall>u\<in>set updates. si_h (hd updates) = si_h u" using u by simp
  then have h': "\<not> (\<exists>u\<in>set updates. si_h (hd updates) \<noteq> si_h u)" by blast
  have "aggregate_empty_sector_update_proofs E cfg proofs updates AggV2 = Inr bytes"
    using v u(1) h r q a(1,2) k by (simp add: aggregate_empty_sector_update_proofs_def Let_def)
  moreover have "concat inputss \<noteq> []" using k(3) p(2) by fastforce
  then have "verify_aggregate_sector_update_proofs E cfg bytes updates (concat inputss) AggV2 = Some (Inr True)"
    using v u(1) a(3,4) G(2) q(4) k j unfolding verify_aggregate_sector_update_proofs_def Let_def by (simp add: h')
  ultimately show ?thesis by blast
qed

definition toy_sector_update :: sector_update_inputs where
  "toy_sector_update = \<lparr>si_h = 1, si_comm_r_old = toy_of_fr F1, si_comm_r_new = toy_of_fr F1, si_comm_d_new = toy_of_fr F1\<rparr>"

theorem aggregate_updates_complete_witness:
  "\<exists>bytes. aggregate_empty_sector_update_proofs toy_update_api toy_update_config [[7], [8], [9]] (replicate 3 toy_sector_update) AggV2 = Inr bytes \<and>
    verify_aggregate_sector_update_proofs toy_update_api toy_update_config bytes (replicate 3 toy_sector_update) (replicate 3 [1, F1, F1, F1]) AggV2 = Some (Inr True)"
proof -
  have n: "(32::nat) \<in> set ALLOWED_SECTOR_SIZES" "porep_config.pc_sector_size toy_update_config = 32 * 32"
    by (simp_all add: ALLOWED_SECTOR_SIZES_def sector_sizes toy_update_config_def porep_config.defs)
  have one: "usize_of_partitions (su_update_partitions (from_porep_config toy_update_config)) = 1"
    unfolding update_api_config [OF n] by (simp add: partition_count_def sector_sizes)
  have "inputs = map (\<lambda>_. [1, F1, F1, F1]) gs" if "list_all2 (\<lambda>_ i. i = [1, F1, F1, F1]) gs inputs" for gs :: "u8 list" and inputs
    using that by (induction rule: list_all2_induct) auto
  then have a: "aggregation_for (ua_snark toy_update_api) toy_update_config () (\<lambda>_ i. i = [1, F1, F1, F1])"
    by (simp add: aggregation_for_def toy_update_api_def toy_update_snark_def toy_snark_def)
  have "\<exists>bytes. aggregate_empty_sector_update_proofs toy_update_api toy_update_config [[7], [8], [9]] (replicate 3 toy_sector_update) AggV2 = Inr bytes \<and>
    verify_aggregate_sector_update_proofs toy_update_api toy_update_config bytes (replicate 3 toy_sector_update) (concat (replicate 3 [[1, F1, F1, F1]])) AggV2 = Some (Inr True)"
  proof (rule aggregate_updates_complete [OF _ a, where h = 1 and groth_proofs = "[[7], [8], [9]]"])
    show "list_all2 (\<lambda>bytes gs. sn_read_many (ua_snark toy_update_api) bytes (usize_of_partitions (su_update_partitions (from_porep_config toy_update_config))) = Inr gs)
        [[7], [8], [9]] [[7], [8], [9]]" unfolding one by (simp add: toy_update_api_def toy_update_snark_def toy_snark_def)
    show "list_all2 (\<lambda>u inputs. get_sector_update_inputs toy_update_api toy_update_config (si_comm_r_old u) (si_comm_r_new u) (si_comm_d_new u) = Inr inputs)
        (replicate 3 toy_sector_update) (replicate 3 [[1, F1, F1, F1]])" using toy_update_inputs by (simp add: toy_sector_update_def list_all2_conv_all_nth)
    show "list_all2 (\<lambda>_ i. i = [1, F1, F1, F1]) (concat [[7], [8], [9]]) (concat (replicate 3 [[1, F1, F1, F1]]))" by (simp add: numeral_3_eq_3)
  qed (simp_all add: toy_update_api_def toy_update_config_def porep_config.defs toy_sector_update_def SRS_MAX_PROOFS_TO_AGGREGATE_def api_version_le_def)
  then show ?thesis by (simp add: numeral_3_eq_3)
qed
end
