(* ===== verification/Unseal_Api.thy ===== *)
theory Unseal_Api
  imports Seal_Api
begin

text \<open>
  Unsealing a range of a sector, the checks of the files that sealing leaves in the cache directory
  (\<open>filecoin-proofs/src/api/mod.rs\<close>) and the removal of the files that proofs of spacetime do not need
  (\<open>storage-proofs-porep/src/stacked/vanilla/clear_files.rs\<close>).
\<close>

section \<open>The code\<close>

subsection \<open>Unsealing\<close>

text \<open>
  The output is a writer in a state \<open>out\<close>. The number of bytes written is returned with the writer and the
  cache directory, which gets the labels of the layers. \<open>write_unpadded\<close> is called with the offset 0, where
  the subtractions that depend on the build do not go below 0.
\<close>

definition unseal_range_inner ::
  "('f::field, 't, 'p, 'k, 'g, 'a) seal_env \<Rightarrow> ('w \<Rightarrow> u8 list \<Rightarrow> 'w res) \<Rightarrow> porep_config \<Rightarrow> u8 list \<Rightarrow> 'w \<Rightarrow> u8 list \<Rightarrow> nat \<Rightarrow> nat \<Rightarrow>
    disk \<Rightarrow> ('w \<times> nat \<times> disk) res option" where
  "unseal_range_inner S write_all cfg data out replica_id offset num_bytes d =
     bindO (stacked_params S cfg) (\<lambda>cp.
     let pp = kc_vanilla cp; offset_padded = to_padded_bytes offset; num_bytes_padded = to_padded_bytes num_bytes in
     bindO (extract_and_invert_transform_layers (se_drg S) (se_cache S) (ppr_graph pp) (ppr_num_layers pp) replica_id data
              (cache_key_str CommDTree) d) (\<lambda>(d, data).
     bindO (Some (slice data offset_padded (offset_padded + num_bytes_padded))) (\<lambda>unsealed.
     bindO (write_unpadded Release write_all unsealed out 0 num_bytes) (\<lambda>(out, written).
     Some (Inr (out, written, d))))))"

definition unseal_range ::
  "('f::field, 't, 'p, 'k, 'g, 'a) seal_env \<Rightarrow> ('w \<Rightarrow> u8 list \<Rightarrow> 'w res) \<Rightarrow> porep_config \<Rightarrow> u8 list \<Rightarrow> 'w \<Rightarrow> u8 list \<Rightarrow> u64 \<Rightarrow>
    u8 list \<Rightarrow> u8 list \<Rightarrow> nat \<Rightarrow> nat \<Rightarrow> disk \<Rightarrow> ('w \<times> nat \<times> disk) res option" where
  "unseal_range S write_all cfg sealed_sector out prover_id sector_id comm_d ticket offset num_bytes d =
     (if comm_d = zero_commitment then Some (Inl (Fail ''Invalid all zero commitment (comm_d)''))
      else bindO (Some (as_safe_commitment (de_prims (se_drg S)) comm_d)) (\<lambda>comm_d.
           unseal_range_inner S write_all cfg sealed_sector out (sector_replica_id S cfg prover_id sector_id ticket comm_d) offset num_bytes d))"

definition unseal_range_mapped ::
  "('f::field, 't, 'p, 'k, 'g, 'a) seal_env \<Rightarrow> ('w \<Rightarrow> u8 list \<Rightarrow> 'w res) \<Rightarrow> porep_config \<Rightarrow> u8 list option \<Rightarrow> 'w \<Rightarrow> u8 list \<Rightarrow> u64 \<Rightarrow>
    u8 list \<Rightarrow> u8 list \<Rightarrow> nat \<Rightarrow> nat \<Rightarrow> disk \<Rightarrow> ('w \<times> nat \<times> disk) res option" where
  "unseal_range_mapped S write_all cfg sealed_file out prover_id sector_id comm_d ticket offset num_bytes d =
     (if comm_d = zero_commitment then Some (Inl (Fail ''Invalid all zero commitment (comm_d)''))
      else bindO (Some (as_safe_commitment (de_prims (se_drg S)) comm_d)) (\<lambda>comm_d.
           bindO (Some (open_file sealed_file)) (\<lambda>data.
           unseal_range_inner S write_all cfg data out (sector_replica_id S cfg prover_id sector_id ticket comm_d) offset num_bytes d)))"

text \<open>The output file is created, or truncated.\<close>

definition get_unsealed_range ::
  "('f::field, 't, 'p, 'k, 'g, 'a) seal_env \<Rightarrow> porep_config \<Rightarrow> u8 list option \<Rightarrow> u8 list \<Rightarrow> u64 \<Rightarrow>
    u8 list \<Rightarrow> u8 list \<Rightarrow> nat \<Rightarrow> nat \<Rightarrow> disk \<Rightarrow> (u8 list \<times> nat \<times> disk) res option" where
  "get_unsealed_range S cfg sealed_file prover_id sector_id comm_d ticket offset num_bytes d =
     unseal_range_mapped S vec_write_all cfg sealed_file [] prover_id sector_id comm_d ticket offset num_bytes d"

subsection \<open>Checks of the cache directory\<close>

definition str_contains :: "string \<Rightarrow> string \<Rightarrow> bool" where
  "str_contains s p \<longleftrightarrow> list_ex (\<lambda>k. take (length p) (drop k s) = p) [0..<Suc (length s)]"

text \<open>
  The configurations of the parts that a store is split into, as far as their files exist: the name of a part is
  that of the kind of tree which the path contains.
\<close>

definition split_store_configs :: "store_config \<Rightarrow> nat \<Rightarrow> disk \<Rightarrow> store_config list" where
  "split_store_configs config required_configs d =
     concat (map (\<lambda>i. let id' = sc_id config @ ''-'' @ show_nat i in
         if d (Data_File id') = None then []
         else case find (str_contains id') [''tree-d'', ''tree-c'', ''tree-r-last''] of
                None \<Rightarrow> []
              | Some name \<Rightarrow> [config\<lparr>sc_id := name @ ''-'' @ show_nat i, sc_size := None\<rparr>])
       [0..<required_configs])"

definition disk_store_size :: "store_config \<Rightarrow> nat res" where
  "disk_store_size config = expectS ''disk store size not configured'' (sc_size config)"

definition check_consistent :: "(nat \<Rightarrow> nat \<Rightarrow> store_config \<Rightarrow> u8 list option \<Rightarrow> bool res) \<Rightarrow> nat \<Rightarrow> nat \<Rightarrow> disk \<Rightarrow> store_config \<Rightarrow> unit res" where
  "check_consistent is_consistent slen arity d config =
     bindR (open_file (file_of config d)) (\<lambda>_.
     bindR (is_consistent slen arity config (file_of config d)) (\<lambda>ok. ensure ok ''Store is inconsistent'' (Inr ())))"

text \<open>
  \<open>verify_store\<close> with \<open>DiskStore::is_consistent\<close>, \<open>verify_level_cache_store\<close> with that of \<open>LevelCacheStore\<close>: both are
  of the merkletree crate.
\<close>

definition verify_store ::
  "(nat \<Rightarrow> nat \<Rightarrow> store_config \<Rightarrow> u8 list option \<Rightarrow> bool res) \<Rightarrow> store_config \<Rightarrow> nat \<Rightarrow> nat \<Rightarrow> disk \<Rightarrow> unit res" where
  "verify_store is_consistent config arity required_configs d =
     (if file_of config d = None
      then let configs = split_store_configs config required_configs d in
        ensure (length configs = required_configs) ''Missing store file (or associated split paths)''
          (bindR (disk_store_size config) (\<lambda>slen.
           bindR (collectR (check_consistent is_consistent slen arity d) configs) (\<lambda>_. Inr ())))
      else bindR (disk_store_size config) (\<lambda>slen. check_consistent is_consistent slen arity d config))"

definition verify_level_cache_store ::
  "(nat \<Rightarrow> nat \<Rightarrow> store_config \<Rightarrow> u8 list option \<Rightarrow> bool res) \<Rightarrow> arities \<Rightarrow> store_config \<Rightarrow> disk \<Rightarrow> unit res" where
  "verify_level_cache_store is_consistent A config d =
     (if file_of config d = None
      then bindR (get_base_tree_count A) (\<lambda>required_configs.
        let configs = split_store_configs config required_configs d in
        ensure (length configs = required_configs) ''Missing store file (or associated split paths)''
          (bindR (disk_store_size config) (\<lambda>slen.
           bindR (collectR (check_consistent is_consistent slen (base_arity A) d) configs) (\<lambda>_. Inr ()))))
      else bindR (disk_store_size config) (\<lambda>slen. check_consistent is_consistent slen (base_arity A) d config))"

definition verify_stores ::
  "(nat \<Rightarrow> nat \<Rightarrow> store_config \<Rightarrow> u8 list option \<Rightarrow> bool res) \<Rightarrow> nat \<Rightarrow> store_config list \<Rightarrow> disk \<Rightarrow> unit res" where
  "verify_stores is_consistent required_configs labels d =
     bindR (collectR (\<lambda>label. verify_store is_consistent label 2 required_configs d) labels) (\<lambda>_. Inr ())"

definition validate_cache_for_precommit_phase2 ::
  "('f, 't, 'p, 'k, 'g, 'a) seal_env \<Rightarrow> (nat \<Rightarrow> nat \<Rightarrow> store_config \<Rightarrow> u8 list option \<Rightarrow> bool res) \<Rightarrow> u8 list option \<Rightarrow> seal_phase1 \<Rightarrow> disk \<Rightarrow>
    unit res" where
  "validate_cache_for_precommit_phase2 S is_consistent replica_file phase1_output d =
     ensure (replica_file \<noteq> None) ''Missing replica''
       (bindR (get_base_tree_count (de_arities (se_drg S))) (\<lambda>count.
        bindR (verify_stores is_consistent count (s1_labels phase1_output) d) (\<lambda>_.
        verify_store is_consistent (s1_config phase1_output) (base_arity binary_arities) count d)))"

definition oct_arities :: arities where
  "oct_arities = \<lparr>base_arity = 8, sub_tree_arity = 0, top_tree_arity = 0\<rparr>"

definition validate_cache_for_commit ::
  "('f, 't, 'p, 'k, 'g, 'a) seal_env \<Rightarrow> (nat \<Rightarrow> nat \<Rightarrow> store_config \<Rightarrow> u8 list option \<Rightarrow> bool res) \<Rightarrow>
    (nat \<Rightarrow> nat \<Rightarrow> store_config \<Rightarrow> u8 list option \<Rightarrow> bool res) \<Rightarrow> u8 list option \<Rightarrow> disk \<Rightarrow> unit res" where
  "validate_cache_for_commit S disk_consistent level_consistent replica_file d =
     (case replica_file of
        None \<Rightarrow> Inl (Fail ''Missing replica'')
      | Some replica \<Rightarrow>
          ensure (0 < length replica) ''Replica exists, but is empty!''
            (bindR (get_p_aux (se_read_p_aux S) d) (\<lambda>_.
             bindR (get_t_aux (se_read_t_aux S) d) (\<lambda>t_aux.
             bindR (get_base_tree_count (de_arities (se_drg S))) (\<lambda>count.
             bindR (verify_stores disk_consistent count (ta_labels t_aux) d) (\<lambda>_.
             bindR (verify_store disk_consistent (ta_tree_d_config t_aux) (base_arity binary_arities) count d) (\<lambda>_.
             bindR (verify_store disk_consistent (ta_tree_c_config t_aux) (base_arity oct_arities) count d) (\<lambda>_.
             verify_level_cache_store level_consistent oct_arities (ta_tree_r_last_config t_aux) d))))))))"

subsection \<open>Removal of files\<close>

text \<open>
  The directories of the file system by their paths. Removing files goes by paths, and \<open>glob\<close> searches all of
  the file system, so that here the path of the cache directory counts. The \<open>glob\<close> crate is a parameter: for a pattern, which is a
  text, it is \<open>None\<close> when the pattern is not valid, else the paths that match (each may be an error). So is the text of
  the path of a data file (\<open>StoreConfig::data_path\<close> of the merkletree crate, with \<open>to_str\<close>), which is \<open>None\<close>
  when the path is not UTF-8, and whether the process may remove a file.
\<close>

type_synonym filesystem = "string \<Rightarrow> disk"

type_synonym path = "string \<times> file_name"

record file_env =
  fl_data_path_str :: "string \<Rightarrow> string \<Rightarrow> string option"
  fl_glob :: "filesystem \<Rightarrow> string \<Rightarrow> path res list option"
  fl_may_remove :: "path \<Rightarrow> bool"

definition path_exists :: "path \<Rightarrow> filesystem \<Rightarrow> bool" where
  "path_exists p fs \<longleftrightarrow> fs (fst p) (snd p) \<noteq> None"

definition remove_file :: "file_env \<Rightarrow> path \<Rightarrow> filesystem \<Rightarrow> filesystem \<times> unit res" where
  "remove_file F p fs =
     (if path_exists p fs \<and> fl_may_remove F p then (fs(fst p := (fs (fst p))(snd p := None)), Inr ())
      else (fs, Inl (Fail ''Failed to delete'')))"

text \<open>What was removed before an error stays removed.\<close>

fun and_then :: "filesystem \<times> unit res \<Rightarrow> (filesystem \<Rightarrow> filesystem \<times> unit res) \<Rightarrow> filesystem \<times> unit res" where
  "and_then (fs, Inl e) g = (fs, Inl e)"
| "and_then (fs, Inr ()) g = g fs"

fun remove_paths :: "file_env \<Rightarrow> path res list \<Rightarrow> filesystem \<Rightarrow> filesystem \<times> unit res" where
  "remove_paths F [] fs = (fs, Inr ())"
| "remove_paths F (Inl e # globs) fs = (fs, Inl e)"
| "remove_paths F (Inr p # globs) fs = and_then (remove_file F p fs) (remove_paths F globs)"

definition remove_files_with_glob :: "file_env \<Rightarrow> string option \<Rightarrow> filesystem \<Rightarrow> filesystem \<times> unit res" where
  "remove_files_with_glob F glob_path fs =
     (case glob_path of None \<Rightarrow> (fs, Inl (Panic ''Path must be valid UTF-8''))
      | Some pattern \<Rightarrow> (case fl_glob F fs pattern of None \<Rightarrow> (fs, Inl (Panic ''Glob pattern must be valid''))
          | Some globs \<Rightarrow> remove_paths F globs fs))"

definition clear_cache_dir :: "file_env \<Rightarrow> string \<Rightarrow> filesystem \<Rightarrow> filesystem \<times> unit res" where
  "clear_cache_dir F cache_path fs =
     (let tree_d_path = (cache_path, Data_File (cache_key_str CommDTree)) in
      and_then (if path_exists tree_d_path fs then remove_file F tree_d_path fs else (fs, Inr ())) (\<lambda>fs.
      and_then (remove_files_with_glob F (fl_data_path_str F cache_path (cache_key_str CommCTree @ ''*'')) fs) (\<lambda>fs.
      remove_files_with_glob F (fl_data_path_str F cache_path (LABEL_LAYER_KEY @ ''*'')) fs)))"

definition clear_cache :: "file_env \<Rightarrow> string \<Rightarrow> filesystem \<Rightarrow> filesystem \<times> unit res" where
  "clear_cache F cache_dir fs = clear_cache_dir F cache_dir fs"

definition stacked_clear_synthetic_proofs :: "file_env \<Rightarrow> string \<Rightarrow> filesystem \<Rightarrow> filesystem \<times> unit res" where
  "stacked_clear_synthetic_proofs F cache_path fs =
     (if path_exists (cache_path, synth_proofs_path) fs then remove_file F (cache_path, synth_proofs_path) fs else (fs, Inr ()))"

definition clear_synthetic_proofs :: "file_env \<Rightarrow> string \<Rightarrow> filesystem \<Rightarrow> filesystem \<times> unit res" where
  "clear_synthetic_proofs F cache_dir fs = stacked_clear_synthetic_proofs F cache_dir fs"

section \<open>What the removal of files keeps\<close>

fun starts_with :: "string \<Rightarrow> string \<Rightarrow> bool" where
  "starts_with [] s = True"
| "starts_with (p # ps) [] = False"
| "starts_with (p # ps) (x # xs) \<longleftrightarrow> p = x \<and> starts_with ps xs"

lemma starts_with_append: "starts_with p (p @ s)"
  by (induction p) simp_all

text \<open>The specification: the tree of the data, the parts of the tree of columns and the labels are gone.\<close>

definition without_stores :: "(string \<Rightarrow> bool) \<Rightarrow> disk \<Rightarrow> disk" where
  "without_stores R d = (\<lambda>f. case f of Data_File id' \<Rightarrow> if R id' then None else d f | _ \<Rightarrow> d f)"

definition cleared :: "disk \<Rightarrow> disk" where
  "cleared = without_stores (\<lambda>id'. id' = ''tree-d'' \<or> starts_with ''tree-c'' id' \<or> starts_with ''layer'' id')"

text \<open>
  What the documentation of the \<open>glob\<close> crate says of a directory whose path has none of its metacharacters: the
  patterns for the stores match the files in this directory whose ids start with the text before the star, each once. This is
  asked for all file systems that have some of the files of the given one.
\<close>

definition glob_plain :: "file_env \<Rightarrow> string \<Rightarrow> filesystem \<Rightarrow> bool" where
  "glob_plain F dir fs0 \<longleftrightarrow> (\<forall>prefix\<in>{cache_key_str CommCTree, LABEL_LAYER_KEY}. \<exists>pattern. fl_data_path_str F dir (prefix @ ''*'') = Some pattern \<and>
     (\<forall>fs. (\<forall>p. path_exists p fs \<longrightarrow> path_exists p fs0) \<longrightarrow>
        (\<exists>ids. fl_glob F fs pattern = Some (map (\<lambda>id'. Inr (dir, Data_File id')) ids) \<and> distinct ids \<and>
           set ids = {id'. starts_with prefix id' \<and> path_exists (dir, Data_File id') fs})))"

lemma remove_stores:
  "\<lbrakk>\<forall>id'\<in>set ids. path_exists (dir, Data_File id') fs \<and> fl_may_remove F (dir, Data_File id'); distinct ids\<rbrakk> \<Longrightarrow>
   remove_paths F (map (\<lambda>id'. Inr (dir, Data_File id')) ids) fs = (fs(dir := without_stores (\<lambda>id'. id' \<in> set ids) (fs dir)), Inr ())"
proof (induction ids arbitrary: fs)
  case Nil
  have "without_stores (\<lambda>id'. False) d = d" for d by (simp add: fun_eq_iff without_stores_def split: file_name.split)
  then show ?case by simp
next
  case (Cons i ids)
  let ?fs = "fs(dir := (fs dir)(Data_File i := None))"
  have "remove_paths F (map (\<lambda>id'. Inr (dir, Data_File id')) ids) ?fs = (?fs(dir := without_stores (\<lambda>id'. id' \<in> set ids) (?fs dir)), Inr ())"
    by (rule Cons.IH) (use Cons.prems in \<open>auto simp: path_exists_def\<close>)
  moreover have "without_stores (\<lambda>id'. id' \<in> set ids) ((fs dir)(Data_File i := None)) = without_stores (\<lambda>id'. id' \<in> set (i # ids)) (fs dir)"
    by (auto simp: fun_eq_iff without_stores_def split: file_name.split)
  ultimately show ?case using Cons.prems by (simp add: remove_file_def) (simp add: fun_upd_def)
qed

lemma remove_glob:
  assumes G: "glob_plain F dir fs0" and prefix: "prefix \<in> {cache_key_str CommCTree, LABEL_LAYER_KEY}" and may: "\<forall>id'. fl_may_remove F (dir, Data_File id')"
    and sub: "\<forall>p. path_exists p fs \<longrightarrow> path_exists p fs0"
  shows "remove_files_with_glob F (fl_data_path_str F dir (prefix @ ''*'')) fs = (fs(dir := without_stores (starts_with prefix) (fs dir)), Inr ())"
proof -
  obtain pattern ids where g: "fl_data_path_str F dir (prefix @ ''*'') = Some pattern" "fl_glob F fs pattern = Some (map (\<lambda>id'. Inr (dir, Data_File id')) ids)"
      "distinct ids" "set ids = {id'. starts_with prefix id' \<and> path_exists (dir, Data_File id') fs}"
    using bspec [OF G [unfolded glob_plain_def] prefix] sub by blast
  have "without_stores (\<lambda>id'. id' \<in> set ids) (fs dir) = without_stores (starts_with prefix) (fs dir)"
    by (auto simp: fun_eq_iff without_stores_def g(4) path_exists_def split: file_name.split)
  then show ?thesis using g may by (simp add: remove_files_with_glob_def remove_stores)
qed

lemma clear_cache_ok:
  assumes G: "glob_plain F dir fs" and may: "\<forall>id'. fl_may_remove F (dir, Data_File id')"
  shows "clear_cache F dir fs = (fs(dir := cleared (fs dir)), Inr ())"
proof -
  define fs1 where "fs1 = fs(dir := (fs dir)(Data_File ''tree-d'' := None))"
  define fs2 where "fs2 = fs1(dir := without_stores (starts_with ''tree-c'') (fs1 dir))"
  have 1: "(if path_exists (dir, Data_File ''tree-d'') fs then remove_file F (dir, Data_File ''tree-d'') fs else (fs, Inr ())) = (fs1, Inr ())"
  proof -
    have "(fs dir)(Data_File ''tree-d'' := None) = fs dir" if "fs dir (Data_File ''tree-d'') = None" using that by (simp add: fun_eq_iff)
    then show ?thesis using may by (simp add: remove_file_def path_exists_def fs1_def)
  qed
  have sub: "\<forall>p. path_exists p fs1 \<longrightarrow> path_exists p fs" "\<forall>p. path_exists p fs2 \<longrightarrow> path_exists p fs"
    by (auto simp: path_exists_def fs1_def fs2_def without_stores_def split: if_splits file_name.splits)
  have 2: "remove_files_with_glob F (fl_data_path_str F dir (cache_key_str CommCTree @ ''*'')) fs1 = (fs2, Inr ())"
    unfolding fs2_def by (subst remove_glob [OF G _ may sub(1)]) simp_all
  have 3: "remove_files_with_glob F (fl_data_path_str F dir (LABEL_LAYER_KEY @ ''*'')) fs2 = (fs2(dir := without_stores (starts_with LABEL_LAYER_KEY) (fs2 dir)), Inr ())"
    by (rule remove_glob [OF G _ may sub(2)]) simp
  have "fs2(dir := without_stores (starts_with LABEL_LAYER_KEY) (fs2 dir)) = fs(dir := cleared (fs dir))"
    by (auto simp: fun_eq_iff fs2_def fs1_def cleared_def without_stores_def LABEL_LAYER_KEY_def split: file_name.split)
  then show ?thesis using 1 2 3 by (simp add: clear_cache_def clear_cache_dir_def)
qed

lemma cleared_kept:
  "id' \<noteq> ''tree-d'' \<Longrightarrow> \<not> starts_with ''tree-c'' id' \<Longrightarrow> \<not> starts_with ''layer'' id' \<Longrightarrow> cleared d (Data_File id') = d (Data_File id')"
  by (simp add: cleared_def without_stores_def)

lemma create_tree_files:
  assumes "\<And>c. c \<in> set configs \<Longrightarrow> file_of c d = file_of c d'"
  shows "create_tree W T A len configs rc d = create_tree W T A len configs rc d'"
proof -
  have o: "open_store W A len rc d (i, c) = open_store W A len rc d' (i, c)" if "c \<in> set configs" for i c
    using assms [OF that] by (simp add: open_store_def)
  have "collectR (\<lambda>ic. bindR (open_store W A len rc d ic) (\<lambda>store. base_from_data_store W A store n)) (enumerate 0 configs) =
    collectR (\<lambda>ic. bindR (open_store W A len rc d' ic) (\<lambda>store. base_from_data_store W A store n)) (enumerate 0 configs)" for n
    by (rule collectR_cong) (auto simp: in_set_enumerate_eq o)
  moreover have "length configs = 1 \<Longrightarrow> configs ! 0 \<in> set configs" by simp
  ultimately show ?thesis by (simp add: create_tree_def o cong: if_cong)
qed

lemma merkle_tree_kept:
  "merkle_tree_of W T A rows discard size_of (r\<lparr>ri_cache_dir := cleared (ri_cache_dir r)\<rparr>) = merkle_tree_of W T A rows discard size_of r"
proof -
  have f: "file_of c (cleared d) = file_of c d" if c: "c \<in> set (split_config cfg m)" "sc_id cfg = ''tree-r-last''" for c cfg m d
  proof -
    obtain rest where "sc_id c = ''tree-r-last'' @ rest" using split_config_prefix [OF c(1)] c(2) by auto
    then show ?thesis by (simp add: file_of_def cleared_kept)
  qed
  have t: "create_tree W T A len (split_config cfg m) rc (cleared d) = create_tree W T A len (split_config cfg m) rc d"
    if "sc_id cfg = ''tree-r-last''" for len cfg m rc d
    by (rule create_tree_files) (rule f [OF _ that])
  have s: "split_config_and_replica cfg rep n m = (split_config cfg m, snd (split_config_and_replica cfg rep n m))" for cfg rep n m
    by (metis prod.collapse split_config_facts(2))
  show ?thesis unfolding merkle_tree_of_def by (subst (1 2) s) (simp add: t Let_def)
qed

text \<open>Replicas with the paths of their cache directories, in a file system.\<close>

definition located :: "filesystem \<Rightarrow> (u64 \<times> string \<times> replica_info) list \<Rightarrow> (u64 \<times> replica_info) list" where
  "located fs rs = map (\<lambda>(id', dir, r). (id', r\<lparr>ri_cache_dir := fs dir\<rparr>)) rs"

lemma tree_located:
  "merkle_tree_of W T A rows discard size_of (r\<lparr>ri_cache_dir := cleared d\<rparr>) = merkle_tree_of W T A rows discard size_of (r\<lparr>ri_cache_dir := d\<rparr>)"
  using merkle_tree_kept [of W T A rows discard size_of "r\<lparr>ri_cache_dir := d\<rparr>"] by simp

lemma trees_kept:
  "collectR (\<lambda>(sector_id, replica). api_merkle_tree A n replica) (located (fs(dir := cleared (fs dir))) rs) =
   collectR (\<lambda>(sector_id, replica). api_merkle_tree A n replica) (located fs rs)"
  unfolding located_def collectR_map by (rule collectR_cong) (auto simp: api_merkle_tree_def tree_located)

lemma sectors_kept:
  "collectR (sector_of_replica A) (zip (located fs' rs) trees) = collectR (sector_of_replica A) (zip (located fs rs) trees)"
  "collectR (sector_of_replica A) (concat (replicate k (zip (located fs' rs) trees))) =
     collectR (sector_of_replica A) (concat (replicate k (zip (located fs rs) trees)))"
proof -
  let ?f = "\<lambda>fs (x, t). (case x of (id', dir, r) \<Rightarrow> (id', r\<lparr>ri_cache_dir := fs dir\<rparr>), t)"
  have z: "zip (located fs rs) trees = map (?f fs) (zip rs trees)" for fs by (simp add: located_def zip_map1)
  have c: "concat (replicate k (map (?f fs) xs)) = map (?f fs) (concat (replicate k xs))" for fs xs by (induction k) simp_all
  have s: "sector_of_replica A (?f fs' y) = sector_of_replica A (?f fs y)" for y
    by (cases y) (auto simp: sector_of_replica_def safe_comm_r_def safe_comm_c_def safe_comm_r_last_def)
  show "collectR (sector_of_replica A) (zip (located fs' rs) trees) = collectR (sector_of_replica A) (zip (located fs rs) trees)"
    "collectR (sector_of_replica A) (concat (replicate k (zip (located fs' rs) trees))) =
     collectR (sector_of_replica A) (concat (replicate k (zip (located fs rs) trees)))"
    unfolding z c collectR_map comp_def s by (rule refl)+
qed

lemma length_located [simp]: "length (located fs rs) = length rs"
  by (simp add: located_def)

section \<open>Properties\<close>

text \<open>
  C19. Clearing the cache directory of a sector, when its path has no metacharacters of \<open>glob\<close> and its files
  may be removed: it succeeds, the labels of all layers, the tree of the columns and that of the data are gone, other directories are
  as they were, and all that proofs of spacetime need is kept: the private replica can still be opened, and window and winning proofs over
  sectors in any directories, this one included, are what they were before, errors included.
\<close>

theorem clear_cache_keeps_post:
  assumes "glob_plain F dir fs" and "\<forall>id'. fl_may_remove F (dir, Data_File id')"
  shows "\<exists>fs'. clear_cache F dir fs = (fs', Inr ()) \<and> (\<forall>dir'. dir' \<noteq> dir \<longrightarrow> fs' dir' = fs dir') \<and>
   (\<forall>l. fs' dir (Data_File (label_layer l)) = None) \<and> fs' dir (Data_File (cache_key_str CommDTree)) = None \<and>
   (\<forall>part. fs' dir (Data_File (cache_key_str CommCTree @ part)) = None) \<and>
   generate_window_post A groth cfg randomness (located fs' rs) prover_id = generate_window_post A groth cfg randomness (located fs rs) prover_id \<and>
   generate_winning_post A groth cfg randomness (located fs' rs) prover_id = generate_winning_post A groth cfg randomness (located fs rs) prover_id \<and>
   private_replica_info_new deserialize replica comm_r (fs' dir) =
     map_sum id (\<lambda>r. r\<lparr>ri_cache_dir := fs' dir\<rparr>) (private_replica_info_new deserialize replica comm_r (fs dir))"
proof (intro exI conjI)
  let ?fs = "fs(dir := cleared (fs dir))"
  show "clear_cache F dir fs = (?fs, Inr ())" by (rule clear_cache_ok [OF assms])
  have "starts_with ''layer'' (label_layer l)" for l using starts_with_append [of "''layer''"] by (simp add: label_layer_def LABEL_LAYER_KEY_def)
  then show "\<forall>l. ?fs dir (Data_File (label_layer l)) = None" by (simp add: cleared_def without_stores_def)
  show "\<forall>part. ?fs dir (Data_File (cache_key_str CommCTree @ part)) = None"
    using starts_with_append [of "''tree-c''"] by (simp add: cleared_def without_stores_def)
  have "get_p_aux deserialize (cleared d) = get_p_aux deserialize d" for d by (simp add: get_p_aux_def cleared_kept)
  then show "private_replica_info_new deserialize replica comm_r (?fs dir) =
      map_sum id (\<lambda>r. r\<lparr>ri_cache_dir := ?fs dir\<rparr>) (private_replica_info_new deserialize replica comm_r (fs dir))"
    by (cases "get_p_aux deserialize (fs dir)") (simp_all add: private_replica_info_new_def ensure_def split: option.splits)
  show "generate_window_post A groth cfg randomness (located ?fs rs) prover_id = generate_window_post A groth cfg randomness (located fs rs) prover_id"
    "generate_winning_post A groth cfg randomness (located ?fs rs) prover_id = generate_winning_post A groth cfg randomness (located fs rs) prover_id"
    by (simp_all only: generate_window_post_def generate_winning_post_def length_located trees_kept sectors_kept [where fs' = ?fs and fs = fs])
qed (simp_all add: cleared_def without_stores_def)

text \<open>A file system with one cache directory, and a \<open>glob\<close> for its two patterns.\<close>

definition toy_path_str :: "string \<Rightarrow> string \<Rightarrow> string" where
  "toy_path_str dir id' = dir @ ''/sc-02-data-'' @ id' @ ''.dat''"

definition toy_files :: filesystem where
  "toy_files = (\<lambda>_ _. None)(''c'' := (\<lambda>_. None)(Data_File ''layer-1'' \<mapsto> [1], Data_File ''layer-2'' \<mapsto> [2], Data_File ''tree-c-0'' \<mapsto> [3],
     Data_File ''tree-d'' \<mapsto> [4], Data_File ''tree-r-last-0'' \<mapsto> [5], Named_File ''layer.log'' \<mapsto> [6]))"

definition toy_file_env :: file_env where
  "toy_file_env = \<lparr>fl_data_path_str = (\<lambda>dir id'. Some (toy_path_str dir id')),
     fl_glob = (\<lambda>fs pattern. Some (map (\<lambda>id'. Inr (''c'', Data_File id')) (filter (\<lambda>id'. path_exists (''c'', Data_File id') fs)
       (if pattern = toy_path_str ''c'' ''layer*'' then [''layer-1'', ''layer-2''] else [''tree-c-0''])))),
     fl_may_remove = (\<lambda>_. True)\<rparr>"

lemma toy_glob_plain: "glob_plain toy_file_env ''c'' toy_files"
proof -
  have d: "id' \<in> {''layer-1'', ''layer-2'', ''tree-c-0'', ''tree-d'', ''tree-r-last-0''}" if "path_exists (''c'', Data_File id') toy_files" for id'
    using that by (auto simp: path_exists_def toy_files_def split: if_splits)
  have k: "starts_with ''tree-c'' ''tree-c-0''" "\<not> starts_with ''tree-c'' ''layer-1''" "\<not> starts_with ''tree-c'' ''layer-2''" "\<not> starts_with ''tree-c'' ''tree-d''"
      "\<not> starts_with ''tree-c'' ''tree-r-last-0''" "starts_with ''layer'' ''layer-1''" "starts_with ''layer'' ''layer-2''" "\<not> starts_with ''layer'' ''tree-c-0''"
      "\<not> starts_with ''layer'' ''tree-d''" "\<not> starts_with ''layer'' ''tree-r-last-0''"
      "toy_path_str ''c'' (''tree-c'' @ ''*'') \<noteq> toy_path_str ''c'' ''layer*''" "toy_path_str ''c'' (''layer'' @ ''*'') = toy_path_str ''c'' ''layer*''" by code_simp+
  have s: "starts_with ''tree-c'' id' \<and> path_exists (''c'', Data_File id') fs \<longleftrightarrow> path_exists (''c'', Data_File id') fs \<and> id' \<in> set [''tree-c-0'']"
      "starts_with ''layer'' id' \<and> path_exists (''c'', Data_File id') fs \<longleftrightarrow> path_exists (''c'', Data_File id') fs \<and> id' \<in> set [''layer-1'', ''layer-2'']"
    if "\<forall>p. path_exists p fs \<longrightarrow> path_exists p toy_files" for fs id'
  proof -
    have *: "starts_with ''tree-c'' id' = (id' \<in> set [''tree-c-0''])" "starts_with ''layer'' id' = (id' \<in> set [''layer-1'', ''layer-2''])"
      if e: "path_exists (''c'', Data_File id') fs"
    proof -
      have "path_exists (''c'', Data_File id') toy_files" by (rule mp [OF spec [OF \<open>\<forall>p. path_exists p fs \<longrightarrow> path_exists p toy_files\<close>] e])
      from d [OF this] show "starts_with ''tree-c'' id' = (id' \<in> set [''tree-c-0''])" "starts_with ''layer'' id' = (id' \<in> set [''layer-1'', ''layer-2''])"
        unfolding insert_iff empty_iff simp_thms by (elim disjE; simp add: k)+
    qed
    show "starts_with ''tree-c'' id' \<and> path_exists (''c'', Data_File id') fs \<longleftrightarrow> path_exists (''c'', Data_File id') fs \<and> id' \<in> set [''tree-c-0'']"
      by (cases "path_exists (''c'', Data_File id') fs") (simp_all only: * simp_thms)
    show "starts_with ''layer'' id' \<and> path_exists (''c'', Data_File id') fs \<longleftrightarrow> path_exists (''c'', Data_File id') fs \<and> id' \<in> set [''layer-1'', ''layer-2'']"
      by (cases "path_exists (''c'', Data_File id') fs") (simp_all only: * simp_thms)
  qed
  have g: "\<exists>ids. fl_glob toy_file_env fs (toy_path_str ''c'' (prefix @ ''*'')) = Some (map (\<lambda>id'. Inr (''c'', Data_File id')) ids) \<and> distinct ids \<and>
        set ids = {id'. starts_with prefix id' \<and> path_exists (''c'', Data_File id') fs}"
    if "prefix = ''tree-c'' \<or> prefix = ''layer''" "\<forall>p. path_exists p fs \<longrightarrow> path_exists p toy_files" for prefix fs
    using that(1) s [OF that(2)]
    by (intro exI [of _ "filter (\<lambda>id'. path_exists (''c'', Data_File id') fs) (if prefix = ''layer'' then [''layer-1'', ''layer-2''] else [''tree-c-0''])"])
      (elim disjE; simp only: toy_file_env_def file_env.simps k if_True if_False set_filter; auto)
  show ?thesis
    unfolding glob_plain_def cache_key_str.simps LABEL_LAYER_KEY_def
  proof (rule ballI, rule exI, rule conjI)
    fix prefix assume prefix: "prefix \<in> {''tree-c'', ''layer''}"
    show "fl_data_path_str toy_file_env ''c'' (prefix @ ''*'') = Some (toy_path_str ''c'' (prefix @ ''*''))" by (simp add: toy_file_env_def)
    have "prefix = ''tree-c'' \<or> prefix = ''layer''" using prefix by (simp only: insert_iff empty_iff simp_thms)
    from g [OF this] show "\<forall>fs. (\<forall>p. path_exists p fs \<longrightarrow> path_exists p toy_files) \<longrightarrow>
        (\<exists>ids. fl_glob toy_file_env fs (toy_path_str ''c'' (prefix @ ''*'')) = Some (map (\<lambda>id'. Inr (''c'', Data_File id')) ids) \<and> distinct ids \<and>
          set ids = {id'. starts_with prefix id' \<and> path_exists (''c'', Data_File id') fs})" by (intro allI impI)
  qed
qed

theorem clear_cache_keeps_post_witness:
  "\<exists>fs'. clear_cache toy_file_env ''c'' toy_files = (fs', Inr ()) \<and> (\<forall>l. fs' ''c'' (Data_File (label_layer l)) = None) \<and>
    (\<forall>groth cfg randomness rs prover_id.
       generate_window_post toy_api groth cfg randomness (located fs' rs) prover_id = generate_window_post toy_api groth cfg randomness (located toy_files rs) prover_id)"
proof -
  have m: "\<forall>id'. fl_may_remove toy_file_env (''c'', Data_File id')" by (simp add: toy_file_env_def)
  note c = clear_cache_keeps_post [OF toy_glob_plain m, of toy_api]
  obtain fs' where fs': "clear_cache toy_file_env ''c'' toy_files = (fs', Inr ())" by (metis c)
  show ?thesis using c unfolding fs' by blast
qed
end
