(* ===== verification/Seal_Complete.thy ===== *)
theory Seal_Complete
  imports Aggregation Unseal_Api "HOL-Library.Countable"
begin

text \<open>
  What is proved of the sealing and unsealing of sectors through the API: the phases succeed one after another and
  hand over files and auxiliary data, and ranges of the sector are read back from the replica.
\<close>

section \<open>The files of the cache directory\<close>

text \<open>The first phase changes no files but those of the labels.\<close>

lemma encoding_frame:
  "encoding_loop E rid sts (d, pc, a, b) = Some (Inr (d', pc')) \<Longrightarrow> \<forall>(l, st)\<in>set sts. ls_id st \<noteq> x \<Longrightarrow> d' (Data_File x) = d (Data_File x)"
proof (induction E rid sts "(d, pc, a, b)" arbitrary: d pc a b rule: encoding_loop.induct)
  case (2 E rid layer state rest d pc a b)
  show ?case
  proof (cases "ls_generated state")
    case True
    then show ?thesis using 2 by (cases "read_layer (ls_id state) d b") auto
  next
    case False
    then obtain c ls where "label_nodes E rid layer b [0..<graph_size (ge_graph E)] (Some (pcache_reset pc)) a = Some (Inr (c, ls))"
      using 2(3) by (auto simp: bindO_def split: option.splits sum.splits)
    then have "d' (Data_File x) = write_layer ls (ls_id state) d (Data_File x)" using 2 False by auto
    then show ?thesis using 2(4) by (auto simp: write_layer_def)
  qed
qed simp

lemma replicate_phase1_frame:
  assumes "replicate_phase1 C pp rid d = Some (Inr (d1, labels))" and x: "\<And>l. label_layer l \<noteq> x"
  shows "d1 (Data_File x) = d (Data_File x)"
proof -
  let ?E = "ppr_graph pp" and ?ls = "[1..<ppr_num_layers pp + 1]"
  obtain d0 where p: "prepare_loop ?E ?ls d = (d0, map (\<lambda>l. \<lparr>ls_id = label_layer l, ls_generated = is_layer_written ?E (label_layer l) d\<rparr>) ?ls)"
      "d0 (Data_File x) = d (Data_File x)" using prepare_loop_eq [of ?E ?ls d] by blast
  define sts where "sts = map (\<lambda>l. \<lparr>ls_id = label_layer l, ls_generated = is_layer_written ?E (label_layer l) d\<rparr>) ?ls"
  have "\<forall>st\<in>set sts. ls_id st \<noteq> x" using x by (auto simp: sts_def)
  then have s: "\<forall>(l, st)\<in>set (zip ?ls sts). ls_id st \<noteq> x" by (auto dest: set_zip_rightD)
  obtain pc fl where g: "graph_parent_cache C ?E = Inr (pc, fl)"
    using assms(1) by (cases "graph_parent_cache C ?E") (auto simp: replicate_phase1_def generate_labels_for_encoding_def)
  let ?loop = "encoding_loop ?E rid (zip ?ls sts) (d0, pc, replicate (graph_size (ge_graph ?E) * NODE_SIZE) 0, replicate (graph_size (ge_graph ?E) * NODE_SIZE) 0)"
  have "bindO (bindO ?loop (\<lambda>(d2, cache'). Some (Inr (d2, cache', map ls_id sts, sts)))) (\<lambda>(d', _, ids, _). Some (Inr (d', map (label_config ?E) ids))) =
      Some (Inr (d1, labels))"
    using assms(1) g p(1) by (simp add: replicate_phase1_def generate_labels_for_encoding_def create_labels_for_encoding_def prepare_layers_def sts_def Let_def)
  then obtain pc' where e: "?loop = Some (Inr (d1, pc'))" by (auto simp: bindO_def split: option.splits sum.splits)
  show ?thesis using encoding_frame [OF e s] p(2) by simp
qed

lemma commitment_bytes: "length (pq_of_fr P x) = 32 \<Longrightarrow> commitment_from_fr P x = pq_of_fr P x"
proof -
  have "foldl (\<lambda>c (i, b). c[i := b]) (us @ vs) (enumerate (length us) bs) = us @ bs" if "length vs = length bs" for us vs bs :: "u8 list"
    using that
  proof (induction bs arbitrary: us vs)
    case (Cons b bs)
    then obtain v ws where "vs = v # ws" by (cases vs) auto
    then show ?case using Cons.IH [of ws "us @ [b]"] Cons.prems by simp
  qed simp
  from this [of "replicate 32 0" "pq_of_fr P x" "[]"] show "length (pq_of_fr P x) = 32 \<Longrightarrow> commitment_from_fr P x = pq_of_fr P x"
    by (simp add: commitment_from_fr_def)
qed

text \<open>A commitment that is the encoding of a field element.\<close>

definition canonical :: "'f porep_prims \<Rightarrow> u8 list \<Rightarrow> bool" where
  "canonical P comm \<longleftrightarrow> (\<exists>x. comm = pq_of_fr P x)"

lemma canonical_facts:
  assumes "fr_ok P" and "canonical P comm"
  shows "\<exists>x. into_fr P comm = Inr x \<and> commitment_from_fr P x = comm" "as_safe_commitment P comm = Inr comm" "length comm = 32" "domain_from_bytes comm = Inr comm"
proof -
  obtain x where x: "comm = pq_of_fr P x" using assms(2) by (auto simp: canonical_def)
  show l: "length comm = 32" using assms(1) x by (simp add: fr_ok_def)
  show "\<exists>x. into_fr P comm = Inr x \<and> commitment_from_fr P x = comm" using into_of_fr [OF assms(1), of x] commitment_bytes [of P x] x l by (intro exI [of _ x]) simp
  show "as_safe_commitment P comm = Inr comm" using safe_commitment [OF assms(1)] x by simp
  show "domain_from_bytes comm = Inr comm" using l by (simp add: domain_from_bytes_def)
qed

section \<open>Both phases of the pre-commit\<close>

text \<open>
  The setting: the configuration gives parameters for sectors of \<open>n\<close> nodes; serialized auxiliary data is read back; a data
  tree opened from its store has the length that the crate computes; and commitments of replicas are canonical.
\<close>

definition seal_setting ::
  "('f::field, 't, 'p, 'k, 'g, 'a) seal_env \<Rightarrow> porep_config \<Rightarrow> stacked_compound \<Rightarrow> nat \<Rightarrow> nat \<Rightarrow> nat \<Rightarrow> bool" where
  "seal_setting S cfg cp n k kd \<longleftrightarrow> (let X = se_drg S; P = de_prims X; T = de_tree_d X; pp = kc_vanilla cp in
     stacked_params S cfg = Some (Inr cp) \<and> sealing X (se_cache S) (ppr_graph pp) n k kd \<and> 2 \<le> n \<and>
     (ppr_num_layers pp = 2 \<or> ppr_num_layers pp = 11) \<and> porep_config.pc_sector_size cfg = NODE_SIZE * n \<and>
     (\<forall>p. length (pa_comm_c p) = 32 \<longrightarrow> length (pa_comm_r_last p) = 32 \<longrightarrow> (\<exists>b. se_write_p_aux S p = Inr b \<and> se_read_p_aux S b = Inr p)) \<and>
     (\<forall>t. \<exists>b. se_write_t_aux S t = Inr b \<and> se_read_t_aux S b = Inr t) \<and>
     (\<forall>len f s t. new_from_disk T len 2 (Some f) = Inr s \<longrightarrow> from_data_store T binary_arities s n None = Inr t \<longrightarrow>
        get_merkle_tree_len T n 2 = Inr (tree_len T t) \<and> Suc (tree_len T t) = 2 * n) \<and>
     (\<forall>a b. canonical P (pq_hash2 P a b)))"

lemma length_replica_id: "pq_sha256 (de_prims (se_drg S)) = fips_sha256 \<Longrightarrow> length (sector_replica_id S cfg prover_id sector_id ticket comm_d) = 32"
  by (simp add: sector_replica_id_def generate_replica_id_def bytes_into_fr_repr_safe_def)

text \<open>The data tree: written in the first phase, opened again in the second.\<close>

lemma sector_data_tree_ok:
  assumes C: "crate_ok (de_tree_d X) (de_hash_d X) binary_arities kd len" and n: "n = 2 ^ kd" and F: "fr_ok (de_prims X)"
    and N: "nodes_ok n nodes" and root: "tree_root (de_hash_d X) (levels binary_arities kd) nodes = Inr comm_d" "canonical (de_prims X) comm_d"
    and X: "X = se_drg S" and size: "porep_config.pc_sector_size cfg = NODE_SIZE * n"
  obtains s where "sector_data_tree S cfg n (concat nodes) d =
      Inr (d(Data_File ''tree-d'' \<mapsto> s), \<lparr>sc_id = ''tree-d'', sc_size = Some len, sc_rows_to_discard = 0\<rparr>, comm_d)"
    "stored (de_tree_d X) binary_arities [\<lparr>sc_id = ''tree-d'', sc_size = None, sc_rows_to_discard = 0\<rparr>] [nodes] [s]"
proof -
  let ?T = "de_tree_d X" and ?c = "\<lparr>sc_id = ''tree-d'', sc_size = None, sc_rows_to_discard = 0\<rparr>"
  have b: "base_arity binary_arities = 2" "sub_tree_arity binary_arities = 0" "base_only binary_arities = binary_arities" "tree_count binary_arities = 1"
    "arities_ok binary_arities" by (simp_all add: binary_arities_def base_only_def tree_count_def arities_ok_def)
  note crate = crate_okD(1-4) [OF C, unfolded b(1) n [symmetric]]
  have N': "nodes_ok (base_arity binary_arities ^ kd) nodes" using N n b by simp
  obtain s t where st: "from_par_iter_with_config ?T binary_arities ?c nodes = Inr (s, t)"
    using crate_okD(5) [OF C N', of ?c] b(3) by (auto simp: is_ok_iff)
  have t: "tree_of ?T (de_hash_d X) binary_arities kd False nodes t" "tree_len ?T t = len"
    using crate_okD(7) [OF C b(2) N', unfolded b(3), OF st] by simp_all
  have l: "length (concat nodes) = NODE_SIZE * n" using N length_concat_nodes [of nodes 32] by (auto simp: nodes_ok_def NODE_SIZE_def)
  have leaves: "collectR (\<lambda>i. expectR ''data_at_node math failed'' (data_at_node (concat nodes) i)) [0..<n] = Inr nodes"
  proof -
    have "collectR (\<lambda>i. expectR ''data_at_node math failed'' (data_at_node (concat nodes) i)) [0..<n] = Inr (map ((!) nodes) [0..<n])"
      by (rule collectR_all_ok) (simp add: data_at_concat [OF N])
    then show ?thesis using N map_nth [of nodes] by (simp add: nodes_ok_def)
  qed
  obtain x where x: "into_fr (de_prims X) comm_d = Inr x" "commitment_from_fr (de_prims X) x = comm_d"
    using canonical_facts(1) [OF F root(2)] by blast
  have r: "tree_root_of ?T t = comm_d" using t(1) root(1) by (simp add: tree_of_def)
  have "create_base_merkle_tree ?T binary_arities ?c n (concat nodes) d = Inr (d(Data_File ''tree-d'' \<mapsto> s), t)"
    using crate l leaves st b by (simp add: create_base_merkle_tree_def)
  then have "sector_data_tree S cfg n (concat nodes) d =
      Inr (d(Data_File ''tree-d'' \<mapsto> s), \<lparr>sc_id = ''tree-d'', sc_size = Some len, sc_rows_to_discard = 0\<rparr>, comm_d)"
    using X size crate x r t(2) base_tree_count_ok [OF b(5)] b
    by (simp add: sector_data_tree_def get_base_tree_size_def get_base_tree_leafs_def udiv_def NODE_SIZE_def Let_def)
  moreover have "stored ?T binary_arities [?c] [nodes] [s]" using st b(3) by (auto simp: stored_def)
  ultimately show thesis by (rule that)
qed

lemma load_data_tree_ok:
  assumes C: "crate_ok (de_tree_d X) (de_hash_d X) binary_arities kd len" and n: "n = 2 ^ kd" and N: "nodes_ok n nodes"
    and st: "stored (de_tree_d X) binary_arities [c] [nodes] [s]" "sc_rows_to_discard c = 0" "d (Data_File ''tree-d'') = Some s"
    and X: "X = se_drg S" and S: "seal_setting S cfg cp n k kd" and cfg: "sc_id config = ''tree-d''"
  obtains t where "load_data_tree S cfg config d = Inr t" "data_tree_ok X n kd nodes d t"
proof -
  let ?T = "de_tree_d X"
  have b: "base_arity binary_arities = 2" "sub_tree_arity binary_arities = 0" "top_tree_arity binary_arities = 0" "tree_count binary_arities = 1"
    "arities_ok binary_arities" by (simp_all add: binary_arities_def tree_count_def arities_ok_def)
  note crate = crate_okD(3,4) [OF C, unfolded b(1) n [symmetric]]
  have "\<exists>t. from_stores ?T binary_arities len n [c] [s] None = Inr t \<and> tree_of ?T (de_hash_d X) binary_arities kd False nodes t"
    using crate_okD(6) [OF C, of "[nodes]" "[c]" "[s]" None] st(1,2) N n b by (simp add: readable_def)
  then obtain s' t where t: "new_from_disk ?T len 2 (Some s) = Inr s'" "from_data_store ?T binary_arities s' n None = Inr t"
      "tree_of ?T (de_hash_d X) binary_arities kd False nodes t"
    using b by (auto simp: from_stores_def bindR_eq_Inr)
  have len: "get_merkle_tree_len ?T n 2 = Inr (tree_len ?T t)" "Suc (tree_len ?T t) = 2 * n"
    using S t(1,2) X unfolding seal_setting_def Let_def by blast+
  have size: "porep_config.pc_sector_size cfg = NODE_SIZE * n" using S by (simp add: seal_setting_def Let_def)
  have "load_data_tree S cfg config d = Inr t"
    using X size crate t(1,2) st(3) cfg base_tree_count_ok [OF b(5)] b
    by (simp add: load_data_tree_def get_base_tree_size_def get_base_tree_leafs_def udiv_def NODE_SIZE_def file_of_def Let_def)
  moreover have "data_tree_ok X n kd nodes d t" using t(3) len st unfolding data_tree_ok_def by blast
  ultimately show thesis by (rule that)
qed

text \<open>Both phases on a sector of \<open>n\<close> nodes: what they return and leave on the disk.\<close>

definition pre_committed ::
  "('f::field, 't, 'p, 'k, 'g, 'a) seal_env \<Rightarrow> stacked_compound \<Rightarrow> nat \<Rightarrow> nat \<Rightarrow> nat \<Rightarrow> u8 list list \<Rightarrow> u8 list \<Rightarrow> u8 list \<Rightarrow> disk \<Rightarrow> seal_pre_commit \<Rightarrow> bool" where
  "pre_committed S cp n k kd nodes rid replica d pre \<longleftrightarrow> (let X = se_drg S; pp = kc_vanilla cp in
     \<exists>par enc tau p_aux t_aux tc pc fl. replica = concat (map enc [0..<n]) \<and>
     proving X (ppr_graph pp) par rid n (ppr_num_layers pp) k kd nodes enc tau p_aux tc \<and>
     cache_ok par n pc \<and> graph_parent_cache (se_cache S) (ppr_graph pp) = Inr (pc, fl) \<and>
     (\<forall>i<n. encode (de_prims X) (label_spec par rid (ppr_num_layers pp) i) (nodes ! i) = Inr (enc i) \<and> length (enc i) = 32) \<and>
     get_p_aux (se_read_p_aux S) d = Inr p_aux \<and> get_t_aux (se_read_t_aux S) d = Inr t_aux \<and>
     temporary_aux_cache_new X t_aux replica False d = Inr tc \<and>
     so_comm_d pre = tau_comm_d tau \<and> so_comm_r pre = tau_comm_r tau)"

lemma pre_commit_ok:
  assumes S: "seal_setting S cfg cp n k kd" and N: "nodes_ok n nodes" and fr: "\<forall>x\<in>set nodes. is_ok (into_fr (de_prims (se_drg S)) x)"
    and root: "tree_root (de_hash_d (se_drg S)) (levels binary_arities kd) nodes = Inr comm_d" "canonical (de_prims (se_drg S)) comm_d"
    and pieces: "\<forall>cm. verify_pieces fips_sha256 cm comm_d infos (porep_config.pc_sector_size cfg) = Some (Inr (cm, True))"
    and fresh: "\<forall>l. d (Data_File (label_layer l)) = None"
  obtains d1 p1 replica d2 pre where
    "seal_pre_commit_phase1 S cfg (In_File (Some (concat nodes))) (Some out_file) prover_id sector_id ticket infos cm d =
       Some (Inr (concat nodes, cm, d1, p1))" "s1_comm_d p1 = comm_d"
    "seal_pre_commit_phase2 S cfg p1 (Some (concat nodes)) d1 = Some (Inr (replica, d2, pre))" "so_comm_d pre = comm_d"
    "canonical (de_prims (se_drg S)) (so_comm_r pre)"
    "pre_committed S cp n k kd nodes (sector_replica_id S cfg prover_id sector_id ticket comm_d) replica d2 pre"
proof -
  define X where "X = se_drg S"
  define pp where "pp = kc_vanilla cp"
  let ?E = "ppr_graph pp" and ?layers = "ppr_num_layers pp" and ?rid = "sector_replica_id S cfg prover_id sector_id ticket comm_d"
  have s: "stacked_params S cfg = Some (Inr cp)" "sealing X (se_cache S) ?E n k kd" "2 \<le> n" "?layers = 2 \<or> ?layers = 11"
      "porep_config.pc_sector_size cfg = NODE_SIZE * n"
    and aux: "\<And>p. length (pa_comm_c p) = 32 \<Longrightarrow> length (pa_comm_r_last p) = 32 \<Longrightarrow> \<exists>b. se_write_p_aux S p = Inr b \<and> se_read_p_aux S b = Inr p"
      "\<And>t. \<exists>b. se_write_t_aux S t = Inr b \<and> se_read_t_aux S b = Inr t"
    and canon: "\<And>a b. canonical (de_prims X) (pq_hash2 (de_prims X) a b)"
    using S unfolding seal_setting_def X_def pp_def Let_def by blast+
  have D: "drg_ok X n k kd" using s(2) by (simp add: sealing_def)
  then have F: "fr_ok (de_prims X)" and sha: "pq_sha256 (de_prims X) = fips_sha256" and n: "n = 2 ^ kd" by (simp_all add: drg_ok_def)
  obtain len where C: "crate_ok (de_tree_d X) (de_hash_d X) binary_arities kd len" using D by (auto simp: drg_ok_def)
  have rid: "length ?rid = 32" by (rule length_replica_id) (use sha in \<open>simp add: X_def\<close>)
  obtain par pc fl where f: "topological par n" "\<forall>i<n. env_parents ?E i = Some (Inr (par i))" "cache_ok par n pc"
    "graph_ok (ge_graph ?E) n" "graph_parent_cache (se_cache S) ?E = Inr (pc, fl)" "n < 2 ^ 32" by (rule sealing_facts [OF s(2)])
  have sz: "graph_size (ge_graph ?E) = n" using f(4) by (simp add: graph_ok_def)
  have ln: "length (concat nodes) = NODE_SIZE * n" using N length_concat_nodes [of nodes 32] by (auto simp: nodes_ok_def NODE_SIZE_def)
  obtain st where tree: "sector_data_tree S cfg n (concat nodes) d =
      Inr (d(Data_File ''tree-d'' \<mapsto> st), \<lparr>sc_id = ''tree-d'', sc_size = Some len, sc_rows_to_discard = 0\<rparr>, comm_d)"
    "stored (de_tree_d X) binary_arities [\<lparr>sc_id = ''tree-d'', sc_size = None, sc_rows_to_discard = 0\<rparr>] [nodes] [st]"
    by (rule sector_data_tree_ok [OF C n F N root [folded X_def] X_def s(5)])
  let ?d = "d(Data_File ''tree-d'' \<mapsto> st)"
  have nl: "label_layer l \<noteq> ''tree-d''" for l by (simp add: label_layer_def LABEL_LAYER_KEY_def)
  then have fresh': "\<forall>l. ?d (Data_File (label_layer l)) = None" using fresh by simp
  obtain d1 where d1: "replicate_phase1 (se_cache S) pp ?rid ?d = Some (Inr (d1, map (label_config ?E) (map label_layer [1..<?layers + 1])))"
      "\<forall>l\<in>{1..?layers}. d1 (Data_File (label_layer l)) = Some (layer_bytes par ?rid n l)"
    using phase1_ok [OF f(1,6,4,3,5) rid refl refl fresh'] by blast
  have d1s: "d1 (Data_File ''tree-d'') = Some st" using replicate_phase1_frame [OF d1(1) nl] by simp
  define p1 where "p1 = \<lparr>s1_labels = map (label_config ?E) (map label_layer [1..<?layers + 1]),
      s1_config = \<lparr>sc_id = ''tree-d'', sc_size = Some len, sc_rows_to_discard = 0\<rparr>, s1_comm_d = comm_d\<rparr>"
  have p1: "seal_pre_commit_phase1 S cfg (In_File (Some (concat nodes))) (Some out_file) prover_id sector_id ticket infos cm d =
       Some (Inr (concat nodes, cm, d1, p1))"
    using ln s(1,5) sz tree(1) pieces sha d1(1)
    by (simp add: seal_pre_commit_phase1_def copy_input_def open_file_def set_len_def pp_def X_def p1_def Let_def del: upt_Suc map_map)
  have c: "sc_rows_to_discard \<lparr>sc_id = ''tree-d'', sc_size = None, sc_rows_to_discard = 0\<rparr> = 0" "sc_id (s1_config p1) = ''tree-d''"
    by (simp_all add: p1_def)
  obtain t where t: "load_data_tree S cfg (s1_config p1) d1 = Inr t" "data_tree_ok X n kd nodes d1 t"
    by (rule load_data_tree_ok [where d = d1, OF C n N tree(2) c(1) d1s X_def S c(2)])
  have "\<exists>e. encode (de_prims X) (label_spec par ?rid ?layers i) (nodes ! i) = Inr e \<and> length e = 32" if "i < n" for i
    using encodable [OF F] fr N that by (simp add: nodes_ok_def X_def)
  then obtain enc where enc: "\<And>i. i < n \<Longrightarrow> encode (de_prims X) (label_spec par ?rid ?layers i) (nodes ! i) = Inr (enc i) \<and> length (enc i) = 32"
    by metis
  let ?replica = "concat (map enc [0..<n])"
  have dt: "Some t = Some t' \<Longrightarrow> data_tree_ok X n kd nodes d1 t'" for t' using t(2) by simp
  obtain d2 tau p_aux t_aux tc where r: "transform_and_replicate_layers X n ?layers (concat nodes) (Some t)
        (map (label_config ?E) (map label_layer [1..<?layers + 1])) d1 = Inr (?replica, d2, tau, p_aux, t_aux)"
      "\<forall>d4. same_but_aux d2 d4 \<longrightarrow> temporary_aux_cache_new X t_aux ?replica False d4 = Inr tc"
      "aux_ok X par ?rid n ?layers k kd nodes (map enc [0..<n]) tau p_aux tc"
    using replicate_gen_ok [OF D s(4) sz d1(2) N enc dt] by blast
  have proving: "proving X ?E par ?rid n ?layers k kd nodes enc tau p_aux tc" using D s(4) f r(3) enc N by (simp add: proving_def)
  have cd: "tau_comm_d tau = comm_d"
    using r(3) root(1) unfolding aux_ok_def tree_of_def X_def by auto
  have cr: "canonical (de_prims X) (tau_comm_r tau)" using r(3) canon by (simp add: aux_ok_def)
  obtain x where x: "into_fr (de_prims X) (tau_comm_r tau) = Inr x" "commitment_from_fr (de_prims X) x = tau_comm_r tau"
    using canonical_facts(1) [OF F cr] by blast
  obtain pb where pb: "se_write_p_aux S p_aux = Inr pb" "se_read_p_aux S pb = Inr p_aux" using aux(1) roots_32(2,3) [OF proving] by blast
  obtain tb where tb: "se_write_t_aux S t_aux = Inr tb" "se_read_t_aux S tb = Inr t_aux" using aux(2) by blast
  define d3 where "d3 = d2(Data_File ''p_aux'' \<mapsto> pb, Data_File ''t_aux'' \<mapsto> tb)"
  define pre where "pre = \<lparr>so_comm_r = tau_comm_r tau, so_comm_d = comm_d\<rparr>"
  have p2: "seal_pre_commit_phase2 S cfg p1 (Some (concat nodes)) d1 = Some (Inr (?replica, d3, pre))"
    using t(1) s(1) r(1) x pb(1) tb(1) sz
    by (simp add: seal_pre_commit_phase2_def open_file_def replicate_phase2_def persist_p_aux_def persist_t_aux_def X_def [symmetric] pp_def [symmetric]
        d3_def pre_def p1_def Let_def del: upt_Suc map_map)
  have "same_but_aux d2 d3" by (simp add: same_but_aux_def d3_def)
  then have "temporary_aux_cache_new X t_aux ?replica False d3 = Inr tc" using r(2) by blast
  moreover have "get_p_aux (se_read_p_aux S) d3 = Inr p_aux" "get_t_aux (se_read_t_aux S) d3 = Inr t_aux"
    using pb tb by (simp_all add: get_p_aux_def get_t_aux_def d3_def)
  ultimately have "pre_committed S cp n k kd nodes ?rid ?replica d3 pre"
    unfolding pre_committed_def Let_def X_def [symmetric] pp_def [symmetric] using proving f(3,5) enc cd
    by (intro exI conjI) (auto simp: pre_def)
  then show thesis using that [OF p1 _ p2] cr by (simp add: p1_def pre_def X_def)
qed

section \<open>The first phase of the commit\<close>

lemma stacked_params_partitions: "stacked_params S cfg = Some (Inr cp) \<Longrightarrow> kc_partitions cp = Some (pc_partitions cfg)"
  by (auto simp: stacked_params_def bindO_def split: option.splits sum.splits)

lemma commit_ok:
  assumes S: "seal_setting S cfg cp n k kd" and p: "pre_committed S cp n k kd nodes (sector_replica_id S cfg prover_id sector_id ticket (so_comm_d pre)) replica d pre"
    and canon: "canonical (de_prims (se_drg S)) (so_comm_d pre)" "canonical (de_prims (se_drg S)) (so_comm_r pre)"
    and zero: "so_comm_d pre \<noteq> zero_commitment" "so_comm_r pre \<noteq> zero_commitment"
    and pieces: "\<forall>cm. verify_pieces fips_sha256 cm (so_comm_d pre) infos (porep_config.pc_sector_size cfg) = Some (Inr (cm, True))"
    and m: "\<not> feature_enabled cfg SyntheticPoRep" "direct_challenges (ppr_challenges (kc_vanilla cp)) = Some m" "0 < m" "0 < pc_partitions cfg"
    and sch: "\<forall>j. schedule_ok m (ppr_num_layers (kc_vanilla cp)) (finished j)"
  shows "\<exists>c1. seal_commit_phase1 S cfg (Some replica) prover_id sector_id ticket seed pre infos finished cm d = Some (Inr (cm, d, c1)) \<and>
    c1_comm_r c1 = so_comm_r pre \<and> c1_comm_d c1 = so_comm_d pre \<and> length (c1_vanilla_proofs c1) = pc_partitions cfg \<and>
    (\<forall>ps\<in>set (c1_vanilla_proofs c1). length ps = m)"
proof -
  define X where "X = se_drg S"
  define pp where "pp = kc_vanilla cp"
  let ?rid = "sector_replica_id S cfg prover_id sector_id ticket (so_comm_d pre)"
  have s: "stacked_params S cfg = Some (Inr cp)" "sealing X (se_cache S) (ppr_graph pp) n k kd" "2 \<le> n"
    using S unfolding seal_setting_def X_def pp_def Let_def by blast+
  then have F: "fr_ok (de_prims X)" and sha: "pq_sha256 (de_prims X) = fips_sha256" by (simp_all add: sealing_def drg_ok_def)
  obtain par enc tau p_aux t_aux tc where pr: "proving X (ppr_graph pp) par ?rid n (ppr_num_layers pp) k kd nodes enc tau p_aux tc"
      "get_p_aux (se_read_p_aux S) d = Inr p_aux" "get_t_aux (se_read_t_aux S) d = Inr t_aux" "temporary_aux_cache_new X t_aux replica False d = Inr tc"
      "so_comm_d pre = tau_comm_d tau" "so_comm_r pre = tau_comm_r tau"
    using p unfolding pre_committed_def X_def pp_def Let_def by blast
  let ?pin = "seal_public_inputs ?rid (so_comm_d pre) (so_comm_r pre) (Some seed)"
  have pin: "?pin = \<lparr>pin_replica_id = ?rid, pin_seed = Some seed, pin_tau = Some tau, pin_k = None\<rparr>"
    using pr(5,6) by (simp add: seal_public_inputs_def)
  have sch': "schedule_ok m (ppr_num_layers pp) (finished j)" for j using sch by (simp add: pp_def)
  obtain pss where pss: "prove_all_partitions X (se_challenge_prims S) pp ?pin p_aux tc (pc_partitions cfg) finished d = Some (Inr (d, pss))"
      "length pss = pc_partitions cfg" "\<forall>ps\<in>set pss. length ps = m"
      "verify_all_partitions (de_prims X) (se_challenge_prims S) (de_arities X) pp ?pin pss = Some (Inr True)"
    using prove_direct_ok [where finished = finished and prm = "se_challenge_prims S" and d = d, OF pr(1) s(3) m(2) [folded pp_def] m(3) refl refl pin m(4) sch'] by blast
  have part: "compound_partition_count (kc_partitions cp) = Inr (pc_partitions cfg)"
    using stacked_params_partitions [OF s(1)] m(4) by (cases "pc_partitions cfg") simp_all
  note c = canonical_facts(2,4) [OF F, folded X_def]
  show ?thesis
    using pr(2-4) s(1) m(1) zero pieces sha part pss c [OF canon(1) [folded X_def]] c [OF canon(2) [folded X_def]]
    by (simp add: seal_commit_phase1_def seal_commit_phase1_inner_def open_file_def X_def [symmetric] pp_def [symmetric] Let_def)
qed

section \<open>Unsealing\<close>

lemma pbit_254: "pbit (254 * a + b) = 256 * a + pbit b"
  by (simp add: pbit_def)

lemma pbit_strict: "i < j \<Longrightarrow> pbit i < pbit j"
  using div_le_mono [of i j 254] unfolding pbit_eq by linarith

lemma pbit_127: "pbit (8 * (127 * q) + i) = 8 * (128 * q) + pbit i"
proof -
  have "8 * (127 * q) + i = 254 * (4 * q) + i" by simp
  then show ?thesis using pbit_254 [of "4 * q" i] by simp
qed

lemma unpad_slice:
  assumes "pbit (8 * num) \<le> 8 * p"
  shows "unpad_spec (take p (drop (128 * q) S)) 0 num = unpad_spec S (127 * q) num"
proof -
  have "nbit (take p (drop (128 * q) S)) (pbit i) = nbit S (pbit (8 * (127 * q) + i))" if "i < 8 * num" for i
  proof -
    have "pbit i < 8 * p" using pbit_strict [OF that] assms by linarith
    then show ?thesis unfolding pbit_127 nbit_take nbit_drop by simp
  qed
  then show ?thesis unfolding unpad_spec_def by (intro bytes_of_eqI) (simp_all add: nbit_bytes_of bytes_of_def [symmetric])
qed

lemma unpad_range: "off + num \<le> length raw \<Longrightarrow> unpad_spec (pad_spec raw) off num = take num (drop off raw)"
proof -
  assume l: "off + num \<le> length raw"
  let ?U = "unpad_spec (pad_spec raw)"
  have "raw = ?U 0 (off + (num + (length raw - off - num)))" using unpad_pad [of raw] l by simp
  also have "\<dots> = ?U 0 off @ ?U off num @ ?U (off + num) (length raw - off - num)" by (simp only: unpad_spec_append add_0)
  finally have r: "raw = ?U 0 off @ ?U off num @ ?U (off + num) (length raw - off - num)" .
  have len: "length (?U a b) = b" for a b by (simp add: unpad_spec_def)
  show ?thesis by (subst (2) r) (simp add: len)
qed

lemma pbit_blocks: "pbit m \<le> 256 * ((m + 253) div 254)"
proof -
  obtain q r where m: "m = 254 * q + r" "r < 254" "m div 254 = q" "m mod 254 = r" by (rule div_modE [of 254 m]) auto
  have "Suc q \<le> (m + 253) div 254" if "0 < r" using div_le_mono [of "254 * Suc q" "m + 253" 254] m(1) that by simp
  moreover have "q \<le> (m + 253) div 254" using div_le_mono [of m "m + 253" 254] m(3) by simp
  ultimately show ?thesis using m(2) unfolding pbit_def m(3,4) by (cases "r = 0") auto
qed

lemma unseal_range_ok:
  assumes S: "seal_setting S cfg cp n k kd" and N: "nodes_ok n nodes" and canon: "\<forall>x\<in>set nodes. canonical (de_prims (se_drg S)) x"
    and p: "pre_committed S cp n k kd nodes (sector_replica_id S cfg prover_id sector_id ticket comm_d) replica d pre"
    and comm: "canonical (de_prims (se_drg S)) comm_d" "comm_d \<noteq> zero_commitment"
    and raw: "concat nodes = pad_spec raw" and range: "127 * q + num \<le> length raw"
  shows "\<exists>d'. get_unsealed_range S cfg (Some replica) prover_id sector_id comm_d ticket (127 * q) num d =
    Some (Inr (take num (drop (127 * q) raw), num, d'))"
proof -
  define X where "X = se_drg S"
  define pp where "pp = kc_vanilla cp"
  let ?rid = "sector_replica_id S cfg prover_id sector_id ticket comm_d" and ?P = "to_padded_bytes num"
  have s: "stacked_params S cfg = Some (Inr cp)" "sealing X (se_cache S) (ppr_graph pp) n k kd" "0 < ppr_num_layers pp"
    using S unfolding seal_setting_def X_def pp_def Let_def by force+
  then have D: "drg_ok X n k kd" by (simp add: sealing_def)
  then have F: "fr_ok (de_prims X)" and sha: "pq_sha256 (de_prims X) = fips_sha256" and n: "n < 2 ^ 32" by (simp_all add: drg_ok_def)
  have rid: "length ?rid = 32" by (rule length_replica_id) (use sha in \<open>simp add: X_def\<close>)
  obtain par enc tau p_aux tc pc fl where r: "replica = concat (map enc [0..<n])"
      "proving X (ppr_graph pp) par ?rid n (ppr_num_layers pp) k kd nodes enc tau p_aux tc" "cache_ok par n pc"
      "graph_parent_cache (se_cache S) (ppr_graph pp) = Inr (pc, fl)"
      "\<forall>i<n. encode (de_prims X) (label_spec par ?rid (ppr_num_layers pp) i) (nodes ! i) = Inr (enc i) \<and> length (enc i) = 32"
    using p unfolding pre_committed_def X_def pp_def Let_def by blast
  have g: "topological par n" "graph_ok (ge_graph (ppr_graph pp)) n" using r(2) by (simp_all add: proving_def)
  have c: "\<exists>v. into_fr (de_prims X) (nodes ! i) = Inr v \<and> pq_of_fr (de_prims X) v = nodes ! i" if i: "i < n" for i
  proof -
    have "nodes ! i \<in> set nodes" using i N by (simp add: nodes_ok_def)
    then obtain v where "nodes ! i = pq_of_fr (de_prims X) v" using canon by (auto simp: canonical_def X_def)
    then show ?thesis using into_of_fr [OF F, of v] by (intro exI [of _ v]) simp
  qed
  obtain d' where x: "extract_and_invert_transform_layers X (se_cache S) (ppr_graph pp) (ppr_num_layers pp) ?rid replica ''tree-d'' d =
      Some (Inr (d', concat nodes))"
    using unseal_ok [OF D g r(3,4) rid s(3) N c r(5) [rule_format], of "''tree-d''" d] r(1) by blast
  have l: "length (concat nodes) = 32 * n" using N length_concat_nodes [of nodes 32] by (auto simp: nodes_ok_def)
  have len: "pbit (8 * length raw) \<le> 8 * (32 * n)"
  proof -
    have "pbit (8 * length raw) \<le> 8 * length (pad_spec raw)" using pbit_blocks [of "8 * length raw"] unfolding length_pad_spec by linarith
    then show ?thesis using l raw by simp
  qed
  have "8 * length raw \<le> pbit (8 * length raw)" unfolding pbit_eq by simp
  then have small: "length raw \<le> 2 ^ 49" using len n by simp
  have num: "?P = (pbit (8 * num) + 7) div 8" using to_padded_eq [of num] small range by simp
  have off: "to_padded_bytes (127 * q) = 128 * q" using to_padded_127 small range by simp
  have "pbit (8 * (127 * q) + 8 * num) \<le> pbit (8 * length raw)" using range by (intro pbit_mono) simp
  then have fits: "8 * (128 * q) + pbit (8 * num) \<le> 8 * (32 * n)" using len unfolding pbit_127 by linarith
  then have "128 * q + ?P \<le> length (concat nodes)" unfolding num l by linarith
  then have sl: "slice (concat nodes) (128 * q) (128 * q + ?P) = Inr (take ?P (drop (128 * q) (concat nodes)))" by (simp add: slice_def)
  have P: "pbit (8 * num) \<le> 8 * ?P" unfolding num by linarith
  have "length (take ?P (drop (128 * q) (concat nodes))) = ?P" using \<open>128 * q + ?P \<le> length (concat nodes)\<close> by simp
  then have w: "write_unpadded Release vec_write_all (take ?P (drop (128 * q) (concat nodes))) [] 0 num = Some (Inr (take num (drop (127 * q) raw), num))"
    using write_unpadded_vec [of 0 num "take ?P (drop (128 * q) (concat nodes))" Release "[]"] P unpad_slice [OF P, of q "concat nodes"] unpad_range [OF range] raw
    by (simp only: add_0 append_Nil)
  have safe: "as_safe_commitment (de_prims X) comm_d = Inr comm_d" using canonical_facts(2) [OF F] comm(1) by (simp add: X_def)
  show ?thesis
    using s(1) x w sl off comm(2) safe
    by (simp add: get_unsealed_range_def unseal_range_mapped_def unseal_range_inner_def open_file_def X_def [symmetric] pp_def [symmetric] Let_def)
qed

section \<open>Properties\<close>

text \<open>
  C1. Sealing goes through: for the file of a sector with staged pieces, both phases of the pre-commit succeed and
  report the root of the sector; the commit that follows, on the files they leave, gives proofs for every partition that
  passed verification, unless one of the commitments is all zeros, which is refused.
\<close>

theorem seal_complete:
  assumes "seal_setting S cfg cp n k kd" and "nodes_ok n nodes" and "\<forall>x\<in>set nodes. is_ok (into_fr (de_prims (se_drg S)) x)"
    and "tree_root (de_hash_d (se_drg S)) (levels binary_arities kd) nodes = Inr comm_d" and "canonical (de_prims (se_drg S)) comm_d"
    and "\<forall>cm. verify_pieces fips_sha256 cm comm_d infos (porep_config.pc_sector_size cfg) = Some (Inr (cm, True))"
    and "\<forall>l. d (Data_File (label_layer l)) = None"
    and "\<not> feature_enabled cfg SyntheticPoRep" and "direct_challenges (ppr_challenges (kc_vanilla cp)) = Some m" and "0 < m" and "0 < pc_partitions cfg"
    and "\<forall>j. schedule_ok m (ppr_num_layers (kc_vanilla cp)) (finished j)"
  shows "\<exists>d1 p1 replica d2 pre.
    seal_pre_commit_phase1 S cfg (In_File (Some (concat nodes))) (Some out_file) prover_id sector_id ticket infos cm d =
      Some (Inr (concat nodes, cm, d1, p1)) \<and>
    seal_pre_commit_phase2 S cfg p1 (Some (concat nodes)) d1 = Some (Inr (replica, d2, pre)) \<and> so_comm_d pre = comm_d \<and>
    (if comm_d = zero_commitment \<or> so_comm_r pre = zero_commitment
     then \<exists>msg. seal_commit_phase1 S cfg (Some replica) prover_id sector_id ticket seed pre infos finished cm d2 = Some (Inl (Fail msg))
     else \<exists>c1. seal_commit_phase1 S cfg (Some replica) prover_id sector_id ticket seed pre infos finished cm d2 = Some (Inr (cm, d2, c1)) \<and>
       c1_comm_r c1 = so_comm_r pre \<and> c1_comm_d c1 = comm_d \<and> length (c1_vanilla_proofs c1) = pc_partitions cfg \<and>
       (\<forall>ps\<in>set (c1_vanilla_proofs c1). length ps = m))"
proof -
  obtain d1 p1 replica d2 pre where p:
    "seal_pre_commit_phase1 S cfg (In_File (Some (concat nodes))) (Some out_file) prover_id sector_id ticket infos cm d =
       Some (Inr (concat nodes, cm, d1, p1))"
    "seal_pre_commit_phase2 S cfg p1 (Some (concat nodes)) d1 = Some (Inr (replica, d2, pre))" "so_comm_d pre = comm_d"
    "canonical (de_prims (se_drg S)) (so_comm_r pre)"
    "pre_committed S cp n k kd nodes (sector_replica_id S cfg prover_id sector_id ticket comm_d) replica d2 pre"
    by (rule pre_commit_ok [OF assms(1-7)])
  have "\<exists>msg. seal_commit_phase1 S cfg (Some replica) prover_id sector_id ticket seed pre infos finished cm d2 = Some (Inl (Fail msg))"
    if "comm_d = zero_commitment \<or> so_comm_r pre = zero_commitment"
    using that p(3) by (auto simp: seal_commit_phase1_def seal_commit_phase1_inner_def open_file_def Let_def)
  then show ?thesis
    using p(1-3) commit_ok [OF assms(1) p(5) [folded p(3)] assms(5) [folded p(3)] p(4) _ _ assms(6) [folded p(3)] assms(8-12), of seed cm]
    by (intro exI conjI) auto
qed

text \<open>
  C3. Any range of a sealed sector that starts at a multiple of 127 bytes is read back from the replica: the file
  written has exactly these raw bytes, and their number is reported.
\<close>

theorem unseal_sealed_range:
  assumes "seal_setting S cfg cp n k kd" and "nodes_ok n nodes" and "\<forall>x\<in>set nodes. canonical (de_prims (se_drg S)) x"
    and "tree_root (de_hash_d (se_drg S)) (levels binary_arities kd) nodes = Inr comm_d" and "canonical (de_prims (se_drg S)) comm_d"
    and "comm_d \<noteq> zero_commitment"
    and "\<forall>cm. verify_pieces fips_sha256 cm comm_d infos (porep_config.pc_sector_size cfg) = Some (Inr (cm, True))"
    and "\<forall>l. d (Data_File (label_layer l)) = None"
    and "concat nodes = pad_spec raw" and "127 * q + num \<le> length raw"
  shows "\<exists>d1 p1 replica d2 pre d3.
    seal_pre_commit_phase1 S cfg (In_File (Some (pad_spec raw))) (Some out_file) prover_id sector_id ticket infos cm d =
      Some (Inr (pad_spec raw, cm, d1, p1)) \<and>
    seal_pre_commit_phase2 S cfg p1 (Some (pad_spec raw)) d1 = Some (Inr (replica, d2, pre)) \<and>
    get_unsealed_range S cfg (Some replica) prover_id sector_id comm_d ticket (127 * q) num d2 =
      Some (Inr (take num (drop (127 * q) raw), num, d3))"
proof -
  have F: "fr_ok (de_prims (se_drg S))" using assms(1) by (simp add: seal_setting_def sealing_def drg_ok_def Let_def)
  have fr: "\<forall>x\<in>set nodes. is_ok (into_fr (de_prims (se_drg S)) x)"
    using assms(3) into_of_fr [OF F] by (auto simp: canonical_def is_ok_iff)
  obtain d1 p1 replica d2 pre where p:
    "seal_pre_commit_phase1 S cfg (In_File (Some (concat nodes))) (Some out_file) prover_id sector_id ticket infos cm d =
       Some (Inr (concat nodes, cm, d1, p1))"
    "seal_pre_commit_phase2 S cfg p1 (Some (concat nodes)) d1 = Some (Inr (replica, d2, pre))"
    "pre_committed S cp n k kd nodes (sector_replica_id S cfg prover_id sector_id ticket comm_d) replica d2 pre"
    by (rule pre_commit_ok [OF assms(1,2) fr assms(4,5,7,8)])
  show ?thesis
    using p(1,2) unseal_range_ok [OF assms(1-3) p(3) assms(5,6,9,10)] unfolding assms(9) by blast
qed

section \<open>A sector of 2 KiB\<close>

text \<open>The auxiliary data is written as a number in unary.\<close>

definition config_code :: "store_config \<Rightarrow> string \<times> nat option \<times> nat" where
  "config_code c = (sc_id c, sc_size c, sc_rows_to_discard c)"

definition config_of_code :: "string \<times> nat option \<times> nat \<Rightarrow> store_config" where
  "config_of_code = (\<lambda>(id', len, rows). \<lparr>sc_id = id', sc_size = len, sc_rows_to_discard = rows\<rparr>)"

lemma config_code [simp]: "config_of_code (config_code c) = c"
  by (simp add: config_of_code_def config_code_def)

definition toy_write_t_aux :: "temporary_aux \<Rightarrow> u8 list res" where
  "toy_write_t_aux t = Inr (replicate (to_nat (map config_code (ta_labels t), config_code (ta_tree_d_config t),
     config_code (ta_tree_r_last_config t), config_code (ta_tree_c_config t))) 1)"

definition toy_read_t_aux :: "u8 list \<Rightarrow> temporary_aux res" where
  "toy_read_t_aux b = (let (labels, tree_d, tree_r_last, tree_c) = from_nat (length b) in
     Inr \<lparr>ta_labels = map config_of_code labels, ta_tree_d_config = config_of_code tree_d,
       ta_tree_r_last_config = config_of_code tree_r_last, ta_tree_c_config = config_of_code tree_c\<rparr>)"

definition toy_seal_drg :: "(toy_fr, u8 list list, u8 list \<times> u8 list \<times> (u8 list list \<times> nat) list) drg_env" where
  "toy_seal_drg = toy_api_drg\<lparr>de_tree := toy_crate (sha256_multi_node toy_sum) 6, de_tree_d := toy_crate (sha256_multi_node toy_sum) 6\<rparr>"

definition toy_sealer :: "(toy_fr, u8 list list, u8 list \<times> u8 list \<times> (u8 list list \<times> nat) list, unit, u8, u8 list) seal_env" where
  "toy_sealer = toy_seal\<lparr>se_drg := toy_seal_drg, se_write_p_aux := (\<lambda>p. Inr (pa_comm_c p @ pa_comm_r_last p)),
     se_read_p_aux := (\<lambda>b. Inr \<lparr>pa_comm_c = take 32 b, pa_comm_r_last = drop 32 b\<rparr>),
     se_write_t_aux := toy_write_t_aux, se_read_t_aux := toy_read_t_aux\<rparr>"

definition toy_raw :: "u8 list" where "toy_raw = 1 # replicate 2031 0"

definition toy_node :: "u8 list" where "toy_node = 1 # replicate 31 0"

lemma toy_padded: "pad_spec toy_raw = 1 # replicate 2047 0"
proof (rule bytes_eqI)
  have l: "length toy_raw = 2032" by (simp add: toy_raw_def)
  then show "length (pad_spec toy_raw) = length (1 # replicate 2047 (0::u8))" by (simp add: length_pad_spec)
  have one: "nbit (1 # replicate m 0) i \<longleftrightarrow> i = 0" for m i by (auto simp: nbit_Cons bit_1_iff)
  fix i assume "i < 8 * length (pad_spec toy_raw)"
  then have i: "i < 8 * (32 * ((8 * length toy_raw + 253) div 254))" by (simp add: length_pad_spec)
  have "i mod 256 < 254 \<and> 254 * (i div 256) + i mod 256 = 0 \<longleftrightarrow> i = 0" by (cases "i < 256") auto
  then show "nbit (pad_spec toy_raw) i = nbit (1 # replicate 2047 0) i"
    using i one [of 2031 "254 * (i div 256) + i mod 256"] one [of 2047 i]
    by (simp add: pad_spec_def nbit_bytes_of pad_nbit_def toy_raw_def)
qed

lemma toy_sector: "nodes_ok 64 (toy_node # zero_nodes 63)" "concat (toy_node # zero_nodes 63) = pad_spec toy_raw"
  using concat_zero_nodes [of 63] replicate_add [of 31 2016 "0::u8"] by (simp_all add: nodes_ok_def toy_node_def zero_nodes_def toy_padded)

lemma toy_hash_nodes: "piece_hash toy_sum (a # replicate 31 0) (b # replicate 31 0) = (a + b) # replicate 31 0"
proof -
  have "(replicate 31 (0::u8))[30 := 0] = replicate 31 0" by (simp add: list_eq_iff_nth_eq nth_list_update)
  then show ?thesis by (simp add: piece_hash_def sha256_function_hash_def trim_to_fr32_def toy_sum_def sum_list_replicate)
qed

lemma toy_zero_root: "subtree_root toy_sum k (zero_nodes (2 ^ k)) = 0 # replicate 31 0"
proof (induction k)
  case 0
  then show ?case by (simp add: zero_nodes_def flip: replicate_Suc)
next
  case (Suc k)
  then show ?case using toy_hash_nodes [of 0 0] subtree_zeros_Suc [of toy_sum k] by simp
qed

lemma toy_root_node: "subtree_root toy_sum k (toy_node # zero_nodes (2 ^ k - 1)) = toy_node"
proof (induction k)
  case (Suc k)
  have p: "0 < (2::nat) ^ k" by simp
  then have l: "(2::nat) ^ Suc k - 1 = (2 ^ k - 1) + 2 ^ k" by simp
  have "take (2 ^ k) (toy_node # zero_nodes (2 ^ Suc k - 1)) = toy_node # zero_nodes (2 ^ k - 1)"
    "drop (2 ^ k) (toy_node # zero_nodes (2 ^ Suc k - 1)) = zero_nodes (2 ^ k)"
    using p unfolding l zero_nodes_add by (simp_all add: take_Cons' drop_Cons')
  then show ?case using Suc toy_zero_root [of k] toy_hash_nodes [of 1 0] by (simp add: toy_node_def)
qed (simp add: toy_node_def)

lemma toy_setup: "\<exists>cp. stacked_params toy_sealer toy_config = Some (Inr cp) \<and> sealing toy_seal_drg toy_cache_env (ppr_graph (kc_vanilla cp)) 64 6 6 \<and>
    ppr_num_layers (kc_vanilla cp) = 2 \<and> ppr_challenges (kc_vanilla cp) = Interactive 2"
proof -
  let ?sha = "pq_sha256 (de_prims toy_seal_drg)"
  obtain g where g: "stacked_graph_new ?sha None 64 BASE_DEGREE EXP_DEGREE (replicate 32 0) V1_2_0 = Some (Inr g)" "graph_ok g 64"
    using stacked_graph_new_ok [of 64 ?sha "replicate 32 0" V1_2_0] by auto
  have sp: "setup_params toy_config = Inr \<lparr>sp_nodes = 64, sp_degree = BASE_DEGREE, sp_expansion_degree = EXP_DEGREE, sp_porep_id = replicate 32 0,
      sp_challenges = Interactive 2, sp_num_layers = 2, sp_api_version = V1_2_0, sp_api_features = []\<rparr>"
    by (simp add: setup_params_def toy_config_def porep_config.defs padded_bytes_amount_def minimum_challenges_def select_challenges_def
        div_ceil_checked_def LAYERS_def sector_size_defs MAX_CHALLENGES_PER_PARTITION_def feature_enabled_def get_porep_interactive_minimum_challenges_def usub_def)
  let ?E = "seal_graph_env toy_sealer g"
  have E: "ge_graph ?E = g" "log2_bounded (ge_log2_ceil ?E)"
    using toy_env_ok(2) by (simp_all add: seal_graph_env_def toy_sealer_def toy_seal_def)
  have g2: "graph_ok (ge_graph ?E) 64" using g(2) E(1) by simp
  obtain par where par: "topological par 64" "\<forall>i<64. env_parents ?E i = Some (Inr (par i))"
    using graph_parents_topological [OF g2 E(2)] by blast
  then have "graph_parents ?E i = Inr (par i) \<and> length (par i) = DEGREE" if "i < 64" for i
    using that by (auto simp: graph_parents_def topological_def DEGREE_14)
  then have "\<exists>pc file. generate toy_digest None (graph_parents ?E) 64 3 64 = Inr (pc, file)"
    using generate_succeeds [of 64 "graph_parents ?E" par 3 toy_digest 64] by auto
  then have cache: "is_ok (graph_parent_cache toy_cache_env ?E)"
    using g(2) E(1) by (auto simp: graph_parent_cache_def toy_cache_env_def parent_cache_new_def graph_ok_def is_ok_iff)
  have H: "merkle_hash (sha256_multi_node toy_sum)" by (rule sha256_tree.merkle_hash_axioms)
  have A: "arities_ok binary_arities" "base_arity binary_arities = 2" "tree_count binary_arities = 1"
    by (simp_all add: arities_ok_def binary_arities_def tree_count_def)
  have "length (toy_sum xs) = 32" for xs by (simp add: toy_sum_def)
  then have N: "hash_nodes (sha256_multi_node toy_sum)" by (auto simp: hash_nodes_def sha256_multi_node_def trim_to_fr32_def)
  have "drg_ok toy_seal_drg 64 6 6"
    using toy_crate_ok [OF H toy_hash(2) N, of 6] toy_api_fr H N A
    by (auto simp: drg_ok_def toy_seal_drg_def toy_api_drg_def toy_drg_def toy_api_prims_def) (auto simp: toy_prims_def)
  then have "sealing toy_seal_drg toy_cache_env ?E 64 6 6"
    using g(1) E cache unfolding sealing_def by (auto simp: toy_cache_env_def)
  moreover have "stacked_params toy_sealer toy_config = Some (Inr \<lparr>kc_vanilla = \<lparr>ppr_graph = ?E, ppr_challenges = Interactive 2, ppr_num_layers = 2\<rparr>,
      kc_partitions = Some 1, kc_priority = False\<rparr>)"
    using sp g(1) by (simp add: stacked_params_def scheme_setup_def toy_sealer_def toy_seal_def toy_config_def porep_config.defs)
  ultimately show ?thesis by simp
qed

lemma toy_setting: "\<exists>cp. seal_setting toy_sealer toy_config cp 64 6 6 \<and> ppr_num_layers (kc_vanilla cp) = 2 \<and> ppr_challenges (kc_vanilla cp) = Interactive 2"
proof -
  obtain cp where cp: "stacked_params toy_sealer toy_config = Some (Inr cp)" "sealing toy_seal_drg toy_cache_env (ppr_graph (kc_vanilla cp)) 64 6 6"
    "ppr_num_layers (kc_vanilla cp) = 2" "ppr_challenges (kc_vanilla cp) = Interactive 2" using toy_setup by blast
  have t: "\<exists>b. toy_write_t_aux t = Inr b \<and> toy_read_t_aux b = Inr t" for t
    by (simp add: toy_write_t_aux_def toy_read_t_aux_def comp_def)
  have c: "canonical toy_api_prims (pq_hash2 toy_api_prims a b)" for a b
    by (auto simp: canonical_def toy_api_prims_def)
  have "seal_setting toy_sealer toy_config cp 64 6 6"
    unfolding seal_setting_def Let_def using cp t c
    by (simp add: toy_sealer_def toy_seal_def toy_seal_drg_def toy_api_drg_def toy_config_def porep_config.defs NODE_SIZE_def SECTOR_SIZE_2_KIB_def toy_crate_def)
  then show ?thesis using cp by blast
qed

lemma toy_pieces: "verify_pieces fips_sha256 cm toy_node [\<lparr>pc_commitment = toy_node, pc_size = unpadded_size 6\<rparr>] (porep_config.pc_sector_size toy_config) =
    Some (Inr (cm, True))"
proof -
  let ?p = "\<lparr>pc_commitment = toy_node, pc_size = unpadded_size 6\<rparr>"
  have "piece_ok toy_sum 6 (toy_node # zero_nodes 63) ?p" using toy_root_node [of 6] by (simp add: piece_ok_def)
  then have b: "list_all2 (\<lambda>b p. piece_ok toy_sum (fst b) (snd b) p) [(6, toy_node # zero_nodes 63)] [?p]" by simp
  have l: "piece_leaves [(6, toy_node # zero_nodes 63)] = 64" by (simp add: piece_leaves_def)
  have count: "1 \<le> to_unpadded_bytes 2048 div MINIMUM_PIECE_SIZE" using piece_count [OF b, of 2048] l by simp
  have sum: "sum_padded 0 [?p] = Inr 2048" using sum_padded_ok [OF b, of 0] l by simp
  have "is_power_of_two (to_padded_bytes (unpadded_size 6))" by (subst to_padded_size) (simp, simp, rule is_power_of_two_pow)
  moreover have "close_stack fips_sha256 [?p] = Some (Inr [?p])" "shift_pieces fips_sha256 [] [?p] = Some (Inr [?p])"
    by (subst close_stack.simps, simp) simp
  ultimately show ?thesis using count sum
    by (simp add: verify_pieces_def compute_comm_d_def stack_shift_def stack_pop_def toy_config_def porep_config.defs SECTOR_SIZE_2_KIB_def)
qed

lemma toy_canonical: "canonical toy_api_prims toy_node" "canonical toy_api_prims (replicate 32 0)"
  unfolding canonical_def by (rule exI [of _ F1], simp add: toy_api_prims_def toy_prims_def toy_of_fr_def toy_node_def)
    (rule exI [of _ F0], simp add: toy_api_prims_def toy_prims_def toy_of_fr_def flip: replicate_Suc)

lemma toy_seal_facts:
  "de_prims (se_drg toy_sealer) = toy_api_prims"
  "tree_root (de_hash_d (se_drg toy_sealer)) (levels binary_arities 6) (toy_node # zero_nodes 63) = Inr toy_node"
  "\<forall>x\<in>set (toy_node # zero_nodes 63). canonical (de_prims (se_drg toy_sealer)) x"
  "canonical (de_prims (se_drg toy_sealer)) toy_node" "toy_node \<noteq> zero_commitment" "length toy_raw = 2032"
proof -
  show p: "de_prims (se_drg toy_sealer) = toy_api_prims" by (simp add: toy_sealer_def toy_seal_drg_def toy_api_drg_def)
  have "de_hash_d (se_drg toy_sealer) = sha256_multi_node toy_sum" by (simp add: toy_sealer_def toy_seal_drg_def toy_api_drg_def toy_drg_def)
  then show "tree_root (de_hash_d (se_drg toy_sealer)) (levels binary_arities 6) (toy_node # zero_nodes 63) = Inr toy_node"
    using comm_root [of "toy_node # zero_nodes 63" 6 toy_sum] toy_root_node [of 6] by simp
  show "\<forall>x\<in>set (toy_node # zero_nodes 63). canonical (de_prims (se_drg toy_sealer)) x" "canonical (de_prims (se_drg toy_sealer)) toy_node"
    unfolding p using toy_canonical by (auto simp: zero_nodes_def)
  show "toy_node \<noteq> zero_commitment" by (simp add: toy_node_def numeral_eq_Suc)
  show "length toy_raw = 2032" by (simp add: toy_raw_def)
qed

theorem seal_complete_witness:
  "\<exists>d1 p1 replica d2 pre.
    seal_pre_commit_phase1 toy_sealer toy_config (In_File (Some (pad_spec toy_raw))) (Some [9]) (replicate 32 3) 5 (replicate 32 4)
      [\<lparr>pc_commitment = toy_node, pc_size = unpadded_size 6\<rparr>] (\<lambda>_. None) (\<lambda>_. None) = Some (Inr (pad_spec toy_raw, \<lambda>_. None, d1, p1)) \<and>
    seal_pre_commit_phase2 toy_sealer toy_config p1 (Some (pad_spec toy_raw)) d1 = Some (Inr (replica, d2, pre)) \<and> so_comm_d pre = toy_node \<and>
    (if so_comm_r pre = zero_commitment
     then \<exists>msg. seal_commit_phase1 toy_sealer toy_config (Some replica) (replicate 32 3) 5 (replicate 32 4) (replicate 32 6) pre
       [\<lparr>pc_commitment = toy_node, pc_size = unpadded_size 6\<rparr>] (\<lambda>_ _ _. []) (\<lambda>_. None) d2 = Some (Inl (Fail msg))
     else \<exists>c1. seal_commit_phase1 toy_sealer toy_config (Some replica) (replicate 32 3) 5 (replicate 32 4) (replicate 32 6) pre
       [\<lparr>pc_commitment = toy_node, pc_size = unpadded_size 6\<rparr>] (\<lambda>_ _ _. []) (\<lambda>_. None) d2 = Some (Inr (\<lambda>_. None, d2, c1)) \<and>
       length (c1_vanilla_proofs c1) = 1 \<and> (\<forall>ps\<in>set (c1_vanilla_proofs c1). length ps = 2))"
proof -
  obtain cp where cp: "seal_setting toy_sealer toy_config cp 64 6 6" "ppr_num_layers (kc_vanilla cp) = 2" "ppr_challenges (kc_vanilla cp) = Interactive 2"
    using toy_setting by blast
  have F: "fr_ok (de_prims (se_drg toy_sealer))" using toy_api_fr by (simp add: toy_seal_facts(1))
  have fr: "\<forall>x\<in>set (toy_node # zero_nodes 63). is_ok (into_fr (de_prims (se_drg toy_sealer)) x)"
    using toy_seal_facts(3) into_of_fr [OF F] unfolding canonical_def is_ok_iff by metis
  have c: "direct_challenges (ppr_challenges (kc_vanilla cp)) = Some 2" "(0::nat) < 2" "0 < pc_partitions toy_config" "\<not> feature_enabled toy_config SyntheticPoRep"
    "\<forall>j. schedule_ok 2 (ppr_num_layers (kc_vanilla cp)) ((\<lambda>_ _ _. []) j)" "\<forall>l. (\<lambda>_. None) (Data_File (label_layer l)) = None" "pc_partitions toy_config = 1"
    using cp(3) by (simp_all add: toy_config_def porep_config.defs feature_enabled_def schedule_ok_def)
  have pieces: "\<forall>cm. verify_pieces fips_sha256 cm toy_node [\<lparr>pc_commitment = toy_node, pc_size = unpadded_size 6\<rparr>] (porep_config.pc_sector_size toy_config) =
      Some (Inr (cm, True))" using toy_pieces by blast
  obtain d1 p1 replica d2 pre where r:
    "seal_pre_commit_phase1 toy_sealer toy_config (In_File (Some (pad_spec toy_raw))) (Some [9]) (replicate 32 3) 5 (replicate 32 4)
      [\<lparr>pc_commitment = toy_node, pc_size = unpadded_size 6\<rparr>] (\<lambda>_. None) (\<lambda>_. None) = Some (Inr (pad_spec toy_raw, \<lambda>_. None, d1, p1))"
    "seal_pre_commit_phase2 toy_sealer toy_config p1 (Some (pad_spec toy_raw)) d1 = Some (Inr (replica, d2, pre))" "so_comm_d pre = toy_node"
    "if toy_node = zero_commitment \<or> so_comm_r pre = zero_commitment
     then \<exists>msg. seal_commit_phase1 toy_sealer toy_config (Some replica) (replicate 32 3) 5 (replicate 32 4) (replicate 32 6) pre
       [\<lparr>pc_commitment = toy_node, pc_size = unpadded_size 6\<rparr>] (\<lambda>_ _ _. []) (\<lambda>_. None) d2 = Some (Inl (Fail msg))
     else \<exists>c1. seal_commit_phase1 toy_sealer toy_config (Some replica) (replicate 32 3) 5 (replicate 32 4) (replicate 32 6) pre
       [\<lparr>pc_commitment = toy_node, pc_size = unpadded_size 6\<rparr>] (\<lambda>_ _ _. []) (\<lambda>_. None) d2 = Some (Inr (\<lambda>_. None, d2, c1)) \<and>
       c1_comm_r c1 = so_comm_r pre \<and> c1_comm_d c1 = toy_node \<and> length (c1_vanilla_proofs c1) = pc_partitions toy_config \<and>
       (\<forall>ps\<in>set (c1_vanilla_proofs c1). length ps = 2)"
    using seal_complete [OF cp(1) toy_sector(1) fr toy_seal_facts(2,4) pieces c(6,4,1,2,3,5),
        of "[9]" "replicate 32 3" 5 "replicate 32 4" "\<lambda>_. None" "replicate 32 6"] unfolding toy_sector(2) by blast
  have "toy_node \<noteq> zero_commitment" by (rule toy_seal_facts(5))
  then show ?thesis using r unfolding c(7) by (cases "so_comm_r pre = zero_commitment") (simp_all, blast+)
qed

theorem unseal_sealed_range_witness:
  "\<exists>d1 p1 replica d2 pre d3.
    seal_pre_commit_phase1 toy_sealer toy_config (In_File (Some (pad_spec toy_raw))) (Some []) (replicate 32 3) 5 (replicate 32 4)
      [\<lparr>pc_commitment = toy_node, pc_size = unpadded_size 6\<rparr>] (\<lambda>_. None) (\<lambda>_. None) = Some (Inr (pad_spec toy_raw, \<lambda>_. None, d1, p1)) \<and>
    seal_pre_commit_phase2 toy_sealer toy_config p1 (Some (pad_spec toy_raw)) d1 = Some (Inr (replica, d2, pre)) \<and>
    get_unsealed_range toy_sealer toy_config (Some replica) (replicate 32 3) 5 toy_node (replicate 32 4) (127 * 2) 100 d2 =
      Some (Inr (take 100 (drop (127 * 2) toy_raw), 100, d3))"
proof -
  obtain cp where cp: "seal_setting toy_sealer toy_config cp 64 6 6" using toy_setting by blast
  have pieces: "\<forall>cm. verify_pieces fips_sha256 cm toy_node [\<lparr>pc_commitment = toy_node, pc_size = unpadded_size 6\<rparr>] (porep_config.pc_sector_size toy_config) =
      Some (Inr (cm, True))" using toy_pieces by blast
  have r: "127 * 2 + 100 \<le> length toy_raw" "\<forall>l. (\<lambda>_. None) (Data_File (label_layer l)) = None" by (simp_all add: toy_seal_facts(6))
  show ?thesis by (rule unseal_sealed_range [OF cp toy_sector(1) toy_seal_facts(3,2,4,5) pieces r(2) toy_sector(2) r(1)])
qed

text \<open>
  C32. Parameters of every supported configuration exist and are well-formed: the graph has one node for each 32 bytes
  of the sector and the degrees of the protocol, there are 2 or 11 layers, at least one partition, and the total of
  the challenges of all partitions reaches the minimum.
\<close>

theorem stacked_params_wellformed:
  assumes "s \<in> set SUPPORTED_SECTOR_SIZES" and "new_groth16_with_features s porep_id v fs = Inr cfg"
  shows "\<exists>cp mc. stacked_params S cfg = Some (Inr cp) \<and> minimum_challenges cfg = Inr mc \<and>
    graph_ok (ge_graph (ppr_graph (kc_vanilla cp))) (s div NODE_SIZE) \<and> NODE_SIZE dvd s \<and>
    (ppr_num_layers (kc_vanilla cp) = 2 \<or> ppr_num_layers (kc_vanilla cp) = 11) \<and>
    kc_partitions cp = Some (pc_partitions cfg) \<and> compound_partition_count (kc_partitions cp) = Inr (pc_partitions cfg) \<and>
    mc \<le> pc_partitions cfg * num_challenges_per_partition (ppr_challenges (kc_vanilla cp)) \<and>
    (direct_challenges (ppr_challenges (kc_vanilla cp)) = None \<longleftrightarrow> feature_enabled cfg SyntheticPoRep)"
proof -
  have cfg: "partitions_ok cfg" "porep_config.pc_sector_size cfg = s" using new_groth16_with_features_ok [OF assms(2)] assms(1) by simp_all
  obtain sp mc where sp: "minimum_challenges cfg = Inr mc" "setup_params cfg = Inr sp" "32 * sp_nodes sp = s"
      "mc \<le> pc_partitions cfg * num_challenges_per_partition (sp_challenges sp)" "sp_challenges sp \<in> range Synth \<longleftrightarrow> feature_enabled cfg SyntheticPoRep"
    using setup_params_ok [of cfg] cfg assms(1) by auto
  have d: "sp_degree sp = BASE_DEGREE" "sp_expansion_degree sp = EXP_DEGREE" "map_of LAYERS (padded_bytes_amount cfg) = Some (sp_num_layers sp)"
    using sp(2) by (auto simp: setup_params_def bindR_eq_Inr ensure_eq_Inr Let_def split: option.splits)
  have "(padded_bytes_amount cfg, sp_num_layers sp) \<in> set LAYERS" using d(3) by (rule map_of_SomeD)
  then have l: "sp_num_layers sp = 2 \<or> sp_num_layers sp = 11" by (auto simp: LAYERS_def)
  have "\<forall>x\<in>set SUPPORTED_SECTOR_SIZES. x < 2 ^ 37" by (simp add: SUPPORTED_SECTOR_SIZES_def sector_size_defs)
  then have n: "sp_nodes sp < 2 ^ 32" using assms(1) sp(3) by fastforce
  obtain g where g: "stacked_graph_new (pq_sha256 (de_prims (se_drg S))) None (sp_nodes sp) BASE_DEGREE EXP_DEGREE (sp_porep_id sp) (sp_api_version sp) = Some (Inr g)"
      "graph_ok g (sp_nodes sp)"
    using stacked_graph_new_ok [OF n, of "pq_sha256 (de_prims (se_drg S))" "sp_porep_id sp" "sp_api_version sp"] by blast
  have "0 < pc_partitions cfg" using size_tables [OF assms(1)] cfg by (auto simp: partitions_ok_def split: if_splits)
  then have p: "compound_partition_count (Some (pc_partitions cfg)) = Inr (pc_partitions cfg)" by (cases "pc_partitions cfg") simp_all
  have "direct_challenges (sp_challenges sp) = None \<longleftrightarrow> sp_challenges sp \<in> range Synth" by (cases "sp_challenges sp") auto
  then show ?thesis
    using sp(1,2,4,5) d(1,2) l g p sp(3) [symmetric]
    by (simp add: stacked_params_def scheme_setup_def seal_graph_env_def NODE_SIZE_def)
qed

theorem stacked_params_wellformed_witness:
  "\<exists>cfg cp. new_groth16_with_features SECTOR_SIZE_32_GIB [] V1_2_0 [SyntheticPoRep] = Inr cfg \<and> stacked_params toy_sealer cfg = Some (Inr cp) \<and>
     graph_ok (ge_graph (ppr_graph (kc_vanilla cp))) (2 ^ 30) \<and> direct_challenges (ppr_challenges (kc_vanilla cp)) = None"
proof -
  have 1: "SECTOR_SIZE_32_GIB \<in> set SUPPORTED_SECTOR_SIZES" by (simp add: SUPPORTED_SECTOR_SIZES_def)
  obtain cfg where 2: "new_groth16_with_features SECTOR_SIZE_32_GIB [] V1_2_0 [SyntheticPoRep] = Inr cfg"
    by (simp add: new_groth16_with_features_def new_groth16_def porep_partitions_of_def POREP_PARTITIONS_def
        sector_size_defs enable_feature_def feature_enabled_def)
  have f: "feature_enabled cfg SyntheticPoRep" using new_groth16_with_features_ok [OF 2] by simp
  have n: "SECTOR_SIZE_32_GIB div NODE_SIZE = 2 ^ 30" by (simp add: SECTOR_SIZE_32_GIB_def NODE_SIZE_def)
  show ?thesis using stacked_params_wellformed [OF 1 2, of toy_sealer] 2 f unfolding n by blast
qed

text \<open>
  At another offset the range starts within a padded element: what is written for the range \<open>[1, 33)\<close> of a sector whose
  bytes are all 255 has a zero bit, the padding bit of the first element.
\<close>

lemma unaligned_range_differs:
  "\<exists>part bs. slice (pad_spec (replicate 127 255)) (to_padded_bytes 1) (to_padded_bytes 1 + to_padded_bytes 32) = Inr part \<and>
    write_unpadded Release vec_write_all part [] 0 32 = Some (Inr (bs, 32)) \<and> bs \<noteq> take 32 (drop 1 (replicate 127 255))"
proof -
  let ?raw = "replicate 127 (255::u8)" and ?part = "take 33 (drop 1 (pad_spec (replicate 127 255)))"
  have s: "to_padded_bytes 1 = 1" "to_padded_bytes 32 = 33" by (simp_all add: to_padded_eq pbit_def)
  have l: "length (pad_spec ?raw) = 128" by (simp add: length_pad_spec)
  have "\<not> nbit (unpad_spec ?part 0 32) 246"
    by (simp add: unpad_spec_def nbit_bytes_of pbit_def nbit_take nbit_drop) (simp add: pad_spec_def nbit_bytes_of pad_nbit_def)
  moreover have "nbit (take 32 (drop 1 ?raw)) 246" by (simp add: nbit_def)
  ultimately have "unpad_spec ?part 0 32 \<noteq> take 32 (drop 1 ?raw)" by metis
  moreover have "write_unpadded Release vec_write_all ?part [] 0 32 = Some (Inr (unpad_spec ?part 0 32, 32))"
    using write_unpadded_vec [of 0 32 ?part Release "[]"] l by (simp add: pbit_def)
  moreover have "slice (pad_spec ?raw) (to_padded_bytes 1) (to_padded_bytes 1 + to_padded_bytes 32) = Inr ?part"
    unfolding s using l by (simp add: slice_def)
  ultimately show ?thesis by blast
qed
end
