(* ===== verification/Spec2Isabelle.thy ===== *)
theory Spec2Isabelle
  imports Feistel Fr32_Reader Sha2raw Config Stacked_Graph Create_Label Porep_Scheme Pieces Post_Api Update_Api Seal_Complete
begin

text \<open>
  This library models the Filecoin proving subsystem up to the proofs that its circuits
  compress: everything from the bytes of a client to the vanilla proofs, and the part of the compound
  proofs and of the API that is not in the Groth16 prover. The program seals a sector: it pads the
  bytes of the client to field elements, labels the nodes of a depth robust graph in several layers,
  encodes the data with the last layer to a replica, and commits to the data, to the columns of labels
  and to the replica by Merkle trees (proof of replication). Later it answers challenges on the
  replica (proofs of spacetime), reads ranges of the data back, or puts new data into the replica with a
  proof of this (sector updates).

  Parts, in the order in which they build on each other.

  \<^item> \<open>Prelude\<close>: machine words, results with panics and errors as values (\<open>err + 'a\<close>, read
    with \<open>bindR\<close>), slices, \<open>chunks\<close>, bytes and bits. \<open>Core_Types\<close>: nodes, API versions and
    features, seeds and encodings (\<open>storage-proofs-core/src/util.rs\<close>, \<open>api_version.rs\<close>,
    \<open>crypto/\<close>, \<open>storage-proofs-porep/src/encode.rs\<close>). \<open>F32\<close>: rounded-up quotients in single
    precision, which decide the number of partitions of the proofs of spacetime.
  \<^item> \<open>Feistel\<close> (\<open>storage-proofs-core/src/crypto/feistel.rs\<close>): the permutation of the expander
    edges. It inverts, it is a bijection on the range it is asked for, and its loop ends.
  \<^item> \<open>Fr32_Padding\<close> (\<open>fr32/src/padding.rs\<close>) and \<open>Fr32_Reader\<close> (\<open>fr32/src/reader.rs\<close>): 254 bits
    of data for 256 bits of a field element. The bitwise layout is the specification
    of the two implementations. \<open>Commitment_Reader\<close> (\<open>filecoin-proofs/src/commitment_reader.rs\<close>)
    hashes what such a reader passes on. The locales \<open>byte_source\<close> and \<open>node_source\<close> are the contracts
    of readers; the padding reader turns the first into the second.
  \<^item> \<open>Sha2raw\<close> (\<open>sha2raw/src\<close>): the vectorised SHA-256, equal to FIPS 180-4. The standard is stated apart from the
    code: its constants are computed from the roots of the first primes, its functions from rotations.
  \<^item> \<open>Porep_Challenges\<close> (\<open>vanilla/challenges.rs\<close>): interactive, synthetic and non-interactive
    challenges; range, partitions and random access. \<open>Config\<close> (\<open>filecoin-proofs/src/constants.rs\<close>,
    \<open>parameters.rs\<close>, \<open>types/porep_config.rs\<close>): the tables and the parameters set up from them.
  \<^item> \<open>Stacked_Graph\<close> (\<open>storage-proofs-core/src/drgraph.rs\<close>, \<open>vanilla/graph.rs\<close>): base and
    expander parents, acyclicity and degrees. \<open>Parent_Cache\<close> (\<open>vanilla/cache.rs\<close>): the window
    over the file of parents.
  \<^item> \<open>Create_Label\<close> (\<open>vanilla/create_label\<close>): labels layer by layer with the files on disk,
    which refine the recursive \<open>label_spec\<close>.
  \<^item> \<open>Merkle_Proof\<close> (\<open>storage-proofs-core/src/merkle/proof.rs\<close>, \<open>por.rs\<close>): inclusion proofs in
    base, sub and top trees. The locale \<open>merkle_hash\<close> is the contract of the node hash, interpreted on
    the hashers of \<open>filecoin-hashers\<close>. \<open>Tree_Builders\<close> (\<open>merkle/builders.rs\<close>, \<open>tree.rs\<close>):
    trees opened from stores.
  \<^item> \<open>Pieces\<close> (\<open>filecoin-proofs/src/pieces.rs\<close>, \<open>storage-proofs-core/src/pieces.rs\<close>): alignment of
    pieces, and the commitment to the data of a sector from those to its pieces.
  \<^item> \<open>Porep_Proof\<close> (\<open>vanilla/params.rs\<close>, \<open>labeling_proof.rs\<close>, \<open>column_proof.rs\<close>, ...): the proof
    of one challenge and its verification, up to \<open>verify_all_partitions\<close>.
  \<^item> \<open>Synth_Proofs\<close> (\<open>SynthProofs\<close> of \<open>vanilla/params.rs\<close>): the file of the synthetic proofs.
    Readers are functions from bytes to a value and the bytes after it.
  \<^item> \<open>Stacked_Drg\<close> (\<open>vanilla/proof.rs\<close>): replication in two phases, the auxiliary data,
    extraction and the proofs of a set of challenges. \<open>Porep_Scheme\<close> (\<open>vanilla/proof.rs\<close>,
    \<open>proof_scheme.rs\<close>): proving all partitions in the three modes, and completeness of the whole.
  \<^item> \<open>Stacked_Compound\<close> (\<open>circuit/proof.rs\<close>, \<open>compound_proof.rs\<close>, \<open>multi_proof.rs\<close>): the public
    inputs of the circuit, batches of circuit proofs, their verification.
  \<^item> \<open>Seal_Api\<close> (\<open>filecoin-proofs/src/api/seal.rs\<close>, \<open>api/util.rs\<close>): the phases of sealing over the
    contents of files and the disk of the cache directory. \<open>Unseal_Api\<close> (\<open>api/mod.rs\<close>,
    \<open>storage-proofs-porep/src/stacked/vanilla/clear_files.rs\<close>): reading ranges of a sector,
    the checks of the cache directory, and the removal of its files from a file system of directories, where the paths that a
    pattern matches are those of the \<open>glob\<close> crate. \<open>Aggregation\<close>: provers and
    verifiers of aggregates pad alike. \<open>Seal_Complete\<close>: sealing from the phases to the commit, and
    the round trip through unsealing.
  \<^item> \<open>Fallback_Post\<close> (\<open>storage-proofs-post/src/fallback\<close>): proofs of spacetime over sectors.
    \<open>Replica_Info\<close> (\<open>types/private_replica_info.rs\<close>, \<open>public_replica_info.rs\<close>) and \<open>Post_Api\<close>
    (\<open>api/post_util.rs\<close>, \<open>window_post.rs\<close>, \<open>winning_post.rs\<close>): the same for sealed sectors.
  \<^item> \<open>Update_Challenges\<close> (\<open>storage-proofs-update/src/constants.rs\<close>, \<open>challenges.rs\<close>), \<open>Sector_Update\<close>
    and \<open>Update_Proofs\<close> (\<open>vanilla.rs\<close>): encoding of new data into a replica, its removal, proofs and
    their verification. \<open>Update_Compound\<close> (\<open>circuit.rs\<close>, \<open>compound.rs\<close>) and \<open>Update_Api\<close>
    (\<open>filecoin-proofs/src/api/update.rs\<close>, \<open>chunk_iter.rs\<close>): circuit inputs, circuit proofs, the API.

  What the groups of properties show. Completeness: honest sealing, replication, proofs of spacetime and
  updates give results and are accepted (\<open>seal_complete\<close>, \<open>porep_complete\<close>, \<open>post_complete\<close>,
  \<open>api_update_complete\<close>, \<open>aggregate_complete\<close>). Soundness of the vanilla verification: what is accepted
  opens the committed trees at the challenged nodes. The exception is an opening whose own hash chain collides with the
  tree (\<open>proof_collides\<close>, \<open>pair_collides\<close>): the values hashed in the proof at some level are not those of the tree at this place,
  but have their hash. It is a predicate on the given opening and tree, not the existence of some collision.
  Round trips of sealing and unsealing, encoding and decoding, files of proofs, padding. Refinement of
  the labels and of the padding by the code with files and buffers. Shapes, bounds, ends of loops.

  Conventions. Panics (failed assertions, those of \<open>debug_assert!\<close> included, indices out of range, underflow, overflow of sizes) are
  \<open>Inl (Panic _)\<close>, as in a build with checks, returned errors \<open>Inl (Fail _)\<close>; messages are not part of any property.
  \<open>write_unpadded\<close>, where a release build returns something else than the intended error, takes the build
  as an argument (\<open>With_Checks\<close> or \<open>Release\<close>); the API calls it in the release build. The outcome \<open>None\<close> of
  an \<open>option\<close> around a result is a run that does not end.
  Sizes and positions are \<open>nat\<close> with underflow written out, everything that wraps is a word. A disk
  is a map from file names to bytes. Parallel loops whose iterations are independent are
  sequential; the verification jobs of the prover are an arbitrary schedule.

  External code (the digests of the \<open>sha2\<close>, \<open>blake2\<close> and \<open>chacha\<close> crates, Poseidon, the field
  conversions, the \<open>merkletree\<close> crate, \<open>glob\<close>, \<open>f64::log2\<close>) are arguments. So are the Groth16 prover and verifier with their
  parameter caches and the \<open>bincode\<close> serialization, in the records \<open>snark\<close>, \<open>seal_env\<close>,
  \<open>post_api\<close>, \<open>update_groth\<close> and \<open>update_api\<close>. What is assumed of them are named predicates, their documented
  behaviour, each shown to hold of an instance: \<open>fr_ok\<close>, \<open>store_ok\<close>, \<open>crate_ok\<close>, \<open>merkle_hash\<close>, \<open>hash_nodes\<close>,
  \<open>log2_bounded\<close>, \<open>rows_ok\<close>, \<open>zeros_ok\<close>, \<open>binary_tree_ok\<close>, \<open>opener_ok\<close>, \<open>randomness_ok\<close>,
  \<open>data_store_ok\<close>, \<open>aggregation_ok\<close>, \<open>glob_plain\<close>. The predicates \<open>post_ok\<close>, \<open>api_ok\<close>, \<open>update_ok\<close>, \<open>api_update_ok\<close>, \<open>seal_setting\<close>
  collect them with the settings of one proof.

  Bounds. There is no fuel: loops are structural or have a measure, or are functions whose outcome
  is \<open>None\<close> where they do not end (\<open>partial_function\<close>): the masks and the cycle walk of the Feistel permutation, the loops
  of readers and of the unpadding, the stack of pieces and the loops over their sizes, the padding of
  aggregates. These are shown to end where the properties say that something is returned. The bounds in the properties (fewer than \<open>2 ^ 32\<close> nodes, 256
  partitions) are those of the integer types in the code.

  Not modelled: the constraint systems (\<open>synthesize\<close> and the gadgets, over the \<open>bellperson\<close> crate), Groth16
  itself, the files of its parameters (\<open>parameter_cache.rs\<close>, \<open>caches.rs\<close>, \<open>fil-proofs-param\<close>), the GPU
  variants (features \<open>cuda\<close> and \<open>opencl\<close>), multi-core labelling over shared memory, the platform
  intrinsics of SHA-256, the Poseidon hash, cache identifiers and settings, benchmarks and command line tools.
\<close>

end
